(* ===== verification/Amix_Prelude.thy ===== *)
theory Amix_Prelude
  imports Main "HOL-Library.Word"
begin

text \<open>
  Types, arithmetic and list facts shared by every component of the development.

  The program is C for the 68020 under AMIX: \<open>unsigned char\<close>, \<open>unsigned short\<close> and
  \<open>unsigned int\<close> are 8, 16 and 32 bits wide and multi-byte values are big-endian. A C \<open>int\<close>
  that can overflow is an \<open>int\<close> with the wrap-around written out by \<open>s32\<close>.

  The theory also holds the locale of transition systems with an inductive invariant, which
  every stateful component of the library interprets on its own step relation.
\<close>

unbundle bit_operations_syntax

section \<open>Machine types\<close>

type_synonym byte = "8 word"
type_synonym u16 = "16 word"
type_synonym u32 = "32 word"

named_theorems arith32 "wrap-around of 32-bit C integers"
named_theorems lens "reading a component of the state after an update of another one"

definition s32 :: "int \<Rightarrow> int" where
  "s32 x = (x + 2147483648) mod 4294967296 - 2147483648"

lemma s32_id [arith32]: "- 2147483648 \<le> x \<Longrightarrow> x < 2147483648 \<Longrightarrow> s32 x = x"
  by (simp add: s32_def)

lemma s32_bounds: "- 2147483648 \<le> s32 x" "s32 x < 2147483648"
  by (simp_all add: s32_def)

lemma unat_of_nat32: "n < 4294967296 \<Longrightarrow> unat (of_nat n :: u32) = n"
  by (simp add: unat_of_nat)

lemma of_nat32_inject: "m < 4294967296 \<Longrightarrow> n < 4294967296 \<Longrightarrow> (of_nat m :: u32) = of_nat n \<longleftrightarrow> m = n"
  by (metis unat_of_nat32)

lemma unat_u32_less: "unat (x :: u32) < 4294967296"
proof -
  have "(unsigned x :: nat) < 2 ^ LENGTH(32)" by (rule unsigned_less)
  then show ?thesis by simp
qed

section \<open>Big-endian packing\<close>

definition be16 :: "byte \<Rightarrow> byte \<Rightarrow> u16" where
  "be16 hi lo = push_bit 8 (ucast hi) OR ucast lo"

definition hi8 :: "u16 \<Rightarrow> byte" where
  "hi8 w = ucast (drop_bit 8 w)"

definition lo8 :: "u16 \<Rightarrow> byte" where
  "lo8 w = ucast w"

lemma be16_hi8_lo8 [simp]: "be16 (hi8 w) (lo8 w) = w"
  unfolding be16_def hi8_def lo8_def
  by (rule bit_eqI) (auto simp: bit_simps)

lemma hi8_be16 [simp]: "hi8 (be16 h l) = h"
  unfolding be16_def hi8_def
  by (rule bit_eqI) (auto simp: bit_simps dest: bit_imp_le_length)

lemma lo8_be16 [simp]: "lo8 (be16 h l) = l"
  unfolding be16_def lo8_def
  by (rule bit_eqI) (auto simp: bit_simps)

section \<open>Lists\<close>

lemma list_all_nth_update:
  "list_all P xs \<Longrightarrow> P y \<Longrightarrow> list_all P (xs[i := y])"
  by (auto simp: list_all_iff dest!: set_update_subset_insert [THEN subsetD])

lemma nth_update_map: "i < length xs \<Longrightarrow> (xs[i := f (xs ! i)]) ! j = (if i = j then f (xs ! j) else xs ! j)"
  by (cases "j < length xs") auto

lemma length_filter_all: "length (filter P xs) = length xs \<longleftrightarrow> (\<forall>x \<in> set xs. P x)"
proof (induction xs)
  case (Cons x xs)
  have "length (filter P xs) \<noteq> Suc (length xs)" by (metis Suc_n_not_le_n length_filter_le)
  then show ?case using Cons by simp
qed simp

lemma upt_4: "[0..<4] = [0, 1, 2, 3 :: nat]"
  by (simp add: upt_rec)

section \<open>Search loops\<close>

text \<open>
  \<open>scan p j n\<close> is the value of \<open>j\<close> after \<open>for (; j < n; j++) if (p j) break;\<close>.
\<close>

function scan :: "(nat \<Rightarrow> bool) \<Rightarrow> nat \<Rightarrow> nat \<Rightarrow> nat" where
  "scan p j n = (if j < n \<and> \<not> p j then scan p (Suc j) n else j)"
  by pat_completeness auto
termination
  by (relation "measure (\<lambda>(p, j, n). n - j)") auto

declare scan.simps [simp del]

lemma scan_end: "j \<le> n \<Longrightarrow> scan p j n = n \<longleftrightarrow> (\<forall>k. j \<le> k \<and> k < n \<longrightarrow> \<not> p k)"
proof (induction p j n rule: scan.induct)
  case (1 p j n)
  have step: "(\<forall>k. j \<le> k \<and> k < n \<longrightarrow> \<not> p k) \<longleftrightarrow>
      \<not> p j \<and> (\<forall>k. Suc j \<le> k \<and> k < n \<longrightarrow> \<not> p k)" if "j < n"
    using that by (metis Suc_leD Suc_leI le_eq_less_or_eq le_refl)
  show ?case using 1 step by (auto simp: scan.simps [of p j n])
qed

lemma scan_le: "j \<le> n \<Longrightarrow> scan p j n \<le> n"
proof (induction p j n rule: scan.induct)
  case (1 p j n)
  then show ?case by (simp add: scan.simps [of p j n])
qed

lemma scan_ge: "j \<le> scan p j n"
proof (induction p j n rule: scan.induct)
  case (1 p j n)
  then show ?case by (subst scan.simps) (auto dest: Suc_leD)
qed

lemma scan_holds: "scan p j n < n \<Longrightarrow> p (scan p j n) \<and> (\<forall>k. j \<le> k \<and> k < scan p j n \<longrightarrow> \<not> p k)"
proof (induction p j n rule: scan.induct)
  case (1 p j n)
  show ?case
  proof (cases "j < n \<and> \<not> p j")
    case True
    then have eq: "scan p j n = scan p (Suc j) n" by (simp add: scan.simps [of p j n])
    have "scan p (Suc j) n < n" using 1(2) eq by simp
    with 1(1) True have ih: "p (scan p (Suc j) n)" "\<And>k. Suc j \<le> k \<Longrightarrow> k < scan p (Suc j) n \<Longrightarrow> \<not> p k"
      by blast+
    have "\<not> p k" if k: "j \<le> k" "k < scan p (Suc j) n" for k
    proof (cases "k = j")
      case True
      then show ?thesis using \<open>j < n \<and> \<not> p j\<close> by simp
    next
      case False
      then show ?thesis using ih(2) [of k] k by simp
    qed
    then show ?thesis unfolding eq using ih(1) by blast
  next
    case False
    then have "scan p j n = j" by (subst scan.simps) auto
    then show ?thesis using 1(2) False by auto
  qed
qed

lemma scan_filter: "j \<le> n \<Longrightarrow> scan p j n = (case filter p [j..<n] of [] \<Rightarrow> n | k # _ \<Rightarrow> k)"
proof (induction p j n rule: scan.induct)
  case (1 p j n)
  then show ?case by (cases "j < n") (auto simp: scan.simps [of p j n] scan.simps [of p n n] upt_rec [of j n])
qed

section \<open>Transition systems\<close>

text \<open>
  A stateful component is a set of initial states and a step relation. The locale carries the
  induction over reachable states once; a component supplies the invariant and the proof that its
  steps keep it.
\<close>

inductive reach :: "('s \<Rightarrow> bool) \<Rightarrow> ('s \<Rightarrow> 's \<Rightarrow> bool) \<Rightarrow> 's \<Rightarrow> bool"
  for start :: "'s \<Rightarrow> bool" and step :: "'s \<Rightarrow> 's \<Rightarrow> bool" where
  reach_start: "start s \<Longrightarrow> reach start step s"
| reach_step: "reach start step s \<Longrightarrow> step s t \<Longrightarrow> reach start step t"

locale transition_system =
  fixes start :: "'s \<Rightarrow> bool" and step :: "'s \<Rightarrow> 's \<Rightarrow> bool" and inv :: "'s \<Rightarrow> bool"
  assumes start_inv: "start s \<Longrightarrow> inv s"
    and step_inv: "inv s \<Longrightarrow> step s t \<Longrightarrow> inv t"
begin

lemma reach_inv: "reach start step s \<Longrightarrow> inv s"
  by (induction rule: reach.induct) (auto intro: start_inv step_inv)

lemma steps_inv: "step\<^sup>*\<^sup>* s t \<Longrightarrow> inv s \<Longrightarrow> inv t"
  by (induction rule: rtranclp_induct) (auto intro: step_inv)

end

section \<open>Simulations\<close>

text \<open>
  An operation on concrete states that may fault, and what it promises on abstract ones: from a good
  state it does not fault, stays good and does what the abstract operation does. Sequences follow.
\<close>

fun run :: "('r \<Rightarrow> 's \<Rightarrow> 's option) \<Rightarrow> 'r list \<Rightarrow> 's \<Rightarrow> 's option" where
  "run f [] s = Some s"
| "run f (r # rs) s = (case f r s of None \<Rightarrow> None | Some t \<Rightarrow> run f rs t)"

lemma run_append: "run f (xs @ ys) s = (case run f xs s of None \<Rightarrow> None | Some t \<Rightarrow> run f ys t)"
  by (induction xs arbitrary: s) (simp_all split: option.splits)

locale simulation =
  fixes good :: "'s \<Rightarrow> bool" and valid :: "'r \<Rightarrow> bool" and abs :: "'s \<Rightarrow> 'a"
    and impl :: "'r \<Rightarrow> 's \<Rightarrow> 's option" and spec :: "'c \<Rightarrow> 'r \<Rightarrow> 'a \<Rightarrow> 'a"
  assumes simulates: "good s \<Longrightarrow> valid r \<Longrightarrow> \<exists>t c. impl r s = Some t \<and> good t \<and> abs t = spec c r (abs s)"
begin

lemma run_simulates:
  "good s \<Longrightarrow> list_all valid rs \<Longrightarrow>
    \<exists>t cs. run impl rs s = Some t \<and> good t \<and> length cs = length rs \<and>
      abs t = fold (\<lambda>(c, r). spec c r) (zip cs rs) (abs s)"
proof (induction rs arbitrary: s)
  case (Cons r rs)
  then obtain u c where u: "impl r s = Some u" "good u" "abs u = spec c r (abs s)" using simulates by fastforce
  with Cons.IH [of u] Cons.prems(2) obtain t cs where "run impl rs u = Some t" "good t" "length cs = length rs"
    "abs t = fold (\<lambda>(c, r). spec c r) (zip cs rs) (abs u)" by auto
  with u show ?case by (intro exI [of _ t] exI [of _ "c # cs"]) simp
qed simp

end

end
