(* ===== verification/Streams.thy ===== *)
theory Streams
  imports Amix_Prelude
begin

text \<open>
  The vocabulary the drivers share with the kernel they run in: messages, the calls a driver
  makes, and the environment that answers them.

  The STREAMS framework, the DLPI header and the hardware are not part of the repository. A driver
  is therefore modelled against an environment: every call the code makes is recorded, newest first,
  in a trace, and every answer the code uses (the byte a device register returns, whether
  \<open>allocb\<close> finds memory, the message \<open>getq\<close> returns, the size of a structure, the
  value of a macro of a header that is not in the repository) is a function of the calls made so far. A theorem that quantifies over the environment holds for every
  kernel and every device; a theorem that needs documented behaviour of either names it as a
  hypothesis on the environment.

  Message blocks are typed: a block holds the structure the code overlays on it. Reading a block as
  a structure it does not hold, or a pointer that is null, is undefined behaviour of the C code and is
  the value \<open>None\<close> of the operation.
\<close>

section \<open>Queues and messages\<close>

text \<open>A stream is a pair of queues; \<open>RD\<close>, \<open>WR\<close> and \<open>OTHERQ\<close> move between the two.\<close>

datatype queue = RQ nat | WQ nat

fun RD :: "queue \<Rightarrow> queue" where
  "RD (RQ n) = RQ n" | "RD (WQ n) = RQ n"

fun WR :: "queue \<Rightarrow> queue" where
  "WR (RQ n) = WQ n" | "WR (WQ n) = WQ n"

fun OTHERQ :: "queue \<Rightarrow> queue" where
  "OTHERQ (RQ n) = WQ n" | "OTHERQ (WQ n) = RQ n"

datatype mtype = M_DATA | M_PROTO | M_PCPROTO | M_IOCTL | M_IOCDATA | M_IOCACK | M_IOCNAK
  | M_COPYIN | M_COPYOUT | M_FLUSH | M_CTL | M_BREAK | M_START | M_STOP | M_DELAY | M_STARTI
  | M_STOPI | M_READ | M_OTHER nat

datatype open_flag = DEVOPEN | MODOPEN | CLONEOPEN

datatype errno = EPERM | EIO | ENXIO | ENOMEM | EBUSY | ENODEV | EINVAL | ENOSPC | EROFS | EINTR | EFAULT | EAGAIN

text \<open>DLPI service states, primitives and constants, as far as the drivers use them.\<close>

datatype dl_state = DL_UNBOUND | DL_IDLE | DL_UNATTACHED

datatype dl_const = DL_ETHER | DL_CLDLS | DL_STYLE1

datatype dl_request =
    DL_UNITDATA_REQ nat "byte list" \<comment> \<open>\<open>dl_dest_addr_offset\<close>, and the bytes of the block\<close>
  | DL_ATTACH_REQ
  | DL_BIND_REQ u32 \<comment> \<open>\<open>dl_sap\<close>\<close>
  | DL_INFO_REQ
  | DL_UNBIND_REQ
  | DL_DETACH_REQ
  | DL_OTHER_REQ u32

record dl_bind_ack =
  ba_sap :: u32
  ba_addr_length :: nat
  ba_addr_offset :: nat
  ba_max_conind :: nat
  ba_growth :: nat

record dl_info_ack =
  ia_max_sdu :: nat
  ia_min_sdu :: nat
  ia_addr_length :: nat
  ia_mac_type :: dl_const
  ia_reserved :: nat
  ia_current_state :: "dl_state option"
  ia_max_idu :: nat
  ia_service_mode :: dl_const
  ia_qos_length :: nat
  ia_qos_offset :: nat
  ia_qos_range_length :: nat
  ia_qos_range_offset :: nat
  ia_provider_style :: dl_const
  ia_growth :: nat
  ia_addr_offset :: nat

record dl_unitdata_ind =
  ui_dest_addr_length :: nat
  ui_dest_addr_offset :: nat
  ui_src_addr_length :: nat
  ui_src_addr_offset :: nat
  ui_reserved :: nat

text \<open>
  A reply carries its structure and the address bytes the driver copies behind it. The correct
  primitive of \<open>DL_OK_ACK\<close> is the request it answers.
\<close>

datatype dl_reply =
    DL_OK_ACK dl_request
  | DL_BIND_ACK dl_bind_ack "byte list"
  | DL_INFO_ACK dl_info_ack "byte list"
  | DL_UNITDATA_IND dl_unitdata_ind "byte list"

text \<open>
  The control block of an ioctl message: \<open>struct iocblk\<close>, \<open>struct copyreq\<close> and
  \<open>struct copyresp\<close> overlay one another; the drivers read the fields of the view that the
  message type selects. \<open>cq_private\<close> and \<open>cp_private\<close> are pointers, 0 for null.
\<close>

record ctlblk =
  ioc_cmd :: u32
  ioc_count :: u32
  ioc_error :: "errno option"
  ioc_rval :: u32
  cp_rval :: u32
  cp_private :: u32
  cq_addr :: u32
  cq_size :: nat
  cq_flag :: u32
  cq_private :: u32
  ioc_ifflags :: u32 \<comment> \<open>of \<open>struct iocblk_in\<close>\<close>

definition TRANSPARENT :: u32 where
  "TRANSPARENT = 0xFFFFFFFF"

datatype 'x content =
    Bytes "byte list"
  | Req dl_request
  | Reply dl_reply
  | Ctl ctlblk
  | Arg u32 \<comment> \<open>the pointer argument of a transparent ioctl\<close>
  | Drv 'x \<comment> \<open>a structure of the driver's own header\<close>

datatype 'x msg = Msg (db_type: mtype) (body: "'x content") (b_cont: "(mtype \<times> 'x content) list")

definition FLUSHR :: byte where "FLUSHR = 1"
definition FLUSHW :: byte where "FLUSHW = 2"

section \<open>Interface statistics\<close>

text \<open>The fields of the kernel's \<open>struct ifstats\<close> that the drivers of this tree touch.\<close>

record ifstats =
  ifs_name :: "string option"
  ifs_unit :: nat
  ifs_active :: u32
  ifs_mtu :: nat
  ifs_ipackets :: u32
  ifs_ierrors :: u32
  ifs_opackets :: u32
  ifs_oerrors :: u32

definition zero_ifstats :: ifstats where
  "zero_ifstats = \<lparr>ifs_name = None, ifs_unit = 0, ifs_active = 0, ifs_mtu = 0, ifs_ipackets = 0,
     ifs_ierrors = 0, ifs_opackets = 0, ifs_oerrors = 0\<rparr>"

section \<open>Calls and the environment\<close>

datatype 'x ev =
    In8 u32 byte
  | Out8 u32 byte
  | In32 u32 u32
  | Out32 u32 u32
  | Delay nat
  | Allocb nat bool
  | Freemsg "'x msg"
  | Putnext queue "'x msg"
  | Qreply queue "'x msg"
  | Putq queue "'x msg"
  | Putbq queue "'x msg"
  | Getq queue "'x msg option"
  | Flushq queue
  | Cmn_err string nat
  | Printf string \<comment> \<open>the format; the arguments are not recorded\<close>
  | Freeb "'x msg"

record 'x env =
  e_in8 :: "'x ev list \<Rightarrow> u32 \<Rightarrow> byte"
  e_in32 :: "'x ev list \<Rightarrow> u32 \<Rightarrow> u32"
  e_allocb :: "'x ev list \<Rightarrow> nat \<Rightarrow> bool"
  e_canput :: "'x ev list \<Rightarrow> queue \<Rightarrow> bool"
  e_q_first :: "'x ev list \<Rightarrow> queue \<Rightarrow> bool"
  e_getq :: "'x ev list \<Rightarrow> queue \<Rightarrow> 'x msg option"
  e_panicstr :: "'x ev list \<Rightarrow> bool"
  e_stack :: "'x ev list \<Rightarrow> nat \<Rightarrow> byte"
  e_sizeof :: "string \<Rightarrow> nat"
  e_const :: "string \<Rightarrow> u32"
  e_dblim :: "'x ev list \<Rightarrow> nat \<Rightarrow> nat" \<comment> \<open>room in the block \<open>allocb\<close> returns\<close>

text \<open>Every driver state extends the trace.\<close>

record 'x tstate =
  tr :: "'x ev list"

definition call :: "'x ev \<Rightarrow> ('x, 'z) tstate_scheme \<Rightarrow> ('x, 'z) tstate_scheme" where
  "call e s = s\<lparr>tr := e # tr s\<rparr>"

definition in8 :: "'x env \<Rightarrow> u32 \<Rightarrow> ('x, 'z) tstate_scheme \<Rightarrow> byte \<times> ('x, 'z) tstate_scheme" where
  "in8 E a s = (let v = e_in8 E (tr s) a in (v, call (In8 a v) s))"

definition in32 :: "'x env \<Rightarrow> u32 \<Rightarrow> ('x, 'z) tstate_scheme \<Rightarrow> u32 \<times> ('x, 'z) tstate_scheme" where
  "in32 E a s = (let v = e_in32 E (tr s) a in (v, call (In32 a v) s))"

definition out8 :: "u32 \<Rightarrow> byte \<Rightarrow> ('x, 'z) tstate_scheme \<Rightarrow> ('x, 'z) tstate_scheme" where
  "out8 a v s = call (Out8 a v) s"

definition out32 :: "u32 \<Rightarrow> u32 \<Rightarrow> ('x, 'z) tstate_scheme \<Rightarrow> ('x, 'z) tstate_scheme" where
  "out32 a v s = call (Out32 a v) s"

definition allocb :: "'x env \<Rightarrow> nat \<Rightarrow> ('x, 'z) tstate_scheme \<Rightarrow> bool \<times> ('x, 'z) tstate_scheme" where
  "allocb E n s = (let ok = e_allocb E (tr s) n in (ok, call (Allocb n ok) s))"

definition getq :: "'x env \<Rightarrow> queue \<Rightarrow> ('x, 'z) tstate_scheme \<Rightarrow> 'x msg option \<times> ('x, 'z) tstate_scheme" where
  "getq E q s = (let r = e_getq E (tr s) q in (r, call (Getq q r) s))"

text \<open>\<open>freemsg\<close> of a continuation that may be null.\<close>

definition free_cont :: "(mtype \<times> 'x content) list \<Rightarrow> ('x, 'z) tstate_scheme \<Rightarrow> ('x, 'z) tstate_scheme" where
  "free_cont bs s = (case bs of [] \<Rightarrow> s | (ty, c) # bs' \<Rightarrow> call (Freemsg (Msg ty c bs')) s)"

text \<open>
  The canonical treatment of \<open>M_FLUSH\<close> by a driver: flush the write side if asked to, clear that
  bit, and send the message back up if the read side is to be flushed. A message without a byte is undefined.
\<close>

definition flush_msg :: "queue \<Rightarrow> 'x msg \<Rightarrow> ('x, 'z) tstate_scheme \<Rightarrow> ('x, 'z) tstate_scheme option" where
  "flush_msg q mp s =
    (case body mp of
       Bytes (b # bs) \<Rightarrow>
         let (b, s) = (if b AND FLUSHW \<noteq> 0 then (b AND NOT FLUSHW, call (Flushq q) s) else (b, s));
             m = Msg (db_type mp) (Bytes (b # bs)) (b_cont mp)
         in Some (if b AND FLUSHR \<noteq> 0 then call (Qreply q m) s else call (Freemsg m) s)
     | _ \<Rightarrow> None)"

text \<open>The calls leave everything but the trace alone.\<close>

lemma call_lens [lens]:
  "tr (call e s) = e # tr s"
  "tstate.more (call e s) = tstate.more s"
  by (simp_all add: call_def)

definition calls :: "'x ev list \<Rightarrow> ('x, 'z) tstate_scheme \<Rightarrow> ('x, 'z) tstate_scheme" where
  "calls es s = s\<lparr>tr := es @ tr s\<rparr>"

lemma calls_simps [simp]:
  "calls [] s = s" "calls a (calls b s) = calls (a @ b) s" "call e (calls b s) = calls (e # b) s"
  "calls a (call e s) = calls (a @ [e]) s"
  by (simp_all add: calls_def call_def)

lemma tr_calls [lens]: "tr (calls es s) = es @ tr s"
  by (simp add: calls_def)

text \<open>A step that only makes calls: it extends the trace and changes nothing else.\<close>

definition io_only :: "('x, 'z) tstate_scheme \<Rightarrow> ('x, 'z) tstate_scheme \<Rightarrow> bool" where
  "io_only s t \<longleftrightarrow> (\<exists>es. t = calls es s)"

lemma io_only_refl [simp, intro]: "io_only s s"
  unfolding io_only_def by (metis calls_simps(1))

lemma io_only_trans [trans]: "io_only s t \<Longrightarrow> io_only t u \<Longrightarrow> io_only s u"
  unfolding io_only_def by (metis calls_simps(2))

lemma io_only_call [intro!]: "io_only s t \<Longrightarrow> io_only s (call e t)"
  unfolding io_only_def by (metis calls_simps(3))

lemma io_only_calls [intro!]: "io_only s t \<Longrightarrow> io_only s (calls es t)"
  unfolding io_only_def by (metis calls_simps(2))

lemma io_only_fold:
  "(\<And>x t. io_only s t \<Longrightarrow> io_only s (g x t)) \<Longrightarrow> io_only s t \<Longrightarrow> io_only s (fold g xs t)"
  by (induction xs arbitrary: t) simp_all

lemmas io_defs = in8_def in32_def out8_def out32_def allocb_def getq_def

section \<open>Queue discipline\<close>

text \<open>
  The documented discipline of a queue for messages of one priority: \<open>putq\<close> appends,
  \<open>putbq\<close> puts back at the head, \<open>getq\<close> takes the head, \<open>flushq\<close> empties it.
  \<open>queued q h\<close> is the content of \<open>q\<close> after the calls \<open>h\<close>, and \<open>fifo_env\<close> says the
  environment answers \<open>getq\<close> and \<open>q_first\<close> from it.
\<close>

fun queued :: "queue \<Rightarrow> 'x ev list \<Rightarrow> 'x msg list" where
  "queued q [] = []"
| "queued q (Putq q' m # h) = (if q' = q then queued q h @ [m] else queued q h)"
| "queued q (Putbq q' m # h) = (if q' = q then m # queued q h else queued q h)"
| "queued q (Getq q' r # h) = (if q' = q then tl (queued q h) else queued q h)"
| "queued q (Flushq q' # h) = (if q' = q then [] else queued q h)"
| "queued q (e # h) = queued q h"

definition fifo_env :: "'x env \<Rightarrow> bool" where
  "fifo_env E \<longleftrightarrow> (\<forall>h q. e_q_first E h q = (queued q h \<noteq> []) \<and>
     e_getq E h q = (case queued q h of [] \<Rightarrow> None | m # _ \<Rightarrow> Some m))"

section \<open>What a trace does to messages\<close>

text \<open>An access to the hardware or a delay: it moves no message.\<close>

fun hw_ev :: "'x ev \<Rightarrow> bool" where
  "hw_ev (In8 a v) = True"
| "hw_ev (Out8 a v) = True"
| "hw_ev (In32 a v) = True"
| "hw_ev (Out32 a v) = True"
| "hw_ev (Delay n) = True"
| "hw_ev e = False"

definition hw_only :: "('x, 'z) tstate_scheme \<Rightarrow> ('x, 'z) tstate_scheme \<Rightarrow> bool" where
  "hw_only s t \<longleftrightarrow> (\<exists>es. list_all hw_ev es \<and> t = calls es s)"

lemma hw_only_refl [simp, intro]: "hw_only s s"
  unfolding hw_only_def by (metis calls_simps(1) list.pred_inject)

lemma hw_only_trans [trans]: "hw_only s t \<Longrightarrow> hw_only t u \<Longrightarrow> hw_only s u"
  unfolding hw_only_def by (metis calls_simps(2) list_all_append)

lemma hw_only_call [intro!]: "hw_ev e \<Longrightarrow> hw_only s t \<Longrightarrow> hw_only s (call e t)"
  unfolding hw_only_def by (metis calls_simps(3) list.pred_inject)

lemma hw_only_calls [intro!]: "list_all hw_ev es \<Longrightarrow> hw_only s t \<Longrightarrow> hw_only s (calls es t)"
  unfolding hw_only_def by (metis calls_simps(2) list_all_append)

lemma hw_only_io: "hw_only s t \<Longrightarrow> io_only s t"
  unfolding hw_only_def io_only_def by blast

text \<open>The messages a driver has freed and those it has passed on, oldest first.\<close>

fun freed :: "'x ev list \<Rightarrow> 'x msg list" where
  "freed [] = []"
| "freed (Freemsg m # h) = freed h @ [m]"
| "freed (Freeb m # h) = freed h @ [m]"
| "freed (e # h) = freed h"

fun passed :: "'x ev list \<Rightarrow> (queue \<times> 'x msg) list" where
  "passed [] = []"
| "passed (Putnext q m # h) = passed h @ [(q, m)]"
| "passed (Qreply q m # h) = passed h @ [(OTHERQ q, m)]"
| "passed (e # h) = passed h"

lemma hw_quiet [simp]:
  "list_all hw_ev es \<Longrightarrow> queued q (es @ h) = queued q h"
  "list_all hw_ev es \<Longrightarrow> freed (es @ h) = freed h"
  "list_all hw_ev es \<Longrightarrow> passed (es @ h) = passed h"
proof -
  have "hw_ev e \<Longrightarrow> queued q (e # h) = queued q h \<and> freed (e # h) = freed h \<and> passed (e # h) = passed h"
    for e :: "'a ev" and h
    by (cases e) simp_all
  then show "list_all hw_ev es \<Longrightarrow> queued q (es @ h) = queued q h"
    "list_all hw_ev es \<Longrightarrow> freed (es @ h) = freed h"
    "list_all hw_ev es \<Longrightarrow> passed (es @ h) = passed h"
    by (induction es) simp_all
qed

lemma hw_quiet_nil [simp]:
  "list_all hw_ev es \<Longrightarrow> queued q es = []" "list_all hw_ev es \<Longrightarrow> freed es = []"
  "list_all hw_ev es \<Longrightarrow> passed es = []"
  using hw_quiet [where es = es and h = "[]"] by simp_all

lemma freed_append [simp]: "freed (a @ b) = freed b @ freed a"
  by (induction a rule: freed.induct) simp_all

lemma passed_append [simp]: "passed (a @ b) = passed b @ passed a"
  by (induction a rule: passed.induct) simp_all

end
