(* ===== verification/Hydra_Regs.thy ===== *)
theory Hydra_Regs
  imports Streams
begin

text \<open>
  The constants of the Hydra driver: the DP8390 registers and bits of \<open>ne2000.h\<close> that the code
  uses, the buffer-memory layout of the board, and the sizes of \<open>hydra.h\<close>. A register number is
  multiplied by 2 to give its byte offset on the Zorro bus.
\<close>

section \<open>DP8390 registers and bits (ne2000.h)\<close>

abbreviation (input) NE_CR :: nat where "NE_CR \<equiv> 0x00"
abbreviation (input) NE_BNRY :: nat where "NE_BNRY \<equiv> 0x03"
abbreviation (input) NE_TSR :: nat where "NE_TSR \<equiv> 0x04"
abbreviation (input) NE_FIFO :: nat where "NE_FIFO \<equiv> 0x06"
abbreviation (input) NE_ISR :: nat where "NE_ISR \<equiv> 0x07"
abbreviation (input) NE_RBCNT0 :: nat where "NE_RBCNT0 \<equiv> 0x0a"
abbreviation (input) NE_RBCNT1 :: nat where "NE_RBCNT1 \<equiv> 0x0b"
abbreviation (input) NE_TBCNT0 :: nat where "NE_TBCNT0 \<equiv> 0x05"
abbreviation (input) NE_TBCNT1 :: nat where "NE_TBCNT1 \<equiv> 0x06"
abbreviation (input) NE_CNTR0 :: nat where "NE_CNTR0 \<equiv> 0x0d"
abbreviation (input) NE_PSTART :: nat where "NE_PSTART \<equiv> 0x01"
abbreviation (input) NE_PSTOP :: nat where "NE_PSTOP \<equiv> 0x02"
abbreviation (input) NE_TPSR :: nat where "NE_TPSR \<equiv> 0x04"
abbreviation (input) NE_TBCNT0_W :: nat where "NE_TBCNT0_W \<equiv> 0x05"
abbreviation (input) NE_TBCNT1_W :: nat where "NE_TBCNT1_W \<equiv> 0x06"
abbreviation (input) NE_RCR :: nat where "NE_RCR \<equiv> 0x0c"
abbreviation (input) NE_TCR :: nat where "NE_TCR \<equiv> 0x0d"
abbreviation (input) NE_DCR :: nat where "NE_DCR \<equiv> 0x0e"
abbreviation (input) NE_IMR :: nat where "NE_IMR \<equiv> 0x0f"
abbreviation (input) NE_PAR0 :: nat where "NE_PAR0 \<equiv> 0x01"
abbreviation (input) NE_CURR :: nat where "NE_CURR \<equiv> 0x07"
abbreviation (input) NE_MAR0 :: nat where "NE_MAR0 \<equiv> 0x08"

abbreviation (input) NE_TCR_NORMAL :: byte where "NE_TCR_NORMAL \<equiv> 0x00"
abbreviation (input) NE_RCR_AB :: byte where "NE_RCR_AB \<equiv> 0x04"
abbreviation (input) NE_RCR_AM :: byte where "NE_RCR_AM \<equiv> 0x08"
abbreviation (input) NE_IMR_PRXE :: byte where "NE_IMR_PRXE \<equiv> 0x01"
abbreviation (input) NE_IMR_PTXE :: byte where "NE_IMR_PTXE \<equiv> 0x02"
abbreviation (input) NE_IMR_RXEE :: byte where "NE_IMR_RXEE \<equiv> 0x04"
abbreviation (input) NE_IMR_TXEE :: byte where "NE_IMR_TXEE \<equiv> 0x08"
abbreviation (input) NE_IMR_OVWE :: byte where "NE_IMR_OVWE \<equiv> 0x10"
abbreviation (input) NE_IMR_CNTE :: byte where "NE_IMR_CNTE \<equiv> 0x20"
abbreviation (input) NE_CR_P0 :: byte where "NE_CR_P0 \<equiv> 0x00"
abbreviation (input) NE_CR_P1 :: byte where "NE_CR_P1 \<equiv> 0x40"
abbreviation (input) NE_CR_STP :: byte where "NE_CR_STP \<equiv> 0x01"
abbreviation (input) NE_CR_STA :: byte where "NE_CR_STA \<equiv> 0x02"
abbreviation (input) NE_CR_TXP :: byte where "NE_CR_TXP \<equiv> 0x04"
abbreviation (input) NE_CR_RDMA_ABORT :: byte where "NE_CR_RDMA_ABORT \<equiv> 0x20"
abbreviation (input) NE_CR_NODMA :: byte where "NE_CR_NODMA \<equiv> 0x20"
abbreviation (input) NE_ISR_PRX :: byte where "NE_ISR_PRX \<equiv> 0x01"
abbreviation (input) NE_ISR_PTX :: byte where "NE_ISR_PTX \<equiv> 0x02"
abbreviation (input) NE_ISR_RXE :: byte where "NE_ISR_RXE \<equiv> 0x04"
abbreviation (input) NE_ISR_TXE :: byte where "NE_ISR_TXE \<equiv> 0x08"
abbreviation (input) NE_ISR_OVW :: byte where "NE_ISR_OVW \<equiv> 0x10"
abbreviation (input) NE_ISR_CNT :: byte where "NE_ISR_CNT \<equiv> 0x20"
abbreviation (input) NE_ISR_RST :: byte where "NE_ISR_RST \<equiv> 0x80"
abbreviation (input) NE_TSR_COL :: byte where "NE_TSR_COL \<equiv> 0x04"
abbreviation (input) NE_TSR_ABT :: byte where "NE_TSR_ABT \<equiv> 0x08"
abbreviation (input) NE_TSR_CRS :: byte where "NE_TSR_CRS \<equiv> 0x10"
abbreviation (input) NE_TSR_CDH :: byte where "NE_TSR_CDH \<equiv> 0x40"
abbreviation (input) NE_RSR_PRX :: byte where "NE_RSR_PRX \<equiv> 0x01"
abbreviation (input) NE_RSR_CRC :: byte where "NE_RSR_CRC \<equiv> 0x02"
abbreviation (input) NE_RSR_FAE :: byte where "NE_RSR_FAE \<equiv> 0x04"
abbreviation (input) NE_RSR_FO :: byte where "NE_RSR_FO \<equiv> 0x08"
abbreviation (input) NE_DCR_WTS :: byte where "NE_DCR_WTS \<equiv> 0x01"
abbreviation (input) NE_DCR_BOS :: byte where "NE_DCR_BOS \<equiv> 0x02"
abbreviation (input) NE_DCR_LS :: byte where "NE_DCR_LS \<equiv> 0x08"
abbreviation (input) NE_DCR_FT0 :: byte where "NE_DCR_FT0 \<equiv> 0x20"

section \<open>Board layout (ne2000.h)\<close>

abbreviation (input) NE8390_NIC_OFFSET :: u32 where "NE8390_NIC_OFFSET \<equiv> 0xffe1"
abbreviation (input) NE8390_ADDRPROM_OFFSET :: u32 where "NE8390_ADDRPROM_OFFSET \<equiv> 0xffc0"

abbreviation (input) NE8390_START_PG :: int where "NE8390_START_PG \<equiv> 0x00"
abbreviation (input) NE8390_STOP_PG :: int where "NE8390_STOP_PG \<equiv> 0x40"
abbreviation (input) NE8390_TX_PAGES :: int where "NE8390_TX_PAGES \<equiv> 8"
abbreviation (input) NE8390_RX_START_PG :: int where "NE8390_RX_START_PG \<equiv> NE8390_START_PG + NE8390_TX_PAGES"

abbreviation (input) NE8390_BOARD_ID :: u32 where "NE8390_BOARD_ID \<equiv> 0x08490001"

section \<open>Sizes and Ethernet constants (hydra.h)\<close>

abbreviation (input) HYDRA_MAXDEV :: nat where "HYDRA_MAXDEV \<equiv> 5"
abbreviation (input) HYDRA_MAXBOARDS :: nat where "HYDRA_MAXBOARDS \<equiv> 4"
abbreviation (input) MAX_BUFFER_LENGTH :: nat where "MAX_BUFFER_LENGTH \<equiv> 1518"
abbreviation (input) HYDRA_MTU :: nat where "HYDRA_MTU \<equiv> MAX_BUFFER_LENGTH - 14 - 4"

abbreviation (input) ETH_ADDRESS_SIZE :: nat where "ETH_ADDRESS_SIZE \<equiv> 6"
abbreviation (input) ETH_TYPE_SIZE :: nat where "ETH_TYPE_SIZE \<equiv> 2"
abbreviation (input) ETH_CRC_LEN :: nat where "ETH_CRC_LEN \<equiv> 4"
abbreviation (input) ETH_LENGTH_SIZE :: nat where "ETH_LENGTH_SIZE \<equiv> 2"
abbreviation (input) ETH_HEADER_SIZE :: nat where
  "ETH_HEADER_SIZE \<equiv> ETH_ADDRESS_SIZE + ETH_ADDRESS_SIZE + ETH_TYPE_SIZE"
abbreviation (input) ETH_MAXDATA :: nat where "ETH_MAXDATA \<equiv> 1500"
abbreviation (input) ETH_MAXPACKET :: nat where "ETH_MAXPACKET \<equiv> ETH_HEADER_SIZE + ETH_MAXDATA"
abbreviation (input) ETH_MINDATA :: nat where "ETH_MINDATA \<equiv> 50"
abbreviation (input) ETH_MINPACKET :: nat where "ETH_MINPACKET \<equiv> ETH_HEADER_SIZE + ETH_MINDATA"
abbreviation (input) ETH_MINFRAME :: nat where "ETH_MINFRAME \<equiv> ETH_MINPACKET - ETH_CRC_LEN"
abbreviation (input) ETHERTYPE_IP :: u16 where "ETHERTYPE_IP \<equiv> 0x0800"
abbreviation (input) ETHERTYPE_ARP :: u16 where "ETHERTYPE_ARP \<equiv> 0x0806"
abbreviation (input) ETHERTYPE_TRAIL :: u16 where "ETHERTYPE_TRAIL \<equiv> 0x1000"
abbreviation (input) ETHERTYPE_NTRAILER :: u16 where "ETHERTYPE_NTRAILER \<equiv> 16"

text \<open>The only stream flag of \<open>hydrauser.h\<close>.\<close>

abbreviation (input) HYDRA_RAW_DATA :: u32 where "HYDRA_RAW_DATA \<equiv> 1"

text \<open>Interface flags of the network header that \<open>hydraopen\<close> sets, as a set.\<close>

datatype if_flag = IFF_BROADCAST | IFF_NOTRAILERS | IFF_RUNNING

end
