(* ===== verification/Hydra_State.thy ===== *)
theory Hydra_State
  imports Hydra_Regs
begin

text \<open>
  The state of the Hydra driver: \<open>hydra_t\<close>, \<open>hydra_info_t\<close>, \<open>hydra_board_t\<close> and
  \<open>hydra_autoconfig_t\<close> of \<open>hydra.h\<close>, the user-visible structures of \<open>hydrauser.h\<close>, and
  the static variables of \<open>hydra.c\<close>. The fields of a stream carry the prefix \<open>h_\<close>.
\<close>

section \<open>User-visible structures (hydrauser.h)\<close>

datatype hydra_board_state = HYDRA_BOARD_RESET | HYDRA_BOARD_RUNNING

record hydra_status =
  board_state :: hydra_board_state
  packets_sent :: u32
  packets_received :: u32
  allocbs_failed :: u32
  couldnt_put :: u32
  tx_errors :: u32
  rx_errors :: u32
  collisions :: u32
  overflow :: u32
  crc_errors :: u32
  framing_errors :: u32
  missed_packets :: u32
  buffer_error :: u32
  trailers :: u32
  board_debug :: u32
  late_collisions :: u32
  loss_of_carrier :: u32
  retry_errors :: u32
  rx_delivered :: u32
  rx_no_sap :: u32
  rx_not_for_us :: u32
  last_rx_sap :: u32
  last_bound_sap :: u32
  open_streams :: u32
  bound_streams :: u32
  arp_streams :: u32
  ip_streams :: u32
  if_active :: u32
  if_ipackets :: u32
  if_opackets :: u32
  if_ierrors :: u32
  if_oerrors :: u32
  tx_arp :: u32
  tx_ip :: u32
  rx_arp_delivered :: u32
  rx_ip_delivered :: u32
  last_tx_sap :: u32
  rx_arp_seen :: u32
  rx_ip_seen :: u32
  sw_next_pkt :: u32
  last_ring_page :: u32
  last_ring_next :: u32
  last_ring_rsr :: u32
  last_ring_size :: u32
  last_curr :: u32
  last_bnry :: u32
  rx_bad_next :: u32
  rx_bad_rsr :: u32
  rx_bad_size :: u32

record hydra_config =
  cfg_board_base :: u32
  cfg_board_debug :: u32
  cfg_paddress :: "byte list"
  cfg_laddress :: "byte list"
  cfg_mode :: u32
  cfg_flags :: u32

text \<open>\<open>op\<close>, \<open>page\<close>, \<open>offset\<close> and \<open>len\<close> are C \<open>int\<close>s; \<open>data\<close> has 1024 bytes.\<close>

record hydra_test =
  t_op :: int
  t_reg :: byte
  t_val :: byte
  t_page :: int
  t_offset :: int
  t_len :: int
  t_data :: "byte list"
  t_tsr :: byte
  t_isr :: byte
  t_curr :: byte
  t_bnry :: byte
  t_rsr :: byte
  t_ncr :: byte
  t_tcr :: byte
  t_rcr :: byte

text \<open>What a message block of this driver can hold beyond the STREAMS structures.\<close>

datatype hblob = IntBlk u32 | ConfigBlk hydra_config | StatusBlk hydra_status | TestBlk hydra_test

section \<open>Driver state (hydra.h, hydra.c)\<close>

record hydra =
  h_q :: "queue option"
  h_state :: dl_state
  h_board_index :: nat
  h_flags :: u32
  h_sap :: u16

record hydra_info =
  board_base :: u32
  nic_base :: u32
  paddress :: "byte list"
  laddress :: "byte list"
  tx_start_page :: int
  rx_start_page :: int
  stop_page :: int
  next_pkt :: int

record hydra_board =
  b_hydra :: "hydra list"
  b_status :: hydra_status
  b_info :: hydra_info
  b_ifstats :: ifstats
  b_if_flags :: "if_flag set"

record hydra_autoconfig =
  ac_address :: u32
  ac_type :: nat

text \<open>
  \<open>q_ptr\<close> is the private pointer of a queue, here the pair of board and stream index it points
  to; \<open>ifchain\<close> holds, newest first, the boards whose statistics have been linked at the head of
  the kernel's interface list \<open>ifstats\<close>; \<open>rxbuff\<close> is the static receive buffer of
  \<open>receive_interrupt\<close>.
\<close>

record hst = "hblob tstate" +
  boards :: "hydra_board list"
  autoconfig :: "hydra_autoconfig list"
  number_of_boards :: nat
  autoconfigured :: bool
  ifchain :: "nat list"
  q_ptr :: "queue \<Rightarrow> (nat \<times> nat) option"
  rxbuff :: "byte list"

type_synonym henv = "hblob env"

section \<open>The state before the first call\<close>

text \<open>Static storage of C is zero: \<open>DL_UNBOUND\<close> and \<open>HYDRA_BOARD_RESET\<close> have the value 0.\<close>

definition zero_status :: hydra_status where
  "zero_status = \<lparr>board_state = HYDRA_BOARD_RESET, packets_sent = 0, packets_received = 0,
     allocbs_failed = 0, couldnt_put = 0, tx_errors = 0, rx_errors = 0, collisions = 0,
     overflow = 0, crc_errors = 0, framing_errors = 0, missed_packets = 0, buffer_error = 0,
     trailers = 0, board_debug = 0, late_collisions = 0, loss_of_carrier = 0, retry_errors = 0,
     rx_delivered = 0, rx_no_sap = 0, rx_not_for_us = 0, last_rx_sap = 0, last_bound_sap = 0,
     open_streams = 0, bound_streams = 0, arp_streams = 0, ip_streams = 0, if_active = 0,
     if_ipackets = 0, if_opackets = 0, if_ierrors = 0, if_oerrors = 0, tx_arp = 0, tx_ip = 0,
     rx_arp_delivered = 0, rx_ip_delivered = 0, last_tx_sap = 0, rx_arp_seen = 0, rx_ip_seen = 0,
     sw_next_pkt = 0, last_ring_page = 0, last_ring_next = 0, last_ring_rsr = 0,
     last_ring_size = 0, last_curr = 0, last_bnry = 0, rx_bad_next = 0, rx_bad_rsr = 0,
     rx_bad_size = 0\<rparr>"

definition zero_hydra :: hydra where
  "zero_hydra = \<lparr>h_q = None, h_state = DL_UNBOUND, h_board_index = 0, h_flags = 0, h_sap = 0\<rparr>"

definition zero_info :: hydra_info where
  "zero_info = \<lparr>board_base = 0, nic_base = 0, paddress = replicate 6 0, laddress = replicate 8 0,
     tx_start_page = 0, rx_start_page = 0, stop_page = 0, next_pkt = 0\<rparr>"

definition zero_board :: hydra_board where
  "zero_board = \<lparr>b_hydra = replicate HYDRA_MAXDEV zero_hydra, b_status = zero_status,
     b_info = zero_info, b_ifstats = zero_ifstats, b_if_flags = {}\<rparr>"

definition init_hst :: hst where
  "init_hst = \<lparr>tr = [], boards = replicate HYDRA_MAXBOARDS zero_board,
     autoconfig = replicate HYDRA_MAXBOARDS \<lparr>ac_address = 0, ac_type = 0\<rparr>,
     number_of_boards = 0, autoconfigured = False, ifchain = [], q_ptr = (\<lambda>_. None),
     rxbuff = replicate MAX_BUFFER_LENGTH 0\<rparr>"

section \<open>Access paths\<close>

text \<open>
  \<open>hydra_board[bi]\<close>, its status, info and statistics, and stream \<open>si\<close> of it, as the code
  writes them: \<open>board->hydra_status.f++\<close> is an \<open>on_status\<close>.
\<close>

definition board :: "nat \<Rightarrow> hst \<Rightarrow> hydra_board" where
  "board bi s = boards s ! bi"

definition info :: "nat \<Rightarrow> hst \<Rightarrow> hydra_info" where
  "info bi s = b_info (board bi s)"

definition status :: "nat \<Rightarrow> hst \<Rightarrow> hydra_status" where
  "status bi s = b_status (board bi s)"

definition stream :: "nat \<Rightarrow> nat \<Rightarrow> hst \<Rightarrow> hydra" where
  "stream bi si s = b_hydra (board bi s) ! si"

definition on_board :: "nat \<Rightarrow> (hydra_board \<Rightarrow> hydra_board) \<Rightarrow> hst \<Rightarrow> hst" where
  "on_board bi f s = s\<lparr>boards := (boards s)[bi := f (boards s ! bi)]\<rparr>"

definition on_status :: "nat \<Rightarrow> (hydra_status \<Rightarrow> hydra_status) \<Rightarrow> hst \<Rightarrow> hst" where
  "on_status bi f = on_board bi (\<lambda>b. b\<lparr>b_status := f (b_status b)\<rparr>)"

definition on_info :: "nat \<Rightarrow> (hydra_info \<Rightarrow> hydra_info) \<Rightarrow> hst \<Rightarrow> hst" where
  "on_info bi f = on_board bi (\<lambda>b. b\<lparr>b_info := f (b_info b)\<rparr>)"

definition on_ifstats :: "nat \<Rightarrow> (ifstats \<Rightarrow> ifstats) \<Rightarrow> hst \<Rightarrow> hst" where
  "on_ifstats bi f = on_board bi (\<lambda>b. b\<lparr>b_ifstats := f (b_ifstats b)\<rparr>)"

definition on_stream :: "nat \<Rightarrow> nat \<Rightarrow> (hydra \<Rightarrow> hydra) \<Rightarrow> hst \<Rightarrow> hst" where
  "on_stream bi si f =
     on_board bi (\<lambda>b. b\<lparr>b_hydra := (b_hydra b)[si := f (b_hydra b ! si)]\<rparr>)"

text \<open>Reading one component after a change of another.\<close>

lemma call_hst [lens]:
  "boards (call e s) = boards s"
  "autoconfig (call e s) = autoconfig s"
  "number_of_boards (call e s) = number_of_boards s"
  "autoconfigured (call e s) = autoconfigured s"
  "ifchain (call e s) = ifchain s"
  "q_ptr (call e s) = q_ptr s"
  "rxbuff (call e s) = rxbuff s"
  by (simp_all add: call_def)

lemma call_parts [lens]:
  "board bi (call e s) = board bi s"
  "info bi (call e s) = info bi s"
  "status bi (call e s) = status bi s"
  "stream bi si (call e s) = stream bi si s"
  by (simp_all add: board_def info_def status_def stream_def lens)

lemma on_board_hst [lens]:
  "tr (on_board bi f s) = tr s"
  "length (boards (on_board bi f s)) = length (boards s)"
  "autoconfig (on_board bi f s) = autoconfig s"
  "number_of_boards (on_board bi f s) = number_of_boards s"
  "autoconfigured (on_board bi f s) = autoconfigured s"
  "ifchain (on_board bi f s) = ifchain s"
  "q_ptr (on_board bi f s) = q_ptr s"
  "rxbuff (on_board bi f s) = rxbuff s"
  by (simp_all add: on_board_def)

lemma board_on_board:
  "bi < length (boards s) \<Longrightarrow>
    board bj (on_board bi f s) = (if bi = bj then f (board bj s) else board bj s)"
  by (simp add: board_def on_board_def)

lemma board_on_board_other [lens]:
  "bi \<noteq> bj \<Longrightarrow> board bj (on_board bi f s) = board bj s"
  by (simp add: board_def on_board_def)

lemma board_part_on_board:
  "(\<And>b. g (f b) = g b) \<Longrightarrow> g (board bj (on_board bi f s)) = g (board bj s)"
  by (cases "bj < length (boards s)"; cases "bi = bj")
    (auto simp: board_def on_board_def list_update_beyond nth_list_update)

lemma on_status_hst [lens]:
  "tr (on_status bi f s) = tr s"
  "length (boards (on_status bi f s)) = length (boards s)"
  "autoconfig (on_status bi f s) = autoconfig s"
  "number_of_boards (on_status bi f s) = number_of_boards s"
  "autoconfigured (on_status bi f s) = autoconfigured s"
  "ifchain (on_status bi f s) = ifchain s"
  "q_ptr (on_status bi f s) = q_ptr s"
  "rxbuff (on_status bi f s) = rxbuff s"
  by (simp_all add: on_status_def lens)

lemma on_info_hst [lens]:
  "tr (on_info bi f s) = tr s"
  "length (boards (on_info bi f s)) = length (boards s)"
  "autoconfig (on_info bi f s) = autoconfig s"
  "number_of_boards (on_info bi f s) = number_of_boards s"
  "autoconfigured (on_info bi f s) = autoconfigured s"
  "ifchain (on_info bi f s) = ifchain s"
  "q_ptr (on_info bi f s) = q_ptr s"
  "rxbuff (on_info bi f s) = rxbuff s"
  by (simp_all add: on_info_def lens)

lemma on_ifstats_hst [lens]:
  "tr (on_ifstats bi f s) = tr s"
  "length (boards (on_ifstats bi f s)) = length (boards s)"
  "autoconfig (on_ifstats bi f s) = autoconfig s"
  "number_of_boards (on_ifstats bi f s) = number_of_boards s"
  "autoconfigured (on_ifstats bi f s) = autoconfigured s"
  "ifchain (on_ifstats bi f s) = ifchain s"
  "q_ptr (on_ifstats bi f s) = q_ptr s"
  "rxbuff (on_ifstats bi f s) = rxbuff s"
  by (simp_all add: on_ifstats_def lens)

lemma on_stream_hst [lens]:
  "tr (on_stream bi si f s) = tr s"
  "length (boards (on_stream bi si f s)) = length (boards s)"
  "autoconfig (on_stream bi si f s) = autoconfig s"
  "number_of_boards (on_stream bi si f s) = number_of_boards s"
  "autoconfigured (on_stream bi si f s) = autoconfigured s"
  "ifchain (on_stream bi si f s) = ifchain s"
  "q_ptr (on_stream bi si f s) = q_ptr s"
  "rxbuff (on_stream bi si f s) = rxbuff s"
  by (simp_all add: on_stream_def lens)

lemmas part_defs = on_status_def on_info_def on_ifstats_def on_stream_def

lemma info_lens [lens]:
  "info bj (on_status bi f s) = info bj s"
  "info bj (on_ifstats bi g s) = info bj s"
  "info bj (on_stream bi si h s) = info bj s"
  by (simp_all add: info_def part_defs board_part_on_board)

lemma status_lens [lens]:
  "status bj (on_info bi f s) = status bj s"
  "status bj (on_ifstats bi g s) = status bj s"
  "status bj (on_stream bi si h s) = status bj s"
  by (simp_all add: status_def part_defs board_part_on_board)

lemma stream_lens [lens]:
  "stream bj sj (on_info bi f s) = stream bj sj s"
  "stream bj sj (on_ifstats bi g s) = stream bj sj s"
  "stream bj sj (on_status bi h s) = stream bj sj s"
  by (simp_all add: stream_def part_defs board_part_on_board)

lemma streams_lens [lens]:
  "b_hydra (board bj (on_info bi f s)) = b_hydra (board bj s)"
  "b_hydra (board bj (on_ifstats bi g s)) = b_hydra (board bj s)"
  "b_hydra (board bj (on_status bi h s)) = b_hydra (board bj s)"
  by (simp_all add: part_defs board_part_on_board)

lemma status_part:
  "(\<And>t. g (f t) = g t) \<Longrightarrow> g (status bj (on_status bi f s)) = g (status bj s)"
  unfolding status_def on_status_def by (rule board_part_on_board) simp

lemma info_on_info:
  "bi < length (boards s) \<Longrightarrow>
    info bj (on_info bi f s) = (if bi = bj then f (info bj s) else info bj s)"
  by (simp add: info_def on_info_def board_on_board)

lemma status_on_status:
  "bi < length (boards s) \<Longrightarrow>
    status bj (on_status bi f s) = (if bi = bj then f (status bj s) else status bj s)"
  by (simp add: status_def on_status_def board_on_board)

lemma stream_on_stream:
  "bi < length (boards s) \<Longrightarrow> si < length (b_hydra (board bi s)) \<Longrightarrow>
    stream bj sj (on_stream bi si f s) =
      (if bi = bj \<and> si = sj then f (stream bj sj s) else stream bj sj s)"
  by (auto simp: stream_def on_stream_def board_def on_board_def nth_list_update)

lemma calls_hst [lens]:
  "boards (calls es s) = boards s"
  "autoconfig (calls es s) = autoconfig s"
  "number_of_boards (calls es s) = number_of_boards s"
  "autoconfigured (calls es s) = autoconfigured s"
  "ifchain (calls es s) = ifchain s"
  "q_ptr (calls es s) = q_ptr s"
  "rxbuff (calls es s) = rxbuff s"
  "board bi (calls es s) = board bi s"
  "info bi (calls es s) = info bi s"
  "status bi (calls es s) = status bi s"
  "stream bi si (calls es s) = stream bi si s"
  by (simp_all add: calls_def board_def info_def status_def stream_def)

lemma io_only_hst:
  assumes "io_only s t"
  shows "boards t = boards s" "autoconfig t = autoconfig s" "number_of_boards t = number_of_boards s"
    "autoconfigured t = autoconfigured s" "ifchain t = ifchain s" "q_ptr t = q_ptr s"
    "rxbuff t = rxbuff s" "board bi t = board bi s" "info bi t = info bi s"
    "status bi t = status bi s" "stream bi si t = stream bi si s"
  using assms by (auto simp: io_only_def lens)

section \<open>The core of the state\<close>

text \<open>
  What only \<open>hydraopen\<close>, \<open>hydraclose\<close> and the DLPI requests change: the streams, the board
  states and the board data but for the read position \<open>next_pkt\<close>, the tables and the queue pointers.
  Interrupts and ioctls change counters, the trace and the receive buffer.
\<close>

definition board_core :: "hydra_board \<Rightarrow> hydra list \<times> hydra_board_state \<times> hydra_info" where
  "board_core b = (b_hydra b, board_state (b_status b), (b_info b)\<lparr>next_pkt := 0\<rparr>)"

definition core ::
    "hst \<Rightarrow> (hydra list \<times> hydra_board_state \<times> hydra_info) list \<times> hydra_autoconfig list \<times> nat \<times> bool \<times>
       nat list \<times> (queue \<Rightarrow> (nat \<times> nat) option) \<times> nat" where
  "core s = (map board_core (boards s), autoconfig s, number_of_boards s, autoconfigured s, ifchain s,
     q_ptr s, length (rxbuff s))"

lemma core_on_board: "(\<And>b. board_core (f b) = board_core b) \<Longrightarrow> core (on_board bi f s) = core s"
proof -
  assume f: "\<And>b. board_core (f b) = board_core b"
  have "(map board_core (boards s))[bi := board_core (boards s ! bi)] = map board_core (boards s)"
    by (cases "bi < length (boards s)") (auto simp: list_update_beyond intro!: nth_equalityI simp: nth_list_update)
  then show ?thesis by (simp add: core_def on_board_def map_update f)
qed

lemma core_lens [lens]:
  "core (call e s) = core s"
  "core (calls es s) = core s"
  "(\<And>t. board_state (f t) = board_state t) \<Longrightarrow> core (on_status bi f s) = core s"
  "core (on_ifstats bi g s) = core s"
  "core (on_info bi (\<lambda>i. i\<lparr>next_pkt := n\<rparr>) s) = core s"
  "length buf = length (rxbuff s) \<Longrightarrow> core (s\<lparr>rxbuff := buf\<rparr>) = core s"
  by (simp_all add: part_defs core_on_board board_core_def) (simp_all add: core_def lens)

lemma core_io: "io_only s t \<Longrightarrow> core t = core s"
  by (auto simp: io_only_def lens)

lemma coreD:
  assumes "core t = core s"
  shows "length (boards t) = length (boards s)" "q_ptr t = q_ptr s" "length (rxbuff t) = length (rxbuff s)"
    "bi < length (boards s) \<Longrightarrow> b_hydra (board bi t) = b_hydra (board bi s)"
    "bi < length (boards s) \<Longrightarrow> stream bi si t = stream bi si s"
    "bi < length (boards s) \<Longrightarrow> board_state (status bi t) = board_state (status bi s)"
    "bi < length (boards s) \<Longrightarrow> (info bi t)\<lparr>next_pkt := n\<rparr> = (info bi s)\<lparr>next_pkt := n\<rparr>"
proof -
  have m: "map board_core (boards t) = map board_core (boards s)" using assms by (simp add: core_def)
  then show l: "length (boards t) = length (boards s)" by (metis length_map)
  show "q_ptr t = q_ptr s" "length (rxbuff t) = length (rxbuff s)" using assms by (simp_all add: core_def)
  have b: "board_core (board bi t) = board_core (board bi s)" if "bi < length (boards s)" for bi
    using that m l by (metis board_def nth_map)
  show "bi < length (boards s) \<Longrightarrow> b_hydra (board bi t) = b_hydra (board bi s)"
    "bi < length (boards s) \<Longrightarrow> stream bi si t = stream bi si s"
    "bi < length (boards s) \<Longrightarrow> board_state (status bi t) = board_state (status bi s)"
    using b by (simp_all add: board_core_def stream_def status_def)
  show "(info bi t)\<lparr>next_pkt := n\<rparr> = (info bi s)\<lparr>next_pkt := n\<rparr>" if "bi < length (boards s)"
  proof -
    have "(info bi t)\<lparr>next_pkt := 0\<rparr> = (info bi s)\<lparr>next_pkt := 0\<rparr>"
      using b [OF that] by (simp add: board_core_def info_def)
    then have "(info bi t)\<lparr>next_pkt := 0\<rparr>\<lparr>next_pkt := n\<rparr> = (info bi s)\<lparr>next_pkt := 0\<rparr>\<lparr>next_pkt := n\<rparr>"
      by simp
    then show ?thesis by simp
  qed
qed

lemma core_info:
  assumes "core t = core s" "bi < length (boards s)"
  shows "board_base (info bi t) = board_base (info bi s)" "nic_base (info bi t) = nic_base (info bi s)"
    "paddress (info bi t) = paddress (info bi s)" "tx_start_page (info bi t) = tx_start_page (info bi s)"
    "rx_start_page (info bi t) = rx_start_page (info bi s)" "stop_page (info bi t) = stop_page (info bi s)"
  using arg_cong [OF coreD(7) [OF assms, of 0], of board_base]
    arg_cong [OF coreD(7) [OF assms, of 0], of nic_base] arg_cong [OF coreD(7) [OF assms, of 0], of paddress]
    arg_cong [OF coreD(7) [OF assms, of 0], of tx_start_page]
    arg_cong [OF coreD(7) [OF assms, of 0], of rx_start_page]
    arg_cong [OF coreD(7) [OF assms, of 0], of stop_page] by simp_all

end
