(* ===== verification/Hydra_Slots.thy ===== *)
theory Hydra_Slots
  imports Hydra_State
begin

text \<open>
  What only \<open>hydraopen\<close>, \<open>hydraclose\<close> and the first probe change: which queue holds which
  slot, the board states and the board data but for the read position, which stays a page of the ring.
\<close>

definition slot_of :: "hydra \<Rightarrow> queue option \<times> nat \<times> u32" where
  "slot_of hp = (h_q hp, h_board_index hp, h_flags hp)"

definition board_slots ::
    "hydra_board \<Rightarrow> (queue option \<times> nat \<times> u32) list \<times> hydra_board_state \<times> hydra_info" where
  "board_slots b = (map slot_of (b_hydra b), board_state (b_status b), (b_info b)\<lparr>next_pkt := 0\<rparr>)"

definition slots ::
    "hst \<Rightarrow> ((queue option \<times> nat \<times> u32) list \<times> hydra_board_state \<times> hydra_info) list \<times>
       hydra_autoconfig list \<times> nat \<times> bool \<times> (queue \<Rightarrow> (nat \<times> nat) option) \<times> nat" where
  "slots s = (map board_slots (boards s), autoconfig s, number_of_boards s, autoconfigured s, q_ptr s,
     length (rxbuff s))"

definition ring_page :: "int \<Rightarrow> bool" where
  "ring_page p \<longleftrightarrow> 8 \<le> p \<and> p < 0x40"

definition quiet :: "hst \<Rightarrow> hst \<Rightarrow> bool" where
  "quiet s t \<longleftrightarrow> slots t = slots s \<and>
     (\<forall>b. next_pkt (info b t) = next_pkt (info b s) \<or> ring_page (next_pkt (info b t)))"

lemma quiet_refl [simp]: "quiet s s"
  by (simp add: quiet_def)

lemma quiet_trans:
  assumes "quiet s t" "quiet t u"
  shows "quiet s u"
proof -
  have "next_pkt (info b u) = next_pkt (info b s) \<or> ring_page (next_pkt (info b u))" for b
  proof -
    have "next_pkt (info b t) = next_pkt (info b s) \<or> ring_page (next_pkt (info b t))"
      "next_pkt (info b u) = next_pkt (info b t) \<or> ring_page (next_pkt (info b u))"
      using assms by (simp_all add: quiet_def)
    then show ?thesis by (elim disjE) simp_all
  qed
  then show ?thesis using assms by (simp add: quiet_def)
qed

lemma core_slots: "core t = core s \<Longrightarrow> slots t = slots s"
proof -
  assume c: "core t = core s"
  define F :: "hydra list \<times> hydra_board_state \<times> hydra_info \<Rightarrow> _" where "F = (\<lambda>(hs, st, i). (map slot_of hs, st, i))"
  have m: "map board_slots bs = map F (map board_core bs)" for bs
    by (simp add: F_def board_slots_def board_core_def)
  have "map board_core (boards t) = map board_core (boards s)" using c by (simp add: core_def)
  then have "map board_slots (boards t) = map board_slots (boards s)" unfolding m by (rule arg_cong)
  then show ?thesis using c by (simp add: slots_def core_def)
qed

lemma quiet_core: "core t = core s \<Longrightarrow> (\<And>b. next_pkt (info b t) = next_pkt (info b s) \<or> ring_page (next_pkt (info b t))) \<Longrightarrow> quiet s t"
  unfolding quiet_def by (intro conjI allI core_slots)

lemma quiet_io: "io_only s t \<Longrightarrow> quiet s t"
  by (rule quiet_core) (simp_all add: core_io io_only_hst)

lemma quiet_call [intro!]: "quiet s t \<Longrightarrow> quiet s (call e t)"
  by (erule quiet_trans) (simp add: quiet_core lens)

lemma quiet_counters [intro!]:
  "(\<And>x. board_state (f x) = board_state x) \<Longrightarrow> quiet s t \<Longrightarrow> quiet s (on_status bi f t)"
  "quiet s t \<Longrightarrow> quiet s (on_ifstats bi g t)"
  by (erule quiet_trans, simp add: quiet_core lens)+

lemma quiet_stream [intro!]:
  assumes "\<And>hp. slot_of (f hp) = slot_of hp" "quiet s t"
  shows "quiet s (on_stream bi si f t)"
proof -
  have *: "board_slots (b\<lparr>b_hydra := (b_hydra b)[si := f (b_hydra b ! si)]\<rparr>) = board_slots b" for b
    by (cases "si < length (b_hydra b)")
      (auto simp: board_slots_def list_update_beyond nth_list_update assms(1) intro!: nth_equalityI)
  have "map board_slots (boards (on_stream bi si f t)) = map board_slots (boards t)"
    by (cases "bi < length (boards t)")
      (auto simp: on_stream_def on_board_def list_update_beyond nth_list_update * intro!: nth_equalityI)
  then have "slots (on_stream bi si f t) = slots t" by (simp add: slots_def lens)
  then show ?thesis by (intro quiet_trans [OF assms(2)]) (simp add: quiet_def lens)
qed

lemma slotsD:
  assumes "slots t = slots s"
  shows "length (boards t) = length (boards s)" "q_ptr t = q_ptr s" "length (rxbuff t) = length (rxbuff s)"
    "length (autoconfig t) = length (autoconfig s)" "autoconfig t = autoconfig s"
    "bi < length (boards s) \<Longrightarrow> length (b_hydra (board bi t)) = length (b_hydra (board bi s))"
    "bi < length (boards s) \<Longrightarrow> si < length (b_hydra (board bi s)) \<Longrightarrow> slot_of (stream bi si t) = slot_of (stream bi si s)"
    "bi < length (boards s) \<Longrightarrow> board_state (status bi t) = board_state (status bi s)"
    "bi < length (boards s) \<Longrightarrow> (info bi t)\<lparr>next_pkt := 0\<rparr> = (info bi s)\<lparr>next_pkt := 0\<rparr>"
proof -
  have m: "map board_slots (boards t) = map board_slots (boards s)" using assms by (simp add: slots_def)
  then show l: "length (boards t) = length (boards s)" by (metis length_map)
  show "q_ptr t = q_ptr s" "length (rxbuff t) = length (rxbuff s)" "autoconfig t = autoconfig s"
    "length (autoconfig t) = length (autoconfig s)" using assms by (simp_all add: slots_def)
  have b: "board_slots (board bi t) = board_slots (board bi s)" if "bi < length (boards s)" for bi
    using that m l by (metis board_def nth_map)
  show "length (b_hydra (board bi t)) = length (b_hydra (board bi s))" if "bi < length (boards s)"
    using arg_cong [OF b [OF that], of "\<lambda>x. length (fst x)"] by (simp add: board_slots_def)
  then show "slot_of (stream bi si t) = slot_of (stream bi si s)"
    if "bi < length (boards s)" "si < length (b_hydra (board bi s))"
    using arg_cong [OF b [OF that(1)], of "\<lambda>x. fst x ! si"] that by (simp add: board_slots_def stream_def)
  show "bi < length (boards s) \<Longrightarrow> board_state (status bi t) = board_state (status bi s)"
    "bi < length (boards s) \<Longrightarrow> (info bi t)\<lparr>next_pkt := 0\<rparr> = (info bi s)\<lparr>next_pkt := 0\<rparr>"
    using b by (simp_all add: board_slots_def status_def info_def)
qed

lemma streams_length [lens]: "length (b_hydra (board bj (on_stream bi si f s))) = length (b_hydra (board bj s))"
  unfolding on_stream_def by (rule board_part_on_board) simp

end
