(* ===== verification/Hydra_Hw.thy ===== *)
theory Hydra_Hw
  imports Hydra_State
begin

text \<open>
  Access to the board (\<open>hydra_inb\<close>, \<open>hydra_outb\<close>, \<open>hydra_ram_write_offset\<close>,
  \<open>hydra_ram_read_offset\<close>, \<open>hydra_test_write_reg\<close> of \<open>hydra.c\<close>).

  Packet memory is reached in 32-bit accesses only. The first lemmas are about the packing of bytes
  into longs; then every access of the driver to packet memory is shown to stay inside the 16 KB
  window, and a write followed by a read of the same place to give the bytes back on any board whose
  memory keeps what is stored.
\<close>

section \<open>Registers\<close>

definition reg_addr :: "u32 \<Rightarrow> nat \<Rightarrow> u32" where
  "reg_addr nic reg = nic + of_nat (reg * 2)"

text \<open>\<open>NIC_DELAY()\<close> is \<open>DELAY(5)\<close>; \<open>hydra_outb\<close> ends with one.\<close>

definition DELAY :: "nat \<Rightarrow> hst \<Rightarrow> hst" where
  "DELAY n s = call (Delay n) s"

definition NIC_DELAY :: "hst \<Rightarrow> hst" where
  "NIC_DELAY s = DELAY 5 s"

definition hydra_inb :: "henv \<Rightarrow> u32 \<Rightarrow> nat \<Rightarrow> hst \<Rightarrow> byte \<times> hst" where
  "hydra_inb E nic reg s = in8 E (reg_addr nic reg) s"

definition hydra_outb :: "u32 \<Rightarrow> nat \<Rightarrow> byte \<Rightarrow> hst \<Rightarrow> hst" where
  "hydra_outb nic reg val s = NIC_DELAY (out8 (reg_addr nic reg) val s)"

definition hydra_test_write_reg :: "u32 \<Rightarrow> int \<Rightarrow> byte \<Rightarrow> hst \<Rightarrow> hst" where
  "hydra_test_write_reg nic reg val s =
    (if reg < 0 \<or> reg > 0x0f then s
     else if reg = int NE_TBCNT1_W then s
     else
       let s = (if reg = int NE_TPSR \<or> reg = int NE_TBCNT0_W \<or> reg = int NE_TBCNT1_W
                then NIC_DELAY (hydra_outb nic NE_CR (NE_CR_P0 OR NE_CR_STA OR NE_CR_RDMA_ABORT) s)
                else s)
       in hydra_outb nic (nat reg) val s)"

section \<open>Packet memory\<close>

text \<open>
  One long of the buffer: four bytes from index \<open>4 * i\<close>, most significant first, zero behind
  the end. The reader takes them apart with \<open>j\<close> running from 3 down to 0.
\<close>

definition pack_long :: "byte list \<Rightarrow> int \<Rightarrow> nat \<Rightarrow> u32" where
  "pack_long buf len i =
    fold (\<lambda>j v. let n = 4 * i + j; v = push_bit 8 v
                in if int n < len then v OR ucast (buf ! n) else v) [0..<4] 0"

definition unpack_byte :: "u32 \<Rightarrow> int \<Rightarrow> nat \<Rightarrow> nat \<Rightarrow> byte list \<Rightarrow> byte list" where
  "unpack_byte v len i j buf =
    (let n = 4 * i + (3 - j)
     in if int n < len then buf[n := ucast (drop_bit (8 * j) v AND 0xff)] else buf)"

definition unpack_long :: "u32 \<Rightarrow> int \<Rightarrow> nat \<Rightarrow> byte list \<Rightarrow> byte list" where
  "unpack_long v len i buf = fold (unpack_byte v len i) (rev [0..<4]) buf"

text \<open>\<open>nlongs = (len + 3) >> 2\<close> and the range check, in the \<open>int\<close> arithmetic of the code.\<close>

definition nlongs :: "int \<Rightarrow> int" where
  "nlongs len = s32 (len + 3) div 4"

definition ram_refused :: "int \<Rightarrow> int \<Rightarrow> bool" where
  "ram_refused len off \<longleftrightarrow> len < 0 \<or> off < 0 \<or> off < NE8390_START_PG * 256 \<or>
     s32 (off + s32 (nlongs len * 4)) > NE8390_STOP_PG * 256"

definition long_addr :: "u32 \<Rightarrow> int \<Rightarrow> nat \<Rightarrow> u32" where
  "long_addr base off i = base + of_int off + of_nat (4 * i)"

definition write_longs :: "u32 \<Rightarrow> int \<Rightarrow> byte list \<Rightarrow> int \<Rightarrow> nat \<Rightarrow> hst \<Rightarrow> hst" where
  "write_longs base off buf len n s =
    fold (\<lambda>i. out32 (long_addr base off i) (pack_long buf len i)) [0..<n] s"

definition read_longs ::
    "henv \<Rightarrow> u32 \<Rightarrow> int \<Rightarrow> int \<Rightarrow> nat \<Rightarrow> byte list \<Rightarrow> hst \<Rightarrow> byte list \<times> hst" where
  "read_longs E base off len n buf s =
    fold (\<lambda>i (buf, s). let (v, s) = in32 E (long_addr base off i) s
                       in (unpack_long v len i buf, s)) [0..<n] (buf, s)"

definition hydra_ram_write_offset :: "nat \<Rightarrow> byte list \<Rightarrow> int \<Rightarrow> int \<Rightarrow> hst \<Rightarrow> hst" where
  "hydra_ram_write_offset bi buf len off s =
    (if ram_refused len off then s
     else write_longs (board_base (info bi s)) off buf len (nat (nlongs len)) s)"

text \<open>A refused read zeroes the first \<open>len\<close> bytes of the buffer.\<close>

definition zero_prefix :: "int \<Rightarrow> byte list \<Rightarrow> byte list" where
  "zero_prefix len buf = replicate (min (nat len) (length buf)) 0 @ drop (nat len) buf"

definition hydra_ram_read_offset ::
    "henv \<Rightarrow> nat \<Rightarrow> byte list \<Rightarrow> int \<Rightarrow> int \<Rightarrow> hst \<Rightarrow> byte list \<times> hst" where
  "hydra_ram_read_offset E bi buf len off s =
    (if ram_refused len off then (zero_prefix len buf, s)
     else read_longs E (board_base (info bi s)) off len (nat (nlongs len)) buf s)"

definition hydra_ram_write :: "nat \<Rightarrow> byte list \<Rightarrow> int \<Rightarrow> int \<Rightarrow> hst \<Rightarrow> hst" where
  "hydra_ram_write bi buf len page s = hydra_ram_write_offset bi buf len (s32 (page * 256)) s"

definition hydra_ram_read ::
    "henv \<Rightarrow> nat \<Rightarrow> byte list \<Rightarrow> int \<Rightarrow> int \<Rightarrow> hst \<Rightarrow> byte list \<times> hst" where
  "hydra_ram_read E bi buf len page s = hydra_ram_read_offset E bi buf len (s32 (page * 256)) s"

section \<open>The bytes of a long\<close>

definition be32 :: "byte \<Rightarrow> byte \<Rightarrow> byte \<Rightarrow> byte \<Rightarrow> u32" where
  "be32 a b c d = push_bit 24 (ucast a) OR push_bit 16 (ucast b) OR push_bit 8 (ucast c) OR ucast d"

definition byte_of :: "nat \<Rightarrow> u32 \<Rightarrow> byte" where
  "byte_of j v = ucast (drop_bit (8 * (3 - j)) v)"

lemma byte_of_be32:
  "byte_of 0 (be32 a b c d) = a" "byte_of 1 (be32 a b c d) = b" "byte_of (Suc 0) (be32 a b c d) = b"
  "byte_of 2 (be32 a b c d) = c" "byte_of 3 (be32 a b c d) = d"
  unfolding byte_of_def be32_def
  by (rule bit_eqI; force simp: bit_simps dest: bit_imp_le_length)+

lemma pack_long_be32:
  fixes i :: nat and len :: int and buf :: "byte list"
  defines "b \<equiv> \<lambda>j. if int (4 * i + j) < len then buf ! (4 * i + j) else 0"
  shows "pack_long buf len i = be32 (b 0) (b 1) (b 2) (b 3)"
  unfolding pack_long_def upt_4 be32_def b_def Let_def
  by (simp add: push_bit_or ac_simps)

lemma byte_of_pack_long:
  "j < 4 \<Longrightarrow> byte_of j (pack_long buf len i) = (if int (4 * i + j) < len then buf ! (4 * i + j) else 0)"
proof -
  assume "j < 4"
  then consider "j = 0" | "j = 1" | "j = 2" | "j = 3" by linarith
  then show ?thesis by cases (simp_all only: pack_long_be32 byte_of_be32)
qed

lemma mask_byte: "ucast ((w :: u32) AND 0xff) = (ucast w :: byte)"
proof (rule bit_eqI)
  fix n assume "possible_bit TYPE(byte) n"
  then have "n < 8" by simp
  moreover have "bit (0xff :: u32) n = (n < 8)"
    using bit_mask_iff [of 8 n, where ?'a = u32] by (auto simp: mask_eq_exp_minus_1)
  ultimately show "bit (ucast (w AND 0xff) :: byte) n = bit (ucast w :: byte) n"
    by (simp add: bit_simps)
qed

lemma length_unpack_byte [simp]: "length (unpack_byte v len i j buf) = length buf"
  by (simp add: unpack_byte_def Let_def)

lemma length_unpack_long [simp]: "length (unpack_long v len i buf) = length buf"
  by (simp add: unpack_long_def upt_4)

lemma unpack_byte_nth:
  "k < length buf \<Longrightarrow> j < 4 \<Longrightarrow> unpack_byte v len i j buf ! k =
    (if k = 4 * i + (3 - j) \<and> int k < len then byte_of (3 - j) v else buf ! k)"
  by (auto simp: unpack_byte_def Let_def byte_of_def mask_byte of_nat_diff)

lemma unpack_long_nth:
  assumes "k < length buf"
  shows "unpack_long v len i buf ! k =
    (if k div 4 = i \<and> int k < len then byte_of (k mod 4) v else buf ! k)"
proof -
  have *: "unpack_long v len i buf ! k =
     (if k = 4 * i + 3 \<and> int k < len then byte_of 3 v else
      if k = 4 * i + 2 \<and> int k < len then byte_of 2 v else
      if k = 4 * i + 1 \<and> int k < len then byte_of 1 v else
      if k = 4 * i \<and> int k < len then byte_of 0 v else buf ! k)"
    using assms by (simp add: unpack_long_def upt_4 unpack_byte_nth)
  have k: "k = 4 * (k div 4) + k mod 4" and "k mod 4 < 4" by simp_all
  then consider "k mod 4 = 0" | "k mod 4 = 1" | "k mod 4 = 2" | "k mod 4 = 3" by linarith
  then show ?thesis unfolding * using k by cases auto
qed
section \<open>Bytes through longs\<close>

text \<open>
  What packet memory promises its clients, as an interface: packing puts byte \<open>4 * i + j\<close> of the
  buffer at place \<open>j\<close> of long \<open>i\<close>, unpacking puts it back and touches nothing else. A run
  over all longs then delivers exactly the first \<open>len\<close> bytes.
\<close>

locale long_access =
  fixes pack :: "byte list \<Rightarrow> int \<Rightarrow> nat \<Rightarrow> u32"
    and unpack :: "u32 \<Rightarrow> int \<Rightarrow> nat \<Rightarrow> byte list \<Rightarrow> byte list"
    and get :: "nat \<Rightarrow> u32 \<Rightarrow> byte"
  assumes get_pack: "j < 4 \<Longrightarrow>
      get j (pack buf len i) = (if int (4 * i + j) < len then buf ! (4 * i + j) else 0)"
    and length_unpack: "length (unpack v len i buf) = length buf"
    and unpack_nth: "k < length buf \<Longrightarrow> unpack v len i buf ! k =
      (if k div 4 = i \<and> int k < len then get (k mod 4) v else buf ! k)"
begin

lemma length_unpacks: "length (fold (\<lambda>i. unpack (L i) len i) is buf) = length buf"
  by (induction "is" arbitrary: buf) (simp_all add: length_unpack)

lemma unpacks_nth:
  "k < length buf \<Longrightarrow> fold (\<lambda>i. unpack (L i) len i) [0..<n] buf ! k =
    (if k < 4 * n \<and> int k < len then get (k mod 4) (L (k div 4)) else buf ! k)"
proof (induction n)
  case (Suc n)
  have "k < 4 * Suc n \<longleftrightarrow> k < 4 * n \<or> k div 4 = n" by auto
  then show ?case using Suc by (auto simp: unpack_nth length_unpacks)
qed simp

lemma unpacks:
  assumes "int len \<le> 4 * int n" "len \<le> length buf"
  shows "fold (\<lambda>i. unpack (L i) (int len) i) [0..<n] buf =
    map (\<lambda>k. get (k mod 4) (L (k div 4))) [0..<len] @ drop len buf"
proof (rule nth_equalityI)
  show "length (fold (\<lambda>i. unpack (L i) (int len) i) [0..<n] buf) =
      length (map (\<lambda>k. get (k mod 4) (L (k div 4))) [0..<len] @ drop len buf)"
    using assms by (simp add: length_unpacks)
  fix k assume "k < length (fold (\<lambda>i. unpack (L i) (int len) i) [0..<n] buf)"
  then show "fold (\<lambda>i. unpack (L i) (int len) i) [0..<n] buf ! k =
      (map (\<lambda>k. get (k mod 4) (L (k div 4))) [0..<len] @ drop len buf) ! k"
    using assms by (auto simp: unpacks_nth nth_append length_unpacks)
qed

lemma unpacks_packs:
  assumes "int len \<le> 4 * int n" "len \<le> length buf" "len \<le> length src"
  shows "fold (\<lambda>i. unpack (pack src (int len) i) (int len) i) [0..<n] buf =
    take len src @ drop len buf"
proof -
  have "map (\<lambda>k. get (k mod 4) (pack src (int len) (k div 4))) [0..<len] = take len src"
    using assms(3) by (auto intro!: nth_equalityI simp: get_pack)
  then show ?thesis by (simp add: unpacks assms)
qed

end

interpretation hydra_longs: long_access pack_long unpack_long byte_of
  by unfold_locales (simp_all add: byte_of_pack_long unpack_long_nth)

section \<open>Runs of memory accesses\<close>

definition write_events :: "u32 \<Rightarrow> int \<Rightarrow> byte list \<Rightarrow> int \<Rightarrow> nat \<Rightarrow> hblob ev list" where
  "write_events base off buf len n =
    rev (map (\<lambda>i. Out32 (long_addr base off i) (pack_long buf len i)) [0..<n])"

lemma write_longs_calls: "write_longs base off buf len n s = calls (write_events base off buf len n) s"
  by (induction n) (simp_all add: write_longs_def write_events_def out32_def)

definition read_events :: "u32 \<Rightarrow> int \<Rightarrow> (nat \<Rightarrow> u32) \<Rightarrow> nat \<Rightarrow> hblob ev list" where
  "read_events base off L n = rev (map (\<lambda>i. In32 (long_addr base off i) (L i)) [0..<n])"

text \<open>A device that answers the reads of a run with \<open>L\<close>, whatever was read before in the run.\<close>

definition answers :: "henv \<Rightarrow> hblob ev list \<Rightarrow> u32 \<Rightarrow> int \<Rightarrow> nat \<Rightarrow> (nat \<Rightarrow> u32) \<Rightarrow> bool" where
  "answers E h base off n L \<longleftrightarrow>
    (\<forall>i < n. e_in32 E (read_events base off L i @ h) (long_addr base off i) = L i)"

lemma read_longs_calls:
  assumes "answers E (tr s) base off n L"
  shows "read_longs E base off len n buf s =
    (fold (\<lambda>i. unpack_long (L i) len i) [0..<n] buf, calls (read_events base off L n) s)"
  using assms
proof (induction n)
  case 0
  then show ?case by (simp add: read_longs_def read_events_def)
next
  case (Suc n)
  then have "answers E (tr s) base off n L"
    and "e_in32 E (read_events base off L n @ tr s) (long_addr base off n) = L n"
    by (simp_all add: answers_def)
  with Suc.IH show ?case
    by (simp add: read_longs_def read_events_def in32_def Let_def lens)
qed

text \<open>The bytes a read delivers: the first \<open>len\<close> bytes of the buffer are the bytes of the longs.\<close>

definition long_bytes :: "(nat \<Rightarrow> u32) \<Rightarrow> nat \<Rightarrow> byte list" where
  "long_bytes L n = map (\<lambda>k. byte_of (k mod 4) (L (k div 4))) [0..<n]"

lemma length_long_bytes [simp]: "length (long_bytes L n) = n"
  by (simp add: long_bytes_def)

lemma nlongs_range:
  assumes "0 \<le> len" "len < 2147483645"
  shows "nlongs len = (len + 3) div 4" "0 \<le> nlongs len" "len \<le> 4 * nlongs len"
    "4 * nlongs len < len + 4"
  using assms by (simp_all add: nlongs_def arith32)

lemma length_ram_read: "length (fst (hydra_ram_read_offset E bi buf len off s)) = length buf"
proof -
  have "length (fst (read_longs E base off len n buf s)) = length buf" for base n
    by (induction n) (auto simp: read_longs_def Let_def split_def)
  then show ?thesis by (auto simp: hydra_ram_read_offset_def zero_prefix_def)
qed

section \<open>Range checks\<close>

lemma ram_accepted:
  assumes "0 \<le> len" "0 \<le> off" "off + (len + 3) div 4 * 4 \<le> 0x4000"
  shows "\<not> ram_refused len off"
  using assms by (simp add: ram_refused_def nlongs_def arith32)

lemma ram_accepted_bound:
  assumes "\<not> ram_refused len off" "i < nat (nlongs len)" "off + len < 2147483640"
  shows "0 \<le> off \<and> off + 4 * int i + 4 \<le> 0x4000"
proof -
  have n: "nlongs len = (len + 3) div 4" using assms by (simp add: ram_refused_def nlongs_range)
  moreover have "off + (len + 3) div 4 * 4 < 2147483648" using assms by (simp add: ram_refused_def)
  moreover have "0 \<le> (len + 3) div 4" "0 \<le> off"
    using assms by (simp_all add: ram_refused_def pos_imp_zdiv_nonneg_iff)
  ultimately show ?thesis using assms by (auto simp: ram_refused_def arith32)
qed

lemma hydra_ram_read_offset_calls:
  assumes "answers E (tr s) (board_base (info bi s)) off (nat (nlongs (int len))) L"
    and "len \<le> length buf" "int len < 2147483645" "0 \<le> off" "off + (int len + 3) div 4 * 4 \<le> 0x4000"
  shows "hydra_ram_read_offset E bi buf (int len) off s =
    (long_bytes L len @ drop len buf,
     calls (read_events (board_base (info bi s)) off L (nat (nlongs (int len)))) s)"
proof -
  have "\<not> ram_refused (int len) off" using assms by (simp add: ram_accepted)
  moreover have "int len \<le> 4 * int (nat (nlongs (int len)))"
    using nlongs_range [of "int len"] assms(3) by simp
  ultimately show ?thesis
    using assms(2) by (simp add: hydra_ram_read_offset_def read_longs_calls [OF assms(1)]
        hydra_longs.unpacks long_bytes_def)
qed

section \<open>Memory that keeps what is stored\<close>

fun last_store :: "u32 \<Rightarrow> hblob ev list \<Rightarrow> u32 option" where
  "last_store a [] = None"
| "last_store a (Out32 b v # h) = (if a = b then Some v else last_store a h)"
| "last_store a (e # h) = last_store a h"

definition keeps_ram :: "henv \<Rightarrow> bool" where
  "keeps_ram E \<longleftrightarrow> (\<forall>h a v. last_store a h = Some v \<longrightarrow> e_in32 E h a = v)"

lemma last_store_reads [simp]: "last_store a (read_events base off L n @ h) = last_store a h"
proof -
  have "last_store a (rev (map (\<lambda>i. In32 (f i) (g i)) is) @ h) = last_store a h"
    for f :: "nat \<Rightarrow> u32" and g :: "nat \<Rightarrow> u32" and "is" :: "nat list"
    by (induction "is" arbitrary: h) simp_all
  then show ?thesis by (simp add: read_events_def)
qed

lemma long_addr_inject:
  assumes "i < 0x1000" "j < 0x1000"
  shows "long_addr base off i = long_addr base off j \<longleftrightarrow> i = j"
proof -
  have "(of_nat (4 * i) :: u32) = of_nat (4 * j) \<longleftrightarrow> 4 * i = 4 * j"
    using assms by (intro of_nat32_inject) simp_all
  then show ?thesis by (simp add: long_addr_def)
qed

lemma last_store_writes:
  assumes "i < n" "n \<le> 0x1000"
  shows "last_store (long_addr base off i) (write_events base off src len n @ h) =
    Some (pack_long src len i)"
  using assms
proof (induction n)
  case (Suc n)
  then show ?case by (cases "i = n") (simp_all add: write_events_def long_addr_inject)
qed simp

lemma nlongs_window:
  assumes "0 \<le> off" "off + (int len + 3) div 4 * 4 \<le> 0x4000"
  shows "nat (nlongs (int len)) \<le> 0x1000" "int len \<le> 4 * int (nat (nlongs (int len)))"
    "int len < 2147483645"
proof -
  show "int len < 2147483645" using assms by linarith
  then show "nat (nlongs (int len)) \<le> 0x1000" "int len \<le> 4 * int (nat (nlongs (int len)))"
    using assms nlongs_range [of "int len"] by linarith+
qed

lemma ram_read_stored:
  assumes "keeps_ram E" "len \<le> length src" "len \<le> length buf"
    and "0 \<le> off" "off + (int len + 3) div 4 * 4 \<le> 0x4000"
    and "\<And>i. i < nat (nlongs (int len)) \<Longrightarrow>
      last_store (long_addr (board_base (info bi s)) off i) (tr s) = Some (pack_long src (int len) i)"
  shows "fst (hydra_ram_read_offset E bi buf (int len) off s) = take len src @ drop len buf"
proof -
  note w = nlongs_window [OF assms(4,5)]
  have "answers E (tr s) (board_base (info bi s)) off (nat (nlongs (int len))) (pack_long src (int len))"
    using assms(1,6) by (simp add: answers_def keeps_ram_def)
  then show ?thesis
    using w assms(2-5) by (simp add: hydra_ram_read_offset_def ram_accepted read_longs_calls
        hydra_longs.unpacks_packs)
qed

section \<open>Properties\<close>

text \<open>
  C15. Packet memory round trip: on a board whose memory keeps what is stored, writing \<open>len\<close> bytes
  with \<open>hydra_ram_write_offset\<close> and reading them back with \<open>hydra_ram_read_offset\<close> at the same
  offset inside the 16 KB window returns exactly those bytes and leaves the rest of the reader's buffer
  alone, for every length, multiple of four or not.
\<close>

theorem ram_roundtrip:
  assumes "keeps_ram E" "len \<le> length src" "len \<le> length buf"
    and "0 \<le> off" "off + (int len + 3) div 4 * 4 \<le> 0x4000"
  shows "fst (hydra_ram_read_offset E bi buf (int len) off
      (hydra_ram_write_offset bi src (int len) off s)) = take len src @ drop len buf"
proof -
  have "hydra_ram_write_offset bi src (int len) off s =
      calls (write_events (board_base (info bi s)) off src (int len) (nat (nlongs (int len)))) s"
    using assms(4,5) by (simp add: hydra_ram_write_offset_def ram_accepted write_longs_calls)
  then show ?thesis
    using nlongs_window(1) [OF assms(4,5)]
    by (intro ram_read_stored [OF assms]) (simp add: last_store_writes tr_calls calls_hst)
qed

definition ram_env :: henv where
  "ram_env = \<lparr>e_in8 = (\<lambda>_ _. 0), e_in32 = (\<lambda>h a. case last_store a h of None \<Rightarrow> 0 | Some v \<Rightarrow> v),
     e_allocb = (\<lambda>_ _. True), e_canput = (\<lambda>_ _. True), e_q_first = (\<lambda>_ _. False),
     e_getq = (\<lambda>_ _. None), e_panicstr = (\<lambda>_. False), e_stack = (\<lambda>_ _. 0), e_sizeof = (\<lambda>_. 0),
     e_const = (\<lambda>_. 0), e_dblim = (\<lambda>_ n. n)\<rparr>"

lemma keeps_ram_env: "keeps_ram ram_env"
  by (simp add: keeps_ram_def ram_env_def)

theorem ram_roundtrip_witness:
  "keeps_ram ram_env \<and> fst (hydra_ram_read_offset ram_env 0 [9, 9, 9, 9, 9, 9] 5 0x3ff8
     (hydra_ram_write_offset 0 [1, 2, 3, 4, 5] 5 0x3ff8 init_hst)) = [1, 2, 3, 4, 5, 9]"
  using ram_roundtrip [of ram_env 5 "[1, 2, 3, 4, 5]" "[9, 9, 9, 9, 9, 9]" "0x3ff8" 0 init_hst]
  by (simp add: keeps_ram_env)

text \<open>A packet-memory access inside the 16 KB window of the board.\<close>

definition in_window :: "u32 \<Rightarrow> hblob ev \<Rightarrow> bool" where
  "in_window base e = (case e of
     In32 a _ \<Rightarrow> unat (a - base) + 4 \<le> 0x4000
   | Out32 a _ \<Rightarrow> unat (a - base) + 4 \<le> 0x4000
   | _ \<Rightarrow> False)"

lemma long_addr_window:
  assumes "0 \<le> off" "off + 4 * int i + 4 \<le> 0x4000"
  shows "unat (long_addr base off i - base) + 4 \<le> 0x4000"
proof -
  have "long_addr base off i - base = of_nat (nat off + 4 * i)"
    using assms by (simp add: long_addr_def)
  moreover have "unat (of_nat (nat off + 4 * i) :: u32) = nat off + 4 * i"
    using assms by (intro unat_of_nat32) simp
  ultimately show ?thesis using assms by simp
qed

lemma read_longs_trace:
  "\<exists>es. tr (snd (read_longs E base off len n buf s)) = es @ tr s \<and>
     (\<forall>e \<in> set es. \<exists>i v. i < n \<and> e = In32 (long_addr base off i) v)"
proof (induction n)
  case 0
  then show ?case by (simp add: read_longs_def)
next
  case (Suc n)
  then obtain es where es: "tr (snd (read_longs E base off len n buf s)) = es @ tr s"
    "\<forall>e \<in> set es. \<exists>i v. i < n \<and> e = In32 (long_addr base off i) v" by blast
  obtain b t where bt: "read_longs E base off len n buf s = (b, t)" by fastforce
  let ?e = "In32 (long_addr base off n) (e_in32 E (tr t) (long_addr base off n))"
  have "tr (snd (read_longs E base off len (Suc n) buf s)) = (?e # es) @ tr s"
    using es(1) bt by (simp add: read_longs_def in32_def Let_def call_lens)
  moreover have "\<forall>e \<in> set (?e # es). \<exists>i v. i < Suc n \<and> e = In32 (long_addr base off i) v"
    using es(2) by (force simp: less_Suc_eq)
  ultimately show ?case by blast
qed

lemma ram_read_window:
  assumes "off + len < 2147483640"
  shows "\<exists>fs. tr (snd (hydra_ram_read_offset E bi buf len off s)) = fs @ tr s \<and>
    (\<forall>e \<in> set fs. \<exists>a v. e = In32 a v) \<and> list_all (in_window (board_base (info bi s))) fs"
proof (cases "ram_refused len off")
  case True
  then show ?thesis by (simp add: hydra_ram_read_offset_def)
next
  case False
  obtain fs where fs: "tr (snd (read_longs E (board_base (info bi s)) off len (nat (nlongs len)) buf s)) = fs @ tr s"
    "\<forall>e \<in> set fs. \<exists>i v. i < nat (nlongs len) \<and> e = In32 (long_addr (board_base (info bi s)) off i) v"
    using read_longs_trace by blast
  have "unat (long_addr (board_base (info bi s)) off i - board_base (info bi s)) + 4 \<le> 0x4000"
    if "i < nat (nlongs len)" for i
    using ram_accepted_bound [OF False that assms] by (intro long_addr_window) simp_all
  then have "list_all (in_window (board_base (info bi s))) fs"
    using fs(2) by (fastforce simp: list_all_iff in_window_def)
  then show ?thesis using False fs by (auto simp: hydra_ram_read_offset_def)
qed

text \<open>
  Confinement: whatever offset and length they are given, as long as their sum does not overflow a C
  \<open>int\<close>, \<open>hydra_ram_write_offset\<close> and \<open>hydra_ram_read_offset\<close> touch only longs inside the
  16 KB packet memory of their board; requests that would leave it are refused.
\<close>

theorem ram_confined:
  assumes "off + len < 2147483640"
  shows "\<exists>es fs. tr (hydra_ram_write_offset bi buf len off s) = es @ tr s \<and>
      tr (snd (hydra_ram_read_offset E bi buf len off s)) = fs @ tr s \<and>
      list_all (in_window (board_base (info bi s))) (es @ fs)"
proof (cases "ram_refused len off")
  case True
  then show ?thesis by (simp add: hydra_ram_write_offset_def hydra_ram_read_offset_def)
next
  case False
  let ?base = "board_base (info bi s)" and ?n = "nat (nlongs len)"
  have "unat (long_addr ?base off i - ?base) + 4 \<le> 0x4000" if "i < ?n" for i
    using ram_accepted_bound [OF False that assms] by (intro long_addr_window) simp_all
  then have "list_all (in_window ?base) (write_events ?base off buf len ?n)"
    by (auto simp: list_all_iff write_events_def in_window_def)
  then show ?thesis
    using False ram_read_window [OF assms, of E bi buf s]
    by (auto simp: hydra_ram_write_offset_def write_longs_calls tr_calls)
qed

theorem ram_confined_witness:
  "(0x3ff0 :: int) + 16 < 2147483640 \<and> (\<exists>es fs.
      tr (hydra_ram_write_offset 0 (replicate 16 7) 16 0x3ff0 init_hst) = es @ tr init_hst \<and>
      tr (snd (hydra_ram_read_offset ram_env 0 (replicate 16 7) 16 0x3ff0 init_hst)) = fs @ tr init_hst \<and>
      list_all (in_window (board_base (info 0 init_hst))) (es @ fs))"
  using ram_confined [of "0x3ff0" 16 0 "replicate 16 7" init_hst ram_env] by simp

end
