(* ===== verification/Hydra_Init.thy ===== *)
theory Hydra_Init
  imports Hydra_Hw
begin

text \<open>
  Bringing a board up: \<open>get_ethernet_address\<close>, \<open>hydra_reset\<close>, \<open>setup_ne2000\<close> and
  \<open>hydra_initialize\<close> of \<open>hydra.c\<close>. The register file that the chip holds after a trace is
  computed from the writes in it, so that the state the driver leaves the chip in can be compared with
  the software copy of it.
\<close>

section \<open>The MAC address\<close>

definition mac_valid :: "byte list \<Rightarrow> bool" where
  "mac_valid mac \<longleftrightarrow>
     \<not> scan (\<lambda>j. mac ! j \<noteq> 0xFF) 0 6 = 6 \<and>
     \<not> scan (\<lambda>j. mac ! j \<noteq> 0x00) 0 6 = 6 \<and>
     \<not> scan (\<lambda>j. mac ! j \<noteq> mac ! 0) 1 6 = 6"

fun in8s :: "henv \<Rightarrow> u32 list \<Rightarrow> hst \<Rightarrow> byte list \<times> hst" where
  "in8s E [] s = ([], s)"
| "in8s E (a # as) s =
    (let (v, s) = in8 E a s; (vs, s) = in8s E as s in (v # vs, s))"

definition prom_addrs :: "u32 \<Rightarrow> u32 list" where
  "prom_addrs base = map (\<lambda>j. base + NE8390_ADDRPROM_OFFSET + of_nat (j * 2)) [0..<6]"

fun par_bytes :: "henv \<Rightarrow> u32 \<Rightarrow> nat list \<Rightarrow> hst \<Rightarrow> byte list \<times> hst" where
  "par_bytes E nic [] s = ([], s)"
| "par_bytes E nic (j # js) s =
    (let (v, s) = hydra_inb E nic (NE_PAR0 + j) s; s = NIC_DELAY s;
         (vs, s) = par_bytes E nic js s
     in (v # vs, s))"

text \<open>Stopping the chip before the PROM is read, and the two ways to read the address.\<close>

definition stop_for_prom :: "u32 \<Rightarrow> hst \<Rightarrow> hst" where
  "stop_for_prom nic s =
    (let s = NIC_DELAY (hydra_outb nic NE_CR (NE_CR_STP OR NE_CR_NODMA) s);
         s = NIC_DELAY (hydra_outb nic NE_IMR 0 s)
     in NIC_DELAY (hydra_outb nic NE_ISR 0xFF s))"

definition mac_from_par :: "henv \<Rightarrow> u32 \<Rightarrow> hst \<Rightarrow> byte list \<times> hst" where
  "mac_from_par E nic s =
    (let s = NIC_DELAY (hydra_outb nic NE_CR (NE_CR_P1 OR NE_CR_NODMA) s);
         (mac, s) = par_bytes E nic [0..<6] s;
         s = NIC_DELAY (hydra_outb nic NE_CR NE_CR_NODMA s)
     in (mac, s))"

definition get_ethernet_address :: "henv \<Rightarrow> u32 \<Rightarrow> hst \<Rightarrow> byte list \<times> hst" where
  "get_ethernet_address E base s =
    (let nic = base + NE8390_NIC_OFFSET;
         s = stop_for_prom nic s;
         (mac, s) = in8s E (prom_addrs base) s
     in if mac_valid mac then (mac, s) else mac_from_par E nic s)"

section \<open>Reset and setup\<close>

text \<open>One of the two bounded polls of \<open>hydra_reset\<close>: at most \<open>n\<close> reads of the status
  register, until its \<open>RST\<close> bit is as wanted.\<close>

fun poll_rst :: "henv \<Rightarrow> u32 \<Rightarrow> bool \<Rightarrow> nat \<Rightarrow> hst \<Rightarrow> hst" where
  "poll_rst E nic want 0 s = s"
| "poll_rst E nic want (Suc n) s =
    (let s = DELAY 1 s; (v, s) = hydra_inb E nic NE_ISR s
     in if (v AND NE_ISR_RST \<noteq> 0) = want then s else poll_rst E nic want n s)"

definition hydra_reset :: "henv \<Rightarrow> nat \<Rightarrow> hst \<Rightarrow> hst" where
  "hydra_reset E bi s =
    (let nic = nic_base (info bi s);
         s = hydra_outb nic NE_CR (NE_CR_P0 OR NE_CR_STP OR NE_CR_RDMA_ABORT) s;
         s = poll_rst E nic True 100 s;
         s = hydra_outb nic NE_ISR 0xff s;
         s = poll_rst E nic False 100 s
     in DELAY 100 s)"

definition reset_counters :: "int \<Rightarrow> hydra_status \<Rightarrow> hydra_status" where
  "reset_counters next t = t\<lparr>board_state := HYDRA_BOARD_RUNNING, packets_sent := 0,
     packets_received := 0, allocbs_failed := 0, couldnt_put := 0, tx_errors := 0, rx_errors := 0,
     collisions := 0, overflow := 0, crc_errors := 0, framing_errors := 0, missed_packets := 0,
     trailers := 0, buffer_error := 0, late_collisions := 0, loss_of_carrier := 0,
     retry_errors := 0, rx_delivered := 0, rx_no_sap := 0, rx_not_for_us := 0, last_rx_sap := 0,
     last_bound_sap := 0, tx_arp := 0, tx_ip := 0, rx_arp_delivered := 0, rx_ip_delivered := 0,
     last_tx_sap := 0, rx_arp_seen := 0, rx_ip_seen := 0, sw_next_pkt := of_int next,
     last_ring_page := 0, last_ring_next := 0, last_ring_rsr := 0, last_ring_size := 0,
     last_curr := 0, last_bnry := 0, rx_bad_next := 0, rx_bad_rsr := 0, rx_bad_size := 0\<rparr>"

text \<open>The register program of \<open>setup_ne2000\<close> between the reset and the counters.\<close>

definition program_ne2000 :: "u32 \<Rightarrow> hydra_info \<Rightarrow> byte list \<Rightarrow> hst \<Rightarrow> hst" where
  "program_ne2000 nic fi mac s =
    (let s = NIC_DELAY (DELAY 10 (hydra_outb nic NE_CR (NE_CR_P0 OR NE_CR_STP OR NE_CR_RDMA_ABORT) s));
         s = NIC_DELAY (hydra_outb nic NE_DCR (NE_DCR_WTS OR NE_DCR_BOS OR NE_DCR_LS OR NE_DCR_FT0) s);
         s = NIC_DELAY (hydra_outb nic NE_RBCNT1 0 (hydra_outb nic NE_RBCNT0 0 s));
         s = hydra_outb nic NE_PSTART (of_int (rx_start_page fi)) s;
         s = hydra_outb nic NE_PSTOP (of_int (stop_page fi)) s;
         s = NIC_DELAY (hydra_outb nic NE_BNRY (of_int (rx_start_page fi)) s);
         s = NIC_DELAY (hydra_outb nic NE_ISR 0xff s);
         s = NIC_DELAY (hydra_outb nic NE_CR (NE_CR_P1 OR NE_CR_STP OR NE_CR_RDMA_ABORT) s);
         s = fold (\<lambda>i s. NIC_DELAY (hydra_outb nic (NE_PAR0 + i) (mac ! i) s)) [0..<6] s;
         s = fold (\<lambda>i s. NIC_DELAY (hydra_outb nic (NE_MAR0 + i) 0 s)) [0..<8] s;
         s = NIC_DELAY (hydra_outb nic NE_CURR (of_int (rx_start_page fi + 1)) s);
         s = NIC_DELAY (hydra_outb nic NE_CR (NE_CR_P0 OR NE_CR_STA OR NE_CR_RDMA_ABORT) s);
         s = NIC_DELAY (hydra_outb nic NE_TCR NE_TCR_NORMAL s);
         s = NIC_DELAY (hydra_outb nic NE_RCR (NE_RCR_AB OR NE_RCR_AM) s)
     in NIC_DELAY (hydra_outb nic NE_IMR (NE_IMR_PRXE OR NE_IMR_PTXE OR NE_IMR_RXEE OR
          NE_IMR_TXEE OR NE_IMR_OVWE OR NE_IMR_CNTE) s))"

definition setup_ne2000 :: "henv \<Rightarrow> nat \<Rightarrow> byte list \<Rightarrow> hst \<Rightarrow> bool \<times> hst" where
  "setup_ne2000 E bi mac s =
    (let nic = nic_base (info bi s);
         s = on_info bi (\<lambda>f. f\<lparr>paddress := mac\<rparr>) s;
         s = on_info bi (\<lambda>f. f\<lparr>tx_start_page := NE8390_START_PG, rx_start_page := NE8390_RX_START_PG,
               stop_page := NE8390_STOP_PG, next_pkt := NE8390_RX_START_PG + 1\<rparr>) s;
         s = hydra_reset E bi s;
         s = program_ne2000 nic (info bi s) mac s;
         s = on_status bi (reset_counters (next_pkt (info bi s))) s
     in (True, s))"

definition hydra_initialize :: "henv \<Rightarrow> nat \<Rightarrow> hst \<Rightarrow> bool \<times> hst" where
  "hydra_initialize E bi s =
    (let s = on_info bi (\<lambda>f. f\<lparr>board_base := ac_address (autoconfig s ! bi)\<rparr>) s
     in if board_base (info bi s) = 0 then (False, s)
        else
          let s = on_info bi (\<lambda>f. f\<lparr>nic_base := board_base f + NE8390_NIC_OFFSET\<rparr>) s;
              (mac, s) = get_ethernet_address E (board_base (info bi s)) s;
              s = fold (\<lambda>n. on_stream bi n (\<lambda>hp. hp\<lparr>h_q := None, h_sap := 0, h_state := DL_UNBOUND\<rparr>))
                    [0..<HYDRA_MAXDEV] s;
              s = on_info bi (\<lambda>f. f\<lparr>paddress := mac\<rparr>) s
          in setup_ne2000 E bi mac s)"

section \<open>The chip's registers after a trace\<close>

text \<open>
  The command register selects the register page by its two top bits. \<open>cr_of\<close> is the last
  command written, \<open>nic_reg pg r\<close> the last value written to register \<open>r\<close> while page \<open>pg\<close>
  was selected.
\<close>

fun cr_of :: "u32 \<Rightarrow> hblob ev list \<Rightarrow> byte" where
  "cr_of nic [] = 0"
| "cr_of nic (Out8 a v # h) = (if a = reg_addr nic NE_CR then v else cr_of nic h)"
| "cr_of nic (e # h) = cr_of nic h"

definition page_of :: "u32 \<Rightarrow> hblob ev list \<Rightarrow> byte" where
  "page_of nic h = cr_of nic h AND 0xc0"

fun nic_reg :: "u32 \<Rightarrow> byte \<Rightarrow> nat \<Rightarrow> hblob ev list \<Rightarrow> byte option" where
  "nic_reg nic pg r [] = None"
| "nic_reg nic pg r (Out8 a v # h) =
    (if a = reg_addr nic r \<and> page_of nic h = pg then Some v else nic_reg nic pg r h)"
| "nic_reg nic pg r (e # h) = nic_reg nic pg r h"

lemma reg_addr_inject [simp]:
  "m < 0x100 \<Longrightarrow> n < 0x100 \<Longrightarrow> reg_addr nic m = reg_addr nic n \<longleftrightarrow> m = n"
  unfolding reg_addr_def using of_nat32_inject [of "m * 2" "n * 2"] by simp

lemmas outb_defs = hydra_outb_def NIC_DELAY_def DELAY_def out8_def

lemma io_only_outb [intro!]:
  "io_only s t \<Longrightarrow> io_only s (hydra_outb nic r v t)"
  "io_only s t \<Longrightarrow> io_only s (NIC_DELAY t)"
  "io_only s t \<Longrightarrow> io_only s (DELAY n t)"
  by (auto simp: outb_defs)

lemma io_only_in8 [intro!]: "io_only s t \<Longrightarrow> io_only s (snd (in8 E a t))"
  by (auto simp: in8_def Let_def)

lemma io_only_in8s: "io_only s t \<Longrightarrow> io_only s (snd (in8s E as t))"
  by (induction "as" arbitrary: t) (auto simp: in8_def Let_def split_def)

lemma io_only_par_bytes: "io_only s t \<Longrightarrow> io_only s (snd (par_bytes E nic js t))"
proof (induction js arbitrary: t)
  case (Cons j js)
  show ?case by (auto simp: hydra_inb_def in8_def Let_def split_def intro!: Cons.IH Cons.prems)
qed simp

lemma io_only_poll_rst: "io_only s t \<Longrightarrow> io_only s (poll_rst E nic w n t)"
proof (induction n arbitrary: t w)
  case (Suc n)
  show ?case by (auto simp: hydra_inb_def in8_def Let_def intro!: Suc.IH Suc.prems)
qed simp

lemma hydra_reset_io: "io_only s (hydra_reset E bi s)"
  by (auto simp: hydra_reset_def Let_def intro!: io_only_poll_rst)

lemma program_ne2000_io: "io_only s (program_ne2000 nic fi mac s)"
  by (auto simp: program_ne2000_def Let_def intro!: io_only_fold)

lemma get_ethernet_address_io: "io_only s (snd (get_ethernet_address E base s))"
  by (auto simp: get_ethernet_address_def stop_for_prom_def mac_from_par_def Let_def split_def
      intro!: io_only_par_bytes io_only_in8s)

text \<open>The same steps touch nothing but hardware.\<close>

lemma hw_only_outb [intro!]:
  "hw_only s t \<Longrightarrow> hw_only s (hydra_outb nic r v t)"
  "hw_only s t \<Longrightarrow> hw_only s (NIC_DELAY t)"
  "hw_only s t \<Longrightarrow> hw_only s (DELAY n t)"
  by (auto simp: outb_defs)

lemma hw_only_in [intro!]:
  "hw_only s t \<Longrightarrow> hw_only s (snd (in8 E a t))"
  "hw_only s t \<Longrightarrow> hw_only s (snd (hydra_inb E nic r t))"
  by (auto simp: in8_def hydra_inb_def Let_def)

lemma hw_only_ram [intro!]:
  "hw_only s t \<Longrightarrow> hw_only s (hydra_ram_write_offset bi buf len off t)"
  "hw_only s t \<Longrightarrow> hw_only s (hydra_ram_write bi buf len page t)"
  by (auto simp: hydra_ram_write_def hydra_ram_write_offset_def write_longs_calls write_events_def
      list_all_iff)

lemma hw_only_read_longs: "hw_only s t \<Longrightarrow> hw_only s (snd (read_longs E base off len n buf t))"
  by (induction n) (auto simp: read_longs_def in32_def Let_def split_def)

lemma hw_only_ram_read [intro!]:
  "hw_only s t \<Longrightarrow> hw_only s (snd (hydra_ram_read_offset E bi buf len off t))"
  "hw_only s t \<Longrightarrow> hw_only s (snd (hydra_ram_read E bi buf len page t))"
  by (auto simp: hydra_ram_read_def hydra_ram_read_offset_def intro!: hw_only_read_longs)

lemmas io_frames = hydra_reset_io program_ne2000_io get_ethernet_address_io

section \<open>Properties\<close>

lemma mac_valid_iff: "mac_valid mac \<longleftrightarrow> (\<exists>j < 6. mac ! j \<noteq> mac ! 0)"
proof
  assume "mac_valid mac"
  then show "\<exists>j < 6. mac ! j \<noteq> mac ! 0" by (auto simp: mac_valid_def scan_end)
next
  assume "\<exists>j < 6. mac ! j \<noteq> mac ! 0"
  then obtain j where j: "j < 6" "mac ! j \<noteq> mac ! 0" by blast
  then have "Suc 0 \<le> j" by (cases j) auto
  moreover have "\<exists>k < 6. mac ! k \<noteq> c" for c
    using j by (metis zero_less_numeral)
  ultimately show "mac_valid mac" using j by (auto simp: mac_valid_def scan_end)
qed

lemma in8s_answers:
  "(\<And>h a. a \<in> set as \<Longrightarrow> e_in8 E h a = f a) \<Longrightarrow> fst (in8s E as s) = map f as"
  by (induction "as" arbitrary: s) (auto simp: in8_def Let_def split_def)

lemma page_of_simps [simp]:
  "page_of nic (Out8 a v # h) = (if a = reg_addr nic NE_CR then v AND 0xc0 else page_of nic h)"
  "page_of nic (In8 a v # h) = page_of nic h"
  "page_of nic (Delay n # h) = page_of nic h"
  by (simp_all add: page_of_def)

lemma par_bytes_answers:
  assumes "\<And>h j. page_of nic h = 0x40 \<Longrightarrow> j < 6 \<Longrightarrow> e_in8 E h (reg_addr nic (NE_PAR0 + j)) = f j"
    and "set js \<subseteq> {..<6}" "page_of nic (tr s) = 0x40"
  shows "fst (par_bytes E nic js s) = map f js"
  using assms(2,3)
proof (induction js arbitrary: s)
  case (Cons j js)
  then have "e_in8 E (tr s) (reg_addr nic (Suc j)) = f j" using assms(1) [of "tr s" j] by simp
  then show ?case using Cons
    by (simp add: hydra_inb_def in8_def NIC_DELAY_def DELAY_def Let_def split_def call_lens)
qed simp

lemma page_of_in8s: "page_of nic (tr (snd (in8s E as s))) = page_of nic (tr s)"
  by (induction "as" arbitrary: s) (auto simp: in8_def Let_def split_def call_lens)

text \<open>
  C39. MAC discovery: if the address PROM answers \<open>p\<close>, \<open>get_ethernet_address\<close> returns the PROM
  bytes unless all six are equal (which covers the unprogrammed all-0xFF and all-0x00 patterns the code
  names); then it returns the six physical-address registers of the chip, read with register page 1
  selected.
\<close>

theorem mac_discovery:
  assumes "\<And>h j. j < 6 \<Longrightarrow> e_in8 E h (base + NE8390_ADDRPROM_OFFSET + of_nat (j * 2)) = p j"
    and "\<And>h j. page_of (base + NE8390_NIC_OFFSET) h = 0x40 \<Longrightarrow> j < 6 \<Longrightarrow>
      e_in8 E h (reg_addr (base + NE8390_NIC_OFFSET) (NE_PAR0 + j)) = par j"
  shows "fst (get_ethernet_address E base s) =
    (if \<exists>j < 6. p j \<noteq> p 0 then map p [0..<6] else map par [0..<6])"
proof -
  let ?nic = "base + NE8390_NIC_OFFSET"
  have prom: "fst (in8s E (prom_addrs base) t) = map p [0..<6]" for t
  proof -
    define f where "f a = e_in8 E [] a" for a
    have *: "e_in8 E h a = f a" if "a \<in> set (prom_addrs base)" for h a
      using that assms(1) by (auto simp: prom_addrs_def f_def)
    show ?thesis by (subst in8s_answers [OF *]) (simp_all add: prom_addrs_def f_def assms(1) [simplified])
  qed
  have par: "fst (mac_from_par E ?nic u) = map par [0..<6]" for u
  proof -
    have "page_of ?nic (tr (NIC_DELAY (hydra_outb ?nic NE_CR (NE_CR_P1 OR NE_CR_NODMA) u))) = 0x40"
      by (simp add: outb_defs call_lens)
    then have "fst (par_bytes E ?nic [0..<6]
        (NIC_DELAY (hydra_outb ?nic NE_CR (NE_CR_P1 OR NE_CR_NODMA) u))) = map par [0..<6]"
      by (intro par_bytes_answers) (auto intro: assms(2) [simplified])
    then show ?thesis by (simp add: mac_from_par_def Let_def split_def del: upt_Suc)
  qed
  have "mac_valid (map p [0..<6]) \<longleftrightarrow> (\<exists>j < 6. p j \<noteq> p 0)"
    by (auto simp: mac_valid_iff)
  then show ?thesis
    by (simp only: get_ethernet_address_def Let_def split_def prom par if_distrib [of fst] fst_conv)
qed

text \<open>A board whose PROM floats: the address then comes from the chip.\<close>

definition float_env :: henv where
  "float_env = ram_env\<lparr>e_in8 := (\<lambda>h a.
     if a \<in> set (prom_addrs 0xe90000) then 0xFF
     else if page_of (0xe90000 + NE8390_NIC_OFFSET) h = 0x40
     then ucast (a - (0xe90000 + NE8390_NIC_OFFSET)) else 0)\<rparr>"

theorem mac_discovery_witness:
  "fst (get_ethernet_address float_env 0xe90000 init_hst) = [2, 4, 6, 8, 10, 12]"
proof -
  have "fst (get_ethernet_address float_env 0xe90000 init_hst) =
      (if \<exists>j < 6 :: nat. (\<lambda>_. 0xFF :: byte) j \<noteq> (\<lambda>_. 0xFF) 0 then map (\<lambda>_. 0xFF) [0..<6]
       else map (\<lambda>j. of_nat (2 + j * 2)) [0..<6])"
  proof (rule mac_discovery)
    show "e_in8 float_env h (0xe90000 + NE8390_ADDRPROM_OFFSET + of_nat (j * 2)) = 0xFF"
      if "j < 6" for h j
      using that by (auto simp: float_env_def prom_addrs_def)
    show "e_in8 float_env h (reg_addr (0xe90000 + NE8390_NIC_OFFSET) (NE_PAR0 + j)) = of_nat (2 + j * 2)"
      if "page_of (0xe90000 + NE8390_NIC_OFFSET) h = 0x40" "j < 6" for h j
    proof -
      from that(2) consider "j = 0" | "j = 1" | "j = 2" | "j = 3" | "j = 4" | "j = 5" by linarith
      then show ?thesis using that(1)
        by cases (simp_all add: float_env_def prom_addrs_def reg_addr_def upt_rec)
    qed
  qed
  then show ?thesis by (simp add: upt_rec)
qed

lemma all_less_6: "(\<forall>i < 6. P i) \<longleftrightarrow> P 0 \<and> P 1 \<and> P 2 \<and> P 3 \<and> P 4 \<and> P (5 :: nat)"
  by (auto simp: All_less_Suc numeral_eq_Suc)

lemma all_less_8:
  "(\<forall>i < 8. P i) \<longleftrightarrow> P 0 \<and> P 1 \<and> P 2 \<and> P 3 \<and> P 4 \<and> P 5 \<and> P 6 \<and> P (7 :: nat)"
  by (auto simp: All_less_Suc numeral_eq_Suc)

lemma program_ne2000_regs:
  assumes "t = program_ne2000 nic fi mac s"
  shows "nic_reg nic 0x40 NE_CURR (tr t) = Some (of_int (rx_start_page fi + 1))"
    "nic_reg nic 0 NE_BNRY (tr t) = Some (of_int (rx_start_page fi))"
    "nic_reg nic 0 NE_PSTART (tr t) = Some (of_int (rx_start_page fi))"
    "nic_reg nic 0 NE_PSTOP (tr t) = Some (of_int (stop_page fi))"
    "\<forall>i < 6. nic_reg nic 0x40 (NE_PAR0 + i) (tr t) = Some (mac ! i)"
    "\<forall>i < 8. nic_reg nic 0x40 (NE_MAR0 + i) (tr t) = Some 0"
    "cr_of nic (tr t) = 0x22" "nic_reg nic 0 NE_IMR (tr t) = Some 0x3f"
  unfolding assms program_ne2000_def outb_defs Let_def all_less_6 all_less_8
  by (simp_all add: call_lens upt_rec) (simp add: numeral_eq_Suc)

text \<open>
  C28. Setup: \<open>setup_ne2000\<close> leaves the board running with the receive ring on pages 8 to 63, the
  chip's boundary one page behind the first page it will fill, the software copy of that page
  (\<open>next_pkt\<close>) equal to the chip's \<open>CURR\<close>, the station address in the six \<open>PAR\<close>
  registers and in \<open>paddress\<close>, all multicast filters clear, the chip started on page 0 and the six
  interrupts of the handler enabled.
\<close>

theorem setup_ne2000_chip:
  assumes "bi < length (boards s)" "setup_ne2000 E bi mac s = (ok, t)"
  defines "nic \<equiv> nic_base (info bi s)"
  shows "ok \<and> board_state (status bi t) = HYDRA_BOARD_RUNNING \<and> paddress (info bi t) = mac \<and>
    next_pkt (info bi t) = 9 \<and> tx_start_page (info bi t) = 0 \<and>
    nic_reg nic 0x40 NE_CURR (tr t) = Some (of_int (next_pkt (info bi t))) \<and>
    nic_reg nic 0 NE_BNRY (tr t) = Some 8 \<and>
    nic_reg nic 0 NE_PSTART (tr t) = Some 8 \<and> nic_reg nic 0 NE_PSTOP (tr t) = Some 0x40 \<and>
    (\<forall>i < 6. nic_reg nic 0x40 (NE_PAR0 + i) (tr t) = Some (mac ! i)) \<and>
    (\<forall>i < 8. nic_reg nic 0x40 (NE_MAR0 + i) (tr t) = Some 0) \<and>
    cr_of nic (tr t) = 0x22 \<and> nic_reg nic 0 NE_IMR (tr t) = Some 0x3f"
  using assms(1,2) unfolding setup_ne2000_def Let_def nic_def
  by (auto simp: status_on_status info_on_info io_only_hst [OF hydra_reset_io]
      io_only_hst [OF program_ne2000_io] lens program_ne2000_regs [OF refl, simplified] reset_counters_def)

theorem setup_ne2000_chip_witness:
  "next_pkt (info 0 (snd (setup_ne2000 ram_env 0 [1, 2, 3, 4, 5, 6] init_hst))) = 9 \<and>
   nic_reg 0 0x40 NE_CURR (tr (snd (setup_ne2000 ram_env 0 [1, 2, 3, 4, 5, 6] init_hst))) = Some 9"
proof -
  obtain ok t where t: "setup_ne2000 ram_env 0 [1, 2, 3, 4, 5, 6] init_hst = (ok, t)" by fastforce
  moreover have "0 < length (boards init_hst)" "nic_base (info 0 init_hst) = 0"
    by (simp_all add: init_hst_def info_def board_def zero_board_def zero_info_def)
  ultimately show ?thesis using setup_ne2000_chip [OF _ t] by simp
qed

section \<open>A running board\<close>

text \<open>Board 0 up at \<open>0xE90000\<close> with one stream, on queue pair 0, bound to IP; and an
  environment whose queues behave as queues and whose chip is idle.\<close>

definition up_stream :: hydra where
  "up_stream = \<lparr>h_q = Some (RQ 0), h_state = DL_IDLE, h_board_index = 0, h_flags = 0, h_sap = ETHERTYPE_IP\<rparr>"

definition up_info :: hydra_info where
  "up_info = \<lparr>board_base = 0xE90000, nic_base = 0xE9FFE1, paddress = [2, 4, 6, 8, 10, 12],
     laddress = replicate 8 0, tx_start_page = 0, rx_start_page = 8, stop_page = 0x40, next_pkt = 9\<rparr>"

definition up_board :: hydra_board where
  "up_board = \<lparr>b_hydra = (replicate HYDRA_MAXDEV zero_hydra)[0 := up_stream],
     b_status = zero_status\<lparr>board_state := HYDRA_BOARD_RUNNING\<rparr>, b_info = up_info,
     b_ifstats = zero_ifstats\<lparr>ifs_name := Some ''hya'', ifs_active := 1\<rparr>, b_if_flags = {IFF_RUNNING}\<rparr>"

definition up_hst :: hst where
  "up_hst = \<lparr>tr = [], boards = (replicate HYDRA_MAXBOARDS zero_board)[0 := up_board],
     autoconfig = (replicate HYDRA_MAXBOARDS \<lparr>ac_address = 0, ac_type = 0\<rparr>)
       [0 := \<lparr>ac_address = 0xE90000, ac_type = 1\<rparr>],
     number_of_boards = 1, autoconfigured = True, ifchain = [0],
     q_ptr = (\<lambda>_. None)(RQ 0 := Some (0, 0), WQ 0 := Some (0, 0)),
     rxbuff = replicate MAX_BUFFER_LENGTH 0\<rparr>"

definition queue_env :: henv where
  "queue_env = ram_env\<lparr>e_q_first := \<lambda>h q. queued q h \<noteq> [],
     e_getq := \<lambda>h q. case queued q h of [] \<Rightarrow> None | m # _ \<Rightarrow> Some m,
     e_stack := \<lambda>_ i. of_nat i\<rparr>"

lemma fifo_queue_env: "fifo_env queue_env"
  by (simp add: fifo_env_def queue_env_def)

lemma keeps_queue_env: "keeps_ram queue_env"
  by (simp add: keeps_ram_def queue_env_def ram_env_def)

lemma up_hst_simps [simp]:
  "tr up_hst = []" "info 0 up_hst = up_info" "stream 0 0 up_hst = up_stream"
  "board 0 up_hst = up_board" "q_ptr up_hst (WQ 0) = Some (0, 0)" "q_ptr up_hst (RQ 0) = Some (0, 0)"
  "length (boards up_hst) = 4" "Suc n < 5 \<Longrightarrow> stream 0 (Suc n) up_hst = zero_hydra"
  by (simp_all add: up_hst_def info_def stream_def board_def up_board_def )

lemma up_info_simps [simp]:
  "board_base up_info = 0xE90000" "nic_base up_info = 0xE9FFE1" "tx_start_page up_info = 0"
  "paddress up_info = [2, 4, 6, 8, 10, 12]" "next_pkt up_info = 9" "rx_start_page up_info = 8"
  by (simp_all add: up_info_def)

end
