(* ===== verification/Kernel_Support.thy ===== *)
theory Kernel_Support
  imports Amix_Prelude
begin

text \<open>
  The boot information the kernel keeps (\<open>kernel/support.c\<close>): the table of autoconfigured boards
  and its search \<open>autocon\<close>, the conversion of the A2620 ROM table and the sizing of main memory in
  \<open>config\<close>.

  The address of the end of the kernel image, \<open>end\<close>, is set by the linker and is a parameter.
\<close>

section \<open>The tables\<close>

abbreviation (input) NAUTO :: nat where "NAUTO \<equiv> 16"

record config_dev =
  er_Type :: byte
  er_Product :: byte
  er_Manufacturer :: u16
  cd_BoardAddr :: u32
  cd_BoardSize :: u32

record mem_header =
  mh_Lower :: u32
  mh_Upper :: u32

record bootinfo =
  autocon_table :: "config_dev list"
  memory_table :: "mem_header list"

text \<open>An entry \<open>av_acon[i]\<close> of the ROM table.\<close>

record acon =
  ac_pnum :: u32
  ac_base :: u32
  ac_over :: u32

abbreviation (input) APNARAM :: u32 where "APNARAM \<equiv> 0x01000000"
abbreviation (input) APNMEMB :: u32 where "APNMEMB \<equiv> 0x0202000A"
abbreviation (input) APNM020 :: u32 where "APNM020 \<equiv> 0x02020050"
abbreviation (input) APNM030 :: u32 where "APNM030 \<equiv> 0x02020051"

section \<open>Searching for a board\<close>

text \<open>
  \<open>autocon_loop\<close> is the \<open>for\<close> loop: an entry that matches manufacturer and product is
  returned when the index has counted down to 0; \<open>pc\<close> is signed, so its shift is arithmetic. The result is what is stored through \<open>bp\<close> and
  \<open>np\<close>; the special case stores only the first.
\<close>

fun autocon_loop :: "config_dev list \<Rightarrow> u32 \<Rightarrow> int \<Rightarrow> (u32 \<times> u32) option" where
  "autocon_loop [] pc index = None"
| "autocon_loop (d # ds) pc index =
    (if ucast (er_Manufacturer d) \<noteq> signed_drop_bit 16 pc then autocon_loop ds pc index
     else if ucast (er_Product d) \<noteq> pc AND 0xffff then autocon_loop ds pc index
     else if index \<noteq> 0 then autocon_loop ds pc (index - 1)
     else Some (cd_BoardAddr d, cd_BoardSize d))"

definition autocon :: "bootinfo \<Rightarrow> u32 \<Rightarrow> u32 \<Rightarrow> int \<Rightarrow> (u32 \<times> u32 option) option" where
  "autocon B kend pc index =
    (if index = 0 \<and> kend > 0x07000000 \<and> pc = 0x0202F003 then Some (0xdd0000, None)
     else map_option (\<lambda>(b, n). (b, Some n)) (autocon_loop (take NAUTO (autocon_table B)) pc index))"

definition board_matches :: "u32 \<Rightarrow> config_dev \<Rightarrow> bool" where
  "board_matches pc d \<longleftrightarrow> ucast (er_Manufacturer d) = signed_drop_bit 16 pc \<and> ucast (er_Product d) = pc AND 0xffff"

lemma autocon_loop_nth:
  "autocon_loop ds pc (int i) =
    (let ms = filter (board_matches pc) ds
     in if i < length ms then Some (cd_BoardAddr (ms ! i), cd_BoardSize (ms ! i)) else None)"
proof (induction ds arbitrary: i)
  case (Cons d ds)
  show ?case
  proof (cases i)
    case 0
    then show ?thesis using Cons [of 0] by (auto simp: board_matches_def Let_def)
  next
    case (Suc j)
    then show ?thesis using Cons [of j] Cons [of i] by (auto simp: board_matches_def Let_def)
  qed
qed simp

section \<open>Sizing main memory\<close>

text \<open>
  The A2620 branch of \<open>config\<close>: every ROM entry becomes a \<open>ConfigDev\<close>, and the entries of the
  four memory boards are collected, in order, at the front of the memory table.
\<close>

definition config_dev_of_acon :: "acon \<Rightarrow> config_dev" where
  "config_dev_of_acon a = \<lparr>er_Type = 0, er_Product = ucast (ac_pnum a),
     er_Manufacturer = ucast (drop_bit 16 (ac_pnum a)), cd_BoardAddr = ac_base a,
     cd_BoardSize = ac_over a\<rparr>"

definition is_memory_board :: "u32 \<Rightarrow> bool" where
  "is_memory_board p \<longleftrightarrow> p = APNARAM \<or> p = APNMEMB \<or> p = APNM020 \<or> p = APNM030"

fun a2620_memory :: "acon list \<Rightarrow> nat \<Rightarrow> mem_header list \<Rightarrow> mem_header list" where
  "a2620_memory [] nmem mem = mem"
| "a2620_memory (a # as) nmem mem =
    (if is_memory_board (ac_pnum a)
     then a2620_memory as (Suc nmem)
       (mem[nmem := \<lparr>mh_Lower = ac_base a, mh_Upper = ac_base a + ac_over a\<rparr>])
     else a2620_memory as nmem mem)"

definition config_a2620 :: "acon list \<Rightarrow> bootinfo \<Rightarrow> bootinfo" where
  "config_a2620 av B = B\<lparr>autocon_table := map config_dev_of_acon av,
     memory_table := a2620_memory av 0 (memory_table B)\<rparr>"

text \<open>
  The \<open>EXEC0\<close> branch: the counter is declared inside the loop over the table, so it is 0 for
  every memory board.
\<close>

definition is_memlist :: "config_dev \<Rightarrow> bool" where
  "is_memlist d \<longleftrightarrow> er_Type d AND 0x20 \<noteq> 0"

definition region_of :: "config_dev \<Rightarrow> mem_header" where
  "region_of d = \<lparr>mh_Lower = cd_BoardAddr d, mh_Upper = cd_BoardAddr d + cd_BoardSize d\<rparr>"

fun exec0_memory :: "config_dev list \<Rightarrow> mem_header list \<Rightarrow> mem_header list" where
  "exec0_memory [] mem = mem"
| "exec0_memory (d # ds) mem =
    (let nmem = 0 in exec0_memory ds (if is_memlist d then mem[nmem := region_of d] else mem))"

definition config_exec0 :: "config_dev list \<Rightarrow> bootinfo \<Rightarrow> bootinfo" where
  "config_exec0 ds B = B\<lparr>autocon_table := ds, memory_table := exec0_memory ds (memory_table B)\<rparr>"

text \<open>
  The switch of \<open>config\<close> on the boot method; \<open>None\<close> is its panic. \<open>av\<close> is the ROM table,
  \<open>ds\<close> and \<open>B1\<close> what \<open>boot_arg1\<close> points to in the two Exec methods.
\<close>

definition config :: "u32 \<Rightarrow> acon list \<Rightarrow> config_dev list \<Rightarrow> bootinfo \<Rightarrow> bootinfo \<Rightarrow> bootinfo option" where
  "config boot_arg0 av ds B1 B =
    (if boot_arg0 = 1 then Some (config_a2620 av B)
     else if boot_arg0 = 2 then Some (config_exec0 ds B)
     else if boot_arg0 = 3 then Some B1
     else None)"

text \<open>
  The \<open>do \<dots> while (found)\<close> loop that grows \<open>[MAINSTORE, MAINSTORE + VSIZOFMEM)\<close> by adjacent
  regions. One region, one pass over the table, and the loop, with the number of changes in
  \<open>found\<close>.
\<close>

record mainmem =
  MAINSTORE :: u32
  VSIZOFMEM :: u32

definition grow_region :: "mem_header \<Rightarrow> nat \<times> mainmem \<Rightarrow> nat \<times> mainmem" where
  "grow_region r fm =
    (let (found, m) = fm; l = mh_Lower r; u = mh_Upper r;
         (found, m) = (if l < MAINSTORE m \<and> u \<ge> MAINSTORE m
                       then (Suc found, m\<lparr>MAINSTORE := l\<rparr>) else (found, m))
     in if l \<le> MAINSTORE m + VSIZOFMEM m \<and> u > MAINSTORE m + VSIZOFMEM m
        then (Suc found, m\<lparr>VSIZOFMEM := u - MAINSTORE m\<rparr>) else (found, m))"

definition grow_pass :: "mem_header list \<Rightarrow> mainmem \<Rightarrow> nat \<times> mainmem" where
  "grow_pass mem m = fold grow_region mem (0, m)"

text \<open>Every change lowers \<open>MAINSTORE\<close> or, with \<open>MAINSTORE\<close> unchanged, raises the top.\<close>

definition grow_rel :: "(mainmem \<times> mainmem) set" where
  "grow_rel = inv_image (less_than <*lex*> less_than)
     (\<lambda>m. (unat (MAINSTORE m), 2 ^ 32 - unat (MAINSTORE m + VSIZOFMEM m)))"

lemma wf_grow_rel: "wf grow_rel"
  unfolding grow_rel_def by (intro wf_inv_image wf_lex_prod wf_less_than)

lemma trans_grow_rel: "trans grow_rel"
  unfolding grow_rel_def by (intro trans_inv_image trans_lex_prod) simp_all

lemma grow_region_step:
  "grow_region r (f, m) = (f', m') \<Longrightarrow> (f' = f \<and> m' = m) \<or> (f < f' \<and> (m', m) \<in> grow_rel)"
proof -
  assume eq: "grow_region r (f, m) = (f', m')"
  have top: "4294967296 - unat (x :: u32) < 4294967296 - unat (y :: u32)" if "y < x" for x y
    using that unat_u32_less [of x] by (simp add: word_less_nat_alt)
  show ?thesis
    using eq by (auto simp: grow_region_def grow_rel_def Let_def word_less_nat_alt [symmetric]
        split: if_splits intro!: top)
qed

lemma grow_fold_step:
  "fold grow_region mem (f, m) = (f', m') \<Longrightarrow> (f' = f \<and> m' = m) \<or> (f < f' \<and> (m', m) \<in> grow_rel)"
proof (induction mem arbitrary: f m)
  case (Cons r mem)
  obtain f1 m1 where 1: "grow_region r (f, m) = (f1, m1)" by fastforce
  with Cons.prems have "fold grow_region mem (f1, m1) = (f', m')" by simp
  from Cons.IH [OF this] grow_region_step [OF 1] show ?case
    using trans_grow_rel by (auto dest: transD)
qed simp

function grow_memory :: "mem_header list \<Rightarrow> mainmem \<Rightarrow> mainmem" where
  "grow_memory mem m =
    (let (found, m') = grow_pass mem m in if found \<noteq> 0 then grow_memory mem m' else m')"
  by pat_completeness auto
termination
proof (relation "inv_image grow_rel snd")
  show "wf (inv_image grow_rel snd)" by (intro wf_inv_image wf_grow_rel)
next
  fix mem m x found m'
  assume "x = grow_pass mem m" "(found, m') = x" "found \<noteq> (0 :: nat)"
  then show "((mem, m'), (mem, m)) \<in> inv_image grow_rel snd"
    using grow_fold_step [of mem 0 m found m'] by (auto simp: grow_pass_def)
qed

declare grow_memory.simps [simp del]

definition size_memory :: "bootinfo \<Rightarrow> u32 \<Rightarrow> mainmem" where
  "size_memory B kend =
    (let m = grow_memory (memory_table B) \<lparr>MAINSTORE = kend, VSIZOFMEM = 0\<rparr>
     in if VSIZOFMEM m = 0 \<and> kend > 0x7000000
        then \<lparr>MAINSTORE = kend AND 0xF7C00000, VSIZOFMEM = 0x08000000 - (kend AND 0xF7C00000)\<rparr>
        else m)"

section \<open>Properties\<close>

text \<open>
  \<open>autocon\<close> returns address and size of the entry that is number \<open>index\<close>, counted from 0,
  among the table entries with the requested manufacturer and product, and fails exactly when there are
  not that many; the fixed A3000 answer is the only exception.
\<close>

theorem autocon_nth:
  assumes "\<not> (i = 0 \<and> kend > 0x07000000 \<and> pc = 0x0202F003)"
  shows "autocon B kend pc (int i) =
    (let ms = filter (board_matches pc) (take NAUTO (autocon_table B))
     in if i < length ms then Some (cd_BoardAddr (ms ! i), Some (cd_BoardSize (ms ! i))) else None)"
  using assms by (auto simp: autocon_def autocon_loop_nth Let_def)

definition two_hydras :: bootinfo where
  "two_hydras = \<lparr>autocon_table =
     [\<lparr>er_Type = 0xE1, er_Product = 9, er_Manufacturer = 0x202, cd_BoardAddr = 0x200000, cd_BoardSize = 0x200000\<rparr>,
      \<lparr>er_Type = 0xC1, er_Product = 1, er_Manufacturer = 0x849, cd_BoardAddr = 0xe90000, cd_BoardSize = 0x10000\<rparr>,
      \<lparr>er_Type = 0xC1, er_Product = 1, er_Manufacturer = 0x849, cd_BoardAddr = 0xea0000, cd_BoardSize = 0x10000\<rparr>],
    memory_table = []\<rparr>"

theorem autocon_nth_witness:
  "\<not> ((1 :: nat) = 0 \<and> (0x7100000 :: u32) > 0x07000000 \<and> (0x08490001 :: u32) = 0x0202F003) \<and>
   autocon two_hydras 0x7100000 0x08490001 (int 1) = Some (0xea0000, Some 0x10000)"
proof -
  have h: "\<not> ((1 :: nat) = 0 \<and> (0x7100000 :: u32) > 0x07000000 \<and> (0x08490001 :: u32) = 0x0202F003)"
    by simp
  show ?thesis
    using h autocon_nth [OF h, of two_hydras] by (simp add: two_hydras_def board_matches_def Let_def)
qed

lemma grow_fold_stable:
  assumes "fold grow_region mem (f, m) = (f, m')" "r \<in> set mem"
  shows "m' = m \<and> grow_region r (f, m) = (f, m)"
  using assms
proof (induction mem)
  case (Cons x mem)
  obtain f1 m1 where 1: "grow_region x (f, m) = (f1, m1)" by fastforce
  with Cons.prems(1) have 2: "fold grow_region mem (f1, m1) = (f, m')" by simp
  have "f1 = f \<and> m1 = m" using grow_region_step [OF 1] grow_fold_step [OF 2] by auto
  then show ?case using Cons 1 2 grow_fold_step [OF 2] by auto
qed simp

text \<open>
  Main memory while the loop runs, from a kernel that ends at \<open>e\<close>: it does not wrap, begins at or below \<open>e\<close>, consists of
  memory of the table, and a set of addresses below some limit that is closed under the regions of the table and reaches up to its
  begin contains all of it and \<open>e\<close>.
\<close>

abbreviation low_end :: "mainmem \<Rightarrow> nat" where "low_end m \<equiv> unat (MAINSTORE m)"
abbreviation high_end :: "mainmem \<Rightarrow> nat" where "high_end m \<equiv> unat (MAINSTORE m) + unat (VSIZOFMEM m)"

definition closed_at :: "mem_header list \<Rightarrow> nat \<Rightarrow> bool" where
  "closed_at mem x \<longleftrightarrow> (\<forall>r \<in> set mem. unat (mh_Lower r) \<le> x \<longrightarrow> unat (mh_Upper r) \<le> x)"

definition in_table :: "mem_header list \<Rightarrow> nat \<Rightarrow> bool" where
  "in_table mem a \<longleftrightarrow> (\<exists>r \<in> set mem. unat (mh_Lower r) \<le> a \<and> a < unat (mh_Upper r))"

definition around :: "mem_header list \<Rightarrow> u32 \<Rightarrow> mainmem \<Rightarrow> bool" where
  "around mem e m \<longleftrightarrow> high_end m < 4294967296 \<and> low_end m \<le> unat e \<and>
     (\<forall>x. closed_at mem x \<and> low_end m \<le> x \<longrightarrow> high_end m \<le> x \<and> unat e \<le> x) \<and>
     (\<forall>a. low_end m \<le> a \<and> a < high_end m \<longrightarrow> in_table mem a)"

lemma around_start: "around mem e \<lparr>MAINSTORE = e, VSIZOFMEM = 0\<rparr>"
  using unat_u32_less [of e] by (auto simp: around_def)

lemma around_lower:
  assumes "around mem e m" "r \<in> set mem" "mh_Lower r < MAINSTORE m" "MAINSTORE m \<le> mh_Upper r"
  shows "around mem e (m\<lparr>MAINSTORE := mh_Lower r\<rparr>)"
proof -
  let ?l = "unat (mh_Lower r)" let ?u = "unat (mh_Upper r)"
  have lu: "?l < low_end m" "low_end m \<le> ?u" using assms(3,4) by (simp_all add: word_less_nat_alt word_le_nat_alt)
  have "high_end m \<le> x \<and> unat e \<le> x" if "closed_at mem x" "?l \<le> x" for x
  proof -
    have "?u \<le> x" using that assms(2) by (auto simp: closed_at_def)
    then show ?thesis using assms(1) that(1) lu(2) by (auto simp: around_def)
  qed
  moreover have "in_table mem a" if "?l \<le> a" "a < ?l + unat (VSIZOFMEM m)" for a
  proof (cases "a < ?u")
    case True
    then show ?thesis using that assms(2) by (auto simp: in_table_def)
  next
    case False
    then show ?thesis using that lu assms(1) by (auto simp: around_def)
  qed
  ultimately show ?thesis using assms(1) lu by (fastforce simp: around_def)
qed

lemma top_unat: "around mem e m \<Longrightarrow> unat (MAINSTORE m + VSIZOFMEM m) = high_end m"
  by (simp add: around_def unat_word_ariths)

lemma around_upper:
  assumes "around mem e m" "r \<in> set mem"
    and "mh_Lower r \<le> MAINSTORE m + VSIZOFMEM m" "MAINSTORE m + VSIZOFMEM m < mh_Upper r"
  shows "around mem e (m\<lparr>VSIZOFMEM := mh_Upper r - MAINSTORE m\<rparr>)"
proof -
  let ?l = "unat (mh_Lower r)" let ?u = "unat (mh_Upper r)"
  have lu: "?l \<le> high_end m" "high_end m < ?u"
    using assms(3,4) top_unat [OF assms(1)] by (simp_all add: word_less_nat_alt word_le_nat_alt)
  have "MAINSTORE m \<le> mh_Upper r" using lu(2) by (simp add: word_le_nat_alt)
  then have v: "low_end m + unat (mh_Upper r - MAINSTORE m) = ?u"
    by (simp add: unat_sub word_le_nat_alt)
  have "?u \<le> x" if "closed_at mem x" "low_end m \<le> x" for x
  proof -
    have "high_end m \<le> x" using that assms(1) by (simp add: around_def)
    then show ?thesis using that(1) lu(1) assms(2) by (auto simp: closed_at_def)
  qed
  moreover have "in_table mem a" if "low_end m \<le> a" "a < ?u" for a
    using that assms(1,2) lu(1) by (cases "a < high_end m") (auto simp: around_def in_table_def)
  ultimately show ?thesis using assms(1) v unat_u32_less [of "mh_Upper r"] by (simp add: around_def)
qed

lemma around_region:
  assumes "around mem e m" "r \<in> set mem" "grow_region r (f, m) = (f', m')"
  shows "around mem e m'"
proof -
  define m1 where "m1 = (if mh_Lower r < MAINSTORE m \<and> mh_Upper r \<ge> MAINSTORE m then m\<lparr>MAINSTORE := mh_Lower r\<rparr> else m)"
  have m1: "around mem e m1" using around_lower [OF assms(1,2)] assms(1) by (simp add: m1_def)
  have "m' = (if mh_Lower r \<le> MAINSTORE m1 + VSIZOFMEM m1 \<and> mh_Upper r > MAINSTORE m1 + VSIZOFMEM m1
      then m1\<lparr>VSIZOFMEM := mh_Upper r - MAINSTORE m1\<rparr> else m1)"
    using assms(3) by (auto simp: grow_region_def m1_def Let_def split: if_splits)
  then show ?thesis using around_upper [OF m1 assms(2)] m1 by simp
qed

lemma around_fold:
  "around mem e m \<Longrightarrow> set rs \<subseteq> set mem \<Longrightarrow> fold grow_region rs (f, m) = (f', m') \<Longrightarrow> around mem e m'"
proof (induction rs arbitrary: f m)
  case (Cons r rs)
  obtain f1 m1 where 1: "grow_region r (f, m) = (f1, m1)" by fastforce
  have "around mem e m1" using around_region [OF Cons.prems(1) _ 1] Cons.prems(2) by simp
  then show ?case using Cons.IH [of m1 f1] Cons.prems(2,3) 1 by simp
qed simp

lemma around_grow: "around mem e m \<Longrightarrow> around mem e (grow_memory mem m)"
proof (induction mem m rule: grow_memory.induct)
  case (1 mem m)
  obtain f m' where p: "grow_pass mem m = (f, m')" by fastforce
  have "around mem e m'" using around_fold [OF 1(2) subset_refl] p by (simp add: grow_pass_def)
  then show ?case using 1(1) [OF p [symmetric] refl] p by (simp add: grow_memory.simps [of mem m])
qed

text \<open>When no pass is left, no region extends main memory at either end.\<close>

lemma grow_memory_stable:
  assumes "r \<in> set mem"
  shows "grow_region r (0, grow_memory mem m) = (0, grow_memory mem m)"
  using assms
proof (induction mem m rule: grow_memory.induct)
  case (1 mem m)
  obtain f m' where p: "grow_pass mem m = (f, m')" by fastforce
  show ?case
  proof (cases "f = 0")
    case True
    then show ?thesis
      using grow_fold_stable [of mem 0 m m' r] p 1(2) by (auto simp: grow_pass_def grow_memory.simps [of mem m])
  next
    case False
    then show ?thesis using 1(1) [OF p [symmetric] refl] 1(2) p by (simp add: grow_memory.simps [of mem m])
  qed
qed

text \<open>
  C33. Main-memory sizing, for every table of regions and every end of the kernel image: the loop ends (the model is a total function: each
  pass that goes on lowers \<open>MAINSTORE\<close> or raises the end of memory), main memory then reaches from at or below the end of the kernel to
  at or above it without wrapping, every byte of it lies in a region of the table, and it is maximal: no region begins
  below it while reaching up to it, and none begins within or right behind it while ending above it.
\<close>

theorem grow_memory_maximal:
  "let m = grow_memory mem \<lparr>MAINSTORE = kend, VSIZOFMEM = 0\<rparr>;
       lo = unat (MAINSTORE m); hi = lo + unat (VSIZOFMEM m)
   in lo \<le> unat kend \<and> unat kend \<le> hi \<and> hi < 2 ^ 32 \<and>
     (\<forall>a. lo \<le> a \<and> a < hi \<longrightarrow> (\<exists>r \<in> set mem. unat (mh_Lower r) \<le> a \<and> a < unat (mh_Upper r))) \<and>
     (\<forall>r \<in> set mem. \<not> (unat (mh_Lower r) < lo \<and> lo \<le> unat (mh_Upper r)) \<and>
        \<not> (unat (mh_Lower r) \<le> hi \<and> hi < unat (mh_Upper r)))"
proof -
  define m where "m = grow_memory mem \<lparr>MAINSTORE = kend, VSIZOFMEM = 0\<rparr>"
  have a: "around mem kend m" unfolding m_def by (rule around_grow [OF around_start])
  have s: "\<not> (unat (mh_Lower r) < low_end m \<and> low_end m \<le> unat (mh_Upper r))"
    "\<not> (unat (mh_Lower r) \<le> high_end m \<and> high_end m < unat (mh_Upper r))" if "r \<in> set mem" for r
    using grow_memory_stable [OF that, of "\<lparr>MAINSTORE = kend, VSIZOFMEM = 0\<rparr>"] top_unat [OF a]
    by (auto simp: m_def [symmetric] grow_region_def Let_def word_less_nat_alt word_le_nat_alt split: if_splits)
  have "closed_at mem (high_end m)" using s(2) by (force simp: closed_at_def)
  then have "unat kend \<le> high_end m" using a by (simp add: around_def)
  then show ?thesis using a s unfolding m_def [symmetric] Let_def by (auto simp: around_def in_table_def)
qed

definition fast_ram :: "mem_header list" where
  "fast_ram = [\<lparr>mh_Lower = 0x7000000, mh_Upper = 0x7400000\<rparr>, \<lparr>mh_Lower = 0x7400000, mh_Upper = 0x7800000\<rparr>]"

lemma grow_fast_ram:
  "grow_memory fast_ram \<lparr>MAINSTORE = 0x7100000, VSIZOFMEM = 0\<rparr> =
    \<lparr>MAINSTORE = 0x7000000, VSIZOFMEM = 0x800000\<rparr>"
  by (simp add: grow_memory.simps fast_ram_def grow_pass_def grow_region_def)

theorem grow_memory_maximal_witness:
  "grow_memory fast_ram \<lparr>MAINSTORE = 0x7100000, VSIZOFMEM = 0\<rparr> = \<lparr>MAINSTORE = 0x7000000, VSIZOFMEM = 0x800000\<rparr> \<and>
   \<not> ((0x7400000 :: nat) \<le> 0x7800000 \<and> 0x7800000 < (0x7800000 :: nat)) \<and>
   (\<exists>r \<in> set fast_ram. unat (mh_Lower r) \<le> 0x7654321 \<and> 0x7654321 < unat (mh_Upper r))"
  using grow_memory_maximal [where mem = fast_ram and kend = "0x7100000"] by (simp add: grow_fast_ram Let_def)

lemma exec0_memory_last:
  "mem \<noteq> [] \<Longrightarrow> exec0_memory ds mem =
    (case filter is_memlist ds of [] \<Rightarrow> mem | d # ds' \<Rightarrow> mem[0 := region_of (last (d # ds'))])"
proof (induction ds arbitrary: mem)
  case (Cons d ds)
  then show ?case by (auto split: list.splits)
qed simp

text \<open>
  Booting with method \<open>EXEC0\<close> records at most one memory region: whatever boards the table
  lists, only entry 0 of the memory table changes, to the region of the last board of the memory list;
  every other region is lost.
\<close>

theorem exec0_keeps_last_region:
  assumes "length (memory_table B) = NAUTO" "config 2 av ds B1 B = Some B'"
  shows "memory_table B' = (case filter is_memlist ds of [] \<Rightarrow> memory_table B
    | d # ds' \<Rightarrow> (memory_table B)[0 := region_of (last (d # ds'))])"
proof -
  have "memory_table B \<noteq> []" using assms(1) by auto
  then show ?thesis using assms(2) by (auto simp: config_def config_exec0_def exec0_memory_last)
qed

definition zero_bootinfo :: bootinfo where
  "zero_bootinfo = \<lparr>autocon_table = replicate NAUTO
      \<lparr>er_Type = 0, er_Product = 0, er_Manufacturer = 0, cd_BoardAddr = 0, cd_BoardSize = 0\<rparr>,
    memory_table = replicate NAUTO \<lparr>mh_Lower = 0, mh_Upper = 0\<rparr>\<rparr>"

definition two_regions :: "config_dev list" where
  "two_regions =
    [\<lparr>er_Type = 0xE0, er_Product = 1, er_Manufacturer = 1, cd_BoardAddr = 0x200000, cd_BoardSize = 0x200000\<rparr>,
     \<lparr>er_Type = 0xE0, er_Product = 1, er_Manufacturer = 1, cd_BoardAddr = 0x400000, cd_BoardSize = 0x100000\<rparr>]"

theorem exec0_keeps_last_region_witness:
  "memory_table (the (config 2 [] two_regions zero_bootinfo zero_bootinfo)) =
    (memory_table zero_bootinfo)[0 := \<lparr>mh_Lower = 0x400000, mh_Upper = 0x500000\<rparr>]"
proof -
  have "length (memory_table zero_bootinfo) = NAUTO" by (simp add: zero_bootinfo_def)
  moreover have "config 2 [] two_regions zero_bootinfo zero_bootinfo =
      Some (config_exec0 two_regions zero_bootinfo)" by (simp add: config_def)
  ultimately have "memory_table (config_exec0 two_regions zero_bootinfo) =
      (case filter is_memlist two_regions of [] \<Rightarrow> memory_table zero_bootinfo
       | d # ds' \<Rightarrow> (memory_table zero_bootinfo)[0 := region_of (last (d # ds'))])"
    by (rule exec0_keeps_last_region)
  then show ?thesis by (simp add: two_regions_def is_memlist_def region_of_def config_def)
qed

end
