(* ===== verification/Hydra_Autoconf.thy ===== *)
theory Hydra_Autoconf
  imports Hydra_Init Kernel_Support
begin

text \<open>
  Finding boards: \<open>ac_byte\<close>, \<open>ac_word\<close>, \<open>ac_match_board\<close> and \<open>hydraautoconfig\<close> of
  \<open>hydra.c\<close>. The three probe methods run in order and the first that finds a board wins; each
  records at most \<open>HYDRA_MAXBOARDS\<close> addresses.

  The kernel's boot information and the address of its end are parameters of \<open>hydraautoconfig\<close>.
\<close>

section \<open>AutoConfig ROM nibbles\<close>

text \<open>\<open>mem\<close> gives the bytes of the AutoConfig space. These helpers are not called by the
  current probe methods.\<close>

definition ac_byte :: "(nat \<Rightarrow> byte) \<Rightarrow> nat \<Rightarrow> byte" where
  "ac_byte mem n =
    (let hi = drop_bit 4 (mem (n * 4)) AND 0x0F; lo = drop_bit 4 (mem (n * 4 + 2)) AND 0x0F;
         raw = push_bit 4 hi OR lo
     in if n = 0 then raw else NOT raw AND 0xFF)"

definition ac_word :: "(nat \<Rightarrow> byte) \<Rightarrow> nat \<Rightarrow> u16" where
  "ac_word mem n = be16 (ac_byte mem n) (ac_byte mem (n + 1))"

definition ac_match_board :: "(nat \<Rightarrow> byte) \<Rightarrow> bool" where
  "ac_match_board mem =
    (if scan (\<lambda>i. mem i \<noteq> 0xFF) 0 16 = 16 then False
     else if scan (\<lambda>i. mem i \<noteq> 0x00) 0 16 = 16 then False
     else if ac_byte mem 0 AND 0xC0 \<noteq> 0xC0 then False
     else if ac_byte mem 3 \<noteq> 0x00 then False
     else ac_word mem 4 = 0x0849 \<and> ac_byte mem 1 = 0x01)"

section \<open>The probes\<close>

text \<open>The acceptance test of method 1: a 64 KB boundary in Zorro II I/O or memory space.\<close>

definition zorro2_address :: "u32 \<Rightarrow> bool" where
  "zorro2_address a \<longleftrightarrow> a AND 0xFFFF = 0 \<and>
     ((a \<ge> 0x00E80000 \<and> a < 0x00F00000) \<or> (a \<ge> 0x00200000 \<and> a < 0x00A00000))"

text \<open>\<open>hydra_autoconfig[n].address = a; type = 1; n++\<close>\<close>

definition record_board :: "u32 \<Rightarrow> hst \<Rightarrow> hst" where
  "record_board a s = s\<lparr>autoconfig := (autoconfig s)[number_of_boards s := \<lparr>ac_address = a, ac_type = 1\<rparr>],
     number_of_boards := number_of_boards s + 1\<rparr>"

text \<open>Method 1, from index \<open>i\<close> with \<open>k\<close> rounds left; the result counts the boards.\<close>

fun probe_autocon :: "bootinfo \<Rightarrow> u32 \<Rightarrow> nat \<Rightarrow> nat \<Rightarrow> nat \<Rightarrow> hst \<Rightarrow> nat \<times> hst" where
  "probe_autocon B kend 0 i n1 s = (n1, s)"
| "probe_autocon B kend (Suc k) i n1 s =
    (case autocon B kend NE8390_BOARD_ID (int i) of
       None \<Rightarrow> (n1, s)
     | Some (addr, sz) \<Rightarrow>
         if zorro2_address addr
         then probe_autocon B kend k (Suc i) (n1 + 1) (record_board addr s)
         else probe_autocon B kend k (Suc i) n1 s)"

text \<open>Methods 2 and 3 read the six PROM bytes at each candidate base.\<close>

fun probe_prom :: "henv \<Rightarrow> u32 list \<Rightarrow> nat \<Rightarrow> hst \<Rightarrow> nat \<times> hst" where
  "probe_prom E [] n s = (n, s)"
| "probe_prom E (base # bs) n s =
    (let (mac, s) = in8s E (prom_addrs base) s
     in if \<not> mac_valid mac then probe_prom E bs n s
        else if number_of_boards s < HYDRA_MAXBOARDS
        then probe_prom E bs (n + 1) (record_board base s)
        else probe_prom E bs n s)"

definition io_slots :: "u32 list" where
  "io_slots = map (\<lambda>slot. 0x00E90000 + of_nat slot * 0x10000) [0..<7]"

text \<open>\<open>for (addr = 0x00200000; addr < 0x00A00000; addr += 0x00010000)\<close>\<close>

definition mem_slots :: "u32 list" where
  "mem_slots = map (\<lambda>k. 0x00200000 + of_nat k * 0x10000) [0..<128]"

definition hydraautoconfig :: "henv \<Rightarrow> bootinfo \<Rightarrow> u32 \<Rightarrow> hst \<Rightarrow> hst" where
  "hydraautoconfig E B kend s =
    (if autoconfigured s then s
     else
       let s = s\<lparr>autoconfigured := True, number_of_boards := 0\<rparr>;
           (n1, s) = probe_autocon B kend HYDRA_MAXBOARDS 0 0 s
       in if n1 > 0 then s
          else
            let (n, s) = probe_prom E io_slots 0 s
            in if n > 0 then s
               else
                 let (n, s) = probe_prom E mem_slots 0 s
                 in if n > 0 then s else call (Cmn_err ''hydra: no board found'' 0) s)"

text \<open>\<open>hydrainit\<close> only probes.\<close>

definition hydrainit :: "henv \<Rightarrow> bootinfo \<Rightarrow> u32 \<Rightarrow> hst \<Rightarrow> hst" where
  "hydrainit E B kend s = hydraautoconfig E B kend s"

section \<open>What the probes leave behind\<close>

text \<open>The table in use: as many entries as boards, all in Zorro II space, all of type 1.\<close>

definition table_ok :: "hst \<Rightarrow> bool" where
  "table_ok s \<longleftrightarrow> length (autoconfig s) = HYDRA_MAXBOARDS \<and> number_of_boards s \<le> HYDRA_MAXBOARDS \<and>
     (\<forall>i < number_of_boards s. zorro2_address (ac_address (autoconfig s ! i)) \<and>
        ac_type (autoconfig s ! i) = 1)"

lemma table_ok_record:
  "table_ok s \<Longrightarrow> number_of_boards s < HYDRA_MAXBOARDS \<Longrightarrow> zorro2_address a \<Longrightarrow>
    table_ok (record_board a s) \<and> number_of_boards (record_board a s) = number_of_boards s + 1"
  by (auto simp: table_ok_def record_board_def nth_list_update less_Suc_eq)

lemma probe_autocon_ok:
  assumes "table_ok s" "number_of_boards s + k \<le> HYDRA_MAXBOARDS" "probe_autocon B kend k i n1 s = (n, t)"
  shows "table_ok t \<and> number_of_boards t - number_of_boards s = n - n1 \<and>
    number_of_boards s \<le> number_of_boards t \<and> n1 \<le> n \<and> number_of_boards t \<le> number_of_boards s + k"
  using assms
proof (induction k arbitrary: i n1 s)
  case (Suc k)
  show ?case
  proof (cases "autocon B kend NE8390_BOARD_ID (int i)")
    case None
    then show ?thesis using Suc.prems by simp
  next
    case (Some r)
    obtain addr sz where r: "r = (addr, sz)" by fastforce
    show ?thesis
    proof (cases "zorro2_address addr")
      case True
      then have "table_ok (record_board addr s)" "number_of_boards (record_board addr s) = number_of_boards s + 1"
        using Suc.prems table_ok_record [of s addr] by simp_all
      then show ?thesis
        using Suc.IH [of "record_board addr s" "Suc i" "n1 + 1"] Suc.prems True Some r by fastforce
    next
      case False
      then show ?thesis using Suc.IH [of s "Suc i" n1] Suc.prems Some r by fastforce
    qed
  qed
qed simp

lemma table_ok_io: "io_only s t \<Longrightarrow> table_ok t = table_ok s"
  by (simp add: table_ok_def io_only_hst)

lemma probe_prom_ok:
  assumes "table_ok s" "list_all zorro2_address bs" "probe_prom E bs n0 s = (n, t)"
  shows "table_ok t \<and> number_of_boards t - number_of_boards s = n - n0 \<and>
    number_of_boards s \<le> number_of_boards t \<and> n0 \<le> n"
  using assms
proof (induction bs arbitrary: n0 s)
  case (Cons base bs)
  obtain mac u where u: "in8s E (prom_addrs base) s = (mac, u)" by fastforce
  have io: "io_only s u" using io_only_in8s [of s s E "prom_addrs base"] u by simp
  then have su: "table_ok u" "number_of_boards u = number_of_boards s"
    using Cons.prems table_ok_io [OF io] by (simp_all add: io_only_hst)
  show ?case
  proof (cases "mac_valid mac \<and> number_of_boards u < HYDRA_MAXBOARDS")
    case True
    then have "table_ok (record_board base u)" "number_of_boards (record_board base u) = number_of_boards s + 1"
      using su table_ok_record [of u base] Cons.prems by simp_all
    then show ?thesis
      using Cons.IH [of "record_board base u" "n0 + 1"] Cons.prems True u by fastforce
  next
    case False
    then show ?thesis using Cons.IH [of u n0] Cons.prems su u by (auto split: if_splits)
  qed
qed simp

lemma slots_zorro2: "list_all zorro2_address io_slots" "list_all zorro2_address mem_slots"
  by (simp_all add: io_slots_def mem_slots_def zorro2_address_def upt_rec)

section \<open>Which boards are found\<close>

definition found_boards :: "hst \<Rightarrow> u32 list" where
  "found_boards s = map ac_address (take (number_of_boards s) (autoconfig s))"

lemma found_boards_record:
  "number_of_boards s < length (autoconfig s) \<Longrightarrow>
    found_boards (record_board a s) = found_boards s @ [a] \<and>
    length (autoconfig (record_board a s)) = length (autoconfig s) \<and>
    number_of_boards (record_board a s) = Suc (number_of_boards s)"
  by (simp add: found_boards_def record_board_def take_Suc_conv_app_nth)

lemma found_boards_io: "io_only s t \<Longrightarrow> found_boards t = found_boards s"
  by (simp add: found_boards_def io_only_hst)

text \<open>The boards of the boot table, as \<open>autocon\<close> enumerates them.\<close>

definition hydra_entries :: "bootinfo \<Rightarrow> u32 list" where
  "hydra_entries B = map cd_BoardAddr (filter (board_matches NE8390_BOARD_ID) (take NAUTO (autocon_table B)))"

lemma autocon_entry:
  "autocon B kend NE8390_BOARD_ID (int i) = None \<longleftrightarrow> length (hydra_entries B) \<le> i"
  "autocon B kend NE8390_BOARD_ID (int i) = Some (addr, sz) \<Longrightarrow> addr = hydra_entries B ! i"
  by (auto simp: autocon_def autocon_loop_nth hydra_entries_def Let_def split: if_splits)

lemma probe_autocon_found:
  assumes "number_of_boards s + k \<le> length (autoconfig s)" "probe_autocon B kend k i n1 s = (n, t)"
  shows "found_boards t = found_boards s @ filter zorro2_address (take k (drop i (hydra_entries B))) \<and>
    n = n1 + length (filter zorro2_address (take k (drop i (hydra_entries B)))) \<and> tr t = tr s \<and>
    length (autoconfig t) = length (autoconfig s) \<and> (n = n1 \<longrightarrow> t = s)"
  using assms
proof (induction k arbitrary: i n1 s)
  case (Suc k)
  show ?case
  proof (cases "autocon B kend NE8390_BOARD_ID (int i)")
    case None
    then have "length (hydra_entries B) \<le> i" by (metis autocon_entry(1))
    then show ?thesis using Suc.prems None by simp
  next
    case (Some r)
    obtain addr sz where r: "r = (addr, sz)" by fastforce
    have i: "\<not> length (hydra_entries B) \<le> i" using Some by (metis autocon_entry(1) option.distinct(1))
    then have d: "drop i (hydra_entries B) = addr # drop (Suc i) (hydra_entries B)"
      using autocon_entry(2) [of B kend i addr sz] Some r by (simp add: Cons_nth_drop_Suc)
    show ?thesis
    proof (cases "zorro2_address addr")
      case True
      note rec = found_boards_record [of s addr]
      have "tr (record_board addr s) = tr s" by (simp add: record_board_def)
      then show ?thesis
        using Suc.IH [of "record_board addr s" "Suc i" "n1 + 1"] Suc.prems True Some r d rec by simp
    next
      case False
      then show ?thesis using Suc.IH [of s "Suc i" n1] Suc.prems Some r d by simp
    qed
  qed
qed simp

lemma probe_prom_found:
  assumes "\<And>h base j. base \<in> set bs \<Longrightarrow> j < 6 \<Longrightarrow>
      e_in8 E h (base + NE8390_ADDRPROM_OFFSET + of_nat (j * 2)) = prom base j"
    and "number_of_boards s \<le> HYDRA_MAXBOARDS" "length (autoconfig s) = HYDRA_MAXBOARDS"
    and "probe_prom E bs n0 s = (n, t)"
  shows "found_boards t = take HYDRA_MAXBOARDS (found_boards s @ filter (\<lambda>b. mac_valid (map (prom b) [0..<6])) bs) \<and>
    n = n0 + (number_of_boards t - number_of_boards s) \<and> number_of_boards s \<le> number_of_boards t \<and>
    number_of_boards t \<le> HYDRA_MAXBOARDS \<and> length (autoconfig t) = HYDRA_MAXBOARDS"
  using assms
proof (induction bs arbitrary: n0 s)
  case Nil
  then show ?case by (simp add: found_boards_def)
next
  case (Cons base bs)
  obtain mac u where u: "in8s E (prom_addrs base) s = (mac, u)" by fastforce
  have io: "io_only s u" using io_only_in8s [of s s E "prom_addrs base"] u by simp
  have mac: "mac = map (prom base) [0..<6]"
  proof -
    have "mac = map (e_in8 E []) (prom_addrs base)"
      using in8s_answers [of "prom_addrs base" E "e_in8 E []" s] u Cons.prems(1)
      by (fastforce simp: prom_addrs_def)
    then show ?thesis using Cons.prems(1) [of base _ "[]"] by (simp add: prom_addrs_def)
  qed
  have su: "number_of_boards u = number_of_boards s" "length (autoconfig u) = HYDRA_MAXBOARDS"
    "found_boards u = found_boards s"
    using io Cons.prems(3) by (simp_all add: io_only_hst found_boards_io)
  have lenf: "length (found_boards s) = number_of_boards s"
    using Cons.prems by (simp add: found_boards_def)
  show ?case
  proof (cases "mac_valid mac")
    case False
    then show ?thesis using Cons.IH [of u n0] Cons.prems su u mac by auto
  next
    case True
    show ?thesis
    proof (cases "number_of_boards u < HYDRA_MAXBOARDS")
      case True
      note rec = found_boards_record [of u base]
      have "probe_prom E bs (n0 + 1) (record_board base u) = (n, t)"
        using True \<open>mac_valid mac\<close> Cons.prems(4) u by simp
      then show ?thesis
        using Cons.IH [of "record_board base u" "n0 + 1"] Cons.prems(1) True \<open>mac_valid mac\<close> rec su mac by auto
    next
      case False
      then have "probe_prom E bs n0 u = (n, t)" using \<open>mac_valid mac\<close> Cons.prems(4) u by simp
      moreover have "number_of_boards s = HYDRA_MAXBOARDS" using False su Cons.prems(2) by simp
      ultimately show ?thesis
        using Cons.IH [of u n0] Cons.prems(1) su lenf by auto
    qed
  qed
qed

section \<open>Properties\<close>

text \<open>
  C30. Probing: if the bytes of the station address PROM at each candidate slot read the same every time,
  \<open>prom\<close> giving them, the first call of \<open>hydraautoconfig\<close> records exactly these boards, in order: the Zorro II addresses among the first
  four Hydra entries of the boot table; if there is none, the first four I/O slots with a plausible
  station address; if there is none either, the first four such memory slots. Nothing is assumed of any other address.
\<close>

theorem autoconfig_boards:
  assumes "\<not> autoconfigured s" "length (autoconfig s) = HYDRA_MAXBOARDS"
    and "\<And>h base j. base \<in> set io_slots \<union> set mem_slots \<Longrightarrow> j < 6 \<Longrightarrow>
      e_in8 E h (base + NE8390_ADDRPROM_OFFSET + of_nat (j * 2)) = prom base j"
  shows "found_boards (hydraautoconfig E B kend s) =
    (let table = filter zorro2_address (take HYDRA_MAXBOARDS (hydra_entries B));
         valid = filter (\<lambda>b. mac_valid (map (prom b) [0..<6]));
         io = take HYDRA_MAXBOARDS (valid io_slots);
         mem = take HYDRA_MAXBOARDS (valid mem_slots)
     in if table \<noteq> [] then table else if io \<noteq> [] then io else mem)"
proof -
  let ?s = "s\<lparr>autoconfigured := True, number_of_boards := 0\<rparr>"
  let ?valid = "filter (\<lambda>b. mac_valid (map (prom b) [0..<6]))"
  obtain n1 u where u: "probe_autocon B kend HYDRA_MAXBOARDS 0 0 ?s = (n1, u)" by fastforce
  obtain n2 v where v: "probe_prom E io_slots 0 u = (n2, v)" by fastforce
  obtain n3 w where w: "probe_prom E mem_slots 0 v = (n3, w)" by fastforce
  have f0: "found_boards ?s = []" by (simp add: found_boards_def)
  note 1 = probe_autocon_found [OF _ u]
  have t: "found_boards u = filter zorro2_address (take HYDRA_MAXBOARDS (hydra_entries B))"
    "n1 = length (found_boards u)" and us: "n1 = 0 \<Longrightarrow> u = ?s"
    using 1 assms(2) f0 by simp_all
  show ?thesis
  proof (cases "n1 = 0")
    case False
    then show ?thesis using assms(1) t u by (simp add: hydraautoconfig_def Let_def)
  next
    case True
    then have u0: "found_boards u = []" "number_of_boards u = 0" "length (autoconfig u) = HYDRA_MAXBOARDS"
      using us t assms(2) by simp_all
    have 2: "found_boards v = take HYDRA_MAXBOARDS (?valid io_slots)" "n2 = number_of_boards v"
      "number_of_boards v \<le> HYDRA_MAXBOARDS" "length (autoconfig v) = HYDRA_MAXBOARDS"
      using probe_prom_found [OF assms(3) _ _ v] u0 by simp_all
    have n2: "n2 = length (found_boards v)" unfolding found_boards_def using 2(2-4) by simp
    have 3: "found_boards w = take HYDRA_MAXBOARDS (?valid mem_slots)" if "n2 = 0"
    proof -
      have "found_boards v = []" "number_of_boards v = 0" using that n2 2(2) by simp_all
      then show ?thesis using probe_prom_found [OF assms(3) _ _ w] 2(4) by simp
    qed
    show ?thesis
    proof (cases "n2 = 0")
      case False
      then show ?thesis using True assms(1) t u v 2 n2 by (auto simp: hydraautoconfig_def Let_def)
    next
      case n20: True
      then have "found_boards (hydraautoconfig E B kend s) = found_boards w"
        using True assms(1) u v w by (simp add: hydraautoconfig_def Let_def found_boards_def lens)
      moreover have "found_boards v = []" using n20 n2 by simp
      ultimately show ?thesis using True n20 t u0 2(1) 3 by (simp add: Let_def)
    qed
  qed
qed

text \<open>Two boards in the boot table, one of them outside Zorro II space.\<close>

definition two_boards :: bootinfo where
  "two_boards = \<lparr>autocon_table =
      [\<lparr>er_Type = 0xC1, er_Product = 1, er_Manufacturer = 0x849, cd_BoardAddr = 0x10000000, cd_BoardSize = 0x10000\<rparr>,
       \<lparr>er_Type = 0xC1, er_Product = 1, er_Manufacturer = 0x849, cd_BoardAddr = 0xEA0000, cd_BoardSize = 0x10000\<rparr>],
    memory_table = []\<rparr>"

text \<open>
  A bus that floats except for boards at the slots \<open>slots\<close>, each with a PROM and other registers that read as the number of
  accesses so far; no boards in the boot table.
\<close>

definition board_bus :: "u32 list \<Rightarrow> henv" where
  "board_bus slots = ram_env\<lparr>e_in8 := (\<lambda>h a.
     if a AND 0xFFFF0000 \<notin> set slots then 0xFF
     else if 0xFFC0 \<le> a AND 0xFFFF \<and> a AND 0xFFFF < 0xFFE0 then ucast a
     else of_nat (length h))\<rparr>"

definition bus_prom :: "u32 list \<Rightarrow> u32 \<Rightarrow> nat \<Rightarrow> byte" where
  "bus_prom slots base j = (if base \<in> set slots then of_nat (0xC0 + 2 * j) else 0xFF)"

definition no_boards :: bootinfo where
  "no_boards = \<lparr>autocon_table = [], memory_table = []\<rparr>"

lemma slot_offset:
  fixes base k :: u32
  assumes "base AND 0xFFFF = 0" "k AND 0xFFFF0000 = 0" "k AND 0xFFFF = k"
  shows "(base + k) AND 0xFFFF0000 = base" "(base + k) AND 0xFFFF = k"
proof -
  have m: "base AND 0xFFFF0000 = base"
  proof -
    have "(0xFFFF0000 OR 0xFFFF :: u32) = - 1" by simp
    then have "base AND (0xFFFF0000 OR 0xFFFF) = base AND - 1" by (rule arg_cong)
    then show ?thesis using assms(1) by (simp only: bit.conj_disj_distrib or.right_neutral and.right_neutral)
  qed
  have "base AND k = (base AND 0xFFFF0000) AND k" by (simp only: m)
  also have "\<dots> = base AND (k AND 0xFFFF0000)" by (simp only: ac_simps)
  finally have "base AND k = 0" using assms(2) by simp
  then have "base + k = base OR k" by (rule disjunctive_add_eq_or)
  then show "(base + k) AND 0xFFFF0000 = base" "(base + k) AND 0xFFFF = k"
    using assms m by (simp_all add: bit.conj_disj_distrib2)
qed

lemma board_bus_prom:
  assumes "base \<in> set io_slots \<union> set mem_slots" "j < 6"
  shows "e_in8 (board_bus slots) h (base + NE8390_ADDRPROM_OFFSET + of_nat (j * 2)) = bus_prom slots base j"
proof -
  have b: "base AND 0xFFFF = 0"
    using assms(1) slots_zorro2 by (auto simp: list_all_iff zorro2_address_def)
  have io: "e_in8 (board_bus slots) h (base + k) = (if base \<in> set slots then ucast (base + k) else 0xFF)"
    if "0xFFC0 \<le> k" "k < 0xFFE0" "k AND 0xFFFF0000 = 0" "k AND 0xFFFF = k" for k
    using slot_offset [OF b that(3,4)] that(1,2) by (simp add: board_bus_def)
  have u: "(ucast (base + k) :: byte) = ucast k" if "k AND 0xFFFF0000 = 0" "k AND 0xFFFF = k" for k :: u32
  proof -
    have "(ucast (base + k) :: byte) = ucast (base + k AND mask 16)"
      by (rule bit_word_eqI) (simp add: bit_ucast_iff bit_and_iff bit_mask_iff)
    then show ?thesis using slot_offset(2) [OF b that] by (simp add: mask_eq_exp_minus_1)
  qed
  consider "j = 0" | "j = 1" | "j = 2" | "j = 3" | "j = 4" | "j = 5" using assms(2) by linarith
  then show ?thesis by cases (simp_all add: add.assoc io u bus_prom_def)
qed

theorem autoconfig_boards_witness:
  "found_boards (hydraautoconfig (board_bus []) two_boards 0 init_hst) = [0xEA0000] \<and>
   found_boards (hydraautoconfig (board_bus [0xEA0000, 0xEE0000]) no_boards 0 init_hst) = [0xEA0000, 0xEE0000] \<and>
   found_boards (hydraautoconfig (board_bus [0x400000]) no_boards 0 init_hst) = [0x400000]"
proof -
  have i: "\<not> autoconfigured init_hst" "length (autoconfig init_hst) = HYDRA_MAXBOARDS"
    by (simp_all add: init_hst_def)
  have v: "mac_valid (map (bus_prom slots b) [0..<6]) = (b \<in> set slots)" for slots b
    by (simp add: mac_valid_def bus_prom_def upt_rec scan.simps)
  have w: "found_boards (hydraautoconfig (board_bus slots) B kend init_hst) =
    (let table = filter zorro2_address (take HYDRA_MAXBOARDS (hydra_entries B));
         io = take HYDRA_MAXBOARDS (filter (\<lambda>b. b \<in> set slots) io_slots);
         mem = take HYDRA_MAXBOARDS (filter (\<lambda>b. b \<in> set slots) mem_slots)
     in if table \<noteq> [] then table else if io \<noteq> [] then io else mem)" for slots B kend
    using autoconfig_boards [OF i board_bus_prom, of slots B kend] by (simp add: v Let_def)
  show ?thesis
    unfolding w
    by (simp add: two_boards_def no_boards_def hydra_entries_def board_matches_def zorro2_address_def
        io_slots_def mem_slots_def upt_rec Let_def)
qed

text \<open>
  C32. The board table is always sound: whatever the boot table and the bus say, after
  \<open>hydraautoconfig\<close> at most four boards are recorded, each at a 64 KB boundary inside Zorro II space
  and of type 1, and a second call changes nothing and touches no hardware.
\<close>

theorem autoconfig_table:
  assumes "\<not> autoconfigured s" "length (autoconfig s) = HYDRA_MAXBOARDS"
  shows "table_ok (hydraautoconfig E B kend s) \<and>
    hydraautoconfig E B kend (hydraautoconfig E' B' kend' s) = hydraautoconfig E' B' kend' s"
proof -
  let ?s = "s\<lparr>autoconfigured := True, number_of_boards := 0\<rparr>"
  have 0: "table_ok ?s" using assms by (simp add: table_ok_def)
  have conf: "autoconfigured (snd (probe_prom E bs n u)) = autoconfigured u" for E bs n u
  proof (induction bs arbitrary: n u)
    case (Cons b bs)
    have "autoconfigured (snd (in8s E (prom_addrs b) u)) = autoconfigured u"
      using io_only_hst(4) [OF io_only_in8s [OF io_only_refl]] .
    moreover have "autoconfigured (record_board b v) = autoconfigured v" for v
      by (simp add: record_board_def)
    ultimately show ?case by (simp add: Let_def split_def Cons.IH)
  qed simp
  have conf1: "autoconfigured (snd (probe_autocon B kend k i n u)) = autoconfigured u" for B kend k i n u
    by (induction B kend k i n u rule: probe_autocon.induct)
      (auto simp: record_board_def split: option.splits)
  have "autoconfigured (hydraautoconfig E' B' kend' s)"
    using assms(1) by (simp add: hydraautoconfig_def Let_def split_def conf conf1 lens)
  moreover have "table_ok (hydraautoconfig E B kend s)"
  proof -
    obtain n1 u where u: "probe_autocon B kend HYDRA_MAXBOARDS 0 0 ?s = (n1, u)" by fastforce
    obtain n2 v where v: "probe_prom E io_slots 0 u = (n2, v)" by fastforce
    obtain n3 w where w: "probe_prom E mem_slots 0 v = (n3, w)" by fastforce
    have "table_ok u" using probe_autocon_ok [OF 0 _ u] by simp
    moreover from this have "table_ok v" using probe_prom_ok [OF _ slots_zorro2(1) v] by simp
    moreover from this have "table_ok w" using probe_prom_ok [OF _ slots_zorro2(2) w] by simp
    moreover from this have "table_ok (call (Cmn_err ''hydra: no board found'' 0) w)"
      by (simp add: table_ok_def lens)
    ultimately show ?thesis using assms(1) u v w by (simp add: hydraautoconfig_def Let_def)
  qed
  ultimately show ?thesis by (simp add: hydraautoconfig_def)
qed

theorem autoconfig_table_witness:
  "table_ok (hydraautoconfig float_env two_boards 0 init_hst) \<and>
   hydraautoconfig float_env two_boards 0 (hydraautoconfig ram_env two_boards 7 init_hst) =
     hydraautoconfig ram_env two_boards 7 init_hst"
  using autoconfig_table [of init_hst] by (simp add: init_hst_def)

end
