(* ===== verification/Hydra_Tx.thy ===== *)
theory Hydra_Tx
  imports Hydra_Init
begin

text \<open>
  Sending: \<open>hydraxmit\<close> and \<open>transmit_interrupt\<close> of \<open>hydra.c\<close>.

  \<open>hydraxmit\<close> gives \<open>None\<close> where the C code reads outside a message block or through a null
  pointer. The local buffer \<open>tmp\<close> is not initialised: its bytes are whatever the stack holds.
\<close>

section \<open>One frame\<close>

definition tx_probe :: "henv \<Rightarrow> u32 \<Rightarrow> hst \<Rightarrow> bool \<times> hst" where
  "tx_probe E nic s =
    (let s = NIC_DELAY (hydra_outb nic NE_CR (NE_CR_P0 OR NE_CR_STA OR NE_CR_RDMA_ABORT) s);
         (v, s) = hydra_inb E nic NE_CR s
     in (v AND NE_CR_TXP \<noteq> 0, NIC_DELAY s))"

text \<open>\<open>for (mp = mp->b_cont; mp; mp = mp->b_cont)\<close>: at most \<open>n\<close> more bytes are copied.\<close>

fun copy_blocks :: "(mtype \<times> hblob content) list \<Rightarrow> nat \<Rightarrow> byte list option" where
  "copy_blocks [] n = Some []"
| "copy_blocks ((_, c) # bs) n =
    (case c of
       Bytes xs \<Rightarrow> map_option ((@) (take n xs)) (copy_blocks bs (n - min (length xs) n))
     | _ \<Rightarrow> None)"

text \<open>The part of \<open>tmp\<close> that is written: header and payload.\<close>

definition tx_frame :: "byte list \<Rightarrow> u16 \<Rightarrow> hblob msg \<Rightarrow> byte list option" where
  "tx_frame paddr sap mp =
    (case body mp of
       Req (DL_UNITDATA_REQ off bs) \<Rightarrow>
         if off + ETH_ADDRESS_SIZE \<le> length bs
         then map_option ((@) (take ETH_ADDRESS_SIZE (drop off bs) @ paddr @ [hi8 sap, lo8 sap]))
           (copy_blocks (b_cont mp) ETH_MAXDATA)
         else None
     | _ \<Rightarrow> None)"

definition tmp_buffer :: "henv \<Rightarrow> hblob ev list \<Rightarrow> byte list \<Rightarrow> byte list" where
  "tmp_buffer E h frame = frame @ map (e_stack E h) [length frame..<ETH_MAXPACKET + 2]"

definition tx_start :: "u32 \<Rightarrow> int \<Rightarrow> nat \<Rightarrow> hst \<Rightarrow> hst" where
  "tx_start nic page pktsize s =
    (let s = hydra_outb nic NE_CR (NE_CR_P0 OR NE_CR_STA OR NE_CR_RDMA_ABORT) s;
         s = hydra_outb nic NE_TPSR (of_int page) s;
         s = hydra_outb nic NE_TBCNT0 (of_nat pktsize AND 0xff) s;
         s = hydra_outb nic NE_TBCNT1 (of_nat (pktsize div 256) AND 0xff) s
     in hydra_outb nic NE_CR (NE_CR_P0 OR NE_CR_TXP OR NE_CR_STA OR NE_CR_RDMA_ABORT) s)"

definition tx_count :: "nat \<Rightarrow> u16 \<Rightarrow> hst \<Rightarrow> hst" where
  "tx_count bi sap s =
    (let s = on_status bi (\<lambda>t. t\<lparr>packets_sent := packets_sent t + 1\<rparr>) s;
         s = (if sap = ETHERTYPE_ARP then on_status bi (\<lambda>t. t\<lparr>tx_arp := tx_arp t + 1\<rparr>) s else s);
         s = (if sap = ETHERTYPE_IP then on_status bi (\<lambda>t. t\<lparr>tx_ip := tx_ip t + 1\<rparr>) s else s)
     in on_ifstats bi (\<lambda>f. f\<lparr>ifs_opackets := ifs_opackets f + 1\<rparr>) s)"

definition hydraxmit :: "henv \<Rightarrow> queue \<Rightarrow> hblob msg \<Rightarrow> hst \<Rightarrow> (bool \<times> hst) option" where
  "hydraxmit E q mp s =
    (case q_ptr s q of
       None \<Rightarrow> None
     | Some (hb, si) \<Rightarrow>
         let hp = stream hb si s; bi = h_board_index hp; nic = nic_base (info bi s);
             stack = tr s;
             (busy, s) = tx_probe E nic s
         in if busy then Some (False, s)
            else
              case tx_frame (paddress (info bi s)) (h_sap hp) mp of
                None \<Rightarrow> None
              | Some frame \<Rightarrow>
                  let s = on_status bi (\<lambda>t. t\<lparr>last_tx_sap := ucast (h_sap hp)\<rparr>) s;
                      s = call (Freemsg mp) s;
                      pktsize = (if length frame < ETH_MINPACKET then ETH_MINPACKET else length frame);
                      page = tx_start_page (info bi s);
                      s = hydra_ram_write bi (tmp_buffer E stack frame) (int pktsize) page s;
                      s = tx_start nic page pktsize s
                  in Some (True, tx_count bi (h_sap hp) s))"

section \<open>The transmit interrupt\<close>

fun transmit_streams :: "henv \<Rightarrow> nat \<Rightarrow> nat list \<Rightarrow> hst \<Rightarrow> hst option" where
  "transmit_streams E bi [] s = Some s"
| "transmit_streams E bi (n # ns) s =
    (case h_q (stream bi n s) of
       None \<Rightarrow> transmit_streams E bi ns s
     | Some q \<Rightarrow>
         let (m, s) = getq E (WR q) s
         in case m of
              None \<Rightarrow> transmit_streams E bi ns s
            | Some mp \<Rightarrow>
                (case hydraxmit E (WR q) mp s of
                   None \<Rightarrow> None
                 | Some (True, s) \<Rightarrow> transmit_streams E bi ns s
                 | Some (False, s) \<Rightarrow> Some (call (Putbq (WR q) mp) s)))"

definition transmit_interrupt :: "henv \<Rightarrow> nat \<Rightarrow> hst \<Rightarrow> hst option" where
  "transmit_interrupt E bi s = transmit_streams E bi [0..<HYDRA_MAXDEV] s"

section \<open>Frame lemmas\<close>

definition blocks_bytes :: "(mtype \<times> hblob content) list \<Rightarrow> byte list list \<Rightarrow> bool" where
  "blocks_bytes bs xss \<longleftrightarrow> map snd bs = map Bytes xss"

lemma copy_blocks_concat: "blocks_bytes bs xss \<Longrightarrow> copy_blocks bs n = Some (take n (concat xss))"
proof (induction bs arbitrary: xss n)
  case (Cons b bs)
  then obtain xs xss' where x: "xss = xs # xss'" "snd b = Bytes xs" "blocks_bytes bs xss'"
    by (auto simp: blocks_bytes_def)
  then show ?case using Cons.IH [OF x(3), of "n - min (length xs) n"]
    by (cases b) (simp add: min_def split: if_splits)
qed (simp add: blocks_bytes_def)

lemma copy_blocks_length: "copy_blocks bs n = Some xs \<Longrightarrow> length xs \<le> n"
proof (induction bs arbitrary: n xs)
  case (Cons b bs)
  then show ?case by (cases b) (force split: content.splits)
qed simp

lemma tx_frame_length:
  "tx_frame paddr sap mp = Some frame \<Longrightarrow> length paddr = ETH_ADDRESS_SIZE \<Longrightarrow>
    ETH_HEADER_SIZE \<le> length frame \<and> length frame \<le> ETH_MAXPACKET"
  by (auto simp: tx_frame_def dest!: copy_blocks_length split: content.splits dl_request.splits if_splits)

lemma tx_probe_hw: "hw_only s (snd (tx_probe E nic s))"
  by (auto simp: tx_probe_def Let_def split_def)

lemma tx_start_hw: "hw_only s (tx_start nic page n s)"
  by (auto simp: tx_start_def Let_def)

lemma tx_count_lens [lens]:
  "core (tx_count bi sap s) = core s"
  "tr (tx_count bi sap s) = tr s" "q_ptr (tx_count bi sap s) = q_ptr s"
  "info bj (tx_count bi sap s) = info bj s" "stream bj si (tx_count bi sap s) = stream bj si s"
  by (simp_all add: tx_count_def Let_def lens)

text \<open>A step that keeps queue pointers and streams, and extends the trace by \<open>es\<close>.\<close>

definition tx_step :: "hblob ev list \<Rightarrow> hst \<Rightarrow> hst \<Rightarrow> bool" where
  "tx_step es s t \<longleftrightarrow> tr t = es @ tr s \<and> core t = core s \<and> q_ptr t = q_ptr s \<and>
     (\<forall>bi. info bi t = info bi s) \<and> (\<forall>bi si. stream bi si t = stream bi si s)"

lemma hw_tx_step: "hw_only s t \<Longrightarrow> \<exists>es. list_all hw_ev es \<and> tx_step es s t"
  by (auto simp: hw_only_def tx_step_def tr_calls calls_hst core_lens)

lemma tx_step_trans: "tx_step es s t \<Longrightarrow> tx_step fs t u \<Longrightarrow> tx_step (fs @ es) s u"
  by (simp add: tx_step_def)

lemma hydraxmit_step:
  assumes "hydraxmit E q mp s = Some (r, t)"
  shows "\<exists>es. tx_step es s t \<and> freed es = (if r then [mp] else []) \<and> passed es = [] \<and>
    (\<forall>q h. queued q (es @ h) = queued q h)"
proof -
  obtain hb si where q: "q_ptr s q = Some (hb, si)"
    using assms by (auto simp: hydraxmit_def split: option.splits)
  define hp where "hp = stream hb si s"
  define bi where "bi = h_board_index hp"
  obtain busy u where u: "tx_probe E (nic_base (info bi s)) s = (busy, u)" by fastforce
  obtain es where es: "list_all hw_ev es" "tx_step es s u"
    using hw_tx_step [OF tx_probe_hw] u by (metis snd_conv)
  note eq = assms [unfolded hydraxmit_def q option.case split Let_def, folded hp_def, folded bi_def, unfolded u]
  show ?thesis
  proof (cases busy)
    case True
    then have "r = False" "t = u" using eq by simp_all
    then show ?thesis using es hw_quiet(2,3) [OF es(1), of "[]"] hw_quiet(1) [OF es(1)] by auto
  next
    case False
    then obtain frame where frame: "tx_frame (paddress (info bi u)) (h_sap hp) mp = Some frame"
      using eq by (auto split: option.splits)
    define v where "v = call (Freemsg mp) (on_status bi (\<lambda>t. t\<lparr>last_tx_sap := ucast (h_sap hp)\<rparr>) u)"
    define n where "n = (if length frame < ETH_MINPACKET then ETH_MINPACKET else length frame)"
    define page where "page = tx_start_page (info bi v)"
    define w where "w = tx_start (nic_base (info bi s)) page n
      (hydra_ram_write bi (tmp_buffer E (tr s) frame) (int n) page v)"
    have t: "r = True" "t = tx_count bi (h_sap hp) w"
      using eq False frame by (simp_all add: w_def v_def n_def page_def Let_def)
    have "hw_only v w" unfolding w_def by (rule hw_only_trans [OF _ tx_start_hw]) auto
    then obtain fs where fs: "list_all hw_ev fs" "tx_step fs v w" using hw_tx_step by blast
    have "tx_step [Freemsg mp] u v" by (simp add: v_def tx_step_def lens)
    from tx_step_trans [OF tx_step_trans [OF es(2) this] fs(2)]
    have "tx_step (fs @ Freemsg mp # es) s w" by simp
    then have "tx_step (fs @ Freemsg mp # es) s t" by (simp add: t tx_step_def lens)
    moreover have "freed (fs @ Freemsg mp # es) = [mp]" "passed (fs @ Freemsg mp # es) = []"
      using hw_quiet(2,3) [OF es(1), of "[]"] hw_quiet(2,3) [OF fs(1), of "Freemsg mp # es"] by simp_all
    moreover have "queued q ((fs @ Freemsg mp # es) @ h) = queued q h" for q h
      using hw_quiet(1) [OF es(1)] hw_quiet(1) [OF fs(1)] by simp
    ultimately show ?thesis using t(1) by auto
  qed
qed

lemma queued_cons [simp]:
  "queued q (Freemsg m # h) = queued q h" "queued q (Putnext q' m # h) = queued q h"
  "queued q (Qreply q' m # h) = queued q h" "queued q (Allocb n b # h) = queued q h"
  by simp_all

section \<open>Properties\<close>

text \<open>The write queues of the open streams of a board, in slot order.\<close>

definition write_queues :: "nat \<Rightarrow> nat list \<Rightarrow> hst \<Rightarrow> queue list" where
  "write_queues bi ns s = map (\<lambda>n. WR (the (h_q (stream bi n s)))) (filter (\<lambda>n. h_q (stream bi n s) \<noteq> None) ns)"

lemma transmit_streams_fifo:
  assumes "fifo_env E" "transmit_streams E bi ns s = Some t" "distinct (write_queues bi ns s)"
  shows "\<exists>es f. tr t = es @ tr s \<and> (\<forall>q. queued q (tr s) = f q @ queued q (tr t) \<and> length (f q) \<le> 1) \<and>
    freed es = concat (map f (write_queues bi ns s)) \<and> (\<forall>q. q \<notin> set (write_queues bi ns s) \<longrightarrow> f q = [])"
  using assms(2,3)
proof (induction ns arbitrary: s)
  case Nil
  then have "tr t = [] @ tr s" by simp
  then show ?case by (intro exI [of _ "[]"] exI [of _ "\<lambda>_. []"]) (simp add: write_queues_def)
next
  case (Cons n ns)
  show ?case
  proof (cases "h_q (stream bi n s)")
    case None
    then have "write_queues bi (n # ns) s = write_queues bi ns s" by (simp add: write_queues_def)
    then show ?thesis using Cons None by simp
  next
    case (Some q)
    let ?wq = "WR q"
    have wq: "write_queues bi (n # ns) s = ?wq # write_queues bi ns s"
      using Some by (simp add: write_queues_def)
    obtain m u where u: "getq E ?wq s = (m, u)" by fastforce
    then have tu: "tr u = Getq ?wq m # tr s"
      and su: "tx_step [Getq ?wq m] s u"
      by (auto simp: getq_def Let_def tx_step_def lens)
    have m: "m = (case queued ?wq (tr s) of [] \<Rightarrow> None | m # _ \<Rightarrow> Some m)"
      using u assms(1) by (auto simp: getq_def Let_def fifo_env_def split: list.splits)
    have same: "write_queues bi ns v = write_queues bi ns s" if "tx_step es s v" for v es
      using that by (simp add: write_queues_def tx_step_def)
    show ?thesis
    proof (cases m)
      case None
      then have e: "queued ?wq (tr s) = []" using m by (simp split: list.splits)
      have "transmit_streams E bi ns u = Some t" using Cons.prems Some u None by simp
      from Cons.IH [OF this] Cons.prems(2) wq
      have "\<exists>es f. tr t = es @ tr u \<and> (\<forall>q. queued q (tr u) = f q @ queued q (tr t) \<and> length (f q) \<le> 1) \<and>
          freed es = concat (map f (write_queues bi ns s)) \<and> (\<forall>q. q \<notin> set (write_queues bi ns s) \<longrightarrow> f q = [])"
        unfolding same [OF su] by simp
      then obtain es f where f: "tr t = es @ tr u" "\<And>q. queued q (tr u) = f q @ queued q (tr t) \<and> length (f q) \<le> 1"
        "freed es = concat (map f (write_queues bi ns s))" "\<And>q. q \<notin> set (write_queues bi ns s) \<longrightarrow> f q = []"
        by blast
      have "queued q' (tr u) = queued q' (tr s)" for q' using e tu by auto
      moreover have "f ?wq = []" using f(4) Cons.prems(2) wq by simp
      ultimately show ?thesis using f tu wq
        by (intro exI [of _ "es @ [Getq ?wq m]"] exI [of _ f]) auto
    next
      case m1: (Some mp)
      then obtain rest where e: "queued ?wq (tr s) = mp # rest" using m by (simp split: list.splits)
      obtain r v where v: "hydraxmit E ?wq mp u = Some (r, v)"
        using Cons.prems(1) Some u m1 by (auto split: option.splits)
      from hydraxmit_step [OF v] obtain fs where fs: "tx_step fs u v" "freed fs = (if r then [mp] else [])"
        "\<And>q h. queued q (fs @ h) = queued q h" by blast
      have sv: "tx_step (fs @ [Getq ?wq m]) s v" using tx_step_trans [OF su fs(1)] .
      have tv: "tr v = fs @ Getq ?wq m # tr s" using sv by (simp add: tx_step_def)
      then have qv: "queued q' (tr v) = (if q' = ?wq then rest else queued q' (tr s))" for q'
        using e fs(3) by simp
      show ?thesis
      proof (cases r)
        case True
        have "transmit_streams E bi ns v = Some t" using Cons.prems Some u m1 v True by simp
        from Cons.IH [OF this] Cons.prems(2) wq
        have "\<exists>es f. tr t = es @ tr v \<and> (\<forall>q. queued q (tr v) = f q @ queued q (tr t) \<and> length (f q) \<le> 1) \<and>
            freed es = concat (map f (write_queues bi ns s)) \<and> (\<forall>q. q \<notin> set (write_queues bi ns s) \<longrightarrow> f q = [])"
          unfolding same [OF sv] by simp
        then obtain es f where f: "tr t = es @ tr v" "\<And>q. queued q (tr v) = f q @ queued q (tr t) \<and> length (f q) \<le> 1"
          "freed es = concat (map f (write_queues bi ns s))" "\<And>q. q \<notin> set (write_queues bi ns s) \<longrightarrow> f q = []"
          by blast
        have f0: "f ?wq = []" using f(4) Cons.prems(2) wq by simp
        define g where "g = f(?wq := [mp])"
        have m: "map g (write_queues bi ns s) = map f (write_queues bi ns s)" and gq: "g ?wq = [mp]"
          using Cons.prems(2) wq by (auto simp: g_def intro!: map_cong)
        have "concat (map g (write_queues bi (n # ns) s)) = [mp] @ concat (map f (write_queues bi ns s))"
          by (simp only: wq list.map concat.simps m gq)
        then have "freed (es @ fs @ [Getq ?wq m]) = concat (map g (write_queues bi (n # ns) s))"
          using f(3) fs(2) True by simp
        moreover have "queued q' (tr s) = g q' @ queued q' (tr t)" "length (g q') \<le> 1" for q'
          using f(2) [of q'] f0 qv [of q'] e by (auto simp: g_def)
        moreover have "q' \<notin> set (write_queues bi (n # ns) s) \<longrightarrow> g q' = []" for q'
          using f(4) [of q'] wq by (simp add: g_def)
        moreover have "tr t = (es @ fs @ [Getq ?wq m]) @ tr s" using f(1) tv by simp
        ultimately show ?thesis by blast
      next
        case False
        then have t: "t = call (Putbq ?wq mp) v" using Cons.prems Some u m1 v by simp
        then have "queued q' (tr t) = queued q' (tr s)" for q' using qv e by (auto simp: lens)
        then show ?thesis using t fs tv False
          by (intro exI [of _ "Putbq ?wq mp # fs @ [Getq ?wq m]"] exI [of _ "\<lambda>_. []"]) (simp add: lens)
      qed
    qed
  qed
qed

text \<open>
  C13. No loss, no duplication, no reordering in the transmit interrupt: with queues that behave as
  queues, \<open>transmit_interrupt\<close> takes at most the head of the write queue of each open stream; the
  messages it frees are exactly the heads that are gone, in slot order, and a message the busy chip
  refused is back at the head of its queue.
\<close>

theorem transmit_interrupt_fifo:
  assumes "fifo_env E" "transmit_interrupt E bi s = Some t"
    and "distinct (write_queues bi [0..<HYDRA_MAXDEV] s)"
  shows "\<exists>es sent. tr t = es @ tr s \<and> freed es = concat (map sent (write_queues bi [0..<HYDRA_MAXDEV] s)) \<and>
    (\<forall>q. queued q (tr s) = sent q @ queued q (tr t) \<and> length (sent q) \<le> 1)"
  using transmit_streams_fifo [OF assms(1) assms(2) [unfolded transmit_interrupt_def] assms(3)] by blast

text \<open>
  C11. Frame layout: when the chip is idle, \<open>hydraxmit\<close> puts this frame at page 0 of packet memory
  and starts it: destination from the request, own station address, SAP most significant byte first,
  then the payload of all blocks cut at 1500 bytes. The length registers hold the frame length, at least
  64 and at most 1514. A short frame is filled up with whatever the kernel stack held (\<open>e_stack\<close>).
\<close>

theorem hydraxmit_frame:
  fixes E :: henv and s :: hst
  assumes "q_ptr s q = Some (hb, si)" "bi = h_board_index (stream hb si s)" "sap = h_sap (stream hb si s)"
    and "\<not> fst (tx_probe E (nic_base (info bi s)) s)"
    and "body mp = Req (DL_UNITDATA_REQ off bs)" "off + ETH_ADDRESS_SIZE \<le> length bs"
    and "blocks_bytes (b_cont mp) xss"
    and "length (paddress (info bi s)) = ETH_ADDRESS_SIZE" "tx_start_page (info bi s) = 0"
    and frame: "frame = take ETH_ADDRESS_SIZE (drop off bs) @ paddress (info bi s) @ [hi8 sap, lo8 sap] @
      take ETH_MAXDATA (concat xss)"
    and n: "n = max ETH_MINPACKET (length frame)"
    and nic: "nic = nic_base (info bi s)"
  shows "\<exists>t. hydraxmit E q mp s = Some (True, t) \<and> n \<le> ETH_MAXPACKET \<and>
    (\<forall>E'. keeps_ram E' \<longrightarrow> fst (hydra_ram_read E' bi (replicate n 0) (int n) 0 t) =
       frame @ map (e_stack E (tr s)) [length frame..<n]) \<and>
    nic_reg nic 0 NE_TPSR (tr t) = Some 0 \<and>
    nic_reg nic 0 NE_TBCNT0_W (tr t) = Some (of_nat n AND 0xff) \<and>
    nic_reg nic 0 NE_TBCNT1_W (tr t) = Some (of_nat (n div 256) AND 0xff) \<and>
    cr_of nic (tr t) = NE_CR_TXP OR NE_CR_STA OR NE_CR_RDMA_ABORT"
proof -
  have fr: "tx_frame (paddress (info bi s)) sap mp = Some frame"
    using assms(5,6) copy_blocks_concat [OF assms(7)] by (simp add: tx_frame_def frame)
  have len: "length frame \<le> ETH_MAXPACKET"
    using tx_frame_length [OF fr assms(8)] by simp
  then have n': "n \<le> ETH_MAXPACKET" "ETH_MINPACKET \<le> n" "length frame \<le> n" by (simp_all add: n)
  obtain u where u: "tx_probe E nic s = (False, u)"
    using assms(4) nic by (metis fst_conv surj_pair)
  then have su: "io_only s u" using hw_only_io [OF tx_probe_hw] by (metis snd_conv)
  define tmp where "tmp = tmp_buffer E (tr s) frame"
  define v where "v = call (Freemsg mp) (on_status bi (\<lambda>t. t\<lparr>last_tx_sap := ucast sap\<rparr>) u)"
  define w where "w = hydra_ram_write bi tmp (int n) 0 v"
  define t where "t = tx_count bi sap (tx_start nic 0 n w)"
  have iv: "info bi v = info bi s" by (simp add: v_def lens io_only_hst [OF su])
  have "(if length frame < ETH_MINPACKET then ETH_MINPACKET else length frame) = n" by (simp add: n)
  then have x: "hydraxmit E q mp s = Some (True, t)"
    using u fr assms(1,9) nic iv
    by (simp add: hydraxmit_def Let_def io_only_hst [OF su] flip: assms(2,3))
      (simp add: t_def w_def v_def tmp_def lens io_only_hst [OF su])
  have nl: "nat (nlongs (int n)) \<le> 0x1000" using n' nlongs_range [of "int n"] by simp
  have tw: "tr w = write_events (board_base (info bi s)) 0 tmp (int n) (nat (nlongs (int n))) @ tr v"
    using n' iv ram_accepted [of "int n" 0]
    by (simp add: w_def hydra_ram_write_def hydra_ram_write_offset_def arith32 write_longs_calls tr_calls)
  have "hw_only v (tx_start nic 0 n w)"
    unfolding w_def by (rule hw_only_trans [OF _ tx_start_hw]) auto
  then have iw: "info bi t = info bi s"
    using iv by (simp add: t_def lens io_only_hst [OF hw_only_io])
  have "last_store (long_addr (board_base (info bi s)) 0 i) (tr t) = Some (pack_long tmp (int n) i)"
    if "i < nat (nlongs (int n))" for i
    using that nl by (simp add: t_def tx_start_def outb_defs lens tw last_store_writes)
  then have "fst (hydra_ram_read E' bi (replicate n 0) (int n) 0 t) = take n tmp" if "keeps_ram E'" for E'
    using n' iw that ram_read_stored [OF that, of n tmp "replicate n 0" 0 bi t]
    by (simp add: hydra_ram_read_def arith32 tmp_def tmp_buffer_def)
  moreover have "take n tmp = frame @ map (e_stack E (tr s)) [length frame..<n]"
    using n' len by (simp add: tmp_def tmp_buffer_def take_map)
  ultimately show ?thesis using x n'(1)
    by (simp add: t_def tx_start_def outb_defs lens Let_def)
qed

text \<open>
  A busy chip changes nothing: when the chip is still sending, \<open>hydraxmit\<close> reports failure, the
  message is neither freed nor copied, and nothing but register 0 of the chip has been touched.
\<close>

theorem hydraxmit_busy:
  assumes "q_ptr s q = Some (hb, si)" "nic = nic_base (info (h_board_index (stream hb si s)) s)"
    and "fst (tx_probe E nic s)"
  shows "\<exists>v. hydraxmit E q mp s = Some (False, calls [Delay 5, In8 nic v, Delay 5, Delay 5, Out8 nic 0x22] s)"
  using assms
  by (auto simp: hydraxmit_def tx_probe_def outb_defs hydra_inb_def in8_def Let_def reg_addr_def calls_def call_def)

section \<open>Witnesses\<close>

definition tiny_req :: "hblob msg" where
  "tiny_req = Msg M_PROTO (Req (DL_UNITDATA_REQ 0 [1, 1, 1, 1, 1, 1])) [(M_DATA, Bytes [0xAA, 0xBB])]"

lemma up_idle: "\<not> fst (tx_probe queue_env 0xE9FFE1 s)"
  by (simp add: tx_probe_def hydra_inb_def in8_def queue_env_def ram_env_def Let_def)

theorem hydraxmit_frame_witness:
  "fst (hydra_ram_read queue_env 0 (replicate 64 0) 64 0 (snd (the (hydraxmit queue_env (WQ 0) tiny_req up_hst)))) =
    [1, 1, 1, 1, 1, 1, 2, 4, 6, 8, 10, 12, 8, 0, 0xAA, 0xBB] @ map of_nat [16..<64]"
proof -
  have "\<exists>t. hydraxmit queue_env (WQ 0) tiny_req up_hst = Some (True, t) \<and> 64 \<le> ETH_MAXPACKET \<and>
    (\<forall>E'. keeps_ram E' \<longrightarrow> fst (hydra_ram_read E' 0 (replicate 64 0) (int 64) 0 t) =
       [1, 1, 1, 1, 1, 1, 2, 4, 6, 8, 10, 12, 8, 0, 0xAA, 0xBB] @
         map (e_stack queue_env (tr up_hst)) [length [1, 1, 1, 1, 1, 1, 2, 4, 6, 8, 10, 12, 8, 0, 0xAA, 0xBB :: byte]..<64]) \<and>
    nic_reg 0xE9FFE1 0 NE_TPSR (tr t) = Some 0 \<and>
    nic_reg 0xE9FFE1 0 NE_TBCNT0_W (tr t) = Some (of_nat 64 AND 0xff) \<and>
    nic_reg 0xE9FFE1 0 NE_TBCNT1_W (tr t) = Some (of_nat (64 div 256) AND 0xff) \<and>
    cr_of 0xE9FFE1 (tr t) = NE_CR_TXP OR NE_CR_STA OR NE_CR_RDMA_ABORT"
    by (rule hydraxmit_frame [where off = 0 and bs = "[1, 1, 1, 1, 1, 1]" and xss = "[[0xAA, 0xBB]]" and
          si = 0 and hb = 0 and sap = ETHERTYPE_IP])
      (simp_all add: up_idle tiny_req_def blocks_bytes_def hi8_def lo8_def up_stream_def)
  moreover have "length [1, 1, 1, 1, 1, 1, 2, 4, 6, 8, 10, 12, 8, 0, 0xAA, 0xBB :: byte] = 16"
    by simp
  moreover have "e_stack queue_env h = of_nat" for h by (simp add: queue_env_def)
  ultimately show ?thesis using keeps_queue_env by (metis of_nat_numeral option.sel snd_conv)
qed

definition busy_env :: henv where
  "busy_env = queue_env\<lparr>e_in8 := \<lambda>_ _. 0xFF\<rparr>"

theorem hydraxmit_busy_witness:
  "\<exists>v. hydraxmit busy_env (WQ 0) tiny_req up_hst =
    Some (False, calls [Delay 5, In8 0xE9FFE1 v, Delay 5, Delay 5, Out8 0xE9FFE1 0x22] up_hst)"
  using hydraxmit_busy [of up_hst "WQ 0" 0 0 "0xE9FFE1" busy_env tiny_req]
  by (simp add: up_stream_def busy_env_def tx_probe_def hydra_inb_def in8_def Let_def)

theorem transmit_interrupt_fifo_witness:
  "\<exists>t es sent. transmit_interrupt queue_env 0 (call (Putq (WQ 0) tiny_req) up_hst) = Some t \<and>
    freed es = sent (WQ 0) \<and> sent (WQ 0) = [tiny_req] \<and> queued (WQ 0) (tr t) = []"
proof -
  let ?s = "call (Putq (WQ 0) tiny_req) up_hst"
  have wq: "write_queues 0 [0..<HYDRA_MAXDEV] ?s = [WQ 0]"
    by (simp add: write_queues_def lens upt_rec up_stream_def zero_hydra_def)
  let ?u = "call (Getq (WQ 0) (Some tiny_req)) ?s"
  have "\<exists>t. hydraxmit queue_env (WQ 0) tiny_req ?u = Some (True, t)"
    using up_idle [of ?u]
    by (cases "tx_probe queue_env 0xE9FFE1 ?u")
      (simp add: hydraxmit_def lens up_stream_def tiny_req_def tx_frame_def Let_def split: option.splits)
  then obtain v where v: "hydraxmit queue_env (WQ 0) tiny_req ?u = Some (True, v)" by blast
  from hydraxmit_step [OF v] have sv: "stream 0 n v = stream 0 n up_hst" for n
    by (auto simp: tx_step_def lens)
  have t: "transmit_interrupt queue_env 0 ?s = Some v"
    using v sv by (simp add: transmit_interrupt_def upt_rec lens up_stream_def zero_hydra_def getq_def
        queue_env_def Let_def)
  from transmit_interrupt_fifo [OF fifo_queue_env t] wq
  obtain es sent where e: "tr v = es @ tr ?s" "freed es = sent (WQ 0)"
    "queued (WQ 0) (tr ?s) = sent (WQ 0) @ queued (WQ 0) (tr v)" by auto
  from hydraxmit_step [OF v] have "queued (WQ 0) (tr v) = []" by (auto simp: tx_step_def lens)
  then show ?thesis using e t by (auto simp: lens)
qed

end
