(* ===== verification/Hydra_Toss.thy ===== *)
theory Hydra_Toss
  imports Hydra_Init
begin

text \<open>
  Passing a received frame up: \<open>toss_packet_up_stream\<close> of \<open>hydra.c\<close>.

  A frame goes to every open stream bound to its type, if it is addressed to the station or broadcast.
  Reading outside the receive buffer, as a trailer frame can make the code do, is the value \<open>None\<close>.
\<close>

section \<open>Passing a frame to the streams\<close>

definition rd16 :: "byte list \<Rightarrow> nat \<Rightarrow> u16 option" where
  "rd16 buf i = (if i + 1 < length buf then Some (be16 (buf ! i) (buf ! (i + 1))) else None)"

definition on_passed :: "nat \<Rightarrow> u16 \<Rightarrow> hst \<Rightarrow> hst" where
  "on_passed bi sap s =
    (let s = on_status bi (\<lambda>t. t\<lparr>rx_delivered := rx_delivered t + 1\<rparr>) s;
         s = (if sap = ETHERTYPE_ARP then on_status bi (\<lambda>t. t\<lparr>rx_arp_delivered := rx_arp_delivered t + 1\<rparr>) s else s)
     in if sap = ETHERTYPE_IP then on_status bi (\<lambda>t. t\<lparr>rx_ip_delivered := rx_ip_delivered t + 1\<rparr>) s else s)"

text \<open>
  The SAP, \<open>length\<close> and \<open>trailn\<close> of a frame: the type field, or for the trailer types
  \<open>0x1000\<close> to \<open>0x1010\<close> what stands behind the data.
\<close>

definition is_trailer :: "u16 \<Rightarrow> bool" where
  "is_trailer sap \<longleftrightarrow> ETHERTYPE_TRAIL \<le> sap \<and> sap \<le> ETHERTYPE_TRAIL + ETHERTYPE_NTRAILER"

definition toss_split :: "byte list \<Rightarrow> int \<Rightarrow> u16 \<Rightarrow> (u16 \<times> int \<times> int) option" where
  "toss_split packet count sap =
    (if is_trailer sap
     then
       let len = (unat sap - 0x1000) * 512
       in case rd16 packet (ETH_HEADER_SIZE + len + ETH_TYPE_SIZE) of
            None \<Rightarrow> None
          | Some tn \<Rightarrow>
              map_option (\<lambda>sap. (sap, int len, int (unat tn) - int ETH_TYPE_SIZE - int ETH_LENGTH_SIZE))
                (rd16 packet (ETH_HEADER_SIZE + len))
     else Some (sap, count - int ETH_HEADER_SIZE, 0))"

text \<open>\<open>bcopy\<close> out of the packet buffer.\<close>

definition slice :: "byte list \<Rightarrow> int \<Rightarrow> int \<Rightarrow> byte list option" where
  "slice buf from n =
    (if 0 \<le> from \<and> 0 \<le> n \<and> from + n \<le> int (length buf)
     then Some (take (nat n) (drop (nat from) buf)) else None)"

text \<open>The data block of an indication: trailer first, then the rest.\<close>

definition toss_data :: "byte list \<Rightarrow> int \<Rightarrow> int \<Rightarrow> byte list option" where
  "toss_data packet len trailn =
    (case slice packet (int ETH_HEADER_SIZE) len of
       None \<Rightarrow> None
     | Some xs \<Rightarrow>
         if trailn = 0 then Some xs
         else map_option (\<lambda>ts. ts @ xs)
           (slice packet (int ETH_HEADER_SIZE + len + int ETH_TYPE_SIZE + int ETH_LENGTH_SIZE) trailn))"

definition unitdata_ind :: "henv \<Rightarrow> byte list \<Rightarrow> byte list \<Rightarrow> hblob msg" where
  "unitdata_ind E packet xs =
    Msg M_PROTO
      (Reply (DL_UNITDATA_IND
        \<lparr>ui_dest_addr_length = ETH_ADDRESS_SIZE, ui_dest_addr_offset = e_sizeof E ''union DL_primitives'',
         ui_src_addr_length = ETH_ADDRESS_SIZE,
         ui_src_addr_offset = e_sizeof E ''union DL_primitives'' + ETH_ADDRESS_SIZE, ui_reserved = 0\<rparr>
        (take 6 packet @ take 6 (drop 6 packet))))
      [(M_DATA, Bytes xs)]"

text \<open>A message as \<open>allocb\<close> returns it.\<close>

definition empty_block :: "hblob msg" where
  "empty_block = Msg M_DATA (Bytes []) []"

definition alloc_failed :: "nat \<Rightarrow> hst \<Rightarrow> hst" where
  "alloc_failed bi s = on_status bi (\<lambda>t. t\<lparr>allocbs_failed := allocbs_failed t + 1\<rparr>) s"

definition put_failed :: "nat \<Rightarrow> hst \<Rightarrow> hst" where
  "put_failed bi s = on_status bi (\<lambda>t. t\<lparr>couldnt_put := couldnt_put t + 1\<rparr>) s"

definition toss_raw :: "henv \<Rightarrow> nat \<Rightarrow> queue \<Rightarrow> byte list \<Rightarrow> nat \<Rightarrow> hst \<Rightarrow> hst" where
  "toss_raw E bi q packet count s =
    (if e_canput E (tr s) q then
       let (ok, s) = allocb E (e_sizeof E ''hydra_status_t'') s
       in if \<not> ok then alloc_failed bi s
          else
            let (ok, s) = allocb E count s
            in if ok
               then call (Putnext q (Msg M_PROTO (Drv (StatusBlk (status bi s))) [(M_DATA, Bytes (take count packet))])) s
               else call (Freemsg empty_block) (alloc_failed bi s)
     else put_failed bi s)"

definition toss_bound :: "henv \<Rightarrow> nat \<Rightarrow> queue \<Rightarrow> byte list \<Rightarrow> u16 \<Rightarrow> int \<Rightarrow> int \<Rightarrow> hst \<Rightarrow> hst option" where
  "toss_bound E bi q packet sap len trailn s =
    (if e_canput E (tr s) q then
       let (ok, s) = allocb E (e_sizeof E ''union DL_primitives'' + 2 * ETH_ADDRESS_SIZE) s
       in if \<not> ok then Some (alloc_failed bi s)
          else if len + trailn < 0 then None
          else
            let (ok, s) = allocb E (nat (len + trailn)) s
            in if ok
               then map_option (\<lambda>xs. on_passed bi sap (call (Putnext q (unitdata_ind E packet xs)) s))
                 (toss_data packet len trailn)
               else Some (call (Freemsg empty_block) (alloc_failed bi s))
     else Some (put_failed bi s))"

definition broadcast_address :: "byte list" where
  "broadcast_address = replicate 6 0xFF"

text \<open>The loop over the streams; the boolean is \<open>sap_matched\<close>.\<close>

fun toss_streams ::
    "henv \<Rightarrow> nat \<Rightarrow> byte list \<Rightarrow> nat \<Rightarrow> u16 \<Rightarrow> int \<Rightarrow> int \<Rightarrow> nat list \<Rightarrow> bool \<Rightarrow> hst \<Rightarrow> (bool \<times> hst) option" where
  "toss_streams E bi packet count sap len trailn [] m s = Some (m, s)"
| "toss_streams E bi packet count sap len trailn (j # js) m s =
    (case h_q (stream bi j s) of
       None \<Rightarrow> toss_streams E bi packet count sap len trailn js m s
     | Some q \<Rightarrow>
         if h_flags (stream bi j s) AND HYDRA_RAW_DATA \<noteq> 0
         then toss_streams E bi packet count sap len trailn js m (toss_raw E bi q packet count s)
         else if h_sap (stream bi j s) = sap
         then
           if take 6 packet \<noteq> paddress (info bi s) \<and> take 6 packet \<noteq> broadcast_address
           then toss_streams E bi packet count sap len trailn js True
             (on_status bi (\<lambda>t. t\<lparr>rx_not_for_us := rx_not_for_us t + 1\<rparr>) s)
           else
             (case toss_bound E bi q packet sap len trailn s of
                None \<Rightarrow> None
              | Some s \<Rightarrow> toss_streams E bi packet count sap len trailn js True s)
         else toss_streams E bi packet count sap len trailn js m s)"

definition note_type :: "nat \<Rightarrow> u16 \<Rightarrow> hst \<Rightarrow> hst" where
  "note_type bi sap s =
    (let s = on_status bi (\<lambda>t. t\<lparr>last_rx_sap := ucast sap\<rparr>) s;
         s = (if sap = ETHERTYPE_ARP then on_status bi (\<lambda>t. t\<lparr>rx_arp_seen := rx_arp_seen t + 1\<rparr>) s else s)
     in if sap = ETHERTYPE_IP then on_status bi (\<lambda>t. t\<lparr>rx_ip_seen := rx_ip_seen t + 1\<rparr>) s else s)"

definition toss_packet_up_stream :: "henv \<Rightarrow> byte list \<Rightarrow> nat \<Rightarrow> nat \<Rightarrow> hst \<Rightarrow> hst option" where
  "toss_packet_up_stream E packet bi count s =
    (let sap0 = be16 (packet ! 12) (packet ! 13);
         s = note_type bi sap0 s
     in case toss_split packet (int count) sap0 of
          None \<Rightarrow> None
        | Some (sap, len, trailn) \<Rightarrow>
            let s = (if is_trailer sap0 then on_status bi (\<lambda>t. t\<lparr>trailers := trailers t + 1\<rparr>) s else s)
            in case toss_streams E bi packet count sap len trailn [0..<HYDRA_MAXDEV] False s of
                 None \<Rightarrow> None
               | Some (m, s) \<Rightarrow>
                   Some (if m then s else on_status bi (\<lambda>t. t\<lparr>rx_no_sap := rx_no_sap t + 1\<rparr>) s))"

section \<open>When a frame stays in the buffer\<close>

text \<open>
  A trailer frame of type \<open>0x1000 + k\<close> has \<open>512 k\<close> bytes of data, then the type and the length of the trailer, which counts
  these four bytes. \<open>trailer_outside\<close> says that this does not lie in the buffer.
\<close>

definition trailer_outside :: "byte list \<Rightarrow> bool" where
  "trailer_outside packet \<longleftrightarrow>
    (let ty = be16 (packet ! 12) (packet ! 13); off = ETH_HEADER_SIZE + (unat ty - 0x1000) * 512;
         n = unat (be16 (packet ! (off + 2)) (packet ! (off + 3)))
     in is_trailer ty \<and> (length packet < off + 4 \<or> n < 4 \<or> length packet < off + n))"

lemma toss_split_total:
  assumes "\<not> trailer_outside packet" "ETH_HEADER_SIZE \<le> count" "count \<le> length packet"
  shows "\<exists>sap len trailn. toss_split packet (int count) (be16 (packet ! 12) (packet ! 13)) = Some (sap, len, trailn) \<and>
    0 \<le> len \<and> 0 \<le> trailn \<and> toss_data packet len trailn \<noteq> None"
  using assms
  by (auto simp: trailer_outside_def toss_split_def rd16_def toss_data_def slice_def Let_def simp del: of_nat_unat)

lemma toss_streams_total:
  "0 \<le> len \<Longrightarrow> 0 \<le> trailn \<Longrightarrow> toss_data packet len trailn \<noteq> None \<Longrightarrow>
    \<exists>r. toss_streams E bi packet count sap len trailn js m s = Some r"
proof (induction js arbitrary: m s)
  case (Cons j js)
  have "\<exists>t. toss_bound E bi q packet sap len trailn s = Some t" for q s
    using Cons.prems by (auto simp: toss_bound_def Let_def split_def)
  then obtain f where f: "toss_bound E bi q packet sap len trailn s = Some (f q s)" for q s by metis
  have "\<exists>r. toss_streams E bi packet count sap len trailn js m s = Some r" for m s
    using Cons.IH Cons.prems by blast
  then show ?case by (simp add: f split: option.splits)
qed simp

lemma toss_packet_total:
  assumes "\<not> trailer_outside packet" "ETH_HEADER_SIZE \<le> count" "count \<le> length packet"
  shows "\<exists>t. toss_packet_up_stream E packet bi count s = Some t"
proof -
  obtain sap len trailn where sp: "toss_split packet (int count) (be16 (packet ! 12) (packet ! 13)) = Some (sap, len, trailn)"
    and d: "0 \<le> len" "0 \<le> trailn" "toss_data packet len trailn \<noteq> None"
    using toss_split_total [OF assms] by blast
  have "\<exists>r. toss_streams E bi packet count sap len trailn js m u = Some r" for js m u
    by (rule toss_streams_total [OF d])
  then obtain g where g: "toss_streams E bi packet count sap len trailn js m u = Some (g js m u)" for js m u by metis
  show ?thesis by (simp add: toss_packet_up_stream_def Let_def sp g split_def)
qed

section \<open>Effects\<close>

lemmas toss_defs = note_type_def on_passed_def alloc_failed_def put_failed_def

lemma toss_counter_lens [lens]:
  "core (note_type bi sap s) = core s" "core (on_passed bi sap s) = core s"
  "core (alloc_failed bi s) = core s" "core (put_failed bi s) = core s"
  "tr (note_type bi sap s) = tr s" "tr (on_passed bi sap s) = tr s"
  "tr (alloc_failed bi s) = tr s" "tr (put_failed bi s) = tr s"
  "info bj (note_type bi sap s) = info bj s" "info bj (on_passed bi sap s) = info bj s"
  "info bj (alloc_failed bi s) = info bj s" "info bj (put_failed bi s) = info bj s"
  "rxbuff (note_type bi sap s) = rxbuff s" "rxbuff (on_passed bi sap s) = rxbuff s"
  "rxbuff (alloc_failed bi s) = rxbuff s" "rxbuff (put_failed bi s) = rxbuff s"
  by (simp_all add: toss_defs lens Let_def)

lemma toss_counter_received [lens]:
  "packets_received (status bj (note_type bi sap s)) = packets_received (status bj s)"
  "packets_received (status bj (on_passed bi sap s)) = packets_received (status bj s)"
  "packets_received (status bj (alloc_failed bi s)) = packets_received (status bj s)"
  "packets_received (status bj (put_failed bi s)) = packets_received (status bj s)"
  by (simp_all add: toss_defs Let_def status_part)

text \<open>What a step of the tossing keeps: the core, every \<open>info\<close>, the buffer and the device.\<close>

fun up_ev :: "hblob ev \<Rightarrow> bool" where
  "up_ev (Allocb n b) = True"
| "up_ev (Freemsg m) = True"
| "up_ev (Putnext q m) = True"
| "up_ev e = False"

definition toss_step :: "hst \<Rightarrow> hst \<Rightarrow> bool" where
  "toss_step s t \<longleftrightarrow> core t = core s \<and> rxbuff t = rxbuff s \<and> (\<forall>bi. info bi t = info bi s) \<and>
     (\<forall>bi. packets_received (status bi t) = packets_received (status bi s)) \<and>
     (\<exists>es. list_all up_ev es \<and> tr t = es @ tr s)"

lemma toss_step_refl [simp]: "toss_step s s"
  by (simp add: toss_step_def exI [of _ "[]"])

lemma toss_step_trans: "toss_step s t \<Longrightarrow> toss_step t u \<Longrightarrow> toss_step s u"
  by (auto simp: toss_step_def)

lemma toss_step_call: "up_ev e \<Longrightarrow> toss_step s t \<Longrightarrow> toss_step s (call e t)"
  by (auto simp: toss_step_def lens)

lemma toss_step_calls [intro!]:
  "toss_step s t \<Longrightarrow> toss_step s (call (Allocb n b) t)"
  "toss_step s t \<Longrightarrow> toss_step s (call (Freemsg m) t)"
  "toss_step s t \<Longrightarrow> toss_step s (call (Putnext q m) t)"
  by (simp_all add: toss_step_call)

lemma toss_step_counters [intro!]:
  "toss_step s t \<Longrightarrow> toss_step s (note_type bi sap t)"
  "toss_step s t \<Longrightarrow> toss_step s (on_passed bi sap t)"
  "toss_step s t \<Longrightarrow> toss_step s (alloc_failed bi t)"
  "toss_step s t \<Longrightarrow> toss_step s (put_failed bi t)"
  "(\<And>x. board_state (f x) = board_state x) \<Longrightarrow> (\<And>x. packets_received (f x) = packets_received x) \<Longrightarrow>
    toss_step s t \<Longrightarrow> toss_step s (on_status bi f t)"
  by (auto simp: toss_step_def lens status_part)

lemma toss_raw_step: "toss_step s (toss_raw E bi q packet count s)"
  by (auto simp: toss_raw_def allocb_def Let_def)

lemma toss_bound_step: "toss_bound E bi q packet sap len trailn s = Some t \<Longrightarrow> toss_step s t"
  by (auto simp: toss_bound_def allocb_def Let_def split: if_splits)

lemma toss_streams_step:
  "toss_streams E bi packet count sap len trailn js m s = Some (m', t) \<Longrightarrow> toss_step s t"
proof (induction E bi packet count sap len trailn js m s rule: toss_streams.induct)
  case (2 E bi packet count sap len trailn j js m s)
  have c: "toss_step s (on_status bi (\<lambda>t. t\<lparr>rx_not_for_us := rx_not_for_us t + 1\<rparr>) s)" by auto
  show ?case
  proof (cases "h_q (stream bi j s)")
    case None
    then show ?thesis using 2 by simp
  next
    case (Some q)
    consider (raw) "h_flags (stream bi j s) AND HYDRA_RAW_DATA \<noteq> 0"
      | (other) "h_flags (stream bi j s) AND HYDRA_RAW_DATA = 0" "h_sap (stream bi j s) \<noteq> sap"
      | (not_us) "h_flags (stream bi j s) AND HYDRA_RAW_DATA = 0" "h_sap (stream bi j s) = sap"
          "take 6 packet \<noteq> paddress (info bi s) \<and> take 6 packet \<noteq> broadcast_address"
      | (us) "h_flags (stream bi j s) AND HYDRA_RAW_DATA = 0" "h_sap (stream bi j s) = sap"
          "\<not> (take 6 packet \<noteq> paddress (info bi s) \<and> take 6 packet \<noteq> broadcast_address)" by blast
    then show ?thesis
    proof cases
      case raw
      then show ?thesis using 2(2) [OF Some raw] 2(6) Some toss_step_trans [OF toss_raw_step] by simp
    next
      case other
      then show ?thesis using 2(5) [OF Some] 2(6) Some by simp
    next
      case not_us
      then show ?thesis using 2(3) [OF Some _ _ not_us(3)] 2(6) Some toss_step_trans [OF c] by simp
    next
      case us
      obtain v where v: "toss_bound E bi q packet sap len trailn s = Some v"
        using us 2(6) Some by (auto split: option.splits)
      then have "toss_step v t" using 2(4) [OF Some _ _ us(3) v] us 2(6) Some by auto
      then show ?thesis by (rule toss_step_trans [OF toss_bound_step [OF v]])
    qed
  qed
qed simp

lemma toss_packet_step:
  assumes "toss_packet_up_stream E packet bi count s = Some t"
  shows "toss_step s t"
proof -
  let ?sap = "be16 (packet ! 12) (packet ! 13)"
  obtain sap len trailn where sp: "toss_split packet (int count) ?sap = Some (sap, len, trailn)"
    using assms by (auto simp: toss_packet_up_stream_def Let_def split: option.splits)
  define u where "u = (if is_trailer ?sap then on_status bi (\<lambda>t. t\<lparr>trailers := trailers t + 1\<rparr>) (note_type bi ?sap s)
    else note_type bi ?sap s)"
  have su: "toss_step s u" by (auto simp: u_def)
  obtain m v where v: "toss_streams E bi packet count sap len trailn [0..<HYDRA_MAXDEV] False u = Some (m, v)"
    and t: "t = (if m then v else on_status bi (\<lambda>t. t\<lparr>rx_no_sap := rx_no_sap t + 1\<rparr>) v)"
    using assms sp by (auto simp: toss_packet_up_stream_def Let_def u_def split: option.splits)
  have "toss_step s v" by (rule toss_step_trans [OF su toss_streams_step [OF v]])
  then show ?thesis by (auto simp: t)
qed

section \<open>Delivery\<close>

text \<open>The streams of a board that take frames of a type, and the address filter.\<close>

definition recipients :: "nat \<Rightarrow> u16 \<Rightarrow> hst \<Rightarrow> nat list \<Rightarrow> queue list" where
  "recipients bi sap s js =
    map (\<lambda>j. the (h_q (stream bi j s))) (filter (\<lambda>j. h_q (stream bi j s) \<noteq> None \<and> h_sap (stream bi j s) = sap) js)"

definition for_us :: "nat \<Rightarrow> byte list \<Rightarrow> hst \<Rightarrow> bool" where
  "for_us bi packet s \<longleftrightarrow> take 6 packet = paddress (info bi s) \<or> take 6 packet = broadcast_address"

definition cooked :: "nat \<Rightarrow> hst \<Rightarrow> bool" where
  "cooked bi s \<longleftrightarrow> (\<forall>j < HYDRA_MAXDEV. h_flags (stream bi j s) AND HYDRA_RAW_DATA = 0)"

definition willing :: "henv \<Rightarrow> bool" where
  "willing E \<longleftrightarrow> (\<forall>h q. e_canput E h q) \<and> (\<forall>h n. e_allocb E h n)"

lemma toss_step_view:
  assumes "toss_step s t" "bi < length (boards s)"
  shows "recipients bi sap t js = recipients bi sap s js" "for_us bi packet t = for_us bi packet s"
    "cooked bi t = cooked bi s" "bi < length (boards t)"
  using assms coreD(1,5) [of t s]
  by (simp_all add: toss_step_def recipients_def for_us_def cooked_def)

lemma toss_bound_willing:
  assumes "willing E" "toss_data packet len trailn = Some xs" "0 \<le> len + trailn"
  shows "\<exists>t. toss_bound E bi q packet sap len trailn s = Some t \<and>
    passed (tr t) = passed (tr s) @ [(q, unitdata_ind E packet xs)]"
  using assms by (simp add: toss_bound_def willing_def allocb_def Let_def lens)

lemma toss_streams_deliver:
  assumes "willing E" "toss_data packet len trailn = Some xs" "0 \<le> len + trailn"
    and "bi < length (boards s)" "cooked bi s" "set js \<subseteq> {..<HYDRA_MAXDEV}"
  shows "\<exists>t. toss_streams E bi packet count sap len trailn js m s = Some (m \<or> recipients bi sap s js \<noteq> [], t) \<and>
    passed (tr t) = passed (tr s) @
      (if for_us bi packet s then map (\<lambda>q. (q, unitdata_ind E packet xs)) (recipients bi sap s js) else [])"
  using assms(4-6)
proof (induction js arbitrary: m s)
  case Nil
  then show ?case by (simp add: recipients_def)
next
  case (Cons j js)
  have raw: "h_flags (stream bi j s) AND HYDRA_RAW_DATA = 0" using Cons.prems by (simp add: cooked_def)
  show ?case
  proof (cases "h_q (stream bi j s) = None \<or> h_sap (stream bi j s) \<noteq> sap")
    case True
    then have "recipients bi sap s (j # js) = recipients bi sap s js" by (auto simp: recipients_def)
    moreover have "toss_streams E bi packet count sap len trailn (j # js) m s =
        toss_streams E bi packet count sap len trailn js m s"
      using True raw by (auto split: option.splits)
    ultimately show ?thesis using Cons.IH [OF Cons.prems(1,2), of m] Cons.prems(3) by (simp only: set_simps insert_subset)
  next
    case False
    then obtain q where q: "h_q (stream bi j s) = Some q" and sap: "h_sap (stream bi j s) = sap" by auto
    then have r: "recipients bi sap s (j # js) = q # recipients bi sap s js" by (simp add: recipients_def)
    show ?thesis
    proof (cases "for_us bi packet s")
      case True
      obtain v where v: "toss_bound E bi q packet sap len trailn s = Some v"
        "passed (tr v) = passed (tr s) @ [(q, unitdata_ind E packet xs)]"
        using toss_bound_willing [OF assms(1-3)] by blast
      note sv = toss_step_view [OF toss_bound_step [OF v(1)] Cons.prems(1)]
      from Cons.IH [of v True] sv Cons.prems True v(2)
      show ?thesis using q sap raw v(1) True r by (auto simp: for_us_def)
    next
      case False
      let ?v = "on_status bi (\<lambda>t. t\<lparr>rx_not_for_us := rx_not_for_us t + 1\<rparr>) s"
      have "toss_step s ?v" by auto
      note sv = toss_step_view [OF this Cons.prems(1)]
      from Cons.IH [of ?v True] sv Cons.prems False
      show ?thesis using q sap raw False r by (auto simp: for_us_def lens)
    qed
  qed
qed

lemma note_type_step: "toss_step s (note_type bi sap s)"
  by auto

lemma dev_range: "set [0..<HYDRA_MAXDEV] \<subseteq> {..<HYDRA_MAXDEV}"
  by auto

lemma toss_packet_deliver:
  assumes "willing E" "bi < length (boards s)" "cooked bi s"
    and "ETH_HEADER_SIZE \<le> count" "count \<le> length packet"
    and "sap = be16 (packet ! 12) (packet ! 13)" "\<not> is_trailer sap"
  shows "\<exists>t. toss_packet_up_stream E packet bi count s = Some t \<and>
    passed (tr t) = passed (tr s) @
      (if for_us bi packet s
       then map (\<lambda>q. (q, unitdata_ind E packet (take (count - 14) (drop 14 packet))))
         (recipients bi sap s [0..<HYDRA_MAXDEV])
       else [])"
proof -
  let ?u = "note_type bi sap s" and ?xs = "take (count - 14) (drop 14 packet)"
  note sv = toss_step_view [OF note_type_step [of s bi sap] assms(2)]
  have td: "toss_data packet (int count - 14) 0 = Some ?xs" and pos: "0 \<le> int count - 14 + 0"
    using assms(4,5) by (auto simp: toss_data_def slice_def nat_diff_distrib)
  have "\<exists>v. toss_streams E bi packet count sap (int count - 14) 0 [0..<HYDRA_MAXDEV] False ?u =
      Some (recipients bi sap s [0..<HYDRA_MAXDEV] \<noteq> [], v) \<and> passed (tr v) = passed (tr s) @
      (if for_us bi packet s then map (\<lambda>q. (q, unitdata_ind E packet ?xs)) (recipients bi sap s [0..<HYDRA_MAXDEV]) else [])"
    using toss_streams_deliver [OF assms(1) td pos sv(4), where sap = sap and count = count and
        js = "[0..<HYDRA_MAXDEV]" and m = False] sv(3) assms(3) dev_range
    unfolding sv(1,2) by (simp only: lens HOL.simp_thms)
  then obtain v where
    "toss_streams E bi packet count sap (int count - 14) 0 [0..<HYDRA_MAXDEV] False ?u =
       Some (recipients bi sap s [0..<HYDRA_MAXDEV] \<noteq> [], v)"
    "passed (tr v) = passed (tr s) @
      (if for_us bi packet s then map (\<lambda>q. (q, unitdata_ind E packet ?xs)) (recipients bi sap s [0..<HYDRA_MAXDEV]) else [])"
    by blast
  then show ?thesis
    using assms(6,7) by (simp add: toss_packet_up_stream_def toss_split_def Let_def lens del: toss_streams.simps)
qed

section \<open>Accounting\<close>

definition tally :: "hydra_status \<Rightarrow> u32" where
  "tally t = rx_delivered t + rx_not_for_us t + allocbs_failed t + couldnt_put t"

lemma tally_steps:
  assumes "bi < length (boards s)"
  shows "tally (status bi (on_passed bi sap s)) = tally (status bi s) + 1"
    "tally (status bi (alloc_failed bi s)) = tally (status bi s) + 1"
    "tally (status bi (put_failed bi s)) = tally (status bi s) + 1"
    "tally (status bi (on_status bi (\<lambda>t. t\<lparr>rx_not_for_us := rx_not_for_us t + 1\<rparr>) s)) = tally (status bi s) + 1"
    "tally (status bi (note_type bi sap s)) = tally (status bi s)"
    "rx_no_sap (status bi (on_passed bi sap s)) = rx_no_sap (status bi s)"
    "rx_no_sap (status bi (alloc_failed bi s)) = rx_no_sap (status bi s)"
    "rx_no_sap (status bi (put_failed bi s)) = rx_no_sap (status bi s)"
    "rx_no_sap (status bi (note_type bi sap s)) = rx_no_sap (status bi s)"
  using assms by (simp_all add: toss_defs Let_def tally_def status_on_status lens)

lemma toss_bound_tally:
  assumes "bi < length (boards s)" "toss_bound E bi q packet sap len trailn s = Some t"
  shows "tally (status bi t) = tally (status bi s) + 1 \<and> rx_no_sap (status bi t) = rx_no_sap (status bi s)"
  using assms
  by (auto simp: toss_bound_def allocb_def Let_def tally_steps lens split: if_splits)

lemma toss_streams_tally:
  assumes "toss_streams E bi packet count sap len trailn js m s = Some (m', t)"
    and "bi < length (boards s)" "cooked bi s" "set js \<subseteq> {..<HYDRA_MAXDEV}"
  shows "tally (status bi t) = tally (status bi s) + of_nat (length (recipients bi sap s js)) \<and>
    rx_no_sap (status bi t) = rx_no_sap (status bi s) \<and> m' = (m \<or> recipients bi sap s js \<noteq> [])"
  using assms
proof (induction js arbitrary: m s)
  case Nil
  then show ?case by (simp add: recipients_def)
next
  case (Cons j js)
  have raw: "h_flags (stream bi j s) AND HYDRA_RAW_DATA = 0" using Cons.prems by (simp add: cooked_def)
  show ?case
  proof (cases "h_q (stream bi j s) = None \<or> h_sap (stream bi j s) \<noteq> sap")
    case True
    then have "recipients bi sap s (j # js) = recipients bi sap s js" by (auto simp: recipients_def)
    moreover have "toss_streams E bi packet count sap len trailn js m s = Some (m', t)"
      using Cons.prems(1) True raw by (auto split: option.splits)
    ultimately show ?thesis using Cons.IH [of m s] Cons.prems by simp
  next
    case False
    then obtain q where q: "h_q (stream bi j s) = Some q" and sap: "h_sap (stream bi j s) = sap" by auto
    then have r: "recipients bi sap s (j # js) = q # recipients bi sap s js" by (simp add: recipients_def)
    obtain v where v: "toss_streams E bi packet count sap len trailn js True v = Some (m', t)"
      "tally (status bi v) = tally (status bi s) + 1" "rx_no_sap (status bi v) = rx_no_sap (status bi s)"
      "toss_step s v"
    proof (cases "for_us bi packet s")
      case True
      then obtain v where "toss_bound E bi q packet sap len trailn s = Some v"
        "toss_streams E bi packet count sap len trailn js True v = Some (m', t)"
        using Cons.prems(1) q raw sap by (auto simp: for_us_def split: option.splits)
      then show ?thesis using that toss_bound_tally [OF Cons.prems(2)] toss_bound_step by blast
    next
      case False
      let ?v = "on_status bi (\<lambda>t. t\<lparr>rx_not_for_us := rx_not_for_us t + 1\<rparr>) s"
      have "toss_streams E bi packet count sap len trailn js True ?v = Some (m', t)"
        using Cons.prems(1) q raw sap False by (auto simp: for_us_def)
      moreover have "toss_step s ?v" by auto
      ultimately show ?thesis
        using that tally_steps(4) [OF Cons.prems(2)] Cons.prems(2) by (simp add: status_on_status)
    qed
    note sv = toss_step_view [OF v(4) Cons.prems(2)]
    from Cons.IH [OF v(1) sv(4)] sv Cons.prems(3,4) v(2,3) show ?thesis by (simp add: r add.assoc)
  qed
qed

section \<open>Properties\<close>

text \<open>
  C17. Delivery: when the streams accept and memory is available, a frame of an ordinary type that is
  addressed to the station or broadcast is passed, once each and in slot order, to exactly the open
  streams bound to its type, as a \<open>DL_UNITDATA_IND\<close> with the destination and source of the header and
  the bytes behind the 14-byte header as data; any other frame is passed to nobody.
\<close>

theorem toss_delivery:
  assumes "willing E" "bi < length (boards s)" "cooked bi s"
    and "ETH_HEADER_SIZE \<le> count" "count \<le> length packet"
    and "sap = be16 (packet ! 12) (packet ! 13)" "\<not> is_trailer sap"
  shows "\<exists>t. toss_packet_up_stream E packet bi count s = Some t \<and>
    passed (tr t) = passed (tr s) @
      (if for_us bi packet s
       then map (\<lambda>q. (q, unitdata_ind E packet (take (count - 14) (drop 14 packet))))
         (recipients bi sap s [0..<HYDRA_MAXDEV])
       else [])"
  by (rule toss_packet_deliver [OF assms])

text \<open>
  Trailer frames read outside the receive buffer: the type \<open>0x1003\<close> or any later trailer type
  places the trailer header at least 1550 bytes into the 1518-byte buffer, so the model has no result;
  the length that arrived is never compared with the one the type announces.
\<close>

theorem trailer_overrun:
  assumes "length packet = MAX_BUFFER_LENGTH" "sap = be16 (packet ! 12) (packet ! 13)"
    and "0x1003 \<le> sap" "sap \<le> 0x1010"
  shows "toss_packet_up_stream E packet bi count s = None"
proof -
  have sap: "0x1003 \<le> unat sap" "unat sap \<le> 0x1010"
    using assms(3,4) by (simp_all add: word_le_nat_alt)
  then have "1536 \<le> (unat sap - 0x1000) * 512" by simp
  moreover have "is_trailer sap"
    using sap by (simp add: is_trailer_def word_le_nat_alt)
  ultimately show ?thesis
    using assms(1,2) by (simp add: toss_packet_up_stream_def toss_split_def rd16_def Let_def)
qed

text \<open>
  Every frame is accounted for: whatever the streams and the allocator answer, for each open stream
  bound to the type of a frame exactly one of the counters for delivered, not-for-us, failed allocations
  and full streams goes up by one, and the counter for frames without a taker goes up exactly when no
  open stream is bound to the type. Counters wrap at 32 bits.
\<close>

theorem toss_accounts:
  assumes "toss_packet_up_stream E packet bi count s = Some t"
    and "bi < length (boards s)" "cooked bi s"
    and "sap = be16 (packet ! 12) (packet ! 13)" "\<not> is_trailer sap"
  defines "r \<equiv> recipients bi sap s [0..<HYDRA_MAXDEV]"
  shows "tally (status bi t) = tally (status bi s) + of_nat (length r) \<and>
    rx_no_sap (status bi t) = rx_no_sap (status bi s) + (if r = [] then 1 else 0)"
proof -
  let ?u = "note_type bi sap s"
  obtain m v where v: "toss_streams E bi packet count sap (int count - 14) 0 [0..<HYDRA_MAXDEV] False ?u = Some (m, v)"
    and t: "t = (if m then v else on_status bi (\<lambda>t. t\<lparr>rx_no_sap := rx_no_sap t + 1\<rparr>) v)"
    using assms(1,5) by (auto simp: toss_packet_up_stream_def toss_split_def Let_def lens assms(4) [symmetric]
        simp del: toss_streams.simps split: option.splits)
  note su = toss_step_view [OF note_type_step [of s bi sap] assms(2)]
  have "bi < length (boards v)" using toss_step_view(4) [OF toss_streams_step [OF v] su(4)] .
  then show ?thesis
    using toss_streams_tally [OF v su(4) _ dev_range] su(1,3) assms(3) tally_steps(5,9) [OF assms(2), of sap]
    by (simp add: t r_def status_on_status) (simp add: tally_def)
qed

section \<open>Witnesses\<close>

text \<open>A broadcast IP frame of 60 bytes in the receive buffer, and a trailer frame.\<close>

definition ip_frame :: "byte list" where
  "ip_frame = replicate 6 0xFF @ [3, 3, 3, 3, 3, 3] @ [8, 0] @ replicate 46 7"

definition trailer_frame :: "byte list" where
  "trailer_frame = replicate 12 0 @ [0x10, 0x03] @ replicate 1504 0"

lemma up_cooked: "cooked 0 up_hst"
proof -
  have "h_flags (stream 0 j up_hst) = 0" if "j < 5" for j
    using that by (cases j) (simp_all add: up_stream_def zero_hydra_def)
  then show ?thesis by (simp add: cooked_def)
qed

lemma willing_queue_env: "willing queue_env"
  by (simp add: willing_def queue_env_def ram_env_def)

lemma up_recipients: "recipients 0 ETHERTYPE_IP up_hst [0..<HYDRA_MAXDEV] = [RQ 0]"
  by (simp add: recipients_def upt_rec up_stream_def zero_hydra_def)

theorem toss_delivery_witness:
  "\<exists>t. toss_packet_up_stream queue_env ip_frame 0 60 up_hst = Some t \<and>
    passed (tr t) = [(RQ 0, unitdata_ind queue_env ip_frame (replicate 46 7))]"
proof -
  have "be16 (ip_frame ! 12) (ip_frame ! 13) = ETHERTYPE_IP" "\<not> is_trailer ETHERTYPE_IP"
    "length ip_frame = 60" "for_us 0 ip_frame up_hst" "drop 14 ip_frame = replicate 46 7"
    by (simp_all add: ip_frame_def be16_def is_trailer_def for_us_def broadcast_address_def nth_append)
  then show ?thesis
    using toss_delivery [of queue_env 0 up_hst 60 ip_frame ETHERTYPE_IP] willing_queue_env up_cooked up_recipients
    by (simp del: upt_Suc)
qed

definition full_env :: henv where
  "full_env = queue_env\<lparr>e_canput := \<lambda>_ _. False\<rparr>"

lemma ip_frame_type: "be16 (ip_frame ! 12) (ip_frame ! 13) = ETHERTYPE_IP" "\<not> is_trailer ETHERTYPE_IP"
  by (simp_all add: ip_frame_def be16_def is_trailer_def nth_append)

lemma toss_full: "\<exists>t. toss_packet_up_stream full_env ip_frame 0 60 up_hst = Some t"
  by (simp add: toss_packet_up_stream_def ip_frame_type toss_split_def upt_rec toss_bound_def full_env_def
      Let_def toss_defs lens up_stream_def zero_hydra_def)

theorem toss_accounts_witness:
  "tally (status 0 (the (toss_packet_up_stream full_env ip_frame 0 60 up_hst))) = tally (status 0 up_hst) + 1"
proof -
  obtain t where t: "toss_packet_up_stream full_env ip_frame 0 60 up_hst = Some t"
    using toss_full by blast
  show ?thesis using toss_accounts [OF t _ up_cooked] ip_frame_type up_recipients t by (simp del: upt_Suc)
qed

theorem trailer_overrun_witness:
  "toss_packet_up_stream queue_env trailer_frame 0 60 up_hst = None"
  by (rule trailer_overrun [where sap = "0x1003"])
    (simp_all add: trailer_frame_def be16_def nth_append)

end
