(* ===== verification/Hydra_Rx.thy ===== *)
theory Hydra_Rx
  imports Hydra_Toss Hydra_Slots
begin

text \<open>
  Receiving: \<open>receive_interrupt\<close> and \<open>toss_packet_up_stream\<close> of \<open>hydra.c\<close>.

  The chip writes frames into a ring of 256-byte pages, 8 to 63; a four-byte header gives the page of
  the next frame, the receive status and the size with checksum. The driver follows the chain from its own
  copy of the read position, \<open>next_pkt\<close>, to the chip's write position \<open>CURR\<close>, at most 256 frames
  per interrupt, copies each frame into one static buffer and passes it to every stream bound to its
  type. Reading outside that buffer, as a trailer frame can make the code do, is the value \<open>None\<close>.
\<close>

section \<open>The receive interrupt\<close>

definition ierror :: "nat \<Rightarrow> hst \<Rightarrow> hst" where
  "ierror bi s = on_ifstats bi (\<lambda>f. f\<lparr>ifs_ierrors := ifs_ierrors f + 1\<rparr>) s"

text \<open>Reading \<open>CURR\<close> on page 1 and the boundary on page 0.\<close>

definition rx_pointers :: "henv \<Rightarrow> nat \<Rightarrow> hst \<Rightarrow> int \<times> hst" where
  "rx_pointers E bi s =
    (let nic = nic_base (info bi s);
         s = NIC_DELAY (hydra_outb nic NE_CR (NE_CR_P1 OR NE_CR_STA OR NE_CR_RDMA_ABORT) s);
         (curr, s) = hydra_inb E nic NE_CURR s;
         s = NIC_DELAY s;
         s = NIC_DELAY (hydra_outb nic NE_CR (NE_CR_P0 OR NE_CR_STA OR NE_CR_RDMA_ABORT) s);
         (boundary, s) = hydra_inb E nic NE_BNRY s;
         s = NIC_DELAY s;
         s = on_status bi (\<lambda>t. t\<lparr>last_curr := ucast curr, last_bnry := ucast boundary\<rparr>) s
     in (int (unat curr), s))"

text \<open>The frame header at \<open>next_pkt\<close>; the local array is overwritten as a whole.\<close>

definition rx_header :: "henv \<Rightarrow> nat \<Rightarrow> hst \<Rightarrow> (int \<times> byte \<times> int) \<times> hst" where
  "rx_header E bi s =
    (let page = next_pkt (info bi s);
         (header, s) = hydra_ram_read E bi (replicate 4 0) 4 page s;
         size = be16 (header ! 3) (header ! 2);
         s = on_status bi (\<lambda>t. t\<lparr>last_ring_page := of_int page, last_ring_next := ucast (header ! 0),
               last_ring_rsr := ucast (header ! 1), last_ring_size := ucast size\<rparr>) s
     in ((int (unat (header ! 0)), header ! 1, int (unat size)), s))"

text \<open>Giving the pages before \<open>next\<close> back to the chip.\<close>

definition set_boundary :: "u32 \<Rightarrow> int \<Rightarrow> hst \<Rightarrow> hst" where
  "set_boundary nic next s =
    (let bnry = next - 1;
         bnry = (if bnry < NE8390_RX_START_PG then NE8390_STOP_PG - 1 else bnry)
     in NIC_DELAY (hydra_outb nic NE_BNRY (of_int bnry) s))"

definition set_next :: "nat \<Rightarrow> int \<Rightarrow> hst \<Rightarrow> hst" where
  "set_next bi next s = on_info bi (\<lambda>f. f\<lparr>next_pkt := next\<rparr>) s"

text \<open>Copying the frame into \<open>rxbuff\<close>, in two parts when it wraps at the end of the ring.\<close>

definition rx_copy :: "henv \<Rightarrow> nat \<Rightarrow> int \<Rightarrow> hst \<Rightarrow> hst option" where
  "rx_copy E bi pktsize s =
    (let offset = next_pkt (info bi s) * 256 + 4; stop = NE8390_STOP_PG * 256
     in if offset + pktsize > stop then
          let semi = stop - offset;
              (buf, s) = hydra_ram_read_offset E bi (rxbuff s) semi offset s
          in if semi < 0 then None
             else
               let (tl, s) = hydra_ram_read_offset E bi (drop (nat semi) buf) (pktsize - semi)
                     (rx_start_page (info bi s) * 256) s
               in Some (s\<lparr>rxbuff := take (nat semi) buf @ tl\<rparr>)
        else
          let (buf, s) = hydra_ram_read_offset E bi (rxbuff s) pktsize offset s
          in Some (s\<lparr>rxbuff := buf\<rparr>))"

definition rx_count :: "nat \<Rightarrow> byte \<Rightarrow> hst \<Rightarrow> hst" where
  "rx_count bi rsr s =
    (let s = on_status bi (\<lambda>t. t\<lparr>packets_received := packets_received t + 1\<rparr>) s;
         s = on_ifstats bi (\<lambda>f. f\<lparr>ifs_ipackets := ifs_ipackets f + 1\<rparr>) s;
         s = (if rsr AND NE_RSR_CRC \<noteq> 0 then on_status bi (\<lambda>t. t\<lparr>crc_errors := crc_errors t + 1\<rparr>) s else s);
         s = (if rsr AND NE_RSR_FAE \<noteq> 0 then on_status bi (\<lambda>t. t\<lparr>framing_errors := framing_errors t + 1\<rparr>) s else s)
     in if rsr AND NE_RSR_FO \<noteq> 0 then on_status bi (\<lambda>t. t\<lparr>overflow := overflow t + 1\<rparr>) s else s)"

text \<open>
  One round of the loop. \<open>rx_fetch\<close> is the round up to the delivery: the chip has no more frames, the frame is skipped, or
  a frame of that many bytes is in \<open>rxbuff\<close>. The boolean of \<open>rx_iteration\<close> says whether the loop goes on.
\<close>

datatype fetched = Caught_up | Skipped | Frame nat

definition rx_fetch :: "henv \<Rightarrow> nat \<Rightarrow> hst \<Rightarrow> (fetched \<times> hst) option" where
  "rx_fetch E bi s =
    (let nic = nic_base (info bi s);
         (curr, s) = rx_pointers E bi s
     in if next_pkt (info bi s) = curr then Some (Caught_up, s)
        else
          let ((next, rsr, size), s) = rx_header E bi s
          in if next < NE8390_RX_START_PG \<or> next \<ge> NE8390_STOP_PG then
               let s = on_status bi (\<lambda>t. t\<lparr>rx_errors := rx_errors t + 1,
                         buffer_error := buffer_error t + 1, rx_bad_next := rx_bad_next t + 1\<rparr>) s;
                   s = set_next bi NE8390_RX_START_PG (ierror bi s)
               in Some (Caught_up, NIC_DELAY (hydra_outb nic NE_BNRY (of_int NE8390_RX_START_PG) s))
             else if rsr AND NE_RSR_PRX = 0 then
               let s = on_status bi (\<lambda>t. t\<lparr>rx_errors := rx_errors t + 1, rx_bad_rsr := rx_bad_rsr t + 1\<rparr>) s
               in Some (Skipped, set_boundary nic next (set_next bi next (ierror bi s)))
             else
               let pktsize = size - 4
               in if pktsize < int ETH_MINFRAME \<or> pktsize > int MAX_BUFFER_LENGTH then
                    let s = on_status bi (\<lambda>t. t\<lparr>buffer_error := buffer_error t + 1,
                              rx_bad_size := rx_bad_size t + 1\<rparr>) s
                    in Some (Skipped, set_boundary nic next (set_next bi next s))
                  else
                    case rx_copy E bi pktsize s of
                      None \<Rightarrow> None
                    | Some s \<Rightarrow> Some (Frame (nat pktsize), set_boundary nic next (set_next bi next (rx_count bi rsr s))))"

definition rx_iteration :: "henv \<Rightarrow> nat \<Rightarrow> hst \<Rightarrow> (bool \<times> hst) option" where
  "rx_iteration E bi s =
    (case rx_fetch E bi s of
       None \<Rightarrow> None
     | Some (Caught_up, s) \<Rightarrow> Some (False, s)
     | Some (Skipped, s) \<Rightarrow> Some (True, s)
     | Some (Frame pktsize, s) \<Rightarrow> map_option (Pair True) (toss_packet_up_stream E (rxbuff s) bi pktsize s))"

fun receive_loop :: "henv \<Rightarrow> nat \<Rightarrow> nat \<Rightarrow> hst \<Rightarrow> hst option" where
  "receive_loop E bi 0 s = Some (on_status bi (\<lambda>t. t\<lparr>rx_errors := rx_errors t + 1\<rparr>) s)"
| "receive_loop E bi (Suc k) s =
    (case rx_iteration E bi s of
       None \<Rightarrow> None
     | Some (False, s) \<Rightarrow> Some s
     | Some (True, s) \<Rightarrow> receive_loop E bi k s)"

definition receive_interrupt :: "henv \<Rightarrow> nat \<Rightarrow> hst \<Rightarrow> hst option" where
  "receive_interrupt E bi s =
    (let nic = nic_base (info bi s);
         s = NIC_DELAY (hydra_outb nic NE_CR (NE_CR_P0 OR NE_CR_STA OR NE_CR_RDMA_ABORT) s)
     in receive_loop E bi 256 s)"

section \<open>The ring in packet memory\<close>

text \<open>\<open>mem\<close> is the content of packet memory by byte offset, the same for the whole interrupt.\<close>

definition ring_mem :: "henv \<Rightarrow> u32 \<Rightarrow> (nat \<Rightarrow> byte) \<Rightarrow> bool" where
  "ring_mem E base mem \<longleftrightarrow> (\<forall>h i. i < 0x1000 \<longrightarrow>
     e_in32 E h (base + of_nat (4 * i)) = be32 (mem (4 * i)) (mem (4 * i + 1)) (mem (4 * i + 2)) (mem (4 * i + 3)))"

fun rd_ev :: "hblob ev \<Rightarrow> bool" where
  "rd_ev (In32 a v) = True"
| "rd_ev e = False"

lemma rd_quiet:
  "list_all rd_ev es \<Longrightarrow> list_all hw_ev es"
  "list_all rd_ev es \<Longrightarrow> page_of nic (es @ h) = page_of nic h"
proof -
  have *: "rd_ev e \<Longrightarrow> hw_ev e \<and> page_of nic (e # h) = page_of nic h" for e h
    by (cases e) (simp_all add: page_of_def)
  show "list_all rd_ev es \<Longrightarrow> list_all hw_ev es" using * by (auto simp: list_all_iff)
  show "list_all rd_ev es \<Longrightarrow> page_of nic (es @ h) = page_of nic h" using * by (induction es) simp_all
qed

lemma ram_read_mem:
  assumes "ring_mem E (board_base (info bi s)) mem" "len \<le> length buf" "4 * w + len \<le> 0x4000"
  shows "\<exists>es. list_all rd_ev es \<and> hydra_ram_read_offset E bi buf (int len) (int (4 * w)) s =
    (map (\<lambda>k. mem (4 * w + k)) [0..<len] @ drop len buf, calls es s)"
proof -
  let ?base = "board_base (info bi s)" and ?n = "nat (nlongs (int len))"
  define L where "L i = be32 (mem (4 * (w + i))) (mem (4 * (w + i) + 1)) (mem (4 * (w + i) + 2)) (mem (4 * (w + i) + 3))" for i
  have len: "int len < 2147483645" "int (4 * w) + (int len + 3) div 4 * 4 \<le> 0x4000" using assms(3) by presburger+
  have n: "4 * int ?n < int len + 4" using nlongs_range [of "int len"] len(1) by simp
  have addr: "long_addr ?base (int (4 * w)) i = ?base + of_nat (4 * (w + i))" for i
    by (simp add: long_addr_def add.assoc distrib_left)
  have "e_in32 E h (?base + of_nat (4 * (w + i))) = L i" if "i < ?n" for i h
  proof -
    have "w + i < 0x1000" using that n assms(3) by linarith
    then show ?thesis using assms(1) unfolding ring_mem_def L_def by blast
  qed
  then have "answers E (tr s) ?base (int (4 * w)) ?n L" unfolding answers_def addr by blast
  from hydra_ram_read_offset_calls [OF this assms(2) len(1)] len(2)
  have "hydra_ram_read_offset E bi buf (int len) (int (4 * w)) s =
    (long_bytes L len @ drop len buf, calls (read_events ?base (int (4 * w)) L ?n) s)" by simp
  moreover have "byte_of (k mod 4) (L (k div 4)) = mem (4 * w + k)" for k
  proof -
    have k: "4 * w + k = 4 * (w + k div 4) + k mod 4" by simp
    have "k mod 4 < 4" by simp
    then consider "k mod 4 = 0" | "k mod 4 = 1" | "k mod 4 = 2" | "k mod 4 = 3" by linarith
    then show ?thesis unfolding k L_def by cases (simp_all only: byte_of_be32 add_0_right)
  qed
  then have "long_bytes L len = map (\<lambda>k. mem (4 * w + k)) [0..<len]" by (simp add: long_bytes_def)
  moreover have "list_all rd_ev (read_events ?base (int (4 * w)) L ?n)"
    by (simp add: read_events_def list_all_iff)
  ultimately show ?thesis by auto
qed

text \<open>The address of byte \<open>k\<close> behind the header at page \<open>p\<close>, with the wrap from the end of
  packet memory to page 8.\<close>

definition ring_at :: "int \<Rightarrow> nat \<Rightarrow> nat" where
  "ring_at p k = (let a = nat p * 256 + 4 + k in if a < 0x4000 then a else a - 0x4000 + 0x800)"

definition frame_type :: "byte list \<Rightarrow> u16" where
  "frame_type fr = be16 (fr ! 12) (fr ! 13)"

definition good_frame :: "byte list \<Rightarrow> bool" where
  "good_frame fr \<longleftrightarrow> ETH_MINFRAME \<le> length fr \<and> length fr \<le> MAX_BUFFER_LENGTH \<and> \<not> is_trailer (frame_type fr)"

text \<open>
  \<open>ring_chain mem p fs c\<close>: from page \<open>p\<close> the ring holds the frames \<open>fs\<close>, each with the page of
  the next one, and ends at page \<open>c\<close>. The size in a header counts four bytes more than the frame.
\<close>

fun ring_chain :: "(nat \<Rightarrow> byte) \<Rightarrow> int \<Rightarrow> (int \<times> byte list) list \<Rightarrow> int \<Rightarrow> bool" where
  "ring_chain mem p [] c = (p = c)"
| "ring_chain mem p ((nx, fr) # fs) c =
    (p \<noteq> c \<and> 8 \<le> nx \<and> nx < 0x40 \<and> mem (nat p * 256) = of_int nx \<and> mem (nat p * 256 + 1) AND NE_RSR_PRX \<noteq> 0 \<and>
     be16 (mem (nat p * 256 + 3)) (mem (nat p * 256 + 2)) = of_nat (length fr + 4) \<and>
     good_frame fr \<and> (\<forall>k < length fr. mem (ring_at p k) = fr ! k) \<and> ring_chain mem nx fs c)"

section \<open>One round\<close>

definition rx_same :: "hst \<Rightarrow> hst \<Rightarrow> bool" where
  "rx_same s t \<longleftrightarrow> core t = core s \<and> (\<forall>bj. info bj t = info bj s) \<and> rxbuff t = rxbuff s \<and>
     passed (tr t) = passed (tr s) \<and> (\<forall>bj. packets_received (status bj t) = packets_received (status bj s))"

lemma rx_same_trans: "rx_same s t \<Longrightarrow> rx_same t u \<Longrightarrow> rx_same s u"
  by (simp add: rx_same_def)

lemma rx_same_hw: "hw_only s t \<Longrightarrow> rx_same s t"
  by (auto simp: rx_same_def hw_only_def lens tr_calls)

lemma rx_same_status:
  "rx_same s t \<Longrightarrow> (\<And>x. board_state (f x) = board_state x) \<Longrightarrow>
    (\<And>x. packets_received (f x) = packets_received x) \<Longrightarrow> rx_same s (on_status bi f t)"
  by (simp add: rx_same_def lens status_part)

text \<open>The chip's write position, read on page 1.\<close>

definition curr_is :: "henv \<Rightarrow> u32 \<Rightarrow> int \<Rightarrow> bool" where
  "curr_is E nic c \<longleftrightarrow> (\<forall>h. page_of nic h = 0x40 \<longrightarrow> e_in8 E h (reg_addr nic NE_CURR) = of_int c)"

lemma rx_pointers_curr:
  assumes "curr_is E (nic_base (info bi s)) c" "0 \<le> c" "c < 0x100"
  shows "\<exists>t. rx_pointers E bi s = (c, t) \<and> rx_same s t \<and> page_of (nic_base (info bi s)) (tr t) = 0"
proof -
  let ?nic = "nic_base (info bi s)"
  define u where "u = NIC_DELAY (hydra_outb ?nic NE_CR (NE_CR_P1 OR NE_CR_STA OR NE_CR_RDMA_ABORT) s)"
  have "page_of ?nic (tr u) = 0x40" by (simp add: u_def outb_defs call_lens)
  then have c: "fst (hydra_inb E ?nic NE_CURR u) = of_int c"
    using assms(1) by (simp add: curr_is_def hydra_inb_def in8_def Let_def)
  define v where "v = NIC_DELAY (hydra_outb ?nic NE_CR (NE_CR_P0 OR NE_CR_STA OR NE_CR_RDMA_ABORT)
      (NIC_DELAY (snd (hydra_inb E ?nic NE_CURR u))))"
  have p: "rx_pointers E bi s = (int (unat (fst (hydra_inb E ?nic NE_CURR u))),
      on_status bi (\<lambda>t. t\<lparr>last_curr := ucast (fst (hydra_inb E ?nic NE_CURR u)),
          last_bnry := ucast (fst (hydra_inb E ?nic NE_BNRY v))\<rparr>) (NIC_DELAY (snd (hydra_inb E ?nic NE_BNRY v))))"
    unfolding rx_pointers_def Let_def split_def u_def v_def by (rule refl)
  have "hw_only s (NIC_DELAY (snd (hydra_inb E ?nic NE_BNRY v)))" by (auto simp: v_def u_def)
  then have "rx_same s (NIC_DELAY (snd (hydra_inb E ?nic NE_BNRY v)))" by (rule rx_same_hw)
  moreover have "int (unat (of_int c :: byte)) = c"
    using assms(2,3) by (simp add: unsigned_of_int take_bit_int_eq_self)
  ultimately show ?thesis
    unfolding p c by (auto intro: rx_same_status simp: lens v_def outb_defs hydra_inb_def in8_def Let_def)
qed

lemma rx_same_calls: "list_all rd_ev es \<Longrightarrow> rx_same s (calls es s)"
  by (rule rx_same_hw) (auto dest: rd_quiet)

lemma page_offset: "0 \<le> p \<Longrightarrow> p < 0x40 \<Longrightarrow> s32 (p * 256) = int (4 * (64 * nat p))"
  by (simp add: arith32)

lemma rx_header_mem:
  assumes "ring_mem E (board_base (info bi s)) mem" "p = next_pkt (info bi s)" "0 \<le> p" "p < 0x40"
  shows "\<exists>t. rx_header E bi s = ((int (unat (mem (nat p * 256))), mem (nat p * 256 + 1),
      int (unat (be16 (mem (nat p * 256 + 3)) (mem (nat p * 256 + 2))))), t) \<and> rx_same s t \<and>
    page_of nic (tr t) = page_of nic (tr s)"
proof -
  have "nat p < 0x40" using assms(3,4) by simp
  then have bound: "4 * (64 * nat p) + 4 \<le> 0x4000" by linarith
  obtain es where es: "list_all rd_ev es"
    "hydra_ram_read_offset E bi (replicate 4 0) (int 4) (int (4 * (64 * nat p))) s =
      (map (\<lambda>k. mem (4 * (64 * nat p) + k)) [0..<4] @ drop 4 (replicate 4 0), calls es s)"
    using ram_read_mem [OF assms(1) _ bound, of "replicate 4 0"] by auto
  have m: "4 * (64 * nat p) = nat p * 256" by simp
  have "hydra_ram_read E bi (replicate 4 0) 4 (next_pkt (info bi s)) s =
      ([mem (nat p * 256), mem (nat p * 256 + 1), mem (nat p * 256 + 2), mem (nat p * 256 + 3)], calls es s)"
    using es(2) unfolding hydra_ram_read_def assms(2) [symmetric] page_offset [OF assms(3,4)] m by (simp add: upt_4)
  then show ?thesis
    unfolding rx_header_def Let_def
    by (auto intro!: rx_same_status rx_same_calls es(1)
        simp: numeral_2_eq_2 numeral_3_eq_3 lens tr_calls rd_quiet(2) [OF es(1)])
qed

definition rx_copied :: "hst \<Rightarrow> byte list \<Rightarrow> hst \<Rightarrow> bool" where
  "rx_copied s buf t \<longleftrightarrow> core t = core s \<and> (\<forall>bj. info bj t = info bj s) \<and> rxbuff t = buf \<and>
     passed (tr t) = passed (tr s) \<and> (\<forall>bj. packets_received (status bj t) = packets_received (status bj s)) \<and>
     (\<forall>nic. page_of nic (tr t) = page_of nic (tr s))"

lemma rx_copiedI:
  "list_all rd_ev es \<Longrightarrow> length buf = length (rxbuff s) \<Longrightarrow> rx_copied s buf (calls es s\<lparr>rxbuff := buf\<rparr>)"
  by (auto simp: rx_copied_def lens tr_calls calls_def info_def status_def board_def rd_quiet)
    (simp add: core_def)

lemma rx_copy_ring:
  assumes "ring_mem E (board_base (info bi s)) mem" "p = next_pkt (info bi s)" "0 \<le> p" "p < 0x40"
    and "rx_start_page (info bi s) = 8" "n \<le> length (rxbuff s)" "n \<le> MAX_BUFFER_LENGTH"
  shows "\<exists>t. rx_copy E bi (int n) s = Some t \<and>
    rx_copied s (map (\<lambda>k. mem (ring_at p k)) [0..<n] @ drop n (rxbuff s)) t"
proof (cases "p * 256 + 4 + int n > 0x4000")
  case False
  have "p * 256 + 4 = int (4 * (64 * nat p + 1))" using assms(3) by simp
  moreover have "4 * (64 * nat p + 1) + n \<le> 0x4000" using False calculation by linarith
  moreover from this have "map (\<lambda>k. mem (4 * (64 * nat p + 1) + k)) [0..<n] = map (\<lambda>k. mem (ring_at p k)) [0..<n]"
    by (auto simp: ring_at_def Let_def algebra_simps)
  ultimately obtain es where "list_all rd_ev es" "hydra_ram_read_offset E bi (rxbuff s) (int n) (p * 256 + 4) s =
      (map (\<lambda>k. mem (ring_at p k)) [0..<n] @ drop n (rxbuff s), calls es s)"
    using ram_read_mem [OF assms(1,6), of "64 * nat p + 1"] by metis
  then show ?thesis using False assms(2,6)
    by (auto simp: rx_copy_def Let_def intro!: rx_copiedI)
next
  case True
  define m where "m = 0x4000 - 4 * (64 * nat p + 1)"
  have np: "nat p < 0x40" using assms(3,4) by simp
  then have m: "4 * (64 * nat p + 1) + m = 0x4000" by (simp add: m_def)
  have off: "p * 256 + 4 = int (4 * (64 * nat p + 1))" using assms(3) by simp
  have semi: "0x4000 - (p * 256 + 4) = int m" using off m by linarith
  have mn: "m < n" using True off m by linarith
  let ?b1 = "map (\<lambda>k. mem (4 * (64 * nat p + 1) + k)) [0..<m] @ drop m (rxbuff s)"
  have "m \<le> length (rxbuff s)" "4 * (64 * nat p + 1) + m \<le> 0x4000" using mn assms(6) m by simp_all
  from ram_read_mem [OF assms(1) this] obtain es where es: "list_all rd_ev es"
    "hydra_ram_read_offset E bi (rxbuff s) (int m) (p * 256 + 4) s = (?b1, calls es s)"
    unfolding off [symmetric] by blast
  have d: "drop m ?b1 = drop m (rxbuff s)" "take m ?b1 = map (\<lambda>k. mem (4 * (64 * nat p + 1) + k)) [0..<m]" by simp_all
  have "ring_mem E (board_base (info bi (calls es s))) mem" using assms(1) by (simp add: calls_hst)
  moreover have "n - m \<le> length (drop m (rxbuff s))" using assms(6) by (simp add: diff_le_mono)
  moreover have "4 * 512 + (n - m) \<le> 0x4000" using assms(7) by simp
  ultimately have "\<exists>fs. list_all rd_ev fs \<and> hydra_ram_read_offset E bi (drop m (rxbuff s)) (int (n - m)) (int (4 * 512)) (calls es s) =
      (map (\<lambda>k. mem (4 * 512 + k)) [0..<n - m] @ drop (n - m) (drop m (rxbuff s)), calls fs (calls es s))"
    by (rule ram_read_mem)
  then obtain fs where fs: "list_all rd_ev fs"
    "hydra_ram_read_offset E bi (drop m (rxbuff s)) (int (n - m)) (int (4 * 512)) (calls es s) =
      (map (\<lambda>k. mem (4 * 512 + k)) [0..<n - m] @ drop (n - m) (drop m (rxbuff s)), calls fs (calls es s))"
    by blast
  have "map (\<lambda>k. mem (4 * (64 * nat p + 1) + k)) [0..<m] @ map (\<lambda>k. mem (4 * 512 + k)) [0..<n - m] @ drop n (rxbuff s) =
      map (\<lambda>k. mem (ring_at p k)) [0..<n] @ drop n (rxbuff s)"
  proof (rule nth_equalityI)
    fix k assume "k < length (map (\<lambda>k. mem (4 * (64 * nat p + 1) + k)) [0..<m] @ map (\<lambda>k. mem (4 * 512 + k)) [0..<n - m] @ drop n (rxbuff s))"
    then show "(map (\<lambda>k. mem (4 * (64 * nat p + 1) + k)) [0..<m] @ map (\<lambda>k. mem (4 * 512 + k)) [0..<n - m] @ drop n (rxbuff s)) ! k =
      (map (\<lambda>k. mem (ring_at p k)) [0..<n] @ drop n (rxbuff s)) ! k"
      using m mn by (auto simp: nth_append ring_at_def Let_def intro!: arg_cong [of _ _ mem])
  qed (use mn in simp)
  then have buf: "take m ?b1 @ map (\<lambda>k. mem (4 * 512 + k)) [0..<n - m] @ drop (n - m) (drop m (rxbuff s)) =
      map (\<lambda>k. mem (ring_at p k)) [0..<n] @ drop n (rxbuff s)"
    using mn d(2) by simp
  have "rx_copy E bi (int n) s = Some ((calls fs (calls es s))\<lparr>rxbuff := map (\<lambda>k. mem (ring_at p k)) [0..<n] @ drop n (rxbuff s)\<rparr>)"
    using True es(2) fs(2) mn assms(5) semi buf d(1)
    by (simp add: rx_copy_def Let_def assms(2) [symmetric] calls_hst of_nat_diff)
  moreover have "list_all rd_ev (fs @ es)" using es(1) fs(1) by simp
  ultimately show ?thesis using assms(6) by (auto intro!: rx_copiedI)
qed

lemma nic_reg_up_ev: "list_all up_ev es \<Longrightarrow> nic_reg nic pg r (es @ h) = nic_reg nic pg r h"
proof (induction es)
  case (Cons e es)
  then show ?case by (cases e) simp_all
qed simp

lemma rx_count_lens [lens]:
  "core (rx_count bi rsr s) = core s" "info bj (rx_count bi rsr s) = info bj s"
  "tr (rx_count bi rsr s) = tr s" "rxbuff (rx_count bi rsr s) = rxbuff s"
  "length (boards (rx_count bi rsr s)) = length (boards s)"
  by (simp_all add: rx_count_def Let_def lens)

lemma rx_count_received:
  "bi < length (boards s) \<Longrightarrow>
    packets_received (status bi (rx_count bi rsr s)) = packets_received (status bi s) + 1"
  by (simp add: rx_count_def Let_def status_part lens status_on_status)

text \<open>What a frame causes: indications to the streams that take it.\<close>

definition deliveries :: "henv \<Rightarrow> nat \<Rightarrow> hst \<Rightarrow> byte list \<Rightarrow> (queue \<times> hblob msg) list" where
  "deliveries E bi s fr =
    (if for_us bi fr s
     then map (\<lambda>q. (q, unitdata_ind E fr (drop 14 fr))) (recipients bi (frame_type fr) s [0..<HYDRA_MAXDEV])
     else [])"

lemma deliveries_core:
  assumes "core t = core s" "bi < length (boards s)"
  shows "deliveries E bi t fr = deliveries E bi s fr"
  unfolding deliveries_def for_us_def recipients_def coreD(5) [OF assms] core_info(3) [OF assms] ..

definition boundary_of :: "int \<Rightarrow> int" where
  "boundary_of next = (if next = 8 then 0x3f else next - 1)"

text \<open>The situation the loop is in: the chip, the ring and the streams as the theorem wants them.\<close>

definition rx_ready :: "henv \<Rightarrow> nat \<Rightarrow> (nat \<Rightarrow> byte) \<Rightarrow> int \<Rightarrow> hst \<Rightarrow> bool" where
  "rx_ready E bi mem c s \<longleftrightarrow> bi < length (boards s) \<and> cooked bi s \<and> willing E \<and>
     ring_mem E (board_base (info bi s)) mem \<and> curr_is E (nic_base (info bi s)) c \<and> 8 \<le> c \<and> c < 0x40 \<and>
     8 \<le> next_pkt (info bi s) \<and> next_pkt (info bi s) < 0x40 \<and> rx_start_page (info bi s) = 8 \<and>
     length (rxbuff s) = MAX_BUFFER_LENGTH"

lemma rx_ready_core:
  assumes "rx_ready E bi mem c s" "core t = core s" "8 \<le> next_pkt (info bi t)" "next_pkt (info bi t) < 0x40"
  shows "rx_ready E bi mem c t"
  using assms coreD(1,3,5) [OF assms(2)] core_info [OF assms(2), of bi]
  by (simp add: rx_ready_def cooked_def)

lemma toss_ring_frame:
  assumes "willing E" "bi < length (boards s)" "cooked bi s" "good_frame fr" "rxbuff s = fr @ rest"
  shows "\<exists>t. toss_packet_up_stream E (rxbuff s) bi (length fr) s = Some t \<and>
    passed (tr t) = passed (tr s) @ deliveries E bi s fr"
proof -
  have len: "60 \<le> length fr" using assms(4) by (simp add: good_frame_def)
  have u: "unitdata_ind E (fr @ rest) xs = unitdata_ind E fr xs" for xs
    using len by (simp add: unitdata_ind_def)
  have f: "for_us bi (fr @ rest) s = for_us bi fr s" using len by (simp add: for_us_def)
  have ty: "frame_type fr = be16 ((fr @ rest) ! 12) ((fr @ rest) ! 13)" "\<not> is_trailer (frame_type fr)"
    using len assms(4) by (simp_all add: frame_type_def good_frame_def nth_append)
  have d: "take (length fr - 14) (drop 14 (fr @ rest)) = drop 14 fr" using len by simp
  have "\<exists>t. toss_packet_up_stream E (fr @ rest) bi (length fr) s = Some t \<and> passed (tr t) = passed (tr s) @
      (if for_us bi (fr @ rest) s
       then map (\<lambda>q. (q, unitdata_ind E (fr @ rest) (take (length fr - 14) (drop 14 (fr @ rest)))))
         (recipients bi (frame_type fr) s [0..<HYDRA_MAXDEV]) else [])"
    by (rule toss_packet_deliver [OF assms(1-3) _ _ ty]) (use len in simp_all)
  then show ?thesis unfolding u f d assms(5) deliveries_def .
qed

lemma unat_of_nat16: "n < 65536 \<Longrightarrow> unat (of_nat n :: u16) = n"
  by (simp add: unat_of_nat)

lemma rx_round:
  assumes "rx_ready E bi mem c s" "ring_chain mem (next_pkt (info bi s)) ((nx, fr) # fs) c"
  shows "\<exists>t. rx_iteration E bi s = Some (True, t) \<and> core t = core s \<and> next_pkt (info bi t) = nx \<and>
    passed (tr t) = passed (tr s) @ deliveries E bi s fr \<and>
    packets_received (status bi t) = packets_received (status bi s) + 1 \<and>
    nic_reg (nic_base (info bi s)) 0 NE_BNRY (tr t) = Some (of_int (boundary_of nx))"
proof -
  let ?nic = "nic_base (info bi s)" and ?p = "next_pkt (info bi s)"
  note r = assms(1) [unfolded rx_ready_def]
  note ch = assms(2) [simplified, folded One_nat_def]
  obtain s1 where s1: "rx_pointers E bi s = (c, s1)" "rx_same s s1" "page_of ?nic (tr s1) = 0"
    using rx_pointers_curr [of E bi s c] r by auto
  have i1: "info bi s1 = info bi s" "core s1 = core s" using s1(2) by (simp_all add: rx_same_def)
  have mem1: "ring_mem E (board_base (info bi s1)) mem" using r i1 by simp
  obtain s2 where s2: "rx_header E bi s1 = ((int (unat (mem (nat ?p * 256))), mem (nat ?p * 256 + 1),
      int (unat (be16 (mem (nat ?p * 256 + 3)) (mem (nat ?p * 256 + 2))))), s2)"
    "rx_same s1 s2" "page_of ?nic (tr s2) = page_of ?nic (tr s1)"
    using rx_header_mem [OF mem1, of ?p ?nic] r i1 by auto
  have i2: "info bi s2 = info bi s" "core s2 = core s" "rxbuff s2 = rxbuff s"
    using s1(2) s2(2) by (simp_all add: rx_same_def)
  have fr: "60 \<le> length fr" "length fr \<le> 1518" using ch by (auto simp: good_frame_def)
  have nxt: "int (unat (mem (nat ?p * 256))) = nx"
    using ch by (auto simp: unsigned_of_int take_bit_int_eq_self)
  have "be16 (mem (nat ?p * 256 + 3)) (mem (nat ?p * 256 + 2)) = of_nat (length fr + 4)"
    using assms(2) by simp
  then have "int (unat (be16 (mem (nat ?p * 256 + 3)) (mem (nat ?p * 256 + 2)))) = int (length fr) + 4"
    using fr unat_of_nat16 [of "length fr + 4"] by simp
  note hd = s2(1) [unfolded nxt this]
  have mem2: "ring_mem E (board_base (info bi s2)) mem" using r i2 by simp
  obtain s3 where s3: "rx_copy E bi (int (length fr)) s2 = Some s3"
    "rx_copied s2 (map (\<lambda>k. mem (ring_at ?p k)) [0..<length fr] @ drop (length fr) (rxbuff s2)) s3"
    using rx_copy_ring [OF mem2, of ?p "length fr"] r i2 fr by auto
  have "map (\<lambda>k. mem (ring_at ?p k)) [0..<length fr] = fr"
    using ch by (auto intro!: nth_equalityI)
  note c3 = s3(2) [unfolded rx_copied_def this]
  define s4 where "s4 = set_next bi nx (rx_count bi (mem (nat ?p * 256 + 1)) s3)"
  define s5 where "s5 = set_boundary ?nic nx s4"
  have l3: "bi < length (boards s3)" using c3 i2 r coreD(1) [of s3 s] by simp
  have i4: "info bi s4 = (info bi s)\<lparr>next_pkt := nx\<rparr>"
    using c3 i2 l3 by (simp add: s4_def set_next_def info_on_info lens)
  have c5: "core s5 = core s" "info bi s5 = info bi s4" "rxbuff s5 = fr @ drop (length fr) (rxbuff s)"
    "passed (tr s5) = passed (tr s)" "page_of ?nic (tr s4) = 0" "bi < length (boards s5)"
    "packets_received (status bi s5) = packets_received (status bi s) + 1"
    using c3 i2 s1 s2 l3 by (simp_all add: s5_def set_boundary_def s4_def set_next_def outb_defs lens Let_def
        rx_count_received rx_same_def)
  have b5: "nic_reg ?nic 0 NE_BNRY (tr s5) = Some (of_int (boundary_of nx))"
    using c5(5) ch by (auto simp: s5_def set_boundary_def outb_defs lens Let_def boundary_of_def)
  have "cooked bi s5" using r c5(1) coreD(5) [OF c5(1)] by (simp add: cooked_def)
  then obtain t where t: "toss_packet_up_stream E (rxbuff s5) bi (length fr) s5 = Some t"
    "passed (tr t) = passed (tr s5) @ deliveries E bi s5 fr"
    using toss_ring_frame [of E bi s5 fr] r c5 ch by auto
  note st = toss_packet_step [OF t(1), unfolded toss_step_def]
  have "packets_received (status bi t) = packets_received (status bi s5)" using st by simp
  moreover have "nic_reg ?nic 0 NE_BNRY (tr t) = nic_reg ?nic 0 NE_BNRY (tr s5)"
    using st by (auto simp: nic_reg_up_ev)
  moreover have "next_pkt (info bi t) = nx" using st c5(2) i4 by simp
  moreover have "rx_iteration E bi s = Some (True, t)"
    using s1(1) hd s3(1) ch i1 fr t(1)
    by (simp add: rx_iteration_def rx_fetch_def s5_def s4_def)
  ultimately show ?thesis
    using st c5 t(2) b5 deliveries_core [OF c5(1), of bi E fr] r by auto
qed

section \<open>The loop\<close>

lemma receive_loop_ring:
  assumes "rx_ready E bi mem c s" "ring_chain mem (next_pkt (info bi s)) fs c" "length fs < k"
  shows "\<exists>t. receive_loop E bi k s = Some t \<and> core t = core s \<and> next_pkt (info bi t) = c \<and>
    passed (tr t) = passed (tr s) @ concat (map (deliveries E bi s) (map snd fs)) \<and>
    packets_received (status bi t) = packets_received (status bi s) + of_nat (length fs)"
  using assms
proof (induction fs arbitrary: s k)
  case Nil
  obtain s1 where s1: "rx_pointers E bi s = (c, s1)" "rx_same s s1"
    using rx_pointers_curr [of E bi s c] Nil.prems(1) by (auto simp: rx_ready_def)
  then have "rx_iteration E bi s = Some (False, s1)"
    using Nil.prems(2) by (simp add: rx_iteration_def rx_fetch_def rx_same_def)
  then show ?case using Nil.prems(2,3) s1(2) by (cases k) (simp_all add: rx_same_def)
next
  case (Cons f fs)
  obtain nx fr where f: "f = (nx, fr)" by fastforce
  obtain u where u: "rx_iteration E bi s = Some (True, u)" "core u = core s" "next_pkt (info bi u) = nx"
    "passed (tr u) = passed (tr s) @ deliveries E bi s fr"
    "packets_received (status bi u) = packets_received (status bi s) + 1"
    using rx_round [OF Cons.prems(1) Cons.prems(2) [unfolded f]] by blast
  have l: "bi < length (boards s)" using Cons.prems(1) by (simp add: rx_ready_def)
  have "rx_ready E bi mem c u" using rx_ready_core [OF Cons.prems(1) u(2)] u(3) Cons.prems(2) f by simp
  moreover have "ring_chain mem (next_pkt (info bi u)) fs c" using Cons.prems(2) f u(3) by simp
  moreover obtain k' where k: "k = Suc k'" "length fs < k'" using Cons.prems(3) by (cases k) auto
  ultimately obtain t where t: "receive_loop E bi k' u = Some t" "core t = core u" "next_pkt (info bi t) = c"
    "passed (tr t) = passed (tr u) @ concat (map (deliveries E bi u) (map snd fs))"
    "packets_received (status bi t) = packets_received (status bi u) + of_nat (length fs)"
    using Cons.IH by blast
  have "map (deliveries E bi u) (map snd fs) = map (deliveries E bi s) (map snd fs)"
    using deliveries_core [OF u(2) l] by simp
  then show ?case using t u k f by (simp only: receive_loop.simps) simp
qed

text \<open>What one round may do, whatever the chip answers.\<close>

fun rx_ev :: "u32 \<Rightarrow> hblob ev \<Rightarrow> bool" where
  "rx_ev base (In32 a v) = in_window base (In32 a v)"
| "rx_ev base (Out32 a v) = False"
| "rx_ev base e = True"

definition rx_step :: "u32 \<Rightarrow> nat \<Rightarrow> hst \<Rightarrow> hst \<Rightarrow> bool" where
  "rx_step base bi s t \<longleftrightarrow> core t = core s \<and>
     (\<forall>b. next_pkt (info b t) = next_pkt (info b s) \<or> b = bi \<and> ring_page (next_pkt (info b t))) \<and>
     (\<exists>es. tr t = es @ tr s \<and> list_all (rx_ev base) es)"

lemma rx_step_refl [simp]: "rx_step base bi s s"
  by (simp add: rx_step_def)

lemma rx_step_trans: "rx_step base bi s t \<Longrightarrow> rx_step base bi t u \<Longrightarrow> rx_step base bi s u"
  unfolding rx_step_def
proof (elim conjE exE, intro conjI)
  fix es fs
  assume "tr t = es @ tr s" "list_all (rx_ev base) es" "tr u = fs @ tr t" "list_all (rx_ev base) fs"
  then show "\<exists>es. tr u = es @ tr s \<and> list_all (rx_ev base) es" by (intro exI [of _ "fs @ es"]) simp
next
  assume n1: "\<forall>b. next_pkt (info b t) = next_pkt (info b s) \<or> b = bi \<and> ring_page (next_pkt (info b t))"
    and n2: "\<forall>b. next_pkt (info b u) = next_pkt (info b t) \<or> b = bi \<and> ring_page (next_pkt (info b u))"
  show "\<forall>b. next_pkt (info b u) = next_pkt (info b s) \<or> b = bi \<and> ring_page (next_pkt (info b u))"
    using n1 n2 by metis
qed simp

lemma rx_step_call [intro!]: "rx_ev base e \<Longrightarrow> rx_step base bi s t \<Longrightarrow> rx_step base bi s (call e t)"
  by (auto simp: rx_step_def lens)

lemma rx_step_hw [intro!]:
  "rx_step base bi s t \<Longrightarrow> rx_step base bi s (hydra_outb nic r v t)"
  "rx_step base bi s t \<Longrightarrow> rx_step base bi s (NIC_DELAY t)"
  "rx_step base bi s t \<Longrightarrow> rx_step base bi s (snd (hydra_inb E nic r t))"
  by (auto simp: outb_defs hydra_inb_def in8_def Let_def)

lemma rx_step_counters [intro!]:
  "(\<And>x. board_state (f x) = board_state x) \<Longrightarrow> rx_step base bi s t \<Longrightarrow> rx_step base bi s (on_status bj f t)"
  "rx_step base bi s t \<Longrightarrow> rx_step base bi s (ierror bj t)"
  "rx_step base bi s t \<Longrightarrow> rx_step base bi s (rx_count bj rsr t)"
  by (simp_all add: rx_step_def lens ierror_def)

lemma rx_step_next [intro!]:
  "ring_page p \<Longrightarrow> bi < length (boards t) \<Longrightarrow> rx_step base bi s t \<Longrightarrow> rx_step base bi s (set_next bi p t)"
  by (auto simp: rx_step_def lens set_next_def info_on_info)

lemma rx_step_boundary [intro!]: "rx_step base bi s t \<Longrightarrow> rx_step base bi s (set_boundary nic p t)"
  by (auto simp: set_boundary_def Let_def)

lemma rx_step_toss: "toss_step s t \<Longrightarrow> rx_step base bi s t"
proof -
  have "up_ev e \<Longrightarrow> rx_ev base e" for e by (cases e) simp_all
  then have "list_all up_ev es \<Longrightarrow> list_all (rx_ev base) es" for es by (auto simp: list_all_iff)
  then show "toss_step s t \<Longrightarrow> rx_step base bi s t" by (auto simp: toss_step_def rx_step_def)
qed

lemma rx_step_read:
  assumes "off + len < 2147483640" "base = board_base (info b' s)"
  shows "rx_step base bi s (snd (hydra_ram_read_offset E b' buf len off s))"
proof -
  obtain fs where fs: "tr (snd (hydra_ram_read_offset E b' buf len off s)) = fs @ tr s"
    "\<forall>e \<in> set fs. \<exists>a v. e = In32 a v" "list_all (in_window base) fs"
    using ram_read_window [OF assms(1)] assms(2) by blast
  have io: "io_only s (snd (hydra_ram_read_offset E b' buf len off s))"
    by (rule hw_only_io) auto
  have "list_all (rx_ev base) fs" using fs(2,3) by (fastforce simp: list_all_iff)
  then show ?thesis using fs(1) by (auto simp: rx_step_def core_io [OF io] io_only_hst [OF io])
qed

lemma rx_pointers_step: "rx_step base bi s (snd (rx_pointers E bi s))"
  by (auto simp: rx_pointers_def Let_def split_def)

lemma rx_header_step:
  assumes "ring_page (next_pkt (info bi s))" "base = board_base (info bi s)"
  shows "rx_step base bi s (snd (rx_header E bi s))"
  using assms by (auto simp: rx_header_def Let_def split_def hydra_ram_read_def ring_page_def arith32
      intro!: rx_step_read)

lemma rx_copy_step:
  assumes "rx_copy E bi n s = Some t" "ring_page (next_pkt (info bi s))" "base = board_base (info bi s)"
    and "n \<le> int MAX_BUFFER_LENGTH" "bi < length (boards s)" "rx_start_page (info bi s) = 8"
    "length (rxbuff s) = MAX_BUFFER_LENGTH"
  shows "rx_step base bi s t"
proof -
  have buf: "rx_step base bi s u \<Longrightarrow> length b = length (rxbuff s) \<Longrightarrow> rx_step base bi s (u\<lparr>rxbuff := b\<rparr>)" for u b
    using coreD(3) [of u s] by (auto simp: rx_step_def lens info_def board_def)
  have len: "length (fst (hydra_ram_read_offset E bi b k off u)) = length b" for b k off u
    by (rule length_ram_read)
  show ?thesis
  proof (cases "next_pkt (info bi s) * 256 + 4 + n > 0x4000")
    case False
    have "rx_step base bi s (snd (hydra_ram_read_offset E bi (rxbuff s) n (next_pkt (info bi s) * 256 + 4) s))"
      using assms(2-4) by (intro rx_step_read) (simp_all add: ring_page_def)
    then show ?thesis
      using False assms(1) buf len by (auto simp: rx_copy_def Let_def split_def)
  next
    case True
    define m where "m = 0x4000 - (next_pkt (info bi s) * 256 + 4)"
    define b u where "b = fst (hydra_ram_read_offset E bi (rxbuff s) m (next_pkt (info bi s) * 256 + 4) s)"
      and "u = snd (hydra_ram_read_offset E bi (rxbuff s) m (next_pkt (info bi s) * 256 + 4) s)"
    have m: "0 \<le> m" "m < n" using assms(2) True by (auto simp: m_def ring_page_def)
    have u: "rx_step base bi s u"
      using assms(2-4) unfolding u_def by (intro rx_step_read) (simp_all add: ring_page_def m_def)
    have cu: "core u = core s" using u by (simp add: rx_step_def)
    define c v where "c = fst (hydra_ram_read_offset E bi (drop (nat m) b) (n - m) 0x800 u)"
      and "v = snd (hydra_ram_read_offset E bi (drop (nat m) b) (n - m) 0x800 u)"
    have "rx_step base bi u v"
      using assms(3,4) m core_info(1) [OF cu assms(5)] unfolding v_def by (intro rx_step_read) simp_all
    then have v: "rx_step base bi s v" by (rule rx_step_trans [OF u])
    have lc: "length (take (nat m) b @ c) = length (rxbuff s)"
      using m assms(4,7) by (simp add: c_def len b_def)
    have "t = v\<lparr>rxbuff := take (nat m) b @ c\<rparr>"
      using assms(1) True m core_info(5) [OF cu assms(5)] assms(6)
      by (simp add: rx_copy_def Let_def split_def flip: m_def) (simp add: b_def u_def c_def v_def)
    then show ?thesis using buf [OF v lc] by simp
  qed
qed

definition rx_fit :: "nat \<Rightarrow> hst \<Rightarrow> bool" where
  "rx_fit bi s \<longleftrightarrow> bi < length (boards s) \<and> ring_page (next_pkt (info bi s)) \<and> rx_start_page (info bi s) = 8 \<and>
     length (rxbuff s) = MAX_BUFFER_LENGTH"

lemma rx_fit_step: "rx_step base bi s t \<Longrightarrow> rx_fit bi s \<Longrightarrow> rx_fit bi t"
  using core_info(5) [of t s bi] coreD(1,3) [of t s] by (auto simp: rx_fit_def rx_step_def) metis

lemma rx_fetch_step:
  assumes "rx_fit bi s" "base = board_base (info bi s)"
  shows "\<exists>f t. rx_fetch E bi s = Some (f, t) \<and> rx_step base bi s t \<and>
    (case f of Frame n \<Rightarrow> ETH_MINFRAME \<le> n \<and> n \<le> MAX_BUFFER_LENGTH | _ \<Rightarrow> True)"
proof -
  let ?nic = "nic_base (info bi s)"
  obtain curr s1 where s1: "rx_pointers E bi s = (curr, s1)" by fastforce
  have r1: "rx_step base bi s s1" using rx_pointers_step [of base bi s E] s1 by simp
  note f1 = rx_fit_step [OF r1 assms(1)]
  have i1: "info bi s1 = info bi s"
    using s1 by (auto simp: rx_pointers_def Let_def split_def outb_defs hydra_inb_def in8_def lens)
  obtain nx rsr size s2 where s2: "rx_header E bi s1 = ((nx, rsr, size), s2)" by (metis surj_pair)
  have r2: "rx_step base bi s s2"
    using rx_header_step [of bi s1 base E] f1 assms(2) s2 i1
    by (intro rx_step_trans [OF r1]) (simp add: rx_fit_def)
  note f2 = rx_fit_step [OF r2 assms(1)]
  have b2: "board_base (info bi s2) = base"
    using r2 assms core_info(1) [of s2 s bi] by (simp add: rx_step_def rx_fit_def)
  note eq = rx_fetch_def [of E bi s, unfolded Let_def s1 s2 split]
  have l: "bi < length (boards (ierror bi (on_status bi f s2)))" "bi < length (boards (on_status bi f s2))" for f
    using f2 by (simp_all add: rx_fit_def ierror_def lens)
  consider (caught_up) "next_pkt (info bi s1) = curr" | (bad_next) "next_pkt (info bi s1) \<noteq> curr" "nx < 8 \<or> nx \<ge> 0x40"
    | (bad_rsr) "next_pkt (info bi s1) \<noteq> curr" "ring_page nx" "rsr AND NE_RSR_PRX = 0"
    | (bad_size) "next_pkt (info bi s1) \<noteq> curr" "ring_page nx" "rsr AND NE_RSR_PRX \<noteq> 0" "size - 4 < 60 \<or> size - 4 > 1518"
    | (good) "next_pkt (info bi s1) \<noteq> curr" "ring_page nx" "rsr AND NE_RSR_PRX \<noteq> 0" "\<not> (size - 4 < 60 \<or> size - 4 > 1518)"
    by (fastforce simp: ring_page_def)
  then show ?thesis
  proof cases
    case caught_up
    then show ?thesis using eq r1 by simp
  next
    case bad_next
    then show ?thesis using eq r2 l by (auto simp: ring_page_def)
  next
    case bad_rsr
    then show ?thesis using eq r2 l by (auto simp: ring_page_def)
  next
    case bad_size
    then show ?thesis using eq r2 l by (auto simp: ring_page_def)
  next
    case good
    have "\<exists>s3. rx_copy E bi (size - 4) s2 = Some s3"
      using f2 by (auto simp: rx_copy_def Let_def split_def rx_fit_def ring_page_def)
    then obtain s3 where s3: "rx_copy E bi (size - 4) s2 = Some s3" by blast
    have "rx_step base bi s2 s3"
      by (rule rx_copy_step [OF s3]) (use good f2 b2 in \<open>auto simp: rx_fit_def\<close>)
    then have r3: "rx_step base bi s s3" by (rule rx_step_trans [OF r2])
    have "bi < length (boards (rx_count bi rsr s3))"
      using rx_fit_step [OF r3 assms(1)] by (simp add: rx_fit_def lens)
    then have "rx_step base bi s (set_boundary ?nic nx (set_next bi nx (rx_count bi rsr s3)))"
      using r3 good by auto
    then show ?thesis using eq good s3 by (simp add: ring_page_def nat_le_iff le_nat_iff)
  qed
qed

lemma rx_iteration_step:
  assumes "rx_iteration E bi s = Some (c, t)" "rx_fit bi s" "base = board_base (info bi s)"
  shows "rx_step base bi s t"
proof -
  obtain f u where f: "rx_fetch E bi s = Some (f, u)" "rx_step base bi s u"
    using rx_fetch_step [OF assms(2,3)] by blast
  have "rx_step base bi u t"
  proof (cases f)
    case (Frame n)
    then have "toss_packet_up_stream E (rxbuff u) bi n u = Some t" using assms(1) f(1) by (simp add: rx_iteration_def)
    then show ?thesis by (rule rx_step_toss [OF toss_packet_step])
  qed (use assms(1) f(1) in \<open>simp_all add: rx_iteration_def\<close>)
  then show ?thesis by (rule rx_step_trans [OF f(2)])
qed

lemma receive_loop_step:
  assumes "receive_loop E bi k s = Some t" "rx_fit bi s" "base = board_base (info bi s)"
  shows "rx_step base bi s t"
  using assms
proof (induction k arbitrary: s)
  case 0
  then show ?case by auto
next
  case (Suc k)
  then obtain c u where u: "rx_iteration E bi s = Some (c, u)" by (auto split: option.splits)
  note su = rx_iteration_step [OF u Suc.prems(2,3)]
  show ?case
  proof (cases c)
    case True
    have "board_base (info bi u) = base"
      using su Suc.prems(2,3) core_info(1) [of u s bi] by (simp add: rx_step_def rx_fit_def)
    then have "rx_step base bi u t"
      using Suc.IH [of u] rx_fit_step [OF su Suc.prems(2)] Suc.prems(1) u True by simp
    then show ?thesis by (rule rx_step_trans [OF su])
  next
    case False
    then show ?thesis using Suc.prems(1) u su by simp
  qed
qed

lemma receive_interrupt_step:
  assumes "receive_interrupt E bi s = Some t" "rx_fit bi s"
  shows "rx_step (board_base (info bi s)) bi s t"
proof -
  let ?u = "NIC_DELAY (hydra_outb (nic_base (info bi s)) NE_CR (NE_CR_P0 OR NE_CR_STA OR NE_CR_RDMA_ABORT) s)"
  have u: "rx_step (board_base (info bi s)) bi s ?u" by auto
  have "info bi ?u = info bi s" by (simp add: outb_defs lens)
  then have "rx_step (board_base (info bi s)) bi ?u t"
    using receive_loop_step [of E bi 256 ?u t] rx_fit_step [OF u assms(2)] assms(1)
    by (simp add: receive_interrupt_def)
  then show ?thesis by (rule rx_step_trans [OF u])
qed

text \<open>
  The frames an interrupt fetches: \<open>fetches E bi s n u\<close> says that the loop, from \<open>s\<close>, comes to the delivery of a frame of
  \<open>n\<close> bytes in state \<open>u\<close>. A fault of the interrupt is one of such a delivery, of a trailer frame.
\<close>

inductive fetches :: "henv \<Rightarrow> nat \<Rightarrow> hst \<Rightarrow> nat \<Rightarrow> hst \<Rightarrow> bool" for E bi where
  fetches_now: "rx_fetch E bi s = Some (Frame n, u) \<Longrightarrow> fetches E bi s n u"
| fetches_later: "rx_iteration E bi s = Some (True, t) \<Longrightarrow> fetches E bi t n u \<Longrightarrow> fetches E bi s n u"

lemma rx_iteration_fault:
  assumes "rx_iteration E bi s = None" "rx_fit bi s" "base = board_base (info bi s)"
  shows "\<exists>n u. fetches E bi s n u \<and> rx_step base bi s u \<and> toss_packet_up_stream E (rxbuff u) bi n u = None \<and>
    trailer_outside (rxbuff u)"
proof -
  obtain f u where f: "rx_fetch E bi s = Some (f, u)" "rx_step base bi s u"
    "case f of Frame n \<Rightarrow> ETH_MINFRAME \<le> n \<and> n \<le> MAX_BUFFER_LENGTH | _ \<Rightarrow> True"
    using rx_fetch_step [OF assms(2,3)] by blast
  then obtain n where n: "f = Frame n" "toss_packet_up_stream E (rxbuff u) bi n u = None"
    using assms(1) by (cases f) (auto simp: rx_iteration_def)
  have "length (rxbuff u) = MAX_BUFFER_LENGTH" using rx_fit_step [OF f(2) assms(2)] by (simp add: rx_fit_def)
  then have "trailer_outside (rxbuff u)" using toss_packet_total [of "rxbuff u" n E bi u] n f(3) by auto
  then show ?thesis using f n by (auto intro: fetches_now)
qed

lemma receive_loop_fault:
  assumes "receive_loop E bi k s = None" "rx_fit bi s" "base = board_base (info bi s)"
  shows "\<exists>n u. fetches E bi s n u \<and> rx_step base bi s u \<and> toss_packet_up_stream E (rxbuff u) bi n u = None \<and>
    trailer_outside (rxbuff u)"
  using assms
proof (induction k arbitrary: s)
  case (Suc k)
  show ?case
  proof (cases "rx_iteration E bi s")
    case None
    then show ?thesis using rx_iteration_fault Suc.prems by blast
  next
    case (Some r)
    then obtain t where t: "rx_iteration E bi s = Some (True, t)" "receive_loop E bi k t = None"
      using Suc.prems(1) by (cases r) (auto split: bool.splits)
    note st = rx_iteration_step [OF t(1) Suc.prems(2,3)]
    have "board_base (info bi t) = base"
      using st Suc.prems(2,3) core_info(1) [of t s bi] by (simp add: rx_step_def rx_fit_def)
    then obtain n u where "fetches E bi t n u" "rx_step base bi t u" "toss_packet_up_stream E (rxbuff u) bi n u = None"
        "trailer_outside (rxbuff u)"
      using Suc.IH [OF t(2) rx_fit_step [OF st Suc.prems(2)]] by auto
    then show ?thesis using rx_step_trans [OF st] fetches_later [OF t(1)] by blast
  qed
qed simp

lemma receive_interrupt_ring:
  assumes "rx_ready E bi mem c s" "ring_chain mem (next_pkt (info bi s)) fs c" "length fs \<le> 255"
  shows "\<exists>t. receive_interrupt E bi s = Some t \<and> next_pkt (info bi t) = c \<and>
    passed (tr t) = passed (tr s) @ concat (map (deliveries E bi s) (map snd fs)) \<and>
    packets_received (status bi t) = packets_received (status bi s) + of_nat (length fs)"
proof -
  let ?u = "NIC_DELAY (hydra_outb (nic_base (info bi s)) NE_CR (NE_CR_P0 OR NE_CR_STA OR NE_CR_RDMA_ABORT) s)"
  have u: "core ?u = core s" "info bi ?u = info bi s" "passed (tr ?u) = passed (tr s)" "status bi ?u = status bi s"
    by (simp_all add: outb_defs lens)
  have l: "bi < length (boards s)" "8 \<le> next_pkt (info bi s)" "next_pkt (info bi s) < 0x40"
    using assms(1) by (simp_all add: rx_ready_def)
  have "rx_ready E bi mem c ?u" using rx_ready_core [OF assms(1) u(1)] u(2) l by simp
  moreover have "deliveries E bi ?u = deliveries E bi s" using deliveries_core [OF u(1) l(1)] by blast
  ultimately show ?thesis
    using receive_loop_ring [of E bi mem c ?u fs 256] u assms(2,3) by (auto simp: receive_interrupt_def)
qed

section \<open>Properties\<close>

text \<open>
  C1. End-to-end receive: when the ring holds the well-formed frames \<open>fs\<close> (at most 255, none of
  a trailer type) between the driver's read position and the chip's \<open>CURR\<close>, the chip and the ring memory
  keep still and the streams accept, then \<open>receive_interrupt\<close> returns, has passed the frames up
  completely and in order, wrapped or not, each to exactly the streams that take it, has counted them,
  and has caught up with the chip.
\<close>

theorem receive_ring:
  assumes "bi < length (boards s)" "cooked bi s" "willing E"
    and "ring_mem E (board_base (info bi s)) mem" "curr_is E (nic_base (info bi s)) c" "8 \<le> c" "c < 0x40"
    and "8 \<le> next_pkt (info bi s)" "next_pkt (info bi s) < 0x40" "rx_start_page (info bi s) = 8"
    and "length (rxbuff s) = MAX_BUFFER_LENGTH"
    and "ring_chain mem (next_pkt (info bi s)) fs c" "length fs \<le> 255"
  shows "\<exists>t. receive_interrupt E bi s = Some t \<and> next_pkt (info bi t) = c \<and>
    passed (tr t) = passed (tr s) @ concat (map (deliveries E bi s) (map snd fs)) \<and>
    packets_received (status bi t) = packets_received (status bi s) + of_nat (length fs)"
  by (rule receive_interrupt_ring) (use assms in \<open>simp_all add: rx_ready_def\<close>)

text \<open>
  C23. Containment: whatever the chip and the packet memory answer, a receive interrupt reads packet memory only
  inside the board's 16 KB window, writes none of it, leaves streams, queue pointers and the rest of the board data
  alone, and its read position stays a page of the ring. It returns, or all of this holds of the state \<open>u\<close> in which the loop has come to the
  delivery of a trailer frame whose trailer is not in the receive buffer, and that delivery reads outside the buffer.
\<close>

theorem receive_contained:
  assumes "bi < length (boards s)"
    and "8 \<le> next_pkt (info bi s)" "next_pkt (info bi s) < 0x40" "rx_start_page (info bi s) = 8"
    and "length (rxbuff s) = MAX_BUFFER_LENGTH"
  shows "\<exists>u. core u = core s \<and> 8 \<le> next_pkt (info bi u) \<and> next_pkt (info bi u) < 0x40 \<and>
    (\<exists>es. tr u = es @ tr s \<and> list_all (rx_ev (board_base (info bi s))) es) \<and>
    (receive_interrupt E bi s = Some u \<or>
     receive_interrupt E bi s = None \<and>
     (\<exists>n. fetches E bi (NIC_DELAY (hydra_outb (nic_base (info bi s)) NE_CR (NE_CR_P0 OR NE_CR_STA OR NE_CR_RDMA_ABORT) s)) n u \<and>
        toss_packet_up_stream E (rxbuff u) bi n u = None \<and> trailer_outside (rxbuff u)))"
proof -
  let ?base = "board_base (info bi s)"
  let ?v = "NIC_DELAY (hydra_outb (nic_base (info bi s)) NE_CR (NE_CR_P0 OR NE_CR_STA OR NE_CR_RDMA_ABORT) s)"
  have f: "rx_fit bi s" using assms by (simp add: rx_fit_def ring_page_def)
  have v: "rx_step ?base bi s ?v" by auto
  have iv: "board_base (info bi ?v) = ?base" by (simp add: outb_defs lens)
  have all: "core u = core s \<and> 8 \<le> next_pkt (info bi u) \<and> next_pkt (info bi u) < 0x40 \<and>
      (\<exists>es. tr u = es @ tr s \<and> list_all (rx_ev ?base) es)" if "rx_step ?base bi s u" for u
    using that rx_fit_step [OF that f] by (simp add: rx_step_def rx_fit_def ring_page_def)
  show ?thesis
  proof (cases "receive_interrupt E bi s")
    case None
    then have "receive_loop E bi 256 ?v = None" by (simp add: receive_interrupt_def)
    from receive_loop_fault [OF this rx_fit_step [OF v f] iv [symmetric]] obtain n u
      where u: "fetches E bi ?v n u" "rx_step ?base bi ?v u" "toss_packet_up_stream E (rxbuff u) bi n u = None"
        "trailer_outside (rxbuff u)" by blast
    show ?thesis
      by (intro exI [of _ u] conjI disjI2 exI [of _ n]) (use None u all [OF rx_step_trans [OF v u(2)]] in simp_all)
  next
    case (Some t)
    then show ?thesis using all [OF receive_interrupt_step [OF Some f]] by blast
  qed
qed

text \<open>
  Resynchronisation: when the header at the read position names a next page outside the ring, no
  frame is passed up; the driver counts the error in four counters, restarts its read position and the
  chip's boundary at page 8 and leaves the interrupt. (All other paths leave the boundary one page behind
  the read position; this one sets both to the same page.)
\<close>

theorem receive_resync:
  assumes "bi < length (boards s)" "ring_mem E (board_base (info bi s)) mem"
    and "curr_is E (nic_base (info bi s)) c" "0 \<le> c" "c < 0x100"
    and "8 \<le> next_pkt (info bi s)" "next_pkt (info bi s) < 0x40" "next_pkt (info bi s) \<noteq> c"
    and bad: "mem (nat (next_pkt (info bi s)) * 256) < 8 \<or> 0x40 \<le> mem (nat (next_pkt (info bi s)) * 256)"
  shows "\<exists>t. receive_interrupt E bi s = Some t \<and> next_pkt (info bi t) = 8 \<and>
    nic_reg (nic_base (info bi s)) 0 NE_BNRY (tr t) = Some 8 \<and>
    passed (tr t) = passed (tr s) \<and> packets_received (status bi t) = packets_received (status bi s) \<and>
    rx_bad_next (status bi t) = rx_bad_next (status bi s) + 1"
proof -
  let ?nic = "nic_base (info bi s)" and ?p = "next_pkt (info bi s)"
  define u where "u = NIC_DELAY (hydra_outb ?nic NE_CR (NE_CR_P0 OR NE_CR_STA OR NE_CR_RDMA_ABORT) s)"
  have u: "core u = core s" "info bi u = info bi s" "passed (tr u) = passed (tr s)" "status bi u = status bi s"
    by (simp_all add: u_def outb_defs lens)
  obtain s1 where s1: "rx_pointers E bi u = (c, s1)" "rx_same u s1" "page_of ?nic (tr s1) = 0"
    using rx_pointers_curr [of E bi u c] assms(3-5) u(2) by auto
  have i1: "info bi s1 = info bi s" using s1(2) u(2) by (simp add: rx_same_def)
  obtain rsr size s2 where s2: "rx_header E bi s1 = ((int (unat (mem (nat ?p * 256))), rsr, size), s2)"
    "rx_same s1 s2" "page_of ?nic (tr s2) = page_of ?nic (tr s1)"
    using rx_header_mem [of E bi s1 mem ?p ?nic] assms(2,6,7) i1 by auto
  have st: "rx_bad_next (status bi s2) = rx_bad_next (status bi s)"
    using s1(1) s2(1) u(4) by (auto simp: rx_pointers_def rx_header_def Let_def split_def status_part
        outb_defs hydra_inb_def in8_def lens io_only_hst(10) [OF hw_only_io [OF hw_only_ram_read(2) [OF hw_only_refl]]])
  have "int (unat (mem (nat ?p * 256))) < 8 \<or> int (unat (mem (nat ?p * 256))) \<ge> 0x40"
    using bad by (simp add: word_less_def word_le_def)
  moreover have l: "bi < length (boards s2)"
    using s1(2) s2(2) assms(1) u(1) coreD(1) [of s2 s] by (simp add: rx_same_def)
  moreover have "next_pkt (info bi s1) \<noteq> c" using i1 assms(8) by simp
  ultimately have "\<exists>t. rx_iteration E bi u = Some (False, t) \<and> next_pkt (info bi t) = 8 \<and>
      nic_reg ?nic 0 NE_BNRY (tr t) = Some 8 \<and> passed (tr t) = passed (tr s2) \<and>
      packets_received (status bi t) = packets_received (status bi s2) \<and>
      rx_bad_next (status bi t) = rx_bad_next (status bi s2) + 1"
    using s1(1,3) s2(1,3) u(2)
    by (simp add: rx_iteration_def rx_fetch_def set_next_def ierror_def info_on_info status_on_status outb_defs lens)
  moreover have "receive_loop E bi 256 u = (case rx_iteration E bi u of None \<Rightarrow> None
      | Some (False, s) \<Rightarrow> Some s | Some (True, s) \<Rightarrow> receive_loop E bi 255 s)"
    using receive_loop.simps(2) [of E bi 255 u] by simp
  moreover have "receive_interrupt E bi s = receive_loop E bi 256 u"
    by (simp add: receive_interrupt_def u_def)
  ultimately show ?thesis using s1(2) s2(2) u(3,4) st by (auto simp: rx_same_def)
qed

section \<open>Witnesses\<close>

text \<open>A 300-byte IP broadcast at page 63: it wraps to page 8, and the next frame would be at page 9.\<close>

definition big_frame :: "byte list" where
  "big_frame = replicate 6 0xFF @ [3, 3, 3, 3, 3, 3] @ [8, 0] @ replicate 286 7"

definition wrap_mem :: "nat \<Rightarrow> byte" where
  "wrap_mem a =
    (if a = 0x3f00 then 9 else if a = 0x3f01 then 1 else if a = 0x3f02 then 0x30 else if a = 0x3f03 then 1
     else if 0x3f04 \<le> a then big_frame ! (a - 0x3f04) else if 0x800 \<le> a then big_frame ! (a - 0x800 + 252)
     else 0)"

definition chip_env :: "(nat \<Rightarrow> byte) \<Rightarrow> byte \<Rightarrow> henv" where
  "chip_env mem c = queue_env\<lparr>
     e_in8 := \<lambda>h a. if page_of 0xE9FFE1 h = 0x40 then c else 0,
     e_in32 := \<lambda>h a. let i = unat (a - 0xE90000) in be32 (mem i) (mem (i + 1)) (mem (i + 2)) (mem (i + 3))\<rparr>"

definition wrap_hst :: hst where
  "wrap_hst = set_next 0 0x3f up_hst"

lemma chip_env_mem: "ring_mem (chip_env mem c) 0xE90000 mem"
proof -
  have "unat (of_nat (4 * i) :: u32) = 4 * i" if "i < 0x1000" for i
    using that by (intro unat_of_nat32) simp
  then show ?thesis by (auto simp: ring_mem_def chip_env_def Let_def)
qed

lemma wrap_hst_simps [simp]:
  "info 0 wrap_hst = up_info\<lparr>next_pkt := 0x3f\<rparr>" "core wrap_hst = core up_hst" "tr wrap_hst = []"
  "length (boards wrap_hst) = 4" "status 0 wrap_hst = status 0 up_hst" "rxbuff wrap_hst = replicate MAX_BUFFER_LENGTH 0"
  by (simp_all add: wrap_hst_def set_next_def info_on_info lens) (simp add: up_hst_def)

lemma wrap_ready: "rx_ready (chip_env wrap_mem 9) 0 wrap_mem 9 wrap_hst"
proof -
  have "cooked 0 wrap_hst" using up_cooked by (simp add: cooked_def wrap_hst_def set_next_def lens)
  moreover have "willing (chip_env wrap_mem 9)" by (simp add: willing_def chip_env_def queue_env_def ram_env_def)
  moreover have "curr_is (chip_env wrap_mem 9) 0xE9FFE1 9" by (simp add: curr_is_def chip_env_def)
  ultimately show ?thesis using chip_env_mem [of wrap_mem 9] by (simp add: rx_ready_def)
qed

lemma wrap_chain: "ring_chain wrap_mem 0x3f [(9, big_frame)] 9"
proof -
  have len: "length big_frame = 300" by (simp add: big_frame_def)
  have "wrap_mem (ring_at 0x3f k) = big_frame ! k" if "k < 300" for k
    using that by (simp add: wrap_mem_def ring_at_def Let_def)
  moreover have "frame_type big_frame = 0x800" by (simp add: frame_type_def big_frame_def be16_def nth_append)
  then have "good_frame big_frame" by (simp add: good_frame_def len is_trailer_def)
  ultimately show ?thesis by (simp add: len) (simp add: wrap_mem_def be16_def)
qed

lemma wrap_deliveries:
  "deliveries (chip_env wrap_mem 9) 0 wrap_hst big_frame =
    [(RQ 0, unitdata_ind (chip_env wrap_mem 9) big_frame (replicate 286 7))]"
proof -
  have "frame_type big_frame = ETHERTYPE_IP" by (simp add: frame_type_def big_frame_def be16_def nth_append)
  moreover have "for_us 0 big_frame wrap_hst" by (simp add: for_us_def big_frame_def broadcast_address_def)
  moreover have "recipients 0 ETHERTYPE_IP wrap_hst [0..<HYDRA_MAXDEV] = [RQ 0]"
    using up_recipients by (simp add: recipients_def wrap_hst_def set_next_def lens del: upt_Suc)
  ultimately show ?thesis by (simp add: deliveries_def big_frame_def del: upt_Suc)
qed

theorem receive_ring_witness:
  "\<exists>t. receive_interrupt (chip_env wrap_mem 9) 0 wrap_hst = Some t \<and> next_pkt (info 0 t) = 9 \<and>
    passed (tr t) = [(RQ 0, unitdata_ind (chip_env wrap_mem 9) big_frame (replicate 286 7))]"
  using receive_ring [of 0 wrap_hst "chip_env wrap_mem 9" wrap_mem 9 "[(9, big_frame)]"] wrap_ready wrap_chain
    wrap_deliveries by (auto simp: rx_ready_def)

theorem receive_contained_witness:
  "\<exists>u. core u = core wrap_hst \<and> next_pkt (info 0 u) < 0x40 \<and> receive_interrupt (chip_env wrap_mem 9) 0 wrap_hst = Some u"
proof -
  obtain t where t: "receive_interrupt (chip_env wrap_mem 9) 0 wrap_hst = Some t"
    using receive_interrupt_ring [OF wrap_ready, of "[(9, big_frame)]"] wrap_chain by auto
  show ?thesis using receive_contained [of 0 wrap_hst "chip_env wrap_mem 9"] t by auto
qed

theorem receive_resync_witness:
  "\<exists>t. receive_interrupt (chip_env (\<lambda>_. 0xFF) 20) 0 wrap_hst = Some t \<and> next_pkt (info 0 t) = 8"
proof -
  have "curr_is (chip_env (\<lambda>_. 0xFF) 20) 0xE9FFE1 20" by (simp add: curr_is_def chip_env_def)
  then show ?thesis
    using receive_resync [of 0 wrap_hst "chip_env (\<lambda>_. 0xFF) 20" "\<lambda>_. 0xFF" 20] chip_env_mem [of "\<lambda>_. 0xFF" 20]
    by auto
qed

end
