(* ===== verification/Hydra_Proto.thy ===== *)
theory Hydra_Proto
  imports Hydra_Tx Hydra_Slots
begin

text \<open>
  The DLPI requests: \<open>hydraproto\<close> of \<open>hydra.c\<close>, and its refinement of an abstract provider that
  knows only the service state and the SAP of a stream.

  A message whose first block is not a DLPI request is read as one by the code; here it has no result.
\<close>

section \<open>The requests\<close>

text \<open>\<open>freemsg(mp)\<close>, then the reply if \<open>allocb\<close> finds memory, after \<open>upd\<close>.\<close>

definition dl_ack :: "henv \<Rightarrow> queue \<Rightarrow> hblob msg \<Rightarrow> nat \<Rightarrow> (hst \<Rightarrow> hst) \<Rightarrow> (hst \<Rightarrow> dl_reply) \<Rightarrow> hst \<Rightarrow> hst" where
  "dl_ack E q mp n upd reply s =
    (let s = call (Freemsg mp) s;
         (ok, s) = allocb E n s
     in if \<not> ok then s
        else
          let s = upd s
          in call (Qreply q (Msg M_PCPROTO (Reply (reply s)) [])) s)"

definition info_reply :: "henv \<Rightarrow> dl_state \<Rightarrow> byte list \<Rightarrow> dl_reply" where
  "info_reply E st paddr =
    DL_INFO_ACK
      \<lparr>ia_max_sdu = ETH_MAXDATA, ia_min_sdu = 1, ia_addr_length = ETH_ADDRESS_SIZE, ia_mac_type = DL_ETHER,
       ia_reserved = 0, ia_current_state = Some st, ia_max_idu = ETH_MAXDATA,
       ia_service_mode = DL_CLDLS, ia_qos_length = 0, ia_qos_offset = 0, ia_qos_range_length = 0,
       ia_qos_range_offset = 0, ia_provider_style = DL_STYLE1, ia_growth = 0,
       ia_addr_offset = (if st = DL_IDLE then e_sizeof E ''dl_info_ack_t'' else 0)\<rparr>
      (if st = DL_IDLE then paddr else [])"

definition bind_reply :: "henv \<Rightarrow> u16 \<Rightarrow> byte list \<Rightarrow> dl_reply" where
  "bind_reply E sap paddr =
    DL_BIND_ACK
      \<lparr>ba_sap = ucast sap, ba_addr_length = ETH_ADDRESS_SIZE, ba_addr_offset = e_sizeof E ''dl_bind_ack_t'',
       ba_max_conind = 0, ba_growth = 0\<rparr> paddr"

definition hydraproto :: "henv \<Rightarrow> queue \<Rightarrow> hblob msg \<Rightarrow> hst \<Rightarrow> hst option" where
  "hydraproto E q mp s =
    (case (q_ptr s q, body mp) of
       (Some (hb, si), Req p) \<Rightarrow>
         let hp = stream hb si s; bi = h_board_index hp; paddr = paddress (info bi s)
         in (case p of
              DL_UNITDATA_REQ off bs \<Rightarrow>
                if e_q_first E (tr s) q then Some (call (Putq q mp) s)
                else
                  (case hydraxmit E q mp s of
                     None \<Rightarrow> None
                   | Some (sent, s) \<Rightarrow> Some (if sent then s else call (Putq q mp) s))
            | DL_ATTACH_REQ \<Rightarrow>
                Some (dl_ack E q mp (e_sizeof E ''dl_ok_ack_t'')
                  (on_stream hb si (\<lambda>hp. hp\<lparr>h_state := DL_UNBOUND\<rparr>)) (\<lambda>_. DL_OK_ACK DL_ATTACH_REQ) s)
            | DL_BIND_REQ sap \<Rightarrow>
                let s = on_stream hb si (\<lambda>hp. hp\<lparr>h_sap := ucast sap\<rparr>) s;
                    s = on_status bi (\<lambda>t. t\<lparr>last_bound_sap := ucast (ucast sap :: u16)\<rparr>) s;
                    s = on_stream hb si (\<lambda>hp. hp\<lparr>h_state := DL_IDLE\<rparr>) s
                in Some (dl_ack E q mp (e_sizeof E ''dl_bind_ack_t'' + ETH_ADDRESS_SIZE) id
                     (\<lambda>s. bind_reply E (h_sap (stream hb si s)) paddr) s)
            | DL_INFO_REQ \<Rightarrow>
                Some (dl_ack E q mp (e_sizeof E ''dl_info_ack_t'' + ETH_ADDRESS_SIZE) id
                  (\<lambda>s. info_reply E (h_state (stream hb si s)) paddr) s)
            | DL_UNBIND_REQ \<Rightarrow>
                Some (dl_ack E q mp (e_sizeof E ''dl_ok_ack_t'')
                  (on_stream hb si (\<lambda>hp. hp\<lparr>h_state := DL_UNBOUND, h_sap := 0\<rparr>)) (\<lambda>_. DL_OK_ACK DL_UNBIND_REQ) s)
            | DL_DETACH_REQ \<Rightarrow>
                Some (dl_ack E q mp (e_sizeof E ''dl_ok_ack_t'')
                  (on_stream hb si (\<lambda>hp. hp\<lparr>h_state := DL_UNATTACHED\<rparr>)) (\<lambda>_. DL_OK_ACK DL_DETACH_REQ) s)
            | DL_OTHER_REQ n \<Rightarrow> Some (call (Freemsg mp) s))
     | _ \<Rightarrow> None)"

section \<open>What a request may change\<close>

lemma hydraxmit_quiet:
  assumes "hydraxmit E q mp s = Some (r, t)"
  shows "quiet s t" "info bi t = info bi s"
  using hydraxmit_step [OF assms] by (auto simp: tx_step_def intro!: quiet_core)

lemma dl_ack_quiet:
  assumes "\<And>u. quiet s u \<Longrightarrow> quiet s (upd u)" "quiet s t"
  shows "quiet s (dl_ack E q mp n upd reply t)"
  using assms(2) by (auto simp: dl_ack_def allocb_def Let_def intro!: assms(1))

lemma dl_ack_info:
  "(\<And>u. info bi (upd u) = info bi u) \<Longrightarrow> info bi (dl_ack E q mp n upd reply s) = info bi s"
  by (auto simp: dl_ack_def allocb_def Let_def lens)

lemma hydraproto_quiet:
  assumes "hydraproto E q mp s = Some t"
  shows "quiet s t" "info bi t = info bi s"
  using assms
  by (auto simp: hydraproto_def Let_def lens slot_of_def dl_ack_info dest: hydraxmit_quiet
      intro!: dl_ack_quiet split: option.splits content.splits dl_request.splits if_splits prod.splits)

section \<open>Refinement of an abstract provider\<close>

text \<open>
  The abstract provider: the service state and the SAP of a stream, what a control request makes of
  them, and its answer. There is no check of the state a request arrives in: a bind is accepted in any
  state, attached or not. The answers are written out with the values of the protocol: an Ethernet with
  1500 bytes of data, addresses of 6 bytes that follow the header of the answer, connectionless service.
\<close>

definition service :: "nat \<Rightarrow> nat \<Rightarrow> hst \<Rightarrow> dl_state \<times> u16" where
  "service hb si s = (h_state (stream hb si s), h_sap (stream hb si s))"

fun dlpi_spec :: "dl_request \<Rightarrow> dl_state \<times> u16 \<Rightarrow> dl_state \<times> u16" where
  "dlpi_spec DL_ATTACH_REQ (st, sap) = (DL_UNBOUND, sap)"
| "dlpi_spec (DL_BIND_REQ n) (st, sap) = (DL_IDLE, ucast n)"
| "dlpi_spec DL_UNBIND_REQ (st, sap) = (DL_UNBOUND, 0)"
| "dlpi_spec DL_DETACH_REQ (st, sap) = (DL_UNATTACHED, sap)"
| "dlpi_spec p x = x"

fun dlpi_answer :: "henv \<Rightarrow> byte list \<Rightarrow> dl_request \<Rightarrow> dl_state \<times> u16 \<Rightarrow> dl_reply list" where
  "dlpi_answer E paddr (DL_BIND_REQ n) (st, sap) =
    [DL_BIND_ACK \<lparr>ba_sap = ucast (ucast n :: u16), ba_addr_length = 6, ba_addr_offset = e_sizeof E ''dl_bind_ack_t'',
       ba_max_conind = 0, ba_growth = 0\<rparr> paddr]"
| "dlpi_answer E paddr DL_INFO_REQ (st, sap) =
    [DL_INFO_ACK
      \<lparr>ia_max_sdu = 1500, ia_min_sdu = 1, ia_addr_length = 6, ia_mac_type = DL_ETHER, ia_reserved = 0,
       ia_current_state = Some st, ia_max_idu = 1500, ia_service_mode = DL_CLDLS, ia_qos_length = 0,
       ia_qos_offset = 0, ia_qos_range_length = 0, ia_qos_range_offset = 0, ia_provider_style = DL_STYLE1,
       ia_growth = 0, ia_addr_offset = (case st of DL_IDLE \<Rightarrow> e_sizeof E ''dl_info_ack_t'' | _ \<Rightarrow> 0)\<rparr>
      (case st of DL_IDLE \<Rightarrow> paddr | _ \<Rightarrow> [])]"
| "dlpi_answer E paddr DL_ATTACH_REQ x = [DL_OK_ACK DL_ATTACH_REQ]"
| "dlpi_answer E paddr DL_UNBIND_REQ x = [DL_OK_ACK DL_UNBIND_REQ]"
| "dlpi_answer E paddr DL_DETACH_REQ x = [DL_OK_ACK DL_DETACH_REQ]"
| "dlpi_answer E paddr p x = []"

text \<open>
  The memory an answer needs. When there is none no answer is sent, and nothing else happens either but for a
  bind, which has then taken effect unacknowledged.
\<close>

fun answer_size :: "henv \<Rightarrow> dl_request \<Rightarrow> nat option" where
  "answer_size E (DL_BIND_REQ n) = Some (e_sizeof E ''dl_bind_ack_t'' + 6)"
| "answer_size E DL_INFO_REQ = Some (e_sizeof E ''dl_info_ack_t'' + 6)"
| "answer_size E DL_ATTACH_REQ = Some (e_sizeof E ''dl_ok_ack_t'')"
| "answer_size E DL_UNBIND_REQ = Some (e_sizeof E ''dl_ok_ack_t'')"
| "answer_size E DL_DETACH_REQ = Some (e_sizeof E ''dl_ok_ack_t'')"
| "answer_size E p = None"

fun without_memory :: "dl_request \<Rightarrow> dl_state \<times> u16 \<Rightarrow> dl_state \<times> u16" where
  "without_memory (DL_BIND_REQ n) x = dlpi_spec (DL_BIND_REQ n) x"
| "without_memory p x = x"

fun control :: "dl_request \<Rightarrow> bool" where
  "control (DL_UNITDATA_REQ off bs) = False"
| "control p = True"

definition control_msg :: "hblob msg \<Rightarrow> bool" where
  "control_msg mp \<longleftrightarrow> (case body mp of Req p \<Rightarrow> control p | _ \<Rightarrow> False)"

definition request_of :: "hblob msg \<Rightarrow> dl_request" where
  "request_of mp = (case body mp of Req p \<Rightarrow> p | _ \<Rightarrow> DL_OTHER_REQ 0)"

text \<open>
  For whole sessions the abstract provider also has what the allocator answered, the messages sent and the requests
  disposed of so far; \<open>ok\<close> says whether the next answer finds memory.
\<close>

fun allocated :: "hblob ev list \<Rightarrow> bool list" where
  "allocated [] = []"
| "allocated (Allocb n ok # h) = allocated h @ [ok]"
| "allocated (e # h) = allocated h"

record provider =
  p_service :: "dl_state \<times> u16"
  p_memory :: "bool list"
  p_sent :: "(queue \<times> hblob msg) list"
  p_done :: "hblob msg list"

definition provider :: "nat \<Rightarrow> nat \<Rightarrow> hst \<Rightarrow> provider" where
  "provider hb si s = \<lparr>p_service = service hb si s, p_memory = allocated (tr s), p_sent = passed (tr s), p_done = freed (tr s)\<rparr>"

definition serve :: "henv \<Rightarrow> queue \<Rightarrow> byte list \<Rightarrow> bool \<Rightarrow> hblob msg \<Rightarrow> provider \<Rightarrow> provider" where
  "serve E q paddr ok mp a =
    (let p = request_of mp in
     \<lparr>p_service = (if ok then dlpi_spec p else without_memory p) (p_service a),
      p_memory = p_memory a @ (if answer_size E p = None then [] else [ok]),
      p_sent = p_sent a @ (if ok then map (\<lambda>r. (OTHERQ q, Msg M_PCPROTO (Reply r) [])) (dlpi_answer E paddr p (p_service a)) else []),
      p_done = p_done a @ [mp]\<rparr>)"

definition proto_good :: "queue \<Rightarrow> nat \<Rightarrow> nat \<Rightarrow> byte list \<Rightarrow> hst \<Rightarrow> bool" where
  "proto_good q hb si paddr s \<longleftrightarrow> q_ptr s q = Some (hb, si) \<and> hb < length (boards s) \<and>
     si < length (b_hydra (board hb s)) \<and> h_board_index (stream hb si s) = hb \<and> paddress (info hb s) = paddr"

lemma proto_good_quiet:
  assumes "proto_good q hb si paddr s" "quiet s t" "info hb t = info hb s"
  shows "proto_good q hb si paddr t"
  using assms slotsD [of t s] by (auto simp: proto_good_def quiet_def slot_of_def)

lemma hydraproto_control:
  assumes "proto_good q hb si paddr s" "body mp = Req p" "control p"
    and "ok = (case answer_size E p of None \<Rightarrow> True | Some n \<Rightarrow> e_allocb E (Freemsg mp # tr s) n)"
  shows "\<exists>t. hydraproto E q mp s = Some t \<and> proto_good q hb si paddr t \<and>
    provider hb si t = serve E q paddr ok mp (provider hb si s)"
proof -
  note g = assms(1) [unfolded proto_good_def]
  obtain t where t: "hydraproto E q mp s = Some t"
    using assms(2,3) g by (cases p) (simp_all add: hydraproto_def)
  have "provider hb si t = serve E q paddr ok mp (provider hb si s)"
    using t g assms(2-4)
    by (cases p) (auto simp: hydraproto_def Let_def dl_ack_def allocb_def lens provider_def serve_def service_def request_of_def
        stream_on_stream streams_lens bind_reply_def info_reply_def split: dl_state.splits)
  then show ?thesis using t proto_good_quiet [OF assms(1) hydraproto_quiet [OF t]] by blast
qed

interpretation dlpi: simulation "proto_good q hb si paddr" control_msg "provider hb si" "hydraproto E q" "serve E q paddr"
  for E q hb si paddr
proof
  fix s r assume "proto_good q hb si paddr s" "control_msg r"
  moreover from this(2) obtain p where "body r = Req p" "control p"
    by (auto simp: control_msg_def split: content.splits)
  ultimately show "\<exists>t ok. hydraproto E q r s = Some t \<and> proto_good q hb si paddr t \<and>
      provider hb si t = serve E q paddr ok r (provider hb si s)"
    using hydraproto_control [OF _ _ _ refl] by blast
qed

section \<open>Properties\<close>

text \<open>
  C21. DLPI control requests, whether memory is found or not: each attach, bind, info, unbind, detach or unknown
  request on a stream is freed. If memory for its answer is found, the stream's service state and SAP
  change as the provider says and exactly its answer goes up, every field with the value the protocol gives it.
  If not, nothing goes up and nothing changes, except that a bind has taken effect.
\<close>

theorem proto_control:
  assumes "q_ptr s q = Some (hb, si)" "hb < length (boards s)"
    and "si < length (b_hydra (board hb s))" "h_board_index (stream hb si s) = hb"
    and "body mp = Req p" "control p"
  shows "\<exists>t. hydraproto E q mp s = Some t \<and> freed (tr t) = freed (tr s) @ [mp] \<and>
    (let ok = (case answer_size E p of None \<Rightarrow> True | Some n \<Rightarrow> e_allocb E (Freemsg mp # tr s) n) in
     service hb si t = (if ok then dlpi_spec p else without_memory p) (service hb si s) \<and>
     passed (tr t) = passed (tr s) @ (if ok then map (\<lambda>r. (OTHERQ q, Msg M_PCPROTO (Reply r) []))
       (dlpi_answer E (paddress (info hb s)) p (service hb si s)) else []))"
proof -
  let ?ok = "case answer_size E p of None \<Rightarrow> True | Some n \<Rightarrow> e_allocb E (Freemsg mp # tr s) n"
  have "proto_good q hb si (paddress (info hb s)) s" using assms by (simp add: proto_good_def)
  then obtain t where t: "hydraproto E q mp s = Some t"
    "provider hb si t = serve E q (paddress (info hb s)) ?ok mp (provider hb si s)"
    using hydraproto_control [OF _ assms(5,6) refl] by blast
  show ?thesis
    by (rule exI [of _ t]) (use t assms(5) in \<open>simp add: provider_def serve_def Let_def request_of_def\<close>)
qed

text \<open>
  C19. Refinement of whole sessions, with any behaviour of the allocator: a sequence of control requests runs without a
  fault, and the stream's state and SAP, the answers sent and the requests freed are those the abstract provider
  computes from the sequence and from the allocator's answers, one for each request that has an answer.
\<close>

theorem proto_session:
  assumes "q_ptr s q = Some (hb, si)" "hb < length (boards s)"
    and "si < length (b_hydra (board hb s))" "h_board_index (stream hb si s) = hb"
    and "list_all control_msg ms"
  shows "\<exists>t oks. run (hydraproto E q) ms s = Some t \<and> length oks = length ms \<and>
    provider hb si t = fold (\<lambda>(ok, mp). serve E q (paddress (info hb s)) ok mp) (zip oks ms) (provider hb si s)"
proof -
  have "proto_good q hb si (paddress (info hb s)) s" using assms by (simp add: proto_good_def)
  from dlpi.run_simulates [OF this assms(5), of E] show ?thesis by blast
qed

text \<open>
  No request is lost: whatever the allocator, the queue and the chip answer, \<open>hydraproto\<close> disposes
  of the message exactly once. Either it is freed and no queue changes, or it is kept, unanswered, at the
  end of its own write queue, which happens to data requests only.
\<close>

theorem proto_disposes:
  assumes "hydraproto E q mp s = Some t"
  shows "\<exists>es. tr t = es @ tr s \<and>
    (freed es = [mp] \<and> (\<forall>q'. queued q' (tr t) = queued q' (tr s)) \<or>
     freed es = [] \<and> passed es = [] \<and> \<not> control_msg mp \<and>
       (\<forall>q'. queued q' (tr t) = (if q' = q then queued q' (tr s) @ [mp] else queued q' (tr s))))"
proof -
  obtain hb si p where q: "q_ptr s q = Some (hb, si)" "body mp = Req p"
    using assms by (auto simp: hydraproto_def split: option.splits content.splits)
  show ?thesis
  proof (cases "control p")
    case True
    then have "\<exists>es. tr t = es @ tr s \<and> freed es = [mp] \<and> (\<forall>q'. queued q' (tr t) = queued q' (tr s))"
      using assms q by (cases p) (auto simp: hydraproto_def Let_def dl_ack_def allocb_def lens split: if_splits)
    then show ?thesis by blast
  next
    case False
    then have nc: "\<not> control_msg mp" using q by (simp add: control_msg_def)
    obtain off bs where p: "p = DL_UNITDATA_REQ off bs" using False by (cases p) simp_all
    show ?thesis
    proof (cases "e_q_first E (tr s) q")
      case True
      then have "t = call (Putq q mp) s" using assms q p by (simp add: hydraproto_def)
      then show ?thesis using nc by (intro exI [of _ "[Putq q mp]"]) (auto simp: lens)
    next
      case False
      then obtain r u where u: "hydraxmit E q mp s = Some (r, u)" "t = (if r then u else call (Putq q mp) u)"
        using assms q p by (auto simp: hydraproto_def split: option.splits)
      from hydraxmit_step [OF u(1)] obtain es where es: "tr u = es @ tr s" "freed es = (if r then [mp] else [])"
        "passed es = []" "\<And>q h. queued q (es @ h) = queued q h" by (auto simp: tx_step_def)
      show ?thesis
      proof (cases r)
        case True
        then show ?thesis using u es by auto
      next
        case False
        then show ?thesis using u es nc by (intro exI [of _ "Putq q mp # es"]) (auto simp: lens)
      qed
    qed
  qed
qed

section \<open>Witnesses\<close>

definition control_req :: "dl_request \<Rightarrow> hblob msg" where
  "control_req p = Msg M_PROTO (Req p) []"

lemma up_slots [simp]: "length (b_hydra up_board) = 5"
  by (simp add: up_board_def)

theorem proto_control_witness:
  "\<exists>t. hydraproto queue_env (WQ 0) (control_req (DL_BIND_REQ 0x806)) up_hst = Some t \<and>
    service 0 0 t = (DL_IDLE, ETHERTYPE_ARP) \<and>
    passed (tr t) = [(RQ 0, Msg M_PCPROTO (Reply (bind_reply queue_env ETHERTYPE_ARP [2, 4, 6, 8, 10, 12])) [])]"
  using proto_control [of up_hst "WQ 0" 0 0 "control_req (DL_BIND_REQ 0x806)" "DL_BIND_REQ 0x806" queue_env]
  by (auto simp: control_req_def up_stream_def queue_env_def ram_env_def service_def bind_reply_def)

definition no_memory :: henv where
  "no_memory = queue_env\<lparr>e_allocb := \<lambda>_ _. False\<rparr>"

theorem proto_session_witness:
  "\<exists>t oks. run (hydraproto no_memory (WQ 0))
      [control_req DL_DETACH_REQ, control_req (DL_BIND_REQ 0x806)] up_hst = Some t \<and> length oks = 2 \<and>
    provider 0 0 t = fold (\<lambda>(ok, mp). serve no_memory (WQ 0) [2, 4, 6, 8, 10, 12] ok mp)
      (zip oks [control_req DL_DETACH_REQ, control_req (DL_BIND_REQ 0x806)]) (provider 0 0 up_hst)"
  using proto_session [of up_hst "WQ 0" 0 0 "[control_req DL_DETACH_REQ, control_req (DL_BIND_REQ 0x806)]" no_memory]
  by (auto simp: control_req_def control_msg_def up_stream_def numeral_2_eq_2 simp del: run.simps fold.simps)

theorem proto_disposes_witness:
  "\<exists>t. hydraproto busy_env (WQ 0) tiny_req (call (Putq (WQ 0) tiny_req) up_hst) = Some t \<and>
    (freed (tr t) = [tiny_req] \<or> queued (WQ 0) (tr t) = [tiny_req, tiny_req])"
proof -
  let ?s = "call (Putq (WQ 0) tiny_req) up_hst"
  have t: "hydraproto busy_env (WQ 0) tiny_req ?s = Some (call (Putq (WQ 0) tiny_req) ?s)"
    by (simp add: hydraproto_def lens tiny_req_def busy_env_def queue_env_def)
  from proto_disposes [OF t] show ?thesis unfolding t by (auto simp: lens)
qed

end
