(* ===== verification/Hydra_Ioctl.thy ===== *)
theory Hydra_Ioctl
  imports Hydra_Init Hydra_Slots
begin

text \<open>
  The ioctls: \<open>hydraioctl\<close> of \<open>hydra.c\<close>.

  An ioctl arrives as \<open>M_IOCTL\<close>; a transparent one needs its data copied, which the driver asks the
  stream head for with \<open>M_COPYIN\<close> and \<open>M_COPYOUT\<close> and which comes back as \<open>M_IOCDATA\<close>. The
  command numbers of \<open>hydrauser.h\<close> are written out; those of system headers are constants of the
  environment, different from them because C allows no two equal case labels in a \<open>switch\<close>.

  Reading a data block that is not there, or a block that does not hold the structure the code expects,
  has no result.
\<close>

section \<open>Command numbers (hydrauser.h)\<close>

abbreviation (input) HYDRAIOC :: u32 where "HYDRAIOC \<equiv> 0x4800"
abbreviation (input) HYDRA_GET_STATUS :: u32 where "HYDRA_GET_STATUS \<equiv> HYDRAIOC OR 2"
abbreviation (input) HYDRA_GET_CONFIG :: u32 where "HYDRA_GET_CONFIG \<equiv> HYDRAIOC OR 3"
abbreviation (input) HYDRA_NUMBER_OF_BOARDS :: u32 where "HYDRA_NUMBER_OF_BOARDS \<equiv> HYDRAIOC OR 5"
abbreviation (input) HYDRA_IOCTL_TEST :: u32 where "HYDRA_IOCTL_TEST \<equiv> HYDRAIOC OR 20"

section \<open>The diagnostic operations\<close>

definition test_in_range :: "hydra_test \<Rightarrow> bool" where
  "test_in_range t \<longleftrightarrow> t_len t \<ge> 0 \<and> t_len t \<le> 1024 \<and>
     s32 (s32 (t_page t * 256) + t_len t) < NE8390_STOP_PG * 256"

definition board_state_byte :: "hydra_board_state \<Rightarrow> byte" where
  "board_state_byte st = (case st of HYDRA_BOARD_RESET \<Rightarrow> 0 | HYDRA_BOARD_RUNNING \<Rightarrow> 1)"

definition test_op :: "henv \<Rightarrow> nat \<Rightarrow> hydra_test \<Rightarrow> hst \<Rightarrow> hydra_test \<times> hst" where
  "test_op E bi t s =
    (let nic = nic_base (info bi s)
     in if t_op t = 0 then
          (if unat (t_reg t) = NE_FIFO then (t\<lparr>t_val := 0\<rparr>, s)
           else let (v, s) = hydra_inb E nic (unat (t_reg t)) s in (t\<lparr>t_val := v\<rparr>, s))
        else if t_op t = 1 then (t, hydra_test_write_reg nic (int (unat (t_reg t))) (t_val t) s)
        else if t_op t = 2 then
          (if test_in_range t
           then let (d, s) = hydra_ram_read E bi (t_data t) (t_len t) (t_page t) s in (t\<lparr>t_data := d\<rparr>, s)
           else (t, s))
        else if t_op t = 3 then
          (if test_in_range t then (t, hydra_ram_write bi (t_data t) (t_len t) (t_page t) s) else (t, s))
        else if t_op t = 4 then
          (t\<lparr>t_tsr := 0, t_isr := 0, t_rsr := 0, t_ncr := 0, t_tcr := 0, t_rcr := 0, t_curr := 0, t_bnry := 0\<rparr>, s)
        else if t_op t = 5 then (t, s)
        else if t_op t = 6 then
          (t\<lparr>t_page := sint (board_base (info bi s)),
             t_data := (paddress (info bi s) @ drop 6 (t_data t))[6 := board_state_byte (board_state (status bi s))]\<rparr>, s)
        else (t, s))"

section \<open>Replies\<close>

definition nak :: "errno \<Rightarrow> ctlblk \<Rightarrow> hblob msg" where
  "nak e cb = Msg M_IOCNAK (Ctl (cb\<lparr>ioc_count := 0, ioc_rval := 0, ioc_error := Some e\<rparr>)) []"

definition ack0 :: "ctlblk \<Rightarrow> hblob msg" where
  "ack0 cb = Msg M_IOCACK (Ctl (cb\<lparr>ioc_count := 0, ioc_rval := 0, ioc_error := None\<rparr>)) []"

text \<open>The first four bytes of a data block, read as the user address of a transparent ioctl.\<close>

fun first_long :: "hblob content \<Rightarrow> u32 option" where
  "first_long (Arg a) = Some a"
| "first_long (Bytes (a # b # c # d # bs)) = Some (be32 a b c d)"
| "first_long (Drv (IntBlk v)) = Some v"
| "first_long (Drv (ConfigBlk c)) = Some (cfg_board_base c)"
| "first_long (Drv (StatusBlk t)) = Some (ucast (board_state_byte (board_state t)))"
| "first_long (Drv (TestBlk t)) = Some (of_int (t_op t))"
| "first_long _ = None"

text \<open>
  The common shape of the three queries: take the argument, free the data, allocate a block for the
  answer, and copy it out (transparent) or acknowledge it.
\<close>

definition answer_query ::
    "henv \<Rightarrow> queue \<Rightarrow> ctlblk \<Rightarrow> (mtype \<times> hblob content) list \<Rightarrow> nat \<Rightarrow> hblob \<Rightarrow> hst \<Rightarrow> hst option" where
  "answer_query E q cb cont n blk s =
    (case cont of
       [] \<Rightarrow> None
     | (ty, c) # _ \<Rightarrow>
         (case first_long c of
            None \<Rightarrow> None
          | Some arg \<Rightarrow>
              let s = free_cont cont s;
                  (ok, s) = allocb E n s
              in if \<not> ok then Some (call (Putnext (RD q) (nak ENOMEM cb)) s)
                 else if ioc_count cb = TRANSPARENT
                 then Some (call (Putnext (RD q) (Msg M_COPYOUT
                        (Ctl (cb\<lparr>cq_addr := arg, cq_size := n, cq_flag := 0, cq_private := 0\<rparr>)) [(M_DATA, Drv blk)])) s)
                 else Some (call (Putnext (RD q) (Msg M_IOCACK
                        (Ctl (cb\<lparr>ioc_count := of_nat n\<rparr>)) [(M_DATA, Drv blk)])) s)))"

definition config_of :: "nat \<Rightarrow> hst \<Rightarrow> hydra_config" where
  "config_of bi s = \<lparr>cfg_board_base = board_base (info bi s), cfg_board_debug = board_debug (status bi s),
     cfg_paddress = paddress (info bi s), cfg_laddress = replicate 8 0, cfg_mode = 0, cfg_flags = 0\<rparr>"

definition count_open :: "(hydra \<Rightarrow> bool) \<Rightarrow> nat \<Rightarrow> hst \<Rightarrow> u32" where
  "count_open p bi s =
    fold (\<lambda>i n. if h_q (stream bi i s) \<noteq> None \<and> p (stream bi i s) then n + 1 else n) [0..<HYDRA_MAXDEV] 0"

definition status_of :: "nat \<Rightarrow> hst \<Rightarrow> hydra_status" where
  "status_of bi s = (status bi s)\<lparr>
     open_streams := count_open (\<lambda>_. True) bi s,
     bound_streams := count_open (\<lambda>hp. h_sap hp \<noteq> 0) bi s,
     arp_streams := count_open (\<lambda>hp. h_sap hp = ETHERTYPE_ARP) bi s,
     ip_streams := count_open (\<lambda>hp. h_sap hp = ETHERTYPE_IP) bi s,
     if_active := ifs_active (b_ifstats (board bi s)),
     if_ipackets := ifs_ipackets (b_ifstats (board bi s)),
     if_opackets := ifs_opackets (b_ifstats (board bi s)),
     if_ierrors := ifs_ierrors (b_ifstats (board bi s)),
     if_oerrors := ifs_oerrors (b_ifstats (board bi s)),
     sw_next_pkt := of_int (next_pkt (info bi s))\<rparr>"

section \<open>The handler\<close>

definition hydraioctl_data :: "henv \<Rightarrow> queue \<Rightarrow> nat \<Rightarrow> hblob msg \<Rightarrow> ctlblk \<Rightarrow> hst \<Rightarrow> hst option" where
  "hydraioctl_data E q bi mp cb s =
    (if cp_rval cb \<noteq> 0 then Some (call (Freemsg mp) s)
     else if cp_private cb \<noteq> 0 then
       (case b_cont mp of
          (ty, Drv (TestBlk t)) # rest \<Rightarrow>
            let (t, s) = test_op E bi t s
            in Some (call (Putnext (RD q) (Msg M_COPYOUT
                 (Ctl (cb\<lparr>cq_addr := cp_private cb, cq_size := e_sizeof E ''hydra_test_t'', cq_flag := 0,
                    cq_private := 0\<rparr>)) ((ty, Drv (TestBlk t)) # rest))) s)
        | _ \<Rightarrow> None)
     else Some (call (Putnext (RD q) (ack0 cb)) (free_cont (b_cont mp) s)))"

definition hydraioctl_test :: "henv \<Rightarrow> queue \<Rightarrow> nat \<Rightarrow> hblob msg \<Rightarrow> ctlblk \<Rightarrow> hst \<Rightarrow> hst option" where
  "hydraioctl_test E q bi mp cb s =
    (if ioc_count cb = TRANSPARENT then
       (case b_cont mp of
          [] \<Rightarrow> None
        | (ty, c) # _ \<Rightarrow>
            (case first_long c of
               None \<Rightarrow> None
             | Some arg \<Rightarrow>
                 let s = free_cont (b_cont mp) s;
                     (ok, s) = allocb E (e_sizeof E ''hydra_test_t'') s
                 in if \<not> ok then Some (call (Putnext (RD q) (nak ENOMEM cb)) s)
                    else Some (call (Putnext (RD q) (Msg M_COPYIN
                           (Ctl (cb\<lparr>cq_addr := arg, cq_size := e_sizeof E ''hydra_test_t'', cq_flag := 0,
                              cq_private := arg\<rparr>)) [(M_DATA, Bytes [])])) s)))
     else
       (case b_cont mp of
          (ty, Drv (TestBlk t)) # rest \<Rightarrow>
            let (t, s) = test_op E bi t s
            in Some (call (Putnext (RD q) (Msg M_IOCACK
                 (Ctl (cb\<lparr>ioc_count := of_nat (e_sizeof E ''hydra_test_t'')\<rparr>)) ((ty, Drv (TestBlk t)) # rest))) s)
        | _ \<Rightarrow> None))"

definition hydraioctl :: "henv \<Rightarrow> queue \<Rightarrow> hblob msg \<Rightarrow> hst \<Rightarrow> hst option" where
  "hydraioctl E q mp s =
    (case (q_ptr s q, body mp) of
       (Some (hb, si), Ctl cb) \<Rightarrow>
         let bi = h_board_index (stream hb si s)
         in if db_type mp = M_IOCDATA then hydraioctl_data E q bi mp cb s
            else if ioc_cmd cb = e_const E ''SIOCSIFFLAGS'' \<or> ioc_cmd cb = e_const E ''SIOCGIFFLAGS''
            then Some (call (Putnext (RD q) (Msg M_IOCACK (Ctl cb) (b_cont mp))) s)
            else if ioc_cmd cb = HYDRA_NUMBER_OF_BOARDS
            then answer_query E q cb (b_cont mp) 4 (IntBlk (of_nat (number_of_boards s))) s
            else if ioc_cmd cb = HYDRA_GET_CONFIG
            then answer_query E q cb (b_cont mp) (e_sizeof E ''hydra_config_t'') (ConfigBlk (config_of bi s)) s
            else if ioc_cmd cb = HYDRA_GET_STATUS
            then answer_query E q cb (b_cont mp) (e_sizeof E ''hydra_status_t'') (StatusBlk (status_of bi s)) s
            else if ioc_cmd cb = HYDRA_IOCTL_TEST then hydraioctl_test E q bi mp cb s
            else Some (call (Putnext (RD q) (nak EINVAL cb)) (free_cont (b_cont mp) s))
     | _ \<Rightarrow> None)"

section \<open>Effects\<close>

lemma test_write_hw: "hw_only s (hydra_test_write_reg nic r v s)"
  by (auto simp: hydra_test_write_reg_def Let_def)

lemma test_op_hw: "hw_only s (snd (test_op E bi t s))"
  by (auto simp: test_op_def Let_def split_def intro: test_write_hw)

lemma test_op_effect:
  assumes "test_op E bi t s = (t', u)"
  shows "core u = core s" "info b u = info b s" "passed (tr u) = passed (tr s)" "freed (tr u) = freed (tr s)"
proof -
  have "hw_only s u" using test_op_hw [of s E bi t] assms by simp
  then show "core u = core s" "info b u = info b s" "passed (tr u) = passed (tr s)" "freed (tr u) = freed (tr s)"
    by (auto simp: hw_only_def tr_calls lens)
qed

lemma free_cont_effect [lens]:
  "core (free_cont bs s) = core s" "info b (free_cont bs s) = info b s"
  "passed (tr (free_cont bs s)) = passed (tr s)"
  by (auto simp: free_cont_def lens split: list.splits)

text \<open>The message types that answer an ioctl.\<close>

definition ioctl_reply :: "mtype \<Rightarrow> bool" where
  "ioctl_reply ty \<longleftrightarrow> ty = M_IOCACK \<or> ty = M_IOCNAK \<or> ty = M_COPYIN \<or> ty = M_COPYOUT"

definition answered :: "queue \<Rightarrow> hst \<Rightarrow> hst \<Rightarrow> bool" where
  "answered q s t \<longleftrightarrow> core t = core s \<and> (\<forall>b. info b t = info b s) \<and>
     (\<exists>m. passed (tr t) = passed (tr s) @ [(RD q, m)] \<and> ioctl_reply (db_type m))"

lemma answer_query_answered: "answer_query E q cb cont n blk s = Some t \<Longrightarrow> answered q s t"
  by (auto simp: answer_query_def answered_def allocb_def Let_def lens nak_def ioctl_reply_def
      split: list.splits option.splits if_splits)

lemma hydraioctl_test_answered: "hydraioctl_test E q bi mp cb s = Some t \<Longrightarrow> answered q s t"
  by (auto simp: hydraioctl_test_def answered_def allocb_def Let_def lens nak_def ioctl_reply_def test_op_effect
      split: list.splits option.splits if_splits content.splits hblob.splits prod.splits)

lemma hydraioctl_data_answered:
  "hydraioctl_data E q bi mp cb s = Some t \<Longrightarrow> cp_rval cb = 0 \<Longrightarrow> answered q s t"
  by (auto simp: hydraioctl_data_def answered_def Let_def lens ack0_def ioctl_reply_def test_op_effect
      split: list.splits if_splits content.splits hblob.splits prod.splits)

lemma hydraioctl_answered:
  assumes "hydraioctl E q mp s = Some t" "body mp = Ctl cb"
  shows "if db_type mp = M_IOCDATA \<and> cp_rval cb \<noteq> 0 then t = call (Freemsg mp) s else answered q s t"
proof -
  obtain hb si where q: "q_ptr s q = Some (hb, si)"
    using assms by (auto simp: hydraioctl_def split: option.splits)
  define bi where "bi = h_board_index (stream hb si s)"
  note eq = assms(1) [unfolded hydraioctl_def q assms(2) option.case split content.case Let_def, folded bi_def]
  show ?thesis
  proof (cases "db_type mp = M_IOCDATA")
    case True
    then show ?thesis
      using eq hydraioctl_data_answered [of E q bi mp cb s t] by (auto simp: hydraioctl_data_def)
  next
    case False
    have nak: "answered q s (call (Putnext (RD q) (nak EINVAL cb)) (free_cont (b_cont mp) s))"
      by (auto simp: answered_def lens nak_def ioctl_reply_def)
    have ack: "answered q s (call (Putnext (RD q) (Msg M_IOCACK (Ctl cb) (b_cont mp))) s)"
      by (auto simp: answered_def lens ioctl_reply_def)
    have "answered q s t"
      using eq False nak ack
      by (auto split: if_splits dest: answer_query_answered hydraioctl_test_answered)
    then show ?thesis using False by simp
  qed
qed

lemma hydraioctl_quiet:
  assumes "hydraioctl E q mp s = Some t"
  shows "quiet s t"
proof -
  obtain cb where "body mp = Ctl cb"
    using assms by (auto simp: hydraioctl_def split: option.splits content.splits)
  then show ?thesis
    using hydraioctl_answered [OF assms] by (auto simp: answered_def intro!: quiet_core split: if_splits)
qed

section \<open>Properties\<close>


text \<open>
  Unknown commands: an ioctl with any command but the two interface-flag commands and the four the
  driver knows is refused with \<open>EINVAL\<close> and its data freed; this includes \<open>HYDRA_CLEAR_STATUS\<close>
  and \<open>HYDRA_SET_CONFIG\<close>, which \<open>hydrauser.h\<close> declares.
\<close>

theorem ioctl_unknown:
  assumes "q_ptr s q = Some (hb, si)" "body mp = Ctl cb" "db_type mp = M_IOCTL"
    and "ioc_cmd cb \<notin> {e_const E ''SIOCSIFFLAGS'', e_const E ''SIOCGIFFLAGS'', HYDRA_NUMBER_OF_BOARDS,
      HYDRA_GET_CONFIG, HYDRA_GET_STATUS, HYDRA_IOCTL_TEST}"
  shows "hydraioctl E q mp s = Some (call (Putnext (RD q) (nak EINVAL cb)) (free_cont (b_cont mp) s))"
  using assms by (simp add: hydraioctl_def Let_def)

lemma count_open_card:
  "count_open p bi s = of_nat (card {i. i < HYDRA_MAXDEV \<and> h_q (stream bi i s) \<noteq> None \<and> p (stream bi i s)})"
proof -
  have "fold (\<lambda>i n. if h_q (stream bi i s) \<noteq> None \<and> p (stream bi i s) then n + 1 else n) [0..<k] 0 =
      (of_nat (card {i. i < k \<and> h_q (stream bi i s) \<noteq> None \<and> p (stream bi i s)}) :: u32)" for k
  proof (induction k)
    case (Suc k)
    let ?P = "\<lambda>i. h_q (stream bi i s) \<noteq> None \<and> p (stream bi i s)"
    have "{i. i < Suc k \<and> ?P i} = (if ?P k then insert k {i. i < k \<and> ?P i} else {i. i < k \<and> ?P i})"
      by (auto simp: less_Suc_eq)
    then show ?case using Suc by (auto simp del: upt_Suc simp add: upt_Suc_append)
  qed simp
  then show ?thesis unfolding count_open_def .
qed

text \<open>
  C36. Status query: a \<open>HYDRA_GET_STATUS\<close> with data is acknowledged, or copied out to the caller's address, with the status
  of the board, every counter as it stands, in which the stream counters are the numbers of open, bound, ARP and IP streams of
  the board, the interface counters are those of the interface statistics and \<open>sw_next_pkt\<close> is the read position. Without
  memory for the copy the query is refused with \<open>ENOMEM\<close>.
\<close>

theorem ioctl_status:
  assumes "q_ptr s q = Some (hb, si)" "h_board_index (stream hb si s) = hb"
    and "body mp = Ctl cb" "db_type mp = M_IOCTL" "ioc_cmd cb = HYDRA_GET_STATUS"
    and "e_const E ''SIOCSIFFLAGS'' \<noteq> HYDRA_GET_STATUS" "e_const E ''SIOCGIFFLAGS'' \<noteq> HYDRA_GET_STATUS"
    and "b_cont mp = [(ty, c)]" "first_long c = Some arg"
  shows "\<exists>t. hydraioctl E q mp s = Some t \<and>
    (let opened = (\<lambda>p. {i. i < HYDRA_MAXDEV \<and> h_q (stream hb i s) \<noteq> None \<and> p (h_sap (stream hb i s))});
         ifs = b_ifstats (board hb s);
         n = e_sizeof E ''hydra_status_t'';
         st = (status hb s)\<lparr>
           open_streams := of_nat (card (opened (\<lambda>_. True))),
           bound_streams := of_nat (card (opened (\<lambda>sap. sap \<noteq> 0))),
           arp_streams := of_nat (card (opened (\<lambda>sap. sap = ETHERTYPE_ARP))),
           ip_streams := of_nat (card (opened (\<lambda>sap. sap = ETHERTYPE_IP))),
           if_active := ifs_active ifs, if_ipackets := ifs_ipackets ifs, if_opackets := ifs_opackets ifs,
           if_ierrors := ifs_ierrors ifs, if_oerrors := ifs_oerrors ifs,
           sw_next_pkt := of_int (next_pkt (info hb s))\<rparr>;
         answer =
           (if \<not> e_allocb E (Freemsg (Msg ty c []) # tr s) n then nak ENOMEM cb
            else if ioc_count cb = TRANSPARENT then
              Msg M_COPYOUT (Ctl (cb\<lparr>cq_addr := arg, cq_size := n, cq_flag := 0, cq_private := 0\<rparr>)) [(M_DATA, Drv (StatusBlk st))]
            else Msg M_IOCACK (Ctl (cb\<lparr>ioc_count := of_nat n\<rparr>)) [(M_DATA, Drv (StatusBlk st))])
     in passed (tr t) = passed (tr s) @ [(RD q, answer)])"
proof -
  let ?n = "e_sizeof E ''hydra_status_t''"
  have "hydraioctl E q mp s = answer_query E q cb [(ty, c)] ?n (StatusBlk (status_of hb s)) s"
    using assms(1-8) by (simp add: hydraioctl_def Let_def)
  then show ?thesis
    using assms(9)
    by (simp add: answer_query_def free_cont_def allocb_def status_of_def count_open_card call_lens Let_def)
qed

text \<open>
  The bus trap at the FIFO register is out of reach of the diagnostics: no diagnostic operation
  with any argument reads or writes chip register 6, the transmit byte count high or FIFO slot.
\<close>

theorem test_avoids_fifo:
  "\<exists>es. tr (snd (test_op E bi t s)) = es @ tr s \<and>
    (\<forall>v. In8 (reg_addr (nic_base (info bi s)) NE_FIFO) v \<notin> set es \<and>
         Out8 (reg_addr (nic_base (info bi s)) NE_FIFO) v \<notin> set es)"
proof -
  let ?nic = "nic_base (info bi s)"
  have addr: "reg_addr ?nic NE_FIFO = reg_addr ?nic n \<longleftrightarrow> n = NE_FIFO" if "n < 0x100" for n
    using that reg_addr_inject [of NE_FIFO n ?nic] by auto
  have "(unsigned (t_reg t) :: nat) < 2 ^ LENGTH(8)" by (rule unsigned_less)
  then have reg: "unat (t_reg t) < 0x100" by simp
  have w: "\<exists>es. tr (hydra_test_write_reg ?nic (int n) (t_val t) s) = es @ tr s \<and>
      (\<forall>v. In8 (reg_addr ?nic NE_FIFO) v \<notin> set es \<and> Out8 (reg_addr ?nic NE_FIFO) v \<notin> set es)" if "n < 0x100" for n
    using addr [OF that] addr [of 0] by (auto simp: hydra_test_write_reg_def outb_defs lens Let_def)
  have rw: "\<exists>es. tr (hydra_ram_write bi b n p s) = es @ tr s \<and>
      (\<forall>v. In8 (reg_addr ?nic NE_FIFO) v \<notin> set es \<and> Out8 (reg_addr ?nic NE_FIFO) v \<notin> set es)" for b n p
    by (auto simp: hydra_ram_write_def hydra_ram_write_offset_def write_longs_calls tr_calls write_events_def)
  have rr: "\<exists>es. tr (snd (hydra_ram_read E bi b n p s)) = es @ tr s \<and>
      (\<forall>v. In8 (reg_addr ?nic NE_FIFO) v \<notin> set es \<and> Out8 (reg_addr ?nic NE_FIFO) v \<notin> set es)" for b n p
    using read_longs_trace [of E "board_base (info bi s)" "s32 (p * 256)" n "nat (nlongs n)" b s]
    by (auto simp: hydra_ram_read_def hydra_ram_read_offset_def)
  have none: "\<exists>es. tr s = es @ tr s \<and>
      (\<forall>v. In8 (reg_addr ?nic NE_FIFO) v \<notin> set es \<and> Out8 (reg_addr ?nic NE_FIFO) v \<notin> set es)"
    by (intro exI [of _ "[]"]) simp
  show ?thesis
    using w [OF reg] rw rr none addr [OF reg]
    by (auto simp: test_op_def Let_def split_def hydra_inb_def in8_def lens)
qed

text \<open>
  The range check of the diagnostic RAM access overflows: page \<open>0x7FFFFF\<close> with length 1024
  passes it and the check of \<open>hydra_ram_write_offset\<close>, since both sums wrap to a negative \<open>int\<close>,
  and the driver then writes kernel memory \<open>0x7FFFFF00\<close> bytes above the board.
\<close>

theorem test_ram_overflow:
  assumes "t_op t = 3" "t_page t = 0x7FFFFF" "t_len t = 1024"
  shows "\<exists>es v. tr (snd (test_op E bi t s)) = es @ tr s \<and>
    Out32 (board_base (info bi s) + 0x7FFFFF00) v \<in> set es \<and>
    \<not> in_window (board_base (info bi s)) (Out32 (board_base (info bi s) + 0x7FFFFF00) v)"
proof -
  let ?base = "board_base (info bi s)"
  have ok: "test_in_range t" using assms by (simp add: test_in_range_def s32_def)
  have n: "nat (nlongs 1024) = 256" by (simp add: nlongs_def s32_def)
  have acc: "\<not> ram_refused 1024 0x7FFFFF00" by (simp add: ram_refused_def nlongs_def s32_def)
  have "snd (test_op E bi t s) = hydra_ram_write bi (t_data t) 1024 0x7FFFFF s"
    using assms ok by (simp add: test_op_def)
  also have "\<dots> = calls (write_events ?base 0x7FFFFF00 (t_data t) 1024 256) s"
    using acc n by (simp add: hydra_ram_write_def hydra_ram_write_offset_def write_longs_calls s32_def)
  finally have tr: "tr (snd (test_op E bi t s)) = write_events ?base 0x7FFFFF00 (t_data t) 1024 256 @ tr s"
    by (simp add: tr_calls)
  have "Out32 (long_addr ?base 0x7FFFFF00 0) (pack_long (t_data t) 1024 0) \<in>
      set (write_events ?base 0x7FFFFF00 (t_data t) 1024 256)"
    by (simp add: write_events_def)
  then have "Out32 (?base + 0x7FFFFF00) (pack_long (t_data t) 1024 0) \<in>
      set (write_events ?base 0x7FFFFF00 (t_data t) 1024 256)"
    by (simp add: long_addr_def)
  moreover have "\<not> in_window ?base (Out32 (?base + 0x7FFFFF00) v)" for v by (simp add: in_window_def)
  ultimately show ?thesis using tr by blast
qed

text \<open>
  The stream head's side of a transparent ioctl: it answers \<open>M_COPYIN\<close> with the user's block and
  \<open>M_COPYOUT\<close> with none, and hands the private pointer back.
\<close>

definition copied_in :: "hydra_test \<Rightarrow> hblob msg \<Rightarrow> hblob msg" where
  "copied_in t m = (case body m of
     Ctl cb \<Rightarrow> Msg M_IOCDATA (Ctl (cb\<lparr>cp_rval := 0, cp_private := cq_private cb\<rparr>)) [(M_DATA, Drv (TestBlk t))]
   | _ \<Rightarrow> m)"

definition copied_out :: "hblob msg \<Rightarrow> hblob msg" where
  "copied_out m = (case body m of
     Ctl cb \<Rightarrow> Msg M_IOCDATA (Ctl (cb\<lparr>cp_rval := 0, cp_private := cq_private cb\<rparr>)) []
   | _ \<Rightarrow> m)"

definition last_passed :: "hst \<Rightarrow> hblob msg" where
  "last_passed s = snd (last (passed (tr s)))"

text \<open>
  A transparent diagnostic ioctl runs its three steps: the request makes the driver ask for the
  user's block at the user's address; the block makes it execute the operation once and send the changed
  block back to the same address; the confirmation makes it acknowledge with no error. The address
  travels in the private pointer, so it must not be null.
\<close>

theorem test_session:
  assumes "q_ptr s q = Some (hb, si)" "h_board_index (stream hb si s) = hb" "hb < length (boards s)"
    and "e_const E ''SIOCSIFFLAGS'' \<noteq> HYDRA_IOCTL_TEST" "e_const E ''SIOCGIFFLAGS'' \<noteq> HYDRA_IOCTL_TEST"
    and "\<And>h n. e_allocb E h n" "ioc_cmd cb = HYDRA_IOCTL_TEST" "ioc_count cb = TRANSPARENT"
    and "arg \<noteq> 0"
  shows "\<exists>u v w cu cv cw. hydraioctl E q (Msg M_IOCTL (Ctl cb) [(M_DATA, Arg arg)]) s = Some u \<and>
    last_passed u = Msg M_COPYIN (Ctl cu) [(M_DATA, Bytes [])] \<and> cq_addr cu = arg \<and>
    hydraioctl E q (copied_in t (last_passed u)) u = Some v \<and>
    last_passed v = Msg M_COPYOUT (Ctl cv) [(M_DATA, Drv (TestBlk (fst (test_op E hb t u))))] \<and> cq_addr cv = arg \<and>
    hydraioctl E q (copied_out (last_passed v)) v = Some w \<and>
    last_passed w = Msg M_IOCACK (Ctl cw) [] \<and> ioc_error cw = None"
proof -
  let ?n = "e_sizeof E ''hydra_test_t''"
  let ?cu = "cb\<lparr>cq_addr := arg, cq_size := ?n, cq_flag := 0, cq_private := arg\<rparr>"
  let ?u = "call (Putnext (RD q) (Msg M_COPYIN (Ctl ?cu) [(M_DATA, Bytes [])]))
    (call (Allocb ?n True) (call (Freemsg (Msg M_DATA (Arg arg) [])) s))"
  have u: "hydraioctl E q (Msg M_IOCTL (Ctl cb) [(M_DATA, Arg arg)]) s = Some ?u"
    using assms by (simp add: hydraioctl_def hydraioctl_test_def free_cont_def allocb_def Let_def)
  have cu: "core ?u = core s" by (simp add: lens)
  obtain t' v0 where op: "test_op E hb t ?u = (t', v0)" by fastforce
  have cv0: "core v0 = core s" using test_op_effect(1) [OF op] cu by simp
  let ?cv = "?cu\<lparr>cp_rval := 0, cp_private := arg, cq_addr := arg, cq_size := ?n, cq_flag := 0, cq_private := 0\<rparr>"
  let ?v = "call (Putnext (RD q) (Msg M_COPYOUT (Ctl ?cv) [(M_DATA, Drv (TestBlk t'))])) v0"
  have v: "hydraioctl E q (copied_in t (last_passed ?u)) ?u = Some ?v"
    using assms(1,2,9) op
    by (simp add: hydraioctl_def hydraioctl_data_def copied_in_def last_passed_def lens Let_def)
  have "core ?v = core s" using cv0 by (simp add: lens)
  then have sv: "q_ptr ?v q = Some (hb, si)" "h_board_index (stream hb si ?v) = hb"
    using coreD(2,5) [of ?v s] assms(1-3) by simp_all
  let ?cw = "?cv\<lparr>cp_rval := 0, cp_private := 0, ioc_count := 0, ioc_rval := 0, ioc_error := None\<rparr>"
  have w: "hydraioctl E q (copied_out (last_passed ?v)) ?v = Some (call (Putnext (RD q) (Msg M_IOCACK (Ctl ?cw) [])) ?v)"
    using sv by (simp add: hydraioctl_def hydraioctl_data_def copied_out_def last_passed_def lens ack0_def
        free_cont_def Let_def)
  show ?thesis
    by (rule exI [of _ ?u], rule exI [of _ ?v], rule exI [of _ "call (Putnext (RD q) (Msg M_IOCACK (Ctl ?cw) [])) ?v"],
        rule exI [of _ ?cu], rule exI [of _ ?cv], rule exI [of _ ?cw])
      (use u v w op in \<open>simp add: last_passed_def lens\<close>)
qed

section \<open>Witnesses\<close>

definition ctl :: "u32 \<Rightarrow> u32 \<Rightarrow> ctlblk" where
  "ctl cmd count = \<lparr>ioc_cmd = cmd, ioc_count = count, ioc_error = None, ioc_rval = 0, cp_rval = 0,
     cp_private = 0, cq_addr = 0, cq_size = 0, cq_flag = 0, cq_private = 0, ioc_ifflags = 0\<rparr>"

definition zero_test :: hydra_test where
  "zero_test = \<lparr>t_op = 0, t_reg = 0, t_val = 0, t_page = 0, t_offset = 0, t_len = 0, t_data = replicate 1024 0,
     t_tsr = 0, t_isr = 0, t_curr = 0, t_bnry = 0, t_rsr = 0, t_ncr = 0, t_tcr = 0, t_rcr = 0\<rparr>"

lemma up_board_index [simp]: "h_board_index up_stream = 0"
  by (simp add: up_stream_def)


theorem ioctl_unknown_witness:
  "hydraioctl queue_env (WQ 0) (Msg M_IOCTL (Ctl (ctl 0x4801 0)) [(M_DATA, Bytes [1])]) up_hst =
    Some (call (Putnext (RQ 0) (nak EINVAL (ctl 0x4801 0))) (call (Freemsg (Msg M_DATA (Bytes [1]) [])) up_hst))"
  using ioctl_unknown [of up_hst "WQ 0" 0 0 "Msg M_IOCTL (Ctl (ctl 0x4801 0)) [(M_DATA, Bytes [1])]"
      "ctl 0x4801 0" queue_env]
  by (simp add: ctl_def queue_env_def ram_env_def free_cont_def)

theorem ioctl_status_witness:
  "\<exists>t st. hydraioctl queue_env (WQ 0) (Msg M_IOCTL (Ctl (ctl 0x4802 TRANSPARENT)) [(M_DATA, Arg 0x1000)]) up_hst = Some t \<and>
    passed (tr t) = [(RQ 0, Msg M_COPYOUT (Ctl ((ctl 0x4802 TRANSPARENT)\<lparr>cq_addr := 0x1000, cq_size := 0, cq_flag := 0,
      cq_private := 0\<rparr>)) [(M_DATA, Drv (StatusBlk st))])] \<and> sw_next_pkt st = 9"
  using ioctl_status [of up_hst "WQ 0" 0 0 "Msg M_IOCTL (Ctl (ctl 0x4802 TRANSPARENT)) [(M_DATA, Arg 0x1000)]"
      "ctl 0x4802 TRANSPARENT" queue_env M_DATA "Arg 0x1000" "0x1000"]
  by (auto simp: ctl_def queue_env_def ram_env_def Let_def)

theorem test_ram_overflow_witness:
  "\<exists>v. Out32 0x80E8FF00 v \<in> set (tr (snd (test_op queue_env 0
      (zero_test\<lparr>t_op := 3, t_page := 0x7FFFFF, t_len := 1024\<rparr>) up_hst)))"
  using test_ram_overflow [of "zero_test\<lparr>t_op := 3, t_page := 0x7FFFFF, t_len := 1024\<rparr>" queue_env 0 up_hst] by auto

theorem test_session_witness:
  "\<exists>u. hydraioctl queue_env (WQ 0) (Msg M_IOCTL (Ctl (ctl 0x4814 TRANSPARENT)) [(M_DATA, Arg 0x1000)]) up_hst = Some u \<and>
    (\<exists>v w cv cw. hydraioctl queue_env (WQ 0) (copied_in zero_test (last_passed u)) u = Some v \<and>
      last_passed v = Msg M_COPYOUT (Ctl cv) [(M_DATA, Drv (TestBlk (fst (test_op queue_env 0 zero_test u))))] \<and>
      hydraioctl queue_env (WQ 0) (copied_out (last_passed v)) v = Some w \<and>
      last_passed w = Msg M_IOCACK (Ctl cw) [] \<and> ioc_error cw = None)"
  using test_session [of up_hst "WQ 0" 0 0 queue_env "ctl 0x4814 TRANSPARENT" "0x1000" zero_test]
  by (auto simp: ctl_def queue_env_def ram_env_def)

end
