(* ===== verification/Hydra_Driver.thy ===== *)
theory Hydra_Driver
  imports Hydra_Autoconf Hydra_Proto Hydra_Ioctl Hydra_Rx
begin

text \<open>
  The entry points of the Hydra driver: \<open>hydraopen\<close>, \<open>hydraclose\<close>, \<open>hydrawput\<close>,
  \<open>hydrawsrv\<close> and \<open>hydraintr\<close> of \<open>hydra.c\<close>; the driver as a transition system over them, and
  its invariant.

  A stream is a queue pair \<open>RQ n\<close>, \<open>WQ n\<close>; \<open>hydraopen\<close> receives the read queue of a new one,
  whose private pointers are null.
\<close>

section \<open>Open and close\<close>

text \<open>The first stream of a board without a queue, \<open>HYDRA_MAXDEV\<close> if there is none.\<close>

definition first_free :: "nat \<Rightarrow> hst \<Rightarrow> nat" where
  "first_free bi s = scan (\<lambda>j. h_q (stream bi j s) = None) 0 HYDRA_MAXDEV"

definition link_ifstats :: "nat \<Rightarrow> hst \<Rightarrow> hst" where
  "link_ifstats bi s =
    (let s = (if ifs_name (b_ifstats (board bi s)) = None
              then (on_ifstats bi (\<lambda>f. f\<lparr>ifs_name := Some ''hya'', ifs_mtu := HYDRA_MTU\<rparr>) s)
                \<lparr>ifchain := bi # ifchain s\<rparr>
              else s);
         s = on_ifstats bi (\<lambda>f. f\<lparr>ifs_unit := bi, ifs_active := 1\<rparr>) s
     in on_board bi (\<lambda>b. b\<lparr>b_if_flags := {IFF_BROADCAST, IFF_NOTRAILERS, IFF_RUNNING}\<rparr>) s)"

definition take_slot :: "nat \<Rightarrow> nat \<Rightarrow> queue \<Rightarrow> hst \<Rightarrow> hst" where
  "take_slot bi si q s =
    (let s = s\<lparr>q_ptr := (q_ptr s)(q := Some (bi, si), WR q := Some (bi, si))\<rparr>
     in on_stream bi si (\<lambda>hp. hp\<lparr>h_q := Some q, h_board_index := bi, h_flags := 0,
          h_state := DL_UNATTACHED, h_sap := 0\<rparr>) s)"

text \<open>The result: the error, if any, the minor number after the call (\<open>*devp\<close>), and the state.\<close>

definition hydraopen ::
    "henv \<Rightarrow> bootinfo \<Rightarrow> u32 \<Rightarrow> queue \<Rightarrow> nat \<Rightarrow> open_flag \<Rightarrow> hst \<Rightarrow> errno option \<times> nat \<times> hst" where
  "hydraopen E B kend q minor sflag s =
    (if sflag = MODOPEN \<or> sflag = CLONEOPEN then (Some EINVAL, minor, s)
     else
       let s = hydraautoconfig E B kend s;
           bi = minor mod 16;
           sap = minor div 16 mod 16
       in if bi \<ge> HYDRA_MAXBOARDS then (Some ENODEV, minor, s)
          else
            let (ok, s) = (if board_state (status bi s) \<noteq> HYDRA_BOARD_RUNNING then hydra_initialize E bi s else (True, s))
            in if \<not> ok then (Some ENODEV, minor, call (Cmn_err ''hya%d: init failed'' bi) s)
               else if board_base (info bi s) = 0
               then (Some ENXIO, minor, call (Cmn_err ''hya%d: no board base'' bi) s)
               else
                 let si = (if sap = 0 then first_free bi s else sap - 1)
                 in if si \<ge> HYDRA_MAXDEV then (Some ENOSPC, minor, s)
                    else
                      let minor = (si + 1) * 16 + bi
                      in if h_q (stream bi si s) \<noteq> None then (Some EBUSY, minor, s)
                         else (None, minor, link_ifstats bi (take_slot bi si q s)))"

definition free_slot :: "nat \<Rightarrow> nat \<Rightarrow> queue \<Rightarrow> hst \<Rightarrow> hst" where
  "free_slot hb si q s =
    (let s = on_stream hb si (\<lambda>hp. hp\<lparr>h_q := None\<rparr>) s in s\<lparr>q_ptr := (q_ptr s)(OTHERQ q := None, q := None)\<rparr>)"

text \<open>Stopping the chip when the last stream is gone.\<close>

definition stop_board :: "nat \<Rightarrow> hst \<Rightarrow> hst" where
  "stop_board bi s =
    (let s = NIC_DELAY (hydra_outb (nic_base (info bi s)) NE_CR (NE_CR_P0 OR NE_CR_STP OR NE_CR_RDMA_ABORT) s);
         s = on_status bi (\<lambda>t. t\<lparr>board_state := HYDRA_BOARD_RESET\<rparr>) s
     in on_ifstats bi (\<lambda>f. f\<lparr>ifs_unit := 0, ifs_active := 0, ifs_ipackets := 0, ifs_ierrors := 0,
          ifs_opackets := 0, ifs_oerrors := 0\<rparr>) s)"

definition hydraclose :: "henv \<Rightarrow> queue \<Rightarrow> hst \<Rightarrow> hst option" where
  "hydraclose E q s =
    (case q_ptr s q of
       None \<Rightarrow> None
     | Some (hb, si) \<Rightarrow>
         let bi = h_board_index (stream hb si s);
             s = free_slot hb si q s
         in Some (if scan (\<lambda>j. h_q (stream bi j s) \<noteq> None) 0 HYDRA_MAXDEV \<ge> HYDRA_MAXDEV
                  then stop_board bi s else s))"

section \<open>Messages and interrupts\<close>

definition hydrawput :: "henv \<Rightarrow> queue \<Rightarrow> hblob msg \<Rightarrow> hst \<Rightarrow> hst option" where
  "hydrawput E q mp s =
    (case q_ptr s q of
       None \<Rightarrow> None
     | Some _ \<Rightarrow>
         (case db_type mp of
            M_FLUSH \<Rightarrow> flush_msg q mp s
          | M_PROTO \<Rightarrow> hydraproto E q mp s
          | M_PCPROTO \<Rightarrow> hydraproto E q mp s
          | M_IOCDATA \<Rightarrow> hydraioctl E q mp s
          | M_IOCTL \<Rightarrow> hydraioctl E q mp s
          | _ \<Rightarrow> Some (call (Freemsg mp) s)))"

text \<open>The service procedure does nothing: queued messages wait for the transmit interrupt.\<close>

definition hydrawsrv :: "queue \<Rightarrow> hst \<Rightarrow> hst" where
  "hydrawsrv q s = s"

definition intr_rx :: "henv \<Rightarrow> nat \<Rightarrow> byte \<Rightarrow> hst \<Rightarrow> hst option" where
  "intr_rx E bi st s =
    (if st AND (NE_ISR_PRX OR NE_ISR_RXE OR NE_ISR_OVW) \<noteq> 0 then
       let s = (if st AND NE_ISR_RXE \<noteq> 0
                then ierror bi (on_status bi (\<lambda>t. t\<lparr>rx_errors := rx_errors t + 1\<rparr>) s) else s);
           s = (if st AND NE_ISR_OVW \<noteq> 0
                then ierror bi (on_status bi (\<lambda>t. t\<lparr>overflow := overflow t + 1\<rparr>) s) else s);
           s = NIC_DELAY (hydra_outb (nic_base (info bi s)) NE_ISR (st AND (NE_ISR_PRX OR NE_ISR_RXE OR NE_ISR_OVW)) s)
       in if st AND NE_ISR_PRX \<noteq> 0 then receive_interrupt E bi s else Some s
     else Some s)"

definition intr_tx :: "henv \<Rightarrow> nat \<Rightarrow> byte \<Rightarrow> hst \<Rightarrow> hst option" where
  "intr_tx E bi st s =
    (if st AND NE_ISR_PTX \<noteq> 0
     then transmit_interrupt E bi (NIC_DELAY (hydra_outb (nic_base (info bi s)) NE_ISR NE_ISR_PTX s))
     else Some s)"

definition intr_txe :: "henv \<Rightarrow> nat \<Rightarrow> byte \<Rightarrow> hst \<Rightarrow> hst" where
  "intr_txe E bi st s =
    (if st AND NE_ISR_TXE \<noteq> 0 then
       let nic = nic_base (info bi s);
           s = NIC_DELAY (hydra_outb nic NE_ISR NE_ISR_TXE s);
           (tsr, s) = hydra_inb E nic NE_TSR s;
           s = NIC_DELAY s;
           s = on_status bi (\<lambda>t. t\<lparr>tx_errors := tx_errors t + 1\<rparr>) s;
           s = on_ifstats bi (\<lambda>f. f\<lparr>ifs_oerrors := ifs_oerrors f + 1\<rparr>) s;
           s = (if tsr AND NE_TSR_COL \<noteq> 0 then on_status bi (\<lambda>t. t\<lparr>collisions := collisions t + 1\<rparr>) s else s);
           s = (if tsr AND NE_TSR_ABT \<noteq> 0 then on_status bi (\<lambda>t. t\<lparr>retry_errors := retry_errors t + 1\<rparr>) s else s);
           s = (if tsr AND NE_TSR_CDH \<noteq> 0 then on_status bi (\<lambda>t. t\<lparr>late_collisions := late_collisions t + 1\<rparr>) s else s)
       in if tsr AND NE_TSR_CRS \<noteq> 0 then on_status bi (\<lambda>t. t\<lparr>loss_of_carrier := loss_of_carrier t + 1\<rparr>) s else s
     else s)"

definition intr_cnt :: "henv \<Rightarrow> nat \<Rightarrow> byte \<Rightarrow> hst \<Rightarrow> hst" where
  "intr_cnt E bi st s =
    (if st AND NE_ISR_CNT \<noteq> 0 then
       let nic = nic_base (info bi s);
           s = NIC_DELAY (hydra_outb nic NE_ISR NE_ISR_CNT s);
           (n, s) = hydra_inb E nic NE_CNTR0 s
       in on_status bi (\<lambda>t. t\<lparr>missed_packets := missed_packets t + ucast n\<rparr>) s
     else s)"

text \<open>One board of the interrupt loop, then the loop.\<close>

definition intr_board :: "henv \<Rightarrow> nat \<Rightarrow> hst \<Rightarrow> hst option" where
  "intr_board E bi s =
    (if board_state (status bi s) = HYDRA_BOARD_RUNNING \<and> nic_base (info bi s) \<noteq> 0 then
       let nic = nic_base (info bi s);
           s = NIC_DELAY (hydra_outb nic NE_CR (NE_CR_P0 OR NE_CR_STA OR NE_CR_RDMA_ABORT) s);
           (st, s) = hydra_inb E nic NE_ISR s
       in if st = 0 then Some s
          else
            case intr_rx E bi st s of
              None \<Rightarrow> None
            | Some s \<Rightarrow>
                (case intr_tx E bi st s of
                   None \<Rightarrow> None
                 | Some s \<Rightarrow> Some (intr_cnt E bi st (intr_txe E bi st s)))
     else Some s)"

definition hydraintr :: "henv \<Rightarrow> hst \<Rightarrow> hst option" where
  "hydraintr E s = (if e_panicstr E (tr s) then Some s else run (intr_board E) [0..<HYDRA_MAXBOARDS] s)"

section \<open>Frames\<close>

lemma setup_ne2000_frame:
  assumes "setup_ne2000 E bi mac s = (ok, t)" "bi < length (boards s)"
  shows "ok" "q_ptr t = q_ptr s" "autoconfig t = autoconfig s" "rxbuff t = rxbuff s"
    "length (boards t) = length (boards s)" "autoconfigured t = autoconfigured s"
    "number_of_boards t = number_of_boards s" "bj \<noteq> bi \<Longrightarrow> board bj t = board bj s"
    "b_hydra (board bi t) = b_hydra (board bi s)" "board_state (status bi t) = HYDRA_BOARD_RUNNING"
    "info bi t = (info bi s)\<lparr>paddress := mac, tx_start_page := 0, rx_start_page := 8, stop_page := 0x40, next_pkt := 9\<rparr>"
  using assms unfolding setup_ne2000_def Let_def
  by (auto simp: status_on_status info_on_info streams_lens io_only_hst [OF hydra_reset_io]
      io_only_hst [OF program_ne2000_io] lens reset_counters_def)
    (auto simp: on_status_def on_info_def io_only_hst [OF hydra_reset_io] io_only_hst [OF program_ne2000_io] lens)

lemma board_on_stream_other: "bj \<noteq> bi \<Longrightarrow> board bj (on_stream bi j g u) = board bj u"
  by (simp add: on_stream_def lens)

lemma fold_on_stream:
  fixes s :: hst and n :: nat and f :: "hydra \<Rightarrow> hydra"
  assumes "bi < length (boards s)" "n \<le> length (b_hydra (board bi s))"
  defines "t \<equiv> fold (\<lambda>j. on_stream bi j f) [0..<n] s"
  shows "length (boards t) = length (boards s) \<and> q_ptr t = q_ptr s \<and> autoconfig t = autoconfig s \<and>
    rxbuff t = rxbuff s \<and> autoconfigured t = autoconfigured s \<and> number_of_boards t = number_of_boards s \<and>
    (\<forall>bj. bj \<noteq> bi \<longrightarrow> board bj t = board bj s) \<and>
    length (b_hydra (board bi t)) = length (b_hydra (board bi s)) \<and> info bi t = info bi s \<and>
    status bi t = status bi s \<and>
    (\<forall>si. stream bi si t = (if si < n then f (stream bi si s) else stream bi si s))"
  using assms(2) unfolding t_def
proof (induction n)
  case (Suc n)
  then show ?case
    using assms(1) by (auto simp: stream_on_stream less_Suc_eq lens board_on_stream_other)
qed simp

lemma length_in8s: "length (fst (in8s E as s)) = length as"
  by (induction "as" arbitrary: s) (auto simp: in8_def Let_def split_def)

lemma length_par_bytes: "length (fst (par_bytes E nic js s)) = length js"
  by (induction js arbitrary: s) (auto simp: hydra_inb_def in8_def Let_def split_def)

lemma length_ethernet_address: "length (fst (get_ethernet_address E base s)) = ETH_ADDRESS_SIZE"
  by (simp add: get_ethernet_address_def mac_from_par_def Let_def split_def length_in8s length_par_bytes prom_addrs_def)

text \<open>What \<open>hydra_initialize\<close> makes of a board and leaves of the rest.\<close>

lemma hydra_initialize_frame:
  assumes "hydra_initialize E bi s = (ok, t)" "bi < length (boards s)"
    and "length (b_hydra (board bi s)) = HYDRA_MAXDEV"
  shows "ok = (ac_address (autoconfig s ! bi) \<noteq> 0) \<and> (length (boards t) = length (boards s) \<and> q_ptr t = q_ptr s \<and> autoconfig t = autoconfig s \<and>
      rxbuff t = rxbuff s \<and> autoconfigured t = autoconfigured s \<and> number_of_boards t = number_of_boards s \<and>
      (\<forall>bj. bj \<noteq> bi \<longrightarrow> board bj t = board bj s) \<and> length (b_hydra (board bi t)) = HYDRA_MAXDEV) \<and>
    (\<not> ok \<longrightarrow> status bi t = status bi s \<and> info bi t = (info bi s)\<lparr>board_base := 0\<rparr> \<and>
      (\<forall>si. stream bi si t = stream bi si s)) \<and>
    (ok \<longrightarrow> board_state (status bi t) = HYDRA_BOARD_RUNNING \<and> board_base (info bi t) = ac_address (autoconfig s ! bi) \<and>
      nic_base (info bi t) = ac_address (autoconfig s ! bi) + NE8390_NIC_OFFSET \<and>
      length (paddress (info bi t)) = ETH_ADDRESS_SIZE \<and> tx_start_page (info bi t) = 0 \<and>
      rx_start_page (info bi t) = 8 \<and> stop_page (info bi t) = 0x40 \<and> next_pkt (info bi t) = 9 \<and>
      (\<forall>si < HYDRA_MAXDEV. stream bi si t = (stream bi si s)\<lparr>h_q := None, h_sap := 0, h_state := DL_UNBOUND\<rparr>))"
proof -
  let ?a = "ac_address (autoconfig s ! bi)"
  define s1 where "s1 = on_info bi (\<lambda>f. f\<lparr>board_base := ?a\<rparr>) s"
  have s1: "info bi s1 = (info bi s)\<lparr>board_base := ?a\<rparr>" "length (boards s1) = length (boards s)" "q_ptr s1 = q_ptr s"
    "autoconfig s1 = autoconfig s" "rxbuff s1 = rxbuff s" "autoconfigured s1 = autoconfigured s"
    "number_of_boards s1 = number_of_boards s" "\<And>bj. bj \<noteq> bi \<Longrightarrow> board bj s1 = board bj s"
    "b_hydra (board bi s1) = b_hydra (board bi s)" "status bi s1 = status bi s" "\<And>si. stream bi si s1 = stream bi si s"
    using assms(2) by (simp_all add: s1_def info_on_info streams_lens lens) (simp add: on_info_def lens)
  show "ok = (?a \<noteq> 0) \<and> (length (boards t) = length (boards s) \<and> q_ptr t = q_ptr s \<and> autoconfig t = autoconfig s \<and>
      rxbuff t = rxbuff s \<and> autoconfigured t = autoconfigured s \<and> number_of_boards t = number_of_boards s \<and>
      (\<forall>bj. bj \<noteq> bi \<longrightarrow> board bj t = board bj s) \<and> length (b_hydra (board bi t)) = HYDRA_MAXDEV) \<and>
    (\<not> ok \<longrightarrow> status bi t = status bi s \<and> info bi t = (info bi s)\<lparr>board_base := 0\<rparr> \<and>
      (\<forall>si. stream bi si t = stream bi si s)) \<and>
    (ok \<longrightarrow> board_state (status bi t) = HYDRA_BOARD_RUNNING \<and> board_base (info bi t) = ?a \<and>
      nic_base (info bi t) = ?a + NE8390_NIC_OFFSET \<and>
      length (paddress (info bi t)) = ETH_ADDRESS_SIZE \<and> tx_start_page (info bi t) = 0 \<and>
      rx_start_page (info bi t) = 8 \<and> stop_page (info bi t) = 0x40 \<and> next_pkt (info bi t) = 9 \<and>
      (\<forall>si < HYDRA_MAXDEV. stream bi si t = (stream bi si s)\<lparr>h_q := None, h_sap := 0, h_state := DL_UNBOUND\<rparr>))"
  proof (cases "?a = 0")
    case True
    then have "ok = False" "t = s1" using assms(1) s1(1) by (auto simp: hydra_initialize_def Let_def s1_def)
    then show ?thesis using True s1 assms(3) by simp
  next
    case False
    define s2 where "s2 = on_info bi (\<lambda>f. f\<lparr>nic_base := board_base f + NE8390_NIC_OFFSET\<rparr>) s1"
    have s2: "info bi s2 = (info bi s)\<lparr>board_base := ?a, nic_base := ?a + NE8390_NIC_OFFSET\<rparr>"
      "length (boards s2) = length (boards s)" "q_ptr s2 = q_ptr s"
      "autoconfig s2 = autoconfig s" "rxbuff s2 = rxbuff s" "autoconfigured s2 = autoconfigured s"
      "number_of_boards s2 = number_of_boards s" "\<And>bj. bj \<noteq> bi \<Longrightarrow> board bj s2 = board bj s"
      "b_hydra (board bi s2) = b_hydra (board bi s)" "\<And>si. stream bi si s2 = stream bi si s"
      using assms(2) s1 by (simp_all add: s2_def info_on_info streams_lens lens) (simp add: on_info_def lens s1)
    obtain mac s3 where s3: "get_ethernet_address E (board_base (info bi s2)) s2 = (mac, s3)" by fastforce
    have io: "io_only s2 s3" using get_ethernet_address_io [of s2 E "board_base (info bi s2)"] s3 by simp
    have mac: "length mac = ETH_ADDRESS_SIZE"
      using length_ethernet_address [of E "board_base (info bi s2)" s2] s3 by simp
    note h3 = io_only_hst [OF io]
    define f where "f = (\<lambda>hp :: hydra. hp\<lparr>h_q := None, h_sap := 0, h_state := DL_UNBOUND\<rparr>)"
    define s4 where "s4 = fold (\<lambda>n. on_stream bi n f) [0..<HYDRA_MAXDEV] s3"
    have s4: "length (boards s4) = length (boards s) \<and> q_ptr s4 = q_ptr s \<and> autoconfig s4 = autoconfig s \<and>
        rxbuff s4 = rxbuff s \<and> autoconfigured s4 = autoconfigured s \<and> number_of_boards s4 = number_of_boards s \<and>
        (\<forall>bj. bj \<noteq> bi \<longrightarrow> board bj s4 = board bj s) \<and> length (b_hydra (board bi s4)) = HYDRA_MAXDEV \<and>
        info bi s4 = info bi s2 \<and> (\<forall>si. stream bi si s4 = (if si < HYDRA_MAXDEV then f (stream bi si s) else stream bi si s))"
      using fold_on_stream [of bi s3 HYDRA_MAXDEV f] assms(2,3) s2 unfolding s4_def h3 by simp
    define s5 where "s5 = on_info bi (\<lambda>f. f\<lparr>paddress := mac\<rparr>) s4"
    have s5: "info bi s5 = (info bi s2)\<lparr>paddress := mac\<rparr>" "length (boards s5) = length (boards s)" "q_ptr s5 = q_ptr s"
      "autoconfig s5 = autoconfig s" "rxbuff s5 = rxbuff s" "autoconfigured s5 = autoconfigured s"
      "number_of_boards s5 = number_of_boards s" "\<And>bj. bj \<noteq> bi \<Longrightarrow> board bj s5 = board bj s"
      "length (b_hydra (board bi s5)) = HYDRA_MAXDEV"
      "\<And>si. stream bi si s5 = (if si < HYDRA_MAXDEV then f (stream bi si s) else stream bi si s)"
      using assms(2) s4 by (simp_all add: s5_def info_on_info streams_lens lens) (simp add: on_info_def lens s4)
    have t: "setup_ne2000 E bi mac s5 = (ok, t)"
      using assms(1) False s1(1) s3 unfolding hydra_initialize_def Let_def s1_def [symmetric] s2_def [symmetric]
      by (simp add: f_def [symmetric] s4_def [symmetric] s5_def)
    have l5: "bi < length (boards s5)" using s5(2) assms(2) by simp
    note fr = setup_ne2000_frame [OF t l5]
    have "stream bi si t = stream bi si s5" for si using fr(9) by (simp add: stream_def)
    then show ?thesis using False fr s5 s2(1) mac by (simp add: f_def)
  qed
qed

lemma autoconfig_frame:
  "boards (hydraautoconfig E B kend s) = boards s" "q_ptr (hydraautoconfig E B kend s) = q_ptr s"
  "rxbuff (hydraautoconfig E B kend s) = rxbuff s"
  "length (autoconfig (hydraautoconfig E B kend s)) = length (autoconfig s)"
proof -
  define same :: "hst \<Rightarrow> hst \<Rightarrow> bool" where "same u v \<longleftrightarrow> boards v = boards u \<and> q_ptr v = q_ptr u \<and> rxbuff v = rxbuff u \<and>
    length (autoconfig v) = length (autoconfig u)" for u v
  have rec: "same u (record_board a u)" for a u by (simp add: same_def record_board_def)
  have 1: "same u (snd (probe_autocon B kend k i n u))" for k i n u
  proof (induction B kend k i n u rule: probe_autocon.induct)
    case (2 B kend k i n1 s)
    then show ?case using rec by (auto simp: same_def split: option.splits)
  qed (simp add: same_def)
  have 2: "same u (snd (probe_prom E bs n u))" for bs n u
  proof (induction bs arbitrary: n u)
    case (Cons b bs)
    have "same u (snd (in8s E (prom_addrs b) u))"
      using io_only_in8s [OF io_only_refl, of u E "prom_addrs b"] by (simp add: same_def io_only_hst)
    then show ?case using Cons rec by (auto simp: same_def Let_def split_def)
  qed (simp add: same_def)
  have "same s (s\<lparr>autoconfigured := True, number_of_boards := 0\<rparr>)" by (simp add: same_def)
  then have "same s (hydraautoconfig E B kend s)"
    using 1 2 by (simp add: hydraautoconfig_def Let_def split_def same_def lens)
  then show "boards (hydraautoconfig E B kend s) = boards s" "q_ptr (hydraautoconfig E B kend s) = q_ptr s"
    "rxbuff (hydraautoconfig E B kend s) = rxbuff s"
    "length (autoconfig (hydraautoconfig E B kend s)) = length (autoconfig s)" by (simp_all add: same_def)
qed

section \<open>The invariant\<close>

text \<open>
  Slots and queue pointers describe the same assignment of queues to streams, in both directions; a
  board that is not running has no open stream; a running board is completely set up and its read position is
  a page of the ring.
\<close>

definition slot_ok :: "nat \<Rightarrow> nat \<Rightarrow> hst \<Rightarrow> bool" where
  "slot_ok bi si s \<longleftrightarrow> h_flags (stream bi si s) = 0 \<and>
     (\<forall>q. h_q (stream bi si s) = Some q \<longrightarrow> (\<exists>n. q = RQ n) \<and> q_ptr s q = Some (bi, si) \<and>
        q_ptr s (WR q) = Some (bi, si) \<and> h_board_index (stream bi si s) = bi)"

definition info_up :: "hydra_info \<Rightarrow> bool" where
  "info_up i \<longleftrightarrow> board_base i \<noteq> 0 \<and> nic_base i = board_base i + NE8390_NIC_OFFSET \<and>
     tx_start_page i = 0 \<and> rx_start_page i = 8 \<and> stop_page i = 0x40"

definition board_inv :: "nat \<Rightarrow> hst \<Rightarrow> bool" where
  "board_inv bi s \<longleftrightarrow> length (b_hydra (board bi s)) = HYDRA_MAXDEV \<and>
     length (paddress (info bi s)) = ETH_ADDRESS_SIZE \<and> (\<forall>si < HYDRA_MAXDEV. slot_ok bi si s) \<and>
     (if board_state (status bi s) = HYDRA_BOARD_RUNNING
      then info_up (info bi s) \<and> ring_page (next_pkt (info bi s))
      else \<forall>si < HYDRA_MAXDEV. h_q (stream bi si s) = None)"

definition ptr_inv :: "hst \<Rightarrow> bool" where
  "ptr_inv s \<longleftrightarrow> (\<forall>q bi si. q_ptr s q = Some (bi, si) \<longrightarrow>
     bi < HYDRA_MAXBOARDS \<and> si < HYDRA_MAXDEV \<and> h_q (stream bi si s) = Some (RD q))"

definition hydra_inv :: "hst \<Rightarrow> bool" where
  "hydra_inv s \<longleftrightarrow> length (boards s) = HYDRA_MAXBOARDS \<and> length (autoconfig s) = HYDRA_MAXBOARDS \<and>
     length (rxbuff s) = MAX_BUFFER_LENGTH \<and> (\<forall>bi < HYDRA_MAXBOARDS. board_inv bi s) \<and> ptr_inv s"

lemma info_up_next: "info_up (i\<lparr>next_pkt := n\<rparr>) = info_up i"
  by (simp add: info_up_def)

lemma inv_quiet:
  assumes "hydra_inv s" "quiet s t"
  shows "hydra_inv t"
proof -
  have sl: "slots t = slots s" using assms(2) by (simp add: quiet_def)
  note d = slotsD [OF sl]
  have l: "length (boards s) = HYDRA_MAXBOARDS" using assms(1) by (simp add: hydra_inv_def)
  have st: "slot_of (stream bi si t) = slot_of (stream bi si s)" if "bi < HYDRA_MAXBOARDS" "si < HYDRA_MAXDEV" for bi si
    using d(7) [of bi si] that l assms(1) by (simp add: hydra_inv_def board_inv_def)
  have b: "board_inv bi t" if "bi < HYDRA_MAXBOARDS" for bi
  proof -
    have bs: "board_inv bi s" using assms(1) that by (simp add: hydra_inv_def)
    have i: "(info bi t)\<lparr>next_pkt := 0\<rparr> = (info bi s)\<lparr>next_pkt := 0\<rparr>" using d(9) that l by simp
    have "paddress (info bi t) = paddress (info bi s)" using arg_cong [OF i, of paddress] by simp
    moreover have "info_up (info bi t) = info_up (info bi s)" using arg_cong [OF i, of info_up] by (simp add: info_up_next)
    moreover have "next_pkt (info bi t) = next_pkt (info bi s) \<or> ring_page (next_pkt (info bi t))"
      using assms(2) by (simp add: quiet_def)
    ultimately show ?thesis
      using bs d(2) d(6,8) [of bi] st [OF that] that l
      by (auto simp: board_inv_def slot_ok_def slot_of_def)
  qed
  have "ptr_inv t"
    using assms(1) st d(2) by (fastforce simp: hydra_inv_def ptr_inv_def slot_of_def)
  then show ?thesis using assms(1) b d by (simp add: hydra_inv_def)
qed

lemma inv_initialize:
  assumes "hydra_inv s" "bi < HYDRA_MAXBOARDS" "board_state (status bi s) \<noteq> HYDRA_BOARD_RUNNING"
    and "hydra_initialize E bi s = (ok, t)"
  shows "hydra_inv t" "ok \<Longrightarrow> board_state (status bi t) = HYDRA_BOARD_RUNNING"
proof -
  have l: "bi < length (boards s)" "length (b_hydra (board bi s)) = HYDRA_MAXDEV" and bs: "board_inv bi s"
    using assms(1,2) by (simp_all add: hydra_inv_def board_inv_def)
  note f = hydra_initialize_frame [OF assms(4) l]
  show "ok \<Longrightarrow> board_state (status bi t) = HYDRA_BOARD_RUNNING" using f by simp
  have none: "h_q (stream bi si s) = None" if "si < HYDRA_MAXDEV" for si
    using bs assms(3) that by (simp add: board_inv_def)
  have other: "stream bj si t = stream bj si s" "info bj t = info bj s" "status bj t = status bj s"
    "b_hydra (board bj t) = b_hydra (board bj s)" if "bj \<noteq> bi" for bj si
    using f that by (simp_all add: stream_def info_def status_def)
  have "board_inv bj t" if "bj < HYDRA_MAXBOARDS" for bj
  proof (cases "bj = bi")
    case False
    then show ?thesis using assms(1) that other f by (simp add: hydra_inv_def board_inv_def slot_ok_def)
  next
    case True
    show ?thesis
    proof (cases ok)
      case True
      then show ?thesis using f bs \<open>bj = bi\<close>
        by (simp add: board_inv_def slot_ok_def info_up_def ring_page_def)
    next
      case False
      then show ?thesis using f bs \<open>bj = bi\<close> none assms(3) by (simp add: board_inv_def slot_ok_def)
    qed
  qed
  moreover have "ptr_inv t"
    unfolding ptr_inv_def
  proof (intro allI impI)
    fix q bj si assume "q_ptr t q = Some (bj, si)"
    then have q: "bj < HYDRA_MAXBOARDS" "si < HYDRA_MAXDEV" "h_q (stream bj si s) = Some (RD q)"
      using assms(1) f by (auto simp: hydra_inv_def ptr_inv_def)
    then have "bj \<noteq> bi" using none by auto
    then show "bj < HYDRA_MAXBOARDS \<and> si < HYDRA_MAXDEV \<and> h_q (stream bj si t) = Some (RD q)"
      using q other by simp
  qed
  ultimately show "hydra_inv t" using assms(1) f by (simp add: hydra_inv_def)
qed

lemma link_ifstats_quiet: "quiet s (link_ifstats bi s)"
proof -
  have chain: "quiet u v \<Longrightarrow> quiet u (v\<lparr>ifchain := c\<rparr>)" for u v c
    by (simp add: quiet_def slots_def info_def board_def)
  have flags: "quiet u v \<Longrightarrow> quiet u (on_board bi (\<lambda>b. b\<lparr>b_if_flags := fl\<rparr>) v)" for u v fl
    by (erule quiet_trans) (simp add: quiet_core core_on_board board_core_def info_def board_part_on_board)
  show ?thesis by (auto simp: link_ifstats_def Let_def intro!: chain flags)
qed

lemma q_ptr_lens [lens]:
  "board bi (s\<lparr>q_ptr := p\<rparr>) = board bi s" "info bi (s\<lparr>q_ptr := p\<rparr>) = info bi s"
  "status bi (s\<lparr>q_ptr := p\<rparr>) = status bi s" "stream bi si (s\<lparr>q_ptr := p\<rparr>) = stream bi si s"
  by (simp_all add: board_def info_def status_def stream_def)

lemma take_slot_frame:
  assumes "bi < length (boards s)" "si < length (b_hydra (board bi s))"
  shows "length (boards (take_slot bi si q s)) = length (boards s)" "autoconfig (take_slot bi si q s) = autoconfig s"
    "rxbuff (take_slot bi si q s) = rxbuff s" "info bj (take_slot bi si q s) = info bj s"
    "status bj (take_slot bi si q s) = status bj s"
    "length (b_hydra (board bj (take_slot bi si q s))) = length (b_hydra (board bj s))"
    "q_ptr (take_slot bi si q s) = (q_ptr s)(q := Some (bi, si), WR q := Some (bi, si))"
    "stream bj sj (take_slot bi si q s) = (if bj = bi \<and> sj = si
       then (stream bi si s)\<lparr>h_q := Some q, h_board_index := bi, h_flags := 0, h_state := DL_UNATTACHED, h_sap := 0\<rparr>
       else stream bj sj s)"
  using assms
  by (auto simp: take_slot_def Let_def stream_on_stream lens streams_length)

lemma slot_ok_keep:
  assumes "slot_ok bj sj s" "stream bj sj t = stream bj sj s"
    and "\<And>m. q_ptr s (RQ m) = Some (bj, sj) \<Longrightarrow> q_ptr s (WQ m) = Some (bj, sj) \<Longrightarrow>
      q_ptr t (RQ m) = Some (bj, sj) \<and> q_ptr t (WQ m) = Some (bj, sj)"
  shows "slot_ok bj sj t"
  unfolding slot_ok_def
proof (intro conjI allI impI)
  show "h_flags (stream bj sj t) = 0" using assms(1,2) by (simp add: slot_ok_def)
  fix q assume "h_q (stream bj sj t) = Some q"
  then have q: "h_q (stream bj sj s) = Some q" using assms(2) by simp
  then obtain m where m: "q = RQ m" "q_ptr s (RQ m) = Some (bj, sj)" "q_ptr s (WQ m) = Some (bj, sj)"
    "h_board_index (stream bj sj s) = bj"
    using assms(1) by (auto simp: slot_ok_def)
  show "\<exists>n. q = RQ n" "q_ptr t q = Some (bj, sj)" "q_ptr t (WR q) = Some (bj, sj)"
    "h_board_index (stream bj sj t) = bj"
    using m assms(2) assms(3) [OF m(2,3)] by simp_all
qed

lemma inv_take:
  assumes "hydra_inv s" "bi < HYDRA_MAXBOARDS" "si < HYDRA_MAXDEV"
    and "board_state (status bi s) = HYDRA_BOARD_RUNNING" "h_q (stream bi si s) = None"
    and "q_ptr s (RQ n) = None" "q_ptr s (WQ n) = None"
  shows "hydra_inv (take_slot bi si (RQ n) s)"
proof -
  let ?t = "take_slot bi si (RQ n) s"
  have l: "bi < length (boards s)" "si < length (b_hydra (board bi s))"
    using assms(1-3) by (simp_all add: hydra_inv_def board_inv_def)
  note f = take_slot_frame [OF l]
  have slot: "slot_ok bj sj ?t" if "bj < HYDRA_MAXBOARDS" "sj < HYDRA_MAXDEV" for bj sj
  proof (cases "bj = bi \<and> sj = si")
    case False
    have "slot_ok bj sj s" using assms(1) that by (simp add: hydra_inv_def board_inv_def)
    then show ?thesis by (rule slot_ok_keep) (use False assms(6,7) in \<open>auto simp: f\<close>)
  qed (simp add: slot_ok_def f)
  have "board_inv bj ?t" if "bj < HYDRA_MAXBOARDS" for bj
    using assms(1,4) that slot [OF that] f by (auto simp: hydra_inv_def board_inv_def)
  moreover have "ptr_inv ?t"
    using assms f by (auto simp: ptr_inv_def hydra_inv_def)
  ultimately show ?thesis using assms(1) f by (simp add: hydra_inv_def)
qed

lemma free_slot_frame:
  assumes "hb < length (boards s)" "si < length (b_hydra (board hb s))"
  shows "length (boards (free_slot hb si q s)) = length (boards s)" "autoconfig (free_slot hb si q s) = autoconfig s"
    "rxbuff (free_slot hb si q s) = rxbuff s" "info bj (free_slot hb si q s) = info bj s"
    "status bj (free_slot hb si q s) = status bj s"
    "length (b_hydra (board bj (free_slot hb si q s))) = length (b_hydra (board bj s))"
    "q_ptr (free_slot hb si q s) = (q_ptr s)(OTHERQ q := None, q := None)"
    "stream bj sj (free_slot hb si q s) = (if bj = hb \<and> sj = si then (stream hb si s)\<lparr>h_q := None\<rparr> else stream bj sj s)"
  using assms
  by (auto simp: free_slot_def Let_def stream_on_stream lens streams_length)

lemma inv_free:
  assumes "hydra_inv s" "q_ptr s (RQ n) = Some (hb, si)"
  shows "hydra_inv (free_slot hb si (RQ n) s)"
proof -
  let ?t = "free_slot hb si (RQ n) s"
  have p: "hb < HYDRA_MAXBOARDS" "si < HYDRA_MAXDEV" "h_q (stream hb si s) = Some (RQ n)"
    using assms by (auto simp: hydra_inv_def ptr_inv_def)
  then have l: "hb < length (boards s)" "si < length (b_hydra (board hb s))"
    using assms(1) by (simp_all add: hydra_inv_def board_inv_def)
  note f = free_slot_frame [OF l]
  have slot: "slot_ok bj sj ?t" if "bj < HYDRA_MAXBOARDS" "sj < HYDRA_MAXDEV" for bj sj
  proof (cases "bj = hb \<and> sj = si")
    case True
    then show ?thesis using assms(1) that f by (simp add: hydra_inv_def board_inv_def slot_ok_def)
  next
    case False
    have "slot_ok bj sj s" using assms(1) that by (simp add: hydra_inv_def board_inv_def)
    then show ?thesis by (rule slot_ok_keep) (use False assms(2) in \<open>auto simp: f\<close>)
  qed
  have "board_inv bj ?t" if "bj < HYDRA_MAXBOARDS" for bj
    using assms(1) that slot [OF that] f by (auto simp: hydra_inv_def board_inv_def)
  moreover have "ptr_inv ?t"
    unfolding ptr_inv_def
  proof (intro allI impI)
    fix q bj sj assume q: "q_ptr ?t q = Some (bj, sj)"
    then have "q \<noteq> RQ n" "q \<noteq> WQ n" "q_ptr s q = Some (bj, sj)" using f by (auto split: if_splits)
    moreover from this(1,2) have "RD q \<noteq> RQ n" by (cases q) auto
    ultimately have "bj < HYDRA_MAXBOARDS" "sj < HYDRA_MAXDEV" "h_q (stream bj sj s) = Some (RD q)" "RD q \<noteq> RQ n"
      using assms(1) by (auto simp: hydra_inv_def ptr_inv_def)
    then show "bj < HYDRA_MAXBOARDS \<and> sj < HYDRA_MAXDEV \<and> h_q (stream bj sj ?t) = Some (RD q)"
      using f p(3) by auto
  qed
  ultimately show ?thesis using assms(1) f by (simp add: hydra_inv_def)
qed

section \<open>The entry points keep the invariant\<close>

definition all_free :: "nat \<Rightarrow> hst \<Rightarrow> bool" where
  "all_free bi s \<longleftrightarrow> (\<forall>j < HYDRA_MAXDEV. h_q (stream bi j s) = None)"

lemma hydraclose_free:
  assumes "q_ptr s q = Some (hb, si)" "bi = h_board_index (stream hb si s)"
  shows "hydraclose E q s =
    Some (if all_free bi (free_slot hb si q s) then stop_board bi (free_slot hb si q s) else free_slot hb si q s)"
proof -
  have "HYDRA_MAXDEV \<le> scan (\<lambda>j. h_q (stream bi j u) \<noteq> None) 0 HYDRA_MAXDEV \<longleftrightarrow> all_free bi u" for u
    using scan_end [of 0 HYDRA_MAXDEV "\<lambda>j. h_q (stream bi j u) \<noteq> None"]
      scan_le [of 0 HYDRA_MAXDEV "\<lambda>j. h_q (stream bi j u) \<noteq> None"] by (auto simp: all_free_def)
  then show ?thesis
    using assms by (simp add: hydraclose_def Let_def)
qed

lemma inv_reset:
  assumes "hydra_inv s" "all_free bi s" "bi < HYDRA_MAXBOARDS"
  shows "hydra_inv (on_status bi (\<lambda>t. t\<lparr>board_state := HYDRA_BOARD_RESET\<rparr>) s)"
proof -
  let ?t = "on_status bi (\<lambda>t. t\<lparr>board_state := HYDRA_BOARD_RESET\<rparr>) s"
  have l: "bi < length (boards s)" using assms(1,3) by (simp add: hydra_inv_def)
  have "board_inv bj ?t" if "bj < HYDRA_MAXBOARDS" for bj
    using assms(1,2) that l by (auto simp: hydra_inv_def board_inv_def slot_ok_def status_on_status lens all_free_def)
  moreover have "ptr_inv ?t" using assms(1) by (simp add: hydra_inv_def ptr_inv_def lens)
  ultimately show ?thesis using assms(1) by (simp add: hydra_inv_def lens)
qed

lemma inv_close:
  assumes "hydra_inv s" "hydraclose E (RQ n) s = Some t"
  shows "hydra_inv t"
proof -
  obtain hb si where q: "q_ptr s (RQ n) = Some (hb, si)"
    using assms(2) by (auto simp: hydraclose_def split: option.splits)
  then have p: "hb < HYDRA_MAXBOARDS" "si < HYDRA_MAXDEV" "h_q (stream hb si s) = Some (RQ n)"
    using assms(1) by (auto simp: hydra_inv_def ptr_inv_def)
  then have bi: "h_board_index (stream hb si s) = hb"
    using assms(1) by (auto simp: hydra_inv_def board_inv_def slot_ok_def)
  let ?u = "free_slot hb si (RQ n) s"
  note u = inv_free [OF assms(1) q]
  have stop: "hydra_inv (stop_board hb ?u)" if "all_free hb ?u"
  proof -
    let ?v = "NIC_DELAY (hydra_outb (nic_base (info hb ?u)) NE_CR (NE_CR_P0 OR NE_CR_STP OR NE_CR_RDMA_ABORT) ?u)"
    have io: "io_only ?u ?v" by auto
    have "hydra_inv ?v" by (rule inv_quiet [OF u quiet_io [OF io]])
    moreover have "all_free hb ?v" using that unfolding all_free_def io_only_hst [OF io] .
    ultimately have r: "hydra_inv (on_status hb (\<lambda>t. t\<lparr>board_state := HYDRA_BOARD_RESET\<rparr>) ?v)"
      using p(1) by (rule inv_reset)
    show ?thesis unfolding stop_board_def Let_def by (rule inv_quiet [OF r]) (rule quiet_counters(2) [OF quiet_refl])
  qed
  then show ?thesis using hydraclose_free [OF q bi [symmetric], of E] assms(2) u by (simp split: if_splits)
qed

lemma autoconfig_inv:
  assumes "hydra_inv s"
  shows "hydra_inv (hydraautoconfig E B kend s)"
proof -
  define u where "u = hydraautoconfig E B kend s"
  note af = autoconfig_frame [of E B kend s, folded u_def]
  have ac: "board bj u = board bj s" "info bj u = info bj s" "status bj u = status bj s" "stream bj sj u = stream bj sj s" for bj sj
    using af by (simp_all add: board_def info_def status_def stream_def)
  have sl: "slot_ok bj sj u = slot_ok bj sj s" "ptr_inv u = ptr_inv s" for bj sj
    by (simp_all only: slot_ok_def ptr_inv_def ac af)
  have "hydra_inv u = hydra_inv s" by (simp only: hydra_inv_def board_inv_def sl ac af)
  then show ?thesis using assms unfolding u_def by blast
qed

text \<open>What \<open>hydraopen\<close> has before it looks for a slot.\<close>

lemma open_prepared:
  fixes E :: henv and B :: bootinfo and kend :: u32
  assumes "hydra_inv s" "bi < HYDRA_MAXBOARDS"
  defines "u \<equiv> hydraautoconfig E B kend s"
  assumes "(if board_state (status bi u) \<noteq> HYDRA_BOARD_RUNNING then hydra_initialize E bi u else (True, u)) = (ok, v)"
  shows "hydra_inv v" "ok \<Longrightarrow> board_state (status bi v) = HYDRA_BOARD_RUNNING" "q_ptr v = q_ptr s"
    "ok = (board_state (status bi s) = HYDRA_BOARD_RUNNING \<or> ac_address (autoconfig u ! bi) \<noteq> 0)"
    "bj < HYDRA_MAXBOARDS \<Longrightarrow> sj < HYDRA_MAXDEV \<Longrightarrow> h_q (stream bj sj v) = h_q (stream bj sj s)"
proof -
  note af = autoconfig_frame [of E B kend s, folded u_def]
  have ac: "board bj u = board bj s" "info bj u = info bj s" "status bj u = status bj s" "stream bj sj u = stream bj sj s" for bj sj
    using af by (simp_all add: board_def info_def status_def stream_def)
  have iu: "hydra_inv u" unfolding u_def by (rule autoconfig_inv [OF assms(1)])
  have lu: "bi < length (boards u)" "length (b_hydra (board bi u)) = HYDRA_MAXDEV"
    using iu assms(2) by (simp_all add: hydra_inv_def board_inv_def)
  have "hydra_inv v \<and> (ok \<longrightarrow> board_state (status bi v) = HYDRA_BOARD_RUNNING) \<and> q_ptr v = q_ptr s \<and>
    (ok = (board_state (status bi s) = HYDRA_BOARD_RUNNING \<or> ac_address (autoconfig u ! bi) \<noteq> 0)) \<and>
    (bj < HYDRA_MAXBOARDS \<longrightarrow> sj < HYDRA_MAXDEV \<longrightarrow> h_q (stream bj sj v) = h_q (stream bj sj s))"
  proof (cases "board_state (status bi u) = HYDRA_BOARD_RUNNING")
    case True
    then have "v = u" "ok" using assms(4) by simp_all
    then show ?thesis using iu True af(2) ac by simp
  next
    case False
    then have init: "hydra_initialize E bi u = (ok, v)" using assms(4) by simp
    note iv = inv_initialize [OF iu assms(2) False init]
    note f = hydra_initialize_frame [OF init lu]
    have p: "q_ptr v = q_ptr s" "ok = (board_state (status bi s) = HYDRA_BOARD_RUNNING \<or> ac_address (autoconfig u ! bi) \<noteq> 0)"
      using f False ac af(2) by simp_all
    have "h_q (stream bj sj v) = h_q (stream bj sj s)" if "bj < HYDRA_MAXBOARDS" "sj < HYDRA_MAXDEV"
    proof (cases "bj = bi")
      case False
      then have "board bj v = board bj u" using f by simp
      then show ?thesis using ac by (simp add: stream_def)
    next
      case True
      have "board_inv bi u" using iu assms(2) by (simp add: hydra_inv_def)
      then have "h_q (stream bi sj u) = None" using False that by (simp add: board_inv_def)
      then show ?thesis using f True that ac by (cases ok) simp_all
    qed
    then show ?thesis using iv p by simp
  qed
  then show "hydra_inv v" "ok \<Longrightarrow> board_state (status bi v) = HYDRA_BOARD_RUNNING" "q_ptr v = q_ptr s"
    "ok = (board_state (status bi s) = HYDRA_BOARD_RUNNING \<or> ac_address (autoconfig u ! bi) \<noteq> 0)"
    "bj < HYDRA_MAXBOARDS \<Longrightarrow> sj < HYDRA_MAXDEV \<Longrightarrow> h_q (stream bj sj v) = h_q (stream bj sj s)" by blast+
qed

text \<open>
  The contract of \<open>hydraopen\<close> for a device open, over what a caller can see: whether the board runs or
  can be brought up, which streams are taken, and the minor number, whose low four bits are the board
  and whose next four are 0 or one more than a stream.
\<close>

definition open_verdict :: "bool \<Rightarrow> (nat \<Rightarrow> bool) \<Rightarrow> nat \<Rightarrow> errno option \<times> nat" where
  "open_verdict up taken minor =
    (let bi = minor mod 16; sap = minor div 16 mod 16
     in if bi \<ge> HYDRA_MAXBOARDS \<or> \<not> up then (Some ENODEV, minor)
        else if sap = 0 then
          (case filter (\<lambda>j. \<not> taken j) [0..<HYDRA_MAXDEV] of
             [] \<Rightarrow> (Some ENOSPC, minor)
           | j # _ \<Rightarrow> (None, (j + 1) * 16 + bi))
        else if sap > HYDRA_MAXDEV then (Some ENOSPC, minor)
        else (if taken (sap - 1) then Some EBUSY else None, sap * 16 + bi))"

text \<open>The stream a minor number names.\<close>

definition minor_slot :: "nat \<Rightarrow> nat" where
  "minor_slot m = m div 16 mod 16 - 1"

lemma open_outcome:
  assumes "hydra_inv s" "hydraopen E B kend q minor DEVOPEN s = (r, m, t)"
  defines "bi \<equiv> minor mod 16"
  defines "up \<equiv> board_state (status bi s) = HYDRA_BOARD_RUNNING \<or> ac_address (autoconfig (hydraautoconfig E B kend s) ! bi) \<noteq> 0"
  shows "(r, m) = open_verdict up (\<lambda>j. h_q (stream bi j s) \<noteq> None) minor"
    "\<exists>v. hydra_inv v \<and> q_ptr v = q_ptr s \<and>
      (\<forall>bj < HYDRA_MAXBOARDS. \<forall>sj < HYDRA_MAXDEV. h_q (stream bj sj v) = h_q (stream bj sj s)) \<and>
      (if r = None
       then bi < HYDRA_MAXBOARDS \<and> minor_slot m < HYDRA_MAXDEV \<and> h_q (stream bi (minor_slot m) v) = None \<and>
         board_state (status bi v) = HYDRA_BOARD_RUNNING \<and> t = link_ifstats bi (take_slot bi (minor_slot m) q v)
       else quiet v t)"
proof -
  define u where "u = hydraautoconfig E B kend s"
  define sap where "sap = minor div 16 mod 16"
  note eq = assms(2) [unfolded hydraopen_def Let_def, folded u_def bi_def sap_def, simplified]
  have *: "(r, m) = open_verdict up (\<lambda>j. h_q (stream bi j s) \<noteq> None) minor \<and>
     (\<exists>v. hydra_inv v \<and> q_ptr v = q_ptr s \<and>
      (\<forall>bj < HYDRA_MAXBOARDS. \<forall>sj < HYDRA_MAXDEV. h_q (stream bj sj v) = h_q (stream bj sj s)) \<and>
      (if r = None
       then bi < HYDRA_MAXBOARDS \<and> minor_slot m < HYDRA_MAXDEV \<and> h_q (stream bi (minor_slot m) v) = None \<and>
         board_state (status bi v) = HYDRA_BOARD_RUNNING \<and> t = link_ifstats bi (take_slot bi (minor_slot m) q v)
       else quiet v t))"
  proof (cases "bi < HYDRA_MAXBOARDS")
    case False
    note af = autoconfig_frame [of E B kend s, folded u_def]
    have r: "r = Some ENODEV" "m = minor" "t = u" using eq False by simp_all
    have "hydra_inv u" "h_q (stream bj sj u) = h_q (stream bj sj s)" for bj sj
      unfolding u_def using autoconfig_inv [OF assms(1)] af by (simp_all add: stream_def board_def u_def)
    then show ?thesis using r False af(2) by (auto simp: open_verdict_def Let_def bi_def)
  next
    case True
    obtain ok v where v: "(if board_state (status bi u) \<noteq> HYDRA_BOARD_RUNNING then hydra_initialize E bi u else (True, u)) = (ok, v)"
      by fastforce
    note pr = open_prepared [OF assms(1) True v [unfolded u_def], folded u_def]
    have up: "up = ok" using pr(4) by (simp add: up_def u_def)
    define si where "si = (if sap = 0 then first_free bi v else sap - 1)"
    note eq2 = eq [unfolded v split, folded si_def]
    have same: "h_q (stream bi j v) = h_q (stream bi j s)" if "j < HYDRA_MAXDEV" for j
      using pr(5) True that by blast
    have base: "board_base (info bi v) \<noteq> 0" if ok
    proof -
      have "board_inv bi v" using pr(1) True by (simp add: hydra_inv_def)
      then show ?thesis using pr(2) that by (simp add: board_inv_def info_up_def)
    qed
    have "filter (\<lambda>j. h_q (stream bi j s) = None) [0..<HYDRA_MAXDEV] = filter (\<lambda>j. h_q (stream bi j v) = None) [0..<HYDRA_MAXDEV]"
      using same by (intro filter_cong) auto
    then have free: "(case filter (\<lambda>j. h_q (stream bi j s) = None) [0..<HYDRA_MAXDEV] of [] \<Rightarrow> HYDRA_MAXDEV | j # _ \<Rightarrow> j) = first_free bi v"
      unfolding first_free_def using scan_filter [of 0 HYDRA_MAXDEV "\<lambda>j. h_q (stream bi j v) = None"] by simp
    have slot: "minor_slot ((si + 1) * 16 + bi) = si" if "si < HYDRA_MAXDEV"
    proof -
      have "((si + 1) * 16 + bi) div 16 = si + 1" using True by simp
      then show ?thesis using that by (simp add: minor_slot_def)
    qed
    have none: "h_q (stream bi si v) = None" if "si < HYDRA_MAXDEV" "sap = 0"
      using that scan_holds [of "\<lambda>j. h_q (stream bi j v) = None" 0 HYDRA_MAXDEV] by (simp add: si_def first_free_def)
    have taken: "h_q (stream bi (sap - 1) s) = h_q (stream bi si v)" if "si < HYDRA_MAXDEV" "sap \<noteq> 0"
      using same [of si] that by (simp add: si_def)
    have verdict: "open_verdict up (\<lambda>j. h_q (stream bi j s) \<noteq> None) minor =
        (if \<not> ok then (Some ENODEV, minor) else if si \<ge> HYDRA_MAXDEV then (Some ENOSPC, minor)
         else (if h_q (stream bi si v) \<noteq> None then Some EBUSY else None, (si + 1) * 16 + bi))"
    proof (cases "sap = 0")
      case sap: True
      show ?thesis
      proof (cases "filter (\<lambda>j. h_q (stream bi j s) = None) [0..<HYDRA_MAXDEV]")
        case Nil
        then have "si = HYDRA_MAXDEV" using free sap by (simp add: si_def)
        then show ?thesis
          using Nil True sap by (simp add: open_verdict_def Let_def up del: upt_Suc flip: bi_def sap_def)
      next
        case (Cons j js)
        then have "si = j" using free sap by (simp add: si_def)
        moreover have "j \<in> set (filter (\<lambda>j. h_q (stream bi j s) = None) [0..<HYDRA_MAXDEV])"
          unfolding Cons by simp
        then have "j < HYDRA_MAXDEV" by simp
        ultimately show ?thesis
          using Cons True sap none by (simp add: open_verdict_def Let_def up del: upt_Suc flip: bi_def sap_def)
      qed
    next
      case False
      then have "si = sap - 1" by (simp add: si_def)
      moreover from this False have "(si + 1) * 16 + bi = sap * 16 + bi" by simp
      moreover from \<open>si = sap - 1\<close> False have "si \<ge> HYDRA_MAXDEV \<longleftrightarrow> sap > HYDRA_MAXDEV" by auto
      ultimately show ?thesis
        using True False taken by (simp add: open_verdict_def Let_def up flip: bi_def sap_def)
    qed
    have q1: "quiet v (call e v)" for e by (rule quiet_call [OF quiet_refl])
    have "(r, m) = open_verdict up (\<lambda>j. h_q (stream bi j s) \<noteq> None) minor \<and>
      (if r = None
       then minor_slot m < HYDRA_MAXDEV \<and> h_q (stream bi (minor_slot m) v) = None \<and>
         board_state (status bi v) = HYDRA_BOARD_RUNNING \<and> t = link_ifstats bi (take_slot bi (minor_slot m) q v)
       else quiet v t)"
    proof (cases "ok \<and> si < HYDRA_MAXDEV \<and> h_q (stream bi si v) = None")
      case True
      then have "r = None" "m = (si + 1) * 16 + bi" "t = link_ifstats bi (take_slot bi si q v)"
        using eq2 base \<open>bi < HYDRA_MAXBOARDS\<close> by simp_all
      then show ?thesis using True verdict slot pr(2) by simp
    next
      case False
      then show ?thesis using eq2 base \<open>bi < HYDRA_MAXBOARDS\<close> verdict q1 by (auto split: if_splits)
    qed
    moreover have "\<forall>bj < HYDRA_MAXBOARDS. \<forall>sj < HYDRA_MAXDEV. h_q (stream bj sj v) = h_q (stream bj sj s)"
      using pr(5) by blast
    ultimately show ?thesis using pr(1,3) True by (intro conjI exI [of _ v]) (auto split: if_splits)
  qed
  then show "(r, m) = open_verdict up (\<lambda>j. h_q (stream bi j s) \<noteq> None) minor" by simp
  show "\<exists>v. hydra_inv v \<and> q_ptr v = q_ptr s \<and>
      (\<forall>bj < HYDRA_MAXBOARDS. \<forall>sj < HYDRA_MAXDEV. h_q (stream bj sj v) = h_q (stream bj sj s)) \<and>
      (if r = None
       then bi < HYDRA_MAXBOARDS \<and> minor_slot m < HYDRA_MAXDEV \<and> h_q (stream bi (minor_slot m) v) = None \<and>
         board_state (status bi v) = HYDRA_BOARD_RUNNING \<and> t = link_ifstats bi (take_slot bi (minor_slot m) q v)
       else quiet v t)" using * by blast
qed

lemma inv_open:
  assumes "hydra_inv s" "q_ptr s (RQ n) = None" "q_ptr s (WQ n) = None"
    and "hydraopen E B kend (RQ n) minor sflag s = (r, m, t)"
  shows "hydra_inv t"
proof (cases "sflag = DEVOPEN")
  case False
  then show ?thesis using assms by (cases sflag) (auto simp: hydraopen_def)
next
  case True
  let ?bi = "minor mod 16" and ?si = "minor_slot m"
  obtain v where v: "hydra_inv v" "q_ptr v = q_ptr s"
    and t: "if r = None
       then ?bi < HYDRA_MAXBOARDS \<and> ?si < HYDRA_MAXDEV \<and> h_q (stream ?bi ?si v) = None \<and>
         board_state (status ?bi v) = HYDRA_BOARD_RUNNING \<and> t = link_ifstats ?bi (take_slot ?bi ?si (RQ n) v)
       else quiet v t"
    using open_outcome(2) [OF assms(1) assms(4) [unfolded True]] by blast
  show ?thesis
  proof (cases "r = None")
    case True
    then have "hydra_inv (take_slot ?bi ?si (RQ n) v)"
      using inv_take [OF v(1), of ?bi ?si n] v(2) t assms(2,3) by simp
    then show ?thesis using inv_quiet [OF _ link_ifstats_quiet] t True by simp
  next
    case False
    then show ?thesis using t inv_quiet [OF v(1)] by simp
  qed
qed

lemma transmit_streams_quiet: "transmit_streams E bi ns s = Some t \<Longrightarrow> quiet s t"
proof (induction ns arbitrary: s)
  case (Cons n ns)
  show ?case
  proof (cases "h_q (stream bi n s)")
    case None
    then show ?thesis using Cons by simp
  next
    case (Some q)
    obtain m u where u: "getq E (WR q) s = (m, u)" by fastforce
    then have su: "quiet s u" by (auto simp: getq_def Let_def)
    show ?thesis
    proof (cases m)
      case None
      then show ?thesis using Cons Some u quiet_trans [OF su] by simp
    next
      case m: (Some mp)
      then obtain r v where v: "hydraxmit E (WR q) mp u = Some (r, v)"
        using Cons.prems Some u by (auto split: option.splits)
      note sv = quiet_trans [OF su hydraxmit_quiet(1) [OF v]]
      show ?thesis
      proof (cases r)
        case True
        then have "transmit_streams E bi ns v = Some t" using Cons.prems Some u m v by simp
        then show ?thesis using Cons.IH quiet_trans [OF sv] by blast
      next
        case False
        then show ?thesis using Cons.prems Some u m v sv by auto
      qed
    qed
  qed
qed simp

end
