(* ===== verification/Hydra_System.thy ===== *)
theory Hydra_System
  imports Hydra_Driver
begin

text \<open>
  The Hydra driver as a transition system over its entry points, with the invariant of
  \<open>Hydra_Driver\<close>, and the properties of the entry points.
\<close>

section \<open>Interrupts and messages keep the slots\<close>

lemma rx_step_quiet: "rx_step base bi s t \<Longrightarrow> quiet s t"
  unfolding rx_step_def by (blast intro: quiet_core)

lemma intr_rx_quiet:
  assumes "intr_rx E bi st s = Some t" "rx_fit bi s"
  shows "quiet s t"
proof -
  define m where "m = (NE_ISR_PRX OR NE_ISR_RXE OR NE_ISR_OVW :: byte)"
  define u where "u = NIC_DELAY (hydra_outb (nic_base (info bi s)) NE_ISR (st AND m)
    (let s = (if st AND NE_ISR_RXE \<noteq> 0
              then ierror bi (on_status bi (\<lambda>t. t\<lparr>rx_errors := rx_errors t + 1\<rparr>) s) else s)
     in if st AND NE_ISR_OVW \<noteq> 0
        then ierror bi (on_status bi (\<lambda>t. t\<lparr>overflow := overflow t + 1\<rparr>) s) else s))"
  have su: "rx_step (board_base (info bi s)) bi s u" unfolding u_def Let_def by auto
  have nic: "nic_base (info bi (if st AND NE_ISR_OVW \<noteq> 0
      then ierror bi (on_status bi (\<lambda>t. t\<lparr>overflow := overflow t + 1\<rparr>) v) else v)) = nic_base (info bi v)" for v
    by (simp add: ierror_def lens)
  have "t = s \<or> t = u \<or> receive_interrupt E bi u = Some t"
    using assms(1) by (auto simp: intr_rx_def Let_def u_def m_def ierror_def lens split: if_splits)
  then show ?thesis
  proof (elim disjE)
    assume r: "receive_interrupt E bi u = Some t"
    show ?thesis
      by (rule quiet_trans [OF rx_step_quiet [OF su]
            rx_step_quiet [OF receive_interrupt_step [OF r rx_fit_step [OF su assms(2)]]]])
  qed (use rx_step_quiet [OF su] in simp_all)
qed

lemma intr_tx_quiet: "intr_tx E bi st s = Some t \<Longrightarrow> quiet s t"
proof (cases "st AND NE_ISR_PTX = 0")
  case False
  assume "intr_tx E bi st s = Some t"
  then have "transmit_streams E bi [0..<HYDRA_MAXDEV] (NIC_DELAY (hydra_outb (nic_base (info bi s)) NE_ISR NE_ISR_PTX s)) = Some t"
    using False by (simp add: intr_tx_def transmit_interrupt_def del: upt_Suc)
  then show ?thesis by (rule quiet_trans [OF quiet_io transmit_streams_quiet, rotated]) auto
qed (simp add: intr_tx_def)

lemma quiet_io_trans: "quiet s t \<Longrightarrow> io_only t u \<Longrightarrow> quiet s u"
  by (rule quiet_trans [OF _ quiet_io])

lemma quiet_hw [intro!]:
  "quiet s t \<Longrightarrow> quiet s (hydra_outb nic r v t)" "quiet s t \<Longrightarrow> quiet s (NIC_DELAY t)"
  "quiet s t \<Longrightarrow> quiet s (snd (hydra_inb E nic r t))"
  by (erule quiet_io_trans; auto simp: hydra_inb_def in8_def Let_def)+

lemma intr_txe_quiet: "quiet s (intr_txe E bi st s)"
  by (auto simp: intr_txe_def Let_def split_def)

lemma intr_cnt_quiet: "quiet s (intr_cnt E bi st s)"
  by (auto simp: intr_cnt_def Let_def split_def)

lemma inv_rx_fit:
  assumes "hydra_inv s" "bi < HYDRA_MAXBOARDS" "board_state (status bi s) = HYDRA_BOARD_RUNNING"
  shows "rx_fit bi s"
proof -
  have "board_inv bi s" using assms(1,2) by (simp add: hydra_inv_def)
  then have "info_up (info bi s)" "ring_page (next_pkt (info bi s))" using assms(3) by (simp_all add: board_inv_def)
  then show ?thesis using assms(1,2) by (simp add: hydra_inv_def rx_fit_def info_up_def)
qed

lemma intr_board_quiet:
  assumes "hydra_inv s" "bi < HYDRA_MAXBOARDS" "intr_board E bi s = Some t"
  shows "quiet s t"
proof (cases "board_state (status bi s) = HYDRA_BOARD_RUNNING \<and> nic_base (info bi s) \<noteq> 0")
  case True
  let ?nic = "nic_base (info bi s)"
  let ?u = "NIC_DELAY (hydra_outb ?nic NE_CR (NE_CR_P0 OR NE_CR_STA OR NE_CR_RDMA_ABORT) s)"
  obtain st v where v: "hydra_inb E ?nic NE_ISR ?u = (st, v)" by fastforce
  have "quiet s (snd (hydra_inb E ?nic NE_ISR ?u))" by auto
  then have sv: "quiet s v" using v by simp
  have io: "io_only s (snd (hydra_inb E ?nic NE_ISR ?u))" by (auto simp: hydra_inb_def in8_def Let_def)
  have h: "status bi v = status bi s" using io v by (simp only: io_only_hst snd_conv)
  have fit: "rx_fit bi v"
    using inv_rx_fit [OF inv_quiet [OF assms(1) sv] assms(2)] True h by simp
  show ?thesis
  proof (cases "st = 0")
    case False
    obtain w where w: "intr_rx E bi st v = Some w"
      using assms(3) True v False by (auto simp: intr_board_def Let_def split: option.splits)
    obtain x where x: "intr_tx E bi st w = Some x" and t: "t = intr_cnt E bi st (intr_txe E bi st x)"
      using assms(3) True v False w by (auto simp: intr_board_def Let_def split: option.splits)
    have "quiet s x" by (rule quiet_trans [OF quiet_trans [OF sv intr_rx_quiet [OF w fit]] intr_tx_quiet [OF x]])
    then show ?thesis unfolding t by (rule quiet_trans [OF quiet_trans [OF _ intr_txe_quiet] intr_cnt_quiet])
  qed (use assms(3) True v sv in \<open>auto simp: intr_board_def Let_def\<close>)
qed (use assms(3) in \<open>auto simp: intr_board_def\<close>)

lemma hydraintr_quiet:
  assumes "hydra_inv s" "hydraintr E s = Some t"
  shows "quiet s t"
proof -
  have "run (intr_board E) bs s = Some t \<Longrightarrow> hydra_inv s \<Longrightarrow> list_all (\<lambda>b. b < HYDRA_MAXBOARDS) bs \<Longrightarrow> quiet s t" for bs
  proof (induction bs arbitrary: s)
    case (Cons b bs)
    then obtain u where u: "intr_board E b s = Some u" "run (intr_board E) bs u = Some t"
      by (auto split: option.splits)
    have su: "quiet s u" by (rule intr_board_quiet [OF Cons.prems(2) _ u(1)]) (use Cons.prems in simp)
    then show ?case using quiet_trans [OF su Cons.IH [OF u(2) inv_quiet [OF Cons.prems(2) su]]] Cons.prems(3) by simp
  qed simp
  then show ?thesis
    using assms by (auto simp: hydraintr_def list_all_iff simp del: upt_Suc split: if_splits)
qed

lemma flush_msg_quiet: "flush_msg q mp s = Some t \<Longrightarrow> quiet s t"
  by (auto simp: flush_msg_def Let_def split: content.splits list.splits if_splits)

lemma hydrawput_quiet: "hydrawput E q mp s = Some t \<Longrightarrow> quiet s t"
  by (auto simp: hydrawput_def dest: flush_msg_quiet hydraproto_quiet(1) hydraioctl_quiet
      split: option.splits mtype.splits)

section \<open>The transition system\<close>

text \<open>
  One call of an entry point. \<open>hydraopen\<close> gets the read queue of a stream that has no
  private data yet; the other entry points get a queue of an open stream or fault. The environment
  may be another one at each call.
\<close>

inductive hydra_step :: "hst \<Rightarrow> hst \<Rightarrow> bool" where
  step_open: "q_ptr s (RQ n) = None \<Longrightarrow> q_ptr s (WQ n) = None \<Longrightarrow>
    hydraopen E B kend (RQ n) minor sflag s = (r, m, t) \<Longrightarrow> hydra_step s t"
| step_close: "hydraclose E (RQ n) s = Some t \<Longrightarrow> hydra_step s t"
| step_wput: "hydrawput E (WQ n) mp s = Some t \<Longrightarrow> hydra_step s t"
| step_wsrv: "hydra_step s (hydrawsrv q s)"
| step_intr: "hydraintr E s = Some t \<Longrightarrow> hydra_step s t"

lemma inv_start: "hydra_inv init_hst"
  by (simp add: hydra_inv_def board_inv_def ptr_inv_def slot_ok_def init_hst_def board_def info_def status_def
      stream_def zero_board_def zero_info_def zero_status_def zero_hydra_def)

interpretation hydra: transition_system "\<lambda>s. s = init_hst" hydra_step hydra_inv
proof
  show "s = init_hst \<Longrightarrow> hydra_inv s" for s by (simp add: inv_start)
next
  fix s t assume "hydra_inv s" "hydra_step s t"
  from this(2,1) show "hydra_inv t"
  proof (cases rule: hydra_step.cases)
    case (step_open n E B kend minor sflag r m)
    then show ?thesis using inv_open \<open>hydra_inv s\<close> by blast
  next
    case (step_wput E n mp)
    then show ?thesis using inv_quiet \<open>hydra_inv s\<close> hydrawput_quiet by blast
  next
    case (step_wsrv q)
    then show ?thesis using \<open>hydra_inv s\<close> by (simp add: hydrawsrv_def)
  next
    case (step_intr E)
    then show ?thesis using inv_quiet \<open>hydra_inv s\<close> hydraintr_quiet by blast
  qed (use inv_close \<open>hydra_inv s\<close> in blast)
qed

section \<open>What open and close do\<close>

lemma link_ifstats_stream [lens]: "stream bj sj (link_ifstats bi s) = stream bj sj s"
  "q_ptr (link_ifstats bi s) = q_ptr s" "status bj (link_ifstats bi s) = status bj s"
proof -
  have chain: "board bj (u\<lparr>ifchain := c\<rparr>) = board bj u" for u c by (simp add: board_def)
  have "b_hydra (board bj (link_ifstats bi s)) = b_hydra (board bj s)"
    "b_status (board bj (link_ifstats bi s)) = b_status (board bj s)"
    by (simp_all add: link_ifstats_def Let_def on_ifstats_def chain board_part_on_board [where g = b_hydra]
        board_part_on_board [where g = b_status])
  then show "stream bj sj (link_ifstats bi s) = stream bj sj s" "status bj (link_ifstats bi s) = status bj s"
    by (simp_all add: stream_def status_def)
  show "q_ptr (link_ifstats bi s) = q_ptr s" by (simp add: link_ifstats_def Let_def lens)
qed

lemma quiet_q:
  assumes "hydra_inv s" "quiet s t" "bi < HYDRA_MAXBOARDS" "si < HYDRA_MAXDEV"
  shows "h_q (stream bi si t) = h_q (stream bi si s)" "board_state (status bi t) = board_state (status bi s)"
    "q_ptr t = q_ptr s"
proof -
  have l: "bi < length (boards s)" "si < length (b_hydra (board bi s))"
    using assms by (simp_all add: hydra_inv_def board_inv_def)
  have sl: "slots t = slots s" using assms(2) by (simp add: quiet_def)
  show "h_q (stream bi si t) = h_q (stream bi si s)" using slotsD(7) [OF sl l] by (simp add: slot_of_def)
  show "board_state (status bi t) = board_state (status bi s)" "q_ptr t = q_ptr s"
    using slotsD(8) [OF sl l(1)] slotsD(2) [OF sl] by simp_all
qed

lemma open_effect:
  assumes "hydra_inv s" "hydraopen E B kend q minor DEVOPEN s = (r, m, t)"
  defines "bi \<equiv> minor mod 16" and "si \<equiv> minor_slot m"
  shows "bj < HYDRA_MAXBOARDS \<Longrightarrow> sj < HYDRA_MAXDEV \<Longrightarrow>
      h_q (stream bj sj t) = (if r = None \<and> bj = bi \<and> sj = si then Some q else h_q (stream bj sj s))"
    "r = None \<Longrightarrow> bi < HYDRA_MAXBOARDS \<and> si < HYDRA_MAXDEV \<and> h_q (stream bi si s) = None \<and>
      q_ptr t = (q_ptr s)(q := Some (bi, si), WR q := Some (bi, si)) \<and>
      h_state (stream bi si t) = DL_UNATTACHED \<and> h_sap (stream bi si t) = 0 \<and>
      board_state (status bi t) = HYDRA_BOARD_RUNNING"
    "r \<noteq> None \<Longrightarrow> q_ptr t = q_ptr s"
proof -
  obtain v where v: "hydra_inv v" "q_ptr v = q_ptr s"
      "\<forall>bj < HYDRA_MAXBOARDS. \<forall>sj < HYDRA_MAXDEV. h_q (stream bj sj v) = h_q (stream bj sj s)"
    and t: "if r = None
       then bi < HYDRA_MAXBOARDS \<and> si < HYDRA_MAXDEV \<and> h_q (stream bi si v) = None \<and>
         board_state (status bi v) = HYDRA_BOARD_RUNNING \<and> t = link_ifstats bi (take_slot bi si q v)
       else quiet v t"
    using open_outcome(2) [OF assms(1,2)] unfolding bi_def si_def by blast
  have l: "r = None \<Longrightarrow> bi < length (boards v)" "r = None \<Longrightarrow> si < length (b_hydra (board bi v))"
    using t v(1) by (simp_all add: hydra_inv_def board_inv_def)
  note f = take_slot_frame [OF l]
  show "h_q (stream bj sj t) = (if r = None \<and> bj = bi \<and> sj = si then Some q else h_q (stream bj sj s))"
    if "bj < HYDRA_MAXBOARDS" "sj < HYDRA_MAXDEV"
    using t f quiet_q(1) [OF v(1) _ that] v(3) that by (cases "r = None") (auto simp: lens)
  show "bi < HYDRA_MAXBOARDS \<and> si < HYDRA_MAXDEV \<and> h_q (stream bi si s) = None \<and>
      q_ptr t = (q_ptr s)(q := Some (bi, si), WR q := Some (bi, si)) \<and>
      h_state (stream bi si t) = DL_UNATTACHED \<and> h_sap (stream bi si t) = 0 \<and>
      board_state (status bi t) = HYDRA_BOARD_RUNNING" if "r = None"
    using that t f v by (auto simp: lens)
  show "q_ptr t = q_ptr s" if "r \<noteq> None"
  proof -
    have "slots t = slots v" using t that by (simp add: quiet_def)
    then show ?thesis using slotsD(2) [of t v] v(2) by simp
  qed
qed

lemma inv_up:
  assumes "hydra_inv s" "q_ptr s q = Some (bi, si)"
  shows "board_state (status bi s) = HYDRA_BOARD_RUNNING"
proof -
  have p: "bi < HYDRA_MAXBOARDS" "si < HYDRA_MAXDEV" "h_q (stream bi si s) \<noteq> None"
    using assms by (simp_all add: hydra_inv_def ptr_inv_def)
  have "board_inv bi s" using assms(1) p(1) by (simp add: hydra_inv_def)
  then show ?thesis using p(2,3) unfolding board_inv_def by presburger
qed

lemma stop_board_effect:
  assumes "bi < length (boards s)"
  shows "stream bj sj (stop_board bi s) = stream bj sj s" "q_ptr (stop_board bi s) = q_ptr s"
    "board_state (status bj (stop_board bi s)) = (if bj = bi then HYDRA_BOARD_RESET else board_state (status bj s))"
    "tr (stop_board bi s) = Delay 5 # Delay 5 # Out8 (reg_addr (nic_base (info bi s)) NE_CR) 0x21 # tr s"
  using assms by (auto simp: stop_board_def Let_def lens status_on_status outb_defs)

lemma close_effect:
  assumes "hydra_inv s" "q_ptr s (RQ n) = Some (bi, si)"
  defines "alone \<equiv> \<forall>j < HYDRA_MAXDEV. j \<noteq> si \<longrightarrow> h_q (stream bi j s) = None"
  obtains t where "hydraclose E (RQ n) s = Some t" "bi < HYDRA_MAXBOARDS" "si < HYDRA_MAXDEV"
    "q_ptr t = (q_ptr s)(RQ n := None, WQ n := None)"
    "\<And>bj sj. bj < HYDRA_MAXBOARDS \<Longrightarrow> sj < HYDRA_MAXDEV \<Longrightarrow>
       h_q (stream bj sj t) = (if bj = bi \<and> sj = si then None else h_q (stream bj sj s))"
    "\<And>bj. bj < HYDRA_MAXBOARDS \<Longrightarrow>
       board_state (status bj t) = (if bj = bi \<and> alone then HYDRA_BOARD_RESET else board_state (status bj s))"
    "if alone then tr t = Delay 5 # Delay 5 # Out8 (reg_addr (nic_base (info bi s)) NE_CR) 0x21 # tr s else tr t = tr s"
proof -
  have p: "bi < HYDRA_MAXBOARDS" "si < HYDRA_MAXDEV" "h_q (stream bi si s) = Some (RQ n)"
    using assms(1,2) by (auto simp: hydra_inv_def ptr_inv_def)
  then have bi: "h_board_index (stream bi si s) = bi"
    using assms(1) by (auto simp: hydra_inv_def board_inv_def slot_ok_def)
  have l: "bi < length (boards s)" "si < length (b_hydra (board bi s))"
    using assms(1) p by (simp_all add: hydra_inv_def board_inv_def)
  define u where "u = free_slot bi si (RQ n) s"
  note f = free_slot_frame [OF l, where q = "RQ n", folded u_def]
  have tru: "tr u = tr s" by (simp add: u_def free_slot_def Let_def lens)
  have af: "all_free bi u = alone" using f(8) p(2) by (auto simp: all_free_def alone_def)
  have lu: "bi < length (boards u)" using f(1) l(1) by simp
  note st = stop_board_effect [OF lu]
  define t where "t = (if alone then stop_board bi u else u)"
  have "hydraclose E (RQ n) s = Some t"
    using hydraclose_free [OF assms(2) bi [symmetric], of E] by (simp add: u_def [symmetric] af t_def)
  then show ?thesis
    using p(1,2) by (rule that) (use st f tru in \<open>auto simp: t_def\<close>)
qed

section \<open>Properties\<close>

text \<open>The first open of a machine with one board, and the last close after it.\<close>

definition first_open :: hst where
  "first_open = snd (snd (hydraopen ram_env two_boards 0 (RQ 1) 0 DEVOPEN init_hst))"

lemma first_address: "ac_address (autoconfig (hydraautoconfig ram_env two_boards 0 init_hst) ! 0) = 0xEA0000"
proof -
  have "probe_autocon B kend 4 i n s = probe_autocon B kend (Suc (Suc (Suc (Suc 0)))) i n s" for B kend i n s
    by (simp only: numeral_eq_Suc pred_numeral_simps BitM.simps eval_nat_numeral)
  then show ?thesis
    by (simp add: hydraautoconfig_def two_boards_def init_hst_def Let_def autocon_def record_board_def zorro2_address_def)
qed

text \<open>
  C5. State invariant: in every state the driver can reach from boot, by opens on fresh queues,
  closes, messages and interrupts in any order, against any kernel and any board, a stream that is
  open is the one both its queues point to, its board is running with its chip at the fixed offset from its
  base, and every queue pointer leads to a stream that points back. So no two streams share a queue, and
  the read position of a running board is a page of its receive ring.
\<close>

theorem hydra_invariant:
  assumes "reach (\<lambda>s. s = init_hst) hydra_step s"
  shows "(\<forall>bi < HYDRA_MAXBOARDS. \<forall>si < HYDRA_MAXDEV. \<forall>q. h_q (stream bi si s) = Some q \<longrightarrow>
      q_ptr s q = Some (bi, si) \<and> q_ptr s (WR q) = Some (bi, si) \<and> h_board_index (stream bi si s) = bi \<and>
      board_state (status bi s) = HYDRA_BOARD_RUNNING) \<and>
    (\<forall>q bi si. q_ptr s q = Some (bi, si) \<longrightarrow>
      bi < HYDRA_MAXBOARDS \<and> si < HYDRA_MAXDEV \<and> h_q (stream bi si s) = Some (RD q)) \<and>
    (\<forall>bi < HYDRA_MAXBOARDS. board_state (status bi s) = HYDRA_BOARD_RUNNING \<longrightarrow>
      board_base (info bi s) \<noteq> 0 \<and> nic_base (info bi s) = board_base (info bi s) + NE8390_NIC_OFFSET \<and>
      8 \<le> next_pkt (info bi s) \<and> next_pkt (info bi s) < 0x40)"
proof (intro conjI)
  have i: "hydra_inv s" by (rule hydra.reach_inv [OF assms])
  have b: "board_inv bi s" if "bi < HYDRA_MAXBOARDS" for bi using i that by (simp add: hydra_inv_def)
  show "\<forall>bi < HYDRA_MAXBOARDS. \<forall>si < HYDRA_MAXDEV. \<forall>q. h_q (stream bi si s) = Some q \<longrightarrow>
      q_ptr s q = Some (bi, si) \<and> q_ptr s (WR q) = Some (bi, si) \<and> h_board_index (stream bi si s) = bi \<and>
      board_state (status bi s) = HYDRA_BOARD_RUNNING"
    using b unfolding board_inv_def slot_ok_def by (metis option.distinct(1))
  show "\<forall>q bi si. q_ptr s q = Some (bi, si) \<longrightarrow>
      bi < HYDRA_MAXBOARDS \<and> si < HYDRA_MAXDEV \<and> h_q (stream bi si s) = Some (RD q)"
    using i unfolding hydra_inv_def ptr_inv_def by blast
  show "\<forall>bi < HYDRA_MAXBOARDS. board_state (status bi s) = HYDRA_BOARD_RUNNING \<longrightarrow>
      board_base (info bi s) \<noteq> 0 \<and> nic_base (info bi s) = board_base (info bi s) + NE8390_NIC_OFFSET \<and>
      8 \<le> next_pkt (info bi s) \<and> next_pkt (info bi s) < 0x40"
    using b unfolding board_inv_def info_up_def ring_page_def by (metis (full_types))
qed

text \<open>
  C8. Open: in a reachable state a device open answers exactly as the contract \<open>open_verdict\<close>
  says (\<open>ENODEV\<close>, \<open>ENOSPC\<close>, \<open>EBUSY\<close>, or success with the minor number of the stream
  asked for or else of the lowest free one), a module or clone open is refused with \<open>EINVAL\<close>; a failed open
  changes no stream's queue and no queue pointer; a successful one changes those of its stream alone and
  leaves the stream unattached and unbound on a running board.
\<close>

theorem open_contract:
  assumes "reach (\<lambda>s. s = init_hst) hydra_step s" "hydraopen E B kend q minor sflag s = (r, m, t)"
  shows "if sflag \<noteq> DEVOPEN then r = Some EINVAL \<and> m = minor \<and> t = s
    else
      (r, m) = open_verdict (board_state (status (minor mod 16) s) = HYDRA_BOARD_RUNNING \<or>
         ac_address (autoconfig (hydraautoconfig E B kend s) ! (minor mod 16)) \<noteq> 0)
         (\<lambda>j. h_q (stream (minor mod 16) j s) \<noteq> None) minor \<and>
      (\<forall>bj < HYDRA_MAXBOARDS. \<forall>sj < HYDRA_MAXDEV. h_q (stream bj sj t) =
         (if r = None \<and> bj = minor mod 16 \<and> sj = minor_slot m then Some q else h_q (stream bj sj s))) \<and>
      q_ptr t = (if r = None
         then (q_ptr s)(q := Some (minor mod 16, minor_slot m), WR q := Some (minor mod 16, minor_slot m))
         else q_ptr s) \<and>
      (r = None \<longrightarrow> h_state (stream (minor mod 16) (minor_slot m) t) = DL_UNATTACHED \<and>
         h_sap (stream (minor mod 16) (minor_slot m) t) = 0 \<and>
         board_state (status (minor mod 16) t) = HYDRA_BOARD_RUNNING)"
proof (cases "sflag = DEVOPEN")
  case True
  note i = hydra.reach_inv [OF assms(1)] assms(2) [unfolded True]
  show ?thesis
    unfolding open_outcome(1) [OF i]
    using open_effect [OF i] True by (cases "r = None") auto
next
  case False
  then show ?thesis using assms(2) by (cases sflag) (auto simp: hydraopen_def)
qed

text \<open>
  C24. Close: in a reachable state the close of an open stream frees that stream alone and clears
  both its queue pointers; the chip is stopped and the board reset exactly when it was the last open
  stream of its board, otherwise the hardware is not touched.
\<close>

theorem close_contract:
  assumes "reach (\<lambda>s. s = init_hst) hydra_step s" "q_ptr s (RQ n) = Some (bi, si)"
  shows "\<exists>t. hydraclose E (RQ n) s = Some t \<and> q_ptr t = (q_ptr s)(RQ n := None, WQ n := None) \<and>
    (\<forall>bj < HYDRA_MAXBOARDS. \<forall>sj < HYDRA_MAXDEV. h_q (stream bj sj t) =
       (if bj = bi \<and> sj = si then None else h_q (stream bj sj s))) \<and>
    (if \<forall>j < HYDRA_MAXDEV. j \<noteq> si \<longrightarrow> h_q (stream bi j s) = None
     then board_state (status bi t) = HYDRA_BOARD_RESET \<and> cr_of (nic_base (info bi s)) (tr t) = 0x21
     else board_state (status bi t) = HYDRA_BOARD_RUNNING \<and> tr t = tr s)"
proof -
  note i = hydra.reach_inv [OF assms(1)]
  have up: "board_state (status bi s) = HYDRA_BOARD_RUNNING"
    by (rule inv_up [OF i assms(2)])
  show ?thesis by (rule close_effect [OF i assms(2), of E]) (use up in \<open>auto split: if_splits\<close>)
qed

text \<open>
  C26. Open then close: closing a stream right after opening it gives back the assignment of
  queues to streams and all queue pointers as they were before the open; the board keeps running exactly
  if another of its streams is open.
\<close>

theorem open_close:
  assumes "reach (\<lambda>s. s = init_hst) hydra_step s" "q_ptr s (RQ n) = None" "q_ptr s (WQ n) = None"
    and "hydraopen E B kend (RQ n) minor DEVOPEN s = (None, m, t)"
  shows "\<exists>u. hydraclose E' (RQ n) t = Some u \<and> q_ptr u = q_ptr s \<and>
    (\<forall>bj < HYDRA_MAXBOARDS. \<forall>sj < HYDRA_MAXDEV. h_q (stream bj sj u) = h_q (stream bj sj s)) \<and>
    (board_state (status (minor mod 16) u) = HYDRA_BOARD_RUNNING \<longleftrightarrow>
      (\<exists>j < HYDRA_MAXDEV. h_q (stream (minor mod 16) j s) \<noteq> None))"
proof -
  let ?bi = "minor mod 16" and ?si = "minor_slot m"
  note i = hydra.reach_inv [OF assms(1)]
  note o1 = open_effect(1) [OF i assms(4)]
  have o2: "?bi < HYDRA_MAXBOARDS" "?si < HYDRA_MAXDEV" "h_q (stream ?bi ?si s) = None"
    "q_ptr t = (q_ptr s)(RQ n := Some (?bi, ?si), WQ n := Some (?bi, ?si))"
    "board_state (status ?bi t) = HYDRA_BOARD_RUNNING"
    using open_effect(2) [OF i assms(4)] by simp_all
  have it: "hydra_inv t" by (rule inv_open [OF i assms(2-4)])
  have p: "q_ptr t (RQ n) = Some (?bi, ?si)" using o2(4) by simp
  have ptr: "(q_ptr t)(RQ n := None, WQ n := None) = q_ptr s"
    using o2(4) assms(2,3) by (auto simp: fun_eq_iff)
  have others: "(\<forall>j < HYDRA_MAXDEV. j \<noteq> ?si \<longrightarrow> h_q (stream ?bi j t) = None) \<longleftrightarrow>
      (\<forall>j < HYDRA_MAXDEV. h_q (stream ?bi j s) = None)"
    using o1 [OF o2(1)] o2(3) by fastforce
  show ?thesis
  proof (rule close_effect [OF it p, of E'])
    fix u assume u: "hydraclose E' (RQ n) t = Some u" "q_ptr u = (q_ptr t)(RQ n := None, WQ n := None)"
      "\<And>bj sj. bj < HYDRA_MAXBOARDS \<Longrightarrow> sj < HYDRA_MAXDEV \<Longrightarrow>
         h_q (stream bj sj u) = (if bj = ?bi \<and> sj = ?si then None else h_q (stream bj sj t))"
      "\<And>bj. bj < HYDRA_MAXBOARDS \<Longrightarrow>
         board_state (status bj u) = (if bj = ?bi \<and> (\<forall>j < HYDRA_MAXDEV. j \<noteq> ?si \<longrightarrow> h_q (stream ?bi j t) = None)
           then HYDRA_BOARD_RESET else board_state (status bj t))"
    have "h_q (stream bj sj u) = h_q (stream bj sj s)" if "bj < HYDRA_MAXBOARDS" "sj < HYDRA_MAXDEV" for bj sj
      using u(3) [OF that] o1 [OF that] o2(3) by auto
    moreover have "board_state (status ?bi u) = HYDRA_BOARD_RUNNING \<longleftrightarrow>
        (\<exists>j < HYDRA_MAXDEV. h_q (stream ?bi j s) \<noteq> None)"
      using u(4) [OF o2(1)] o2(5) unfolding others by auto
    ultimately show ?thesis using u(1,2) ptr by auto
  qed
qed

text \<open>
  C40. Interrupts and streams: whatever the chip reports and the frames contain, an interrupt that does
  not fault leaves the assignment of queues to streams, all queue pointers and all board states as they
  were and the read position of a running board inside its ring; with the kernel in panic, or
  with no board running, it does nothing at all.
\<close>

theorem interrupt_keeps_streams:
  assumes "reach (\<lambda>s. s = init_hst) hydra_step s" "hydraintr E s = Some t"
  shows "q_ptr t = q_ptr s \<and>
    (\<forall>bi < HYDRA_MAXBOARDS. \<forall>si < HYDRA_MAXDEV. h_q (stream bi si t) = h_q (stream bi si s) \<and>
       board_state (status bi t) = board_state (status bi s)) \<and>
    (\<forall>bi < HYDRA_MAXBOARDS. board_state (status bi s) = HYDRA_BOARD_RUNNING \<longrightarrow>
       8 \<le> next_pkt (info bi t) \<and> next_pkt (info bi t) < 0x40) \<and>
    (e_panicstr E (tr s) \<or> (\<forall>bi < HYDRA_MAXBOARDS. board_state (status bi s) \<noteq> HYDRA_BOARD_RUNNING) \<longrightarrow> t = s)"
proof (intro conjI)
  note i = hydra.reach_inv [OF assms(1)]
  note qu = hydraintr_quiet [OF i assms(2)]
  note k = quiet_q [OF i qu]
  show "q_ptr t = q_ptr s" by (rule k(3) [of 0 0]) simp_all
  show "\<forall>bi < HYDRA_MAXBOARDS. \<forall>si < HYDRA_MAXDEV. h_q (stream bi si t) = h_q (stream bi si s) \<and>
       board_state (status bi t) = board_state (status bi s)" using k(1,2) by blast
  show "\<forall>bi < HYDRA_MAXBOARDS. board_state (status bi s) = HYDRA_BOARD_RUNNING \<longrightarrow>
       8 \<le> next_pkt (info bi t) \<and> next_pkt (info bi t) < 0x40"
  proof (intro allI impI)
    fix bi assume b: "bi < HYDRA_MAXBOARDS" "board_state (status bi s) = HYDRA_BOARD_RUNNING"
    then have "rx_fit bi t"
      using inv_rx_fit [OF inv_quiet [OF i qu]] k(2) [of bi 0] by simp
    then show "8 \<le> next_pkt (info bi t) \<and> next_pkt (info bi t) < 0x40" by (simp add: rx_fit_def ring_page_def)
  qed
  have "run (intr_board E) bs s = Some s" if "\<forall>b \<in> set bs. board_state (status b s) \<noteq> HYDRA_BOARD_RUNNING" for bs
    using that by (induction bs) (simp_all add: intr_board_def)
  then show "e_panicstr E (tr s) \<or> (\<forall>bi < HYDRA_MAXBOARDS. board_state (status bi s) \<noteq> HYDRA_BOARD_RUNNING) \<longrightarrow> t = s"
    using assms(2) by (auto simp: hydraintr_def simp del: upt_Suc split: if_splits)
qed

text \<open>
  Flushing: a flush message on an open stream empties the queue it arrives on exactly if it asks for
  the write side, and goes back up exactly once, with the write bit cleared and the rest untouched, if it
  asks for the read side; otherwise it is freed, once.
\<close>

theorem flush_honoured:
  assumes "q_ptr s q = Some p"
  shows "\<exists>t b'. hydrawput E q (Msg M_FLUSH (Bytes (b # bs)) cont) s = Some t \<and>
    queued q (tr t) = (if bit b 1 then [] else queued q (tr s)) \<and> (q' \<noteq> q \<longrightarrow> queued q' (tr t) = queued q' (tr s)) \<and>
    \<not> bit b' 1 \<and> (\<forall>n. n \<noteq> 1 \<longrightarrow> bit b' n = bit b n) \<and> core t = core s \<and>
    (if bit b 0 then passed (tr t) = passed (tr s) @ [(OTHERQ q, Msg M_FLUSH (Bytes (b' # bs)) cont)] \<and> freed (tr t) = freed (tr s)
     else passed (tr t) = passed (tr s) \<and> freed (tr t) = freed (tr s) @ [Msg M_FLUSH (Bytes (b' # bs)) cont])"
proof -
  have m: "x AND 2 ^ n = 0 \<longleftrightarrow> \<not> bit x n" for x :: byte and n
    by (simp add: bit_iff_and_push_bit_not_eq_0 push_bit_eq_mult)
  have w: "x AND FLUSHW = 0 \<longleftrightarrow> \<not> bit x 1" and r: "x AND FLUSHR = 0 \<longleftrightarrow> \<not> bit x 0" for x
    using m [of x 1] m [of x 0] by (simp_all add: FLUSHW_def FLUSHR_def)
  have n: "bit (b AND NOT FLUSHW) i \<longleftrightarrow> bit b i \<and> i \<noteq> 1" for i
    using bit_exp_iff [where 'a = byte, of 1 i] by (auto simp: FLUSHW_def bit_simps dest: bit_imp_le_length)
  define b' where "b' = (if bit b 1 then b AND NOT FLUSHW else b)"
  have b': "\<not> bit b' 1" "i \<noteq> 1 \<Longrightarrow> bit b' i = bit b i" for i
    by (simp_all add: b'_def n)
  define u where "u = (if bit b 1 then call (Flushq q) s else s)"
  let ?m = "Msg M_FLUSH (Bytes (b' # bs)) cont"
  define t where "t = (if bit b 0 then call (Qreply q ?m) u else call (Freemsg ?m) u)"
  have "hydrawput E q (Msg M_FLUSH (Bytes (b # bs)) cont) s = Some t"
    using assms by (simp add: hydrawput_def flush_msg_def w r n u_def b'_def t_def Let_def)
  moreover have "core u = core s" "queued q (tr u) = (if bit b 1 then [] else queued q (tr s))"
    "q' \<noteq> q \<Longrightarrow> queued q' (tr u) = queued q' (tr s)" "passed (tr u) = passed (tr s)" "freed (tr u) = freed (tr s)"
    by (auto simp: u_def lens)
  ultimately show ?thesis using b' by (intro exI [of _ t] exI [of _ b']) (simp add: t_def lens)
qed

section \<open>Witnesses\<close>

lemma first_outcome:
  "hydraopen ram_env two_boards 0 (RQ 1) 0 DEVOPEN init_hst = (None, 16, first_open)"
proof -
  obtain r m where o: "hydraopen ram_env two_boards 0 (RQ 1) 0 DEVOPEN init_hst = (r, m, first_open)"
    by (metis first_open_def surjective_pairing)
  have "stream 0 j init_hst = zero_hydra" if "j < HYDRA_MAXDEV" for j
    using that by (simp add: stream_def board_def init_hst_def zero_board_def)
  then have "filter (\<lambda>j. h_q (stream 0 j init_hst) = None) [0..<HYDRA_MAXDEV] = [0..<HYDRA_MAXDEV]"
    by (intro filter_True) (simp add: zero_hydra_def)
  then show ?thesis
    using open_outcome(1) [OF inv_start o] o by (simp add: open_verdict_def Let_def first_address upt_rec)
qed

lemma first_reach: "reach (\<lambda>s. s = init_hst) hydra_step first_open"
proof (rule reach_step [OF reach_start])
  show "hydra_step init_hst first_open"
    by (rule step_open [OF _ _ first_outcome]) (simp_all add: init_hst_def)
qed simp

lemma init_ptr [simp]: "q_ptr init_hst = (\<lambda>_. None)"
  by (simp add: init_hst_def)

lemma first_ptr: "q_ptr first_open = (\<lambda>_. None)(RQ 1 := Some (0, 0), WQ 1 := Some (0, 0))"
  using open_effect(2) [OF inv_start first_outcome] by (simp add: minor_slot_def)

theorem hydra_invariant_witness:
  "h_q (stream 0 0 first_open) = Some (RQ 1) \<and> nic_base (info 0 first_open) = board_base (info 0 first_open) + NE8390_NIC_OFFSET"
proof -
  have "h_q (stream 0 0 first_open) = Some (RQ 1)"
    using open_effect(1) [OF inv_start first_outcome, of 0 0] by (simp add: minor_slot_def)
  moreover from this have "board_state (status 0 first_open) = HYDRA_BOARD_RUNNING"
    using hydra_invariant [OF first_reach, THEN conjunct1, rule_format, of 0 0] by simp
  then have "nic_base (info 0 first_open) = board_base (info 0 first_open) + NE8390_NIC_OFFSET"
    using hydra_invariant [OF first_reach, THEN conjunct2, THEN conjunct2, rule_format, of 0] by simp
  ultimately show ?thesis by simp
qed

theorem open_contract_witness:
  "hydraopen ram_env two_boards 0 (RQ 1) 0 DEVOPEN init_hst = (None, 16, first_open) \<and>
   h_q (stream 0 0 first_open) = Some (RQ 1) \<and> h_state (stream 0 0 first_open) = DL_UNATTACHED"
  using open_contract [OF reach_start first_outcome, OF refl] first_outcome by (simp add: minor_slot_def)

theorem close_contract_witness:
  "\<exists>t. hydraclose ram_env (RQ 1) first_open = Some t \<and> q_ptr t = (\<lambda>_. None)"
  using close_contract [OF first_reach, of 1 0 0 ram_env] by (auto simp: first_ptr fun_eq_iff)

theorem open_close_witness:
  "\<exists>u. hydraclose ram_env (RQ 1) first_open = Some u \<and> q_ptr u = (\<lambda>_. None)"
  using open_close [OF reach_start _ _ first_outcome, OF refl, of ram_env] by auto

theorem interrupt_keeps_streams_witness:
  "\<exists>t. hydraintr ram_env first_open = Some t \<and> q_ptr t (RQ 1) = Some (0, 0)"
proof -
  have "\<exists>t. intr_board ram_env bi s = Some t" for bi s
    by (simp add: intr_board_def Let_def hydra_inb_def in8_def ram_env_def)
  then have "\<exists>t. run (intr_board ram_env) bs s = Some t" for bs s
    by (induction bs arbitrary: s) (simp, metis option.simps(5) run.simps(2))
  then obtain t where "hydraintr ram_env first_open = Some t"
    by (auto simp: hydraintr_def ram_env_def simp del: upt_Suc)
  then show ?thesis using interrupt_keeps_streams [OF first_reach] by (auto simp: first_ptr)
qed

theorem flush_honoured_witness:
  "\<exists>t. hydrawput ram_env (WQ 0) (Msg M_FLUSH (Bytes [3]) []) up_hst = Some t \<and> queued (WQ 0) (tr t) = [] \<and>
    (\<exists>b. \<not> bit b 1 \<and> passed (tr t) = [(RQ 0, Msg M_FLUSH (Bytes [b]) [])])"
  using flush_honoured [of up_hst "WQ 0" "(0, 0)" ram_env 3 "[]" "[]" "WQ 0"] by (force simp: up_hst_def)

end
