(* ===== verification/Framing.thy ===== *)
theory Framing
  imports Amix_Prelude
begin

text \<open>
  Framing packets on a stream of characters: a receiver that takes one character at a time and gives out
  packets, and the contract between it and the frames a sender makes.
\<close>

fun feed :: "('c \<Rightarrow> 's \<Rightarrow> 'p list \<times> 's) \<Rightarrow> 'c list \<Rightarrow> 's \<Rightarrow> 'p list \<times> 's" where
  "feed step [] s = ([], s)"
| "feed step (c # cs) s = (let (ps, s) = step c s; (qs, s) = feed step cs s in (ps @ qs, s))"

lemma feed_append:
  "feed step (xs @ ys) s = (let (ps, t) = feed step xs s; (qs, u) = feed step ys t in (ps @ qs, u))"
  by (induction xs arbitrary: s) (simp_all add: Let_def split_def)

lemma feed_silent:
  assumes "\<And>c s. c \<in> set cs \<Longrightarrow> fst (step c s) = []"
  shows "feed step cs s = ([], fold (\<lambda>c s. snd (step c s)) cs s)"
  using assms by (induction cs arbitrary: s) (auto simp: split_def Let_def)

text \<open>A frame of a good packet, read in an idle state, gives that packet and an idle state again.\<close>

locale framing =
  fixes frame :: "'p \<Rightarrow> 'c list" and step :: "'c \<Rightarrow> 's \<Rightarrow> 'p list \<times> 's"
    and idle :: "'s \<Rightarrow> bool" and good :: "'p \<Rightarrow> bool"
  assumes reads_frame: "idle s \<Longrightarrow> good p \<Longrightarrow> \<exists>t. feed step (frame p) s = ([p], t) \<and> idle t"
begin

lemma reads_frames:
  "idle s \<Longrightarrow> list_all good ps \<Longrightarrow> \<exists>t. feed step (concat (map frame ps)) s = (ps, t) \<and> idle t"
proof (induction ps arbitrary: s)
  case (Cons p ps)
  then obtain t where t: "feed step (frame p) s = ([p], t)" "idle t" using reads_frame by fastforce
  then obtain u where "feed step (concat (map frame ps)) t = (ps, u)" "idle u" using Cons by fastforce
  then show ?case using t by (simp add: feed_append)
qed simp

end

end
