(* ===== verification/Slip.thy ===== *)
theory Slip
  imports Streams
begin

text \<open>
  The SLIP driver, \<open>driver/slip.c\<close>: a DLPI device on the network side and a STREAMS module pushed on a
  terminal, with a table of interfaces between them. Sending escapes a packet into one terminal message;
  receiving takes the terminal's bytes apart.

  The block a packet is assembled in (\<open>curblk\<close>) is its bytes and its room; in a call of
  \<open>ttyrput\<close> the local \<open>outmp\<close> always equals it. Writing past the room of a block, a null
  interface queue and a read past \<open>sliptab\<close> are the value \<open>None\<close>.
\<close>

section \<open>State\<close>

abbreviation (input) SLIP_MAXDEV :: nat where "SLIP_MAXDEV \<equiv> 5"
abbreviation (input) SLIP_MIN :: nat where "SLIP_MIN \<equiv> 1"
abbreviation (input) SLIP_MAX :: nat where "SLIP_MAX \<equiv> 1006"
abbreviation (input) SLIP_WHICH_INTERFACE :: u32 where "SLIP_WHICH_INTERFACE \<equiv> 0x736C7768" \<comment> \<open>\<open>'slwh'\<close>\<close>

abbreviation (input) FRAME_END :: byte where "FRAME_END \<equiv> 0xC0"
abbreviation (input) FRAME_ESCAPE :: byte where "FRAME_ESCAPE \<equiv> 0xDB"
abbreviation (input) TRANSPOSED_FRAME_END :: byte where "TRANSPOSED_FRAME_END \<equiv> 0xDC"
abbreviation (input) TRANSPOSED_FRAME_ESCAPE :: byte where "TRANSPOSED_FRAME_ESCAPE \<equiv> 0xDD"

text \<open>The fields of \<open>struct ifreq\<close> the driver reads.\<close>

record ifreq =
  ifr_name :: "byte list"
  ifr_flags :: u32

datatype sblob = IfreqBlk ifreq

record slipdev =
  dlpiq :: "queue option"
  ttyq :: "queue option"
  sl_state :: dl_state
  sl_stats :: ifstats
  sl_if_flags :: u32
  sl_ifname :: "byte list"
  curblk :: "(byte list \<times> nat) option"
  escaped :: bool

record sst = "sblob tstate" +
  sliptab :: "slipdev list"
  sl_ptr :: "queue \<Rightarrow> nat option"
  sl_chain :: "nat list"

type_synonym senv = "sblob env"

definition zero_slip :: slipdev where
  "zero_slip = \<lparr>dlpiq = None, ttyq = None, sl_state = DL_UNBOUND, sl_stats = zero_ifstats, sl_if_flags = 0,
     sl_ifname = replicate 20 0, curblk = None, escaped = False\<rparr>"

definition init_sst :: sst where
  "init_sst = \<lparr>tr = [], sliptab = replicate SLIP_MAXDEV zero_slip, sl_ptr = (\<lambda>_. None), sl_chain = []\<rparr>"

definition slip :: "nat \<Rightarrow> sst \<Rightarrow> slipdev" where
  "slip i s = sliptab s ! i"

definition on_slip :: "nat \<Rightarrow> (slipdev \<Rightarrow> slipdev) \<Rightarrow> sst \<Rightarrow> sst" where
  "on_slip i f s = s\<lparr>sliptab := (sliptab s)[i := f (sliptab s ! i)]\<rparr>"

definition on_stats :: "nat \<Rightarrow> (ifstats \<Rightarrow> ifstats) \<Rightarrow> sst \<Rightarrow> sst" where
  "on_stats i f = on_slip i (\<lambda>d. d\<lparr>sl_stats := f (sl_stats d)\<rparr>)"

section \<open>Sending\<close>

text \<open>What one payload byte becomes on the line, and a whole packet with its end mark.\<close>

definition escape :: "byte \<Rightarrow> byte list" where
  "escape c =
    (if c = FRAME_ESCAPE then [FRAME_ESCAPE, TRANSPOSED_FRAME_ESCAPE]
     else if c = FRAME_END then [FRAME_ESCAPE, TRANSPOSED_FRAME_END]
     else [c])"

fun escape_blocks :: "(mtype \<times> sblob content) list \<Rightarrow> byte list option" where
  "escape_blocks [] = Some [FRAME_END]"
| "escape_blocks ((_, c) # bs) =
    (case c of Bytes xs \<Rightarrow> map_option ((@) (concat (map escape xs))) (escape_blocks bs) | _ \<Rightarrow> None)"

text \<open>The boolean says whether the packet was sent.\<close>

definition slipxmit :: "senv \<Rightarrow> nat \<Rightarrow> sblob msg \<Rightarrow> sst \<Rightarrow> (bool \<times> sst) option" where
  "slipxmit E i mp s =
    (case ttyq (slip i s) of
       None \<Rightarrow> None
     | Some q \<Rightarrow>
         if \<not> e_canput E (tr s) (WR q) then Some (False, s)
         else
           let lim = e_dblim E (tr s) (2 * SLIP_MAX);
               (ok, s) = allocb E (2 * SLIP_MAX) s
           in if \<not> ok then Some (False, on_stats i (\<lambda>f. f\<lparr>ifs_oerrors := ifs_oerrors f + 1\<rparr>) s)
              else
                (case escape_blocks (b_cont mp) of
                   None \<Rightarrow> None
                 | Some out \<Rightarrow>
                     if length out > lim then None
                     else
                       let s = on_stats i (\<lambda>f. f\<lparr>ifs_opackets := ifs_opackets f + 1\<rparr>) s;
                           s = call (Putnext (WR q) (Msg M_DATA (Bytes out) [])) s
                       in Some (True, call (Freemsg mp) s)))"

section \<open>The DLPI side\<close>

definition dlpiopen :: "senv \<Rightarrow> queue \<Rightarrow> nat \<Rightarrow> open_flag \<Rightarrow> sst \<Rightarrow> errno option \<times> sst" where
  "dlpiopen E rq mindev sflag s =
    (if sflag = MODOPEN then (Some EINVAL, s)
     else if sflag = CLONEOPEN then (Some EINVAL, s)
     else if mindev \<ge> SLIP_MAXDEV then (Some EINVAL, s)
     else if sl_ptr s rq = None then
       let s = on_slip mindev (\<lambda>d. d\<lparr>sl_if_flags := e_const E ''IFF_POINTOPOINT'' OR e_const E ''IFF_NOTRAILERS''
                 OR e_const E ''IFF_NOARP'' OR e_const E ''IFF_RUNNING''\<rparr>) s;
           s = (if ifs_name (sl_stats (slip mindev s)) = None
                then (on_stats mindev (\<lambda>f. f\<lparr>ifs_name := Some ''sl'', ifs_unit := mindev\<rparr>) s)
                  \<lparr>sl_chain := mindev # sl_chain s\<rparr>
                else s);
           s = on_stats mindev (\<lambda>f. f\<lparr>ifs_active := 1, ifs_mtu := SLIP_MAX, ifs_ipackets := 0, ifs_ierrors := 0,
                 ifs_opackets := 0, ifs_oerrors := 0\<rparr>) s;
           s = s\<lparr>sl_ptr := (sl_ptr s)(WR rq := Some mindev, rq := Some mindev)\<rparr>
       in (None, on_slip mindev (\<lambda>d. d\<lparr>dlpiq := Some rq\<rparr>) s)
     else (None, s))"

definition dlpiclose :: "queue \<Rightarrow> sst \<Rightarrow> sst option" where
  "dlpiclose rq s =
    (case sl_ptr s rq of
       None \<Rightarrow> None
     | Some i \<Rightarrow>
         let s = on_stats i (\<lambda>f. f\<lparr>ifs_active := 0, ifs_ipackets := 0, ifs_ierrors := 0, ifs_opackets := 0,
                   ifs_oerrors := 0\<rparr>) s;
             s = on_slip i (\<lambda>d. d\<lparr>dlpiq := None\<rparr>) s
         in Some (s\<lparr>sl_ptr := (sl_ptr s)(OTHERQ rq := None, rq := None)\<rparr>))"

text \<open>\<open>strncpy(dst, src, n)\<close> from a buffer that must end the string or hold \<open>n\<close> bytes.\<close>

fun strncpy :: "byte list \<Rightarrow> nat \<Rightarrow> byte list option" where
  "strncpy src 0 = Some []"
| "strncpy [] (Suc n) = None"
| "strncpy (c # cs) (Suc n) = (if c = 0 then Some (replicate (Suc n) 0) else map_option ((#) c) (strncpy cs n))"

text \<open>The ioctls that need no work here.\<close>

definition noop_ioctls :: "string list" where
  "noop_ioctls = [''SIOCGIFFLAGS'', ''SIOCSIFADDR'', ''SIOCSIFNETMASK'', ''SIOCSIFMETRIC'', ''SIOCSIFBRDADDR'',
     ''SIOCSIFDSTADDR'', ''SIOCGIFADDR'', ''SIOCGIFNETMASK'', ''SIOCGIFMETRIC'', ''SIOCGIFBRDADDR'',
     ''SIOCGIFDSTADDR'', ''SIOCIFDETACH'']"

definition ioc_ack :: "queue \<Rightarrow> nat \<Rightarrow> ctlblk \<Rightarrow> (mtype \<times> sblob content) list \<Rightarrow> sst \<Rightarrow> sst" where
  "ioc_ack q i cb cont s =
    call (Qreply q (Msg M_IOCACK (Ctl (cb\<lparr>ioc_ifflags := sl_if_flags (slip i s)\<rparr>)) cont)) s"

definition do_dlpiioctl :: "senv \<Rightarrow> queue \<Rightarrow> sblob msg \<Rightarrow> sst \<Rightarrow> sst option" where
  "do_dlpiioctl E q mp s =
    (case (sl_ptr s q, body mp) of
       (Some i, Bytes bs) \<Rightarrow>
         if length bs < e_sizeof E ''struct iocblk''
         then Some (call (Qreply q (Msg M_IOCNAK (Bytes bs) (b_cont mp))) s) else None
     | (Some i, Ctl cb) \<Rightarrow>
         if ioc_count cb = TRANSPARENT
         then Some (call (Qreply q (Msg M_IOCNAK (Ctl (cb\<lparr>ioc_error := Some EINVAL\<rparr>)) (b_cont mp))) s)
         else
           (case b_cont mp of
              [] \<Rightarrow> None
            | (ty, c) # rest \<Rightarrow>
                if ioc_cmd cb = e_const E ''SIOCSIFNAME'' then
                  (case c of
                     Drv (IfreqBlk r) \<Rightarrow>
                       map_option (\<lambda>n. ioc_ack q i cb (b_cont mp) (on_slip i (\<lambda>d. d\<lparr>sl_ifname := n\<rparr>) s))
                         (strncpy (ifr_name r) 20)
                   | _ \<Rightarrow> None)
                else if ioc_cmd cb = e_const E ''SIOCSIFFLAGS'' then
                  (case c of
                     Drv (IfreqBlk r) \<Rightarrow>
                       Some (ioc_ack q i cb (b_cont mp) (on_slip i (\<lambda>d. d\<lparr>sl_if_flags := ifr_flags r\<rparr>) s))
                   | _ \<Rightarrow> None)
                else if ioc_cmd cb \<in> set (map (e_const E) noop_ioctls) then Some (ioc_ack q i cb (b_cont mp) s)
                else Some (call (Qreply q (Msg M_IOCNAK (Ctl cb) (b_cont mp)))
                       (call (Printf ''sl%d: NAKing ioctl cmd 0x%x\<newline>'') s)))
     | _ \<Rightarrow> None)"

definition slip_info :: "dl_state \<Rightarrow> dl_reply" where
  "slip_info st =
    DL_INFO_ACK
      \<lparr>ia_max_sdu = SLIP_MAX, ia_min_sdu = SLIP_MIN, ia_addr_length = 0, ia_mac_type = DL_ETHER, ia_reserved = 0,
       ia_current_state = Some st, ia_max_idu = SLIP_MAX, ia_service_mode = DL_CLDLS, ia_qos_length = 0,
       ia_qos_offset = 0, ia_qos_range_length = 0, ia_qos_range_offset = 0, ia_provider_style = DL_STYLE1,
       ia_growth = 0, ia_addr_offset = 0\<rparr> []"

definition slip_bind :: dl_reply where
  "slip_bind = DL_BIND_ACK \<lparr>ba_sap = 0, ba_addr_length = 0, ba_addr_offset = 0, ba_max_conind = 0, ba_growth = 0\<rparr> []"

text \<open>An unbind changes the state and keeps the message. The style-2 requests are unknown here.\<close>

definition do_dlpiproto :: "senv \<Rightarrow> queue \<Rightarrow> sblob msg \<Rightarrow> sst \<Rightarrow> sst option" where
  "do_dlpiproto E q mp s =
    (case (sl_ptr s q, body mp) of
       (Some i, Req p) \<Rightarrow>
         (case p of
            DL_UNITDATA_REQ off bs \<Rightarrow>
              if e_q_first E (tr s) q then Some (call (Putq q mp) s)
              else
                (case slipxmit E i mp s of
                   None \<Rightarrow> None
                 | Some (sent, s) \<Rightarrow> Some (if sent then s else call (Putq q mp) s))
          | DL_BIND_REQ sap \<Rightarrow>
              let s = on_slip i (\<lambda>d. d\<lparr>sl_state := DL_IDLE\<rparr>) s;
                  s = call (Freemsg mp) s;
                  (ok, s) = allocb E (e_sizeof E ''dl_bind_ack_t'') s
              in Some (if ok then call (Qreply q (Msg M_PCPROTO (Reply slip_bind) [])) s else s)
          | DL_UNBIND_REQ \<Rightarrow> Some (on_slip i (\<lambda>d. d\<lparr>sl_state := DL_UNBOUND\<rparr>) s)
          | DL_INFO_REQ \<Rightarrow>
              let s = call (Freemsg mp) s;
                  (ok, s) = allocb E (e_sizeof E ''dl_info_ack_t'') s
              in Some (if ok then call (Qreply q (Msg M_PCPROTO (Reply (slip_info (sl_state (slip i s)))) [])) s else s)
          | _ \<Rightarrow> Some (call (Freemsg mp) (call (Printf ''slipproto: unknown proto request: 0x%x'') s)))
     | _ \<Rightarrow> None)"

definition dlpiwput :: "senv \<Rightarrow> queue \<Rightarrow> sblob msg \<Rightarrow> sst \<Rightarrow> sst option" where
  "dlpiwput E q mp s =
    (case db_type mp of
       M_FLUSH \<Rightarrow> flush_msg q mp s
     | M_PROTO \<Rightarrow> do_dlpiproto E q mp s
     | M_PCPROTO \<Rightarrow> do_dlpiproto E q mp s
     | M_IOCTL \<Rightarrow> do_dlpiioctl E q mp s
     | _ \<Rightarrow> Some (call (Freemsg mp) (call (Printf ''sl%d: funny msg type 0x%x'') s)))"

text \<open>The service procedures do nothing.\<close>

definition dlpiwsrv :: "sst \<Rightarrow> sst" where
  "dlpiwsrv s = s"

section \<open>The terminal side\<close>

text \<open>
  The search runs while \<open>ttyq\<close> is set and tests the bound only inside the loop: with all entries
  taken it reads the entry behind the table.
\<close>

definition ttyopen :: "queue \<Rightarrow> open_flag \<Rightarrow> sst \<Rightarrow> (errno option \<times> sst) option" where
  "ttyopen rq sflag s =
    (if sflag \<noteq> MODOPEN then Some (Some EINVAL, s)
     else
       case sl_ptr s rq of
         Some i \<Rightarrow> Some (None, s)
       | None \<Rightarrow>
           let i = scan (\<lambda>j. ttyq (slip j s) = None) 0 SLIP_MAXDEV
           in if i < SLIP_MAXDEV then
                let s = on_slip i (\<lambda>d. d\<lparr>ttyq := Some rq\<rparr>) s;
                    s = s\<lparr>sl_ptr := (sl_ptr s)(WR rq := Some i, rq := Some i)\<rparr>
                in Some (None, on_slip i (\<lambda>d. d\<lparr>escaped := False\<rparr>) s)
              else None)"

definition ttyclose :: "queue \<Rightarrow> sst \<Rightarrow> sst option" where
  "ttyclose rq s =
    (case sl_ptr s rq of
       None \<Rightarrow> None
     | Some i \<Rightarrow>
         let s = on_slip i (\<lambda>d. d\<lparr>ttyq := None\<rparr>) s
         in Some (case curblk (slip i s) of
              None \<Rightarrow> s
            | Some (buf, lim) \<Rightarrow> on_slip i (\<lambda>d. d\<lparr>curblk := None\<rparr>) (call (Freeb (Msg M_DATA (Bytes buf) [])) s)))"

definition ttywsrv :: "sst \<Rightarrow> sst" where
  "ttywsrv s = s"

definition do_ttyioctl :: "queue \<Rightarrow> sblob msg \<Rightarrow> sst \<Rightarrow> sst option" where
  "do_ttyioctl q mp s =
    (case body mp of
       Ctl cb \<Rightarrow>
         if ioc_cmd cb = SLIP_WHICH_INTERFACE then
           (case sl_ptr s q of
              None \<Rightarrow> None
            | Some i \<Rightarrow> Some (call (Putnext (RD q) (Msg M_IOCACK
                 (Ctl (cb\<lparr>ioc_count := 0, ioc_rval := of_nat i, ioc_error := None\<rparr>)) [])) (free_cont (b_cont mp) s)))
         else Some (call (Putnext (RD q) (Msg M_IOCNAK
                (Ctl (cb\<lparr>ioc_count := 0, ioc_rval := 0, ioc_error := Some EINVAL\<rparr>)) [])) (free_cont (b_cont mp) s))
     | _ \<Rightarrow> None)"

definition tty_flush :: "queue \<Rightarrow> sblob msg \<Rightarrow> sst \<Rightarrow> sst option" where
  "tty_flush q mp s =
    (case body mp of
       Bytes (b # bs) \<Rightarrow>
         Some (if b = FLUSHR OR FLUSHW then call (Putnext (RD q) (Msg M_FLUSH (Bytes (FLUSHR # bs)) (b_cont mp))) s
               else if b = FLUSHR then call (Putnext (RD q) mp) s
               else if b = FLUSHW then call (Freemsg mp) s
               else s)
     | _ \<Rightarrow> None)"

definition ttywput :: "queue \<Rightarrow> sblob msg \<Rightarrow> sst \<Rightarrow> sst option" where
  "ttywput q mp s =
    (case db_type mp of
       M_DATA \<Rightarrow> Some (call (Freemsg mp) s)
     | M_IOCTL \<Rightarrow> do_ttyioctl q mp s
     | M_IOCDATA \<Rightarrow> do_ttyioctl q mp s
     | M_FLUSH \<Rightarrow> tty_flush q mp s
     | M_CTL \<Rightarrow> Some (call (Putnext (RD q) (Msg M_IOCNAK (body mp) (b_cont mp))) s)
     | _ \<Rightarrow>
         if db_type mp \<in> {M_BREAK, M_START, M_STOP, M_DELAY, M_STARTI, M_STOPI, M_READ}
         then Some (call (Freemsg mp) s)
         else Some (call (Freemsg mp) (call (Printf ''wput: got an unknown message 0x%x\<newline>'') s)))"

definition ttyrsrv :: "sst \<Rightarrow> sst" where
  "ttyrsrv s = s"

section \<open>Receiving\<close>

definition slip_ind :: "senv \<Rightarrow> byte list \<Rightarrow> sblob msg" where
  "slip_ind E buf =
    Msg M_PROTO
      (Reply (DL_UNITDATA_IND
        \<lparr>ui_dest_addr_length = 0, ui_dest_addr_offset = e_sizeof E ''dl_unitdata_ind_t'', ui_src_addr_length = 0,
         ui_src_addr_offset = e_sizeof E ''dl_unitdata_ind_t'', ui_reserved = 0\<rparr> []))
      [(M_DATA, Bytes buf)]"

text \<open>An end mark: a non-empty packet goes up if the network side has room, and stays otherwise.\<close>

definition frame_end :: "senv \<Rightarrow> nat \<Rightarrow> sst \<Rightarrow> sst option" where
  "frame_end E i s =
    (case curblk (slip i s) of
       None \<Rightarrow> Some s
     | Some (buf, lim) \<Rightarrow>
         if buf = [] then Some s
         else
           (case dlpiq (slip i s) of
              None \<Rightarrow> None
            | Some dq \<Rightarrow>
                if e_canput E (tr s) dq then
                  let (ok, s) = allocb E (e_sizeof E ''dl_unitdata_ind_t'') s;
                      s = (if ok then call (Putnext dq (slip_ind E buf))
                                 (on_stats i (\<lambda>f. f\<lparr>ifs_ipackets := ifs_ipackets f + 1\<rparr>) s)
                           else call (Freemsg (Msg M_DATA (Bytes buf) [])) s)
                  in Some (on_slip i (\<lambda>d. d\<lparr>curblk := None\<rparr>) s)
                else Some s))"

definition unescape :: "byte \<Rightarrow> byte" where
  "unescape c =
    (if c = TRANSPOSED_FRAME_ESCAPE then FRAME_ESCAPE
     else if c = TRANSPOSED_FRAME_END then FRAME_END else c)"

text \<open>Any other byte: a packet too large for its block is dropped and the block started over.\<close>

definition plain_char :: "senv \<Rightarrow> nat \<Rightarrow> byte \<Rightarrow> sst \<Rightarrow> sst option" where
  "plain_char E i c s =
    (let (c, s) = (if escaped (slip i s) then (unescape c, on_slip i (\<lambda>d. d\<lparr>escaped := False\<rparr>) s) else (c, s))
     in case curblk (slip i s) of
          None \<Rightarrow>
            let lim = e_dblim E (tr s) SLIP_MAX;
                (ok, s) = allocb E SLIP_MAX s
            in if \<not> ok then Some (on_stats i (\<lambda>f. f\<lparr>ifs_ierrors := ifs_ierrors f + 1\<rparr>) s)
               else if lim = 0 then None
               else Some (on_slip i (\<lambda>d. d\<lparr>curblk := Some ([c], lim)\<rparr>) s)
        | Some (buf, lim) \<Rightarrow>
            let (buf, s) = (if length buf \<ge> lim
                            then ([], on_stats i (\<lambda>f. f\<lparr>ifs_ierrors := ifs_ierrors f + 1\<rparr>) s) else (buf, s))
            in if lim = 0 then None
               else Some (on_slip i (\<lambda>d. d\<lparr>curblk := Some (buf @ [c], lim)\<rparr>) s))"

definition slip_char :: "senv \<Rightarrow> nat \<Rightarrow> byte \<Rightarrow> sst \<Rightarrow> sst option" where
  "slip_char E i c s =
    (if c = FRAME_END then frame_end E i s
     else if c = FRAME_ESCAPE then Some (on_slip i (\<lambda>d. d\<lparr>escaped := True\<rparr>) s)
     else plain_char E i c s)"

text \<open>Only the first block of a message is read.\<close>

definition ttyrput :: "senv \<Rightarrow> queue \<Rightarrow> sblob msg \<Rightarrow> sst \<Rightarrow> sst option" where
  "ttyrput E q inmp s =
    (if db_type inmp = M_DATA then
       (case (sl_ptr s q, body inmp) of
          (Some i, Bytes bs) \<Rightarrow> map_option (call (Freemsg inmp)) (run (slip_char E i) bs s)
        | _ \<Rightarrow> None)
     else Some (call (Putnext q inmp) s))"

end
