(* ===== verification/Slip_Link.thy ===== *)
theory Slip_Link
  imports Slip Framing
begin

text \<open>
  A SLIP line: the frames \<open>slipxmit\<close> makes and the receiver \<open>ttyrput\<close> as a framing codec, the
  round trip through the drivers of both ends, and what goes wrong on a full queue.
\<close>

section \<open>The codec\<close>

definition slip_frame :: "byte list \<Rightarrow> byte list" where
  "slip_frame xs = concat (map escape xs) @ [FRAME_END]"

text \<open>The receiver without the kernel: the packet so far and the escape state, with \<open>lim\<close> bytes room.\<close>

definition slip_rx :: "nat \<Rightarrow> byte \<Rightarrow> byte list \<times> bool \<Rightarrow> byte list list \<times> (byte list \<times> bool)" where
  "slip_rx lim c st =
    (let (buf, esc) = st
     in if c = FRAME_END then (if buf = [] then ([], buf, esc) else ([buf], [], esc))
        else if c = FRAME_ESCAPE then ([], buf, True)
        else ([], (if length buf \<ge> lim then [] else buf) @ [if esc then unescape c else c], False))"

lemma feed_escape:
  "length buf < lim \<Longrightarrow> feed (slip_rx lim) (escape c) (buf, False) = ([], buf @ [c], False)"
  by (simp add: escape_def slip_rx_def unescape_def)

lemma feed_payload:
  "length buf + length xs \<le> lim \<Longrightarrow>
    feed (slip_rx lim) (concat (map escape xs)) (buf, False) = ([], buf @ xs, False)"
  by (induction xs arbitrary: buf) (simp_all add: feed_append feed_escape)

interpretation slip: framing slip_frame "slip_rx lim" "\<lambda>st. st = ([], False)" "\<lambda>p. p \<noteq> [] \<and> length p \<le> lim"
  for lim
proof
  fix s :: "byte list \<times> bool" and p :: "byte list" assume "s = ([], False)" "p \<noteq> [] \<and> length p \<le> lim"
  then show "\<exists>t. feed (slip_rx lim) (slip_frame p) s = ([p], t) \<and> t = ([], False)"
    by (intro exI [of _ "([], False)"]) (simp add: slip_frame_def feed_append feed_payload slip_rx_def)
qed

lemma escape_plain: "FRAME_END \<notin> set (escape c)"
  by (simp add: escape_def)

lemma length_escape: "length (concat (map escape xs)) \<le> 2 * length xs"
  by (induction xs) (simp_all add: escape_def)

lemma length_slip_frame:
  "length (slip_frame xs) = 1 + length xs + length (filter (\<lambda>c. c = FRAME_END \<or> c = FRAME_ESCAPE) xs)"
  by (induction xs) (auto simp: slip_frame_def escape_def)

section \<open>Reading the state\<close>

lemma on_slip_lens [lens]:
  "tr (on_slip i f s) = tr s" "sl_ptr (on_slip i f s) = sl_ptr s" "sl_chain (on_slip i f s) = sl_chain s"
  "length (sliptab (on_slip i f s)) = length (sliptab s)"
  by (simp_all add: on_slip_def)

lemma on_stats_lens [lens]:
  "tr (on_stats i f s) = tr s" "sl_ptr (on_stats i f s) = sl_ptr s" "sl_chain (on_stats i f s) = sl_chain s"
  "length (sliptab (on_stats i f s)) = length (sliptab s)"
  by (simp_all add: on_stats_def lens)

lemma call_slip [lens]:
  "sliptab (call e s) = sliptab s" "sl_ptr (call e s) = sl_ptr s" "sl_chain (call e s) = sl_chain s"
  "slip i (call e s) = slip i s"
  by (simp_all add: call_def slip_def)

lemma slip_on_slip: "i < length (sliptab s) \<Longrightarrow> slip j (on_slip i f s) = (if j = i then f (slip i s) else slip j s)"
  by (simp add: slip_def on_slip_def)

lemma slip_on_stats:
  "i < length (sliptab s) \<Longrightarrow>
    slip j (on_stats i f s) = (if j = i then (slip i s)\<lparr>sl_stats := f (sl_stats (slip i s))\<rparr> else slip j s)"
  by (simp add: on_stats_def slip_on_slip)

section \<open>The receiver implements the codec\<close>

text \<open>There is memory, and blocks have \<open>lim\<close> bytes; the network side has room as well.\<close>

definition rx_mem :: "senv \<Rightarrow> nat \<Rightarrow> bool" where
  "rx_mem E lim \<longleftrightarrow> (\<forall>h n. e_allocb E h n) \<and> (\<forall>h. e_dblim E h SLIP_MAX = lim)"

definition rx_env :: "senv \<Rightarrow> nat \<Rightarrow> bool" where
  "rx_env E lim \<longleftrightarrow> rx_mem E lim \<and> (\<forall>h q. e_canput E h q)"

definition rx_abs :: "nat \<Rightarrow> sst \<Rightarrow> byte list \<times> bool" where
  "rx_abs i s = ((case curblk (slip i s) of None \<Rightarrow> [] | Some (buf, l) \<Rightarrow> buf), escaped (slip i s))"

definition rx_good :: "nat \<Rightarrow> nat \<Rightarrow> queue \<Rightarrow> sst \<Rightarrow> bool" where
  "rx_good lim i dq s \<longleftrightarrow> 0 < lim \<and> i < length (sliptab s) \<and> dlpiq (slip i s) = Some dq \<and>
     (case curblk (slip i s) of None \<Rightarrow> True | Some (buf, l) \<Rightarrow> l = lim \<and> buf \<noteq> [])"

definition ipackets :: "nat \<Rightarrow> sst \<Rightarrow> u32" where
  "ipackets i s = ifs_ipackets (sl_stats (slip i s))"

text \<open>Packets \<open>ps\<close> have gone up, and nothing else has.\<close>

definition went_up :: "senv \<Rightarrow> nat \<Rightarrow> queue \<Rightarrow> byte list list \<Rightarrow> sst \<Rightarrow> sst \<Rightarrow> bool" where
  "went_up E i dq ps s t \<longleftrightarrow> passed (tr t) = passed (tr s) @ map (\<lambda>p. (dq, slip_ind E p)) ps \<and>
     ipackets i t = ipackets i s + of_nat (length ps) \<and> sl_ptr t = sl_ptr s"

lemma slip_char_codec:
  assumes "rx_mem E lim" "c = FRAME_END \<longrightarrow> (\<forall>h q. e_canput E h q)" "rx_good lim i dq s"
  shows "\<exists>t. slip_char E i c s = Some t \<and> rx_good lim i dq t \<and>
    rx_abs i t = snd (slip_rx lim c (rx_abs i s)) \<and> went_up E i dq (fst (slip_rx lim c (rx_abs i s))) s t"
proof -
  note simps = slip_char_def frame_end_def plain_char_def slip_rx_def rx_good_def rx_abs_def rx_mem_def went_up_def
    allocb_def Let_def lens slip_on_slip slip_on_stats ipackets_def
  note l = assms [unfolded rx_mem_def rx_good_def]
  show ?thesis
  proof (cases "curblk (slip i s)")
    case None
    then show ?thesis using l by (cases "escaped (slip i s)") (auto simp: simps)
  next
    case (Some b)
    obtain buf where b: "b = (buf, lim)" "buf \<noteq> []" using l Some by (cases b) auto
    then show ?thesis using l Some by (cases "escaped (slip i s)") (auto simp: simps)
  qed
qed

lemma went_up_trans: "went_up E i dq ps s t \<Longrightarrow> went_up E i dq qs t u \<Longrightarrow> went_up E i dq (ps @ qs) s u"
  by (simp add: went_up_def)

lemma slip_chars_codec:
  assumes "rx_mem E lim" "FRAME_END \<in> set cs \<longrightarrow> (\<forall>h q. e_canput E h q)" "rx_good lim i dq s"
  shows "\<exists>t. run (slip_char E i) cs s = Some t \<and> rx_good lim i dq t \<and>
    rx_abs i t = snd (feed (slip_rx lim) cs (rx_abs i s)) \<and> went_up E i dq (fst (feed (slip_rx lim) cs (rx_abs i s))) s t"
  using assms(2,3)
proof (induction cs arbitrary: s)
  case Nil
  then show ?case by (simp add: went_up_def)
next
  case (Cons c cs)
  obtain t where t: "slip_char E i c s = Some t" "rx_good lim i dq t" "rx_abs i t = snd (slip_rx lim c (rx_abs i s))"
    "went_up E i dq (fst (slip_rx lim c (rx_abs i s))) s t"
    using slip_char_codec [OF assms(1) _ Cons.prems(2), of c] Cons.prems(1) by auto
  show ?case
    using Cons.IH [OF _ t(2)] Cons.prems(1) t went_up_trans [OF t(4)] by (auto simp: Let_def split_def)
qed

lemma rx_good_call: "rx_good lim i dq (call e s) = rx_good lim i dq s" "rx_abs i (call e s) = rx_abs i s"
  by (simp_all add: rx_good_def rx_abs_def lens)

lemma went_up_ptr: "went_up E i dq ps s t \<Longrightarrow> sl_ptr t = sl_ptr s"
  by (simp add: went_up_def)

text \<open>Whole messages, however the line cuts the stream.\<close>

definition tty_data :: "byte list \<Rightarrow> sblob msg" where
  "tty_data bs = Msg M_DATA (Bytes bs) []"

lemma ttyrput_codec:
  assumes "rx_env E lim" "rx_good lim i dq s" "sl_ptr s q = Some i"
  shows "\<exists>t. ttyrput E q (tty_data bs) s = Some t \<and> rx_good lim i dq t \<and>
    rx_abs i t = snd (feed (slip_rx lim) bs (rx_abs i s)) \<and> went_up E i dq (fst (feed (slip_rx lim) bs (rx_abs i s))) s t"
  using slip_chars_codec [of E lim bs i dq s] assms
  by (auto simp: rx_env_def ttyrput_def tty_data_def rx_good_call went_up_def lens ipackets_def)

lemma ttyrputs_codec:
  assumes "rx_env E lim" "rx_good lim i dq s" "sl_ptr s q = Some i"
  shows "\<exists>t. run (\<lambda>bs. ttyrput E q (tty_data bs)) chunks s = Some t \<and> rx_good lim i dq t \<and>
    rx_abs i t = snd (feed (slip_rx lim) (concat chunks) (rx_abs i s)) \<and>
    went_up E i dq (fst (feed (slip_rx lim) (concat chunks) (rx_abs i s))) s t"
  using assms(2,3)
proof (induction chunks arbitrary: s)
  case Nil
  then show ?case by (simp add: went_up_def)
next
  case (Cons bs chunks)
  obtain t where t: "ttyrput E q (tty_data bs) s = Some t" "rx_good lim i dq t"
    "rx_abs i t = snd (feed (slip_rx lim) bs (rx_abs i s))" "went_up E i dq (fst (feed (slip_rx lim) bs (rx_abs i s))) s t"
    using ttyrput_codec [OF assms(1) Cons.prems] by blast
  have "sl_ptr t q = Some i" using went_up_ptr [OF t(4)] Cons.prems(2) by simp
  then show ?case
    using Cons.IH [OF t(2)] t went_up_trans [OF t(4)] by (auto simp: Let_def split_def feed_append)
qed

section \<open>The sender\<close>

definition payload :: "sblob msg \<Rightarrow> byte list" where
  "payload mp = concat (map (\<lambda>(ty, c). case c of Bytes xs \<Rightarrow> xs | _ \<Rightarrow> []) (b_cont mp))"

definition is_data_req :: "sblob msg \<Rightarrow> bool" where
  "is_data_req mp \<longleftrightarrow> (db_type mp = M_PROTO \<or> db_type mp = M_PCPROTO) \<and> (\<exists>off bs. body mp = Req (DL_UNITDATA_REQ off bs)) \<and>
     list_all (\<lambda>(ty, c). \<exists>xs. c = Bytes xs) (b_cont mp)"

lemma escape_blocks_payload:
  "list_all (\<lambda>(ty, c). \<exists>xs. c = Bytes xs) bs \<Longrightarrow>
    escape_blocks bs = Some (slip_frame (concat (map (\<lambda>(ty, c). case c of Bytes xs \<Rightarrow> xs | _ \<Rightarrow> []) bs)))"
  by (induction bs) (auto simp: slip_frame_def)

definition tx_env :: "senv \<Rightarrow> bool" where
  "tx_env E \<longleftrightarrow> (\<forall>h q. e_canput E h q) \<and> (\<forall>h n. e_allocb E h n) \<and> (\<forall>h q. \<not> e_q_first E h q) \<and>
     (\<forall>h n. n \<le> e_dblim E h n)"

lemma slipxmit_sends:
  assumes "tx_env E" "i < length (sliptab s)" "ttyq (slip i s) = Some tq" "is_data_req mp" "length (slip_frame (payload mp)) \<le> 2 * SLIP_MAX"
  shows "\<exists>t. slipxmit E i mp s = Some (True, t) \<and> sl_ptr t = sl_ptr s \<and> i < length (sliptab t) \<and>
    ttyq (slip i t) = Some tq \<and> freed (tr t) = freed (tr s) @ [mp] \<and>
    passed (tr t) = passed (tr s) @ [(WR tq, tty_data (slip_frame (payload mp)))]"
proof -
  have "escape_blocks (b_cont mp) = Some (slip_frame (payload mp))"
    using assms(4) escape_blocks_payload by (simp add: is_data_req_def payload_def)
  moreover have "2 * SLIP_MAX \<le> e_dblim E h (2 * SLIP_MAX)" for h using assms(1) by (simp add: tx_env_def)
  then have "\<not> length (slip_frame (payload mp)) > e_dblim E h (2 * SLIP_MAX)" for h
    using assms(5) by (meson leD le_trans)
  ultimately show ?thesis
    using assms(1-3) by (simp add: slipxmit_def tx_env_def allocb_def Let_def lens slip_on_stats tty_data_def)
qed

lemma dlpiwput_sends:
  assumes "tx_env E" "sl_ptr s q = Some i" "i < length (sliptab s)" "ttyq (slip i s) = Some tq"
    and "list_all is_data_req ms" "list_all (\<lambda>mp. length (slip_frame (payload mp)) \<le> 2 * SLIP_MAX) ms"
  shows "\<exists>t. run (dlpiwput E q) ms s = Some t \<and>
    passed (tr t) = passed (tr s) @ map (\<lambda>mp. (WR tq, tty_data (slip_frame (payload mp)))) ms \<and>
    freed (tr t) = freed (tr s) @ ms"
  using assms(2-)
proof (induction ms arbitrary: s)
  case (Cons mp ms)
  obtain t where t: "slipxmit E i mp s = Some (True, t)" "sl_ptr t = sl_ptr s" "i < length (sliptab t)"
    "ttyq (slip i t) = Some tq" "freed (tr t) = freed (tr s) @ [mp]"
    "passed (tr t) = passed (tr s) @ [(WR tq, tty_data (slip_frame (payload mp)))]"
    using slipxmit_sends [OF assms(1) Cons.prems(2,3), of mp] Cons.prems(4,5) by auto
  have "\<not> e_q_first E (tr s) q" using assms(1) by (simp add: tx_env_def)
  then have "dlpiwput E q mp s = Some t"
    using t(1) Cons.prems(1,4) by (auto simp: dlpiwput_def do_dlpiproto_def is_data_req_def)
  moreover have "sl_ptr t q = Some i" using t(2) Cons.prems(1) by simp
  ultimately show ?case using Cons.IH [OF _ t(3,4)] t(5,6) Cons.prems(4,5) by auto
qed simp

section \<open>Properties\<close>

definition line_bytes :: "(queue \<times> sblob msg) list \<Rightarrow> byte list" where
  "line_bytes out = concat (map (\<lambda>(q, m). case body m of Bytes bs \<Rightarrow> bs | _ \<Rightarrow> []) out)"

text \<open>
  C7. SLIP round trip through both drivers: data requests with payloads of 1 to 1005 bytes, put to the
  network side of one driver, go out as terminal messages, are all freed, and the bytes of those messages, cut by the
  line into chunks in any way and put to the terminal side of an idle driver at the other end, come out
  as exactly the same payloads in the same order, one indication each, and are counted.
\<close>

theorem slip_round_trip:
  assumes "tx_env ES" "sl_ptr s q = Some i" "i < length (sliptab s)" "ttyq (slip i s) = Some tq"
    and "list_all is_data_req ms" "\<And>mp. mp \<in> set ms \<Longrightarrow> payload mp \<noteq> [] \<and> length (payload mp) < SLIP_MAX"
    and "rx_env ER lim" "SLIP_MAX \<le> lim" "sl_ptr r rq = Some j" "j < length (sliptab r)"
    and "dlpiq (slip j r) = Some dq" "curblk (slip j r) = None" "\<not> escaped (slip j r)"
  shows "\<exists>t out. run (dlpiwput ES q) ms s = Some t \<and> freed (tr t) = freed (tr s) @ ms \<and>
    passed (tr t) = passed (tr s) @ out \<and>
    (\<forall>chunks. concat chunks = line_bytes out \<longrightarrow>
      (\<exists>u. run (\<lambda>bs. ttyrput ER rq (tty_data bs)) chunks r = Some u \<and>
        passed (tr u) = passed (tr r) @ map (\<lambda>mp. (dq, slip_ind ER (payload mp))) ms \<and>
        ifs_ipackets (sl_stats (slip j u)) = ifs_ipackets (sl_stats (slip j r)) + of_nat (length ms)))"
proof -
  let ?out = "map (\<lambda>mp. (WR tq, tty_data (slip_frame (payload mp)))) ms"
  have "length (slip_frame (payload mp)) \<le> 2 * SLIP_MAX" if "mp \<in> set ms" for mp
    using assms(6) [OF that] length_escape [of "payload mp"] by (simp add: slip_frame_def)
  then obtain t where t: "run (dlpiwput ES q) ms s = Some t" "passed (tr t) = passed (tr s) @ ?out" "freed (tr t) = freed (tr s) @ ms"
    using dlpiwput_sends [OF assms(1-5)] by (auto simp: list_all_iff)
  have bytes: "line_bytes ?out = concat (map slip_frame (map payload ms))"
    by (simp add: line_bytes_def tty_data_def o_def)
  have good: "rx_good lim j dq r" and idle: "rx_abs j r = ([], False)"
    using assms(8,10-13) by (simp_all add: rx_good_def rx_abs_def)
  have dec: "feed (slip_rx lim) (concat (map slip_frame (map payload ms))) ([], False) = (map payload ms, [], False)"
    using slip.reads_frames [of "([], False)" lim "map payload ms"] assms(6,8) by (fastforce simp: list_all_iff)
  have "\<exists>u. run (\<lambda>bs. ttyrput ER rq (tty_data bs)) chunks r = Some u \<and>
      passed (tr u) = passed (tr r) @ map (\<lambda>mp. (dq, slip_ind ER (payload mp))) ms \<and>
      ifs_ipackets (sl_stats (slip j u)) = ifs_ipackets (sl_stats (slip j r)) + of_nat (length ms)"
    if "concat chunks = line_bytes ?out" for chunks
    using ttyrputs_codec [OF assms(7) good assms(9), of chunks]
    unfolding that bytes idle dec by (auto simp: went_up_def ipackets_def o_def)
  then show ?thesis using t by blast
qed

text \<open>
  Room for a frame: with blocks of exactly the size asked for, sending a packet within the MTU of
  1006 bytes writes past the output block for exactly one kind of packet: 1006 bytes, all of them
  \<open>FRAME_END\<close> or \<open>FRAME_ESCAPE\<close>. The comment in \<open>slipxmit\<close> says the block is big enough
  for any packet within the MTU.
\<close>

theorem slip_room:
  assumes "e_canput E (tr s) (WR tq)" "e_allocb E (tr s) (2 * SLIP_MAX)" "e_dblim E (tr s) (2 * SLIP_MAX) = 2 * SLIP_MAX"
    and "ttyq (slip i s) = Some tq" "b_cont mp = [(M_DATA, Bytes xs)]" "length xs \<le> SLIP_MAX"
  shows "slipxmit E i mp s = None \<longleftrightarrow> length xs = SLIP_MAX \<and> set xs \<subseteq> {FRAME_END, FRAME_ESCAPE}"
proof -
  let ?f = "filter (\<lambda>c. c = FRAME_END \<or> c = FRAME_ESCAPE) xs"
  have f: "length ?f \<le> length xs" "length ?f = length xs \<longleftrightarrow> (\<forall>c \<in> set xs. c = FRAME_END \<or> c = FRAME_ESCAPE)"
    by (simp_all add: length_filter_all)
  have "escape_blocks (b_cont mp) = Some (slip_frame xs)" using assms(5) by (simp add: slip_frame_def)
  then have e: "slipxmit E i mp s = None \<longleftrightarrow> 2 * SLIP_MAX < length (slip_frame xs)"
    using assms(1-4) by (simp add: slipxmit_def Let_def allocb_def)
  have arith: "k \<le> n \<Longrightarrow> n \<le> 1006 \<Longrightarrow> 2012 < 1 + n + k \<longleftrightarrow> n = 1006 \<and> k = n" for n k :: nat
    by presburger
  have "2 * SLIP_MAX < length (slip_frame xs) \<longleftrightarrow> length xs = SLIP_MAX \<and> length ?f = length xs"
    using arith [OF f(1) assms(6)] by (simp add: length_slip_frame)
  then show ?thesis unfolding e f(2) by blast
qed

text \<open>
  Packets merge: a packet that ends while the network side is full is neither delivered nor dropped,
  and the next packet is appended to it: both go up as a single packet, counted once.
\<close>

theorem slip_merge:
  assumes "rx_mem E1 lim" "\<And>h q. \<not> e_canput E1 h q" "rx_env E2 lim" "sl_ptr r q = Some i" "i < length (sliptab r)"
    and "dlpiq (slip i r) = Some dq" "curblk (slip i r) = None" "\<not> escaped (slip i r)"
    and "x \<noteq> []" "length x + length y \<le> lim"
  shows "\<exists>t u. ttyrput E1 q (tty_data (slip_frame x)) r = Some t \<and> passed (tr t) = passed (tr r) \<and>
    ttyrput E2 q (tty_data (slip_frame y)) t = Some u \<and> passed (tr u) = passed (tr r) @ [(dq, slip_ind E2 (x @ y))] \<and>
    ifs_ipackets (sl_stats (slip i u)) = ifs_ipackets (sl_stats (slip i r)) + 1"
proof -
  have "0 < lim" using assms(9,10) by (cases x) simp_all
  then have good: "rx_good lim i dq r" and idle: "rx_abs i r = ([], False)"
    using assms(5-8,10) by (simp_all add: rx_good_def rx_abs_def)
  have plain: "FRAME_END \<notin> set (concat (map escape x))" using escape_plain by auto
  obtain v where v: "run (slip_char E1 i) (concat (map escape x)) r = Some v" "rx_good lim i dq v" "rx_abs i v = (x, False)"
    "went_up E1 i dq [] r v"
    using slip_chars_codec [OF assms(1) _ good, of "concat (map escape x)"] plain idle feed_payload [of "[]" x lim] assms(10)
    by auto
  have "slip_char E1 i FRAME_END v = Some v"
    using v(2) assms(2) by (auto simp: slip_char_def frame_end_def rx_good_def split: option.splits prod.splits)
  then have "run (slip_char E1 i) (slip_frame x) r = Some v"
    using v(1) run_append [of "slip_char E1 i" "concat (map escape x)"] by (simp add: slip_frame_def)
  then have t: "ttyrput E1 q (tty_data (slip_frame x)) r = Some (call (Freemsg (tty_data (slip_frame x))) v)"
    using assms(4) by (simp add: ttyrput_def tty_data_def)
  let ?t = "call (Freemsg (tty_data (slip_frame x))) v"
  have dec: "feed (slip_rx lim) (slip_frame y) (x, False) = ([x @ y], [], False)"
    using feed_payload [of x y lim] assms(9,10) by (simp add: slip_frame_def feed_append slip_rx_def)
  obtain u where "ttyrput E2 q (tty_data (slip_frame y)) ?t = Some u" "went_up E2 i dq [x @ y] ?t u"
    using ttyrput_codec [OF assms(3), of i dq ?t q "slip_frame y"] v(2,3) went_up_ptr [OF v(4)] assms(4) dec
    by (auto simp: rx_good_call lens)
  then show ?thesis using t v(4) by (auto simp: went_up_def ipackets_def lens)
qed

text \<open>
  A queued packet blocks the interface: once a packet waits on the write queue of the network
  side, every later data request is queued behind it and none is ever sent or freed, however often the service
  procedure runs: it does nothing, and nothing else takes from the queue.
\<close>

theorem slip_wedge:
  assumes "fifo_env E" "sl_ptr s q = Some i" "queued q (tr s) \<noteq> []" "list_all is_data_req ms"
    and "list_all (\<lambda>m. m = None \<or> m \<in> Some ` set ms) steps"
  shows "\<exists>t. run (\<lambda>m s. case m of None \<Rightarrow> Some (dlpiwsrv s) | Some mp \<Rightarrow> dlpiwput E q mp s) steps s = Some t \<and>
    passed (tr t) = passed (tr s) \<and> freed (tr t) = freed (tr s) \<and>
    queued q (tr t) = queued q (tr s) @ List.map_filter (\<lambda>m. m) steps"
  using assms(2,3,5)
proof (induction steps arbitrary: s)
  case Nil
  then show ?case by simp
next
  case (Cons m steps)
  show ?case
  proof (cases m)
    case None
    then show ?thesis using Cons by (simp add: dlpiwsrv_def)
  next
    case (Some mp)
    then have "is_data_req mp" using Cons.prems(3) assms(4) by (auto simp: list_all_iff)
    then have "dlpiwput E q mp s = Some (call (Putq q mp) s)"
      using Cons.prems(1,2) assms(1) by (auto simp: dlpiwput_def do_dlpiproto_def is_data_req_def fifo_env_def)
    then show ?thesis
      using Some Cons.IH [of "call (Putq q mp) s"] Cons.prems by (simp add: lens)
  qed
qed

end
