(* ===== verification/Slip_System.thy ===== *)
theory Slip_System
  imports Slip_Link
begin

text \<open>
  The SLIP driver as a transition system over its entry points: the table keeps its shape, queue
  pointers stay inside it and no packet outgrows its block, so that receiving never writes outside a
  block whatever arrives.
\<close>

section \<open>Invariant\<close>

definition dev_ok :: "slipdev \<Rightarrow> bool" where
  "dev_ok d \<longleftrightarrow> length (sl_ifname d) = 20 \<and>
     (case curblk d of None \<Rightarrow> True | Some (buf, lim) \<Rightarrow> buf \<noteq> [] \<and> length buf \<le> lim)"

definition slip_inv :: "sst \<Rightarrow> bool" where
  "slip_inv s \<longleftrightarrow> length (sliptab s) = SLIP_MAXDEV \<and> (\<forall>q i. sl_ptr s q = Some i \<longrightarrow> i < SLIP_MAXDEV) \<and>
     list_all dev_ok (sliptab s)"

lemma inv_slip_start: "slip_inv init_sst"
  by (simp add: slip_inv_def init_sst_def dev_ok_def zero_slip_def list_all_iff)

lemma inv_dev: "slip_inv s \<Longrightarrow> sl_ptr s q = Some i \<Longrightarrow> i < SLIP_MAXDEV \<and> dev_ok (slip i s)"
  by (simp add: slip_inv_def slip_def list_all_iff)

lemma inv_call [intro!]: "slip_inv s \<Longrightarrow> slip_inv (call e s)"
  by (simp add: slip_inv_def lens)

lemma inv_on_slip [intro!]: "slip_inv s \<Longrightarrow> (dev_ok (slip i s) \<Longrightarrow> dev_ok (f (slip i s))) \<Longrightarrow> slip_inv (on_slip i f s)"
  by (cases "i < length (sliptab s)")
    (auto simp: slip_inv_def on_slip_def slip_def list_update_beyond list_all_iff dest!: set_update_subset_insert [THEN subsetD])

lemma dev_ok_part [simp]:
  "dev_ok (d\<lparr>sl_stats := x\<rparr>) = dev_ok d" "dev_ok (d\<lparr>sl_if_flags := y\<rparr>) = dev_ok d" "dev_ok (d\<lparr>dlpiq := z\<rparr>) = dev_ok d"
  "dev_ok (d\<lparr>ttyq := z\<rparr>) = dev_ok d" "dev_ok (d\<lparr>escaped := b\<rparr>) = dev_ok d" "dev_ok (d\<lparr>sl_state := st\<rparr>) = dev_ok d"
  by (simp_all add: dev_ok_def)

lemma dev_ok_blk:
  "dev_ok d \<Longrightarrow> dev_ok (d\<lparr>curblk := None\<rparr>)"
  "dev_ok d \<Longrightarrow> b \<noteq> [] \<Longrightarrow> length b \<le> lim \<Longrightarrow> dev_ok (d\<lparr>curblk := Some (b, lim)\<rparr>)"
  "dev_ok d \<Longrightarrow> length n = 20 \<Longrightarrow> dev_ok (d\<lparr>sl_ifname := n\<rparr>)"
  by (simp_all add: dev_ok_def)

lemma inv_on_stats [intro!]: "slip_inv s \<Longrightarrow> slip_inv (on_stats i f s)"
  unfolding on_stats_def by (rule inv_on_slip) simp_all

lemma inv_ptr: "slip_inv s \<Longrightarrow> (\<And>q i. p q = Some i \<Longrightarrow> i < SLIP_MAXDEV) \<Longrightarrow> slip_inv (s\<lparr>sl_ptr := p\<rparr>)"
  by (simp add: slip_inv_def)

lemma inv_chain [intro!]: "slip_inv s \<Longrightarrow> slip_inv (s\<lparr>sl_chain := c\<rparr>)"
  by (simp add: slip_inv_def)

lemma length_strncpy: "strncpy src n = Some t \<Longrightarrow> length t = n"
  by (induction src n arbitrary: t rule: strncpy.induct) (auto split: if_splits)

section \<open>Every entry point keeps it\<close>

lemma dlpiopen_inv: "slip_inv s \<Longrightarrow> slip_inv (snd (dlpiopen E q m f s))"
  by (auto simp: dlpiopen_def Let_def lens intro!: inv_on_slip inv_on_stats inv_ptr inv_chain)
    (auto simp: slip_inv_def lens split: if_splits)

lemma dlpiclose_inv: "slip_inv s \<Longrightarrow> dlpiclose q s = Some t \<Longrightarrow> slip_inv t"
  by (auto simp: dlpiclose_def Let_def lens intro!: inv_on_slip inv_on_stats inv_ptr split: option.splits)
    (auto simp: slip_inv_def lens split: if_splits)

lemma slipxmit_inv: "slip_inv s \<Longrightarrow> slipxmit E i mp s = Some (r, t) \<Longrightarrow> slip_inv t"
  by (auto simp: slipxmit_def allocb_def Let_def split: option.splits if_splits)

lemma do_dlpiproto_inv: "slip_inv s \<Longrightarrow> do_dlpiproto E q mp s = Some t \<Longrightarrow> slip_inv t"
  by (auto simp: do_dlpiproto_def allocb_def Let_def intro: slipxmit_inv
      split: option.splits content.splits dl_request.splits if_splits)

lemma do_dlpiioctl_inv: "slip_inv s \<Longrightarrow> do_dlpiioctl E q mp s = Some t \<Longrightarrow> slip_inv t"
  by (auto simp: do_dlpiioctl_def ioc_ack_def length_strncpy intro!: inv_call inv_on_slip dev_ok_blk(3)
      split: option.splits content.splits list.splits if_splits sblob.splits)

lemma flush_msg_inv: "slip_inv s \<Longrightarrow> flush_msg q mp s = Some t \<Longrightarrow> slip_inv t"
  by (auto simp: flush_msg_def Let_def split: content.splits list.splits if_splits)

lemma dlpiwput_inv: "slip_inv s \<Longrightarrow> dlpiwput E q mp s = Some t \<Longrightarrow> slip_inv t"
  by (auto simp: dlpiwput_def intro: flush_msg_inv do_dlpiproto_inv do_dlpiioctl_inv split: mtype.splits)

lemma ttyopen_inv: "slip_inv s \<Longrightarrow> ttyopen q f s = Some (r, t) \<Longrightarrow> slip_inv t"
  by (auto simp: ttyopen_def Let_def intro!: inv_on_slip inv_ptr split: if_splits option.splits)
    (auto simp: slip_inv_def lens split: if_splits)

lemma ttyclose_inv: "slip_inv s \<Longrightarrow> ttyclose q s = Some t \<Longrightarrow> slip_inv t"
  by (auto simp: ttyclose_def Let_def intro!: inv_on_slip inv_call dev_ok_blk(1) split: option.splits)

lemma free_cont_inv [intro!]: "slip_inv s \<Longrightarrow> slip_inv (free_cont bs s)"
  by (auto simp: free_cont_def split: list.splits)

lemma ttywput_inv: "slip_inv s \<Longrightarrow> ttywput q mp s = Some t \<Longrightarrow> slip_inv t"
  by (auto simp: ttywput_def do_ttyioctl_def tty_flush_def
      split: mtype.splits content.splits list.splits option.splits if_splits)

lemma frame_end_inv: "slip_inv s \<Longrightarrow> frame_end E i s = Some t \<Longrightarrow> slip_inv t"
  by (auto simp: frame_end_def allocb_def Let_def intro!: inv_on_slip dev_ok_blk(1) split: option.splits if_splits)

text \<open>A byte put into the block: what may go wrong is only memory that does not fit the documentation.\<close>

definition blocks_fit :: "senv \<Rightarrow> bool" where
  "blocks_fit E \<longleftrightarrow> (\<forall>h n. n \<le> e_dblim E h n)"

lemma curblk_room: "dev_ok d \<Longrightarrow> curblk d = Some (buf, lim) \<Longrightarrow> buf \<noteq> [] \<and> length buf \<le> lim \<and> 0 < lim"
  by (cases buf) (simp_all add: dev_ok_def)

lemma plain_char_inv: "slip_inv s \<Longrightarrow> plain_char E i c s = Some t \<Longrightarrow> slip_inv t"
  by (auto simp: plain_char_def allocb_def Let_def intro!: inv_on_slip inv_on_stats inv_call dev_ok_blk(2)
      split: option.splits if_splits)

lemma slip_char_inv: "slip_inv s \<Longrightarrow> slip_char E i c s = Some t \<Longrightarrow> slip_inv t"
  by (auto simp: slip_char_def intro: frame_end_inv plain_char_inv split: if_splits)

lemma slip_chars_inv: "slip_inv s \<Longrightarrow> run (slip_char E i) cs s = Some t \<Longrightarrow> slip_inv t"
  by (induction cs arbitrary: s) (auto intro: slip_char_inv split: option.splits)

lemma ttyrput_inv: "slip_inv s \<Longrightarrow> ttyrput E q mp s = Some t \<Longrightarrow> slip_inv t"
  by (auto simp: ttyrput_def intro: slip_chars_inv split: option.splits content.splits if_splits)

section \<open>The transition system\<close>

inductive slip_step :: "sst \<Rightarrow> sst \<Rightarrow> bool" where
  step_dlpiopen: "dlpiopen E (RQ n) m f s = (r, t) \<Longrightarrow> slip_step s t"
| step_dlpiclose: "dlpiclose (RQ n) s = Some t \<Longrightarrow> slip_step s t"
| step_dlpiwput: "dlpiwput E (WQ n) mp s = Some t \<Longrightarrow> slip_step s t"
| step_ttyopen: "ttyopen (RQ n) f s = Some (r, t) \<Longrightarrow> slip_step s t"
| step_ttyclose: "ttyclose (RQ n) s = Some t \<Longrightarrow> slip_step s t"
| step_ttywput: "ttywput (WQ n) mp s = Some t \<Longrightarrow> slip_step s t"
| step_ttyrput: "ttyrput E (RQ n) mp s = Some t \<Longrightarrow> slip_step s t"
| step_srv: "t = dlpiwsrv s \<or> t = ttywsrv s \<or> t = ttyrsrv s \<Longrightarrow> slip_step s t"

lemma slip_step_inv: "slip_step s t \<Longrightarrow> slip_inv s \<Longrightarrow> slip_inv t"
proof (induction rule: slip_step.induct)
  case (step_dlpiopen E n m f s r t)
  then show ?case using dlpiopen_inv [of s E "RQ n" m f] by simp
qed (auto intro: dlpiclose_inv dlpiwput_inv ttyopen_inv ttyclose_inv ttywput_inv ttyrput_inv
    simp: dlpiwsrv_def ttywsrv_def ttyrsrv_def)

interpretation slip_sys: transition_system "\<lambda>s. s = init_sst" slip_step slip_inv
  by unfold_locales (auto intro: slip_step_inv simp: inv_slip_start)

text \<open>
  With blocks as large as asked for, a byte faults just when it ends a packet and there is no network queue to ask for room.
\<close>

lemma run_None:
  "run f rs s = None \<longleftrightarrow> (\<exists>pre r post u. rs = pre @ r # post \<and> run f pre s = Some u \<and> f r u = None)"
proof (induction rs arbitrary: s)
  case (Cons x rs)
  show ?case
  proof (cases "f x s")
    case None
    have "\<exists>pre r post u. x # rs = pre @ r # post \<and> run f pre s = Some u \<and> f r u = None"
      by (rule exI [of _ "[]"], rule exI [of _ x], rule exI [of _ rs], rule exI [of _ s]) (simp add: None)
    then show ?thesis using None by simp
  next
    case (Some t)
    have "(\<exists>pre r post u. x # rs = pre @ r # post \<and> run f pre s = Some u \<and> f r u = None) \<longleftrightarrow>
        (\<exists>pre r post u. rs = pre @ r # post \<and> run f pre t = Some u \<and> f r u = None)"
      by (auto simp: Cons_eq_append_conv Some) (metis append_Cons option.simps(5) run.simps(2) Some)+
    then show ?thesis using Cons.IH [of t] Some by simp
  qed
qed simp

lemma slip_char_dlpiq:
  assumes "slip_char E i c s = Some t"
  shows "dlpiq (slip i t) = dlpiq (slip i s)"
proof (cases "i < length (sliptab s)")
  case True
  then show ?thesis using assms
    by (auto simp: slip_char_def frame_end_def plain_char_def Let_def allocb_def slip_on_slip slip_on_stats lens
        split: if_splits option.splits)
next
  case False
  then have "on_slip i f u = u" if "length (sliptab u) = length (sliptab s)" for f u
    using that by (simp add: on_slip_def list_update_beyond)
  then show ?thesis using assms False
    by (auto simp: slip_char_def frame_end_def plain_char_def Let_def allocb_def on_stats_def lens
        split: if_splits option.splits)
qed

lemma slip_chars_dlpiq: "run (slip_char E i) cs s = Some t \<Longrightarrow> dlpiq (slip i t) = dlpiq (slip i s)"
  by (induction cs arbitrary: s) (auto dest: slip_char_dlpiq split: option.splits)

lemma slip_char_fault:
  assumes "blocks_fit E" "slip_inv s" "i < SLIP_MAXDEV"
  shows "slip_char E i c s = None \<longleftrightarrow> c = FRAME_END \<and> curblk (slip i s) \<noteq> None \<and> dlpiq (slip i s) = None"
proof -
  have i: "i < length (sliptab s)" "dev_ok (slip i s)"
    using assms(2,3) by (simp_all add: slip_inv_def slip_def list_all_iff)
  have lim: "e_dblim E h SLIP_MAX = 0 \<longleftrightarrow> False" for h
  proof -
    have "SLIP_MAX \<le> e_dblim E h SLIP_MAX" using assms(1) by (simp add: blocks_fit_def)
    then show ?thesis by simp
  qed
  show ?thesis
  proof (cases "curblk (slip i s)")
    case None
    then show ?thesis
      using i(1) by (cases "escaped (slip i s)")
        (auto simp: lim slip_char_def frame_end_def plain_char_def Let_def allocb_def slip_on_slip slip_on_stats lens)
  next
    case (Some b)
    obtain buf l where b: "b = (buf, l)" by fastforce
    have "buf \<noteq> []" "0 < l" using curblk_room [OF i(2)] Some b by auto
    then show ?thesis
      using i(1) Some b by (cases "escaped (slip i s)")
        (auto simp: slip_char_def frame_end_def plain_char_def Let_def allocb_def slip_on_slip slip_on_stats lens
          split: option.splits)
  qed
qed

section \<open>Properties\<close>

text \<open>
  C14. SLIP memory safety: in every state the driver can reach, by any calls of its entry points with any kernel
  and any line data, the packet being assembled is not empty and fits its block, and queue pointers
  stay inside the table. If blocks have the room asked for, no data from the terminal is written outside a block, and
  receiving has exactly one fault: an end mark that comes while a packet is assembled and the network side is closed, which
  follows a null pointer.
\<close>

theorem slip_memory_safe:
  assumes "reach (\<lambda>s. s = init_sst) slip_step s"
  shows "(\<forall>q i. sl_ptr s q = Some i \<longrightarrow> i < SLIP_MAXDEV) \<and>
    (\<forall>i < SLIP_MAXDEV. \<forall>buf lim. curblk (slip i s) = Some (buf, lim) \<longrightarrow> 1 \<le> length buf \<and> length buf \<le> lim) \<and>
    (\<forall>E q i bs cont. blocks_fit E \<and> sl_ptr s q = Some i \<longrightarrow>
      (ttyrput E q (Msg M_DATA (Bytes bs) cont) s = None \<longleftrightarrow>
        dlpiq (slip i s) = None \<and>
        (\<exists>pre post u. bs = pre @ FRAME_END # post \<and> run (slip_char E i) pre s = Some u \<and> curblk (slip i u) \<noteq> None)))"
proof (intro conjI)
  have inv: "slip_inv s" by (rule slip_sys.reach_inv [OF assms])
  then show "\<forall>q i. sl_ptr s q = Some i \<longrightarrow> i < SLIP_MAXDEV" by (simp add: slip_inv_def)
  have ok: "dev_ok (slip i s)" if "i < SLIP_MAXDEV" for i
    using inv that by (simp add: slip_inv_def slip_def list_all_iff)
  show "\<forall>i < SLIP_MAXDEV. \<forall>buf lim. curblk (slip i s) = Some (buf, lim) \<longrightarrow> 1 \<le> length buf \<and> length buf \<le> lim"
    using curblk_room [OF ok] by (metis One_nat_def Suc_leI length_greater_0_conv)
  show "\<forall>E q i bs cont. blocks_fit E \<and> sl_ptr s q = Some i \<longrightarrow>
      (ttyrput E q (Msg M_DATA (Bytes bs) cont) s = None \<longleftrightarrow>
        dlpiq (slip i s) = None \<and>
        (\<exists>pre post u. bs = pre @ FRAME_END # post \<and> run (slip_char E i) pre s = Some u \<and> curblk (slip i u) \<noteq> None))"
  proof (intro allI impI)
    fix E q i bs cont assume a: "blocks_fit E \<and> sl_ptr s q = Some i"
    then have i: "i < SLIP_MAXDEV" using inv by (auto simp: slip_inv_def)
    have f: "slip_char E i c u = None \<longleftrightarrow> c = FRAME_END \<and> curblk (slip i u) \<noteq> None \<and> dlpiq (slip i s) = None"
      if "run (slip_char E i) pre s = Some u" for pre c u
      using slip_char_fault [OF _ slip_chars_inv [OF inv that] i] a slip_chars_dlpiq [OF that] by auto
    have "run (slip_char E i) bs s = None \<longleftrightarrow> dlpiq (slip i s) = None \<and>
        (\<exists>pre post u. bs = pre @ FRAME_END # post \<and> run (slip_char E i) pre s = Some u \<and> curblk (slip i u) \<noteq> None)"
      (is "_ = (_ \<and> (\<exists>pre post u. ?ended pre post u))")
    proof
      assume "run (slip_char E i) bs s = None"
      then obtain pre c post u where p: "bs = pre @ c # post" "run (slip_char E i) pre s = Some u" "slip_char E i c u = None"
        unfolding run_None by blast
      then have "dlpiq (slip i s) = None" "?ended pre post u" using f [OF p(2), of c] by simp_all
      then show "dlpiq (slip i s) = None \<and> (\<exists>pre post u. ?ended pre post u)" by blast
    next
      assume "dlpiq (slip i s) = None \<and> (\<exists>pre post u. ?ended pre post u)"
      then obtain pre post u where p: "dlpiq (slip i s) = None" "?ended pre post u" by blast
      then have "slip_char E i FRAME_END u = None" using f [of pre u FRAME_END] by simp
      then show "run (slip_char E i) bs s = None" unfolding run_None using p(2) by blast
    qed
    then show "ttyrput E q (Msg M_DATA (Bytes bs) cont) s = None \<longleftrightarrow> dlpiq (slip i s) = None \<and>
        (\<exists>pre post u. bs = pre @ FRAME_END # post \<and> run (slip_char E i) pre s = Some u \<and> curblk (slip i u) \<noteq> None)"
      using a by (simp add: ttyrput_def)
  qed
qed

section \<open>Witnesses\<close>

text \<open>A kernel with memory and room, and interface 0 open on queues 0 (network) and 1 (terminal).\<close>

definition slip_env :: senv where
  "slip_env = \<lparr>e_in8 = (\<lambda>_ _. 0), e_in32 = (\<lambda>_ _. 0), e_allocb = (\<lambda>_ _. True), e_canput = (\<lambda>_ _. True),
     e_q_first = (\<lambda>_ _. False), e_getq = (\<lambda>_ _. None), e_panicstr = (\<lambda>_. False), e_stack = (\<lambda>_ _. 0),
     e_sizeof = (\<lambda>_. 0), e_const = (\<lambda>_. 0), e_dblim = (\<lambda>_ n. n)\<rparr>"

definition slip_up :: sst where
  "slip_up = snd (the (ttyopen (RQ 1) MODOPEN (snd (dlpiopen slip_env (RQ 0) 0 DEVOPEN init_sst))))"

lemma slip_up_reach: "reach (\<lambda>s. s = init_sst) slip_step slip_up"
proof -
  define a where "a = snd (dlpiopen slip_env (RQ 0) 0 DEVOPEN init_sst)"
  have "slip_step init_sst a" by (rule step_dlpiopen [of slip_env 0 0 DEVOPEN _ "fst (dlpiopen slip_env (RQ 0) 0 DEVOPEN init_sst)"])
      (simp add: a_def)
  then have a: "reach (\<lambda>s. s = init_sst) slip_step a" by (rule reach_step [OF reach_start, rotated]) simp
  obtain r t where t: "ttyopen (RQ 1) MODOPEN a = Some (r, t)"
    by (simp add: a_def dlpiopen_def ttyopen_def init_sst_def Let_def slip_def on_slip_def on_stats_def zero_slip_def
        zero_ifstats_def scan.simps)
  have "slip_step a t" by (rule step_ttyopen [OF t])
  then have "reach (\<lambda>s. s = init_sst) slip_step t" by (rule reach_step [OF a])
  then show ?thesis using t by (simp add: slip_up_def a_def)
qed

lemma slip_up_simps [simp]:
  "sliptab slip_up ! 0 = zero_slip\<lparr>dlpiq := Some (RQ 0), ttyq := Some (RQ 1), sl_stats := zero_ifstats\<lparr>ifs_name := Some ''sl'',
     ifs_active := 1, ifs_mtu := SLIP_MAX\<rparr>\<rparr>"
  "length (sliptab slip_up) = SLIP_MAXDEV" "tr slip_up = []"
  "sl_ptr slip_up = (\<lambda>_. None)(WQ 0 := Some 0, RQ 0 := Some 0, WQ 1 := Some 0, RQ 1 := Some 0)"
  by (simp_all add: slip_up_def slip_env_def dlpiopen_def ttyopen_def init_sst_def Let_def slip_def on_slip_def on_stats_def
      zero_slip_def zero_ifstats_def scan.simps)

lemma slip_up_dev: "slip 0 slip_up = sliptab slip_up ! 0"
  by (simp add: slip_def)

definition data_req :: "byte list \<Rightarrow> sblob msg" where
  "data_req xs = Msg M_PROTO (Req (DL_UNITDATA_REQ 0 [])) [(M_DATA, Bytes xs)]"

lemma slip_envs: "tx_env slip_env" "rx_env slip_env SLIP_MAX" "blocks_fit slip_env"
  by (simp_all add: tx_env_def rx_env_def rx_mem_def blocks_fit_def slip_env_def)

lemma data_req_simps [simp]: "payload (data_req xs) = xs" "is_data_req (data_req xs)" "b_cont (data_req xs) = [(M_DATA, Bytes xs)]"
  by (simp_all add: payload_def is_data_req_def data_req_def)

theorem slip_round_trip_witness:
  "\<exists>t out. run (dlpiwput slip_env (WQ 0)) [data_req [0xC0, 1], data_req [0xDB]] slip_up = Some t \<and>
    passed (tr t) = out \<and> (\<exists>u. run (\<lambda>bs. ttyrput slip_env (RQ 1) (tty_data bs)) [line_bytes out] slip_up = Some u \<and>
      passed (tr u) = [(RQ 0, slip_ind slip_env [0xC0, 1]), (RQ 0, slip_ind slip_env [0xDB])])"
proof -
  have "\<exists>t out. run (dlpiwput slip_env (WQ 0)) [data_req [0xC0, 1], data_req [0xDB]] slip_up = Some t \<and>
      freed (tr t) = freed (tr slip_up) @ [data_req [0xC0, 1], data_req [0xDB]] \<and> passed (tr t) = passed (tr slip_up) @ out \<and>
      (\<forall>chunks. concat chunks = line_bytes out \<longrightarrow>
        (\<exists>u. run (\<lambda>bs. ttyrput slip_env (RQ 1) (tty_data bs)) chunks slip_up = Some u \<and>
          passed (tr u) = passed (tr slip_up) @
            map (\<lambda>mp. (RQ 0, slip_ind slip_env (payload mp))) [data_req [0xC0, 1], data_req [0xDB]] \<and>
          ifs_ipackets (sl_stats (slip 0 u)) = ifs_ipackets (sl_stats (slip 0 slip_up)) +
            of_nat (length [data_req [0xC0, 1], data_req [0xDB]])))"
    by (rule slip_round_trip [OF slip_envs(1) _ _ _ _ _ slip_envs(2), where i = 0 and j = 0 and tq = "RQ 1"])
      (auto simp: slip_up_dev zero_slip_def)
  then obtain t out where t: "run (dlpiwput slip_env (WQ 0)) [data_req [0xC0, 1], data_req [0xDB]] slip_up = Some t"
      "passed (tr t) = passed (tr slip_up) @ out" and u: "\<forall>chunks. concat chunks = line_bytes out \<longrightarrow>
        (\<exists>u. run (\<lambda>bs. ttyrput slip_env (RQ 1) (tty_data bs)) chunks slip_up = Some u \<and>
          passed (tr u) = passed (tr slip_up) @
            map (\<lambda>mp. (RQ 0, slip_ind slip_env (payload mp))) [data_req [0xC0, 1], data_req [0xDB]] \<and>
          ifs_ipackets (sl_stats (slip 0 u)) = ifs_ipackets (sl_stats (slip 0 slip_up)) +
            of_nat (length [data_req [0xC0, 1], data_req [0xDB]]))" by blast
  obtain u where "run (\<lambda>bs. ttyrput slip_env (RQ 1) (tty_data bs)) [line_bytes out] slip_up = Some u"
      "passed (tr u) = [(RQ 0, slip_ind slip_env [0xC0, 1]), (RQ 0, slip_ind slip_env [0xDB])]"
    using u [rule_format, of "[line_bytes out]"] by auto
  moreover have "passed (tr t) = out" using t(2) by simp
  ultimately show ?thesis using t(1) by blast
qed

theorem slip_room_witness:
  "slipxmit slip_env 0 (data_req (replicate SLIP_MAX 0xC0)) slip_up = None"
  using slip_room [of slip_env slip_up "RQ 1" 0 "data_req (replicate SLIP_MAX 0xC0)" "replicate SLIP_MAX 0xC0"]
  by (simp add: slip_env_def slip_up_dev zero_slip_def)

theorem slip_merge_witness:
  "\<exists>t u. ttyrput (slip_env\<lparr>e_canput := \<lambda>_ _. False\<rparr>) (RQ 1) (tty_data (slip_frame [1, 2])) slip_up = Some t \<and>
    ttyrput slip_env (RQ 1) (tty_data (slip_frame [3])) t = Some u \<and> passed (tr u) = [(RQ 0, slip_ind slip_env [1, 2, 3])]"
proof -
  have "rx_mem (slip_env\<lparr>e_canput := \<lambda>_ _. False\<rparr>) SLIP_MAX" by (simp add: rx_mem_def slip_env_def)
  from slip_merge [OF this _ slip_envs(2), of slip_up "RQ 1" 0 "RQ 0" "[1, 2]" "[3]"] show ?thesis
    by (auto simp: slip_up_dev zero_slip_def)
qed

theorem slip_wedge_witness:
  "\<exists>t. run (\<lambda>m s. case m of None \<Rightarrow> Some (dlpiwsrv s)
        | Some mp \<Rightarrow> dlpiwput (slip_env\<lparr>e_q_first := \<lambda>h q. queued q h \<noteq> [], e_getq := \<lambda>h q. case queued q h of [] \<Rightarrow> None | m # _ \<Rightarrow> Some m\<rparr>) (WQ 0) mp s)
      [None, Some (data_req [1])] (call (Putq (WQ 0) (data_req [0])) slip_up) = Some t \<and>
    passed (tr t) = [] \<and> queued (WQ 0) (tr t) = [data_req [0], data_req [1]]"
proof -
  let ?E = "slip_env\<lparr>e_q_first := \<lambda>h q. queued q h \<noteq> [], e_getq := \<lambda>h q. case queued q h of [] \<Rightarrow> None | m # _ \<Rightarrow> Some m\<rparr>"
  have "fifo_env ?E" by (simp add: fifo_env_def)
  from slip_wedge [OF this, of "call (Putq (WQ 0) (data_req [0])) slip_up" "WQ 0" 0 "[data_req [1]]" "[None, Some (data_req [1])]"]
  show ?thesis by (auto simp: lens map_filter_simps simp del: run.simps)
qed

theorem slip_memory_safe_witness:
  "ttyrput slip_env (RQ 1) (Msg M_DATA (Bytes [0xDB, 1, 0xC0, 2]) []) slip_up \<noteq> None"
  using slip_memory_safe [OF slip_up_reach, THEN conjunct2, THEN conjunct2, rule_format, of slip_env "RQ 1" 0] slip_envs(3)
  by (auto simp: slip_up_dev zero_slip_def)

end
