(* ===== verification/Ramdisk.thy ===== *)
theory Ramdisk
  imports Streams
begin

text \<open>
  The RAM disk driver, \<open>driver/ram.c\<close>: three units whose buffers are allocated at the first open and
  freed at the close, and the strategy routine that copies sectors between a buffer and the memory
  of the process that asked.

  Of the kernel the driver relies on: \<open>kmem_alloc\<close> (a parameter: the bytes it finds at the new
  block, or nothing), \<open>vtop\<close> (a parameter: where an address of the process lies in physical memory)
  and the type of \<open>b_resid\<close> in \<open>sys/buf.h\<close> (a parameter: the test \<open>b_resid > 0\<close>, signed or
  unsigned). Reading or writing outside a buffer or outside memory is \<open>None\<close>.
\<close>

section \<open>State\<close>

abbreviation (input) NUNITS :: nat where "NUNITS \<equiv> 3"
abbreviation (input) BPSEC :: nat where "BPSEC \<equiv> 512"

definition Sizes :: "nat list" where
  "Sizes = [256, 1024, 4096]"

record ram_state =
  Buffers :: "byte list option list"
  phys :: "byte list"

datatype otyp = OTYP_BLK | OTYP_MNT | OTYP_SWP | OTYP_CHR | OTYP_LYR

record ram_buf =
  b_minor :: nat
  b_blkno :: u32
  b_bcount :: u32
  b_read :: bool
  b_addr :: nat
  b_resid :: u32
  b_error :: "errno option"
  b_done :: bool

definition init_ram :: ram_state where
  "init_ram = \<lparr> Buffers = [None, None, None], phys = [] \<rparr>"

section \<open>Open, close and size\<close>

definition ramopen :: "(nat \<Rightarrow> byte list option) \<Rightarrow> nat \<Rightarrow> otyp \<Rightarrow> ram_state \<Rightarrow> errno option \<times> ram_state" where
  "ramopen kmem_alloc mindev otyp s =
    (if mindev \<ge> NUNITS then (Some ENXIO, s)
     else if otyp \<notin> {OTYP_BLK, OTYP_MNT, OTYP_SWP} then (Some ENODEV, s)
     else if Buffers s ! mindev = None then
       (case kmem_alloc (Sizes ! mindev * BPSEC) of
          None \<Rightarrow> (Some ENOMEM, s)
        | Some mem \<Rightarrow> (None, s\<lparr> Buffers := (Buffers s)[mindev := Some mem] \<rparr>))
     else (None, s))"

definition ramclose :: "nat \<Rightarrow> ram_state \<Rightarrow> ram_state option" where
  "ramclose mindev s =
    (if mindev < NUNITS then Some (s\<lparr> Buffers := (Buffers s)[mindev := None] \<rparr>) else None)"

definition ramsize :: "nat \<Rightarrow> nat option" where
  "ramsize mindev = (if mindev < NUNITS then Some (Sizes ! mindev) else None)"

section \<open>Strategy\<close>

definition bcopy :: "byte list \<Rightarrow> nat \<Rightarrow> byte list \<Rightarrow> nat \<Rightarrow> byte list option" where
  "bcopy from i to j =
    (if i + BPSEC \<le> length from \<and> j + BPSEC \<le> length to
     then Some (take j to @ take BPSEC (drop i from) @ drop (j + BPSEC) to) else None)"

text \<open>
  The loop: \<open>buf\<close> is the offset in the buffer \<open>disk\<close>, \<open>addr\<close> the address in the process. A value
  in \<open>b_error\<close> stands for the error number and the flag \<open>B_ERROR\<close>.
\<close>

function ram_loop ::
  "(u32 \<Rightarrow> bool) \<Rightarrow> (nat \<Rightarrow> nat) \<Rightarrow> ram_buf \<Rightarrow> byte list \<Rightarrow> byte list \<Rightarrow> nat \<Rightarrow> nat \<Rightarrow>
    (ram_buf \<times> byte list \<times> byte list) option" where
  "ram_loop positive vtop bp disk mem buf addr =
    (if positive (b_resid bp) then
       if unat (b_blkno bp) \<ge> Sizes ! b_minor bp
       then Some (bp\<lparr> b_error := Some ENXIO \<rparr>, disk, mem)
       else if b_read bp then
         (case bcopy disk buf mem (vtop addr) of
            None \<Rightarrow> None
          | Some mem' \<Rightarrow>
              ram_loop positive vtop (bp\<lparr> b_resid := b_resid bp - 512 \<rparr>) disk mem' (buf + BPSEC) (addr + BPSEC))
       else
         (case bcopy mem (vtop addr) disk buf of
            None \<Rightarrow> None
          | Some disk' \<Rightarrow>
              ram_loop positive vtop (bp\<lparr> b_resid := b_resid bp - 512 \<rparr>) disk' mem (buf + BPSEC) (addr + BPSEC))
     else Some (bp, disk, mem))"
  by auto
termination
  by (relation "measure (\<lambda>(positive, vtop, bp, disk, mem, buf, addr). length disk - buf)")
    (auto simp: bcopy_def split: if_splits)

declare ram_loop.simps [simp del]

text \<open>
  A unit that is not open has a null buffer: there is no memory there. \<open>b_done\<close> is the call of
  \<open>iodone\<close>.
\<close>

definition ramstrategy ::
  "(u32 \<Rightarrow> bool) \<Rightarrow> (nat \<Rightarrow> nat) \<Rightarrow> ram_buf \<Rightarrow> ram_state \<Rightarrow> (ram_buf \<times> ram_state) option" where
  "ramstrategy positive vtop bp s =
    (if b_minor bp \<ge> NUNITS then None
     else
       let disk = (case Buffers s ! b_minor bp of None \<Rightarrow> [] | Some mem \<Rightarrow> mem) in
       case ram_loop positive vtop (bp\<lparr> b_resid := b_bcount bp \<rparr>) disk (phys s)
              (BPSEC * unat (b_blkno bp)) (b_addr bp) of
         None \<Rightarrow> None
       | Some (bp', disk', mem') \<Rightarrow>
           Some (bp'\<lparr> b_done := True \<rparr>,
             s\<lparr> Buffers := (Buffers s)[b_minor bp := map_option (\<lambda>_. disk') (Buffers s ! b_minor bp)],
                phys := mem' \<rparr>))"

section \<open>Sectors in memory\<close>

definition sector :: "nat \<Rightarrow> byte list \<Rightarrow> byte list" where
  "sector i mem = take 512 (drop i mem)"

definition put_sector :: "nat \<Rightarrow> byte list \<Rightarrow> byte list \<Rightarrow> byte list" where
  "put_sector i d mem = take i mem @ d @ drop (i + 512) mem"

text \<open>\<open>n\<close> sectors of a process, found and stored sector by sector through \<open>vtop\<close>.\<close>

fun gather :: "(nat \<Rightarrow> nat) \<Rightarrow> byte list \<Rightarrow> nat \<Rightarrow> nat \<Rightarrow> byte list" where
  "gather vtop mem addr 0 = []"
| "gather vtop mem addr (Suc n) = sector (vtop addr) mem @ gather vtop mem (addr + 512) n"

fun scatter :: "(nat \<Rightarrow> nat) \<Rightarrow> byte list \<Rightarrow> nat \<Rightarrow> nat \<Rightarrow> byte list \<Rightarrow> byte list" where
  "scatter vtop mem addr 0 d = mem"
| "scatter vtop mem addr (Suc n) d =
    scatter vtop (put_sector (vtop addr) (take 512 d) mem) (addr + 512) n (drop 512 d)"

fun mapped :: "(nat \<Rightarrow> nat) \<Rightarrow> nat \<Rightarrow> nat \<Rightarrow> nat \<Rightarrow> bool" where
  "mapped vtop sz addr 0 = True"
| "mapped vtop sz addr (Suc n) = (vtop addr + 512 \<le> sz \<and> mapped vtop sz (addr + 512) n)"

fun apart :: "(nat \<Rightarrow> nat) \<Rightarrow> nat \<Rightarrow> nat \<Rightarrow> nat \<Rightarrow> bool" where
  "apart vtop i addr 0 = True"
| "apart vtop i addr (Suc n) =
    ((i + 512 \<le> vtop addr \<or> vtop addr + 512 \<le> i) \<and> apart vtop i (addr + 512) n)"

fun disjoint_sectors :: "(nat \<Rightarrow> nat) \<Rightarrow> nat \<Rightarrow> nat \<Rightarrow> bool" where
  "disjoint_sectors vtop addr 0 = True"
| "disjoint_sectors vtop addr (Suc n) =
    (apart vtop (vtop addr) (addr + 512) n \<and> disjoint_sectors vtop (addr + 512) n)"

lemma bcopy_sector:
  "bcopy src i dst j =
    (if i + 512 \<le> length src \<and> j + 512 \<le> length dst then Some (put_sector j (sector i src) dst) else None)"
  by (simp add: bcopy_def put_sector_def sector_def)

lemma length_sector [simp]: "i + 512 \<le> length mem \<Longrightarrow> length (sector i mem) = 512"
  by (simp add: sector_def)

lemma length_put_sector [simp]:
  "i + 512 \<le> length mem \<Longrightarrow> length d = 512 \<Longrightarrow> length (put_sector i d mem) = length mem"
  by (simp add: put_sector_def)

lemma sector_put [simp]:
  "i + 512 \<le> length mem \<Longrightarrow> length d = 512 \<Longrightarrow> sector i (put_sector i d mem) = d"
  by (simp add: put_sector_def sector_def)

lemma sector_put_other:
  assumes "i + 512 \<le> j \<or> j + 512 \<le> i" "j + 512 \<le> length mem" "length d = 512"
  shows "sector i (put_sector j d mem) = sector i mem"
proof (cases "i + 512 \<le> j")
  case True
  then show ?thesis using assms(2)
    by (intro nth_equalityI) (auto simp: sector_def put_sector_def nth_append)
next
  case False
  then have "j + 512 \<le> i" using assms(1) by simp
  then show ?thesis using assms(2,3) by (simp add: sector_def put_sector_def)
qed

lemma length_scatter:
  "mapped vtop (length mem) addr n \<Longrightarrow> 512 * n \<le> length d \<Longrightarrow>
   length (scatter vtop mem addr n d) = length mem"
  by (induction vtop mem addr n d rule: scatter.induct) auto

lemma sector_scatter_other:
  "apart vtop i addr n \<Longrightarrow> mapped vtop (length mem) addr n \<Longrightarrow> 512 * n \<le> length d \<Longrightarrow>
   sector i (scatter vtop mem addr n d) = sector i mem"
  by (induction vtop mem addr n d rule: scatter.induct) (auto simp: sector_put_other)

lemma gather_scatter:
  "disjoint_sectors vtop addr n \<Longrightarrow> mapped vtop (length mem) addr n \<Longrightarrow> 512 * n \<le> length d \<Longrightarrow>
   gather vtop (scatter vtop mem addr n d) addr n = take (512 * n) d"
proof (induction vtop mem addr n d rule: scatter.induct)
  case (2 vtop mem addr n d)
  have "sector (vtop addr) (scatter vtop mem addr (Suc n) d) = take 512 d"
    using 2(2-4) by (simp add: sector_scatter_other)
  moreover have "take (512 * Suc n) d = take 512 d @ take (512 * n) (drop 512 d)"
    by (simp add: take_add)
  ultimately show ?case using 2 by simp
qed simp

lemma length_gather: "mapped vtop (length mem) addr n \<Longrightarrow> length (gather vtop mem addr n) = 512 * n"
  by (induction vtop mem addr n rule: gather.induct) auto

section \<open>Whole transfers\<close>

text \<open>What both signs of \<open>b_resid\<close> agree on.\<close>

definition resid_test :: "(u32 \<Rightarrow> bool) \<Rightarrow> bool" where
  "resid_test positive = (\<forall>n < 2147483648. positive (of_nat n) = (0 < n))"

lemma resid_zero: "resid_test positive \<Longrightarrow> positive 0 = False"
  unfolding resid_test_def by (drule spec [of _ 0]) simp

lemma resid_step:
  assumes "resid_test positive" "512 * Suc n < 2147483648"
  shows "positive (of_nat (512 * Suc n))" "of_nat (512 * Suc n) - 512 = (of_nat (512 * n) :: u32)"
proof -
  have "positive (of_nat (512 * Suc n)) = (0 < 512 * Suc n)"
    using assms unfolding resid_test_def by blast
  then show "positive (of_nat (512 * Suc n))" by simp
  show "of_nat (512 * Suc n) - 512 = (of_nat (512 * n) :: u32)" by simp
qed

lemma ram_loop_write:
  assumes "resid_test positive"
  shows "512 * n < 2147483648 \<Longrightarrow> b_resid bp = of_nat (512 * n) \<Longrightarrow> \<not> b_read bp \<Longrightarrow>
    unat (b_blkno bp) < Sizes ! b_minor bp \<Longrightarrow> buf + 512 * n \<le> length disk \<Longrightarrow>
    mapped vtop (length mem) addr n \<Longrightarrow>
    ram_loop positive vtop bp disk mem buf addr =
      Some (bp\<lparr> b_resid := 0 \<rparr>, take buf disk @ gather vtop mem addr n @ drop (buf + 512 * n) disk, mem)"
proof (induction n arbitrary: bp disk buf addr)
  case 0
  then show ?case using assms by (subst ram_loop.simps) (simp add: resid_zero)
next
  case (Suc n)
  note r = resid_step [OF assms Suc.prems(1)]
  let ?bp = "bp\<lparr> b_resid := of_nat (512 * n) \<rparr>" and ?d = "put_sector buf (sector (vtop addr) mem) disk"
  have room: "vtop addr + 512 \<le> length mem" "buf + 512 \<le> length disk" "mapped vtop (length mem) (addr + 512) n"
    using Suc.prems by simp_all
  have valid: "(Sizes ! b_minor bp \<le> unat (b_blkno bp)) = False" using Suc.prems(4) by simp
  have "ram_loop positive vtop bp disk mem buf addr = ram_loop positive vtop ?bp ?d mem (buf + 512) (addr + 512)"
    using Suc.prems(2,3) room r valid by (subst ram_loop.simps) (simp only: bcopy_sector if_True option.case simp_thms if_False)
  also have "\<dots> = Some (?bp\<lparr> b_resid := 0 \<rparr>, take (buf + 512) ?d @ gather vtop mem (addr + 512) n
      @ drop (buf + 512 + 512 * n) ?d, mem)"
    using Suc.prems room by (intro Suc.IH) simp_all
  also have "\<dots> = Some (bp\<lparr> b_resid := 0 \<rparr>, take buf disk @ gather vtop mem addr (Suc n)
      @ drop (buf + 512 * Suc n) disk, mem)"
    using room by (simp add: put_sector_def add_ac)
  finally show ?case .
qed

lemma ram_loop_read:
  assumes "resid_test positive"
  shows "512 * n < 2147483648 \<Longrightarrow> b_resid bp = of_nat (512 * n) \<Longrightarrow> b_read bp \<Longrightarrow>
    unat (b_blkno bp) < Sizes ! b_minor bp \<Longrightarrow> buf + 512 * n \<le> length disk \<Longrightarrow>
    mapped vtop (length mem) addr n \<Longrightarrow>
    ram_loop positive vtop bp disk mem buf addr =
      Some (bp\<lparr> b_resid := 0 \<rparr>, disk, scatter vtop mem addr n (drop buf disk))"
proof (induction n arbitrary: bp mem buf addr)
  case 0
  then show ?case using assms by (subst ram_loop.simps) (simp add: resid_zero)
next
  case (Suc n)
  note r = resid_step [OF assms Suc.prems(1)]
  let ?bp = "bp\<lparr> b_resid := of_nat (512 * n) \<rparr>" and ?m = "put_sector (vtop addr) (sector buf disk) mem"
  have room: "vtop addr + 512 \<le> length mem" "buf + 512 \<le> length disk" "mapped vtop (length mem) (addr + 512) n"
    using Suc.prems by simp_all
  have valid: "(Sizes ! b_minor bp \<le> unat (b_blkno bp)) = False" using Suc.prems(4) by simp
  have "ram_loop positive vtop bp disk mem buf addr = ram_loop positive vtop ?bp disk ?m (buf + 512) (addr + 512)"
    using Suc.prems(2,3) room r valid by (subst ram_loop.simps) (simp only: bcopy_sector if_True option.case simp_thms if_False)
  also have "\<dots> = Some (?bp\<lparr> b_resid := 0 \<rparr>, disk, scatter vtop ?m (addr + 512) n (drop (buf + 512) disk))"
    using Suc.prems room by (intro Suc.IH) simp_all
  also have "\<dots> = Some (bp\<lparr> b_resid := 0 \<rparr>, disk, scatter vtop mem addr (Suc n) (drop buf disk))"
    by (simp add: sector_def add.commute)
  finally show ?case .
qed

lemma ram_loop_overrun:
  assumes "resid_test positive"
  shows "512 * n < 2147483648 \<Longrightarrow> b_resid bp = of_nat (512 * n) \<Longrightarrow>
    unat (b_blkno bp) < Sizes ! b_minor bp \<Longrightarrow> buf \<le> length disk \<Longrightarrow> length disk < buf + 512 * n \<Longrightarrow>
    ram_loop positive vtop bp disk mem buf addr = None"
proof (induction n arbitrary: bp disk mem buf addr)
  case (Suc n)
  note r = resid_step [OF assms Suc.prems(1)]
  let ?bp = "bp\<lparr> b_resid := of_nat (512 * n) \<rparr>"
  show ?case
  proof (cases "buf + 512 \<le> length disk \<and> vtop addr + 512 \<le> length mem")
    case True
    have IH: "ram_loop positive vtop ?bp d m (buf + 512) (addr + 512) = None" if "length d = length disk" for d m
      using Suc.prems True that by (intro Suc.IH) simp_all
    have valid: "(Sizes ! b_minor bp \<le> unat (b_blkno bp)) = False" using Suc.prems(3) by simp
    show ?thesis
      using Suc.prems(2) r True IH valid
      by (subst ram_loop.simps) (simp only: bcopy_sector if_True option.case simp_thms if_False
          length_put_sector length_sector split: if_splits)
  next
    case False
    then show ?thesis using Suc.prems r
      by (subst ram_loop.simps) (auto simp: bcopy_sector)
  qed
qed simp

lemma ram_loop_lengths:
  "ram_loop positive vtop bp disk mem buf addr = Some (bp', disk', mem') \<Longrightarrow>
   length disk' = length disk \<and> length mem' = length mem \<and> b_minor bp' = b_minor bp"
proof (induction positive vtop bp disk mem buf addr rule: ram_loop.induct)
  case (1 positive vtop bp disk mem buf addr)
  show ?case
    using 1(3) 1(1,2)
    by (subst (asm) ram_loop.simps) (auto simp: bcopy_sector split: if_splits)
qed

section \<open>The driver as a transition system\<close>

definition alloc_ok :: "(nat \<Rightarrow> byte list option) \<Rightarrow> bool" where
  "alloc_ok kmem_alloc = (\<forall>n mem. kmem_alloc n = Some mem \<longrightarrow> length mem = n)"

text \<open>
  The steps: the entry points, with any working allocator and any memory mapping, and whatever the
  processes do to their memory in between.
\<close>

inductive ram_step :: "ram_state \<Rightarrow> ram_state \<Rightarrow> bool" where
  step_open: "alloc_ok kmem_alloc \<Longrightarrow> ramopen kmem_alloc m otyp s = (e, t) \<Longrightarrow> ram_step s t"
| step_close: "ramclose m s = Some t \<Longrightarrow> ram_step s t"
| step_strategy: "ramstrategy positive vtop bp s = Some (bp', t) \<Longrightarrow> ram_step s t"
| step_memory: "length mem = length (phys s) \<Longrightarrow> ram_step s (s\<lparr> phys := mem \<rparr>)"

definition ram_inv :: "nat \<Rightarrow> ram_state \<Rightarrow> bool" where
  "ram_inv sz s = (length (phys s) = sz \<and> length (Buffers s) = 3 \<and>
    (\<forall>m < 3. \<forall>disk. Buffers s ! m = Some disk \<longrightarrow> length disk = 512 * Sizes ! m))"

lemma ram_inv_update:
  "ram_inv sz s \<Longrightarrow> m < 3 \<Longrightarrow> length mem = sz \<Longrightarrow>
   (\<And>disk. b = Some disk \<Longrightarrow> length disk = 512 * Sizes ! m) \<Longrightarrow>
   ram_inv sz (s\<lparr> Buffers := (Buffers s)[m := b], phys := mem \<rparr>)"
  by (auto simp: ram_inv_def nth_list_update)

lemma ram_step_inv:
  assumes "ram_inv sz s" "ram_step s t"
  shows "ram_inv sz t"
  using assms(2)
proof cases
  case (step_open kmem_alloc m otyp e)
  have *: "ram_inv sz (s\<lparr> Buffers := (Buffers s)[m := Some mem] \<rparr>)"
    if "kmem_alloc (Sizes ! m * 512) = Some mem" "m < 3" for mem
    using that step_open(1) ram_inv_update [OF assms(1), of m "phys s" "Some mem"] assms(1)
    by (simp add: alloc_ok_def ram_inv_def mult.commute)
  show ?thesis
    using step_open assms(1) * by (auto simp: ramopen_def split: if_splits option.splits)
next
  case (step_close m)
  then show ?thesis
    using ram_inv_update [OF assms(1), of m "phys s" None] assms(1)
    by (auto simp: ramclose_def ram_inv_def split: if_splits)
next
  case (step_strategy positive vtop bp bp')
  then obtain disk bp0 disk' mem' where m: "b_minor bp < 3"
    and d: "disk = (case Buffers s ! b_minor bp of None \<Rightarrow> [] | Some d \<Rightarrow> d)"
    and l: "ram_loop positive vtop (bp\<lparr> b_resid := b_bcount bp \<rparr>) disk (phys s)
        (512 * unat (b_blkno bp)) (b_addr bp) = Some (bp0, disk', mem')"
    and t: "t = s\<lparr> Buffers := (Buffers s)[b_minor bp := map_option (\<lambda>_. disk') (Buffers s ! b_minor bp)],
        phys := mem' \<rparr>"
    by (auto simp: ramstrategy_def Let_def split: if_splits option.splits prod.splits)
  show ?thesis
    unfolding t
  proof (rule ram_inv_update [OF assms(1) m])
    show "length mem' = sz" using ram_loop_lengths [OF l] assms(1) by (simp add: ram_inv_def)
    show "length x = 512 * Sizes ! b_minor bp"
      if "map_option (\<lambda>_. disk') (Buffers s ! b_minor bp) = Some x" for x
      using that d m assms(1) ram_loop_lengths [OF l] by (auto simp: ram_inv_def)
  qed
next
  case (step_memory mem)
  then show ?thesis using assms(1) by (simp add: ram_inv_def)
qed

definition ram_start :: "nat \<Rightarrow> ram_state \<Rightarrow> bool" where
  "ram_start sz s = (length (phys s) = sz \<and> Buffers s = [None, None, None])"

text \<open>An allocator that finds zeros, for the instances below.\<close>

definition zero_alloc :: "nat \<Rightarrow> byte list option" where
  "zero_alloc n = Some (replicate n 0)"

lemma ram_start_inv: "ram_start sz s \<Longrightarrow> ram_inv sz s"
  by (auto simp: ram_start_def ram_inv_def less_Suc_eq numeral_3_eq_3)

interpretation ram: transition_system "ram_start sz" ram_step "ram_inv sz"
  by unfold_locales (auto intro: ram_start_inv ram_step_inv)

text \<open>
  Buffers and sizes agree: in every reachable state an open unit has a buffer of exactly its
  size in sectors, whatever the order of opens, closes and transfers (a second open keeps the
  buffer), and no transfer changes the size of memory.
\<close>

theorem ram_sizes:
  assumes "reach (ram_start sz) ram_step s" "m < 3" "Buffers s ! m = Some disk"
  shows "length disk = 512 * Sizes ! m \<and> length (phys s) = sz"
  using ram.reach_inv [OF assms(1)] assms(2,3) by (simp add: ram_inv_def)

theorem ram_sizes_witness:
  "length (replicate 131072 (0 :: byte)) = 512 * Sizes ! 0 \<and>
   length (phys \<lparr> Buffers = [Some (replicate 131072 0), None, None], phys = [1, 2, 3] \<rparr>) = 3"
proof (rule ram_sizes)
  let ?s = "\<lparr> Buffers = [None, None, None], phys = [1, 2, 3] \<rparr>"
  let ?t = "\<lparr> Buffers = [Some (replicate 131072 0), None, None], phys = [1, 2, 3] \<rparr>"
  have "ramopen zero_alloc 0 OTYP_MNT ?s = (None, ?t)"
    by (simp add: ramopen_def zero_alloc_def Sizes_def)
  then have "ram_step ?s ?t" by (rule step_open [rotated]) (simp add: alloc_ok_def zero_alloc_def)
  moreover have "ram_start 3 ?s" by (simp add: ram_start_def)
  ultimately show "reach (ram_start 3) ram_step ?t" by (blast intro: reach.intros)
qed simp_all

text \<open>
  C25. Round trip: a write of \<open>n\<close> sectors inside an open unit, followed by a read of the same sectors
  at any later time at which the buffer is the same, returns to the reading process the bytes the
  writing process had; both requests finish without error and with nothing left over. The reader's
  sectors are mapped and do not overlap in physical memory.
\<close>

theorem ram_round_trip:
  assumes inv: "ram_inv sz s" and test: "resid_test positive"
    and unit: "b_minor w < 3" "Buffers s ! b_minor w = Some disk"
    and w: "\<not> b_read w" "b_bcount w = of_nat (512 * n)" "b_error w = None" "mapped vtop sz (b_addr w) n"
    and fits: "0 < n" "unat (b_blkno w) + n \<le> Sizes ! b_minor w"
    and r: "b_read r" "b_minor r = b_minor w" "b_blkno r = b_blkno w" "b_bcount r = b_bcount w"
      "b_error r = None" "mapped vtop' sz (b_addr r) n" "disjoint_sectors vtop' (b_addr r) n"
  shows "\<exists>w' s1. ramstrategy positive vtop w s = Some (w', s1) \<and>
    b_error w' = None \<and> b_resid w' = 0 \<and> b_done w' \<and> phys s1 = phys s \<and>
    (\<forall>s2. ram_inv sz s2 \<and> Buffers s2 ! b_minor w = Buffers s1 ! b_minor w \<longrightarrow>
      (\<exists>r' s3. ramstrategy positive vtop' r s2 = Some (r', s3) \<and>
        b_error r' = None \<and> b_resid r' = 0 \<and> b_done r' \<and> Buffers s3 = Buffers s2 \<and>
        gather vtop' (phys s3) (b_addr r) n = gather vtop (phys s) (b_addr w) n))"
proof -
  define off where "off = 512 * unat (b_blkno w)"
  define data where "data = gather vtop (phys s) (b_addr w) n"
  define disk1 where "disk1 = take off disk @ data @ drop (off + 512 * n) disk"
  have len: "length (phys s) = sz" "length (Buffers s) = 3" "length disk = 512 * Sizes ! b_minor w"
    using inv unit by (simp_all add: ram_inv_def)
  have small: "512 * n < 2147483648"
    using fits(2) unit(1) by (auto simp: Sizes_def less_Suc_eq numeral_3_eq_3)
  have room: "off + 512 * n \<le> length disk" "unat (b_blkno w) < Sizes ! b_minor w"
    using fits len by (simp_all add: off_def)
  have ld: "length data = 512 * n" using w(4) len by (simp add: data_def length_gather)
  let ?w = "w\<lparr> b_resid := b_bcount w \<rparr>" and ?r = "r\<lparr> b_resid := b_bcount r \<rparr>"
  have W: "ram_loop positive vtop ?w disk (phys s) off (b_addr w) = Some (?w\<lparr> b_resid := 0 \<rparr>, disk1, phys s)"
    unfolding disk1_def data_def by (rule ram_loop_write [OF test small]) (use w room len in simp_all)
  let ?s1 = "s\<lparr> Buffers := (Buffers s)[b_minor w := Some disk1], phys := phys s \<rparr>"
  have R: "ram_loop positive vtop' ?r disk1 m off (b_addr r) =
      Some (?r\<lparr> b_resid := 0 \<rparr>, disk1, scatter vtop' m (b_addr r) n (drop off disk1))"
    if "length m = sz" for m
    by (rule ram_loop_read [OF test small]) (use that r w room len ld in \<open>simp_all add: disk1_def\<close>)
  have G: "gather vtop' (scatter vtop' m (b_addr r) n (drop off disk1)) (b_addr r) n = data"
    if "length m = sz" for m
  proof -
    have "gather vtop' (scatter vtop' m (b_addr r) n (drop off disk1)) (b_addr r) n = take (512 * n) (drop off disk1)"
      by (rule gather_scatter) (use that r room ld in \<open>simp_all add: disk1_def\<close>)
    also have "\<dots> = data" using room ld by (simp add: disk1_def)
    finally show ?thesis .
  qed
  have "ramstrategy positive vtop w s = Some (?w\<lparr> b_resid := 0, b_done := True \<rparr>, ?s1)"
    using unit W by (simp add: ramstrategy_def off_def)
  moreover have "\<exists>r' s3. ramstrategy positive vtop' r s2 = Some (r', s3) \<and>
        b_error r' = None \<and> b_resid r' = 0 \<and> b_done r' \<and> Buffers s3 = Buffers s2 \<and>
        gather vtop' (phys s3) (b_addr r) n = data"
    if s2: "ram_inv sz s2" "Buffers s2 ! b_minor w = Some disk1" for s2
    using R [of "phys s2"] G [of "phys s2"] s2 unit r
    by (simp add: ramstrategy_def off_def ram_inv_def list_update_same_conv)
  ultimately show ?thesis using w(3) unit len by (auto simp: data_def)
qed

text \<open>
  The end of the unit: the block number is compared with the size once per sector but never
  advances, so a transfer that starts inside the unit and goes past its end is not refused with
  \<open>ENXIO\<close>: it leaves the buffer. A transfer that starts outside is refused and touches nothing.
\<close>

theorem ram_overrun:
  assumes inv: "ram_inv sz s" and test: "resid_test positive"
    and unit: "b_minor bp < 3" "Buffers s ! b_minor bp = Some disk"
    and count: "b_bcount bp = of_nat (512 * n)" "512 * n < 2147483648" "0 < n"
  shows "(unat (b_blkno bp) < Sizes ! b_minor bp \<and> Sizes ! b_minor bp < unat (b_blkno bp) + n \<longrightarrow>
      ramstrategy positive vtop bp s = None) \<and>
    (Sizes ! b_minor bp \<le> unat (b_blkno bp) \<longrightarrow>
      ramstrategy positive vtop bp s =
        Some (bp\<lparr> b_resid := b_bcount bp, b_error := Some ENXIO, b_done := True \<rparr>, s))"
proof (intro conjI impI)
  let ?bp = "bp\<lparr> b_resid := b_bcount bp \<rparr>"
  have len: "length disk = 512 * Sizes ! b_minor bp" using inv unit by (simp add: ram_inv_def)
  show "ramstrategy positive vtop bp s = None"
    if "unat (b_blkno bp) < Sizes ! b_minor bp \<and> Sizes ! b_minor bp < unat (b_blkno bp) + n"
  proof -
    have "ram_loop positive vtop ?bp disk (phys s) (512 * unat (b_blkno bp)) (b_addr bp) = None"
      by (rule ram_loop_overrun [OF test count(2)]) (use that len count in simp_all)
    then show ?thesis using unit by (simp add: ramstrategy_def)
  qed
  show "ramstrategy positive vtop bp s =
      Some (bp\<lparr> b_resid := b_bcount bp, b_error := Some ENXIO, b_done := True \<rparr>, s)"
    if "Sizes ! b_minor bp \<le> unat (b_blkno bp)"
  proof -
    have "positive (of_nat (512 * n)) = (0 < 512 * n)" using test count(2) unfolding resid_test_def by blast
    then have "positive (b_bcount bp)" using count by (simp only: zero_less_mult_iff simp_thms zero_less_numeral)
    then have "ram_loop positive vtop ?bp disk (phys s) (512 * unat (b_blkno bp)) (b_addr bp) =
        Some (?bp\<lparr> b_error := Some ENXIO \<rparr>, disk, phys s)"
      using that by (subst ram_loop.simps) simp
    moreover have "(Buffers s)[b_minor bp := Some disk] = Buffers s" using unit(2) by (metis list_update_id)
    then have "s\<lparr> Buffers := (Buffers s)[b_minor bp := Some disk], phys := phys s \<rparr> = s" by (cases s) simp
    ultimately show ?thesis using unit by (simp add: ramstrategy_def)
  qed
qed

text \<open>A state and requests for the instances: unit 0 is open, sector 3 is written and read.\<close>

definition disk_state :: ram_state where
  "disk_state = \<lparr> Buffers = [Some (replicate 131072 0), None, None], phys = replicate 2048 7 \<rparr>"

definition request :: "nat \<Rightarrow> nat \<Rightarrow> bool \<Rightarrow> nat \<Rightarrow> ram_buf" where
  "request blk n rd addr = \<lparr> b_minor = 0, b_blkno = of_nat blk, b_bcount = of_nat (512 * n), b_read = rd,
    b_addr = addr, b_resid = 0, b_error = None, b_done = False \<rparr>"

lemma disk_state_inv: "ram_inv 2048 disk_state"
  by (auto simp: ram_inv_def disk_state_def Sizes_def less_Suc_eq numeral_3_eq_3)

lemma unsigned_resid: "resid_test (\<lambda>x. x \<noteq> 0)"
  unfolding resid_test_def by (auto simp: word_unat_eq_iff unat_of_nat)

lemma two_sectors: "mapped id 2048 0 2" "mapped id 2048 512 2" "disjoint_sectors id 512 2"
  by (simp_all add: numeral_2_eq_2)

theorem ram_round_trip_witness:
  "\<exists>w' s1 r' s3. ramstrategy (\<lambda>x. x \<noteq> 0) id (request 3 2 False 0) disk_state = Some (w', s1) \<and>
    ramstrategy (\<lambda>x. x \<noteq> 0) id (request 3 2 True 512) s1 = Some (r', s3) \<and> b_error r' = None \<and>
    gather id (phys s3) 512 2 = gather id (phys disk_state) 0 2"
proof -
  have "\<exists>w' s1. ramstrategy (\<lambda>x. x \<noteq> 0) id (request 3 2 False 0) disk_state = Some (w', s1) \<and>
    b_error w' = None \<and> b_resid w' = 0 \<and> b_done w' \<and> phys s1 = phys disk_state \<and>
    (\<forall>s2. ram_inv 2048 s2 \<and> Buffers s2 ! b_minor (request 3 2 False 0) = Buffers s1 ! b_minor (request 3 2 False 0) \<longrightarrow>
      (\<exists>r' s3. ramstrategy (\<lambda>x. x \<noteq> 0) id (request 3 2 True 512) s2 = Some (r', s3) \<and>
        b_error r' = None \<and> b_resid r' = 0 \<and> b_done r' \<and> Buffers s3 = Buffers s2 \<and>
        gather id (phys s3) (b_addr (request 3 2 True 512)) 2 =
          gather id (phys disk_state) (b_addr (request 3 2 False 0)) 2))"
    by (rule ram_round_trip [OF disk_state_inv unsigned_resid, where disk = "replicate 131072 0"])
      (simp_all add: two_sectors request_def disk_state_def Sizes_def)
  then obtain w' s1 where w: "ramstrategy (\<lambda>x. x \<noteq> 0) id (request 3 2 False 0) disk_state = Some (w', s1)"
    and r: "\<And>s2. ram_inv 2048 s2 \<and> Buffers s2 ! b_minor (request 3 2 False 0) = Buffers s1 ! b_minor (request 3 2 False 0) \<Longrightarrow>
      (\<exists>r' s3. ramstrategy (\<lambda>x. x \<noteq> 0) id (request 3 2 True 512) s2 = Some (r', s3) \<and>
        b_error r' = None \<and> b_resid r' = 0 \<and> b_done r' \<and> Buffers s3 = Buffers s2 \<and>
        gather id (phys s3) (b_addr (request 3 2 True 512)) 2 =
          gather id (phys disk_state) (b_addr (request 3 2 False 0)) 2)" by blast
  have "ram_inv 2048 s1" by (rule ram_step_inv [OF disk_state_inv step_strategy [OF w]])
  then obtain r' s3 where "ramstrategy (\<lambda>x. x \<noteq> 0) id (request 3 2 True 512) s1 = Some (r', s3)" "b_error r' = None"
    "gather id (phys s3) 512 2 = gather id (phys disk_state) 0 2"
    using r [of s1] by (auto simp: request_def)
  then show ?thesis using w by blast
qed

theorem ram_overrun_witness:
  "ramstrategy (\<lambda>x. x \<noteq> 0) id (request 255 2 False 0) disk_state = None"
  using ram_overrun [OF disk_state_inv unsigned_resid, of "request 255 2 False 0" "replicate 131072 0" 2 id]
  by (simp add: request_def disk_state_def Sizes_def)

end
