(* ===== verification/Sd_Partition.thy ===== *)
theory Sd_Partition
  imports Streams
begin

text \<open>
  SCSI disk partitions, \<open>alien/sdpart.c\<close> with the device-number macros of \<open>alien/sd.h\<close>: reading the
  Rigid Disk Block and the chain of partition blocks, the partition table, and the translation and
  the check of block numbers of the transfers.

  Parameters of the model: the layout of the on-disk structures (\<open>hardblocks.h\<close> of AmigaDOS and
  \<open>env.h\<close>, which are not in the repository), as the indices of the fields in the 128 words of a
  block; and the strategy routine of the disk driver, as the answer to a read.
  A word beyond the end of \<open>union block\<close> is not there: \<open>None\<close>.
\<close>

section \<open>Data\<close>

record layout =
  rdb_ID :: nat
  rdb_SummedLongs :: nat
  rdb_CylBlocks :: nat
  rdb_PartitionList :: nat
  pb_ID :: nat
  pb_SummedLongs :: nat
  pb_Next :: nat
  pb_LowCyl :: nat
  pb_UpperCyl :: nat

definition layout_ok :: "layout \<Rightarrow> bool" where
  "layout_ok L = list_all (\<lambda>i. i < 128)
    [rdb_ID L, rdb_SummedLongs L, rdb_CylBlocks L, rdb_PartitionList L,
     pb_ID L, pb_SummedLongs L, pb_Next L, pb_LowCyl L, pb_UpperCyl L]"

record partab =
  base :: u32
  len :: u32

text \<open>The static variables: the table of 256 partitions and the block last read.\<close>

record sd_state =
  sd_partab :: "partab list"
  sd_block :: "u32 list"

text \<open>What a read leaves in the buffer header and in memory: \<open>B_ERROR\<close>, \<open>b_error\<close>, \<open>b_resid\<close>.\<close>

record sd_answer =
  ans_failed :: bool
  ans_error :: "errno option"
  ans_resid :: u32
  ans_data :: "u32 list"

type_synonym sd_strat = "u32 \<Rightarrow> u32 \<Rightarrow> sd_answer"

definition MINOR :: "u32 \<Rightarrow> nat" where
  "MINOR dev = unat (dev AND 0xFF)"

definition sdpart :: "u32 \<Rightarrow> u32" where
  "sdpart dev = drop_bit 4 dev AND 7"

definition sddev0p :: "u32 \<Rightarrow> u32" where
  "sddev0p dev = dev AND NOT 0x70"

definition RDSK :: u32 where "RDSK = 0x5244534B"
definition PART :: u32 where "PART = 0x50415254"

section \<open>Reading and checking blocks\<close>

definition sd_read :: "sd_strat \<Rightarrow> u32 \<Rightarrow> u32 \<Rightarrow> sd_state \<Rightarrow> errno option \<times> sd_state" where
  "sd_read strat dev bno s =
    (let a = strat (sddev0p dev) bno;
         s = s\<lparr> sd_block := ans_data a \<rparr>
     in if ans_failed a \<or> ans_resid a \<noteq> 0
        then (Some (case ans_error a of Some e \<Rightarrow> e | None \<Rightarrow> EIO), s)
        else (None, s))"

fun checksum_loop :: "u32 list \<Rightarrow> nat \<Rightarrow> u32 \<Rightarrow> bool option" where
  "checksum_loop p 0 a = Some (a = 0)"
| "checksum_loop [] (Suc n) a = None"
| "checksum_loop (w # p) (Suc n) a = checksum_loop p n (a + w)"

definition checksum :: "u32 list \<Rightarrow> u32 \<Rightarrow> bool option" where
  "checksum p n = checksum_loop p (unat n) 0"

text \<open>\<open>id_ok\<close> is the test both readers make: the identifier, then the checksum.\<close>

definition id_ok :: "u32 \<Rightarrow> nat \<Rightarrow> nat \<Rightarrow> u32 list \<Rightarrow> bool option" where
  "id_ok ident i n blk = (if blk ! i = ident then checksum blk (blk ! n) else Some False)"

text \<open>The loop of \<open>getrdb\<close>, over the block numbers that are left.\<close>

fun getrdb_loop :: "layout \<Rightarrow> sd_strat \<Rightarrow> u32 \<Rightarrow> u32 list \<Rightarrow> sd_state \<Rightarrow> (errno option \<times> sd_state) option" where
  "getrdb_loop L strat dev [] s = Some (Some ENXIO, s)"
| "getrdb_loop L strat dev (i # rest) s =
    (case sd_read strat dev i s of
       (Some e, s) \<Rightarrow> Some (Some e, s)
     | (None, s) \<Rightarrow>
         (case id_ok RDSK (rdb_ID L) (rdb_SummedLongs L) (sd_block s) of
            None \<Rightarrow> None
          | Some True \<Rightarrow> Some (None, s)
          | Some False \<Rightarrow> getrdb_loop L strat dev rest s))"

definition getrdb :: "layout \<Rightarrow> sd_strat \<Rightarrow> u32 \<Rightarrow> sd_state \<Rightarrow> (errno option \<times> sd_state) option" where
  "getrdb L strat dev s = getrdb_loop L strat dev (map of_nat [0..<16]) s"

definition getpb :: "layout \<Rightarrow> sd_strat \<Rightarrow> u32 \<Rightarrow> u32 \<Rightarrow> sd_state \<Rightarrow> (errno option \<times> sd_state) option" where
  "getpb L strat dev a s =
    (case sd_read strat dev a s of
       (Some e, s) \<Rightarrow> Some (Some e, s)
     | (None, s) \<Rightarrow>
         (case id_ok PART (pb_ID L) (pb_SummedLongs L) (sd_block s) of
            None \<Rightarrow> None
          | Some True \<Rightarrow> Some (None, s)
          | Some False \<Rightarrow> Some (Some ENXIO, s)))"

section \<open>The partition of a device\<close>

text \<open>The \<open>do\<close> loop with \<open>n\<close> rounds to go: follow the chain from block \<open>a\<close>.\<close>

fun follow :: "layout \<Rightarrow> sd_strat \<Rightarrow> u32 \<Rightarrow> nat \<Rightarrow> u32 \<Rightarrow> sd_state \<Rightarrow> (errno option \<times> sd_state) option" where
  "follow L strat dev 0 a s = Some (None, s)"
| "follow L strat dev (Suc n) a s =
    (if a = - 1 then Some (Some ENXIO, s)
     else case getpb L strat dev a s of
       None \<Rightarrow> None
     | Some (Some e, s) \<Rightarrow> Some (Some e, s)
     | Some (None, s) \<Rightarrow> follow L strat dev n (sd_block s ! pb_Next L) s)"

definition sdpartition ::
  "layout \<Rightarrow> sd_strat \<Rightarrow> u32 \<Rightarrow> sd_state \<Rightarrow> (errno option \<times> sd_state) option" where
  "sdpartition L strat dev s =
    (if sdpart dev = 0 then Some (None, s)
     else case getrdb L strat dev s of
       None \<Rightarrow> None
     | Some (Some e, s) \<Rightarrow> Some (Some e, s)
     | Some (None, s) \<Rightarrow>
         let sperc = sd_block s ! rdb_CylBlocks L;
             a = sd_block s ! rdb_PartitionList L
         in case follow L strat dev (unat (sdpart dev)) a s of
              None \<Rightarrow> None
            | Some (Some e, s) \<Rightarrow> Some (Some e, s)
            | Some (None, s) \<Rightarrow>
                let low = sd_block s ! pb_LowCyl L; upper = sd_block s ! pb_UpperCyl L
                in Some (None, s\<lparr> sd_partab := (sd_partab s)[MINOR dev :=
                     \<lparr> base = low * sperc, len = (upper + 1 - low) * sperc \<rparr>] \<rparr>))"

record sd_buf =
  sb_edev :: u32
  sb_blkno :: u32
  sb_bcount :: u32
  sb_resid :: u32
  sb_error :: bool
  sb_done :: bool

definition nblocks :: "sd_buf \<Rightarrow> u32" where
  "nblocks bp = (sb_bcount bp + 512 - 1) div 512"

definition sdvalid :: "sd_buf \<Rightarrow> sd_state \<Rightarrow> bool \<times> sd_buf" where
  "sdvalid bp s =
    (if sdpart (sb_edev bp) = 0 \<or>
        sb_blkno bp + nblocks bp \<le> len (sd_partab s ! MINOR (sb_edev bp))
     then (True, bp)
     else (False, bp\<lparr> sb_resid := sb_bcount bp, sb_error := True, sb_done := True \<rparr>))"

definition sdblkno :: "sd_buf \<Rightarrow> sd_state \<Rightarrow> u32" where
  "sdblkno bp s = base (sd_partab s ! MINOR (sb_edev bp)) + sb_blkno bp"

definition sddevsize :: "u32 \<Rightarrow> sd_state \<Rightarrow> u32" where
  "sddevsize dev s =
    (if len (sd_partab s ! MINOR dev) \<noteq> 0 then len (sd_partab s ! MINOR dev) else 1234567)"

section \<open>Blocks of the disk\<close>

text \<open>
  The specification speaks of the disk: a block that reads without error, has the identifier and
  a zero sum over the words it counts.
\<close>

lemma MINOR_less: "MINOR dev < 256"
proof -
  have "dev AND 0xFF \<le> 0xFF" by (rule word_and_le1)
  then have "unat (dev AND 0xFF) \<le> unat (0xFF :: u32)" by (simp only: word_le_nat_alt)
  then show ?thesis by (simp add: MINOR_def)
qed

definition good_read :: "sd_strat \<Rightarrow> u32 \<Rightarrow> u32 \<Rightarrow> u32 list option" where
  "good_read strat dev bno =
    (let a = strat (sddev0p dev) bno
     in if ans_failed a \<or> ans_resid a \<noteq> 0 then None else Some (ans_data a))"

definition good_block :: "u32 \<Rightarrow> nat \<Rightarrow> nat \<Rightarrow> u32 list \<Rightarrow> bool" where
  "good_block ident i n blk = (blk ! i = ident \<and> unat (blk ! n) \<le> length blk \<and>
    sum_list (take (unat (blk ! n)) blk) = 0)"

text \<open>\<open>partition_at L strat dev a k blk\<close>: block \<open>blk\<close> is the one \<open>k\<close> links behind block number \<open>a\<close>.\<close>

inductive partition_at :: "layout \<Rightarrow> sd_strat \<Rightarrow> u32 \<Rightarrow> u32 \<Rightarrow> nat \<Rightarrow> u32 list \<Rightarrow> bool"
  for L strat dev where
  first_block: "a \<noteq> - 1 \<Longrightarrow> good_read strat dev a = Some blk \<Longrightarrow>
    good_block PART (pb_ID L) (pb_SummedLongs L) blk \<Longrightarrow> partition_at L strat dev a 0 blk"
| next_block: "a \<noteq> - 1 \<Longrightarrow> good_read strat dev a = Some b \<Longrightarrow>
    good_block PART (pb_ID L) (pb_SummedLongs L) b \<Longrightarrow>
    partition_at L strat dev (b ! pb_Next L) k blk \<Longrightarrow> partition_at L strat dev a (Suc k) blk"

lemma checksum_loop_sum:
  "checksum_loop p n a = (if n \<le> length p then Some (a + sum_list (take n p) = 0) else None)"
  by (induction p n a rule: checksum_loop.induct) (auto simp: add.assoc)

lemma id_ok_true: "id_ok ident i n blk = Some True \<longleftrightarrow> good_block ident i n blk"
  by (auto simp: id_ok_def checksum_def checksum_loop_sum good_block_def)

lemma sd_read_ok:
  "sd_read strat dev bno s = (None, t) \<longleftrightarrow>
   (\<exists>blk. good_read strat dev bno = Some blk \<and> t = s\<lparr> sd_block := blk \<rparr>)"
  by (auto simp: sd_read_def good_read_def Let_def)

lemma getrdb_loop_ok:
  "getrdb_loop L strat dev bs s = Some (None, t) \<Longrightarrow>
   \<exists>i \<in> set bs. \<exists>blk. good_read strat dev i = Some blk \<and>
     good_block RDSK (rdb_ID L) (rdb_SummedLongs L) blk \<and> t = s\<lparr> sd_block := blk \<rparr>"
proof (induction L strat dev bs s rule: getrdb_loop.induct)
  case (2 L strat dev i rest s)
  obtain e s1 where r: "sd_read strat dev i s = (e, s1)" by fastforce
  show ?case
  proof (cases e)
    case (Some x)
    then show ?thesis using 2(2) r by simp
  next
    case None
    then obtain blk where blk: "good_read strat dev i = Some blk" "s1 = s\<lparr> sd_block := blk \<rparr>"
      using r sd_read_ok by metis
    show ?thesis
    proof (cases "id_ok RDSK (rdb_ID L) (rdb_SummedLongs L) (sd_block s1)")
      case (Some b)
      show ?thesis
      proof (cases b)
        case True
        then have "t = s1" using 2(2) r None Some by simp
        moreover have "good_block RDSK (rdb_ID L) (rdb_SummedLongs L) (sd_block s1)"
          using Some True by (simp flip: id_ok_true)
        ultimately show ?thesis using blk by auto
      next
        case False
        then have "getrdb_loop L strat dev rest s1 = Some (None, t)"
          using 2(2) r None Some by simp
        then show ?thesis using 2(1) [OF r [symmetric] None Some] False blk by auto
      qed
    qed (use 2(2) r None in simp)
  qed
qed simp

lemma getpb_ok:
  "getpb L strat dev a s = Some (None, t) \<Longrightarrow>
   \<exists>blk. good_read strat dev a = Some blk \<and> good_block PART (pb_ID L) (pb_SummedLongs L) blk \<and>
     t = s\<lparr> sd_block := blk \<rparr>"
  by (auto simp: getpb_def sd_read_ok id_ok_true split: prod.splits option.splits bool.splits)

lemma follow_ok:
  "follow L strat dev (Suc n) a s = Some (None, t) \<Longrightarrow>
   \<exists>blk. partition_at L strat dev a n blk \<and> t = s\<lparr> sd_block := blk \<rparr>"
proof (induction n arbitrary: a s)
  case 0
  then have "a \<noteq> - 1" "getpb L strat dev a s = Some (None, t)" by (auto split: if_splits option.splits)
  then show ?case using getpb_ok first_block by metis
next
  case (Suc n)
  have a: "a \<noteq> - 1" using Suc.prems by (auto split: if_splits)
  then obtain u where u: "getpb L strat dev a s = Some (None, u)"
    "follow L strat dev (Suc n) (sd_block u ! pb_Next L) u = Some (None, t)"
    using Suc.prems by (auto split: option.splits simp del: follow.simps(2) simp: follow.simps(2) [of L strat dev "Suc n"])
  obtain b where b: "good_read strat dev a = Some b" "good_block PART (pb_ID L) (pb_SummedLongs L) b"
    "u = s\<lparr> sd_block := b \<rparr>"
    using getpb_ok [OF u(1)] by blast
  then obtain blk where "partition_at L strat dev (b ! pb_Next L) n blk" "t = u\<lparr> sd_block := blk \<rparr>"
    using Suc.IH [OF u(2)] by auto
  then show ?case using a b by (auto intro: next_block)
qed

text \<open>What a successful \<open>sdpartition\<close> put into the table.\<close>

definition partition_of ::
  "layout \<Rightarrow> sd_strat \<Rightarrow> u32 \<Rightarrow> u32 list \<Rightarrow> u32 list \<Rightarrow> bool" where
  "partition_of L strat dev rdb pb = (\<exists>i < 16. good_read strat dev (of_nat i) = Some rdb \<and>
    good_block RDSK (rdb_ID L) (rdb_SummedLongs L) rdb \<and>
    partition_at L strat dev (rdb ! rdb_PartitionList L) (unat (sdpart dev) - 1) pb)"

lemma sdpartition_ok:
  assumes "sdpartition L strat dev s = Some (None, t)" "sdpart dev \<noteq> 0"
  shows "\<exists>rdb pb. partition_of L strat dev rdb pb \<and>
    sd_partab t = (sd_partab s)[MINOR dev :=
      \<lparr> base = pb ! pb_LowCyl L * rdb ! rdb_CylBlocks L,
        len = (pb ! pb_UpperCyl L + 1 - pb ! pb_LowCyl L) * rdb ! rdb_CylBlocks L \<rparr>]"
proof -
  obtain u where u: "getrdb L strat dev s = Some (None, u)"
    using assms by (auto simp: sdpartition_def split: option.splits)
  then obtain i rdb where i: "i < 16" and r: "good_read strat dev (of_nat i) = Some rdb"
      "good_block RDSK (rdb_ID L) (rdb_SummedLongs L) rdb" "u = s\<lparr> sd_block := rdb \<rparr>"
    unfolding getrdb_def by (auto dest!: getrdb_loop_ok simp del: upt_Suc)
  obtain n where n: "unat (sdpart dev) = Suc n"
    using assms(2) by (metis not0_implies_Suc unat_eq_zero)
  obtain v where v: "follow L strat dev (Suc n) (rdb ! rdb_PartitionList L) u = Some (None, v)"
    "t = v\<lparr> sd_partab := (sd_partab v)[MINOR dev :=
      \<lparr> base = sd_block v ! pb_LowCyl L * rdb ! rdb_CylBlocks L,
        len = (sd_block v ! pb_UpperCyl L + 1 - sd_block v ! pb_LowCyl L) * rdb ! rdb_CylBlocks L \<rparr>] \<rparr>"
    using assms u r(3) n
    by (auto simp: sdpartition_def Let_def split: option.splits prod.splits simp del: follow.simps)
  obtain pb where "partition_at L strat dev (rdb ! rdb_PartitionList L) n pb" "v = u\<lparr> sd_block := pb \<rparr>"
    using follow_ok [OF v(1)] by blast
  then show ?thesis
    using i r v(2) n by (intro exI [of _ rdb] exI [of _ pb]) (auto simp: partition_of_def)
qed

lemma getrdb_loop_partab:
  "getrdb_loop L strat dev bs s = Some (e, t) \<Longrightarrow> sd_partab t = sd_partab s"
proof (induction L strat dev bs s rule: getrdb_loop.induct)
  case (2 L strat dev i rest s)
  obtain e1 s1 where r: "sd_read strat dev i s = (e1, s1)" by fastforce
  then have "sd_partab s1 = sd_partab s" by (auto simp: sd_read_def Let_def split: if_splits)
  then show ?case using 2 r by (auto split: option.splits bool.splits)
qed simp

lemma getpb_partab: "getpb L strat dev a s = Some (e, t) \<Longrightarrow> sd_partab t = sd_partab s"
  by (auto simp: getpb_def sd_read_def Let_def split: option.splits bool.splits if_splits)

lemma follow_partab: "follow L strat dev n a s = Some (e, t) \<Longrightarrow> sd_partab t = sd_partab s"
  by (induction L strat dev n a s rule: follow.induct)
    (auto dest: getpb_partab split: if_splits option.splits)

section \<open>What the partition code promises\<close>

text \<open>
  Errors leave the table alone: when \<open>sdpartition\<close> fails, for a read error, a missing or bad Rigid
  Disk Block, or a chain that is too short or damaged, no entry of the partition table has changed;
  for the whole-device partition 0 nothing is read and the call succeeds.
\<close>

theorem sdpartition_error:
  "case sdpartition L strat dev s of
     Some (Some e, t) \<Rightarrow> sd_partab t = sd_partab s
   | Some (None, t) \<Rightarrow> sdpart dev = 0 \<longrightarrow> t = s
   | None \<Rightarrow> sdpart dev \<noteq> 0"
  by (auto simp: sdpartition_def getrdb_def Let_def split: option.splits
      dest!: getrdb_loop_partab follow_partab)

theorem sdpartition_error_witness:
  "case sdpartition \<lparr> rdb_ID = 0, rdb_SummedLongs = 1, rdb_CylBlocks = 2, rdb_PartitionList = 3,
      pb_ID = 0, pb_SummedLongs = 1, pb_Next = 2, pb_LowCyl = 3, pb_UpperCyl = 4 \<rparr>
      (\<lambda>d b. \<lparr> ans_failed = True, ans_error = Some ENXIO, ans_resid = 0, ans_data = replicate 128 0 \<rparr>)
      0x10 \<lparr> sd_partab = [], sd_block = [] \<rparr> of
     Some (Some e, t) \<Rightarrow> sd_partab t = sd_partab \<lparr> sd_partab = [], sd_block = [] \<rparr>
   | Some (None, t) \<Rightarrow> sdpart 0x10 = 0 \<longrightarrow> t = \<lparr> sd_partab = [], sd_block = [] \<rparr>
   | None \<Rightarrow> sdpart 0x10 \<noteq> 0"
  by (rule sdpartition_error)

text \<open>
  C22. What \<open>sdvalid\<close> lets through after a successful \<open>sdpartition\<close>: the partition is that of the block the
  device number names, found by as many links from a good Rigid Disk Block in the first 16 blocks. If its cylinders are in order
  and its blocks have 32-bit numbers, a transfer passes just when the first block behind it, as the 32-bit number the
  code computes, does not exceed the size of the partition. When that number does not wrap, a transfer that passes goes to blocks of the disk
  inside those cylinders.
\<close>

theorem sd_confined:
  assumes "sdpartition L strat dev s = Some (None, t)" "sdpart dev \<noteq> 0"
    and "length (sd_partab s) = 256" "sb_edev bp = dev"
  shows "\<exists>rdb pb. partition_of L strat dev rdb pb \<and>
    (let c = unat (rdb ! rdb_CylBlocks L); low = unat (pb ! pb_LowCyl L); upper = unat (pb ! pb_UpperCyl L);
         behind = unat (sb_blkno bp) + unat (nblocks bp)
     in low \<le> upper \<and> (upper + 1) * c < 4294967296 \<longrightarrow>
       (fst (sdvalid bp t) \<longleftrightarrow> behind mod 4294967296 \<le> (upper + 1 - low) * c) \<and>
       (fst (sdvalid bp t) \<and> behind < 4294967296 \<longrightarrow>
         low * c \<le> unat (sdblkno bp t) \<and>
         unat (sdblkno bp t) + unat (nblocks bp) \<le> (upper + 1) * c))"
proof -
  obtain rdb pb where P: "partition_of L strat dev rdb pb"
    and tab: "sd_partab t = (sd_partab s)[MINOR dev :=
      \<lparr> base = pb ! pb_LowCyl L * rdb ! rdb_CylBlocks L,
        len = (pb ! pb_UpperCyl L + 1 - pb ! pb_LowCyl L) * rdb ! rdb_CylBlocks L \<rparr>]"
    using sdpartition_ok [OF assms(1,2)] by blast
  have minor: "MINOR dev < length (sd_partab s)" using assms(3) by (simp add: MINOR_less)
  define c low upper where "c = unat (rdb ! rdb_CylBlocks L)" and "low = unat (pb ! pb_LowCyl L)"
    and "upper = unat (pb ! pb_UpperCyl L)"
  define behind where "behind = unat (sb_blkno bp) + unat (nblocks bp)"
  have "(fst (sdvalid bp t) \<longleftrightarrow> behind mod 4294967296 \<le> (upper + 1 - low) * c) \<and>
      (fst (sdvalid bp t) \<and> behind < 4294967296 \<longrightarrow>
        low * c \<le> unat (sdblkno bp t) \<and> unat (sdblkno bp t) + unat (nblocks bp) \<le> (upper + 1) * c)"
    if g: "low \<le> upper" "(upper + 1) * c < 4294967296"
  proof -
    have w: "pb ! pb_LowCyl L = of_nat low" "pb ! pb_UpperCyl L = of_nat upper" "rdb ! rdb_CylBlocks L = of_nat c"
      by (simp_all add: c_def low_def upper_def)
    have lc: "low * c + (upper + 1 - low) * c = (upper + 1) * c"
      using g(1) by (simp flip: add_mult_distrib)
    have b: "unat (base (sd_partab t ! MINOR dev)) = low * c"
      using tab minor lc g by (simp add: w unat_of_nat flip: of_nat_mult)
    have d: "pb ! pb_UpperCyl L + 1 - pb ! pb_LowCyl L = of_nat (upper + 1 - low)"
      using g(1) by (simp add: w of_nat_diff)
    have "len (sd_partab t ! MINOR dev) = of_nat ((upper + 1 - low) * c)"
      using tab minor by (simp only: d w(3) nth_list_update_eq partab.select_convs of_nat_mult)
    then have l: "unat (len (sd_partab t ! MINOR dev)) = (upper + 1 - low) * c"
      using lc g by (simp add: unat_of_nat del: of_nat_mult)
    have sum: "unat (sb_blkno bp + nblocks bp) = behind mod 4294967296"
      by (simp add: unat_word_ariths behind_def)
    then have valid: "fst (sdvalid bp t) \<longleftrightarrow> behind mod 4294967296 \<le> (upper + 1 - low) * c"
      using l assms(2,4) by (simp add: sdvalid_def word_le_nat_alt)
    moreover have "low * c \<le> unat (sdblkno bp t) \<and> unat (sdblkno bp t) + unat (nblocks bp) \<le> (upper + 1) * c"
      if "fst (sdvalid bp t)" "behind < 4294967296"
    proof -
      have le: "unat (sb_blkno bp) + unat (nblocks bp) \<le> (upper + 1 - low) * c"
        using that valid by (simp add: behind_def)
      have "unat (sdblkno bp t) = low * c + unat (sb_blkno bp)"
        using b le lc g assms(4) by (simp add: sdblkno_def unat_word_ariths)
      then show ?thesis using le lc by simp
    qed
    ultimately show ?thesis by blast
  qed
  then show ?thesis using P unfolding c_def low_def upper_def behind_def Let_def by blast
qed

text \<open>A disk for the instance: 32 blocks per cylinder, one partition on cylinders 2 to 9.\<close>

definition demo_layout :: layout where
  "demo_layout = \<lparr> rdb_ID = 0, rdb_SummedLongs = 1, rdb_CylBlocks = 2, rdb_PartitionList = 3,
    pb_ID = 0, pb_SummedLongs = 1, pb_Next = 2, pb_LowCyl = 3, pb_UpperCyl = 4 \<rparr>"

definition demo_disk :: sd_strat where
  "demo_disk dev bno = \<lparr> ans_failed = False, ans_error = None, ans_resid = 0, ans_data =
    (if bno = 0 then [0x5244534B, 5, 32, 1, - 0x52445371]
     else [0x50415254, 6, - 1, 2, 9, - 0x50415264]) @ replicate 122 0 \<rparr>"

definition demo_state :: sd_state where
  "demo_state = \<lparr> sd_partab = replicate 256 \<lparr> base = 0, len = 0 \<rparr>, sd_block = [] \<rparr>"

definition demo_opened :: sd_state where
  "demo_opened = \<lparr> sd_partab = (replicate 256 \<lparr> base = 0, len = 0 \<rparr>)[16 := \<lparr> base = 64, len = 256 \<rparr>],
     sd_block = [0x50415254, 6, - 1, 2, 9, - 0x50415264] @ replicate 122 0 \<rparr>"

definition demo_transfer :: sd_buf where
  "demo_transfer = \<lparr> sb_edev = 0x10, sb_blkno = 250, sb_bcount = 3000, sb_resid = 0, sb_error = False,
     sb_done = False \<rparr>"

lemma demo_open: "sdpartition demo_layout demo_disk 0x10 demo_state = Some (None, demo_opened)"
proof -
  have p: "sdpart 0x10 = 1" by (simp add: sdpart_def)
  have "[0..<16] = 0 # [1..<16]" by (simp add: upt_conv_Cons)
  then have "getrdb demo_layout demo_disk 0x10 demo_state =
      Some (None, demo_state\<lparr> sd_block := [0x5244534B, 5, 32, 1, - 0x52445371] @ replicate 122 0 \<rparr>)"
    by (simp add: getrdb_def sd_read_def demo_disk_def demo_layout_def id_ok_def RDSK_def checksum_def
        checksum_loop_sum Let_def)
  moreover have "getpb demo_layout demo_disk 0x10 1 s =
      Some (None, s\<lparr> sd_block := [0x50415254, 6, - 1, 2, 9, - 0x50415264] @ replicate 122 0 \<rparr>)" for s
    by (simp add: getpb_def sd_read_def demo_disk_def demo_layout_def id_ok_def PART_def checksum_def
        checksum_loop_sum Let_def)
  ultimately show ?thesis
    by (simp add: sdpartition_def p MINOR_def demo_layout_def demo_state_def demo_opened_def)
qed

lemma demo_geometry:
  assumes "partition_of demo_layout demo_disk 0x10 rdb pb"
  shows "rdb ! 2 = 32 \<and> pb ! 3 = 2 \<and> pb ! 4 = 9"
proof -
  have p: "unat (sdpart 0x10) - 1 = 0" by (simp add: sdpart_def)
  obtain i where i: "i < 16" "good_read demo_disk 0x10 (of_nat i) = Some rdb"
      "good_block RDSK 0 1 rdb" and "partition_at demo_layout demo_disk 0x10 (rdb ! 3) 0 pb"
    using assms unfolding partition_of_def p by (auto simp: demo_layout_def)
  then have "(of_nat i :: u32) = 0"
    by (auto simp: good_read_def demo_disk_def good_block_def RDSK_def split: if_splits)
  then have rdb: "rdb = [0x5244534B, 5, 32, 1, - 0x52445371] @ replicate 122 0"
    using i(2) by (simp add: good_read_def demo_disk_def)
  have "good_read demo_disk 0x10 1 = Some pb"
    using \<open>partition_at demo_layout demo_disk 0x10 (rdb ! 3) 0 pb\<close> by cases (simp_all add: rdb)
  then have "pb = [0x50415254, 6, - 1, 2, 9, - 0x50415264] @ replicate 122 0"
    by (simp add: good_read_def demo_disk_def)
  then show ?thesis by (simp add: rdb)
qed

theorem sd_confined_witness:
  "\<exists>rdb pb. partition_of demo_layout demo_disk 0x10 rdb pb \<and> 2 * 32 \<le> unat (sdblkno demo_transfer demo_opened) \<and>
    unat (sdblkno demo_transfer demo_opened) + unat (nblocks demo_transfer) \<le> 10 * 32"
proof -
  have "sdpart 0x10 \<noteq> 0" "length (sd_partab demo_state) = 256" "sb_edev demo_transfer = 0x10"
    by (simp_all add: sdpart_def demo_state_def demo_transfer_def)
  note c = sd_confined [OF demo_open this]
  have v: "fst (sdvalid demo_transfer demo_opened)" "unat (sb_blkno demo_transfer) = 250" "unat (nblocks demo_transfer) = 6"
    by (simp_all add: demo_transfer_def demo_opened_def sdvalid_def nblocks_def MINOR_def)
  show ?thesis using c v demo_geometry by (force simp: Let_def demo_layout_def)
qed

text \<open>
  The check of \<open>sdvalid\<close> adds in 32 bits: a transfer of one block at block number \<open>2 ^ 32 - 1\<close> is
  let through for every partition, and goes to the block in front of the partition.
\<close>

theorem sd_wrap:
  assumes "sb_blkno bp = - 1" "nblocks bp = 1"
  shows "sdvalid bp s = (True, bp) \<and>
    sdblkno bp s = base (sd_partab s ! MINOR (sb_edev bp)) - 1"
  using assms by (simp add: sdvalid_def sdblkno_def)

theorem sd_wrap_witness:
  "sdvalid \<lparr> sb_edev = 0x10, sb_blkno = - 1, sb_bcount = 512, sb_resid = 0, sb_error = False, sb_done = False \<rparr>
     \<lparr> sd_partab = replicate 256 \<lparr> base = 100, len = 50 \<rparr>, sd_block = [] \<rparr> =
     (True, \<lparr> sb_edev = 0x10, sb_blkno = - 1, sb_bcount = 512, sb_resid = 0, sb_error = False, sb_done = False \<rparr>) \<and>
   sdblkno \<lparr> sb_edev = 0x10, sb_blkno = - 1, sb_bcount = 512, sb_resid = 0, sb_error = False, sb_done = False \<rparr>
     \<lparr> sd_partab = replicate 256 \<lparr> base = 100, len = 50 \<rparr>, sd_block = [] \<rparr> =
     base (sd_partab \<lparr> sd_partab = replicate 256 \<lparr> base = 100, len = 50 \<rparr>, sd_block = [] \<rparr> ! MINOR (sb_edev
       \<lparr> sb_edev = 0x10, sb_blkno = - 1, sb_bcount = 512, sb_resid = 0, sb_error = False, sb_done = False \<rparr>)) - 1"
  by (rule sd_wrap) (simp_all add: nblocks_def)

text \<open>The number of words to sum comes from the disk: above 128 the sum leaves the block.\<close>

lemma getrdb_overrun:
  assumes "good_read strat dev 0 = Some blk" "blk ! rdb_ID L = RDSK"
    and "length blk < unat (blk ! rdb_SummedLongs L)"
  shows "getrdb L strat dev s = None"
proof -
  have "sd_read strat dev 0 s = (None, s\<lparr> sd_block := blk \<rparr>)"
    using assms(1) by (simp add: sd_read_ok)
  moreover have "id_ok RDSK (rdb_ID L) (rdb_SummedLongs L) blk = None"
    using assms(2,3) by (simp add: id_ok_def checksum_def checksum_loop_sum)
  moreover have "[0..<16] = 0 # [1..<16]" by (simp add: upt_conv_Cons)
  ultimately show ?thesis by (simp add: getrdb_def)
qed

end
