(* ===== verification/Sd_Cards.thy ===== *)
theory Sd_Cards
  imports Streams Kernel_Support "HOL-Library.Multiset"
begin

text \<open>
  The SCSI interface selector, \<open>alien/sd.c\<close>: at the first open the driver looks for host adapters of
  three kinds in the boot table, through \<open>autocon\<close> of \<open>Kernel_Support\<close>, and keeps the first two it
  finds in a table sorted by board address.
\<close>

section \<open>State\<close>

abbreviation (input) SDCARDS :: nat where "SDCARDS \<equiv> 2"

text \<open>A registered adapter: its kind (which queuing function), its index and its board address.\<close>

record sd_card =
  sq_f :: nat
  sq_c :: int
  sq_a :: u32
  sq_name :: string

text \<open>The product numbers and names of \<open>scsicard\<close>, in its order.\<close>

definition scsicard :: "(u32 \<times> string) list" where
  "scsicard = [(0x0202F003, ''A3000 Internal SCSI''), (0x02020001, ''A2090 SCSI''), (0x02020003, ''A2091 SCSI'')]"

text \<open>An entry of \<open>queue\<close> whose function is null is \<open>None\<close>.\<close>

type_synonym sd_queue = "sd_card option list"

definition init_queue :: sd_queue where
  "init_queue = replicate SDCARDS None"

section \<open>Operations\<close>

fun insert_loop :: "nat \<Rightarrow> sd_card \<Rightarrow> sd_queue \<Rightarrow> sd_queue" where
  "insert_loop 0 e Q = Q[0 := Some e]"
| "insert_loop (Suc k) e Q =
    (case Q ! k of
       None \<Rightarrow> insert_loop k e (Q[Suc k := Q ! k])
     | Some p \<Rightarrow> if sq_a p > sq_a e then insert_loop k e (Q[Suc k := Q ! k]) else Q[Suc k := Some e])"

text \<open>With the last entry taken the adapter is only reported.\<close>

definition sd_insert :: "sd_card \<Rightarrow> sd_queue \<Rightarrow> sd_queue" where
  "sd_insert e Q = (if Q ! (SDCARDS - 1) = None then insert_loop (SDCARDS - 1) e Q else Q)"

lemma autocon_bound:
  assumes "autocon B kend pc (int c) = Some r"
  shows "c \<le> length (autocon_table B)"
proof -
  have "length (filter (board_matches pc) (take NAUTO (autocon_table B))) \<le> length (autocon_table B)"
    using length_filter_le [of "board_matches pc" "take NAUTO (autocon_table B)"] by simp
  then show ?thesis using assms by (auto simp: autocon_def autocon_loop_nth Let_def split: if_splits)
qed

function find_cards :: "bootinfo \<Rightarrow> u32 \<Rightarrow> nat \<Rightarrow> u32 \<Rightarrow> string \<Rightarrow> nat \<Rightarrow> sd_queue \<Rightarrow> sd_queue" where
  "find_cards B kend f pn name c Q =
    (case autocon B kend pn (int c) of
       None \<Rightarrow> Q
     | Some (a, _) \<Rightarrow>
         find_cards B kend f pn name (Suc c) (sd_insert \<lparr> sq_f = f, sq_c = int c, sq_a = a, sq_name = name \<rparr> Q))"
  by auto
termination
  by (relation "measure (\<lambda>(B, kend, f, pn, name, c, Q). Suc (length (autocon_table B)) - c)")
    (auto dest!: autocon_bound)

declare find_cards.simps [simp del]

definition sd_init :: "bootinfo \<Rightarrow> u32 \<Rightarrow> sd_queue \<Rightarrow> sd_queue" where
  "sd_init B kend Q =
    (if Q ! 0 = None
     then fold (\<lambda>i. find_cards B kend i (fst (scsicard ! i)) (snd (scsicard ! i)) 0) [0..<length scsicard] Q
     else Q)"

definition sdopen :: "bootinfo \<Rightarrow> u32 \<Rightarrow> u32 \<Rightarrow> sd_queue \<Rightarrow> errno option \<times> sd_queue" where
  "sdopen B kend cardno Q =
    (let Q = sd_init B kend Q
     in if unat cardno < SDCARDS \<and> Q ! unat cardno \<noteq> None then (None, Q) else (Some ENXIO, Q))"

text \<open>
  \<open>sdqueue\<close> calls the function of the command's card with its index; \<open>None\<close> when there is no such card
  (the caller has opened it).
\<close>

definition sdqueue :: "u32 \<Rightarrow> sd_queue \<Rightarrow> (nat \<times> int) option" where
  "sdqueue cardno Q =
    (if unat cardno < SDCARDS then map_option (\<lambda>e. (sq_f e, sq_c e)) (Q ! unat cardno) else None)"

definition sdhardwarename :: "u32 \<Rightarrow> sd_queue \<Rightarrow> string option" where
  "sdhardwarename cardno Q = (if unat cardno < SDCARDS then map_option sq_name (Q ! unat cardno) else None)"

section \<open>The adapters of the boot table\<close>

text \<open>
  The specification: the adapters of one kind are those \<open>autocon\<close> finds with indices from 0 up to the
  first it does not find; then those of all kinds in the order of \<open>scsicard\<close>.
\<close>

definition missing :: "bootinfo \<Rightarrow> u32 \<Rightarrow> nat \<Rightarrow> nat \<Rightarrow> bool" where
  "missing B kend i c = (autocon B kend (fst (scsicard ! i)) (int c) = None)"

definition card_at :: "bootinfo \<Rightarrow> u32 \<Rightarrow> nat \<Rightarrow> nat \<Rightarrow> sd_card" where
  "card_at B kend i c = \<lparr> sq_f = i, sq_c = int c,
     sq_a = fst (the (autocon B kend (fst (scsicard ! i)) (int c))), sq_name = snd (scsicard ! i) \<rparr>"

definition cards_of :: "bootinfo \<Rightarrow> u32 \<Rightarrow> nat \<Rightarrow> sd_card list" where
  "cards_of B kend i =
    map (card_at B kend i) [0..<scan (missing B kend i) 0 (Suc (length (autocon_table B)))]"

definition adapters :: "bootinfo \<Rightarrow> u32 \<Rightarrow> sd_card list" where
  "adapters B kend = concat (map (cards_of B kend) [0..<length scsicard])"

lemma missing_end: "length (autocon_table B) < c \<Longrightarrow> missing B kend i c"
  unfolding missing_def using autocon_bound by (metis leD option.exhaust)

lemma find_cards_fold:
  assumes "c \<le> Suc (length (autocon_table B))"
  shows "find_cards B kend i (fst (scsicard ! i)) (snd (scsicard ! i)) c Q =
    fold sd_insert (map (card_at B kend i) [c..<scan (missing B kend i) c (Suc (length (autocon_table B)))]) Q"
  using assms
proof (induction "Suc (length (autocon_table B)) - c" arbitrary: c Q)
  case 0
  then have "missing B kend i c" by (intro missing_end) simp
  then show ?case by (subst find_cards.simps, subst scan.simps) (simp add: missing_def)
next
  case (Suc n)
  have c: "c < Suc (length (autocon_table B))" using Suc.hyps(2) by simp
  show ?case
  proof (cases "missing B kend i c")
    case True
    then show ?thesis by (subst find_cards.simps, subst scan.simps) (simp add: missing_def)
  next
    case False
    then obtain a b where r: "autocon B kend (fst (scsicard ! i)) (int c) = Some (a, b)"
      by (auto simp: missing_def)
    have s: "scan (missing B kend i) c (Suc (length (autocon_table B))) =
        scan (missing B kend i) (Suc c) (Suc (length (autocon_table B)))"
      using False c by (subst scan.simps) simp
    have "c < scan (missing B kend i) (Suc c) (Suc (length (autocon_table B)))"
      using scan_ge [of "Suc c"] c by (simp add: Suc_le_lessD)
    moreover have "find_cards B kend i (fst (scsicard ! i)) (snd (scsicard ! i)) c Q =
        find_cards B kend i (fst (scsicard ! i)) (snd (scsicard ! i)) (Suc c) (sd_insert (card_at B kend i c) Q)"
      by (subst find_cards.simps) (simp add: r card_at_def)
    ultimately show ?thesis
      using Suc.hyps(1) [of "Suc c"] Suc.hyps(2) c
      by (simp add: s upt_conv_Cons)
  qed
qed

lemma fold_cards: "fold (\<lambda>i. fold sd_insert (f i)) is Q = fold sd_insert (concat (map f is)) Q"
  by (induction "is" arbitrary: Q) simp_all

lemma sd_init_fold:
  assumes "Q ! 0 = None"
  shows "sd_init B kend Q = fold sd_insert (adapters B kend) Q"
proof -
  have "find_cards B kend i (fst (scsicard ! i)) (snd (scsicard ! i)) 0 = fold sd_insert (cards_of B kend i)" for i
    by (rule ext) (simp add: find_cards_fold cards_of_def)
  then show ?thesis using assms
    by (simp add: sd_init_def adapters_def fold_cards del: upt_Suc)
qed

section \<open>The sorted table\<close>

lemma insert_loop_sorted:
  "\<exists>zs. insert_loop (length xs) e (map Some xs @ z # rest) = map Some zs @ rest \<and>
    mset zs = add_mset e (mset xs) \<and> (sorted (map sq_a xs) \<longrightarrow> sorted (map sq_a zs))"
proof (induction xs arbitrary: z rest rule: rev_induct)
  case Nil
  then show ?case by (intro exI [of _ "[e]"]) simp
next
  case (snoc y ys)
  show ?case
  proof (cases "sq_a y > sq_a e")
    case True
    obtain zs where zs: "insert_loop (length ys) e (map Some ys @ Some y # Some y # rest) = map Some zs @ Some y # rest"
      "mset zs = add_mset e (mset ys)" "sorted (map sq_a ys) \<longrightarrow> sorted (map sq_a zs)"
      using snoc.IH [of "Some y" "Some y # rest"] by blast
    have "set zs = insert e (set ys)" using zs(2) by (metis set_mset_add_mset_insert set_mset_mset)
    then have "sorted (map sq_a (ys @ [y])) \<longrightarrow> sorted (map sq_a (zs @ [y]))"
      using zs(3) True by (auto simp: sorted_append less_imp_le)
    moreover have "insert_loop (length (ys @ [y])) e (map Some (ys @ [y]) @ z # rest) = map Some (zs @ [y]) @ rest"
      using True zs(1) by (simp add: nth_append list_update_append)
    moreover have "mset (zs @ [y]) = add_mset e (mset (ys @ [y]))" using zs(2) by simp
    ultimately show ?thesis by blast
  next
    case False
    have "insert_loop (length (ys @ [y])) e (map Some (ys @ [y]) @ z # rest) = map Some (ys @ [y, e]) @ rest"
      using False by (simp add: nth_append list_update_append)
    moreover have "sorted (map sq_a (ys @ [y])) \<longrightarrow> sorted (map sq_a (ys @ [y, e]))"
      using False by (auto simp: sorted_append not_less intro: order_trans)
    ultimately show ?thesis by (intro exI [of _ "ys @ [y, e]"]) simp
  qed
qed

text \<open>The table always is some adapters in order of address, then empty entries.\<close>

definition holds_cards :: "sd_card list \<Rightarrow> sd_queue \<Rightarrow> bool" where
  "holds_cards xs Q = (\<exists>zs. Q = map Some zs @ replicate (SDCARDS - length zs) None \<and> length zs \<le> SDCARDS \<and>
    sorted (map sq_a zs) \<and> mset zs = mset (take SDCARDS xs))"

lemma sd_insert_holds:
  assumes "holds_cards xs Q"
  shows "holds_cards (xs @ [e]) (sd_insert e Q)"
proof -
  obtain zs where zs: "Q = map Some zs @ replicate (SDCARDS - length zs) None" "length zs \<le> SDCARDS"
    "sorted (map sq_a zs)" "mset zs = mset (take SDCARDS xs)"
    using assms unfolding holds_cards_def by blast
  have len: "length zs = min 2 (length xs)" using zs(4) by (metis length_take min.commute size_mset)
  consider "length zs = 0" | "length zs = 1" | "length zs = 2" using zs(2) by linarith
  then show ?thesis
  proof cases
    case 1
    then have "sd_insert e Q = map Some [e] @ replicate (SDCARDS - length [e]) None"
      using zs(1) by (auto simp: sd_insert_def numeral_2_eq_2)
    moreover have "xs = []" using 1 len by (cases xs) auto
    ultimately show ?thesis unfolding holds_cards_def by (intro exI [of _ "[e]"]) simp
  next
    case 2
    then obtain y where y: "zs = [y]" by (cases zs) auto
    then have x: "xs = [y]" using zs(4) len by (cases xs) auto
    have "Q = map Some zs @ None # []" using zs(1) y by (simp add: numeral_2_eq_2)
    then obtain ws where w: "insert_loop (length zs) e Q = map Some ws @ []" "mset ws = add_mset e (mset zs)"
      "sorted (map sq_a ws)"
      using insert_loop_sorted [of zs e None "[]"] zs(3) by blast
    have "length ws = 2" using w(2) y by (metis size_mset size_add_mset length_Cons list.size(3) numeral_2_eq_2 One_nat_def)
    moreover have "sd_insert e Q = map Some ws" using w(1) zs(1) y by (simp add: sd_insert_def numeral_2_eq_2)
    ultimately show ?thesis
      unfolding holds_cards_def using w(2,3) x y by (intro exI [of _ ws]) simp
  next
    case 3
    then have "sd_insert e Q = Q" using zs(1) by (auto simp: sd_insert_def nth_append length_Suc_conv numeral_2_eq_2)
    moreover have "take SDCARDS (xs @ [e]) = take SDCARDS xs" using 3 len by simp
    ultimately show ?thesis using assms by (simp add: holds_cards_def)
  qed
qed

lemma fold_insert_holds: "holds_cards xs Q \<Longrightarrow> holds_cards (xs @ es) (fold sd_insert es Q)"
proof (induction es arbitrary: xs Q)
  case (Cons e es)
  then show ?case using Cons.IH [OF sd_insert_holds [OF Cons.prems]] by simp
qed simp

lemma init_queue_holds: "holds_cards [] init_queue"
  by (auto simp: holds_cards_def init_queue_def)

section \<open>What the selector promises\<close>

text \<open>
  C31. The table of host adapters: the first \<open>sdopen\<close> fills it with the first two adapters that
  \<open>autocon\<close> reports, over the three kinds in their order, sorted by board address; the open succeeds exactly for the
  card numbers below the number of adapters kept; and every later \<open>sdopen\<close> leaves the table as it is.
\<close>

theorem sd_cards_sorted:
  "\<exists>zs. snd (sdopen B kend n init_queue) = map Some zs @ replicate (SDCARDS - length zs) None \<and>
    sorted (map sq_a zs) \<and> mset zs = mset (take SDCARDS (adapters B kend)) \<and>
    (fst (sdopen B kend n init_queue) = None) = (unat n < length zs) \<and>
    (\<forall>k. snd (sdopen B kend k (snd (sdopen B kend n init_queue))) = snd (sdopen B kend n init_queue))"
proof -
  have Q: "sd_init B kend init_queue = fold sd_insert (adapters B kend) init_queue"
    by (rule sd_init_fold) (simp add: init_queue_def)
  have "holds_cards (adapters B kend) (fold sd_insert (adapters B kend) init_queue)"
    using fold_insert_holds [OF init_queue_holds, of "adapters B kend"] by simp
  then obtain zs where zs: "fold sd_insert (adapters B kend) init_queue = map Some zs @ replicate (SDCARDS - length zs) None"
    "length zs \<le> SDCARDS" "sorted (map sq_a zs)" "mset zs = mset (take SDCARDS (adapters B kend))"
    unfolding holds_cards_def by blast
  let ?Q = "map Some zs @ replicate (SDCARDS - length zs) None"
  have snd: "snd (sdopen B kend n init_queue) = ?Q" for n
    by (simp add: sdopen_def Q zs(1) Let_def)
  have "(?Q ! unat n \<noteq> None) = (unat n < length zs)" if "unat n < SDCARDS"
    using that by (simp add: nth_append)
  then have "(fst (sdopen B kend n init_queue) = None) = (unat n < length zs)"
    using zs(2) by (auto simp: sdopen_def Q zs(1) Let_def)
  moreover have "snd (sdopen B kend k ?Q) = ?Q" for k
  proof (cases zs)
    case Nil
    then have "?Q = init_queue" by (simp add: init_queue_def)
    then show ?thesis using snd by metis
  next
    case (Cons z zs')
    then show ?thesis by (simp add: sdopen_def sd_init_def Let_def)
  qed
  ultimately show ?thesis using zs snd by metis
qed

end
