(* ===== verification/Boot_Lib.thy ===== *)
theory Boot_Lib
  imports Amix_Prelude
begin

text \<open>
  The library of the boot program, one function per file of \<open>boot\<close>: \<open>sumbytes.c\<close>, \<open>chksum.c\<close>,
  \<open>itoa.c\<close>, \<open>streq.c\<close>, \<open>streqn.c\<close>, \<open>strlen.c\<close>, \<open>strcpy.c\<close>, \<open>memset.c\<close> and \<open>bind.c\<close>.

  Memory a function is given is the list of bytes from the pointer on; going past its end is the
  value \<open>None\<close>.
\<close>

section \<open>Sums\<close>

fun sum_loop :: "byte list \<Rightarrow> nat \<Rightarrow> u32 \<Rightarrow> u32 option" where
  "sum_loop mem 0 acc = Some acc"
| "sum_loop [] (Suc n) acc = None"
| "sum_loop (b # mem) (Suc n) acc = sum_loop mem n (acc + ucast b)"

definition sumbytes :: "byte list \<Rightarrow> u32 \<Rightarrow> u32 option" where
  "sumbytes mem nbytes = sum_loop mem (unat nbytes) 0"

definition chksum :: "byte list \<Rightarrow> u32 \<Rightarrow> u32 option" where
  "chksum mem nbytes =
    (case sum_loop mem (unat nbytes) 0 of
       None \<Rightarrow> None
     | Some acc \<Rightarrow>
         let temp = drop_bit 16 acc + (acc AND 0xFFFF)
         in Some (drop_bit 16 temp + (temp AND 0xFFFF)))"

definition byte_sum :: "byte list \<Rightarrow> nat" where
  "byte_sum bs = sum_list (map unat bs)"

lemma sum_loop_byte_sum: "n \<le> length mem \<Longrightarrow> sum_loop mem n s = Some (s + of_nat (byte_sum (take n mem)))"
proof (induction mem n s rule: sum_loop.induct)
  case (3 b mem n acc)
  have "(ucast b :: u32) = of_nat (unat b)" by simp
  then show ?case using 3 by (simp add: byte_sum_def algebra_simps del: of_nat_unat)
qed (simp_all add: byte_sum_def)

lemma fold16: "drop_bit 16 (x :: u32) + (x AND 0xFFFF) = of_nat (unat x div 65536 + unat x mod 65536)"
proof -
  have "(0xFFFF :: u32) = mask 16" by (simp add: mask_eq_exp_minus_1)
  then have "x AND 0xFFFF = take_bit 16 x" by (simp only: take_bit_eq_mask)
  then have "unat (x AND 0xFFFF) = unat x mod 65536" by (simp add: take_bit_eq_mod unat_mod)
  moreover have "unat (drop_bit 16 x) = unat x div 65536"
    by (simp add: unat_drop_bit_eq drop_bit_eq_div unat_div)
  ultimately have "of_nat (unat (drop_bit 16 x)) + of_nat (unat (x AND 0xFFFF)) =
      (of_nat (unat x div 65536) + of_nat (unat x mod 65536) :: u32)"
    by (simp only:)
  then show ?thesis by (simp only: of_nat_unat ucast_id of_nat_add)
qed

text \<open>Folding twice gives the residue modulo 65535, with 65535 for the non-zero multiples.\<close>

lemma fold_step_mod: "(x div 65536 + x mod 65536) mod 65535 = (x :: nat) mod 65535"
proof -
  have "x = 65535 * (x div 65536) + (x div 65536 + x mod 65536)" by (simp add: algebra_simps)
  then show ?thesis by (metis mod_mult_self4)
qed

lemma residue_65535:
  fixes r s :: nat
  assumes "r mod 65535 = s mod 65535" "0 < r" "r \<le> 65535" "0 < s"
  shows "r = (s - 1) mod 65535 + 1"
proof -
  have "r - 1 < 65535" using assms by simp
  have "int (r - 1) mod 65535 = int (s - 1) mod 65535"
  proof -
    have "int (r mod 65535) = int (s mod 65535)" by (simp only: assms(1))
    then have "int r mod 65535 = int s mod 65535" by (simp only: zmod_int of_nat_numeral)
    then have "(int r - 1) mod 65535 = (int s - 1) mod 65535" by (rule mod_diff_cong) simp
    then show ?thesis using assms by (simp add: of_nat_diff)
  qed
  then have "int ((r - 1) mod 65535) = int ((s - 1) mod 65535)" by (simp only: zmod_int of_nat_numeral)
  then have "(r - 1) mod 65535 = (s - 1) mod 65535" by (simp only: of_nat_eq_iff)
  then show ?thesis using \<open>r - 1 < 65535\<close> assms by simp
qed

lemma fold_bounds:
  fixes x :: nat
  assumes "0 < x" "x \<le> 131070"
  shows "0 < x div 65536 + x mod 65536" "x div 65536 + x mod 65536 \<le> 65535"
proof -
  have x: "x = 65536 * (x div 65536) + x mod 65536" by simp
  then show "0 < x div 65536 + x mod 65536" using assms by (cases "x div 65536 = 0") auto
  have "x mod 65536 < 65536" by simp
  then show "x div 65536 + x mod 65536 \<le> 65535" using x assms by (cases "x div 65536 = 0") linarith+
qed

lemma fold_twice:
  fixes s :: nat
  assumes "s < 4294967296"
  defines "t \<equiv> s div 65536 + s mod 65536"
  shows "t div 65536 + t mod 65536 = (if s = 0 then 0 else (s - 1) mod 65535 + 1)"
proof (cases "s = 0")
  case False
  have "s div 65536 < 65536" "s mod 65536 < 65536"
    using assms(1) by (simp_all add: less_mult_imp_div_less)
  then have "t \<le> 131070" unfolding t_def by linarith
  moreover have "s = 65536 * (s div 65536) + s mod 65536" by simp
  then have "0 < t" using False unfolding t_def by (cases "s div 65536 = 0") auto
  moreover have "(t div 65536 + t mod 65536) mod 65535 = s mod 65535"
    by (simp only: fold_step_mod t_def)
  ultimately show ?thesis using False residue_65535 [of _ s] fold_bounds [of t] by simp
qed (simp add: t_def)

lemma chksum_bytes:
  assumes "unat nbytes \<le> length mem"
  shows "chksum mem nbytes = Some (let s = byte_sum (take (unat nbytes) mem) mod 4294967296
    in if s = 0 then 0 else of_nat ((s - 1) mod 65535 + 1))"
proof -
  define s where "s = byte_sum (take (unat nbytes) mem) mod 4294967296"
  define t where "t = s div 65536 + s mod 65536"
  have s: "s < 4294967296" by (simp add: s_def)
  have sum: "sum_loop mem (unat nbytes) 0 = Some (of_nat s)"
    using assms by (simp add: sum_loop_byte_sum s_def word_unat_eq_iff unat_of_nat)
  have "drop_bit 16 (of_nat s :: u32) + (of_nat s AND 0xFFFF) = of_nat t"
    using s by (simp only: fold16) (simp add: t_def unat_of_nat)
  moreover have "t < 4294967296"
    using s by (simp add: t_def)
  then have "drop_bit 16 (of_nat t :: u32) + (of_nat t AND 0xFFFF) = of_nat (t div 65536 + t mod 65536)"
    by (simp only: fold16) (simp add: unat_of_nat)
  ultimately show ?thesis
    using fold_twice [OF s] by (simp add: chksum_def sum Let_def t_def flip: s_def)
qed

section \<open>Strings\<close>

text \<open>
  \<open>streq\<close> and \<open>streqn\<close> return the comparison of the two bytes they stopped at; a read past the end
  of either memory is \<open>None\<close>.
\<close>

fun streq :: "byte list \<Rightarrow> byte list \<Rightarrow> bool option" where
  "streq (a # s1) (b # s2) = (if a \<noteq> 0 \<and> a = b then streq s1 s2 else Some (a = b))"
| "streq [] _ = None"
| "streq _ [] = None"

fun streqn :: "byte list \<Rightarrow> byte list \<Rightarrow> int \<Rightarrow> bool option" where
  "streqn (a # s1) (b # s2) nbytes =
    (if a \<noteq> 0 \<and> a = b \<and> nbytes - 1 > 0 then streqn s1 s2 (nbytes - 1) else Some (a = b))"
| "streqn [] _ nbytes = None"
| "streqn _ [] nbytes = None"

fun strlen_loop :: "byte list \<Rightarrow> int \<Rightarrow> int option" where
  "strlen_loop [] rtnval = None"
| "strlen_loop (c # s) rtnval = (if c \<noteq> 0 then strlen_loop s (rtnval + 1) else Some rtnval)"

definition strlen :: "byte list \<Rightarrow> int option" where
  "strlen s = strlen_loop s 0"

fun strcpy :: "byte list \<Rightarrow> byte list \<Rightarrow> byte list option" where
  "strcpy (d # s1) (c # s2) = (if c \<noteq> 0 then map_option ((#) c) (strcpy s1 s2) else Some (c # s1))"
| "strcpy [] _ = None"
| "strcpy _ [] = None"

fun memset_loop :: "byte list \<Rightarrow> u32 \<Rightarrow> nat \<Rightarrow> byte list option" where
  "memset_loop s c 0 = Some s"
| "memset_loop [] c (Suc n) = None"
| "memset_loop (b # s) c (Suc n) = map_option ((#) (ucast c)) (memset_loop s c n)"

definition memset :: "byte list \<Rightarrow> u32 \<Rightarrow> int \<Rightarrow> byte list option" where
  "memset s c n = memset_loop s c (nat n)"

text \<open>A C string: the bytes, none of them NUL, then a NUL.\<close>

definition c_string :: "byte list \<Rightarrow> bool" where
  "c_string s = (0 \<notin> set s)"

lemma streq_c: "c_string a \<Longrightarrow> c_string b \<Longrightarrow> streq (a @ 0 # x) (b @ 0 # y) = Some (a = b)"
proof (induction a arbitrary: b)
  case Nil
  then show ?case by (cases b) (auto simp: c_string_def)
next
  case (Cons c a)
  then show ?case by (cases b) (auto simp: c_string_def)
qed

lemma streqn_c:
  "c_string a \<Longrightarrow> c_string b \<Longrightarrow> 0 < n \<Longrightarrow>
   streqn (a @ 0 # x) (b @ 0 # y) (int n) = Some (take n a = take n b)"
proof (induction a arbitrary: b n)
  case Nil
  then show ?case by (cases b) (auto simp: c_string_def)
next
  case (Cons c a)
  obtain m where n: "n = Suc m" using Cons.prems(3) by (metis gr0_implies_Suc)
  show ?case
  proof (cases b)
    case Nil
    then show ?thesis using Cons.prems n by (auto simp: c_string_def)
  next
    case (Cons d b')
    then show ?thesis using Cons.prems Cons.IH [of b' m] n by (cases "m = 0") (auto simp: c_string_def)
  qed
qed

lemma strlen_loop_c: "c_string a \<Longrightarrow> strlen_loop (a @ 0 # x) k = Some (k + int (length a))"
  by (induction a arbitrary: k) (auto simp: c_string_def)

lemma strcpy_c:
  "c_string a \<Longrightarrow> strcpy dst (a @ 0 # x) =
   (if length a < length dst then Some (a @ 0 # drop (Suc (length a)) dst) else None)"
proof (induction a arbitrary: dst)
  case Nil
  then show ?case by (cases dst) auto
next
  case (Cons c a)
  then show ?case by (cases dst) (auto simp: c_string_def)
qed

lemma memset_loop_c:
  "memset_loop s c n = (if n \<le> length s then Some (replicate n (ucast c) @ drop n s) else None)"
  by (induction s c n rule: memset_loop.induct) auto

section \<open>Decimal conversion\<close>

function itoa_digits :: "u32 \<Rightarrow> byte list" where
  "itoa_digits value =
    (let temp1 = value div 10;
         temp2 = temp1 * 10;
         digit = ucast (48 + value - temp2)
     in if temp1 \<noteq> 0 then digit # itoa_digits temp1 else [digit])"
  by auto
termination
proof (relation "measure unat")
  fix v temp1 temp2 :: u32 and digit :: byte
  assume "temp1 = v div 10" "temp1 \<noteq> 0"
  then show "(temp1, v) \<in> measure unat"
    by (cases "v = 0") (auto simp: unat_div div_less_dividend unat_gt_0)
qed simp

declare itoa_digits.simps [simp del]

function swap_ends :: "nat \<Rightarrow> nat \<Rightarrow> byte list \<Rightarrow> byte list" where
  "swap_ends stringbase strng s =
    (if stringbase < strng
     then swap_ends (Suc stringbase) (strng - 1) (s[stringbase := s ! strng, strng := s ! stringbase])
     else s)"
  by auto
termination by (relation "measure (\<lambda>(stringbase, strng, s). strng - stringbase)") auto

declare swap_ends.simps [simp del]

text \<open>
  What \<open>itoa\<close> leaves in the memory at its first argument; \<open>None\<close> when the memory is too short for
  the digits, the sign and the NUL. The first test of the sign is bitwise (\<open>signedflag &\<close>), the
  second one logical.
\<close>

definition itoa :: "byte list \<Rightarrow> u32 \<Rightarrow> u32 \<Rightarrow> byte list option" where
  "itoa mem ival signedflag =
    (let neg = (ival <s 0);
         value = (if signedflag AND (if neg then 1 else 0) \<noteq> 0 then - ival else ival);
         digits = itoa_digits value;
         out = (if signedflag \<noteq> 0 \<and> neg then digits @ [45] else digits)
     in if length out < length mem
        then Some (swap_ends 0 (length out - 1) out @ 0 # drop (Suc (length out)) mem)
        else None)"

text \<open>The reference: the decimal numeral of a number, and the value of a signed numeral.\<close>

fun decimal :: "nat \<Rightarrow> byte list" where
  "decimal n = (if n < 10 then [] else decimal (n div 10)) @ [of_nat (48 + n mod 10)]"

declare decimal.simps [simp del]

definition digits_value :: "byte list \<Rightarrow> nat" where
  "digits_value ds = foldl (\<lambda>acc d. 10 * acc + (unat d - 48)) 0 ds"

fun numeral_value :: "byte list \<Rightarrow> int" where
  "numeral_value [] = 0"
| "numeral_value (c # ds) = (if c = 45 then - int (digits_value ds) else int (digits_value (c # ds)))"

lemma unat_digit: "unat (of_nat (48 + n mod 10) :: byte) = 48 + n mod 10"
  by (simp only: unat_of_nat) simp

lemma digits_value_decimal: "digits_value (decimal n) = n"
proof (induction n rule: decimal.induct)
  case (1 n)
  note d = unat_digit [of n]
  then show ?case using 1
    by (subst decimal.simps) (simp add: digits_value_def d del: of_nat_add)
qed

lemma decimal_nonempty: "decimal n \<noteq> []"
  by (subst decimal.simps) simp

lemma decimal_range: "d \<in> set (decimal n) \<Longrightarrow> 48 \<le> unat d \<and> unat d < 58"
proof (induction n rule: decimal.induct)
  case (1 n)
  have "(\<not> n < 10 \<and> d \<in> set (decimal (n div 10))) \<or> d = of_nat (48 + n mod 10)"
    using 1(2) by (subst (asm) decimal.simps) (auto simp del: of_nat_add mod_less split: if_splits)
  moreover have "d = of_nat (48 + n mod 10) \<Longrightarrow> unat d = 48 + n mod 10" by (simp only: unat_digit)
  ultimately show ?case using 1(1) by force
qed

lemma decimal_c_string: "c_string (decimal n)"
  using decimal_range [of 0 n] by (auto simp: c_string_def)

lemma numeral_value_decimal: "numeral_value (decimal n) = int n"
proof (cases "decimal n")
  case (Cons c ds)
  have "c \<noteq> 45" using decimal_range [of c n] Cons by auto
  then show ?thesis using Cons digits_value_decimal [of n] by simp
qed (simp add: decimal_nonempty)

lemma ucast_digit: "ucast (of_nat (48 + n mod 10) :: u32) = (of_nat (48 + n mod 10) :: byte)"
  by (simp only: word_unat_eq_iff unat_digit unsigned_ucast_eq) (simp only: unat_of_nat, simp add: take_bit_eq_mod)

lemma itoa_digits_decimal: "rev (itoa_digits value) = decimal (unat value)"
proof (induction "value" rule: itoa_digits.induct)
  case (1 "value")
  have d: "unat (value div 10) = unat value div 10" by (simp add: unat_div)
  have "value - value div 10 * 10 = value mod 10" by (simp add: minus_div_mult_eq_mod)
  then have "48 + value - value div 10 * 10 = 48 + value mod 10" by (simp add: add_diff_eq [symmetric])
  also have "\<dots> = of_nat (48 + unat value mod 10)"
  proof -
    have "of_nat (unat (value mod 10)) = (of_nat (unat value mod 10) :: u32)"
      by (simp only: unat_mod) simp
    then show ?thesis by simp
  qed
  finally have "ucast (48 + value - value div 10 * 10) = (of_nat (48 + unat value mod 10) :: byte)"
    by (simp add: ucast_digit del: of_nat_add)
  moreover have "(value div 10 \<noteq> 0) = (\<not> unat value < 10)"
    by (simp add: word_unat_eq_iff d div_eq_0_iff)
  ultimately show ?case using 1 d
    by (subst itoa_digits.simps, subst decimal.simps) (simp add: Let_def)
qed

text \<open>The exchange of the ends reverses.\<close>

lemma swap_ends_rev:
  "swap_ends (length a) (length a + length m - 1) (a @ m @ b) = a @ rev m @ b"
proof (induction "length m" arbitrary: a m b rule: less_induct)
  case less
  show ?case
  proof (cases "length m \<le> 1")
    case True
    then have "rev m = m" by (cases m) auto
    moreover have "\<not> length a < length a + length m - 1" using True by simp
    ultimately show ?thesis by (subst swap_ends.simps) simp
  next
    case False
    then obtain x t where "m = x # t" "t \<noteq> []" by (cases m) auto
    then obtain u y where m: "m = x # u @ [y]" by (metis rev_exhaust)
    have "swap_ends (length a) (length a + length m - 1) (a @ m @ b) =
        swap_ends (length (a @ [y])) (length (a @ [y]) + length u - 1) ((a @ [y]) @ u @ (x # b))"
      by (subst swap_ends.simps) (simp add: m nth_append list_update_append)
    also have "\<dots> = (a @ [y]) @ rev u @ (x # b)" by (rule less) (simp add: m)
    finally show ?thesis by (simp add: m)
  qed
qed

lemma swap_ends_all: "swap_ends 0 (length s - 1) s = rev s"
  using swap_ends_rev [of "[]" s "[]"] by simp

lemma itoa_decimal:
  "itoa mem ival signedflag =
    (let out = (if signedflag \<noteq> 0 \<and> ival <s 0 then [45] else []) @
           decimal (unat (if odd (unat signedflag) \<and> ival <s 0 then - ival else ival))
     in if length out < length mem then Some (out @ 0 # drop (Suc (length out)) mem) else None)"
proof -
  have "(signedflag AND 1 \<noteq> 0) = odd (unat signedflag)" by (simp add: and_one_eq odd_iff_mod_2_eq_one word_unat_eq_iff unat_mod)
  moreover have "length (itoa_digits v) = length (decimal (unat v))" for v
    using itoa_digits_decimal [of v] by (metis length_rev)
  ultimately show ?thesis
    by (simp only: itoa_def Let_def swap_ends_all) (simp add: itoa_digits_decimal)
qed

lemma decimal_length_le: "n < 10 ^ Suc k \<Longrightarrow> length (decimal n) \<le> Suc k"
proof (induction k arbitrary: n)
  case 0
  then show ?case by (subst decimal.simps) simp
next
  case (Suc k)
  then have "n div 10 < 10 ^ Suc k" by (simp add: div_less_iff_less_mult mult.commute)
  from Suc.IH [OF this] show ?case by (subst decimal.simps) simp
qed

lemma decimal_length: "length (decimal (unat (v :: u32))) \<le> 10"
proof -
  have "unat v < 10 ^ Suc 9" using unsigned_less [of v, where ?'a = nat] by simp
  then show ?thesis using decimal_length_le [of _ 9] by simp
qed

lemma uint_of_sint: "uint (v :: u32) = sint v mod 4294967296"
  by (simp add: uint_sint take_bit_eq_mod)

lemma sint_nonneg_unat: "\<not> (v :: u32) <s 0 \<Longrightarrow> sint v = uint v"
  using sint_lt [of v] by (simp add: uint_of_sint word_sless_alt)

lemma unat_neg_sint: "(v :: u32) <s 0 \<Longrightarrow> uint (- v) = - sint v"
proof -
  assume "v <s 0"
  then have s: "- 2147483648 \<le> sint v" "sint v < 0"
    using sint_ge [of v] by (simp_all add: word_sless_alt)
  have "uint (- v) = (- uint v) mod 4294967296" by (simp add: uint_word_ariths)
  also have "\<dots> = (- sint v) mod 4294967296" by (simp only: uint_of_sint mod_minus_eq)
  also have "\<dots> = - sint v" using s by (simp add: mod_pos_pos_trivial)
  finally show ?thesis by simp
qed

section \<open>Choosing the memory of the kernel\<close>

text \<open>The Exec memory list, node by node up to the tail, and \<open>MEMF_CHIP\<close> of \<open>exec/memory.h\<close>.\<close>

record mem_node =
  mh_Attributes :: u16
  mh_Lower :: u32
  mh_Upper :: u32

definition page_down :: "u32 \<Rightarrow> u32" where
  "page_down a = a AND NOT 0xFF"

fun bind_loop :: "u16 \<Rightarrow> mem_node list \<Rightarrow> u32 \<Rightarrow> u32 \<Rightarrow> u32" where
  "bind_loop MEMF_CHIP [] base maxsize = base"
| "bind_loop MEMF_CHIP (node # rest) base maxsize =
    (if mh_Attributes node AND MEMF_CHIP = 0 then
       let sz = mh_Upper node - page_down (mh_Lower node) in
       if sz > maxsize then bind_loop MEMF_CHIP rest (page_down (mh_Lower node)) sz
       else bind_loop MEMF_CHIP rest base maxsize
     else bind_loop MEMF_CHIP rest base maxsize)"

definition bind_mem :: "u16 \<Rightarrow> mem_node list \<Rightarrow> u32" where
  "bind_mem MEMF_CHIP nodes = bind_loop MEMF_CHIP nodes 0 0"

definition usable :: "u16 \<Rightarrow> mem_node list \<Rightarrow> mem_node set" where
  "usable chip nodes = {n \<in> set nodes. mh_Attributes n AND chip = 0}"

definition region_size :: "mem_node \<Rightarrow> u32" where
  "region_size n = mh_Upper n - page_down (mh_Lower n)"

lemma bind_loop_largest:
  "(bind_loop chip nodes base mx = base \<and> (\<forall>k \<in> usable chip nodes. region_size k \<le> mx)) \<or>
   (\<exists>n \<in> usable chip nodes. bind_loop chip nodes base mx = page_down (mh_Lower n) \<and>
      mx < region_size n \<and> (\<forall>k \<in> usable chip nodes. region_size k \<le> region_size n))"
proof (induction nodes arbitrary: base mx)
  case (Cons node rest)
  let ?U = "usable chip rest" and ?V = "usable chip (node # rest)"
  have sub: "?U \<subseteq> ?V" by (auto simp: usable_def)
  show ?case
  proof (cases "mh_Attributes node AND chip = 0 \<and> mx < region_size node")
    case True
    have eq: "bind_loop chip (node # rest) base mx =
        bind_loop chip rest (page_down (mh_Lower node)) (region_size node)"
      using True by (simp add: Let_def region_size_def)
    have V: "?V = insert node ?U" using True by (auto simp: usable_def)
    from Cons [of "page_down (mh_Lower node)" "region_size node"] show ?thesis
    proof (elim disjE bexE)
      fix n assume "n \<in> ?U" and n: "bind_loop chip rest (page_down (mh_Lower node)) (region_size node) =
          page_down (mh_Lower n) \<and> region_size node < region_size n \<and>
          (\<forall>k \<in> ?U. region_size k \<le> region_size n)"
      then show ?thesis using True by (intro disjI2 bexI [of _ n]) (auto simp: V eq simp del: bind_loop.simps)
    qed (use True in \<open>auto simp: V eq simp del: bind_loop.simps\<close>)
  next
    case False
    have eq: "bind_loop chip (node # rest) base mx = bind_loop chip rest base mx"
      using False by (auto simp: Let_def region_size_def)
    have V: "k \<in> ?U \<or> region_size k \<le> mx" if "k \<in> ?V" for k
      using that False by (auto simp: usable_def not_less)
    from Cons [of base mx] show ?thesis
    proof (elim disjE bexE)
      fix n assume "n \<in> ?U" and n: "bind_loop chip rest base mx = page_down (mh_Lower n) \<and>
          mx < region_size n \<and> (\<forall>k \<in> ?U. region_size k \<le> region_size n)"
      then have "\<forall>k \<in> ?V. region_size k \<le> region_size n" using V by (meson less_imp_le order_trans)
      then show ?thesis using n \<open>n \<in> ?U\<close> sub
        by (intro disjI2 bexI [of _ n]) (auto simp: eq simp del: bind_loop.simps)
    qed (use V in \<open>auto simp: eq simp del: bind_loop.simps\<close>)
  qed
qed (simp add: usable_def)

section \<open>What the library computes\<close>

text \<open>
  C38. \<open>chksum\<close> gives, for the sum of the bytes modulo 2 ^ 32, its residue modulo 65535, with 65535
  itself for a multiple of 65535 that is not zero: two additions of the halves are enough.
\<close>

theorem chksum_value:
  assumes "unat nbytes \<le> length mem"
  shows "chksum mem nbytes = Some (let s = byte_sum (take (unat nbytes) mem) mod 4294967296
    in if s = 0 then 0 else of_nat ((s - 1) mod 65535 + 1))"
  using assms by (rule chksum_bytes)

theorem chksum_value_witness:
  "chksum [255, 255, 2, 7] 3 =
    Some (let s = byte_sum (take (unat (3 :: u32)) [255, 255, 2, 7]) mod 4294967296
      in if s = 0 then 0 else of_nat ((s - 1) mod 65535 + 1))"
  by (rule chksum_value) simp

text \<open>
  C37. \<open>itoa\<close> round trip: with the sign flag 0 or 1 and a buffer with room for the sign, ten digits
  and the NUL, what \<open>itoa\<close> leaves is a C string that reads back as the unsigned or the signed value
  of its argument, and the memory after the string is untouched. The least integer is included: its
  negation wraps to itself and is printed as its unsigned value behind the sign.
\<close>

theorem itoa_round_trip:
  assumes "11 < length mem" "signedflag \<in> {0, 1}"
  shows "\<exists>out. itoa mem ival signedflag = Some (out @ 0 # drop (Suc (length out)) mem) \<and>
    c_string out \<and> numeral_value out = (if signedflag = 0 then int (unat ival) else sint ival)"
proof -
  define neg where "neg = (signedflag = 1 \<and> ival <s 0)"
  define m where "m = unat (if neg then - ival else ival)"
  define out where "out = (if neg then [45] else []) @ decimal m"
  have flag: "(signedflag \<noteq> 0 \<and> ival <s 0) = neg" "(odd (unat signedflag) \<and> ival <s 0) = neg"
    using assms(2) by (auto simp: neg_def)
  have "length out < length mem"
    using decimal_length [of "if neg then - ival else ival"] assms(1)
    by (auto simp: out_def simp flip: m_def)
  then have "itoa mem ival signedflag = Some (out @ 0 # drop (Suc (length out)) mem)"
    by (simp add: itoa_decimal flag Let_def out_def m_def)
  moreover have "c_string out" using decimal_c_string [of m] by (simp add: out_def c_string_def)
  moreover have "numeral_value out = (if signedflag = 0 then int (unat ival) else sint ival)"
    using assms(2) by (auto simp: out_def m_def neg_def numeral_value_decimal digits_value_decimal
        unat_neg_sint sint_nonneg_unat)
  ultimately show ?thesis by blast
qed

theorem itoa_round_trip_witness:
  "\<exists>out. itoa (replicate 12 7) (- 120) 1 = Some (out @ 0 # drop (Suc (length out)) (replicate 12 7)) \<and>
    c_string out \<and> numeral_value out = (if (1 :: u32) = 0 then int (unat (- 120 :: u32)) else sint (- 120 :: u32))"
  by (rule itoa_round_trip) simp_all

lemma decimal_max: "decimal 4294967295 = [52, 50, 57, 52, 57, 54, 55, 50, 57, 53]"
  by (simp add: decimal.simps)

text \<open>
  A sign flag that is true but even: the value is converted unsigned (the first test is bitwise), and
  the minus sign is written all the same.
\<close>

lemma itoa_even_flag:
  "itoa (replicate 12 0) 0xFFFFFFFF 2 = Some [45, 52, 50, 57, 52, 57, 54, 55, 50, 57, 53, 0]"
proof -
  have "unat (0xFFFFFFFF :: u32) = 4294967295" by simp
  then show ?thesis by (simp add: itoa_decimal decimal_max word_sless_alt Let_def)
qed

text \<open>
  The string routines on C strings: \<open>streq\<close> decides equality, \<open>streqn\<close> equality of the first
  \<open>n\<close> bytes, \<open>strlen\<close> is the length, \<open>strcpy\<close> copies the string with its NUL and nothing else, and
  fails exactly when the destination is too short.
\<close>

theorem string_library:
  assumes "c_string a" "c_string b"
  shows "streq (a @ 0 # x) (b @ 0 # y) = Some (a = b) \<and>
    (0 < n \<longrightarrow> streqn (a @ 0 # x) (b @ 0 # y) (int n) = Some (take n a = take n b)) \<and>
    strlen (a @ 0 # x) = Some (int (length a)) \<and>
    strcpy dst (a @ 0 # x) =
      (if length a < length dst then Some (a @ 0 # drop (Suc (length a)) dst) else None)"
  using streq_c [OF assms] streqn_c [OF assms] assms
  by (simp add: strlen_def strlen_loop_c strcpy_c)

theorem string_library_witness:
  "streq ([97, 98] @ 0 # [1]) ([97, 99] @ 0 # []) = Some False \<and>
    streqn ([97, 98] @ 0 # [1]) ([97, 99] @ 0 # []) 1 = Some True \<and>
    strlen ([97, 98] @ 0 # [1]) = Some 2 \<and>
    strcpy [1, 2, 3, 4] ([97, 98] @ 0 # [1]) = Some [97, 98, 0, 4]"
  using string_library [of "[97, 98]" "[97, 99]" "[1]" "[]" 1 "[1, 2, 3, 4]"]
  by (simp add: c_string_def)

text \<open>
  \<open>bind\<close> picks the base, rounded down to 256 bytes, of a largest usable region of the memory
  list, or 0 when no usable region has a size.
\<close>

theorem bind_largest:
  "(bind_mem chip nodes = 0 \<and> (\<forall>k \<in> usable chip nodes. region_size k = 0)) \<or>
   (\<exists>n \<in> usable chip nodes. bind_mem chip nodes = page_down (mh_Lower n) \<and>
      0 < region_size n \<and> (\<forall>k \<in> usable chip nodes. region_size k \<le> region_size n))"
  using bind_loop_largest [of chip nodes 0 0] by (simp add: bind_mem_def)

theorem bind_largest_witness:
  "(bind_mem 2 [\<lparr> mh_Attributes = 2, mh_Lower = 0x400, mh_Upper = 0x200000 \<rparr>,
      \<lparr> mh_Attributes = 1, mh_Lower = 0x280020, mh_Upper = 0x300000 \<rparr>] = 0x280000) \<and>
   ((bind_mem 2 [] = 0 \<and> (\<forall>k \<in> usable 2 []. region_size k = 0)) \<or>
   (\<exists>n \<in> usable 2 []. bind_mem 2 [] = page_down (mh_Lower n) \<and>
      0 < region_size n \<and> (\<forall>k \<in> usable 2 []. region_size k \<le> region_size n)))"
  using bind_largest [of 2 "[]"] by (simp add: bind_mem_def page_down_def)

text \<open>\<open>memset\<close> sets exactly the first \<open>n\<close> bytes, and none for a negative \<open>n\<close>.\<close>

theorem memset_prefix:
  "memset s c n =
    (if nat n \<le> length s then Some (replicate (nat n) (ucast c) @ drop (nat n) s) else None)"
  by (simp add: memset_def memset_loop_c)

lemma sumbytes_value:
  "unat nbytes \<le> length mem \<Longrightarrow> sumbytes mem nbytes = Some (of_nat (byte_sum (take (unat nbytes) mem)))"
  by (simp add: sumbytes_def sum_loop_byte_sum)

end
