(* ===== verification/Lzw.thy ===== *)
theory Lzw
  imports Amix_Prelude
begin

text \<open>
  The decompressor of the boot program, \<open>boot/decompress.c\<close>: buffered input, codes of 9 to 16 bits
  taken from it, the string table, and buffered output.

  The fields of \<open>struct globals\<close> are the fields of a record. The bytes of \<open>inbuf\<close> that are not yet
  read and those of \<open>outbuf\<close> not yet written are lists, whose lengths are \<open>incnt\<close> and \<open>outcnt\<close>. The two
  halves of \<open>htab\<close> are the suffix table and the stack, with their sizes. The callback
  \<open>gblk\<close> is the list of its answers (a block, nothing at the end, or the error -1), \<open>pblk\<close> is a function
  of what it was given before, and the memory \<open>ALLOC\<close> finds is a parameter. The field
  \<open>codes\<close> is a history of the codes read, which the code does not look at.

  An access outside a table, the stack or a buffer is a \<open>Fault\<close>. The main loop runs on fuel, and running out
  of it is a third outcome, which never happens with the fuel \<open>lzw_terminates\<close> asks for.
\<close>

section \<open>State\<close>

abbreviation (input) INIT_BITS :: nat where "INIT_BITS \<equiv> 9"
abbreviation (input) MINMAXBITS :: nat where "MINMAXBITS \<equiv> 12"
abbreviation (input) MAXMAXBITS :: nat where "MAXMAXBITS \<equiv> 16"
abbreviation (input) FIRST :: nat where "FIRST \<equiv> 257"
abbreviation (input) CLEAR :: nat where "CLEAR \<equiv> 256"
abbreviation (input) MAGIC0 :: byte where "MAGIC0 \<equiv> 0x1F"
abbreviation (input) MAGIC1 :: byte where "MAGIC1 \<equiv> 0x9D"
abbreviation (input) IOSIZE :: nat where "IOSIZE \<equiv> 1024"

definition MAXCODE :: "nat \<Rightarrow> nat" where
  "MAXCODE n_bits = 2 ^ n_bits - 1"

record lz =
  n_bits :: nat
  maxbits :: nat
  maxcode :: nat
  maxmaxcode :: nat
  tab_suffix :: "nat \<Rightarrow> byte"
  tab_prefix :: "nat \<Rightarrow> u16"
  free_ent :: nat
  block_compress :: bool
  clear_flg :: bool
  resultflag :: bool
  inrest :: "byte list"
  gblk :: "byte list option list"
  outbuf :: "byte list"
  written :: "byte list list"
  bits_size :: int
  bits_offset :: int
  bits_buf :: "byte list"
  inputsize :: nat
  codes :: "nat list"

datatype outcome = Done lz | Fault lz | Out_of_fuel

type_synonym putblk = "byte list list \<Rightarrow> byte list \<Rightarrow> int"

text \<open>The masks \<open>rmask\<close> and the sizes \<open>hsize\<close> of the tables; \<open>de_stack\<close> is what is left of \<open>htab\<close>.\<close>

definition rmask :: "nat list" where
  "rmask = [0x00, 0x01, 0x03, 0x07, 0x0f, 0x1f, 0x3f, 0x7f, 0xff]"

definition hsize :: "nat \<Rightarrow> nat" where
  "hsize n = (if n = 12 then 5003 else if n = 13 then 9001 else if n = 14 then 18013
     else if n = 15 then 35023 else if n = 16 then 69001 else 0)"

definition stack_room :: "nat \<Rightarrow> nat" where
  "stack_room n = 4 * hsize n - 2 ^ n"

section \<open>Input\<close>

definition fillinbuf :: "lz \<Rightarrow> byte option \<times> lz" where
  "fillinbuf g =
    (let nbytes = min (inputsize g) IOSIZE
     in if nbytes = 0 then (None, g)
        else case gblk g of
          [] \<Rightarrow> (None, g)
        | None # rest \<Rightarrow> (None, g\<lparr> gblk := rest, resultflag := False \<rparr>)
        | Some block # rest \<Rightarrow>
            (case take nbytes block of
               [] \<Rightarrow> (None, g\<lparr> gblk := rest \<rparr>)
             | c # cs \<Rightarrow> (Some c, g\<lparr> gblk := rest, inrest := cs, inputsize := inputsize g - nbytes \<rparr>)))"

definition getc :: "lz \<Rightarrow> byte option \<times> lz" where
  "getc g = (case inrest g of c # cs \<Rightarrow> (Some c, g\<lparr> inrest := cs \<rparr>) | [] \<Rightarrow> fillinbuf g)"

text \<open>The \<open>for\<close> loop of \<open>getcode\<close>: \<open>k\<close> more bytes at most, to \<open>buf[size]\<close> on.\<close>

fun fill_buf :: "nat \<Rightarrow> nat \<Rightarrow> lz \<Rightarrow> nat \<times> lz" where
  "fill_buf 0 sz g = (sz, g)"
| "fill_buf (Suc k) sz g =
    (case getc g of
       (None, g) \<Rightarrow> (sz, g)
     | (Some c, g) \<Rightarrow> fill_buf k (Suc sz) (g\<lparr> bits_buf := (bits_buf g)[sz := c] \<rparr>))"

section \<open>Codes\<close>

text \<open>The bit extraction. The byte behind the 16 of \<open>buf\<close> is read, but only under the mask 0.\<close>

definition buf_byte :: "byte list \<Rightarrow> nat \<Rightarrow> nat" where
  "buf_byte buf i = (if i < MAXMAXBITS then unat (buf ! i) else 0)"

definition code_at :: "byte list \<Rightarrow> nat \<Rightarrow> nat \<Rightarrow> nat" where
  "code_at buf off nb =
    (let bp = off div 8; r_off = off mod 8;
         code = drop_bit r_off (buf_byte buf bp);
         bits = nb - (8 - r_off); r_off = 8 - r_off;
         (code, bp, r_off, bits) =
           (if bits \<ge> 8 then (code OR push_bit r_off (buf_byte buf (bp + 1)), bp + 2, r_off + 8, bits - 8)
            else (code, bp + 1, r_off, bits))
     in code OR push_bit r_off (buf_byte buf bp AND rmask ! bits))"

definition grow_bits :: "lz \<Rightarrow> lz" where
  "grow_bits g =
    (let g = (if free_ent g > maxcode g then
                let g = g\<lparr> n_bits := n_bits g + 1 \<rparr>
                in g\<lparr> maxcode := (if n_bits g = maxbits g then maxmaxcode g else MAXCODE (n_bits g)) \<rparr>
              else g)
     in if clear_flg g then g\<lparr> n_bits := INIT_BITS, maxcode := MAXCODE INIT_BITS, clear_flg := False \<rparr> else g)"

definition getcode :: "lz \<Rightarrow> nat option \<times> lz" where
  "getcode g =
    (let take_code = (\<lambda>g. let c = code_at (bits_buf g) (nat (bits_offset g)) (n_bits g)
           in (Some c, g\<lparr> bits_offset := bits_offset g + int (n_bits g), codes := codes g @ [c] \<rparr>))
     in if clear_flg g \<or> bits_offset g \<ge> bits_size g \<or> free_ent g > maxcode g then
          let g = grow_bits g;
              (sz, g) = fill_buf (n_bits g) 0 g
          in if sz = 0 then (None, g\<lparr> bits_size := 0 \<rparr>)
             else take_code (g\<lparr> bits_offset := 0, bits_size := 8 * int sz - (int (n_bits g) - 1) \<rparr>)
        else take_code g)"

section \<open>Output\<close>

definition flushout :: "putblk \<Rightarrow> lz \<Rightarrow> lz" where
  "flushout pblk g =
    (if outbuf g = [] then g
     else g\<lparr> written := written g @ [outbuf g], outbuf := [],
            resultflag := (resultflag g \<and> pblk (written g) (outbuf g) = int (length (outbuf g))) \<rparr>)"

definition putc :: "putblk \<Rightarrow> byte \<Rightarrow> lz \<Rightarrow> lz" where
  "putc pblk c g =
    (let g = g\<lparr> outbuf := outbuf g @ [c] \<rparr> in if length (outbuf g) = IOSIZE then flushout pblk g else g)"

section \<open>The string table\<close>

text \<open>
  The loop that puts the characters of a code on the stack, last one first; the stack is a list with its
  top in front. \<open>None\<close>: the code is outside the tables or the stack is full.
\<close>

function unwind :: "lz \<Rightarrow> nat \<Rightarrow> byte list \<Rightarrow> byte list option" where
  "unwind g code stack =
    (if length stack \<ge> stack_room (maxbits g) \<or> code \<ge> 2 ^ maxbits g then None
     else if code \<ge> 256 then unwind g (unat (tab_prefix g code)) (tab_suffix g code # stack)
     else Some (tab_suffix g code # stack))"
  by auto
termination
  by (relation "measure (\<lambda>(g, code, stack). stack_room (maxbits g) - length stack)") auto

declare unwind.simps [simp del]

definition clear_table :: "lz \<Rightarrow> lz" where
  "clear_table g = g\<lparr> tab_prefix := (\<lambda>c. if c < 256 then 0 else tab_prefix g c), clear_flg := True,
     free_ent := FIRST - 1 \<rparr>"

definition new_entry :: "nat \<Rightarrow> byte \<Rightarrow> lz \<Rightarrow> lz" where
  "new_entry oldcode finchar g =
    (let code = free_ent g
     in if code < maxmaxcode g
        then g\<lparr> tab_prefix := (tab_prefix g)(code := of_nat oldcode),
               tab_suffix := (tab_suffix g)(code := finchar), free_ent := code + 1 \<rparr>
        else g)"

text \<open>The body of the main loop for a code: the new \<open>finchar\<close> and state.\<close>

definition emit_code :: "putblk \<Rightarrow> nat \<Rightarrow> nat \<Rightarrow> byte \<Rightarrow> lz \<Rightarrow> (byte \<times> lz) option" where
  "emit_code pblk incode oldcode finchar g =
    (let (code, stack) = (if incode \<ge> free_ent g then (oldcode, [finchar]) else (incode, []))
     in case unwind g code stack of
          None \<Rightarrow> None
        | Some stack \<Rightarrow>
            let finchar = hd stack; g = fold (putc pblk) stack g
            in Some (finchar, new_entry oldcode finchar g))"

fun lz_loop :: "putblk \<Rightarrow> nat \<Rightarrow> nat \<Rightarrow> byte \<Rightarrow> lz \<Rightarrow> outcome" where
  "lz_loop pblk 0 oldcode finchar g = Out_of_fuel"
| "lz_loop pblk (Suc fuel) oldcode finchar g =
    (case getcode g of
       (None, g) \<Rightarrow> Done g
     | (Some code, g) \<Rightarrow>
         if code = CLEAR \<and> block_compress g then
           (case getcode (clear_table g) of
              (None, g) \<Rightarrow> Done g
            | (Some code, g) \<Rightarrow>
                (case emit_code pblk code oldcode finchar g of
                   None \<Rightarrow> Fault g
                 | Some (finchar, g) \<Rightarrow> lz_loop pblk fuel code finchar g))
         else
           (case emit_code pblk code oldcode finchar g of
              None \<Rightarrow> Fault g
            | Some (finchar, g) \<Rightarrow> lz_loop pblk fuel code finchar g))"

section \<open>The whole\<close>

definition init_lz :: "(nat \<Rightarrow> u16) \<Rightarrow> (nat \<Rightarrow> byte) \<Rightarrow> byte list option list \<Rightarrow> nat \<Rightarrow> lz" where
  "init_lz junk_prefix junk_suffix src insize =
    \<lparr> n_bits = 0, maxbits = 0, maxcode = 0, maxmaxcode = 0, tab_suffix = junk_suffix, tab_prefix = junk_prefix,
      free_ent = 0, block_compress = True, clear_flg = False, resultflag = True, inrest = [], gblk = src,
      outbuf = [], written = [], bits_size = 0, bits_offset = 0, bits_buf = replicate MAXMAXBITS 0,
      inputsize = insize, codes = [] \<rparr>"

text \<open>The third byte; at the end of the input it is -1, whose bits are all set.\<close>

definition set_maxbits :: "byte option \<Rightarrow> lz \<Rightarrow> lz" where
  "set_maxbits b g =
    (let v = (case b of Some c \<Rightarrow> c | None \<Rightarrow> - 1); bits = unat (v AND 0x1f)
     in g\<lparr> block_compress := (v AND 0x80 \<noteq> 0), maxbits := (if bits < MINMAXBITS then MINMAXBITS else bits) \<rparr>)"

definition alloctables :: "lz \<Rightarrow> lz" where
  "alloctables g = g\<lparr> maxmaxcode := 2 ^ maxbits g \<rparr>"

definition init_tables :: "lz \<Rightarrow> lz" where
  "init_tables g = g\<lparr> n_bits := INIT_BITS, maxcode := MAXCODE INIT_BITS,
     tab_prefix := (\<lambda>c. if c < 256 then 0 else tab_prefix g c),
     tab_suffix := (\<lambda>c. if c < 256 then of_nat c else tab_suffix g c),
     free_ent := (if block_compress g then FIRST else 256) \<rparr>"

text \<open>
  \<open>None\<close> in the result is a return before the final flush: the value returned is 0 in those cases
  (a bad magic number, number of bits, or no code at all); \<open>Some\<close> is the main loop with its final flush.
\<close>

definition decompress ::
  "putblk \<Rightarrow> (nat \<Rightarrow> u16) \<Rightarrow> (nat \<Rightarrow> byte) \<Rightarrow> byte list option list \<Rightarrow> nat \<Rightarrow> nat \<Rightarrow> outcome option" where
  "decompress pblk junk_prefix junk_suffix src insize fuel =
    (let g = init_lz junk_prefix junk_suffix src insize;
         (m0, g) = getc g
     in if m0 \<noteq> Some MAGIC0 then None
        else
          let (m1, g) = getc g
          in if m1 \<noteq> Some MAGIC1 then None
             else
               let (b, g) = getc g; g = set_maxbits b g
               in if maxbits g > MAXMAXBITS then None
                  else
                    (case getcode (init_tables (alloctables g)) of
                       (None, g) \<Rightarrow> None
                     | (Some code, g) \<Rightarrow>
                         (case lz_loop pblk fuel code (of_nat code) (putc pblk (of_nat code) g) of
                            Done g \<Rightarrow> Some (Done (flushout pblk g))
                          | r \<Rightarrow> Some r)))"

end
