(* ===== verification/Lzw_Input.thy ===== *)
theory Lzw_Input
  imports Lzw
begin

text \<open>
  Facts about the input and output of the decompressor: what each step may change, the number of bits
  that are left as a measure of the main loop, and the bits of a code.
\<close>

section \<open>Frames\<close>

text \<open>What reading bytes and writing characters change.\<close>

definition same_tables :: "lz \<Rightarrow> lz \<Rightarrow> bool" where
  "same_tables g t = (n_bits t = n_bits g \<and> maxbits t = maxbits g \<and> maxcode t = maxcode g \<and>
     maxmaxcode t = maxmaxcode g \<and> tab_suffix t = tab_suffix g \<and> tab_prefix t = tab_prefix g \<and>
     free_ent t = free_ent g \<and> block_compress t = block_compress g \<and> clear_flg t = clear_flg g \<and>
     bits_size t = bits_size g \<and> bits_offset t = bits_offset g \<and> codes t = codes g)"

definition input_step :: "lz \<Rightarrow> lz \<Rightarrow> bool" where
  "input_step g t = (same_tables g t \<and> outbuf t = outbuf g \<and> written t = written g \<and>
     length (bits_buf t) = length (bits_buf g))"

definition output_step :: "lz \<Rightarrow> lz \<Rightarrow> bool" where
  "output_step g t = (same_tables g t \<and> inrest t = inrest g \<and> gblk t = gblk g \<and> inputsize t = inputsize g \<and>
     bits_buf t = bits_buf g)"

lemma input_step_refl [simp]: "input_step g g"
  by (simp add: input_step_def same_tables_def)

lemma input_step_trans: "input_step g t \<Longrightarrow> input_step t u \<Longrightarrow> input_step g u"
  by (simp add: input_step_def same_tables_def)

lemma output_step_refl [simp]: "output_step g g"
  by (simp add: output_step_def same_tables_def)

lemma output_step_trans: "output_step g t \<Longrightarrow> output_step t u \<Longrightarrow> output_step g u"
  by (simp add: output_step_def same_tables_def)

text \<open>Bytes that are still to come.\<close>

definition avail :: "lz \<Rightarrow> nat" where
  "avail g = length (inrest g) + sum_list (map (\<lambda>b. case b of Some x \<Rightarrow> length x | None \<Rightarrow> 0) (gblk g))"

lemma fillinbuf_step:
  assumes "fillinbuf g = (r, t)" "inrest g = []"
  shows "input_step g t \<and> (r \<noteq> None \<longrightarrow> avail t < avail g) \<and> avail t \<le> avail g"
proof (cases "min (inputsize g) IOSIZE = 0 \<or> gblk g = []")
  case True
  then have "t = g \<and> r = None" using assms(1) by (auto simp: fillinbuf_def Let_def split: if_splits)
  then show ?thesis by simp
next
  case False
  then obtain b rest where b: "gblk g = b # rest" by (cases "gblk g") auto
  have n0: "(min (inputsize g) IOSIZE = 0) = False" using False by simp
  define n where "n = min (inputsize g) IOSIZE"
  show ?thesis
  proof (cases "b = None \<or> take n (the b) = []")
    case True
    then show ?thesis using assms(1) b
      by (auto simp: n0 fillinbuf_def Let_def n_def input_step_def same_tables_def avail_def split: option.splits)
  next
    case notnil: False
    then obtain block c cs where c: "b = Some block" "take n block = c # cs"
      by (metis list.exhaust option.collapse)
    then have t: "t = g\<lparr> gblk := rest, inrest := cs, inputsize := inputsize g - n \<rparr>" "r = Some c"
      using assms(1) b by (auto simp: n0 fillinbuf_def Let_def n_def)
    have "length (take n block) \<le> length block" by simp
    then have "Suc (length cs) \<le> length block" using c by simp
    then show ?thesis using b c t assms(2) by (simp add: input_step_def same_tables_def avail_def)
  qed
qed

lemma getc_step:
  assumes "getc g = (r, t)"
  shows "input_step g t" "r \<noteq> None \<Longrightarrow> avail t < avail g" "avail t \<le> avail g"
proof -
  have "input_step g t \<and> (r \<noteq> None \<longrightarrow> avail t < avail g) \<and> avail t \<le> avail g"
  proof (cases "inrest g")
    case (Cons c cs)
    then show ?thesis using assms by (auto simp: getc_def input_step_def same_tables_def avail_def)
  next
    case Nil
    then show ?thesis using assms fillinbuf_step [of g r t] by (simp add: getc_def)
  qed
  then show "input_step g t" "r \<noteq> None \<Longrightarrow> avail t < avail g" "avail t \<le> avail g" by auto
qed

lemma fill_buf_step:
  "fill_buf k sz g = (sz', t) \<Longrightarrow> input_step g t \<and> sz \<le> sz' \<and> sz' \<le> sz + k \<and> avail t + (sz' - sz) \<le> avail g"
proof (induction k arbitrary: sz g)
  case (Suc k)
  obtain r u where u: "getc g = (r, u)" by fastforce
  show ?case
  proof (cases r)
    case None
    then show ?thesis using Suc.prems u getc_step [OF u] by auto
  next
    case (Some c)
    let ?v = "u\<lparr> bits_buf := (bits_buf u)[sz := c] \<rparr>"
    have "fill_buf k (Suc sz) ?v = (sz', t)" using Suc.prems u Some by simp
    from Suc.IH [OF this] have ih: "input_step ?v t" "Suc sz \<le> sz'" "sz' \<le> Suc sz + k" "avail t + (sz' - Suc sz) \<le> avail ?v"
      by auto
    have "input_step u ?v" by (simp add: input_step_def same_tables_def)
    then have "input_step g t" using getc_step(1) [OF u] ih(1) input_step_trans by blast
    moreover have "avail ?v = avail u" by (simp add: avail_def)
    ultimately show ?thesis using ih getc_step(2) [OF u] Some by auto
  qed
qed (simp add: input_step_refl)

section \<open>The measure of the main loop\<close>

definition pending :: "lz \<Rightarrow> nat" where
  "pending g = 8 * avail g + nat (bits_size g - bits_offset g)"

lemma grow_bits_fields:
  "avail (grow_bits g) = avail g" "codes (grow_bits g) = codes g" "outbuf (grow_bits g) = outbuf g"
  "written (grow_bits g) = written g" "tab_suffix (grow_bits g) = tab_suffix g" "tab_prefix (grow_bits g) = tab_prefix g"
  "free_ent (grow_bits g) = free_ent g" "maxbits (grow_bits g) = maxbits g" "maxmaxcode (grow_bits g) = maxmaxcode g"
  "block_compress (grow_bits g) = block_compress g" "length (bits_buf (grow_bits g)) = length (bits_buf g)"
  "\<not> clear_flg (grow_bits g)" "bits_size (grow_bits g) = bits_size g" "bits_offset (grow_bits g) = bits_offset g"
  by (simp_all add: grow_bits_def Let_def avail_def)

lemma grow_bits_pos: "0 < n_bits g \<Longrightarrow> 0 < n_bits (grow_bits g)"
  by (simp add: grow_bits_def Let_def)

lemma getcode_some:
  assumes "getcode g = (Some c, t)" "0 < n_bits g"
  shows "pending t < pending g" "0 < n_bits t"
proof -
  have "pending t < pending g \<and> 0 < n_bits t"
  proof (cases "clear_flg g \<or> bits_offset g \<ge> bits_size g \<or> free_ent g > maxcode g")
    case False
    then have "t = g\<lparr> bits_offset := bits_offset g + int (n_bits g), codes := codes g @ [c] \<rparr>"
      using assms(1) by (auto simp: getcode_def Let_def)
    then show ?thesis using False assms(2) by (simp add: pending_def avail_def)
  next
    case True
    let ?g = "grow_bits g"
    obtain sz u where f: "fill_buf (n_bits ?g) 0 ?g = (sz, u)" by fastforce
    have u: "n_bits u = n_bits ?g" "avail u + sz \<le> avail g" "sz \<noteq> 0"
      using fill_buf_step [OF f] True assms(1) f
      by (auto simp: grow_bits_fields input_step_def same_tables_def getcode_def Let_def split: if_splits)
    then have "t = u\<lparr> bits_offset := int (n_bits u), bits_size := 8 * int sz - (int (n_bits u) - 1),
        codes := codes u @ [c] \<rparr>"
      using True assms(1) f by (auto simp: getcode_def Let_def)
    then have "pending t = 8 * avail u + nat (8 * int sz - (int (n_bits u) - 1) - int (n_bits u))" "n_bits t = n_bits ?g"
      using u by (simp_all add: pending_def avail_def)
    moreover have "8 * avail u + 8 * sz \<le> 8 * avail g" using u(2) by simp
    ultimately show ?thesis using u grow_bits_pos [OF assms(2)] by (simp add: pending_def)
  qed
  then show "pending t < pending g" "0 < n_bits t" by auto
qed

lemma flushout_step: "output_step g (flushout pblk g)"
  by (simp add: output_step_def same_tables_def flushout_def)

lemma putc_step: "output_step g (putc pblk c g)"
  by (simp add: output_step_def same_tables_def putc_def flushout_def Let_def)

lemma puts_step: "output_step g (fold (putc pblk) cs g)"
  by (induction cs arbitrary: g) (auto intro: output_step_trans putc_step)

lemma output_step_pending: "output_step g t \<Longrightarrow> pending t = pending g \<and> n_bits t = n_bits g"
  by (simp add: output_step_def same_tables_def pending_def avail_def)

lemma emit_code_pending:
  "emit_code pblk incode oldcode finchar g = Some (f, t) \<Longrightarrow> pending t = pending g \<and> n_bits t = n_bits g"
  using output_step_pending [OF puts_step]
  by (auto simp: emit_code_def Let_def new_entry_def pending_def avail_def split: if_splits option.splits prod.splits)

lemma lz_loop_fuel:
  "pending g < fuel \<Longrightarrow> 0 < n_bits g \<Longrightarrow> lz_loop pblk fuel oldcode finchar g \<noteq> Out_of_fuel"
proof (induction fuel arbitrary: oldcode finchar g)
  case (Suc fuel)
  obtain r t where t: "getcode g = (r, t)" by fastforce
  have emit: "(case emit_code pblk code oldcode finchar u of None \<Rightarrow> Fault u
      | Some (finchar, u) \<Rightarrow> lz_loop pblk fuel code finchar u) \<noteq> Out_of_fuel"
    if "pending u < fuel" "0 < n_bits u" for code u
  proof (cases "emit_code pblk code oldcode finchar u")
    case (Some r)
    obtain f w where r: "r = (f, w)" by fastforce
    then have "pending w < fuel" "0 < n_bits w" using emit_code_pending [of pblk code oldcode finchar u f w] that Some by simp_all
    then show ?thesis using Suc.IH Some r by simp
  qed simp
  show ?case
  proof (cases r)
    case (Some code)
    note p = getcode_some [OF t [unfolded Some] Suc.prems(2)]
    obtain r' v where v: "getcode (clear_table t) = (r', v)" by fastforce
    have c: "pending (clear_table t) = pending t" "n_bits (clear_table t) = n_bits t"
      by (simp_all add: clear_table_def pending_def avail_def)
    have "pending v < fuel \<and> 0 < n_bits v" if "r' = Some d" for d
      using getcode_some [of "clear_table t" d v] v that p c Suc.prems(1) by simp
    then show ?thesis using Suc.prems(1) t Some v p emit
      by (cases r') auto
  qed (use t in simp)
qed simp

section \<open>The bits of a code\<close>

text \<open>The buffer as one number, first byte lowest.\<close>

fun le_value :: "byte list \<Rightarrow> nat" where
  "le_value [] = 0"
| "le_value (b # bs) = unat b OR push_bit 8 (le_value bs)"

lemma bit_unat_byte: "bit (unat (b :: byte)) n \<longleftrightarrow> n < 8 \<and> bit b n"
  by (simp add: bit_unsigned_iff) (auto dest: bit_imp_le_length)

lemma bit_le_value: "bit (le_value bs) i \<longleftrightarrow> i div 8 < length bs \<and> bit (bs ! (i div 8)) (i mod 8)"
proof (induction bs arbitrary: i)
  case (Cons b bs)
  show ?case
  proof (cases "i < 8")
    case True
    then show ?thesis by (simp add: bit_simps bit_unat_byte)
  next
    case False
    then have "i div 8 = Suc ((i - 8) div 8)" "i mod 8 = (i - 8) mod 8"
      by (simp_all add: le_div_geq le_mod_geq)
    moreover have "\<not> bit b i" using False by (auto dest: bit_imp_le_length)
    ultimately show ?thesis using False Cons [of "i - 8"] by (simp add: bit_simps bit_unat_byte)
  qed
qed simp

lemma rmask_mask: "k \<le> 8 \<Longrightarrow> rmask ! k = mask k"
proof -
  assume "k \<le> 8"
  then have "k \<in> {0, 1, 2, 3, 4, 5, 6, 7, 8}" by auto
  then show ?thesis by (auto simp: rmask_def mask_eq_exp_minus_1)
qed

lemma bit_buf_byte: "length buf = 16 \<Longrightarrow> bit (buf_byte buf i) n \<longleftrightarrow> i < 16 \<and> n < 8 \<and> bit (buf ! i) n"
  by (simp add: buf_byte_def bit_unat_byte)

lemma bit_code_at:
  assumes "length buf = 16" "9 \<le> nb" "nb \<le> 16"
  shows "bit (code_at buf off nb) j \<longleftrightarrow>
    j < nb \<and> (off + j) div 8 < 16 \<and> bit (buf ! ((off + j) div 8)) ((off + j) mod 8)"
proof -
  define bp r where "bp = off div 8" and "r = off mod 8"
  have off: "off = 8 * bp + r" "r < 8" by (simp_all add: bp_def r_def)
  have sum: "off + j = (j + r) + 8 * bp" using off(1) by simp
  have pos: "(off + j) div 8 = bp \<and> (off + j) mod 8 = j + r" if "j + r < 8"
    unfolding sum using that by simp
  have pos1: "(off + j) div 8 = bp + 1 \<and> (off + j) mod 8 = j + r - 8" if "8 \<le> j + r" "j + r < 16"
    unfolding sum using that by (simp add: div_add1_eq [of _ "8 * bp"] le_div_geq le_mod_geq)
  have pos2: "(off + j) div 8 = bp + 2 \<and> (off + j) mod 8 = j + r - 16" if "16 \<le> j + r" "j + r < 24"
    unfolding sum using that by (simp add: le_div_geq le_mod_geq)
  have far: "j + r < 24" if "j < nb" using that assms off by simp
  consider "j + r < 8" | "8 \<le> j + r" "j + r < 16" | "16 \<le> j + r" by linarith
  then show ?thesis
  proof cases
    case 1
    then show ?thesis
      using pos assms off by (auto simp: add.commute [of r j] code_at_def Let_def bit_simps bit_buf_byte [OF assms(1)] rmask_mask simp flip: bp_def r_def)
  next
    case 2
    then show ?thesis
      using pos1 assms off by (auto simp: add.commute [of r j] code_at_def Let_def bit_simps bit_buf_byte [OF assms(1)] rmask_mask simp flip: bp_def r_def)
  next
    case 3
    then show ?thesis
      using pos2 far assms off by (auto simp: add.commute [of r j] code_at_def Let_def bit_simps bit_buf_byte [OF assms(1)] rmask_mask simp flip: bp_def r_def)
  qed
qed

lemma code_at_bits:
  assumes "length buf = 16" "9 \<le> nb" "nb \<le> 16"
  shows "code_at buf off nb = le_value buf div 2 ^ off mod 2 ^ nb"
proof -
  have "code_at buf off nb = take_bit nb (drop_bit off (le_value buf))"
    by (rule bit_eqI) (auto simp: bit_code_at [OF assms] bit_simps bit_le_value assms(1))
  then show ?thesis by (simp add: take_bit_eq_mod drop_bit_eq_div)
qed

end
