(* ===== verification/Lzw_Spec.thy ===== *)
theory Lzw_Spec
  imports Amix_Prelude
begin

text \<open>
  The method, without tables and bits: a dictionary from codes to strings, the decoder that
  reads a list of codes, and the compressor it belongs to, with the proof that they fit.
\<close>

section \<open>The decoder on strings\<close>

text \<open>The strings of the codes below \<open>a_next\<close>, and the string of the code before.\<close>

record adict =
  a_str :: "nat \<Rightarrow> byte list"
  a_next :: nat
  a_old :: "byte list"

definition first_free_code :: "bool \<Rightarrow> nat" where
  "first_free_code blk = (if blk then 257 else 256)"

definition adict_start :: "bool \<Rightarrow> nat \<Rightarrow> adict" where
  "adict_start blk c = \<lparr> a_str = (\<lambda>c. [of_nat c]), a_next = first_free_code blk, a_old = [of_nat c] \<rparr>"

definition known_code :: "bool \<Rightarrow> nat \<Rightarrow> adict \<Rightarrow> nat \<Rightarrow> bool" where
  "known_code blk M A c = ((c < 256 \<or> first_free_code blk \<le> c) \<and> (c < a_next A \<or> c = a_next A \<and> c < M))"

definition code_string :: "adict \<Rightarrow> nat \<Rightarrow> byte list" where
  "code_string A c = (if c < a_next A then a_str A c else a_old A @ [hd (a_old A)])"

definition learn :: "nat \<Rightarrow> byte list \<Rightarrow> adict \<Rightarrow> adict" where
  "learn M s A =
    (if a_next A < M
     then A\<lparr> a_str := (a_str A)(a_next A := a_old A @ [hd s]), a_next := a_next A + 1, a_old := s \<rparr>
     else A\<lparr> a_old := s \<rparr>)"

text \<open>\<open>None\<close>: a code that no compressor sends. A clear code is followed by a single character.\<close>

fun lzw_decode :: "bool \<Rightarrow> nat \<Rightarrow> adict \<Rightarrow> nat list \<Rightarrow> byte list option" where
  "lzw_decode blk M A [] = Some []"
| "lzw_decode blk M A [c] =
    (if blk \<and> c = 256 then Some [] else if known_code blk M A c then Some (code_string A c) else None)"
| "lzw_decode blk M A (c # d # cs) =
    (if blk \<and> c = 256 then
       (if d < 256 then map_option ((#) (of_nat d)) (lzw_decode blk M (adict_start blk d) cs) else None)
     else if known_code blk M A c
     then map_option ((@) (code_string A c)) (lzw_decode blk M (learn M (code_string A c) A) (d # cs))
     else None)"

fun lzw_decode_all :: "bool \<Rightarrow> nat \<Rightarrow> nat list \<Rightarrow> byte list option" where
  "lzw_decode_all blk M [] = None"
| "lzw_decode_all blk M (c # cs) =
    (if c < 256 then map_option ((#) (of_nat c)) (lzw_decode blk M (adict_start blk c) cs) else None)"

lemma lzw_decode_known:
  "known_code blk M A c \<Longrightarrow> \<not> (blk \<and> c = 256) \<Longrightarrow>
   lzw_decode blk M A (c # cs) =
     map_option ((@) (code_string A c)) (lzw_decode blk M (learn M (code_string A c) A) cs)"
  by (cases cs) (auto simp del: not_None_eq)

section \<open>The compressor\<close>

text \<open>
  The greedy compressor: \<open>w\<close> is the longest known string so far; when the next character leads out of the
  table, the code of \<open>w\<close> is sent and the longer string gets the next code while there is one.
\<close>

fun lzw_encode_from :: "nat \<Rightarrow> (byte list \<rightharpoonup> nat) \<Rightarrow> nat \<Rightarrow> byte list \<Rightarrow> byte list \<Rightarrow> nat list" where
  "lzw_encode_from M tab n w [] = [the (tab w)]"
| "lzw_encode_from M tab n w (c # cs) =
    (if tab (w @ [c]) \<noteq> None then lzw_encode_from M tab n (w @ [c]) cs
     else the (tab w) #
       (if n < M then lzw_encode_from M (tab(w @ [c] \<mapsto> n)) (n + 1) [c] cs
        else lzw_encode_from M tab n [c] cs))"

definition char_table :: "byte list \<rightharpoonup> nat" where
  "char_table s = (case s of [c] \<Rightarrow> Some (unat c) | _ \<Rightarrow> None)"

fun lzw_encode :: "bool \<Rightarrow> nat \<Rightarrow> byte list \<Rightarrow> nat list" where
  "lzw_encode blk M [] = []"
| "lzw_encode blk M (c # cs) = lzw_encode_from M char_table (first_free_code blk) [c] cs"

section \<open>They fit\<close>

text \<open>
  The compressor is one entry ahead: its table is the decoder's dictionary and, while there is room, the
  string the decoder will learn from the first character of \<open>w\<close>.
\<close>

definition legit :: "bool \<Rightarrow> nat \<Rightarrow> bool" where
  "legit blk c = (c < 256 \<or> first_free_code blk \<le> c)"

definition ahead :: "bool \<Rightarrow> nat \<Rightarrow> adict \<Rightarrow> (byte list \<rightharpoonup> nat) \<Rightarrow> byte \<Rightarrow> bool" where
  "ahead blk M A tab c = (a_old A \<noteq> [] \<and> first_free_code blk \<le> a_next A \<and> a_next A \<le> M \<and>
     (\<forall>s k. tab s = Some k \<longleftrightarrow>
        (k < a_next A \<and> legit blk k \<and> a_str A k = s) \<or>
        (k = a_next A \<and> a_next A < M \<and> s = a_old A @ [c])))"

lemma ahead_step:
  assumes "ahead blk M A tab (hd w)" "tab w = Some k" "w \<noteq> []"
  shows "known_code blk M A k" "code_string A k = w" "\<not> (blk \<and> k = 256)"
proof -
  have k: "(k < a_next A \<and> legit blk k \<and> a_str A k = w) \<or>
      (k = a_next A \<and> a_next A < M \<and> w = a_old A @ [hd w])"
    using assms(1,2) unfolding ahead_def by blast
  have f: "first_free_code blk \<le> a_next A" "a_old A \<noteq> []" using assms(1) by (simp_all add: ahead_def)
  show "known_code blk M A k" using k f by (auto simp: known_code_def legit_def)
  show "\<not> (blk \<and> k = 256)" using k f by (auto simp: legit_def first_free_code_def)
  from k show "code_string A k = w"
  proof
    assume "k = a_next A \<and> a_next A < M \<and> w = a_old A @ [hd w]"
    moreover from this have "hd w = hd (a_old A)" using f(2) by (metis hd_append2)
    ultimately show ?thesis by (simp add: code_string_def)
  qed (simp add: code_string_def)
qed

lemma ahead_learn:
  assumes "ahead blk M A tab (hd w)" "w \<noteq> []" "tab (w @ [c]) = None"
    and "n = (if a_next A < M then a_next A + 1 else M)"
  shows "ahead blk M (learn M w A) (if n < M then tab(w @ [c] \<mapsto> n) else tab) c"
proof -
  have tab: "tab s = Some k \<longleftrightarrow> (k < a_next A \<and> legit blk k \<and> a_str A k = s) \<or>
        (k = a_next A \<and> a_next A < M \<and> s = a_old A @ [hd w])" for s k
    using assms(1) unfolding ahead_def by blast
  have f: "first_free_code blk \<le> a_next A" "a_next A \<le> M" using assms(1) by (simp_all add: ahead_def)
  have l: "legit blk (a_next A)" "legit blk (a_next A + 1)" using f by (auto simp: legit_def)
  show ?thesis
  proof (cases "a_next A < M")
    case True
    have "(if n < M then tab(w @ [c] \<mapsto> n) else tab) s = Some k \<longleftrightarrow>
        (k < a_next A + 1 \<and> legit blk k \<and> ((a_str A)(a_next A := a_old A @ [hd w])) k = s) \<or>
        (k = a_next A + 1 \<and> a_next A + 1 < M \<and> s = w @ [c])" for s k
      using True tab [of s k] tab [of s "a_next A"] assms(3,4) l
      by (auto simp: less_Suc_eq)
    then show ?thesis using True f assms(2) by (auto simp: ahead_def learn_def)
  next
    case False
    then show ?thesis using tab assms(2,4) f by (auto simp: ahead_def learn_def)
  qed
qed

lemma encode_decode:
  assumes "ahead blk M A tab (hd w)" "w \<noteq> []" "tab w \<noteq> None" "\<And>b. tab [b] \<noteq> None"
    and "n = (if a_next A < M then a_next A + 1 else M)"
  shows "lzw_decode blk M A (lzw_encode_from M tab n w cs) = Some (w @ cs)"
  using assms
proof (induction cs arbitrary: A tab n w)
  case Nil
  obtain k where k: "tab w = Some k" using Nil.prems(3) by blast
  show ?case using ahead_step [OF Nil.prems(1) k Nil.prems(2)] k by (auto simp: lzw_decode_known)
next
  case (Cons c cs)
  obtain k where k: "tab w = Some k" using Cons.prems(3) by blast
  note st = ahead_step [OF Cons.prems(1) k Cons.prems(2)]
  show ?case
  proof (cases "tab (w @ [c]) = None")
    case True
    let ?tab = "if n < M then tab(w @ [c] \<mapsto> n) else tab" and ?n = "if n < M then n + 1 else n"
    have "ahead blk M (learn M w A) ?tab (hd [c])"
      using ahead_learn [OF Cons.prems(1,2) True Cons.prems(5)] by simp
    moreover have "a_next (learn M w A) = n" "n \<le> M"
      using Cons.prems(1,5) by (auto simp: learn_def ahead_def)
    ultimately have "lzw_decode blk M (learn M w A) (lzw_encode_from M ?tab ?n [c] cs) = Some ([c] @ cs)"
      using Cons.prems(4) by (intro Cons.IH) auto
    then show ?thesis using True st k by (simp add: lzw_decode_known split: if_splits)
  next
    case False
    then show ?thesis using Cons.IH [of A tab "w @ [c]" n] Cons.prems by simp
  qed
qed

lemma unat_byte_less: "unat (b :: byte) < 256"
  using unsigned_less [of b, where ?'a = nat] by simp

lemma char_table_some: "char_table s = Some k \<longleftrightarrow> k < 256 \<and> s = [of_nat k]"
proof
  assume "char_table s = Some k"
  then obtain c where "s = [c]" "k = unat c" by (auto simp: char_table_def split: list.splits)
  then show "k < 256 \<and> s = [of_nat k]" by (simp add: unat_byte_less)
next
  assume "k < 256 \<and> s = [of_nat k]"
  then show "char_table s = Some k" by (simp add: char_table_def unat_of_nat)
qed

lemma char_table_single: "char_table [b] \<noteq> None"
  by (simp add: char_table_def)

lemma ahead_start:
  assumes "257 < M"
  shows "ahead blk M (adict_start blk (unat a)) (char_table([a, c] \<mapsto> first_free_code blk)) c"
proof -
  have F: "first_free_code blk = 256 \<or> first_free_code blk = 257" by (simp add: first_free_code_def)
  have k: "(k < first_free_code blk \<and> legit blk k) \<longleftrightarrow> k < 256" for k
    using F by (auto simp: legit_def)
  have "(char_table([a, c] \<mapsto> first_free_code blk)) s = Some k \<longleftrightarrow>
      (k < first_free_code blk \<and> legit blk k \<and> [of_nat k] = s) \<or> (k = first_free_code blk \<and> s = [a, c])" for s k
    using char_table_some [of s k] k [of k] F by auto
  then show ?thesis using F assms by (auto simp: ahead_def adict_start_def)
qed

lemma lzw_encode_decode:
  assumes "257 < M" "xs \<noteq> []"
  shows "lzw_decode_all blk M (lzw_encode blk M xs) = Some xs"
proof -
  obtain a cs where xs: "xs = a # cs" using assms(2) by (cases xs) auto
  have F: "first_free_code blk < M" using assms(1) by (simp add: first_free_code_def)
  show ?thesis
  proof (cases cs)
    case Nil
    then show ?thesis by (simp add: xs char_table_def unat_byte_less)
  next
    case (Cons c ds)
    have "char_table [a, c] = None" by (simp add: char_table_def)
    then have enc: "lzw_encode blk M xs = unat a #
        lzw_encode_from M (char_table([a, c] \<mapsto> first_free_code blk)) (first_free_code blk + 1) [c] ds"
      using F by (simp add: xs Cons char_table_def)
    have "lzw_decode blk M (adict_start blk (unat a))
        (lzw_encode_from M (char_table([a, c] \<mapsto> first_free_code blk)) (first_free_code blk + 1) [c] ds) = Some ([c] @ ds)"
    proof (rule encode_decode)
      show "ahead blk M (adict_start blk (unat a)) (char_table([a, c] \<mapsto> first_free_code blk)) (hd [c])"
        using ahead_start [OF assms(1)] by simp
    qed (use F char_table_single in \<open>auto simp: adict_start_def\<close>)
    then show ?thesis unfolding enc by (simp add: unat_byte_less xs Cons)
  qed
qed

end
