(* ===== verification/Lzw_Correct.thy ===== *)
theory Lzw_Correct
  imports Lzw_Input Lzw_Spec
begin

text \<open>
  The decompressor implements the decoder on strings: the string table with its prefixes and suffixes
  represents a dictionary, the loop that unwinds a code through the stack produces its string, and the
  main loop writes what the decoder says for the codes that were read.
\<close>

section \<open>The table as a dictionary\<close>

definition table_rel :: "lz \<Rightarrow> nat \<Rightarrow> byte \<Rightarrow> adict \<Rightarrow> bool" where
  "table_rel g oldcode finchar A =
    (12 \<le> maxbits g \<and> maxbits g \<le> 16 \<and> maxmaxcode g = 2 ^ maxbits g \<and>
     first_free_code (block_compress g) \<le> free_ent g \<and> free_ent g = a_next A \<and> a_next A \<le> 2 ^ maxbits g \<and>
     (\<forall>c < 256. tab_suffix g c = of_nat c \<and> a_str A c = [of_nat c]) \<and>
     (\<forall>c. first_free_code (block_compress g) \<le> c \<and> c < a_next A \<longrightarrow>
        unat (tab_prefix g c) < c \<and> legit (block_compress g) (unat (tab_prefix g c)) \<and>
        a_str A c = a_str A (unat (tab_prefix g c)) @ [tab_suffix g c]) \<and>
     oldcode < a_next A \<and> legit (block_compress g) oldcode \<and> a_old A = a_str A oldcode \<and> finchar = hd (a_old A))"

lemma first_free_code_ge: "256 \<le> first_free_code blk"
  by (simp add: first_free_code_def)

lemma stack_room_big: "12 \<le> n \<Longrightarrow> n \<le> 16 \<Longrightarrow> 2 ^ n \<le> stack_room n"
proof -
  assume "12 \<le> n" "n \<le> 16"
  then have "n \<in> {12, 13, 14, 15, 16}" by auto
  then show ?thesis by (auto simp: stack_room_def hsize_def)
qed

lemma table_string:
  assumes "table_rel g oldcode finchar A" "legit (block_compress g) c" "c < a_next A"
  shows "a_str A c \<noteq> [] \<and> length (a_str A c) + 254 \<le> max 255 c"
  using assms(2,3)
proof (induction c rule: less_induct)
  case (less c)
  show ?case
  proof (cases "c < 256")
    case True
    then show ?thesis using assms(1) by (simp add: table_rel_def)
  next
    case False
    then have "first_free_code (block_compress g) \<le> c" using less.prems(1) by (simp add: legit_def)
    then have c: "unat (tab_prefix g c) < c" "legit (block_compress g) (unat (tab_prefix g c))"
      "a_str A c = a_str A (unat (tab_prefix g c)) @ [tab_suffix g c]"
      using assms(1) less.prems(2) unfolding table_rel_def by blast+
    then show ?thesis using less.IH [of "unat (tab_prefix g c)"] less.prems(2) False by auto
  qed
qed

lemma unwind_string:
  assumes "table_rel g oldcode finchar A" "legit (block_compress g) c" "c < a_next A"
    and "length stack + length (a_str A c) \<le> stack_room (maxbits g)"
  shows "unwind g c stack = Some (a_str A c @ stack)"
  using assms(2-4)
proof (induction c arbitrary: stack rule: less_induct)
  case (less c)
  have M: "c < 2 ^ maxbits g" using assms(1) less.prems(2) by (simp add: table_rel_def)
  have "a_str A c \<noteq> []" using table_string [OF assms(1) less.prems(1,2)] by simp
  then have room: "length stack < stack_room (maxbits g)"
    using less.prems(3) by (cases "a_str A c") auto
  show ?case
  proof (cases "c < 256")
    case True
    then show ?thesis using assms(1) M room by (subst unwind.simps) (simp add: table_rel_def)
  next
    case False
    then have "first_free_code (block_compress g) \<le> c" using less.prems(1) by (simp add: legit_def)
    then have c: "unat (tab_prefix g c) < c" "legit (block_compress g) (unat (tab_prefix g c))"
      "a_str A c = a_str A (unat (tab_prefix g c)) @ [tab_suffix g c]"
      using assms(1) less.prems(2) unfolding table_rel_def by blast+
    have "unwind g (unat (tab_prefix g c)) (tab_suffix g c # stack) =
        Some (a_str A (unat (tab_prefix g c)) @ tab_suffix g c # stack)"
      using c less.prems(2,3) by (intro less.IH) simp_all
    then show ?thesis using False M room c(3) by (subst unwind.simps) simp
  qed
qed

section \<open>Output\<close>

definition lz_out :: "lz \<Rightarrow> byte list" where
  "lz_out g = concat (written g) @ outbuf g"

lemma lz_out_flushout [simp]: "lz_out (flushout pblk g) = lz_out g"
  by (simp add: lz_out_def flushout_def)

lemma lz_out_putc: "lz_out (putc pblk c g) = lz_out g @ [c]"
  by (simp add: lz_out_def putc_def flushout_def Let_def)

lemma lz_out_puts: "lz_out (fold (putc pblk) cs g) = lz_out g @ cs"
  by (induction cs arbitrary: g) (simp_all add: lz_out_putc)

section \<open>One code\<close>

lemma table_rel_learn:
  assumes R: "table_rel g oldcode finchar A" and u: "same_tables g u" and leg: "legit (block_compress g) c"
    and c: "c < a_next A \<and> s = a_str A c \<or> c = a_next A \<and> c < 2 ^ maxbits g \<and> s = a_old A @ [hd (a_old A)]"
    and s: "s \<noteq> []" "\<not> c < a_next A \<Longrightarrow> hd s = hd (a_old A)"
  shows "table_rel (new_entry oldcode (hd s) u) c (hd s) (learn (2 ^ maxbits g) s A)"
proof -
  define n where "n = a_next A"
  have old: "legit (block_compress g) oldcode" "oldcode < n" "a_old A = a_str A oldcode"
    and nx: "free_ent g = n" "maxmaxcode g = 2 ^ maxbits g" "n \<le> 2 ^ maxbits g" "first_free_code (block_compress g) \<le> n"
    and bits: "12 \<le> maxbits g" "maxbits g \<le> 16"
    and char: "\<forall>c < 256. tab_suffix g c = of_nat c \<and> a_str A c = [of_nat c]"
    and ent: "\<And>c. first_free_code (block_compress g) \<le> c \<Longrightarrow> c < n \<Longrightarrow>
        unat (tab_prefix g c) < c \<and> legit (block_compress g) (unat (tab_prefix g c)) \<and>
        a_str A c = a_str A (unat (tab_prefix g c)) @ [tab_suffix g c]"
    using R unfolding table_rel_def n_def by auto
  have n: "256 \<le> n" using nx(4) first_free_code_ge le_trans by blast
  show ?thesis
  proof (cases "n < 2 ^ maxbits g")
    case False
    then show ?thesis using R u c s leg nx
      by (auto simp: new_entry_def learn_def table_rel_def same_tables_def simp flip: n_def)
  next
    case True
    let ?t = "new_entry oldcode (hd s) u" and ?A = "learn (2 ^ maxbits g) s A"
    have t: "tab_prefix ?t = (tab_prefix g)(n := of_nat oldcode)" "tab_suffix ?t = (tab_suffix g)(n := hd s)"
      "free_ent ?t = n + 1" "maxbits ?t = maxbits g" "maxmaxcode ?t = 2 ^ maxbits g" "block_compress ?t = block_compress g"
      using u nx True by (simp_all add: new_entry_def Let_def same_tables_def)
    have A: "a_str ?A = (a_str A)(n := a_old A @ [hd s])" "a_next ?A = n + 1" "a_old ?A = s"
      using True by (simp_all add: learn_def n_def)
    have "(2 :: nat) ^ maxbits g \<le> 2 ^ 16" using bits by (intro power_increasing) simp_all
    then have p: "unat (of_nat oldcode :: u16) = oldcode" using old(2) True by (simp add: unat_of_nat)
    have "unat (tab_prefix ?t c) < c \<and> legit (block_compress g) (unat (tab_prefix ?t c)) \<and>
        a_str ?A c = a_str ?A (unat (tab_prefix ?t c)) @ [tab_suffix ?t c]"
      if "first_free_code (block_compress g) \<le> c" "c < n + 1" for c
    proof (cases "c = n")
      case True
      then show ?thesis using p old by (simp add: t A)
    next
      case False
      then show ?thesis using ent [of c] that by (auto simp: t A)
    qed
    moreover have "s = a_str ?A c" "c < n + 1" using c s by (auto simp: A n_def)
    moreover have "\<forall>c < 256. tab_suffix ?t c = of_nat c \<and> a_str ?A c = [of_nat c]"
      using char n by (simp add: t A)
    ultimately show ?thesis unfolding table_rel_def using bits leg True nx(4) by (simp add: t A)
  qed
qed

lemma emit_code_string:
  assumes R: "table_rel g oldcode finchar A" and known: "known_code (block_compress g) (2 ^ maxbits g) A c"
  shows "\<exists>t. emit_code pblk c oldcode finchar g = Some (hd (code_string A c), t) \<and>
    table_rel t c (hd (code_string A c)) (learn (2 ^ maxbits g) (code_string A c) A) \<and>
    lz_out t = lz_out g @ code_string A c \<and> codes t = codes g \<and> maxbits t = maxbits g \<and>
    block_compress t = block_compress g"
proof -
  define s where "s = code_string A c"
  have old: "legit (block_compress g) oldcode" "oldcode < a_next A" "a_old A = a_str A oldcode" "finchar = hd (a_old A)"
    and nx: "free_ent g = a_next A" "maxmaxcode g = 2 ^ maxbits g" "a_next A \<le> 2 ^ maxbits g"
    and bits: "12 \<le> maxbits g" "maxbits g \<le> 16"
    using R by (simp_all add: table_rel_def)
  have leg: "legit (block_compress g) c" using known by (simp add: known_code_def legit_def)
  have room: "2 ^ maxbits g \<le> stack_room (maxbits g)" by (rule stack_room_big [OF bits])
  have oldstr: "a_old A \<noteq> []" "length (a_old A) + 254 \<le> max 255 oldcode"
    using table_string [OF R old(1,2)] old(3) by simp_all
  have big: "(4096 :: nat) \<le> 2 ^ maxbits g" using power_increasing [OF bits(1), of "2 :: nat"] by simp
  have stack: "(case (if free_ent g \<le> c then (oldcode, [finchar]) else (c, [])) of (code, st) \<Rightarrow> unwind g code st) = Some s"
  proof (cases "c < a_next A")
    case True
    have "length (a_str A c) + 254 \<le> max 255 c" using table_string [OF R leg True] by simp
    then have "length (a_str A c) \<le> stack_room (maxbits g)" using True nx room big by simp
    then show ?thesis using True nx unwind_string [OF R leg True, of "[]"] by (simp add: s_def code_string_def)
  next
    case False
    have "length (a_str A oldcode) + 1 \<le> stack_room (maxbits g)" using oldstr old nx room big by simp
    then show ?thesis using False nx old unwind_string [OF R old(1,2), of "[finchar]"]
      by (simp add: s_def code_string_def)
  qed
  have s: "s \<noteq> []" "\<not> c < a_next A \<Longrightarrow> hd s = hd (a_old A)"
    using table_string [OF R leg] oldstr by (auto simp: s_def code_string_def)
  define u where "u = fold (putc pblk) s g"
  define t where "t = new_entry oldcode (hd s) u"
  have emit: "emit_code pblk c oldcode finchar g = Some (hd s, t)"
    using stack by (auto simp: emit_code_def Let_def t_def u_def split: if_splits)
  have u: "same_tables g u" using puts_step [of g pblk s] by (simp add: u_def output_step_def)
  have "lz_out t = lz_out g @ s" using lz_out_puts [of pblk s g]
    by (simp add: t_def u_def [symmetric] new_entry_def Let_def lz_out_def)
  moreover have "codes t = codes g" "maxbits t = maxbits g" "block_compress t = block_compress g"
    using u by (simp_all add: t_def new_entry_def Let_def same_tables_def)
  moreover have "table_rel t c (hd s) (learn (2 ^ maxbits g) s A)"
    unfolding t_def
  proof (rule table_rel_learn [OF R u leg])
    show "c < a_next A \<and> s = a_str A c \<or> c = a_next A \<and> c < 2 ^ maxbits g \<and> s = a_old A @ [hd (a_old A)]"
      using known by (auto simp: known_code_def s_def code_string_def)
  qed (use s in simp_all)
  ultimately show ?thesis using emit unfolding s_def by blast
qed

section \<open>The main loop\<close>

text \<open>Reading a code changes the table no more than growing the width, and notes the code.\<close>

definition reads :: "lz \<Rightarrow> nat option \<Rightarrow> lz \<Rightarrow> bool" where
  "reads g r t = (maxbits t = maxbits g \<and> maxmaxcode t = maxmaxcode g \<and> tab_suffix t = tab_suffix g \<and>
     tab_prefix t = tab_prefix g \<and> free_ent t = free_ent g \<and> block_compress t = block_compress g \<and>
     outbuf t = outbuf g \<and> written t = written g \<and>
     codes t = codes g @ (case r of None \<Rightarrow> [] | Some c \<Rightarrow> [c]))"

lemma getcode_reads:
  assumes "getcode g = (r, t)"
  shows "reads g r t"
proof (cases "clear_flg g \<or> bits_offset g \<ge> bits_size g \<or> free_ent g > maxcode g")
  case False
  then show ?thesis using assms by (auto simp: getcode_def Let_def reads_def)
next
  case True
  obtain sz u where f: "fill_buf (n_bits (grow_bits g)) 0 (grow_bits g) = (sz, u)" by fastforce
  then have "input_step (grow_bits g) u" using fill_buf_step by blast
  then show ?thesis
    using True assms f
    by (auto simp: getcode_def Let_def reads_def input_step_def same_tables_def grow_bits_fields split: if_splits)
qed

lemma reads_rel: "reads g r t \<Longrightarrow> table_rel t oldcode finchar A = table_rel g oldcode finchar A"
  by (simp add: reads_def table_rel_def)

lemma emit_code_codes: "emit_code pblk c oldcode finchar g = Some (f, t) \<Longrightarrow> codes t = codes g"
  using puts_step [of g pblk]
  by (auto simp: emit_code_def Let_def new_entry_def output_step_def same_tables_def split: if_splits option.splits prod.splits)

text \<open>The state at the end, and that codes are only added to the history.\<close>

fun end_state :: "outcome \<Rightarrow> lz option" where
  "end_state (Done g) = Some g"
| "end_state (Fault g) = Some g"
| "end_state Out_of_fuel = None"

definition kept :: "lz \<Rightarrow> lz \<Rightarrow> bool" where
  "kept g t = ((\<exists>cs. codes t = codes g @ cs) \<and> maxbits t = maxbits g \<and> block_compress t = block_compress g)"

lemma kept_refl [simp]: "kept g g"
  by (simp add: kept_def)

lemma kept_trans: "kept g t \<Longrightarrow> kept t u \<Longrightarrow> kept g u"
  unfolding kept_def by fastforce

lemma kept_reads: "reads g r t \<Longrightarrow> kept g t"
  by (simp add: reads_def kept_def)

lemma kept_clear: "kept g t \<Longrightarrow> kept g (clear_table t)"
  by (simp add: kept_def clear_table_def)

lemma kept_emit: "emit_code pblk c oldcode finchar g = Some (f, t) \<Longrightarrow> kept g t"
  using puts_step [of g pblk]
  by (auto simp: emit_code_def Let_def new_entry_def output_step_def same_tables_def kept_def
      split: if_splits option.splits prod.splits)

lemma lz_loop_kept:
  "end_state (lz_loop pblk fuel oldcode finchar g) = Some t \<Longrightarrow> kept g t"
proof (induction fuel arbitrary: oldcode finchar g)
  case (Suc fuel)
  obtain r u where u: "getcode g = (r, u)" by fastforce
  have gu: "kept g u" by (rule kept_reads [OF getcode_reads [OF u]])
  have emit: "kept v t"
    if "end_state (case emit_code pblk c oldcode finchar v of None \<Rightarrow> Fault v
      | Some (finchar, v) \<Rightarrow> lz_loop pblk fuel c finchar v) = Some t" for c v
  proof (cases "emit_code pblk c oldcode finchar v")
    case (Some fw)
    obtain f w where w: "fw = (f, w)" by fastforce
    then have "end_state (lz_loop pblk fuel c f w) = Some t" using that Some by simp
    from Suc.IH [OF this] kept_emit show ?thesis using Some w kept_trans by blast
  qed (use that in auto)
  have "kept u t"
  proof (cases r)
    case None
    then show ?thesis using Suc.prems u by auto
  next
    case (Some c)
    show ?thesis
    proof (cases "c = CLEAR \<and> block_compress u")
      case False
      then show ?thesis using Suc.prems u Some by (intro emit [where c = c and v = u]) auto
    next
      case True
      obtain r' v where v: "getcode (clear_table u) = (r', v)" by fastforce
      have "kept v t"
      proof (cases r')
        case None
        then show ?thesis using Suc.prems u Some True v by auto
      next
        case (Some d)
        then show ?thesis using Suc.prems u \<open>r = Some c\<close> True v by (intro emit [where c = d and v = v]) auto
      qed
      then show ?thesis using kept_clear [OF kept_refl] kept_reads [OF getcode_reads [OF v]] kept_trans by blast
    qed
  qed
  then show ?case using gu kept_trans by blast
qed simp

lemma lz_loop_codes:
  "end_state (lz_loop pblk fuel oldcode finchar g) = Some t \<Longrightarrow> \<exists>cs. codes t = codes g @ cs"
  using lz_loop_kept kept_def by blast

text \<open>What a run of the loop owes the specification, from state \<open>g\<close> with dictionary \<open>A\<close>.\<close>

definition obeys :: "lz \<Rightarrow> adict \<Rightarrow> outcome \<Rightarrow> bool" where
  "obeys g A r = (\<forall>t. end_state r = Some t \<longrightarrow> (\<exists>cs. codes t = codes g @ cs \<and>
     (\<forall>out. lzw_decode (block_compress g) (2 ^ maxbits g) A cs = Some out \<longrightarrow>
        r = Done t \<and> lz_out t = lz_out g @ out)))"

lemma obeys_bad:
  assumes "\<And>t. end_state r = Some t \<Longrightarrow> \<exists>cs. codes t = codes g @ cs \<and>
      lzw_decode (block_compress g) (2 ^ maxbits g) A cs = None"
  shows "obeys g A r"
  using assms unfolding obeys_def by fastforce

lemma lzw_decode_bad:
  "\<not> known_code blk M A c \<Longrightarrow> \<not> (blk \<and> c = 256) \<Longrightarrow> lzw_decode blk M A (c # cs) = None"
  by (cases cs) auto

lemma obeys_emit:
  assumes R: "table_rel g oldcode finchar A" and c: "\<not> (block_compress g \<and> c = 256)"
    and g: "codes g = codes g0 @ [c]" "lz_out g = lz_out g0" "block_compress g = block_compress g0" "maxbits g = maxbits g0"
    and IH: "\<And>finchar u B. table_rel u c finchar B \<Longrightarrow> obeys u B (lz_loop pblk fuel c finchar u)"
  shows "obeys g0 A (case emit_code pblk c oldcode finchar g of None \<Rightarrow> Fault g
    | Some (finchar, u) \<Rightarrow> lz_loop pblk fuel c finchar u)" (is "obeys g0 A ?r")
proof (cases "known_code (block_compress g) (2 ^ maxbits g) A c")
  case True
  let ?s = "code_string A c"
  obtain u where u: "emit_code pblk c oldcode finchar g = Some (hd ?s, u)"
    "table_rel u c (hd ?s) (learn (2 ^ maxbits g) ?s A)" "lz_out u = lz_out g @ ?s" "codes u = codes g"
    "maxbits u = maxbits g" "block_compress u = block_compress g"
    using emit_code_string [OF R True] by blast
  have "obeys u (learn (2 ^ maxbits g) ?s A) (lz_loop pblk fuel c (hd ?s) u)" by (rule IH [OF u(2)])
  then show ?thesis
    using u g lzw_decode_known [OF True c] unfolding obeys_def by fastforce
next
  case False
  show ?thesis
  proof (rule obeys_bad)
    fix t assume t: "end_state ?r = Some t"
    have "\<exists>cs. codes t = codes g @ cs"
    proof (cases "emit_code pblk c oldcode finchar g")
      case (Some fw)
      obtain f w where "fw = (f, w)" by fastforce
      then show ?thesis
        using t Some lz_loop_codes [of pblk fuel c f w t] emit_code_codes [of pblk c oldcode finchar g f w] by simp
    qed (use t in auto)
    then show "\<exists>cs. codes t = codes g0 @ cs \<and> lzw_decode (block_compress g0) (2 ^ maxbits g0) A cs = None"
      using g lzw_decode_bad [OF False c] by fastforce
  qed
qed

text \<open>The table of single characters, as it is at the start and after a clear code.\<close>

definition char_rel :: "lz \<Rightarrow> bool" where
  "char_rel g = (12 \<le> maxbits g \<and> maxbits g \<le> 16 \<and> maxmaxcode g = 2 ^ maxbits g \<and>
     (\<forall>c < 256. tab_suffix g c = of_nat c))"

lemma table_rel_char: "table_rel g oldcode finchar A \<Longrightarrow> char_rel g"
  by (simp add: table_rel_def char_rel_def)

lemma char_rel_start:
  assumes "char_rel g" "c < 256" "free_ent g = first_free_code (block_compress g)"
  shows "table_rel g c (of_nat c) (adict_start (block_compress g) c)"
proof -
  have "(2 :: nat) ^ 12 \<le> 2 ^ maxbits g" using assms(1) by (intro power_increasing) (simp_all add: char_rel_def)
  then have "first_free_code (block_compress g) \<le> 2 ^ maxbits g" by (simp add: first_free_code_def)
  moreover have "c < first_free_code (block_compress g)" using assms(2) by (simp add: first_free_code_def)
  ultimately show ?thesis using assms by (simp add: table_rel_def char_rel_def adict_start_def legit_def)
qed

lemma emit_after_clear:
  assumes "char_rel g" "block_compress g" "free_ent g = 256" "d < 256"
  shows "\<exists>t. emit_code pblk d oldcode finchar g = Some (of_nat d, t) \<and>
    table_rel t d (of_nat d) (adict_start True d) \<and> lz_out t = lz_out g @ [of_nat d] \<and> codes t = codes g \<and>
    maxbits t = maxbits g \<and> block_compress t"
proof -
  have bits: "12 \<le> maxbits g" "maxbits g \<le> 16" "maxmaxcode g = 2 ^ maxbits g" using assms(1) by (simp_all add: char_rel_def)
  have big: "(4096 :: nat) \<le> 2 ^ maxbits g" using power_increasing [OF bits(1), of "2 :: nat"] by simp
  have "unwind g d [] = Some [of_nat d]"
    using assms stack_room_big [OF bits(1,2)] big by (subst unwind.simps) (simp add: char_rel_def)
  then have emit: "emit_code pblk d oldcode finchar g = Some (of_nat d, new_entry oldcode (of_nat d) (putc pblk (of_nat d) g))"
    using assms(3,4) by (simp add: emit_code_def Let_def)
  define u where "u = putc pblk (of_nat d) g"
  define t where "t = new_entry oldcode (of_nat d) u"
  have u: "same_tables g u" using putc_step [of g pblk "of_nat d"] by (simp add: u_def output_step_def)
  have t: "tab_suffix t = (tab_suffix g)(256 := of_nat d)" "free_ent t = 257" "maxbits t = maxbits g"
    "maxmaxcode t = maxmaxcode g" "block_compress t" "codes t = codes g" "written t = written u" "outbuf t = outbuf u"
    using u assms bits big by (simp_all add: t_def new_entry_def Let_def same_tables_def)
  have "char_rel t" using assms(1) by (simp add: char_rel_def t)
  then have "table_rel t d (of_nat d) (adict_start True d)"
    using char_rel_start [of t d] assms(4) t by (simp add: first_free_code_def)
  moreover have "lz_out t = lz_out g @ [of_nat d]"
    using lz_out_putc [of pblk "of_nat d" g] t by (simp add: lz_out_def u_def)
  ultimately show ?thesis using emit t unfolding t_def u_def by blast
qed

lemma lz_loop_obeys: "table_rel g oldcode finchar A \<Longrightarrow> obeys g A (lz_loop pblk fuel oldcode finchar g)"
proof (induction fuel arbitrary: g oldcode finchar A)
  case 0
  then show ?case by (simp add: obeys_def)
next
  case (Suc fuel)
  obtain r u where u: "getcode g = (r, u)" by fastforce
  have ru: "reads g r u" by (rule getcode_reads [OF u])
  have Ru: "table_rel u oldcode finchar A" using Suc.prems reads_rel [OF ru] by simp
  have eq: "block_compress u = block_compress g" "maxbits u = maxbits g" "lz_out u = lz_out g"
    using ru by (simp_all add: reads_def lz_out_def)
  show ?case
  proof (cases r)
    case None
    then show ?thesis using u ru eq by (auto simp: obeys_def reads_def)
  next
    case (Some c)
    show ?thesis
    proof (cases "c = CLEAR \<and> block_compress u")
      case False
      have "obeys g A (case emit_code pblk c oldcode finchar u of None \<Rightarrow> Fault u
          | Some (finchar, w) \<Rightarrow> lz_loop pblk fuel c finchar w)"
        by (rule obeys_emit [OF Ru]) (use False ru eq Some Suc.IH in \<open>auto simp: reads_def\<close>)
      moreover have "(c = CLEAR \<and> block_compress u) = False" using False by simp
      ultimately show ?thesis using u Some by (simp only: lz_loop.simps prod.case option.case if_False)
    next
      case True
      obtain r' v where v: "getcode (clear_table u) = (r', v)" by fastforce
      have rv: "reads (clear_table u) r' v" by (rule getcode_reads [OF v])
      have v': "block_compress v" "maxbits v = maxbits g" "lz_out v = lz_out g" "free_ent v = 256"
        "codes v = codes g @ [256] @ (case r' of None \<Rightarrow> [] | Some d \<Rightarrow> [d])" "block_compress g"
        using rv ru eq True Some by (simp_all add: reads_def clear_table_def lz_out_def)
      have char: "char_rel v" using table_rel_char [OF Ru] rv by (simp add: char_rel_def reads_def clear_table_def)
      have loop: "lz_loop pblk (Suc fuel) oldcode finchar g = (case r' of None \<Rightarrow> Done v
          | Some d \<Rightarrow> (case emit_code pblk d oldcode finchar v of None \<Rightarrow> Fault v
              | Some (finchar, w) \<Rightarrow> lz_loop pblk fuel d finchar w))"
        using u Some True v by (simp split: option.split)
      show ?thesis
      proof (cases r')
        case None
        then show ?thesis unfolding loop using v' by (auto simp: obeys_def)
      next
        case r': (Some d)
        show ?thesis
        proof (cases "d < 256")
          case True
          obtain w where w: "emit_code pblk d oldcode finchar v = Some (of_nat d, w)"
            "table_rel w d (of_nat d) (adict_start True d)" "lz_out w = lz_out v @ [of_nat d]" "codes w = codes v"
            "maxbits w = maxbits v" "block_compress w"
            using emit_after_clear [OF char v'(1,4) True] by blast
          have "obeys w (adict_start True d) (lz_loop pblk fuel d (of_nat d) w)" by (rule Suc.IH [OF w(2)])
          then show ?thesis unfolding loop using w v' r' True unfolding obeys_def by fastforce
        next
          case False
          show ?thesis
          proof (rule obeys_bad)
            fix t assume t: "end_state (lz_loop pblk (Suc fuel) oldcode finchar g) = Some t"
            have "\<exists>cs. codes t = codes v @ cs"
            proof (cases "emit_code pblk d oldcode finchar v")
              case (Some fw)
              obtain f w where "fw = (f, w)" by fastforce
              then show ?thesis
                using t [unfolded loop r'] Some lz_loop_codes [of pblk fuel d f w t]
                  emit_code_codes [of pblk d oldcode finchar v f w]
                by simp
            qed (use t [unfolded loop r'] in auto)
            then obtain cs where "codes t = codes g @ 256 # d # cs" using v'(5) r' by auto
            then show "\<exists>cs. codes t = codes g @ cs \<and> lzw_decode (block_compress g) (2 ^ maxbits g) A cs = None"
              using False v'(6) by fastforce
          qed
        qed
      qed
    qed
  qed
qed

section \<open>The decompressor\<close>

definition total_bytes :: "byte list option list \<Rightarrow> nat" where
  "total_bytes src = sum_list (map (\<lambda>b. case b of Some x \<Rightarrow> length x | None \<Rightarrow> 0) src)"

text \<open>The state in which the first code is read, when the header is accepted.\<close>

definition after_header ::
  "(nat \<Rightarrow> u16) \<Rightarrow> (nat \<Rightarrow> byte) \<Rightarrow> byte list option list \<Rightarrow> nat \<Rightarrow> lz" where
  "after_header jp js src insize =
    (let (m0, g) = getc (init_lz jp js src insize); (m1, g) = getc g; (b, g) = getc g
     in init_tables (alloctables (set_maxbits b g)))"

lemma after_header_facts:
  fixes jp js src insize
  defines "g \<equiv> after_header jp js src insize"
  shows "12 \<le> maxbits g" "maxmaxcode g = 2 ^ maxbits g" "\<forall>c < 256. tab_suffix g c = of_nat c"
    "free_ent g = first_free_code (block_compress g)" "codes g = []" "lz_out g = []" "n_bits g = 9"
    "pending g \<le> 8 * total_bytes src"
proof -
  obtain m0 g0 m1 g1 b g2 where s: "getc (init_lz jp js src insize) = (m0, g0)" "getc g0 = (m1, g1)" "getc g1 = (b, g2)"
    by fastforce
  have g: "g = init_tables (alloctables (set_maxbits b g2))" by (simp add: g_def after_header_def s)
  have i: "input_step (init_lz jp js src insize) g2"
    using getc_step(1) [OF s(1)] getc_step(1) [OF s(2)] getc_step(1) [OF s(3)] input_step_trans by blast
  have "avail (init_lz jp js src insize) = total_bytes src" by (simp add: avail_def init_lz_def total_bytes_def)
  then have a: "avail g2 \<le> total_bytes src"
    using getc_step(3) [OF s(1)] getc_step(3) [OF s(2)] getc_step(3) [OF s(3)] by simp
  show "12 \<le> maxbits g" "maxmaxcode g = 2 ^ maxbits g" "\<forall>c < 256. tab_suffix g c = of_nat c"
    "free_ent g = first_free_code (block_compress g)" "codes g = []" "lz_out g = []" "n_bits g = 9"
    using i by (simp_all add: g init_tables_def alloctables_def set_maxbits_def Let_def first_free_code_def lz_out_def
        input_step_def same_tables_def init_lz_def)
  show "pending g \<le> 8 * total_bytes src"
    using a i by (simp add: g pending_def avail_def init_tables_def alloctables_def set_maxbits_def Let_def
        input_step_def same_tables_def init_lz_def)
qed

lemma decompress_cases:
  assumes "decompress pblk jp js src insize fuel = Some r"
  obtains c g where "getcode (after_header jp js src insize) = (Some c, g)" "maxbits (after_header jp js src insize) \<le> 16"
    and "r = (case lz_loop pblk fuel c (of_nat c) (putc pblk (of_nat c) g) of Done t \<Rightarrow> Done (flushout pblk t) | x \<Rightarrow> x)"
proof -
  obtain m0 g0 m1 g1 b g2 where s: "getc (init_lz jp js src insize) = (m0, g0)" "getc g0 = (m1, g1)" "getc g1 = (b, g2)"
    by fastforce
  obtain r' g3 where g3: "getcode (init_tables (alloctables (set_maxbits b g2))) = (r', g3)" by fastforce
  have h: "after_header jp js src insize = init_tables (alloctables (set_maxbits b g2))"
    by (simp add: after_header_def s)
  have m: "maxbits (init_tables (alloctables (set_maxbits b g2))) = maxbits (set_maxbits b g2)"
    by (simp add: init_tables_def alloctables_def)
  show ?thesis
    using assms s g3 h m that by (auto simp: decompress_def Let_def split: if_splits option.splits outcome.splits)
qed

lemma putc_reads: "table_rel (putc pblk c g) oldcode finchar A = table_rel g oldcode finchar A"
  using putc_step [of g pblk c] by (simp add: table_rel_def output_step_def same_tables_def)

text \<open>
  C20. The decompressor terminates: whatever bytes the input has, in whatever blocks, with as many rounds of
  the main loop as there are bits in the input it has returned or left its tables, since every code
  takes bits out of the input that are never put back.
\<close>

theorem lzw_terminates:
  assumes "8 * total_bytes src \<le> fuel"
  shows "decompress pblk jp js src insize fuel \<noteq> Some Out_of_fuel"
proof
  assume "decompress pblk jp js src insize fuel = Some Out_of_fuel"
  then obtain c g where g: "getcode (after_header jp js src insize) = (Some c, g)"
    and l: "lz_loop pblk fuel c (of_nat c) (putc pblk (of_nat c) g) = Out_of_fuel"
    by (auto elim!: decompress_cases split: outcome.splits)
  have "pending g < pending (after_header jp js src insize)" "0 < n_bits g"
    using getcode_some [OF g] by (simp_all add: after_header_facts(7))
  then have "pending (putc pblk (of_nat c) g) < fuel" "0 < n_bits (putc pblk (of_nat c) g)"
    using after_header_facts(8) [of jp js src insize] output_step_pending [OF putc_step [of g pblk "of_nat c"]] assms by simp_all
  then show False using lz_loop_fuel l by blast
qed

theorem lzw_terminates_witness:
  "decompress (\<lambda>_ b. int (length b)) (\<lambda>_. 7) (\<lambda>_. 9) [Some [0x1F, 0x9D, 0x8C, 1, 2], None, Some [3]] 100 48 \<noteq> Some Out_of_fuel"
  by (rule lzw_terminates) (simp add: total_bytes_def)

text \<open>
  C3. The decompressor undoes compression: when the codes read from the input are those that
  the greedy LZW compressor sends for a string, for the number of bits and the kind of table in the header, the
  run ends without leaving its tables or its stack, and exactly that string has been written to
  the output callback, whatever the memory of the tables held before and however the input came in blocks.
\<close>

theorem lzw_round_trip:
  assumes "decompress pblk jp js src insize fuel = Some r" "end_state r = Some t" "xs \<noteq> []"
    and "codes t = lzw_encode (block_compress t) (2 ^ maxbits t) xs"
  shows "r = Done t \<and> concat (written t) = xs \<and> outbuf t = []"
proof -
  let ?h = "after_header jp js src insize"
  obtain c g where g: "getcode ?h = (Some c, g)" and m: "maxbits ?h \<le> 16"
    and r: "r = (case lz_loop pblk fuel c (of_nat c) (putc pblk (of_nat c) g) of Done t \<Rightarrow> Done (flushout pblk t) | x \<Rightarrow> x)"
    using assms(1) by (rule decompress_cases)
  define p where "p = putc pblk (of_nat c) g"
  define l where "l = lz_loop pblk fuel c (of_nat c) p"
  obtain u where u: "end_state l = Some u" "codes t = codes u" "kept u t"
    using assms(2) r unfolding l_def p_def [symmetric]
    by (cases "lz_loop pblk fuel c (of_nat c) p") (auto simp: kept_def flushout_def)
  have rg: "reads ?h (Some c) g" by (rule getcode_reads [OF g])
  have p: "codes p = [c]" "lz_out p = [of_nat c]" "block_compress p = block_compress ?h" "maxbits p = maxbits ?h" "char_rel p"
    "free_ent p = first_free_code (block_compress p)"
    using rg m putc_step [of g pblk "of_nat c"] lz_out_putc [of pblk "of_nat c" g] after_header_facts [of jp js src insize]
    by (simp_all add: p_def reads_def output_step_def same_tables_def char_rel_def lz_out_def)
  have kept: "kept p t" using lz_loop_kept u(1,3) kept_trans unfolding l_def by blast
  then have t: "block_compress t = block_compress p" "maxbits t = maxbits p" by (simp_all add: kept_def)
  obtain cs where cs: "codes u = c # cs" using lz_loop_codes [OF u(1) [unfolded l_def]] p(1) by auto
  have "(2 :: nat) ^ 12 \<le> 2 ^ maxbits p" using p(5) by (intro power_increasing) (simp_all add: char_rel_def)
  then have "lzw_decode_all (block_compress p) (2 ^ maxbits p) (c # cs) = Some xs"
    using lzw_encode_decode [of "2 ^ maxbits p" xs] assms(3,4) u(2) cs t by simp
  then obtain out where c: "c < 256" and dec: "lzw_decode (block_compress p) (2 ^ maxbits p) (adict_start (block_compress p) c) cs = Some out"
    and xs: "xs = of_nat c # out"
    by (auto split: if_splits)
  have "obeys p (adict_start (block_compress p) c) l"
    unfolding l_def by (rule lz_loop_obeys [OF char_rel_start [OF p(5) c p(6)]])
  then have "l = Done u" "lz_out u = lz_out p @ out" using u(1) cs p(1) dec unfolding obeys_def by auto
  then have "r = Done (flushout pblk u)" "lz_out (flushout pblk u) = xs"
    using r p(2) xs by (simp_all add: l_def p_def)
  moreover from this have "t = flushout pblk u" using assms(2) by simp
  ultimately show ?thesis by (simp add: lz_out_def flushout_def split: if_splits)
qed

section \<open>Runs\<close>

text \<open>Rules that evaluate a run on a concrete input, and two runs.\<close>

lemma fill_buf_numeral: "fill_buf (numeral v) sz g =
    (case getc g of
       (None, g) \<Rightarrow> (sz, g)
     | (Some c, g) \<Rightarrow> fill_buf (pred_numeral v) (Suc sz) (g\<lparr> bits_buf := (bits_buf g)[sz := c] \<rparr>))"
  by (simp add: numeral_eq_Suc)

lemma list_update_numeral: "(x # xs)[numeral v := y] = x # xs[pred_numeral v := y]"
  by (simp add: numeral_eq_Suc)

lemma replicate_numeral: "replicate (numeral v) x = x # replicate (pred_numeral v) x"
  by (simp add: numeral_eq_Suc)

lemma emit_known: "incode < free_ent g \<Longrightarrow> emit_code pblk incode oldcode finchar g = (case unwind g incode [] of
          None \<Rightarrow> None
        | Some stack \<Rightarrow> Some (hd stack, new_entry oldcode (hd stack) (fold (putc pblk) stack g)))"
  by (simp add: emit_code_def Let_def split: option.split)

lemma emit_new: "incode \<ge> free_ent g \<Longrightarrow> emit_code pblk incode oldcode finchar g = (case unwind g oldcode [finchar] of
          None \<Rightarrow> None
        | Some stack \<Rightarrow> Some (hd stack, new_entry oldcode (hd stack) (fold (putc pblk) stack g)))"
  by (simp add: emit_code_def Let_def split: option.split)

lemma unwind_char: "length stack < stack_room (maxbits g) \<Longrightarrow> code < 2 ^ maxbits g \<Longrightarrow> code < 256 \<Longrightarrow>
   unwind g code stack = Some (tab_suffix g code # stack)"
  by (subst unwind.simps) simp

lemma unwind_prefix: "length stack < stack_room (maxbits g) \<Longrightarrow> code < 2 ^ maxbits g \<Longrightarrow> 256 \<le> code \<Longrightarrow>
   unwind g code stack = unwind g (unat (tab_prefix g code)) (tab_suffix g code # stack)"
  by (subst unwind.simps) simp

lemmas lz_eval = init_lz_def getc_def fillinbuf_def set_maxbits_def alloctables_def init_tables_def getcode_def grow_bits_def
  code_at_def buf_byte_def rmask_def MAXCODE_def emit_known emit_new unwind_char unwind_prefix putc_def flushout_def new_entry_def
  stack_room_def hsize_def Let_def fill_buf_numeral list_update_numeral replicate_numeral

definition demo_src :: "byte list option list" where
  "demo_src = [Some [0x1F, 0x9D, 0x8C, 97, 196], Some [4, 28, 8]]"

lemma demo_run:
  "\<exists>t. decompress (\<lambda>_ b. int (length b)) (\<lambda>_. 7) (\<lambda>_. 9) demo_src 2000 (Suc (Suc (Suc (Suc (Suc 0))))) = Some (Done t) \<and>
    codes t = [97, 98, 257, 259] \<and> maxbits t = 12 \<and> block_compress t"
  by (simp add: decompress_def demo_src_def lz_eval
      cong: prod.case_cong_weak option.case_cong_weak list.case_cong_weak if_weak_cong)

theorem lzw_round_trip_witness:
  "\<exists>t. decompress (\<lambda>_ b. int (length b)) (\<lambda>_. 7) (\<lambda>_. 9) demo_src 2000 (Suc (Suc (Suc (Suc (Suc 0))))) = Some (Done t) \<and>
    concat (written t) = [97, 98, 97, 98, 97, 98, 97]"
proof -
  obtain t where t: "decompress (\<lambda>_ b. int (length b)) (\<lambda>_. 7) (\<lambda>_. 9) demo_src 2000 (Suc (Suc (Suc (Suc (Suc 0))))) = Some (Done t)"
    "codes t = [97, 98, 257, 259]" "maxbits t = 12" "block_compress t"
    using demo_run by blast
  have "codes t = lzw_encode (block_compress t) (2 ^ maxbits t) [97, 98, 97, 98, 97, 98, 97]"
    by (simp add: t char_table_def first_free_code_def)
  then show ?thesis using lzw_round_trip [OF t(1), of t "[97, 98, 97, 98, 97, 98, 97]"] t(1) by simp
qed

text \<open>
  A damaged input: codes that are not in the table yet are not refused. The second and third code here
  are past the next free one, and the output has a byte \<open>j\<close> of the memory the table was allocated
  in; the result is success.
\<close>

lemma lzw_bad_code:
  "\<exists>t. decompress (\<lambda>_ b. int (length b)) (\<lambda>_. 7) (\<lambda>_. j) [Some [0x1F, 0x9D, 0x8C, 97, 88, 182, 4]] 2000
      (Suc (Suc (Suc (Suc 0)))) = Some (Done t) \<and>
    codes t = [97, 300, 301] \<and> concat (written t) = [97, 97, 97, 7, j, 97] \<and> resultflag t"
  by (simp add: decompress_def lz_eval
      cong: prod.case_cong_weak option.case_cong_weak list.case_cong_weak if_weak_cong)

text \<open>
  C34. The shifts and masks of \<open>getcode\<close> read a code as a number: with the input bytes lowest first, the
  code at bit offset \<open>off\<close> is the \<open>nb\<close> bits of the buffer from there, for every width from 9 to 16 bits.
\<close>

theorem getcode_bits:
  assumes "length buf = 16" "9 \<le> nb" "nb \<le> 16"
  shows "code_at buf off nb = le_value buf div 2 ^ off mod 2 ^ nb"
  using assms by (rule code_at_bits)

theorem getcode_bits_witness:
  "code_at [97, 196, 4, 28, 8, 0, 0, 0, 0, 0, 0, 0, 0, 0, 0, 0] 9 9 =
    le_value [97, 196, 4, 28, 8, 0, 0, 0, 0, 0, 0, 0, 0, 0, 0, 0] div 2 ^ 9 mod 2 ^ 9"
  by (rule getcode_bits) simp_all

end
