(* ===== verification/Floppy_Mfm.thy ===== *)
theory Floppy_Mfm
  imports Amix_Prelude
begin

text \<open>
  The codec of \<open>floppy/flopf.c\<close>: floppy tracks in the format of Amiga DOS. A track is written as a gap of
  encoded zeros and eleven sectors; each sector starts with a synchronizing key that is no legal MFM, and its header
  and data follow as blocks of odd bits and of even bits with clock bits between them. Reading
  starts anywhere on the track and at any bit, so the key is searched for at all sixteen shifts.

  The static variables of the file are the record \<open>fl\<close>. \<open>chip\<close> is the memory of the custom chips in \<open>ushort\<close>s,
  index 0 being \<open>trkbuf\<close>; \<open>mfmbuf\<close> and \<open>mfmlim\<close> are indices into it. \<open>umem\<close> is the memory
  of the track in the buffer cache in \<open>ulong\<close>s, index 0 being the pointer passed to \<open>fdgetaml\<close> or
  \<open>fdputaml\<close>. Both are total functions: an access outside a buffer hits its neighbour, as in C, and the bounds are
  theorems. The assertions are compiled out (\<open>-DNODEBUG\<close> in the \<open>Makefile\<close>).

  A shift of a \<open>ulong\<close> by 32, which \<open>BPL-shift\<close> is for \<open>shift\<close> 0, is undefined in C; on the 68020 it gives 0, as
  \<open>drop_bit\<close> does.
\<close>

section \<open>Layout\<close>

abbreviation (input) BPL :: nat where "BPL \<equiv> 32"
abbreviation (input) TRACKS :: nat where "TRACKS \<equiv> 160"
abbreviation (input) TRKUSED :: nat where "TRKUSED \<equiv> 11968"
abbreviation (input) TRKSLOP :: nat where "TRKSLOP \<equiv> 1660"
abbreviation (input) NSEC :: nat where "NSEC \<equiv> 11"
abbreviation (input) FLBPSEC :: nat where "FLBPSEC \<equiv> 512"

definition DMASK :: u32 where "DMASK = 0x55555555"

definition SECOK :: byte where "SECOK = 0xFF"

text \<open>Sizes in bytes of the members of \<open>mfmsec\<close> and of the whole.\<close>

abbreviation (input) mfmsec_magic :: nat where "mfmsec_magic \<equiv> 8"
abbreviation (input) mfmsec_id :: nat where "mfmsec_id \<equiv> 8"
abbreviation (input) mfmsec_label :: nat where "mfmsec_label \<equiv> 32"
abbreviation (input) mfmsec_hdrchk :: nat where "mfmsec_hdrchk \<equiv> 8"
abbreviation (input) mfmsec_datachk :: nat where "mfmsec_datachk \<equiv> 8"
abbreviation (input) mfmsec_data :: nat where "mfmsec_data \<equiv> 1024"
abbreviation (input) sizeof_mfmsec :: nat where "sizeof_mfmsec \<equiv> 1088"

definition TRKRLEN :: nat where "TRKRLEN = TRKUSED + TRKSLOP + sizeof_mfmsec"
definition TRKWLEN :: nat where "TRKWLEN = TRKUSED + TRKSLOP + 2"
definition TRKBLEN :: nat where "TRKBLEN = TRKRLEN + 16"
definition CHKLEN :: nat where "CHKLEN = 2 * sizeof_mfmsec + TRKSLOP"

section \<open>State\<close>

type_synonym chip_mem = "nat \<Rightarrow> u16"
type_synonym long_mem = "nat \<Rightarrow> u32"

text \<open>The sector header; \<open>h_label\<close> is the label as the four \<open>ulong\<close>s the code reads and writes.\<close>

record sechdr =
  h_magic :: byte
  h_trk :: byte
  h_sec :: byte
  h_ord :: byte
  h_label :: "u32 list"
  h_hdrchk :: u32
  h_datachk :: u32

record fl =
  chip :: chip_mem
  umem :: long_mem
  drive :: u32
  track :: u32
  buffer :: nat
  mfmbuf :: nat
  mfmlim :: nat
  shift :: nat
  hdr :: sechdr

text \<open>The first \<open>ulong\<close> of the header is its first four members.\<close>

definition hdr_id :: "sechdr \<Rightarrow> u32" where
  "hdr_id h = push_bit 24 (ucast (h_magic h)) OR push_bit 16 (ucast (h_trk h)) OR
     push_bit 8 (ucast (h_sec h)) OR ucast (h_ord h)"

definition set_hdr_id :: "u32 \<Rightarrow> sechdr \<Rightarrow> sechdr" where
  "set_hdr_id w h = h\<lparr> h_magic := ucast (drop_bit 24 w), h_trk := ucast (drop_bit 16 w),
     h_sec := ucast (drop_bit 8 w), h_ord := ucast w \<rparr>"

lemma hdr_id_set [simp]: "hdr_id (set_hdr_id w h) = w"
proof (rule bit_word_eqI)
  fix n assume "n < LENGTH(32)"
  then consider "n < 8" | "8 \<le> n" "n < 16" | "16 \<le> n" "n < 24" | "24 \<le> n" "n < 32" by fastforce
  then show "bit (hdr_id (set_hdr_id w h)) n = bit w n"
    by cases (auto simp: hdr_id_def set_hdr_id_def bit_simps)
qed

lemma set_hdr_id_id [simp]: "set_hdr_id (hdr_id h) h' =
    h'\<lparr> h_magic := h_magic h, h_trk := h_trk h, h_sec := h_sec h, h_ord := h_ord h \<rparr>"
  unfolding hdr_id_def set_hdr_id_def
  by (rule sechdr.equality; simp; rule bit_eqI; auto simp: bit_simps dest: bit_imp_le_length)

section \<open>Memory\<close>

definition ulong_at :: "chip_mem \<Rightarrow> nat \<Rightarrow> u32" where
  "ulong_at c i = push_bit 16 (ucast (c i)) OR ucast (c (i + 1))"

definition put_ulong :: "nat \<Rightarrow> u32 \<Rightarrow> chip_mem \<Rightarrow> chip_mem" where
  "put_ulong i w c = c(i := ucast (drop_bit 16 w), i + 1 := ucast w)"

definition longs :: "long_mem \<Rightarrow> nat \<Rightarrow> nat \<Rightarrow> u32 list" where
  "longs m p n = map (\<lambda>i. m (p + i)) [0..<n]"

definition store_longs :: "nat \<Rightarrow> u32 list \<Rightarrow> long_mem \<Rightarrow> long_mem" where
  "store_longs p xs m = (\<lambda>i. if p \<le> i \<and> i < p + length xs then xs ! (i - p) else m i)"

section \<open>MFM\<close>

text \<open>\<open>p[0] << shift | p[1] >> BPL-shift\<close> for a pointer to \<open>ulong\<close>s at index \<open>i\<close>.\<close>

definition unshift :: "nat \<Rightarrow> chip_mem \<Rightarrow> nat \<Rightarrow> u32" where
  "unshift sh c i = push_bit sh (ulong_at c i) OR drop_bit (BPL - sh) (ulong_at c (i + 2))"

fun demfm_loop :: "nat \<Rightarrow> chip_mem \<Rightarrow> nat \<Rightarrow> nat \<Rightarrow> nat \<Rightarrow> u32 list" where
  "demfm_loop sh c po pe 0 = []"
| "demfm_loop sh c po pe (Suc n) =
    (push_bit 1 (unshift sh c po AND DMASK) OR (unshift sh c pe AND DMASK)) #
    demfm_loop sh c (po + 2) (pe + 2) n"

definition demfm :: "nat \<Rightarrow> fl \<Rightarrow> u32 list \<times> fl" where
  "demfm len s =
    (let po = mfmbuf s; n = len div 8
     in (demfm_loop (shift s) (chip s) po (po + 2 * n) n, s\<lparr> mfmbuf := mfmbuf s + len div 2 \<rparr>))"

text \<open>One word of data bits \<open>d\<close> with its clock bits, after the word \<open>before\<close>.\<close>

definition mfm_word :: "u32 \<Rightarrow> u32 \<Rightarrow> u32" where
  "mfm_word d before =
    (let n = d OR NOT (push_bit 1 d OR drop_bit 1 d OR DMASK)
     in if bit n 31 \<and> bit before 0 then n AND NOT (push_bit 31 1) else n)"

fun mfm_loop :: "nat \<Rightarrow> nat \<Rightarrow> u32 list \<Rightarrow> chip_mem \<Rightarrow> chip_mem" where
  "mfm_loop po pe [] c = c"
| "mfm_loop po pe (x # xs) c =
    (let c = put_ulong po (mfm_word (drop_bit 1 x AND DMASK) (ulong_at c (po - 2))) c;
         c = put_ulong pe (mfm_word (x AND DMASK) (ulong_at c (pe - 2))) c
     in mfm_loop (po + 2) (pe + 2) xs c)"

text \<open>
  The first even word is encoded before the last odd word is there, so its first clock bit is set again at the end;
  \<open>p\<close> is the pointer \<open>odd\<close> after the loop.
\<close>

definition mfm_fix :: "nat \<Rightarrow> chip_mem \<Rightarrow> chip_mem" where
  "mfm_fix p c =
    (let n = ulong_at c p
     in if \<not> bit n 30 then
          put_ulong p (if bit (ulong_at c (p - 2)) 0 then n AND NOT (push_bit 31 1) else n OR push_bit 31 1) c
        else c)"

definition mfm :: "u32 list \<Rightarrow> fl \<Rightarrow> fl" where
  "mfm xs s =
    (let po = mfmbuf s; pe = po + 2 * length xs
     in s\<lparr> mfmbuf := mfmbuf s + 4 * length xs, chip := mfm_fix pe (mfm_loop po pe xs (chip s)) \<rparr>)"

definition chksum :: "u32 list \<Rightarrow> u32" where
  "chksum xs = (let res = fold (\<lambda>x res. res XOR x) xs 0
     in (drop_bit 1 res AND 0x55555555) XOR (res AND 0x55555555))"

section \<open>Finding a sector\<close>

record bittab =
  word0 :: u16
  word1 :: u16
  word2 :: u16
  w2mask :: u16
  bt_shift :: nat

definition even_tab :: "bittab list" where
  "even_tab =
    [\<lparr> word0 = 0x4489, word1 = 0x4489, word2 = 0x0000, w2mask = 0x0000, bt_shift = 0 \<rparr>,
     \<lparr> word0 = 0xA448, word1 = 0x9448, word2 = 0x9000, w2mask = 0xF000, bt_shift = 4 \<rparr>,
     \<lparr> word0 = 0xAA44, word1 = 0x8944, word2 = 0x8900, w2mask = 0xFF00, bt_shift = 8 \<rparr>,
     \<lparr> word0 = 0xAAA4, word1 = 0x4894, word2 = 0x4890, w2mask = 0xFFF0, bt_shift = 12 \<rparr>,
     \<lparr> word0 = 0x9122, word1 = 0x5122, word2 = 0x4000, w2mask = 0xC000, bt_shift = 2 \<rparr>,
     \<lparr> word0 = 0xA912, word1 = 0x2512, word2 = 0x2400, w2mask = 0xFC00, bt_shift = 6 \<rparr>,
     \<lparr> word0 = 0xAA91, word1 = 0x2251, word2 = 0x2240, w2mask = 0xFFC0, bt_shift = 10 \<rparr>,
     \<lparr> word0 = 0xAAA9, word1 = 0x1225, word2 = 0x1224, w2mask = 0xFFFC, bt_shift = 14 \<rparr>]"

definition odd_tab :: "bittab list" where
  "odd_tab =
    [\<lparr> word0 = 0x4891, word1 = 0x2891, word2 = 0x2000, w2mask = 0xE000, bt_shift = 3 \<rparr>,
     \<lparr> word0 = 0x5489, word1 = 0x1289, word2 = 0x1200, w2mask = 0xFE00, bt_shift = 7 \<rparr>,
     \<lparr> word0 = 0x5548, word1 = 0x9128, word2 = 0x9120, w2mask = 0xFFE0, bt_shift = 11 \<rparr>,
     \<lparr> word0 = 0x5554, word1 = 0x8912, word2 = 0x8912, w2mask = 0xFFFE, bt_shift = 15 \<rparr>,
     \<lparr> word0 = 0x2244, word1 = 0xA244, word2 = 0x8000, w2mask = 0x8000, bt_shift = 1 \<rparr>,
     \<lparr> word0 = 0x5224, word1 = 0x4A24, word2 = 0x4800, w2mask = 0xF800, bt_shift = 5 \<rparr>,
     \<lparr> word0 = 0x5522, word1 = 0x44A2, word2 = 0x4480, w2mask = 0xFF80, bt_shift = 9 \<rparr>,
     \<lparr> word0 = 0x5552, word1 = 0x244A, word2 = 0x2448, w2mask = 0xFFF8, bt_shift = 13 \<rparr>]"

text \<open>The inner loop: past the words equal to \<open>w\<close>; nothing when the buffer ends.\<close>

function skip_run :: "chip_mem \<Rightarrow> u16 \<Rightarrow> nat \<Rightarrow> nat \<Rightarrow> nat option" where
  "skip_run c w fwa lim =
    (if fwa + 2 \<ge> lim then None else if c fwa \<noteq> w then Some fwa else skip_run c w (fwa + 1) lim)"
  by pat_completeness auto
termination
  by (relation "measure (\<lambda>(c, w, fwa, lim). lim - fwa)") auto

definition tab_match :: "chip_mem \<Rightarrow> nat \<Rightarrow> bittab \<Rightarrow> bool" where
  "tab_match c fwa t \<longleftrightarrow> c fwa = word0 t \<and> c (fwa + 1) = word1 t \<and> c (fwa + 2) AND w2mask t = word2 t"

lemma skip_run_le: "skip_run c w fwa lim = Some k \<Longrightarrow> fwa \<le> k \<and> k + 2 < lim"
proof (induction c w fwa lim rule: skip_run.induct)
  case (1 c w fwa lim)
  then show ?case by (subst (asm) (2) skip_run.simps) (auto split: if_splits)
qed

declare skip_run.simps [simp del]

text \<open>
  The outer loop. It ends when \<open>fwa\<close> meets \<open>mfmlim\<close>; \<open>fwa\<close> never passes it, since it
  starts at or below it and a run ends two words before it.
\<close>

function find_loop :: "chip_mem \<Rightarrow> nat \<Rightarrow> nat \<Rightarrow> (nat \<times> nat) option" where
  "find_loop c fwa lim =
    (if fwa < lim then
       let w = c fwa; fwa = fwa + 1
       in case (if w = 0xAAAA then Some even_tab else if w = 0x5555 then Some odd_tab else None) of
            None \<Rightarrow> find_loop c fwa lim
          | Some tp \<Rightarrow>
              (case skip_run c w fwa lim of
                 None \<Rightarrow> None
               | Some fwa \<Rightarrow>
                   (case List.find (tab_match c fwa) tp of
                      Some t \<Rightarrow> Some (fwa - 2, bt_shift t)
                    | None \<Rightarrow> find_loop c fwa lim))
     else None)"
  by pat_completeness auto
termination
  by (relation "measure (\<lambda>(c, fwa, lim). lim - fwa)") (auto dest: skip_run_le)

declare find_loop.simps [simp del]

definition find :: "fl \<Rightarrow> bool \<times> fl" where
  "find s =
    (if mfmbuf s = mfmlim s then (False, s)
     else case find_loop (chip s) (mfmbuf s + 1) (mfmlim s) of
            None \<Rightarrow> (False, s)
          | Some (i, sh) \<Rightarrow> (True, s\<lparr> mfmbuf := i, shift := sh \<rparr>))"

section \<open>Reading a sector header\<close>

definition hdr_fields :: "fl \<Rightarrow> fl" where
  "hdr_fields s =
    (let (ids, s) = demfm mfmsec_id s; s = s\<lparr> hdr := set_hdr_id (hd ids) (hdr s) \<rparr>;
         (lab, s) = demfm mfmsec_label s; s = s\<lparr> hdr := (hdr s)\<lparr> h_label := lab \<rparr> \<rparr>;
         (hc, s) = demfm mfmsec_hdrchk s; s = s\<lparr> hdr := (hdr s)\<lparr> h_hdrchk := hd hc \<rparr> \<rparr>;
         (dc, s) = demfm mfmsec_datachk s; s = s\<lparr> hdr := (hdr s)\<lparr> h_datachk := hd dc \<rparr> \<rparr>
     in s)"

text \<open>
  \<open>hdr.ord-1 >= NSEC\<close> is computed in \<open>int\<close>: an \<open>unsigned char\<close> is promoted, so 0 gives -1 and passes.
\<close>

definition gethdr :: "fl \<Rightarrow> bool \<times> fl" where
  "gethdr s =
    (if mfmbuf s + sizeof_mfmsec div 2 + 1 > mfmlim s then (False, s)
     else if unshift (shift s) (chip s) (mfmbuf s) AND NOT (push_bit 31 1) \<noteq> 0x2AAAAAAA then (False, s)
     else if unshift (shift s) (chip s) (mfmbuf s + 2) \<noteq> 0x44894489 then (False, s)
     else
       let s = hdr_fields (s\<lparr> mfmbuf := mfmbuf s + mfmsec_magic div 2 \<rparr>); h = hdr s
       in if h_magic h \<noteq> SECOK \<or> unat (h_trk h) \<ge> TRACKS \<or> unat (h_sec h) \<ge> NSEC \<or> int (unat (h_ord h)) - 1 \<ge> int NSEC
          then (False, s)
          else if h_hdrchk h \<noteq> chksum (hdr_id h # h_label h) then (False, s)
          else if ucast (h_trk h) \<noteq> track s then (False, s)
          else (True, s))"

section \<open>Writing a sector\<close>

fun slop_loop :: "nat \<Rightarrow> nat \<Rightarrow> chip_mem \<Rightarrow> chip_mem" where
  "slop_loop p 0 c = c"
| "slop_loop p (Suc n) c = slop_loop (p + 2) n (put_ulong p 0xAAAAAAAA c)"

definition putslop :: "fl \<Rightarrow> fl" where
  "putslop s = s\<lparr> chip := slop_loop (mfmbuf s) (TRKSLOP div 4) (chip s), mfmbuf := mfmbuf s + TRKSLOP div 2 \<rparr>"

definition putmagic :: "fl \<Rightarrow> fl" where
  "putmagic s =
    (let p = mfmbuf s; c = chip s;
         c = c(p := if bit (c (p - 1)) 0 then 0x2AAA else 0xAAAA);
         c = c(p + 1 := 0xAAAA);
         c = c(p + 2 := 0x4489);
         c = c(p + 3 := 0x4489)
     in s\<lparr> chip := c, mfmbuf := p + mfmsec_magic div 2 \<rparr>)"

definition putsec :: "nat \<Rightarrow> fl \<Rightarrow> fl" where
  "putsec sec s =
    (let s = putmagic s;
         h = \<lparr> h_magic = SECOK, h_trk = ucast (track s), h_sec = of_nat sec, h_ord = of_nat (NSEC - sec),
               h_label = replicate 4 0, h_hdrchk = h_hdrchk (hdr s), h_datachk = h_datachk (hdr s) \<rparr>;
         h = h\<lparr> h_hdrchk := chksum (hdr_id h # h_label h) \<rparr>;
         block = longs (umem s) (buffer s) (FLBPSEC div 4);
         h = h\<lparr> h_datachk := chksum block \<rparr>;
         s = s\<lparr> hdr := h \<rparr>;
         s = mfm [hdr_id h] s;
         s = mfm (h_label h) s;
         s = mfm [h_hdrchk h] s;
         s = mfm [h_datachk h] s;
         s = mfm block s
     in s\<lparr> buffer := buffer s + FLBPSEC div 4 \<rparr>)"

fun put_sectors :: "nat \<Rightarrow> nat \<Rightarrow> fl \<Rightarrow> fl" where
  "put_sectors n 0 s = s"
| "put_sectors n (Suc k) s = put_sectors (n + 1) k (putsec n s)"

text \<open>The part of \<open>fdputaml\<close> that encodes the track.\<close>

definition encode_track :: "fl \<Rightarrow> fl" where
  "encode_track s =
    (let s = s\<lparr> buffer := 0, mfmbuf := 0, mfmlim := TRKWLEN div 2 \<rparr>;
         s = putslop s;
         s = put_sectors 0 NSEC s;
         c = chip s
     in s\<lparr> chip := c(mfmbuf s := if bit (c (mfmbuf s - 1)) 0 then 0x2AA8 else 0xAAA8), mfmbuf := mfmbuf s + 1 \<rparr>)"

section \<open>Reading a track\<close>

text \<open>
  The step of \<open>get\<close> to the next sector, with the number \<open>n\<close> of the sector just read: past the last one written, the key has
  to be found again. The sector must be the one expected.
\<close>

definition next_hdr :: "nat \<Rightarrow> u32 \<Rightarrow> fl \<Rightarrow> bool \<times> u32 \<times> fl" where
  "next_hdr sec n s =
    (let n = n - 1;
         (ok, n, s) = (if n = 0 then let (ok, s) = find s in (ok, of_nat NSEC, s) else (True, n, s))
     in if \<not> ok then (False, n, s)
        else let (ok, s) = gethdr s in (ok \<and> unat (h_sec (hdr s)) = sec \<and> ucast (h_ord (hdr s)) = n, n, s))"

text \<open>
  The loop of \<open>get\<close> from a sector whose header has been read; \<open>k\<close> sectors are to be read, this one included.
\<close>

fun get_loop :: "nat \<Rightarrow> nat \<Rightarrow> nat \<Rightarrow> u32 \<Rightarrow> fl \<Rightarrow> bool \<times> fl" where
  "get_loop 0 p sec n s = (True, s)"
| "get_loop (Suc k) p sec n s =
    (let (block, s) = demfm mfmsec_data s;
         s = s\<lparr> umem := store_longs p block (umem s) \<rparr>
     in if chksum (longs (umem s) p (FLBPSEC div 4)) \<noteq> h_datachk (hdr s) then (False, s)
        else if k = 0 then (True, s)
        else
          let (sec, p) = (if sec + 1 = NSEC then (0, 0) else (sec + 1, p + FLBPSEC div 4));
              (ok, n, s) = next_hdr sec n s
          in if ok then get_loop k p sec n s else (False, s))"

text \<open>The part of \<open>get\<close> after \<open>flread\<close>.\<close>

definition decode_track :: "fl \<Rightarrow> bool \<times> fl" where
  "decode_track s =
    (let s = s\<lparr> mfmbuf := 0, mfmlim := TRKRLEN div 2 \<rparr>; (ok, s) = find s
     in if \<not> ok then (False, s)
        else let (ok, s) = gethdr s
             in if \<not> ok then (False, s)
                else get_loop NSEC (unat (h_sec (hdr s)) * (FLBPSEC div 4)) (unat (h_sec (hdr s))) (ucast (h_ord (hdr s))) s)"

end
