(* ===== verification/Floppy_Bits.thy ===== *)
theory Floppy_Bits
  imports Floppy_Mfm
begin

text \<open>
  The codec seen as operations on a stream of bits: position \<open>q\<close> of the stream is bit \<open>15 - q mod 16\<close> of the \<open>ushort\<close> at index
  \<open>q div 16\<close>. Reading at an index with a shift is reading at a position; the search for the synchronizing key
  finds the next position where the key stands.
\<close>

section \<open>Bit streams\<close>

definition chip_bits :: "chip_mem \<Rightarrow> nat \<Rightarrow> bool" where
  "chip_bits c q = bit (c (q div 16)) (15 - q mod 16)"

definition word_at :: "(nat \<Rightarrow> bool) \<Rightarrow> nat \<Rightarrow> u32" where
  "word_at b p = horner_sum of_bool 2 (map (\<lambda>j. b (p + 31 - j)) [0..<32])"

lemma bit_word_at: "bit (word_at b p) j \<longleftrightarrow> j < 32 \<and> b (p + 31 - j)"
  by (auto simp: word_at_def bit_horner_sum_bit_word_iff)

lemma word_at_eq_iff: "word_at b p = w \<longleftrightarrow> (\<forall>j < 32. b (p + j) = bit w (31 - j))"
proof -
  have "word_at b p = w \<longleftrightarrow> (\<forall>n < 32. bit (word_at b p) n = bit w n)"
    by (simp add: bit_eq_iff possible_bit_word)
  also have "\<dots> \<longleftrightarrow> (\<forall>n < 32. b (p + 31 - n) = bit w n)" by (simp add: bit_word_at)
  also have "\<dots> \<longleftrightarrow> (\<forall>j < 32. b (p + j) = bit w (31 - j))"
  proof safe
    fix j :: nat assume a: "\<forall>n < 32. b (p + 31 - n) = bit w n" and j: "j < 32"
    have "31 - j < 32" "p + 31 - (31 - j) = p + j" using j by auto
    then show "b (p + j) \<Longrightarrow> bit w (31 - j)" "bit w (31 - j) \<Longrightarrow> b (p + j)" using a by metis+
  next
    fix n :: nat assume a: "\<forall>j < 32. b (p + j) = bit w (31 - j)" and n: "n < 32"
    have "31 - n < 32" "p + (31 - n) = p + 31 - n" "31 - (31 - n) = n" using n by auto
    then show "b (p + 31 - n) \<Longrightarrow> bit w n" "bit w n \<Longrightarrow> b (p + 31 - n)" using a by metis+
  qed
  finally show ?thesis .
qed

lemma word_at_bit: "word_at b p = w \<Longrightarrow> j < 32 \<Longrightarrow> b (p + j) = bit w (31 - j)"
  by (simp add: word_at_eq_iff)

lemma word_at_cong: "(\<And>j. j < 32 \<Longrightarrow> b (p + j) = b' (p' + j)) \<Longrightarrow> word_at b p = word_at b' p'"
  by (rule word_at_eq_iff [THEN iffD2]) (auto simp: bit_word_at)

lemma div_mod16: "j < 16 \<Longrightarrow> (16 * i + j) div 16 = i \<and> (16 * i + j) mod 16 = (j :: nat)"
  by simp

lemma bit_ulong_at: "bit (ulong_at c i) j \<longleftrightarrow> j < 32 \<and> chip_bits c (16 * i + 31 - j)"
proof (cases "j < 16")
  case True
  then have "16 * i + 31 - j = 16 * (i + 1) + (15 - j)" by simp
  then have "(16 * i + 31 - j) div 16 = i + 1" "(16 * i + 31 - j) mod 16 = 15 - j"
    using div_mod16 [of "15 - j" "i + 1"] by simp_all
  with True show ?thesis by (simp add: ulong_at_def chip_bits_def bit_simps)
next
  case False
  show ?thesis
  proof (cases "j < 32")
    case True
    with False have "16 * i + 31 - j = 16 * i + (31 - j)" by simp
    then have "(16 * i + 31 - j) div 16 = i" "(16 * i + 31 - j) mod 16 = 31 - j"
      using div_mod16 [of "31 - j" i] False by simp_all
    with True False show ?thesis
      by (auto simp: ulong_at_def chip_bits_def bit_simps dest: bit_imp_le_length)
  qed (auto simp: ulong_at_def bit_simps)
qed

lemma ulong_at_word: "ulong_at c i = word_at (chip_bits c) (16 * i)"
  by (rule bit_word_eqI) (simp add: bit_ulong_at bit_word_at)

lemma unshift_word:
  assumes "sh < 16"
  shows "unshift sh c i = word_at (chip_bits c) (16 * i + sh)"
proof (rule bit_word_eqI)
  fix j assume j: "j < LENGTH(32)"
  show "bit (unshift sh c i) j = bit (word_at (chip_bits c) (16 * i + sh)) j"
  proof (cases "j < sh")
    case True
    then have "16 * (i + 2) + 31 - (32 - sh + j) = 16 * i + sh + 31 - j" using assms by simp
    moreover have "32 + j - sh < 32" using True by simp
    ultimately show ?thesis using True assms j by (simp add: unshift_def bit_simps bit_ulong_at bit_word_at)
  next
    case False
    then have "16 * i + 31 - (j - sh) = 16 * i + sh + 31 - j" using j by simp
    with False assms j show ?thesis by (auto simp: unshift_def bit_simps bit_ulong_at bit_word_at)
  qed
qed

section \<open>Decoding at a position\<close>

definition decode_long :: "u32 \<Rightarrow> u32 \<Rightarrow> u32" where
  "decode_long a b = push_bit 1 (a AND DMASK) OR (b AND DMASK)"

definition decode_at :: "(nat \<Rightarrow> bool) \<Rightarrow> nat \<Rightarrow> nat \<Rightarrow> u32 list" where
  "decode_at b q n = map (\<lambda>i. decode_long (word_at b (q + 32 * i)) (word_at b (q + 32 * n + 32 * i))) [0..<n]"

lemma demfm_loop_at:
  "sh < 16 \<Longrightarrow> demfm_loop sh c po pe n = map (\<lambda>i. decode_long (word_at (chip_bits c) (16 * po + sh + 32 * i))
     (word_at (chip_bits c) (16 * pe + sh + 32 * i))) [0..<n]"
proof (induction n arbitrary: po pe)
  case (Suc n)
  have "[0..<Suc n] = 0 # map Suc [0..<n]" by (simp add: upt_conv_Cons map_Suc_upt)
  with Suc show ?case
    by (simp add: unshift_word decode_long_def del: upt_Suc) (simp add: algebra_simps)
qed simp

lemma demfm_at:
  assumes "shift s < 16"
  shows "demfm (8 * n) s =
    (decode_at (chip_bits (chip s)) (16 * mfmbuf s + shift s) n, s\<lparr> mfmbuf := mfmbuf s + 4 * n \<rparr>)"
  using assms by (simp add: demfm_def demfm_loop_at decode_at_def Let_def algebra_simps)

section \<open>The synchronizing key\<close>

abbreviation (input) sync_key :: u32 where "sync_key \<equiv> 0x44894489"

text \<open>
  What an entry with shift \<open>s\<close> stands for: \<open>s\<close> bits of the alternating pattern that ends in 0, then the key.
\<close>

definition key_bit :: "nat \<Rightarrow> nat \<Rightarrow> bool" where
  "key_bit s j = (if j < s then even (s - j) else bit sync_key (31 - (j - s)))"

definition entry_ok :: "bittab \<Rightarrow> bool" where
  "entry_ok t \<longleftrightarrow> bt_shift t < 16 \<and>
     list_all (\<lambda>j. bit (word0 t) (15 - j) = key_bit (bt_shift t) j \<and>
       bit (word1 t) (15 - j) = key_bit (bt_shift t) (16 + j) \<and>
       bit (w2mask t) (15 - j) = (j < bt_shift t) \<and>
       bit (word2 t) (15 - j) = (j < bt_shift t \<and> key_bit (bt_shift t) (32 + j))) [0..<16]"

lemma tabs_ok: "list_all entry_ok even_tab" "list_all entry_ok odd_tab"
  by code_simp+

lemma even_shifts: "map bt_shift even_tab = [0, 4, 8, 12, 2, 6, 10, 14]"
  by (simp add: even_tab_def)

lemma odd_shifts: "map bt_shift odd_tab = [3, 7, 11, 15, 1, 5, 9, 13]"
  by (simp add: odd_tab_def)

lemma bits_eq_iff16: "(v :: u16) = w \<longleftrightarrow> (\<forall>j < 16. bit v (15 - j) = bit w (15 - j))"
proof
  assume a: "\<forall>j < 16. bit v (15 - j) = bit w (15 - j)"
  show "v = w"
  proof (rule bit_word_eqI)
    fix n assume "n < LENGTH(16)"
    then show "bit v n = bit w n" using a [rule_format, of "15 - n"] by simp
  qed
qed simp

lemma chip_bits_word: "j < 16 \<Longrightarrow> chip_bits c (16 * i + j) = bit (c i) (15 - j)"
  by (simp add: chip_bits_def)

lemma tab_match_bits:
  assumes "entry_ok t"
  shows "tab_match c f t \<longleftrightarrow> (\<forall>j < 32 + bt_shift t. chip_bits c (16 * f + j) = key_bit (bt_shift t) j)"
proof -
  let ?s = "bt_shift t" and ?b = "chip_bits c"
  have e: "?s < 16" "\<And>j. j < 16 \<Longrightarrow> bit (word0 t) (15 - j) = key_bit ?s j"
    "\<And>j. j < 16 \<Longrightarrow> bit (word1 t) (15 - j) = key_bit ?s (16 + j)"
    "\<And>j. j < 16 \<Longrightarrow> bit (w2mask t) (15 - j) = (j < ?s)"
    "\<And>j. j < 16 \<Longrightarrow> bit (word2 t) (15 - j) = (j < ?s \<and> key_bit ?s (32 + j))"
    using assms by (auto simp: entry_ok_def list_all_iff)
  have 0: "c f = word0 t \<longleftrightarrow> (\<forall>j < 16. ?b (16 * f + j) = key_bit ?s j)"
    by (subst bits_eq_iff16) (auto simp: chip_bits_word e)
  have 1: "c (f + 1) = word1 t \<longleftrightarrow> (\<forall>j < 16. ?b (16 * f + 16 + j) = key_bit ?s (16 + j))"
    using chip_bits_word [of _ c "f + 1"] by (subst bits_eq_iff16) (auto simp: e algebra_simps)
  have "c (f + 2) AND w2mask t = word2 t \<longleftrightarrow> (\<forall>j < 16. j < ?s \<longrightarrow> bit (c (f + 2)) (15 - j) = key_bit ?s (32 + j))"
    by (subst bits_eq_iff16) (auto simp: e bit_simps)
  also have "\<dots> \<longleftrightarrow> (\<forall>j < ?s. ?b (16 * f + 32 + j) = key_bit ?s (32 + j))"
    using chip_bits_word [of _ c "f + 2"] e(1) by (auto simp: algebra_simps)
  finally have 2: "c (f + 2) AND w2mask t = word2 t \<longleftrightarrow> (\<forall>j < ?s. ?b (16 * f + 32 + j) = key_bit ?s (32 + j))" .
  have "(\<forall>j < 32 + ?s. ?b (16 * f + j) = key_bit ?s j) \<longleftrightarrow>
      (\<forall>j < 16. ?b (16 * f + j) = key_bit ?s j) \<and> (\<forall>j < 16. ?b (16 * f + (16 + j)) = key_bit ?s (16 + j)) \<and>
      (\<forall>j < ?s. ?b (16 * f + (32 + j)) = key_bit ?s (32 + j))" (is "?l = ?r")
  proof
    assume ?r
    show ?l
    proof (intro allI impI)
      fix j assume "j < 32 + ?s"
      then consider "j < 16" | k where "j = 16 + k" "k < 16" | k where "j = 32 + k" "k < ?s"
        by (metis add_diff_inverse_nat add.assoc nat_add_left_cancel_less numeral_Bit0)
      then show "?b (16 * f + j) = key_bit ?s j" using \<open>?r\<close> by cases blast+
    qed
  qed auto
  then show ?thesis unfolding tab_match_def 0 1 2 by (simp add: algebra_simps)
qed

section \<open>The search\<close>

text \<open>The key stands at position \<open>S\<close>, after at least 31 bits of the alternating pattern.\<close>

definition key_at :: "(nat \<Rightarrow> bool) \<Rightarrow> nat \<Rightarrow> bool" where
  "key_at b S \<longleftrightarrow> word_at b S = sync_key \<and> 31 \<le> S \<and> (\<forall>j. 0 < j \<and> j \<le> 31 \<longrightarrow> b (S - j) = even j)"

lemma key_bits:
  assumes "key_at b S"
  shows "j < 32 \<Longrightarrow> b (S + j) = bit sync_key (31 - j)"
    and "0 < j \<Longrightarrow> j \<le> 31 \<Longrightarrow> b (S - j) = even j"
  using assms by (auto simp: key_at_def dest: word_at_bit)

lemma key_before:
  assumes k: "key_at (chip_bits c) S"
  shows "c (S div 16 - 1) = (if even (S mod 16) then 0xAAAA else 0x5555)"
proof (subst bits_eq_iff16, intro allI impI)
  fix j :: nat assume j: "j < 16"
  define s where "s = S mod 16"
  have "31 \<le> S" using k by (simp add: key_at_def)
  then have s: "s < 16" and e: "16 * (S div 16 - 1) + j = S - (s + 16 - j)"
    using j div_mult_mod_eq [of S 16] unfolding s_def by (simp, simp, linarith)
  have alt: "bit (0xAAAA :: u16) (15 - j) = even j" "bit (0x5555 :: u16) (15 - j) = odd j"
  proof -
    have "list_all (\<lambda>j. bit (0xAAAA :: u16) (15 - j) = even j \<and> bit (0x5555 :: u16) (15 - j) = odd j) [0..<16]"
      by code_simp
    then show "bit (0xAAAA :: u16) (15 - j) = even j" "bit (0x5555 :: u16) (15 - j) = odd j"
      using j by (auto simp: list_all_iff)
  qed
  have "bit (c (S div 16 - 1)) (15 - j) = chip_bits c (S - (s + 16 - j))"
    using chip_bits_word [OF j, of c "S div 16 - 1"] unfolding e by (rule sym)
  also have "\<dots> = even (s + 16 - j)"
    by (rule key_bits(2) [OF k]) (use j s in simp_all)
  also have "\<dots> = (even s = even j)" using j by (simp add: even_diff_nat)
  finally have "bit (c (S div 16 - 1)) (15 - j) = (even s = even j)" .
  then show "bit (c (S div 16 - 1)) (15 - j) = bit (if even (S mod 16) then 0xAAAA else 0x5555 :: u16) (15 - j)"
    unfolding s_def [symmetric] by (cases "even s") (simp_all only: alt if_True if_False simp_thms)
qed

lemma alternating:
  assumes "w = (0xAAAA :: u16) \<or> w = 0x5555" and "j < 15"
  shows "bit w (15 - j) \<noteq> bit w (14 - j)"
proof -
  have "list_all (\<lambda>j. bit (0xAAAA :: u16) (15 - j) \<noteq> bit (0xAAAA :: u16) (14 - j) \<and>
      bit (0x5555 :: u16) (15 - j) \<noteq> bit (0x5555 :: u16) (14 - j)) [0..<15]" by code_simp
  then show ?thesis using assms by (auto simp: list_all_iff)
qed

lemma key_word:
  assumes k: "key_at (chip_bits c) S"
  shows "c (S div 16) \<noteq> 0xAAAA \<and> c (S div 16) \<noteq> 0x5555"
proof -
  define s where "s = S mod 16"
  define j where "j = (if s = 0 then 2 else s - 1)"
  have S: "S = 16 * (S div 16) + s" and s: "s < 16" by (simp_all add: s_def)
  have j: "j < 15" using s by (auto simp: j_def)
  have zero: "\<not> bit (c (S div 16)) (15 - i)" if "i = j \<or> i = j + 1" for i
  proof -
    have i: "i < 16" using that j by auto
    have "chip_bits c (16 * (S div 16) + i) = False"
    proof (cases "s = 0")
      case True
      then have "16 * (S div 16) + i = S + i" "i = 2 \<or> i = 3" using that S by (auto simp: j_def)
      then show ?thesis using key_bits(1) [OF k, of i] by auto
    next
      case False
      show ?thesis
      proof (cases "i = s")
        case True
        then show ?thesis using key_bits(1) [OF k, of 0] S by simp
      next
        case False
        then have "16 * (S div 16) + i = S - 1" using that S \<open>s \<noteq> 0\<close> by (auto simp: j_def)
        then show ?thesis using key_bits(2) [OF k, of 1] by simp
      qed
    qed
    then show ?thesis using chip_bits_word [OF i, of c "S div 16"] by simp
  qed
  have "15 - (j + 1) = 14 - j" by simp
  then have "bit (c (S div 16)) (15 - j) = bit (c (S div 16)) (14 - j)"
    using zero [of j] zero [of "j + 1"] by simp
  then show ?thesis using alternating [OF _ j, of "c (S div 16)"] by blast
qed

lemma skip_run_stops:
  "f \<le> T \<Longrightarrow> T + 2 < lim \<Longrightarrow> c T \<noteq> w \<Longrightarrow>
    \<exists>k. skip_run c w f lim = Some k \<and> f \<le> k \<and> k \<le> T \<and> (\<forall>i. f \<le> i \<and> i < k \<longrightarrow> c i = w)"
proof (induction c w f lim rule: skip_run.induct)
  case (1 c w f lim)
  show ?case
  proof (cases "c f = w")
    case True
    then have "f \<noteq> T" using 1(4) by auto
    with 1 True obtain k where k: "skip_run c w (f + 1) lim = Some k" "f + 1 \<le> k" "k \<le> T"
        "\<forall>i. f + 1 \<le> i \<and> i < k \<longrightarrow> c i = w"
      by fastforce
    have "\<forall>i. f \<le> i \<and> i < k \<longrightarrow> c i = w"
      using k(4) True by (metis Suc_eq_plus1 le_antisym not_less_eq_eq)
    with k True 1(2,3) show ?thesis by (subst skip_run.simps) auto
  next
    case False
    with 1(2,3) show ?thesis by (subst skip_run.simps) auto
  qed
qed

lemma key_match:
  assumes k: "key_at (chip_bits c) S" and tp: "tp = (if even (S mod 16) then even_tab else odd_tab)"
    and no: "\<And>q. 16 * (S div 16) \<le> q \<Longrightarrow> q < S \<Longrightarrow> word_at (chip_bits c) q \<noteq> sync_key"
  shows "\<exists>t. List.find (tab_match c (S div 16)) tp = Some t \<and> bt_shift t = S mod 16"
proof -
  define s T where "s = S mod 16" and "T = S div 16"
  have S: "S = 16 * T + s" and s: "s < 16" by (simp_all add: s_def T_def)
  have ok: "entry_ok t" if "t \<in> set tp" for t
    using tabs_ok that by (auto simp: tp list_all_iff split: if_splits)
  have shifts: "set (map bt_shift tp) = {i. i < 16 \<and> even i = even s}"
  proof -
    have "{i. i < 16 \<and> even i = even s} = set (filter (\<lambda>i. even i = even s) [0..<16])" by auto
    also have "\<dots> = set (map bt_shift tp)"
      by (cases "even s") (auto simp: tp even_shifts odd_shifts upt_rec simp flip: s_def)
    finally show ?thesis by simp
  qed
  have "s \<in> set (map bt_shift tp)" unfolding shifts using s by simp
  then obtain t where t: "t \<in> set tp" "bt_shift t = s" by auto
  have "tab_match c T t"
  proof (subst tab_match_bits [OF ok [OF t(1)]], intro allI impI)
    fix j assume j: "j < 32 + bt_shift t"
    show "chip_bits c (16 * T + j) = key_bit (bt_shift t) j"
    proof (cases "j < s")
      case True
      then have "16 * T + j = S - (s - j)" using S by simp
      then show ?thesis using key_bits(2) [OF k, of "s - j"] True s t(2) by (simp add: key_bit_def)
    next
      case False
      then have "16 * T + j = S + (j - s)" using S by simp
      then show ?thesis using key_bits(1) [OF k, of "j - s"] False j t(2) by (simp add: key_bit_def)
    qed
  qed
  then obtain t' where f: "List.find (tab_match c T) tp = Some t'"
    using t(1) by (cases "List.find (tab_match c T) tp") (auto simp: find_None_iff)
  then have t': "t' \<in> set tp" "tab_match c T t'" by (auto simp: find_Some_iff)
  define s' where "s' = bt_shift t'"
  have b: "chip_bits c (16 * T + j) = key_bit s' j" if "j < 32 + s'" for j
    using t' that tab_match_bits [OF ok [OF t'(1)], of c T] by (simp add: s'_def)
  have "\<not> s' < s"
  proof
    assume "s' < s"
    have "word_at (chip_bits c) (16 * T + s') = sync_key"
      by (subst word_at_eq_iff) (use b in \<open>simp add: key_bit_def add.assoc\<close>)
    moreover have "16 * (S div 16) \<le> 16 * T + s'" by (simp add: T_def)
    moreover have "16 * T + s' < S" using S \<open>s' < s\<close> by linarith
    ultimately show False using no by blast
  qed
  moreover have "\<not> s < s'"
  proof
    assume "s < s'"
    have "s' \<in> set (map bt_shift tp)" using t'(1) by (simp add: s'_def)
    then have "even s' = even s" unfolding shifts by simp
    then have "key_bit s' s" using \<open>s < s'\<close> by (simp add: key_bit_def)
    moreover have "\<not> chip_bits c (16 * T + s)" using key_bits(1) [OF k, of 0] S by simp
    ultimately show False using b [of s] \<open>s < s'\<close> by simp
  qed
  ultimately have "s' = s" by simp
  then show ?thesis using f by (simp add: s'_def s_def T_def)
qed

lemma find_loop_key:
  assumes "key_at (chip_bits c) S" and "S div 16 + 2 < lim"
    and "\<And>q. 16 * (f0 + 1) \<le> q \<Longrightarrow> q < S \<Longrightarrow> word_at (chip_bits c) q \<noteq> sync_key"
    and "f0 \<le> f" and "f < S div 16"
  shows "find_loop c f lim = Some (S div 16 - 2, S mod 16)"
  using assms(4,5)
proof (induction "S div 16 - f" arbitrary: f rule: less_induct)
  case less
  let ?T = "S div 16" and ?w = "c f"
  note k = assms(1) and lim = assms(2) and no = assms(3) and f = less(2,3)
  define tab where "tab = (if ?w = 0xAAAA then Some even_tab else if ?w = 0x5555 then Some odd_tab else None)"
  have before: "c (?T - 1) = (if even (S mod 16) then 0xAAAA else 0x5555)" by (rule key_before [OF k])
  have step: "find_loop c f lim = (case tab of None \<Rightarrow> find_loop c (f + 1) lim
      | Some tp \<Rightarrow> (case skip_run c ?w (f + 1) lim of None \<Rightarrow> None
        | Some i \<Rightarrow> (case List.find (tab_match c i) tp of Some t \<Rightarrow> Some (i - 2, bt_shift t)
          | None \<Rightarrow> find_loop c i lim)))"
    using f lim by (subst find_loop.simps) (simp add: Let_def tab_def)
  show ?case
  proof (cases "?w = 0xAAAA \<or> ?w = 0x5555")
    case False
    then have "f \<noteq> ?T - 1" using before by (auto split: if_splits)
    then have "find_loop c (f + 1) lim = Some (?T - 2, S mod 16)" using less(1) [of "f + 1"] f by simp
    then show ?thesis using step False by (simp add: tab_def)
  next
    case True
    then have "c ?T \<noteq> ?w" using key_word [OF k] by auto
    then obtain i where i: "skip_run c ?w (f + 1) lim = Some i" "f + 1 \<le> i" "i \<le> ?T"
        "\<And>j. f + 1 \<le> j \<Longrightarrow> j < i \<Longrightarrow> c j = ?w"
      using skip_run_stops [of "f + 1" ?T lim c ?w] f lim by auto
    obtain tp where tp: "tab = Some tp" using True by (auto simp: tab_def)
    show ?thesis
    proof (cases "i = ?T")
      case True
      have "c (?T - 1) = ?w"
      proof (cases "f + 1 = ?T")
        case False
        then show ?thesis using i(2,4) True by auto
      next
        case True
        then have "?T - 1 = f" by simp
        then show ?thesis by simp
      qed
      then have "tp = (if even (S mod 16) then even_tab else odd_tab)" using tp before by (simp add: tab_def split: if_splits)
      then obtain t where "List.find (tab_match c ?T) tp = Some t" "bt_shift t = S mod 16"
        using key_match [OF k _ no] f by fastforce
      then show ?thesis using step i(1) True tp by simp
    next
      case False
      have "\<not> tab_match c i t" if "t \<in> set tp" for t
      proof
        assume "tab_match c i t"
        have ok: "entry_ok t" using tabs_ok tp that by (auto simp: tab_def list_all_iff split: if_splits)
        then have "bt_shift t < 16" by (simp add: entry_ok_def)
        have "word_at (chip_bits c) (16 * i + bt_shift t) = sync_key"
          using \<open>tab_match c i t\<close> unfolding tab_match_bits [OF ok]
          by (subst word_at_eq_iff) (simp add: key_bit_def add.assoc)
        moreover have "16 * i + bt_shift t < S" using i(3) False \<open>bt_shift t < 16\<close> by linarith
        moreover have "16 * (f0 + 1) \<le> 16 * i + bt_shift t" using i(2) f(1) by simp
        ultimately show False using no by blast
      qed
      then have "List.find (tab_match c i) tp = None" by (simp add: find_None_iff)
      moreover have "find_loop c i lim = Some (?T - 2, S mod 16)" using less(1) [of i] i(2,3) f False by simp
      ultimately show ?thesis using step i(1) tp by simp
    qed
  qed
qed

lemma find_key:
  assumes "key_at (chip_bits (chip s)) S" and "S div 16 + 2 < mfmlim s" and "mfmbuf s + 2 \<le> S div 16"
    and "\<And>q. 16 * (mfmbuf s + 2) \<le> q \<Longrightarrow> q < S \<Longrightarrow> word_at (chip_bits (chip s)) q \<noteq> sync_key"
  shows "find s = (True, s\<lparr> mfmbuf := S div 16 - 2, shift := S mod 16 \<rparr>)"
proof -
  have "find_loop (chip s) (mfmbuf s + 1) (mfmlim s) = Some (S div 16 - 2, S mod 16)"
  proof (rule find_loop_key [OF assms(1,2), where f0 = "mfmbuf s + 1"])
    show "word_at (chip_bits (chip s)) q \<noteq> sync_key" if "16 * (mfmbuf s + 1 + 1) \<le> q" "q < S" for q
      using assms(4) [of q] that by simp
  qed (use assms in simp_all)
  then show ?thesis using assms by (simp add: find_def)
qed

end
