(* ===== verification/Floppy_Encode.thy ===== *)
theory Floppy_Encode
  imports Floppy_Bits
begin

text \<open>
  What \<open>mfm\<close>, \<open>putsec\<close> and \<open>fdputaml\<close> put into the track buffer, as words of the bit stream, and the
  rule of MFM for them: a clock bit is set exactly when the data bits beside it are both 0. The blocks of a sector are
  one run of encoded words; the key and the very last word are the only places where the rule fails.
\<close>

section \<open>Encoded words\<close>

definition hi_bits :: "u32 \<Rightarrow> u32" where "hi_bits x = drop_bit 1 x AND DMASK"

definition lo_bits :: "u32 \<Rightarrow> u32" where "lo_bits x = x AND DMASK"

definition split :: "u32 list \<Rightarrow> u32 list" where
  "split xs = map hi_bits xs @ map lo_bits xs"

definition masked :: "u32 \<Rightarrow> bool" where
  "masked d \<longleftrightarrow> d AND DMASK = d"

fun mfm_words :: "bool \<Rightarrow> u32 list \<Rightarrow> u32 list" where
  "mfm_words p [] = []"
| "mfm_words p (d # ds) = mfm_word d (of_bool p) # mfm_words (bit d 0) ds"

lemma length_mfm_words [simp]: "length (mfm_words p ds) = length ds"
  by (induction ds arbitrary: p) simp_all

lemma mfm_words_Nil [simp]: "mfm_words p ds = [] \<longleftrightarrow> ds = []"
  by (cases ds) simp_all

lemma length_split [simp]: "length (split xs) = 2 * length xs"
  by (simp add: split_def)

lemma bit_DMASK: "bit DMASK j \<longleftrightarrow> j < 32 \<and> even j"
proof (cases "j < 32")
  case True
  have "list_all (\<lambda>j. bit DMASK j = even j) [0..<32]" by code_simp
  with True show ?thesis by (auto simp: list_all_iff)
qed (auto dest: bit_imp_le_length)

lemma masked_odd: "masked d \<Longrightarrow> odd j \<Longrightarrow> \<not> bit d j"
  unfolding masked_def by (metis bit_and_iff bit_DMASK)

lemma masked_bits [simp]: "masked (hi_bits x)" "masked (lo_bits x)"
  by (simp_all add: masked_def hi_bits_def lo_bits_def and.assoc)

lemma masked_split: "list_all masked (split xs)"
  by (auto simp: split_def list_all_iff)

lemma bit_decode_long:
  "bit (decode_long a b) j \<longleftrightarrow> (if even j then bit b j else j < 32 \<and> bit a (j - 1))"
proof (cases "even j")
  case True
  then show ?thesis
    unfolding decode_long_def bit_or_iff bit_and_iff bit_push_bit_iff possible_bit_word bit_DMASK
    by (auto dest: bit_imp_le_length)
next
  case False
  then show ?thesis
    unfolding decode_long_def bit_or_iff bit_and_iff bit_push_bit_iff possible_bit_word bit_DMASK
    by (auto elim!: oddE)
qed

lemma decode_split: "decode_long (hi_bits x) (lo_bits x) = x"
proof (rule bit_word_eqI)
  fix j assume "j < LENGTH(32)"
  then show "bit (decode_long (hi_bits x) (lo_bits x)) j = bit x j"
    unfolding bit_decode_long hi_bits_def lo_bits_def bit_and_iff bit_drop_bit_eq bit_DMASK
    by (auto elim!: oddE)
qed

lemma decode_long_mask: "decode_long (a AND DMASK) (b AND DMASK) = decode_long a b"
  by (simp add: decode_long_def and.assoc)

lemma bit_mfm_raw:
  assumes "masked d" and "j < 32"
  shows "bit (d OR NOT (push_bit 1 d OR drop_bit 1 d OR DMASK)) j =
    (if even j then bit d j else \<not> (bit d (j - 1) \<or> bit d (j + 1)))"
  using assms(2) masked_odd [OF assms(1)]
  unfolding bit_or_iff bit_and_iff bit_push_bit_iff possible_bit_word bit_DMASK bit_not_iff possible_bit_word bit_drop_bit_eq
  by (auto simp: Suc_le_eq dest: odd_pos)

lemma bit_top: "bit (push_bit 31 1 :: u32) j \<longleftrightarrow> j = 31"
  unfolding bit_push_bit_iff possible_bit_word by (auto simp: bit_1_iff)

lemma bit_mfm_word:
  assumes "masked d" and "j < 32"
  shows "bit (mfm_word d w) j =
    (if even j then bit d j
     else \<not> (bit d (j - 1) \<or> (if j = 31 then bit w 0 else bit d (j + 1))))"
proof -
  have top: "\<not> bit d 32" by (auto dest: bit_imp_le_length)
  define n where "n = d OR NOT (push_bit 1 d OR drop_bit 1 d OR DMASK)"
  have n: "bit n j = (if even j then bit d j else \<not> (bit d (j - 1) \<or> bit d (j + 1)))"
    "bit n 31 = (\<not> bit d 30)"
    using bit_mfm_raw [OF assms] bit_mfm_raw [OF assms(1), of 31] top by (simp_all add: n_def)
  have eq: "mfm_word d w = (if bit n 31 \<and> bit w 0 then n AND NOT (push_bit 31 1) else n)"
    by (simp add: mfm_word_def Let_def n_def)
  show ?thesis
  proof (cases "j = 31")
    case True
    then show ?thesis unfolding eq using n(2) by (auto simp: bit_and_iff bit_not_iff possible_bit_word bit_top)
  next
    case False
    then have "bit (mfm_word d w) j = bit n j"
      unfolding eq using assms(2) by (simp only: bit_and_iff bit_not_iff possible_bit_word bit_top split: if_split) auto
    then show ?thesis using n(1) False by simp
  qed
qed

lemma mfm_word_before: "bit v 0 = bit w 0 \<Longrightarrow> mfm_word d v = mfm_word d w"
  by (simp add: mfm_word_def)

lemma mfm_words_append:
  "mfm_words p (xs @ ys) = mfm_words p xs @ mfm_words (if xs = [] then p else bit (last xs) 0) ys"
  by (induction xs arbitrary: p) simp_all

section \<open>The words a block leaves in the buffer\<close>

lemma ulong_put [simp]:
  "ulong_at (put_ulong i w c) i = w"
  "k + 2 \<le> i \<or> i + 2 \<le> k \<Longrightarrow> ulong_at (put_ulong i w c) k = ulong_at c k"
proof -
  show "ulong_at (put_ulong i w c) i = w"
  proof (rule bit_word_eqI)
    fix j assume "j < LENGTH(32)"
    then show "bit (ulong_at (put_ulong i w c) i) j = bit w j"
      by (cases "j < 16") (auto simp: ulong_at_def put_ulong_def bit_simps)
  qed
  show "k + 2 \<le> i \<or> i + 2 \<le> k \<Longrightarrow> ulong_at (put_ulong i w c) k = ulong_at c k"
    by (auto simp: ulong_at_def put_ulong_def)
qed

lemma put_ulong_other: "j \<noteq> i \<Longrightarrow> j \<noteq> i + 1 \<Longrightarrow> put_ulong i w c j = c j"
  by (simp add: put_ulong_def)

lemma ulong_cong: "c i = c' i \<Longrightarrow> c (i + 1) = c' (i + 1) \<Longrightarrow> ulong_at c i = ulong_at c' i"
  by (simp add: ulong_at_def)

lemma mfm_loop_frame:
  "j < po \<or> po + 2 * length xs \<le> j \<Longrightarrow> j < pe \<or> pe + 2 * length xs \<le> j \<Longrightarrow> mfm_loop po pe xs c j = c j"
proof (induction xs arbitrary: po pe c)
  case (Cons x xs)
  have "mfm_loop (po + 2) (pe + 2) xs c' j = c' j" for c' using Cons.prems by (intro Cons.IH) auto
  moreover have "j \<noteq> po" "j \<noteq> po + 1" "j \<noteq> pe" "j \<noteq> pe + 1" using Cons.prems by auto
  ultimately show ?case by (simp add: Let_def put_ulong_other)
qed simp

lemma mfm_loop_words:
  assumes "2 \<le> po" and "po + 2 * length xs + 2 \<le> pe"
  shows "\<forall>i < length xs. ulong_at (mfm_loop po pe xs c) (po + 2 * i) =
           mfm_words (bit (ulong_at c (po - 2)) 0) (map hi_bits xs) ! i \<and>
         ulong_at (mfm_loop po pe xs c) (pe + 2 * i) =
           mfm_words (bit (ulong_at c (pe - 2)) 0) (map lo_bits xs) ! i"
  using assms
proof (induction xs arbitrary: po pe c)
  case (Cons x xs)
  define w where "w = mfm_word (hi_bits x) (ulong_at c (po - 2))"
  define c1 where "c1 = put_ulong po w c"
  define v where "v = mfm_word (lo_bits x) (ulong_at c1 (pe - 2))"
  define c2 where "c2 = put_ulong pe v c1"
  have eq: "mfm_loop po pe (x # xs) c = mfm_loop (po + 2) (pe + 2) xs c2"
    by (simp add: Let_def w_def v_def c1_def c2_def hi_bits_def lo_bits_def)
  have c1: "ulong_at c1 (pe - 2) = ulong_at c (pe - 2)"
    unfolding c1_def by (rule ulong_put(2)) (use Cons.prems in \<open>simp, linarith\<close>)
  have c2: "ulong_at c2 po = w" "ulong_at c2 pe = v" using Cons.prems by (simp_all add: c2_def c1_def)
  have w: "w = mfm_word (hi_bits x) (of_bool (bit (ulong_at c (po - 2)) 0))" "bit w 0 = bit (hi_bits x) 0"
    by (auto simp: w_def bit_mfm_word intro: mfm_word_before)
  have v: "v = mfm_word (lo_bits x) (of_bool (bit (ulong_at c (pe - 2)) 0))" "bit v 0 = bit (lo_bits x) 0"
    by (auto simp: v_def c1 bit_mfm_word intro: mfm_word_before)
  have ih: "\<forall>i < length xs. ulong_at (mfm_loop (po + 2) (pe + 2) xs c2) (po + 2 + 2 * i) =
        mfm_words (bit (hi_bits x) 0) (map hi_bits xs) ! i \<and>
      ulong_at (mfm_loop (po + 2) (pe + 2) xs c2) (pe + 2 + 2 * i) =
        mfm_words (bit (lo_bits x) 0) (map lo_bits xs) ! i"
    using Cons.IH [of "po + 2" "pe + 2" c2] Cons.prems by (simp add: c2 w(2) v(2))
  have "ulong_at (mfm_loop (po + 2) (pe + 2) xs c2) po = ulong_at c2 po"
    "ulong_at (mfm_loop (po + 2) (pe + 2) xs c2) pe = ulong_at c2 pe"
    using Cons.prems by (auto intro!: ulong_cong mfm_loop_frame)
  note zero = this [unfolded c2]
  show ?case
  proof (intro allI impI)
    fix i assume "i < length (x # xs)"
    then consider "i = 0" | k where "i = Suc k" "k < length xs" by (cases i) auto
    then show "ulong_at (mfm_loop po pe (x # xs) c) (po + 2 * i) =
        mfm_words (bit (ulong_at c (po - 2)) 0) (map hi_bits (x # xs)) ! i \<and>
      ulong_at (mfm_loop po pe (x # xs) c) (pe + 2 * i) =
        mfm_words (bit (ulong_at c (pe - 2)) 0) (map lo_bits (x # xs)) ! i"
    proof cases
      case 1
      then show ?thesis unfolding eq using zero by (simp flip: w(1) v(1))
    next
      case 2
      then show ?thesis unfolding eq using ih by simp
    qed
  qed
qed simp


text \<open>A run of words at a position of the stream.\<close>

definition holds :: "(nat \<Rightarrow> bool) \<Rightarrow> nat \<Rightarrow> u32 list \<Rightarrow> bool" where
  "holds b P ws \<longleftrightarrow> (\<forall>i < length ws. word_at b (P + 32 * i) = ws ! i)"

lemma holds_Nil [simp]: "holds b P []"
  by (simp add: holds_def)

lemma holds_Cons [simp]: "holds b P (w # ws) \<longleftrightarrow> word_at b P = w \<and> holds b (P + 32) ws"
  unfolding holds_def by (auto simp: less_Suc_eq_0_disj algebra_simps)

lemma holds_append [simp]: "holds b P (xs @ ys) \<longleftrightarrow> holds b P xs \<and> holds b (P + 32 * length xs) ys"
  by (induction xs arbitrary: P) (simp_all add: algebra_simps)

lemma holds_cong:
  "holds b P ws \<Longrightarrow> (\<And>j. j < 32 * length ws \<Longrightarrow> b' (P' + j) = b (P + j)) \<Longrightarrow> holds b' P' ws"
  unfolding holds_def
proof (intro allI impI)
  fix i assume a: "\<forall>i < length ws. word_at b (P + 32 * i) = ws ! i"
    "\<And>j. j < 32 * length ws \<Longrightarrow> b' (P' + j) = b (P + j)" "i < length ws"
  have "word_at b' (P' + 32 * i) = word_at b (P + 32 * i)"
  proof (rule word_at_cong)
    fix j :: nat assume "j < 32"
    then have "32 * i + j < 32 * length ws" using a(3) by linarith
    then show "b' (P' + 32 * i + j) = b (P + 32 * i + j)" using a(2) [of "32 * i + j"] by (simp add: add.assoc)
  qed
  then show "word_at b' (P' + 32 * i) = ws ! i" using a(1,3) by simp
qed

lemma holds_ulong: "holds (chip_bits c) (16 * m) ws \<longleftrightarrow> (\<forall>i < length ws. ulong_at c (m + 2 * i) = ws ! i)"
  by (simp add: holds_def ulong_at_word algebra_simps)

lemma chip_bits_cong: "(\<And>j. j div 16 = q div 16 \<Longrightarrow> c (j div 16) = c' (j div 16)) \<Longrightarrow> chip_bits c q = chip_bits c' q"
  by (simp add: chip_bits_def)

lemma ulong_bit0: "2 \<le> i \<Longrightarrow> bit (ulong_at c (i - 2)) 0 = chip_bits c (16 * i - 1)"
  by (simp add: bit_ulong_at algebra_simps)

lemma chip_bit0: "1 \<le> i \<Longrightarrow> bit (c (i - 1)) 0 = chip_bits c (16 * i - 1)"
proof -
  assume "1 \<le> i"
  then have "16 * i - 1 = 16 * (i - 1) + 15" by simp
  then show ?thesis using chip_bits_word [of 15 c "i - 1"] by simp
qed

lemma mfm_fix_word:
  assumes "masked d" and "ulong_at c p = mfm_word d v" and "2 \<le> p"
  shows "ulong_at (mfm_fix p c) p = mfm_word d (ulong_at c (p - 2))"
proof -
  have top: "bit (mfm_word d u) j = bit (mfm_word d v) j" if "j \<noteq> 31" "j < 32" for u j
    using that by (simp add: bit_mfm_word [OF assms(1)])
  have b: "bit (mfm_word d u) 31 = (\<not> bit d 30 \<and> \<not> bit u 0)" "bit (mfm_word d u) 30 = bit d 30" for u
    by (simp_all add: bit_mfm_word [OF assms(1)])
  show ?thesis
  proof (cases "bit d 30")
    case True
    have "mfm_word d v = mfm_word d (ulong_at c (p - 2))"
    proof (rule bit_word_eqI)
      fix j assume "j < LENGTH(32)"
      then show "bit (mfm_word d v) j = bit (mfm_word d (ulong_at c (p - 2))) j"
        using top [of j "ulong_at c (p - 2)"] b True by (cases "j = 31") auto
    qed
    then show ?thesis using assms(2) True b by (simp add: mfm_fix_def)
  next
    case False
    define q where "q = bit (ulong_at c (p - 2)) 0"
    have "ulong_at (mfm_fix p c) p = (if q then mfm_word d v AND NOT (push_bit 31 1) else mfm_word d v OR push_bit 31 1)"
      using False b by (simp add: mfm_fix_def assms(2) Let_def q_def)
    also have "\<dots> = mfm_word d (ulong_at c (p - 2))"
    proof (rule bit_word_eqI)
      fix j assume "j < LENGTH(32)"
      then show "bit (if q then mfm_word d v AND NOT (push_bit 31 1) else mfm_word d v OR push_bit 31 1) j =
          bit (mfm_word d (ulong_at c (p - 2))) j"
        using top [of j "ulong_at c (p - 2)"] b False
        by (cases "j = 31"; cases q) (simp_all only: bit_and_iff bit_or_iff bit_not_iff bit_top q_def if_True if_False
            possible_bit_word simp_thms, auto)
    qed
    finally show ?thesis .
  qed
qed

lemma mfm_fix_other: "j \<noteq> p \<Longrightarrow> j \<noteq> p + 1 \<Longrightarrow> mfm_fix p c j = c j"
  by (simp add: mfm_fix_def Let_def put_ulong_other)

text \<open>
  What \<open>mfm\<close> does: a run of encoded words after whatever stands in front, and nothing else. The stale word
  the loop looks at for the first even word does not matter.
\<close>

lemma mfm_effect:
  assumes "2 \<le> mfmbuf s" and "xs \<noteq> []"
  shows "holds (chip_bits (chip (mfm xs s))) (16 * mfmbuf s) (mfm_words (chip_bits (chip s) (16 * mfmbuf s - 1)) (split xs))"
    and "j < mfmbuf s \<or> mfmbuf s + 4 * length xs \<le> j \<Longrightarrow> chip (mfm xs s) j = chip s j"
proof -
  define m c where "m = mfmbuf s" and "c = chip s"
  obtain x ys where xs: "xs = x # ys" using assms(2) by (cases xs) auto
  let ?pe = "m + 2 * length xs"
  define w where "w = mfm_word (hi_bits x) (ulong_at c (m - 2))"
  define c1 where "c1 = put_ulong m w c"
  define v where "v = mfm_word (lo_bits x) (ulong_at c1 (?pe - 2))"
  define c2 where "c2 = put_ulong ?pe v c1"
  define c3 where "c3 = mfm_loop (m + 2) (?pe + 2) ys c2"
  have m: "2 \<le> m" using assms by (simp add: m_def)
  have loop: "mfm_loop m ?pe xs c = c3"
    by (simp add: xs Let_def w_def v_def c1_def c2_def c3_def hi_bits_def lo_bits_def)
  have res: "chip (mfm xs s) = mfm_fix ?pe c3" by (simp add: mfm_def Let_def m_def c_def loop [unfolded m_def c_def])
  have c2: "ulong_at c2 m = w" "ulong_at c2 ?pe = v" by (simp_all add: c2_def c1_def xs)
  have w: "w = mfm_word (hi_bits x) (of_bool (chip_bits c (16 * m - 1)))" "bit w 0 = bit (hi_bits x) 0"
    using ulong_bit0 [OF m] by (auto simp: w_def bit_mfm_word intro: mfm_word_before)
  have v: "bit v 0 = bit (lo_bits x) 0" by (simp add: v_def bit_mfm_word)
  have pre: "2 \<le> m + 2" "m + 2 + 2 * length ys + 2 \<le> ?pe + 2" by (simp_all add: xs)
  have e: "m + 2 - 2 = m" "?pe + 2 - 2 = ?pe" by simp_all
  have ys: "ulong_at c3 (m + 2 + 2 * i) = mfm_words (bit (hi_bits x) 0) (map hi_bits ys) ! i"
    "ulong_at c3 (?pe + 2 + 2 * i) = mfm_words (bit (lo_bits x) 0) (map lo_bits ys) ! i" if "i < length ys" for i
    using mfm_loop_words [OF pre, of c2, unfolded e c2 w(2) v, folded c3_def] that by blast+
  have c3: "ulong_at c3 m = w" "ulong_at c3 ?pe = v"
  proof -
    have "c3 j = c2 j" if "j < m + 2 \<or> (?pe \<le> j \<and> j < ?pe + 2)" for j
      unfolding c3_def by (rule mfm_loop_frame) (use that in \<open>auto simp: xs\<close>)
    then have "ulong_at c3 m = ulong_at c2 m" "ulong_at c3 ?pe = ulong_at c2 ?pe" by (auto intro!: ulong_cong)
    then show "ulong_at c3 m = w" "ulong_at c3 ?pe = v" by (simp_all add: c2)
  qed
  have hi: "ulong_at c3 (m + 2 * i) = mfm_words (chip_bits c (16 * m - 1)) (map hi_bits xs) ! i" if "i < length xs" for i
  proof (cases i)
    case 0
    then show ?thesis using c3(1) by (simp add: xs w(1))
  next
    case (Suc k)
    then show ?thesis using ys [of k] that by (simp add: xs)
  qed
  define p where "p = bit (last (map hi_bits xs)) 0"
  have last: "bit (ulong_at c3 (?pe - 2)) 0 = p"
  proof -
    have ne: "mfm_words q (map hi_bits xs) \<noteq> []" for q using assms(2) by simp
    have "?pe - 2 = m + 2 * (length xs - 1)" by (simp add: xs)
    moreover have "length xs - 1 < length xs" using assms(2) by simp
    ultimately have e: "ulong_at c3 (?pe - 2) = last (mfm_words (chip_bits c (16 * m - 1)) (map hi_bits xs))"
      using hi [of "length xs - 1"] unfolding last_conv_nth [OF ne] by simp
    have "bit (last (mfm_words q ds)) 0 = bit (last ds) 0" if "ds \<noteq> []" "list_all masked ds" for q ds
      using that by (induction ds arbitrary: q) (auto simp: bit_mfm_word)
    then show ?thesis unfolding e p_def using assms(2) by (simp add: list_all_iff)
  qed
  have lo: "ulong_at (mfm_fix ?pe c3) (?pe + 2 * i) = mfm_words p (map lo_bits xs) ! i" if "i < length xs" for i
  proof (cases i)
    case 0
    have "ulong_at (mfm_fix ?pe c3) ?pe = mfm_word (lo_bits x) (ulong_at c3 (?pe - 2))"
      by (rule mfm_fix_word [OF _ c3(2) [unfolded v_def]]) (use m in simp_all)
    also have "\<dots> = mfm_word (lo_bits x) (of_bool p)" using last by (intro mfm_word_before) simp
    finally show ?thesis using 0 by (simp add: xs)
  next
    case (Suc k)
    have "ulong_at (mfm_fix ?pe c3) (?pe + 2 * i) = ulong_at c3 (?pe + 2 * i)"
      using Suc by (intro ulong_cong mfm_fix_other) auto
    then show ?thesis using ys [of k] that Suc by (simp add: xs)
  qed
  have hi': "ulong_at (mfm_fix ?pe c3) (m + 2 * i) = ulong_at c3 (m + 2 * i)" if "i < length xs" for i
    using that by (intro ulong_cong mfm_fix_other) auto
  have "holds (chip_bits (mfm_fix ?pe c3)) (16 * m) (mfm_words (chip_bits c (16 * m - 1)) (map hi_bits xs))"
    by (simp add: holds_ulong hi hi')
  moreover have "holds (chip_bits (mfm_fix ?pe c3)) (16 * ?pe) (mfm_words p (map lo_bits xs))"
    unfolding holds_ulong length_mfm_words length_map using lo by blast
  ultimately show "holds (chip_bits (chip (mfm xs s))) (16 * mfmbuf s)
      (mfm_words (chip_bits (chip s) (16 * mfmbuf s - 1)) (split xs))"
    unfolding res split_def mfm_words_append using assms(2)
    by (simp add: m_def c_def p_def algebra_simps)
  show "chip (mfm xs s) j = chip s j" if "j < mfmbuf s \<or> mfmbuf s + 4 * length xs \<le> j"
  proof -
    have "mfm_fix ?pe c3 j = c3 j" using that assms(2) by (intro mfm_fix_other) (auto simp: m_def xs)
    also have "\<dots> = mfm_loop m ?pe xs c j" by (simp add: loop)
    also have "\<dots> = c j" using that by (intro mfm_loop_frame) (auto simp: m_def)
    finally show ?thesis by (simp add: res c_def)
  qed
qed

lemma mfm_fields [simp]:
  "mfmbuf (mfm xs s) = mfmbuf s + 4 * length xs" "umem (mfm xs s) = umem s" "track (mfm xs s) = track s"
  "drive (mfm xs s) = drive s" "buffer (mfm xs s) = buffer s" "mfmlim (mfm xs s) = mfmlim s" "hdr (mfm xs s) = hdr s"
  "shift (mfm xs s) = shift s"
  by (simp_all add: mfm_def Let_def)

section \<open>The words of a sector\<close>

text \<open>The header \<open>putsec\<close> writes, the data bits of a sector, and the words of a sector after a bit \<open>p\<close>.\<close>

definition sector_hdr :: "u32 \<Rightarrow> nat \<Rightarrow> u32 list \<Rightarrow> sechdr" where
  "sector_hdr trk sec block =
    (let h = \<lparr> h_magic = SECOK, h_trk = ucast trk, h_sec = of_nat sec, h_ord = of_nat (NSEC - sec),
               h_label = replicate 4 0, h_hdrchk = 0, h_datachk = chksum block \<rparr>
     in h\<lparr> h_hdrchk := chksum (hdr_id h # h_label h) \<rparr>)"

definition sector_bits :: "sechdr \<Rightarrow> u32 list \<Rightarrow> u32 list" where
  "sector_bits h block = split [hdr_id h] @ split (h_label h) @ split [h_hdrchk h] @ split [h_datachk h] @ split block"

definition sector_words :: "bool \<Rightarrow> u32 \<Rightarrow> nat \<Rightarrow> u32 list \<Rightarrow> u32 list" where
  "sector_words p trk sec block =
    [if p then 0x2AAAAAAA else 0xAAAAAAAA, sync_key] @ mfm_words True (sector_bits (sector_hdr trk sec block) block)"

lemma length_longs [simp]: "length (longs m p n) = n"
  by (simp add: longs_def)

lemma length_sector_hdr [simp]: "length (h_label (sector_hdr trk sec block)) = 4"
  by (simp add: sector_hdr_def Let_def)

lemma length_sector_bits: "length (sector_bits h block) = 6 + 2 * length (h_label h) + 2 * length block"
  by (simp add: sector_bits_def)

lemma length_sector_words [simp]: "length block = 128 \<Longrightarrow> length (sector_words p trk sec block) = 272"
  by (simp add: sector_words_def length_sector_bits)

lemma masked_sector_bits: "list_all masked (sector_bits h block)"
  by (simp add: sector_bits_def masked_split)

lemma holds_frame:
  assumes "holds (chip_bits c) (16 * m) ws" and "\<And>j. m \<le> j \<Longrightarrow> j < m + 2 * length ws \<Longrightarrow> c' j = c j"
  shows "holds (chip_bits c') (16 * m) ws"
  using assms unfolding holds_ulong by (simp add: ulong_at_def)

lemma bit_frame: "1 \<le> i \<Longrightarrow> c' (i - 1) = c (i - 1) \<Longrightarrow> chip_bits c' (16 * i - 1) = chip_bits c (16 * i - 1)"
  using chip_bit0 [of i c] chip_bit0 [of i c'] by simp

lemma holds_last:
  assumes "holds b P ws" and "ws \<noteq> []"
  shows "b (P + 32 * length ws - 1) = bit (last ws) 0"
proof -
  have "word_at b (P + 32 * (length ws - 1)) = last ws"
    using assms by (simp add: holds_def last_conv_nth)
  then have "b (P + 32 * (length ws - 1) + 31) = bit (last ws) 0"
    using word_at_bit [of b _ "last ws" 31] by simp
  moreover have "P + 32 * (length ws - 1) + 31 = P + 32 * length ws - 1" using assms(2) by (cases ws) auto
  ultimately show ?thesis by simp
qed

lemma last_mfm_words: "ds \<noteq> [] \<Longrightarrow> list_all masked ds \<Longrightarrow> bit (last (mfm_words q ds)) 0 = bit (last ds) 0"
  by (induction ds arbitrary: q) (auto simp: bit_mfm_word)

lemma mfm_extend:
  assumes h: "holds (chip_bits (chip s)) (16 * m) (A @ mfm_words q ds)"
    and pos: "mfmbuf s = m + 2 * length (A @ ds)" and "1 \<le> m" and "A \<noteq> []" and q: "bit (last A) 0 = q"
    and ds: "list_all masked ds" and xs: "xs \<noteq> []"
  shows "holds (chip_bits (chip (mfm xs s))) (16 * m) (A @ mfm_words q (ds @ split xs))"
proof -
  let ?c = "chip (mfm xs s)" and ?p = "if ds = [] then q else bit (last ds) 0"
  have 2: "2 \<le> mfmbuf s" using pos assms(3,4) by (cases A) auto
  have "holds (chip_bits ?c) (16 * m) (A @ mfm_words q ds)"
    using mfm_effect(2) [OF 2 xs] pos by (intro holds_frame [OF h]) simp
  moreover have "chip_bits (chip s) (16 * mfmbuf s - 1) = ?p"
  proof -
    have "16 * mfmbuf s - 1 = 16 * m + 32 * length (A @ mfm_words q ds) - 1" using pos by simp
    then have "chip_bits (chip s) (16 * mfmbuf s - 1) = bit (last (A @ mfm_words q ds)) 0"
      using holds_last [OF h] assms(4) by simp
    also have "\<dots> = ?p" using q ds by (simp add: last_mfm_words)
    finally show ?thesis .
  qed
  moreover have "16 * mfmbuf s = 16 * m + 32 * length (A @ mfm_words q ds)" using pos by simp
  ultimately show ?thesis
    using mfm_effect(1) [OF 2 xs] unfolding mfm_words_append append_assoc [symmetric]
    by (subst holds_append) simp
qed

definition putsec_hdr :: "nat \<Rightarrow> fl \<Rightarrow> sechdr" where
  "putsec_hdr sec s = sector_hdr (track s) sec (longs (umem s) (buffer s) 128)"

lemma putsec_eq:
  "putsec sec s =
    (let h = putsec_hdr sec s; block = longs (umem s) (buffer s) 128;
         s = mfm block (mfm [h_datachk h] (mfm [h_hdrchk h] (mfm (h_label h) (mfm [hdr_id h] ((putmagic s)\<lparr> hdr := h \<rparr>)))))
     in s\<lparr> buffer := buffer s + 128 \<rparr>)"
  by (simp add: putsec_def putsec_hdr_def sector_hdr_def Let_def putmagic_def hdr_id_def)

lemma putmagic_effect:
  assumes "2 \<le> mfmbuf s"
  shows "holds (chip_bits (chip (putmagic s))) (16 * mfmbuf s)
      [if chip_bits (chip s) (16 * mfmbuf s - 1) then 0x2AAAAAAA else 0xAAAAAAAA, sync_key]"
    and "j < mfmbuf s \<or> mfmbuf s + 4 \<le> j \<Longrightarrow> chip (putmagic s) j = chip s j"
proof -
  let ?m = "mfmbuf s" and ?c = "chip (putmagic s)"
  have p: "bit (chip s (?m - 1)) 0 = chip_bits (chip s) (16 * ?m - 1)"
    using assms by (intro chip_bit0) simp
  have c: "?c ?m = (if chip_bits (chip s) (16 * ?m - 1) then 0x2AAA else 0xAAAA)" "?c (?m + 1) = 0xAAAA"
    "?c (?m + 2) = 0x4489" "?c (?m + 2 + 1) = 0x4489"
    using p by (simp_all add: putmagic_def Let_def)
  have l: "ulong_at ?c ?m = (if chip_bits (chip s) (16 * ?m - 1) then 0x2AAAAAAA else 0xAAAAAAAA)"
    "ulong_at ?c (?m + 2) = sync_key"
    unfolding ulong_at_def c by simp_all
  have e: "16 * ?m + 32 = 16 * (?m + 2)" by simp
  show "holds (chip_bits ?c) (16 * ?m) [if chip_bits (chip s) (16 * ?m - 1) then 0x2AAAAAAA else 0xAAAAAAAA, sync_key]"
    unfolding holds_Cons e ulong_at_word [symmetric] l by simp
  show "j < ?m \<or> ?m + 4 \<le> j \<Longrightarrow> ?c j = chip s j" by (auto simp: putmagic_def Let_def)
qed

lemma putmagic_fields [simp]:
  "mfmbuf (putmagic s) = mfmbuf s + 4" "umem (putmagic s) = umem s" "track (putmagic s) = track s"
  "drive (putmagic s) = drive s" "buffer (putmagic s) = buffer s" "mfmlim (putmagic s) = mfmlim s"
  by (simp_all add: putmagic_def Let_def)

lemma putsec_effect:
  assumes m: "2 \<le> mfmbuf s"
  shows "holds (chip_bits (chip (putsec sec s))) (16 * mfmbuf s)
      (sector_words (chip_bits (chip s) (16 * mfmbuf s - 1)) (track s) sec (longs (umem s) (buffer s) 128))"
    and "j < mfmbuf s \<or> mfmbuf s + 544 \<le> j \<Longrightarrow> chip (putsec sec s) j = chip s j"
    and "mfmbuf (putsec sec s) = mfmbuf s + 544" "umem (putsec sec s) = umem s" "track (putsec sec s) = track s"
      "drive (putsec sec s) = drive s" "buffer (putsec sec s) = buffer s + 128" "mfmlim (putsec sec s) = mfmlim s"
proof -
  define h block where "h = putsec_hdr sec s" and "block = longs (umem s) (buffer s) 128"
  define s0 where "s0 = (putmagic s)\<lparr> hdr := h \<rparr>"
  define s1 where "s1 = mfm [hdr_id h] s0"
  define s2 where "s2 = mfm (h_label h) s1"
  define s3 where "s3 = mfm [h_hdrchk h] s2"
  define s4 where "s4 = mfm [h_datachk h] s3"
  define s5 where "s5 = mfm block s4"
  have eq: "putsec sec s = s5\<lparr> buffer := buffer s5 + 128 \<rparr>"
    by (simp add: putsec_eq Let_def s0_def s1_def s2_def s3_def s4_def s5_def h_def block_def)
  have lab: "length (h_label h) = 4" and blk: "length block = 128" by (simp_all add: h_def putsec_hdr_def block_def)
  have ne: "h_label h \<noteq> []" "block \<noteq> []" using lab blk by auto
  let ?m = "mfmbuf s" and ?p = "chip_bits (chip s) (16 * mfmbuf s - 1)"
  define A :: "u32 list" where "A = [if ?p then 0x2AAAAAAA else 0xAAAAAAAA, sync_key]"
  have A: "length A = 2" "A \<noteq> []" "bit (last A) 0 = True" by (simp_all add: A_def)
  have pos: "mfmbuf s0 = ?m + 4" "mfmbuf s1 = ?m + 8" "mfmbuf s2 = ?m + 24" "mfmbuf s3 = ?m + 28" "mfmbuf s4 = ?m + 32"
    "mfmbuf s5 = ?m + 544"
    by (simp_all add: s0_def s1_def s2_def s3_def s4_def s5_def lab blk)
  have 0: "holds (chip_bits (chip s0)) (16 * ?m) (A @ mfm_words True [])"
    using putmagic_effect(1) [OF m] by (simp add: s0_def A_def)
  have 1: "holds (chip_bits (chip s1)) (16 * ?m) (A @ mfm_words True ([] @ split [hdr_id h]))"
    unfolding s1_def by (rule mfm_extend [OF 0]) (use m A pos in simp_all)
  have 2: "holds (chip_bits (chip s2)) (16 * ?m) (A @ mfm_words True (split [hdr_id h] @ split (h_label h)))"
    unfolding s2_def by (rule mfm_extend [OF 1 [unfolded append_Nil]]) (use m A pos ne in \<open>simp_all add: masked_split\<close>)
  have 3: "holds (chip_bits (chip s3)) (16 * ?m) (A @ mfm_words True ((split [hdr_id h] @ split (h_label h)) @ split [h_hdrchk h]))"
    unfolding s3_def by (rule mfm_extend [OF 2]) (use m A pos lab in \<open>simp_all add: masked_split\<close>)
  have 4: "holds (chip_bits (chip s4)) (16 * ?m)
      (A @ mfm_words True (((split [hdr_id h] @ split (h_label h)) @ split [h_hdrchk h]) @ split [h_datachk h]))"
    unfolding s4_def by (rule mfm_extend [OF 3]) (use m A pos lab in \<open>simp_all add: masked_split\<close>)
  have 5: "holds (chip_bits (chip s5)) (16 * ?m)
      (A @ mfm_words True ((((split [hdr_id h] @ split (h_label h)) @ split [h_hdrchk h]) @ split [h_datachk h]) @ split block))"
    unfolding s5_def by (rule mfm_extend [OF 4]) (use m A pos lab ne in \<open>simp_all add: masked_split\<close>)
  have "chip (putsec sec s) = chip s5" by (simp add: eq)
  with 5 show "holds (chip_bits (chip (putsec sec s))) (16 * ?m)
      (sector_words ?p (track s) sec (longs (umem s) (buffer s) 128))"
    by (simp only: sector_words_def sector_bits_def A_def append_assoc h_def putsec_hdr_def block_def)
  show "chip (putsec sec s) j = chip s j" if "j < ?m \<or> ?m + 544 \<le> j"
  proof -
    have "chip s5 j = chip s4 j" unfolding s5_def using that pos blk ne m by (intro mfm_effect(2)) auto
    also have "\<dots> = chip s3 j" unfolding s4_def using that pos m by (intro mfm_effect(2)) auto
    also have "\<dots> = chip s2 j" unfolding s3_def using that pos m by (intro mfm_effect(2)) auto
    also have "\<dots> = chip s1 j" unfolding s2_def using that pos lab ne m by (intro mfm_effect(2)) auto
    also have "\<dots> = chip s0 j" unfolding s1_def using that pos m by (intro mfm_effect(2)) auto
    also have "\<dots> = chip s j" unfolding s0_def using that m by (auto intro: putmagic_effect(2))
    finally show ?thesis by (simp add: eq)
  qed
  show "mfmbuf (putsec sec s) = ?m + 544" "umem (putsec sec s) = umem s" "track (putsec sec s) = track s"
    "drive (putsec sec s) = drive s" "buffer (putsec sec s) = buffer s + 128" "mfmlim (putsec sec s) = mfmlim s"
    using pos by (simp_all add: eq s0_def s1_def s2_def s3_def s4_def s5_def)
qed

section \<open>The words of a track\<close>

lemma put_sectors_effect:
  "2 \<le> mfmbuf s \<Longrightarrow>
    (\<forall>i < k. holds (chip_bits (chip (put_sectors n k s))) (16 * (mfmbuf s + 544 * i))
      (sector_words (chip_bits (chip (put_sectors n k s)) (16 * (mfmbuf s + 544 * i) - 1)) (track s) (n + i)
        (longs (umem s) (buffer s + 128 * i) 128))) \<and>
    (\<forall>j. j < mfmbuf s \<or> mfmbuf s + 544 * k \<le> j \<longrightarrow> chip (put_sectors n k s) j = chip s j) \<and>
    mfmbuf (put_sectors n k s) = mfmbuf s + 544 * k \<and> mfmlim (put_sectors n k s) = mfmlim s \<and>
    umem (put_sectors n k s) = umem s \<and> track (put_sectors n k s) = track s \<and> drive (put_sectors n k s) = drive s"
proof (induction k arbitrary: n s)
  case (Suc k)
  let ?m = "mfmbuf s" and ?t = "putsec n s" and ?u = "put_sectors (n + 1) k (putsec n s)"
  note e = putsec_effect [OF Suc.prems, where sec = n]
  have ih: "(\<forall>i < k. holds (chip_bits (chip ?u)) (16 * (?m + 544 + 544 * i))
      (sector_words (chip_bits (chip ?u) (16 * (?m + 544 + 544 * i) - 1)) (track s) (n + 1 + i)
        (longs (umem s) (buffer s + 128 + 128 * i) 128)))"
    "\<And>j. j < ?m + 544 \<or> ?m + 544 + 544 * k \<le> j \<Longrightarrow> chip ?u j = chip ?t j"
    "mfmbuf ?u = ?m + 544 + 544 * k" "mfmlim ?u = mfmlim s" "umem ?u = umem s" "track ?u = track s" "drive ?u = drive s"
    using Suc.IH [of ?t "n + 1"] Suc.prems by (auto simp: e)
  have first: "holds (chip_bits (chip ?u)) (16 * ?m)
      (sector_words (chip_bits (chip ?u) (16 * ?m - 1)) (track s) n (longs (umem s) (buffer s) 128))"
  proof -
    have "?m - 1 < ?m + 544" "?m - 1 < ?m" using Suc.prems by linarith+
    then have "chip ?u (?m - 1) = chip s (?m - 1)" using ih(2) e(2) by metis
    then have "chip_bits (chip ?u) (16 * ?m - 1) = chip_bits (chip s) (16 * ?m - 1)"
      using Suc.prems by (intro bit_frame) auto
    then show ?thesis using ih(2) by (simp only:) (rule holds_frame [OF e(1)], simp)
  qed
  have "holds (chip_bits (chip ?u)) (16 * (?m + 544 * i))
      (sector_words (chip_bits (chip ?u) (16 * (?m + 544 * i) - 1)) (track s) (n + i)
        (longs (umem s) (buffer s + 128 * i) 128))" if "i < Suc k" for i
  proof (cases i)
    case 0
    then show ?thesis using first by simp
  next
    case (Suc l)
    then show ?thesis using ih(1) [rule_format, of l] that by (simp add: algebra_simps)
  qed
  then show ?case using ih e(2) by (auto simp: algebra_simps)
qed simp

lemma slop_effect:
  "(\<forall>i < n. ulong_at (slop_loop p n c) (p + 2 * i) = 0xAAAAAAAA) \<and>
   (\<forall>j. j < p \<or> p + 2 * n \<le> j \<longrightarrow> slop_loop p n c j = c j)"
proof (induction n arbitrary: p c)
  case (Suc n)
  let ?c = "put_ulong p 0xAAAAAAAA c"
  have ih: "\<And>i. i < n \<Longrightarrow> ulong_at (slop_loop (p + 2) n ?c) (p + 2 + 2 * i) = 0xAAAAAAAA"
    "\<And>j. j < p + 2 \<or> p + 2 + 2 * n \<le> j \<Longrightarrow> slop_loop (p + 2) n ?c j = ?c j"
    using Suc.IH [of "p + 2" ?c] by blast+
  have "ulong_at (slop_loop (p + 2) n ?c) p = ulong_at ?c p"
    by (intro ulong_cong ih) auto
  then have "ulong_at (slop_loop (p + 2) n ?c) (p + 2 * i) = 0xAAAAAAAA" if "i < Suc n" for i
    using ih(1) [of "i - 1"] that by (cases i) (auto simp: algebra_simps)
  then show ?case using ih(2) put_ulong_other [of _ p] by auto
qed simp

end
