(* ===== verification/Floppy_Track.thy ===== *)
theory Floppy_Track
  imports Floppy_Encode
begin

text \<open>
  A whole track as a stream of bits: what \<open>fdputaml\<close> puts into the buffer, the MFM rule on it, and what \<open>gethdr\<close> makes
  of a sector. The buffer written is longer than a track, so its end runs over its beginning; the track is then
  the last \<open>L\<close> bits written, joined to a ring.
\<close>

section \<open>The rule of MFM\<close>

definition mfm_rule :: "(nat \<Rightarrow> bool) \<Rightarrow> nat \<Rightarrow> bool" where
  "mfm_rule b y \<longleftrightarrow> b y = (\<not> b (y - 1) \<and> \<not> b (y + 1))"

lemma mfm_words_at:
  assumes "holds b P (mfm_words p ds)" and "list_all masked ds" and "b (P - 1) = p" and "i < length ds"
  shows "word_at b (P + 32 * i) = mfm_word (ds ! i) (of_bool (b (P + 32 * i - 1)))"
  using assms
proof (induction ds arbitrary: p P i)
  case (Cons d ds)
  show ?case
  proof (cases i)
    case 0
    then show ?thesis using Cons.prems by simp
  next
    case (Suc k)
    have "b (P + 31) = bit (mfm_word d (of_bool p)) 0"
      using word_at_bit [of b P "mfm_word d (of_bool p)" 31] Cons.prems(1) by simp
    moreover have "P + 32 - 1 = P + 31" by simp
    ultimately have "b (P + 32 - 1) = bit d 0" using Cons.prems(2) by (simp only:) (simp add: bit_mfm_word)
    then have "word_at b (P + 32 + 32 * k) = mfm_word (ds ! k) (of_bool (b (P + 32 + 32 * k - 1)))"
      using Cons.prems Suc by (intro Cons.IH) auto
    then show ?thesis using Suc by (simp add: algebra_simps)
  qed
qed simp

lemma mfm_words_rule:
  assumes h: "holds b P (mfm_words p ds)" and ds: "list_all masked ds" and p: "b (P - 1) = p"
  shows "i < length ds \<Longrightarrow> word_at b (P + 32 * i) AND DMASK = ds ! i"
    and "even y \<Longrightarrow> y < 32 * length ds \<Longrightarrow> mfm_rule b (P + y)"
proof -
  have w: "word_at b (P + 32 * i) = mfm_word (ds ! i) (of_bool (b (P + 32 * i - 1)))" "masked (ds ! i)"
    if "i < length ds" for i
    using mfm_words_at [OF assms that] ds that by (simp_all add: list_all_length)
  show "word_at b (P + 32 * i) AND DMASK = ds ! i" if "i < length ds" for i
  proof (rule bit_word_eqI)
    fix j assume "j < LENGTH(32)"
    then show "bit (word_at b (P + 32 * i) AND DMASK) j = bit (ds ! i) j"
      using masked_odd [OF w(2) [OF that], of j] w [OF that]
      by (cases "even j") (simp_all add: bit_and_iff bit_DMASK bit_mfm_word)
  qed
  show "mfm_rule b (P + y)" if y: "even y" "y < 32 * length ds" for y
  proof -
    define i j where "i = y div 32" and "j = y mod 32"
    have yij: "P + y = P + 32 * i + j" by (simp add: i_def j_def)
    have "y = 32 * i + j" by (simp add: i_def j_def)
    then have "even j" using y(1) by simp
    moreover have "j < 32" by (simp add: j_def)
    ultimately have j: "j < 31" "even j" by (cases "j = 31"; simp)+
    have i: "i < length ds" using y(2) by (simp add: i_def less_mult_imp_div_less mult.commute)
    let ?d = "ds ! i"
    have bits: "b (P + 32 * i + l) = bit (mfm_word ?d (of_bool (b (P + 32 * i - 1)))) (31 - l)" if "l < 32" for l
      using word_at_bit [OF w(1) [OF i] that] .
    note m = bit_mfm_word [OF w(2) [OF i]]
    have 0: "b (P + y) = (\<not> (bit ?d (30 - j) \<or> (if j = 0 then b (P + 32 * i - 1) else bit ?d (32 - j))))"
    proof -
      have o: "odd (31 - j)" "31 - j - 1 = 30 - j" "31 - j + 1 = 32 - j" "(31 - j = 31) = (j = 0)" using j by auto
      show ?thesis unfolding yij using bits [of j] m [of "31 - j"] o j(1) by simp
    qed
    have 1: "b (P + y + 1) = bit ?d (30 - j)"
    proof -
      have "even (30 - j)" "31 - (j + 1) = 30 - j" using j by auto
      then show ?thesis unfolding yij using bits [of "j + 1"] m [of "30 - j"] j(1) by simp
    qed
    have 2: "b (P + y - 1) = (if j = 0 then b (P + 32 * i - 1) else bit ?d (32 - j))"
    proof (cases "j = 0")
      case True
      then show ?thesis by (simp add: yij)
    next
      case False
      then have j2: "2 \<le> j" using j(2) by (metis One_nat_def Suc_leI even_Suc_Suc_iff less_2_cases_iff not_less odd_one One_nat_def)
      then have "even (32 - j)" "31 - (j - 1) = 32 - j" "P + y - 1 = P + 32 * i + (j - 1)" "j - 1 < 32"
        using j by (auto simp: yij)
      then show ?thesis using bits [of "j - 1"] m [of "32 - j"] False j2 by simp
    qed
    show ?thesis unfolding mfm_rule_def 0 1 2 by blast
  qed
qed

section \<open>A sector of the stream\<close>

text \<open>What a reader sees of a sector at position \<open>P\<close>.\<close>

definition sector_at :: "(nat \<Rightarrow> bool) \<Rightarrow> nat \<Rightarrow> sechdr \<Rightarrow> u32 list \<Rightarrow> bool" where
  "sector_at b P h block \<longleftrightarrow>
    word_at b P AND NOT (push_bit 31 1) = 0x2AAAAAAA \<and> word_at b (P + 32) = sync_key \<and>
    decode_at b (P + 64) 1 = [hdr_id h] \<and> decode_at b (P + 128) 4 = h_label h \<and>
    decode_at b (P + 384) 1 = [h_hdrchk h] \<and> decode_at b (P + 448) 1 = [h_datachk h] \<and>
    decode_at b (P + 512) 128 = block"

lemma decode_at_cong:
  assumes "\<And>j. j < 64 * n \<Longrightarrow> b (q + j) = b' (q' + j)"
  shows "decode_at b q n = decode_at b' q' n"
proof -
  have "word_at b (q + 32 * i) = word_at b' (q' + 32 * i)" if "i < 2 * n" for i
  proof (rule word_at_cong)
    fix j :: nat assume "j < 32"
    then have "32 * i + j < 64 * n" using that by linarith
    then show "b (q + 32 * i + j) = b' (q' + 32 * i + j)" using assms [of "32 * i + j"] by (simp add: add.assoc)
  qed
  note w = this
  have "word_at b (q + 32 * n + 32 * i) = word_at b' (q' + 32 * n + 32 * i)" if "i < n" for i
    using w [of "n + i"] that by (simp add: algebra_simps)
  with w show ?thesis by (simp add: decode_at_def)
qed

lemma sector_at_cong:
  assumes "sector_at b P h block" and eq: "\<And>j. j < 8704 \<Longrightarrow> b' (P' + j) = b (P + j)"
  shows "sector_at b' P' h block"
proof -
  have d: "decode_at b' (P' + k) n = decode_at b (P + k) n" if "k + 64 * n \<le> 8704" for k n
    by (rule decode_at_cong) (use eq [of "k + j" for j] that in \<open>simp add: add.assoc\<close>)
  have w: "word_at b' (P' + k) = word_at b (P + k)" if "k + 32 \<le> 8704" for k
    by (rule word_at_cong) (use eq [of "k + j" for j] that in \<open>simp add: add.assoc\<close>)
  show ?thesis
    using assms(1) d [of 64 1] d [of 128 4] d [of 384 1] d [of 448 1] d [of 512 128] w [of 0] w [of 32]
    by (simp add: sector_at_def)
qed

lemma decode_split_at:
  assumes "\<And>i. i < length ds \<Longrightarrow> word_at b (Q + 32 * i) AND DMASK = ds ! i" and "ds = A @ split xs @ B"
  shows "decode_at b (Q + 32 * length A) (length xs) = xs"
proof (rule nth_equalityI)
  show "length (decode_at b (Q + 32 * length A) (length xs)) = length xs" by (simp add: decode_at_def)
  fix i assume "i < length (decode_at b (Q + 32 * length A) (length xs))"
  then have i: "i < length xs" by (simp add: decode_at_def)
  have ds: "length ds = length A + 2 * length xs + length B" by (simp add: assms(2))
  have 1: "word_at b (Q + 32 * length A + 32 * i) AND DMASK = hi_bits (xs ! i)"
    using assms(1) [of "length A + i"] i ds by (simp add: assms(2) nth_append split_def algebra_simps)
  have 2: "word_at b (Q + 32 * length A + 32 * length xs + 32 * i) AND DMASK = lo_bits (xs ! i)"
    using assms(1) [of "length A + length xs + i"] i ds by (simp add: assms(2) nth_append split_def algebra_simps)
  have "decode_at b (Q + 32 * length A) (length xs) ! i =
      decode_long (word_at b (Q + 32 * length A + 32 * i)) (word_at b (Q + 32 * length A + 32 * length xs + 32 * i))"
    using i by (simp add: decode_at_def)
  also have "\<dots> = decode_long (hi_bits (xs ! i)) (lo_bits (xs ! i))"
    unfolding 1 [symmetric] 2 [symmetric] by (simp only: decode_long_mask)
  finally show "decode_at b (Q + 32 * length A) (length xs) ! i = xs ! i" by (simp add: decode_split)
qed

lemma sector_stream:
  assumes h: "holds b P (sector_words (b (P - 1)) trk sec block)" and P: "1 \<le> P" and blk: "length block = 128"
  shows "sector_at b P (sector_hdr trk sec block) block"
    and "key_at b (P + 32)"
    and "even y \<Longrightarrow> y < 8704 \<Longrightarrow> y \<noteq> 42 \<Longrightarrow> y \<noteq> 58 \<Longrightarrow> mfm_rule b (P + y)"
proof -
  let ?h = "sector_hdr trk sec block"
  let ?ds = "sector_bits ?h block"
  have w0: "word_at b P = (if b (P - 1) then 0x2AAAAAAA else 0xAAAAAAAA)" and w1: "word_at b (P + 32) = sync_key"
    and ws: "holds b (P + 64) (mfm_words True ?ds)"
    using h by (simp_all add: sector_words_def add.assoc)
  have len: "length ?ds = 270" by (simp add: length_sector_bits blk)
  have b0: "b (P + j) = (if j = 0 then \<not> b (P - 1) else even j)" if "j < 32" for j
  proof -
    have "list_all (\<lambda>j. bit (0x2AAAAAAA :: u32) (31 - j) = (j \<noteq> 0 \<and> even j) \<and> bit (0xAAAAAAAA :: u32) (31 - j) = even j) [0..<32]"
      by code_simp
    then have e: "bit (0x2AAAAAAA :: u32) (31 - j) = (j \<noteq> 0 \<and> even j)" "bit (0xAAAAAAAA :: u32) (31 - j) = even j"
      using that by (simp_all only: list_all_iff set_upt atLeastLessThan_iff) auto
    show ?thesis using word_at_bit [OF w0 that] by (simp only: e split: if_splits) auto
  qed
  have b1: "b (P + 32 + j) = bit sync_key (31 - j)" if "j < 32" for j
    by (rule word_at_bit [OF w1 that])
  have "P + 64 - 1 = P + 32 + 31" by simp
  then have last: "b (P + 64 - 1) = True" using b1 [of 31] by (simp only:) simp
  note body = mfm_words_rule [OF ws masked_sector_bits last, unfolded len]
  note dec = decode_split_at [of ?ds b "P + 64", unfolded len, OF body(1)]
  have ds: "?ds = [] @ split [hdr_id ?h] @ (split (h_label ?h) @ split [h_hdrchk ?h] @ split [h_datachk ?h] @ split block)"
    "?ds = split [hdr_id ?h] @ split (h_label ?h) @ (split [h_hdrchk ?h] @ split [h_datachk ?h] @ split block)"
    "?ds = (split [hdr_id ?h] @ split (h_label ?h)) @ split [h_hdrchk ?h] @ (split [h_datachk ?h] @ split block)"
    "?ds = (split [hdr_id ?h] @ split (h_label ?h) @ split [h_hdrchk ?h]) @ split [h_datachk ?h] @ split block"
    "?ds = (split [hdr_id ?h] @ split (h_label ?h) @ split [h_hdrchk ?h] @ split [h_datachk ?h]) @ split block @ []"
    by (simp_all add: sector_bits_def)
  have "word_at b P AND NOT (push_bit 31 1) = 0x2AAAAAAA"
    unfolding w0 by (cases "b (P - 1)") simp_all
  then show "sector_at b P ?h block"
    unfolding sector_at_def using w1 dec [OF _ ds(1)] dec [OF _ ds(2)] dec [OF _ ds(3)] dec [OF _ ds(4)] dec [OF _ ds(5)]
    by (simp add: blk add.assoc)
  show "key_at b (P + 32)"
    unfolding key_at_def
  proof (intro conjI allI impI w1)
    fix j :: nat assume j: "0 < j \<and> j \<le> 31"
    then have "P + 32 - j = P + (32 - j)" by simp
    then have "b (P + 32 - j) = even (32 - j)" using b0 [of "32 - j"] j by simp
    then show "b (P + 32 - j) = even j" using j by simp
  qed simp
  show "mfm_rule b (P + y)" if y: "even y" "y < 8704" "y \<noteq> 42" "y \<noteq> 58" for y
  proof -
    consider "y = 0" | "2 \<le> y" "y < 32" | "32 \<le> y" "y < 64" | "64 \<le> y"
      using y(1) by (cases "y = 0"; cases "y = 1"; linarith?) auto
    then show ?thesis
    proof cases
      case 1
      then show ?thesis using b0 [of 0] b0 [of 1] by (auto simp: mfm_rule_def)
    next
      case 2
      then have "y + 1 < 32" using y(1) by (metis Suc_eq_plus1 Suc_leI even_Suc even_numeral le_neq_implies_less)
      moreover have "P + y - 1 = P + (y - 1)" "odd (y - 1)" "y - 1 < 32" using 2 y(1) by auto
      ultimately show ?thesis unfolding mfm_rule_def
        using b0 [of y] b0 [of "y - 1"] b0 [of "y + 1"] 2 y(1) by (simp add: add.assoc)
    next
      case 3
      define j where "j = y - 32"
      have j: "y = 32 + j" "even j" "j < 32" "j \<noteq> 10" "j \<noteq> 26" using 3 y by (auto simp: j_def)
      have tab: "list_all (\<lambda>j. odd j \<or> j = 0 \<or> j = 10 \<or> j = 26 \<or>
          bit sync_key (31 - j) = (\<not> bit sync_key (31 - (j - 1)) \<and> \<not> bit sync_key (31 - (j + 1)))) [0..<32]"
        by code_simp
      have "j + 1 < 32" using j by (metis Suc_eq_plus1 Suc_leI even_Suc even_numeral le_neq_implies_less)
      show ?thesis
      proof (cases "j = 0")
        case True
        have "P + y - 1 = P + 31" using True j by simp
        then show ?thesis unfolding mfm_rule_def using b0 [of 31] b1 [of 0] b1 [of 1] True j by (simp add: add.assoc)
      next
        case False
        then have e: "P + y = P + 32 + j" "P + 32 + j - 1 = P + 32 + (j - 1)" "P + 32 + j + 1 = P + 32 + (j + 1)" using j by simp_all
        have "bit sync_key (31 - j) = (\<not> bit sync_key (31 - (j - 1)) \<and> \<not> bit sync_key (31 - (j + 1)))"
          using bspec [OF tab [unfolded list_all_iff set_upt], of j] j(2-5) False by (metis atLeastLessThan_iff le0)
        moreover have "b (P + 32 + (j - 1)) = bit sync_key (31 - (j - 1))" by (rule b1) (use j in simp)
        ultimately show ?thesis unfolding mfm_rule_def e b1 [OF j(3)] b1 [OF \<open>j + 1 < 32\<close>] by blast
      qed
    next
      case 4
      then have "P + y = P + 64 + (y - 64)" by simp
      then show ?thesis using body(2) [of "y - 64"] 4 y by simp
    qed
  qed
qed

section \<open>Reading the header of a sector\<close>

lemma demfm_sizes:
  assumes "shift s < 16"
  shows "demfm 8 s = (decode_at (chip_bits (chip s)) (16 * mfmbuf s + shift s) 1, s\<lparr> mfmbuf := mfmbuf s + 4 \<rparr>)"
    and "demfm 32 s = (decode_at (chip_bits (chip s)) (16 * mfmbuf s + shift s) 4, s\<lparr> mfmbuf := mfmbuf s + 16 \<rparr>)"
    and "demfm 1024 s = (decode_at (chip_bits (chip s)) (16 * mfmbuf s + shift s) 128, s\<lparr> mfmbuf := mfmbuf s + 512 \<rparr>)"
  using demfm_at [OF assms, of 1] demfm_at [OF assms, of 4] demfm_at [OF assms, of 128] by simp_all

lemma hdr_fields_at:
  assumes "shift s < 16" and "b = chip_bits (chip s)" and "q = 16 * mfmbuf s + shift s"
  shows "hdr_fields s = s\<lparr> mfmbuf := mfmbuf s + 28,
    hdr := (set_hdr_id (hd (decode_at b q 1)) (hdr s))\<lparr> h_label := decode_at b (q + 64) 4,
      h_hdrchk := hd (decode_at b (q + 320) 1), h_datachk := hd (decode_at b (q + 384) 1) \<rparr> \<rparr>"
  using assms by (simp add: hdr_fields_def Let_def demfm_sizes algebra_simps)

lemma decode_at_bits_range: "length (decode_at b q n) = n"
  by (simp add: decode_at_def)

lemma gethdr_sector:
  assumes sec: "sector_at (chip_bits (chip s)) (16 * mfmbuf s + shift s) h block" and sh: "shift s < 16"
    and lim: "mfmbuf s + 545 \<le> mfmlim s"
    and h: "h_magic h = SECOK" "unat (h_trk h) < TRACKS" "unat (h_sec h) < NSEC" "int (unat (h_ord h)) - 1 < int NSEC"
      "h_hdrchk h = chksum (hdr_id h # h_label h)" "ucast (h_trk h) = track s"
  shows "gethdr s = (True, s\<lparr> mfmbuf := mfmbuf s + 32, hdr := h \<rparr>)"
proof -
  define b q where "b = chip_bits (chip s)" and "q = 16 * mfmbuf s + shift s"
  define s0 where "s0 = s\<lparr> mfmbuf := mfmbuf s + 4 \<rparr>"
  note sc = sec [folded b_def q_def, unfolded sector_at_def]
  have m: "unshift (shift s) (chip s) (mfmbuf s) AND NOT (push_bit 31 1) = 0x2AAAAAAA"
    "unshift (shift s) (chip s) (mfmbuf s + 2) = sync_key"
    using sc unshift_word [OF sh, of "chip s"] by (simp_all add: b_def q_def algebra_simps)
  have "hdr_fields s0 = s0\<lparr> mfmbuf := mfmbuf s0 + 28,
    hdr := (set_hdr_id (hd (decode_at b (q + 64) 1)) (hdr s0))\<lparr> h_label := decode_at b (q + 64 + 64) 4,
      h_hdrchk := hd (decode_at b (q + 64 + 320) 1), h_datachk := hd (decode_at b (q + 64 + 384) 1) \<rparr> \<rparr>"
    by (rule hdr_fields_at) (use sh in \<open>simp_all add: s0_def b_def q_def\<close>)
  also have "\<dots> = s\<lparr> mfmbuf := mfmbuf s + 32, hdr := h \<rparr>"
    using sc by (simp add: s0_def add.assoc)
  finally have f: "hdr_fields s0 = s\<lparr> mfmbuf := mfmbuf s + 32, hdr := h \<rparr>" .
  have "gethdr s = (let s = hdr_fields s0; h = hdr s
       in if h_magic h \<noteq> SECOK \<or> unat (h_trk h) \<ge> TRACKS \<or> unat (h_sec h) \<ge> NSEC \<or> int (unat (h_ord h)) - 1 \<ge> int NSEC
          then (False, s)
          else if h_hdrchk h \<noteq> chksum (hdr_id h # h_label h) then (False, s)
          else if ucast (h_trk h) \<noteq> track s then (False, s)
          else (True, s))"
    unfolding gethdr_def m using lim by (simp add: s0_def)
  also have "\<dots> = (True, s\<lparr> mfmbuf := mfmbuf s + 32, hdr := h \<rparr>)"
    unfolding f Let_def using h by simp
  finally show ?thesis .
qed

lemma sector_hdr_fields:
  assumes "unat trk < TRACKS" and "sec < NSEC"
  shows "h_magic (sector_hdr trk sec block) = SECOK" "unat (h_trk (sector_hdr trk sec block)) < TRACKS"
    "ucast (h_trk (sector_hdr trk sec block)) = trk" "unat (h_sec (sector_hdr trk sec block)) = sec"
    "unat (h_ord (sector_hdr trk sec block)) = NSEC - sec" "h_datachk (sector_hdr trk sec block) = chksum block"
    "h_hdrchk (sector_hdr trk sec block) = chksum (hdr_id (sector_hdr trk sec block) # h_label (sector_hdr trk sec block))"
proof -
  have "unat (ucast trk :: byte) = unat trk"
    using assms(1) by (simp add: unsigned_ucast_eq take_bit_eq_mod unat_mod_distrib)
  then show "unat (h_trk (sector_hdr trk sec block)) < TRACKS" "ucast (h_trk (sector_hdr trk sec block)) = trk"
    using assms(1) by (auto simp: sector_hdr_def Let_def unsigned_ucast_eq take_bit_eq_mod unat_mod_distrib intro!: word_unat_eq_iff [THEN iffD2])
  show "unat (h_sec (sector_hdr trk sec block)) = sec" "unat (h_ord (sector_hdr trk sec block)) = NSEC - sec"
    unfolding sector_hdr_def Let_def sechdr.simps unat_of_nat using assms(2) by simp_all
qed (simp_all add: sector_hdr_def Let_def hdr_id_def)

section \<open>The track written\<close>

text \<open>Position of sector \<open>k\<close> in the buffer of \<open>fdputaml\<close>, and the end of the sectors.\<close>

definition sec_pos :: "nat \<Rightarrow> nat" where "sec_pos k = 13280 + 8704 * k"

abbreviation (input) track_end :: nat where "track_end \<equiv> 109024"

definition track_image :: "(nat \<Rightarrow> bool) \<Rightarrow> u32 \<Rightarrow> long_mem \<Rightarrow> bool" where
  "track_image b trk data \<longleftrightarrow>
    (\<forall>i < 415. word_at b (32 * i) = 0xAAAAAAAA) \<and>
    (\<forall>k < NSEC. holds b (sec_pos k) (sector_words (b (sec_pos k - 1)) trk k (longs data (128 * k) 128))) \<and>
    (\<forall>j < 16. b (track_end + j) = (if j = 0 then \<not> b (track_end - 1) else even j \<and> j \<noteq> 14))"

lemma encode_track_effect:
  shows "track_image (chip_bits (chip (encode_track s))) (track s) (umem s)"
    and "j \<ge> TRKWLEN div 2 \<Longrightarrow> chip (encode_track s) j = chip s j"
    and "mfmbuf (encode_track s) = mfmlim (encode_track s)" "mfmlim (encode_track s) = TRKWLEN div 2"
    and "umem (encode_track s) = umem s" "track (encode_track s) = track s" "drive (encode_track s) = drive s"
proof -
  define s0 where "s0 = s\<lparr> buffer := 0, mfmbuf := 0, mfmlim := TRKWLEN div 2 \<rparr>"
  define s1 where "s1 = putslop s0"
  define s2 where "s2 = put_sectors 0 NSEC s1"
  have eq: "encode_track s = s2\<lparr> chip := (chip s2)(mfmbuf s2 := if bit (chip s2 (mfmbuf s2 - 1)) 0 then 0x2AA8 else 0xAAA8),
      mfmbuf := mfmbuf s2 + 1 \<rparr>"
    by (simp add: encode_track_def Let_def s0_def s1_def s2_def)
  have s1: "mfmbuf s1 = 830" "umem s1 = umem s" "track s1 = track s" "drive s1 = drive s" "buffer s1 = 0"
    "mfmlim s1 = TRKWLEN div 2" "\<And>i. i < 415 \<Longrightarrow> ulong_at (chip s1) (2 * i) = 0xAAAAAAAA"
    "\<And>j. 830 \<le> j \<Longrightarrow> chip s1 j = chip s j"
    using slop_effect [of 415 0 "chip s"] by (simp_all add: s1_def s0_def putslop_def)
  have "2 \<le> mfmbuf s1" by (simp add: s1)
  note e = put_sectors_effect [OF this, of NSEC 0, folded s2_def, unfolded s1]
  have e1: "holds (chip_bits (chip s2)) (16 * (830 + 544 * k)) (sector_words (chip_bits (chip s2) (16 * (830 + 544 * k) - 1)) (track s) k
      (longs (umem s) (128 * k) 128))" if "k < NSEC" for k
    using e that by simp
  have e2: "chip s2 j = chip s1 j" if "j < 830 \<or> 6814 \<le> j" for j
    using e that by auto
  have e3: "mfmbuf s2 = 6814" "mfmlim s2 = TRKWLEN div 2" "umem s2 = umem s" "track s2 = track s" "drive s2 = drive s"
    using e by simp_all
  let ?c = "chip (encode_track s)"
  have c: "?c j = chip s2 j" if "j \<noteq> 6814" for j using that by (simp add: eq e3)
  have c6: "?c 6814 = (if bit (?c 6813) 0 then 0x2AA8 else 0xAAA8)" by (simp add: eq e3)
  have p: "sec_pos k = 16 * (830 + 544 * k)" for k by (simp add: sec_pos_def)
  show "track_image (chip_bits ?c) (track s) (umem s)"
    unfolding track_image_def
  proof (intro conjI allI impI)
    fix i :: nat assume i: "i < 415"
    have "ulong_at ?c (2 * i) = ulong_at (chip s1) (2 * i)" using i c e2 by (intro ulong_cong) auto
    then show "word_at (chip_bits ?c) (32 * i) = 0xAAAAAAAA"
      using s1(7) [OF i] by (simp add: ulong_at_word)
  next
    fix k :: nat assume k: "k < NSEC"
    have "chip_bits ?c (16 * (830 + 544 * k) - 1) = chip_bits (chip s2) (16 * (830 + 544 * k) - 1)"
      using k by (intro bit_frame c) auto
    then show "holds (chip_bits ?c) (sec_pos k)
        (sector_words (chip_bits ?c (sec_pos k - 1)) (track s) k (longs (umem s) (128 * k) 128))"
      unfolding p using k by (simp only:) (rule holds_frame [OF e1 [OF k]], rule c, simp)
  next
    fix j :: nat assume j: "j < 16"
    have "list_all (\<lambda>j. bit (0x2AA8 :: u16) (15 - j) = (j \<noteq> 0 \<and> even j \<and> j \<noteq> 14) \<and>
        bit (0xAAA8 :: u16) (15 - j) = (even j \<and> j \<noteq> 14)) [0..<16]" by code_simp
    then have t: "bit (0x2AA8 :: u16) (15 - j) = (j \<noteq> 0 \<and> even j \<and> j \<noteq> 14)" "bit (0xAAA8 :: u16) (15 - j) = (even j \<and> j \<noteq> 14)"
      using j by (simp_all only: list_all_iff set_upt atLeastLessThan_iff) auto
    have "chip_bits ?c (16 * 6814 + j) = bit (?c 6814) (15 - j)" by (rule chip_bits_word [OF j])
    also have "\<dots> = (if j = 0 then \<not> bit (?c 6813) 0 else even j \<and> j \<noteq> 14)"
      unfolding c6 using t by (cases "bit (?c 6813) 0") (simp_all only: if_True if_False simp_thms, auto)
    also have "bit (?c 6813) 0 = chip_bits ?c (16 * 6814 - 1)" using chip_bit0 [of 6814 ?c] by simp
    finally show "chip_bits ?c (track_end + j) = (if j = 0 then \<not> chip_bits ?c (track_end - 1) else even j \<and> j \<noteq> 14)"
      by simp
  qed
  show "?c j = chip s j" if "TRKWLEN div 2 \<le> j"
    using that c [of j] e2 [of j] s1(8) [of j] by (simp add: TRKWLEN_def)
  show "mfmbuf (encode_track s) = mfmlim (encode_track s)" "mfmlim (encode_track s) = TRKWLEN div 2"
    "umem (encode_track s) = umem s" "track (encode_track s) = track s" "drive (encode_track s) = drive s"
    using e3 by (simp_all add: eq TRKWLEN_def)
qed

end
