(* ===== verification/Floppy_Ring.thy ===== *)
theory Floppy_Ring
  imports Floppy_Track
begin

text \<open>
  The track on the disk and what reading makes of it. The end of what is written runs over its beginning, so the track is
  the last \<open>L\<close> bits written, a ring; a read starts at any bit of it. The synchronizing key stands at the start of
  each sector and nowhere else, not even across the seam, so every read of a track finds all the sectors.
\<close>

section \<open>No key between two keys\<close>

lemma key_zeros:
  assumes "word_at b q = sync_key"
  shows "\<not> b q" "b (q + 1)" "\<not> b (q + 2)" "\<not> b (q + 3)" "\<not> b (q + 4)" "\<not> b (q + 9)" "\<not> b (q + 10)" "\<not> b (q + 11)"
    "b (q + 17)" "\<not> b (q + 18)" "\<not> b (q + 19)" "\<not> b (q + 20)" "\<not> b (q + 25)" "\<not> b (q + 26)" "\<not> b (q + 27)"
  using word_at_bit [OF assms, of 0] word_at_bit [OF assms, of 1] word_at_bit [OF assms, of 2] word_at_bit [OF assms, of 3]
    word_at_bit [OF assms, of 4] word_at_bit [OF assms, of 9] word_at_bit [OF assms, of 10] word_at_bit [OF assms, of 11]
    word_at_bit [OF assms, of 17] word_at_bit [OF assms, of 18] word_at_bit [OF assms, of 19] word_at_bit [OF assms, of 20]
    word_at_bit [OF assms, of 25] word_at_bit [OF assms, of 26] word_at_bit [OF assms, of 27]
  by simp_all

text \<open>
  \<open>S'\<close> and \<open>S\<close> are the places of two keys. The rule holds from the first up to \<open>N\<close>, its violations in the key aside; from \<open>N\<close>
  on there is only the alternating pattern.
\<close>

lemma no_false_key:
  assumes first: "word_at b S' = sync_key" and second: "word_at b S = sync_key"
    and rule: "\<And>y. S' < y \<Longrightarrow> y + 4 \<le> N \<Longrightarrow> even (y - S') \<Longrightarrow> y \<noteq> S' + 10 \<Longrightarrow> y \<noteq> S' + 26 \<Longrightarrow> mfm_rule b y"
    and alt: "\<And>y. N < y \<Longrightarrow> y < S \<Longrightarrow> b y = even (S - y)"
    and N: "S' + 100 \<le> N" "N + 32 \<le> S" and q: "S' < q" "q < S"
  shows "word_at b q \<noteq> sync_key"
proof
  assume "word_at b q = sync_key"
  note z = key_zeros [OF this]
  have triple: False if "\<not> b x" "\<not> b y" "\<not> b z" "x + 1 = y" "y + 1 = z"
      "S' < y" "y + 4 \<le> N" "even (y - S')" "y \<noteq> S' + 10" "y \<noteq> S' + 26" for x y z
    using rule [of y] that by (auto simp: mfm_rule_def)
  have pair: False if "\<not> b x" "\<not> b y" "x + 1 = y" "N < x" "y < S" for x y
  proof -
    have "S - x = Suc (S - y)" using that by simp
    then show False using alt [of x] alt [of y] that by simp
  qed
  show False
  proof (cases "q + 14 \<le> N")
    case True
    show False
    proof (cases "even (q - S')")
      case even: True
      show False
      proof (cases "q = S' + 16")
        case True
        show False by (rule triple [OF z(13-15)]) (use True N in simp_all)
      next
        case False
        show False by (rule triple [OF z(6-8)]) (use True False even q in simp_all)
      qed
    next
      case odd: False
      consider "q = S' + 7" | "q = S' + 23" | "q \<noteq> S' + 7" "q \<noteq> S' + 23" by blast
      then show False
      proof cases
        case 1
        then have "S' + 17 = q + 10" by simp
        then show False using key_zeros(9) [OF first] z(7) by (simp only: simp_thms)
      next
        case 2
        show False by (rule triple [OF z(10-12)]) (use 2 N in simp_all)
      next
        case 3
        show False by (rule triple [OF z(3-5)]) (use True 3 odd q in simp_all)
      qed
    qed
  next
    case False
    consider "q + 20 < S" | "S \<le> q + 20" "q + 11 < S" | "S \<le> q + 11" "q + 4 < S" | "S = q + 4" | "S = q + 3" | "S = q + 2" | "S = q + 1"
      using q by linarith
    then show False
    proof cases
      case 1
      then show False using pair [OF z(11,12)] False by simp
    next
      case 2
      then show False using pair [OF z(7,8)] N by simp
    next
      case 3
      then show False using pair [OF z(3,4)] N by simp
    next
      case 4
      then show False using alt [of q] z(1) N by simp
    next
      case 5
      then have "S + 1 = q + 4" by simp
      then show False using key_zeros(2) [OF second] z(5) by (simp only: simp_thms)
    next
      case 6
      then show False using alt [of q] z(1) N by simp
    next
      case 7
      then show False using key_zeros(1) [OF second] z(2) by simp
    qed
  qed
qed

section \<open>The ring\<close>

definition ring :: "(nat \<Rightarrow> bool) \<Rightarrow> nat \<Rightarrow> nat \<Rightarrow> bool" where
  "ring w L q = w (8 * TRKWLEN - L + q mod L)"

definition ring_length :: "nat \<Rightarrow> bool" where
  "ring_length L \<longleftrightarrow> 8 * (TRKUSED + 2) \<le> L \<and> L \<le> 8 * (TRKUSED + TRKSLOP)"

definition rpos :: "nat \<Rightarrow> nat \<Rightarrow> nat" where
  "rpos L m = m div NSEC * L + (L - 95760) + 8704 * (m mod NSEC)"

lemma ring_bounds: "ring_length L \<Longrightarrow> 95760 \<le> L \<and> L \<le> 109024"
  by (simp add: ring_length_def)

lemma ring_at:
  assumes "ring_length L" and "13280 + 8704 * (m mod NSEC) + j < 109040"
  shows "ring w L (rpos L m + j) = w (sec_pos (m mod NSEC) + j)"
proof -
  have L: "95760 \<le> L" "L \<le> 109024" using ring_bounds [OF assms(1)] by auto
  let ?r = "L - 95760 + 8704 * (m mod NSEC) + j"
  have "?r < L" using assms(2) L by simp
  moreover have "rpos L m + j = ?r + m div NSEC * L" by (simp add: rpos_def)
  ultimately have "(rpos L m + j) mod L = ?r" by (simp only: mod_mult_self1 mod_less)
  moreover have "8 * TRKWLEN - L + ?r = sec_pos (m mod NSEC) + j" using L by (simp add: TRKWLEN_def sec_pos_def)
  ultimately show ?thesis by (simp only: ring_def)
qed

lemma rpos_Suc:
  assumes "ring_length L"
  shows "rpos L (Suc m) = (if m mod NSEC = NSEC - 1 then rpos L m + 8704 + 16 + (L - 95760) else rpos L m + 8704)"
proof (cases "m mod NSEC = NSEC - 1")
  case True
  then have "Suc m mod NSEC = 0" "Suc m div NSEC = Suc (m div NSEC)" by (simp_all add: mod_Suc div_Suc)
  then show ?thesis using True ring_bounds [OF assms] by (simp add: rpos_def)
next
  case False
  then have "Suc m mod NSEC = Suc (m mod NSEC)" "Suc m div NSEC = m div NSEC" by (simp_all add: mod_Suc div_Suc)
  then show ?thesis using False by (simp add: rpos_def)
qed

lemma rpos_mono: "ring_length L \<Longrightarrow> rpos L m + 8704 * k \<le> rpos L (m + k)"
proof (induction k)
  case (Suc k)
  have "rpos L (m + k) + 8704 \<le> rpos L (Suc (m + k))" using rpos_Suc [OF Suc.prems, of "m + k"] by simp
  with Suc show ?case by simp
qed simp

lemma rpos_round: "rpos L (m + NSEC) = rpos L m + L"
proof -
  have "(m + 11) div 11 = m div 11 + 1" "(m + 11) mod 11 = m mod 11" by simp_all
  then show ?thesis by (simp add: rpos_def)
qed

lemma ring_period: "ring w L (q + k * L) = ring w L q"
  by (simp add: ring_def)

section \<open>Facts about a ring that holds a track\<close>

definition ring_block :: "long_mem \<Rightarrow> nat \<Rightarrow> u32 list" where
  "ring_block data m = longs data (128 * (m mod NSEC)) 128"

definition ring_hdr :: "u32 \<Rightarrow> long_mem \<Rightarrow> nat \<Rightarrow> sechdr" where
  "ring_hdr trk data m = sector_hdr trk (m mod NSEC) (ring_block data m)"

lemma image_sector:
  assumes "track_image w trk data" and "k < NSEC"
  shows "sector_at w (sec_pos k) (sector_hdr trk k (longs data (128 * k) 128)) (longs data (128 * k) 128)"
    and "key_at w (sec_pos k + 32)"
    and "even y \<Longrightarrow> y < 8704 \<Longrightarrow> y \<noteq> 42 \<Longrightarrow> y \<noteq> 58 \<Longrightarrow> mfm_rule w (sec_pos k + y)"
proof -
  have "holds w (sec_pos k) (sector_words (w (sec_pos k - 1)) trk k (longs data (128 * k) 128))"
    using assms by (simp add: track_image_def)
  note st = sector_stream [OF this]
  show "sector_at w (sec_pos k) (sector_hdr trk k (longs data (128 * k) 128)) (longs data (128 * k) 128)"
    by (rule st(1)) (simp_all add: sec_pos_def)
  show "key_at w (sec_pos k + 32)" by (rule st(2)) (simp_all add: sec_pos_def)
  show "even y \<Longrightarrow> y < 8704 \<Longrightarrow> y \<noteq> 42 \<Longrightarrow> y \<noteq> 58 \<Longrightarrow> mfm_rule w (sec_pos k + y)"
    by (rule st(3)) (simp_all add: sec_pos_def)
qed

lemma mod11: "m mod NSEC < NSEC" "8704 * (m mod NSEC) \<le> 87040"
  by (simp_all add: less_Suc_eq_le [symmetric])

lemma ring_sector:
  assumes img: "track_image w trk data" and L: "ring_length L"
  shows "sector_at (ring w L) (rpos L m) (ring_hdr trk data m) (ring_block data m)"
    and "key_at (ring w L) (rpos L m + 32)"
proof -
  have eq: "ring w L (rpos L m + j) = w (sec_pos (m mod NSEC) + j)" if "j < 8704" for j
    using ring_at [OF L] that mod11 [of m] by simp
  note im = image_sector [OF img mod11(1) [of m]]
  show "sector_at (ring w L) (rpos L m) (ring_hdr trk data m) (ring_block data m)"
    unfolding ring_hdr_def ring_block_def by (rule sector_at_cong [OF im(1)]) (simp add: eq)
  show "key_at (ring w L) (rpos L m + 32)"
    unfolding key_at_def
  proof (intro conjI allI impI)
    have "word_at (ring w L) (rpos L m + 32) = word_at w (sec_pos (m mod NSEC) + 32)"
      by (rule word_at_cong) (simp add: eq add.assoc)
    then show "word_at (ring w L) (rpos L m + 32) = sync_key" using im(2) by (simp add: key_at_def)
    fix j :: nat assume j: "0 < j \<and> j \<le> 31"
    then have "rpos L m + 32 - j = rpos L m + (32 - j)" "sec_pos (m mod NSEC) + 32 - j = sec_pos (m mod NSEC) + (32 - j)" by simp_all
    then show "ring w L (rpos L m + 32 - j) = even j" using key_bits(2) [OF im(2), of j] eq [of "32 - j"] j by simp
  qed simp
qed

text \<open>The gap and the first word of the first sector alternate; the last word does, up to its end.\<close>

lemma image_slop:
  assumes img: "track_image w trk data" and i: "i < 13312"
  shows "w i = even i"
proof -
  have AA: "bit (0xAAAAAAAA :: u32) (31 - j) = even j" if "j < 32" for j
  proof -
    have "list_all (\<lambda>j. bit (0xAAAAAAAA :: u32) (31 - j) = even j) [0..<32]" by code_simp
    then show ?thesis using that by (simp only: list_all_iff set_upt atLeastLessThan_iff) auto
  qed
  have slop: "w i = even i" if "i < 13280" for i
  proof -
    have "i div 32 < 415" using that by (simp add: less_mult_imp_div_less)
    then have "word_at w (32 * (i div 32)) = 0xAAAAAAAA" using img by (simp add: track_image_def)
    then have "w (32 * (i div 32) + i mod 32) = bit (0xAAAAAAAA :: u32) (31 - i mod 32)" by (rule word_at_bit) simp
    then show ?thesis using AA [of "i mod 32"] by (simp add: dvd_mod_iff)
  qed
  show ?thesis
  proof (cases "i < 13280")
    case False
    have "\<not> w 13279" using slop [of 13279] by simp
    moreover have "holds w 13280 (sector_words (w 13279) trk 0 (longs data 0 128))"
      using img by (auto simp: track_image_def sec_pos_def dest: spec [of _ "0 :: nat"])
    ultimately have "word_at w 13280 = 0xAAAAAAAA" by (simp add: sector_words_def)
    then have "w (13280 + (i - 13280)) = bit (0xAAAAAAAA :: u32) (31 - (i - 13280))" by (rule word_at_bit) (use i in simp)
    then show ?thesis using AA [of "i - 13280"] False i by simp
  qed (rule slop)
qed

lemma image_last_word:
  assumes img: "track_image w trk data" and "even j" "j \<le> 12"
  shows "mfm_rule w (track_end + j)"
proof -
  have b: "w (track_end + i) = (if i = 0 then \<not> w (track_end - 1) else even i \<and> i \<noteq> 14)" if "i < 16" for i
    using img that unfolding track_image_def by blast
  show ?thesis
  proof (cases "j = 0")
    case True
    then show ?thesis using b [of 0] b [of 1] by (simp add: mfm_rule_def)
  next
    case False
    then have "2 \<le> j" using assms(2) by (cases "j = 1") auto
    moreover have "track_end + j - 1 = track_end + (j - 1)" using False by simp
    ultimately show ?thesis unfolding mfm_rule_def
      using b [of j] b [of "j - 1"] b [of "j + 1"] False assms(2,3) by simp
  qed
qed

lemma ring_no_false_key:
  assumes img: "track_image w trk data" and L: "ring_length L"
    and q: "rpos L m + 32 < q" "q < rpos L (Suc m) + 32"
  shows "word_at (ring w L) q \<noteq> sync_key"
proof -
  let ?b = "ring w L" and ?k = "m mod NSEC"
  have bL: "95760 \<le> L" "L \<le> 109024" using ring_bounds [OF L] by auto
  have eq: "?b (rpos L m + j) = w (sec_pos ?k + j)" if "sec_pos ?k + j < 109040" for j
    using ring_at [OF L, of m j] that by (simp add: sec_pos_def)
  have rule: "mfm_rule ?b (rpos L m + t)"
    if "even t" "32 < t" "t \<noteq> 42" "t \<noteq> 58" "t < 8704 \<or> (?k = 10 \<and> t \<le> 8716)" for t
  proof -
    have "sec_pos ?k + (t + 1) < 109040" using that(5) mod11(2) [of m] by (auto simp: sec_pos_def)
    then have "?b (rpos L m + t) = w (sec_pos ?k + t)" "?b (rpos L m + (t + 1)) = w (sec_pos ?k + (t + 1))"
      "?b (rpos L m + (t - 1)) = w (sec_pos ?k + (t - 1))"
      by (intro eq; simp)+
    moreover have "mfm_rule w (sec_pos ?k + t)"
    proof (cases "t < 8704")
      case True
      then show ?thesis using image_sector(3) [OF img mod11(1)] that by blast
    next
      case False
      then have "sec_pos ?k + t = track_end + (t - 8704)" "even (t - 8704)" "t - 8704 \<le> 12"
        using that by (auto simp: sec_pos_def)
      then show ?thesis using image_last_word [OF img] by metis
    qed
    moreover have "rpos L m + t - 1 = rpos L m + (t - 1)" "sec_pos ?k + t - 1 = sec_pos ?k + (t - 1)" using that by simp_all
    ultimately show ?thesis by (simp add: mfm_rule_def add.assoc)
  qed
  have keys: "word_at ?b (rpos L m + 32) = sync_key" "word_at ?b (rpos L (Suc m) + 32) = sync_key" "key_at ?b (rpos L (Suc m) + 32)"
    using ring_sector(2) [OF img L] by (simp_all add: key_at_def)
  define N where "N = (if ?k = 10 then rpos L m + 8720 else rpos L m + 8704)"
  have next_pos: "rpos L (Suc m) = (if ?k = 10 then N + (L - 95760) else N)"
    using rpos_Suc [OF L, of m] by (simp add: N_def)
  show ?thesis
  proof (rule no_false_key [OF keys(1,2), where N = N])
    fix y assume y: "rpos L m + 32 < y" "y + 4 \<le> N" "even (y - (rpos L m + 32))" "y \<noteq> rpos L m + 32 + 10" "y \<noteq> rpos L m + 32 + 26"
    define t where "t = y - rpos L m"
    have t: "y = rpos L m + t" "t > 32" using y(1) by (simp_all add: t_def)
    then have "even t" using y(3) by (simp add: even_diff_nat)
    then show "mfm_rule ?b y" unfolding t(1) using y(2,4,5) t by (intro rule) (auto simp: N_def split: if_splits)
  next
    fix y assume y: "N < y" "y < rpos L (Suc m) + 32"
    show "?b y = even (rpos L (Suc m) + 32 - y)"
    proof (cases "?k = 10")
      case False
      then have "y = rpos L (Suc m) + 32 - (rpos L (Suc m) + 32 - y)" using y by simp
      then show ?thesis using key_bits(2) [OF keys(3), of "rpos L (Suc m) + 32 - y"] y False next_pos by simp
    next
      case True
      define t where "t = y - N"
      have t: "y = N + t" "t < L - 95760 + 32" using y True next_pos by (auto simp: t_def)
      have "N = (m div NSEC + 1) * L" using True bL by (simp add: N_def rpos_def)
      then have "?b y = w (109040 - L + t)"
        using t bL ring_period [of w L t "m div NSEC + 1"] by (simp add: ring_def TRKWLEN_def algebra_simps)
      also have "\<dots> = even (109040 - L + t)" using t bL by (intro image_slop [OF img]) linarith
      also have "\<dots> = even (rpos L (Suc m) + 32 - y)"
      proof -
        have "(109040 - L + t) + (rpos L (Suc m) + 32 - y) = 13312" using t bL True next_pos by simp
        then show ?thesis by (metis even_add even_numeral)
      qed
      finally show ?thesis .
    qed
  qed (use q next_pos in \<open>auto simp: N_def\<close>)
qed

end
