(* ===== verification/Floppy_Read.thy ===== *)
theory Floppy_Read
  imports Floppy_Ring
begin

text \<open>
  Reading a track back: for every length of the track and every bit a read starts at, \<open>get\<close> finds all sectors and
  restores the buffer that was written.
\<close>

section \<open>A buffer read from the ring\<close>

definition reads_ring :: "chip_mem \<Rightarrow> (nat \<Rightarrow> bool) \<Rightarrow> nat \<Rightarrow> nat \<Rightarrow> bool" where
  "reads_ring c w L org \<longleftrightarrow> (\<forall>q < 8 * TRKRLEN. chip_bits c q = ring w L (org + q))"

text \<open>Such a buffer exists for every stretch of the ring.\<close>

definition stretch :: "(nat \<Rightarrow> bool) \<Rightarrow> nat \<Rightarrow> nat \<Rightarrow> chip_mem" where
  "stretch w L org = (\<lambda>i. horner_sum of_bool 2 (map (\<lambda>j. ring w L (org + (16 * i + (15 - j)))) [0..<16]))"

lemma reads_stretch: "reads_ring (stretch w L org) w L org"
proof -
  have "chip_bits (stretch w L org) q = ring w L (org + q)" for q
  proof -
    have "15 - (15 - q mod 16) = q mod 16" by simp
    then have "16 * (q div 16) + (15 - (15 - q mod 16)) = q" by simp
    moreover have "15 - q mod 16 < 16" by simp
    ultimately show ?thesis
      by (simp add: chip_bits_def stretch_def bit_horner_sum_bit_word_iff)
  qed
  then show ?thesis by (simp add: reads_ring_def)
qed

lemma reads_ring_bit: "reads_ring c w L org \<Longrightarrow> q < 117728 \<Longrightarrow> chip_bits c q = ring w L (org + q)"
  by (simp add: reads_ring_def TRKRLEN_def)

lemma key_at_cong:
  assumes "key_at b (P + 32)" and "\<And>j. j < 64 \<Longrightarrow> b' (P' + j) = b (P + j)"
  shows "key_at b' (P' + 32)"
  unfolding key_at_def
proof (intro conjI allI impI)
  have "word_at b' (P' + 32) = word_at b (P + 32)"
    by (rule word_at_cong) (use assms(2) in \<open>simp add: add.assoc\<close>)
  then show "word_at b' (P' + 32) = sync_key" using assms(1) by (simp add: key_at_def)
  fix j :: nat assume j: "0 < j \<and> j \<le> 31"
  then have "P' + 32 - j = P' + (32 - j)" "P + 32 - j = P + (32 - j)" by simp_all
  then show "b' (P' + 32 - j) = even j" using key_bits(2) [OF assms(1), of j] assms(2) [of "32 - j"] j by simp
qed simp

lemma length_ring_block [simp]: "length (ring_block data m) = 128"
  by (simp add: ring_block_def)

lemma read_sector:
  assumes "reads_ring c w L org" and "track_image w trk data" and "ring_length L"
    and "org \<le> rpos L m" "rpos L m \<le> org + 109023"
  shows "sector_at (chip_bits c) (rpos L m - org) (ring_hdr trk data m) (ring_block data m)"
    and "key_at (chip_bits c) (rpos L m - org + 32)"
proof -
  have eq: "chip_bits c (rpos L m - org + j) = ring w L (rpos L m + j)" if "j < 8704" for j
    using reads_ring_bit [OF assms(1), of "rpos L m - org + j"] assms(4,5) that by simp
  show "sector_at (chip_bits c) (rpos L m - org) (ring_hdr trk data m) (ring_block data m)"
    by (rule sector_at_cong [OF ring_sector(1) [OF assms(2,3)]]) (simp add: eq)
  show "key_at (chip_bits c) (rpos L m - org + 32)"
    by (rule key_at_cong [OF ring_sector(2) [OF assms(2,3)]]) (simp add: eq)
qed

lemma find_next:
  assumes r: "reads_ring c w L org" and img: "track_image w trk data" and L: "ring_length L"
    and pos: "org \<le> rpos L (Suc m)" "rpos L (Suc m) \<le> org + 109023"
    and s: "chip s = c" "mfmlim s = TRKRLEN div 2"
    and behind: "rpos L m < org + 16 * mfmbuf s" "16 * mfmbuf s \<le> rpos L (Suc m) - org"
  shows "\<exists>i sh. find s = (True, s\<lparr> mfmbuf := i, shift := sh \<rparr>) \<and> sh < 16 \<and> 16 * i + sh = rpos L (Suc m) - org"
proof -
  define S where "S = rpos L (Suc m) - org + 32"
  have key: "key_at (chip_bits (chip s)) S"
    using read_sector(2) [OF r img L pos] by (simp add: S_def s)
  have no: "word_at (chip_bits (chip s)) q \<noteq> sync_key" if q: "16 * (mfmbuf s + 2) \<le> q" "q < S" for q
  proof -
    have "word_at (chip_bits c) q = word_at (ring w L) (org + q)"
      by (rule word_at_cong) (use reads_ring_bit [OF r] q pos in \<open>simp add: S_def add.assoc\<close>)
    moreover have "word_at (ring w L) (org + q) \<noteq> sync_key"
      by (rule ring_no_false_key [OF img L, of m]) (use q behind pos in \<open>simp_all add: S_def\<close>)
    ultimately show ?thesis by (simp add: s)
  qed
  have "mfmbuf s + 2 \<le> S div 16" using behind(2) unfolding S_def by linarith
  moreover have "S div 16 + 2 < mfmlim s" using pos unfolding S_def s TRKRLEN_def by linarith
  ultimately have "find s = (True, s\<lparr> mfmbuf := S div 16 - 2, shift := S mod 16 \<rparr>)"
    using find_key [OF key _ _ no] by blast
  moreover have "16 * (S div 16 - 2) + S mod 16 = rpos L (Suc m) - org"
  proof -
    have "2 \<le> S div 16" unfolding S_def by linarith
    then have "16 * (S div 16 - 2) + S mod 16 = S - 32" using div_mult_mod_eq [of S 16] by (simp add: algebra_simps)
    then show ?thesis by (simp add: S_def)
  qed
  ultimately show ?thesis by (intro exI [of _ "S div 16 - 2"] exI [of _ "S mod 16"]) simp
qed

lemma gethdr_ring:
  assumes r: "reads_ring c w L org" and img: "track_image w trk data" and L: "ring_length L" and trk: "unat trk < TRACKS"
    and pos: "org \<le> rpos L m" "rpos L m \<le> org + 109023"
    and s: "chip s = c" "mfmlim s = TRKRLEN div 2" "track s = trk" "shift s < 16" "16 * mfmbuf s + shift s = rpos L m - org"
  shows "gethdr s = (True, s\<lparr> mfmbuf := mfmbuf s + 32, hdr := ring_hdr trk data m \<rparr>)"
proof (rule gethdr_sector)
  show "sector_at (chip_bits (chip s)) (16 * mfmbuf s + shift s) (ring_hdr trk data m) (ring_block data m)"
    unfolding s(1,5) by (rule read_sector(1) [OF r img L pos])
  show "mfmbuf s + 545 \<le> mfmlim s" using s(2,5) pos by (simp add: TRKRLEN_def)
  note f = sector_hdr_fields [OF trk mod11(1) [of m], of "ring_block data m"]
  show "int (unat (h_ord (ring_hdr trk data m))) - 1 < int NSEC" unfolding ring_hdr_def f(5) using mod11(1) [of m] by simp
  show "unat (h_sec (ring_hdr trk data m)) < NSEC" unfolding ring_hdr_def f(4) by (rule mod11(1))
qed (use s(3,4) sector_hdr_fields [OF trk mod11(1) [of m], of "ring_block data m"] in \<open>simp_all add: ring_hdr_def\<close>)

section \<open>The loop over the sectors\<close>

lemma longs_store: "length xs = n \<Longrightarrow> longs (store_longs p xs m) p n = xs"
  by (rule nth_equalityI) (simp_all add: longs_def store_longs_def)

text \<open>The memory after \<open>k + 1\<close> sectors from sector \<open>m\<close> on have been stored.\<close>

definition filled :: "long_mem \<Rightarrow> nat \<Rightarrow> nat \<Rightarrow> long_mem \<Rightarrow> long_mem" where
  "filled data m k u = (\<lambda>i. if i < 1408 \<and> (\<exists>j \<le> k. (m + j) mod NSEC = i div 128) then data i else u i)"

lemma store_block: "store_longs (128 * (m mod NSEC)) (ring_block data m) u = filled data m 0 u"
proof
  fix i
  let ?k = "m mod NSEC"
  have "128 * ?k \<le> i \<and> i < 128 * ?k + 128 \<longleftrightarrow> i < 1408 \<and> i div 128 = ?k"
  proof
    assume a: "128 * ?k \<le> i \<and> i < 128 * ?k + 128"
    moreover have "i div 128 = ?k" using a by (intro div_nat_eqI) auto
    ultimately show "i < 1408 \<and> i div 128 = ?k" using mod11(1) [of m] by linarith
  next
    assume a: "i < 1408 \<and> i div 128 = ?k"
    then have "i = 128 * ?k + i mod 128" by (metis mult_div_mod_eq)
    moreover have "i mod 128 < 128" by simp
    ultimately show "128 * ?k \<le> i \<and> i < 128 * ?k + 128" by linarith
  qed
  then show "store_longs (128 * ?k) (ring_block data m) u i = filled data m 0 u i"
    by (auto simp: store_longs_def filled_def ring_block_def longs_def)
qed

lemma filled_Suc: "filled data (Suc m) k (filled data m 0 u) = filled data m (Suc k) u"
proof
  fix i
  have "(\<exists>j \<le> Suc k. (m + j) mod NSEC = i div 128) \<longleftrightarrow> (\<exists>j \<le> k. (Suc m + j) mod NSEC = i div 128) \<or> m mod NSEC = i div 128"
    (is "?l = ?r")
  proof
    assume ?l
    then obtain j where j: "j \<le> Suc k" "(m + j) mod NSEC = i div 128" by blast
    show ?r
    proof (cases j)
      case (Suc l)
      with j show ?thesis by auto
    qed (use j in simp)
  next
    assume ?r
    then show ?l by (metis Suc_le_mono add_Suc_shift add.right_neutral le0)
  qed
  then show "filled data (Suc m) k (filled data m 0 u) i = filled data m (Suc k) u i" by (auto simp: filled_def)
qed

lemma get_loop_step:
  assumes "demfm 1024 s = (block, s')" and "length block = 128" and "chksum block = h_datachk (hdr s')"
  shows "get_loop (Suc k) p sec n s =
    (let s = s'\<lparr> umem := store_longs p block (umem s') \<rparr>
     in if k = 0 then (True, s)
        else let (sec, p) = (if sec + 1 = NSEC then (0, 0) else (sec + 1, p + 128)); (ok, n, s) = next_hdr sec n s
             in if ok then get_loop k p sec n s else (False, s))"
  using assms longs_store [OF assms(2), of p "umem s'"]
  by (simp add: Let_def)

declare get_loop.simps(2) [simp del]

lemma ring_hdr_fields:
  assumes "unat trk < TRACKS"
  shows "unat (h_sec (ring_hdr trk data m)) = m mod NSEC" "h_datachk (ring_hdr trk data m) = chksum (ring_block data m)"
    "ucast (h_ord (ring_hdr trk data m)) = (of_nat (NSEC - m mod NSEC) :: u32)"
proof -
  note f = sector_hdr_fields [OF assms mod11(1) [of m], of "ring_block data m"]
  show "unat (h_sec (ring_hdr trk data m)) = m mod NSEC" "h_datachk (ring_hdr trk data m) = chksum (ring_block data m)"
    using f by (simp_all add: ring_hdr_def)
  let ?w = "h_ord (ring_hdr trk data m)"
  have o: "unat ?w = NSEC - m mod NSEC" using f(5) by (simp add: ring_hdr_def)
  have "unat (ucast ?w :: u32) = unat ?w"
    using o by (simp only: unsigned_ucast_eq) (simp add: take_bit_nat_eq_self)
  also have "\<dots> = unat (of_nat (NSEC - m mod NSEC) :: u32)" using o by (simp only: unat_of_nat32)
  finally show "ucast ?w = (of_nat (NSEC - m mod NSEC) :: u32)" by (rule word_unat_eq_iff [THEN iffD2])
qed

lemma next_hdr_ring:
  assumes r: "reads_ring c w L org" and img: "track_image w trk data" and L: "ring_length L" and trk: "unat trk < TRACKS"
    and pos: "org \<le> rpos L m" "rpos L (Suc m) \<le> org + 109023"
    and s: "chip s = c" "mfmlim s = TRKRLEN div 2" "track s = trk" "shift s < 16" "16 * mfmbuf s + shift s = rpos L m - org + 8704"
  shows "\<exists>i sh. next_hdr (Suc m mod NSEC) (of_nat (NSEC - m mod NSEC)) s =
      (True, of_nat (NSEC - Suc m mod NSEC), s\<lparr> mfmbuf := i + 32, shift := sh, hdr := ring_hdr trk data (Suc m) \<rparr>) \<and>
    sh < 16 \<and> 16 * i + sh = rpos L (Suc m) - org"
proof -
  have pos': "org \<le> rpos L (Suc m)" using pos(1) rpos_mono [OF L, of m 1] by simp
  note f = ring_hdr_fields [OF trk, of data "Suc m"]
  have hdr: "gethdr t = (True, t\<lparr> mfmbuf := mfmbuf t + 32, hdr := ring_hdr trk data (Suc m) \<rparr>)"
    if "t = s\<lparr> mfmbuf := i, shift := sh \<rparr>" "sh < 16" "16 * i + sh = rpos L (Suc m) - org" for t i sh
    by (rule gethdr_ring [OF r img L trk pos' pos(2)]) (use that s in simp_all)
  show ?thesis
  proof (cases "m mod NSEC = 10")
    case True
    then have m: "Suc m mod NSEC = 0" by (simp add: mod_Suc)
    have "rpos L m < org + 16 * mfmbuf s" "16 * mfmbuf s \<le> rpos L (Suc m) - org"
      using s(4,5) pos rpos_mono [OF L, of m 1] by simp_all
    then obtain i sh where f1: "find s = (True, s\<lparr> mfmbuf := i, shift := sh \<rparr>)" "sh < 16" "16 * i + sh = rpos L (Suc m) - org"
      using find_next [OF r img L pos' pos(2) s(1,2)] by blast
    from hdr [OF refl f1(2,3)]
    have "next_hdr (Suc m mod NSEC) (of_nat (NSEC - m mod NSEC)) s =
        (True, of_nat (NSEC - Suc m mod NSEC), s\<lparr> mfmbuf := i + 32, shift := sh, hdr := ring_hdr trk data (Suc m) \<rparr>)"
      using True f by (simp add: next_hdr_def f1(1) m)
    with f1 show ?thesis by blast
  next
    case False
    define j where "j = 10 - m mod NSEC"
    have m: "Suc m mod NSEC = Suc (m mod NSEC)" using False by (simp add: mod_Suc)
    have j: "NSEC - m mod NSEC = Suc j" "NSEC - Suc m mod NSEC = j" "0 < j" "j < 4294967296"
      using False mod11(1) [of m] m by (simp_all add: j_def)
    have n: "of_nat (Suc j) - 1 = (of_nat j :: u32)" "(of_nat j :: u32) \<noteq> 0"
      using of_nat32_inject [of j 0] j by simp_all
    have at: "16 * mfmbuf s + shift s = rpos L (Suc m) - org"
      using s(5) pos rpos_Suc [OF L, of m] False by simp
    have "s\<lparr> mfmbuf := mfmbuf s, shift := shift s \<rparr> = s" by simp
    from hdr [OF this [symmetric] s(4) at]
    have "next_hdr (Suc m mod NSEC) (of_nat (NSEC - m mod NSEC)) s =
        (True, of_nat (NSEC - Suc m mod NSEC),
          s\<lparr> mfmbuf := mfmbuf s + 32, shift := shift s, hdr := ring_hdr trk data (Suc m) \<rparr>)"
      unfolding next_hdr_def Let_def j(1) n(1) using f n(2) j(2) by simp
    with at s(4) show ?thesis by blast
  qed
qed

lemma get_loop_ring:
  assumes r: "reads_ring c w L org" and img: "track_image w trk data" and L: "ring_length L" and trk: "unat trk < TRACKS"
  shows "org \<le> rpos L m \<Longrightarrow> rpos L (m + k) \<le> org + 109023 \<Longrightarrow> chip s = c \<Longrightarrow> mfmlim s = TRKRLEN div 2 \<Longrightarrow>
    track s = trk \<Longrightarrow> shift s < 16 \<Longrightarrow> 16 * mfmbuf s + shift s = rpos L m - org + 512 \<Longrightarrow> hdr s = ring_hdr trk data m \<Longrightarrow>
    \<exists>s'. get_loop (Suc k) (128 * (m mod NSEC)) (m mod NSEC) (of_nat (NSEC - m mod NSEC)) s = (True, s') \<and>
      umem s' = filled data m k (umem s)"
proof (induction k arbitrary: m s)
  case (0 m s)
  have "rpos L m \<le> org + 109023" using 0 by simp
  note sec = read_sector(1) [OF r img L 0(1) this, unfolded sector_at_def]
  have d: "demfm 1024 s = (ring_block data m, s\<lparr> mfmbuf := mfmbuf s + 512 \<rparr>)"
    using demfm_sizes(3) [OF 0(6)] 0(3,7) sec by (simp add: algebra_simps)
  have "get_loop (Suc 0) (128 * (m mod NSEC)) (m mod NSEC) (of_nat (NSEC - m mod NSEC)) s =
      (True, s\<lparr> mfmbuf := mfmbuf s + 512, umem := filled data m 0 (umem s) \<rparr>)"
    by (subst get_loop_step [OF d])
      (simp_all add: 0(8) ring_hdr_fields [OF trk] store_block Let_def)
  then show ?case by (intro exI [of _ "s\<lparr> mfmbuf := mfmbuf s + 512, umem := filled data m 0 (umem s) \<rparr>"]) simp
next
  case (Suc k m s)
  have le: "rpos L (Suc m) \<le> org + 109023" "rpos L m \<le> org + 109023" "org \<le> rpos L (Suc m)"
    using rpos_mono [OF L, of "Suc m" k] rpos_mono [OF L, of m 1] Suc.prems(1,2) by simp_all
  note sec = read_sector(1) [OF r img L Suc.prems(1) le(2), unfolded sector_at_def]
  have d: "demfm 1024 s = (ring_block data m, s\<lparr> mfmbuf := mfmbuf s + 512 \<rparr>)"
    using demfm_sizes(3) [OF Suc.prems(6)] Suc.prems(3,7) sec by (simp add: algebra_simps)
  define s1 where "s1 = s\<lparr> mfmbuf := mfmbuf s + 512, umem := filled data m 0 (umem s) \<rparr>"
  have "\<exists>i sh. next_hdr (Suc m mod NSEC) (of_nat (NSEC - m mod NSEC)) s1 =
      (True, of_nat (NSEC - Suc m mod NSEC), s1\<lparr> mfmbuf := i + 32, shift := sh, hdr := ring_hdr trk data (Suc m) \<rparr>) \<and>
    sh < 16 \<and> 16 * i + sh = rpos L (Suc m) - org"
    by (rule next_hdr_ring [OF r img L trk Suc.prems(1) le(1)]) (use Suc.prems in \<open>simp_all add: s1_def\<close>)
  then obtain i sh where nx: "next_hdr (Suc m mod NSEC) (of_nat (NSEC - m mod NSEC)) s1 =
      (True, of_nat (NSEC - Suc m mod NSEC), s1\<lparr> mfmbuf := i + 32, shift := sh, hdr := ring_hdr trk data (Suc m) \<rparr>)"
      "sh < 16" "16 * i + sh = rpos L (Suc m) - org"
    by blast
  define s2 where "s2 = s1\<lparr> mfmbuf := i + 32, shift := sh, hdr := ring_hdr trk data (Suc m) \<rparr>"
  have go: "(if m mod NSEC + 1 = NSEC then (0, 0) else (m mod NSEC + 1, 128 * (m mod NSEC) + 128)) =
      (Suc m mod NSEC, 128 * (Suc m mod NSEC))"
    by (simp add: mod_Suc)
  have "get_loop (Suc (Suc k)) (128 * (m mod NSEC)) (m mod NSEC) (of_nat (NSEC - m mod NSEC)) s =
      get_loop (Suc k) (128 * (Suc m mod NSEC)) (Suc m mod NSEC) (of_nat (NSEC - Suc m mod NSEC)) s2"
  proof -
    have "chksum (ring_block data m) = h_datachk (hdr (s\<lparr> mfmbuf := mfmbuf s + 512 \<rparr>))"
      by (simp add: Suc.prems(8) ring_hdr_fields [OF trk])
    note st = get_loop_step [OF d length_ring_block this]
    have e: "(s\<lparr> mfmbuf := mfmbuf s + 512 \<rparr>)\<lparr> umem := store_longs (128 * (m mod NSEC)) (ring_block data m)
        (umem (s\<lparr> mfmbuf := mfmbuf s + 512 \<rparr>)) \<rparr> = s1"
      by (simp add: s1_def store_block)
    show ?thesis unfolding st Let_def e go
      by (simp only: prod.case nx(1) s2_def if_True if_False nat.distinct simp_thms)
  qed
  moreover have "\<exists>s'. get_loop (Suc k) (128 * (Suc m mod NSEC)) (Suc m mod NSEC) (of_nat (NSEC - Suc m mod NSEC)) s2 = (True, s') \<and>
      umem s' = filled data (Suc m) k (umem s2)"
    by (rule Suc.IH) (use Suc.prems le nx(2,3) in \<open>simp_all add: s2_def s1_def\<close>)
  ultimately show ?case by (simp add: s2_def s1_def filled_Suc)
qed

section \<open>The round trip\<close>

lemma filled_all: "filled data m 10 u = (\<lambda>i. if i < 1408 then data i else u i)"
proof
  fix i
  have "\<exists>j \<le> 10. (m + j) mod NSEC = i div 128" if "i < 1408"
  proof -
    define x where "x = i div 128"
    have x: "x < 11" using that by (simp add: x_def less_mult_imp_div_less)
    define j where "j = (x + (11 - m mod 11)) mod 11"
    have "(m + j) mod 11 = (m mod 11 + (x + (11 - m mod 11))) mod 11"
      unfolding j_def by (simp only: mod_add_right_eq mod_add_left_eq)
    also have "m mod 11 + (x + (11 - m mod 11)) = x + 11" using mod11(1) [of m] by simp
    also have "(x + 11) mod 11 = x" using x by simp
    finally have "(m + j) mod NSEC = i div 128" by (simp add: x_def)
    moreover have "j \<le> 10" by (simp add: j_def less_Suc_eq_le [symmetric])
    ultimately show ?thesis by blast
  qed
  then show "filled data m 10 u i = (if i < 1408 then data i else u i)" by (auto simp: filled_def)
qed

lemma first_sector:
  assumes L: "ring_length L" and "L \<le> org"
  shows "\<exists>m. rpos L m < org \<and> org \<le> rpos L (Suc m)"
proof -
  have "L - 95760 < L" using ring_bounds [OF L] by simp
  then have "rpos L 0 < org" using assms(2) unfolding rpos_def by simp
  moreover have "org \<le> rpos L org" using rpos_mono [OF L, of 0 org] by simp
  ultimately have "\<exists>k < org. (\<forall>i \<le> k. \<not> org \<le> rpos L i) \<and> org \<le> rpos L (Suc k)"
    by (intro ex_least_nat_less) simp_all
  then show ?thesis by (meson le_refl not_less)
qed

lemma decode_ring:
  assumes img: "track_image w trk data" and L: "ring_length L" and trk: "unat trk < TRACKS" "track s = trk"
    and reads: "reads_ring (chip s) w L org"
  shows "\<exists>s'. decode_track s = (True, s') \<and> umem s' = (\<lambda>i. if i < 1408 then data i else umem s i)"
proof -
  define o' where "o' = org + L"
  have r: "reads_ring (chip s) w L o'"
    using reads ring_period [of w L _ 1] by (simp add: reads_ring_def o'_def) (metis add.assoc add.commute)
  have "L \<le> o'" by (simp add: o'_def)
  from first_sector [OF L this] obtain m' where m': "rpos L m' < o'" "o' \<le> rpos L (Suc m')" by blast
  define m where "m = Suc m'"
  have "rpos L (m + 10) = rpos L m' + L" using rpos_round [of L m'] by (simp add: m_def add.commute)
  then have last: "rpos L (m + 10) \<le> o' + 109023" using m'(1) ring_bounds [OF L] by simp
  have pos: "o' \<le> rpos L m" "rpos L m \<le> o' + 109023"
    using m' last rpos_mono [OF L, of m 10] by (simp_all add: m_def)
  define s0 where "s0 = s\<lparr> mfmbuf := 0, mfmlim := TRKRLEN div 2 \<rparr>"
  have "\<exists>i sh. find s0 = (True, s0\<lparr> mfmbuf := i, shift := sh \<rparr>) \<and> sh < 16 \<and> 16 * i + sh = rpos L (Suc m') - o'"
    by (rule find_next [OF r img L]) (use m' pos in \<open>simp_all add: s0_def m_def\<close>)
  then obtain i sh where f: "find s0 = (True, s0\<lparr> mfmbuf := i, shift := sh \<rparr>)" "sh < 16" "16 * i + sh = rpos L m - o'"
    by (auto simp: m_def)
  define s1 where "s1 = s0\<lparr> mfmbuf := i, shift := sh \<rparr>"
  have g: "gethdr s1 = (True, s1\<lparr> mfmbuf := mfmbuf s1 + 32, hdr := ring_hdr trk data m \<rparr>)"
    by (rule gethdr_ring [OF r img L trk(1) pos]) (use f(2,3) trk(2) in \<open>simp_all add: s1_def s0_def\<close>)
  define s2 where "s2 = s1\<lparr> mfmbuf := mfmbuf s1 + 32, hdr := ring_hdr trk data m \<rparr>"
  have s2: "hdr s2 = ring_hdr trk data m" by (simp add: s2_def)
  have "decode_track s = get_loop NSEC (unat (h_sec (hdr s2)) * (FLBPSEC div 4)) (unat (h_sec (hdr s2))) (ucast (h_ord (hdr s2))) s2"
    using f(1) g by (simp add: decode_track_def s0_def [symmetric] s1_def [symmetric] s2_def [symmetric])
  moreover have "unat (h_sec (hdr s2)) = m mod NSEC" "ucast (h_ord (hdr s2)) = (of_nat (NSEC - m mod NSEC) :: u32)"
    using ring_hdr_fields [OF trk(1), of data m] s2 by (simp_all only:)
  moreover have "(m mod NSEC) * (FLBPSEC div 4) = 128 * (m mod NSEC)" "NSEC = Suc 10" by simp_all
  ultimately have eq: "decode_track s = get_loop (Suc 10) (128 * (m mod NSEC)) (m mod NSEC) (of_nat (NSEC - m mod NSEC)) s2"
    by (simp only:)
  have "\<exists>s'. get_loop (Suc 10) (128 * (m mod NSEC)) (m mod NSEC) (of_nat (NSEC - m mod NSEC)) s2 = (True, s') \<and>
      umem s' = filled data m 10 (umem s2)"
    by (rule get_loop_ring [OF r img L trk(1) pos(1) last])
      (use f(2,3) trk(2) in \<open>simp_all add: s2_def s1_def s0_def\<close>)
  moreover have "umem s2 = umem s" by (simp add: s2_def s1_def s0_def)
  ultimately show ?thesis unfolding eq filled_all by (simp only:)
qed

text \<open>
  A shorter read, of \<open>CHKLEN\<close> bytes, is as long as the rest of a sector, the gap and a sector, so it has a whole sector in it.
\<close>

lemma check_ring:
  assumes img: "track_image w trk data" and L: "ring_length L" and trk: "unat trk < TRACKS" "track s = trk"
    and reads: "\<And>q. q < 8 * CHKLEN \<Longrightarrow> chip_bits (chip s) q = ring w L (org + q)"
    and s: "mfmbuf s = 0" "mfmlim s = CHKLEN div 2"
  shows "\<exists>s1 s2. find s = (True, s1) \<and> gethdr s1 = (True, s2) \<and> ucast (h_trk (hdr s2)) = trk \<and> track s2 = trk"
proof -
  define o' where "o' = org + L"
  define c where "c = stretch w L o'"
  have r: "reads_ring c w L o'" by (simp add: c_def reads_stretch)
  have same: "chip_bits (chip s) q = ring w L (o' + q)" if "q < 30688" for q
    using reads [of q] that ring_period [of w L "org + q" 1] by (simp add: o'_def CHKLEN_def add.commute add.left_commute)
  have eq: "chip_bits (chip s) q = chip_bits c q" if "q < 30688" for q
    using same [OF that] reads_ring_bit [OF r, of q] that by simp
  have "L \<le> o'" by (simp add: o'_def)
  from first_sector [OF L this] obtain m' where m': "rpos L m' < o'" "o' \<le> rpos L (Suc m')" by blast
  define m where "m = Suc m'"
  have near: "rpos L m \<le> o' + 21983"
    using m'(1) rpos_Suc [OF L, of m'] ring_bounds [OF L] unfolding m_def by (auto split: if_splits)
  have pos: "o' \<le> rpos L m" "rpos L m \<le> o' + 109023" using m'(2) near by (simp_all add: m_def)
  define S where "S = rpos L m - o' + 32"
  have key: "key_at (chip_bits (chip s)) S" unfolding S_def
    by (rule key_at_cong [OF read_sector(2) [OF r img L pos]]) (use near pos in \<open>intro eq, simp\<close>)
  have no: "word_at (chip_bits (chip s)) q \<noteq> sync_key" if q: "16 * (mfmbuf s + 2) \<le> q" "q < S" for q
  proof -
    have "word_at (chip_bits (chip s)) q = word_at (ring w L) (o' + q)"
      by (rule word_at_cong) (use same q near in \<open>simp add: S_def add.assoc\<close>)
    moreover have "word_at (ring w L) (o' + q) \<noteq> sync_key"
      by (rule ring_no_false_key [OF img L, of m']) (use q m' pos in \<open>simp_all add: S_def m_def s\<close>)
    ultimately show ?thesis by simp
  qed
  define s1 where "s1 = s\<lparr> mfmbuf := S div 16 - 2, shift := S mod 16 \<rparr>"
  have "mfmbuf s + 2 \<le> S div 16" unfolding S_def s(1) by linarith
  moreover have "S div 16 + 2 < mfmlim s" using near pos unfolding S_def s(2) CHKLEN_def by linarith
  ultimately have f: "find s = (True, s1)" unfolding s1_def using find_key [OF key _ _ no] by blast
  have "2 \<le> S div 16" unfolding S_def by linarith
  then have "16 * (S div 16 - 2) + S mod 16 = S - 32" using div_mult_mod_eq [of S 16] by (simp add: algebra_simps)
  then have at: "16 * mfmbuf s1 + shift s1 = rpos L m - o'" by (simp add: s1_def S_def)
  have g: "gethdr s1 = (True, s1\<lparr> mfmbuf := mfmbuf s1 + 32, hdr := ring_hdr trk data m \<rparr>)"
  proof (rule gethdr_sector)
    show "sector_at (chip_bits (chip s1)) (16 * mfmbuf s1 + shift s1) (ring_hdr trk data m) (ring_block data m)"
      unfolding at by (rule sector_at_cong [OF read_sector(1) [OF r img L pos]]) (use near pos in \<open>simp add: s1_def eq\<close>)
    show "mfmbuf s1 + 545 \<le> mfmlim s1" using at near pos by (simp add: s1_def s CHKLEN_def)
    note f = sector_hdr_fields [OF trk(1) mod11(1) [of m], of "ring_block data m"]
    show "int (unat (h_ord (ring_hdr trk data m))) - 1 < int NSEC" unfolding ring_hdr_def f(5) using mod11(1) [of m] by simp
    show "unat (h_sec (ring_hdr trk data m)) < NSEC" unfolding ring_hdr_def f(4) by (rule mod11(1))
    show "shift s1 < 16" by (simp add: s1_def)
  qed (use trk(2) sector_hdr_fields [OF trk(1) mod11(1) [of m], of "ring_block data m"] in \<open>simp_all add: ring_hdr_def s1_def\<close>)
  moreover have "ucast (h_trk (ring_hdr trk data m)) = trk"
    using sector_hdr_fields [OF trk(1) mod11(1) [of m], of "ring_block data m"] by (simp add: ring_hdr_def)
  moreover have "track s1 = trk" using trk(2) by (simp add: s1_def)
  ultimately show ?thesis using f by simp
qed

text \<open>
  C4. A track written by \<open>fdputaml\<close> is read back by \<open>fdgetaml\<close>: let the track hold \<open>L\<close> bits, anything between the
  eleven sectors with one word of gap and the length the driver allows for, so that the end of the buffer written has run over its
  beginning; let the buffer read be any stretch of it, from any bit on. Then the decoder finds all the
  sectors, every header and checksum is right, and the 1408 long words of the track buffer are those that were written.
\<close>

theorem track_round_trip:
  assumes "unat (track s0) < TRACKS" and "8 * (TRKUSED + 2) \<le> L" "L \<le> 8 * (TRKUSED + TRKSLOP)"
    and "track s = track s0" and "reads_ring (chip s) (chip_bits (chip (encode_track s0))) L org"
  shows "\<exists>s'. decode_track s = (True, s') \<and> (\<forall>i. umem s' i = (if i < 1408 then umem s0 i else umem s i))"
proof -
  have "ring_length L" using assms(2,3) by (simp add: ring_length_def)
  then obtain s' where "decode_track s = (True, s')" "umem s' = (\<lambda>i. if i < 1408 then umem s0 i else umem s i)"
    using decode_ring [OF encode_track_effect(1) _ assms(1,4,5)] by blast
  then show ?thesis by auto
qed

definition demo_hdr :: sechdr where
  "demo_hdr = \<lparr> h_magic = 0, h_trk = 0, h_sec = 0, h_ord = 0, h_label = [], h_hdrchk = 0, h_datachk = 0 \<rparr>"

definition demo_fl :: "chip_mem \<Rightarrow> long_mem \<Rightarrow> u32 \<Rightarrow> fl" where
  "demo_fl c u trk = \<lparr> chip = c, umem = u, drive = 0, track = trk, buffer = 0, mfmbuf = 0, mfmlim = 0, shift = 0, hdr = demo_hdr \<rparr>"

lemma demo_fl_fields [simp]: "chip (demo_fl c u t) = c" "umem (demo_fl c u t) = u" "track (demo_fl c u t) = t"
  by (simp_all add: demo_fl_def)

theorem track_round_trip_witness:
  "\<exists>s'. decode_track (demo_fl (stretch (chip_bits (chip (encode_track (demo_fl (\<lambda>i. 0) of_nat 77)))) 100001 54321) (\<lambda>i. 0) 77) =
     (True, s') \<and> umem s' 1407 = 1407 \<and> umem s' 1408 = 0"
proof -
  let ?put = "demo_fl (\<lambda>i. 0) of_nat 77"
  let ?got = "demo_fl (stretch (chip_bits (chip (encode_track ?put))) 100001 54321) (\<lambda>i. 0) 77"
  have "\<exists>s'. decode_track ?got = (True, s') \<and> (\<forall>i. umem s' i = (if i < 1408 then umem ?put i else umem ?got i))"
    by (rule track_round_trip [of "?put" 100001 "?got" 54321]) (simp_all add: reads_stretch)
  then obtain s' where s': "decode_track ?got = (True, s')" "\<And>i. umem s' i = (if i < 1408 then umem ?put i else umem ?got i)"
    by blast
  have "umem s' 1407 = 1407 \<and> umem s' 1408 = 0" unfolding s'(2) by simp
  with s'(1) show ?thesis by blast
qed

end
