(* ===== verification/Floppy_Sound.thy ===== *)
theory Floppy_Sound
  imports Floppy_Read
begin

text \<open>
  What a successful read of a track promises for any buffer, and what a written track looks like: no sector is accepted
  without its key, its header and both checksums, and a written track obeys MFM but for the keys.
\<close>

section \<open>Accepted sectors\<close>

text \<open>A sector in the first \<open>lim\<close> bits of the buffer, from the first bit of its key to the last one of its data.\<close>

definition accepted :: "(nat \<Rightarrow> bool) \<Rightarrow> nat \<Rightarrow> u32 \<Rightarrow> nat \<Rightarrow> u32 list \<Rightarrow> bool" where
  "accepted b lim trk k block \<longleftrightarrow>
    (\<exists>P h. P + 8 * sizeof_mfmsec \<le> lim \<and> sector_at b P h block \<and> h_magic h = SECOK \<and> ucast (h_trk h) = trk \<and> unat (h_sec h) = k \<and>
       h_hdrchk h = chksum (hdr_id h # h_label h) \<and> h_datachk h = chksum block)"

lemma hdr_id_update [simp]:
  "hdr_id (h\<lparr> h_label := x \<rparr>) = hdr_id h" "hdr_id (h\<lparr> h_hdrchk := c \<rparr>) = hdr_id h" "hdr_id (h\<lparr> h_datachk := c \<rparr>) = hdr_id h"
  by (simp_all add: hdr_id_def)

text \<open>A state whose header has just been read: the data of the sector is next.\<close>

definition header_read :: "(nat \<Rightarrow> bool) \<Rightarrow> nat \<Rightarrow> u32 \<Rightarrow> fl \<Rightarrow> bool" where
  "header_read b lim trk s \<longleftrightarrow> chip_bits (chip s) = b \<and> 16 * mfmlim s = lim \<and> track s = trk \<and> shift s < 16 \<and>
    (\<exists>P. 16 * mfmbuf s + shift s = P + 512 \<and> P + 8 * sizeof_mfmsec \<le> lim \<and> sector_at b P (hdr s) (decode_at b (P + 512) 128)) \<and>
    h_magic (hdr s) = SECOK \<and> ucast (h_trk (hdr s)) = trk \<and> unat (h_sec (hdr s)) < NSEC \<and>
    h_hdrchk (hdr s) = chksum (hdr_id (hdr s) # h_label (hdr s))"

lemma find_loop_shift: "find_loop c f lim = Some (i, sh) \<Longrightarrow> sh < 16"
proof (induction c f lim rule: find_loop.induct)
  case (1 c f lim)
  define tab where "tab = (if c f = 0xAAAA then Some even_tab else if c f = 0x5555 then Some odd_tab else None)"
  have f: "f < lim" using 1(3) by (subst (asm) find_loop.simps) (simp split: if_splits)
  have eq: "find_loop c f lim = (case tab of None \<Rightarrow> find_loop c (f + 1) lim
      | Some tp \<Rightarrow> (case skip_run c (c f) (f + 1) lim of None \<Rightarrow> None
        | Some i \<Rightarrow> (case List.find (tab_match c i) tp of Some t \<Rightarrow> Some (i - 2, bt_shift t)
          | None \<Rightarrow> find_loop c i lim)))"
    using f by (subst find_loop.simps) (simp add: Let_def tab_def)
  note ih = 1(1) [OF f refl refl] 1(2) [OF f refl refl]
  show ?case
  proof (cases tab)
    case None
    then have "find_loop c (f + 1) lim = Some (i, sh)" using eq 1(3) by simp
    then show ?thesis using ih(1) None by (simp add: tab_def)
  next
    case (Some tp)
    then obtain k where k: "skip_run c (c f) (f + 1) lim = Some k" using eq 1(3) by (auto split: option.splits)
    show ?thesis
    proof (cases "List.find (tab_match c k) tp")
      case None
      then have "find_loop c k lim = Some (i, sh)" using eq 1(3) Some k by simp
      then show ?thesis using ih(2) [of tp k] Some k None by (simp add: tab_def)
    next
      case (Some t)
      then have "t \<in> set tp" by (auto simp: find_Some_iff)
      then have "entry_ok t" using tabs_ok \<open>tab = Some tp\<close> by (auto simp: tab_def list_all_iff split: if_splits)
      moreover have "sh = bt_shift t" using eq 1(3) \<open>tab = Some tp\<close> k Some by simp
      ultimately show ?thesis by (simp add: entry_ok_def)
    qed
  qed
qed

lemma find_True:
  assumes "find s = (True, s')"
  shows "\<exists>i sh. s' = s\<lparr> mfmbuf := i, shift := sh \<rparr> \<and> sh < 16"
  using assms by (auto simp: find_def split: if_splits option.splits dest: find_loop_shift)

lemma gethdr_True:
  assumes g: "gethdr s = (True, s')" and sh: "shift s < 16"
  shows "header_read (chip_bits (chip s)) (16 * mfmlim s) (track s) s' \<and> umem s' = umem s"
proof -
  define b q where "b = chip_bits (chip s)" and "q = 16 * mfmbuf s + shift s"
  define s0 where "s0 = s\<lparr> mfmbuf := mfmbuf s + 4 \<rparr>"
  define s1 where "s1 = hdr_fields s0"
  have f: "s1 = s0\<lparr> mfmbuf := mfmbuf s0 + 28,
    hdr := (set_hdr_id (hd (decode_at b (q + 64) 1)) (hdr s0))\<lparr> h_label := decode_at b (q + 64 + 64) 4,
      h_hdrchk := hd (decode_at b (q + 64 + 320) 1), h_datachk := hd (decode_at b (q + 64 + 384) 1) \<rparr> \<rparr>"
    unfolding s1_def by (rule hdr_fields_at) (use sh in \<open>simp_all add: s0_def b_def q_def\<close>)
  have m: "unshift (shift s) (chip s) (mfmbuf s) = word_at b q" "unshift (shift s) (chip s) (mfmbuf s + 2) = word_at b (q + 32)"
    using unshift_word [OF sh, of "chip s"] by (simp_all add: b_def q_def algebra_simps)
  have c: "word_at b q AND NOT (push_bit 31 1) = 0x2AAAAAAA" "word_at b (q + 32) = sync_key"
    using g unfolding gethdr_def m by (simp_all split: if_splits)
  have room: "mfmbuf s + 545 \<le> mfmlim s" using g unfolding gethdr_def by (simp split: if_splits)
  have "gethdr s = (if mfmbuf s + sizeof_mfmsec div 2 + 1 > mfmlim s then (False, s) else
      let s = s1; h = hdr s
       in if h_magic h \<noteq> SECOK \<or> unat (h_trk h) \<ge> TRACKS \<or> unat (h_sec h) \<ge> NSEC \<or> int (unat (h_ord h)) - 1 \<ge> int NSEC
          then (False, s)
          else if h_hdrchk h \<noteq> chksum (hdr_id h # h_label h) then (False, s)
          else if ucast (h_trk h) \<noteq> track s then (False, s)
          else (True, s))"
    unfolding gethdr_def m c by (simp add: s0_def s1_def)
  then have s': "s' = s1" "h_magic (hdr s1) = SECOK" "unat (h_sec (hdr s1)) < NSEC"
    "h_hdrchk (hdr s1) = chksum (hdr_id (hdr s1) # h_label (hdr s1))" "ucast (h_trk (hdr s1)) = track s1"
    using g by (simp_all add: Let_def split: if_splits)
  have one: "[hd (decode_at b k 1)] = decode_at b k 1" for k by (simp add: decode_at_def)
  have "sector_at b q (hdr s1) (decode_at b (q + 512) 128)"
    unfolding sector_at_def using c one by (simp add: f add.assoc)
  moreover have "q + 8 * sizeof_mfmsec \<le> 16 * mfmlim s" using room sh by (simp add: q_def)
  moreover have "16 * mfmbuf s1 + shift s1 = q + 512" "mfmlim s1 = mfmlim s" "chip s1 = chip s" "track s1 = track s" "shift s1 = shift s" "umem s1 = umem s"
    by (simp_all add: f s0_def q_def)
  ultimately show ?thesis using s' sh unfolding header_read_def by (auto simp: b_def)
qed

lemma next_hdr_True:
  assumes "next_hdr sec n s = (True, n', s')" and "shift s < 16"
  shows "header_read (chip_bits (chip s)) (16 * mfmlim s) (track s) s' \<and> umem s' = umem s \<and> unat (h_sec (hdr s')) = sec"
proof -
  obtain t where t: "gethdr t = (True, s')" "unat (h_sec (hdr s')) = sec" "shift t < 16" "chip t = chip s" "track t = track s" "umem t = umem s"
      "mfmlim t = mfmlim s"
    using assms by (auto simp: next_hdr_def Let_def split: prod.splits if_splits dest!: find_True)
  then show ?thesis using gethdr_True [OF t(1,3)] by simp
qed

lemma get_loop_first:
  assumes g: "get_loop (Suc k) (128 * sec) sec n s = (True, s')" and h: "header_read b lim trk s" and sec: "unat (h_sec (hdr s)) = sec"
  shows "\<exists>block s1. length block = 128 \<and> accepted b lim trk sec block \<and> umem s1 = store_longs (128 * sec) block (umem s) \<and>
    (if k = 0 then s' = s1
     else \<exists>n' s2. header_read b lim trk s2 \<and> umem s2 = umem s1 \<and> unat (h_sec (hdr s2)) = Suc sec mod NSEC \<and>
       get_loop k (128 * (Suc sec mod NSEC)) (Suc sec mod NSEC) n' s2 = (True, s'))"
proof -
  obtain P where P: "16 * mfmbuf s + shift s = P + 512" "P + 8 * sizeof_mfmsec \<le> lim" "sector_at b P (hdr s) (decode_at b (P + 512) 128)"
    and lim: "16 * mfmlim s = lim" and hh: "chip_bits (chip s) = b" "track s = trk" "shift s < 16" "h_magic (hdr s) = SECOK" "ucast (h_trk (hdr s)) = trk"
      "unat (h_sec (hdr s)) < NSEC" "h_hdrchk (hdr s) = chksum (hdr_id (hdr s) # h_label (hdr s))"
    using h unfolding header_read_def by blast
  define block where "block = decode_at b (P + 512) 128"
  have len: "length block = 128" by (simp add: block_def decode_at_def)
  have d: "demfm 1024 s = (block, s\<lparr> mfmbuf := mfmbuf s + 512 \<rparr>)"
    using demfm_sizes(3) [OF hh(3)] P(1) by (simp add: block_def hh(1))
  define s1 where "s1 = s\<lparr> mfmbuf := mfmbuf s + 512, umem := store_longs (128 * sec) block (umem s) \<rparr>"
  have l: "longs (umem s1) (128 * sec) 128 = block" using longs_store [OF len] by (simp add: s1_def)
  have chk: "chksum block = h_datachk (hdr s)"
    using g l by (simp add: get_loop.simps(2) d s1_def Let_def split: if_splits)
  have acc: "accepted b lim trk sec block"
    unfolding accepted_def using P(2,3) hh sec chk by (auto simp: block_def)
  have st: "get_loop (Suc k) (128 * sec) sec n s =
      (if k = 0 then (True, s1)
       else let (sec, p) = (if sec + 1 = NSEC then (0, 0) else (sec + 1, 128 * sec + 128)); (ok, n, s) = next_hdr sec n s1
            in if ok then get_loop k p sec n s else (False, s))"
    using get_loop_step [OF d len] chk by (simp add: s1_def)
  have go: "(if sec + 1 = NSEC then (0, 0) else (sec + 1, 128 * sec + 128)) = (Suc sec mod NSEC, 128 * (Suc sec mod NSEC))"
    using hh(6) sec by auto
  have "if k = 0 then s' = s1 else \<exists>n' s2. header_read b lim trk s2 \<and> umem s2 = umem s1 \<and> unat (h_sec (hdr s2)) = Suc sec mod NSEC \<and>
       get_loop k (128 * (Suc sec mod NSEC)) (Suc sec mod NSEC) n' s2 = (True, s')"
  proof (cases "k = 0")
    case True
    then show ?thesis using g st by simp
  next
    case False
    obtain ok n' s2 where nx: "next_hdr (Suc sec mod NSEC) n s1 = (ok, n', s2)" by (cases "next_hdr (Suc sec mod NSEC) n s1") auto
    have "(if ok then get_loop k (128 * (Suc sec mod NSEC)) (Suc sec mod NSEC) n' s2 else (False, s2)) = (True, s')"
      using g False unfolding st go Let_def by (simp only: prod.case nx if_False simp_thms)
    then have ok: "ok = True" and rest: "get_loop k (128 * (Suc sec mod NSEC)) (Suc sec mod NSEC) n' s2 = (True, s')"
      by (simp_all split: if_splits)
    have "header_read (chip_bits (chip s1)) (16 * mfmlim s1) (track s1) s2 \<and> umem s2 = umem s1 \<and> unat (h_sec (hdr s2)) = Suc sec mod NSEC"
      by (rule next_hdr_True [OF nx [unfolded ok]]) (use hh(3) in \<open>simp add: s1_def\<close>)
    then show ?thesis using rest False hh(1,2) lim by (auto simp: s1_def)
  qed
  then show ?thesis using len acc by (intro exI [of _ block] exI [of _ s1]) (simp add: s1_def)
qed

lemma longs_store_other:
  "l \<noteq> sec \<Longrightarrow> length block = 128 \<Longrightarrow> longs (store_longs (128 * sec) block u) (128 * l) 128 = longs u (128 * l) 128"
  unfolding longs_def store_longs_def by (rule map_cong) auto

lemma get_loop_sound:
  "get_loop (Suc k) (128 * sec) sec n s = (True, s') \<Longrightarrow> header_read b lim trk s \<Longrightarrow> unat (h_sec (hdr s)) = sec \<Longrightarrow> k \<le> 10 \<Longrightarrow>
    (\<forall>j \<le> k. accepted b lim trk ((sec + j) mod NSEC) (longs (umem s') (128 * ((sec + j) mod NSEC)) 128)) \<and>
    (\<forall>l. (\<forall>j \<le> k. l \<noteq> (sec + j) mod NSEC) \<longrightarrow> longs (umem s') (128 * l) 128 = longs (umem s) (128 * l) 128)"
proof (induction k arbitrary: sec n s)
  case (0 sec n s)
  have sec: "sec < NSEC" using 0(2,3) by (auto simp: header_read_def)
  from get_loop_first [OF 0(1-3)] obtain block where b: "length block = 128" "accepted b lim trk sec block"
      "umem s' = store_longs (128 * sec) block (umem s)"
    by auto
  then show ?case using sec longs_store [OF b(1)] longs_store_other [OF _ b(1)] by simp
next
  case (Suc k sec n s)
  have sec: "sec < NSEC" using Suc.prems(2,3) by (auto simp: header_read_def)
  from get_loop_first [OF Suc.prems(1-3)] obtain block s1 n' s2 where b: "length block = 128" "accepted b lim trk sec block"
      "umem s2 = store_longs (128 * sec) block (umem s)" "header_read b lim trk s2" "unat (h_sec (hdr s2)) = Suc sec mod NSEC"
      "get_loop (Suc k) (128 * (Suc sec mod NSEC)) (Suc sec mod NSEC) n' s2 = (True, s')"
    by auto
  have "k \<le> 10" using Suc.prems(4) by simp
  note ih = Suc.IH [OF b(6,4,5) this]
  have shift: "(Suc sec mod NSEC + j) mod NSEC = (sec + Suc j) mod NSEC" for j
    by (simp only: mod_add_left_eq add_Suc add_Suc_right)
  have away: "sec \<noteq> (Suc sec mod NSEC + j) mod NSEC" if "j \<le> k" for j
  proof -
    have j: "Suc j < 11" using that Suc.prems(4) by simp
    have "(sec + Suc j) mod 11 \<noteq> sec"
    proof (cases "sec + Suc j < 11")
      case False
      then have "(sec + Suc j) mod 11 = sec + Suc j - 11" using sec j by (simp add: mod_if)
      then show ?thesis using j False by simp
    qed simp
    then show ?thesis unfolding shift by simp
  qed
  have first: "longs (umem s') (128 * sec) 128 = block"
    using ih away longs_store [OF b(1), of "128 * sec" "umem s"] b(3) by (metis (no_types, lifting))
  show ?case
  proof (intro conjI allI impI)
    fix j assume j: "j \<le> Suc k"
    show "accepted b lim trk ((sec + j) mod NSEC) (longs (umem s') (128 * ((sec + j) mod NSEC)) 128)"
    proof (cases j)
      case 0
      then show ?thesis using first b(2) sec by simp
    next
      case (Suc i)
      then show ?thesis using ih j unfolding shift by (metis Suc_le_mono)
    qed
  next
    fix l assume l: "\<forall>j \<le> Suc k. l \<noteq> (sec + j) mod NSEC"
    have "longs (umem s') (128 * l) 128 = longs (umem s2) (128 * l) 128"
      using ih l unfolding shift by (metis Suc_le_mono)
    moreover have "l \<noteq> sec" using l sec by (metis add.right_neutral le0 mod_less)
    ultimately show "longs (umem s') (128 * l) 128 = longs (umem s) (128 * l) 128"
      using longs_store_other [OF _ b(1)] b(3) by simp
  qed
qed

text \<open>
  C16. Whatever is read from a disk, \<open>get\<close> accepts the track only if each of its eleven sectors stands as a whole inside the \<open>TRKRLEN\<close>
  bytes read, at some bit position: first the synchronizing key, then a header for this track and sector whose checksum is right, and data whose
  checksum is the one in that header; these data are what the track buffer then holds.
\<close>

theorem track_accepted:
  assumes "decode_track s = (True, s')" and "k < NSEC"
  shows "accepted (chip_bits (chip s)) (8 * TRKRLEN) (track s) k (longs (umem s') (128 * k) 128)"
proof -
  define s0 where "s0 = s\<lparr> mfmbuf := 0, mfmlim := TRKRLEN div 2 \<rparr>"
  obtain s1 s2 where f: "find s0 = (True, s1)" and g: "gethdr s1 = (True, s2)"
    and l: "get_loop NSEC (unat (h_sec (hdr s2)) * (FLBPSEC div 4)) (unat (h_sec (hdr s2))) (ucast (h_ord (hdr s2))) s2 = (True, s')"
    using assms(1) by (auto simp: decode_track_def s0_def [symmetric] Let_def split: prod.splits if_splits)
  obtain i sh where s1: "s1 = s0\<lparr> mfmbuf := i, shift := sh \<rparr>" "sh < 16" using find_True [OF f] by blast
  then have "header_read (chip_bits (chip s)) (8 * TRKRLEN) (track s) s2"
    using gethdr_True [OF g] by (simp add: s0_def TRKRLEN_def)
  moreover define sec where "sec = unat (h_sec (hdr s2))"
  moreover have "get_loop (Suc 10) (128 * sec) sec (ucast (h_ord (hdr s2))) s2 = (True, s')"
    using l by (simp add: sec_def mult.commute)
  ultimately have all: "accepted (chip_bits (chip s)) (8 * TRKRLEN) (track s) ((sec + j) mod NSEC) (longs (umem s') (128 * ((sec + j) mod NSEC)) 128)"
    if "j \<le> 10" for j
    using get_loop_sound [of 10 sec] that by simp
  define j where "j = (k + (11 - sec mod 11)) mod 11"
  have "(sec + j) mod 11 = (sec mod 11 + (k + (11 - sec mod 11))) mod 11"
    unfolding j_def by (simp only: mod_add_right_eq mod_add_left_eq)
  also have "sec mod 11 + (k + (11 - sec mod 11)) = k + 11" using mod11(1) [of sec] by simp
  also have "(k + 11) mod 11 = k" using assms(2) by simp
  finally have "(sec + j) mod NSEC = k" .
  moreover have "j \<le> 10" by (simp add: j_def less_Suc_eq_le [symmetric])
  ultimately show ?thesis using all [of j] by simp
qed

theorem track_accepted_witness:
  "accepted (chip_bits (stretch (chip_bits (chip (encode_track (demo_fl (\<lambda>i. 0) of_nat 3)))) 95760 95759)) (8 * TRKRLEN) 3 10
     (map (\<lambda>i. of_nat (1280 + i)) [0..<128])"
proof -
  let ?put = "demo_fl (\<lambda>i. 0) of_nat 3"
  let ?got = "demo_fl (stretch (chip_bits (chip (encode_track ?put))) 95760 95759) (\<lambda>i. 0) 3"
  obtain s' where s': "decode_track ?got = (True, s')" "\<And>i. umem s' i = (if i < 1408 then umem ?put i else umem ?got i)"
    using track_round_trip [of ?put 95760 ?got 95759] by (auto simp: reads_stretch)
  have "longs (umem s') (128 * 10) 128 = map (\<lambda>i. of_nat (1280 + i)) [0..<128]"
    unfolding longs_def s'(2) by (rule map_cong) auto
  then show ?thesis using track_accepted [OF s'(1), of 10] by simp
qed

section \<open>A written track is legal MFM\<close>

text \<open>
  C27. What \<open>fdputaml\<close> writes is MFM: in the buffer it fills, exactly \<open>TRKWLEN\<close> bytes, every clock bit is set just when the data bits
  beside it are both 0. The only exceptions are the two clock bits missing from each synchronizing key and the last clock bit of all.
\<close>

theorem track_legal:
  assumes "even y" and "0 < y" "y < 8 * TRKWLEN - 2"
    and "\<forall>k < NSEC. y \<noteq> sec_pos k + 42 \<and> y \<noteq> sec_pos k + 58"
  shows "mfm_rule (chip_bits (chip (encode_track s))) y"
proof -
  let ?w = "chip_bits (chip (encode_track s))"
  note img = encode_track_effect(1) [of s]
  consider "y < 13280" | "13280 \<le> y" "y < track_end" | "track_end \<le> y" by linarith
  then show ?thesis
  proof cases
    case 1
    then show ?thesis using image_slop [OF img, of y] image_slop [OF img, of "y - 1"] image_slop [OF img, of "y + 1"] assms(1,2)
      by (simp add: mfm_rule_def)
  next
    case 2
    define k t where "k = (y - 13280) div 8704" and "t = (y - 13280) mod 8704"
    have y: "y = sec_pos k + t" using 2 by (simp add: k_def t_def sec_pos_def)
    have "k < NSEC" using 2 by (simp add: k_def less_mult_imp_div_less)
    moreover have "even t" using assms(1) y by (simp add: sec_pos_def)
    moreover have "t < 8704" by (simp add: t_def)
    ultimately show ?thesis unfolding y using image_sector(3) [OF img] assms(4) y by blast
  next
    case 3
    define j where "j = y - track_end"
    have "y = track_end + j" "even j" "j \<le> 12"
      using 3 assms(1,3) by (auto simp: j_def TRKWLEN_def elim!: evenE)
    then show ?thesis using image_last_word [OF img] by metis
  qed
qed

theorem track_legal_witness: "mfm_rule (chip_bits (chip (encode_track (demo_fl (\<lambda>i. 0) of_nat 3)))) 13324"
  by (rule track_legal) (auto simp: TRKWLEN_def sec_pos_def)

text \<open>
  \<open>fdputaml\<close> stays inside its buffer: it writes exactly to its limit (the assertion before the transfer), changes no chip memory
  beyond the \<open>TRKWLEN\<close> bytes, and these lie inside the buffer of \<open>TRKBLEN\<close> bytes that \<open>fdamtbuf\<close> asks for.
\<close>

theorem track_bounds:
  "mfmbuf (encode_track s) = mfmlim (encode_track s) \<and> mfmlim (encode_track s) = TRKWLEN div 2 \<and>
   (\<exists>n. 2 * n = TRKWLEN \<and> n \<le> TRKBLEN div 2 \<and> (\<exists>f. chip (encode_track s) = (\<lambda>j. if j < n then f j else chip s j)))"
proof -
  let ?c = "chip (encode_track s)"
  have "?c = (\<lambda>j. if j < 6815 then ?c j else chip s j)"
    using encode_track_effect(2) [of _ s] by (auto simp: TRKWLEN_def)
  moreover have "2 * 6815 = TRKWLEN \<and> 6815 \<le> TRKBLEN div 2" by (simp add: TRKWLEN_def TRKBLEN_def TRKRLEN_def)
  ultimately have "\<exists>n. 2 * n = TRKWLEN \<and> n \<le> TRKBLEN div 2 \<and> (\<exists>f. ?c = (\<lambda>j. if j < n then f j else chip s j))" by blast
  then show ?thesis using encode_track_effect(3,4) by blast
qed

end
