(* ===== verification/Floppy_Drive.thy ===== *)
theory Floppy_Drive
  imports Floppy_Mfm
begin

text \<open>
  The floppy drives: \<open>floppy/floph.c\<close>, below the level of MFM: motors, selection, seeking and the transfers. The state of the spindles is
  that of the source; what the code does to the hardware is a trace of register accesses and delays, and what the hardware
  answers is an environment, functions of the trace so far. A transfer starts with the second write of \<open>dsklen\<close>, as on the chips; it
  is an event that carries the words written, or the number of bytes to be read.

  \<open>prb\<close> is an \<open>unsigned int\<close> in some functions; only its low byte reaches the port, so it is a byte here. The asserted bound
  of drive numbers is a hypothesis where it matters. The polling loop of a transfer returns when the hardware says so; a transfer
  that never ends is \<open>None\<close>.
\<close>

section \<open>Registers\<close>

abbreviation (input) RECSLOP :: nat where "RECSLOP \<equiv> 20"
abbreviation (input) TRKPCYL :: nat where "TRKPCYL \<equiv> 2"
abbreviation (input) PCOMP1 :: nat where "PCOMP1 \<equiv> 80"
abbreviation (input) PCOMP2 :: nat where "PCOMP2 \<equiv> 161"
abbreviation (input) PCOMP3 :: nat where "PCOMP3 \<equiv> 161"
abbreviation (input) MPERB :: nat where "MPERB \<equiv> 16"

text \<open>Bits of \<open>ACIAA->pra\<close> and \<open>ACIAB->prb\<close>; those of \<open>AMIGA->dsklen\<close> and \<open>AMIGA->adkcon\<close>.\<close>

definition DSKRDY :: byte where "DSKRDY = 0x20"
definition DSKTRACK0 :: byte where "DSKTRACK0 = 0x10"
definition DSKPROT :: byte where "DSKPROT = 0x08"
definition DSKMOTOR :: byte where "DSKMOTOR = 0x80"
definition DSKSEL :: byte where "DSKSEL = 0x78"
definition DSKSIDE :: byte where "DSKSIDE = 0x04"
definition DSKDIREC :: byte where "DSKDIREC = 0x02"
definition DSKSTEP :: byte where "DSKSTEP = 0x01"
definition DSKINDEX :: byte where "DSKINDEX = 0x10"
definition DMAEN :: u16 where "DMAEN = 0x8000"
definition DSKWRITE :: u16 where "DSKWRITE = 0x4000"
definition PRECOMP1 :: u16 where "PRECOMP1 = 0x4000"
definition PRECOMP0 :: u16 where "PRECOMP0 = 0x2000"
definition WORDSYNC :: u16 where "WORDSYNC = 0x0400"
definition MSBSYNC :: u16 where "MSBSYNC = 0x0200"
definition FAST :: u16 where "FAST = 0x0100"
definition AINTSET :: u16 where "AINTSET = 0x8000"
definition AIEEXTI :: u16 where "AIEEXTI = 0x2000"
definition AIEDSYN :: u16 where "AIEDSYN = 0x1000"
definition AIEDBLK :: u16 where "AIEDBLK = 0x0002"
definition ADKSET :: u16 where "ADKSET = 0x8000"
definition DMASET :: u16 where "DMASET = 0x8000"

definition selbits :: "byte list" where
  "selbits = [0x08, 0x10, 0x20, 0x40]"

section \<open>State\<close>

datatype fev =
  Wprb byte | Wddra byte | Wddrb byte | Wdmacon u16 | Wintena u16 | Wintreq u16 | Wadkcon u16 | Wdsklen u16 | Wdskpt
| Rprb | Rpra | Rddra | Ricr | Rintenar | FDelay nat | DmaIn nat | DmaOut "u16 list"

record spin =
  sp_trk :: int
  sp_on :: bool

record fh =
  spindle :: "spin list"
  selected :: "nat option"
  ftr :: "fev list"

record fenv =
  prb_in :: "fev list \<Rightarrow> byte"
  pra_in :: "fev list \<Rightarrow> byte"
  ddra_in :: "fev list \<Rightarrow> byte"
  icr_in :: "fev list \<Rightarrow> byte"
  intenar_in :: "fev list \<Rightarrow> u16"
  dma_ends :: "fev list \<Rightarrow> bool"
  dma_data :: "fev list \<Rightarrow> chip_mem"

definition init_fh :: fh where
  "init_fh = \<lparr> spindle = replicate 4 \<lparr> sp_trk = -1, sp_on = False \<rparr>, selected = None, ftr = [] \<rparr>"

definition fput :: "fev \<Rightarrow> fh \<Rightarrow> fh" where
  "fput e s = s\<lparr> ftr := ftr s @ [e] \<rparr>"

definition rd_pra :: "fenv \<Rightarrow> fh \<Rightarrow> byte \<times> fh" where
  "rd_pra E s = (pra_in E (ftr s), fput Rpra s)"

definition rd_prb :: "fenv \<Rightarrow> fh \<Rightarrow> byte \<times> fh" where
  "rd_prb E s = (prb_in E (ftr s), fput Rprb s)"

definition rd_icr :: "fenv \<Rightarrow> fh \<Rightarrow> byte \<times> fh" where
  "rd_icr E s = (icr_in E (ftr s), fput Ricr s)"

text \<open>\<open>ACIAB->prb |= DSKSEL\<close>\<close>

definition desel :: "fenv \<Rightarrow> fh \<Rightarrow> fh" where
  "desel E s = (let (p, s) = rd_prb E s in fput (Wprb (p OR DSKSEL)) s)"

definition set_trk :: "nat \<Rightarrow> int \<Rightarrow> fh \<Rightarrow> fh" where
  "set_trk drv t s = s\<lparr> spindle := (spindle s)[drv := (spindle s ! drv)\<lparr> sp_trk := t \<rparr>] \<rparr>"

definition set_on :: "nat \<Rightarrow> bool \<Rightarrow> fh \<Rightarrow> fh" where
  "set_on drv on s = s\<lparr> spindle := (spindle s)[drv := (spindle s ! drv)\<lparr> sp_on := on \<rparr>] \<rparr>"

definition flinit :: "fenv \<Rightarrow> fh \<Rightarrow> fh" where
  "flinit E s =
    (let s = fput (Wddra (ddra_in E (ftr s) AND NOT (DSKRDY OR DSKTRACK0 OR DSKPROT))) (fput Rddra s);
         s = desel E s;
         s = fput (Wprb (NOT 0)) s;
         s = fput (Wddrb (NOT 0)) s;
         s = fput (Wdmacon (DMASET OR 0x210)) s
     in fput (Wintena (AIEDSYN OR AIEDBLK)) s)"

section \<open>Motor and selection\<close>

text \<open>The port value for a drive that is not selected yet.\<close>

definition prb_for :: "bool \<Rightarrow> int \<Rightarrow> byte" where
  "prb_for on trk =
    (let p = NOT 0; p = (if on then p AND NOT DSKMOTOR else p)
     in if trk mod int TRKPCYL \<noteq> 0 then p AND NOT DSKSIDE else p)"

definition sel_drive :: "fenv \<Rightarrow> nat \<Rightarrow> byte \<Rightarrow> fh \<Rightarrow> fh" where
  "sel_drive E drv p s = fput (Wprb (p AND NOT (selbits ! drv))) (fput (Wprb p) (desel E s))"

definition motor_off :: "fenv \<Rightarrow> nat \<Rightarrow> fh \<Rightarrow> bool \<times> fh" where
  "motor_off E drv s =
    (if \<not> sp_on (spindle s ! drv) then
       (True, if selected s = Some drv then (desel E s)\<lparr> selected := None \<rparr> else s)
     else
       let s = sel_drive E drv (prb_for False (sp_trk (spindle s ! drv))) s;
           s = set_on drv False (s\<lparr> selected := Some drv \<rparr>)
       in (True, (desel E s)\<lparr> selected := None \<rparr>))"

fun wait_ready :: "fenv \<Rightarrow> nat \<Rightarrow> nat \<Rightarrow> fh \<Rightarrow> bool \<times> fh" where
  "wait_ready E drv 0 s =
    (let (p, s) = rd_pra E s in if p AND DSKRDY = 0 then (True, s) else (False, snd (motor_off E drv s)))"
| "wait_ready E drv (Suc ncnt) s =
    (let (p, s) = rd_pra E s in if p AND DSKRDY = 0 then (True, s) else wait_ready E drv ncnt (fput (FDelay 250000) s))"

definition motor_on :: "fenv \<Rightarrow> nat \<Rightarrow> fh \<Rightarrow> bool \<times> fh" where
  "motor_on E drv s =
    (if sp_on (spindle s ! drv) then (True, s)
     else
       let s = sel_drive E drv (prb_for True (sp_trk (spindle s ! drv))) s;
           s = set_on drv True (s\<lparr> selected := Some drv \<rparr>)
       in wait_ready E drv 10 s)"

definition select :: "fenv \<Rightarrow> nat \<Rightarrow> fh \<Rightarrow> fh" where
  "select E drv s =
    (if selected s = Some drv then s
     else sel_drive E drv (prb_for (sp_on (spindle s ! drv)) (sp_trk (spindle s ! drv))) (s\<lparr> selected := Some drv \<rparr>))"

definition flstop :: "fenv \<Rightarrow> nat \<Rightarrow> fh \<Rightarrow> fh" where
  "flstop E drv s = snd (motor_off E drv s)"

definition fllost :: "nat \<Rightarrow> fh \<Rightarrow> fh" where
  "fllost drv s = set_trk drv (- 1) s"

definition flok :: "fenv \<Rightarrow> nat \<Rightarrow> fh \<Rightarrow> bool \<times> fh" where
  "flok E drv s = motor_on E drv s"

definition flwprot :: "fenv \<Rightarrow> nat \<Rightarrow> fh \<Rightarrow> bool \<times> fh" where
  "flwprot E drv s = (let (p, s) = rd_pra E (select E drv s) in (p AND DSKPROT = 0, s))"

section \<open>Seeking\<close>

text \<open>One pulse of the step line; \<open>p\<close> is the port value with the line high.\<close>

definition step_pulse :: "byte \<Rightarrow> fh \<Rightarrow> fh" where
  "step_pulse p s = fput (FDelay 3000) (fput (Wprb (p OR DSKSTEP)) (fput (FDelay 1) (fput (Wprb (p AND NOT DSKSTEP)) s)))"

fun step_in :: "fenv \<Rightarrow> byte \<Rightarrow> nat \<Rightarrow> fh \<Rightarrow> fh" where
  "step_in E p 0 s = s"
| "step_in E p (Suc n) s =
    (let (a, s) = rd_pra E s
     in if a AND DSKTRACK0 \<noteq> 0 then s else step_in E (p OR DSKSTEP) n (step_pulse p s))"

text \<open>The loop out to track 0; \<open>n\<close> steps are left, at least one.\<close>

fun step_out :: "fenv \<Rightarrow> nat \<Rightarrow> byte \<Rightarrow> nat \<Rightarrow> fh \<Rightarrow> bool \<times> fh" where
  "step_out E drv p 0 s = (False, s)"
| "step_out E drv p (Suc n) s =
    (let (a, s) = rd_pra E (step_pulse p s)
     in if a AND DSKTRACK0 = 0 then (True, s)
        else if n = 0 then (False, snd (motor_off E drv s))
        else step_out E drv (p OR DSKSTEP) n s)"

definition recal :: "fenv \<Rightarrow> nat \<Rightarrow> fh \<Rightarrow> bool \<times> fh" where
  "recal E drv s =
    (let (ok, s) = motor_on E drv s
     in if \<not> ok then (False, s)
        else
          let (p, s) = rd_prb E (select E drv s);
              p = (p OR DSKSIDE) AND NOT DSKDIREC;
              s = fput (Wprb p) s;
              s = step_in E p (TRACKS div 4) s;
              s = fput (FDelay 15000) s;
              (ok, s) = step_out E drv (p OR DSKDIREC) (TRACKS div TRKPCYL + RECSLOP) s
          in if ok then (True, fput (FDelay 15000) (set_trk drv 0 s)) else (False, s))"

fun step_many :: "byte \<Rightarrow> nat \<Rightarrow> fh \<Rightarrow> fh" where
  "step_many p 0 s = s"
| "step_many p (Suc n) s = step_many (p OR DSKSTEP) n (step_pulse p s)"

text \<open>The move of \<open>seek\<close> once the track of the drive is known.\<close>

definition seek_move :: "fenv \<Rightarrow> nat \<Rightarrow> nat \<Rightarrow> fh \<Rightarrow> fh" where
  "seek_move E drv trk s =
    (let at = sp_trk (spindle s ! drv);
         delta = at div int TRKPCYL - int (trk div TRKPCYL);
         (p, s) = rd_prb E s;
         p = p OR (DSKSIDE OR DSKDIREC);
         p = (if trk mod TRKPCYL \<noteq> 0 then p AND NOT DSKSIDE else p);
         p = (if delta < 0 then p AND NOT DSKDIREC else p);
         n = nat \<bar>delta\<bar>;
         s = fput (Wprb p) s;
         s = (if int (trk mod TRKPCYL) \<noteq> at mod int TRKPCYL then fput (FDelay 1000) s else s);
         s = set_trk drv (int trk) s
     in if n = 0 then s else fput (FDelay 15000) (step_many p n s))"

definition seek :: "fenv \<Rightarrow> nat \<Rightarrow> nat \<Rightarrow> fh \<Rightarrow> bool \<times> fh" where
  "seek E drv trk s =
    (if sp_trk (spindle s ! drv) = int trk then (True, s)
     else
       let (ok, s) = motor_on E drv s
       in if \<not> ok then (False, s)
          else
            let s = select E drv s;
                (ok, s) = (if sp_trk (spindle s ! drv) < 0 then recal E drv s else (True, s))
            in if \<not> ok then (False, s) else (True, seek_move E drv trk s))"

section \<open>Transfers\<close>

text \<open>Motor, selection and seek, with which both transfers begin.\<close>

definition go_to :: "fenv \<Rightarrow> nat \<Rightarrow> nat \<Rightarrow> fh \<Rightarrow> bool \<times> fh" where
  "go_to E drv trk s =
    (let (ok, s) = motor_on E drv s in if \<not> ok then (False, s) else seek E drv trk (select E drv s))"

definition flread :: "fenv \<Rightarrow> nat \<Rightarrow> nat \<Rightarrow> nat \<Rightarrow> chip_mem \<Rightarrow> fh \<Rightarrow> (bool \<times> chip_mem \<times> fh) option" where
  "flread E drv trk len c s =
    (let (ok, s) = go_to E drv trk s
     in if \<not> ok then Some (False, c, s)
        else
          let s = fput (Wadkcon (WORDSYNC OR MSBSYNC)) s;
              s = fput (Wadkcon (ADKSET OR FAST)) s;
              s = fput (Wdsklen 0) s;
              s = fput (FDelay 1000) s;
              s = fput Wdskpt s;
              s = fput (Wintreq AIEDBLK) s;
              s = fput (Wdsklen (of_nat (len div 2) OR DMAEN)) s;
              s = fput (Wdsklen (of_nat (len div 2) OR DMAEN)) s;
              s = fput (DmaIn len) s;
              s = fput (FDelay (len * MPERB)) s
          in if \<not> dma_ends E (ftr s) then None
             else
               let c = (\<lambda>i. if i < len div 2 then dma_data E (ftr s) i else c i);
                   s = fput (Wintreq AIEDBLK) s;
                   s = fput (Wdsklen 0) s
               in Some (True, c, s))"

definition flwrite :: "fenv \<Rightarrow> nat \<Rightarrow> nat \<Rightarrow> nat \<Rightarrow> chip_mem \<Rightarrow> fh \<Rightarrow> (bool \<times> fh) option" where
  "flwrite E drv trk len c s =
    (let (ok, s) = go_to E drv trk s
     in if \<not> ok then Some (False, s)
        else
          let (p, s) = rd_pra E s
          in if p AND DSKPROT = 0 then Some (False, s)
             else
               let s = fput (Wadkcon (WORDSYNC OR MSBSYNC OR PRECOMP1 OR PRECOMP0)) s;
                   s = fput (Wadkcon (if trk \<ge> PCOMP3 then ADKSET OR FAST OR PRECOMP1 OR PRECOMP0
                                     else if trk \<ge> PCOMP2 then ADKSET OR FAST OR PRECOMP1
                                     else if trk \<ge> PCOMP1 then ADKSET OR FAST OR PRECOMP0
                                     else ADKSET OR FAST)) s;
                   s = fput (Wdsklen DSKWRITE) s;
                   s = fput (FDelay 1000) s;
                   s = fput Wdskpt s;
                   s = fput (Wintreq AIEDBLK) s;
                   s = fput (Wdsklen (of_nat (len div 2) OR DMAEN OR DSKWRITE)) s;
                   s = fput (Wdsklen (of_nat (len div 2) OR DMAEN OR DSKWRITE)) s;
                   s = fput (DmaOut (map c [0..<len div 2])) s;
                   s = fput (FDelay (len * MPERB)) s
               in if \<not> dma_ends E (ftr s) then None
                  else Some (True, fput (Wdsklen 0) (fput (FDelay 2000) (fput (Wintreq AIEDBLK) s))))"

section \<open>Writes synchronized to the index pulse, and the drive identification\<close>

fun poll_index :: "fenv \<Rightarrow> nat \<Rightarrow> fh \<Rightarrow> bool \<times> fh" where
  "poll_index E 0 s = (False, s)"
| "poll_index E (Suc n) s = (let (p, s) = rd_icr E s in if p AND DSKINDEX \<noteq> 0 then (True, s) else poll_index E n s)"

text \<open>
  The outer loop of \<open>fliwrite\<close> has no bound in the code; \<open>fuel\<close> is the number of its rounds, and \<open>None\<close> means that no
  index pulse came in them.
\<close>

fun index_write :: "fenv \<Rightarrow> nat \<Rightarrow> nat \<Rightarrow> nat \<Rightarrow> nat \<Rightarrow> chip_mem \<Rightarrow> fh \<Rightarrow> (bool \<times> fh) option" where
  "index_write E 0 drv trk len c s = None"
| "index_write E (Suc fuel) drv trk len c s =
    (let old = intenar_in E (ftr s) AND AIEEXTI;
         s = fput (Wintena AIEEXTI) (fput Rintenar s);
         (_, s) = rd_icr E s;
         (found, s) = poll_index E 100 s;
         s = (if old \<noteq> 0 then fput (Wintena (AINTSET OR AIEEXTI)) s else s)
     in if found then flwrite E drv trk len c s else index_write E fuel drv trk len c s)"

definition fliwrite :: "fenv \<Rightarrow> nat \<Rightarrow> nat \<Rightarrow> nat \<Rightarrow> nat \<Rightarrow> chip_mem \<Rightarrow> fh \<Rightarrow> (bool \<times> fh) option" where
  "fliwrite E fuel drv trk len c s =
    (let (ok, s) = go_to E drv trk s in if \<not> ok then Some (False, s) else index_write E fuel drv trk len c s)"

fun flid_loop :: "fenv \<Rightarrow> byte \<Rightarrow> nat \<Rightarrow> u32 \<Rightarrow> fh \<Rightarrow> u32 \<times> fh" where
  "flid_loop E selonly 0 res s = (res, s)"
| "flid_loop E selonly (Suc n) res s =
    (let (p, s) = rd_pra E (fput (Wprb selonly) s)
     in flid_loop E selonly n (if p AND DSKRDY = 0 then res OR push_bit n 1 else res) (fput (Wprb (NOT 0)) s))"

definition flid :: "fenv \<Rightarrow> nat \<Rightarrow> fh \<Rightarrow> u32 \<times> fh" where
  "flid E drv s =
    (let s = flstop E drv s; selonly = NOT (selbits ! drv); motonly = NOT DSKMOTOR; selmotor = NOT (selbits ! drv OR DSKMOTOR);
         s = fput (Wprb (NOT 0)) s; s = fput (Wprb motonly) s; s = fput (Wprb selmotor) s; s = fput (Wprb motonly) s;
         s = fput (Wprb (NOT 0)) s; s = fput (Wprb selonly) s; s = fput (Wprb (NOT 0)) s;
         (res, s) = flid_loop E selonly 32 0 s
     in (res, s\<lparr> selected := None \<rparr>))"

end
