(* ===== verification/Floppy_Heads.thy ===== *)
theory Floppy_Heads
  imports Floppy_Drive
begin

text \<open>
  The mechanics of the drives, driven by the trace of the port: heads move on the rising edge of the step line of the drives that are
  selected, in the direction the port says, and what is written stays on the surface under the head. The driver never reads where a
  head is, apart from the track 0 sensor; the invariant says that its record is right all the same.
\<close>

section \<open>Mechanics\<close>

abbreviation (input) MAXCYL :: nat where "MAXCYL \<equiv> 83"

record mech =
  m_prb :: byte
  m_head :: "nat \<Rightarrow> nat"
  m_media :: "nat \<times> nat \<times> bool \<Rightarrow> u16 list option"

definition selects :: "byte \<Rightarrow> nat \<Rightarrow> bool" where
  "selects p d \<longleftrightarrow> d < 4 \<and> \<not> bit p (3 + d)"

abbreviation (input) side1 :: "byte \<Rightarrow> bool" where "side1 p \<equiv> \<not> bit p 2"
abbreviation (input) outward :: "byte \<Rightarrow> bool" where "outward p \<equiv> bit p 1"

definition move_head :: "byte \<Rightarrow> nat \<Rightarrow> nat" where
  "move_head p h = (if outward p then h - 1 else min MAXCYL (h + 1))"

fun mech_step :: "fev \<Rightarrow> mech \<Rightarrow> mech" where
  "mech_step (Wprb v) m = m\<lparr> m_prb := v,
     m_head := (\<lambda>d. if \<not> bit (m_prb m) 0 \<and> bit v 0 \<and> selects v d then move_head v (m_head m d) else m_head m d) \<rparr>"
| "mech_step (DmaOut ws) m = m\<lparr> m_media :=
     (\<lambda>(d, c, sd). if selects (m_prb m) d \<and> c = m_head m d \<and> sd = side1 (m_prb m) then Some ws else m_media m (d, c, sd)) \<rparr>"
| "mech_step _ m = m"

definition mech :: "mech \<Rightarrow> fh \<Rightarrow> mech" where
  "mech m0 s = fold mech_step (ftr s) m0"

text \<open>The port reads back as written, and the sensor of a drive selected alone is right when the direction is outward.\<close>

definition port_env :: "mech \<Rightarrow> fenv \<Rightarrow> bool" where
  "port_env m0 E \<longleftrightarrow> (\<forall>tr. let m = fold mech_step tr m0
     in prb_in E tr = m_prb m \<and>
        (\<forall>d. (\<forall>d'. selects (m_prb m) d' \<longleftrightarrow> d' = d) \<and> outward (m_prb m) \<longrightarrow> (pra_in E tr AND DSKTRACK0 = 0) = (m_head m d = 0)))"

lemma mech_fput [simp]: "mech m0 (fput e s) = mech_step e (mech m0 s)"
  by (simp add: mech_def fput_def)

lemma mech_upd [simp]: "mech m0 (s\<lparr> selected := x \<rparr>) = mech m0 s" "mech m0 (set_trk d t s) = mech m0 s"
  "mech m0 (set_on d b s) = mech m0 s"
  by (simp_all add: mech_def set_trk_def set_on_def)

lemma fput_fields [simp]: "spindle (fput e s) = spindle s" "selected (fput e s) = selected s"
  by (simp_all add: fput_def)

lemma rd_prb_eq: "port_env m0 E \<Longrightarrow> rd_prb E s = (m_prb (mech m0 s), fput Rprb s)"
  by (simp add: rd_prb_def port_env_def mech_def Let_def)

lemma mask_track0: "(p :: byte) AND DSKTRACK0 = 0 \<longleftrightarrow> \<not> bit p 4"
  using and_exp_eq_0_iff_not_bit [of p 4] by (simp add: DSKTRACK0_def)

lemma mask_bits:
  "bit DSKSEL n \<longleftrightarrow> 3 \<le> n \<and> n < 7" "bit DSKMOTOR n \<longleftrightarrow> n = 7" "bit DSKSIDE n \<longleftrightarrow> n = 2" "bit DSKDIREC n \<longleftrightarrow> n = 1"
  "bit DSKSTEP n \<longleftrightarrow> n = 0" "d < 4 \<Longrightarrow> bit (selbits ! d) n \<longleftrightarrow> n = 3 + d"
proof -
  have t: "list_all (\<lambda>n. bit DSKSEL n = (3 \<le> n \<and> n < 7) \<and> bit DSKMOTOR n = (n = 7) \<and> bit DSKSIDE n = (n = 2) \<and>
      bit DSKDIREC n = (n = 1) \<and> bit DSKSTEP n = (n = 0) \<and>
      list_all (\<lambda>d. bit (selbits ! d) n = (n = 3 + d)) [0..<4]) [0..<8]" by code_simp
  have big: "\<not> bit (w :: byte) n" if "8 \<le> n" for w using that by (auto dest: bit_imp_le_length)
  show "bit DSKSEL n \<longleftrightarrow> 3 \<le> n \<and> n < 7" "bit DSKMOTOR n \<longleftrightarrow> n = 7" "bit DSKSIDE n \<longleftrightarrow> n = 2"
    "bit DSKDIREC n \<longleftrightarrow> n = 1" "bit DSKSTEP n \<longleftrightarrow> n = 0"
    using t big [of DSKSEL] big [of DSKMOTOR] big [of DSKSIDE] big [of DSKDIREC] big [of DSKSTEP]
    by (cases "n < 8"; simp only: list_all_iff set_upt atLeastLessThan_iff; auto)+
  show "bit (selbits ! d) n \<longleftrightarrow> n = 3 + d" if "d < 4"
    using t big [of "selbits ! d"] that
    by (cases "n < 8"; simp only: list_all_iff set_upt atLeastLessThan_iff; auto)
qed

lemmas port_bits = bit_and_iff bit_or_iff bit_not_iff possible_bit_word mask_bits

section \<open>The invariant\<close>

text \<open>
  Tracks that are known are where the heads are; the step line rests high; the drive the port selects is the one recorded, and its side
  is that of its track.
\<close>

definition trks :: "fh \<Rightarrow> nat \<Rightarrow> int" where
  "trks s = (\<lambda>d. sp_trk (spindle s ! d))"

definition heads_at :: "byte \<Rightarrow> (nat \<Rightarrow> nat) \<Rightarrow> (nat \<Rightarrow> int) \<Rightarrow> nat option \<Rightarrow> bool" where
  "heads_at p h t sel \<longleftrightarrow> bit p 0 \<and>
    (\<forall>d < 4. t d = - 1 \<or> 0 \<le> t d \<and> t d < 160 \<and> int (h d) = t d div 2) \<and>
    (sel = None \<longrightarrow> (\<forall>d. \<not> selects p d)) \<and>
    (\<forall>d. sel = Some d \<longrightarrow> d < 4 \<and> (\<forall>d'. selects p d' \<longleftrightarrow> d' = d) \<and> (0 \<le> t d \<longrightarrow> side1 p = (t d mod 2 \<noteq> 0)))"

definition head_inv :: "mech \<Rightarrow> fh \<Rightarrow> bool" where
  "head_inv m0 s \<longleftrightarrow> length (spindle s) = 4 \<and>
     heads_at (m_prb (mech m0 s)) (m_head (mech m0 s)) (trks s) (selected s)"

lemma trks_upd [simp]:
  "trks (fput e s) = trks s" "trks (s\<lparr> selected := x \<rparr>) = trks s" "trks (set_on d b s) = trks s"
  "d < length (spindle s) \<Longrightarrow> trks (set_trk d t s) = (trks s)(d := t)"
proof -
  show "trks (set_on d b s) = trks s"
    by (rule ext, cases "d < length (spindle s)") (auto simp: trks_def set_on_def nth_list_update list_update_beyond)
  show "d < length (spindle s) \<Longrightarrow> trks (set_trk d t s) = (trks s)(d := t)"
    by (rule ext) (auto simp: trks_def set_trk_def nth_list_update)
qed (simp_all add: trks_def)

lemma set_fields [simp]: "selected (set_on d b s) = selected s" "length (spindle (set_on d b s)) = length (spindle s)"
  "selected (set_trk d t s) = selected s" "length (spindle (set_trk d t s)) = length (spindle s)"
  by (simp_all add: set_on_def set_trk_def)

lemma wprb_mech: "bit (m_prb m) 0 \<Longrightarrow> mech_step (Wprb v) m = m\<lparr> m_prb := v \<rparr>"
  by simp

lemma desel_mech:
  assumes "port_env m0 E" and "bit (m_prb (mech m0 s)) 0"
  shows "mech m0 (desel E s) = (mech m0 s)\<lparr> m_prb := m_prb (mech m0 s) OR DSKSEL \<rparr>"
  using assms(2) by (simp add: desel_def rd_prb_eq [OF assms(1)])

lemma desel_fields [simp]: "spindle (desel E s) = spindle s" "selected (desel E s) = selected s" "trks (desel E s) = trks s"
  by (simp_all add: desel_def rd_prb_def Let_def)

lemma sel_drive_fields [simp]: "spindle (sel_drive E d p s) = spindle s" "selected (sel_drive E d p s) = selected s"
  "trks (sel_drive E d p s) = trks s"
  by (simp_all add: sel_drive_def)

lemma sel_drive_mech:
  assumes "port_env m0 E" and "bit (m_prb (mech m0 s)) 0" and "bit p 0"
  shows "mech m0 (sel_drive E d p s) = (mech m0 s)\<lparr> m_prb := p AND NOT (selbits ! d) \<rparr>"
proof -
  have "bit (m_prb (mech m0 s) OR DSKSEL) 0" using assms(2) by (simp add: port_bits)
  then show ?thesis using assms(3) by (simp add: sel_drive_def desel_mech [OF assms(1,2)] del: mech_step.simps add: wprb_mech)
qed

lemma prb_for_bits:
  "bit (prb_for on t) n \<longleftrightarrow> n < 8 \<and> (n = 7 \<longrightarrow> \<not> on) \<and> (n = 2 \<longrightarrow> t mod 2 = 0)"
  by (auto simp: prb_for_def Let_def port_bits)

lemma selects_sel: "d < 4 \<Longrightarrow> selects (prb_for on t AND NOT (selbits ! d)) d' \<longleftrightarrow> d' = d"
  by (auto simp: selects_def port_bits prb_for_bits)

lemma heads_sel: "heads_at p h t sel \<Longrightarrow> d < 4 \<Longrightarrow> heads_at (prb_for on (t d) AND NOT (selbits ! d)) h t (Some d)"
  using selects_sel [of d] by (auto simp: heads_at_def port_bits prb_for_bits)

lemma heads_desel: "heads_at p h t sel \<Longrightarrow> heads_at (p OR DSKSEL) h t None"
  by (auto simp: heads_at_def port_bits selects_def)

lemma inv_step: "head_inv m0 s \<Longrightarrow> bit (m_prb (mech m0 s)) 0"
  by (simp add: head_inv_def heads_at_def)

lemma inv_fput: "head_inv m0 s \<Longrightarrow> e \<notin> range Wprb \<Longrightarrow> head_inv m0 (fput e s)"
  by (cases e) (simp_all add: head_inv_def)

lemma inv_set_on: "head_inv m0 s \<Longrightarrow> head_inv m0 (set_on d b s)"
  by (simp add: head_inv_def)

lemma inv_desel:
  assumes "port_env m0 E" and "head_inv m0 s"
  shows "head_inv m0 ((desel E s)\<lparr> selected := None \<rparr>)"
  using heads_desel assms(2) desel_mech [OF assms(1) inv_step [OF assms(2)]] unfolding head_inv_def by simp blast

lemma inv_sel:
  assumes "port_env m0 E" and "head_inv m0 s" and "d < 4"
  shows "head_inv m0 ((sel_drive E d (prb_for on (sp_trk (spindle s ! d))) s)\<lparr> selected := Some d \<rparr>)"
proof -
  have "mech m0 (sel_drive E d (prb_for on (trks s d)) s) = (mech m0 s)\<lparr> m_prb := prb_for on (trks s d) AND NOT (selbits ! d) \<rparr>"
    by (rule sel_drive_mech [OF assms(1) inv_step [OF assms(2)]]) (simp add: prb_for_bits)
  moreover have "heads_at (prb_for on (trks s d) AND NOT (selbits ! d)) (m_head (mech m0 s)) (trks s) (Some d)"
    using assms(2) by (auto simp: head_inv_def intro: heads_sel [OF _ assms(3)])
  moreover have "sp_trk (spindle s ! d) = trks s d" by (simp add: trks_def)
  ultimately show ?thesis using assms(2) by (simp add: head_inv_def)
qed

text \<open>What an operation leaves alone: the tracks, the heads and the surfaces.\<close>

definition still :: "mech \<Rightarrow> fh \<Rightarrow> fh \<Rightarrow> bool" where
  "still m0 s s' \<longleftrightarrow> m_head (mech m0 s') = m_head (mech m0 s) \<and> m_media (mech m0 s') = m_media (mech m0 s) \<and>
     trks s' = trks s"

lemma still_refl [simp]: "still m0 s s"
  by (simp add: still_def)

lemma still_trans: "still m0 s s' \<Longrightarrow> still m0 s' s'' \<Longrightarrow> still m0 s s''"
  by (simp add: still_def)

lemma still_desel: "port_env m0 E \<Longrightarrow> head_inv m0 s \<Longrightarrow> still m0 s ((desel E s)\<lparr> selected := x \<rparr>)"
  by (simp add: still_def desel_mech inv_step)

lemma still_sel:
  "port_env m0 E \<Longrightarrow> head_inv m0 s \<Longrightarrow> bit p 0 \<Longrightarrow> still m0 s ((sel_drive E d p s)\<lparr> selected := x \<rparr>)"
  by (simp add: still_def sel_drive_mech inv_step)

lemma still_set_on: "still m0 s (set_on d b s)"
  by (simp add: still_def)

lemma still_fput: "e \<notin> range Wprb \<Longrightarrow> e \<notin> range DmaOut \<Longrightarrow> still m0 s (fput e s)"
  by (cases e) (auto simp: still_def)

lemma motor_off_inv:
  assumes "port_env m0 E" and "head_inv m0 s" and "d < 4"
  shows "head_inv m0 (snd (motor_off E d s)) \<and> still m0 s (snd (motor_off E d s))"
proof (cases "sp_on (spindle s ! d)")
  case False
  then show ?thesis using inv_desel [OF assms(1,2)] still_desel [OF assms(1,2)] assms(2) by (simp add: motor_off_def)
next
  case True
  define s1 where "s1 = (sel_drive E d (prb_for False (sp_trk (spindle s ! d))) s)\<lparr> selected := Some d \<rparr>"
  define s2 where "s2 = set_on d False s1"
  have 1: "head_inv m0 s1" "still m0 s s1"
    unfolding s1_def by (rule inv_sel [OF assms], rule still_sel [OF assms(1,2)], simp add: prb_for_bits)
  have 2: "head_inv m0 s2" "still m0 s1 s2" unfolding s2_def by (rule inv_set_on [OF 1(1)], rule still_set_on)
  have "snd (motor_off E d s) = (desel E s2)\<lparr> selected := None \<rparr>"
    using True by (simp add: motor_off_def Let_def s2_def s1_def)
  then show ?thesis
    using inv_desel [OF assms(1) 2(1)] still_desel [OF assms(1) 2(1)] 1(2) 2(2) still_trans by metis
qed

lemma wait_ready_inv:
  assumes "port_env m0 E" and "d < 4"
  shows "head_inv m0 s \<Longrightarrow> wait_ready E d n s = (ok, s') \<Longrightarrow>
    head_inv m0 s' \<and> still m0 s s' \<and> (ok \<longrightarrow> selected s' = selected s \<and> spindle s' = spindle s)"
proof (induction n arbitrary: s)
  case (0 s)
  let ?s = "fput Rpra s"
  have i: "head_inv m0 ?s" "still m0 s ?s" using 0(1) by (auto intro: inv_fput still_fput)
  show ?case
    using 0(2) i motor_off_inv [OF assms(1) i(1) assms(2)] still_trans [OF i(2)]
    by (auto simp: rd_pra_def split: if_splits)
next
  case (Suc n s)
  let ?s = "fput Rpra s" and ?t = "fput (FDelay 250000) (fput Rpra s)"
  have i: "head_inv m0 ?s" "still m0 s ?s" "head_inv m0 ?t" "still m0 s ?t"
    using Suc.prems(1) by (auto intro: inv_fput still_fput still_trans)
  show ?case
  proof (cases "pra_in E (ftr s) AND DSKRDY = 0")
    case True
    then show ?thesis using Suc.prems(2) i by (auto simp: rd_pra_def)
  next
    case False
    then have "wait_ready E d n ?t = (ok, s')" using Suc.prems(2) by (simp add: rd_pra_def)
    from Suc.IH [OF i(3) this] show ?thesis using still_trans [OF i(4)] by auto
  qed
qed

lemma motor_on_inv:
  assumes "port_env m0 E" and "head_inv m0 s" and "d < 4" and "motor_on E d s = (ok, s')"
  shows "head_inv m0 s' \<and> still m0 s s' \<and> (ok \<longrightarrow> sp_on (spindle s' ! d) \<and> selected s' \<in> {selected s, Some d})"
proof (cases "sp_on (spindle s ! d)")
  case True
  then show ?thesis using assms by (simp add: motor_on_def)
next
  case False
  define s1 where "s1 = (sel_drive E d (prb_for True (sp_trk (spindle s ! d))) s)\<lparr> selected := Some d \<rparr>"
  define s2 where "s2 = set_on d True s1"
  have 1: "head_inv m0 s1" "still m0 s s1"
    unfolding s1_def by (rule inv_sel [OF assms(1-3)], rule still_sel [OF assms(1,2)], simp add: prb_for_bits)
  have 2: "head_inv m0 s2" "still m0 s s2"
    unfolding s2_def by (rule inv_set_on [OF 1(1)], rule still_trans [OF 1(2) still_set_on])
  have "wait_ready E d 10 s2 = (ok, s')" using assms(4) False by (simp add: motor_on_def Let_def s2_def s1_def)
  from wait_ready_inv [OF assms(1) assms(3) 2(1) this]
  have w: "head_inv m0 s'" "still m0 s2 s'" "ok \<longrightarrow> selected s' = selected s2 \<and> spindle s' = spindle s2" by simp_all
  have "sp_on (spindle s2 ! d)" "selected s2 = Some d"
    using 1(1) assms(3) by (simp_all add: s2_def s1_def set_on_def head_inv_def)
  with w 2(2) still_trans show ?thesis by auto
qed

lemma select_inv:
  assumes "port_env m0 E" and "head_inv m0 s" and "d < 4"
  shows "head_inv m0 (select E d s) \<and> still m0 s (select E d s) \<and> selected (select E d s) = Some d"
proof (cases "selected s = Some d")
  case False
  have eq: "sel_drive E d p (s\<lparr> selected := x \<rparr>) = (sel_drive E d p s)\<lparr> selected := x \<rparr>" for p x
    by (simp add: sel_drive_def desel_def rd_prb_def fput_def Let_def)
  show ?thesis using False inv_sel [OF assms] still_sel [OF assms(1,2)]
    by (simp add: select_def eq prb_for_bits)
qed (use assms in \<open>simp add: select_def\<close>)

section \<open>Moving a head\<close>

text \<open>A drive being moved: it alone is selected; its track is not known.\<close>

definition moving :: "mech \<Rightarrow> nat \<Rightarrow> byte \<Rightarrow> fh \<Rightarrow> bool" where
  "moving m0 d p s \<longleftrightarrow> d < 4 \<and> (\<forall>d'. selects p d' \<longleftrightarrow> d' = d) \<and> bit (m_prb (mech m0 s)) 0"

lemma selects_step [simp]: "selects (p AND NOT DSKSTEP) = selects p" "selects (p OR DSKSTEP) = selects p"
  by (auto simp: selects_def port_bits fun_eq_iff)

lemma pulse_mech:
  assumes "moving m0 d p s"
  shows "mech m0 (step_pulse p s) = (mech m0 s)\<lparr> m_prb := p OR DSKSTEP,
    m_head := (m_head (mech m0 s))(d := move_head p (m_head (mech m0 s) d)) \<rparr>"
  using assms
  by (auto simp: step_pulse_def moving_def port_bits move_head_def fun_eq_iff intro!: mech.equality)

lemma pulse_moving: "moving m0 d p s \<Longrightarrow> moving m0 d (p OR DSKSTEP) (step_pulse p s)"
  using pulse_mech [of m0 d p s] by (simp add: moving_def port_bits)

lemma pulse_fields [simp]: "spindle (step_pulse p s) = spindle s" "selected (step_pulse p s) = selected s" "trks (step_pulse p s) = trks s"
  by (simp_all add: step_pulse_def)

lemma move_head_step [simp]: "move_head (p OR DSKSTEP) = move_head p"
  by (simp add: move_head_def fun_eq_iff port_bits)

text \<open>After any number of pulses: only the head of \<open>d\<close> has moved.\<close>

definition moved :: "mech \<Rightarrow> nat \<Rightarrow> nat \<Rightarrow> fh \<Rightarrow> fh \<Rightarrow> bool" where
  "moved m0 d h s s' \<longleftrightarrow> m_head (mech m0 s') = (m_head (mech m0 s))(d := h) \<and> m_media (mech m0 s') = m_media (mech m0 s) \<and>
     spindle s' = spindle s \<and> selected s' = selected s"

lemma moved_trans: "moved m0 d h s s' \<Longrightarrow> moved m0 d h' s' s'' \<Longrightarrow> moved m0 d h' s s''"
  by (simp add: moved_def)

lemma moved_pulse: "moving m0 d p s \<Longrightarrow> moved m0 d (move_head p (m_head (mech m0 s) d)) s (step_pulse p s)"
  by (simp add: moved_def pulse_mech)

lemma moved_fput: "e \<notin> range Wprb \<Longrightarrow> e \<notin> range DmaOut \<Longrightarrow> moved m0 d (m_head (mech m0 s) d) s (fput e s)"
  by (cases e) (auto simp: moved_def)

lemma prb_fput: "e \<notin> range Wprb \<Longrightarrow> m_prb (mech m0 (fput e s)) = m_prb (mech m0 s)"
  by (cases e) auto

lemma step_many_moved:
  "moving m0 d p s \<Longrightarrow>
    moved m0 d ((move_head p ^^ n) (m_head (mech m0 s) d)) s (step_many p n s) \<and>
    moving m0 d p (step_many p n s) \<and>
    (0 < n \<longrightarrow> m_prb (mech m0 (step_many p n s)) = p OR DSKSTEP)"
proof (induction n arbitrary: p s)
  case (Suc n)
  have 1: "moving m0 d (p OR DSKSTEP) (step_pulse p s)" by (rule pulse_moving [OF Suc.prems])
  have 2: "moved m0 d (move_head p (m_head (mech m0 s) d)) s (step_pulse p s)" by (rule moved_pulse [OF Suc.prems])
  have 3: "m_prb (mech m0 (step_pulse p s)) = p OR DSKSTEP" by (simp add: pulse_mech [OF Suc.prems])
  note ih = Suc.IH [OF 1]
  have h: "m_head (mech m0 (step_pulse p s)) d = move_head p (m_head (mech m0 s) d)" using 2 by (simp add: moved_def)
  have pp: "(p OR DSKSTEP) OR DSKSTEP = p OR DSKSTEP" by (simp add: or.assoc)
  show ?case
  proof (cases n)
    case 0
    then show ?thesis using 1 2 3 by (simp add: moving_def)
  next
    case (Suc k)
    then show ?thesis using ih moved_trans [OF 2] by (simp add: h funpow_swap1 pp moving_def port_bits)
  qed
qed (simp add: moved_def)

lemma move_in: "\<not> outward p \<Longrightarrow> h + n \<le> MAXCYL \<Longrightarrow> (move_head p ^^ n) h = h + n"
  by (induction n) (simp_all add: move_head_def)

lemma move_out: "outward p \<Longrightarrow> (move_head p ^^ n) h = h - n"
  by (induction n) (simp_all add: move_head_def)

lemma step_in_moved:
  "moving m0 d p s \<Longrightarrow> \<exists>h. moved m0 d h s (step_in E p n s) \<and> moving m0 d p (step_in E p n s)"
proof (induction n arbitrary: p s)
  case 0
  then show ?case by (intro exI [of _ "m_head (mech m0 s) d"]) (simp add: moved_def)
next
  case (Suc n)
  have r: "moving m0 d p (fput Rpra s)" "moved m0 d (m_head (mech m0 s) d) s (fput Rpra s)"
    using Suc.prems by (simp_all add: moving_def moved_def)
  show ?case
  proof (cases "pra_in E (ftr s) AND DSKTRACK0 = 0")
    case False
    then show ?thesis using r by (auto simp: rd_pra_def)
  next
    case True
    from Suc.IH [OF pulse_moving [OF r(1)]] obtain h where
      h: "moved m0 d h (step_pulse p (fput Rpra s)) (step_in E (p OR DSKSTEP) n (step_pulse p (fput Rpra s)))"
        "moving m0 d (p OR DSKSTEP) (step_in E (p OR DSKSTEP) n (step_pulse p (fput Rpra s)))"
      by blast
    have "moved m0 d h s (step_in E (p OR DSKSTEP) n (step_pulse p (fput Rpra s)))"
      using moved_trans [OF r(2)] moved_trans [OF moved_pulse [OF r(1)] h(1)] by blast
    then show ?thesis using h(2) True by (auto simp: rd_pra_def moving_def)
  qed
qed

text \<open>
  Stepping out finds track 0: it stops with the head there, after at most as many steps as the head was away.
\<close>

lemma step_out_moved:
  "port_env m0 E \<Longrightarrow> moving m0 d p s \<Longrightarrow> outward p \<Longrightarrow> 0 < n \<Longrightarrow> m_head (mech m0 s) d \<le> n \<Longrightarrow>
    \<exists>s'. step_out E d p n s = (True, s') \<and> moved m0 d 0 s s' \<and> m_prb (mech m0 s') = p OR DSKSTEP"
proof (induction n arbitrary: p s)
  case (Suc n)
  let ?s = "step_pulse p s"
  have m: "moving m0 d (p OR DSKSTEP) ?s" by (rule pulse_moving [OF Suc.prems(2)])
  have prb: "m_prb (mech m0 ?s) = p OR DSKSTEP" by (simp add: pulse_mech [OF Suc.prems(2)])
  have h: "m_head (mech m0 ?s) d = m_head (mech m0 s) d - 1"
    using Suc.prems(3) by (simp add: pulse_mech [OF Suc.prems(2)] move_head_def)
  have out: "outward (p OR DSKSTEP)" using Suc.prems(3) by (simp add: port_bits)
  have "\<forall>d'. selects (m_prb (mech m0 ?s)) d' \<longleftrightarrow> d' = d" using m by (simp add: moving_def prb)
  then have sensor: "(pra_in E (ftr ?s) AND DSKTRACK0 = 0) = (m_head (mech m0 ?s) d = 0)"
    using Suc.prems(1) out prb unfolding port_env_def mech_def by (metis (no_types, lifting))
  have p: "moved m0 d (m_head (mech m0 ?s) d) s ?s"
    using moved_pulse [OF Suc.prems(2)] Suc.prems(3) by (simp add: h move_head_def)
  let ?t = "fput Rpra ?s"
  have t: "moved m0 d (m_head (mech m0 ?s) d) s ?t" using p by (simp add: moved_def)
  show ?case
  proof (cases "m_head (mech m0 ?s) d = 0")
    case True
    then have "step_out E d p (Suc n) s = (True, ?t)" using sensor by (simp add: rd_pra_def)
    then show ?thesis using t True prb by simp
  next
    case False
    then have n: "0 < n" "m_head (mech m0 ?s) d \<le> n" using h Suc.prems(5) by simp_all
    have mt: "moving m0 d (p OR DSKSTEP) ?t" using m by (simp add: moving_def)
    obtain s' where s': "step_out E d (p OR DSKSTEP) n ?t = (True, s')" "moved m0 d 0 ?t s'"
        "m_prb (mech m0 s') = (p OR DSKSTEP) OR DSKSTEP"
      using Suc.IH [OF Suc.prems(1) mt out n(1)] n(2) by auto
    have "step_out E d p (Suc n) s = (True, s')" using s'(1) sensor False n(1) by (simp add: rd_pra_def)
    then show ?thesis using moved_trans [OF t s'(2)] s'(3) by (simp add: or.assoc)
  qed
qed simp

section \<open>Seeking\<close>

text \<open>The heads have a stop; it is within the steps a recalibration makes.\<close>

definition heads_in :: "mech \<Rightarrow> bool" where
  "heads_in m \<longleftrightarrow> (\<forall>d. m_head m d \<le> MAXCYL)"

lemma heads_in_step: "heads_in m \<Longrightarrow> heads_in (mech_step e m)"
  by (cases e) (auto simp: heads_in_def move_head_def intro: le_trans [OF diff_le_self])

lemma heads_in_mech: "heads_in m0 \<Longrightarrow> heads_in (mech m0 s)"
proof -
  have "heads_in m \<Longrightarrow> heads_in (fold mech_step es m)" for es m
    by (induction es arbitrary: m) (simp_all add: heads_in_step)
  then show "heads_in m0 \<Longrightarrow> heads_in (mech m0 s)" by (simp add: mech_def)
qed

lemma inv_prb:
  assumes "head_inv m0 s" and "selected s = Some d"
  shows "d < 4" "selects (m_prb (mech m0 s)) d' \<longleftrightarrow> d' = d" "bit (m_prb (mech m0 s)) 0"
    "0 \<le> trks s d \<Longrightarrow> side1 (m_prb (mech m0 s)) = (trks s d mod 2 \<noteq> 0)"
  using assms by (auto simp: head_inv_def heads_at_def)

lemma inv_moved:
  assumes "head_inv m0 s" and "selected s = Some d" and "moved m0 d h s s'"
    and "0 \<le> t" "t < 160" "int h = t div 2"
    and "bit (m_prb (mech m0 s')) 0" "\<And>d'. selects (m_prb (mech m0 s')) d' \<longleftrightarrow> d' = d" "side1 (m_prb (mech m0 s')) = (t mod 2 \<noteq> 0)"
  shows "head_inv m0 (set_trk d t s')"
proof -
  have d: "d < 4" by (rule inv_prb(1) [OF assms(1,2)])
  have len: "length (spindle s') = 4" using assms(1,3) by (simp add: head_inv_def moved_def)
  have t: "trks (set_trk d t s') = (trks s)(d := t)"
  proof -
    have "trks s' = trks s" using assms(3) by (simp add: trks_def moved_def)
    then show ?thesis using len d by simp
  qed
  have old: "trks s e = - 1 \<or> 0 \<le> trks s e \<and> trks s e < 160 \<and> int (m_head (mech m0 s) e) = trks s e div 2" if "e < 4" for e
    using assms(1) that unfolding head_inv_def heads_at_def by blast
  have "heads_at (m_prb (mech m0 s')) ((m_head (mech m0 s))(d := h)) ((trks s)(d := t)) (Some d)"
    unfolding heads_at_def using assms(4-9) d old by simp
  then show ?thesis using len t assms(2,3) by (simp add: head_inv_def moved_def)
qed

text \<open>What every operation promises: the invariant, and nothing written.\<close>

definition on_track :: "mech \<Rightarrow> fh \<Rightarrow> fh \<Rightarrow> bool" where
  "on_track m0 s s' \<longleftrightarrow> head_inv m0 s' \<and> m_media (mech m0 s') = m_media (mech m0 s)"

lemma track_trans: "on_track m0 s s' \<Longrightarrow> on_track m0 s' s'' \<Longrightarrow> on_track m0 s s''"
  by (simp add: on_track_def)

lemma track_still: "head_inv m0 s' \<Longrightarrow> still m0 s s' \<Longrightarrow> on_track m0 s s'"
  by (simp add: on_track_def still_def)

lemma track_fput: "head_inv m0 s \<Longrightarrow> e \<notin> range Wprb \<Longrightarrow> e \<notin> range DmaOut \<Longrightarrow> on_track m0 s (fput e s)"
  using inv_fput [of m0 s e] still_fput [of e m0 s] track_still by blast

lemma wprb_same: "bit (m_prb (mech m0 s)) 0 \<Longrightarrow> mech m0 (fput (Wprb p) s) = (mech m0 s)\<lparr> m_prb := p \<rparr>"
  by simp

lemma recal_kept:
  assumes E: "port_env m0 E" and m0: "heads_in m0" and i: "head_inv m0 s" and d: "d < 4" and r: "recal E d s = (ok, s')"
  shows "on_track m0 s s' \<and> (if ok then trks s' = (trks s)(d := 0) \<and> selected s' = Some d else trks s' = trks s) \<and>
    (fst (motor_on E d s) \<longrightarrow> ok)"
proof -
  obtain on s1 where m: "motor_on E d s = (on, s1)" by (cases "motor_on E d s")
  note mi = motor_on_inv [OF E i d m]
  show ?thesis
  proof (cases on)
    case False
    then show ?thesis using r m mi track_still by (auto simp: recal_def still_def)
  next
    case True
    define s2 where "s2 = select E d s1"
    have s2: "head_inv m0 s2" "still m0 s1 s2" "selected s2 = Some d"
      using select_inv [OF E _ d] mi by (simp_all add: s2_def)
    define p where "p = (m_prb (mech m0 s2) OR DSKSIDE) AND NOT DSKDIREC"
    define s3 where "s3 = fput (Wprb p) (fput Rprb s2)"
    note q = inv_prb [OF s2(1,3)]
    have sel: "selects p = selects (m_prb (mech m0 s2))" by (auto simp: p_def selects_def port_bits fun_eq_iff)
    have p0: "bit p 0" "bit p 2" using q(3) by (simp_all add: p_def port_bits)
    have m3: "mech m0 s3 = (mech m0 s2)\<lparr> m_prb := p \<rparr>" using q(3) by (simp add: s3_def)
    have mv: "moving m0 d p s3" using d sel q(2) p0 by (simp add: moving_def m3)
    have v3: "moved m0 d (m_head (mech m0 s2) d) s2 s3" by (simp add: moved_def m3) (simp add: s3_def)
    obtain h where h: "moved m0 d h s3 (step_in E p 40 s3)" "moving m0 d p (step_in E p 40 s3)"
      using step_in_moved [OF mv] by blast
    define s4 where "s4 = fput (FDelay 15000) (step_in E p 40 s3)"
    have v4: "moved m0 d h s2 s4" using moved_trans [OF v3 h(1)] by (simp add: s4_def moved_def)
    have mv4: "moving m0 d (p OR DSKDIREC) s4"
      using h(2) by (simp add: s4_def moving_def) (simp add: selects_def port_bits)
    have out: "outward (p OR DSKDIREC)" by (simp add: port_bits)
    have "m_head (mech m0 s4) d \<le> 83" using heads_in_mech [OF m0, of s4] by (simp only: heads_in_def)
    then have "m_head (mech m0 s4) d \<le> 100" by simp
    then obtain s5 where s5: "step_out E d (p OR DSKDIREC) 100 s4 = (True, s5)" "moved m0 d 0 s4 s5"
        "m_prb (mech m0 s5) = (p OR DSKDIREC) OR DSKSTEP"
      using step_out_moved [OF E mv4 out, of 100] by auto
    have res: "ok = True" "s' = fput (FDelay 15000) (set_trk d 0 s5)"
      using r True by (simp_all add: recal_def m Let_def s2_def [symmetric] rd_prb_eq [OF E] p_def [symmetric] s3_def [symmetric] s4_def [symmetric] s5(1))
    have v5: "moved m0 d 0 s2 s5" by (rule moved_trans [OF v4 s5(2)])
    have "head_inv m0 (set_trk d 0 s5)"
    proof (rule inv_moved [OF s2(1,3) v5])
      show "selects (m_prb (mech m0 s5)) d' \<longleftrightarrow> d' = d" for d'
        using mv4 unfolding s5(3) by (simp add: moving_def)
    qed (use p0 in \<open>simp_all add: s5(3) port_bits\<close>)
    then have "head_inv m0 s'" unfolding res by (rule inv_fput) auto
    moreover have "length (spindle s5) = 4" using v5 s2(1) by (simp add: moved_def head_inv_def)
    moreover have "trks s5 = trks s" using v5 s2(2) mi by (simp add: moved_def still_def trks_def)
    moreover have "m_media (mech m0 s5) = m_media (mech m0 s)" "selected s5 = Some d"
      using v5 s2 mi by (simp_all add: moved_def still_def)
    ultimately show ?thesis using d by (simp add: on_track_def res)
  qed
qed

lemma seek_move_kept:
  assumes E: "port_env m0 E" and i: "head_inv m0 s" and sel: "selected s = Some d" and at: "0 \<le> trks s d" and trk: "trk < 160"
  shows "on_track m0 s (seek_move E d trk s) \<and> trks (seek_move E d trk s) = (trks s)(d := int trk) \<and>
    selected (seek_move E d trk s) = Some d"
proof -
  note q = inv_prb [OF i sel]
  define at where "at = trks s d"
  define delta where "delta = at div 2 - int (trk div 2)"
  have range: "0 \<le> at" "at < 160" "int (m_head (mech m0 s) d) = at div 2"
    using i q(1) at by (auto simp: head_inv_def heads_at_def at_def)
  define p1 where "p1 = m_prb (mech m0 s) OR (DSKSIDE OR DSKDIREC)"
  define p2 where "p2 = (if trk mod 2 \<noteq> 0 then p1 AND NOT DSKSIDE else p1)"
  define p where "p = (if delta < 0 then p2 AND NOT DSKDIREC else p2)"
  have selp: "selects p d' \<longleftrightarrow> d' = d" for d'
    using q(2) [of d'] by (auto simp: p_def p2_def p1_def selects_def port_bits)
  have pb: "bit p 0" "side1 p = (trk mod 2 \<noteq> 0)" "outward p = (0 \<le> delta)"
    using q(3) by (auto simp: p_def p2_def p1_def port_bits)
  define s1 where "s1 = fput (Wprb p) (fput Rprb s)"
  define s2 where "s2 = (if int (trk mod 2) \<noteq> at mod 2 then fput (FDelay 1000) s1 else s1)"
  define n where "n = nat \<bar>delta\<bar>"
  have m2: "mech m0 s2 = (mech m0 s)\<lparr> m_prb := p \<rparr>" using q(3) by (simp add: s2_def s1_def)
  have f2: "spindle s2 = spindle s" "selected s2 = selected s" by (simp_all add: s2_def s1_def)
  have eq: "seek_move E d trk s =
      (if n = 0 then set_trk d (int trk) s2 else fput (FDelay 15000) (step_many p n (set_trk d (int trk) s2)))"
    by (simp only: seek_move_def Let_def rd_prb_eq [OF E] prod.case of_nat_numeral
        at_def trks_def delta_def p1_def p2_def p_def s1_def s2_def n_def)
  have v2: "moved m0 d (m_head (mech m0 s) d) s s2" by (simp add: moved_def m2 f2)
  have mv: "moving m0 d p s2" using q(1) selp pb by (simp add: moving_def m2)
  note mm = step_many_moved [OF mv, of n]
  have swap: "step_many p k (set_trk d t u) = set_trk d t (step_many p k u)" for p k t u
  proof (induction k arbitrary: p u)
    case (Suc k)
    have "step_pulse p (set_trk d t u) = set_trk d t (step_pulse p u)"
      by (simp add: step_pulse_def fput_def set_trk_def)
    then show ?case using Suc by simp
  qed simp
  define s3 where "s3 = (if n = 0 then s2 else step_many p n s2)"
  have s3: "moved m0 d ((move_head p ^^ n) (m_head (mech m0 s) d)) s s3" "m_prb (mech m0 s3) \<in> {p, p OR DSKSTEP}"
    using v2 mm moved_trans [OF v2] by (auto simp: s3_def m2)
  have head: "int ((move_head p ^^ n) (m_head (mech m0 s) d)) = int trk div 2"
  proof (cases "0 \<le> delta")
    case True
    then have "int n = at div 2 - int trk div 2" by (simp add: n_def delta_def zdiv_int)
    moreover from this range have "n \<le> m_head (mech m0 s) d" by linarith
    ultimately show ?thesis using range(3) move_out [of p n "m_head (mech m0 s) d"] pb(3) True by (simp add: of_nat_diff)
  next
    case False
    have "m_head (mech m0 s) d + n \<le> MAXCYL" using range False trk by (simp add: n_def delta_def)
    moreover have "int n = int trk div 2 - at div 2" using False by (simp add: n_def delta_def zdiv_int)
    ultimately show ?thesis using range(3) False move_in [of p "m_head (mech m0 s) d" n] pb(3) by simp
  qed
  have inv: "head_inv m0 (set_trk d (int trk) s3)"
  proof (rule inv_moved [OF i sel s3(1) _ _ head])
    have t2: "(int trk mod 2 \<noteq> 0) = (trk mod 2 \<noteq> 0)" by presburger
    have or_step: "bit (p OR DSKSTEP) 0" "side1 (p OR DSKSTEP) = side1 p" "selects (p OR DSKSTEP) d' = selects p d'" for d'
      by (simp_all add: port_bits selects_def)
    from s3(2) consider "m_prb (mech m0 s3) = p" | "m_prb (mech m0 s3) = p OR DSKSTEP" by blast
    then have new: "bit (m_prb (mech m0 s3)) 0 \<and> side1 (m_prb (mech m0 s3)) = side1 p \<and>
        (\<forall>d'. selects (m_prb (mech m0 s3)) d' = selects p d')"
      by cases (simp_all only: or_step pb(1), simp_all)
    then show "bit (m_prb (mech m0 s3)) 0" by blast
    show "side1 (m_prb (mech m0 s3)) = (int trk mod 2 \<noteq> 0)" unfolding t2 using new pb(2) by blast
    show "selects (m_prb (mech m0 s3)) d' \<longleftrightarrow> d' = d" for d' using new selp by blast
  qed (use trk in simp_all)
  have eq': "seek_move E d trk s = (if n = 0 then set_trk d (int trk) s3 else fput (FDelay 15000) (set_trk d (int trk) s3))"
    unfolding eq by (simp add: s3_def swap)
  have len: "length (spindle s3) = 4" "trks s3 = trks s"
    using i s3(1) by (simp_all add: head_inv_def moved_def trks_def)
  have k: "on_track m0 s (set_trk d (int trk) s3)" using inv s3(1) by (simp add: on_track_def moved_def)
  have k': "on_track m0 s (fput (FDelay 15000) (set_trk d (int trk) s3))"
    by (rule track_trans [OF k], rule track_fput [OF inv]) auto
  have sel3: "selected s3 = Some d" using s3(1) sel by (simp add: moved_def)
  show ?thesis unfolding eq' using k k' len q(1) sel3 by (cases "n = 0") simp_all
qed

text \<open>A drive that spins up always gets to its track.\<close>

definition spins_up :: "fenv \<Rightarrow> bool" where
  "spins_up E \<longleftrightarrow> (\<forall>tr. pra_in E tr AND DSKRDY = 0)"

lemma motor_on_works: "spins_up E \<Longrightarrow> motor_on E d s = (on, s') \<Longrightarrow> on"
  by (auto simp: spins_up_def motor_on_def rd_pra_def numeral_eq_Suc Let_def split: if_splits)

lemma seek_kept:
  assumes E: "port_env m0 E" and m0: "heads_in m0" and i: "head_inv m0 s" and sel: "selected s = Some d" and trk: "trk < 160"
    and r: "seek E d trk s = (ok, s')"
  shows "on_track m0 s s' \<and> (ok \<longrightarrow> trks s' d = int trk \<and> selected s' = Some d) \<and> (spins_up E \<longrightarrow> ok)"
proof (cases "trks s d = int trk")
  case True
  then show ?thesis using r i sel by (simp add: seek_def trks_def on_track_def)
next
  case False
  have d: "d < 4" by (rule inv_prb(1) [OF i sel])
  obtain on s1 where m: "motor_on E d s = (on, s1)" by (cases "motor_on E d s")
  note mi = motor_on_inv [OF E i d m]
  have k1: "on_track m0 s s1" using mi track_still by blast
  show ?thesis
  proof (cases on)
    case False
    then show ?thesis using r m k1 \<open>trks s d \<noteq> int trk\<close> motor_on_works [OF _ m] by (auto simp: seek_def trks_def)
  next
    case True
    define s2 where "s2 = select E d s1"
    have s2: "head_inv m0 s2" "still m0 s1 s2" "selected s2 = Some d"
      using select_inv [OF E _ d] mi by (simp_all add: s2_def)
    have k2: "on_track m0 s s2" using track_trans [OF k1] track_still [OF s2(1,2)] by blast
    have eq: "seek E d trk s = (let (ok, u) = (if trks s2 d < 0 then recal E d s2 else (True, s2))
        in if \<not> ok then (False, u) else (True, seek_move E d trk u))"
      using \<open>trks s d \<noteq> int trk\<close> True by (simp add: seek_def m trks_def s2_def Let_def)
    show ?thesis
    proof (cases "trks s2 d < 0")
      case False
      then have "s' = seek_move E d trk s2" "ok" using r eq by simp_all
      then show ?thesis using seek_move_kept [OF E s2(1,3) _ trk] False track_trans [OF k2] by auto
    next
      case True
      obtain ok' s3 where rc: "recal E d s2 = (ok', s3)" by (cases "recal E d s2")
      note rk = recal_kept [OF E m0 s2(1) d rc]
      show ?thesis
      proof (cases ok')
        case False
        moreover have "\<not> spins_up E" using rk \<open>\<not> ok'\<close> motor_on_works [of E d s2 "fst (motor_on E d s2)"] by (metis prod.collapse)
        ultimately show ?thesis using r eq True rc rk track_trans [OF k2] by auto
      next
        case ok': True
        have 3: "head_inv m0 s3" "selected s3 = Some d" "0 \<le> trks s3 d" using rk ok' by (simp_all add: on_track_def)
        have "s' = seek_move E d trk s3" "ok" using r eq True rc ok' by simp_all
        then show ?thesis using seek_move_kept [OF E 3 trk] track_trans [OF track_trans [OF k2]] rk by auto
      qed
    qed
  qed
qed

lemma go_to_kept:
  assumes E: "port_env m0 E" and m0: "heads_in m0" and i: "head_inv m0 s" and d: "d < 4" and trk: "trk < 160"
    and r: "go_to E d trk s = (ok, s')"
  shows "on_track m0 s s' \<and> (ok \<longrightarrow> trks s' d = int trk \<and> selected s' = Some d) \<and> (spins_up E \<longrightarrow> ok)"
proof -
  obtain on s1 where m: "motor_on E d s = (on, s1)" by (cases "motor_on E d s")
  note mi = motor_on_inv [OF E i d m]
  have k1: "on_track m0 s s1" using mi track_still by blast
  show ?thesis
  proof (cases on)
    case False
    then show ?thesis using r m k1 motor_on_works [OF _ m] by (auto simp: go_to_def)
  next
    case True
    have s2: "head_inv m0 (select E d s1)" "still m0 s1 (select E d s1)" "selected (select E d s1) = Some d"
      using select_inv [OF E _ d] mi by simp_all
    have "on_track m0 s (select E d s1)" using track_trans [OF k1] track_still [OF s2(1,2)] by blast
    then show ?thesis using seek_kept [OF E m0 s2(1,3) trk, of ok s'] r m True track_trans by (auto simp: go_to_def)
  qed
qed

end
