(* ===== verification/Floppy_Amiga.thy ===== *)
theory Floppy_Amiga
  imports Floppy_Heads Floppy_Sound
begin

text \<open>
  Reading and writing whole tracks, \<open>fdgetaml\<close> and \<open>fdputaml\<close> of \<open>floppy/flopf.c\<close>, on top of the drives: the retry loops, the
  check that the head is on track, and what both do to a disk. The state is that of the codec and that of the drives; \<open>None\<close> is a
  transfer that never ends. The pointer to the track in the buffer cache is \<open>umem\<close>. Console messages are left out.
\<close>

section \<open>The functions\<close>

type_synonym fdst = "fl \<times> fh"

abbreviation (input) RETRY :: nat where "RETRY \<equiv> 5"

text \<open>\<open>fdamtbuf\<close> panics when the buffer is too small. The address is that of chip memory, index 0 of the model.\<close>

definition fdamtbuf :: "nat \<Rightarrow> nat \<Rightarrow> nat option" where
  "fdamtbuf bp sz = (if sz < TRKBLEN then None else Some bp)"

definition get :: "fenv \<Rightarrow> fdst \<Rightarrow> (bool \<times> fdst) option" where
  "get E st =
    (case st of (s, h) \<Rightarrow>
       case flread E (unat (drive s)) (unat (track s)) TRKRLEN (chip s) h of
         None \<Rightarrow> None
       | Some (ok, c, h) \<Rightarrow>
           let s = s\<lparr> chip := c \<rparr>
           in if \<not> ok then Some (False, s, h) else let (ok, s) = decode_track s in Some (ok, s, h))"

fun get_retry :: "fenv \<Rightarrow> nat \<Rightarrow> fdst \<Rightarrow> (bool \<times> fdst) option" where
  "get_retry E n st =
    (case get E st of
       None \<Rightarrow> None
     | Some (ok, s, h) \<Rightarrow>
         if ok then Some (True, s, h)
         else case n of 0 \<Rightarrow> Some (False, s, h) | Suc n \<Rightarrow> get_retry E n (s, fllost (unat (drive s)) h))"

definition fdgetaml :: "fenv \<Rightarrow> nat \<Rightarrow> nat \<Rightarrow> fdst \<Rightarrow> (bool \<times> fdst) option" where
  "fdgetaml E drv trk st =
    (case st of (s, h) \<Rightarrow> get_retry E RETRY (s\<lparr> drive := of_nat drv, track := of_nat trk, buffer := 0 \<rparr>, h))"

definition chktrk :: "fenv \<Rightarrow> fdst \<Rightarrow> (bool \<times> fdst) option" where
  "chktrk E st =
    (case st of (s, h) \<Rightarrow>
       case flread E (unat (drive s)) (unat (track s)) CHKLEN (chip s) h of
         None \<Rightarrow> None
       | Some (ok, c, h) \<Rightarrow>
           let s = s\<lparr> chip := c \<rparr>
           in if \<not> ok then Some (False, s, h)
              else
                let (ok, s) = find (s\<lparr> mfmbuf := 0, mfmlim := CHKLEN div 2 \<rparr>);
                    (ok, s) = (if ok then gethdr s else (False, s))
                in if ok \<and> ucast (h_trk (hdr s)) = track s then Some (True, s, h)
                   else Some (False, s, fllost (unat (drive s)) h))"

fun chk_retry :: "fenv \<Rightarrow> nat \<Rightarrow> fdst \<Rightarrow> (bool \<times> fdst) option" where
  "chk_retry E n st =
    (case chktrk E st of
       None \<Rightarrow> None
     | Some (ok, st) \<Rightarrow> if ok then Some (True, st) else case n of 0 \<Rightarrow> Some (False, st) | Suc n \<Rightarrow> chk_retry E n st)"

fun write_retry :: "fenv \<Rightarrow> nat \<Rightarrow> fdst \<Rightarrow> (bool \<times> fdst) option" where
  "write_retry E n st =
    (case st of (s, h) \<Rightarrow>
       case flwrite E (unat (drive s)) (unat (track s)) TRKWLEN (chip s) h of
         None \<Rightarrow> None
       | Some (ok, h) \<Rightarrow>
           if ok then Some (True, s, h)
           else case n of 0 \<Rightarrow> Some (False, s, h) | Suc n \<Rightarrow> write_retry E n (s, h))"

definition fdputaml :: "fenv \<Rightarrow> nat \<Rightarrow> nat \<Rightarrow> bool \<Rightarrow> fdst \<Rightarrow> (bool \<times> fdst) option" where
  "fdputaml E drv trk check st =
    (case st of (s, h) \<Rightarrow>
       let st = (s\<lparr> drive := of_nat drv, track := of_nat trk \<rparr>, h)
       in case (if check then chk_retry E RETRY st else Some (True, st)) of
            None \<Rightarrow> None
          | Some (ok, s, h) \<Rightarrow>
              if \<not> ok then Some (False, s, h) else write_retry E RETRY (encode_track s, h))"

declare get_retry.simps [simp del] chk_retry.simps [simp del] write_retry.simps [simp del]

section \<open>Disks\<close>

text \<open>
  A disk in the drive: the mechanics, transfers that end, and reads that see the track under the head as a ring, from anywhere on
  it and of any length within the tolerance of the speed.
\<close>

definition words_bits :: "u16 list \<Rightarrow> nat \<Rightarrow> bool" where
  "words_bits ws = chip_bits (\<lambda>i. if i < length ws then ws ! i else 0)"

definition under_head :: "mech \<Rightarrow> nat \<Rightarrow> nat \<times> nat \<times> bool" where
  "under_head m d = (d, m_head m d, side1 (m_prb m))"

definition disk_env :: "mech \<Rightarrow> fenv \<Rightarrow> bool" where
  "disk_env m0 E \<longleftrightarrow> port_env m0 E \<and> heads_in m0 \<and> (\<forall>tr. dma_ends E tr) \<and>
    (\<forall>tr d ws. let m = fold mech_step tr m0 in
       (\<forall>d'. selects (m_prb m) d' \<longleftrightarrow> d' = d) \<and> m_media m (under_head m d) = Some ws \<and> length ws = TRKWLEN div 2 \<longrightarrow>
       (\<exists>L org. ring_length L \<and> reads_ring (dma_data E tr) (words_bits ws) L org))"

text \<open>The track of a drive is written, with these data.\<close>

definition disk_has :: "mech \<Rightarrow> nat \<Rightarrow> nat \<Rightarrow> long_mem \<Rightarrow> bool" where
  "disk_has m d t data \<longleftrightarrow>
    (\<exists>ws. m_media m (d, t div 2, t mod 2 \<noteq> 0) = Some ws \<and> length ws = TRKWLEN div 2 \<and> track_image (words_bits ws) (of_nat t) data)"

definition unprotected :: "fenv \<Rightarrow> bool" where
  "unprotected E \<longleftrightarrow> (\<forall>tr. pra_in E tr AND DSKPROT \<noteq> 0)"

lemma media_disk: "m_media m (d, t div 2, t mod 2 \<noteq> 0) = m_media m' (d, t div 2, t mod 2 \<noteq> 0) \<Longrightarrow> disk_has m d t = disk_has m' d t"
  by (simp add: disk_has_def fun_eq_iff)

section \<open>Transfers\<close>

lemma disk_port: "disk_env m0 E \<Longrightarrow> port_env m0 E"
  by (simp add: disk_env_def)

lemma on_track_disk: "on_track m0 h h' \<Longrightarrow> disk_has (mech m0 h') = disk_has (mech m0 h)"
  by (auto simp: on_track_def disk_has_def fun_eq_iff)

lemma go_to_head:
  assumes E: "disk_env m0 E" and i: "head_inv m0 h" and d: "d < 4" and t: "t < 160"
    and go: "go_to E d t h = (True, h')"
  shows "on_track m0 h h'" "under_head (mech m0 h') d = (d, t div 2, t mod 2 \<noteq> 0)" "selects (m_prb (mech m0 h')) d' \<longleftrightarrow> d' = d"
proof -
  note g = go_to_kept [OF disk_port [OF E] _ i d t go]
  have heads: "heads_in m0" using E by (simp add: disk_env_def)
  show on: "on_track m0 h h'" using g [OF heads] by simp
  have at: "trks h' d = int t" "selected h' = Some d" using g [OF heads] by simp_all
  have inv: "head_inv m0 h'" using on by (simp add: on_track_def)
  then have "int (m_head (mech m0 h') d) = int t div 2"
    using d at by (auto simp: head_inv_def heads_at_def)
  then have "m_head (mech m0 h') d = t div 2" by linarith
  moreover have "side1 (m_prb (mech m0 h')) = (t mod 2 \<noteq> 0)"
    using inv_prb(4) [OF inv at(2)] at(1) by simp presburger
  ultimately show "under_head (mech m0 h') d = (d, t div 2, t mod 2 \<noteq> 0)" by (simp add: under_head_def)
  show "selects (m_prb (mech m0 h')) d' \<longleftrightarrow> d' = d" by (rule inv_prb(2) [OF inv at(2)])
qed

lemma track_fputs: "on_track m0 s h \<Longrightarrow> e \<notin> range Wprb \<Longrightarrow> e \<notin> range DmaOut \<Longrightarrow> on_track m0 s (fput e h)"
  using track_fput [of m0 h e] track_trans [of m0 s h] by (auto simp: on_track_def)

lemma flread_effect:
  assumes E: "disk_env m0 E" and i: "head_inv m0 h" and d: "d < 4" and t: "t < 160"
  obtains ok c' h' where "flread E d t len c h = Some (ok, c', h')" and "on_track m0 h h'" and "spins_up E \<Longrightarrow> ok"
    and "\<And>data. ok \<Longrightarrow> disk_has (mech m0 h) d t data \<Longrightarrow> even len \<Longrightarrow> len \<le> TRKRLEN \<Longrightarrow>
      \<exists>w L org. ring_length L \<and> (\<forall>q < 8 * len. chip_bits c' q = ring w L (org + q)) \<and> track_image w (of_nat t) data"
proof -
  obtain ok h1 where go: "go_to E d t h = (ok, h1)" by (cases "go_to E d t h")
  have heads: "heads_in m0" using E by (simp add: disk_env_def)
  have ends: "dma_ends E tr" for tr using E by (simp add: disk_env_def)
  note g = go_to_kept [OF disk_port [OF E] heads i d t go]
  show thesis
  proof (cases ok)
    case False
    then show ?thesis using g go by (intro that [of False c h1]) (auto simp: flread_def)
  next
    case True
    have "go_to E d t h = (True, h1)" using go True by simp
    note at = go_to_head [OF E i d t this]
    define h2 where "h2 = fput (FDelay (len * MPERB)) (fput (DmaIn len) (fput (Wdsklen (of_nat (len div 2) OR DMAEN))
      (fput (Wdsklen (of_nat (len div 2) OR DMAEN)) (fput (Wintreq AIEDBLK) (fput Wdskpt (fput (FDelay 1000) (fput (Wdsklen 0)
      (fput (Wadkcon (ADKSET OR FAST)) (fput (Wadkcon (WORDSYNC OR MSBSYNC)) h1)))))))))"
    have m2: "mech m0 h2 = mech m0 h1" by (simp add: h2_def)
    have k2: "on_track m0 h h2" unfolding h2_def by (intro track_fputs at(1)) auto
    define c' where "c' = (\<lambda>i. if i < len div 2 then dma_data E (ftr h2) i else c i)"
    have "flread E d t len c h = Some (True, c', fput (Wdsklen 0) (fput (Wintreq AIEDBLK) h2))"
      using ends True by (simp add: flread_def go Let_def h2_def c'_def cong: if_cong)
    moreover have "on_track m0 h (fput (Wdsklen 0) (fput (Wintreq AIEDBLK) h2))" by (intro track_fputs k2) auto
    moreover have "\<exists>w L org. ring_length L \<and> (\<forall>q < 8 * len. chip_bits c' q = ring w L (org + q)) \<and> track_image w (of_nat t) data"
      if has: "disk_has (mech m0 h) d t data" and len: "even len" "len \<le> TRKRLEN" for data
    proof -
      obtain ws where ws: "m_media (mech m0 h1) (under_head (mech m0 h1) d) = Some ws" "length ws = TRKWLEN div 2"
        "track_image (words_bits ws) (of_nat t) data"
        using has at(1,2) by (auto simp: disk_has_def on_track_def)
      have f: "fold mech_step (ftr h2) m0 = mech m0 h1" using m2 by (simp add: mech_def)
      have "\<forall>d'. selects (m_prb (mech m0 h1)) d' \<longleftrightarrow> d' = d" using at(3) by simp
      then obtain L org where "ring_length L" "reads_ring (dma_data E (ftr h2)) (words_bits ws) L org"
        using E ws(1,2) unfolding disk_env_def Let_def by (metis f)
      moreover have "chip_bits c' q = ring (words_bits ws) L (org + q)"
        if r: "reads_ring (dma_data E (ftr h2)) (words_bits ws) L org" and q: "q < 8 * len" for q L org
      proof -
        have "q div 16 < len div 2" using q len(1) by (auto elim!: evenE)
        then have "chip_bits c' q = chip_bits (dma_data E (ftr h2)) q" by (simp add: chip_bits_def c'_def)
        then show ?thesis using r q len(2) by (simp add: reads_ring_def)
      qed
      ultimately show ?thesis using ws(3) by blast
    qed
    ultimately show ?thesis by (intro that [of True c' "fput (Wdsklen 0) (fput (Wintreq AIEDBLK) h2)"]) auto
  qed
qed

lemma disk_has_writing:
  assumes "length ws = TRKWLEN div 2" and "\<And>d'. selects (m_prb m) d' \<longleftrightarrow> d' = d" and "under_head m d = (d, t div 2, t mod 2 \<noteq> 0)"
  shows "track_image (words_bits ws) (of_nat t) data \<Longrightarrow> disk_has (mech_step (DmaOut ws) m) d t data"
    and "(d', t') \<noteq> (d, t) \<Longrightarrow> disk_has (mech_step (DmaOut ws) m) d' t' = disk_has m d' t'"
proof -
  show "track_image (words_bits ws) (of_nat t) data \<Longrightarrow> disk_has (mech_step (DmaOut ws) m) d t data"
    using assms by (auto simp: disk_has_def under_head_def)
  assume ne: "(d', t') \<noteq> (d, t)"
  have "t' = t" if "t' div 2 = t div 2" "(t' mod 2 \<noteq> 0) = (t mod 2 \<noteq> 0)"
    using that by presburger
  then have "m_media (mech_step (DmaOut ws) m) (d', t' div 2, t' mod 2 \<noteq> 0) = m_media m (d', t' div 2, t' mod 2 \<noteq> 0)"
    using ne assms(2,3) by (auto simp: under_head_def)
  then show "disk_has (mech_step (DmaOut ws) m) d' t' = disk_has m d' t'" by (rule media_disk)
qed

text \<open>A write that succeeds has written the track and no other; one that fails has written nothing.\<close>

lemma flwrite_effect:
  assumes E: "disk_env m0 E" and i: "head_inv m0 h" and d: "d < 4" and t: "t < 160"
  obtains ok h' where "flwrite E d t TRKWLEN c h = Some (ok, h')" and "head_inv m0 h'"
    and "spins_up E \<Longrightarrow> unprotected E \<Longrightarrow> ok"
    and "\<not> ok \<Longrightarrow> disk_has (mech m0 h') = disk_has (mech m0 h)"
    and "\<And>data. ok \<Longrightarrow> track_image (words_bits (map c [0..<TRKWLEN div 2])) (of_nat t) data \<Longrightarrow> disk_has (mech m0 h') d t data"
    and "\<And>d' t'. (d', t') \<noteq> (d, t) \<Longrightarrow> disk_has (mech m0 h') d' t' = disk_has (mech m0 h) d' t'"
proof -
  obtain ok h1 where go: "go_to E d t h = (ok, h1)" by (cases "go_to E d t h")
  have heads: "heads_in m0" using E by (simp add: disk_env_def)
  note g = go_to_kept [OF disk_port [OF E] heads i d t go]
  have inv1: "head_inv m0 h1" using g by (simp add: on_track_def)
  have same1: "disk_has (mech m0 h1) = disk_has (mech m0 h)" using g on_track_disk by blast
  show thesis
  proof (cases "ok \<and> pra_in E (ftr h1) AND DSKPROT \<noteq> 0")
    case False
    define h2 where "h2 = (if ok then fput Rpra h1 else h1)"
    have run: "flwrite E d t TRKWLEN c h = Some (False, h2)"
      using False by (auto simp: flwrite_def go rd_pra_def h2_def)
    have inv2: "head_inv m0 h2" unfolding h2_def using inv1 by (auto intro: inv_fput)
    have "mech m0 h2 = mech m0 h1" by (simp add: h2_def)
    then have same2: "disk_has (mech m0 h2) = disk_has (mech m0 h)" using same1 by simp
    have "\<not> (spins_up E \<and> unprotected E)" using False g by (auto simp: unprotected_def)
    then show ?thesis by (intro that [OF run inv2]) (simp_all add: same2)
  next
    case True
    then have "go_to E d t h = (True, h1)" using go by simp
    note at = go_to_head [OF E i d t this]
    define ws where "ws = map c [0..<TRKWLEN div 2]"
    have lws: "length ws = TRKWLEN div 2" by (simp add: ws_def)
    define ad where "ad = (if t \<ge> PCOMP3 then ADKSET OR FAST OR PRECOMP1 OR PRECOMP0
                                     else if t \<ge> PCOMP2 then ADKSET OR FAST OR PRECOMP1
                                     else if t \<ge> PCOMP1 then ADKSET OR FAST OR PRECOMP0
                                     else ADKSET OR FAST)"
    define h2 where "h2 = fput (Wdsklen (of_nat (TRKWLEN div 2) OR DMAEN OR DSKWRITE)) (fput (Wdsklen (of_nat (TRKWLEN div 2) OR DMAEN OR DSKWRITE))
      (fput (Wintreq AIEDBLK) (fput Wdskpt (fput (FDelay 1000) (fput (Wdsklen DSKWRITE) (fput (Wadkcon ad)
      (fput (Wadkcon (WORDSYNC OR MSBSYNC OR PRECOMP1 OR PRECOMP0)) (fput Rpra h1))))))))"
    define h3 where "h3 = fput (Wdsklen 0) (fput (FDelay 2000) (fput (Wintreq AIEDBLK) (fput (FDelay (TRKWLEN * MPERB)) (fput (DmaOut ws) h2))))"
    have run: "flwrite E d t TRKWLEN c h = Some (True, h3)"
      using E True by (simp add: flwrite_def go rd_pra_def Let_def h2_def [symmetric] h3_def [symmetric] ad_def [symmetric] disk_env_def ws_def [symmetric])
    have m2: "mech m0 h2 = mech m0 h1" by (simp add: h2_def)
    have m3: "mech m0 h3 = mech_step (DmaOut ws) (mech m0 h1)" by (simp add: h3_def m2 del: mech_step.simps(2))
    have inv2: "head_inv m0 h2" unfolding h2_def by (intro inv_fput inv1) auto
    have inv3: "head_inv m0 h3" unfolding h3_def by (intro inv_fput inv2) auto
    note w = disk_has_writing [OF lws at(3,2)]
    show ?thesis
    proof (rule that [OF run inv3])
      show "disk_has (mech m0 h3) d t data" if "track_image (words_bits (map c [0..<TRKWLEN div 2])) (of_nat t) data" for data
        using w(1) that unfolding m3 ws_def by blast
      show "disk_has (mech m0 h3) d' t' = disk_has (mech m0 h) d' t'" if "(d', t') \<noteq> (d, t)" for d' t'
        using w(2) [OF that] same1 unfolding m3 by simp
    qed simp_all
  qed
qed

section \<open>Reading a track\<close>

text \<open>The codec leaves the drive and the track alone.\<close>

definition same_job :: "fl \<Rightarrow> fl \<Rightarrow> bool" where
  "same_job s s' \<longleftrightarrow> drive s' = drive s \<and> track s' = track s"

lemma same_job_refl [simp]: "same_job s s"
  by (simp add: same_job_def)

lemma same_job_trans: "same_job s s' \<Longrightarrow> same_job s' s'' \<Longrightarrow> same_job s s''"
  by (simp add: same_job_def)

lemma demfm_job: "demfm n s = (xs, s') \<Longrightarrow> same_job s s'"
  by (auto simp: demfm_def same_job_def Let_def)

lemma find_job: "find s = (ok, s') \<Longrightarrow> same_job s s'"
  by (auto simp: find_def same_job_def split: if_splits option.splits)

lemma gethdr_job: "gethdr s = (ok, s') \<Longrightarrow> same_job s s'"
  by (auto simp: gethdr_def hdr_fields_def demfm_def same_job_def Let_def split: if_splits)

lemma next_hdr_job: "next_hdr sec n s = (ok, n', s') \<Longrightarrow> same_job s s'"
  by (auto simp: next_hdr_def Let_def split: if_splits prod.splits dest!: find_job gethdr_job intro: same_job_trans)

lemma get_loop_job: "get_loop k p sec n s = (ok, s') \<Longrightarrow> same_job s s'"
proof (induction k arbitrary: p sec n s)
  case (Suc k)
  obtain block s1 where d: "demfm mfmsec_data s = (block, s1)" by (cases "demfm mfmsec_data s")
  let ?s = "s1\<lparr> umem := store_longs p block (umem s1) \<rparr>"
  have j: "same_job s ?s" using demfm_job [OF d] by (simp add: same_job_def)
  let ?sp = "if sec + 1 = NSEC then (0, 0) else (sec + 1, p + FLBPSEC div 4)"
  obtain ok' n' s2 where nx: "next_hdr (fst ?sp) n ?s = (ok', n', s2)" by (cases "next_hdr (fst ?sp) n ?s")
  have j2: "same_job s s2" using same_job_trans [OF j next_hdr_job [OF nx]] .
  show ?case
  proof (cases "chksum (longs (umem ?s) p (FLBPSEC div 4)) \<noteq> h_datachk (hdr ?s) \<or> k = 0 \<or> \<not> ok'")
    case True
    then show ?thesis using Suc.prems j j2 d nx by (auto simp: Let_def split: if_splits)
  next
    case False
    then have "get_loop k (snd ?sp) (fst ?sp) n' s2 = (ok, s')"
      using Suc.prems d nx by (auto simp: Let_def split: if_splits)
    from same_job_trans [OF j2 Suc.IH [OF this]] show ?thesis .
  qed
qed simp

lemma decode_track_job: "decode_track s = (ok, s') \<Longrightarrow> same_job s s'"
proof -
  assume dt: "decode_track s = (ok, s')"
  let ?s = "s\<lparr> mfmbuf := 0, mfmlim := TRKRLEN div 2 \<rparr>"
  obtain f s1 where f: "find ?s = (f, s1)" by (cases "find ?s")
  obtain g s2 where g: "gethdr s1 = (g, s2)" by (cases "gethdr s1")
  have j1: "same_job s s1" using find_job [OF f] by (simp add: same_job_def)
  have j2: "same_job s s2" by (rule same_job_trans [OF j1 gethdr_job [OF g]])
  show ?thesis using dt f g j1 j2 same_job_trans [OF j2 get_loop_job]
    by (auto simp: decode_track_def Let_def split: if_splits)
qed

text \<open>Losing track is always safe.\<close>

lemma fllost_track: "head_inv m0 h \<Longrightarrow> d < 4 \<Longrightarrow> on_track m0 h (fllost d h)"
  by (auto simp: on_track_def head_inv_def fllost_def heads_at_def)

definition job :: "fl \<Rightarrow> nat \<Rightarrow> nat \<Rightarrow> bool" where
  "job s d t \<longleftrightarrow> drive s = of_nat d \<and> track s = of_nat t \<and> d < 4 \<and> t < 160"

lemma job_unat: "job s d t \<Longrightarrow> unat (drive s) = d \<and> unat (track s) = t"
  by (simp add: job_def unat_of_nat)

lemma job_same: "job s d t \<Longrightarrow> same_job s s' \<Longrightarrow> job s' d t"
  by (simp add: job_def same_job_def)

lemma job_chip [simp]: "job (s\<lparr> chip := c \<rparr>) d t = job s d t" "job (s\<lparr> mfmbuf := b, mfmlim := l \<rparr>) d t = job s d t"
  by (simp_all add: job_def)

lemma trk_even: "even TRKRLEN"
  by (simp add: TRKRLEN_def)

definition read_done :: "long_mem \<Rightarrow> long_mem \<Rightarrow> long_mem" where
  "read_done data u = (\<lambda>i. if i < 1408 then data i else u i)"

lemma get_effect:
  assumes E: "disk_env m0 E" and i: "head_inv m0 h" and j: "job s d t"
  obtains ok s' h' where "get E (s, h) = Some (ok, s', h')" and "on_track m0 h h'" and "job s' d t"
    and "\<And>data. disk_has (mech m0 h) d t data \<Longrightarrow> umem s' = (if ok then read_done data (umem s) else umem s) \<and> (spins_up E \<longrightarrow> ok)"
proof -
  note dt = j [unfolded job_def]
  obtain rd c' h' where r: "flread E d t TRKRLEN (chip s) h = Some (rd, c', h')" and on: "on_track m0 h h'" and up: "spins_up E \<Longrightarrow> rd"
    and ring: "\<And>data. rd \<Longrightarrow> disk_has (mech m0 h) d t data \<Longrightarrow> even TRKRLEN \<Longrightarrow> TRKRLEN \<le> TRKRLEN \<Longrightarrow>
      \<exists>w L org. ring_length L \<and> (\<forall>q < 8 * TRKRLEN. chip_bits c' q = ring w L (org + q)) \<and> track_image w (of_nat t) data"
    using flread_effect [OF E i, of d t TRKRLEN "chip s"] dt by metis
  obtain ok s' where dc: "decode_track (s\<lparr> chip := c' \<rparr>) = (ok, s')" by (cases "decode_track (s\<lparr> chip := c' \<rparr>)")
  have j': "job s' d t" using job_same [OF _ decode_track_job [OF dc]] j by simp
  have data: "ok \<and> umem s' = read_done data (umem s)" if up: "rd" "disk_has (mech m0 h) d t data" for data
  proof -
    obtain w L org where w: "ring_length L" "reads_ring c' w L org" "track_image w (of_nat t) data"
      using ring [OF up trk_even order_refl] by (auto simp: reads_ring_def)
    have "\<exists>s'. decode_track (s\<lparr> chip := c' \<rparr>) = (True, s') \<and> umem s' = (\<lambda>i. if i < 1408 then data i else umem (s\<lparr> chip := c' \<rparr>) i)"
      by (rule decode_ring [OF w(3,1)]) (use w(2) dt in \<open>simp_all add: unat_of_nat\<close>)
    then show ?thesis using dc by (auto simp: read_done_def)
  qed
  show thesis
  proof (cases rd)
    case True
    then have "get E (s, h) = Some (ok, s', h')" using r dc job_unat [OF j] by (simp add: get_def)
    then show ?thesis using on j' data [OF True] by (intro that) auto
  next
    case False
    then have "get E (s, h) = Some (False, s\<lparr> chip := c' \<rparr>, h')" using r job_unat [OF j] by (simp add: get_def)
    then show ?thesis using on j up False by (intro that [of False "s\<lparr> chip := c' \<rparr>" h']) auto
  qed
qed

lemma get_retry_effect:
  assumes E: "disk_env m0 E"
  shows "head_inv m0 h \<Longrightarrow> job s d t \<Longrightarrow> \<exists>ok s' h'. get_retry E n (s, h) = Some (ok, s', h') \<and> on_track m0 h h' \<and>
    (\<forall>data. disk_has (mech m0 h) d t data \<longrightarrow> umem s' = (if ok then read_done data (umem s) else umem s) \<and> (spins_up E \<longrightarrow> ok))"
proof (induction n arbitrary: s h)
  case 0
  obtain ok s' h' where g: "get E (s, h) = Some (ok, s', h')" and on: "on_track m0 h h'" and j: "job s' d t"
    and data: "\<And>data. disk_has (mech m0 h) d t data \<Longrightarrow> umem s' = (if ok then read_done data (umem s) else umem s) \<and> (spins_up E \<longrightarrow> ok)"
    using get_effect [OF E 0] by metis
  show ?case using g on data by (auto simp: get_retry.simps [of E 0])
next
  case (Suc n)
  obtain ok s' h' where g: "get E (s, h) = Some (ok, s', h')" and on: "on_track m0 h h'" and j: "job s' d t"
    and data: "\<And>data. disk_has (mech m0 h) d t data \<Longrightarrow> umem s' = (if ok then read_done data (umem s) else umem s) \<and> (spins_up E \<longrightarrow> ok)"
    using get_effect [OF E Suc.prems] by metis
  show ?case
  proof (cases ok)
    case True
    then show ?thesis using g on data by (auto simp: get_retry.simps [of E "Suc n"])
  next
    case False
    let ?h = "fllost d h'"
    have on2: "on_track m0 h ?h"
      using track_trans [OF on fllost_track] on j by (auto simp: on_track_def job_def)
    then have i2: "head_inv m0 ?h" by (simp add: on_track_def)
    obtain ok2 s2 h2 where r: "get_retry E n (s', ?h) = Some (ok2, s2, h2)" "on_track m0 ?h h2"
      "\<And>data. disk_has (mech m0 ?h) d t data \<Longrightarrow> umem s2 = (if ok2 then read_done data (umem s') else umem s') \<and> (spins_up E \<longrightarrow> ok2)"
      using Suc.IH [OF i2 j] by metis
    have "get_retry E (Suc n) (s, h) = Some (ok2, s2, h2)"
      using g False r(1) job_unat [OF j] by (simp add: get_retry.simps [of E "Suc n"])
    moreover have "on_track m0 h h2" by (rule track_trans [OF on2 r(2)])
    ultimately show ?thesis using r(3) data False on_track_disk [OF on2] by auto
  qed
qed

text \<open>
  What \<open>fdgetaml\<close> promises: it always returns, leaves the disks as they are, and a track that is written is read as it was
  written, or the failure is reported; if the drive spins up it does not fail.
\<close>

lemma fdgetaml_effect:
  assumes E: "disk_env m0 E" and i: "head_inv m0 h" and d: "d < 4" and t: "t < 160"
  shows "\<exists>ok s' h'. fdgetaml E d t (s, h) = Some (ok, s', h') \<and> on_track m0 h h' \<and>
    (\<forall>data. disk_has (mech m0 h) d t data \<longrightarrow> umem s' = (if ok then read_done data (umem s) else umem s) \<and> (spins_up E \<longrightarrow> ok))"
  using get_retry_effect [OF E i, of "s\<lparr> drive := of_nat d, track := of_nat t, buffer := 0 \<rparr>" d t RETRY] d t
  by (simp add: fdgetaml_def job_def cong: if_cong)

section \<open>Writing a track\<close>

lemma chktrk_effect:
  assumes E: "disk_env m0 E" and i: "head_inv m0 h" and j: "job s d t"
  obtains ok s' h' where "chktrk E (s, h) = Some (ok, s', h')" and "on_track m0 h h'" and "job s' d t" and "umem s' = umem s"
    and "\<And>data. disk_has (mech m0 h) d t data \<Longrightarrow> spins_up E \<Longrightarrow> ok"
proof -
  note dt = j [unfolded job_def]
  obtain rd c' h' where r: "flread E d t CHKLEN (chip s) h = Some (rd, c', h')" and on: "on_track m0 h h'" and up: "spins_up E \<Longrightarrow> rd"
    and ring: "\<And>data. rd \<Longrightarrow> disk_has (mech m0 h) d t data \<Longrightarrow> even CHKLEN \<Longrightarrow> CHKLEN \<le> TRKRLEN \<Longrightarrow>
      \<exists>w L org. ring_length L \<and> (\<forall>q < 8 * CHKLEN. chip_bits c' q = ring w L (org + q)) \<and> track_image w (of_nat t) data"
    using flread_effect [OF E i, of d t CHKLEN "chip s"] dt by metis
  define s1 where "s1 = s\<lparr> chip := c', mfmbuf := 0, mfmlim := CHKLEN div 2 \<rparr>"
  obtain f s2 where f: "find s1 = (f, s2)" by (cases "find s1")
  obtain g s3 where g: "(if f then gethdr s2 else (False, s2)) = (g, s3)" by (cases "if f then gethdr s2 else (False, s2)")
  have j1: "job s1 d t" using j by (simp add: s1_def job_def)
  have j3: "job s3 d t"
    using job_same [OF job_same [OF j1 find_job [OF f]]] g gethdr_job [of s2 g s3] by (auto split: if_splits)
  have u3: "umem s3 = umem s"
    using f g by (auto simp: s1_def find_def gethdr_def hdr_fields_def demfm_def Let_def split: if_splits option.splits)
  define ok where "ok \<longleftrightarrow> g \<and> ucast (h_trk (hdr s3)) = track s3"
  define h2 where "h2 = (if ok then h' else fllost d h')"
  have on2: "on_track m0 h h2"
    using track_trans [OF on fllost_track] on dt by (auto simp: on_track_def h2_def)
  have sure: ok if rd: rd and has: "disk_has (mech m0 h) d t data" for data
  proof -
    obtain w L org where w: "ring_length L" "\<And>q. q < 8 * CHKLEN \<Longrightarrow> chip_bits c' q = ring w L (org + q)" "track_image w (of_nat t) data"
      using ring [OF rd has] by (auto simp: CHKLEN_def TRKRLEN_def)
    have "\<exists>x y. find s1 = (True, x) \<and> gethdr x = (True, y) \<and> ucast (h_trk (hdr y)) = (of_nat t :: u32) \<and> track y = of_nat t"
      by (rule check_ring [OF w(3,1)]) (use w(2) dt in \<open>simp_all add: s1_def unat_of_nat\<close>)
    then show ?thesis using f g by (auto simp: ok_def)
  qed
  show thesis
  proof (cases rd)
    case True
    have "chktrk E (s, h) = Some (ok, s3, h2)"
      using r True f g job_unat [OF j] job_unat [OF j3] unfolding chktrk_def ok_def h2_def s1_def by (auto simp: Let_def)
    then show ?thesis using on2 j3 u3 sure [OF True] by (intro that)
  next
    case False
    then have "chktrk E (s, h) = Some (False, s\<lparr> chip := c' \<rparr>, h')" using r job_unat [OF j] by (simp add: chktrk_def)
    then show ?thesis using on j up False by (intro that [of False "s\<lparr> chip := c' \<rparr>" h']) auto
  qed
qed

lemma chk_retry_effect:
  assumes E: "disk_env m0 E"
  shows "head_inv m0 h \<Longrightarrow> job s d t \<Longrightarrow> \<exists>ok s' h'. chk_retry E n (s, h) = Some (ok, s', h') \<and> on_track m0 h h' \<and>
    job s' d t \<and> umem s' = umem s \<and> (\<forall>data. disk_has (mech m0 h) d t data \<longrightarrow> spins_up E \<longrightarrow> ok)"
proof (induction n arbitrary: s h)
  case 0
  obtain ok s' h' where "chktrk E (s, h) = Some (ok, s', h')" "on_track m0 h h'" "job s' d t" "umem s' = umem s"
    "\<And>data. disk_has (mech m0 h) d t data \<Longrightarrow> spins_up E \<Longrightarrow> ok"
    using chktrk_effect [OF E 0] by metis
  then show ?case
    by (intro exI [of _ ok] exI [of _ s'] exI [of _ h']) (auto simp: chk_retry.simps [of E 0] split: if_splits)
next
  case (Suc n)
  obtain ok s' h' where c: "chktrk E (s, h) = Some (ok, s', h')" and on: "on_track m0 h h'" and j: "job s' d t" and u: "umem s' = umem s"
    and sure: "\<And>data. disk_has (mech m0 h) d t data \<Longrightarrow> spins_up E \<Longrightarrow> ok"
    using chktrk_effect [OF E Suc.prems] by metis
  show ?case
  proof (cases ok)
    case True
    then have "chk_retry E (Suc n) (s, h) = Some (True, s', h')" using c by (simp add: chk_retry.simps [of E "Suc n"])
    then show ?thesis using on j u by blast
  next
    case False
    have "head_inv m0 h'" using on by (simp add: on_track_def)
    then obtain ok2 s2 h2 where r: "chk_retry E n (s', h') = Some (ok2, s2, h2)" "on_track m0 h' h2" "job s2 d t" "umem s2 = umem s'"
      using Suc.IH [OF _ j] by metis
    have "chk_retry E (Suc n) (s, h) = Some (ok2, s2, h2)" using c False r(1) by (simp add: chk_retry.simps [of E "Suc n"])
    then show ?thesis using track_trans [OF on r(2)] r(3,4) u sure False by auto
  qed
qed

text \<open>What is handed to \<open>flwrite\<close> is the image of the track.\<close>

definition writes_image :: "fl \<Rightarrow> nat \<Rightarrow> long_mem \<Rightarrow> bool" where
  "writes_image s t data \<longleftrightarrow> track_image (words_bits (map (chip s) [0..<TRKWLEN div 2])) (of_nat t) data"

lemma image_cong:
  assumes "\<And>j. j < 109040 \<Longrightarrow> b' j = b j" and "track_image b trk data"
  shows "track_image b' trk data"
  unfolding track_image_def
proof (intro conjI allI impI)
  note img = assms(2) [unfolded track_image_def]
  show "word_at b' (32 * i) = 0xAAAAAAAA" if "i < 415" for i
  proof -
    have "word_at b' (32 * i) = word_at b (32 * i)" by (rule word_at_cong) (use assms(1) that in simp)
    then show ?thesis using img that by simp
  qed
  show "holds b' (sec_pos k) (sector_words (b' (sec_pos k - 1)) trk k (longs data (128 * k) 128))" if "k < NSEC" for k
  proof -
    have "b' (sec_pos k - 1) = b (sec_pos k - 1)" using assms(1) that by (simp add: sec_pos_def)
    moreover have "holds b (sec_pos k) (sector_words (b (sec_pos k - 1)) trk k (longs data (128 * k) 128))" using img that by simp
    then have "holds b' (sec_pos k) (sector_words (b (sec_pos k - 1)) trk k (longs data (128 * k) 128))"
      by (rule holds_cong) (rule assms(1), use that in \<open>simp add: sec_pos_def\<close>)
    ultimately show ?thesis by simp
  qed
  show "b' (track_end + j) = (if j = 0 then \<not> b' (track_end - 1) else even j \<and> j \<noteq> 14)" if "j < 16" for j
    using img that assms(1) [of "track_end + j"] assms(1) [of "track_end - 1"] by simp
qed

lemma encode_image:
  assumes "track s = of_nat t"
  shows "writes_image (encode_track s) t (umem s)"
proof -
  have "chip_bits (\<lambda>i. if i < length (map c [0..<TRKWLEN div 2]) then map c [0..<TRKWLEN div 2] ! i else 0) j = chip_bits c j"
    if "j < 109040" for c :: chip_mem and j
  proof -
    have "j div 16 < TRKWLEN div 2" using that by (simp add: TRKWLEN_def)
    then show ?thesis by (simp add: chip_bits_def)
  qed
  then show ?thesis unfolding writes_image_def words_bits_def
    by (rule image_cong) (assumption, rule encode_track_effect(1) [of s, unfolded assms])
qed

text \<open>What a write does to the disks: the track is written, or nothing is.\<close>

definition wrote :: "mech \<Rightarrow> nat \<Rightarrow> nat \<Rightarrow> long_mem \<Rightarrow> bool \<Rightarrow> fh \<Rightarrow> fh \<Rightarrow> bool" where
  "wrote m0 d t data ok h h' \<longleftrightarrow> head_inv m0 h' \<and>
    (if ok then disk_has (mech m0 h') d t data else disk_has (mech m0 h') = disk_has (mech m0 h)) \<and>
    (\<forall>d' t'. (d', t') \<noteq> (d, t) \<longrightarrow> disk_has (mech m0 h') d' t' = disk_has (mech m0 h) d' t')"

lemma write_retry_effect:
  assumes E: "disk_env m0 E" and j: "job s d t" and img: "writes_image s t data"
  shows "head_inv m0 h \<Longrightarrow> \<exists>ok h'. write_retry E n (s, h) = Some (ok, s, h') \<and> wrote m0 d t data ok h h' \<and>
    (spins_up E \<longrightarrow> unprotected E \<longrightarrow> ok)"
proof (induction n arbitrary: h)
  case (Suc n)
  obtain ok h' where w: "flwrite E d t TRKWLEN (chip s) h = Some (ok, h')" "head_inv m0 h'" "spins_up E \<Longrightarrow> unprotected E \<Longrightarrow> ok"
    "\<not> ok \<Longrightarrow> disk_has (mech m0 h') = disk_has (mech m0 h)" "ok \<Longrightarrow> disk_has (mech m0 h') d t data"
    "\<And>d' t'. (d', t') \<noteq> (d, t) \<Longrightarrow> disk_has (mech m0 h') d' t' = disk_has (mech m0 h) d' t'"
    using flwrite_effect [OF E Suc.prems, of d t "chip s"] j img unfolding job_def writes_image_def by metis
  show ?case
  proof (cases ok)
    case True
    then have "write_retry E (Suc n) (s, h) = Some (True, s, h')"
      using w(1) job_unat [OF j] by (simp add: write_retry.simps [of E "Suc n"])
    moreover have "wrote m0 d t data True h h'" using w(2,5,6) True by (simp add: wrote_def)
    ultimately show ?thesis by blast
  next
    case False
    obtain ok2 h2 where r: "write_retry E n (s, h') = Some (ok2, s, h2)" "wrote m0 d t data ok2 h' h2"
      using Suc.IH [OF w(2)] by blast
    have "write_retry E (Suc n) (s, h) = Some (ok2, s, h2)"
      using w(1) False r(1) job_unat [OF j] by (simp add: write_retry.simps [of E "Suc n"])
    moreover have "wrote m0 d t data ok2 h h2" using r(2) w(4) [OF False] by (simp add: wrote_def)
    ultimately show ?thesis using w(3) False by blast
  qed
next
  case 0
  obtain ok h' where w: "flwrite E d t TRKWLEN (chip s) h = Some (ok, h')" "head_inv m0 h'" "spins_up E \<Longrightarrow> unprotected E \<Longrightarrow> ok"
    "\<not> ok \<Longrightarrow> disk_has (mech m0 h') = disk_has (mech m0 h)" "ok \<Longrightarrow> disk_has (mech m0 h') d t data"
    "\<And>d' t'. (d', t') \<noteq> (d, t) \<Longrightarrow> disk_has (mech m0 h') d' t' = disk_has (mech m0 h) d' t'"
    using flwrite_effect [OF E 0, of d t "chip s"] j img unfolding job_def writes_image_def by metis
  have "write_retry E 0 (s, h) = Some (ok, s, h')" using w(1) job_unat [OF j] by (simp add: write_retry.simps [of E 0])
  moreover have "wrote m0 d t data ok h h'" using w(2,4,5,6) by (simp add: wrote_def)
  ultimately show ?case using w(3) by blast
qed

text \<open>
  What \<open>fdputaml\<close> promises: it always returns, and a track reported as written is on the disk, a failure has changed nothing, and no other
  track is touched. It fails only if the drive does not spin up, the disk is protected, or the check finds no track to replace.
\<close>

lemma fdputaml_effect:
  assumes E: "disk_env m0 E" and i: "head_inv m0 h" and d: "d < 4" and t: "t < 160"
  shows "\<exists>ok s' h'. fdputaml E d t check (s, h) = Some (ok, s', h') \<and> wrote m0 d t (umem s) ok h h' \<and>
    (spins_up E \<longrightarrow> unprotected E \<longrightarrow> (check \<longrightarrow> (\<exists>data. disk_has (mech m0 h) d t data)) \<longrightarrow> ok)"
proof -
  define s0 where "s0 = s\<lparr> drive := of_nat d, track := of_nat t \<rparr>"
  have j0: "job s0 d t" "umem s0 = umem s" using d t by (simp_all add: s0_def job_def)
  obtain ok1 s1 h1 where c: "(if check then chk_retry E RETRY (s0, h) else Some (True, s0, h)) = Some (ok1, s1, h1)"
    and on: "on_track m0 h h1" and j1: "job s1 d t" and u1: "umem s1 = umem s"
    and sure: "(check \<longrightarrow> (\<exists>data. disk_has (mech m0 h) d t data)) \<Longrightarrow> spins_up E \<Longrightarrow> ok1"
  proof (cases check)
    case True
    then show ?thesis using chk_retry_effect [OF E i j0(1), of RETRY] j0(2) that by auto
  next
    case False
    then show ?thesis using j0 i that [of True s0 h] by (simp add: on_track_def)
  qed
  have same: "disk_has (mech m0 h1) = disk_has (mech m0 h)" by (rule on_track_disk [OF on])
  have i1: "head_inv m0 h1" using on by (simp add: on_track_def)
  show ?thesis
  proof (cases ok1)
    case False
    then have "fdputaml E d t check (s, h) = Some (False, s1, h1)" unfolding fdputaml_def prod.case Let_def s0_def [symmetric] c by simp
    moreover have "wrote m0 d t (umem s) False h h1" using i1 same by (simp add: wrote_def)
    ultimately show ?thesis using sure False by blast
  next
    case True
    have j2: "job (encode_track s1) d t" using j1 encode_track_effect(6,7) [of s1] by (simp add: job_def)
    have img: "writes_image (encode_track s1) t (umem s)" using encode_image [of s1 t] j1 u1 by (simp add: job_def)
    obtain ok h2 where w: "write_retry E RETRY (encode_track s1, h1) = Some (ok, encode_track s1, h2)"
      "wrote m0 d t (umem s) ok h1 h2" "spins_up E \<longrightarrow> unprotected E \<longrightarrow> ok"
      using write_retry_effect [OF E j2 img i1] by blast
    have "fdputaml E d t check (s, h) = Some (ok, encode_track s1, h2)"
      unfolding fdputaml_def prod.case Let_def s0_def [symmetric] c using True w(1) by simp
    moreover have "wrote m0 d t (umem s) ok h h2" using w(2) same by (simp add: wrote_def)
    ultimately show ?thesis using w(3) by blast
  qed
qed

section \<open>From buffer to disk and back\<close>

text \<open>
  C10. A track written to a disk is read back from it: whatever states codec and drives are in, let \<open>fdputaml\<close> report success for a track, and let
  \<open>fdgetaml\<close> be called for the same track afterwards, with motors turned off or heads moved in between by reading other tracks. Then
  \<open>fdgetaml\<close> returns, and if it reports success its buffer holds the 5632 bytes that were written; it reports success when the drive spins up. In
  between stand the checks and retries of both, the codec, seeking by counting steps, and a disk that is read from an arbitrary bit on.
\<close>

theorem disk_round_trip:
  assumes "disk_env m0 E" and "head_inv m0 h" and "d < 4" and "t < TRACKS" and "d' < 4" and "t' < TRACKS"
    and "fdputaml E d t check (s, h) = Some (True, s1, h1)"
    and "fdgetaml E d' t' (s2, flstop E d (fllost d h1)) = Some (ok2, s3, h3)"
  shows "\<exists>ok s' h'. fdgetaml E d t (s4, h3) = Some (ok, s', h') \<and> (spins_up E \<longrightarrow> ok) \<and>
    (ok \<longrightarrow> (\<forall>i. umem s' i = (if i < 1408 then umem s i else umem s4 i)))"
proof -
  have w: "wrote m0 d t (umem s) True h h1" using fdputaml_effect [OF assms(1-4), of check s] assms(7) by auto
  then have i1: "head_inv m0 h1" "disk_has (mech m0 h1) d t (umem s)" by (simp_all add: wrote_def)
  have i2: "head_inv m0 (fllost d h1)" "on_track m0 h1 (fllost d h1)"
    using fllost_track [OF i1(1) assms(3)] by (simp_all add: on_track_def)
  have on: "on_track m0 h1 (flstop E d (fllost d h1))"
    using motor_off_inv [OF disk_port [OF assms(1)] i2(1) assms(3)] track_trans [OF i2(2)] track_still by (simp add: flstop_def)
  then have "head_inv m0 (flstop E d (fllost d h1))" by (simp add: on_track_def)
  from fdgetaml_effect [OF assms(1) this assms(5,6), of s2] assms(8)
  have "on_track m0 (flstop E d (fllost d h1)) h3" by simp
  with on have on3: "on_track m0 h1 h3" by (rule track_trans)
  then have "head_inv m0 h3" "disk_has (mech m0 h3) d t (umem s)" using i1(2) on_track_disk [OF on3] by (simp_all add: on_track_def)
  from fdgetaml_effect [OF assms(1) this(1) assms(3,4), of s4] this(2)
  show ?thesis by (fastforce simp: read_done_def)
qed

text \<open>Such a disk exists: drives that are always ready, and reads that start at bit 777 of a track of 100001 bits.\<close>

definition model_pra :: "mech \<Rightarrow> byte" where
  "model_pra m = (if \<exists>d < 4. selects (m_prb m) d \<and> m_head m d = 0 then DSKPROT else DSKPROT OR DSKTRACK0)"

definition model_read :: "mech \<Rightarrow> chip_mem" where
  "model_read m =
    (case filter (selects (m_prb m)) [0..<4] of
       [d] \<Rightarrow> (case m_media m (under_head m d) of None \<Rightarrow> (\<lambda>i. 0) | Some ws \<Rightarrow> stretch (words_bits ws) 100001 777)
     | _ \<Rightarrow> (\<lambda>i. 0))"

definition model_env :: "mech \<Rightarrow> fenv" where
  "model_env m0 =
    \<lparr> prb_in = (\<lambda>tr. m_prb (fold mech_step tr m0)), pra_in = (\<lambda>tr. model_pra (fold mech_step tr m0)), ddra_in = (\<lambda>_. 0),
      icr_in = (\<lambda>_. DSKINDEX), intenar_in = (\<lambda>_. 0), dma_ends = (\<lambda>_. True), dma_data = (\<lambda>tr. model_read (fold mech_step tr m0)) \<rparr>"

lemma model_pra_bits: "model_pra m AND DSKRDY = 0" "model_pra m AND DSKPROT \<noteq> 0"
  "model_pra m AND DSKTRACK0 = 0 \<longleftrightarrow> (\<exists>d < 4. selects (m_prb m) d \<and> m_head m d = 0)"
  by (auto simp: model_pra_def DSKPROT_def DSKRDY_def DSKTRACK0_def)

lemma selects_less: "selects p d \<Longrightarrow> d < 4"
  by (simp add: selects_def)

lemma filter_only: "(\<And>d'. selects p d' \<longleftrightarrow> d' = d) \<Longrightarrow> filter (selects p) [0..<4] = [d]"
  using selects_less [of p d] by (auto simp: upt_4 less_Suc_eq numeral_eq_Suc)

lemma model_env_disk: "heads_in m0 \<Longrightarrow> disk_env m0 (model_env m0)"
  unfolding disk_env_def
proof (intro conjI allI)
  show "port_env m0 (model_env m0)"
    unfolding port_env_def Let_def
  proof (intro allI conjI impI)
    fix tr d assume "(\<forall>d'. selects (m_prb (fold mech_step tr m0)) d' \<longleftrightarrow> d' = d) \<and> outward (m_prb (fold mech_step tr m0))"
    then show "(pra_in (model_env m0) tr AND DSKTRACK0 = 0) = (m_head (fold mech_step tr m0) d = 0)"
      using selects_less [of "m_prb (fold mech_step tr m0)" d] by (simp add: model_env_def model_pra_bits)
  qed (simp add: model_env_def)
  fix tr d ws
  let ?m = "fold mech_step tr m0"
  have "\<exists>L org. ring_length L \<and> reads_ring (dma_data (model_env m0) tr) (words_bits ws) L org"
    if "\<forall>d'. selects (m_prb ?m) d' \<longleftrightarrow> d' = d" "m_media ?m (under_head ?m d) = Some ws"
  proof (intro exI conjI)
    show "ring_length 100001" by (simp add: ring_length_def)
    show "reads_ring (dma_data (model_env m0) tr) (words_bits ws) 100001 777"
      using that filter_only [of "m_prb ?m" d] reads_stretch by (simp add: model_env_def model_read_def)
  qed
  then show "let m = ?m in (\<forall>d'. selects (m_prb m) d' \<longleftrightarrow> d' = d) \<and> m_media m (under_head m d) = Some ws \<and>
      length ws = TRKWLEN div 2 \<longrightarrow> (\<exists>L org. ring_length L \<and> reads_ring (dma_data (model_env m0) tr) (words_bits ws) L org)"
    by (auto simp: Let_def)
qed (simp_all add: model_env_def)

lemma model_env_ready: "spins_up (model_env m0)" "unprotected (model_env m0)"
  by (simp_all add: spins_up_def unprotected_def model_env_def model_pra_bits)

text \<open>The state after \<open>flinit\<close>, with the heads anywhere.\<close>

definition blank_mech :: mech where
  "blank_mech = \<lparr> m_prb = 0, m_head = (\<lambda>_. 40), m_media = (\<lambda>_. None) \<rparr>"

lemma wprb_prb: "m_prb (mech_step (Wprb v) m) = v"
  by simp

lemma flinit_inv: "head_inv m0 (flinit E init_fh)"
proof -
  let ?h = "desel E (fput (Wddra (ddra_in E (ftr init_fh) AND NOT (DSKRDY OR DSKTRACK0 OR DSKPROT))) (fput Rddra init_fh))"
  have f: "length (spindle ?h) = 4" "selected ?h = None" "\<And>d. d < 4 \<Longrightarrow> trks ?h d = - 1"
    by (simp_all add: init_fh_def trks_def)
  have "head_inv m0 (fput (Wprb (NOT 0)) ?h)"
    unfolding head_inv_def heads_at_def mech_fput wprb_prb using f by (simp add: selects_def bit_simps)
  then show ?thesis unfolding flinit_def Let_def by (rule inv_fput [OF inv_fput [OF inv_fput]]) auto
qed

theorem disk_round_trip_witness:
  "\<exists>s1 h1 s2 h2 s3 h3. fdputaml (model_env blank_mech) 2 77 False (demo_fl (\<lambda>i. 0) of_nat 0, flinit (model_env blank_mech) init_fh) = Some (True, s1, h1) \<and>
     fdgetaml (model_env blank_mech) 2 20 (s1, flstop (model_env blank_mech) 2 (fllost 2 h1)) = Some (snd s2, fst s2, h2) \<and>
     fdgetaml (model_env blank_mech) 2 77 (demo_fl (\<lambda>i. 0) (\<lambda>i. 0) 0, h2) = Some (True, s3, h3) \<and> umem s3 1407 = 1407 \<and> umem s3 1408 = 0"
proof -
  let ?E = "model_env blank_mech" and ?s = "demo_fl (\<lambda>i. 0) of_nat 0" and ?h = "flinit (model_env blank_mech) init_fh"
  have E: "disk_env blank_mech ?E" by (rule model_env_disk) (simp add: heads_in_def blank_mech_def)
  note i = flinit_inv [of blank_mech ?E]
  obtain s1 h1 where p: "fdputaml ?E 2 77 False (?s, ?h) = Some (True, s1, h1)"
    using fdputaml_effect [OF E i, of 2 77 False ?s] model_env_ready by auto
  have w: "head_inv blank_mech h1" using fdputaml_effect [OF E i, of 2 77 False ?s] p by (auto simp: wrote_def)
  have "head_inv blank_mech (fllost 2 h1)" using fllost_track [OF w, of 2] by (simp add: on_track_def)
  then have "head_inv blank_mech (flstop ?E 2 (fllost 2 h1))"
    using motor_off_inv [OF disk_port [OF E], of "fllost 2 h1" 2] by (simp add: flstop_def)
  then obtain ok s2 h2 where g: "fdgetaml ?E 2 20 (s1, flstop ?E 2 (fllost 2 h1)) = Some (ok, s2, h2)"
    using fdgetaml_effect [OF E, of "flstop ?E 2 (fllost 2 h1)" 2 20 s1] by auto
  have "\<exists>ok s' h'. fdgetaml ?E 2 77 (demo_fl (\<lambda>i. 0) (\<lambda>i. 0) 0, h2) = Some (ok, s', h') \<and> (spins_up ?E \<longrightarrow> ok) \<and>
    (ok \<longrightarrow> (\<forall>i. umem s' i = (if i < 1408 then umem ?s i else umem (demo_fl (\<lambda>i. 0) (\<lambda>i. 0) 0) i)))"
    by (rule disk_round_trip [OF E i _ _ _ _ p g]) simp_all
  then obtain s3 h3 where r: "fdgetaml ?E 2 77 (demo_fl (\<lambda>i. 0) (\<lambda>i. 0) 0, h2) = Some (True, s3, h3)"
      "\<And>i. umem s3 i = (if i < 1408 then umem ?s i else umem (demo_fl (\<lambda>i. 0) (\<lambda>i. 0) 0) i)"
    using model_env_ready(1) [of blank_mech] by auto
  have u: "umem s3 1407 = 1407" "umem s3 1408 = 0" unfolding r(2) by simp_all
  show ?thesis using p g r(1) u by (intro exI [of _ s1] exI [of _ h1] exI [of _ "(s2, ok)"] exI [of _ h2] exI [of _ s3] exI [of _ h3]) simp
qed

end
