(* ===== verification/Floppy_Cache.thy ===== *)
theory Floppy_Cache
  imports Streams
begin

text \<open>
  The floppy device, \<open>floppy/flop.c\<close>: the track buffer cache, the requests of the block device and the servant process that
  carries them out. The functions that read and write tracks of the formats, and those that stop and test drives, are the
  entries of a record, as they are function pointers and external functions there; they act on a state of any type. \<open>None\<close> is an
  access through a null pointer or outside an array, or a transfer that never ends.

  The list of the cache is in LRU order, as the links are. A \<open>dev_t\<close> is its minor number. Physical memory is a function from
  addresses; \<open>vtop\<close> has been applied to the address of a request. Sleeping and waking are left out: a request is taken as a
  whole, and the servant is a step that is possible when it would be woken.
\<close>

section \<open>Layout\<close>

abbreviation (input) BPSEC :: nat where "BPSEC \<equiv> 512"
abbreviation (input) TRACKS :: nat where "TRACKS \<equiv> 160"
abbreviation (input) NSECML :: nat where "NSECML \<equiv> 9"
abbreviation (input) NSECMH :: nat where "NSECMH \<equiv> 18"
abbreviation (input) NSECAL :: nat where "NSECAL \<equiv> 11"
abbreviation (input) NDRIVES :: nat where "NDRIVES \<equiv> 4"
abbreviation (input) MLIFE :: nat where "MLIFE \<equiv> 6"
abbreviation (input) TBCLEN :: nat where "TBCLEN \<equiv> 10"
abbreviation (input) NODRV :: int where "NODRV \<equiv> - 1"
abbreviation (input) NOTRK :: int where "NOTRK \<equiv> - 1"

definition dmaid :: "u32 \<Rightarrow> bool" where
  "dmaid dev \<longleftrightarrow> dev = 0xFF"

definition dfmt :: "u32 \<Rightarrow> bool" where
  "dfmt dev \<longleftrightarrow> dev AND push_bit 4 1 \<noteq> 0"

definition dtotype :: "u32 \<Rightarrow> nat" where
  "dtotype dev = unat (0x3 AND drop_bit 1 dev)"

definition dtodrv :: "u32 \<Rightarrow> nat" where
  "dtodrv dev = unat (0x7 AND drop_bit 5 dev)"

type_synonym tdata = "nat \<Rightarrow> byte"

record 'x dtype =
  dt_get :: "nat \<Rightarrow> nat \<Rightarrow> tdata \<Rightarrow> 'x \<Rightarrow> (bool \<times> tdata \<times> 'x) option"
  dt_put :: "nat \<Rightarrow> nat \<Rightarrow> tdata \<Rightarrow> bool \<Rightarrow> 'x \<Rightarrow> (bool \<times> 'x) option"
  nsecs :: nat
  nblocks :: nat

record 'x flops =
  dtypes :: "'x dtype list"
  f_init :: "'x \<Rightarrow> 'x"
  f_stop :: "nat \<Rightarrow> 'x \<Rightarrow> 'x"
  f_ok :: "nat \<Rightarrow> 'x \<Rightarrow> bool \<times> 'x"
  f_wprot :: "nat \<Rightarrow> 'x \<Rightarrow> bool \<times> 'x"

text \<open>The table of formats, given the functions of the two formats there are.\<close>

definition dtype_table ::
  "(nat \<Rightarrow> nat \<Rightarrow> tdata \<Rightarrow> 'x \<Rightarrow> (bool \<times> tdata \<times> 'x) option) \<Rightarrow> (nat \<Rightarrow> nat \<Rightarrow> tdata \<Rightarrow> bool \<Rightarrow> 'x \<Rightarrow> (bool \<times> 'x) option) \<Rightarrow>
   (nat \<Rightarrow> nat \<Rightarrow> tdata \<Rightarrow> 'x \<Rightarrow> (bool \<times> tdata \<times> 'x) option) \<Rightarrow> (nat \<Rightarrow> nat \<Rightarrow> tdata \<Rightarrow> bool \<Rightarrow> 'x \<Rightarrow> (bool \<times> 'x) option) \<Rightarrow>
   (nat \<Rightarrow> nat \<Rightarrow> tdata \<Rightarrow> 'x \<Rightarrow> (bool \<times> tdata \<times> 'x) option) \<Rightarrow> (nat \<Rightarrow> nat \<Rightarrow> tdata \<Rightarrow> bool \<Rightarrow> 'x \<Rightarrow> (bool \<times> 'x) option) \<Rightarrow>
   'x dtype list" where
  "dtype_table getaml putaml getmsl putmsl getmsh putmsh =
    [\<lparr> dt_get = getaml, dt_put = putaml, nsecs = NSECAL, nblocks = NSECAL * TRACKS \<rparr>,
     \<lparr> dt_get = (\<lambda>_ _ _ _. None), dt_put = (\<lambda>_ _ _ _ _. None), nsecs = 0, nblocks = 0 \<rparr>,
     \<lparr> dt_get = getmsl, dt_put = putmsl, nsecs = NSECML, nblocks = NSECML * TRACKS \<rparr>,
     \<lparr> dt_get = getmsh, dt_put = putmsh, nsecs = NSECMH, nblocks = NSECMH * TRACKS \<rparr>]"

definition dtype_of :: "'x flops \<Rightarrow> u32 \<Rightarrow> 'x dtype" where
  "dtype_of P dev = dtypes P ! dtotype dev"

section \<open>State\<close>

text \<open>\<open>type\<close> is the index into \<open>dtypes\<close>.\<close>

record track =
  t_drv :: int
  t_trk :: int
  t_type :: nat
  t_dirty :: bool
  t_check :: bool
  t_data :: tdata

record fbuf =
  fb_dev :: u32
  fb_blkno :: u32
  fb_bcount :: u32
  fb_read :: bool
  fb_error :: bool
  fb_addr :: nat
  fb_resid :: u32
  fb_done :: bool

record 'x flop =
  tbc :: "track list"
  servant :: bool
  idle :: bool
  chkmot :: bool
  mlives :: "nat list"
  fqueue :: "fbuf list"
  first :: bool
  finished :: "fbuf list"
  fmem :: "nat \<Rightarrow> byte"
  dsk :: 'x

definition init_flop :: "(nat \<Rightarrow> byte) \<Rightarrow> 'x \<Rightarrow> 'x flop" where
  "init_flop mem x = \<lparr> tbc = [], servant = False, idle = False, chkmot = True, mlives = replicate NDRIVES 0, fqueue = [], first = True,
     finished = [], fmem = mem, dsk = x \<rparr>"

definition set_lives :: "nat \<Rightarrow> nat \<Rightarrow> 'x flop \<Rightarrow> 'x flop" where
  "set_lives drv n s = s\<lparr> mlives := (mlives s)[drv := n] \<rparr>"

section \<open>The track buffer cache\<close>

text \<open>\<open>kmem_alloc\<close> gives the tracks with whatever is in them, or nothing.\<close>

definition tbcinit :: "track list option \<Rightarrow> 'x flop \<Rightarrow> bool \<times> 'x flop" where
  "tbcinit mem s =
    (case mem of
       None \<Rightarrow> (False, s)
     | Some tp \<Rightarrow> (True, s\<lparr> tbc := map (\<lambda>t. t\<lparr> t_drv := NODRV, t_trk := NOTRK \<rparr>) tp \<rparr>))"

text \<open>
  The search of \<open>findtrk\<close>: the first track that fits, or the last one; it is taken out of the list. The list is not empty.
\<close>

fun unlink :: "(track \<Rightarrow> bool) \<Rightarrow> track \<Rightarrow> track list \<Rightarrow> bool \<times> track \<times> track list" where
  "unlink p probe [] = (p probe, probe, [])"
| "unlink p probe (t # ts) =
    (if p probe then (True, probe, t # ts)
     else let (found, r, rest) = unlink p t ts in (found, r, probe # rest))"

text \<open>The track is written out, if it has to be; whether that worked is not looked at.\<close>

definition write_back :: "'x flops \<Rightarrow> track \<Rightarrow> 'x flop \<Rightarrow> 'x flop option" where
  "write_back P t s =
    (if t_dirty t \<and> t_drv t \<noteq> NODRV \<and> t_trk t \<noteq> NOTRK then
       (case dt_put (dtypes P ! t_type t) (nat (t_drv t)) (nat (t_trk t)) (t_data t) (t_check t) (dsk s) of
          None \<Rightarrow> None
        | Some (_, x) \<Rightarrow> Some (set_lives (nat (t_drv t)) MLIFE (s\<lparr> dsk := x \<rparr>)))
     else Some s)"

definition load :: "'x flops \<Rightarrow> u32 \<Rightarrow> nat \<Rightarrow> bool \<Rightarrow> track \<Rightarrow> track list \<Rightarrow> 'x flop \<Rightarrow> (bool \<times> 'x flop) option" where
  "load P dev trk rd probe rest s =
    (let drv = dtodrv dev;
         use = (\<lambda>probe s. Some (True, set_lives drv MLIFE (s\<lparr> tbc :=
           probe\<lparr> t_check := rd, t_drv := int drv, t_trk := int trk, t_type := dtotype dev \<rparr> # rest \<rparr>)))
     in if rd then
          (case dt_get (dtype_of P dev) drv trk (t_data probe) (dsk s) of
             None \<Rightarrow> None
           | Some (ok, buf, x) \<Rightarrow>
               let s = s\<lparr> dsk := x \<rparr>; probe = probe\<lparr> t_data := buf \<rparr>
               in if \<not> ok then
                    Some (False, set_lives drv 1 (s\<lparr> tbc := probe\<lparr> t_drv := NODRV, t_trk := NOTRK \<rparr> # rest \<rparr>))
                  else use (probe\<lparr> t_dirty := False \<rparr>) s)
        else use (probe\<lparr> t_data := (\<lambda>_. 0), t_dirty := True \<rparr>) s)"

definition holds_track :: "u32 \<Rightarrow> nat \<Rightarrow> track \<Rightarrow> bool" where
  "holds_track dev trk t \<longleftrightarrow> t_drv t = int (dtodrv dev) \<and> t_trk t = int trk \<and> t_type t = dtotype dev"

text \<open>The track found is the head of the list.\<close>

definition findtrk :: "'x flops \<Rightarrow> u32 \<Rightarrow> nat \<Rightarrow> bool \<Rightarrow> 'x flop \<Rightarrow> (bool \<times> 'x flop) option" where
  "findtrk P dev trk rd s =
    (case tbc s of
       [] \<Rightarrow> None
     | t # ts \<Rightarrow>
         let (found, probe, rest) = unlink (holds_track dev trk) t ts;
             s = s\<lparr> tbc := probe # rest \<rparr>
         in if found then Some (True, s)
            else case write_back P probe s of None \<Rightarrow> None | Some s \<Rightarrow> load P dev trk rd probe rest s)"

fun flush_loop :: "'x flops \<Rightarrow> nat \<Rightarrow> track list \<Rightarrow> 'x \<Rightarrow> (track list \<times> 'x) option" where
  "flush_loop P drv [] x = Some ([], x)"
| "flush_loop P drv (t # ts) x =
    (if t_drv t = int drv then
       (case (if t_dirty t then dt_put (dtypes P ! t_type t) (nat (t_drv t)) (nat (t_trk t)) (t_data t) (t_check t) x else Some (True, x)) of
          None \<Rightarrow> None
        | Some (_, x) \<Rightarrow>
            (case flush_loop P drv ts x of
               None \<Rightarrow> None
             | Some (us, x) \<Rightarrow> Some (t\<lparr> t_drv := NODRV, t_trk := NOTRK \<rparr> # us, x)))
     else
       (case flush_loop P drv ts x of None \<Rightarrow> None | Some (us, x) \<Rightarrow> Some (t # us, x)))"

definition flush :: "'x flops \<Rightarrow> nat \<Rightarrow> 'x flop \<Rightarrow> 'x flop option" where
  "flush P drv s =
    (case flush_loop P drv (tbc s) (dsk s) of
       None \<Rightarrow> None
     | Some (ts, x) \<Rightarrow> Some (s\<lparr> tbc := ts, dsk := f_stop P drv x \<rparr>))"

definition incache :: "nat \<Rightarrow> nat \<Rightarrow> 'x flop \<Rightarrow> bool" where
  "incache drv trk s = list_ex (\<lambda>t. t_drv t = int drv \<and> t_trk t = int trk) (tbc s)"

section \<open>Blocks\<close>

text \<open>
  The three functions \<open>rundevice\<close> chooses from. They return whether they succeeded and whether they set \<open>B_ERROR\<close>.
\<close>

definition copy_in :: "nat \<Rightarrow> tdata \<Rightarrow> nat \<Rightarrow> tdata \<Rightarrow> tdata" where
  "copy_in to d from e = (\<lambda>a. if to \<le> a \<and> a < to + BPSEC then e (from + (a - to)) else d a)"

definition fdblock_read :: "'x flops \<Rightarrow> u32 \<Rightarrow> nat \<Rightarrow> u32 \<Rightarrow> 'x flop \<Rightarrow> (bool \<times> bool \<times> 'x flop) option" where
  "fdblock_read P dev buf bno s =
    (let dp = dtype_of P dev
     in if unat bno \<ge> nblocks dp then Some (False, unat bno \<noteq> nblocks dp, s)
        else
          let trk = unat bno div nsecs dp; sec = unat bno mod nsecs dp
          in case findtrk P dev trk True s of
               None \<Rightarrow> None
             | Some (ok, s) \<Rightarrow>
                 if \<not> ok then Some (False, True, s)
                 else Some (True, False, s\<lparr> fmem := copy_in buf (fmem s) (sec * BPSEC) (t_data (hd (tbc s))) \<rparr>))"

definition fdblock_write :: "'x flops \<Rightarrow> u32 \<Rightarrow> nat \<Rightarrow> u32 \<Rightarrow> 'x flop \<Rightarrow> (bool \<times> bool \<times> 'x flop) option" where
  "fdblock_write P dev buf bno s =
    (let dp = dtype_of P dev
     in if unat bno \<ge> nblocks dp then Some (False, True, s)
        else
          let trk = unat bno div nsecs dp; sec = unat bno mod nsecs dp
          in case findtrk P dev trk True s of
               None \<Rightarrow> None
             | Some (ok, s) \<Rightarrow>
                 if \<not> ok then Some (False, True, s)
                 else
                   let tk = hd (tbc s)
                   in Some (True, False, s\<lparr> tbc :=
                        tk\<lparr> t_data := copy_in (sec * BPSEC) (t_data tk) buf (fmem s), t_dirty := True \<rparr> # tl (tbc s) \<rparr>))"

definition fdblock_format :: "'x flops \<Rightarrow> u32 \<Rightarrow> nat \<Rightarrow> u32 \<Rightarrow> 'x flop \<Rightarrow> (bool \<times> bool \<times> 'x flop) option" where
  "fdblock_format P dev buf bno s =
    (let dp = dtype_of P dev
     in case (if unat bno < nblocks dp \<and> unat bno mod nsecs dp = 0
              then findtrk P dev (unat bno div nsecs dp) False s else Some (True, s)) of
          None \<Rightarrow> None
        | Some (_, s) \<Rightarrow> fdblock_write P dev buf bno s)"

section \<open>Requests\<close>

text \<open>The loop over the blocks of a request; \<open>n\<close> are left, \<open>b_resid\<close> is \<open>512 * n\<close>.\<close>

fun run_blocks ::
  "(nat \<Rightarrow> u32 \<Rightarrow> 'x flop \<Rightarrow> (bool \<times> bool \<times> 'x flop) option) \<Rightarrow> nat \<Rightarrow> u32 \<Rightarrow> nat \<Rightarrow> 'x flop \<Rightarrow>
    (nat \<times> bool \<times> 'x flop) option" where
  "run_blocks func to blk 0 s = Some (0, False, s)"
| "run_blocks func to blk (Suc n) s =
    (case func to blk s of
       None \<Rightarrow> None
     | Some (ok, err, s) \<Rightarrow>
         if \<not> ok then Some (Suc n, err, s) else run_blocks func (to + BPSEC) (blk + 1) n s)"

definition iodone :: "fbuf \<Rightarrow> 'x flop \<Rightarrow> 'x flop" where
  "iodone bp s = s\<lparr> finished := finished s @ [bp\<lparr> fb_done := True \<rparr>] \<rparr>"

definition rundevice :: "'x flops \<Rightarrow> fbuf \<Rightarrow> 'x flop \<Rightarrow> 'x flop option" where
  "rundevice P bp s =
    (if unat (fb_bcount bp) mod BPSEC \<noteq> 0 then Some (iodone (bp\<lparr> fb_error := True \<rparr>) s)
     else if dfmt (fb_dev bp) \<and> fb_read bp then Some (iodone (bp\<lparr> fb_error := True \<rparr>) s)
     else
       let func = (if dfmt (fb_dev bp) then fdblock_format P (fb_dev bp)
                   else if fb_read bp then fdblock_read P (fb_dev bp) else fdblock_write P (fb_dev bp))
       in case run_blocks func (fb_addr bp) (fb_blkno bp) (unat (fb_bcount bp) div BPSEC) s of
            None \<Rightarrow> None
          | Some (n, err, s) \<Rightarrow> Some (iodone (bp\<lparr> fb_resid := of_nat (BPSEC * n), fb_error := fb_error bp \<or> err \<rparr>) s))"

text \<open>The first request for a track that is in the cache, or else the first one.\<close>

fun pick :: "(fbuf \<Rightarrow> bool) \<Rightarrow> fbuf list \<Rightarrow> (fbuf \<times> fbuf list) option" where
  "pick p [] = None"
| "pick p (b # bs) =
    (if p b then Some (b, bs) else case pick p bs of None \<Rightarrow> None | Some (r, rest) \<Rightarrow> Some (r, b # rest))"

definition getnext :: "'x flops \<Rightarrow> 'x flop \<Rightarrow> fbuf \<times> 'x flop" where
  "getnext P s =
    (case pick (\<lambda>b. incache (dtodrv (fb_dev b)) (unat (fb_blkno b) div nsecs (dtype_of P (fb_dev b))) s) (fqueue s) of
       Some (r, rest) \<Rightarrow> (r, s\<lparr> fqueue := rest \<rparr>)
     | None \<Rightarrow> (hd (fqueue s), s\<lparr> fqueue := tl (fqueue s) \<rparr>))"

definition fdstrategy :: "'x flops \<Rightarrow> fbuf \<Rightarrow> 'x flop \<Rightarrow> 'x flop option" where
  "fdstrategy P bp s =
    (let drv = dtodrv (fb_dev bp)
     in if drv \<ge> NDRIVES then None
        else if \<not> servant s then
          (case rundevice P bp s of
             None \<Rightarrow> None
           | Some s \<Rightarrow> (case flush P drv s of None \<Rightarrow> None | Some s \<Rightarrow> Some (set_lives drv 0 s)))
        else Some (s\<lparr> fqueue := fqueue s @ [bp] \<rparr>))"

section \<open>The servant\<close>

fun flush_all :: "'x flops \<Rightarrow> nat list \<Rightarrow> 'x flop \<Rightarrow> 'x flop option" where
  "flush_all P [] s = Some s"
| "flush_all P (drv # ds) s = (case flush P drv s of None \<Rightarrow> None | Some s \<Rightarrow> flush_all P ds s)"

text \<open>Motors age: a drive that has not been used for \<open>MLIFE\<close> rounds is flushed and stopped.\<close>

fun age_motors :: "'x flops \<Rightarrow> nat list \<Rightarrow> 'x flop \<Rightarrow> 'x flop option" where
  "age_motors P [] s = Some s"
| "age_motors P (drv # ds) s =
    (if mlives s ! drv \<noteq> 0 then
       let s = set_lives drv (mlives s ! drv - 1) s
       in if mlives s ! drv = 0 then (case flush P drv s of None \<Rightarrow> None | Some s \<Rightarrow> age_motors P ds s) else age_motors P ds s
     else age_motors P ds s)"

text \<open>One round of the loop of \<open>slave\<close> after it has been woken.\<close>

definition slave_round :: "'x flops \<Rightarrow> 'x flop \<Rightarrow> 'x flop option" where
  "slave_round P s =
    (let s = s\<lparr> idle := False \<rparr>
     in case (if fqueue s \<noteq> [] then let (bp, s) = getnext P s in rundevice P bp s else Some s) of
          None \<Rightarrow> None
        | Some s \<Rightarrow> if chkmot s then age_motors P [0..<NDRIVES] (s\<lparr> chkmot := False \<rparr>) else Some s)"

definition slave_sleep :: "'x flop \<Rightarrow> 'x flop" where
  "slave_sleep s = s\<lparr> idle := True \<rparr>"

definition slave_killed :: "'x flops \<Rightarrow> 'x flop \<Rightarrow> 'x flop option" where
  "slave_killed P s = flush_all P [0..<NDRIVES] (s\<lparr> servant := False, idle := False \<rparr>)"

definition chkprod :: "'x flop \<Rightarrow> 'x flop" where
  "chkprod s = s\<lparr> chkmot := True \<rparr>"

section \<open>Open and close\<close>

text \<open>
  \<open>room\<close> says whether \<open>AllocMem\<close> has chip memory, \<open>mem\<close> is what \<open>kmem_alloc\<close> gives. The maid device only makes the calling process the
  servant here; its loop is the steps above. The prompt for a second disk is left out.
\<close>

definition fdopen :: "'x flops \<Rightarrow> bool \<Rightarrow> track list option \<Rightarrow> u32 \<Rightarrow> bool \<Rightarrow> 'x flop \<Rightarrow> errno option \<times> 'x flop" where
  "fdopen P room mem dev fwrite s =
    (if first s \<and> \<not> room then (Some ENOMEM, s)
     else
       let s = (if first s then s\<lparr> first := False, dsk := f_init P (dsk s) \<rparr> else s); drv = dtodrv dev
       in if dmaid dev then (if servant s then (Some ENXIO, s) else (None, s\<lparr> servant := True \<rparr>))
          else if drv \<ge> NDRIVES then (Some ENXIO, s)
          else if nblocks (dtype_of P dev) = 0 then (Some ENXIO, s)
          else
            let (alloc, s) = (if tbc s = [] then tbcinit mem s else (True, s))
            in if \<not> alloc then (Some ENOMEM, s)
               else
                 let (ok, x) = f_ok P drv (dsk s); s = s\<lparr> dsk := x \<rparr>
                 in if \<not> ok then (Some ENXIO, s)
                    else
                      let s = set_lives drv MLIFE s
                      in if fwrite then
                           let (prot, x) = f_wprot P drv (dsk s); s = s\<lparr> dsk := x \<rparr>
                           in if prot then (Some EROFS, set_lives drv 1 s) else (None, s)
                         else (None, s))"

definition fdclose :: "u32 \<Rightarrow> 'x flop \<Rightarrow> 'x flop option" where
  "fdclose dev s =
    (if dmaid dev then Some s
     else if dtodrv dev \<ge> NDRIVES then None
     else Some (if mlives s ! dtodrv dev \<noteq> 0 then set_lives (dtodrv dev) 1 s else s))"

definition fdsize :: "'x flops \<Rightarrow> u32 \<Rightarrow> nat" where
  "fdsize P dev = nblocks (dtype_of P dev)"

end
