(* ===== verification/Floppy_Store.thy ===== *)
theory Floppy_Store
  imports Floppy_Cache "HOL-Library.Multiset"
begin

text \<open>
  What the track buffer cache promises, whatever the format: blocks written are blocks read, over any sequence of requests, evictions
  and flushes. The formats' side of this is the locale \<open>track_store\<close>, the laws of \<open>get\<close> and \<open>put\<close>; inside it, the cache is related to
  the contents of the disks as a user sees them.
\<close>

section \<open>The contents of disks\<close>

text \<open>\<open>Some\<close> contents for the tracks that are known to be formatted.\<close>

type_synonym contents = "nat \<Rightarrow> nat \<Rightarrow> tdata option"

definition put_contents :: "nat \<Rightarrow> nat \<Rightarrow> tdata \<Rightarrow> contents \<Rightarrow> contents" where
  "put_contents d t u A = A(d := (A d)(t := Some u))"

text \<open>A block of a disk with \<open>n\<close> sectors on a track.\<close>

definition read_block :: "nat \<Rightarrow> nat \<Rightarrow> nat \<Rightarrow> nat \<Rightarrow> contents \<times> (nat \<Rightarrow> byte) \<Rightarrow> contents \<times> (nat \<Rightarrow> byte)" where
  "read_block n d buf b v =
    (case v of (A, mem) \<Rightarrow>
       (A, copy_in buf mem (b mod n * BPSEC) (the (A d (b div n)))))"

definition write_block :: "nat \<Rightarrow> nat \<Rightarrow> nat \<Rightarrow> nat \<Rightarrow> contents \<times> (nat \<Rightarrow> byte) \<Rightarrow> contents \<times> (nat \<Rightarrow> byte)" where
  "write_block n d buf b v =
    (case v of (A, mem) \<Rightarrow>
       (put_contents d (b div n) (copy_in (b mod n * BPSEC) (the (A d (b div n))) buf mem) A, mem))"

fun blocks_done :: "(nat \<Rightarrow> nat \<Rightarrow> 'v \<Rightarrow> 'v) \<Rightarrow> nat \<Rightarrow> nat \<Rightarrow> nat \<Rightarrow> 'v \<Rightarrow> 'v" where
  "blocks_done f buf b 0 v = v"
| "blocks_done f buf b (Suc n) v = blocks_done f (buf + BPSEC) (b + 1) n (f buf b v)"

text \<open>What a request for blocks does, and what is left of it when it is done.\<close>

definition request_blocks :: "nat \<Rightarrow> fbuf \<Rightarrow> contents \<times> (nat \<Rightarrow> byte) \<Rightarrow> contents \<times> (nat \<Rightarrow> byte)" where
  "request_blocks n bp =
    blocks_done (if fb_read bp then read_block n (dtodrv (fb_dev bp)) else write_block n (dtodrv (fb_dev bp)))
      (fb_addr bp) (unat (fb_blkno bp)) (unat (fb_bcount bp) div BPSEC)"

definition done_buf :: "fbuf \<Rightarrow> fbuf" where
  "done_buf bp = bp\<lparr> fb_resid := 0, fb_done := True \<rparr>"

definition formatted :: "contents \<Rightarrow> nat \<Rightarrow> bool" where
  "formatted A d \<longleftrightarrow> (\<forall>t < TRACKS. A d t \<noteq> None)"

text \<open>A request for blocks of a formatted disk: format \<open>ty\<close>, with \<open>n\<close> sectors on a track.\<close>

definition dev_ok :: "nat \<Rightarrow> u32 \<Rightarrow> bool" where
  "dev_ok ty dev \<longleftrightarrow> dtodrv dev < NDRIVES \<and> dtotype dev = ty"

definition request_ok :: "nat \<Rightarrow> nat \<Rightarrow> contents \<Rightarrow> fbuf \<Rightarrow> bool" where
  "request_ok ty n A bp \<longleftrightarrow> dev_ok ty (fb_dev bp) \<and> \<not> dfmt (fb_dev bp) \<and> unat (fb_bcount bp) mod BPSEC = 0 \<and>
    unat (fb_blkno bp) + unat (fb_bcount bp) div BPSEC \<le> n * TRACKS \<and> formatted A (dtodrv (fb_dev bp))"

lemma write_formatted: "formatted A d \<Longrightarrow> formatted (fst (write_block n d' buf b (A, mem))) d"
  by (auto simp: formatted_def write_block_def put_contents_def)

lemma read_formatted: "fst (read_block n d' buf b (A, mem)) = A"
  by (simp add: read_block_def)

lemma write_mem: "snd (write_block n d' buf b (A, mem)) = mem"
  by (simp add: write_block_def)

lemma blocks_formatted:
  assumes "\<And>A mem buf b. formatted A d \<Longrightarrow> formatted (fst (f buf b (A, mem))) d"
  shows "formatted (fst v) d \<Longrightarrow> formatted (fst (blocks_done f buf b k v)) d"
proof (induction k arbitrary: buf b v)
  case (Suc k)
  have "formatted (fst (f buf b v)) d" using assms [of "fst v" buf b "snd v"] Suc.prems by simp
  from Suc.IH [OF this] show ?case by simp
qed simp

lemma request_formatted: "formatted (fst v) d \<Longrightarrow> formatted (fst (request_blocks n bp v)) d"
  unfolding request_blocks_def by (rule blocks_formatted) (auto simp: read_formatted write_formatted)

lemma request_ok_later: "request_ok ty n A bp \<Longrightarrow> request_ok ty n (fst (request_blocks n bp' (A, mem))) bp"
  using request_formatted [of "(A, mem)"] by (simp add: request_ok_def)

text \<open>Where a request starts; the queue keeps the order of requests that start on the same track.\<close>

definition start_of :: "nat \<Rightarrow> fbuf \<Rightarrow> nat \<times> nat" where
  "start_of n bp = (dtodrv (fb_dev bp), unat (fb_blkno bp) div n)"

section \<open>Lists of tracks\<close>

definition valid :: "track \<Rightarrow> bool" where
  "valid t \<longleftrightarrow> t_drv t \<noteq> NODRV"

definition key :: "track \<Rightarrow> int \<times> int" where
  "key t = (t_drv t, t_trk t)"

definition drvs :: "track list \<Rightarrow> int set" where
  "drvs ts = t_drv ` set ts"

definition uniq :: "track list \<Rightarrow> bool" where
  "uniq ts \<longleftrightarrow> distinct (map key (filter valid ts))"

lemma unlink_found: "unlink p x xs = (found, r, rest) \<Longrightarrow>
    mset (x # xs) = mset (r # rest) \<and> (found \<longrightarrow> p r) \<and> (\<not> found \<longrightarrow> (\<forall>t \<in> set (x # xs). \<not> p t))"
proof (induction p x xs arbitrary: found r rest rule: unlink.induct)
  case (2 p probe t ts)
  show ?case
  proof (cases "p probe")
    case True
    then show ?thesis using "2.prems" by auto
  next
    case False
    obtain f' r' rest' where u: "unlink p t ts = (f', r', rest')" by (cases "unlink p t ts")
    note ih = "2.IH" [OF False u]
    have "found = f'" "r = r'" "rest = probe # rest'" using "2.prems" False u by simp_all
    then show ?thesis using ih False by (auto simp: add_mset_commute)
  qed
qed auto

lemma mset_uniq: "mset xs = mset ys \<Longrightarrow> uniq xs = uniq ys"
  unfolding uniq_def by (rule mset_eq_imp_distinct_iff) (metis mset_map mset_filter)

lemma uniq_Cons: "uniq (t # ts) \<longleftrightarrow> uniq ts \<and> (valid t \<longrightarrow> (\<forall>e \<in> set ts. valid e \<longrightarrow> key e \<noteq> key t))"
  by (auto simp: uniq_def image_iff)

section \<open>Formats\<close>

locale track_store =
  fixes P :: "'x flops" and ty :: nat and good :: "'x \<Rightarrow> bool" and has :: "'x \<Rightarrow> nat \<Rightarrow> nat \<Rightarrow> tdata \<Rightarrow> bool" and n :: nat
  assumes sectors: "0 < n" "n < 1000" "nsecs (dtypes P ! ty) = n" "nblocks (dtypes P ! ty) = n * TRACKS"
    and has_upto: "has x d t u \<Longrightarrow> (\<And>j. j < n * BPSEC \<Longrightarrow> v j = u j) \<Longrightarrow> has x d t v"
    and get_law: "good x \<Longrightarrow> d < NDRIVES \<Longrightarrow> t < TRACKS \<Longrightarrow>
      \<exists>ok v x'. dt_get (dtypes P ! ty) d t u x = Some (ok, v, x') \<and> good x' \<and> has x' = has x \<and>
        (\<forall>w. has x d t w \<longrightarrow> ok \<and> (\<forall>j < n * BPSEC. v j = w j))"
    and put_law: "good x \<Longrightarrow> d < NDRIVES \<Longrightarrow> t < TRACKS \<Longrightarrow>
      \<exists>ok x'. dt_put (dtypes P ! ty) d t u check x = Some (ok, x') \<and> good x' \<and>
        ((check \<longrightarrow> (\<exists>w. has x d t w)) \<longrightarrow> has x' d t u) \<and> (\<forall>d' t'. (d', t') \<noteq> (d, t) \<longrightarrow> has x' d' t' = has x d' t')"
    and stop_law: "good x \<Longrightarrow> d < NDRIVES \<Longrightarrow> good (f_stop P d x) \<and> has (f_stop P d x) = has x"
begin

text \<open>A track of the cache, against the contents.\<close>

definition entry_ok :: "'x \<Rightarrow> contents \<Rightarrow> track \<Rightarrow> bool" where
  "entry_ok x A e \<longleftrightarrow>
    (if valid e then 0 \<le> t_drv e \<and> t_drv e < int NDRIVES \<and> 0 \<le> t_trk e \<and> t_trk e < int TRACKS \<and> t_type e = ty \<and>
       (\<forall>u. A (nat (t_drv e)) (nat (t_trk e)) = Some u \<longrightarrow>
          (\<forall>j < n * BPSEC. t_data e j = u j) \<and> (\<not> t_dirty e \<longrightarrow> has x (nat (t_drv e)) (nat (t_trk e)) (t_data e)) \<and>
          (t_check e \<longrightarrow> (\<exists>w. has x (nat (t_drv e)) (nat (t_trk e)) w)))
     else t_trk e = NOTRK)"

definition cached :: "track list \<Rightarrow> nat \<Rightarrow> nat \<Rightarrow> bool" where
  "cached ts d t \<longleftrightarrow> (\<exists>e \<in> set ts. key e = (int d, int t))"

definition cache_rel :: "track list \<Rightarrow> 'x \<Rightarrow> contents \<Rightarrow> bool" where
  "cache_rel ts x A \<longleftrightarrow> good x \<and> uniq ts \<and> (\<forall>e \<in> set ts. entry_ok x A e) \<and>
    (\<forall>d < NDRIVES. \<forall>t < TRACKS. \<forall>u. A d t = Some u \<longrightarrow> cached ts d t \<or> has x d t u)"

lemma rel_perm: "mset ts = mset ts' \<Longrightarrow> cache_rel ts x A = cache_rel ts' x A"
  using mset_uniq [of ts ts'] mset_eq_setD [of ts ts'] by (simp add: cache_rel_def cached_def)

lemma entry_key: "entry_ok x A e \<Longrightarrow> valid e \<Longrightarrow> \<exists>d t. d < NDRIVES \<and> t < TRACKS \<and> key e = (int d, int t)"
  by (intro exI [of _ "nat (t_drv e)"] exI [of _ "nat (t_trk e)"]) (auto simp: entry_ok_def key_def)

lemma entry_other:
  assumes "entry_ok x A e" and "key e \<noteq> (int d, int t)" and "\<And>d' t'. (d', t') \<noteq> (d, t) \<Longrightarrow> has x' d' t' = has x d' t'"
    and "\<And>d' t'. (d', t') \<noteq> (d, t) \<Longrightarrow> A' d' t' = A d' t'"
  shows "entry_ok x' A' e"
proof (cases "valid e")
  case True
  then have "0 \<le> t_drv e" "0 \<le> t_trk e" using assms(1) by (simp_all add: entry_ok_def)
  then have ne: "(nat (t_drv e), nat (t_trk e)) \<noteq> (d, t)" using assms(2) by (auto simp: key_def)
  show ?thesis using assms(1) True assms(3) [OF ne] assms(4) [OF ne] by (simp add: entry_ok_def)
qed (use assms(1) in \<open>simp add: entry_ok_def\<close>)

text \<open>Writing a track back, and leaving its place in the cache.\<close>

lemma drop_entry:
  assumes r: "cache_rel (e # ts) x A" and v: "valid e" and k: "key e = (int d, int t)" and d: "d < NDRIVES" "t < TRACKS"
    and x': "good x'" "\<And>d' t'. (d', t') \<noteq> (d, t) \<Longrightarrow> has x' d' t' = has x d' t'" "\<And>u. A d t = Some u \<Longrightarrow> has x' d t u"
  shows "cache_rel ts x' A"
proof -
  note R = r [unfolded cache_rel_def]
  have ne: "key f \<noteq> (int d, int t)" if "f \<in> set ts" for f
  proof (cases "valid f")
    case True
    then show ?thesis using R v k that by (auto simp: uniq_Cons)
  next
    case False
    then have "t_drv f = - 1" by (simp add: valid_def)
    then show ?thesis by (simp add: key_def)
  qed
  have "entry_ok x' A f" if "f \<in> set ts" for f
    by (rule entry_other [OF _ ne [OF that] x'(2)]) (use R that in auto)
  moreover have "cached ts d' t' \<or> has x' d' t' u" if "A d' t' = Some u" "d' < NDRIVES" "t' < TRACKS" for d' t' u
  proof (cases "(d', t') = (d, t)")
    case True
    then show ?thesis using x'(3) that by simp
  next
    case False
    then have "cached (e # ts) d' t' = cached ts d' t'" using k by (auto simp: cached_def)
    then show ?thesis using R that x'(2) [OF False] by auto
  qed
  ultimately show ?thesis using R x'(1) by (auto simp: cache_rel_def uniq_Cons)
qed

lemma rel_invalid: "\<not> valid e \<Longrightarrow> cache_rel (e # ts) x A \<longleftrightarrow> t_trk e = NOTRK \<and> cache_rel ts x A"
  by (auto simp: cache_rel_def cached_def key_def valid_def uniq_Cons entry_ok_def)

lemma put_entry:
  assumes r: "cache_rel (e # ts) x A" and v: "valid e"
  shows "\<exists>ok x'. dt_put (dtypes P ! t_type e) (nat (t_drv e)) (nat (t_trk e)) (t_data e) (t_check e) x = Some (ok, x') \<and>
    cache_rel ts x' A"
proof -
  have e: "entry_ok x A e" "good x" using r by (simp_all add: cache_rel_def)
  then obtain d t where k: "d < NDRIVES" "t < TRACKS" "key e = (int d, int t)" using entry_key v by blast
  then have dt: "nat (t_drv e) = d" "nat (t_trk e) = t" by (auto simp: key_def)
  obtain ok x' where p: "dt_put (dtypes P ! ty) d t (t_data e) (t_check e) x = Some (ok, x')" "good x'"
    "(t_check e \<longrightarrow> (\<exists>w. has x d t w)) \<longrightarrow> has x' d t (t_data e)" "\<And>d' t'. (d', t') \<noteq> (d, t) \<Longrightarrow> has x' d' t' = has x d' t'"
    using put_law [OF e(2) k(1,2), of "t_data e" "t_check e"] by blast
  have h: "has x' d t u" if "A d t = Some u" for u
  proof -
    have "has x' d t (t_data e)" "\<And>j. j < n * BPSEC \<Longrightarrow> t_data e j = u j" using e(1) v that dt p(3) by (simp_all add: entry_ok_def)
    then show ?thesis by (metis has_upto)
  qed
  have "cache_rel ts x' A" by (rule drop_entry [OF r v k(3,1,2) p(2,4) h])
  moreover have "t_type e = ty" using e(1) v by (simp add: entry_ok_def)
  ultimately show ?thesis using p(1) dt by auto
qed

lemma clean_entry:
  assumes r: "cache_rel (e # ts) x A" and "\<not> t_dirty e"
  shows "cache_rel ts x A"
proof (cases "valid e")
  case True
  have e: "entry_ok x A e" "good x" using r by (simp_all add: cache_rel_def)
  then obtain d t where k: "d < NDRIVES" "t < TRACKS" "key e = (int d, int t)" using entry_key True by blast
  then have dt: "nat (t_drv e) = d" "nat (t_trk e) = t" by (auto simp: key_def)
  have h: "has x d t u" if "A d t = Some u" for u
  proof -
    have "has x d t (t_data e)" "\<And>j. j < n * BPSEC \<Longrightarrow> t_data e j = u j" using e(1) True that dt assms(2) by (simp_all add: entry_ok_def)
    then show ?thesis by (metis has_upto)
  qed
  show ?thesis by (rule drop_entry [OF r True k(3,1,2) e(2) _ h]) simp
qed (use r rel_invalid in blast)

text \<open>The view a user has: contents and memory. The rest of the driver's state does not matter for it.\<close>

definition shows_vol :: "'x flop \<Rightarrow> contents \<Rightarrow> bool" where
  "shows_vol s A \<longleftrightarrow> tbc s \<noteq> [] \<and> cache_rel (tbc s) (dsk s) A"

definition same_rest :: "'x flop \<Rightarrow> 'x flop \<Rightarrow> bool" where
  "same_rest s s' \<longleftrightarrow> fqueue s' = fqueue s \<and> servant s' = servant s \<and> finished s' = finished s \<and> fmem s' = fmem s \<and>
    length (mlives s') = length (mlives s)"

lemma lives_fields [simp]: "tbc (set_lives d k s) = tbc s" "dsk (set_lives d k s) = dsk s" "fmem (set_lives d k s) = fmem s"
  "fqueue (set_lives d k s) = fqueue s" "servant (set_lives d k s) = servant s" "finished (set_lives d k s) = finished s"
  "length (mlives (set_lives d k s)) = length (mlives s)" "chkmot (set_lives d k s) = chkmot s"
  by (simp_all add: set_lives_def)

lemma evict:
  assumes "cache_rel (e # ts) (dsk s) A"
  shows "\<exists>s'. write_back P e s = Some s' \<and> cache_rel ts (dsk s') A \<and> tbc s' = tbc s \<and> same_rest s s'"
proof (cases "t_dirty e \<and> t_drv e \<noteq> NODRV \<and> t_trk e \<noteq> NOTRK")
  case True
  then have "valid e" by (simp add: valid_def)
  from put_entry [OF assms this] True show ?thesis by (auto simp: write_back_def same_rest_def)
next
  case False
  have e: "entry_ok (dsk s) A e" using assms by (simp add: cache_rel_def)
  have "\<not> t_dirty e \<or> \<not> valid e" using False e by (auto simp: valid_def entry_ok_def split: if_splits)
  then have "cache_rel ts (dsk s) A" using clean_entry assms rel_invalid by blast
  moreover have "write_back P e s = Some s" using False by (simp only: write_back_def if_False)
  ultimately show ?thesis by (simp add: same_rest_def)
qed

definition loaded :: "track list \<Rightarrow> nat \<Rightarrow> nat \<Rightarrow> contents \<Rightarrow> bool" where
  "loaded ts d t A \<longleftrightarrow> ts \<noteq> [] \<and> key (hd ts) = (int d, int t) \<and> (\<forall>u. A d t = Some u \<longrightarrow> (\<forall>j < n * BPSEC. t_data (hd ts) j = u j))"

lemma cache_add:
  assumes r: "cache_rel ts x A" and no: "\<not> cached ts d t" and dt: "d < NDRIVES" "t < TRACKS" and k: "key e = (int d, int t)"
    and e: "entry_ok x A' e" and A': "\<And>d' t'. (d', t') \<noteq> (d, t) \<Longrightarrow> A' d' t' = A d' t'"
  shows "cache_rel (e # ts) x A'"
proof -
  note R = r [unfolded cache_rel_def]
  have ne: "key f \<noteq> (int d, int t)" if "f \<in> set ts" for f using no that by (auto simp: cached_def)
  have "entry_ok x A' f" if "f \<in> set ts" for f
    by (rule entry_other [OF _ ne [OF that] _ A']) (use R that in auto)
  moreover have "uniq (e # ts)" using R ne k by (auto simp: uniq_Cons)
  moreover have "cached (e # ts) d' t' \<or> has x d' t' u" if "A' d' t' = Some u" "d' < NDRIVES" "t' < TRACKS" for d' t' u
  proof (cases "(d', t') = (d, t)")
    case True
    then show ?thesis using k by (auto simp: cached_def)
  next
    case False
    then show ?thesis using R that A' [OF False] by (auto simp: cached_def)
  qed
  ultimately show ?thesis using R e by (auto simp: cache_rel_def)
qed

lemma load_read:
  assumes r: "cache_rel ts (dsk s) A" and no: "\<not> cached ts (dtodrv dev) t" and d: "dtodrv dev < NDRIVES" and t: "t < TRACKS"
    and dev: "dtotype dev = ty"
  shows "\<exists>ok s'. load P dev t True e ts s = Some (ok, s') \<and> shows_vol s' A \<and> same_rest s s' \<and>
    (A (dtodrv dev) t \<noteq> None \<longrightarrow> ok) \<and> (ok \<longrightarrow> loaded (tbc s') (dtodrv dev) t A)"
proof -
  let ?d = "dtodrv dev"
  have g: "good (dsk s)" using r by (simp add: cache_rel_def)
  obtain ok v x' where gl: "dt_get (dtypes P ! ty) ?d t (t_data e) (dsk s) = Some (ok, v, x')" "good x'" "has x' = has (dsk s)"
    "\<And>w. has (dsk s) ?d t w \<Longrightarrow> ok \<and> (\<forall>j < n * BPSEC. v j = w j)"
    using get_law [OF g d t, of "t_data e"] by blast
  have r': "cache_rel ts x' A" using r gl(2,3) by (simp add: cache_rel_def entry_ok_def cong: if_cong)
  have known: "has x' ?d t u" if "A ?d t = Some u" for u using r no d t that gl(3) by (auto simp: cache_rel_def)
  show ?thesis
  proof (cases ok)
    case True
    define e' where "e' = e\<lparr> t_data := v, t_dirty := False, t_check := True, t_drv := int ?d, t_trk := int t, t_type := ty \<rparr>"
    define s' where "s' = set_lives ?d MLIFE (s\<lparr> dsk := x', tbc := e' # ts \<rparr>)"
    have run: "load P dev t True e ts s = Some (True, s')"
      using gl(1) True dev by (simp add: load_def dtype_of_def Let_def s'_def e'_def set_lives_def)
    have data: "\<forall>j < n * BPSEC. v j = u j" if "A ?d t = Some u" for u using gl(3,4) known [OF that] by simp
    have "has x' ?d t v" if "A ?d t = Some u" for u using has_upto [OF known [OF that]] data [OF that] by blast
    then have "entry_ok x' A e'"
      using d t data by (auto simp: entry_ok_def e'_def valid_def)
    moreover have k: "key e' = (int ?d, int t)" by (simp add: key_def e'_def)
    ultimately have "cache_rel (e' # ts) x' A" using cache_add [OF r' no d t] by blast
    then have "shows_vol s' A" by (simp add: shows_vol_def s'_def)
    moreover have "loaded (tbc s') ?d t A" using k data by (simp add: loaded_def s'_def) (simp add: e'_def)
    ultimately show ?thesis using run by (auto simp: same_rest_def s'_def)
  next
    case False
    define e' where "e' = e\<lparr> t_data := v, t_drv := NODRV, t_trk := NOTRK \<rparr>"
    define s' where "s' = set_lives ?d 1 (s\<lparr> dsk := x', tbc := e' # ts \<rparr>)"
    have run: "load P dev t True e ts s = Some (False, s')"
      using gl(1) False dev by (simp add: load_def dtype_of_def Let_def s'_def e'_def)
    have "cache_rel (e' # ts) x' A" using rel_invalid [of e'] r' by (simp add: e'_def valid_def)
    moreover have "A ?d t = None" using gl(3,4) known False by (cases "A ?d t") auto
    ultimately show ?thesis using run by (auto simp: shows_vol_def same_rest_def s'_def)
  qed
qed

lemma findtrk_read:
  assumes r: "shows_vol s A" and d: "dtodrv dev < NDRIVES" and t: "t < TRACKS" and dev: "dtotype dev = ty"
  shows "\<exists>ok s'. findtrk P dev t True s = Some (ok, s') \<and> shows_vol s' A \<and> same_rest s s' \<and>
    (A (dtodrv dev) t \<noteq> None \<longrightarrow> ok) \<and> (ok \<longrightarrow> loaded (tbc s') (dtodrv dev) t A)"
proof -
  let ?d = "dtodrv dev"
  obtain e es where ts: "tbc s = e # es" using r by (cases "tbc s") (auto simp: shows_vol_def)
  obtain found probe rest where u: "unlink (holds_track dev t) e es = (found, probe, rest)"
    by (cases "unlink (holds_track dev t) e es")
  note uf = unlink_found [OF u]
  have rel: "cache_rel (probe # rest) (dsk s) A" using r rel_perm [of "e # es" "probe # rest"] uf ts by (simp add: shows_vol_def)
  define s1 where "s1 = s\<lparr> tbc := probe # rest \<rparr>"
  show ?thesis
  proof (cases found)
    case True
    then have "holds_track dev t probe" using uf by simp
    then have k: "key probe = (int ?d, int t)" and "valid probe" by (simp_all add: holds_track_def key_def valid_def)
    then have "loaded (tbc s1) ?d t A" using rel by (auto simp: loaded_def s1_def cache_rel_def entry_ok_def key_def)
    moreover have "shows_vol s1 A" using rel by (simp add: shows_vol_def s1_def)
    moreover have "findtrk P dev t True s = Some (True, s1)" using ts u True by (simp add: findtrk_def s1_def)
    ultimately show ?thesis by (auto simp: same_rest_def s1_def)
  next
    case False
    have no: "\<not> cached rest ?d t"
    proof
      assume "cached rest ?d t"
      then obtain f where f: "f \<in> set rest" "key f = (int ?d, int t)" by (auto simp: cached_def)
      then have "valid f" by (simp add: key_def valid_def)
      moreover have "entry_ok (dsk s) A f" using f(1) rel by (simp add: cache_rel_def)
      ultimately have "holds_track dev t f" using f(2) dev by (simp add: entry_ok_def holds_track_def key_def)
      moreover have "f \<in> set (e # es)" using uf f(1) mset_eq_setD [of "e # es" "probe # rest"] by auto
      ultimately show False using uf False by blast
    qed
    obtain s2 where w: "write_back P probe s1 = Some s2" "cache_rel rest (dsk s2) A" "same_rest s1 s2"
      using evict [of probe rest s1 A] rel by (auto simp: s1_def)
    obtain ok s3 where l: "load P dev t True probe rest s2 = Some (ok, s3)" "shows_vol s3 A" "same_rest s2 s3"
      "A ?d t \<noteq> None \<longrightarrow> ok" "ok \<longrightarrow> loaded (tbc s3) ?d t A"
      using load_read [OF w(2) no d t dev] by blast
    have "findtrk P dev t True s = Some (ok, s3)" using ts u False w(1) l(1) by (simp add: findtrk_def s1_def)
    moreover have "same_rest s s3" using w(3) l(3) by (simp add: same_rest_def s1_def)
    ultimately show ?thesis using l by blast
  qed
qed

section \<open>Blocks and requests\<close>

lemma loaded_copy:
  assumes "loaded ts d t A" and "A d t = Some u" and "k < n"
  shows "copy_in buf mem (k * BPSEC) (t_data (hd ts)) = copy_in buf mem (k * BPSEC) u"
proof
  fix a
  have "k * BPSEC + BPSEC \<le> n * BPSEC" using assms(3) by (metis Suc_leI add.commute mult_Suc mult_le_mono1)
  then have "k * BPSEC + (a - buf) < n * BPSEC" if "a < buf + BPSEC" "buf \<le> a" using that by linarith
  then show "copy_in buf mem (k * BPSEC) (t_data (hd ts)) a = copy_in buf mem (k * BPSEC) u a"
    using assms(1,2) by (simp add: copy_in_def loaded_def)
qed

lemma block_bounds: "unat b < n * TRACKS \<Longrightarrow> unat b div n < TRACKS" "(k :: nat) mod n < n"
  using sectors(1) by (simp_all add: less_mult_imp_div_less mult.commute)

lemma dev_type: "dev_ok ty dev \<Longrightarrow> nsecs (dtype_of P dev) = n \<and> nblocks (dtype_of P dev) = n * TRACKS"
  using sectors by (simp add: dev_ok_def dtype_of_def)

lemma read_block_ok:
  assumes r: "shows_vol s A" and dev: "dev_ok ty dev" and b: "unat b < n * TRACKS" and A: "A (dtodrv dev) (unat b div n) \<noteq> None"
  shows "\<exists>s'. fdblock_read P dev buf b s = Some (True, False, s') \<and> shows_vol s' A \<and>
    same_rest (s\<lparr> fmem := snd (read_block n (dtodrv dev) buf (unat b) (A, fmem s)) \<rparr>) s'"
proof -
  have d: "dtodrv dev < NDRIVES" "dtotype dev = ty" using dev by (simp_all add: dev_ok_def)
  obtain u where u: "A (dtodrv dev) (unat b div n) = Some u" using A by blast
  obtain s1 where f: "findtrk P dev (unat b div n) True s = Some (True, s1)" "shows_vol s1 A" "same_rest s s1"
    "loaded (tbc s1) (dtodrv dev) (unat b div n) A"
    using findtrk_read [OF r d(1) block_bounds(1) [OF b] d(2)] A by auto
  define s2 where "s2 = s1\<lparr> fmem := copy_in buf (fmem s1) (unat b mod n * BPSEC) (t_data (hd (tbc s1))) \<rparr>"
  have "fdblock_read P dev buf b s = Some (True, False, s2)"
    using f(1) b dev_type [OF dev] by (simp add: fdblock_read_def Let_def s2_def)
  moreover have "shows_vol s2 A" using f(2) by (simp add: shows_vol_def s2_def)
  moreover have "same_rest (s\<lparr> fmem := snd (read_block n (dtodrv dev) buf (unat b) (A, fmem s)) \<rparr>) s2"
    using f(3) loaded_copy [OF f(4) u block_bounds(2)] u by (simp add: same_rest_def read_block_def s2_def)
  ultimately show ?thesis by blast
qed

lemma set_head:
  assumes r: "cache_rel (e # ts) x A" and k: "key e = (int d, int t)" and dt: "d < NDRIVES" "t < TRACKS" and A: "A d t = Some u"
    and w: "\<And>j. j < n * BPSEC \<Longrightarrow> w j = u' j"
  shows "cache_rel (e\<lparr> t_data := w, t_dirty := True \<rparr> # ts) x (put_contents d t u' A)"
proof -
  let ?e = "e\<lparr> t_data := w, t_dirty := True \<rparr>"
  note R = r [unfolded cache_rel_def]
  have v: "valid e" using k by (simp add: key_def valid_def)
  have ne: "key f \<noteq> (int d, int t)" if "f \<in> set ts" for f
  proof (cases "valid f")
    case True
    then show ?thesis using R v k that by (auto simp: uniq_Cons)
  next
    case False
    then have "t_drv f = - 1" by (simp add: valid_def)
    then show ?thesis by (simp add: key_def)
  qed
  have same: "put_contents d t u' A d' t' = A d' t'" if "(d', t') \<noteq> (d, t)" for d' t'
    using that by (auto simp: put_contents_def)
  have "entry_ok x (put_contents d t u' A) f" if "f \<in> set ts" for f
    by (rule entry_other [OF _ ne [OF that] _ same]) (use R that in auto)
  moreover have "entry_ok x (put_contents d t u' A) ?e"
    using R v k A w by (simp add: entry_ok_def valid_def key_def put_contents_def)
  moreover have "uniq (?e # ts)" using R by (simp add: uniq_Cons valid_def key_def)
  moreover have "cached (?e # ts) d' t' \<or> has x d' t' q" if "put_contents d t u' A d' t' = Some q" "d' < NDRIVES" "t' < TRACKS" for d' t' q
  proof (cases "(d', t') = (d, t)")
    case True
    then show ?thesis using k by (auto simp: cached_def key_def)
  next
    case False
    have "cached (?e # ts) d' t' = cached (e # ts) d' t'" by (simp add: cached_def key_def)
    then show ?thesis using R that same [OF False] by auto
  qed
  ultimately show ?thesis using R by (auto simp: cache_rel_def)
qed

lemma write_block_ok:
  assumes r: "shows_vol s A" and dev: "dev_ok ty dev" and b: "unat b < n * TRACKS" and A: "A (dtodrv dev) (unat b div n) \<noteq> None"
  shows "\<exists>s'. fdblock_write P dev buf b s = Some (True, False, s') \<and>
    shows_vol s' (fst (write_block n (dtodrv dev) buf (unat b) (A, fmem s))) \<and> same_rest s s'"
proof -
  have d: "dtodrv dev < NDRIVES" "dtotype dev = ty" using dev by (simp_all add: dev_ok_def)
  obtain u where u: "A (dtodrv dev) (unat b div n) = Some u" using A by blast
  note t = block_bounds(1) [OF b]
  obtain s1 where f: "findtrk P dev (unat b div n) True s = Some (True, s1)" "shows_vol s1 A" "same_rest s s1"
    "loaded (tbc s1) (dtodrv dev) (unat b div n) A"
    using findtrk_read [OF r d(1) t d(2)] A by auto
  obtain e es where ts: "tbc s1 = e # es" using f(2) by (cases "tbc s1") (auto simp: shows_vol_def)
  define w where "w = copy_in (unat b mod n * BPSEC) (t_data e) buf (fmem s1)"
  define s2 where "s2 = s1\<lparr> tbc := e\<lparr> t_data := w, t_dirty := True \<rparr> # es \<rparr>"
  have run: "fdblock_write P dev buf b s = Some (True, False, s2)"
    using f(1) b dev_type [OF dev] ts by (simp add: fdblock_write_def Let_def s2_def w_def)
  have rel: "cache_rel (e # es) (dsk s1) A" and k: "key e = (int (dtodrv dev), int (unat b div n))"
    using f(2,4) ts by (simp_all add: shows_vol_def loaded_def)
  have "w j = copy_in (unat b mod n * BPSEC) u buf (fmem s) j" if "j < n * BPSEC" for j
    using f(3,4) ts u that by (simp add: w_def copy_in_def loaded_def same_rest_def)
  from set_head [OF rel k d(1) t u this]
  have "shows_vol s2 (fst (write_block n (dtodrv dev) buf (unat b) (A, fmem s)))"
    using u by (simp add: shows_vol_def s2_def write_block_def)
  moreover have "same_rest s s2" using f(3) by (simp add: same_rest_def s2_def)
  ultimately show ?thesis using run by blast
qed

text \<open>What a request leaves alone.\<close>

definition quiet_fl :: "'x flop \<Rightarrow> 'x flop \<Rightarrow> bool" where
  "quiet_fl s s' \<longleftrightarrow> fqueue s' = fqueue s \<and> servant s' = servant s \<and> finished s' = finished s \<and>
    length (mlives s') = length (mlives s)"

lemma run_blocks_ok:
  assumes step: "\<And>s A buf b. shows_vol s A \<Longrightarrow> formatted A d \<Longrightarrow> unat b < n * TRACKS \<Longrightarrow>
      \<exists>s'. func buf b s = Some (True, False, s') \<and> shows_vol s' (fst (f buf (unat b) (A, fmem s))) \<and>
        fmem s' = snd (f buf (unat b) (A, fmem s)) \<and> quiet_fl s s'"
    and form: "\<And>A mem buf b. formatted A d \<Longrightarrow> formatted (fst (f buf b (A, mem))) d"
  shows "shows_vol s A \<Longrightarrow> formatted A d \<Longrightarrow> unat b + k \<le> n * TRACKS \<Longrightarrow>
    \<exists>s'. run_blocks func buf b k s = Some (0, False, s') \<and> shows_vol s' (fst (blocks_done f buf (unat b) k (A, fmem s))) \<and>
      fmem s' = snd (blocks_done f buf (unat b) k (A, fmem s)) \<and> quiet_fl s s' \<and>
      formatted (fst (blocks_done f buf (unat b) k (A, fmem s))) d"
proof (induction k arbitrary: buf b s A)
  case 0
  then show ?case by (simp add: quiet_fl_def)
next
  case (Suc k)
  have b: "unat b < n * TRACKS" using Suc.prems(3) by simp
  obtain s1 where s1: "func buf b s = Some (True, False, s1)" "shows_vol s1 (fst (f buf (unat b) (A, fmem s)))"
    "fmem s1 = snd (f buf (unat b) (A, fmem s))" "quiet_fl s s1"
    using step [OF Suc.prems(1,2) b] by blast
  have next_b: "unat (b + 1) = unat b + 1"
  proof -
    have "unat b + 1 < 4294967296" using b sectors(2) by simp
    then show ?thesis by (simp add: unat_word_ariths)
  qed
  have "unat (b + 1) + k \<le> n * TRACKS" using Suc.prems(3) next_b by simp
  from Suc.IH [OF s1(2) form [OF Suc.prems(2)] this, of "buf + BPSEC"] next_b s1
  show ?case by (auto simp: quiet_fl_def)
qed

lemma rundevice_ok:
  assumes r: "shows_vol s A" and ok: "request_ok ty n A bp"
  shows "\<exists>s'. rundevice P bp s = Some s' \<and> shows_vol s' (fst (request_blocks n bp (A, fmem s))) \<and>
    fmem s' = snd (request_blocks n bp (A, fmem s)) \<and> finished s' = finished s @ [done_buf bp] \<and> fqueue s' = fqueue s \<and>
    servant s' = servant s \<and> length (mlives s') = length (mlives s)"
proof -
  let ?d = "dtodrv (fb_dev bp)"
  note q = ok [unfolded request_ok_def]
  define func where "func = (if fb_read bp then fdblock_read P (fb_dev bp) else fdblock_write P (fb_dev bp))"
  define f where "f = (if fb_read bp then read_block n ?d else write_block n ?d)"
  have step: "\<exists>s'. func buf b s = Some (True, False, s') \<and> shows_vol s' (fst (f buf (unat b) (A, fmem s))) \<and>
        fmem s' = snd (f buf (unat b) (A, fmem s)) \<and> quiet_fl s s'"
    if "shows_vol s A" "formatted A ?d" "unat b < n * TRACKS" for s A buf b
  proof -
    have A: "A ?d (unat b div n) \<noteq> None" using that(2) block_bounds(1) [OF that(3)] by (simp add: formatted_def)
    show ?thesis
    proof (cases "fb_read bp")
      case True
      then show ?thesis using read_block_ok [OF that(1) _ that(3) A, of buf] q
        by (auto simp: func_def f_def read_formatted same_rest_def quiet_fl_def)
    next
      case False
      then show ?thesis using write_block_ok [OF that(1) _ that(3) A, of buf] q
        by (auto simp: func_def f_def write_mem same_rest_def quiet_fl_def)
    qed
  qed
  have form: "formatted (fst (f buf b (A, mem))) ?d" if "formatted A ?d" for A mem buf b
    using that by (simp add: f_def read_formatted write_formatted)
  obtain s1 where s1: "run_blocks func (fb_addr bp) (fb_blkno bp) (unat (fb_bcount bp) div BPSEC) s = Some (0, False, s1)"
    "shows_vol s1 (fst (request_blocks n bp (A, fmem s)))" "fmem s1 = snd (request_blocks n bp (A, fmem s))" "quiet_fl s s1"
    using run_blocks_ok [where func = func and f = f, OF step form r, of "fb_blkno bp" "unat (fb_bcount bp) div BPSEC" "fb_addr bp"] q
    unfolding request_blocks_def f_def [symmetric] by auto
  have "rundevice P bp s = Some (iodone (bp\<lparr> fb_resid := 0 \<rparr>) s1)"
    using q s1(1) by (simp add: rundevice_def func_def)
  then show ?thesis using s1 by (simp add: shows_vol_def iodone_def quiet_fl_def done_buf_def)
qed

text \<open>Flushing a drive puts its tracks on the disk and empties the cache of them.\<close>

lemma flush_loop_ok:
  assumes d: "d < NDRIVES"
  shows "cache_rel (us @ ts) x A \<Longrightarrow> \<exists>vs x'. flush_loop P d ts x = Some (vs, x') \<and> cache_rel (us @ vs) x' A \<and>
    drvs vs \<subseteq> insert NODRV (drvs ts) \<and> int d \<notin> drvs vs \<and> length vs = length ts"
proof (induction ts arbitrary: us x)
  case (Cons e ts)
  have r: "cache_rel (e # us @ ts) x A" using Cons.prems rel_perm [of "us @ e # ts" "e # us @ ts"] by simp
  show ?case
  proof (cases "t_drv e = int d")
    case False
    have "cache_rel ((us @ [e]) @ ts) x A" using Cons.prems by simp
    from Cons.IH [OF this] obtain vs x2 where ih: "flush_loop P d ts x = Some (vs, x2)" "cache_rel (us @ e # vs) x2 A"
      "drvs vs \<subseteq> insert NODRV (drvs ts)" "int d \<notin> drvs vs" "length vs = length ts" by auto
    have dr: "drvs (e # vs) = insert (t_drv e) (drvs vs)" "drvs (e # ts) = insert (t_drv e) (drvs ts)" by (simp_all add: drvs_def)
    have "drvs (e # vs) \<subseteq> insert NODRV (drvs (e # ts)) \<and> int d \<notin> drvs (e # vs)" using ih(3,4) False unfolding dr by auto
    then show ?thesis using ih False by simp
  next
    case True
    then have v: "valid e" by (simp add: valid_def)
    define e' where "e' = e\<lparr> t_drv := NODRV, t_trk := NOTRK \<rparr>"
    obtain ok x1 where p: "(if t_dirty e then dt_put (dtypes P ! t_type e) (nat (t_drv e)) (nat (t_trk e)) (t_data e) (t_check e) x
        else Some (True, x)) = Some (ok, x1)" "cache_rel (us @ ts) x1 A"
      using put_entry [OF r v] clean_entry [OF r] by (cases "t_dirty e") auto
    have "cache_rel (e' # us @ ts) x1 A" using p(2) rel_invalid [of e'] by (simp add: e'_def valid_def)
    then have "cache_rel ((us @ [e']) @ ts) x1 A" using rel_perm [of "(us @ [e']) @ ts" "e' # us @ ts"] by simp
    from Cons.IH [OF this] obtain vs x2 where "flush_loop P d ts x1 = Some (vs, x2)" "cache_rel (us @ e' # vs) x2 A"
      and dr: "drvs vs \<subseteq> insert NODRV (drvs ts)" "int d \<notin> drvs vs" and len: "length vs = length ts" by auto
    moreover have e: "drvs (e' # vs) = insert NODRV (drvs vs)" "drvs (e # ts) = insert (t_drv e) (drvs ts)" by (simp_all add: drvs_def e'_def)
    have "drvs (e' # vs) \<subseteq> insert NODRV (drvs (e # ts)) \<and> int d \<notin> drvs (e' # vs)" using dr unfolding e by auto
    ultimately show ?thesis using True p(1) by (simp add: e'_def)
  qed
qed (simp add: drvs_def)

lemma vol_on_disk: "shows_vol s A \<Longrightarrow> int d \<notin> drvs (tbc s) \<Longrightarrow> d < NDRIVES \<Longrightarrow> t < TRACKS \<Longrightarrow> A d t = Some u \<Longrightarrow> has (dsk s) d t u"
  unfolding shows_vol_def cache_rel_def cached_def key_def drvs_def image_iff by (metis prod.inject)

lemma flush_ok:
  assumes r: "shows_vol s A" and d: "d < NDRIVES"
  shows "\<exists>s'. flush P d s = Some s' \<and> shows_vol s' A \<and> same_rest s s' \<and>
    drvs (tbc s') \<subseteq> insert NODRV (drvs (tbc s)) \<and> int d \<notin> drvs (tbc s')"
proof -
  obtain vs x where f: "flush_loop P d (tbc s) (dsk s) = Some (vs, x)" "cache_rel vs x A"
    "drvs vs \<subseteq> insert NODRV (drvs (tbc s))" "int d \<notin> drvs vs" "length vs = length (tbc s)"
    using flush_loop_ok [OF d, of "[]" "tbc s" "dsk s" A] r unfolding shows_vol_def by auto
  define s' where "s' = s\<lparr> tbc := vs, dsk := f_stop P d x \<rparr>"
  have g: "good x" using f(2) by (simp add: cache_rel_def)
  note st = stop_law [OF g d]
  have "cache_rel vs (f_stop P d x) A" using f(2) st by (simp add: cache_rel_def entry_ok_def cong: if_cong)
  moreover have "vs \<noteq> []" using f(5) r by (auto simp: shows_vol_def)
  moreover have "flush P d s = Some s'" using f(1) by (simp add: flush_def s'_def)
  ultimately show ?thesis using f(3,4) by (simp add: shows_vol_def same_rest_def s'_def)
qed

lemma strategy_ok:
  assumes r: "shows_vol s A" and ok: "request_ok ty n A bp" and no: "\<not> servant s"
  shows "\<exists>s'. fdstrategy P bp s = Some s' \<and> shows_vol s' (fst (request_blocks n bp (A, fmem s))) \<and>
    fmem s' = snd (request_blocks n bp (A, fmem s)) \<and> finished s' = finished s @ [done_buf bp] \<and> \<not> servant s' \<and>
    (\<forall>t u. t < TRACKS \<longrightarrow> fst (request_blocks n bp (A, fmem s)) (dtodrv (fb_dev bp)) t = Some u \<longrightarrow> has (dsk s') (dtodrv (fb_dev bp)) t u)"
proof -
  let ?d = "dtodrv (fb_dev bp)"
  have d: "?d < NDRIVES" using ok by (simp add: request_ok_def dev_ok_def)
  obtain s1 where s1: "rundevice P bp s = Some s1" "shows_vol s1 (fst (request_blocks n bp (A, fmem s)))"
    "fmem s1 = snd (request_blocks n bp (A, fmem s))" "finished s1 = finished s @ [done_buf bp]" "servant s1 = servant s"
    using rundevice_ok [OF r ok] by blast
  obtain s2 where s2: "flush P ?d s1 = Some s2" "shows_vol s2 (fst (request_blocks n bp (A, fmem s)))" "same_rest s1 s2"
    "int ?d \<notin> drvs (tbc s2)"
    using flush_ok [OF s1(2) d] by blast
  have "fdstrategy P bp s = Some (set_lives ?d 0 s2)" using d no s1(1) s2(1) by (simp add: fdstrategy_def Let_def)
  moreover have "has (dsk s2) ?d t u" if "t < TRACKS" "fst (request_blocks n bp (A, fmem s)) ?d t = Some u" for t u
    by (rule vol_on_disk [OF s2(2,4) d that])
  ultimately show ?thesis using s1 s2 no by (simp add: shows_vol_def same_rest_def)
qed

section \<open>The servant\<close>

lemma pick_split: "pick p q = Some (r, rest) \<Longrightarrow> \<exists>pre post. q = pre @ r # post \<and> rest = pre @ post \<and> p r \<and> (\<forall>b \<in> set pre. \<not> p b)"
proof (induction q arbitrary: rest)
  case (Cons b q)
  show ?case
  proof (cases "p b")
    case True
    then show ?thesis using Cons.prems by (intro exI [of _ "[]"] exI [of _ q]) auto
  next
    case False
    then obtain rest' where "pick p q = Some (r, rest')" "rest = b # rest'" using Cons.prems by (auto split: option.splits)
    from Cons.IH [OF this(1)] obtain pre post where "q = pre @ r # post \<and> rest' = pre @ post \<and> p r \<and> (\<forall>b \<in> set pre. \<not> p b)" by blast
    then show ?thesis using False \<open>rest = b # rest'\<close> by (intro exI [of _ "b # pre"] exI [of _ post]) auto
  qed
qed simp

lemma getnext_order:
  assumes "fqueue s \<noteq> []" and "\<forall>b \<in> set (fqueue s). dev_ok ty (fb_dev b)"
  shows "\<exists>pre bp post. fqueue s = pre @ bp # post \<and> getnext P s = (bp, s\<lparr> fqueue := pre @ post \<rparr>) \<and>
    (\<forall>b \<in> set pre. start_of n b \<noteq> start_of n bp)"
proof -
  define p where "p = (\<lambda>b :: fbuf. incache (dtodrv (fb_dev b)) (unat (fb_blkno b) div nsecs (dtype_of P (fb_dev b))) s)"
  show ?thesis
  proof (cases "pick p (fqueue s)")
    case None
    then have "getnext P s = (hd (fqueue s), s\<lparr> fqueue := tl (fqueue s) \<rparr>)" by (simp add: getnext_def p_def)
    then show ?thesis using assms(1) by (intro exI [of _ "[]"] exI [of _ "hd (fqueue s)"] exI [of _ "tl (fqueue s)"]) simp
  next
    case (Some a)
    obtain bp rest where a: "a = (bp, rest)" by (cases a)
    from pick_split [OF Some [unfolded a]] obtain pre post where q: "fqueue s = pre @ bp # post" "rest = pre @ post" "p bp"
      "\<forall>b \<in> set pre. \<not> p b" by blast
    have eq: "p b = p b'" if "start_of n b = start_of n b'" "dev_ok ty (fb_dev b)" "dev_ok ty (fb_dev b')" for b b'
      using that dev_type by (simp add: p_def start_of_def)
    have "start_of n b \<noteq> start_of n bp" if "b \<in> set pre" for b
      using eq [of b bp] q that assms(2) by auto
    moreover have "getnext P s = (bp, s\<lparr> fqueue := pre @ post \<rparr>)" using Some a q(2) by (simp add: getnext_def p_def)
    ultimately show ?thesis using q(1) by blast
  qed
qed

lemma age_motors_ok: "list_all (\<lambda>d. d < NDRIVES) ds \<Longrightarrow> shows_vol s A \<Longrightarrow>
    \<exists>s'. age_motors P ds s = Some s' \<and> shows_vol s' A \<and> same_rest s s'"
proof (induction ds arbitrary: s)
  case Nil
  then show ?case by (simp add: same_rest_def)
next
  case (Cons d ds)
  define s1 where "s1 = set_lives d (mlives s ! d - 1) s"
  have s1: "shows_vol s1 A" "same_rest s s1" using Cons.prems(2) by (simp_all add: s1_def shows_vol_def same_rest_def)
  obtain s2 where f: "flush P d s1 = Some s2" "shows_vol s2 A" "same_rest s1 s2" using flush_ok [OF s1(1), of d] Cons.prems(1) by auto
  have tr: "same_rest s s2" using s1(2) f(3) by (simp add: same_rest_def)
  consider "mlives s ! d = 0" | "mlives s ! d \<noteq> 0" "mlives s1 ! d = 0" | "mlives s ! d \<noteq> 0" "mlives s1 ! d \<noteq> 0" by blast
  then show ?case
  proof cases
    case 1
    then show ?thesis using Cons.IH [OF _ Cons.prems(2)] Cons.prems(1) by simp
  next
    case 2
    have "age_motors P (d # ds) s = age_motors P ds s2" using 2 f(1) by (simp add: s1_def Let_def)
    then show ?thesis using Cons.IH [OF _ f(2)] Cons.prems(1) tr by (auto simp: same_rest_def)
  next
    case 3
    have "age_motors P (d # ds) s = age_motors P ds s1" using 3 by (simp add: s1_def Let_def)
    then show ?thesis using Cons.IH [OF _ s1(1)] Cons.prems(1) s1(2) by (auto simp: same_rest_def)
  qed
qed

text \<open>A round of the servant finishes one request, one that no request before it in the queue starts on the same track with.\<close>

lemma slave_round_ok:
  assumes r: "shows_vol s A" and q: "fqueue s \<noteq> []" and ok: "\<forall>b \<in> set (fqueue s). request_ok ty n A b"
  shows "\<exists>s' pre bp post. fqueue s = pre @ bp # post \<and> (\<forall>b \<in> set pre. start_of n b \<noteq> start_of n bp) \<and>
    slave_round P s = Some s' \<and> fqueue s' = pre @ post \<and> shows_vol s' (fst (request_blocks n bp (A, fmem s))) \<and>
    fmem s' = snd (request_blocks n bp (A, fmem s)) \<and> finished s' = finished s @ [done_buf bp] \<and> servant s' = servant s"
proof -
  define s0 where "s0 = s\<lparr> idle := False \<rparr>"
  have s0: "fqueue s0 \<noteq> []" "\<forall>b \<in> set (fqueue s0). dev_ok ty (fb_dev b)" using q ok by (auto simp: s0_def request_ok_def)
  obtain pre bp post where g: "fqueue s0 = pre @ bp # post" "getnext P s0 = (bp, s0\<lparr> fqueue := pre @ post \<rparr>)"
    "\<forall>b \<in> set pre. start_of n b \<noteq> start_of n bp"
    using getnext_order [OF s0] by blast
  define s1 where "s1 = s0\<lparr> fqueue := pre @ post \<rparr>"
  have "shows_vol s1 A" "request_ok ty n A bp" using r ok g(1) by (simp_all add: s1_def s0_def shows_vol_def)
  from rundevice_ok [OF this] obtain s2 where s2: "rundevice P bp s1 = Some s2" "shows_vol s2 (fst (request_blocks n bp (A, fmem s)))"
    "fmem s2 = snd (request_blocks n bp (A, fmem s))" "finished s2 = finished s @ [done_buf bp]" "fqueue s2 = pre @ post" "servant s2 = servant s"
    by (auto simp: s1_def s0_def)
  have run: "slave_round P s = (if chkmot s2 then age_motors P [0..<NDRIVES] (s2\<lparr> chkmot := False \<rparr>) else Some s2)"
    using q g(2) s2(1) by (simp add: slave_round_def s0_def [symmetric] s1_def [symmetric]) (simp add: s0_def)
  have "shows_vol (s2\<lparr> chkmot := False \<rparr>) (fst (request_blocks n bp (A, fmem s)))" using s2(2) by (simp add: shows_vol_def)
  then obtain s3 where s3: "age_motors P [0..<NDRIVES] (s2\<lparr> chkmot := False \<rparr>) = Some s3"
    "shows_vol s3 (fst (request_blocks n bp (A, fmem s)))" "same_rest (s2\<lparr> chkmot := False \<rparr>) s3"
    using age_motors_ok [of "[0..<NDRIVES]"] by (auto simp: list_all_iff)
  have "\<exists>s'. slave_round P s = Some s' \<and> fqueue s' = pre @ post \<and> shows_vol s' (fst (request_blocks n bp (A, fmem s))) \<and>
    fmem s' = snd (request_blocks n bp (A, fmem s)) \<and> finished s' = finished s @ [done_buf bp] \<and> servant s' = servant s"
    using run s2 s3 by (cases "chkmot s2") (auto simp: same_rest_def)
  moreover have "fqueue s = pre @ bp # post" using g(1) by (simp add: s0_def)
  ultimately show ?thesis using g(3) by blast
qed

end

text \<open>Rounds until the queue is empty: every request is finished, and requests that start on the same track in their order.\<close>

fun slave_rounds :: "'x flops \<Rightarrow> nat \<Rightarrow> 'x flop \<Rightarrow> 'x flop option" where
  "slave_rounds P 0 s = Some s"
| "slave_rounds P (Suc k) s = (case slave_round P s of None \<Rightarrow> None | Some s \<Rightarrow> slave_rounds P k s)"

context track_store
begin

lemma servant_serves:
  "shows_vol s A \<Longrightarrow> \<forall>b \<in> set (fqueue s). request_ok ty n A b \<Longrightarrow>
   \<exists>s' rs. slave_rounds P (length (fqueue s)) s = Some s' \<and> fqueue s' = [] \<and> mset rs = mset (fqueue s) \<and>
     (\<forall>k. filter (\<lambda>b. start_of n b = k) rs = filter (\<lambda>b. start_of n b = k) (fqueue s)) \<and>
     shows_vol s' (fst (fold (request_blocks n) rs (A, fmem s))) \<and> fmem s' = snd (fold (request_blocks n) rs (A, fmem s)) \<and>
     finished s' = finished s @ map done_buf rs"
proof (induction "length (fqueue s)" arbitrary: s A)
  case 0
  then show ?case by (intro exI [of _ s] exI [of _ "[]"]) simp
next
  case (Suc k)
  then have q: "fqueue s \<noteq> []" by auto
  obtain s1 pre bp post where st: "fqueue s = pre @ bp # post" "\<forall>b \<in> set pre. start_of n b \<noteq> start_of n bp"
    "slave_round P s = Some s1" "fqueue s1 = pre @ post" "shows_vol s1 (fst (request_blocks n bp (A, fmem s)))"
    "fmem s1 = snd (request_blocks n bp (A, fmem s))" "finished s1 = finished s @ [done_buf bp]"
    using slave_round_ok [OF Suc.prems(1) q Suc.prems(2)] by blast
  have len: "k = length (fqueue s1)" using Suc.hyps(2) st(1,4) by simp
  have "\<forall>b \<in> set (fqueue s1). request_ok ty n (fst (request_blocks n bp (A, fmem s))) b"
    using Suc.prems(2) st(1,4) by (auto intro: request_ok_later)
  from Suc.hyps(1) [OF len st(5) this] obtain s2 rs where ih: "slave_rounds P k s1 = Some s2" "fqueue s2 = []"
    "mset rs = mset (pre @ post)" "\<And>c. filter (\<lambda>b. start_of n b = c) rs = filter (\<lambda>b. start_of n b = c) (pre @ post)"
    "shows_vol s2 (fst (fold (request_blocks n) rs (request_blocks n bp (A, fmem s))))"
    "fmem s2 = snd (fold (request_blocks n) rs (request_blocks n bp (A, fmem s)))" "finished s2 = finished s1 @ map done_buf rs"
    using len st(4,6) by auto
  have "filter (\<lambda>b. start_of n b = c) (bp # rs) = filter (\<lambda>b. start_of n b = c) (fqueue s)" for c
  proof (cases "start_of n bp = c")
    case True
    then have "filter (\<lambda>b. start_of n b = c) pre = []" using st(2) by (auto simp: filter_empty_conv)
    then show ?thesis using True ih(4) [of c] st(1) by simp
  qed (use ih(4) [of c] st(1) in simp)
  moreover have "slave_rounds P (length (fqueue s)) s = Some s2" using st(3) ih(1) by (simp flip: Suc.hyps(2))
  moreover have "mset (bp # rs) = mset (fqueue s)" using ih(3) st(1) by simp
  ultimately show ?case using ih(2,5-7) st(7) by (intro exI [of _ s2] exI [of _ "bp # rs"]) simp
qed

text \<open>Formatting: a track that is not in the cache starts as zeros, without a check, and is then written block by block.\<close>

lemma findtrk_zero:
  assumes r: "shows_vol s A" and d: "dtodrv dev < NDRIVES" and t: "t < TRACKS" and dev: "dtotype dev = ty"
    and no: "\<not> cached (tbc s) (dtodrv dev) t"
  shows "\<exists>s'. findtrk P dev t False s = Some (True, s') \<and> shows_vol s' (put_contents (dtodrv dev) t (\<lambda>_. 0) A) \<and> same_rest s s'"
proof -
  let ?d = "dtodrv dev" and ?A = "put_contents (dtodrv dev) t (\<lambda>_. 0) A"
  obtain e es where ts: "tbc s = e # es" using r by (cases "tbc s") (auto simp: shows_vol_def)
  obtain found probe rest where u: "unlink (holds_track dev t) e es = (found, probe, rest)"
    by (cases "unlink (holds_track dev t) e es")
  note uf = unlink_found [OF u]
  have sets: "set (e # es) = set (probe # rest)" using uf mset_eq_setD by blast
  have "\<not> holds_track dev t x" if "x \<in> set (e # es)" for x
    using no ts that by (auto simp: cached_def holds_track_def key_def)
  then have nf: "\<not> found" using uf sets by auto
  have rel: "cache_rel (probe # rest) (dsk s) A" using r rel_perm [of "e # es" "probe # rest"] uf ts by (simp add: shows_vol_def)
  define s1 where "s1 = s\<lparr> tbc := probe # rest \<rparr>"
  obtain s2 where w: "write_back P probe s1 = Some s2" "cache_rel rest (dsk s2) A" "same_rest s1 s2"
    using evict [of probe rest s1 A] rel by (auto simp: s1_def)
  define e' where "e' = probe\<lparr> t_data := (\<lambda>_. 0), t_dirty := True, t_check := False, t_drv := int ?d, t_trk := int t, t_type := ty \<rparr>"
  define s3 where "s3 = set_lives ?d MLIFE (s2\<lparr> tbc := e' # rest \<rparr>)"
  have "findtrk P dev t False s = Some (True, s3)"
    using ts u nf w(1) dev by (simp add: findtrk_def load_def Let_def s1_def s3_def e'_def set_lives_def)
  moreover have "cache_rel (e' # rest) (dsk s2) ?A"
  proof (rule cache_add [OF w(2) _ d t])
    show "\<not> cached rest ?d t" using no ts sets by (auto simp: cached_def)
    show "key e' = (int ?d, int t)" by (simp add: key_def e'_def)
    show "entry_ok (dsk s2) ?A e'" using d t by (simp add: entry_ok_def valid_def e'_def put_contents_def)
  qed (auto simp: put_contents_def)
  then have "shows_vol s3 ?A" by (simp add: shows_vol_def s3_def)
  moreover have "same_rest s s3" using w(3) by (simp add: same_rest_def s1_def s3_def)
  ultimately show ?thesis by blast
qed

definition blit :: "nat \<Rightarrow> nat \<Rightarrow> nat \<Rightarrow> (nat \<Rightarrow> byte) \<Rightarrow> tdata \<Rightarrow> tdata" where
  "blit i k buf mem u = (\<lambda>j. if i * BPSEC \<le> j \<and> j < (i + k) * BPSEC then mem (buf + (j - i * BPSEC)) else u j)"

lemma blit_Suc: "blit (i + 1) k (buf + BPSEC) mem (copy_in (i * BPSEC) u buf mem) = blit i (Suc k) buf mem u"
  by (rule ext) (auto simp: blit_def copy_in_def intro!: arg_cong [where f = mem])

lemma put_twice [simp]: "put_contents d t u (put_contents d t v A) = put_contents d t u A"
  by (simp add: put_contents_def)

lemma block_number: "t < TRACKS \<Longrightarrow> i < n \<Longrightarrow> unat (of_nat (t * n + i) :: u32) = t * n + i \<and> t * n + i < n * TRACKS"
proof -
  assume "t < TRACKS" "i < n"
  then have "t * n + i < (t + 1) * n" by simp
  also have "\<dots> \<le> n * TRACKS" using \<open>t < TRACKS\<close> mult_le_mono1 [of "t + 1" TRACKS n] by (simp add: mult.commute)
  finally have "t * n + i < n * TRACKS" .
  moreover from this sectors(2) have "t * n + i < 4294967296" by simp
  ultimately show ?thesis by (simp only: unat_of_nat32)
qed

lemma write_in_track:
  assumes r: "shows_vol s A" and dev: "dev_ok ty dev" and t: "t < TRACKS" and i: "i < n" and u: "A (dtodrv dev) t = Some u"
  shows "\<exists>s'. fdblock_write P dev buf (of_nat (t * n + i)) s = Some (True, False, s') \<and>
    shows_vol s' (put_contents (dtodrv dev) t (copy_in (i * BPSEC) u buf (fmem s)) A) \<and> same_rest s s'"
proof -
  note b = block_number [OF t i]
  have at: "(t * n + i) div n = t" "(t * n + i) mod n = i" using i sectors(1) by simp_all
  have "A (dtodrv dev) (unat (of_nat (t * n + i) :: u32) div n) \<noteq> None" using b at u by simp
  from write_block_ok [OF r dev _ this, of buf] b at u show ?thesis by (simp add: write_block_def)
qed

lemma format_rest:
  assumes dev: "dev_ok ty dev" and t: "t < TRACKS"
  shows "shows_vol s A \<Longrightarrow> A (dtodrv dev) t = Some u \<Longrightarrow> 0 < i \<Longrightarrow> i + k \<le> n \<Longrightarrow>
    \<exists>s'. run_blocks (fdblock_format P dev) buf (of_nat (t * n + i)) k s = Some (0, False, s') \<and>
      shows_vol s' (put_contents (dtodrv dev) t (blit i k buf (fmem s) u) A) \<and> same_rest s s'"
proof (induction k arbitrary: s A u i buf)
  case 0
  have "put_contents (dtodrv dev) t u A = A" using 0(2) by (auto simp: put_contents_def fun_eq_iff)
  moreover have "blit i 0 buf (fmem s) u = u" by (rule ext) (auto simp: blit_def)
  ultimately show ?case using 0(1) by (simp add: same_rest_def)
next
  case (Suc k)
  have i: "i < n" using Suc.prems(4) by simp
  note b = block_number [OF t i]
  obtain s1 where s1: "fdblock_write P dev buf (of_nat (t * n + i)) s = Some (True, False, s1)"
    "shows_vol s1 (put_contents (dtodrv dev) t (copy_in (i * BPSEC) u buf (fmem s)) A)" "same_rest s s1"
    using write_in_track [OF Suc.prems(1) dev t i Suc.prems(2)] by blast
  have fm: "fdblock_format P dev buf (of_nat (t * n + i)) s = Some (True, False, s1)"
    using s1(1) b dev_type [OF dev] i Suc.prems(3) by (simp add: fdblock_format_def Let_def)
  have nb: "(of_nat (t * n + i) :: u32) + 1 = of_nat (t * n + (i + 1))" by simp
  have known: "put_contents (dtodrv dev) t (copy_in (i * BPSEC) u buf (fmem s)) A (dtodrv dev) t = Some (copy_in (i * BPSEC) u buf (fmem s))"
    by (simp add: put_contents_def)
  obtain s2 where s2: "run_blocks (fdblock_format P dev) (buf + BPSEC) (of_nat (t * n + (i + 1))) k s1 = Some (0, False, s2)"
    "shows_vol s2 (put_contents (dtodrv dev) t (blit (i + 1) k (buf + BPSEC) (fmem s1) (copy_in (i * BPSEC) u buf (fmem s)))
      (put_contents (dtodrv dev) t (copy_in (i * BPSEC) u buf (fmem s)) A))" "same_rest s1 s2"
    using Suc.IH [OF s1(2) known, of "i + 1" "buf + BPSEC"] Suc.prems(4) by auto
  have "fmem s1 = fmem s" using s1(3) by (simp add: same_rest_def)
  then have "shows_vol s2 (put_contents (dtodrv dev) t (blit i (Suc k) buf (fmem s) u) A)"
    using s2(2) blit_Suc by simp
  moreover have "run_blocks (fdblock_format P dev) buf (of_nat (t * n + i)) (Suc k) s = Some (0, False, s2)"
    unfolding run_blocks.simps fm using s2(1) by (simp only: nb option.case prod.case simp_thms if_False)
  moreover have "same_rest s s2" using s1(3) s2(3) by (simp add: same_rest_def)
  ultimately show ?case by blast
qed

section \<open>Sequences\<close>

lemma run_strategy: "shows_vol s A \<Longrightarrow> \<not> servant s \<Longrightarrow> list_all (request_ok ty n A) rs \<Longrightarrow>
    \<exists>s'. run (fdstrategy P) rs s = Some s' \<and> shows_vol s' (fst (fold (request_blocks n) rs (A, fmem s))) \<and>
      fmem s' = snd (fold (request_blocks n) rs (A, fmem s)) \<and> finished s' = finished s @ map done_buf rs \<and> \<not> servant s'"
proof (induction rs arbitrary: s A)
  case (Cons bp rs)
  obtain s1 where s1: "fdstrategy P bp s = Some s1" "shows_vol s1 (fst (request_blocks n bp (A, fmem s)))"
    "fmem s1 = snd (request_blocks n bp (A, fmem s))" "finished s1 = finished s @ [done_buf bp]" "\<not> servant s1"
    using strategy_ok [OF Cons.prems(1) _ Cons.prems(2), of bp] Cons.prems(3) by auto
  have "list_all (request_ok ty n (fst (request_blocks n bp (A, fmem s)))) rs"
    using Cons.prems(3) by (auto simp: list_all_iff intro: request_ok_later)
  from Cons.IH [OF s1(2,5) this] s1 show ?case by auto
qed simp

lemma formatted_later: "list_all (request_ok ty n A) rs \<Longrightarrow> request_ok ty n A bp \<Longrightarrow> request_ok ty n (fst (fold (request_blocks n) rs (A, mem))) bp"
proof (induction rs arbitrary: A mem)
  case (Cons r rs)
  let ?v = "request_blocks n r (A, mem)"
  have "list_all (request_ok ty n (fst ?v)) rs" "request_ok ty n (fst ?v) bp"
    using Cons.prems by (auto simp: list_all_iff intro: request_ok_later)
  from Cons.IH [OF this, of "snd ?v"] show ?case by simp
qed simp

lemma run_queue: "servant s \<Longrightarrow> list_all (request_ok ty n A) rs \<Longrightarrow> run (fdstrategy P) rs s = Some (s\<lparr> fqueue := fqueue s @ rs \<rparr>)"
proof (induction rs arbitrary: s)
  case (Cons r rs)
  have "fdstrategy P r s = Some (s\<lparr> fqueue := fqueue s @ [r] \<rparr>)"
    using Cons.prems by (simp add: fdstrategy_def request_ok_def dev_ok_def)
  then show ?case using Cons.IH [of "s\<lparr> fqueue := fqueue s @ [r] \<rparr>"] Cons.prems by simp
qed simp

lemma flush_all_ok: "\<forall>d \<in> set ds. d < NDRIVES \<Longrightarrow> shows_vol s A \<Longrightarrow>
    \<exists>s'. flush_all P ds s = Some s' \<and> shows_vol s' A \<and> drvs (tbc s') \<subseteq> insert NODRV (drvs (tbc s)) \<and>
      (\<forall>d \<in> set ds. int d \<notin> drvs (tbc s'))"
proof (induction ds arbitrary: s)
  case (Cons d ds)
  obtain s1 where s1: "flush P d s = Some s1" "shows_vol s1 A" "drvs (tbc s1) \<subseteq> insert NODRV (drvs (tbc s))" "int d \<notin> drvs (tbc s1)"
    using flush_ok [OF Cons.prems(2), of d] Cons.prems(1) by auto
  obtain s2 where s2: "flush_all P ds s1 = Some s2" "shows_vol s2 A" "drvs (tbc s2) \<subseteq> insert NODRV (drvs (tbc s1))"
    "\<forall>d \<in> set ds. int d \<notin> drvs (tbc s2)"
    using Cons.IH [OF _ s1(2)] Cons.prems(1) by auto
  have "int d \<noteq> NODRV" by simp
  then have "int d \<notin> drvs (tbc s2)" using s1(4) s2(3) by blast
  moreover have "drvs (tbc s2) \<subseteq> insert NODRV (drvs (tbc s))" using s1(3) s2(3) by blast
  ultimately show ?case using s1(1) s2(1,2,4) by simp
qed auto

text \<open>When the servant goes, everything is on the disks.\<close>

lemma slave_killed_ok:
  assumes "shows_vol s A"
  shows "\<exists>s'. slave_killed P s = Some s' \<and> shows_vol s' A \<and>
    (\<forall>d < NDRIVES. \<forall>t < TRACKS. \<forall>u. A d t = Some u \<longrightarrow> has (dsk s') d t u)"
proof -
  have "shows_vol (s\<lparr> servant := False, idle := False \<rparr>) A" using assms by (simp add: shows_vol_def)
  then obtain s' where s': "slave_killed P s = Some s'" "shows_vol s' A" "\<forall>d \<in> set [0..<NDRIVES]. int d \<notin> drvs (tbc s')"
    using flush_all_ok [of "[0..<NDRIVES]" "s\<lparr> servant := False, idle := False \<rparr>"] unfolding slave_killed_def by force
  have "has (dsk s') d t u" if "d < NDRIVES" "t < TRACKS" "A d t = Some u" for d t u
    by (rule vol_on_disk [OF s'(2) _ that]) (use s'(3) that(1) in simp)
  then show ?thesis using s' by blast
qed

lemma fresh_vol:
  assumes "good x" and "ts \<noteq> []" and "\<And>e. e \<in> set ts \<Longrightarrow> t_drv e = NODRV \<and> t_trk e = NOTRK"
    and "\<And>d t u. d < NDRIVES \<Longrightarrow> t < TRACKS \<Longrightarrow> A d t = Some u \<Longrightarrow> has x d t u" and "tbc s = ts" "dsk s = x"
  shows "shows_vol s A"
proof -
  have "filter valid ts = []" using assms(3) by (auto simp: filter_empty_conv valid_def)
  then show ?thesis using assms by (auto simp: shows_vol_def cache_rel_def uniq_def entry_ok_def valid_def)
qed

end

end
