(* ===== verification/Floppy_Format.thy ===== *)
theory Floppy_Format
  imports Floppy_Store
begin

text \<open>
  Formatting through the track buffer cache, for every format that is a \<open>track_store\<close>: a request to the formatting device makes the tracks
  it covers what the memory says, formatted before or not, in the cache or not; and it may stand anywhere between reads and writes.
\<close>

section \<open>Requests with formatting\<close>

definition new_track :: "nat \<Rightarrow> nat \<Rightarrow> (nat \<Rightarrow> byte) \<Rightarrow> tdata" where
  "new_track n buf mem = (\<lambda>j. if j < n * BPSEC then mem (buf + j) else 0)"

fun format_tracks :: "nat \<Rightarrow> nat \<Rightarrow> nat \<Rightarrow> nat \<Rightarrow> nat \<Rightarrow> contents \<times> (nat \<Rightarrow> byte) \<Rightarrow> contents \<times> (nat \<Rightarrow> byte)" where
  "format_tracks n d buf t 0 v = v"
| "format_tracks n d buf t (Suc k) v =
    format_tracks n d (buf + n * BPSEC) (t + 1) k (put_contents d t (new_track n buf (snd v)) (fst v), snd v)"

text \<open>What a request of either kind does to contents and memory, and which requests are served.\<close>

definition serve_blocks :: "nat \<Rightarrow> fbuf \<Rightarrow> contents \<times> (nat \<Rightarrow> byte) \<Rightarrow> contents \<times> (nat \<Rightarrow> byte)" where
  "serve_blocks n bp =
    (if dfmt (fb_dev bp)
     then format_tracks n (dtodrv (fb_dev bp)) (fb_addr bp) (unat (fb_blkno bp) div n) (unat (fb_bcount bp) div (n * BPSEC))
     else request_blocks n bp)"

definition serve_ok :: "nat \<Rightarrow> nat \<Rightarrow> contents \<Rightarrow> fbuf \<Rightarrow> bool" where
  "serve_ok ty n A bp \<longleftrightarrow>
    (if dfmt (fb_dev bp)
     then dev_ok ty (fb_dev bp) \<and> \<not> fb_read bp \<and> unat (fb_bcount bp) mod (n * BPSEC) = 0 \<and> unat (fb_blkno bp) mod n = 0 \<and>
       unat (fb_blkno bp) + unat (fb_bcount bp) div BPSEC \<le> n * TRACKS
     else request_ok ty n A bp)"

fun serves_ok :: "nat \<Rightarrow> nat \<Rightarrow> fbuf list \<Rightarrow> contents \<times> (nat \<Rightarrow> byte) \<Rightarrow> bool" where
  "serves_ok ty n [] v = True"
| "serves_ok ty n (bp # bs) v = (serve_ok ty n (fst v) bp \<and> serves_ok ty n bs (serve_blocks n bp v))"

lemma format_tracks_mem: "snd (format_tracks n d buf t k v) = snd v"
  by (induction n d buf t k v rule: format_tracks.induct) simp_all

text \<open>In closed form: the covered tracks are new, all others as they were.\<close>

lemma format_tracks_at:
  "fst (format_tracks n d buf t k v) d' t' =
    (if d' = d \<and> t \<le> t' \<and> t' < t + k then Some (new_track n (buf + (t' - t) * (n * BPSEC)) (snd v)) else fst v d' t')"
proof (induction n d buf t k v rule: format_tracks.induct)
  case (2 n d buf t k v)
  have "buf + n * BPSEC + (t' - (t + 1)) * (n * BPSEC) = buf + (t' - t) * (n * BPSEC)" if "t < t'"
    using that mult_Suc [of "t' - Suc t" "n * BPSEC"] Suc_diff_Suc [of t t'] by simp
  then show ?case unfolding format_tracks.simps "2.IH" by (auto simp: put_contents_def add.assoc simp del: add_mult_distrib)
qed auto

lemma format_tracks_known:
  "(d' = d \<and> t \<le> t' \<and> t' < t + k \<or> fst v d' t' \<noteq> None) \<Longrightarrow> fst (format_tracks n d buf t k v) d' t' \<noteq> None"
  by (auto simp: format_tracks_at)

lemma run_blocks_append:
  "run_blocks f to b i s = Some (0, False, s1) \<Longrightarrow>
   run_blocks f to b (i + k) s = run_blocks f (to + i * BPSEC) (b + of_nat i) k s1"
proof (induction i arbitrary: to b s)
  case (Suc i)
  then obtain s2 err where "f to b s = Some (True, err, s2)" "run_blocks f (to + BPSEC) (b + 1) i s2 = Some (0, False, s1)"
    by (auto split: option.splits if_splits prod.splits)
  then show ?case using Suc.IH by (simp add: add.assoc)
qed simp

section \<open>Which tracks are in the cache\<close>

text \<open>The places of the tracks in the cache; every operation adds at most the place it is called for.\<close>

definition key_set :: "track list \<Rightarrow> (int \<times> int) set" where
  "key_set ts = key ` {e \<in> set ts. valid e}"

abbreviation places :: "'x flop \<Rightarrow> (int \<times> int) set" where
  "places s \<equiv> key_set (tbc s)"

lemma key_set_simps [simp]:
  "key_set [] = {}"
  "key_set (e # ts) = (if t_drv e = NODRV then key_set ts else insert (key e) (key_set ts))"
  by (auto simp: key_set_def valid_def)

lemma key_set_cong: "set ts = set us \<Longrightarrow> key_set ts = key_set us"
  by (simp add: key_set_def)

lemma write_back_tbc: "write_back P t s = Some s' \<Longrightarrow> tbc s' = tbc s"
  by (auto simp: write_back_def set_lives_def split: if_splits option.splits)

lemma load_places:
  "load P dev t rd probe rest s = Some (ok, s') \<Longrightarrow> tbc s' \<noteq> [] \<and>
    places s' \<subseteq> insert (int (dtodrv dev), int t) (key_set rest)"
  by (auto simp: load_def key_def set_lives_def Let_def split: if_splits option.splits)

lemma findtrk_places:
  assumes "findtrk P dev t rd s = Some (ok, s')"
  shows "tbc s' \<noteq> [] \<and> places s' \<subseteq> insert (int (dtodrv dev), int t) (places s)"
proof -
  obtain e es where ts: "tbc s = e # es" using assms by (cases "tbc s") (auto simp: findtrk_def)
  obtain found probe rest where u: "unlink (holds_track dev t) e es = (found, probe, rest)"
    by (cases "unlink (holds_track dev t) e es")
  have "set (probe # rest) = set (tbc s)" unfolding ts using unlink_found [OF u] mset_eq_setD by metis
  then have sets: "key_set (probe # rest) = places s" by (rule key_set_cong)
  show ?thesis
  proof (cases found)
    case True
    then have "tbc s' = probe # rest" using assms ts u by (auto simp: findtrk_def)
    then show ?thesis using sets by (simp only: list.distinct not_False_eq_True simp_thms subset_insertI)
  next
    case False
    then obtain s1 where "load P dev t rd probe rest s1 = Some (ok, s')"
      using assms ts u by (auto simp: findtrk_def split: option.splits)
    from load_places [OF this] have "tbc s' \<noteq> []" "places s' \<subseteq> insert (int (dtodrv dev), int t) (key_set rest)"
      by blast+
    moreover have "key_set rest \<subseteq> places s" unfolding sets [symmetric] by auto
    ultimately show ?thesis by blast
  qed
qed

text \<open>The place a block belongs to.\<close>

definition block_place :: "'x flops \<Rightarrow> u32 \<Rightarrow> u32 \<Rightarrow> int \<times> int" where
  "block_place P dev b = (int (dtodrv dev), int (unat b div nsecs (dtype_of P dev)))"

lemma read_places:
  assumes "fdblock_read P dev buf b s = Some (ok, err, s')"
  shows "places s' \<subseteq> insert (block_place P dev b) (places s)"
proof (cases "unat b \<ge> nblocks (dtype_of P dev)")
  case True
  then show ?thesis using assms by (auto simp: fdblock_read_def Let_def)
next
  case False
  then obtain ok' s1 where f: "findtrk P dev (unat b div nsecs (dtype_of P dev)) True s = Some (ok', s1)" "tbc s' = tbc s1"
    using assms by (auto simp: fdblock_read_def Let_def split: option.splits if_splits)
  then show ?thesis using findtrk_places [OF f(1)] by (simp add: block_place_def)
qed

lemma write_places:
  assumes "fdblock_write P dev buf b s = Some (ok, err, s')"
  shows "places s' \<subseteq> insert (block_place P dev b) (places s)"
proof (cases "unat b \<ge> nblocks (dtype_of P dev)")
  case True
  then show ?thesis using assms by (auto simp: fdblock_write_def Let_def)
next
  case False
  then obtain ok' s1 where f: "findtrk P dev (unat b div nsecs (dtype_of P dev)) True s = Some (ok', s1)"
    using assms by (auto simp: fdblock_write_def Let_def split: option.splits)
  note p = findtrk_places [OF f]
  then obtain e es where ts: "tbc s1 = e # es" by (cases "tbc s1") auto
  have "places s' = places s1"
    using assms False f ts by (auto simp: fdblock_write_def Let_def key_def split: if_splits)
  then show ?thesis using p by (simp add: block_place_def)
qed

lemma format_places:
  assumes "fdblock_format P dev buf b s = Some (ok, err, s')"
  shows "places s' \<subseteq> insert (block_place P dev b) (places s)"
proof -
  obtain ok' s1 where s1: "places s1 \<subseteq> insert (block_place P dev b) (places s)"
    and w: "fdblock_write P dev buf b s1 = Some (ok, err, s')"
    using assms by (auto simp: fdblock_format_def Let_def block_place_def split: if_splits option.splits dest!: findtrk_places)
  show ?thesis using write_places [OF w] s1 by blast
qed

lemma run_blocks_places:
  assumes f: "\<And>buf b s ok err s'. f buf b s = Some (ok, err, s') \<Longrightarrow> places s' \<subseteq> insert (g b) (places s)"
  shows "run_blocks f buf b k s = Some (r, err, s') \<Longrightarrow> places s' \<subseteq> (\<lambda>i. g (b + of_nat i)) ` {..<k} \<union> places s"
proof (induction k arbitrary: buf b s)
  case (Suc k)
  obtain ok e s1 where s1: "f buf b s = Some (ok, e, s1)" using Suc.prems by (auto split: option.splits)
  note p = f [OF s1]
  have zero: "g b \<in> (\<lambda>i. g (b + of_nat i)) ` {..<Suc k}" by (rule image_eqI [of _ _ 0]) simp_all
  show ?case
  proof (cases ok)
    case False
    then show ?thesis using Suc.prems s1 p zero by auto
  next
    case True
    have "(\<lambda>i. g (b + 1 + of_nat i)) ` {..<k} \<subseteq> (\<lambda>i. g (b + of_nat i)) ` {..<Suc k}"
    proof (rule image_subsetI)
      fix i assume "i \<in> {..<k}"
      then show "g (b + 1 + of_nat i) \<in> (\<lambda>i. g (b + of_nat i)) ` {..<Suc k}"
        by (intro image_eqI [of _ _ "Suc i"]) (simp_all add: add.assoc)
    qed
    moreover have "places s' \<subseteq> (\<lambda>i. g (b + 1 + of_nat i)) ` {..<k} \<union> places s1"
      using Suc.IH [of "buf + BPSEC" "b + 1" s1] Suc.prems s1 True by simp
    ultimately show ?thesis using p zero by blast
  qed
qed simp

lemma rundevice_places:
  assumes "rundevice P bp s = Some s'"
  shows "places s' \<subseteq> (\<lambda>i. block_place P (fb_dev bp) (fb_blkno bp + of_nat i)) ` {..<unat (fb_bcount bp) div BPSEC} \<union> places s"
proof -
  have io: "places (iodone bp' u) = places u" for bp' and u :: "'a flop" by (simp add: iodone_def)
  define func where "func = (if dfmt (fb_dev bp) then fdblock_format P (fb_dev bp)
    else if fb_read bp then fdblock_read P (fb_dev bp) else fdblock_write P (fb_dev bp))"
  have f: "places u' \<subseteq> insert (block_place P (fb_dev bp) b) (places u)" if "func buf b u = Some (ok, err, u')" for buf b u ok err u'
    using that unfolding func_def by (simp split: if_splits add: format_places read_places write_places)
  consider "places s' = places s" | bp' r err s1 where "run_blocks func (fb_addr bp) (fb_blkno bp) (unat (fb_bcount bp) div BPSEC) s = Some (r, err, s1)"
      "s' = iodone bp' s1"
    using assms by (auto simp: rundevice_def func_def [symmetric] Let_def io split: if_splits option.splits)
  then show ?thesis
  proof cases
    case 2
    from run_blocks_places [of func "block_place P (fb_dev bp)", OF f 2(1)] show ?thesis by (simp add: 2(2) io)
  qed blast
qed

lemma flush_loop_places: "flush_loop P d ts x = Some (vs, x') \<Longrightarrow> key_set vs \<subseteq> key_set ts"
proof (induction ts arbitrary: vs x)
  case (Cons e ts)
  obtain us y f where "flush_loop P d ts y = Some (us, x')" "vs = f # us" "t_drv f = NODRV \<or> f = e"
    using Cons.prems by (auto split: if_splits option.splits)
  then show ?case using Cons.IH by auto
qed simp

lemma flush_places: "flush P d s = Some s' \<Longrightarrow> places s' \<subseteq> places s"
  by (auto simp: flush_def split: option.splits dest: flush_loop_places [THEN subsetD])

section \<open>Formatting a track\<close>

context track_store
begin

text \<open>The cache holds only tracks whose contents are known.\<close>

definition knows :: "'x flop \<Rightarrow> contents \<Rightarrow> bool" where
  "knows s A \<longleftrightarrow> (\<forall>d t. (int d, int t) \<in> places s \<longrightarrow> A d t \<noteq> None)"

lemma cached_place: "cached (tbc s) d t \<longleftrightarrow> (int d, int t) \<in> places s"
proof -
  have "valid e" if "key e = (int d, int t)" for e using that by (simp add: valid_def key_def)
  then show ?thesis unfolding cached_def key_set_def image_iff by fastforce
qed

lemma knowsI:
  assumes "knows s A" "places s' \<subseteq> Q \<union> places s" "\<And>d t. A d t \<noteq> None \<Longrightarrow> A' d t \<noteq> None"
    and "\<And>d t. (int d, int t) \<in> Q \<Longrightarrow> A' d t \<noteq> None"
  shows "knows s' A'"
  unfolding knows_def
proof (intro allI impI)
  fix d t assume "(int d, int t) \<in> places s'"
  then have "(int d, int t) \<in> Q \<or> (int d, int t) \<in> places s" using assms(2) by blast
  then show "A' d t \<noteq> None" using assms(1,3,4) by (auto simp: knows_def)
qed

text \<open>Contents matter only up to the size of a track.\<close>

lemma vol_upto:
  assumes r: "shows_vol s (put_contents d t u A)" and eq: "\<And>j. j < n * BPSEC \<Longrightarrow> v j = u j"
  shows "shows_vol s (put_contents d t v A)"
proof -
  let ?A = "put_contents d t u A" and ?B = "put_contents d t v A"
  note R = r [unfolded shows_vol_def cache_rel_def]
  have some: "\<exists>u'. ?A d' t' = Some u' \<and> (\<forall>j < n * BPSEC. w j = u' j)" if "?B d' t' = Some w" for d' t' w
    using that eq by (auto simp: put_contents_def split: if_splits)
  have "entry_ok (dsk s) ?B e" if e: "entry_ok (dsk s) ?A e" for e
  proof (cases "valid e")
    case True
    then show ?thesis using e some [of "nat (t_drv e)" "nat (t_trk e)"] by (auto simp: entry_ok_def)
  qed (use e in \<open>simp add: entry_ok_def\<close>)
  moreover have "cached (tbc s) d' t' \<or> has (dsk s) d' t' w" if "?B d' t' = Some w" "d' < NDRIVES" "t' < TRACKS" for d' t' w
  proof -
    note b = that
    obtain u' where u': "?A d' t' = Some u'" "\<forall>j < n * BPSEC. w j = u' j" using some [OF b(1)] by blast
    then have "cached (tbc s) d' t' \<or> has (dsk s) d' t' u'" using R b(2,3) by blast
    then show ?thesis using u'(2) has_upto by blast
  qed
  ultimately show ?thesis using R by (simp add: shows_vol_def cache_rel_def)
qed

text \<open>A track in the cache is found, with or without reading.\<close>

lemma findtrk_cached:
  assumes r: "shows_vol s A" and c: "cached (tbc s) (dtodrv dev) t" and dev: "dtotype dev = ty"
  shows "findtrk P dev t False s = findtrk P dev t True s"
proof -
  obtain e es where ts: "tbc s = e # es" using r by (cases "tbc s") (auto simp: shows_vol_def)
  obtain found probe rest where u: "unlink (holds_track dev t) e es = (found, probe, rest)"
    by (cases "unlink (holds_track dev t) e es")
  obtain f where f: "f \<in> set (tbc s)" "key f = (int (dtodrv dev), int t)" using c by (auto simp: cached_def)
  then have "entry_ok (dsk s) A f" "valid f" using r by (simp_all add: shows_vol_def cache_rel_def key_def valid_def)
  then have "holds_track dev t f" using f(2) dev by (simp add: entry_ok_def holds_track_def key_def)
  then have found using unlink_found [OF u] f(1) ts by auto
  then show ?thesis using ts u by (simp add: findtrk_def)
qed

lemma findtrk_format:
  assumes r: "shows_vol s A" and dev: "dev_ok ty dev" and t: "t < TRACKS" and k: "knows s A"
  shows "\<exists>s' u. findtrk P dev t False s = Some (True, s') \<and> shows_vol s' (put_contents (dtodrv dev) t u A) \<and> same_rest s s'"
proof -
  have d: "dtodrv dev < NDRIVES" "dtotype dev = ty" using dev by (simp_all add: dev_ok_def)
  show ?thesis
  proof (cases "cached (tbc s) (dtodrv dev) t")
    case False
    then show ?thesis using findtrk_zero [OF r d(1) t d(2)] by blast
  next
    case True
    then obtain u where u: "A (dtodrv dev) t = Some u" using k by (auto simp: knows_def cached_place)
    have A: "put_contents (dtodrv dev) t u A = A" using u by (auto simp: put_contents_def fun_eq_iff)
    obtain s' where "findtrk P dev t True s = Some (True, s')" "shows_vol s' A" "same_rest s s'"
      using findtrk_read [OF r d(1) t d(2)] u by auto
    then show ?thesis using findtrk_cached [OF r True d(2)] A by (intro exI [of _ s'] exI [of _ u]) simp
  qed
qed

lemma format_track:
  assumes r: "shows_vol s A" and dev: "dev_ok ty dev" and t: "t < TRACKS" and k: "knows s A"
  shows "\<exists>s'. run_blocks (fdblock_format P dev) buf (of_nat (t * n)) n s = Some (0, False, s') \<and>
    shows_vol s' (put_contents (dtodrv dev) t (new_track n buf (fmem s)) A) \<and> same_rest s s'"
proof -
  let ?d = "dtodrv dev"
  obtain m where m: "n = Suc m" using sectors(1) by (cases n) auto
  obtain s1 u0 where s1: "findtrk P dev t False s = Some (True, s1)" "shows_vol s1 (put_contents ?d t u0 A)" "same_rest s s1"
    using findtrk_format [OF r dev t k] by blast
  have z: "0 < n" using sectors(1) .
  note b = block_number [OF t z, simplified]
  have at: "(t * n) div n = t" "(t * n) mod n = 0" using z by simp_all
  have known: "put_contents ?d t u0 A ?d t = Some u0" by (simp add: put_contents_def)
  let ?u = "copy_in (0 * BPSEC) u0 buf (fmem s1)"
  obtain s2 where s2: "fdblock_write P dev buf (of_nat (t * n)) s1 = Some (True, False, s2)"
    "shows_vol s2 (put_contents ?d t ?u (put_contents ?d t u0 A))" "same_rest s1 s2"
    using write_in_track [OF s1(2) dev t z known, of buf] by auto
  have fm: "fdblock_format P dev buf (of_nat (t * n)) s = Some (True, False, s2)"
    using s1(1) s2(1) b at dev_type [OF dev] by (simp add: fdblock_format_def Let_def)
  have k2: "put_contents ?d t ?u (put_contents ?d t u0 A) ?d t = Some ?u" by (simp add: put_contents_def)
  obtain s3 where s3: "run_blocks (fdblock_format P dev) (buf + BPSEC) (of_nat (t * n + 1)) m s2 = Some (0, False, s3)"
    "shows_vol s3 (put_contents ?d t (blit 1 m (buf + BPSEC) (fmem s2) ?u) (put_contents ?d t ?u (put_contents ?d t u0 A)))" "same_rest s2 s3"
    using format_rest [OF dev t s2(2) k2, of 1 m "buf + BPSEC"] m by auto
  have mem: "fmem s2 = fmem s" "fmem s1 = fmem s" using s1(3) s2(3) by (simp_all add: same_rest_def)
  have "blit 1 m (buf + BPSEC) (fmem s2) ?u = blit 0 n buf (fmem s) u0"
    using blit_Suc [of 0 m buf "fmem s" u0] mem m by simp
  then have "shows_vol s3 (put_contents ?d t (blit 0 n buf (fmem s) u0) A)" using s3(2) by simp
  then have "shows_vol s3 (put_contents ?d t (new_track n buf (fmem s)) A)"
    by (rule vol_upto) (simp add: blit_def new_track_def)
  moreover have "run_blocks (fdblock_format P dev) buf (of_nat (t * n)) (Suc m) s = Some (0, False, s3)"
    unfolding run_blocks.simps fm using s3(1) by (simp add: add.commute)
  moreover have "same_rest s s3" using s1(3) s2(3) s3(3) by (simp add: same_rest_def)
  ultimately show ?thesis using m by auto
qed

lemma block_place_track:
  assumes "dev_ok ty dev" "unat b + k \<le> n * TRACKS" "i < k"
  shows "block_place P dev (b + of_nat i) = (int (dtodrv dev), int ((unat b + i) div n))"
proof -
  have lt: "unat b + i < n * TRACKS" using assms(2,3) by simp
  then have "unat b + i < 4294967296" using sectors(2) by simp
  moreover from this have "unat (of_nat i :: u32) = i" by (simp add: unat_of_nat32)
  ultimately have "unat (b + of_nat i) = unat b + i" by (simp add: unat_word_ariths)
  then show ?thesis using dev_type [OF assms(1)] by (simp add: block_place_def)
qed

lemma format_many:
  assumes dev: "dev_ok ty dev"
  shows "shows_vol s A \<Longrightarrow> knows s A \<Longrightarrow> t + k \<le> TRACKS \<Longrightarrow>
    \<exists>s'. run_blocks (fdblock_format P dev) buf (of_nat (t * n)) (k * n) s = Some (0, False, s') \<and>
      shows_vol s' (fst (format_tracks n (dtodrv dev) buf t k (A, fmem s))) \<and> same_rest s s'"
proof (induction k arbitrary: s A t buf)
  case 0
  then show ?case by (simp add: same_rest_def)
next
  case (Suc k)
  let ?A = "put_contents (dtodrv dev) t (new_track n buf (fmem s)) A"
  have t: "t < TRACKS" using Suc.prems(3) by simp
  obtain s1 where s1: "run_blocks (fdblock_format P dev) buf (of_nat (t * n)) n s = Some (0, False, s1)" "shows_vol s1 ?A" "same_rest s s1"
    using format_track [OF Suc.prems(1) dev t Suc.prems(2)] by blast
  have bn: "unat (of_nat (t * n) :: u32) = t * n" using block_number [OF t sectors(1)] by simp
  have "t * n + n \<le> n * TRACKS" using t mult_le_mono1 [of "t + 1" TRACKS n] by (simp add: mult.commute)
  then have place: "block_place P dev (of_nat (t * n) + of_nat i) = (int (dtodrv dev), int t)" if "i < n" for i
    using block_place_track [OF dev, of "of_nat (t * n)" n i] that bn by simp
  have "knows s1 ?A"
  proof (rule knowsI [OF Suc.prems(2) run_blocks_places [of "fdblock_format P dev", OF format_places s1(1)]])
    show "?A d' t' \<noteq> None" if "A d' t' \<noteq> None" for d' t' using that by (auto simp: put_contents_def)
    show "?A d' t' \<noteq> None" if "(int d', int t') \<in> (\<lambda>i. block_place P dev (of_nat (t * n) + of_nat i)) ` {..<n}" for d' t'
      using that place by (auto simp: put_contents_def)
  qed
  from Suc.IH [OF s1(2) this, of "t + 1" "buf + n * BPSEC"] Suc.prems(3) obtain s2 where s2:
    "run_blocks (fdblock_format P dev) (buf + n * BPSEC) (of_nat ((t + 1) * n)) (k * n) s1 = Some (0, False, s2)"
    "shows_vol s2 (fst (format_tracks n (dtodrv dev) (buf + n * BPSEC) (t + 1) k (?A, fmem s1)))" "same_rest s1 s2"
    by auto
  have "(of_nat (t * n) :: u32) + of_nat n = of_nat ((t + 1) * n)" by (simp add: algebra_simps)
  then have "run_blocks (fdblock_format P dev) buf (of_nat (t * n)) (Suc k * n) s = Some (0, False, s2)"
    using run_blocks_append [OF s1(1), of "k * n"] s2(1) by (simp only: mult_Suc)
  moreover have "fmem s1 = fmem s" using s1(3) by (simp add: same_rest_def)
  moreover have "same_rest s s2" using s1(3) s2(3) by (simp add: same_rest_def)
  ultimately show ?case using s2(2) by auto
qed

section \<open>Requests of both kinds\<close>

lemma serve_known:
  assumes "serve_ok ty n A bp" "i < unat (fb_bcount bp) div BPSEC"
  shows "fst (serve_blocks n bp (A, mem)) (dtodrv (fb_dev bp)) ((unat (fb_blkno bp) + i) div n) \<noteq> None"
proof (cases "dfmt (fb_dev bp)")
  case True
  define t k where "t = unat (fb_blkno bp) div n" and "k = unat (fb_bcount bp) div (n * BPSEC)"
  have b: "unat (fb_blkno bp) = t * n" and c: "unat (fb_bcount bp) = k * (n * BPSEC)"
    using assms(1) True by (auto simp: serve_ok_def t_def k_def)
  have "i < k * n" using assms(2) c by simp
  then have "(t * n + i) div n < t + k" "t \<le> (t * n + i) div n"
    using sectors(1) by (simp_all add: less_mult_imp_div_less)
  then show ?thesis using True b unfolding serve_blocks_def t_def [symmetric] k_def [symmetric]
    by (simp add: format_tracks_known)
next
  case False
  then have ok: "request_ok ty n A bp" using assms(1) by (simp add: serve_ok_def)
  then have "unat (fb_blkno bp) + i < n * TRACKS" using assms(2) by (simp add: request_ok_def)
  then have "(unat (fb_blkno bp) + i) div n < TRACKS" by (simp add: less_mult_imp_div_less mult.commute)
  moreover have "formatted (fst (request_blocks n bp (A, mem))) (dtodrv (fb_dev bp))"
    using ok by (intro request_formatted) (simp add: request_ok_def)
  ultimately show ?thesis using False by (simp add: serve_blocks_def formatted_def)
qed

lemma blocks_known: "(\<And>v buf b. fst v d' t' \<noteq> None \<Longrightarrow> fst (f buf b v) d' t' \<noteq> None) \<Longrightarrow>
    fst v d' t' \<noteq> None \<Longrightarrow> fst (blocks_done f buf b k v) d' t' \<noteq> None"
  by (induction k arbitrary: buf b v) simp_all

lemma serve_keeps: "A d' t' \<noteq> None \<Longrightarrow> fst (serve_blocks n bp (A, mem)) d' t' \<noteq> None"
proof -
  assume a: "A d' t' \<noteq> None"
  have "fst (request_blocks n bp (A, mem)) d' t' \<noteq> None"
    unfolding request_blocks_def
    by (rule blocks_known) (use a in \<open>auto simp: read_block_def write_block_def put_contents_def split: prod.splits if_splits\<close>)
  then show ?thesis using a format_tracks_known [of d' _ _ t' _ "(A, mem)"] by (simp add: serve_blocks_def)
qed

lemma device_ok:
  assumes r: "shows_vol s A" and k: "knows s A" and ok: "serve_ok ty n A bp"
  shows "\<exists>s'. rundevice P bp s = Some s' \<and> shows_vol s' (fst (serve_blocks n bp (A, fmem s))) \<and>
    knows s' (fst (serve_blocks n bp (A, fmem s))) \<and>
    fmem s' = snd (serve_blocks n bp (A, fmem s)) \<and> finished s' = finished s @ [done_buf bp] \<and> servant s' = servant s"
proof -
  let ?d = "dtodrv (fb_dev bp)" and ?v = "serve_blocks n bp (A, fmem s)"
  have dev: "dev_ok ty (fb_dev bp)" and room: "unat (fb_blkno bp) + unat (fb_bcount bp) div BPSEC \<le> n * TRACKS"
    using ok by (auto simp: serve_ok_def request_ok_def split: if_splits)
  have "\<exists>s'. rundevice P bp s = Some s' \<and> shows_vol s' (fst ?v) \<and> fmem s' = snd ?v \<and> finished s' = finished s @ [done_buf bp] \<and>
      servant s' = servant s"
  proof (cases "dfmt (fb_dev bp)")
    case False
    then show ?thesis using rundevice_ok [OF r] ok by (auto simp: serve_ok_def serve_blocks_def)
  next
    case True
    define t m where "t = unat (fb_blkno bp) div n" and "m = unat (fb_bcount bp) div (n * BPSEC)"
    have b: "unat (fb_blkno bp) = t * n" and c: "unat (fb_bcount bp) = m * (n * BPSEC)" and rd: "\<not> fb_read bp"
      using ok True by (auto simp: serve_ok_def t_def m_def)
    have "(t + m) * n \<le> TRACKS * n" using room b c by (simp add: algebra_simps)
    then have tm: "t + m \<le> TRACKS" using sectors(1) by (metis mult_le_cancel2 not_less_eq not_less_zero)
    have blk: "fb_blkno bp = of_nat (t * n)" unfolding b [symmetric] by simp
    obtain s1 where s1: "run_blocks (fdblock_format P (fb_dev bp)) (fb_addr bp) (of_nat (t * n)) (m * n) s = Some (0, False, s1)"
      "shows_vol s1 (fst (format_tracks n ?d (fb_addr bp) t m (A, fmem s)))" "same_rest s s1"
      using format_many [OF dev r k tm] by blast
    have v: "?v = format_tracks n ?d (fb_addr bp) t m (A, fmem s)" using True by (simp add: serve_blocks_def t_def m_def)
    have "rundevice P bp s = Some (iodone (bp\<lparr> fb_resid := 0 \<rparr>) s1)"
      using True rd c s1(1) blk by (simp add: rundevice_def)
    then show ?thesis using s1(2,3) unfolding v by (simp add: shows_vol_def iodone_def same_rest_def done_buf_def format_tracks_mem)
  qed
  then obtain s' where s': "rundevice P bp s = Some s'" "shows_vol s' (fst ?v)" "fmem s' = snd ?v"
    "finished s' = finished s @ [done_buf bp]" "servant s' = servant s" by blast
  have "knows s' (fst ?v)"
  proof (rule knowsI [OF k rundevice_places [OF s'(1)]])
    show "fst ?v d' t' \<noteq> None" if "A d' t' \<noteq> None" for d' t' using serve_keeps that by blast
    show "fst ?v d' t' \<noteq> None"
      if "(int d', int t') \<in> (\<lambda>i. block_place P (fb_dev bp) (fb_blkno bp + of_nat i)) ` {..<unat (fb_bcount bp) div BPSEC}" for d' t'
      using that block_place_track [OF dev room] serve_known [OF ok] by auto
  qed
  then show ?thesis using s' by blast
qed

lemma strategy_serve:
  assumes r: "shows_vol s A" and k: "knows s A" and ok: "serve_ok ty n A bp" and no: "\<not> servant s"
  shows "\<exists>s'. fdstrategy P bp s = Some s' \<and> shows_vol s' (fst (serve_blocks n bp (A, fmem s))) \<and>
    knows s' (fst (serve_blocks n bp (A, fmem s))) \<and>
    fmem s' = snd (serve_blocks n bp (A, fmem s)) \<and> finished s' = finished s @ [done_buf bp] \<and> \<not> servant s' \<and>
    (\<forall>t u. t < TRACKS \<longrightarrow> fst (serve_blocks n bp (A, fmem s)) (dtodrv (fb_dev bp)) t = Some u \<longrightarrow> has (dsk s') (dtodrv (fb_dev bp)) t u)"
proof -
  let ?d = "dtodrv (fb_dev bp)" and ?A = "fst (serve_blocks n bp (A, fmem s))"
  have d: "?d < NDRIVES" using ok by (auto simp: serve_ok_def request_ok_def dev_ok_def split: if_splits)
  obtain s1 where s1: "rundevice P bp s = Some s1" "shows_vol s1 ?A" "knows s1 ?A"
    "fmem s1 = snd (serve_blocks n bp (A, fmem s))" "finished s1 = finished s @ [done_buf bp]" "servant s1 = servant s"
    using device_ok [OF r k ok] by blast
  obtain s2 where s2: "flush P ?d s1 = Some s2" "shows_vol s2 ?A" "same_rest s1 s2" "int ?d \<notin> drvs (tbc s2)"
    using flush_ok [OF s1(2) d] by blast
  have "fdstrategy P bp s = Some (set_lives ?d 0 s2)" using d no s1(1) s2(1) by (simp add: fdstrategy_def Let_def)
  moreover have "knows (set_lives ?d 0 s2) ?A" using s1(3) flush_places [OF s2(1)] by (auto simp: knows_def)
  moreover have "has (dsk s2) ?d t u" if "t < TRACKS" "?A ?d t = Some u" for t u
    by (rule vol_on_disk [OF s2(2,4) d that])
  ultimately show ?thesis using s1 s2 no by (simp add: shows_vol_def same_rest_def)
qed

lemma run_serve: "shows_vol s A \<Longrightarrow> knows s A \<Longrightarrow> \<not> servant s \<Longrightarrow> serves_ok ty n rs (A, fmem s) \<Longrightarrow>
    \<exists>s'. run (fdstrategy P) rs s = Some s' \<and> shows_vol s' (fst (fold (serve_blocks n) rs (A, fmem s))) \<and>
      knows s' (fst (fold (serve_blocks n) rs (A, fmem s))) \<and>
      fmem s' = snd (fold (serve_blocks n) rs (A, fmem s)) \<and> finished s' = finished s @ map done_buf rs \<and> \<not> servant s'"
proof (induction rs arbitrary: s A)
  case (Cons bp rs)
  let ?v = "serve_blocks n bp (A, fmem s)"
  obtain s1 where s1: "fdstrategy P bp s = Some s1" "shows_vol s1 (fst ?v)" "knows s1 (fst ?v)"
    "fmem s1 = snd ?v" "finished s1 = finished s @ [done_buf bp]" "\<not> servant s1"
    using strategy_serve [OF Cons.prems(1,2) _ Cons.prems(3), of bp] Cons.prems(4) by auto
  from Cons.IH [OF s1(2,3,6)] s1 Cons.prems(4) show ?case by auto
qed simp

end

lemma serves_append: "serves_ok ty n (rs @ qs) v \<longleftrightarrow> serves_ok ty n rs v \<and> serves_ok ty n qs (fold (serve_blocks n) rs v)"
  by (induction rs arbitrary: v) simp_all

end
