(* ===== verification/Floppy_System.thy ===== *)
theory Floppy_System
  imports Floppy_Amiga Floppy_Format
begin

text \<open>
  The floppy driver as a whole: the track buffer cache of \<open>flop.c\<close> on the track functions of \<open>flopf.c\<close> on the drives of \<open>floph.c\<close>. A
  block written through the driver is on the disk, and is read back from there. The functions of the MS-DOS formats are parameters.
\<close>

section \<open>The driver put together\<close>

text \<open>The buffer of a track as bytes and as the \<open>ulong\<close>s the codec stores.\<close>

definition pack :: "tdata \<Rightarrow> long_mem" where
  "pack u i = push_bit 24 (ucast (u (4 * i))) OR push_bit 16 (ucast (u (4 * i + 1))) OR
     push_bit 8 (ucast (u (4 * i + 2))) OR ucast (u (4 * i + 3))"

definition unpack :: "long_mem \<Rightarrow> tdata" where
  "unpack m j = ucast (drop_bit (24 - 8 * (j mod 4)) (m (j div 4)))"

definition aml_get :: "fenv \<Rightarrow> nat \<Rightarrow> nat \<Rightarrow> tdata \<Rightarrow> fdst \<Rightarrow> (bool \<times> tdata \<times> fdst) option" where
  "aml_get E drv trk u x =
    (case x of (s, h) \<Rightarrow>
       case fdgetaml E drv trk (s\<lparr> umem := pack u \<rparr>, h) of
         None \<Rightarrow> None
       | Some (ok, s, h) \<Rightarrow> Some (ok, unpack (umem s), (s, h)))"

definition aml_put :: "fenv \<Rightarrow> nat \<Rightarrow> nat \<Rightarrow> tdata \<Rightarrow> bool \<Rightarrow> fdst \<Rightarrow> (bool \<times> fdst) option" where
  "aml_put E drv trk u check x = (case x of (s, h) \<Rightarrow> fdputaml E drv trk check (s\<lparr> umem := pack u \<rparr>, h))"

record msdos =
  getmsl :: "nat \<Rightarrow> nat \<Rightarrow> tdata \<Rightarrow> fdst \<Rightarrow> (bool \<times> tdata \<times> fdst) option"
  putmsl :: "nat \<Rightarrow> nat \<Rightarrow> tdata \<Rightarrow> bool \<Rightarrow> fdst \<Rightarrow> (bool \<times> fdst) option"
  getmsh :: "nat \<Rightarrow> nat \<Rightarrow> tdata \<Rightarrow> fdst \<Rightarrow> (bool \<times> tdata \<times> fdst) option"
  putmsh :: "nat \<Rightarrow> nat \<Rightarrow> tdata \<Rightarrow> bool \<Rightarrow> fdst \<Rightarrow> (bool \<times> fdst) option"

definition floppy_ops :: "fenv \<Rightarrow> msdos \<Rightarrow> fdst flops" where
  "floppy_ops E M =
    \<lparr> dtypes = dtype_table (aml_get E) (aml_put E) (getmsl M) (putmsl M) (getmsh M) (putmsh M),
      f_init = (\<lambda>(s, h). (s, flinit E h)), f_stop = (\<lambda>d (s, h). (s, flstop E d h)),
      f_ok = (\<lambda>d (s, h). let (ok, h) = flok E d h in (ok, s, h)),
      f_wprot = (\<lambda>d (s, h). let (p, h) = flwprot E d h in (p, s, h)) \<rparr>"

lemma pack_byte:
  assumes "k < 4"
  shows "ucast (drop_bit (24 - 8 * k) (pack u i)) = u (4 * i + k)"
proof -
  consider "k = 0" | "k = 1" | "k = 2" | "k = 3" using assms by linarith
  then show ?thesis
  proof cases
    case 1
    then show ?thesis by (intro bit_word_eqI) (auto simp: pack_def bit_simps dest: bit_imp_le_length)
  next
    case 2
    then show ?thesis by (intro bit_word_eqI) (auto simp: pack_def bit_simps dest: bit_imp_le_length)
  next
    case 3
    then show ?thesis by (intro bit_word_eqI) (auto simp: pack_def bit_simps dest: bit_imp_le_length)
  next
    case 4
    then show ?thesis by (intro bit_word_eqI) (auto simp: pack_def bit_simps dest: bit_imp_le_length)
  qed
qed

lemma unpack_long: "m (j div 4) = pack u (j div 4) \<Longrightarrow> unpack m j = u j"
  using pack_byte [of "j mod 4" u "j div 4"] by (simp add: unpack_def)

lemma unpack_pack [simp]: "unpack (pack u) = u"
  by (rule ext) (rule unpack_long, rule refl)

lemma pack_cong: "(\<And>j. j < 4 * i + 4 \<Longrightarrow> u j = v j) \<Longrightarrow> pack u i = pack v i"
  by (simp add: pack_def)

section \<open>Its formats\<close>

text \<open>What the drives are assumed to do, and when a track of a disk holds the bytes of a buffer.\<close>

definition works :: "mech \<Rightarrow> fenv \<Rightarrow> bool" where
  "works m0 E \<longleftrightarrow> disk_env m0 E \<and> spins_up E \<and> unprotected E"

definition on_disk :: "mech \<Rightarrow> fdst \<Rightarrow> nat \<Rightarrow> nat \<Rightarrow> tdata \<Rightarrow> bool" where
  "on_disk m0 x d t u \<longleftrightarrow> disk_has (mech m0 (snd x)) d t (pack u)"

definition fd_good :: "mech \<Rightarrow> fenv \<Rightarrow> fdst \<Rightarrow> bool" where
  "fd_good m0 E x \<longleftrightarrow> works m0 E \<and> head_inv m0 (snd x)"

lemma track_image_upto:
  assumes "\<And>i. i < 1408 \<Longrightarrow> data' i = data i"
  shows "track_image b trk data' = track_image b trk data"
proof -
  have "longs data' (128 * k) 128 = longs data (128 * k) 128" if "k < NSEC" for k
    unfolding longs_def by (rule map_cong) (use assms that in auto)
  then show ?thesis by (simp add: track_image_def)
qed

lemma on_disk_upto: "on_disk m0 x d t u \<Longrightarrow> (\<And>j. j < 11 * 512 \<Longrightarrow> v j = u j) \<Longrightarrow> on_disk m0 x d t v"
proof -
  assume a: "on_disk m0 x d t u" "\<And>j. j < 11 * 512 \<Longrightarrow> v j = u j"
  have "pack v i = pack u i" if "i < 1408" for i by (rule pack_cong) (use a(2) that in simp)
  from track_image_upto [OF this] show ?thesis using a(1) by (simp add: on_disk_def disk_has_def)
qed

lemma aml_get_law:
  assumes g: "fd_good m0 E x" and d: "d < 4" and t: "t < 160"
  shows "\<exists>ok v x'. aml_get E d t u x = Some (ok, v, x') \<and> fd_good m0 E x' \<and> on_disk m0 x' = on_disk m0 x \<and>
    (\<forall>w. on_disk m0 x d t w \<longrightarrow> ok \<and> (\<forall>j < 11 * 512. v j = w j))"
proof -
  obtain s h where x: "x = (s, h)" by (cases x)
  have E: "disk_env m0 E" "spins_up E" and i: "head_inv m0 h" using g x by (simp_all add: fd_good_def works_def)
  obtain ok s' h' where f: "fdgetaml E d t (s\<lparr> umem := pack u \<rparr>, h) = Some (ok, s', h')" "on_track m0 h h'"
    "\<And>data. disk_has (mech m0 h) d t data \<Longrightarrow> umem s' = (if ok then read_done data (pack u) else pack u) \<and> ok"
    using fdgetaml_effect [OF E(1) i d t, of "s\<lparr> umem := pack u \<rparr>"] E(2) by auto
  have "aml_get E d t u x = Some (ok, unpack (umem s'), (s', h'))" using f(1) by (simp add: aml_get_def x)
  moreover have "fd_good m0 E (s', h')" using g f(2) by (simp add: fd_good_def on_track_def)
  moreover have "on_disk m0 (s', h') = on_disk m0 x" using on_track_disk [OF f(2)] by (simp add: on_disk_def x fun_eq_iff)
  moreover have "ok \<and> (\<forall>j < 11 * 512. unpack (umem s') j = w j)" if "on_disk m0 x d t w" for w
  proof -
    have has: "disk_has (mech m0 h) d t (pack w)" using that by (simp add: on_disk_def x)
    then have ok: ok and um: "umem s' = read_done (pack w) (pack u)" using f(3) by simp_all
    have "unpack (umem s') j = w j" if "j < 11 * 512" for j
    proof (rule unpack_long)
      have "j div 4 < 1408" using that by linarith
      then show "umem s' (j div 4) = pack w (j div 4)" by (simp add: um read_done_def)
    qed
    then show ?thesis using ok by blast
  qed
  ultimately show ?thesis by blast
qed

lemma aml_put_law:
  assumes g: "fd_good m0 E x" and d: "d < 4" and t: "t < 160"
  shows "\<exists>ok x'. aml_put E d t u check x = Some (ok, x') \<and> fd_good m0 E x' \<and>
    ((check \<longrightarrow> (\<exists>w. on_disk m0 x d t w)) \<longrightarrow> on_disk m0 x' d t u) \<and>
    (\<forall>d' t'. (d', t') \<noteq> (d, t) \<longrightarrow> on_disk m0 x' d' t' = on_disk m0 x d' t')"
proof -
  obtain s h where x: "x = (s, h)" by (cases x)
  have E: "disk_env m0 E" "spins_up E" "unprotected E" and i: "head_inv m0 h" using g x by (simp_all add: fd_good_def works_def)
  obtain ok s' h' where f: "fdputaml E d t check (s\<lparr> umem := pack u \<rparr>, h) = Some (ok, s', h')"
    "wrote m0 d t (pack u) ok h h'" "(check \<longrightarrow> (\<exists>data. disk_has (mech m0 h) d t data)) \<longrightarrow> ok"
    using fdputaml_effect [OF E(1) i d t, of check "s\<lparr> umem := pack u \<rparr>"] E(2,3) by auto
  have "aml_put E d t u check x = Some (ok, (s', h'))" using f(1) by (simp add: aml_put_def x)
  moreover have "fd_good m0 E (s', h')" using g f(2) by (simp add: fd_good_def wrote_def)
  moreover have "on_disk m0 (s', h') d t u" if "check \<longrightarrow> (\<exists>w. on_disk m0 x d t w)"
  proof -
    have ok using f(3) that by (auto simp: on_disk_def x)
    then show ?thesis using f(2) by (simp add: wrote_def on_disk_def)
  qed
  moreover have "on_disk m0 (s', h') d' t' = on_disk m0 x d' t'" if "(d', t') \<noteq> (d, t)" for d' t'
    using f(2) that by (simp add: wrote_def on_disk_def x fun_eq_iff)
  ultimately show ?thesis by blast
qed

interpretation amiga: track_store "floppy_ops E M" 0 "fd_good m0 E" "on_disk m0" 11 for m0 E M
proof
  show "(0::nat) < 11" "(11::nat) < 1000" by simp_all
  show "nsecs (dtypes (floppy_ops E M) ! 0) = 11" "nblocks (dtypes (floppy_ops E M) ! 0) = 11 * 160"
    by (simp_all add: floppy_ops_def dtype_table_def)
  show "on_disk m0 x d t v" if "on_disk m0 x d t u" "\<And>j. j < 11 * 512 \<Longrightarrow> v j = u j" for x d t u v
    by (rule on_disk_upto [OF that])
  show "\<exists>ok v x'. dt_get (dtypes (floppy_ops E M) ! 0) d t u x = Some (ok, v, x') \<and> fd_good m0 E x' \<and> on_disk m0 x' = on_disk m0 x \<and>
      (\<forall>w. on_disk m0 x d t w \<longrightarrow> ok \<and> (\<forall>j < 11 * 512. v j = w j))"
    if "fd_good m0 E x" "d < 4" "t < 160" for x d t u
    using aml_get_law [OF that, of u] by (simp add: floppy_ops_def dtype_table_def)
  show "\<exists>ok x'. dt_put (dtypes (floppy_ops E M) ! 0) d t u check x = Some (ok, x') \<and> fd_good m0 E x' \<and>
      ((check \<longrightarrow> (\<exists>w. on_disk m0 x d t w)) \<longrightarrow> on_disk m0 x' d t u) \<and>
      (\<forall>d' t'. (d', t') \<noteq> (d, t) \<longrightarrow> on_disk m0 x' d' t' = on_disk m0 x d' t')"
    if "fd_good m0 E x" "d < 4" "t < 160" for x d t u check
    using aml_put_law [OF that, of u check] by (simp add: floppy_ops_def dtype_table_def)
  show "fd_good m0 E (f_stop (floppy_ops E M) d x) \<and> on_disk m0 (f_stop (floppy_ops E M) d x) = on_disk m0 x"
    if "fd_good m0 E x" "d < 4" for x d
  proof -
    obtain s h where x: "x = (s, h)" by (cases x)
    have "on_track m0 h (flstop E d h)"
      using motor_off_inv [OF disk_port, of m0 E h d] that track_still x by (simp add: flstop_def fd_good_def works_def)
    then show ?thesis using that(1) on_track_disk by (simp add: floppy_ops_def fd_good_def on_disk_def on_track_def x fun_eq_iff)
  qed
qed

section \<open>The driver in use\<close>

text \<open>Disks with these contents are in the drives.\<close>

definition inserted :: "mech \<Rightarrow> contents \<Rightarrow> bool" where
  "inserted m A \<longleftrightarrow> (\<forall>d < NDRIVES. \<forall>t < TRACKS. \<forall>u. A d t = Some u \<longrightarrow> disk_has m d t (pack u))"

lemma inserted_on_disk: "inserted (mech m0 (snd x)) A \<longleftrightarrow> (\<forall>d < NDRIVES. \<forall>t < TRACKS. \<forall>u. A d t = Some u \<longrightarrow> on_disk m0 x d t u)"
  by (simp add: inserted_def on_disk_def)

lemma flinit_media: "m_media (mech m0 (flinit E init_fh)) = m_media m0"
  by (simp add: flinit_def init_fh_def desel_def rd_prb_def Let_def) (simp add: mech_def)

lemma media_inserted: "m_media m = m_media m' \<Longrightarrow> inserted m A = inserted m' A"
  by (simp add: inserted_def disk_has_def)

lemma flok_track: "port_env m0 E \<Longrightarrow> head_inv m0 h \<Longrightarrow> d < 4 \<Longrightarrow> flok E d h = (ok, h') \<Longrightarrow> on_track m0 h h'"
  using motor_on_inv [of m0 E h d ok h'] track_still by (simp add: flok_def)

lemma flwprot_track:
  assumes "port_env m0 E" and "head_inv m0 h" and "d < 4" and "flwprot E d h = (p, h')"
  shows "on_track m0 h h'"
proof -
  have s: "on_track m0 h (select E d h)" using select_inv [OF assms(1-3)] track_still by blast
  have "h' = fput Rpra (select E d h)" using assms(4) by (simp add: flwprot_def rd_pra_def Let_def)
  then show ?thesis using track_fputs [OF s, of Rpra] by auto
qed

text \<open>The first open, of a drive.\<close>

lemma open_ready:
  assumes w: "works m0 E" and mem: "mem \<noteq> []" and A: "inserted m0 A" and no: "\<not> dmaid dev"
    and op: "fdopen (floppy_ops E M) True (Some mem) dev wr (init_flop fm (c, init_fh)) = (None, s)"
  shows "amiga.shows_vol m0 E s A" "\<not> servant s" "fmem s = fm" "finished s = []" "fqueue s = []" "\<not> first s"
    "\<forall>e \<in> set (tbc s). t_drv e = NODRV" "inserted (mech m0 (snd (dsk s))) A"
proof -
  define d where "d = dtodrv dev"
  define h0 where "h0 = flinit E init_fh"
  have E: "disk_env m0 E" "port_env m0 E" using w disk_port by (simp_all add: works_def)
  have i0: "head_inv m0 h0" unfolding h0_def by (rule flinit_inv)
  obtain ok h1 where ok: "flok E d h0 = (ok, h1)" by (cases "flok E d h0")
  obtain p h2 where p: "flwprot E d h1 = (p, h2)" by (cases "flwprot E d h1")
  define ts where "ts = map (\<lambda>t. t\<lparr> t_drv := NODRV, t_trk := NOTRK \<rparr>) mem"
  have d: "d < 4" using op no by (auto simp: fdopen_def init_flop_def d_def Let_def split: if_splits)
  have fin: "finished s = [] \<and> fqueue s = [] \<and> fmem s = fm \<and> \<not> servant s \<and> \<not> first s \<and> tbc s = ts \<and> dsk s = (c, if wr then h2 else h1)"
    using op no ok p d unfolding fdopen_def d_def [symmetric] h0_def
    by (auto simp: init_flop_def Let_def tbcinit_def floppy_ops_def ts_def set_lives_def split: if_splits)
  have t1: "on_track m0 h0 h1" by (rule flok_track [OF E(2) i0 d ok])
  then have "head_inv m0 h1" by (simp add: on_track_def)
  then have t2: "on_track m0 h0 h2" using track_trans [OF t1] flwprot_track [OF E(2) _ d p] by blast
  have t3: "on_track m0 h0 (snd (dsk s))" using t1 t2 fin by simp
  have "m_media (mech m0 (snd (dsk s))) = m_media m0" using t3 flinit_media by (simp add: on_track_def h0_def)
  then show ins: "inserted (mech m0 (snd (dsk s))) A" using A media_inserted by blast
  have good: "fd_good m0 E (dsk s)" using w t3 by (simp add: fd_good_def on_track_def)
  show "amiga.shows_vol m0 E s A"
  proof (rule amiga.fresh_vol [OF good])
    show "on_disk m0 (dsk s) d t u" if "d < 4" "t < 160" "A d t = Some u" for d t u
      using ins that by (simp add: inserted_on_disk)
    show "tbc s = ts" "dsk s = dsk s" "ts \<noteq> []" using fin mem by (simp_all add: ts_def)
  qed (auto simp: ts_def)
  show "\<not> servant s" "fmem s = fm" "finished s = []" "fqueue s = []" "\<not> first s" using fin by simp_all
  show "\<forall>e \<in> set (tbc s). t_drv e = NODRV" using fin by (auto simp: ts_def)
qed

text \<open>
  C2. The floppy device is an array of blocks: with formatted disks in drives that work, any sequence of read and write requests after the
  first open, each for any number of blocks, completes without an error and does to memory and to the contents of the disks just what
  reading and writing blocks of an array does. After the last request its disk has on its tracks what the array says, in the encoding of the codec.
\<close>

theorem floppy_volume:
  assumes "works m0 E" and "mem \<noteq> []" and "inserted m0 A" and "\<not> dmaid dev"
    and "fdopen (floppy_ops E M) True (Some mem) dev wr (init_flop fm (c, init_fh)) = (None, s)"
    and "list_all (request_ok 0 11 A) rs" and "request_ok 0 11 A bp"
  shows "\<exists>s' B. run (fdstrategy (floppy_ops E M)) (rs @ [bp]) s = Some s' \<and> fold (request_blocks 11) (rs @ [bp]) (A, fm) = (B, fmem s') \<and>
    finished s' = map done_buf (rs @ [bp]) \<and>
    (\<forall>t < TRACKS. \<forall>u. B (dtodrv (fb_dev bp)) t = Some u \<longrightarrow> disk_has (mech m0 (snd (dsk s'))) (dtodrv (fb_dev bp)) t (pack u))"
proof -
  note o = open_ready [OF assms(1-5)]
  obtain s1 where s1: "run (fdstrategy (floppy_ops E M)) rs s = Some s1"
    "amiga.shows_vol m0 E s1 (fst (fold (request_blocks 11) rs (A, fm)))" "fmem s1 = snd (fold (request_blocks 11) rs (A, fm))"
    "finished s1 = map done_buf rs" "\<not> servant s1"
    using amiga.run_strategy [OF o(1,2) assms(6)] o(3,4) by auto
  have ok: "request_ok 0 11 (fst (fold (request_blocks 11) rs (A, fm))) bp" by (rule amiga.formatted_later [OF assms(6,7)])
  from amiga.strategy_ok [OF s1(2) ok s1(5)] obtain s2 where s2: "fdstrategy (floppy_ops E M) bp s1 = Some s2"
    "fmem s2 = snd (request_blocks 11 bp (fold (request_blocks 11) rs (A, fm)))" "finished s2 = finished s1 @ [done_buf bp]"
    "\<forall>t u. t < TRACKS \<longrightarrow> fst (request_blocks 11 bp (fold (request_blocks 11) rs (A, fm))) (dtodrv (fb_dev bp)) t = Some u \<longrightarrow>
      on_disk m0 (dsk s2) (dtodrv (fb_dev bp)) t u"
    unfolding s1(3) prod.collapse by blast
  show ?thesis
    by (intro exI [of _ s2] exI [of _ "fst (request_blocks 11 bp (fold (request_blocks 11) rs (A, fm)))"])
      (use s1(1,4) s2 in \<open>simp add: run_append on_disk_def\<close>)
qed

text \<open>
  C9. With the servant process there, requests are queued and carried out out of order, and still every one of them is: as many rounds of the
  servant as there are requests finish them all, without an error, in an order that keeps the order of those that start on the same track, with the
  effect on memory and contents of this order. When the servant is killed all disks have on their tracks what the contents say.
\<close>

theorem floppy_servant:
  assumes "works m0 E" and "mem \<noteq> []" and "inserted m0 A" and "\<not> dmaid dev" and "dmaid maid"
    and "fdopen (floppy_ops E M) True (Some mem) dev wr (init_flop fm (c, init_fh)) = (None, s)"
    and "fdopen (floppy_ops E M) room mem' maid wr' s = (r, s1)" and "list_all (request_ok 0 11 A) rs"
  shows "\<exists>s2 s3 s4 order B. run (fdstrategy (floppy_ops E M)) rs s1 = Some s2 \<and> slave_rounds (floppy_ops E M) (length rs) s2 = Some s3 \<and>
    fqueue s3 = [] \<and> finished s3 = map done_buf order \<and> mset order = mset rs \<and>
    (\<forall>k. filter (\<lambda>b. start_of 11 b = k) order = filter (\<lambda>b. start_of 11 b = k) rs) \<and>
    fold (request_blocks 11) order (A, fm) = (B, fmem s3) \<and>
    slave_killed (floppy_ops E M) s3 = Some s4 \<and> inserted (mech m0 (snd (dsk s4))) B"
proof -
  note o = open_ready [OF assms(1-4,6)]
  have s1: "s1 = s\<lparr> servant := True \<rparr>" using assms(5,7) o(2,6) by (auto simp: fdopen_def split: if_splits)
  then have sv: "servant s1" and v1: "amiga.shows_vol m0 E s1 A" using o(1) by (simp_all add: amiga.shows_vol_def)
  define s2 where "s2 = s1\<lparr> fqueue := rs \<rparr>"
  have q: "run (fdstrategy (floppy_ops E M)) rs s1 = Some s2"
    using amiga.run_queue [OF sv assms(8)] o(5) by (simp add: s2_def s1)
  have v2: "amiga.shows_vol m0 E s2 A" using v1 by (simp add: amiga.shows_vol_def s2_def)
  have f2: "fqueue s2 = rs" "fmem s2 = fm" "finished s2 = []" using o(3,4) by (simp_all add: s2_def s1)
  have "\<forall>b \<in> set (fqueue s2). request_ok 0 11 A b" using assms(8) by (simp add: s2_def list_all_iff)
  from amiga.servant_serves [where M = M, OF v2 this] obtain s3 order where s3: "slave_rounds (floppy_ops E M) (length rs) s2 = Some s3" "fqueue s3 = []"
    "mset order = mset rs" "\<forall>k. filter (\<lambda>b. start_of 11 b = k) order = filter (\<lambda>b. start_of 11 b = k) rs"
    "amiga.shows_vol m0 E s3 (fst (fold (request_blocks 11) order (A, fm)))" "fmem s3 = snd (fold (request_blocks 11) order (A, fm))"
    "finished s3 = map done_buf order"
    unfolding f2 append_Nil by blast
  from amiga.slave_killed_ok [where M = M, OF s3(5)] obtain s4 where s4: "slave_killed (floppy_ops E M) s3 = Some s4"
    "inserted (mech m0 (snd (dsk s4))) (fst (fold (request_blocks 11) order (A, fm)))"
    unfolding inserted_on_disk by blast
  show ?thesis
    by (intro exI [of _ s2] exI [of _ s3] exI [of _ s4] exI [of _ order] exI [of _ "fst (fold (request_blocks 11) order (A, fm))"])
      (use q s3 s4 in simp)
qed

text \<open>
  C29. Formatting among other requests: with drives that work, any sequence of requests after the first open, each a read, a write, or one to the
  formatting device for any number of whole tracks, completes without an error. Reads and writes need a disk whose tracks are all formatted, by then; a
  format needs nothing, it makes its tracks what the memory says, formatted before or not, in the cache or not, and changes no other.
  After the last request its disk has on its tracks what the contents say, in the encoding of the codec.
\<close>

theorem floppy_format:
  assumes "works m0 E" and "mem \<noteq> []" and "inserted m0 A" and "\<not> dmaid dev"
    and "fdopen (floppy_ops E M) True (Some mem) dev wr (init_flop fm (c, init_fh)) = (None, s)"
    and "serves_ok 0 11 (rs @ [bp]) (A, fm)"
  shows "\<exists>s' B. run (fdstrategy (floppy_ops E M)) (rs @ [bp]) s = Some s' \<and> fold (serve_blocks 11) (rs @ [bp]) (A, fm) = (B, fmem s') \<and>
    finished s' = map done_buf (rs @ [bp]) \<and>
    (\<forall>t < TRACKS. \<forall>u. B (dtodrv (fb_dev bp)) t = Some u \<longrightarrow> disk_has (mech m0 (snd (dsk s'))) (dtodrv (fb_dev bp)) t (pack u))"
proof -
  note o = open_ready [OF assms(1-5)]
  have "key_set (tbc s) = {}" using o(7) by (auto simp: key_set_def valid_def)
  then have k: "amiga.knows s A" by (simp add: amiga.knows_def)
  have oks: "serves_ok 0 11 rs (A, fmem s)" "serve_ok 0 11 (fst (fold (serve_blocks 11) rs (A, fm))) bp"
    using assms(6) o(3) by (simp_all add: serves_append)
  obtain s1 where s1: "run (fdstrategy (floppy_ops E M)) rs s = Some s1"
    "amiga.shows_vol m0 E s1 (fst (fold (serve_blocks 11) rs (A, fm)))" "amiga.knows s1 (fst (fold (serve_blocks 11) rs (A, fm)))"
    "fmem s1 = snd (fold (serve_blocks 11) rs (A, fm))" "finished s1 = map done_buf rs" "\<not> servant s1"
    using amiga.run_serve [OF o(1) k o(2) oks(1)] o(3,4) by auto
  from amiga.strategy_serve [where M = M, OF s1(2,3) oks(2) s1(6)] obtain s2 where s2: "fdstrategy (floppy_ops E M) bp s1 = Some s2"
    "fmem s2 = snd (serve_blocks 11 bp (fold (serve_blocks 11) rs (A, fm)))" "finished s2 = finished s1 @ [done_buf bp]"
    "\<forall>t u. t < TRACKS \<longrightarrow> fst (serve_blocks 11 bp (fold (serve_blocks 11) rs (A, fm))) (dtodrv (fb_dev bp)) t = Some u \<longrightarrow>
      on_disk m0 (dsk s2) (dtodrv (fb_dev bp)) t u"
    unfolding s1(4) prod.collapse by blast
  show ?thesis
    by (intro exI [of _ s2] exI [of _ "fst (serve_blocks 11 bp (fold (serve_blocks 11) rs (A, fm)))"])
      (use s1(1,5) s2 in \<open>simp add: run_append on_disk_def\<close>)
qed

section \<open>Instances\<close>

text \<open>Four disks whose tracks hold zeros.\<close>

definition zero_track :: "nat \<Rightarrow> u16 list" where
  "zero_track t = map (chip (encode_track (demo_fl (\<lambda>_. 0) (\<lambda>_. 0) (of_nat t)))) [0..<TRKWLEN div 2]"

definition zero_disks :: mech where
  "zero_disks = \<lparr> m_prb = 0, m_head = (\<lambda>_. 40), m_media = (\<lambda>(d, c, sd). Some (zero_track (2 * c + of_bool sd))) \<rparr>"

definition zeros :: contents where
  "zeros d t = Some (\<lambda>_. 0)"

definition no_msdos :: msdos where
  "no_msdos = \<lparr> getmsl = (\<lambda>_ _ _ _. None), putmsl = (\<lambda>_ _ _ _ _. None), getmsh = (\<lambda>_ _ _ _. None), putmsh = (\<lambda>_ _ _ _ _. None) \<rparr>"

lemma zero_pack: "pack (\<lambda>_. 0) = (\<lambda>_. 0)"
  by (rule ext) (simp add: pack_def)

lemma zero_has: "disk_has zero_disks d t (\<lambda>_. 0)"
proof -
  have t: "2 * (t div 2) + of_bool (t mod 2 \<noteq> 0) = t" by (simp add: of_bool_def) presburger
  have "writes_image (encode_track (demo_fl (\<lambda>_. 0) (\<lambda>_. 0) (of_nat t))) t (\<lambda>_. 0)"
    using encode_image [of "demo_fl (\<lambda>_. 0) (\<lambda>_. 0) (of_nat t)" t] by simp
  then have "track_image (words_bits (zero_track t)) (of_nat t) (\<lambda>_. 0)" by (simp add: writes_image_def zero_track_def)
  moreover have "m_media zero_disks (d, t div 2, t mod 2 \<noteq> 0) = Some (zero_track t)"
    by (simp only: zero_disks_def mech.simps prod.case t)
  ultimately show ?thesis unfolding disk_has_def by (simp add: zero_track_def)
qed

lemma zero_works: "works zero_disks (model_env zero_disks)"
  by (simp add: works_def model_env_ready) (rule model_env_disk, simp add: heads_in_def zero_disks_def)

lemma zero_inserted: "inserted zero_disks zeros"
  by (simp add: inserted_def zeros_def zero_pack zero_has)

definition some_track :: track where
  "some_track = \<lparr> t_drv = 7, t_trk = 0, t_type = 0, t_dirty = True, t_check = False, t_data = (\<lambda>_. 0) \<rparr>"

lemma model_open: "\<exists>s. fdopen (floppy_ops (model_env m0) no_msdos) True (Some (replicate 10 some_track)) 0 False
    (init_flop of_nat (demo_fl (\<lambda>_. 0) (\<lambda>_. 0) 0, init_fh)) = (None, s)"
proof -
  obtain ok h where ok: "flok (model_env m0) 0 (flinit (model_env m0) init_fh) = (ok, h)"
    by (cases "flok (model_env m0) 0 (flinit (model_env m0) init_fh)")
  have "ok" using ok motor_on_works [OF model_env_ready(1)] by (simp add: flok_def)
  then show ?thesis using ok
    by (simp add: fdopen_def init_flop_def dmaid_def dtodrv_def dtotype_def dtype_of_def floppy_ops_def dtype_table_def tbcinit_def Let_def)
qed

text \<open>A request for blocks of drive 0.\<close>

definition demo_buf :: "u32 \<Rightarrow> bool \<Rightarrow> u32 \<Rightarrow> nat \<Rightarrow> nat \<Rightarrow> fbuf" where
  "demo_buf dev rd b k a = \<lparr> fb_dev = dev, fb_blkno = b, fb_bcount = of_nat (512 * k), fb_read = rd, fb_error = False, fb_addr = a,
     fb_resid = 0, fb_done = False \<rparr>"

lemma demo_count: "k \<le> 1760 \<Longrightarrow> unat (fb_bcount (demo_buf dev rd b k a)) = 512 * k"
  unfolding demo_buf_def fbuf.simps by (rule unat_of_nat32) simp

lemma demo_ok: "unat b + k \<le> 1760 \<Longrightarrow> request_ok 0 11 zeros (demo_buf 0 rd b k a)"
  by (simp add: request_ok_def demo_count) (simp add: demo_buf_def dev_ok_def dtodrv_def dtotype_def dfmt_def formatted_def zeros_def)

lemma demo_request: "k \<le> 1760 \<Longrightarrow>
    request_blocks 11 (demo_buf 0 rd b k a) = blocks_done (if rd then read_block 11 0 else write_block 11 0) a (unat b) k"
  by (simp add: request_blocks_def demo_count) (simp add: demo_buf_def dtodrv_def)

lemma blocks_done_numeral:
  "blocks_done f buf b (numeral k) v = blocks_done f (buf + 512) (b + 1) (pred_numeral k) (f buf b v)"
  by (simp add: numeral_eq_Suc)

text \<open>Blocks 10 to 12 are written, across the end of track 0; blocks 11 and 12 are read elsewhere.\<close>

lemma demo_effect: "snd (fold (request_blocks 11) [demo_buf 0 False 10 3 5000, demo_buf 0 True 11 2 100000] (zeros, of_nat)) 100001 = of_nat 5513"
  by (simp add: demo_request blocks_done_numeral read_block_def write_block_def put_contents_def copy_in_def zeros_def)

theorem floppy_volume_witness:
  "\<exists>s s'. fdopen (floppy_ops (model_env zero_disks) no_msdos) True (Some (replicate 10 some_track)) 0 False
      (init_flop of_nat (demo_fl (\<lambda>_. 0) (\<lambda>_. 0) 0, init_fh)) = (None, s) \<and>
    run (fdstrategy (floppy_ops (model_env zero_disks) no_msdos)) [demo_buf 0 False 10 3 5000, demo_buf 0 True 11 2 100000] s = Some s' \<and>
    fmem s' 100001 = of_nat 5513 \<and> length (finished s') = 2"
proof -
  let ?P = "floppy_ops (model_env zero_disks) no_msdos" and ?rs = "[demo_buf 0 False 10 3 5000]" and ?bp = "demo_buf 0 True 11 2 100000"
  obtain s where s: "fdopen ?P True (Some (replicate 10 some_track)) 0 False (init_flop of_nat (demo_fl (\<lambda>_. 0) (\<lambda>_. 0) 0, init_fh)) = (None, s)"
    using model_open by blast
  have "\<exists>s' B. run (fdstrategy ?P) (?rs @ [?bp]) s = Some s' \<and> fold (request_blocks 11) (?rs @ [?bp]) (zeros, of_nat) = (B, fmem s') \<and>
    finished s' = map done_buf (?rs @ [?bp]) \<and>
    (\<forall>t < TRACKS. \<forall>u. B (dtodrv (fb_dev ?bp)) t = Some u \<longrightarrow> disk_has (mech zero_disks (snd (dsk s'))) (dtodrv (fb_dev ?bp)) t (pack u))"
    by (rule floppy_volume [OF zero_works _ zero_inserted _ s]) (simp_all add: demo_ok dmaid_def)
  then obtain s' B where r: "run (fdstrategy ?P) (?rs @ [?bp]) s = Some s'" "fold (request_blocks 11) (?rs @ [?bp]) (zeros, of_nat) = (B, fmem s')"
    "finished s' = map done_buf (?rs @ [?bp])" by blast
  have "fmem s' 100001 = of_nat 5513" using demo_effect r(2) by simp
  then show ?thesis using s r(1,3) by auto
qed

theorem floppy_servant_witness:
  "\<exists>s s1 s2 s3. fdopen (floppy_ops (model_env zero_disks) no_msdos) True (Some (replicate 10 some_track)) 0 False
      (init_flop of_nat (demo_fl (\<lambda>_. 0) (\<lambda>_. 0) 0, init_fh)) = (None, s) \<and>
    fdopen (floppy_ops (model_env zero_disks) no_msdos) True None 0xFF False s = (None, s1) \<and>
    run (fdstrategy (floppy_ops (model_env zero_disks) no_msdos)) [demo_buf 0 False 11 3 5000, demo_buf 0 True 11 2 100000] s1 = Some s2 \<and>
    slave_rounds (floppy_ops (model_env zero_disks) no_msdos) 2 s2 = Some s3 \<and> fqueue s3 = [] \<and>
    finished s3 = map done_buf [demo_buf 0 False 11 3 5000, demo_buf 0 True 11 2 100000]"
proof -
  let ?P = "floppy_ops (model_env zero_disks) no_msdos" and ?rs = "[demo_buf 0 False 11 3 5000, demo_buf 0 True 11 2 100000]"
  obtain s where s: "fdopen ?P True (Some (replicate 10 some_track)) 0 False (init_flop of_nat (demo_fl (\<lambda>_. 0) (\<lambda>_. 0) 0, init_fh)) = (None, s)"
    using model_open by blast
  obtain r s1 where s1: "fdopen ?P True None 0xFF False s = (r, s1)" by (cases "fdopen ?P True None 0xFF False s")
  have m: "dmaid 0xFF" "\<not> dmaid 0" by (simp_all add: dmaid_def)
  have ne: "replicate 10 some_track \<noteq> []" by simp
  have oks: "list_all (request_ok 0 11 zeros) ?rs" by (simp add: demo_ok)
  note o = open_ready [OF zero_works ne zero_inserted m(2) s]
  have "r = None" using s1 o(2,6) m by (auto simp: fdopen_def)
  moreover from floppy_servant [OF zero_works ne zero_inserted m(2,1) s s1 oks] obtain s2 s3 order where
    q: "run (fdstrategy ?P) ?rs s1 = Some s2" "slave_rounds ?P (length ?rs) s2 = Some s3" "fqueue s3 = []" "finished s3 = map done_buf order"
    "filter (\<lambda>b. start_of 11 b = (0, 1)) order = filter (\<lambda>b. start_of 11 b = (0, 1)) ?rs" "mset order = mset ?rs"
    by blast
  have at: "start_of 11 b = (0, 1)" if "b \<in> set ?rs" for b using that by (auto simp: start_of_def demo_buf_def dtodrv_def)
  then have "order = ?rs" using q(5) mset_eq_setD [OF q(6)] by (simp add: filter_id_conv)
  ultimately have s1': "fdopen ?P True None 0xFF False s = (None, s1)" and fin: "finished s3 = map done_buf ?rs"
    using s1 q(4) by simp_all
  have len: "length ?rs = 2" by simp
  show ?thesis using s s1' q(1) q(2) [unfolded len] q(3) fin by blast
qed

text \<open>Twelve tracks of an unformatted disk are formatted at once, more than the cache holds, and one of them again.\<close>

definition no_contents :: contents where
  "no_contents d t = None"

lemma demo_format:
  "serves_ok 0 11 [demo_buf 0x10 False 33 132 5000, demo_buf 0x10 False 44 11 9] (no_contents, of_nat)"
  "fold (serve_blocks 11) [demo_buf 0x10 False 33 132 5000, demo_buf 0x10 False 44 11 9] (no_contents, of_nat) = (B, fm) \<Longrightarrow>
     fst (B, fm) 0 14 = Some (new_track 11 (5000 + 11 * 5632) of_nat) \<and> fst (B, fm) 0 4 = Some (new_track 11 9 of_nat)"
proof -
  have dev: "dfmt 0x10" "dtodrv 0x10 = 0" "dev_ok 0 0x10" by (simp_all add: dfmt_def dtodrv_def dev_ok_def dtotype_def)
  show "serves_ok 0 11 [demo_buf 0x10 False 33 132 5000, demo_buf 0x10 False 44 11 9] (no_contents, of_nat)"
    by (simp add: serve_ok_def demo_buf_def dev)
  show "fst (B, fm) 0 14 = Some (new_track 11 (5000 + 11 * 5632) of_nat) \<and> fst (B, fm) 0 4 = Some (new_track 11 9 of_nat)"
    if "fold (serve_blocks 11) [demo_buf 0x10 False 33 132 5000, demo_buf 0x10 False 44 11 9] (no_contents, of_nat) = (B, fm)"
    using arg_cong [OF that, of fst] by (auto simp: serve_blocks_def demo_buf_def dev format_tracks_at format_tracks_mem simp del: format_tracks.simps)
qed

theorem floppy_format_witness:
  "\<exists>s s'. fdopen (floppy_ops (model_env blank_mech) no_msdos) True (Some (replicate 10 some_track)) 0 False
      (init_flop of_nat (demo_fl (\<lambda>_. 0) (\<lambda>_. 0) 0, init_fh)) = (None, s) \<and>
    run (fdstrategy (floppy_ops (model_env blank_mech) no_msdos)) [demo_buf 0x10 False 33 132 5000, demo_buf 0x10 False 44 11 9] s = Some s' \<and>
    disk_has (mech blank_mech (snd (dsk s'))) 0 14 (pack (new_track 11 (5000 + 11 * 5632) of_nat)) \<and>
    disk_has (mech blank_mech (snd (dsk s'))) 0 4 (pack (new_track 11 9 of_nat))"
proof -
  let ?P = "floppy_ops (model_env blank_mech) no_msdos" and ?rs = "[demo_buf 0x10 False 33 132 5000]" and ?bp = "demo_buf 0x10 False 44 11 9"
  have w: "works blank_mech (model_env blank_mech)"
    by (simp add: works_def model_env_ready) (rule model_env_disk, simp add: heads_in_def blank_mech_def)
  obtain s where s: "fdopen ?P True (Some (replicate 10 some_track)) 0 False (init_flop of_nat (demo_fl (\<lambda>_. 0) (\<lambda>_. 0) 0, init_fh)) = (None, s)"
    using model_open by blast
  have "\<exists>s' B. run (fdstrategy ?P) (?rs @ [?bp]) s = Some s' \<and> fold (serve_blocks 11) (?rs @ [?bp]) (no_contents, of_nat) = (B, fmem s') \<and>
    finished s' = map done_buf (?rs @ [?bp]) \<and>
    (\<forall>t < TRACKS. \<forall>u. B (dtodrv (fb_dev ?bp)) t = Some u \<longrightarrow> disk_has (mech blank_mech (snd (dsk s'))) (dtodrv (fb_dev ?bp)) t (pack u))"
    by (rule floppy_format [OF w _ _ _ s]) (use demo_format(1) in \<open>simp_all add: inserted_def no_contents_def dmaid_def del: serves_ok.simps\<close>)
  then obtain s' B where r: "run (fdstrategy ?P) [demo_buf 0x10 False 33 132 5000, ?bp] s = Some s'"
    "fold (serve_blocks 11) [demo_buf 0x10 False 33 132 5000, ?bp] (no_contents, of_nat) = (B, fmem s')"
    "\<forall>t < TRACKS. \<forall>u. B (dtodrv (fb_dev ?bp)) t = Some u \<longrightarrow> disk_has (mech blank_mech (snd (dsk s'))) (dtodrv (fb_dev ?bp)) t (pack u)"
    unfolding append_Cons append_Nil by blast
  have "dtodrv (fb_dev ?bp) = 0" by (simp add: demo_buf_def dtodrv_def)
  moreover have "B 0 14 = Some (new_track 11 (5000 + 11 * 5632) of_nat)" "B 0 4 = Some (new_track 11 9 of_nat)"
    using demo_format(2) [OF r(2)] by simp_all
  ultimately show ?thesis using s r(1,3) by (intro exI [of _ s] exI [of _ s']) simp
qed

end
