(* ===== verification/Floppy_Raw.thy ===== *)
theory Floppy_Raw
  imports Floppy_System "HOL-Library.Signed_Division"
begin

text \<open>
  The raw floppy device: \<open>fdread\<close>, \<open>fdwrite\<close> and \<open>fdphysio\<close> of \<open>floppy/flop.c\<close>, which move one block at a time through a
  static buffer. \<open>uiomove\<close> of the kernel is a parameter \<open>mv\<close>: from or to the user of the transfer, given whether it is a
  write, the address of the buffer, the transfer and memory. The wait for the request to be done is a parameter too: \<open>serve\<close> is the strategy routine
  and the sleep after it.
\<close>

section \<open>The functions\<close>

record 'u uio =
  uio_offset :: int
  uio_resid :: int
  uio_user :: 'u

type_synonym 'u uiomove = "bool \<Rightarrow> nat \<Rightarrow> 'u uio \<Rightarrow> (nat \<Rightarrow> byte) \<Rightarrow> errno option \<times> 'u uio \<times> (nat \<Rightarrow> byte)"

text \<open>The buffer header \<open>buf\<close>, filled in for one block.\<close>

definition physio_buf :: "u32 \<Rightarrow> bool \<Rightarrow> nat \<Rightarrow> int \<Rightarrow> fbuf" where
  "physio_buf dev rd kbuf off =
    \<lparr> fb_dev = dev, fb_blkno = word_of_int (off sdiv 512), fb_bcount = 512, fb_read = rd, fb_error = False, fb_addr = kbuf,
      fb_resid = 0, fb_done = False \<rparr>"

text \<open>One round of the loop.\<close>

definition physio_block ::
  "(fbuf \<Rightarrow> 'x flop \<Rightarrow> (fbuf \<times> 'x flop) option) \<Rightarrow> 'u uiomove \<Rightarrow> nat \<Rightarrow> u32 \<Rightarrow> bool \<Rightarrow> 'u uio \<Rightarrow> 'x flop \<Rightarrow>
    (errno option \<times> 'u uio \<times> 'x flop) option" where
  "physio_block serve mv kbuf dev rd u s =
    (let bp = physio_buf dev rd kbuf (uio_offset u);
         (err, u, mem) = (if \<not> rd then mv True kbuf u (fmem s) else (None, u, fmem s));
         s = s\<lparr> fmem := mem \<rparr>
     in if err \<noteq> None then Some (err, u, s)
        else
          case serve bp s of
            None \<Rightarrow> None
          | Some (bp, s) \<Rightarrow>
              if fb_error bp \<or> fb_resid bp \<noteq> 0 then Some (Some EIO, u, s)
              else if rd then let (err, u, mem) = mv False kbuf u (fmem s) in Some (err, u, s\<lparr> fmem := mem \<rparr>)
              else Some (None, u, s))"

partial_function (option) physio_loop ::
  "(fbuf \<Rightarrow> 'x flop \<Rightarrow> (fbuf \<times> 'x flop) option) \<Rightarrow> 'u uiomove \<Rightarrow> nat \<Rightarrow> u32 \<Rightarrow> bool \<Rightarrow> 'u uio \<Rightarrow> 'x flop \<Rightarrow>
    (errno option \<times> 'u uio \<times> 'x flop) option" where
  "physio_loop serve mv kbuf dev rd u s =
    (if uio_resid u = 0 then Some (None, u, s)
     else case physio_block serve mv kbuf dev rd u s of
            None \<Rightarrow> None
          | Some r \<Rightarrow>
              (case r of (err, u, s) \<Rightarrow>
                 if err \<noteq> None then Some (err, u, s) else physio_loop serve mv kbuf dev rd u s))"

definition fdphysio ::
  "(fbuf \<Rightarrow> 'x flop \<Rightarrow> (fbuf \<times> 'x flop) option) \<Rightarrow> 'u uiomove \<Rightarrow> nat \<Rightarrow> u32 \<Rightarrow> bool \<Rightarrow> 'u uio \<Rightarrow> 'x flop \<Rightarrow>
    (errno option \<times> 'u uio \<times> 'x flop) option" where
  "fdphysio serve mv kbuf dev rd u s =
    (if uio_resid u mod 512 \<noteq> 0 then Some (Some EIO, u, s) else physio_loop serve mv kbuf dev rd u s)"

text \<open>Both entry points cut the transfer at the end of the disk; a write that starts there is an error.\<close>

definition fdlimit :: "'x flops \<Rightarrow> u32 \<Rightarrow> 'u uio \<Rightarrow> 'u uio" where
  "fdlimit P dev u =
    (if s32 (uio_offset u + uio_resid u) > int (fdsize P dev * BPSEC)
     then u\<lparr> uio_resid := int (fdsize P dev * BPSEC) - uio_offset u \<rparr> else u)"

definition fdread ::
  "'x flops \<Rightarrow> (fbuf \<Rightarrow> 'x flop \<Rightarrow> (fbuf \<times> 'x flop) option) \<Rightarrow> 'u uiomove \<Rightarrow> nat \<Rightarrow> u32 \<Rightarrow> 'u uio \<Rightarrow> 'x flop \<Rightarrow>
    (errno option \<times> 'u uio \<times> 'x flop) option" where
  "fdread P serve mv kbuf dev u s =
    (if uio_offset u = int (fdsize P dev * BPSEC) then Some (None, u, s) else fdphysio serve mv kbuf dev True (fdlimit P dev u) s)"

definition fdwrite ::
  "'x flops \<Rightarrow> (fbuf \<Rightarrow> 'x flop \<Rightarrow> (fbuf \<times> 'x flop) option) \<Rightarrow> 'u uiomove \<Rightarrow> nat \<Rightarrow> u32 \<Rightarrow> 'u uio \<Rightarrow> 'x flop \<Rightarrow>
    (errno option \<times> 'u uio \<times> 'x flop) option" where
  "fdwrite P serve mv kbuf dev u s =
    (if uio_offset u = int (fdsize P dev * BPSEC) then Some (Some ENOSPC, u, s) else fdphysio serve mv kbuf dev False (fdlimit P dev u) s)"

text \<open>The request is done when the strategy routine returns, if there is no servant.\<close>

definition serve_now :: "'x flops \<Rightarrow> fbuf \<Rightarrow> 'x flop \<Rightarrow> (fbuf \<times> 'x flop) option" where
  "serve_now P bp s = (case fdstrategy P bp s of None \<Rightarrow> None | Some s \<Rightarrow> Some (last (finished s), s))"

section \<open>Bytes of a disk\<close>

text \<open>The user's side of a transfer, as the kernel documents \<open>uiomove\<close>: a list of bytes, taken from for a write and added to for a read.\<close>

definition moves :: "byte list uiomove \<Rightarrow> bool" where
  "moves mv \<longleftrightarrow>
    (\<forall>k u mem. mv False k u mem =
       (None, u\<lparr> uio_offset := uio_offset u + 512, uio_resid := uio_resid u - 512, uio_user := uio_user u @ map (\<lambda>i. mem (k + i)) [0..<512] \<rparr>, mem)) \<and>
    (\<forall>k u mem. mv True k u mem =
       (None, u\<lparr> uio_offset := uio_offset u + 512, uio_resid := uio_resid u - 512, uio_user := drop 512 (uio_user u) \<rparr>,
        (\<lambda>a. if k \<le> a \<and> a < k + 512 then (take 512 (uio_user u) @ replicate 512 0) ! (a - k) else mem a)))"

text \<open>The bytes of the disk in a drive, eleven sectors on a track.\<close>

definition disk_byte :: "contents \<Rightarrow> nat \<Rightarrow> nat \<Rightarrow> byte" where
  "disk_byte A d a = the (A d (a div 5632)) (a mod 5632)"

lemma disk_bytes_read:
  "map (\<lambda>i. copy_in k mem (b mod 11 * BPSEC) (the (A d (b div 11))) (k + i)) [0..<512] = map (disk_byte A d) [512 * b..<512 * b + 512]"
proof (rule nth_equalityI)
  fix i assume "i < length (map (\<lambda>i. copy_in k mem (b mod 11 * BPSEC) (the (A d (b div 11))) (k + i)) [0..<512])"
  then have i: "i < 512" by simp
  have "b = 11 * (b div 11) + b mod 11" by simp
  then have b: "512 * b + i = 5632 * (b div 11) + (512 * (b mod 11) + i)" by linarith
  have "512 * (b mod 11) + i < 5632" using i mod_less_divisor [of 11 b] by linarith
  then have "(512 * b + i) div 5632 = b div 11" "(512 * b + i) mod 5632 = 512 * (b mod 11) + i" unfolding b by simp_all
  then show "map (\<lambda>i. copy_in k mem (b mod 11 * BPSEC) (the (A d (b div 11))) (k + i)) [0..<512] ! i =
      map (disk_byte A d) [512 * b..<512 * b + 512] ! i"
    using i by (simp add: copy_in_def disk_byte_def mult.commute)
qed simp

definition raw_ok :: "contents \<Rightarrow> u32 \<Rightarrow> bool" where
  "raw_ok A dev \<longleftrightarrow> dev_ok 0 dev \<and> \<not> dfmt dev \<and> formatted A (dtodrv dev)"

lemma physio_request:
  assumes "raw_ok A dev" and "b < 1760"
  shows "request_ok 0 11 A (physio_buf dev rd k (int (512 * b)))"
    and "request_blocks 11 (physio_buf dev rd k (int (512 * b))) = (if rd then read_block 11 (dtodrv dev) k b else write_block 11 (dtodrv dev) k b)"
proof -
  have "int (512 * b) sdiv 512 = int b" by (cases "b = 0") (simp_all add: signed_divide_int_def sgn_mult)
  then have n: "unat (word_of_int (int (512 * b) sdiv 512) :: u32) = b" using assms(2) by (simp add: unat_of_nat)
  show "request_ok 0 11 A (physio_buf dev rd k (int (512 * b)))"
    using assms n by (simp add: request_ok_def physio_buf_def raw_ok_def)
  show "request_blocks 11 (physio_buf dev rd k (int (512 * b))) = (if rd then read_block 11 (dtodrv dev) k b else write_block 11 (dtodrv dev) k b)"
    using n by (simp add: request_blocks_def physio_buf_def fun_eq_iff numeral_eq_Suc [of "num.One"])
qed

definition raw_state :: "mech \<Rightarrow> fenv \<Rightarrow> fdst flop \<Rightarrow> contents \<Rightarrow> bool" where
  "raw_state m0 E s A \<longleftrightarrow> amiga.shows_vol m0 E s A \<and> \<not> servant s"

lemma raw_mem: "raw_state m0 E (s\<lparr> fmem := m \<rparr>) A = raw_state m0 E s A"
  by (simp add: raw_state_def amiga.shows_vol_def)

lemma serve_ok:
  assumes "raw_state m0 E s A" and "raw_ok A dev" and "b < 1760"
  shows "\<exists>s'. serve_now (floppy_ops E M) (physio_buf dev rd k (int (512 * b))) s = Some (done_buf (physio_buf dev rd k (int (512 * b))), s') \<and>
    raw_state m0 E s' (fst ((if rd then read_block 11 (dtodrv dev) k b else write_block 11 (dtodrv dev) k b) (A, fmem s))) \<and>
    fmem s' = snd ((if rd then read_block 11 (dtodrv dev) k b else write_block 11 (dtodrv dev) k b) (A, fmem s))"
proof -
  note q = physio_request [OF assms(2,3), of rd k]
  have v: "amiga.shows_vol m0 E s A" "\<not> servant s" using assms(1) by (simp_all add: raw_state_def)
  from amiga.strategy_ok [where M = M, OF v(1) q(1) v(2), unfolded q(2)] show ?thesis
    by (auto simp: serve_now_def raw_state_def)
qed

lemma done_physio: "fb_error (done_buf (physio_buf dev rd k off)) = False" "fb_resid (done_buf (physio_buf dev rd k off)) = 0"
  by (simp_all add: done_buf_def physio_buf_def)

lemma raw_read_loop:
  assumes mv: "moves mv" and ok: "raw_ok A dev"
  shows "raw_state m0 E s A \<Longrightarrow> b + k \<le> 1760 \<Longrightarrow> uio_offset u = int (512 * b) \<Longrightarrow> uio_resid u = int (512 * k) \<Longrightarrow>
    \<exists>u' s'. physio_loop (serve_now (floppy_ops E M)) mv kbuf dev True u s = Some (None, u', s') \<and> raw_state m0 E s' A \<and>
      uio_user u' = uio_user u @ map (disk_byte A (dtodrv dev)) [512 * b..<512 * (b + k)]"
proof (induction k arbitrary: s b u)
  case 0
  then show ?case by (simp add: physio_loop.simps)
next
  case (Suc k)
  obtain s1 where s1: "serve_now (floppy_ops E M) (physio_buf dev True kbuf (int (512 * b))) s = Some (done_buf (physio_buf dev True kbuf (int (512 * b))), s1)"
    "raw_state m0 E s1 A" "fmem s1 = copy_in kbuf (fmem s) (b mod 11 * BPSEC) (the (A (dtodrv dev) (b div 11)))"
    using serve_ok [OF Suc.prems(1) ok, of b M True kbuf] Suc.prems(2) by (auto simp: read_block_def)
  define u1 where "u1 = u\<lparr> uio_offset := uio_offset u + 512, uio_resid := uio_resid u - 512,
    uio_user := uio_user u @ map (disk_byte A (dtodrv dev)) [512 * b..<512 * b + 512] \<rparr>"
  have dd: "map (\<lambda>i. fmem s1 (kbuf + i)) [0..<512] = map (disk_byte A (dtodrv dev)) [512 * b..<512 * b + 512]"
    unfolding s1(3) by (rule disk_bytes_read)
  have "mv False kbuf u (fmem s1) = (None, u1, fmem s1)"
    unfolding u1_def dd [symmetric] using mv by (simp add: moves_def)
  then have blk: "physio_block (serve_now (floppy_ops E M)) mv kbuf dev True u s = Some (None, u1, s1)"
    using s1(1) Suc.prems(3) by (simp add: physio_block_def Let_def done_physio)
  have "uio_offset u1 = int (512 * (b + 1))" "uio_resid u1 = int (512 * k)" using Suc.prems(3,4) by (simp_all add: u1_def)
  from Suc.IH [OF s1(2) _ this] Suc.prems(2) obtain u2 s2 where
    ih: "physio_loop (serve_now (floppy_ops E M)) mv kbuf dev True u1 s1 = Some (None, u2, s2)" "raw_state m0 E s2 A"
      "uio_user u2 = uio_user u1 @ map (disk_byte A (dtodrv dev)) [512 * (b + 1)..<512 * (b + 1 + k)]" by auto
  have "physio_loop (serve_now (floppy_ops E M)) mv kbuf dev True u s = Some (None, u2, s2)"
    using blk ih(1) Suc.prems(4) by (subst physio_loop.simps) simp
  moreover have "[512 * b..<512 * (b + Suc k)] = [512 * b..<512 * b + 512] @ [512 * (b + 1)..<512 * (b + 1 + k)]"
    using upt_add_eq_append [of "512 * b" "512 * b + 512" "512 * k"] by (simp add: algebra_simps)
  ultimately show ?case using ih(2,3) by (simp add: u1_def)
qed

text \<open>The disk after bytes have been written to it from \<open>a\<close> on.\<close>

definition write_bytes :: "nat \<Rightarrow> byte list \<Rightarrow> (nat \<Rightarrow> byte) \<Rightarrow> nat \<Rightarrow> byte" where
  "write_bytes a xs f i = (if a \<le> i \<and> i < a + length xs then xs ! (i - a) else f i)"

lemma disk_byte_write:
  assumes "b < 1760" and "length xs = 512" and "\<And>i. i < 512 \<Longrightarrow> mem (k + i) = xs ! i"
  shows "disk_byte (fst (write_block 11 d k b (A, mem))) d = write_bytes (512 * b) xs (disk_byte A d)"
proof
  fix a :: nat
  let ?t = "b div 11" and ?j = "b mod 11"
  have b: "b = 11 * ?t + ?j" "?j < 11" by simp_all
  have a: "a = 5632 * (a div 5632) + a mod 5632" "a mod 5632 < 5632" by simp_all
  show "disk_byte (fst (write_block 11 d k b (A, mem))) d a = write_bytes (512 * b) xs (disk_byte A d) a"
  proof (cases "a div 5632 = ?t")
    case True
    have r: "512 * b \<le> a \<and> a < 512 * b + 512 \<longleftrightarrow> ?j * 512 \<le> a mod 5632 \<and> a mod 5632 < ?j * 512 + 512"
      using a b unfolding True by linarith
    have l: "disk_byte (fst (write_block 11 d k b (A, mem))) d a = copy_in (?j * 512) (the (A d ?t)) k mem (a mod 5632)"
      using True by (simp add: disk_byte_def write_block_def put_contents_def)
    show ?thesis
    proof (cases "512 * b \<le> a \<and> a < 512 * b + 512")
      case in_block: True
      have "a mod 5632 - ?j * 512 = a - 512 * b" using a b in_block r unfolding True by linarith
      then have "disk_byte (fst (write_block 11 d k b (A, mem))) d a = mem (k + (a - 512 * b))"
        unfolding l copy_in_def using in_block r by simp
      also have "\<dots> = xs ! (a - 512 * b)" by (rule assms(3)) (use in_block in linarith)
      finally show ?thesis using in_block assms(2) by (simp add: write_bytes_def)
    next
      case False
      then show ?thesis unfolding l copy_in_def using r assms(2) True by (auto simp: write_bytes_def disk_byte_def)
    qed
  next
    case False
    have "\<not> (512 * b \<le> a \<and> a < 512 * b + 512)"
    proof
      assume r: "512 * b \<le> a \<and> a < 512 * b + 512"
      have "5632 * ?t \<le> a" "a < 5632 * ?t + 5632" using r b by linarith+
      then have "a div 5632 = ?t" by (simp add: div_nat_eqI mult.commute)
      then show False using False by simp
    qed
    then show ?thesis using False assms(2) by (auto simp: disk_byte_def write_block_def put_contents_def write_bytes_def)
  qed
qed

lemma write_bytes_append: "write_bytes (a + length xs) ys (write_bytes a xs f) = write_bytes a (xs @ ys) f"
  by (rule ext) (auto simp: write_bytes_def nth_append)

lemma raw_write_loop:
  assumes mv: "moves mv" and dev: "dev_ok 0 dev" "\<not> dfmt dev"
  shows "raw_state m0 E s A \<Longrightarrow> formatted A (dtodrv dev) \<Longrightarrow> b + k \<le> 1760 \<Longrightarrow> uio_offset u = int (512 * b) \<Longrightarrow> uio_resid u = int (512 * k) \<Longrightarrow>
    length (uio_user u) = 512 * k \<Longrightarrow>
    \<exists>u' s' A'. physio_loop (serve_now (floppy_ops E M)) mv kbuf dev False u s = Some (None, u', s') \<and> raw_state m0 E s' A' \<and>
      formatted A' (dtodrv dev) \<and> disk_byte A' (dtodrv dev) = write_bytes (512 * b) (uio_user u) (disk_byte A (dtodrv dev))"
proof (induction k arbitrary: s b u A)
  case 0
  have "write_bytes (512 * b) [] f = f" for f by (rule ext) (auto simp: write_bytes_def)
  then show ?case using 0 by (auto simp: physio_loop.simps)
next
  case (Suc k)
  let ?d = "dtodrv dev" and ?xs = "take 512 (uio_user u)"
  have ok: "raw_ok A dev" using dev Suc.prems(2) by (simp add: raw_ok_def)
  have lx: "length ?xs = 512" using Suc.prems(6) by simp
  obtain u1 mem where m: "mv True kbuf u (fmem s) = (None, u1, mem)" "uio_offset u1 = uio_offset u + 512" "uio_resid u1 = uio_resid u - 512"
    "uio_user u1 = drop 512 (uio_user u)" "\<And>i. i < 512 \<Longrightarrow> mem (kbuf + i) = ?xs ! i"
  proof (rule that)
    show "mv True kbuf u (fmem s) = (None, u\<lparr> uio_offset := uio_offset u + 512, uio_resid := uio_resid u - 512, uio_user := drop 512 (uio_user u) \<rparr>,
        (\<lambda>a. if kbuf \<le> a \<and> a < kbuf + 512 then (take 512 (uio_user u) @ replicate 512 0) ! (a - kbuf) else fmem s a))"
      using mv by (simp add: moves_def)
  qed (use Suc.prems(6) in \<open>simp_all add: nth_append\<close>)
  define s0 where "s0 = s\<lparr> fmem := mem \<rparr>"
  define A1 where "A1 = fst (write_block 11 ?d kbuf b (A, mem))"
  have "raw_state m0 E s0 A" using Suc.prems(1) raw_mem by (simp add: s0_def)
  from serve_ok [OF this ok, of b M False kbuf] Suc.prems(3) obtain s1 where
    s1: "serve_now (floppy_ops E M) (physio_buf dev False kbuf (int (512 * b))) s0 = Some (done_buf (physio_buf dev False kbuf (int (512 * b))), s1)"
      "raw_state m0 E s1 A1"
    by (auto simp: A1_def s0_def)
  have f1: "formatted A1 ?d" unfolding A1_def by (rule write_formatted [OF Suc.prems(2)])
  have "b < 1760" using Suc.prems(3) by simp
  from disk_byte_write [OF this lx m(5)] have d1: "disk_byte A1 ?d = write_bytes (512 * b) ?xs (disk_byte A ?d)"
    by (simp add: A1_def)
  have blk: "physio_block (serve_now (floppy_ops E M)) mv kbuf dev False u s = Some (None, u1, s1)"
    using s1(1) m(1) Suc.prems(4) by (simp add: physio_block_def Let_def done_physio s0_def)
  have u1: "uio_offset u1 = int (512 * (b + 1))" "uio_resid u1 = int (512 * k)" "length (uio_user u1) = 512 * k"
    using Suc.prems(4-6) m(2-4) by simp_all
  from Suc.IH [OF s1(2) f1 _ u1] Suc.prems(3) obtain u2 s2 A2 where
    ih: "physio_loop (serve_now (floppy_ops E M)) mv kbuf dev False u1 s1 = Some (None, u2, s2)" "raw_state m0 E s2 A2" "formatted A2 ?d"
      "disk_byte A2 ?d = write_bytes (512 * (b + 1)) (uio_user u1) (disk_byte A1 ?d)" by auto
  have "physio_loop (serve_now (floppy_ops E M)) mv kbuf dev False u s = Some (None, u2, s2)"
    using blk ih(1) Suc.prems(5) by (subst physio_loop.simps) simp
  moreover have "disk_byte A2 ?d = write_bytes (512 * b) (uio_user u) (disk_byte A ?d)"
    using write_bytes_append [of "512 * b" ?xs "drop 512 (uio_user u)"] ih(4) d1 lx m(4) by (simp add: add.commute)
  ultimately show ?case using ih(2,3) by blast
qed

text \<open>
  C18. The raw device is an array of bytes: on a working drive with a formatted disk, after the first open, \<open>fdwrite\<close> of any number of whole blocks
  that ends by the end of the disk and then \<open>fdread\<close> of the same bytes both succeed, and what is read is what was written.
\<close>

theorem raw_round_trip:
  assumes "works m0 E" and "mem \<noteq> []" and "inserted m0 A" and "\<not> dmaid dev0"
    and "fdopen (floppy_ops E M) True (Some mem) dev0 wr (init_flop fm (c, init_fh)) = (None, s)"
    and "moves mv" and "raw_ok A dev" and "length xs = 512 * k" and "b + k \<le> 1760" and "b < 1760"
    and "uio_offset u = int (512 * b)" "uio_resid u = int (512 * k)" "uio_user u = xs"
    and "uio_offset v = int (512 * b)" "uio_resid v = int (512 * k)" "uio_user v = []"
  shows "\<exists>u' s1 v' s2. fdwrite (floppy_ops E M) (serve_now (floppy_ops E M)) mv kbuf dev u s = Some (None, u', s1) \<and>
    fdread (floppy_ops E M) (serve_now (floppy_ops E M)) mv kbuf dev v s1 = Some (None, v', s2) \<and> uio_user v' = xs"
proof -
  let ?P = "floppy_ops E M" and ?d = "dtodrv dev"
  have dev: "dev_ok 0 dev" "\<not> dfmt dev" "formatted A ?d" using assms(7) by (simp_all add: raw_ok_def)
  have sz: "fdsize ?P dev = 1760" using dev(1) by (simp add: fdsize_def dtype_of_def dev_ok_def floppy_ops_def dtype_table_def)
  have lim: "fdlimit ?P dev w = w" if "uio_offset w = int (512 * b)" "uio_resid w = int (512 * k)" for w :: "byte list uio"
    using that assms(9) by (simp add: fdlimit_def sz s32_id)
  have phys: "fdphysio serve mv kbuf dev rd w t = physio_loop serve mv kbuf dev rd w t" if "uio_resid w = int (512 * k)"
    for serve rd and w :: "byte list uio" and t :: "fdst flop"
    using that by (simp add: fdphysio_def)
  have ne: "int (512 * b) \<noteq> int (fdsize ?P dev * BPSEC)" using assms(10) sz by simp
  have st: "raw_state m0 E s A" using open_ready(1,2) [OF assms(1-5)] by (simp add: raw_state_def)
  have "length (uio_user u) = 512 * k" using assms(8,13) by simp
  from raw_write_loop [where M = M and kbuf = kbuf, OF assms(6) dev(1,2) st dev(3) assms(9,11,12) this] obtain u' s1 A1 where
    w: "physio_loop (serve_now ?P) mv kbuf dev False u s = Some (None, u', s1)" "raw_state m0 E s1 A1" "formatted A1 ?d"
      "disk_byte A1 ?d = write_bytes (512 * b) xs (disk_byte A ?d)"
    unfolding assms(13) by blast
  have ok1: "raw_ok A1 dev" using dev w(3) by (simp add: raw_ok_def)
  from raw_read_loop [where M = M and kbuf = kbuf, OF assms(6) ok1 w(2) assms(9,14,15)] obtain v' s2 where
    r: "physio_loop (serve_now ?P) mv kbuf dev True v s1 = Some (None, v', s2)"
      "uio_user v' = map (disk_byte A1 ?d) [512 * b..<512 * (b + k)]"
    unfolding assms(16) by auto
  have "map (disk_byte A1 ?d) [512 * b..<512 * (b + k)] = xs"
    unfolding w(4) using assms(8) by (intro nth_equalityI) (simp_all add: write_bytes_def)
  moreover have "fdwrite ?P (serve_now ?P) mv kbuf dev u s = Some (None, u', s1)"
    using w(1) lim [OF assms(11,12)] phys [OF assms(12)] ne assms(11) by (simp add: fdwrite_def)
  moreover have "fdread ?P (serve_now ?P) mv kbuf dev v s1 = Some (None, v', s2)"
    using r(1) lim [OF assms(14,15)] phys [OF assms(15)] ne assms(14) by (simp add: fdread_def)
  ultimately show ?thesis using r(2) by auto
qed

definition demo_mv :: "byte list uiomove" where
  "demo_mv wr k u mem =
    (None, u\<lparr> uio_offset := uio_offset u + 512, uio_resid := uio_resid u - 512,
       uio_user := if wr then drop 512 (uio_user u) else uio_user u @ map (\<lambda>i. mem (k + i)) [0..<512] \<rparr>,
     if wr then (\<lambda>a. if k \<le> a \<and> a < k + 512 then (take 512 (uio_user u) @ replicate 512 0) ! (a - k) else mem a) else mem)"

theorem raw_round_trip_witness:
  "\<exists>s u' s1 v' s2. fdopen (floppy_ops (model_env zero_disks) no_msdos) True (Some (replicate 10 some_track)) 0 False
      (init_flop of_nat (demo_fl (\<lambda>_. 0) (\<lambda>_. 0) 0, init_fh)) = (None, s) \<and>
    fdwrite (floppy_ops (model_env zero_disks) no_msdos) (serve_now (floppy_ops (model_env zero_disks) no_msdos)) demo_mv 4096 0
      \<lparr> uio_offset = 5120, uio_resid = 1024, uio_user = map of_nat [0..<1024] \<rparr> s = Some (None, u', s1) \<and>
    fdread (floppy_ops (model_env zero_disks) no_msdos) (serve_now (floppy_ops (model_env zero_disks) no_msdos)) demo_mv 4096 0
      \<lparr> uio_offset = 5120, uio_resid = 1024, uio_user = [] \<rparr> s1 = Some (None, v', s2) \<and> uio_user v' = map of_nat [0..<1024]"
proof -
  let ?P = "floppy_ops (model_env zero_disks) no_msdos"
  let ?u = "\<lparr> uio_offset = 5120, uio_resid = 1024, uio_user = map of_nat [0..<1024] \<rparr> :: byte list uio"
  let ?v = "\<lparr> uio_offset = 5120, uio_resid = 1024, uio_user = [] \<rparr> :: byte list uio"
  obtain s where s: "fdopen ?P True (Some (replicate 10 some_track)) 0 False (init_flop of_nat (demo_fl (\<lambda>_. 0) (\<lambda>_. 0) 0, init_fh)) = (None, s)"
    using model_open by blast
  have "\<exists>u' s1 v' s2. fdwrite ?P (serve_now ?P) demo_mv 4096 0 ?u s = Some (None, u', s1) \<and>
    fdread ?P (serve_now ?P) demo_mv 4096 0 ?v s1 = Some (None, v', s2) \<and> uio_user v' = map of_nat [0..<1024]"
    by (rule raw_round_trip [OF zero_works _ zero_inserted _ s, where k = 2 and b = 10])
      (simp_all add: dmaid_def moves_def demo_mv_def raw_ok_def dev_ok_def dtodrv_def dtotype_def dfmt_def formatted_def zeros_def)
  then show ?thesis using s by blast
qed

end
