(* ===== verification/Elf_Image.thy ===== *)
theory Elf_Image
  imports Boot_Lib
begin

text \<open>
  The memory of the machine as the boot loader and the ELF tools use it, and the structures of the
  ELF format (System V ABI) by the offsets of their fields.

  Memory is total, one byte for every address; a C pointer is its address, \<open>NULL\<close> is 0. Multi-byte
  values are big-endian. Sums of addresses are natural numbers: the code forms pointers into the
  copy of the file only, and a pointer outside it is undefined in C.
\<close>

section \<open>Memory\<close>

type_synonym memory = "nat \<Rightarrow> byte"

definition peek :: "memory \<Rightarrow> nat \<Rightarrow> nat \<Rightarrow> byte list" where
  "peek m a n = map m [a..<a + n]"

definition poke :: "memory \<Rightarrow> nat \<Rightarrow> byte list \<Rightarrow> memory" where
  "poke m a bs = (\<lambda>x. if a \<le> x \<and> x < a + length bs then bs ! (x - a) else m x)"

definition bytes16 :: "u16 \<Rightarrow> byte list" where
  "bytes16 w = [hi8 w, lo8 w]"

definition hi16 :: "u32 \<Rightarrow> u16" where
  "hi16 w = ucast (drop_bit 16 w)"

definition lo16 :: "u32 \<Rightarrow> u16" where
  "lo16 w = ucast w"

definition cat32 :: "u16 \<Rightarrow> u16 \<Rightarrow> u32" where
  "cat32 hi lo = push_bit 16 (ucast hi) OR ucast lo"

definition bytes32 :: "u32 \<Rightarrow> byte list" where
  "bytes32 w = bytes16 (hi16 w) @ bytes16 (lo16 w)"

definition load16 :: "memory \<Rightarrow> nat \<Rightarrow> u16" where
  "load16 m a = be16 (m a) (m (a + 1))"

definition load32 :: "memory \<Rightarrow> nat \<Rightarrow> u32" where
  "load32 m a = cat32 (load16 m a) (load16 m (a + 2))"

definition store16 :: "memory \<Rightarrow> nat \<Rightarrow> u16 \<Rightarrow> memory" where
  "store16 m a v = poke m a (bytes16 v)"

definition store32 :: "memory \<Rightarrow> nat \<Rightarrow> u32 \<Rightarrow> memory" where
  "store32 m a v = poke m a (bytes32 v)"

lemma length_bytes [simp]: "length (bytes16 w) = 2" "length (bytes32 v) = 4"
  by (simp_all add: bytes16_def bytes32_def)

lemma length_peek [simp]: "length (peek m a n) = n"
  by (simp add: peek_def)

lemma nth_peek [simp]: "i < n \<Longrightarrow> peek m a n ! i = m (a + i)"
  by (simp add: peek_def)

lemma peek_0 [simp]: "peek m a 0 = []"
  by (simp add: peek_def)

lemma peek_append: "peek m a (n + k) = peek m a n @ peek m (a + n) k"
  by (rule nth_equalityI) (auto simp: nth_append)

lemma cat32_halves [simp]: "cat32 (hi16 w) (lo16 w) = w"
  unfolding cat32_def hi16_def lo16_def
  by (rule bit_eqI) (auto simp: bit_simps)

lemma unat_u16_less: "unat (x :: u16) < 65536"
proof -
  have "(unsigned x :: nat) < 2 ^ LENGTH(16)" by (rule unsigned_less)
  then show ?thesis by simp
qed

section \<open>Reads after writes\<close>

definition separate :: "nat \<Rightarrow> nat \<Rightarrow> nat \<Rightarrow> nat \<Rightarrow> bool" where
  "separate a n b k = (a + n \<le> b \<or> b + k \<le> a)"

lemma separate_sym: "separate a n b k = separate b k a n"
  by (auto simp: separate_def)

definition same_on :: "nat \<Rightarrow> nat \<Rightarrow> memory \<Rightarrow> memory \<Rightarrow> bool" where
  "same_on a n m m' = (\<forall>x. a \<le> x \<and> x < a + n \<longrightarrow> m x = m' x)"

lemma same_on_refl [simp]: "same_on a n m m"
  by (simp add: same_on_def)

lemma same_on_sym: "same_on a n m m' \<Longrightarrow> same_on a n m' m"
  by (simp add: same_on_def)

lemma same_on_trans [trans]: "same_on a n m m' \<Longrightarrow> same_on a n m' m'' \<Longrightarrow> same_on a n m m''"
  by (simp add: same_on_def)

lemma same_on_part: "same_on a n m m' \<Longrightarrow> a \<le> b \<Longrightarrow> b + k \<le> a + n \<Longrightarrow> same_on b k m m'"
  by (simp add: same_on_def)

lemma same_on_poke: "separate a n b (length bs) \<Longrightarrow> same_on a n (poke m b bs) m"
  by (auto simp: same_on_def poke_def separate_def)

lemma same_on_peek: "same_on a n m m' \<longleftrightarrow> peek m a n = peek m' a n"
  by (auto simp: same_on_def peek_def)

lemma same_on_load16: "same_on a 2 m m' \<Longrightarrow> load16 m a = load16 m' a"
  by (simp add: same_on_def load16_def)

lemma same_on_load32: "same_on a 4 m m' \<Longrightarrow> load32 m a = load32 m' a"
  by (simp add: same_on_def load32_def load16_def)

lemma load16_poke: "separate a 2 b (length bs) \<Longrightarrow> load16 (poke m b bs) a = load16 m a"
  by (rule same_on_load16 [OF same_on_poke])

lemma load32_poke: "separate a 4 b (length bs) \<Longrightarrow> load32 (poke m b bs) a = load32 m a"
  by (rule same_on_load32 [OF same_on_poke])

lemma peek_poke_separate: "separate a n b (length bs) \<Longrightarrow> peek (poke m b bs) a n = peek m a n"
  by (simp add: same_on_poke flip: same_on_peek)

lemma peek_poke: "peek (poke m a bs) a (length bs) = bs"
  by (rule nth_equalityI) (auto simp: poke_def)

lemma load16_store16 [simp]: "load16 (store16 m a v) a = v"
  by (simp add: load16_def store16_def poke_def bytes16_def)

lemma nth_bytes32: "bytes32 v ! 0 = hi8 (hi16 v)" "bytes32 v ! Suc 0 = lo8 (hi16 v)"
  "bytes32 v ! 2 = hi8 (lo16 v)" "bytes32 v ! 3 = lo8 (lo16 v)"
  by (simp_all add: bytes32_def bytes16_def numeral_2_eq_2 numeral_3_eq_3)

lemma load32_store32 [simp]: "load32 (store32 m a v) a = v"
proof -
  have "load16 (store32 m a v) a = hi16 v"
    by (simp add: load16_def store32_def poke_def nth_bytes32)
  moreover have "load16 (store32 m a v) (a + 2) = lo16 v"
    by (simp add: load16_def store32_def poke_def nth_bytes32 numeral_2_eq_2 [symmetric] numeral_3_eq_3 [symmetric])
  ultimately show ?thesis by (simp add: load32_def)
qed

text \<open>Writing a long word into a part of a byte list, and the effect on a region of memory.\<close>

definition put32 :: "nat \<Rightarrow> u32 \<Rightarrow> byte list \<Rightarrow> byte list" where
  "put32 i v bs = take i bs @ bytes32 v @ drop (i + 4) bs"

lemma length_put32 [simp]: "i + 4 \<le> length bs \<Longrightarrow> length (put32 i v bs) = length bs"
  by (simp add: put32_def)

lemma peek_store32_in:
  assumes "i + 4 \<le> n"
  shows "peek (store32 m (a + i) v) a n = put32 i v (peek m a n)"
proof (rule nth_equalityI)
  fix j assume "j < length (peek (store32 m (a + i) v) a n)"
  then have j: "j < n" by simp
  show "peek (store32 m (a + i) v) a n ! j = put32 i v (peek m a n) ! j"
  proof (cases "i \<le> j \<and> j < i + 4")
    case True
    then have "j - i < 4" by auto
    then show ?thesis using True j assms by (simp add: store32_def poke_def put32_def nth_append)
  next
    case False
    then show ?thesis using j assms by (auto simp: store32_def poke_def put32_def nth_append)
  qed
qed (use assms in simp)

lemma put32_append1: "i + 4 \<le> length xs \<Longrightarrow> put32 i v (xs @ ys) = put32 i v xs @ ys"
  by (simp add: put32_def)

lemma put32_append2: "put32 (length xs + i) v (xs @ ys) = xs @ put32 i v ys"
  by (simp add: put32_def add.assoc)

section \<open>ELF\<close>

text \<open>Values of \<open><elf.h>\<close> and \<open><sys/elf_68K.h>\<close>.\<close>

definition ELFMAG :: "byte list" where "ELFMAG = [127, 69, 76, 70]"
definition SELFMAG :: nat where "SELFMAG = 4"
definition ET_REL :: u16 where "ET_REL = 1"
definition ET_EXEC :: u16 where "ET_EXEC = 2"
definition ET_LOPROC :: u16 where "ET_LOPROC = 0xff00"
definition SHT_PROGBITS :: u32 where "SHT_PROGBITS = 1"
definition SHT_SYMTAB :: u32 where "SHT_SYMTAB = 2"
definition SHT_RELA :: u32 where "SHT_RELA = 4"
definition SHT_NOBITS :: u32 where "SHT_NOBITS = 8"
definition SHT_LOUSER :: u32 where "SHT_LOUSER = 0x80000000"
definition SHF_WRITE :: u32 where "SHF_WRITE = 1"
definition SHF_ALLOC :: u32 where "SHF_ALLOC = 2"
definition SHF_EXECINSTR :: u32 where "SHF_EXECINSTR = 4"
definition SHN_ABS :: u16 where "SHN_ABS = 0xfff1"
definition SHN_COMMON :: u16 where "SHN_COMMON = 0xfff2"
definition R_68K_32 :: byte where "R_68K_32 = 1"

definition ELF32_R_SYM :: "u32 \<Rightarrow> u32" where "ELF32_R_SYM i = drop_bit 8 i"
definition ELF32_R_TYPE :: "u32 \<Rightarrow> byte" where "ELF32_R_TYPE i = ucast i"

text \<open>Sizes of the structures and the addresses of their fields.\<close>

abbreviation (input) "Ehdr_size \<equiv> (52 :: nat)"
abbreviation (input) "Shdr_size \<equiv> (40 :: nat)"
abbreviation (input) "Sym_size \<equiv> (16 :: nat)"
abbreviation (input) "Rela_size \<equiv> (12 :: nat)"

abbreviation (input) "e_type p \<equiv> p + (16 :: nat)"
abbreviation (input) "e_entry p \<equiv> p + (24 :: nat)"
abbreviation (input) "e_phoff p \<equiv> p + (28 :: nat)"
abbreviation (input) "e_shoff p \<equiv> p + (32 :: nat)"
abbreviation (input) "e_phentsize p \<equiv> p + (42 :: nat)"
abbreviation (input) "e_phnum p \<equiv> p + (44 :: nat)"
abbreviation (input) "e_shnum p \<equiv> p + (48 :: nat)"
abbreviation (input) "e_shstrndx p \<equiv> p + (50 :: nat)"

abbreviation (input) "p_offset p \<equiv> p + (4 :: nat)"
abbreviation (input) "p_vaddr p \<equiv> p + (8 :: nat)"
abbreviation (input) "p_filesz p \<equiv> p + (16 :: nat)"

abbreviation (input) "sh_name p \<equiv> (p :: nat)"
abbreviation (input) "sh_type p \<equiv> p + (4 :: nat)"
abbreviation (input) "sh_flags p \<equiv> p + (8 :: nat)"
abbreviation (input) "sh_addr p \<equiv> p + (12 :: nat)"
abbreviation (input) "sh_offset p \<equiv> p + (16 :: nat)"
abbreviation (input) "sh_size p \<equiv> p + (20 :: nat)"
abbreviation (input) "sh_link p \<equiv> p + (24 :: nat)"
abbreviation (input) "sh_info p \<equiv> p + (28 :: nat)"
abbreviation (input) "sh_entsize p \<equiv> p + (36 :: nat)"

abbreviation (input) "st_name p \<equiv> (p :: nat)"
abbreviation (input) "st_value p \<equiv> p + (4 :: nat)"
abbreviation (input) "st_size p \<equiv> p + (8 :: nat)"
abbreviation (input) "st_shndx p \<equiv> p + (14 :: nat)"

abbreviation (input) "r_offset p \<equiv> (p :: nat)"
abbreviation (input) "r_info p \<equiv> p + (4 :: nat)"
abbreviation (input) "r_addend p \<equiv> p + (8 :: nat)"

text \<open>The unsigned division of the processor traps when the divisor is zero.\<close>

definition udiv :: "u32 \<Rightarrow> u32 \<Rightarrow> u32 option" where
  "udiv a b = (if b = 0 then None else Some (a div b))"

text \<open>Comparison of the C string at an address with a literal: it stops at the literal's NUL.\<close>

definition name_is :: "memory \<Rightarrow> nat \<Rightarrow> byte list \<Rightarrow> bool" where
  "name_is m a lit = (streq (peek m a (length lit + 1)) (lit @ [0]) = Some True)"

definition etext_name :: "byte list" where "etext_name = [101, 116, 101, 120, 116]"
definition edata_name :: "byte list" where "edata_name = [101, 100, 97, 116, 97]"
definition end_name :: "byte list" where "end_name = [101, 110, 100]"

lemma streq_literal: "length xs = length lit + 1 \<Longrightarrow> c_string lit \<Longrightarrow> streq xs (lit @ [0]) = Some (xs = lit @ [0])"
proof (induction lit arbitrary: xs)
  case Nil
  then obtain x where "xs = [x]" by (cases xs) auto
  then show ?case by simp
next
  case (Cons c lit)
  then obtain x ys where xs: "xs = x # ys" "length ys = length lit + 1" by (cases xs) auto
  have "c_string lit" "c \<noteq> 0" using Cons.prems by (auto simp: c_string_def)
  then show ?case using Cons.IH [OF xs(2)] by (auto simp: xs)
qed

lemma name_is_peek: "c_string lit \<Longrightarrow> name_is m a lit \<longleftrightarrow> peek m a (length lit + 1) = lit @ [0]"
  by (simp add: name_is_def streq_literal)

end
