(* ===== verification/Boot_Rel.thy ===== *)
theory Boot_Rel
  imports Elf_Image
begin

text \<open>
  The relocation of a loaded kernel, \<open>boot/rel.c\<close>, and the image \<open>boot/reltest.c\<close> writes from it.

  The state is the memory with the copy of the file, the structure \<open>struct globals\<close> the functions pass
  around, the boot data and the complaints so far (each \<open>COMPLAIN\<close> is an event, and the code goes on
  after it as it is written). \<open>None\<close> is the trap of a division by zero. The variable \<open>gblvars\<close> is not
  initialised: the functions start from an arbitrary value of it.
\<close>

section \<open>State\<close>

record globals =
  elfdata :: nat
  Ehdr :: nat
  Shdrs :: nat
  Phdrs :: nat
  thdr :: nat
  rhdr :: nat
  dhdr :: nat
  bhdr :: nat
  symhdr :: nat
  end_addr :: u32

record boot_data =
  bd_entry :: u32
  bd_tvaddr :: u32
  bd_toffset :: u32
  bd_tsize :: u32
  bd_rvaddr :: u32
  bd_roffset :: u32
  bd_rsize :: u32
  bd_dvaddr :: u32
  bd_doffset :: u32
  bd_dsize :: u32

datatype complaint =
    Symbol_is u32 | In_unbound_section u16 | Symbol u32 | References_section u16
  | Unknown_relocation byte | Missing_bss u32 | Non_ELF | Type_not_handled u16

record rel_state =
  mem :: memory
  gbls :: globals
  bip :: boot_data
  complaints :: "complaint list"

definition complain :: "complaint \<Rightarrow> rel_state \<Rightarrow> rel_state" where
  "complain c s = s\<lparr>complaints := complaints s @ [c]\<rparr>"

definition set16 :: "nat \<Rightarrow> u16 \<Rightarrow> rel_state \<Rightarrow> rel_state" where
  "set16 a v s = s\<lparr>mem := store16 (mem s) a v\<rparr>"

definition set32 :: "nat \<Rightarrow> u32 \<Rightarrow> rel_state \<Rightarrow> rel_state" where
  "set32 a v s = s\<lparr>mem := store32 (mem s) a v\<rparr>"

definition set_end :: "u32 \<Rightarrow> rel_state \<Rightarrow> rel_state" where
  "set_end v s = s\<lparr>gbls := (gbls s)\<lparr>end_addr := v\<rparr>\<rparr>"

definition set_bip :: "(boot_data \<Rightarrow> boot_data) \<Rightarrow> rel_state \<Rightarrow> rel_state" where
  "set_bip f s = s\<lparr>bip := f (bip s)\<rparr>"

section \<open>Symbols and relocation records\<close>

definition symvaddr :: "nat \<Rightarrow> u32 \<Rightarrow> rel_state \<Rightarrow> u32 \<times> rel_state" where
  "symvaddr sy symidx s =
    (let shndx = load16 (mem s) (st_shndx sy);
         value = load32 (mem s) (st_value sy);
         rshdr = Shdrs (gbls s) + Shdr_size * unat shndx;
         addr = load32 (mem s) (sh_addr rshdr)
     in if 0 < shndx \<and> shndx < load16 (mem s) (e_shnum (Ehdr (gbls s))) then
          if addr = 0 then (0, complain (In_unbound_section shndx) (complain (Symbol_is symidx) s))
          else (addr + value, s)
        else if shndx = SHN_ABS then (value, s)
        else (0, complain (References_section shndx) (complain (Symbol symidx) s)))"

definition reloc_entry :: "nat \<Rightarrow> nat \<Rightarrow> nat \<Rightarrow> rel_state \<Rightarrow> rel_state" where
  "reloc_entry secdata syms relp s =
    (let info = load32 (mem s) (r_info relp);
         reltype = ELF32_R_TYPE info;
         symidx = ELF32_R_SYM info;
         sy = syms + Sym_size * unat symidx;
         datap = secdata + unat (load32 (mem s) (r_offset relp));
         (vaddr, s) = symvaddr sy symidx s
     in if reltype = R_68K_32 then set32 datap (vaddr + load32 (mem s) (r_addend relp)) s
        else complain (Unknown_relocation reltype) s)"

fun reloc_loop :: "nat \<Rightarrow> nat \<Rightarrow> nat \<Rightarrow> nat \<Rightarrow> rel_state \<Rightarrow> rel_state" where
  "reloc_loop secdata syms relp 0 s = s"
| "reloc_loop secdata syms relp (Suc nrel) s =
    reloc_loop secdata syms (relp + Rela_size) nrel (reloc_entry secdata syms relp s)"

definition relocsection :: "nat \<Rightarrow> nat \<Rightarrow> nat \<Rightarrow> rel_state \<Rightarrow> rel_state option" where
  "relocsection shdr relsechdr symtabhdr s =
    (let secdata = elfdata (gbls s) + unat (load32 (mem s) (sh_offset relsechdr));
         syms = elfdata (gbls s) + unat (load32 (mem s) (sh_offset symtabhdr));
         relp = elfdata (gbls s) + unat (load32 (mem s) (sh_offset shdr))
     in case udiv (load32 (mem s) (sh_size shdr)) (load32 (mem s) (sh_entsize shdr)) of
          None \<Rightarrow> None
        | Some nrel \<Rightarrow> Some (reloc_loop secdata syms relp (unat nrel) s))"

function relocsections_loop :: "nat \<Rightarrow> rel_state \<Rightarrow> rel_state option" where
  "relocsections_loop sectnum s =
    (if sectnum < unat (load16 (mem s) (e_shnum (Ehdr (gbls s)))) then
       let shdr = Shdrs (gbls s) + Shdr_size * sectnum in
       if load32 (mem s) (sh_type shdr) = SHT_RELA then
         let symtabhdr = Shdrs (gbls s) + Shdr_size * unat (load32 (mem s) (sh_link shdr));
             relsechdr = Shdrs (gbls s) + Shdr_size * unat (load32 (mem s) (sh_info shdr))
         in case relocsection shdr relsechdr symtabhdr s of
              None \<Rightarrow> None
            | Some s \<Rightarrow> relocsections_loop (Suc sectnum) s
       else relocsections_loop (Suc sectnum) s
     else Some s)"
  by pat_completeness auto
termination
proof (relation "measure (\<lambda>(sectnum, s). 65536 - sectnum)")
  show "((Suc sectnum, t), sectnum, s) \<in> measure (\<lambda>(sectnum, s). 65536 - sectnum)"
    if "sectnum < unat (load16 (mem s) (e_shnum (Ehdr (gbls s))))" for sectnum s and t :: rel_state
    using that unat_u16_less [of "load16 (mem s) (e_shnum (Ehdr (gbls s)))"] by simp
  then show "((Suc sectnum, t), sectnum, s) \<in> measure (\<lambda>(sectnum, s). 65536 - sectnum)"
    if "sectnum < unat (load16 (mem s) (e_shnum (Ehdr (gbls s))))" for sectnum s and t :: rel_state
    using that .
qed simp

declare relocsections_loop.simps [simp del]

definition relocsections :: "rel_state \<Rightarrow> rel_state option" where
  "relocsections s = relocsections_loop 0 s"

section \<open>Common and special symbols\<close>

definition alloc_common :: "nat \<Rightarrow> rel_state \<Rightarrow> rel_state" where
  "alloc_common sy s =
    (let b = bhdr (gbls s);
         s = set16 (st_shndx sy) (of_nat ((b - Shdrs (gbls s)) div Shdr_size)) s;
         value = load32 (mem s) (st_value sy);
         vaddr = load32 (mem s) (sh_addr b) + load32 (mem s) (sh_size b);
         vaddr = vaddr + (value - 1);
         vaddr = vaddr AND NOT (value - 1);
         s = set32 (st_value sy) (vaddr - load32 (mem s) (sh_addr b)) s;
         s = set_end (vaddr + load32 (mem s) (st_size sy)) s
     in set32 (sh_size b) (end_addr (gbls s) - load32 (mem s) (sh_addr b)) s)"

fun allocbss_loop :: "nat \<Rightarrow> nat \<Rightarrow> nat \<Rightarrow> rel_state \<Rightarrow> rel_state" where
  "allocbss_loop syms symidx 0 s = s"
| "allocbss_loop syms symidx (Suc n) s =
    (let sy = syms + Sym_size * symidx in
     if load16 (mem s) (st_shndx sy) = SHN_COMMON then
       if bhdr (gbls s) = 0 then complain (Missing_bss (of_nat symidx)) s
       else allocbss_loop syms (Suc symidx) n (alloc_common sy s)
     else allocbss_loop syms (Suc symidx) n s)"

definition allocbss :: "rel_state \<Rightarrow> rel_state option" where
  "allocbss s =
    (let h = symhdr (gbls s) in
     case udiv (load32 (mem s) (sh_size h)) (load32 (mem s) (sh_entsize h)) of
       None \<Rightarrow> None
     | Some nsyms \<Rightarrow>
         Some (allocbss_loop (elfdata (gbls s) + unat (load32 (mem s) (sh_offset h))) 0 (unat nsyms) s))"

definition special_symbol :: "nat \<Rightarrow> nat \<Rightarrow> rel_state \<Rightarrow> rel_state" where
  "special_symbol strtab sy s =
    (let name = load32 (mem s) (st_name sy);
         symname = strtab + unat name;
         t = thdr (gbls s);
         d = dhdr (gbls s)
     in if name \<noteq> 0 then
          if name_is (mem s) symname etext_name then
            set16 (st_shndx sy) SHN_ABS
              (set32 (st_value sy) (load32 (mem s) (sh_addr t) + load32 (mem s) (sh_size t)) s)
          else if name_is (mem s) symname edata_name then
            set16 (st_shndx sy) SHN_ABS
              (set32 (st_value sy) (load32 (mem s) (sh_addr d) + load32 (mem s) (sh_size d)) s)
          else if name_is (mem s) symname end_name then
            set16 (st_shndx sy) SHN_ABS (set32 (st_value sy) (end_addr (gbls s)) s)
          else s
        else s)"

fun specialsyms_loop :: "nat \<Rightarrow> nat \<Rightarrow> nat \<Rightarrow> nat \<Rightarrow> rel_state \<Rightarrow> rel_state" where
  "specialsyms_loop syms strtab symidx 0 s = s"
| "specialsyms_loop syms strtab symidx (Suc n) s =
    specialsyms_loop syms strtab (Suc symidx) n (special_symbol strtab (syms + Sym_size * symidx) s)"

definition specialsyms :: "rel_state \<Rightarrow> rel_state option" where
  "specialsyms s =
    (let h = symhdr (gbls s);
         strtabhdr = Shdrs (gbls s) + Shdr_size * unat (load32 (mem s) (sh_link h));
         strtab = elfdata (gbls s) + unat (load32 (mem s) (sh_offset strtabhdr))
     in case udiv (load32 (mem s) (sh_size h)) (load32 (mem s) (sh_entsize h)) of
          None \<Rightarrow> None
        | Some nsyms \<Rightarrow>
            Some (specialsyms_loop (elfdata (gbls s) + unat (load32 (mem s) (sh_offset h))) strtab 0
              (unat nsyms) s))"

section \<open>Sections\<close>

definition find_section :: "nat \<Rightarrow> memory \<Rightarrow> globals \<Rightarrow> globals" where
  "find_section shdr m g =
    (let type = load32 m (sh_type shdr);
         flags = load32 m (sh_flags shdr);
         size = load32 m (sh_size shdr)
     in if type = SHT_PROGBITS then
          if 0 < size \<and> flags AND SHF_ALLOC \<noteq> 0 then
            if flags AND SHF_EXECINSTR \<noteq> 0 then g\<lparr>thdr := shdr\<rparr>
            else if flags AND SHF_WRITE \<noteq> 0 then g\<lparr>dhdr := shdr\<rparr>
            else g\<lparr>rhdr := shdr\<rparr>
          else g
        else if type = SHT_NOBITS then
          if flags AND SHF_WRITE \<noteq> 0 then if 0 < size then g\<lparr>bhdr := shdr\<rparr> else g else g
        else if type = SHT_SYMTAB then g\<lparr>symhdr := shdr\<rparr>
        else g)"

fun findsections_loop :: "nat \<Rightarrow> nat \<Rightarrow> memory \<Rightarrow> globals \<Rightarrow> globals" where
  "findsections_loop sectnum 0 m g = g"
| "findsections_loop sectnum (Suc n) m g =
    findsections_loop (Suc sectnum) n m (find_section (Shdrs g + Shdr_size * sectnum) m g)"

definition findsections :: "rel_state \<Rightarrow> rel_state" where
  "findsections s =
    s\<lparr>gbls := findsections_loop 0 (unat (load16 (mem s) (e_shnum (Ehdr (gbls s))))) (mem s) (gbls s)\<rparr>"

definition bind_section :: "nat \<Rightarrow> rel_state \<Rightarrow> rel_state" where
  "bind_section h s =
    (let s = set32 (sh_addr h) (end_addr (gbls s)) s
     in set_end (end_addr (gbls s) + load32 (mem s) (sh_size h)) s)"

definition bind_text :: "rel_state \<Rightarrow> rel_state" where
  "bind_text s =
    (let h = thdr (gbls s) in
     if h \<noteq> 0 then
       let s = bind_section h s; m = mem s
       in set_bip (\<lambda>d. d\<lparr>bd_tvaddr := load32 m (sh_addr h), bd_toffset := load32 m (sh_offset h),
            bd_tsize := load32 m (sh_size h)\<rparr>) s
     else s)"

definition bind_rodata :: "rel_state \<Rightarrow> rel_state" where
  "bind_rodata s =
    (let h = rhdr (gbls s) in
     if h \<noteq> 0 then
       let s = bind_section h s; m = mem s
       in set_bip (\<lambda>d. d\<lparr>bd_rvaddr := load32 m (sh_addr h), bd_roffset := load32 m (sh_offset h),
            bd_rsize := load32 m (sh_size h)\<rparr>) s
     else s)"

definition bind_data :: "rel_state \<Rightarrow> rel_state" where
  "bind_data s =
    (let h = dhdr (gbls s) in
     if h \<noteq> 0 then
       let s = bind_section h s; m = mem s
       in set_bip (\<lambda>d. d\<lparr>bd_dvaddr := load32 m (sh_addr h), bd_doffset := load32 m (sh_offset h),
            bd_dsize := load32 m (sh_size h)\<rparr>) s
     else s)"

definition bind_bss :: "rel_state \<Rightarrow> rel_state" where
  "bind_bss s = (let h = bhdr (gbls s) in if h \<noteq> 0 then bind_section h s else s)"

definition bindsections :: "rel_state \<Rightarrow> rel_state" where
  "bindsections s = bind_bss (bind_data (bind_rodata (bind_text s)))"

section \<open>The compact format\<close>

definition compact_entry :: "nat \<Rightarrow> nat \<Rightarrow> rel_state \<Rightarrow> rel_state" where
  "compact_entry textbase nrelp s =
    (let relvalue = load32 (mem s) (nrelp + 4);
         offset = load32 (mem s) nrelp;
         relvalue =
           (if offset AND 0x80000000 = 0 then relvalue + load32 (mem s) (sh_addr (thdr (gbls s))) else relvalue)
     in set32 (textbase + unat (offset AND 0x7FFFFFFF)) relvalue s)"

fun compact_loop :: "nat \<Rightarrow> nat \<Rightarrow> nat \<Rightarrow> rel_state \<Rightarrow> rel_state" where
  "compact_loop textbase nrelp 0 s = s"
| "compact_loop textbase nrelp (Suc n) s =
    compact_loop textbase (nrelp + 8) n (compact_entry textbase nrelp s)"

definition compactreloc :: "rel_state \<Rightarrow> rel_state option" where
  "compactreloc s =
    (let relshdr = Shdrs (gbls s) + Shdr_size * 3;
         nrelp = elfdata (gbls s) + unat (load32 (mem s) (sh_offset relshdr));
         textbase = elfdata (gbls s) + unat (load32 (mem s) (sh_offset (thdr (gbls s))))
     in case udiv (load32 (mem s) (sh_size relshdr)) (load32 (mem s) (sh_entsize relshdr)) of
          None \<Rightarrow> None
        | Some nrelcount \<Rightarrow> Some (compact_loop textbase nrelp (unat nrelcount) s))"

section \<open>Entry\<close>

definition rel_exec :: "rel_state \<Rightarrow> rel_state" where
  "rel_exec s =
    (let e = Ehdr (gbls s);
         p = elfdata (gbls s) + unat (load32 (mem s) (e_phoff e));
         m = mem s
     in set_bip (\<lambda>d. d\<lparr>bd_entry := load32 m (e_entry e), bd_tvaddr := load32 m (p_vaddr p),
          bd_toffset := load32 m (p_offset p), bd_tsize := load32 m (p_filesz p)\<rparr>)
          (s\<lparr>gbls := (gbls s)\<lparr>Phdrs := p\<rparr>\<rparr>))"

definition rel_compact :: "u32 \<Rightarrow> rel_state \<Rightarrow> rel_state option" where
  "rel_compact vaddr s =
    (let shdrs = elfdata (gbls s) + unat (load32 (mem s) (e_shoff (Ehdr (gbls s))));
         t = shdrs + Shdr_size;
         s = s\<lparr>gbls := (gbls s)\<lparr>Shdrs := shdrs, thdr := t\<rparr>\<rparr>;
         s = set32 (sh_addr t) vaddr s;
         m = mem s
     in compactreloc
          (set_bip (\<lambda>d. d\<lparr>bd_entry := vaddr, bd_tvaddr := vaddr, bd_toffset := load32 m (sh_offset t),
            bd_tsize := load32 m (sh_size t)\<rparr>) s))"

definition rel_full :: "u32 \<Rightarrow> rel_state \<Rightarrow> rel_state option" where
  "rel_full vaddr s =
    (let shdrs = elfdata (gbls s) + unat (load32 (mem s) (e_shoff (Ehdr (gbls s))));
         s = set_bip (\<lambda>d. d\<lparr>bd_entry := vaddr\<rparr>) s;
         s = s\<lparr>gbls := (gbls s)\<lparr>Shdrs := shdrs, thdr := 0, rhdr := 0, dhdr := 0, bhdr := 0,
               end_addr := vaddr\<rparr>\<rparr>
     in case allocbss (bindsections (findsections s)) of
          None \<Rightarrow> None
        | Some s \<Rightarrow> (case specialsyms s of None \<Rightarrow> None | Some s \<Rightarrow> relocsections s))"

definition clear_bip :: "boot_data \<Rightarrow> boot_data" where
  "clear_bip d = d\<lparr>bd_tvaddr := 0, bd_toffset := 0, bd_tsize := 0, bd_rvaddr := 0, bd_roffset := 0,
     bd_rsize := 0, bd_dvaddr := 0, bd_doffset := 0, bd_dsize := 0\<rparr>"

text \<open>
  The pointer \<open>elfdata\<close> of the structure is set where the code first uses it, in the branches of the
  relocatable files; the program header of an executable is found from the argument, which is the
  same pointer.
\<close>

definition rel :: "globals \<Rightarrow> nat \<Rightarrow> u32 \<Rightarrow> memory \<Rightarrow> boot_data \<Rightarrow> (int \<times> rel_state) option" where
  "rel gblvars file vaddr m d =
    (let s = \<lparr>mem = m, gbls = gblvars\<lparr>Ehdr := file, elfdata := file\<rparr>, bip = clear_bip d, complaints = []\<rparr>;
         type = load16 m (e_type file)
     in if streqn (peek m file SELFMAG) (ELFMAG @ [0]) (int SELFMAG) \<noteq> Some True then Some (0, complain Non_ELF s)
        else if type = ET_EXEC then Some (1, rel_exec s)
        else if type = ET_LOPROC then map_option (Pair 1) (rel_compact vaddr s)
        else if type = ET_REL then map_option (Pair 1) (rel_full vaddr s)
        else Some (0, complain (Type_not_handled type) s))"

text \<open>
  What \<open>reltest\<close> writes to its output and what the second boot stage copies to its place: the three
  segments, each from its offset in the file.
\<close>

definition loaded_image :: "rel_state \<Rightarrow> byte list" where
  "loaded_image s =
    (let seg = \<lambda>offset size. peek (mem s) (elfdata (gbls s) + unat offset) (unat size); d = bip s
     in seg (bd_toffset d) (bd_tsize d) @ seg (bd_roffset d) (bd_rsize d) @ seg (bd_doffset d) (bd_dsize d))"

end
