(* ===== verification/Boot_Brel.thy ===== *)
theory Boot_Brel
  imports Elf_Image
begin

text \<open>
  The converter of a relocatable kernel into the compact format of the boot loader,
  \<open>boot/elf2brel.c\<close>: the steps of \<open>main\<close>, on the static variables of the program, its memory and its
  standard output. Every \<open>exit (1)\<close> is an error value. The calls of the system are the record
  \<open>host\<close>: what \<open>fstat\<close>, \<open>malloc\<close> and \<open>read\<close> return. The second \<open>malloc\<close>, whose result the code does
  not check, is taken to succeed; the command line sets nothing that matters.
\<close>

section \<open>State\<close>

record indices =
  i_text :: nat
  i_rodata :: nat
  i_data :: nat
  i_bss :: nat
  i_symtab :: nat
  i_strtab :: nat
  i_shstrtab :: nat
  i_rela_text :: nat
  i_rela_data :: nat
  i_rela_rodata :: nat

record nrel =
  nr_offset :: u32
  nr_value :: u32

record brel_state =
  bmem :: memory
  Elfdata :: nat
  Ehdrp :: nat
  Shdr :: nat
  ix :: indices
  textsize :: u32
  rodatasize :: u32
  datasize :: u32
  bsssize :: u32
  nrelcount :: u32
  nreltab :: "nrel list"
  stdout :: "byte list"

datatype brel_error =
    Cant_stat | Cant_malloc | Cant_read | Not_ELF | Not_relocatable | No_section_headers
  | Missing "byte list" | Unbound_symbol u32 | Bad_relocation_type byte | Zero_divide

record host =
  fstat_size :: "nat option"
  malloc_result :: nat
  heap :: memory
  stdin :: "byte list"

definition init_indices :: indices where
  "init_indices = \<lparr>i_text = 0, i_rodata = 0, i_data = 0, i_bss = 0, i_symtab = 0, i_strtab = 0,
     i_shstrtab = 0, i_rela_text = 0, i_rela_data = 0, i_rela_rodata = 0\<rparr>"

definition init_brel :: "memory \<Rightarrow> brel_state" where
  "init_brel m = \<lparr>bmem = m, Elfdata = 0, Ehdrp = 0, Shdr = 0, ix = init_indices, textsize = 0,
     rodatasize = 0, datasize = 0, bsssize = 0, nrelcount = 0, nreltab = [], stdout = []\<rparr>"

definition bset16 :: "nat \<Rightarrow> u16 \<Rightarrow> brel_state \<Rightarrow> brel_state" where
  "bset16 a v s = s\<lparr>bmem := store16 (bmem s) a v\<rparr>"

definition bset32 :: "nat \<Rightarrow> u32 \<Rightarrow> brel_state \<Rightarrow> brel_state" where
  "bset32 a v s = s\<lparr>bmem := store32 (bmem s) a v\<rparr>"

definition write_out :: "byte list \<Rightarrow> brel_state \<Rightarrow> brel_state" where
  "write_out bs s = s\<lparr>stdout := stdout s @ bs\<rparr>"

definition hdr :: "brel_state \<Rightarrow> nat \<Rightarrow> nat" where
  "hdr s k = Shdr s + Shdr_size * k"

section \<open>Reading the file\<close>

definition text_name :: "byte list" where "text_name = [46, 116, 101, 120, 116]"
definition rodata_name :: "byte list" where "rodata_name = [46, 114, 111, 100, 97, 116, 97]"
definition data_name :: "byte list" where "data_name = [46, 100, 97, 116, 97]"
definition bss_name :: "byte list" where "bss_name = [46, 98, 115, 115]"
definition symtab_name :: "byte list" where "symtab_name = [46, 115, 121, 109, 116, 97, 98]"
definition strtab_name :: "byte list" where "strtab_name = [46, 115, 116, 114, 116, 97, 98]"
definition shstrtab_name :: "byte list" where "shstrtab_name = [46, 115, 104, 115, 116, 114, 116, 97, 98]"
definition rela_name :: "byte list" where "rela_name = [46, 114, 101, 108, 97]"

definition name_section :: "memory \<Rightarrow> nat \<Rightarrow> nat \<Rightarrow> indices \<Rightarrow> indices" where
  "name_section m name index i =
    (if name_is m name text_name then i\<lparr>i_text := index\<rparr>
     else if name_is m name rodata_name then i\<lparr>i_rodata := index\<rparr>
     else if name_is m name data_name then i\<lparr>i_data := index\<rparr>
     else if name_is m name bss_name then i\<lparr>i_bss := index\<rparr>
     else if name_is m name symtab_name then i\<lparr>i_symtab := index\<rparr>
     else if name_is m name strtab_name then i\<lparr>i_strtab := index\<rparr>
     else if name_is m name (rela_name @ text_name) then i\<lparr>i_rela_text := index\<rparr>
     else if name_is m name (rela_name @ rodata_name) then i\<lparr>i_rela_rodata := index\<rparr>
     else if name_is m name (rela_name @ data_name) then i\<lparr>i_rela_data := index\<rparr>
     else i)"

definition find_sections :: "memory \<Rightarrow> nat \<Rightarrow> nat \<Rightarrow> nat \<Rightarrow> indices \<Rightarrow> indices" where
  "find_sections m shdr shstrtab shnum =
    fold (\<lambda>index. name_section m (shstrtab + unat (load32 m (sh_name (shdr + Shdr_size * index)))) index)
      [1..<shnum]"

definition missing_section :: "indices \<Rightarrow> byte list option" where
  "missing_section i =
    (if i_text i = 0 then Some text_name
     else if i_data i = 0 then Some data_name
     else if i_bss i = 0 then Some bss_name
     else if i_symtab i = 0 then Some symtab_name
     else if i_strtab i = 0 then Some strtab_name
     else if i_shstrtab i = 0 then Some shstrtab_name
     else if i_rela_text i = 0 then Some (rela_name @ text_name)
     else if i_rela_data i = 0 then Some (rela_name @ data_name)
     else None)"

definition set_sizes :: "brel_state \<Rightarrow> brel_state" where
  "set_sizes s =
    (let i = ix s; len = \<lambda>k. load32 (bmem s) (sh_size (hdr s k))
     in s\<lparr>textsize := len (i_text i),
          rodatasize := (if 0 < i_rodata i then len (i_rodata i) else rodatasize s),
          datasize := len (i_data i), bsssize := len (i_bss i)\<rparr>)"

definition pick_apart :: "nat \<Rightarrow> brel_state \<Rightarrow> brel_error + brel_state" where
  "pick_apart p s =
    (let m = bmem s; e = p;
         shdr = p + unat (load32 m (e_shoff e));
         k = unat (load16 m (e_shstrndx e));
         shstrtab = p + unat (load32 m (sh_offset (shdr + Shdr_size * k)));
         i = find_sections m shdr shstrtab (unat (load16 m (e_shnum e))) ((ix s)\<lparr>i_shstrtab := k\<rparr>)
     in if load16 m (e_type e) \<noteq> ET_REL then Inl Not_relocatable
        else if load32 m (e_shoff e) = 0 \<or> load16 m (e_shnum e) = 0 then Inl No_section_headers
        else case missing_section i of
          Some name \<Rightarrow> Inl (Missing name)
        | None \<Rightarrow> Inr (set_sizes (s\<lparr>Elfdata := p, Ehdrp := e, Shdr := shdr, ix := i\<rparr>)))"

definition ReadElfFile :: "host \<Rightarrow> brel_error + brel_state" where
  "ReadElfFile h =
    (case fstat_size h of
       None \<Rightarrow> Inl Cant_stat
     | Some len \<Rightarrow>
         (let p = malloc_result h; m = poke (heap h) p (stdin h) in
          if p = 0 then Inl Cant_malloc
          else if length (stdin h) \<noteq> len then Inl Cant_read
          else if peek m p SELFMAG \<noteq> ELFMAG then Inl Not_ELF
          else pick_apart p (init_brel m)))"

section \<open>The symbol table\<close>

definition place_symbol :: "nat \<Rightarrow> u32 \<times> brel_state \<Rightarrow> u32 \<times> brel_state" where
  "place_symbol sy = (\<lambda>(end, s).
    let i = ix s;
        shndx = load16 (bmem s) (st_shndx sy);
        value = load32 (bmem s) (st_value sy);
        to_text = bset16 (st_shndx sy) (of_nat (i_text i))
    in if shndx = SHN_COMMON then
         let s = to_text s;
             end = (end + (value - 1)) AND NOT (value - 1);
             s = bset32 (st_value sy) end s;
             end = end + load32 (bmem s) (st_size sy)
         in (end, s\<lparr>bsssize := end - textsize s - rodatasize s - datasize s\<rparr>)
       else if unat shndx = i_text i then (end, s)
       else if i_rodata i \<noteq> 0 \<and> unat shndx = i_rodata i then
         (end, bset32 (st_value sy) (value + textsize s) (to_text s))
       else if unat shndx = i_data i then
         (end, bset32 (st_value sy) (value + (textsize s + rodatasize s)) (to_text s))
       else if unat shndx = i_bss i then
         (end, bset32 (st_value sy) (value + (textsize s + rodatasize s + datasize s)) (to_text s))
       else (end, s))"

fun place_symbols :: "nat \<Rightarrow> nat \<Rightarrow> nat \<Rightarrow> u32 \<times> brel_state \<Rightarrow> u32 \<times> brel_state" where
  "place_symbols symtab symidx 0 es = es"
| "place_symbols symtab symidx (Suc n) es =
    place_symbols symtab (Suc symidx) n (place_symbol (symtab + Sym_size * symidx) es)"

definition name_symbol :: "nat \<Rightarrow> brel_state \<Rightarrow> brel_state" where
  "name_symbol sy s =
    (let i = ix s;
         name = load32 (bmem s) (st_name sy);
         symname = Elfdata s + unat (load32 (bmem s) (sh_offset (hdr s (i_strtab i)))) + unat name;
         define = \<lambda>v. bset16 (st_shndx sy) (of_nat (i_text i)) (bset32 (st_value sy) v s)
     in if name \<noteq> 0 then
          if name_is (bmem s) symname etext_name then define (textsize s)
          else if name_is (bmem s) symname edata_name then define (textsize s + rodatasize s + datasize s)
          else if name_is (bmem s) symname end_name then
            define (textsize s + rodatasize s + datasize s + bsssize s)
          else s
        else s)"

fun name_symbols :: "nat \<Rightarrow> nat \<Rightarrow> nat \<Rightarrow> brel_state \<Rightarrow> brel_state" where
  "name_symbols symtab symidx 0 s = s"
| "name_symbols symtab symidx (Suc n) s =
    name_symbols symtab (Suc symidx) n (name_symbol (symtab + Sym_size * symidx) s)"

definition ProcessSymtab :: "brel_state \<Rightarrow> brel_error + brel_state" where
  "ProcessSymtab s =
    (let h = hdr s (i_symtab (ix s)) in
     case udiv (load32 (bmem s) (sh_size h)) (load32 (bmem s) (sh_entsize h)) of
       None \<Rightarrow> Inl Zero_divide
     | Some nsyms \<Rightarrow>
         (let end = textsize s + rodatasize s + datasize s + bsssize s;
              symtab = Elfdata s + unat (load32 (bmem s) (sh_offset h));
              s = snd (place_symbols symtab 0 (unat nsyms) (end, s))
          in Inr (name_symbols symtab 0 (unat nsyms) s)))"

section \<open>The relocation table\<close>

definition DoRelEntry :: "nat \<Rightarrow> brel_state \<Rightarrow> brel_error + nrel" where
  "DoRelEntry relp s =
    (let m = bmem s;
         symtab = Elfdata s + unat (load32 m (sh_offset (hdr s (i_symtab (ix s)))));
         k = ELF32_R_SYM (load32 m (r_info relp));
         sy = symtab + Sym_size * unat k;
         shndx = load16 m (st_shndx sy);
         reltype = ELF32_R_TYPE (load32 m (r_info relp));
         offset = load32 m (r_offset relp);
         value = load32 m (r_addend relp) + load32 m (st_value sy)
     in if unat shndx \<noteq> i_text (ix s) \<and> shndx \<noteq> SHN_ABS then Inl (Unbound_symbol k)
        else if reltype \<noteq> R_68K_32 then Inl (Bad_relocation_type reltype)
        else Inr \<lparr>nr_offset = (if shndx = SHN_ABS then offset OR 0x80000000 else offset), nr_value = value\<rparr>)"

fun rel_entries :: "u32 \<Rightarrow> nat \<Rightarrow> nat \<Rightarrow> brel_state \<Rightarrow> brel_error + brel_state" where
  "rel_entries base oreltabp 0 s = Inr s"
| "rel_entries base oreltabp (Suc n) s =
    (case DoRelEntry oreltabp s of
       Inl e \<Rightarrow> Inl e
     | Inr r \<Rightarrow>
         rel_entries base (oreltabp + Rela_size) n
           (s\<lparr>nreltab := nreltab s @ [r\<lparr>nr_offset := nr_offset r + base\<rparr>]\<rparr>))"

definition entries :: "brel_state \<Rightarrow> nat \<Rightarrow> u32 option" where
  "entries s k = udiv (load32 (bmem s) (sh_size (hdr s k))) (load32 (bmem s) (sh_entsize (hdr s k)))"

definition oreltab :: "brel_state \<Rightarrow> nat \<Rightarrow> nat" where
  "oreltab s k = Elfdata s + unat (load32 (bmem s) (sh_offset (hdr s k)))"

definition fill_table :: "u32 \<Rightarrow> u32 \<Rightarrow> u32 \<Rightarrow> brel_state \<Rightarrow> brel_error + brel_state" where
  "fill_table ntrel nrodrel ndrel s =
    (case rel_entries 0 (oreltab s (i_rela_text (ix s))) (unat ntrel) s of
       Inl e \<Rightarrow> Inl e
     | Inr s \<Rightarrow>
         (case (if 0 < nrodrel
                then rel_entries (textsize s) (oreltab s (i_rela_rodata (ix s))) (unat nrodrel) s
                else Inr s) of
            Inl e \<Rightarrow> Inl e
          | Inr s \<Rightarrow>
              rel_entries (textsize s + rodatasize s) (oreltab s (i_rela_data (ix s))) (unat ndrel) s))"

text \<open>The local variable \<open>nrodrel\<close> is set only for a file with a section \<open>.rela.rodata\<close>; \<open>junk\<close> is the
  value it has otherwise.\<close>

definition GenRelocTable :: "u32 \<Rightarrow> brel_state \<Rightarrow> brel_error + brel_state" where
  "GenRelocTable junk s =
    (let i = ix s in
     case entries s (i_rela_text i) of
       None \<Rightarrow> Inl Zero_divide
     | Some ntrel \<Rightarrow>
         (case (if 0 < i_rela_rodata i then entries s (i_rela_rodata i) else Some junk) of
            None \<Rightarrow> Inl Zero_divide
          | Some nrodrel \<Rightarrow>
              (case entries s (i_rela_data i) of
                 None \<Rightarrow> Inl Zero_divide
               | Some ndrel \<Rightarrow>
                   fill_table ntrel nrodrel ndrel (s\<lparr>nrelcount := ntrel + nrodrel + ndrel, nreltab := []\<rparr>))))"

section \<open>Writing the file\<close>

definition newshstrtab :: "byte list" where
  "newshstrtab = text_name @ [0] @ shstrtab_name @ [0] @ [46, 114, 101, 108, 46, 98, 111, 111, 116] @ [0] @ [0, 0]"

definition SHSTRTABOFF :: u32 where "SHSTRTABOFF = 6"
definition RELBOOTOFF :: u32 where "RELBOOTOFF = 16"

definition nrel_bytes :: "nrel \<Rightarrow> byte list" where
  "nrel_bytes r = bytes32 (nr_offset r) @ bytes32 (nr_value r)"

definition new_ehdr :: "brel_state \<Rightarrow> brel_state" where
  "new_ehdr s =
    (let e = Ehdrp s;
         s = bset32 (e_phoff e) 0 (bset32 (e_entry e) 0 (bset16 (e_type e) ET_LOPROC s));
         s = bset32 (e_shoff e) (of_nat Ehdr_size + textsize s + rodatasize s + datasize s) s;
         s = bset32 (e_shoff e)
               (load32 (bmem s) (e_shoff e) + (of_nat (length newshstrtab) + nrelcount s * 8)) s
     in bset16 (e_shstrndx e) 2 (bset16 (e_shnum e) 4 (bset16 (e_phnum e) 0 (bset16 (e_phentsize e) 0 s))))"

definition write_contents :: "brel_state \<Rightarrow> brel_state" where
  "write_contents s =
    (let at = \<lambda>k. Elfdata s + unat (load32 (bmem s) (sh_offset (hdr s k)));
         i = ix s; m = bmem s;
         s = write_out (peek m (Ehdrp s) Ehdr_size) s;
         s = write_out (peek m (at (i_text i)) (unat (textsize s))) s;
         s = (if 0 < rodatasize s then write_out (peek m (at (i_rodata i)) (unat (rodatasize s))) s else s);
         s = write_out (peek m (at (i_data i)) (unat (datasize s))) s;
         s = write_out newshstrtab s
     in write_out (take (unat (nrelcount s * 8)) (concat (map nrel_bytes (nreltab s)))) s)"

definition write_headers :: "brel_state \<Rightarrow> brel_state" where
  "write_headers s =
    (let t = hdr s (i_text (ix s)); h = hdr s (i_shstrtab (ix s)); r = hdr s (i_rela_text (ix s));
         s = write_out (peek (bmem s) (Shdr s) Shdr_size) s;
         s = bset32 (sh_name t) 0 s;
         s = bset32 (sh_offset t) (of_nat Ehdr_size) s;
         s = bset32 (sh_size t) (textsize s + rodatasize s + datasize s) s;
         s = write_out (peek (bmem s) t Shdr_size) s;
         s = bset32 (sh_name h) SHSTRTABOFF s;
         s = bset32 (sh_offset h) (load32 (bmem s) (sh_offset t)) s;
         s = bset32 (sh_offset h) (load32 (bmem s) (sh_offset h) + load32 (bmem s) (sh_size t)) s;
         s = bset32 (sh_size h) (of_nat (length newshstrtab)) s;
         s = write_out (peek (bmem s) h Shdr_size) s;
         s = bset32 (sh_name r) RELBOOTOFF s;
         s = bset32 (sh_type r) SHT_LOUSER s;
         s = bset32 (sh_offset r) (load32 (bmem s) (sh_offset h)) s;
         s = bset32 (sh_offset r) (load32 (bmem s) (sh_offset r) + load32 (bmem s) (sh_size h)) s;
         s = bset32 (sh_link r) 0 s;
         s = bset32 (sh_info r) 1 s;
         s = bset32 (sh_size r) (nrelcount s * 8) s;
         s = bset32 (sh_entsize r) 8 s
     in write_out (peek (bmem s) r Shdr_size) s)"

definition WriteElfFile :: "brel_state \<Rightarrow> brel_state" where
  "WriteElfFile s = write_headers (write_contents (new_ehdr s))"

text \<open>\<open>main\<close>: the bytes written to the standard output, or the reason of the exit.\<close>

definition elf2brel :: "u32 \<Rightarrow> host \<Rightarrow> brel_error + byte list" where
  "elf2brel junk h =
    (case ReadElfFile h of
       Inl e \<Rightarrow> Inl e
     | Inr s \<Rightarrow>
         (case ProcessSymtab s of
            Inl e \<Rightarrow> Inl e
          | Inr s \<Rightarrow>
              (case GenRelocTable junk s of
                 Inl e \<Rightarrow> Inl e
               | Inr s \<Rightarrow> Inr (stdout (WriteElfFile s)))))"

end
