(* ===== verification/Elf_Object.thy ===== *)
theory Elf_Object
  imports Boot_Brel
begin

text \<open>
  Relocatable kernels and what linking one at an address means.

  \<open>linked F v\<close> is the specification both programs of this part are measured against: the contents of
  text, read-only data and data one after the other, with the value of a symbol put into every slot a
  relocation record names. \<open>kernel_object F v\<close> says which files and addresses it is about: the sections
  the two programs look for by name and by type are the same ones, every table lies in the file, nothing
  that is written overlaps something else, every relocation is of the one type the boot loader knows,
  inside its section and against a defined symbol, and the address is a multiple of the alignments.
\<close>

section \<open>The parts of a file\<close>

definition file_mem :: "byte list \<Rightarrow> memory" where
  "file_mem F = (\<lambda>x. if x < length F then F ! x else 0)"

definition o_shoff :: "byte list \<Rightarrow> nat" where "o_shoff F = unat (load32 (file_mem F) (e_shoff 0))"
definition o_shnum :: "byte list \<Rightarrow> nat" where "o_shnum F = unat (load16 (file_mem F) (e_shnum 0))"
definition o_shstr :: "byte list \<Rightarrow> nat" where "o_shstr F = unat (load16 (file_mem F) (e_shstrndx 0))"

definition o_hdr :: "byte list \<Rightarrow> nat \<Rightarrow> nat" where
  "o_hdr F k = o_shoff F + Shdr_size * k"

definition o_off :: "byte list \<Rightarrow> nat \<Rightarrow> nat" where
  "o_off F k = unat (load32 (file_mem F) (sh_offset (o_hdr F k)))"

definition o_size :: "byte list \<Rightarrow> nat \<Rightarrow> u32" where
  "o_size F k = load32 (file_mem F) (sh_size (o_hdr F k))"

definition o_entsize :: "byte list \<Rightarrow> nat \<Rightarrow> u32" where
  "o_entsize F k = load32 (file_mem F) (sh_entsize (o_hdr F k))"

definition o_count :: "byte list \<Rightarrow> nat \<Rightarrow> nat" where
  "o_count F k = unat (o_size F k div o_entsize F k)"

definition o_names :: "byte list \<Rightarrow> indices" where
  "o_names F = find_sections (file_mem F) (o_shoff F) (o_off F (o_shstr F)) (o_shnum F)
     (init_indices\<lparr>i_shstrtab := o_shstr F\<rparr>)"

datatype section_kind = Text | Rodata | Data | Bss | Symtab | Rela | Other

definition kind_of :: "memory \<Rightarrow> nat \<Rightarrow> section_kind" where
  "kind_of m p =
    (let type = load32 m (sh_type p); flags = load32 m (sh_flags p); len = load32 m (sh_size p) in
     if type = SHT_PROGBITS then
       if 0 < len \<and> flags AND SHF_ALLOC \<noteq> 0 then
         if flags AND SHF_EXECINSTR \<noteq> 0 then Text else if flags AND SHF_WRITE \<noteq> 0 then Data else Rodata
       else Other
     else if type = SHT_NOBITS then if flags AND SHF_WRITE \<noteq> 0 \<and> 0 < len then Bss else Other
     else if type = SHT_SYMTAB then Symtab
     else if type = SHT_RELA then Rela
     else Other)"

record esym =
  es_name :: u32
  es_value :: u32
  es_size :: u32
  es_shndx :: u16

definition load_sym :: "memory \<Rightarrow> nat \<Rightarrow> esym" where
  "load_sym m p = \<lparr>es_name = load32 m (st_name p), es_value = load32 m (st_value p),
     es_size = load32 m (st_size p), es_shndx = load16 m (st_shndx p)\<rparr>"

record erela =
  er_offset :: u32
  er_info :: u32
  er_addend :: u32

definition load_rela :: "memory \<Rightarrow> nat \<Rightarrow> erela" where
  "load_rela m p = \<lparr>er_offset = load32 m (r_offset p), er_info = load32 m (r_info p),
     er_addend = load32 m (r_addend p)\<rparr>"

definition load_syms :: "memory \<Rightarrow> nat \<Rightarrow> nat \<Rightarrow> esym list" where
  "load_syms m p n = map (\<lambda>j. load_sym m (p + Sym_size * j)) [0..<n]"

definition load_relas :: "memory \<Rightarrow> nat \<Rightarrow> nat \<Rightarrow> erela list" where
  "load_relas m p n = map (\<lambda>j. load_rela m (p + Rela_size * j)) [0..<n]"

definition o_syms :: "byte list \<Rightarrow> esym list" where
  "o_syms F = (let k = i_symtab (o_names F) in load_syms (file_mem F) (o_off F k) (o_count F k))"

definition o_strtab :: "byte list \<Rightarrow> nat" where
  "o_strtab F = o_off F (i_strtab (o_names F))"

text \<open>The contents and the relocation records of a section; index 0 stands for a section that the file
  does not have.\<close>

definition o_content :: "byte list \<Rightarrow> nat \<Rightarrow> nat \<times> nat" where
  "o_content F k = (if k = 0 then (0, 0) else (o_off F k, unat (o_size F k)))"

definition o_rela_region :: "byte list \<Rightarrow> nat \<Rightarrow> nat \<times> nat" where
  "o_rela_region F k = (if k = 0 then (0, 0) else (o_off F k, Rela_size * o_count F k))"

definition o_relas :: "byte list \<Rightarrow> nat \<Rightarrow> erela list" where
  "o_relas F k = (if k = 0 then [] else load_relas (file_mem F) (o_off F k) (o_count F k))"

definition text_size :: "byte list \<Rightarrow> u32" where "text_size F = o_size F (i_text (o_names F))"
definition rodata_size :: "byte list \<Rightarrow> u32" where
  "rodata_size F = (if i_rodata (o_names F) = 0 then 0 else o_size F (i_rodata (o_names F)))"
definition data_size :: "byte list \<Rightarrow> u32" where "data_size F = o_size F (i_data (o_names F))"
definition bss_size :: "byte list \<Rightarrow> u32" where "bss_size F = o_size F (i_bss (o_names F))"

section \<open>Linking\<close>

definition align_up :: "u32 \<Rightarrow> u32 \<Rightarrow> u32" where
  "align_up x a = (x + (a - 1)) AND NOT (a - 1)"

text \<open>The end of the image after the common symbols, and the offset each one gets.\<close>

fun commons :: "u32 \<Rightarrow> esym list \<Rightarrow> u32 \<times> u32 list" where
  "commons e [] = (e, [])"
| "commons e (s # ss) =
    (if es_shndx s = SHN_COMMON then
       let x = align_up e (es_value s); (e', xs) = commons (x + es_size s) ss in (e', x # xs)
     else let (e', xs) = commons e ss in (e', 0 # xs))"

definition image_end :: "byte list \<Rightarrow> u32" where
  "image_end F = fst (commons (text_size F + rodata_size F + data_size F + bss_size F) (o_syms F))"

definition common_offset :: "byte list \<Rightarrow> nat \<Rightarrow> u32" where
  "common_offset F j = snd (commons (text_size F + rodata_size F + data_size F + bss_size F) (o_syms F)) ! j"

datatype special = Etext | Edata | End

definition special_name :: "memory \<Rightarrow> nat \<Rightarrow> u32 \<Rightarrow> special option" where
  "special_name m strtab name =
    (if name = 0 then None
     else if name_is m (strtab + unat name) etext_name then Some Etext
     else if name_is m (strtab + unat name) edata_name then Some Edata
     else if name_is m (strtab + unat name) end_name then Some End
     else None)"

text \<open>Where a symbol lies: at an absolute address, or at an offset from the start of the image.\<close>

datatype place = Absolute u32 | Relative u32

definition section_place :: "byte list \<Rightarrow> nat \<Rightarrow> place option" where
  "section_place F j =
    (let s = o_syms F ! j; i = o_names F; k = unat (es_shndx s); v = es_value s in
     if es_shndx s = SHN_COMMON then Some (Relative (common_offset F j))
     else if es_shndx s = SHN_ABS then Some (Absolute v)
     else if k = i_text i then Some (Relative v)
     else if k = i_rodata i \<and> k \<noteq> 0 then Some (Relative (v + text_size F))
     else if k = i_data i then Some (Relative (v + (text_size F + rodata_size F)))
     else if k = i_bss i then Some (Relative (v + (text_size F + rodata_size F + data_size F)))
     else None)"

definition symbol_place :: "byte list \<Rightarrow> nat \<Rightarrow> place option" where
  "symbol_place F j =
    (case special_name (file_mem F) (o_strtab F) (es_name (o_syms F ! j)) of
       Some Etext \<Rightarrow> Some (Relative (text_size F))
     | Some Edata \<Rightarrow> Some (Relative (text_size F + rodata_size F + data_size F))
     | Some End \<Rightarrow> Some (Relative (image_end F))
     | None \<Rightarrow> section_place F j)"

fun address :: "u32 \<Rightarrow> place \<Rightarrow> u32" where
  "address v (Absolute x) = x"
| "address v (Relative x) = v + x"

definition rela_sym :: "erela \<Rightarrow> nat" where
  "rela_sym r = unat (ELF32_R_SYM (er_info r))"

definition rela_value :: "byte list \<Rightarrow> u32 \<Rightarrow> erela \<Rightarrow> u32" where
  "rela_value F v r = address v (the (symbol_place F (rela_sym r))) + er_addend r"

definition apply_rela :: "byte list \<Rightarrow> u32 \<Rightarrow> erela \<Rightarrow> byte list \<Rightarrow> byte list" where
  "apply_rela F v r bs = put32 (unat (er_offset r)) (rela_value F v r) bs"

definition linked_section :: "byte list \<Rightarrow> u32 \<Rightarrow> nat \<Rightarrow> nat \<Rightarrow> byte list" where
  "linked_section F v k r =
    fold (apply_rela F v) (o_relas F r) (peek (file_mem F) (fst (o_content F k)) (snd (o_content F k)))"

definition linked :: "byte list \<Rightarrow> u32 \<Rightarrow> byte list" where
  "linked F v =
    (let i = o_names F in
     linked_section F v (i_text i) (i_rela_text i) @
     linked_section F v (i_rodata i) (i_rela_rodata i) @
     linked_section F v (i_data i) (i_rela_data i))"

section \<open>Well-formed kernels\<close>

definition inside :: "byte list \<Rightarrow> nat \<times> nat \<Rightarrow> bool" where
  "inside F r = (fst r + snd r \<le> length F)"

definition disjoint :: "nat \<times> nat \<Rightarrow> nat \<times> nat \<Rightarrow> bool" where
  "disjoint r q = separate (fst r) (snd r) (fst q) (snd q)"

definition string_table :: "byte list \<Rightarrow> nat \<Rightarrow> bool" where
  "string_table F k = (0 < o_size F k \<and> inside F (o_off F k, unat (o_size F k)) \<and>
     file_mem F (o_off F k + unat (o_size F k) - 1) = 0)"

definition header_region :: "byte list \<Rightarrow> nat \<times> nat" where
  "header_region F = (o_shoff F, Shdr_size * o_shnum F)"

definition symbol_region :: "byte list \<Rightarrow> nat \<times> nat" where
  "symbol_region F = (let k = i_symtab (o_names F) in (o_off F k, Sym_size * o_count F k))"

definition written :: "byte list \<Rightarrow> (nat \<times> nat) list" where
  "written F = (let i = o_names F in
     [header_region F, symbol_region F, o_content F (i_text i), o_content F (i_rodata i), o_content F (i_data i)])"

definition read_only :: "byte list \<Rightarrow> (nat \<times> nat) list" where
  "read_only F = (let i = o_names F in
     [(0, Ehdr_size), (o_strtab F, unat (o_size F (i_strtab i))), o_rela_region F (i_rela_text i),
      o_rela_region F (i_rela_rodata i), o_rela_region F (i_rela_data i)])"

definition elf_header_ok :: "byte list \<Rightarrow> bool" where
  "elf_header_ok F = (Ehdr_size \<le> length F \<and> take SELFMAG F = ELFMAG \<and>
     load16 (file_mem F) (e_type 0) = ET_REL \<and> o_shoff F \<noteq> 0 \<and> 0 < o_shnum F \<and> o_shnum F < 0xff00 \<and>
     o_shstr F < o_shnum F \<and> string_table F (o_shstr F) \<and>
     (\<forall>k < o_shnum F. load32 (file_mem F) (sh_name (o_hdr F k)) < o_size F (o_shstr F)))"

definition sections_ok :: "byte list \<Rightarrow> bool" where
  "sections_ok F =
    (let i = o_names F in
     missing_section i = None \<and> kind_of (file_mem F) (o_hdr F (o_shstr F)) = Other \<and>
     (\<forall>k < o_shnum F.
        (kind_of (file_mem F) (o_hdr F k) = Text) = (k = i_text i) \<and>
        (kind_of (file_mem F) (o_hdr F k) = Rodata) = (k = i_rodata i \<and> k \<noteq> 0) \<and>
        (kind_of (file_mem F) (o_hdr F k) = Data) = (k = i_data i) \<and>
        (kind_of (file_mem F) (o_hdr F k) = Bss) = (k = i_bss i) \<and>
        (kind_of (file_mem F) (o_hdr F k) = Symtab) = (k = i_symtab i) \<and>
        (kind_of (file_mem F) (o_hdr F k) = Rela) =
          (k = i_rela_text i \<or> k = i_rela_rodata i \<and> k \<noteq> 0 \<or> k = i_rela_data i)))"

definition rela_ok :: "byte list \<Rightarrow> nat \<Rightarrow> erela \<Rightarrow> bool" where
  "rela_ok F len e = (ELF32_R_TYPE (er_info e) = R_68K_32 \<and> rela_sym e < length (o_syms F) \<and>
     unat (er_offset e) + 4 \<le> len \<and> symbol_place F (rela_sym e) \<noteq> None)"

definition rela_section_ok :: "byte list \<Rightarrow> nat \<Rightarrow> nat \<Rightarrow> bool" where
  "rela_section_ok F r k =
    (o_entsize F r = of_nat Rela_size \<and>
     load32 (file_mem F) (sh_link (o_hdr F r)) = of_nat (i_symtab (o_names F)) \<and>
     load32 (file_mem F) (sh_info (o_hdr F r)) = of_nat k \<and> k \<noteq> 0 \<and>
     list_all (rela_ok F (unat (o_size F k))) (o_relas F r))"

definition tables_ok :: "byte list \<Rightarrow> bool" where
  "tables_ok F =
    (let i = o_names F in
     o_entsize F (i_symtab i) = of_nat Sym_size \<and>
     load32 (file_mem F) (sh_link (o_hdr F (i_symtab i))) = of_nat (i_strtab i) \<and>
     string_table F (i_strtab i) \<and>
     list_all (\<lambda>s. es_name s < o_size F (i_strtab i)) (o_syms F) \<and>
     rela_section_ok F (i_rela_text i) (i_text i) \<and>
     (i_rela_rodata i \<noteq> 0 \<longrightarrow> rela_section_ok F (i_rela_rodata i) (i_rodata i)) \<and>
     rela_section_ok F (i_rela_data i) (i_data i))"

definition layout_ok :: "byte list \<Rightarrow> bool" where
  "layout_ok F =
    (list_all (inside F) (written F @ read_only F) \<and> sorted_wrt disjoint (written F) \<and>
     list_all (\<lambda>w. list_all (disjoint w) (read_only F)) (written F))"

definition rela_count :: "byte list \<Rightarrow> nat" where
  "rela_count F = (let i = o_names F in
     length (o_relas F (i_rela_text i)) + length (o_relas F (i_rela_rodata i)) + length (o_relas F (i_rela_data i)))"

definition image_size :: "byte list \<Rightarrow> nat" where
  "image_size F = unat (text_size F) + unat (rodata_size F) + unat (data_size F)"

definition address_ok :: "byte list \<Rightarrow> u32 \<Rightarrow> bool" where
  "address_ok F v =
    (v \<noteq> 0 \<and> unat v + image_size F < 2 ^ 32 \<and> image_size F + 8 * rela_count F + 80 < 2 ^ 31 \<and>
     list_all (\<lambda>s. es_shndx s = SHN_COMMON \<longrightarrow>
       list_ex (\<lambda>k. es_value s = 2 ^ k \<and> unat v mod 2 ^ k = 0) [0..<32]) (o_syms F))"

definition kernel_object :: "byte list \<Rightarrow> u32 \<Rightarrow> bool" where
  "kernel_object F v = (elf_header_ok F \<and> sections_ok F \<and> tables_ok F \<and> layout_ok F \<and> address_ok F v)"

section \<open>Memory that holds a file\<close>

definition agree :: "byte list \<Rightarrow> nat \<Rightarrow> memory \<Rightarrow> nat \<times> nat \<Rightarrow> bool" where
  "agree F a m r = (\<forall>x. fst r \<le> x \<and> x < fst r + snd r \<longrightarrow> m (a + x) = file_mem F x)"

definition loaded_at :: "byte list \<Rightarrow> nat \<Rightarrow> memory \<Rightarrow> bool" where
  "loaded_at F a m = (peek m a (length F) = F)"

lemma loaded_agree: "loaded_at F a m \<Longrightarrow> inside F r \<Longrightarrow> agree F a m r"
  unfolding loaded_at_def agree_def inside_def file_mem_def
  by (metis add_less_cancel_left less_le_trans nth_peek)

lemma agreeD: "agree F a m r \<Longrightarrow> fst r \<le> p \<Longrightarrow> p + i < fst r + snd r \<Longrightarrow> m (a + p + i) = file_mem F (p + i)"
  by (simp add: agree_def add.assoc)

lemma agree_load16:
  assumes "agree F a m r" "fst r \<le> p" "p + 2 \<le> fst r + snd r"
  shows "load16 m (a + p) = load16 (file_mem F) p"
  using agreeD [OF assms(1,2), of 0] agreeD [OF assms(1,2), of 1] assms(3) by (simp add: load16_def)

lemma agree_load32:
  assumes "agree F a m r" "fst r \<le> p" "p + 4 \<le> fst r + snd r"
  shows "load32 m (a + p) = load32 (file_mem F) p"
proof -
  have "load16 m (a + p) = load16 (file_mem F) p"
    using assms by (intro agree_load16 [of F a m r]) auto
  moreover have "load16 m (a + (p + 2)) = load16 (file_mem F) (p + 2)"
    using assms by (intro agree_load16 [of F a m r]) auto
  ultimately show ?thesis by (simp add: load32_def add.assoc)
qed

lemma agree_peek:
  assumes "agree F a m r" "fst r \<le> p" "p + n \<le> fst r + snd r"
  shows "peek m (a + p) n = peek (file_mem F) p n"
  by (rule nth_equalityI) (use agreeD [OF assms(1,2)] assms(3) in auto)

lemma agree_poke:
  "agree F a m r \<Longrightarrow> separate (fst r) (snd r) q (length bs) \<Longrightarrow> agree F a (poke m (a + q) bs) r"
  by (auto simp: agree_def poke_def separate_def)

lemma agree_name:
  assumes "agree F a m (p, n)" "q < n" "file_mem F (p + n - 1) = 0" "c_string lit"
  shows "name_is m (a + (p + q)) lit = name_is (file_mem F) (p + q) lit"
proof -
  let ?f = "file_mem F"
  have eq: "m (a + (p + x)) = ?f (p + x)" if "x < n" for x
    using assms(1) that by (simp add: agree_def)
  have nul: "?f (p + (n - 1)) = 0" "m (a + (p + (n - 1))) = 0"
    using assms(2,3) eq [of "n - 1"] by simp_all
  have short: "q + length lit < n" if w: "peek M (b + (p + q)) (length lit + 1) = lit @ [0]"
    and z: "M (b + (p + (n - 1))) = 0" for M b
  proof (rule ccontr)
    assume "\<not> q + length lit < n"
    then have k: "n - 1 - q < length lit" using assms(2) by linarith
    have "lit ! (n - 1 - q) = peek M (b + (p + q)) (length lit + 1) ! (n - 1 - q)"
      using k w by (simp add: nth_append)
    also have "\<dots> = M (b + (p + q) + (n - 1 - q))" using k by simp
    also have "b + (p + q) + (n - 1 - q) = b + (p + (n - 1))" using assms(2) by simp
    finally have "lit ! (n - 1 - q) = 0" using z by simp
    then show False using k assms(4) by (auto simp: c_string_def dest: nth_mem)
  qed
  have same: "peek m (a + (p + q)) (length lit + 1) = peek ?f (p + q) (length lit + 1)"
    if "q + length lit < n"
    using that eq by (auto intro!: nth_equalityI simp: add.assoc)
  show ?thesis
    unfolding name_is_peek [OF assms(4)]
    using short [of m a] short [of ?f 0] same nul by auto
qed

end
