(* ===== verification/Boot_Rel_Frame.thy ===== *)
theory Boot_Rel_Frame
  imports Boot_Rel Elf_Object
begin

text \<open>
  The frame of the relocation: which parts of the copy of a kernel stay as they are in the file while
  section addresses, symbols and contents are written, one lemma for each kind of write.
\<close>

section \<open>Regions\<close>

lemma disjoint_sym: "disjoint r q = disjoint q r"
  by (simp add: disjoint_def separate_sym)

abbreviation (input) text_region :: "byte list \<Rightarrow> nat \<times> nat" where
  "text_region F \<equiv> o_content F (i_text (o_names F))"
abbreviation (input) rodata_region :: "byte list \<Rightarrow> nat \<times> nat" where
  "rodata_region F \<equiv> o_content F (i_rodata (o_names F))"
abbreviation (input) data_region :: "byte list \<Rightarrow> nat \<times> nat" where
  "data_region F \<equiv> o_content F (i_data (o_names F))"

definition free :: "byte list \<Rightarrow> nat \<times> nat \<Rightarrow> bool" where
  "free F w = (disjoint (header_region F) w \<and> list_all (disjoint w) (read_only F))"

definition within :: "nat \<times> nat \<Rightarrow> nat \<Rightarrow> nat \<Rightarrow> bool" where
  "within w q n = (fst w \<le> q \<and> q + n \<le> fst w + snd w)"

lemma layout_free:
  assumes "layout_ok F"
  shows "free F (symbol_region F)" "free F (text_region F)" "free F (rodata_region F)" "free F (data_region F)"
  using assms by (simp_all add: layout_ok_def free_def written_def Let_def)

lemma layout_disjoint:
  assumes "layout_ok F"
  shows "disjoint (symbol_region F) (text_region F)" "disjoint (symbol_region F) (rodata_region F)"
    "disjoint (symbol_region F) (data_region F)" "disjoint (text_region F) (rodata_region F)"
    "disjoint (text_region F) (data_region F)" "disjoint (rodata_region F) (data_region F)"
    "disjoint (header_region F) (symbol_region F)" "disjoint (header_region F) (text_region F)"
    "disjoint (header_region F) (rodata_region F)" "disjoint (header_region F) (data_region F)"
  using assms by (simp_all add: layout_ok_def written_def Let_def)

lemma layout_inside:
  assumes "layout_ok F"
  shows "inside F (symbol_region F)" "inside F (text_region F)" "inside F (rodata_region F)"
    "inside F (data_region F)" "inside F (header_region F)" "list_all (inside F) (read_only F)"
  using assms by (simp_all add: layout_ok_def written_def Let_def)

lemma layout_header_read_only: "layout_ok F \<Longrightarrow> list_all (disjoint (header_region F)) (read_only F)"
  by (simp add: layout_ok_def written_def Let_def)

lemma disjoint_within: "disjoint r w \<Longrightarrow> within w q n \<Longrightarrow> within r p k \<Longrightarrow> separate (a + p) k (a + q) n"
  by (auto simp: disjoint_def within_def separate_def)

lemma agree_poke_within: "agree F a m r \<Longrightarrow> disjoint w r \<Longrightarrow> within w q (length bs) \<Longrightarrow> agree F a (poke m (a + q) bs) r"
  by (rule agree_poke) (auto simp: disjoint_def within_def separate_def)

lemma within_self: "within r (fst r) (snd r)"
  by (simp add: within_def)

lemma hdr_within: "k < o_shnum F \<Longrightarrow> c \<le> 36 \<Longrightarrow> within (header_region F) (o_hdr F k + c) 4"
  by (simp add: within_def header_region_def o_hdr_def)

lemma hdr_apart:
  assumes "c \<le> 36" "c' \<le> 36" "4 dvd c" "4 dvd c'" "j \<noteq> k \<or> c \<noteq> c'"
  shows "separate (a + o_hdr F j + c) 4 (a + o_hdr F k + c') 4"
proof -
  consider "j < k" | "k < j" | "j = k" "c \<noteq> c'" using assms(5) by linarith
  then show ?thesis
  proof cases
    case 3
    then have "c + 4 \<le> c' \<or> c' + 4 \<le> c" using assms(3,4) by (auto elim!: dvdE)
    then show ?thesis using 3 by (auto simp: separate_def)
  qed (use assms(1,2) in \<open>auto simp: separate_def o_hdr_def\<close>)
qed

lemma load_store_hdr:
  assumes "c \<le> 36" "c' \<le> 36" "4 dvd c" "4 dvd c'"
  shows "load32 (store32 m (a + o_hdr F k + c) v) (a + o_hdr F j + c') =
    (if j = k \<and> c = c' then v else load32 m (a + o_hdr F j + c'))"
proof (cases "j = k \<and> c = c'")
  case False
  then have "separate (a + o_hdr F j + c') 4 (a + o_hdr F k + c) 4"
    using hdr_apart [OF assms(2,1,4,3)] by metis
  then have "load32 (store32 m (a + o_hdr F k + c) v) (a + o_hdr F j + c') = load32 m (a + o_hdr F j + c')"
    by (simp add: store32_def load32_poke)
  then show ?thesis using False by auto
qed simp

section \<open>What stays\<close>

definition fixed_fields :: "nat set" where
  "fixed_fields = {0, 4, 8, 16, 24, 28, 36}"

lemma fixed_le: "c \<in> fixed_fields \<Longrightarrow> c \<le> 36"
  by (auto simp: fixed_fields_def)

definition keeps :: "byte list \<Rightarrow> nat \<Rightarrow> memory \<Rightarrow> bool" where
  "keeps F a m =
    (list_all (agree F a m) (read_only F) \<and>
     (\<forall>k < o_shnum F. \<forall>c \<in> fixed_fields.
        load32 m (a + o_hdr F k + c) = load32 (file_mem F) (o_hdr F k + c)) \<and>
     (\<forall>k < o_shnum F. k \<noteq> i_bss (o_names F) \<longrightarrow> load32 m (a + o_hdr F k + 20) = o_size F k))"

lemma keeps_loaded:
  assumes "layout_ok F" "loaded_at F a m"
  shows "keeps F a m"
proof -
  have H: "agree F a m (header_region F)" using assms layout_inside loaded_agree by blast
  have "load32 m (a + o_hdr F k + c) = load32 (file_mem F) (o_hdr F k + c)" if "k < o_shnum F" "c \<le> 36" for k c
    using agree_load32 [OF H, of "o_hdr F k + c"] hdr_within [OF that] by (simp add: within_def add.assoc)
  moreover have "list_all (agree F a m) (read_only F)"
    using layout_inside(6) [OF assms(1)] loaded_agree [OF assms(2)] by (auto simp: list_all_iff)
  ultimately show ?thesis by (simp add: keeps_def fixed_le o_size_def)
qed

lemma keeps_poke:
  assumes "free F w" "within w q (length bs)" "keeps F a m"
  shows "keeps F a (poke m (a + q) bs)"
proof -
  have "load32 (poke m (a + q) bs) (a + o_hdr F k + c) = load32 m (a + o_hdr F k + c)"
    if "k < o_shnum F" "c \<le> 36" for k c
    using assms(1) disjoint_within [OF _ assms(2) hdr_within [OF that]]
    by (intro load32_poke) (simp add: free_def add.assoc)
  moreover have "list_all (agree F a (poke m (a + q) bs)) (read_only F)"
    using assms by (auto simp: keeps_def free_def list_all_iff intro: agree_poke_within)
  ultimately show ?thesis using assms(3) by (simp add: keeps_def fixed_le)
qed

lemma agree_header_store:
  assumes "layout_ok F" "k < o_shnum F" "c \<le> 36" "agree F a m r" "disjoint (header_region F) r"
  shows "agree F a (store32 m (a + o_hdr F k + c) v) r"
  using agree_poke_within [OF assms(4,5), of "o_hdr F k + c" "bytes32 v"] hdr_within [OF assms(2,3)]
  by (simp add: store32_def add.assoc)

lemma keeps_header_store:
  assumes "layout_ok F" "k < o_shnum F" "keeps F a m" "c = 12 \<or> c = 20 \<and> k = i_bss (o_names F)"
  shows "keeps F a (store32 m (a + o_hdr F k + c) v)"
proof -
  have c: "c \<le> 36" "4 dvd c" "c \<notin> fixed_fields" using assms(4) by (auto simp: fixed_fields_def)
  have "list_all (agree F a (store32 m (a + o_hdr F k + c) v)) (read_only F)"
    using assms(3) agree_header_store [OF assms(1,2) c(1)] layout_header_read_only [OF assms(1)]
    by (auto simp: keeps_def list_all_iff)
  moreover have "load32 (store32 m (a + o_hdr F k + c) v) (a + o_hdr F j + c') = load32 m (a + o_hdr F j + c')"
    if "c' \<in> fixed_fields" for j c'
    using that c(3) by (subst load_store_hdr [OF c(1) _ c(2)]) (auto simp: fixed_fields_def)
  moreover have "load32 (store32 m (a + o_hdr F k + c) v) (a + o_hdr F j + 20) = load32 m (a + o_hdr F j + 20)"
    if "j \<noteq> i_bss (o_names F)" for j
    using that assms(4) by (subst load_store_hdr [OF c(1) _ c(2)]) auto
  ultimately show ?thesis using assms(3) by (simp add: keeps_def)
qed

lemma keeps_field:
  assumes "keeps F a m" "k < o_shnum F"
  shows "load32 m (a + o_hdr F k) = load32 (file_mem F) (o_hdr F k)"
    "load32 m (sh_type (a + o_hdr F k)) = load32 (file_mem F) (sh_type (o_hdr F k))"
    "load32 m (sh_flags (a + o_hdr F k)) = load32 (file_mem F) (sh_flags (o_hdr F k))"
    "load32 m (sh_offset (a + o_hdr F k)) = load32 (file_mem F) (sh_offset (o_hdr F k))"
    "unat (load32 m (sh_offset (a + o_hdr F k))) = o_off F k"
    "load32 m (sh_link (a + o_hdr F k)) = load32 (file_mem F) (sh_link (o_hdr F k))"
    "load32 m (sh_info (a + o_hdr F k)) = load32 (file_mem F) (sh_info (o_hdr F k))"
    "load32 m (sh_entsize (a + o_hdr F k)) = o_entsize F k"
    "k \<noteq> i_bss (o_names F) \<Longrightarrow> load32 m (sh_size (a + o_hdr F k)) = o_size F k"
proof -
  have f: "load32 m (a + o_hdr F k + c) = load32 (file_mem F) (o_hdr F k + c)" if "c \<in> fixed_fields" for c
    using assms that by (simp add: keeps_def)
  show "load32 m (a + o_hdr F k) = load32 (file_mem F) (o_hdr F k)"
    using f [of 0] by (simp add: fixed_fields_def)
  show "load32 m (sh_type (a + o_hdr F k)) = load32 (file_mem F) (sh_type (o_hdr F k))"
    "load32 m (sh_flags (a + o_hdr F k)) = load32 (file_mem F) (sh_flags (o_hdr F k))"
    "load32 m (sh_offset (a + o_hdr F k)) = load32 (file_mem F) (sh_offset (o_hdr F k))"
    "unat (load32 m (sh_offset (a + o_hdr F k))) = o_off F k"
    "load32 m (sh_link (a + o_hdr F k)) = load32 (file_mem F) (sh_link (o_hdr F k))"
    "load32 m (sh_info (a + o_hdr F k)) = load32 (file_mem F) (sh_info (o_hdr F k))"
    "load32 m (sh_entsize (a + o_hdr F k)) = o_entsize F k"
    using f by (simp_all add: fixed_fields_def o_off_def o_entsize_def)
  show "k \<noteq> i_bss (o_names F) \<Longrightarrow> load32 m (sh_size (a + o_hdr F k)) = o_size F k"
    using assms by (simp add: keeps_def)
qed

lemma keeps_agree: "keeps F a m \<Longrightarrow> r \<in> set (read_only F) \<Longrightarrow> agree F a m r"
  by (simp add: keeps_def list_all_iff)

lemma keeps_shnum: "keeps F a m \<Longrightarrow> unat (load16 m (e_shnum a)) = o_shnum F"
  using agree_load16 [of F a m "(0, 52)" 48]
  by (simp add: keeps_def read_only_def Let_def o_shnum_def)

lemma keeps_kind: "keeps F a m \<Longrightarrow> k < o_shnum F \<Longrightarrow> load32 m (sh_size (a + o_hdr F k)) = o_size F k \<Longrightarrow>
    kind_of m (a + o_hdr F k) = kind_of (file_mem F) (o_hdr F k)"
  by (simp add: kind_of_def keeps_field o_size_def)

section \<open>The symbol table\<close>

lemma length_load_syms [simp]: "length (load_syms m p n) = n"
  by (simp add: load_syms_def)

lemma nth_load_syms: "j < n \<Longrightarrow> load_syms m p n ! j = load_sym m (p + Sym_size * j)"
  by (simp add: load_syms_def)

lemma load_syms_store:
  assumes "j < n"
  shows "load_syms (store32 m (st_value (p + Sym_size * j)) v) p n =
      (load_syms m p n)[j := (load_syms m p n ! j)\<lparr>es_value := v\<rparr>]"
    "load_syms (store16 m (st_shndx (p + Sym_size * j)) w) p n =
      (load_syms m p n)[j := (load_syms m p n ! j)\<lparr>es_shndx := w\<rparr>]"
proof -
  have sep: "separate (p + 16 * i + c) k (p + 16 * j + c') k'" if "i \<noteq> j" "c + k \<le> 16" "c' + k' \<le> 16" for i c k c' k'
    using that by (cases "i < j") (auto simp: separate_def)
  have sep0: "separate (p + 16 * i) 4 (p + 16 * j + c') k'" if "i \<noteq> j" "c' + k' \<le> 16" for i c' k'
    using sep [of i 0 4 c' k'] that by simp
  have other: "load_sym (store32 m (p + 16 * j + 4) v) (p + 16 * i) = load_sym m (p + 16 * i)"
    "load_sym (store16 m (p + 16 * j + 14) w) (p + 16 * i) = load_sym m (p + 16 * i)" if "i \<noteq> j" for i
    using that by (simp_all add: load_sym_def store32_def store16_def load32_poke load16_poke sep sep0)
  have same: "load_sym (store32 m (p + 16 * j + 4) v) (p + 16 * j) = (load_sym m (p + 16 * j))\<lparr>es_value := v\<rparr>"
    by (simp add: load_sym_def)
      (simp add: store32_def load32_poke load16_poke separate_def)
  have same': "load_sym (store16 m (p + 16 * j + 14) w) (p + 16 * j) = (load_sym m (p + 16 * j))\<lparr>es_shndx := w\<rparr>"
    by (simp add: load_sym_def)
      (simp add: store16_def load32_poke separate_def)
  show "load_syms (store32 m (st_value (p + Sym_size * j)) v) p n =
      (load_syms m p n)[j := (load_syms m p n ! j)\<lparr>es_value := v\<rparr>]"
    using assms other(1) same by (intro nth_equalityI) (auto simp: nth_load_syms nth_list_update)
  show "load_syms (store16 m (st_shndx (p + Sym_size * j)) w) p n =
      (load_syms m p n)[j := (load_syms m p n ! j)\<lparr>es_shndx := w\<rparr>]"
    using assms other(2) same' by (intro nth_equalityI) (auto simp: nth_load_syms nth_list_update)
qed

lemma load_syms_poke: "separate p (Sym_size * n) q (length bs) \<Longrightarrow> load_syms (poke m q bs) p n = load_syms m p n"
proof (rule nth_equalityI)
  fix j assume s: "separate p (16 * n) q (length bs)" and "j < length (load_syms (poke m q bs) p n)"
  then have j: "j < n" by simp
  have sep: "separate (p + 16 * j + c) k q (length bs)" if "c + k \<le> 16" for c k
    using s j that by (auto simp: separate_def)
  have sep0: "separate (p + 16 * j) 4 q (length bs)" using sep [of 0 4] by simp
  show "load_syms (poke m q bs) p n ! j = load_syms m p n ! j"
    using j by (simp add: nth_load_syms load_sym_def load32_poke load16_poke sep sep0)
qed simp

lemma load_syms_agree:
  assumes "agree F a m (p, Sym_size * n)"
  shows "load_syms m (a + p) n = load_syms (file_mem F) p n"
proof (rule nth_equalityI)
  fix j assume "j < length (load_syms m (a + p) n)"
  then have j: "j < n" by simp
  have l32: "load32 m (a + p + 16 * j + c) = load32 (file_mem F) (p + 16 * j + c)" if "c + 4 \<le> 16" for c
    using agree_load32 [OF assms, of "p + 16 * j + c"] that j by (simp add: add.assoc)
  have l16: "load16 m (a + p + 16 * j + 14) = load16 (file_mem F) (p + 16 * j + 14)"
    using agree_load16 [OF assms, of "p + 16 * j + 14"] j by (simp add: add.assoc)
  show "load_syms m (a + p) n ! j = load_syms (file_mem F) p n ! j"
    using j l32 [of 0] l32 [of 4] l32 [of 8] l16 by (simp add: nth_load_syms load_sym_def)
qed simp

lemma load_relas_agree:
  assumes "agree F a m (p, Rela_size * n)"
  shows "load_relas m (a + p) n = load_relas (file_mem F) p n"
proof (rule nth_equalityI)
  fix j assume "j < length (load_relas m (a + p) n)"
  then have j: "j < n" by (simp add: load_relas_def)
  have l32: "load32 m (a + p + 12 * j + c) = load32 (file_mem F) (p + 12 * j + c)" if "c + 4 \<le> 12" for c
    using agree_load32 [OF assms, of "p + 12 * j + c"] that j by (simp add: add.assoc)
  show "load_relas m (a + p) n ! j = load_relas (file_mem F) p n ! j"
    using j l32 [of 0] l32 [of 4] l32 [of 8] by (simp add: load_relas_def load_rela_def)
qed (simp add: load_relas_def)

end
