(* ===== verification/Boot_Rel_Link.thy ===== *)
theory Boot_Rel_Link
  imports Boot_Rel_Frame
begin

text \<open>
  The steps of \<open>rel\<close> on a relocatable kernel, each against the specification of \<open>Elf_Object\<close>: the
  sections that are found, the addresses they get, the symbols after the common and the special ones
  are placed, the slots that are filled in.
\<close>

section \<open>Finding and binding the sections\<close>

lemma find_section_kind:
  "find_section p m g =
    (case kind_of m p of Text \<Rightarrow> g\<lparr>thdr := p\<rparr> | Rodata \<Rightarrow> g\<lparr>rhdr := p\<rparr> | Data \<Rightarrow> g\<lparr>dhdr := p\<rparr>
     | Bss \<Rightarrow> g\<lparr>bhdr := p\<rparr> | Symtab \<Rightarrow> g\<lparr>symhdr := p\<rparr> | Rela \<Rightarrow> g | Other \<Rightarrow> g)"
  by (simp add: find_section_def kind_of_def Let_def)

definition found :: "nat \<Rightarrow> nat \<Rightarrow> nat \<Rightarrow> nat \<Rightarrow> nat \<Rightarrow> nat" where
  "found base sn n k old = (if sn \<le> k \<and> k < sn + n then base + Shdr_size * k else old)"

lemma found_Suc: "found base sn (Suc n) k old = found base (Suc sn) n k (if k = sn then base + Shdr_size * sn else old)"
  by (auto simp: found_def)

lemma findsections_loop_found:
  assumes "\<And>k. sn \<le> k \<Longrightarrow> k < sn + n \<Longrightarrow>
      (kind_of m (Shdrs g + Shdr_size * k) = Text) = (k = t) \<and>
      (kind_of m (Shdrs g + Shdr_size * k) = Rodata) = (k = r \<and> k \<noteq> 0) \<and>
      (kind_of m (Shdrs g + Shdr_size * k) = Data) = (k = d) \<and>
      (kind_of m (Shdrs g + Shdr_size * k) = Bss) = (k = b) \<and>
      (kind_of m (Shdrs g + Shdr_size * k) = Symtab) = (k = y)"
  shows "findsections_loop sn n m g =
    g\<lparr>thdr := found (Shdrs g) sn n t (thdr g),
      rhdr := (if r = 0 then rhdr g else found (Shdrs g) sn n r (rhdr g)),
      dhdr := found (Shdrs g) sn n d (dhdr g), bhdr := found (Shdrs g) sn n b (bhdr g),
      symhdr := found (Shdrs g) sn n y (symhdr g)\<rparr>"
  using assms
proof (induction n arbitrary: sn g)
  case 0
  then show ?case by (simp add: found_def)
next
  case (Suc n)
  let ?p = "Shdrs g + Shdr_size * sn"
  let ?g = "find_section ?p m g"
  have kinds: "(kind_of m ?p = Text) = (sn = t)" "(kind_of m ?p = Rodata) = (sn = r \<and> sn \<noteq> 0)"
    "(kind_of m ?p = Data) = (sn = d)" "(kind_of m ?p = Bss) = (sn = b)" "(kind_of m ?p = Symtab) = (sn = y)"
    using Suc.prems [of sn] by simp_all
  have base: "Shdrs ?g = Shdrs g" by (simp add: find_section_kind split: section_kind.splits)
  have "findsections_loop sn (Suc n) m g = findsections_loop (Suc sn) n m ?g" by simp
  also have "\<dots> = ?g\<lparr>thdr := found (Shdrs g) (Suc sn) n t (thdr ?g),
      rhdr := (if r = 0 then rhdr ?g else found (Shdrs g) (Suc sn) n r (rhdr ?g)),
      dhdr := found (Shdrs g) (Suc sn) n d (dhdr ?g), bhdr := found (Shdrs g) (Suc sn) n b (bhdr ?g),
      symhdr := found (Shdrs g) (Suc sn) n y (symhdr ?g)\<rparr>"
    using Suc.IH [of "Suc sn" ?g] Suc.prems by (simp add: base)
  also have "\<dots> = g\<lparr>thdr := found (Shdrs g) sn (Suc n) t (thdr g),
      rhdr := (if r = 0 then rhdr g else found (Shdrs g) sn (Suc n) r (rhdr g)),
      dhdr := found (Shdrs g) sn (Suc n) d (dhdr g), bhdr := found (Shdrs g) sn (Suc n) b (bhdr g),
      symhdr := found (Shdrs g) sn (Suc n) y (symhdr g)\<rparr>"
    unfolding found_Suc using kinds
    by (cases "kind_of m ?p") (auto simp: find_section_kind)
  finally show ?case .
qed

text \<open>The sections the names stand for are sections of the file, and different ones.\<close>

definition indices_below :: "nat \<Rightarrow> indices \<Rightarrow> bool" where
  "indices_below n i = (i_text i < n \<and> i_rodata i < n \<and> i_data i < n \<and> i_bss i < n \<and> i_symtab i < n \<and>
     i_strtab i < n \<and> i_shstrtab i < n \<and> i_rela_text i < n \<and> i_rela_rodata i < n \<and> i_rela_data i < n)"

lemma find_sections_below:
  assumes "indices_below n i"
  shows "indices_below n (find_sections m shdr strtab n i)"
proof -
  have "indices_below n i \<Longrightarrow> set ks \<subseteq> {..<n} \<Longrightarrow>
      indices_below n (fold (\<lambda>k. name_section m (f k) k) ks i)" for ks f
  proof (induction ks arbitrary: i)
    case (Cons k ks)
    have "indices_below n (name_section m (f k) k i)"
      using Cons.prems by (simp add: name_section_def indices_below_def)
    then show ?case using Cons by simp
  qed simp
  from this [OF assms, of "[1..<n]"] show ?thesis unfolding find_sections_def by force
qed

lemma find_sections_shstr: "i_shstrtab (find_sections m shdr strtab n i) = i_shstrtab i"
proof -
  have "i_shstrtab (fold (\<lambda>k. name_section m (f k) k) ks i) = i_shstrtab i" for ks f
    by (induction ks arbitrary: i) (simp_all add: name_section_def)
  then show ?thesis unfolding find_sections_def .
qed

lemma names_below: "elf_header_ok F \<Longrightarrow> indices_below (o_shnum F) (o_names F)"
  unfolding o_names_def
  by (rule find_sections_below) (simp add: indices_below_def init_indices_def elf_header_ok_def)

lemma names_shstr: "i_shstrtab (o_names F) = o_shstr F"
  by (simp add: o_names_def find_sections_shstr)

lemma names_nonzero:
  assumes "sections_ok F"
  shows "i_text (o_names F) \<noteq> 0" "i_data (o_names F) \<noteq> 0" "i_bss (o_names F) \<noteq> 0" "i_symtab (o_names F) \<noteq> 0"
    "i_strtab (o_names F) \<noteq> 0" "i_shstrtab (o_names F) \<noteq> 0" "i_rela_text (o_names F) \<noteq> 0"
    "i_rela_data (o_names F) \<noteq> 0"
  using assms by (simp_all add: sections_ok_def Let_def missing_section_def split: if_splits)

lemma kinds:
  assumes "sections_ok F" "k < o_shnum F"
  shows "(kind_of (file_mem F) (o_hdr F k) = Text) = (k = i_text (o_names F))"
    "(kind_of (file_mem F) (o_hdr F k) = Rodata) = (k = i_rodata (o_names F) \<and> k \<noteq> 0)"
    "(kind_of (file_mem F) (o_hdr F k) = Data) = (k = i_data (o_names F))"
    "(kind_of (file_mem F) (o_hdr F k) = Bss) = (k = i_bss (o_names F))"
    "(kind_of (file_mem F) (o_hdr F k) = Symtab) = (k = i_symtab (o_names F))"
    "(kind_of (file_mem F) (o_hdr F k) = Rela) =
      (k = i_rela_text (o_names F) \<or> k = i_rela_rodata (o_names F) \<and> k \<noteq> 0 \<or> k = i_rela_data (o_names F))"
  using assms by (simp_all add: sections_ok_def Let_def)

lemma names_distinct:
  assumes "elf_header_ok F" "sections_ok F"
  defines "i \<equiv> o_names F"
  shows "i_text i \<noteq> i_data i" "i_text i \<noteq> i_bss i" "i_data i \<noteq> i_bss i" "i_rodata i \<noteq> i_text i"
    "i_rodata i \<noteq> i_data i" "i_rodata i \<noteq> i_bss i" "i_symtab i \<noteq> i_bss i" "i_rela_text i \<noteq> i_bss i"
    "i_rela_data i \<noteq> i_bss i" "i_rela_rodata i \<noteq> i_bss i" "i_rela_text i \<noteq> i_text i"
    "i_shstrtab i \<noteq> i_text i" "i_shstrtab i \<noteq> i_rela_text i"
proof -
  note b = names_below [OF assms(1), unfolded indices_below_def, folded i_def]
  note n = names_nonzero [OF assms(2), folded i_def]
  note k = kinds [OF assms(2), folded i_def]
  have t: "kind_of (file_mem F) (o_hdr F (i_text i)) = Text" using k(1) b by blast
  have d: "kind_of (file_mem F) (o_hdr F (i_data i)) = Data" using k(3) b by blast
  have s: "kind_of (file_mem F) (o_hdr F (i_bss i)) = Bss" using k(4) b by blast
  have y: "kind_of (file_mem F) (o_hdr F (i_symtab i)) = Symtab" using k(5) b by blast
  have rt: "kind_of (file_mem F) (o_hdr F (i_rela_text i)) = Rela" using k(6) b by blast
  have rd: "kind_of (file_mem F) (o_hdr F (i_rela_data i)) = Rela" using k(6) b by blast
  have rr: "i_rela_rodata i \<noteq> 0 \<Longrightarrow> kind_of (file_mem F) (o_hdr F (i_rela_rodata i)) = Rela" using k(6) b by blast
  have r: "i_rodata i \<noteq> 0 \<Longrightarrow> kind_of (file_mem F) (o_hdr F (i_rodata i)) = Rodata" using k(2) b by blast
  have h: "kind_of (file_mem F) (o_hdr F (i_shstrtab i)) = Other"
    using assms(2) by (simp add: sections_ok_def Let_def i_def names_shstr)
  show "i_text i \<noteq> i_data i" using t d by auto
  show "i_text i \<noteq> i_bss i" using t s by auto
  show "i_data i \<noteq> i_bss i" using d s by auto
  show "i_rodata i \<noteq> i_text i" using r t n by fastforce
  show "i_rodata i \<noteq> i_data i" using r d n by fastforce
  show "i_rodata i \<noteq> i_bss i" using r s n by fastforce
  show "i_symtab i \<noteq> i_bss i" using y s by auto
  show "i_rela_text i \<noteq> i_bss i" using rt s by auto
  show "i_rela_data i \<noteq> i_bss i" using rd s by auto
  show "i_rela_rodata i \<noteq> i_bss i" using rr s n by fastforce
  show "i_rela_text i \<noteq> i_text i" using rt t by auto
  show "i_shstrtab i \<noteq> i_text i" using h t by auto
  show "i_shstrtab i \<noteq> i_rela_text i" using h rt by auto
qed

definition hdr_pointer :: "byte list \<Rightarrow> nat \<Rightarrow> nat \<Rightarrow> nat" where
  "hdr_pointer F a k = (if k = 0 then 0 else a + o_hdr F k)"

text \<open>The pointers of the globals once the sections are found.\<close>

definition points :: "byte list \<Rightarrow> nat \<Rightarrow> globals \<Rightarrow> bool" where
  "points F a g = (let i = o_names F in
     elfdata g = a \<and> Ehdr g = a \<and> Shdrs g = a + o_shoff F \<and> thdr g = a + o_hdr F (i_text i) \<and>
     rhdr g = hdr_pointer F a (i_rodata i) \<and> dhdr g = a + o_hdr F (i_data i) \<and>
     bhdr g = a + o_hdr F (i_bss i) \<and> symhdr g = a + o_hdr F (i_symtab i))"

lemma points_end [simp]: "points F a (g\<lparr>end_addr := e\<rparr>) = points F a g"
  by (simp add: points_def)

lemma findsections_points:
  assumes ok: "elf_header_ok F" "sections_ok F" and m: "layout_ok F" "loaded_at F a (mem s)"
    and g: "elfdata (gbls s) = a" "Ehdr (gbls s) = a" "Shdrs (gbls s) = a + o_shoff F" "rhdr (gbls s) = 0"
  shows "\<exists>g. findsections s = s\<lparr>gbls := g\<rparr> \<and> points F a g \<and> end_addr g = end_addr (gbls s)"
proof -
  let ?i = "o_names F" and ?n = "o_shnum F" and ?m = "mem s"
  have keep: "keeps F a ?m" by (rule keeps_loaded [OF m])
  have H: "agree F a ?m (header_region F)" using m layout_inside loaded_agree by blast
  have sz: "load32 ?m (sh_size (a + o_hdr F k)) = o_size F k" if "k < ?n" for k
    using agree_load32 [OF H, of "o_hdr F k + 20"] hdr_within [OF that, of 20]
    by (simp add: within_def o_size_def add.assoc)
  have hp: "Shdrs (gbls s) + Shdr_size * k = a + o_hdr F k" for k
    by (simp add: g o_hdr_def)
  have kk: "kind_of ?m (a + o_hdr F k) = kind_of (file_mem F) (o_hdr F k)" if "k < ?n" for k
    by (rule keeps_kind [OF keep that sz [OF that]])
  have n: "unat (load16 ?m (e_shnum (Ehdr (gbls s)))) = ?n"
    using keeps_shnum [OF keep] by (simp add: g)
  note b = names_below [OF ok(1), unfolded indices_below_def]
  let ?g = "(gbls s)\<lparr>thdr := a + o_hdr F (i_text ?i),
      rhdr := hdr_pointer F a (i_rodata ?i), dhdr := a + o_hdr F (i_data ?i), bhdr := a + o_hdr F (i_bss ?i),
      symhdr := a + o_hdr F (i_symtab ?i)\<rparr>"
  have "findsections_loop 0 ?n ?m (gbls s) = ?g"
    by (subst findsections_loop_found [where t = "i_text ?i" and r = "i_rodata ?i" and d = "i_data ?i"
          and b = "i_bss ?i" and y = "i_symtab ?i"])
      (use b in \<open>simp_all add: kk kinds [OF ok(2)] found_def hp g(4) hdr_pointer_def\<close>)
  then have "findsections s = s\<lparr>gbls := ?g\<rparr>" by (simp add: findsections_def n)
  moreover have "points F a ?g" by (simp add: points_def Let_def g)
  ultimately show ?thesis by (intro exI [of _ ?g]) simp
qed

text \<open>The headers and contents before anything but addresses is written.\<close>

definition pristine :: "byte list \<Rightarrow> nat \<Rightarrow> memory \<Rightarrow> bool" where
  "pristine F a m =
    (keeps F a m \<and> (\<forall>k < o_shnum F. load32 m (sh_size (a + o_hdr F k)) = o_size F k) \<and>
     agree F a m (symbol_region F) \<and> agree F a m (text_region F) \<and> agree F a m (rodata_region F) \<and>
     agree F a m (data_region F))"

lemma pristine_loaded: "layout_ok F \<Longrightarrow> loaded_at F a m \<Longrightarrow> pristine F a m"
  unfolding pristine_def
proof (intro conjI allI impI)
  assume m: "layout_ok F" "loaded_at F a m"
  note ag = loaded_agree [OF m(2)]
  show "load32 m (sh_size (a + o_hdr F k)) = o_size F k" if "k < o_shnum F" for k
    using agree_load32 [OF ag [OF layout_inside(5) [OF m(1)]], of "o_hdr F k + 20"] hdr_within [OF that, of 20]
    by (simp add: within_def o_size_def add.assoc)
qed (simp_all add: keeps_loaded layout_inside loaded_agree)

lemma pristine_addr:
  assumes "layout_ok F" "k < o_shnum F" "pristine F a m"
  shows "pristine F a (store32 m (sh_addr (a + o_hdr F k)) v)"
proof -
  have "load32 (store32 m (a + o_hdr F k + 12) v) (a + o_hdr F j + 20) = load32 m (a + o_hdr F j + 20)" for j
    by (subst load_store_hdr) simp_all
  moreover have "disjoint (header_region F) r \<Longrightarrow> agree F a m r \<Longrightarrow> agree F a (store32 m (a + o_hdr F k + 12) v) r" for r
    using agree_header_store [OF assms(1,2), of 12] by simp
  ultimately show ?thesis
    using assms(3) layout_disjoint [OF assms(1)] keeps_header_store [OF assms(1,2), of a m 12]
    by (simp add: pristine_def)
qed

lemma bind_section_eq:
  assumes "layout_ok F" "k < o_shnum F" "pristine F a (mem s)"
  shows "bind_section (a + o_hdr F k) s =
    set_end (end_addr (gbls s) + o_size F k) (set32 (sh_addr (a + o_hdr F k)) (end_addr (gbls s)) s)"
  using pristine_addr [OF assms] assms(2)
  by (simp add: bind_section_def Let_def set32_def pristine_def)

text \<open>The address of a section, and the memory in which every section has one.\<close>

definition section_addr :: "byte list \<Rightarrow> u32 \<Rightarrow> nat \<Rightarrow> u32" where
  "section_addr F v k = (let i = o_names F in
     if k = i_text i then v
     else if k = i_rodata i then v + text_size F
     else if k = i_data i then v + text_size F + rodata_size F
     else v + text_size F + rodata_size F + data_size F)"

definition bound :: "byte list \<Rightarrow> nat \<Rightarrow> u32 \<Rightarrow> memory \<Rightarrow> bool" where
  "bound F a v m = (let i = o_names F in
     \<forall>k. k = i_text i \<or> k = i_rodata i \<and> k \<noteq> 0 \<or> k = i_data i \<or> k = i_bss i \<longrightarrow>
       load32 m (sh_addr (a + o_hdr F k)) = section_addr F v k)"

definition segments :: "byte list \<Rightarrow> u32 \<Rightarrow> boot_data \<Rightarrow> bool" where
  "segments F v d = (let i = o_names F in
     bd_entry d = v \<and> bd_tvaddr d = v \<and> unat (bd_toffset d) = o_off F (i_text i) \<and> bd_tsize d = text_size F \<and>
     bd_rvaddr d = (if i_rodata i = 0 then 0 else v + text_size F) \<and>
     unat (bd_roffset d) = fst (o_content F (i_rodata i)) \<and> bd_rsize d = rodata_size F \<and>
     bd_dvaddr d = v + text_size F + rodata_size F \<and> unat (bd_doffset d) = o_off F (i_data i) \<and>
     bd_dsize d = data_size F)"

lemma set_accessors [simp]:
  "gbls (set32 q w s) = gbls s" "bip (set32 q w s) = bip s" "complaints (set32 q w s) = complaints s"
  "mem (set32 q w s) = store32 (mem s) q w"
  "gbls (set16 q h s) = gbls s" "bip (set16 q h s) = bip s" "complaints (set16 q h s) = complaints s"
  "mem (set16 q h s) = store16 (mem s) q h"
  "gbls (set_end w s) = (gbls s)\<lparr>end_addr := w\<rparr>" "bip (set_end w s) = bip s"
  "complaints (set_end w s) = complaints s" "mem (set_end w s) = mem s"
  "gbls (set_bip f s) = gbls s" "bip (set_bip f s) = f (bip s)" "complaints (set_bip f s) = complaints s"
  "mem (set_bip f s) = mem s"
  by (simp_all add: set32_def set16_def set_end_def set_bip_def)

text \<open>One step of the binding: the section at \<open>k\<close> gets the address where the image ends.\<close>

lemma bind_step:
  assumes ok: "layout_ok F" "k < o_shnum F" and s: "pristine F a (mem s)" "points F a (gbls s)"
  defines "t \<equiv> bind_section (a + o_hdr F k) s"
  shows "pristine F a (mem t)" "points F a (gbls t)" "end_addr (gbls t) = end_addr (gbls s) + o_size F k"
    "bip t = bip s" "complaints t = complaints s"
    "load32 (mem t) (sh_addr (a + o_hdr F k)) = end_addr (gbls s)"
    "load32 (mem t) (sh_size (a + o_hdr F k)) = o_size F k"
    "load32 (mem t) (sh_offset (a + o_hdr F k)) = load32 (file_mem F) (sh_offset (o_hdr F k))"
    "j \<noteq> k \<Longrightarrow> load32 (mem t) (sh_addr (a + o_hdr F j)) = load32 (mem s) (sh_addr (a + o_hdr F j))"
proof -
  have t: "t = set_end (end_addr (gbls s) + o_size F k) (set32 (sh_addr (a + o_hdr F k)) (end_addr (gbls s)) s)"
    unfolding t_def by (rule bind_section_eq [OF ok s(1)])
  show p: "pristine F a (mem t)" using pristine_addr [OF ok s(1)] by (simp add: t)
  show "points F a (gbls t)" "end_addr (gbls t) = end_addr (gbls s) + o_size F k" "bip t = bip s"
    "complaints t = complaints s" "load32 (mem t) (sh_addr (a + o_hdr F k)) = end_addr (gbls s)"
    using s(2) by (simp_all add: t)
  show "load32 (mem t) (sh_size (a + o_hdr F k)) = o_size F k" using p ok(2) by (simp add: pristine_def)
  show "load32 (mem t) (sh_offset (a + o_hdr F k)) = load32 (file_mem F) (sh_offset (o_hdr F k))"
    using p ok(2) keeps_field(4) by (simp add: pristine_def)
  show "j \<noteq> k \<Longrightarrow> load32 (mem t) (sh_addr (a + o_hdr F j)) = load32 (mem s) (sh_addr (a + o_hdr F j))"
    by (simp add: t load_store_hdr)
qed

text \<open>What binding the section at \<open>k\<close> changes, besides the boot data.\<close>

definition binds :: "byte list \<Rightarrow> nat \<Rightarrow> nat \<Rightarrow> u32 \<Rightarrow> rel_state \<Rightarrow> rel_state \<Rightarrow> bool" where
  "binds F a k len s t =
    (pristine F a (mem t) \<and> points F a (gbls t) \<and> complaints t = complaints s \<and>
     end_addr (gbls t) = end_addr (gbls s) + len \<and>
     (k \<noteq> 0 \<longrightarrow> load32 (mem t) (sh_addr (a + o_hdr F k)) = end_addr (gbls s)) \<and>
     (\<forall>j. j \<noteq> k \<or> k = 0 \<longrightarrow> load32 (mem t) (sh_addr (a + o_hdr F j)) = load32 (mem s) (sh_addr (a + o_hdr F j))))"

lemma bind_binds:
  assumes "layout_ok F" "k < o_shnum F" "pristine F a (mem s)" "points F a (gbls s)" "k \<noteq> 0"
  shows "binds F a k (o_size F k) s (set_bip f (bind_section (a + o_hdr F k) s))"
  using bind_step [OF assms(1-4)] assms(5) by (simp add: binds_def)

lemma set_bip_id: "s = set_bip (\<lambda>d. d) s"
  by (simp add: set_bip_def)

lemma o_hdr_nonzero: "elf_header_ok F \<Longrightarrow> a + o_hdr F k \<noteq> 0"
  by (simp add: elf_header_ok_def o_hdr_def)

lemma bind_text_binds:
  assumes ok: "layout_ok F" "elf_header_ok F" "sections_ok F" and s: "pristine F a (mem s)" "points F a (gbls s)"
  shows "binds F a (i_text (o_names F)) (text_size F) s (bind_text s) \<and>
    bip (bind_text s) = (bip s)\<lparr>bd_tvaddr := end_addr (gbls s),
      bd_toffset := load32 (file_mem F) (sh_offset (o_hdr F (i_text (o_names F)))), bd_tsize := text_size F\<rparr>"
proof -
  let ?k = "i_text (o_names F)"
  have k: "?k < o_shnum F" "?k \<noteq> 0" using names_below [OF ok(2)] names_nonzero [OF ok(3)] by (simp_all add: indices_below_def)
  have h: "thdr (gbls s) = a + o_hdr F ?k" using s(2) by (simp add: points_def Let_def)
  show ?thesis
    using bind_binds [OF ok(1) k(1) s k(2)] bind_step [OF ok(1) k(1) s] o_hdr_nonzero [OF ok(2)]
    by (simp add: bind_text_def h Let_def text_size_def)
qed

lemma bind_data_binds:
  assumes ok: "layout_ok F" "elf_header_ok F" "sections_ok F" and s: "pristine F a (mem s)" "points F a (gbls s)"
  shows "binds F a (i_data (o_names F)) (data_size F) s (bind_data s) \<and>
    bip (bind_data s) = (bip s)\<lparr>bd_dvaddr := end_addr (gbls s),
      bd_doffset := load32 (file_mem F) (sh_offset (o_hdr F (i_data (o_names F)))), bd_dsize := data_size F\<rparr>"
proof -
  let ?k = "i_data (o_names F)"
  have k: "?k < o_shnum F" "?k \<noteq> 0" using names_below [OF ok(2)] names_nonzero [OF ok(3)] by (simp_all add: indices_below_def)
  have h: "dhdr (gbls s) = a + o_hdr F ?k" using s(2) by (simp add: points_def Let_def)
  show ?thesis
    using bind_binds [OF ok(1) k(1) s k(2)] bind_step [OF ok(1) k(1) s] o_hdr_nonzero [OF ok(2)]
    by (simp add: bind_data_def h Let_def data_size_def)
qed

lemma bind_rodata_binds:
  assumes ok: "layout_ok F" "elf_header_ok F" and s: "pristine F a (mem s)" "points F a (gbls s)"
  defines "k \<equiv> i_rodata (o_names F)"
  shows "binds F a k (rodata_size F) s (bind_rodata s) \<and>
    bip (bind_rodata s) = (if k = 0 then bip s else (bip s)\<lparr>bd_rvaddr := end_addr (gbls s),
      bd_roffset := load32 (file_mem F) (sh_offset (o_hdr F k)), bd_rsize := rodata_size F\<rparr>)"
proof (cases "k = 0")
  case True
  then show ?thesis using s by (simp add: bind_rodata_def binds_def points_def hdr_pointer_def k_def Let_def rodata_size_def)
next
  case False
  have k: "k < o_shnum F" using names_below [OF ok(2)] by (simp add: indices_below_def k_def)
  have h: "rhdr (gbls s) = a + o_hdr F k" using s(2) False by (simp add: points_def Let_def hdr_pointer_def k_def)
  show ?thesis
    using bind_binds [OF ok(1) k s False] bind_step [OF ok(1) k s] o_hdr_nonzero [OF ok(2)] False
    by (simp add: bind_rodata_def h Let_def rodata_size_def k_def)
qed

lemma bind_bss_binds:
  assumes ok: "layout_ok F" "elf_header_ok F" "sections_ok F" and s: "pristine F a (mem s)" "points F a (gbls s)"
  shows "binds F a (i_bss (o_names F)) (bss_size F) s (bind_bss s) \<and> bip (bind_bss s) = bip s"
proof -
  let ?k = "i_bss (o_names F)"
  have k: "?k < o_shnum F" "?k \<noteq> 0" using names_below [OF ok(2)] names_nonzero [OF ok(3)] by (simp_all add: indices_below_def)
  have h: "bhdr (gbls s) = a + o_hdr F ?k" using s(2) by (simp add: points_def Let_def)
  show ?thesis
    using bind_binds [OF ok(1) k(1) s k(2), of "\<lambda>d. d"] bind_step [OF ok(1) k(1) s] o_hdr_nonzero [OF ok(2)]
    by (simp add: bind_bss_def h Let_def bss_size_def flip: set_bip_id)
qed

lemma bindsections_bound:
  assumes ok: "layout_ok F" "elf_header_ok F" "sections_ok F" and s: "pristine F a (mem s)" "points F a (gbls s)"
    and v: "end_addr (gbls s) = v" "bd_entry (bip s) = v" "bd_rvaddr (bip s) = 0" "bd_roffset (bip s) = 0"
      "bd_rsize (bip s) = 0"
  defines "t \<equiv> bindsections s"
  shows "pristine F a (mem t)" "points F a (gbls t)" "complaints t = complaints s" "bound F a v (mem t)"
    "segments F v (bip t)"
    "end_addr (gbls t) = v + text_size F + rodata_size F + data_size F + bss_size F"
proof -
  define s1 where "s1 = bind_text s"
  define s2 where "s2 = bind_rodata s1"
  define s3 where "s3 = bind_data s2"
  have t: "t = bind_bss s3" by (simp add: t_def bindsections_def s1_def s2_def s3_def)
  note b1 = bind_text_binds [OF ok s, folded s1_def, unfolded binds_def]
  then have p1: "pristine F a (mem s1)" "points F a (gbls s1)" by simp_all
  note b2 = bind_rodata_binds [OF ok(1,2) p1, folded s2_def, unfolded binds_def]
  then have p2: "pristine F a (mem s2)" "points F a (gbls s2)" by simp_all
  note b3 = bind_data_binds [OF ok p2, folded s3_def, unfolded binds_def]
  then have p3: "pristine F a (mem s3)" "points F a (gbls s3)" by simp_all
  note b4 = bind_bss_binds [OF ok p3, folded t, unfolded binds_def]
  note distinct = names_distinct [OF ok(2,3)] names_nonzero [OF ok(3)]
  show "pristine F a (mem t)" "points F a (gbls t)" "complaints t = complaints s"
    using b1 b2 b3 b4 by simp_all
  show "end_addr (gbls t) = v + text_size F + rodata_size F + data_size F + bss_size F"
    using b1 b2 b3 b4 v by simp
  show "segments F v (bip t)"
    using b1 b2 b3 b4 v by (auto simp: segments_def Let_def o_off_def o_content_def rodata_size_def)
  have at: "load32 (mem t) (sh_addr (a + o_hdr F (i_text (o_names F)))) = v"
    using b1 b2 b3 b4 v distinct by simp
  have ar: "load32 (mem t) (sh_addr (a + o_hdr F (i_rodata (o_names F)))) = v + text_size F" if "i_rodata (o_names F) \<noteq> 0"
    using b1 b2 b3 b4 v distinct that by simp
  have ad: "load32 (mem t) (sh_addr (a + o_hdr F (i_data (o_names F)))) = v + text_size F + rodata_size F"
    using b1 b2 b3 b4 v distinct by simp
  have ab: "load32 (mem t) (sh_addr (a + o_hdr F (i_bss (o_names F)))) = v + text_size F + rodata_size F + data_size F"
    using b1 b2 b3 b4 v distinct by simp
  show "bound F a v (mem t)"
    unfolding bound_def Let_def section_addr_def using at ar ad ab distinct by auto
qed

end
