(* ===== verification/Boot_Rel_Syms.thy ===== *)
theory Boot_Rel_Syms
  imports Boot_Rel_Link
begin

text \<open>
  The symbol table while \<open>rel\<close> places the common and the special symbols: the loops of the code on the
  memory against functions on the list of symbols, and the addresses the list gives in the end.
\<close>

section \<open>Common symbols\<close>

fun rel_commons :: "u16 \<Rightarrow> u32 \<Rightarrow> u32 \<Rightarrow> esym list \<Rightarrow> u32 \<times> esym list" where
  "rel_commons bi ba e [] = (e, [])"
| "rel_commons bi ba e (s # ss) =
    (if es_shndx s = SHN_COMMON then
       let x = align_up e (es_value s); (e', ss') = rel_commons bi ba (x + es_size s) ss
       in (e', s\<lparr>es_shndx := bi, es_value := x - ba\<rparr> # ss')
     else let (e', ss') = rel_commons bi ba e ss in (e', s # ss'))"

abbreviation (input) bss_index :: "byte list \<Rightarrow> nat" where
  "bss_index F \<equiv> i_bss (o_names F)"

definition symtab_syms :: "byte list \<Rightarrow> nat \<Rightarrow> memory \<Rightarrow> esym list" where
  "symtab_syms F a m = load_syms m (a + fst (symbol_region F)) (o_count F (i_symtab (o_names F)))"

definition contents_agree :: "byte list \<Rightarrow> nat \<Rightarrow> memory \<Rightarrow> bool" where
  "contents_agree F a m = (agree F a m (text_region F) \<and> agree F a m (rodata_region F) \<and> agree F a m (data_region F))"

definition sym_state :: "byte list \<Rightarrow> nat \<Rightarrow> u32 \<Rightarrow> esym list \<Rightarrow> rel_state \<Rightarrow> bool" where
  "sym_state F a v L s =
    (keeps F a (mem s) \<and> points F a (gbls s) \<and> bound F a v (mem s) \<and> contents_agree F a (mem s) \<and>
     load32 (mem s) (sh_size (a + o_hdr F (bss_index F))) = end_addr (gbls s) - section_addr F v (bss_index F) \<and>
     symtab_syms F a (mem s) = L)"

lemma hdr_poke:
  assumes "disjoint (header_region F) w" "within w q (length bs)" "k < o_shnum F" "c \<le> 36"
  shows "load32 (poke m (a + q) bs) (a + o_hdr F k + c) = load32 m (a + o_hdr F k + c)"
  using disjoint_within [OF assms(1,2) hdr_within [OF assms(3,4)]]
  by (intro load32_poke) (simp add: add.assoc)

lemma bound_index: "elf_header_ok F \<Longrightarrow> sections_ok F \<Longrightarrow>
    k = i_text (o_names F) \<or> k = i_rodata (o_names F) \<and> k \<noteq> 0 \<or> k = i_data (o_names F) \<or> k = i_bss (o_names F) \<Longrightarrow>
    k < o_shnum F"
  using names_below by (auto simp: indices_below_def)

lemma bound_poke:
  assumes "elf_header_ok F" "sections_ok F" "disjoint (header_region F) w" "within w q (length bs)" "bound F a v m"
  shows "bound F a v (poke m (a + q) bs)"
  using assms(5) bound_index [OF assms(1,2)] hdr_poke [OF assms(3,4), where c = 12]
  by (auto simp: bound_def Let_def)

lemma contents_poke_syms:
  assumes "layout_ok F" "within (symbol_region F) q (length bs)" "contents_agree F a m"
  shows "contents_agree F a (poke m (a + q) bs)"
  using assms layout_disjoint [OF assms(1)] agree_poke_within [OF _ _ assms(2)]
  by (auto simp: contents_agree_def)

lemma sym_within:
  assumes "j < o_count F (i_symtab (o_names F))" "c + n \<le> 16"
  shows "within (symbol_region F) (fst (symbol_region F) + Sym_size * j + c) n"
  using assms by (auto simp: within_def symbol_region_def Let_def)

text \<open>Writes to a symbol leave everything but the list alone.\<close>

lemma sym_state_write:
  assumes ok: "layout_ok F" "elf_header_ok F" "sections_ok F" and s: "sym_state F a v L s"
    and w: "within (symbol_region F) q (length bs)"
  defines "t \<equiv> s\<lparr>mem := poke (mem s) (a + q) bs\<rparr>"
  shows "sym_state F a v (symtab_syms F a (mem t)) t"
proof -
  have b: "bss_index F < o_shnum F" using names_below [OF ok(2)] by (simp add: indices_below_def)
  have "keeps F a (mem t)" using s layout_free(1) [OF ok(1)] w by (simp add: t_def sym_state_def keeps_poke)
  moreover have "bound F a v (mem t)"
    using s bound_poke [OF ok(2,3) layout_disjoint(7) [OF ok(1)] w] by (simp add: t_def sym_state_def)
  moreover have "contents_agree F a (mem t)" using s contents_poke_syms [OF ok(1) w] by (simp add: t_def sym_state_def)
  moreover have "load32 (mem t) (a + o_hdr F (bss_index F) + 20) = load32 (mem s) (a + o_hdr F (bss_index F) + 20)"
    using hdr_poke [OF layout_disjoint(7) [OF ok(1)] w b, of 20] by (simp add: t_def)
  ultimately show ?thesis using s by (simp add: sym_state_def t_def)
qed

lemma sym_state_set:
  assumes ok: "layout_ok F" "elf_header_ok F" "sections_ok F" and s: "sym_state F a v L s"
    and j: "j < length L"
  defines "p \<equiv> a + fst (symbol_region F) + Sym_size * j"
  shows "sym_state F a v (L[j := (L ! j)\<lparr>es_value := x\<rparr>]) (set32 (st_value p) x s)"
    "sym_state F a v (L[j := (L ! j)\<lparr>es_shndx := h\<rparr>]) (set16 (st_shndx p) h s)"
proof -
  have L: "L = load_syms (mem s) (a + fst (symbol_region F)) (o_count F (i_symtab (o_names F)))"
    using s by (simp add: sym_state_def symtab_syms_def)
  have n: "j < o_count F (i_symtab (o_names F))" using j by (simp add: L)
  have q: "p + 4 = a + (fst (symbol_region F) + Sym_size * j + 4)" "p + 14 = a + (fst (symbol_region F) + Sym_size * j + 14)"
    by (simp_all add: p_def)
  show "sym_state F a v (L[j := (L ! j)\<lparr>es_value := x\<rparr>]) (set32 (st_value p) x s)"
    using sym_state_write [OF ok s, of "fst (symbol_region F) + Sym_size * j + 4" "bytes32 x"] sym_within [OF n, of 4 4]
      load_syms_store(1) [OF n, of "mem s" "a + fst (symbol_region F)" x]
    by (simp add: set32_def store32_def symtab_syms_def L p_def add.assoc)
  show "sym_state F a v (L[j := (L ! j)\<lparr>es_shndx := h\<rparr>]) (set16 (st_shndx p) h s)"
    using sym_state_write [OF ok s, of "fst (symbol_region F) + Sym_size * j + 14" "bytes16 h"] sym_within [OF n, of 14 2]
      load_syms_store(2) [OF n, of "mem s" "a + fst (symbol_region F)" h]
    by (simp add: set16_def store16_def symtab_syms_def L p_def add.assoc)
qed

lemma sym_state_load:
  assumes "sym_state F a v L s" "j < length L"
  defines "p \<equiv> a + fst (symbol_region F) + Sym_size * j"
  shows "load32 (mem s) p = es_name (L ! j)" "load32 (mem s) (st_value p) = es_value (L ! j)"
    "load32 (mem s) (st_size p) = es_size (L ! j)" "load16 (mem s) (st_shndx p) = es_shndx (L ! j)"
proof -
  have L: "L = load_syms (mem s) (a + fst (symbol_region F)) (o_count F (i_symtab (o_names F)))"
    using assms(1) by (simp add: sym_state_def symtab_syms_def)
  have "L ! j = load_sym (mem s) p" using assms(2) by (simp add: L nth_load_syms p_def)
  then show "load32 (mem s) p = es_name (L ! j)" "load32 (mem s) (st_value p) = es_value (L ! j)"
    "load32 (mem s) (st_size p) = es_size (L ! j)" "load16 (mem s) (st_shndx p) = es_shndx (L ! j)"
    by (simp_all add: load_sym_def)
qed

text \<open>The new end of the image, and the size of the uninitialised section that goes with it.\<close>

lemma sym_state_end:
  assumes ok: "layout_ok F" "elf_header_ok F" "sections_ok F" and s: "sym_state F a v L s"
  shows "sym_state F a v L (set32 (sh_size (a + o_hdr F (bss_index F))) (e - section_addr F v (bss_index F)) (set_end e s))"
proof -
  let ?b = "bss_index F" and ?x = "e - section_addr F v (bss_index F)"
  let ?m = "store32 (mem s) (a + o_hdr F ?b + 20) ?x"
  have b: "?b < o_shnum F" using names_below [OF ok(2)] by (simp add: indices_below_def)
  have "keeps F a ?m" using s keeps_header_store [OF ok(1) b] by (simp add: sym_state_def)
  moreover have "bound F a v ?m"
    using s by (auto simp: sym_state_def bound_def Let_def load_store_hdr)
  moreover have "contents_agree F a ?m"
    using s layout_disjoint [OF ok(1)] agree_header_store [OF ok(1) b] by (auto simp: sym_state_def contents_agree_def)
  moreover have "symtab_syms F a ?m = symtab_syms F a (mem s)"
  proof -
    have "separate (a + fst (symbol_region F)) (snd (symbol_region F)) (a + (o_hdr F ?b + 20)) 4"
      using disjoint_within [OF _ hdr_within [OF b] within_self] layout_disjoint(7) [OF ok(1)]
      by (simp add: disjoint_sym)
    then show ?thesis
      unfolding symtab_syms_def store32_def by (intro load_syms_poke) (simp add: symbol_region_def Let_def add.assoc)
  qed
  ultimately show ?thesis using s by (simp add: sym_state_def)
qed

lemma bss_pointer:
  assumes "points F a g"
  shows "bhdr g = a + o_hdr F (bss_index F)" "(bhdr g - Shdrs g) div Shdr_size = bss_index F"
  using assms by (simp_all add: points_def Let_def o_hdr_def)

lemma bound_bss: "bound F a v m \<Longrightarrow> load32 m (sh_addr (a + o_hdr F (bss_index F))) = section_addr F v (bss_index F)"
  by (simp add: bound_def Let_def)

lemma alloc_common_step:
  assumes ok: "layout_ok F" "elf_header_ok F" "sections_ok F" and s: "sym_state F a v L s"
    and j: "j < length L"
  defines "x \<equiv> align_up (end_addr (gbls s)) (es_value (L ! j))"
    and "t \<equiv> alloc_common (a + fst (symbol_region F) + Sym_size * j) s"
  shows "sym_state F a v (L[j := (L ! j)\<lparr>es_shndx := of_nat (bss_index F),
      es_value := x - section_addr F v (bss_index F)\<rparr>]) t"
    "end_addr (gbls t) = x + es_size (L ! j)" "complaints t = complaints s" "bip t = bip s"
proof -
  let ?b = "a + o_hdr F (bss_index F)" and ?p = "a + fst (symbol_region F) + Sym_size * j"
  let ?ba = "section_addr F v (bss_index F)"
  define s1 where "s1 = set16 (st_shndx ?p) (of_nat (bss_index F)) s"
  let ?L1 = "L[j := (L ! j)\<lparr>es_shndx := of_nat (bss_index F)\<rparr>]"
  define s2 where "s2 = set32 (st_value ?p) (x - ?ba) s1"
  let ?L2 = "?L1[j := (?L1 ! j)\<lparr>es_value := x - ?ba\<rparr>]"
  have st1: "sym_state F a v ?L1 s1" unfolding s1_def by (rule sym_state_set(2) [OF ok s j])
  have st2: "sym_state F a v ?L2 s2" unfolding s2_def using st1 j by (intro sym_state_set(1) [OF ok]) simp_all
  have pt: "bhdr (gbls s) = ?b" "(?b - Shdrs (gbls s)) div Shdr_size = bss_index F"
    using bss_pointer [of F a "gbls s"] s by (simp_all add: sym_state_def)
  have g1: "gbls s1 = gbls s" "gbls s2 = gbls s" by (simp_all add: s1_def s2_def)
  have ba: "load32 (mem s1) (sh_addr ?b) = ?ba" "load32 (mem s2) (sh_addr ?b) = ?ba"
    using st1 st2 bound_bss by (simp_all add: sym_state_def)
  have sz: "load32 (mem s1) (sh_size ?b) = end_addr (gbls s) - ?ba"
    using st1 g1 by (simp add: sym_state_def)
  have val: "load32 (mem s1) (st_value ?p) = es_value (L ! j)"
    using sym_state_load(2) [OF st1, of j] j by simp
  have size2: "load32 (mem s2) (st_size ?p) = es_size (L ! j)"
    using sym_state_load(3) [OF st2, of j] j by simp
  have va: "load32 (mem s1) (sh_addr ?b) + load32 (mem s1) (sh_size ?b) = end_addr (gbls s)"
    by (simp add: ba sz)
  have t: "t = set32 (sh_size ?b) (x + es_size (L ! j) - ?ba) (set_end (x + es_size (L ! j)) s2)"
    unfolding t_def alloc_common_def Let_def pt s1_def [symmetric] va val
    unfolding x_def [unfolded align_up_def, symmetric] ba s2_def [symmetric] size2
    by (simp add: ba)
  have L2: "?L2 = L[j := (L ! j)\<lparr>es_shndx := of_nat (bss_index F), es_value := x - ?ba\<rparr>]"
    using j by simp
  show "sym_state F a v (L[j := (L ! j)\<lparr>es_shndx := of_nat (bss_index F), es_value := x - ?ba\<rparr>]) t"
    unfolding t L2 [symmetric] by (rule sym_state_end [OF ok st2])
  show "end_addr (gbls t) = x + es_size (L ! j)" "complaints t = complaints s" "bip t = bip s"
    by (simp_all add: t s2_def s1_def)
qed

lemma drop_nth_Cons: "j < length L \<Longrightarrow> drop j L = L ! j # drop (Suc j) L"
  by (rule Cons_nth_drop_Suc [symmetric])

lemma allocbss_loop_syms:
  assumes ok: "layout_ok F" "elf_header_ok F" "sections_ok F"
    and s: "sym_state F a v L s" and n: "j + n = length L"
  defines "r \<equiv> rel_commons (of_nat (bss_index F)) (section_addr F v (bss_index F)) (end_addr (gbls s)) (drop j L)"
    and "t \<equiv> allocbss_loop (a + fst (symbol_region F)) j n s"
  shows "sym_state F a v (take j L @ snd r) t \<and> end_addr (gbls t) = fst r \<and> complaints t = complaints s \<and> bip t = bip s"
  using s n unfolding r_def t_def
proof (induction n arbitrary: j L s)
  case 0
  then show ?case by simp
next
  case (Suc n)
  let ?bi = "of_nat (bss_index F) :: u16" and ?ba = "section_addr F v (bss_index F)"
  let ?p = "a + fst (symbol_region F) + Sym_size * j"
  have j: "j < length L" using Suc.prems by simp
  have idx: "load16 (mem s) (st_shndx ?p) = es_shndx (L ! j)" by (rule sym_state_load(4) [OF Suc.prems(1) j])
  have bp: "bhdr (gbls s) \<noteq> 0"
    using Suc.prems(1) bss_pointer(1) o_hdr_nonzero [OF ok(2)] unfolding sym_state_def by metis
  show ?case
  proof (cases "es_shndx (L ! j) = SHN_COMMON")
    case True
    let ?x = "align_up (end_addr (gbls s)) (es_value (L ! j))"
    let ?L = "L[j := (L ! j)\<lparr>es_shndx := ?bi, es_value := ?x - ?ba\<rparr>]"
    note st = alloc_common_step [OF ok Suc.prems(1) j]
    note ih = Suc.IH [OF st(1), of "Suc j", unfolded st(2-4)]
    have tk: "take (Suc j) ?L = take j L @ [(L ! j)\<lparr>es_shndx := ?bi, es_value := ?x - ?ba\<rparr>]"
      using j by (simp add: take_Suc_conv_app_nth)
    have dr: "drop (Suc j) ?L = drop (Suc j) L" by simp
    have step: "allocbss_loop (a + fst (symbol_region F)) j (Suc n) s =
        allocbss_loop (a + fst (symbol_region F)) (Suc j) n (alloc_common ?p s)"
      using True bp by (simp add: idx Let_def)
    show ?thesis
      using ih Suc.prems(2) unfolding step tk dr drop_nth_Cons [OF j]
      by (simp add: True Let_def case_prod_unfold)
  next
    case False
    have step: "allocbss_loop (a + fst (symbol_region F)) j (Suc n) s =
        allocbss_loop (a + fst (symbol_region F)) (Suc j) n s"
      using False by (simp add: idx Let_def)
    have tk: "take (Suc j) L = take j L @ [L ! j]" using j by (simp add: take_Suc_conv_app_nth)
    show ?thesis
      using Suc.IH [OF Suc.prems(1), of "Suc j"] Suc.prems(2) unfolding step tk drop_nth_Cons [OF j]
      by (simp add: False Let_def case_prod_unfold)
  qed
qed

section \<open>Special symbols\<close>

definition rel_special :: "byte list \<Rightarrow> u32 \<Rightarrow> u32 \<Rightarrow> esym \<Rightarrow> esym" where
  "rel_special F v e s =
    (case special_name (file_mem F) (o_strtab F) (es_name s) of
       Some Etext \<Rightarrow> s\<lparr>es_value := v + text_size F, es_shndx := SHN_ABS\<rparr>
     | Some Edata \<Rightarrow> s\<lparr>es_value := v + text_size F + rodata_size F + data_size F, es_shndx := SHN_ABS\<rparr>
     | Some End \<Rightarrow> s\<lparr>es_value := e, es_shndx := SHN_ABS\<rparr>
     | None \<Rightarrow> s)"

lemma special_names_c: "c_string etext_name" "c_string edata_name" "c_string end_name"
  by (simp_all add: c_string_def etext_name_def edata_name_def end_name_def)

lemma special_name_agree:
  assumes "tables_ok F" "keeps F a m" "name < o_size F (i_strtab (o_names F))"
  shows "special_name m (a + o_strtab F) name = special_name (file_mem F) (o_strtab F) name"
proof -
  let ?k = "i_strtab (o_names F)"
  have ag: "agree F a m (o_strtab F, unat (o_size F ?k))"
    using keeps_agree [OF assms(2)] by (simp add: read_only_def Let_def)
  have "string_table F ?k" using assms(1) by (simp add: tables_ok_def Let_def)
  then have nul: "file_mem F (o_strtab F + unat (o_size F ?k) - 1) = 0"
    by (simp add: string_table_def o_strtab_def)
  have "unat name < unat (o_size F ?k)" using assms(3) by (simp add: word_less_nat_alt)
  note nm = agree_name [OF ag this nul]
  show ?thesis
    using nm [OF special_names_c(1)] nm [OF special_names_c(2)] nm [OF special_names_c(3)]
    by (simp add: special_name_def add.assoc)
qed

lemma section_end:
  assumes ok: "layout_ok F" "elf_header_ok F" "sections_ok F" and s: "sym_state F a v L s"
  shows "load32 (mem s) (sh_addr (thdr (gbls s))) + load32 (mem s) (sh_size (thdr (gbls s))) = v + text_size F"
    "load32 (mem s) (sh_addr (dhdr (gbls s))) + load32 (mem s) (sh_size (dhdr (gbls s))) =
      v + text_size F + rodata_size F + data_size F"
proof -
  let ?i = "o_names F"
  have h: "thdr (gbls s) = a + o_hdr F (i_text ?i)" "dhdr (gbls s) = a + o_hdr F (i_data ?i)"
    and k: "keeps F a (mem s)" and b: "bound F a v (mem s)"
    using s by (simp_all add: sym_state_def points_def Let_def)
  have n: "i_text ?i < o_shnum F" "i_data ?i < o_shnum F" using names_below [OF ok(2)] by (simp_all add: indices_below_def)
  note d = names_distinct [OF ok(2,3)] names_nonzero [OF ok(3)]
  show "load32 (mem s) (sh_addr (thdr (gbls s))) + load32 (mem s) (sh_size (thdr (gbls s))) = v + text_size F"
    using keeps_field(9) [OF k n(1)] b d by (simp add: h bound_def Let_def section_addr_def text_size_def)
  have "section_addr F v (i_data ?i) = v + text_size F + rodata_size F"
    using d by (simp add: section_addr_def Let_def)
  then show "load32 (mem s) (sh_addr (dhdr (gbls s))) + load32 (mem s) (sh_size (dhdr (gbls s))) =
      v + text_size F + rodata_size F + data_size F"
    using keeps_field(9) [OF k n(2)] b d by (simp add: h bound_def Let_def data_size_def)
qed

lemma special_symbol_case:
  "special_symbol strtab sy s =
    (let def = \<lambda>x. set16 (st_shndx sy) SHN_ABS (set32 (st_value sy) x s) in
     case special_name (mem s) strtab (load32 (mem s) sy) of
       Some Etext \<Rightarrow> def (load32 (mem s) (sh_addr (thdr (gbls s))) + load32 (mem s) (sh_size (thdr (gbls s))))
     | Some Edata \<Rightarrow> def (load32 (mem s) (sh_addr (dhdr (gbls s))) + load32 (mem s) (sh_size (dhdr (gbls s))))
     | Some End \<Rightarrow> def (end_addr (gbls s))
     | None \<Rightarrow> s)"
  by (simp add: special_symbol_def special_name_def Let_def)

lemma special_symbol_step:
  assumes ok: "layout_ok F" "elf_header_ok F" "sections_ok F" "tables_ok F" and s: "sym_state F a v L s"
    and j: "j < length L" "es_name (L ! j) < o_size F (i_strtab (o_names F))"
  defines "t \<equiv> special_symbol (a + o_strtab F) (a + fst (symbol_region F) + Sym_size * j) s"
  shows "sym_state F a v (L[j := rel_special F v (end_addr (gbls s)) (L ! j)]) t \<and>
    gbls t = gbls s \<and> complaints t = complaints s \<and> bip t = bip s"
proof -
  let ?p = "a + fst (symbol_region F) + Sym_size * j"
  have upd: "sym_state F a v (L[j := (L ! j)\<lparr>es_value := x, es_shndx := SHN_ABS\<rparr>])
      (set16 (st_shndx ?p) SHN_ABS (set32 (st_value ?p) x s))" for x
    using sym_state_set(2) [OF ok(1-3) sym_state_set(1) [OF ok(1-3) s j(1)], where j = j and h = SHN_ABS] j(1)
    by (simp add: add.assoc)
  have k: "keeps F a (mem s)" using s by (simp add: sym_state_def)
  have name: "load32 (mem s) ?p = es_name (L ! j)" by (rule sym_state_load(1) [OF s j(1)])
  have same: "sym_state F a v (L[j := L ! j]) s" using s by simp
  show ?thesis
    unfolding t_def special_symbol_case rel_special_def name special_name_agree [OF ok(4) k j(2)]
      section_end [OF ok(1-3) s] Let_def
    using upd same by (simp split: option.split special.split)
qed

lemma rel_special_name [simp]: "es_name (rel_special F v e s) = es_name s"
  by (simp add: rel_special_def split: option.split special.split)

lemma specialsyms_loop_syms:
  assumes ok: "layout_ok F" "elf_header_ok F" "sections_ok F" "tables_ok F" and s: "sym_state F a v L s"
    and n: "j + n = length L" and names: "list_all (\<lambda>s. es_name s < o_size F (i_strtab (o_names F))) L"
  defines "t \<equiv> specialsyms_loop (a + fst (symbol_region F)) (a + o_strtab F) j n s"
  shows "sym_state F a v (take j L @ map (rel_special F v (end_addr (gbls s))) (drop j L)) t \<and>
    gbls t = gbls s \<and> complaints t = complaints s \<and> bip t = bip s"
  using s n names unfolding t_def
proof (induction n arbitrary: j L s)
  case 0
  then show ?case by simp
next
  case (Suc n)
  have j: "j < length L" using Suc.prems by simp
  let ?x = "rel_special F v (end_addr (gbls s)) (L ! j)"
  have nm: "es_name (L ! j) < o_size F (i_strtab (o_names F))" using Suc.prems(3) j by (simp add: list_all_length)
  note st = special_symbol_step [OF ok Suc.prems(1) j nm]
  have nms: "list_all (\<lambda>s. es_name s < o_size F (i_strtab (o_names F))) (L[j := ?x])"
    using Suc.prems(3) nm by (intro list_all_nth_update) simp_all
  have tk: "take (Suc j) (L[j := ?x]) = take j L @ [?x]" using j by (simp add: take_Suc_conv_app_nth)
  show ?case
    using Suc.IH [OF conjunct1 [OF st] _ nms, of "Suc j"] st Suc.prems(2) unfolding tk drop_nth_Cons [OF j] by simp
qed

section \<open>The table in the end\<close>

lemma and_not_mask: "(x :: u32) AND NOT (mask k) = x - take_bit k x"
proof -
  have "x AND NOT (mask k) = push_bit k (drop_bit k x)"
    by (rule bit_eqI) (auto simp: bit_simps)
  then show ?thesis using bits_ident [of k x] by (simp add: algebra_simps)
qed
lemma take_bit_add_word:
  assumes "k \<le> 32"
  shows "take_bit k (x + y :: u32) = take_bit k (take_bit k x + take_bit k y)"
proof -
  have d: "(2::nat) ^ k dvd 2 ^ 32" using assms by (rule le_imp_power_dvd)
  have u: "unat (take_bit k w) = unat w mod 2 ^ k" for w :: u32
    by (rule trans [OF unsigned_take_bit_eq]) (rule take_bit_eq_mod)
  have p: "unat (w + z) mod 2 ^ k = (unat w + unat z) mod 2 ^ k" for w z :: u32
    using mod_mod_cancel [OF d, of "unat w + unat z"] by (simp add: unat_word_ariths)
  have "unat (take_bit k (x + y)) = unat (take_bit k (take_bit k x + take_bit k y))"
    unfolding u p by (rule mod_add_eq [symmetric])
  then show ?thesis by (simp only: word_unat_eq_iff)
qed

lemma align_up_shift:
  assumes "a = 2 ^ k" "k \<le> 32" "unat v mod 2 ^ k = 0"
  shows "align_up (v + e) a = v + align_up e a"
proof -
  have m: "a - 1 = (mask k :: u32)" by (simp add: assms(1) mask_eq_exp_minus_1)
  have "unat (take_bit k v) = take_bit k (unat v)" by (rule unsigned_take_bit_eq)
  also have "\<dots> = 0" unfolding take_bit_eq_mod by (rule assms(3))
  finally have "unat (take_bit k v) = 0" .
  then have z: "take_bit k v = 0" by (simp only: unsigned_eq_0_iff)
  have "take_bit k (v + (e + mask k)) = take_bit k (take_bit k v + take_bit k (e + mask k))"
    by (rule take_bit_add_word [OF assms(2)])
  then have "take_bit k (v + (e + mask k)) = take_bit k (e + mask k)" by (simp add: z)
  then show ?thesis unfolding align_up_def m and_not_mask by (simp add: add.assoc)
qed

definition aligned_commons :: "u32 \<Rightarrow> esym list \<Rightarrow> bool" where
  "aligned_commons v ss = list_all (\<lambda>s. es_shndx s = SHN_COMMON \<longrightarrow>
     list_ex (\<lambda>k. es_value s = 2 ^ k \<and> unat v mod 2 ^ k = 0) [0..<32]) ss"

definition rel_placed :: "u16 \<Rightarrow> u32 \<Rightarrow> esym \<Rightarrow> u32 \<Rightarrow> esym" where
  "rel_placed bi x s w = (if es_shndx s = SHN_COMMON then s\<lparr>es_shndx := bi, es_value := w - x\<rparr> else s)"

lemma rel_commons_commons:
  "aligned_commons v ss \<Longrightarrow> rel_commons bi ba (v + e) ss =
    (v + fst (commons e ss), map2 (\<lambda>s x. rel_placed bi ba s (v + x)) ss (snd (commons e ss)))"
proof (induction ss arbitrary: e)
  case Nil
  then show ?case by simp
next
  case (Cons s ss)
  have al: "aligned_commons v ss" using Cons.prems by (simp add: aligned_commons_def)
  show ?case
  proof (cases "es_shndx s = SHN_COMMON")
    case True
    then obtain k where "k < 32" "es_value s = 2 ^ k" "unat v mod 2 ^ k = 0"
      using Cons.prems by (auto simp: aligned_commons_def list_ex_iff)
    then have "align_up (v + e) (es_value s) = v + align_up e (es_value s)"
      using align_up_shift [of "es_value s" k v e] by simp
    then show ?thesis using Cons.IH [OF al, of "align_up e (es_value s) + es_size s"] True
      by (simp add: Let_def case_prod_unfold rel_placed_def add.assoc)
  next
    case False
    then show ?thesis using Cons.IH [OF al, of e] by (simp add: Let_def case_prod_unfold rel_placed_def)
  qed
qed

lemma length_commons [simp]: "length (snd (commons e ss)) = length ss"
  by (induction ss arbitrary: e) (simp_all add: Let_def case_prod_unfold)

text \<open>The symbols after both loops.\<close>

definition rel_syms :: "byte list \<Rightarrow> u32 \<Rightarrow> esym list" where
  "rel_syms F v = map (rel_special F v (v + image_end F))
     (map2 (\<lambda>s x. rel_placed (of_nat (bss_index F)) (section_addr F v (bss_index F)) s (v + x)) (o_syms F)
       (snd (commons (text_size F + rodata_size F + data_size F + bss_size F) (o_syms F))))"

lemma length_rel_syms [simp]: "length (rel_syms F v) = length (o_syms F)"
  by (simp add: rel_syms_def)

lemma nth_rel_syms: "j < length (o_syms F) \<Longrightarrow> rel_syms F v ! j = rel_special F v (v + image_end F)
    (rel_placed (of_nat (bss_index F)) (section_addr F v (bss_index F)) (o_syms F ! j) (v + common_offset F j))"
  by (simp add: rel_syms_def common_offset_def)

end
