(* ===== verification/Boot_Rel_Correct.thy ===== *)
theory Boot_Rel_Correct
  imports Boot_Rel_Syms
begin

text \<open>
  \<open>rel\<close> on a relocatable kernel: the slots are filled with the values of the symbols, and the image is
  the one the specification gives.
\<close>

section \<open>Addresses of symbols\<close>

definition ready :: "byte list \<Rightarrow> nat \<Rightarrow> u32 \<Rightarrow> rel_state \<Rightarrow> bool" where
  "ready F a v s = (keeps F a (mem s) \<and> points F a (gbls s) \<and> bound F a v (mem s) \<and>
     symtab_syms F a (mem s) = rel_syms F v)"

lemma section_addr_nonzero:
  assumes "address_ok F v"
  shows "section_addr F v k \<noteq> 0"
proof -
  have v: "unat v \<noteq> 0" "unat v + (unat (text_size F) + unat (rodata_size F) + unat (data_size F)) < 2 ^ 32"
    using assms by (simp_all add: address_ok_def image_size_def unat_eq_zero)
  have add: "unat (x + y) = unat x + unat y" if "unat x + unat y < 2 ^ 32" for x y :: u32
    using that by (simp add: unat_word_ariths)
  have t: "unat (v + text_size F) = unat v + unat (text_size F)" using v by (intro add) simp
  have r: "unat (v + text_size F + rodata_size F) = unat v + unat (text_size F) + unat (rodata_size F)"
    using v t add [of "v + text_size F" "rodata_size F"] by simp
  have d: "unat (v + text_size F + rodata_size F + data_size F) = unat v + image_size F"
    using v r add [of "v + text_size F + rodata_size F" "data_size F"] by (simp add: image_size_def)
  have "unat (section_addr F v k) \<noteq> 0" using v(1) t r d by (simp add: section_addr_def Let_def)
  then show ?thesis by (metis unat_0)
qed

lemma SHN_ABS_high: "n < 0xff00 \<Longrightarrow> \<not> unat SHN_ABS < n"
  by (simp add: SHN_ABS_def)

lemma symvaddr_section:
  assumes ok: "elf_header_ok F" "sections_ok F" "address_ok F v"
    and s: "keeps F a (mem s)" "points F a (gbls s)" "bound F a v (mem s)"
    and k: "k = i_text (o_names F) \<or> k = i_rodata (o_names F) \<and> k \<noteq> 0 \<or> k = i_data (o_names F) \<or> k = i_bss (o_names F)"
    and x: "unat (load16 (mem s) (st_shndx p)) = k"
  shows "symvaddr p j s = (section_addr F v k + load32 (mem s) (st_value p), s)"
proof -
  have n: "k < o_shnum F" by (rule bound_index [OF ok(1,2) k])
  have k0: "k \<noteq> 0" using k names_nonzero [OF ok(2)] by auto
  have g: "Ehdr (gbls s) = a" "Shdrs (gbls s) + Shdr_size * k = a + o_hdr F k"
    using s(2) by (simp_all add: points_def Let_def o_hdr_def)
  have c: "0 < load16 (mem s) (st_shndx p)" "load16 (mem s) (st_shndx p) < load16 (mem s) (e_shnum a)"
    using x k0 n keeps_shnum [OF s(1)] by (simp_all add: word_less_nat_alt)
  have ad: "load32 (mem s) (sh_addr (a + o_hdr F k)) = section_addr F v k"
    using s(3) k unfolding bound_def Let_def by blast
  show ?thesis
    using section_addr_nonzero [OF ok(3)] by (simp add: symvaddr_def Let_def g c x ad)
qed

lemma symvaddr_abs:
  assumes ok: "elf_header_ok F" and s: "keeps F a (mem s)" "points F a (gbls s)"
    and x: "load16 (mem s) (st_shndx p) = SHN_ABS"
  shows "symvaddr p j s = (load32 (mem s) (st_value p), s)"
proof -
  have g: "Ehdr (gbls s) = a" using s(2) by (simp add: points_def Let_def)
  have "\<not> SHN_ABS < load16 (mem s) (e_shnum a)"
    using SHN_ABS_high [of "o_shnum F"] keeps_shnum [OF s(1)] ok by (simp add: word_less_nat_alt elf_header_ok_def)
  then show ?thesis by (simp add: symvaddr_def Let_def g x)
qed

lemma symvaddr_place:
  assumes ok: "elf_header_ok F" "sections_ok F" "address_ok F v" and s: "ready F a v s"
    and j: "j < length (o_syms F)" "symbol_place F j = Some pl"
  shows "symvaddr (a + fst (symbol_region F) + Sym_size * j) x s = (address v pl, s)"
proof -
  let ?p = "a + fst (symbol_region F) + Sym_size * j" and ?s = "o_syms F ! j" and ?i = "o_names F"
  let ?r = "rel_syms F v ! j"
  have st: "keeps F a (mem s)" "points F a (gbls s)" "bound F a v (mem s)" using s by (simp_all add: ready_def)
  have "?r = load_sym (mem s) ?p"
    using s j(1) unfolding ready_def symtab_syms_def
    by (metis length_load_syms length_rel_syms nth_load_syms)
  then have ld: "load32 (mem s) (st_value ?p) = es_value ?r" "load16 (mem s) (st_shndx ?p) = es_shndx ?r"
    by (simp_all add: load_sym_def)
  note sec = symvaddr_section [OF ok st, of _ ?p, unfolded ld]
  note ab = symvaddr_abs [OF ok(1) st(1,2), of ?p, unfolded ld]
  have b16: "o_shnum F < 0xff00" using ok(1) by (simp add: elf_header_ok_def)
  have bss: "unat (of_nat (i_bss ?i) :: u16) = i_bss ?i"
    using names_below [OF ok(1)] b16 by (simp add: indices_below_def unat_of_nat)
  note d = names_distinct [OF ok(1,2)] names_nonzero [OF ok(2)]
  note r = nth_rel_syms [OF j(1), of v]
  show ?thesis
  proof (cases "special_name (file_mem F) (o_strtab F) (es_name ?s)")
    case None
    have nm: "es_name (rel_placed bi ba ?s w) = es_name ?s" for bi ba w by (simp add: rel_placed_def)
    have r: "?r = rel_placed (of_nat (bss_index F)) (section_addr F v (bss_index F)) ?s (v + common_offset F j)"
      using r None by (simp add: rel_special_def nm)
    have pl: "section_place F j = Some pl" using j(2) None by (simp add: symbol_place_def)
    show ?thesis
    proof (cases "es_shndx ?s = SHN_COMMON")
      case True
      then show ?thesis using sec [of "i_bss ?i"] bss pl r
        by (auto simp: rel_placed_def section_place_def Let_def)
    next
      case nc: False
      then have r: "?r = ?s" using r by (simp add: rel_placed_def)
      show ?thesis
      proof (cases "es_shndx ?s = SHN_ABS")
        case True
        then show ?thesis using ab pl nc by (auto simp: r section_place_def Let_def)
      next
        case False
        then show ?thesis using sec pl nc d unfolding r
          by (auto simp: section_place_def Let_def section_addr_def algebra_simps split: if_splits)
      qed
    qed
  next
    case (Some k)
    have nm: "es_name (rel_placed bi ba ?s w) = es_name ?s" for bi ba w by (simp add: rel_placed_def)
    have "es_shndx ?r = SHN_ABS" using r Some by (simp add: rel_special_def nm split: special.split)
    moreover have "es_value ?r = address v pl"
      using r Some j(2) by (cases k) (auto simp: rel_special_def nm symbol_place_def add.assoc)
    ultimately show ?thesis using ab by simp
  qed
qed

section \<open>Filling the slots\<close>

definition writable :: "byte list \<Rightarrow> nat \<times> nat \<Rightarrow> bool" where
  "writable F w = (free F w \<and> disjoint (symbol_region F) w)"

lemma contents_writable:
  assumes "layout_ok F"
  shows "writable F (text_region F)" "writable F (rodata_region F)" "writable F (data_region F)"
  using layout_free [OF assms] layout_disjoint [OF assms] by (simp_all add: writable_def)

lemma ready_write:
  assumes ok: "elf_header_ok F" "sections_ok F" and s: "ready F a v s" and w: "writable F w" "within w q 4"
  shows "ready F a v (set32 (a + q) x s)"
proof -
  have h: "disjoint (header_region F) w" and y: "disjoint (symbol_region F) w" and f: "free F w"
    using w(1) by (simp_all add: writable_def free_def)
  have len: "within w q (length (bytes32 x))" using w(2) by simp
  have sep: "separate (a + fst (symbol_region F)) (snd (symbol_region F)) (a + q) (length (bytes32 x))"
    using disjoint_within [OF y len within_self] .
  have "symtab_syms F a (poke (mem s) (a + q) (bytes32 x)) = symtab_syms F a (mem s)"
    unfolding symtab_syms_def by (rule load_syms_poke) (use sep in \<open>simp add: symbol_region_def Let_def\<close>)
  then show ?thesis
    using s keeps_poke [OF f len] bound_poke [OF ok h len] by (simp add: ready_def store32_def)
qed

lemma load_relas_nth: "j < n \<Longrightarrow> load_relas m p n ! j = load_rela m (p + Rela_size * j)"
  by (simp add: load_relas_def)

text \<open>One record: it is the one of the file, and its slot gets the value of its symbol.\<close>

lemma reloc_entry_value:
  assumes ok: "elf_header_ok F" "sections_ok F" "address_ok F v" and s: "ready F a v s"
    and e: "load_rela (mem s) p = e" "rela_ok F len e"
  shows "reloc_entry d (a + fst (symbol_region F)) p s = set32 (d + unat (er_offset e)) (rela_value F v e) s"
proof -
  obtain pl where pl: "symbol_place F (rela_sym e) = Some pl" and j: "rela_sym e < length (o_syms F)"
    and ty: "ELF32_R_TYPE (er_info e) = R_68K_32"
    using e(2) by (auto simp: rela_ok_def)
  have ld: "load32 (mem s) p = er_offset e" "load32 (mem s) (r_info p) = er_info e"
    "load32 (mem s) (r_addend p) = er_addend e"
    using e(1) by (auto simp: load_rela_def)
  show ?thesis
    using symvaddr_place [OF ok s j pl, of "ELF32_R_SYM (er_info e)"] pl
    by (simp add: reloc_entry_def Let_def ld ty rela_value_def rela_sym_def)
qed

lemma reloc_loop_image:
  assumes ok: "elf_header_ok F" "sections_ok F" "address_ok F v" and s: "ready F a v s"
    and w: "writable F w" and es: "list_all (rela_ok F (snd w)) es"
    and at: "length es = n" "(fst r, Rela_size * (j + n)) \<in> set (read_only F)"
      "load_relas (file_mem F) (fst r) (j + n) = pre @ es" "length pre = j"
  defines "t \<equiv> reloc_loop (a + fst w) (a + fst (symbol_region F)) (a + fst r + Rela_size * j) n s"
  shows "ready F a v t \<and> gbls t = gbls s \<and> bip t = bip s \<and> complaints t = complaints s \<and>
    peek (mem t) (a + fst w) (snd w) = fold (apply_rela F v) es (peek (mem s) (a + fst w) (snd w)) \<and>
    (\<forall>q. disjoint q w \<longrightarrow> peek (mem t) (a + fst q) (snd q) = peek (mem s) (a + fst q) (snd q))"
  using s es at unfolding t_def
proof (induction n arbitrary: j es s pre)
  case 0
  then show ?case by simp
next
  case (Suc n)
  then obtain e es' where es: "es = e # es'" by (cases es) auto
  let ?p = "a + fst r + Rela_size * j"
  have e: "rela_ok F (snd w) e" "list_all (rela_ok F (snd w)) es'" using Suc.prems(2) by (simp_all add: es)
  have ag: "agree F a (mem s) (fst r, Rela_size * (j + Suc n))"
    using keeps_agree [of F a "mem s", OF _ Suc.prems(4)] Suc.prems(1) by (simp add: ready_def)
  have "load_rela (mem s) ?p = load_relas (mem s) (a + fst r) (j + Suc n) ! j"
    by (simp add: load_relas_nth)
  also have "\<dots> = e" unfolding load_relas_agree [OF ag] Suc.prems(5) using Suc.prems(6) by (auto simp: es nth_append)
  finally have ld: "load_rela (mem s) ?p = e" .
  let ?q = "fst w + unat (er_offset e)"
  let ?u = "set32 (a + ?q) (rela_value F v e) s"
  have wi: "within w ?q 4" using e(1) by (simp add: within_def rela_ok_def)
  have u: "ready F a v ?u" by (rule ready_write [OF ok(1,2) Suc.prems(1) w wi])
  have step: "reloc_loop (a + fst w) (a + fst (symbol_region F)) ?p (Suc n) s =
      reloc_loop (a + fst w) (a + fst (symbol_region F)) (a + fst r + Rela_size * Suc j) n ?u"
    using reloc_entry_value [OF ok Suc.prems(1) ld e(1)] by (simp add: algebra_simps)
  have img: "peek (mem ?u) (a + fst w) (snd w) = apply_rela F v e (peek (mem s) (a + fst w) (snd w))"
    using peek_store32_in [of "unat (er_offset e)" "snd w" "mem s" "a + fst w" "rela_value F v e"] e(1)
    by (simp add: rela_ok_def apply_rela_def add.assoc)
  have oth: "peek (mem ?u) (a + fst q) (snd q) = peek (mem s) (a + fst q) (snd q)" if "disjoint q w" for q
    using disjoint_within [OF that wi within_self] by (simp add: store32_def peek_poke_separate)
  have at: "length es' = n" "(fst r, Rela_size * (Suc j + n)) \<in> set (read_only F)"
    "load_relas (file_mem F) (fst r) (Suc j + n) = (pre @ [e]) @ es'" "length (pre @ [e]) = Suc j"
    using Suc.prems(3-6) by (simp_all add: es)
  note ih = Suc.IH [OF u e(2) at]
  show ?case unfolding step es using ih img oth by simp
qed

section \<open>The relocation sections\<close>

definition section_image :: "byte list \<Rightarrow> nat \<Rightarrow> memory \<Rightarrow> nat \<Rightarrow> byte list" where
  "section_image F a m k = peek m (a + fst (o_content F k)) (snd (o_content F k))"

definition file_image :: "byte list \<Rightarrow> nat \<Rightarrow> byte list" where
  "file_image F k = peek (file_mem F) (fst (o_content F k)) (snd (o_content F k))"

lemma linked_section_image: "linked_section F v k r = fold (apply_rela F v) (o_relas F r) (file_image F k)"
  by (simp add: linked_section_def file_image_def)

lemma unat_index: "elf_header_ok F \<Longrightarrow> k < o_shnum F \<Longrightarrow> unat (of_nat k :: u32) = k"
  by (simp add: elf_header_ok_def unat_of_nat)

lemma rela_section_relas:
  assumes "rela_section_ok F r k" "r \<noteq> 0"
  shows "list_all (rela_ok F (snd (o_content F k))) (o_relas F r)" "length (o_relas F r) = o_count F r"
    "load_relas (file_mem F) (o_off F r) (o_count F r) = o_relas F r"
    "o_entsize F r \<noteq> 0" "k \<noteq> 0"
  using assms by (simp_all add: rela_section_ok_def o_content_def o_relas_def load_relas_def)

lemma relocsection_image:
  assumes ok: "elf_header_ok F" "sections_ok F" "address_ok F v" and s: "ready F a v s"
    and r: "rela_section_ok F r k" "r \<noteq> 0" "r < o_shnum F" "r \<noteq> i_bss (o_names F)"
    and k: "k < o_shnum F" "writable F (o_content F k)" "o_rela_region F r \<in> set (read_only F)"
  shows "\<exists>t. relocsection (a + o_hdr F r) (a + o_hdr F k) (a + o_hdr F (i_symtab (o_names F))) s = Some t \<and>
    ready F a v t \<and> gbls t = gbls s \<and> bip t = bip s \<and> complaints t = complaints s \<and>
    section_image F a (mem t) k = fold (apply_rela F v) (o_relas F r) (section_image F a (mem s) k) \<and>
    (\<forall>j. disjoint (o_content F j) (o_content F k) \<longrightarrow> section_image F a (mem t) j = section_image F a (mem s) j)"
proof -
  let ?y = "i_symtab (o_names F)"
  have y: "?y < o_shnum F" using names_below [OF ok(1)] by (simp add: indices_below_def)
  have kp: "keeps F a (mem s)" and g: "elfdata (gbls s) = a" using s by (simp_all add: ready_def points_def Let_def)
  note rr = rela_section_relas [OF r(1,2)]
  have w: "fst (o_content F k) = o_off F k" using rr(5) by (simp add: o_content_def)
  have sy: "fst (symbol_region F) = o_off F ?y" by (simp add: symbol_region_def Let_def)
  have rg: "o_rela_region F r = (o_off F r, Rela_size * o_count F r)" using r(2) by (simp add: o_rela_region_def)
  have "relocsection (a + o_hdr F r) (a + o_hdr F k) (a + o_hdr F ?y) s =
      Some (reloc_loop (a + o_off F k) (a + o_off F ?y) (a + o_off F r) (o_count F r) s)"
    using keeps_field(5) [OF kp k(1)] keeps_field(5) [OF kp y] keeps_field(5,8,9) [OF kp r(3)] r(4) rr(4)
    by (simp add: relocsection_def Let_def g udiv_def o_count_def)
  moreover note reloc_loop_image [OF ok s k(2) rr(1), of "o_count F r" "o_rela_region F r" 0 "[]"]
  ultimately show ?thesis using rr(2,3) k(3) unfolding rg section_image_def by (simp add: w sy)
qed

lemma relocsections_loop_other:
  assumes s: "ready F a v s" and n: "n < o_shnum F" "kind_of (file_mem F) (o_hdr F n) \<noteq> Rela"
  shows "relocsections_loop n s = relocsections_loop (Suc n) s"
proof -
  have kp: "keeps F a (mem s)" and g: "Ehdr (gbls s) = a" "Shdrs (gbls s) + Shdr_size * n = a + o_hdr F n"
    using s by (simp_all add: ready_def points_def Let_def o_hdr_def)
  have "load32 (mem s) (sh_type (a + o_hdr F n)) \<noteq> SHT_RELA"
    using n(2) keeps_field(2) [OF kp n(1)]
    by (auto simp: kind_of_def Let_def SHT_RELA_def SHT_PROGBITS_def SHT_NOBITS_def SHT_SYMTAB_def split: if_splits)
  then show ?thesis
    using n(1) keeps_shnum [OF kp] by (simp add: relocsections_loop.simps [of n s] g Let_def)
qed

lemma relocsections_loop_rela:
  assumes ok: "elf_header_ok F" and s: "ready F a v s" and n: "n < o_shnum F" "kind_of (file_mem F) (o_hdr F n) = Rela"
    and r: "rela_section_ok F n k" "k < o_shnum F"
  shows "relocsections_loop n s =
    (case relocsection (a + o_hdr F n) (a + o_hdr F k) (a + o_hdr F (i_symtab (o_names F))) s of
       None \<Rightarrow> None | Some t \<Rightarrow> relocsections_loop (Suc n) t)"
proof -
  have y: "i_symtab (o_names F) < o_shnum F" using names_below [OF ok] by (simp add: indices_below_def)
  have kp: "keeps F a (mem s)" and g: "Ehdr (gbls s) = a" "Shdrs (gbls s) + Shdr_size * i = a + o_hdr F i" for i
    using s by (simp_all add: ready_def points_def Let_def o_hdr_def)
  have ty: "load32 (mem s) (sh_type (a + o_hdr F n)) = SHT_RELA"
    using n(2) keeps_field(2) [OF kp n(1)] by (auto simp: kind_of_def Let_def split: if_splits)
  have l: "unat (load32 (mem s) (sh_link (a + o_hdr F n))) = i_symtab (o_names F)"
    "unat (load32 (mem s) (sh_info (a + o_hdr F n))) = k"
    using r unat_index [OF ok y] unat_index [OF ok r(2)] keeps_field(6,7) [OF kp n(1)]
    by (simp_all add: rela_section_ok_def)
  show ?thesis
    using n(1) keeps_shnum [OF kp] ty l by (simp add: relocsections_loop.simps [of n s] g Let_def)
qed

lemma relocsections_loop_end: "keeps F a (mem s) \<Longrightarrow> points F a (gbls s) \<Longrightarrow> o_shnum F \<le> n \<Longrightarrow> relocsections_loop n s = Some s"
  using keeps_shnum [of F a "mem s"] by (simp add: relocsections_loop.simps [of n s] points_def Let_def)

text \<open>The three contents after the sections in front of \<open>n\<close>.\<close>

definition half_linked :: "byte list \<Rightarrow> u32 \<Rightarrow> nat \<Rightarrow> nat \<Rightarrow> nat \<Rightarrow> byte list" where
  "half_linked F v n k r = (if r < n then linked_section F v k r else file_image F k)"

definition images :: "byte list \<Rightarrow> nat \<Rightarrow> u32 \<Rightarrow> nat \<Rightarrow> memory \<Rightarrow> bool" where
  "images F a v n m = (let i = o_names F in
     section_image F a m (i_text i) = half_linked F v n (i_text i) (i_rela_text i) \<and>
     section_image F a m (i_rodata i) = half_linked F v n (i_rodata i) (i_rela_rodata i) \<and>
     section_image F a m (i_data i) = half_linked F v n (i_data i) (i_rela_data i))"

lemma half_linked_0: "half_linked F v n k 0 = file_image F k"
  by (simp add: half_linked_def linked_section_image o_relas_def)

lemma half_linked_Suc: "r \<noteq> n \<Longrightarrow> half_linked F v (Suc n) k r = half_linked F v n k r"
  by (simp add: half_linked_def)

lemma half_linked_at: "half_linked F v n k n = file_image F k" "half_linked F v (Suc n) k n = linked_section F v k n"
  by (simp_all add: half_linked_def)

end
