(* ===== verification/Boot_Rel_Final.thy ===== *)
theory Boot_Rel_Final
  imports Boot_Rel_Correct
begin

text \<open>
  \<open>rel\<close> as a whole, on a relocatable kernel: it returns without a complaint, and the image it leaves is
  the linked one.
\<close>

text \<open>The relocation section at \<open>n\<close>, one of the three, links the section it belongs to.\<close>

definition loop_state :: "byte list \<Rightarrow> nat \<Rightarrow> u32 \<Rightarrow> rel_state \<Rightarrow> nat \<Rightarrow> rel_state \<Rightarrow> bool" where
  "loop_state F a v s n t = (ready F a v t \<and> images F a v n (mem t) \<and> gbls t = gbls s \<and> bip t = bip s \<and>
     complaints t = complaints s)"

lemma rela_step:
  assumes ok: "kernel_object F v" and i: "i = o_names F" and n: "n < o_shnum F" and t: "loop_state F a v s n t"
    and k: "n = i_rela_text i \<and> k = i_text i \<or> n = i_rela_rodata i \<and> n \<noteq> 0 \<and> k = i_rodata i \<or> n = i_rela_data i \<and> k = i_data i"
    and rel: "rela_section_ok F n k"
    and d: "i_rela_text i \<noteq> i_rela_data i" "i_rela_text i \<noteq> i_rela_rodata i" "i_rela_data i \<noteq> i_rela_rodata i"
  shows "\<exists>u. relocsections_loop n t = relocsections_loop (Suc n) u \<and> loop_state F a v s (Suc n) u"
proof -
  have h: "elf_header_ok F" "sections_ok F" "address_ok F v" "layout_ok F"
    using ok by (simp_all add: kernel_object_def)
  note nz = names_nonzero [OF h(2)] and di = names_distinct [OF h(1,2)]
  have n0: "n \<noteq> 0" using k nz by (auto simp: i)
  have nb: "n \<noteq> i_bss (o_names F)" using k di by (auto simp: i)
  have kind: "kind_of (file_mem F) (o_hdr F n) = Rela" using kinds(6) [OF h(2) n] k n0 by (auto simp: i)
  have kn: "k < o_shnum F" using k names_below [OF h(1)] by (auto simp: i indices_below_def)
  have w: "writable F (o_content F k)" using k contents_writable [OF h(4)] by (auto simp: i)
  have ro: "o_rela_region F n \<in> set (read_only F)" using k by (auto simp: i read_only_def Let_def)
  have rd: "ready F a v t" using t by (simp add: loop_state_def)
  obtain u where u: "relocsection (a + o_hdr F n) (a + o_hdr F k) (a + o_hdr F (i_symtab (o_names F))) t = Some u"
    "ready F a v u" "gbls u = gbls t" "bip u = bip t" "complaints u = complaints t"
    "section_image F a (mem u) k = fold (apply_rela F v) (o_relas F n) (section_image F a (mem t) k)"
    "\<And>j. disjoint (o_content F j) (o_content F k) \<Longrightarrow> section_image F a (mem u) j = section_image F a (mem t) j"
    using relocsection_image [OF h(1-3) rd rel n0 n nb kn w ro] by blast
  have step: "relocsections_loop n t = relocsections_loop (Suc n) u"
    using relocsections_loop_rela [OF h(1) rd n kind rel kn] u(1) by simp
  note ds = layout_disjoint(4-6) [OF h(4)]
  note ds = ds ds [THEN disjoint_sym [THEN iffD1]]
  have im: "section_image F a (mem t) (i_text i) = half_linked F v n (i_text i) (i_rela_text i)"
    "section_image F a (mem t) (i_rodata i) = half_linked F v n (i_rodata i) (i_rela_rodata i)"
    "section_image F a (mem t) (i_data i) = half_linked F v n (i_data i) (i_rela_data i)"
    using t by (simp_all add: loop_state_def images_def Let_def i)
  have "images F a v (Suc n) (mem u)"
    using k
  proof (elim disjE conjE)
    assume n: "n = i_rela_text i" and k: "k = i_text i"
    show ?thesis unfolding images_def Let_def
      using u(6) u(7) [of "i_rodata i"] u(7) [of "i_data i"] im ds d n k
      by (simp add: i half_linked_Suc half_linked_at linked_section_image)
  next
    assume n: "n = i_rela_rodata i" and k: "k = i_rodata i"
    show ?thesis unfolding images_def Let_def
      using u(6) u(7) [of "i_text i"] u(7) [of "i_data i"] im ds d n k
      by (simp add: i half_linked_Suc half_linked_at linked_section_image)
  next
    assume n: "n = i_rela_data i" and k: "k = i_data i"
    show ?thesis unfolding images_def Let_def
      using u(6) u(7) [of "i_text i"] u(7) [of "i_rodata i"] im ds d n k
      by (simp add: i half_linked_Suc half_linked_at linked_section_image)
  qed
  then have "loop_state F a v s (Suc n) u" using t u(2-5) by (simp add: loop_state_def)
  then show ?thesis using step by blast
qed

lemma rela_distinct:
  assumes ok: "kernel_object F v" and i: "i = o_names F"
  shows "i_rela_text i \<noteq> i_rela_data i" "i_rela_text i \<noteq> i_rela_rodata i" "i_rela_data i \<noteq> i_rela_rodata i"
    "rela_section_ok F (i_rela_text i) (i_text i)" "rela_section_ok F (i_rela_data i) (i_data i)"
    "i_rela_rodata i \<noteq> 0 \<Longrightarrow> rela_section_ok F (i_rela_rodata i) (i_rodata i)"
proof -
  have h: "elf_header_ok F" "sections_ok F" "tables_ok F" using ok by (simp_all add: kernel_object_def)
  note nz = names_nonzero [OF h(2), folded i] and di = names_distinct [OF h(1,2), folded i]
  note b = names_below [OF h(1), folded i, unfolded indices_below_def]
  show r: "rela_section_ok F (i_rela_text i) (i_text i)" "rela_section_ok F (i_rela_data i) (i_data i)"
    "i_rela_rodata i \<noteq> 0 \<Longrightarrow> rela_section_ok F (i_rela_rodata i) (i_rodata i)"
    using h(3) by (simp_all add: tables_ok_def Let_def i)
  have info: "k = unat (load32 (file_mem F) (sh_info (o_hdr F r)))" if "rela_section_ok F r k" "k < o_shnum F" for r k
    using that unat_index [OF h(1)] by (simp add: rela_section_ok_def)
  show "i_rela_text i \<noteq> i_rela_data i" using info [OF r(1)] info [OF r(2)] b di by metis
  show "i_rela_text i \<noteq> i_rela_rodata i" using info [OF r(1)] info [OF r(3)] b di nz by metis
  show "i_rela_data i \<noteq> i_rela_rodata i" using info [OF r(2)] info [OF r(3)] b di nz by metis
qed

lemma relocsections_loop_images:
  assumes ok: "kernel_object F v" and t: "loop_state F a v s n t" and n: "n \<le> o_shnum F"
  shows "\<exists>u. relocsections_loop n t = Some u \<and> loop_state F a v s (o_shnum F) u"
  using t n
proof (induction "o_shnum F - n" arbitrary: n t)
  case 0
  then have "n = o_shnum F" by simp
  moreover have "relocsections_loop n t = Some t"
    using 0 by (intro relocsections_loop_end [of F a]) (auto simp: loop_state_def ready_def)
  ultimately show ?case using 0 by blast
next
  case (Suc d)
  let ?i = "o_names F"
  have n: "n < o_shnum F" and dn: "d = o_shnum F - Suc n" using Suc.hyps(2) by simp_all
  note rd = rela_distinct [OF ok refl]
  have h: "sections_ok F" using ok by (simp add: kernel_object_def)
  consider "n = i_rela_text ?i" | "n = i_rela_rodata ?i" "n \<noteq> 0" | "n = i_rela_data ?i"
    | "n \<noteq> i_rela_text ?i" "n \<noteq> i_rela_rodata ?i \<or> n = 0" "n \<noteq> i_rela_data ?i" by blast
  then have "\<exists>u. relocsections_loop n t = relocsections_loop (Suc n) u \<and> loop_state F a v s (Suc n) u"
  proof cases
    case 1
    show ?thesis using rela_step [OF ok refl n Suc.prems(1), of "i_text ?i"] rd 1 by simp
  next
    case 2
    show ?thesis using rela_step [OF ok refl n Suc.prems(1), of "i_rodata ?i"] rd 2 by simp
  next
    case 3
    show ?thesis using rela_step [OF ok refl n Suc.prems(1), of "i_data ?i"] rd 3 by simp
  next
    case 4
    have "kind_of (file_mem F) (o_hdr F n) \<noteq> Rela" using kinds(6) [OF h n] 4 by auto
    then have "relocsections_loop n t = relocsections_loop (Suc n) t"
      using relocsections_loop_other [OF _ n, of a v t] Suc.prems(1) unfolding loop_state_def by blast
    moreover have "half_linked F v (Suc n) (i_rodata ?i) (i_rela_rodata ?i) = half_linked F v n (i_rodata ?i) (i_rela_rodata ?i)"
      using 4(2) half_linked_0 half_linked_Suc by metis
    then have "loop_state F a v s (Suc n) t"
      using Suc.prems(1) 4 by (simp add: loop_state_def images_def Let_def half_linked_Suc)
    ultimately show ?thesis by blast
  qed
  then obtain u where u: "relocsections_loop n t = relocsections_loop (Suc n) u" "loop_state F a v s (Suc n) u" by blast
  show ?case using Suc.hyps(1) [OF dn u(2)] u(1) n by simp
qed

section \<open>From the file to the symbols\<close>

lemma section_addr_bss:
  assumes "elf_header_ok F" "sections_ok F"
  shows "section_addr F v (bss_index F) = v + text_size F + rodata_size F + data_size F"
  using names_distinct [OF assms] by (simp add: section_addr_def Let_def)

lemma sym_state_start:
  assumes ok: "elf_header_ok F" "sections_ok F" and s: "pristine F a (mem s)" "points F a (gbls s)" "bound F a v (mem s)"
    and e: "end_addr (gbls s) = v + text_size F + rodata_size F + data_size F + bss_size F"
  shows "sym_state F a v (o_syms F) s"
proof -
  let ?y = "i_symtab (o_names F)"
  have b: "bss_index F < o_shnum F" using names_below [OF ok(1)] by (simp add: indices_below_def)
  have "agree F a (mem s) (o_off F ?y, Sym_size * o_count F ?y)"
    using s(1) by (simp add: pristine_def symbol_region_def Let_def)
  then have "symtab_syms F a (mem s) = o_syms F"
    using load_syms_agree by (simp add: symtab_syms_def symbol_region_def o_syms_def Let_def)
  then show ?thesis
    using s b unfolding sym_state_def contents_agree_def section_addr_bss [OF ok] e
    by (simp add: pristine_def bss_size_def)
qed

lemma symtab_count:
  assumes ok: "elf_header_ok F" "sections_ok F" "tables_ok F" and s: "sym_state F a v L s"
  shows "symhdr (gbls s) = a + o_hdr F (i_symtab (o_names F))"
    "udiv (load32 (mem s) (sh_size (symhdr (gbls s)))) (load32 (mem s) (sh_entsize (symhdr (gbls s)))) =
      Some (o_size F (i_symtab (o_names F)) div o_entsize F (i_symtab (o_names F)))"
    "elfdata (gbls s) + unat (load32 (mem s) (sh_offset (symhdr (gbls s)))) = a + fst (symbol_region F)"
    "length L = unat (o_size F (i_symtab (o_names F)) div o_entsize F (i_symtab (o_names F)))"
proof -
  let ?y = "i_symtab (o_names F)"
  have y: "?y < o_shnum F" using names_below [OF ok(1)] by (simp add: indices_below_def)
  have k: "keeps F a (mem s)" using s by (simp add: sym_state_def)
  show h: "symhdr (gbls s) = a + o_hdr F ?y" using s by (simp add: sym_state_def points_def Let_def)
  have e: "o_entsize F ?y \<noteq> 0" using ok(3) by (simp add: tables_ok_def Let_def)
  show "udiv (load32 (mem s) (sh_size (symhdr (gbls s)))) (load32 (mem s) (sh_entsize (symhdr (gbls s)))) =
      Some (o_size F ?y div o_entsize F ?y)"
    using keeps_field(8,9) [OF k y] names_distinct(7) [OF ok(1,2)] e by (simp add: h udiv_def)
  show "elfdata (gbls s) + unat (load32 (mem s) (sh_offset (symhdr (gbls s)))) = a + fst (symbol_region F)"
    using keeps_field(5) [OF k y] s by (simp add: h sym_state_def points_def symbol_region_def Let_def)
  show "length L = unat (o_size F ?y div o_entsize F ?y)"
    using s by (auto simp: sym_state_def symtab_syms_def o_count_def)
qed

definition placed_syms :: "byte list \<Rightarrow> u32 \<Rightarrow> esym list" where
  "placed_syms F v =
    map2 (\<lambda>s x. rel_placed (of_nat (bss_index F)) (section_addr F v (bss_index F)) s (v + x)) (o_syms F)
      (snd (commons (text_size F + rodata_size F + data_size F + bss_size F) (o_syms F)))"

lemma rel_syms_placed: "rel_syms F v = map (rel_special F v (v + image_end F)) (placed_syms F v)"
  by (simp add: rel_syms_def placed_syms_def)

lemma allocbss_syms:
  assumes ok: "kernel_object F v" and s: "sym_state F a v (o_syms F) s"
    and e: "end_addr (gbls s) = v + text_size F + rodata_size F + data_size F + bss_size F"
  shows "\<exists>t. allocbss s = Some t \<and> sym_state F a v (placed_syms F v) t \<and> end_addr (gbls t) = v + image_end F \<and>
    complaints t = complaints s \<and> bip t = bip s"
proof -
  have h: "elf_header_ok F" "sections_ok F" "tables_ok F" "layout_ok F" "address_ok F v"
    using ok by (simp_all add: kernel_object_def)
  note c = symtab_count [OF h(1-3) s]
  let ?b = "of_nat (bss_index F) :: u16" and ?ba = "section_addr F v (bss_index F)"
  have al: "aligned_commons v (o_syms F)" using h(5) by (simp add: address_ok_def aligned_commons_def)
  have e': "end_addr (gbls s) = v + (text_size F + rodata_size F + data_size F + bss_size F)" by (simp add: e)
  have r: "rel_commons ?b ?ba (end_addr (gbls s)) (o_syms F) = (v + image_end F, placed_syms F v)"
    unfolding e' rel_commons_commons [OF al] by (simp add: image_end_def placed_syms_def)
  note l = allocbss_loop_syms [OF h(4,1,2) s, of 0 "length (o_syms F)", simplified, unfolded r]
  show ?thesis using l c(4) by (simp add: allocbss_def Let_def c(2,3))
qed

lemma specialsyms_syms:
  assumes ok: "kernel_object F v" and s: "sym_state F a v (placed_syms F v) s" and e: "end_addr (gbls s) = v + image_end F"
  shows "\<exists>t. specialsyms s = Some t \<and> sym_state F a v (rel_syms F v) t \<and> complaints t = complaints s \<and> bip t = bip s"
proof -
  have h: "elf_header_ok F" "sections_ok F" "tables_ok F" "layout_ok F" using ok by (simp_all add: kernel_object_def)
  let ?y = "i_symtab (o_names F)" and ?n = "i_strtab (o_names F)"
  have b: "?y < o_shnum F" "?n < o_shnum F" using names_below [OF h(1)] by (simp_all add: indices_below_def)
  note c = symtab_count [OF h(1-3) s]
  have k: "keeps F a (mem s)" using s by (simp add: sym_state_def)
  have "unat (load32 (mem s) (sh_link (symhdr (gbls s)))) = ?n"
    using keeps_field(6) [OF k b(1)] h(3) unat_index [OF h(1) b(2)] by (simp add: c(1) tables_ok_def Let_def)
  then have st: "elfdata (gbls s) + unat (load32 (mem s) (sh_offset (Shdrs (gbls s) +
      Shdr_size * unat (load32 (mem s) (sh_link (symhdr (gbls s))))))) = a + o_strtab F"
  proof -
    have "Shdrs (gbls s) + Shdr_size * ?n = a + o_hdr F ?n" "elfdata (gbls s) = a"
      using s by (simp_all add: sym_state_def points_def Let_def o_hdr_def)
    then show "unat (load32 (mem s) (sh_link (symhdr (gbls s)))) = ?n \<Longrightarrow> ?thesis"
      using keeps_field(5) [OF k b(2)] by (simp add: o_strtab_def)
  qed
  have nm: "list_all (\<lambda>s. es_name s < o_size F ?n) (placed_syms F v)"
    using h(3) by (auto simp: tables_ok_def Let_def list_all_length placed_syms_def rel_placed_def)
  note l = specialsyms_loop_syms [OF h(4,1,2,3) s _ nm, of 0 "length (placed_syms F v)", simplified, unfolded e]
  show ?thesis using l c(4) by (simp add: specialsyms_def Let_def c(2,3) st rel_syms_placed)
qed

section \<open>The result\<close>

lemma loaded_magic:
  assumes "elf_header_ok F" "loaded_at F a m"
  shows "streqn (peek m a SELFMAG) (ELFMAG @ [0]) (int SELFMAG) = Some True" "load16 m (e_type a) = ET_REL"
    "unat (load32 m (e_shoff a)) = o_shoff F"
proof -
  have n: "SELFMAG \<le> length F" "inside F (0, 52)" using assms(1) by (simp_all add: elf_header_ok_def SELFMAG_def inside_def)
  have "peek m a SELFMAG = take SELFMAG (peek m a (length F))"
    using n(1) by (intro nth_equalityI) simp_all
  then have "peek m a SELFMAG = ELFMAG" using assms by (simp add: loaded_at_def elf_header_ok_def)
  then show "streqn (peek m a SELFMAG) (ELFMAG @ [0]) (int SELFMAG) = Some True"
    by (simp add: ELFMAG_def SELFMAG_def)
  note ag = loaded_agree [OF assms(2) n(2)]
  show "load16 m (e_type a) = ET_REL" "unat (load32 m (e_shoff a)) = o_shoff F"
    using agree_load16 [OF ag, of 16] agree_load32 [OF ag, of 32] assms(1)
    by (simp_all add: elf_header_ok_def o_shoff_def)
qed

lemma loaded_image_segments:
  assumes "elf_header_ok F" "sections_ok F" "segments F v (bip s)" "elfdata (gbls s) = a"
  shows "loaded_image s = section_image F a (mem s) (i_text (o_names F)) @
    section_image F a (mem s) (i_rodata (o_names F)) @ section_image F a (mem s) (i_data (o_names F))"
  using assms names_nonzero [OF assms(2)]
  by (simp add: loaded_image_def Let_def segments_def section_image_def o_content_def text_size_def data_size_def rodata_size_def)

lemma images_start:
  assumes "contents_agree F a m"
  shows "images F a v 0 m"
  using assms agree_peek [OF _ order_refl order_refl, of F a m]
  by (simp add: images_def Let_def half_linked_def section_image_def file_image_def contents_agree_def)

lemma rel_full_linked:
  assumes ok: "kernel_object F v" and s: "loaded_at F a (mem s)" "elfdata (gbls s) = a" "Ehdr (gbls s) = a"
    and b: "bd_rvaddr (bip s) = 0" "bd_roffset (bip s) = 0" "bd_rsize (bip s) = 0"
  shows "\<exists>t. rel_full v s = Some t \<and> loaded_image t = linked F v \<and> complaints t = complaints s \<and> segments F v (bip t)"
proof -
  have h: "elf_header_ok F" "sections_ok F" "layout_ok F" using ok by (simp_all add: kernel_object_def)
  define s0 where "s0 = (set_bip (\<lambda>d. d\<lparr>bd_entry := v\<rparr>) s)\<lparr>gbls := (gbls s)\<lparr>Shdrs := a + o_shoff F, thdr := 0, rhdr := 0,
    dhdr := 0, bhdr := 0, end_addr := v\<rparr>\<rparr>"
  have m0: "mem s0 = mem s" "loaded_at F a (mem s0)" using s(1) by (simp_all add: s0_def)
  obtain g where g: "findsections s0 = s0\<lparr>gbls := g\<rparr>" "points F a g" "end_addr g = v"
    using findsections_points [OF h(1,2,3) m0(2), of] s(2,3) by (auto simp: s0_def)
  define s1 where "s1 = bindsections (findsections s0)"
  have "pristine F a (mem (findsections s0))" using pristine_loaded [OF h(3) m0(2)] by (simp add: g(1))
  note b1 = bindsections_bound [OF h(3,1,2) this, of v, folded s1_def]
  have b1: "pristine F a (mem s1)" "points F a (gbls s1)" "complaints s1 = complaints s" "bound F a v (mem s1)"
    "segments F v (bip s1)" "end_addr (gbls s1) = v + text_size F + rodata_size F + data_size F + bss_size F"
    using b1 g b by (simp_all add: s0_def)
  note y1 = sym_state_start [OF h(1,2) b1(1,2,4,6)]
  obtain s2 where s2: "allocbss s1 = Some s2" "sym_state F a v (placed_syms F v) s2"
    "end_addr (gbls s2) = v + image_end F" "complaints s2 = complaints s1" "bip s2 = bip s1"
    using allocbss_syms [OF ok y1 b1(6)] by blast
  obtain s3 where s3: "specialsyms s2 = Some s3" "sym_state F a v (rel_syms F v) s3"
    "complaints s3 = complaints s2" "bip s3 = bip s2"
    using specialsyms_syms [OF ok s2(2,3)] by blast
  have "loop_state F a v s3 0 s3"
    using s3(2) images_start by (simp add: loop_state_def ready_def sym_state_def)
  then obtain t where t: "relocsections_loop 0 s3 = Some t" "loop_state F a v s3 (o_shnum F) t"
    using relocsections_loop_images [OF ok, of a s3 0 s3] by blast
  have "rel_full v s = Some t"
    using t(1) s2(1) s3(1) loaded_magic(3) [OF h(1) s(1)] s(2,3)
    by (simp add: rel_full_def Let_def relocsections_def s1_def s0_def set_bip_def)
  moreover have sg: "segments F v (bip t)" "complaints t = complaints s"
    using t(2) s3 s2 b1 by (simp_all add: loop_state_def)
  moreover have "loaded_image t = linked F v"
  proof -
    have e: "elfdata (gbls t) = a" using t(2) by (auto simp: loop_state_def ready_def points_def Let_def)
    note n = names_below [OF h(1), unfolded indices_below_def]
    show ?thesis
      unfolding loaded_image_segments [OF h(1,2) sg(1) e]
      using t(2) n by (simp add: loop_state_def images_def Let_def half_linked_def linked_def)
  qed
  ultimately show ?thesis by blast
qed

lemma rel_links_kernel:
  assumes "kernel_object F v" "peek m a (length F) = F"
  shows "\<exists>t. rel g a v m d = Some (1, t) \<and> complaints t = [] \<and> loaded_image t = linked F v \<and> segments F v (bip t)"
proof -
  have h: "elf_header_ok F" "loaded_at F a m" using assms by (simp_all add: kernel_object_def loaded_at_def)
  let ?s = "\<lparr>mem = m, gbls = g\<lparr>Ehdr := a, elfdata := a\<rparr>, bip = clear_bip d, complaints = []\<rparr>"
  obtain t where "rel_full v ?s = Some t \<and> loaded_image t = linked F v \<and> complaints t = complaints ?s \<and> segments F v (bip t)"
    using rel_full_linked [OF assms(1), of a ?s] h(2) by (auto simp: clear_bip_def)
  then show ?thesis
    using loaded_magic [OF h] by (simp add: rel_def Let_def ET_REL_def ET_EXEC_def ET_LOPROC_def)
qed

text \<open>
  C12. A kernel that \<open>kernel_object\<close> describes, anywhere in memory and with any contents of the uninitialised
  structure: \<open>rel\<close> returns 1 without a complaint, the image is the linked one, and the boot data say where
  the three segments are and go.
\<close>

theorem rel_links:
  assumes "kernel_object F v" "peek m a (length F) = F"
  shows "\<exists>t. rel g a v m d = Some (1, t) \<and> complaints t = [] \<and> loaded_image t = linked F v \<and> segments F v (bip t)"
  by (rule rel_links_kernel [OF assms])

end
