(* ===== verification/Boot_Brel_Syms.thy ===== *)
theory Boot_Brel_Syms
  imports Boot_Rel_Final
begin

text \<open>
  \<open>elf2brel\<close> up to the relocation table: the sections it finds by name, the symbol table in terms of the
  combined section, and the entries made from the relocation records.
\<close>

section \<open>Reading\<close>

lemma section_names_c: "c_string text_name" "c_string rodata_name" "c_string data_name" "c_string bss_name"
  "c_string symtab_name" "c_string strtab_name" "c_string (rela_name @ text_name)"
  "c_string (rela_name @ rodata_name)" "c_string (rela_name @ data_name)"
  by (simp_all add: c_string_def text_name_def rodata_name_def data_name_def bss_name_def symtab_name_def
      strtab_name_def rela_name_def)

lemma name_section_agree:
  assumes "agree F a m (p, n)" "q < n" "file_mem F (p + n - 1) = 0"
  shows "name_section m (a + (p + q)) k i = name_section (file_mem F) (p + q) k i"
  unfolding name_section_def section_names_c [THEN agree_name [OF assms]] ..

lemma find_sections_agree:
  assumes "elf_header_ok F" "layout_ok F" "loaded_at F a m"
  shows "find_sections m (a + o_shoff F) (a + o_off F (o_shstr F)) (o_shnum F) i =
    find_sections (file_mem F) (o_shoff F) (o_off F (o_shstr F)) (o_shnum F) i"
proof -
  let ?p = "o_off F (o_shstr F)" and ?n = "unat (o_size F (o_shstr F))"
  have st: "string_table F (o_shstr F)" using assms(1) by (simp add: elf_header_ok_def)
  have ag: "agree F a m (?p, ?n)" using loaded_agree [OF assms(3)] st by (simp add: string_table_def)
  have nul: "file_mem F (?p + ?n - 1) = 0" using st by (simp add: string_table_def)
  note kp = keeps_loaded [OF assms(2,3)]
  have "name_section m (a + ?p + unat (load32 m (a + o_shoff F + Shdr_size * k))) k i =
      name_section (file_mem F) (?p + unat (load32 (file_mem F) (o_shoff F + Shdr_size * k))) k i"
    if "k < o_shnum F" for k i
  proof -
    have "load32 (file_mem F) (o_hdr F k) < o_size F (o_shstr F)" using assms(1) that by (simp add: elf_header_ok_def)
    then have "unat (load32 (file_mem F) (o_hdr F k)) < ?n" by (simp add: word_less_nat_alt)
    then show ?thesis
      using name_section_agree [OF ag _ nul] keeps_field(1) [OF kp that] by (simp add: o_hdr_def add.assoc)
  qed
  then show ?thesis unfolding find_sections_def by (intro fold_cong) auto
qed

text \<open>The static variables after the file is read, and what stays of them.\<close>

definition statics :: "byte list \<Rightarrow> nat \<Rightarrow> brel_state \<Rightarrow> bool" where
  "statics F a s = (Elfdata s = a \<and> Ehdrp s = a \<and> Shdr s = a + o_shoff F \<and> ix s = o_names F \<and>
     textsize s = text_size F \<and> rodatasize s = rodata_size F \<and> datasize s = data_size F \<and> stdout s = [])"

definition brel_syms_are :: "byte list \<Rightarrow> nat \<Rightarrow> esym list \<Rightarrow> brel_state \<Rightarrow> bool" where
  "brel_syms_are F a L s = (statics F a s \<and> keeps F a (bmem s) \<and> contents_agree F a (bmem s) \<and>
     load32 (bmem s) (sh_size (a + o_hdr F (bss_index F))) = bss_size F \<and> symtab_syms F a (bmem s) = L)"

lemma hdr_pointer_o: "statics F a s \<Longrightarrow> hdr s k = a + o_hdr F k"
  by (simp add: hdr_def statics_def o_hdr_def)

lemma loaded_poke: "loaded_at F a (poke m a F)"
  by (simp add: loaded_at_def peek_poke)

lemma ReadElfFile_ok:
  assumes ok: "elf_header_ok F" "sections_ok F" "layout_ok F"
    and h: "fstat_size h = Some (length F)" "malloc_result h \<noteq> 0" "stdin h = F"
  shows "\<exists>s. ReadElfFile h = Inr s \<and> brel_syms_are F (malloc_result h) (o_syms F) s \<and> bsssize s = bss_size F"
proof -
  define a where "a = malloc_result h"
  define m where "m = poke (heap h) a F"
  have ld: "loaded_at F a m" by (simp add: m_def loaded_poke)
  have pr: "pristine F a m" by (rule pristine_loaded [OF ok(3) ld])
  have kp: "keeps F a m" using pr by (simp add: pristine_def)
  have n: "SELFMAG \<le> length F" "inside F (0, 52)" using ok(1) by (simp_all add: elf_header_ok_def SELFMAG_def inside_def)
  have mag: "peek m a SELFMAG = ELFMAG"
  proof -
    have "peek m a SELFMAG = take SELFMAG (peek m a (length F))" using n(1) by (intro nth_equalityI) simp_all
    then show ?thesis using ld ok(1) by (simp add: loaded_at_def elf_header_ok_def)
  qed
  have str: "unat (load16 m (e_shstrndx a)) = o_shstr F"
    using agree_load16 [OF loaded_agree [OF ld n(2)], of 50] by (simp add: o_shstr_def)
  have off: "unat (load32 m (e_shoff a)) = o_shoff F" by (rule loaded_magic(3) [OF ok(1) ld])
  have num: "unat (load16 m (e_shnum a)) = o_shnum F" by (rule keeps_shnum [OF kp])
  have sb: "o_shstr F < o_shnum F" using ok(1) by (simp add: elf_header_ok_def)
  have so: "unat (load32 m (sh_offset (a + o_shoff F + Shdr_size * o_shstr F))) = o_off F (o_shstr F)"
    using keeps_field(5) [OF kp sb] by (simp add: o_hdr_def add.assoc)
  have ix: "find_sections m (a + o_shoff F) (a + o_off F (o_shstr F)) (o_shnum F)
      ((ix (init_brel m))\<lparr>i_shstrtab := o_shstr F\<rparr>) = o_names F"
    unfolding find_sections_agree [OF ok(1,3) ld] by (simp add: o_names_def init_brel_def)
  have miss: "missing_section (o_names F) = None" using ok(2) by (simp add: sections_ok_def Let_def)
  define s where "s = set_sizes ((init_brel m)\<lparr>Elfdata := a, Ehdrp := a, Shdr := a + o_shoff F, ix := o_names F\<rparr>)"
  have "load32 m (e_shoff a) \<noteq> 0" "load16 m (e_shnum a) \<noteq> 0"
    using off num ok(1) by (auto simp: elf_header_ok_def)
  then have "pick_apart a (init_brel m) = Inr s"
    using loaded_magic(2) [OF ok(1) ld]
    by (simp add: pick_apart_def Let_def s_def init_brel_def off num str so ix [simplified init_brel_def, simplified] miss)
  then have "ReadElfFile h = Inr s"
    using h mag by (simp add: ReadElfFile_def Let_def a_def m_def)
  moreover have "bsssize s = bss_size F \<and> brel_syms_are F a (o_syms F) s"
  proof -
    note b = names_below [OF ok(1), unfolded indices_below_def]
    have sz: "load32 m (sh_size (a + o_hdr F k)) = o_size F k" if "k < o_shnum F" for k
      using pr that by (simp add: pristine_def)
    have "symtab_syms F a m = o_syms F"
      using load_syms_agree [of F a m] pr
      by (simp add: pristine_def symtab_syms_def symbol_region_def o_syms_def Let_def)
    then show ?thesis
      using pr b sz
      by (simp add: s_def set_sizes_def Let_def brel_syms_are_def statics_def init_brel_def hdr_def pristine_def
          contents_agree_def text_size_def rodata_size_def data_size_def bss_size_def o_hdr_def add.assoc)
  qed
  ultimately show ?thesis by (auto simp: a_def)
qed

section \<open>The symbol table\<close>

text \<open>Writes to a symbol leave everything but the list alone.\<close>

lemma brel_write:
  assumes ok: "layout_ok F" "elf_header_ok F" "sections_ok F" and s: "brel_syms_are F a L s"
    and w: "within (symbol_region F) q (length bs)"
  defines "t \<equiv> s\<lparr>bmem := poke (bmem s) (a + q) bs\<rparr>"
  shows "brel_syms_are F a (symtab_syms F a (bmem t)) t"
proof -
  have b: "bss_index F < o_shnum F" using names_below [OF ok(2)] by (simp add: indices_below_def)
  have "keeps F a (bmem t)" using s layout_free(1) [OF ok(1)] w by (simp add: t_def brel_syms_are_def keeps_poke)
  moreover have "contents_agree F a (bmem t)" using s contents_poke_syms [OF ok(1) w] by (simp add: t_def brel_syms_are_def)
  moreover have "load32 (bmem t) (a + o_hdr F (bss_index F) + 20) = load32 (bmem s) (a + o_hdr F (bss_index F) + 20)"
    using hdr_poke [OF layout_disjoint(7) [OF ok(1)] w b, of 20] by (simp add: t_def)
  ultimately show ?thesis using s by (simp add: brel_syms_are_def t_def statics_def)
qed

lemma brel_set:
  assumes ok: "layout_ok F" "elf_header_ok F" "sections_ok F" and s: "brel_syms_are F a L s" and j: "j < length L"
  defines "p \<equiv> a + fst (symbol_region F) + Sym_size * j"
  shows "brel_syms_are F a (L[j := (L ! j)\<lparr>es_value := x\<rparr>]) (bset32 (st_value p) x s)"
    "brel_syms_are F a (L[j := (L ! j)\<lparr>es_shndx := h\<rparr>]) (bset16 (st_shndx p) h s)"
proof -
  have L: "L = load_syms (bmem s) (a + fst (symbol_region F)) (o_count F (i_symtab (o_names F)))"
    using s by (simp add: brel_syms_are_def symtab_syms_def)
  have n: "j < o_count F (i_symtab (o_names F))" using j by (simp add: L)
  show "brel_syms_are F a (L[j := (L ! j)\<lparr>es_value := x\<rparr>]) (bset32 (st_value p) x s)"
    using brel_write [OF ok s, of "fst (symbol_region F) + Sym_size * j + 4" "bytes32 x"] sym_within [OF n, of 4 4]
      load_syms_store(1) [OF n, of "bmem s" "a + fst (symbol_region F)" x]
    by (simp add: bset32_def store32_def symtab_syms_def L p_def add.assoc)
  show "brel_syms_are F a (L[j := (L ! j)\<lparr>es_shndx := h\<rparr>]) (bset16 (st_shndx p) h s)"
    using brel_write [OF ok s, of "fst (symbol_region F) + Sym_size * j + 14" "bytes16 h"] sym_within [OF n, of 14 2]
      load_syms_store(2) [OF n, of "bmem s" "a + fst (symbol_region F)" h]
    by (simp add: bset16_def store16_def symtab_syms_def L p_def add.assoc)
qed

lemma brel_load:
  assumes "brel_syms_are F a L s" "j < length L"
  defines "p \<equiv> a + fst (symbol_region F) + Sym_size * j"
  shows "load32 (bmem s) p = es_name (L ! j)" "load32 (bmem s) (st_value p) = es_value (L ! j)"
    "load32 (bmem s) (st_size p) = es_size (L ! j)" "load16 (bmem s) (st_shndx p) = es_shndx (L ! j)"
proof -
  have L: "L = load_syms (bmem s) (a + fst (symbol_region F)) (o_count F (i_symtab (o_names F)))"
    using assms(1) by (simp add: brel_syms_are_def symtab_syms_def)
  have "L ! j = load_sym (bmem s) p" using assms(2) by (simp add: L nth_load_syms p_def)
  then show "load32 (bmem s) p = es_name (L ! j)" "load32 (bmem s) (st_value p) = es_value (L ! j)"
    "load32 (bmem s) (st_size p) = es_size (L ! j)" "load16 (bmem s) (st_shndx p) = es_shndx (L ! j)"
    by (simp_all add: load_sym_def)
qed

lemma bset_accessors [simp]:
  "bmem (bset32 q x s) = store32 (bmem s) q x" "bmem (bset16 q h s) = store16 (bmem s) q h"
  "bsssize (bset32 q x s) = bsssize s" "bsssize (bset16 q h s) = bsssize s"
  "nreltab (bset32 q x s) = nreltab s" "nreltab (bset16 q h s) = nreltab s"
  "statics F a (bset32 q x s) = statics F a s" "statics F a (bset16 q h s) = statics F a s"
  "ix (bset32 q x s) = ix s" "ix (bset16 q h s) = ix s"
  "textsize (bset32 q x s) = textsize s" "textsize (bset16 q h s) = textsize s"
  "rodatasize (bset32 q x s) = rodatasize s" "rodatasize (bset16 q h s) = rodatasize s"
  "datasize (bset32 q x s) = datasize s" "datasize (bset16 q h s) = datasize s"
  by (simp_all add: bset32_def bset16_def statics_def)

text \<open>What the first loop makes of one symbol, \<open>x\<close> being the offset it gets if it is common.\<close>

definition brel_placed :: "byte list \<Rightarrow> esym \<Rightarrow> u32 \<Rightarrow> esym" where
  "brel_placed F s x =
    (let i = o_names F; k = unat (es_shndx s); t = of_nat (i_text i); v = es_value s in
     if es_shndx s = SHN_COMMON then s\<lparr>es_shndx := t, es_value := x\<rparr>
     else if k = i_text i then s
     else if i_rodata i \<noteq> 0 \<and> k = i_rodata i then s\<lparr>es_shndx := t, es_value := v + text_size F\<rparr>
     else if k = i_data i then s\<lparr>es_shndx := t, es_value := v + (text_size F + rodata_size F)\<rparr>
     else if k = i_bss i then s\<lparr>es_shndx := t, es_value := v + (text_size F + rodata_size F + data_size F)\<rparr>
     else s)"

definition base_size :: "byte list \<Rightarrow> u32" where
  "base_size F = text_size F + rodata_size F + data_size F"

lemma place_symbol_step:
  assumes ok: "layout_ok F" "elf_header_ok F" "sections_ok F" and s: "brel_syms_are F a L s" and j: "j < length L"
    and b: "bsssize s = e - base_size F"
  defines "x \<equiv> align_up e (es_value (L ! j))"
    and "r \<equiv> place_symbol (a + fst (symbol_region F) + Sym_size * j) (e, s)"
  shows "fst r = (if es_shndx (L ! j) = SHN_COMMON then x + es_size (L ! j) else e)"
    "brel_syms_are F a (L[j := brel_placed F (L ! j) x]) (snd r)" "bsssize (snd r) = fst r - base_size F"
    "nreltab (snd r) = nreltab s"
proof -
  let ?p = "a + fst (symbol_region F) + Sym_size * j" and ?t = "of_nat (i_text (o_names F)) :: u16"
  let ?L1 = "L[j := (L ! j)\<lparr>es_shndx := ?t\<rparr>]"
  have st: "statics F a s" using s by (simp add: brel_syms_are_def)
  then have sx: "ix s = o_names F" "textsize s = text_size F" "rodatasize s = rodata_size F" "datasize s = data_size F"
    by (simp_all add: statics_def)
  note ld = brel_load [OF s j]
  define s1 where "s1 = bset16 (st_shndx ?p) ?t s"
  have s1: "brel_syms_are F a ?L1 s1" unfolding s1_def by (rule brel_set(2) [OF ok s j])
  have s2: "brel_syms_are F a (L[j := (L ! j)\<lparr>es_shndx := ?t, es_value := y\<rparr>]) (bset32 (st_value ?p) y s1)" for y
    using brel_set(1) [OF ok s1, of j y] j by simp
  have size2: "load32 (bmem (bset32 (st_value ?p) y s1)) (st_size ?p) = es_size (L ! j)" for y
    using brel_load(3) [OF s2, of j y] j by simp
  have bss: "brel_syms_are F a M (u\<lparr>bsssize := z\<rparr>) = brel_syms_are F a M u" for M u z
    by (simp add: brel_syms_are_def statics_def)
  have same: "L[j := L ! j] = L" by simp
  have s1x: "textsize s1 = text_size F" "rodatasize s1 = rodata_size F" "datasize s1 = data_size F"
    "bsssize s1 = bsssize s" "nreltab s1 = nreltab s"
    by (simp_all add: s1_def sx)
  show "fst r = (if es_shndx (L ! j) = SHN_COMMON then x + es_size (L ! j) else e)"
    "brel_syms_are F a (L[j := brel_placed F (L ! j) x]) (snd r)" "bsssize (snd r) = fst r - base_size F"
    "nreltab (snd r) = nreltab s"
    using s s2 b size2 unfolding r_def place_symbol_def brel_placed_def Let_def prod.case ld sx
    by (simp_all add: bss same s1_def [symmetric] align_up_def [symmetric] x_def [symmetric] sx s1x base_size_def diff_diff_eq)
qed

lemma place_symbols_syms:
  assumes ok: "layout_ok F" "elf_header_ok F" "sections_ok F" and s: "brel_syms_are F a L s" and n: "j + n = length L"
    and b: "bsssize s = e - base_size F"
  defines "r \<equiv> place_symbols (a + fst (symbol_region F)) j n (e, s)" and "c \<equiv> commons e (drop j L)"
  shows "fst r = fst c \<and> brel_syms_are F a (take j L @ map2 (brel_placed F) (drop j L) (snd c)) (snd r) \<and>
    bsssize (snd r) = fst r - base_size F \<and> nreltab (snd r) = nreltab s"
  using s n b unfolding r_def c_def
proof (induction n arbitrary: j L s e)
  case 0
  then show ?case by simp
next
  case (Suc n)
  have j: "j < length L" using Suc.prems by simp
  let ?p = "a + fst (symbol_region F) + Sym_size * j" and ?x = "align_up e (es_value (L ! j))"
  let ?e = "if es_shndx (L ! j) = SHN_COMMON then ?x + es_size (L ! j) else e"
  let ?L = "L[j := brel_placed F (L ! j) ?x]" and ?u = "snd (place_symbol ?p (e, s))"
  note st = place_symbol_step [OF ok Suc.prems(1) j Suc.prems(3)]
  have pr: "place_symbol ?p (e, s) = (?e, ?u)" by (rule prod_eqI) (simp_all only: st(1) fst_conv snd_conv)
  have b: "bsssize ?u = ?e - base_size F" using st(1,3) by simp
  note ih = Suc.IH [OF st(2) _ b, of "Suc j"]
  have tk: "take (Suc j) ?L = take j L @ [brel_placed F (L ! j) ?x]" using j by (simp add: take_Suc_conv_app_nth)
  have dr: "drop (Suc j) ?L = drop (Suc j) L" by simp
  have nc: "brel_placed F (L ! j) 0 = brel_placed F (L ! j) ?x" if "es_shndx (L ! j) \<noteq> SHN_COMMON"
    using that by (simp add: brel_placed_def Let_def)
  have step: "place_symbols (a + fst (symbol_region F)) j (Suc n) (e, s) =
      place_symbols (a + fst (symbol_region F)) (Suc j) n (?e, ?u)" using pr by simp
  have len: "Suc j + n = length ?L" using Suc.prems(2) by simp
  show ?case
  proof (cases "es_shndx (L ! j) = SHN_COMMON")
    case True
    show ?thesis using ih [OF len] st(4) unfolding step tk dr drop_nth_Cons [OF j]
      by (simp add: True Let_def case_prod_unfold)
  next
    case False
    show ?thesis using ih [OF len] st(4) unfolding step tk dr drop_nth_Cons [OF j]
      by (simp add: False Let_def case_prod_unfold nc)
  qed
qed

definition brel_special :: "byte list \<Rightarrow> esym \<Rightarrow> esym" where
  "brel_special F s =
    (let def = \<lambda>x. s\<lparr>es_value := x, es_shndx := of_nat (i_text (o_names F))\<rparr> in
     case special_name (file_mem F) (o_strtab F) (es_name s) of
       Some Etext \<Rightarrow> def (text_size F)
     | Some Edata \<Rightarrow> def (base_size F)
     | Some End \<Rightarrow> def (image_end F)
     | None \<Rightarrow> s)"

lemma name_symbol_case:
  "name_symbol sy s =
    (let def = \<lambda>x. bset16 (st_shndx sy) (of_nat (i_text (ix s))) (bset32 (st_value sy) x s) in
     case special_name (bmem s) (Elfdata s + unat (load32 (bmem s) (sh_offset (hdr s (i_strtab (ix s))))))
         (load32 (bmem s) sy) of
       Some Etext \<Rightarrow> def (textsize s)
     | Some Edata \<Rightarrow> def (textsize s + rodatasize s + datasize s)
     | Some End \<Rightarrow> def (textsize s + rodatasize s + datasize s + bsssize s)
     | None \<Rightarrow> s)"
  by (simp add: name_symbol_def special_name_def Let_def)

lemma name_symbol_step:
  assumes ok: "layout_ok F" "elf_header_ok F" "sections_ok F" "tables_ok F" and s: "brel_syms_are F a L s"
    and j: "j < length L" "es_name (L ! j) < o_size F (i_strtab (o_names F))" and b: "bsssize s = image_end F - base_size F"
  defines "t \<equiv> name_symbol (a + fst (symbol_region F) + Sym_size * j) s"
  shows "brel_syms_are F a (L[j := brel_special F (L ! j)]) t \<and> bsssize t = bsssize s \<and> nreltab t = nreltab s"
proof -
  let ?p = "a + fst (symbol_region F) + Sym_size * j" and ?t = "of_nat (i_text (o_names F)) :: u16"
  have st: "statics F a s" and kp: "keeps F a (bmem s)" using s by (simp_all add: brel_syms_are_def)
  have sx: "ix s = o_names F" "textsize s = text_size F" "rodatasize s = rodata_size F" "datasize s = data_size F"
    "Elfdata s = a" using st by (simp_all add: statics_def)
  have upd: "brel_syms_are F a (L[j := (L ! j)\<lparr>es_value := x, es_shndx := ?t\<rparr>])
      (bset16 (st_shndx ?p) ?t (bset32 (st_value ?p) x s))" for x
    using brel_set(2) [OF ok(1-3) brel_set(1) [OF ok(1-3) s j(1)], where j = j and h = ?t] j(1)
    by (simp add: add.assoc)
  have n: "i_strtab (o_names F) < o_shnum F" using names_below [OF ok(2)] by (simp add: indices_below_def)
  have off: "unat (load32 (bmem s) (sh_offset (hdr s (i_strtab (o_names F))))) = o_strtab F"
    using keeps_field(5) [OF kp n] by (simp add: hdr_pointer_o [OF st] o_strtab_def)
  have name: "load32 (bmem s) ?p = es_name (L ! j)" by (rule brel_load(1) [OF s j(1)])
  have "L[j := L ! j] = L" by simp
  then show ?thesis
    using upd s b
    unfolding t_def name_symbol_case brel_special_def name off sx special_name_agree [OF ok(4) kp j(2)] Let_def
    by (simp add: base_size_def split: option.split special.split)
qed

lemma brel_special_name [simp]: "es_name (brel_special F s) = es_name s"
  by (simp add: brel_special_def Let_def split: option.split special.split)

lemma name_symbols_syms:
  assumes ok: "layout_ok F" "elf_header_ok F" "sections_ok F" "tables_ok F" and s: "brel_syms_are F a L s"
    and n: "j + n = length L" and names: "list_all (\<lambda>s. es_name s < o_size F (i_strtab (o_names F))) L"
    and b: "bsssize s = image_end F - base_size F"
  defines "t \<equiv> name_symbols (a + fst (symbol_region F)) j n s"
  shows "brel_syms_are F a (take j L @ map (brel_special F) (drop j L)) t \<and> nreltab t = nreltab s"
  using s n names b unfolding t_def
proof (induction n arbitrary: j L s)
  case 0
  then show ?case by simp
next
  case (Suc n)
  have j: "j < length L" using Suc.prems by simp
  have nm: "es_name (L ! j) < o_size F (i_strtab (o_names F))" using Suc.prems(3) j by (simp add: list_all_length)
  note st = name_symbol_step [OF ok Suc.prems(1) j nm Suc.prems(4)]
  have nms: "list_all (\<lambda>s. es_name s < o_size F (i_strtab (o_names F))) (L[j := brel_special F (L ! j)])"
    using Suc.prems(3) nm by (intro list_all_nth_update) simp_all
  have tk: "take (Suc j) (L[j := brel_special F (L ! j)]) = take j L @ [brel_special F (L ! j)]"
    using j by (simp add: take_Suc_conv_app_nth)
  show ?case
    using Suc.IH [OF conjunct1 [OF st] _ nms, of "Suc j"] st Suc.prems(2,4) unfolding tk drop_nth_Cons [OF j] by simp
qed

definition brel_syms :: "byte list \<Rightarrow> esym list" where
  "brel_syms F = map (brel_special F) (map2 (brel_placed F) (o_syms F) (snd (commons (base_size F + bss_size F) (o_syms F))))"

lemma length_brel_syms [simp]: "length (brel_syms F) = length (o_syms F)"
  by (simp add: brel_syms_def)

lemma brel_placed_name [simp]: "es_name (brel_placed F s x) = es_name s"
  by (simp add: brel_placed_def Let_def)

lemma ProcessSymtab_ok:
  assumes ok: "layout_ok F" "elf_header_ok F" "sections_ok F" "tables_ok F"
    and s: "brel_syms_are F a (o_syms F) s" "bsssize s = bss_size F"
  shows "\<exists>t. ProcessSymtab s = Inr t \<and> brel_syms_are F a (brel_syms F) t \<and> nreltab t = nreltab s"
proof -
  let ?y = "i_symtab (o_names F)" and ?c = "commons (base_size F + bss_size F) (o_syms F)"
  let ?e = "base_size F + bss_size F"
  have y: "?y < o_shnum F" using names_below [OF ok(2)] by (simp add: indices_below_def)
  have st: "statics F a s" and kp: "keeps F a (bmem s)" using s(1) by (simp_all add: brel_syms_are_def)
  have e0: "o_entsize F ?y \<noteq> 0" using ok(4) by (simp add: tables_ok_def Let_def)
  have cnt: "unat (o_size F ?y div o_entsize F ?y) = length (o_syms F)"
    by (simp add: o_syms_def Let_def o_count_def)
  have sx: "ix s = o_names F" "Elfdata s = a" "textsize s + rodatasize s + datasize s + bsssize s = ?e"
    using st s(2) by (simp_all add: statics_def base_size_def)
  have hd: "udiv (load32 (bmem s) (sh_size (hdr s ?y))) (load32 (bmem s) (sh_entsize (hdr s ?y))) =
      Some (o_size F ?y div o_entsize F ?y)" "unat (load32 (bmem s) (sh_offset (hdr s ?y))) = fst (symbol_region F)"
    using keeps_field(5,8,9) [OF kp y] names_distinct(7) [OF ok(2,3)] e0
    by (simp_all add: hdr_pointer_o [OF st] udiv_def symbol_region_def Let_def)
  define r where "r = place_symbols (a + fst (symbol_region F)) 0 (length (o_syms F)) (?e, s)"
  have "bsssize s = ?e - base_size F" by (simp add: s(2))
  note p = place_symbols_syms [OF ok(1-3) s(1) _ this, of 0 "length (o_syms F)", simplified, folded r_def]
  have ie: "image_end F = fst ?c" by (simp add: image_end_def base_size_def)
  have b: "bsssize (snd r) = image_end F - base_size F" using p by (simp add: ie)
  let ?L = "map2 (brel_placed F) (o_syms F) (snd ?c)"
  have nm: "list_all (\<lambda>s. es_name s < o_size F (i_strtab (o_names F))) ?L"
    using ok(4) by (auto simp: tables_ok_def Let_def list_all_length)
  have l: "brel_syms_are F a ?L (snd r)" using p by simp
  note q = name_symbols_syms [OF ok l _ nm b, of 0 "length (o_syms F)", simplified]
  have "ProcessSymtab s = Inr (name_symbols (a + fst (symbol_region F)) 0 (length (o_syms F)) (snd r))"
    by (simp add: ProcessSymtab_def Let_def sx hd cnt r_def)
  then show ?thesis using p q by (simp add: brel_syms_def)
qed

end
