(* ===== verification/Boot_Brel_Table.thy ===== *)
theory Boot_Brel_Table
  imports Boot_Brel_Syms
begin

text \<open>
  The compact relocation table: one entry for each record, in the order of the sections, with the value
  of the symbol in it; and what applying the table to the combined section does.
\<close>

section \<open>Entries\<close>

lemma unat_index16: "elf_header_ok F \<Longrightarrow> k < o_shnum F \<Longrightarrow> unat (of_nat k :: u16) = k"
  by (simp add: elf_header_ok_def unat_of_nat)

lemma brel_syms_place:
  assumes ok: "elf_header_ok F" "sections_ok F" and j: "j < length (o_syms F)" "symbol_place F j = Some pl"
  defines "s \<equiv> brel_syms F ! j"
  shows "case pl of Relative x \<Rightarrow> es_shndx s = of_nat (i_text (o_names F)) \<and> es_value s = x
    | Absolute x \<Rightarrow> es_shndx s = SHN_ABS \<and> es_value s = x"
proof -
  let ?s = "o_syms F ! j" and ?i = "o_names F"
  have b: "i_text ?i < o_shnum F" using names_below [OF ok(1)] by (simp add: indices_below_def)
  have t: "unat (of_nat (i_text ?i) :: u16) = i_text ?i" by (rule unat_index16 [OF ok(1) b])
  note d = names_distinct [OF ok] names_nonzero [OF ok(2)]
  have s: "s = brel_special F (brel_placed F ?s (common_offset F j))"
    using j(1) by (simp add: s_def brel_syms_def common_offset_def base_size_def)
  have tx: "h = of_nat (i_text ?i)" if "unat h = i_text ?i" for h :: u16
    using that t by (metis word_unat_eq_iff)
  show ?thesis
  proof (cases "special_name (file_mem F) (o_strtab F) (es_name ?s)")
    case (Some k)
    then show ?thesis
      using j(2) by (cases k) (auto simp: s brel_special_def Let_def symbol_place_def base_size_def)
  next
    case None
    then have s: "s = brel_placed F ?s (common_offset F j)" by (simp add: s brel_special_def Let_def)
    have "section_place F j = Some pl" using j(2) None by (simp add: symbol_place_def)
    moreover have "i_text ?i \<noteq> unat SHN_ABS" "i_rodata ?i \<noteq> unat SHN_ABS" "i_data ?i \<noteq> unat SHN_ABS" "i_bss ?i \<noteq> unat SHN_ABS"
      using names_below [OF ok(1)] SHN_ABS_high [of "o_shnum F"] ok(1) by (auto simp: indices_below_def elf_header_ok_def)
    ultimately show ?thesis
      using d tx unfolding s section_place_def brel_placed_def Let_def
      by (auto split: if_splits)
  qed
qed

definition nrel_of :: "byte list \<Rightarrow> u32 \<Rightarrow> erela \<Rightarrow> nrel" where
  "nrel_of F base e =
    (case the (symbol_place F (rela_sym e)) of
       Absolute x \<Rightarrow> \<lparr>nr_offset = (er_offset e OR 0x80000000) + base, nr_value = er_addend e + x\<rparr>
     | Relative x \<Rightarrow> \<lparr>nr_offset = er_offset e + base, nr_value = er_addend e + x\<rparr>)"

lemma DoRelEntry_value:
  assumes ok: "elf_header_ok F" "sections_ok F" and s: "brel_syms_are F a (brel_syms F) s"
    and e: "load_rela (bmem s) p = e" "rela_ok F len e"
  shows "\<exists>r. DoRelEntry p s = Inr r \<and> r\<lparr>nr_offset := nr_offset r + base\<rparr> = nrel_of F base e"
proof -
  let ?y = "i_symtab (o_names F)"
  obtain pl where pl: "symbol_place F (rela_sym e) = Some pl" and j: "rela_sym e < length (o_syms F)"
    and ty: "ELF32_R_TYPE (er_info e) = R_68K_32"
    using e(2) by (auto simp: rela_ok_def)
  have ld: "load32 (bmem s) p = er_offset e" "load32 (bmem s) (r_info p) = er_info e"
    "load32 (bmem s) (r_addend p) = er_addend e"
    using e(1) by (auto simp: load_rela_def)
  have st: "statics F a s" and kp: "keeps F a (bmem s)" using s by (simp_all add: brel_syms_are_def)
  have b: "?y < o_shnum F" "i_text (o_names F) < o_shnum F" using names_below [OF ok(1)] by (simp_all add: indices_below_def)
  have sx: "ix s = o_names F" "Elfdata s = a" using st by (simp_all add: statics_def)
  have off: "unat (load32 (bmem s) (sh_offset (hdr s ?y))) = fst (symbol_region F)"
    using keeps_field(5) [OF kp b(1)] by (simp add: hdr_pointer_o [OF st] symbol_region_def Let_def)
  let ?p = "a + fst (symbol_region F) + Sym_size * rela_sym e" and ?s = "brel_syms F ! rela_sym e"
  have sy: "load32 (bmem s) (st_value ?p) = es_value ?s" "load16 (bmem s) (st_shndx ?p) = es_shndx ?s"
    using brel_load [OF s] j by simp_all
  have k: "unat (ELF32_R_SYM (er_info e)) = rela_sym e" by (simp add: rela_sym_def)
  note place = brel_syms_place [OF ok j pl]
  have t: "unat (of_nat (i_text (o_names F)) :: u16) = i_text (o_names F)" by (rule unat_index16 [OF ok(1) b(2)])
  have na: "of_nat (i_text (o_names F)) \<noteq> SHN_ABS"
    using SHN_ABS_high [of "o_shnum F"] b(2) t ok(1) by (metis elf_header_ok_def)
  show ?thesis
    using place t na pl
    by (cases pl) (simp_all add: DoRelEntry_def Let_def sx off ld k sy ty nrel_of_def)
qed

lemma rel_entries_table:
  assumes ok: "elf_header_ok F" "sections_ok F" and s: "brel_syms_are F a (brel_syms F) s"
    and es: "list_all (rela_ok F len) es" "length es = n" "r \<in> set (read_only F)" "snd r = Rela_size * (j + n)"
      "load_relas (file_mem F) (fst r) (j + n) = pre @ es" "length pre = j"
  shows "rel_entries base (a + fst r + Rela_size * j) n s = Inr (s\<lparr>nreltab := nreltab s @ map (nrel_of F base) es\<rparr>)"
  using s es
proof (induction n arbitrary: j es s pre)
  case 0
  then show ?case by simp
next
  case (Suc n)
  then obtain e es' where es: "es = e # es'" by (cases es) auto
  let ?p = "a + fst r + Rela_size * j"
  have e: "rela_ok F len e" "list_all (rela_ok F len) es'" using Suc.prems(2) by (simp_all add: es)
  have "agree F a (bmem s) r" using keeps_agree [OF _ Suc.prems(4)] Suc.prems(1) by (simp add: brel_syms_are_def)
  then have ag: "agree F a (bmem s) (fst r, Rela_size * (j + Suc n))" using Suc.prems(5) by (metis prod.collapse)
  have "load_rela (bmem s) ?p = load_relas (bmem s) (a + fst r) (j + Suc n) ! j"
    by (simp add: load_relas_nth)
  also have "\<dots> = e" unfolding load_relas_agree [OF ag] Suc.prems(6) using Suc.prems(7) by (auto simp: es nth_append)
  finally have ld: "load_rela (bmem s) ?p = e" .
  obtain q where q: "DoRelEntry ?p s = Inr q" "q\<lparr>nr_offset := nr_offset q + base\<rparr> = nrel_of F base e"
    using DoRelEntry_value [OF ok Suc.prems(1) ld e(1)] by blast
  let ?u = "s\<lparr>nreltab := nreltab s @ [nrel_of F base e]\<rparr>"
  have u: "brel_syms_are F a (brel_syms F) ?u" using Suc.prems(1) by (simp add: brel_syms_are_def statics_def)
  have at: "length es' = n" "snd r = Rela_size * (Suc j + n)"
    "load_relas (file_mem F) (fst r) (Suc j + n) = (pre @ [e]) @ es'" "length (pre @ [e]) = Suc j"
    using Suc.prems(3,5-7) by (simp_all add: es)
  have "?p + Rela_size = a + fst r + Rela_size * Suc j" by simp
  then have "rel_entries base ?p (Suc n) s = rel_entries base (a + fst r + Rela_size * Suc j) n ?u"
    using q by (simp only: rel_entries.simps sum.case)
  then show ?case
    using Suc.IH [OF u e(2) at(1) Suc.prems(4) at(2-4)] by (simp add: es)
qed

text \<open>The table of the whole file.\<close>

definition compact_table :: "byte list \<Rightarrow> nrel list" where
  "compact_table F = (let i = o_names F in
     map (nrel_of F 0) (o_relas F (i_rela_text i)) @
     map (nrel_of F (text_size F)) (o_relas F (i_rela_rodata i)) @
     map (nrel_of F (text_size F + rodata_size F)) (o_relas F (i_rela_data i)))"

lemma section_entries:
  assumes ok: "elf_header_ok F" "sections_ok F" and s: "brel_syms_are F a (brel_syms F) s"
    and r: "rela_section_ok F r k" "r \<noteq> 0" "r < o_shnum F" "r \<noteq> i_bss (o_names F)" "o_rela_region F r \<in> set (read_only F)"
  shows "entries s r = Some (o_size F r div o_entsize F r)"
    "rel_entries base (oreltab s r) (unat (o_size F r div o_entsize F r)) s =
      Inr (s\<lparr>nreltab := nreltab s @ map (nrel_of F base) (o_relas F r)\<rparr>)"
    "unat (o_size F r div o_entsize F r) = length (o_relas F r)"
proof -
  have st: "statics F a s" and kp: "keeps F a (bmem s)" using s by (simp_all add: brel_syms_are_def)
  note rr = rela_section_relas [OF r(1,2)]
  show "entries s r = Some (o_size F r div o_entsize F r)"
    using keeps_field(8,9) [OF kp r(3)] r(4) rr(4) by (simp add: entries_def hdr_pointer_o [OF st] udiv_def)
  show "unat (o_size F r div o_entsize F r) = length (o_relas F r)" using rr(2) by (simp add: o_count_def)
  have rg: "o_rela_region F r = (o_off F r, Rela_size * o_count F r)" using r(2) by (simp add: o_rela_region_def)
  have p: "oreltab s r = a + fst (o_rela_region F r) + Rela_size * 0"
    using keeps_field(5) [OF kp r(3)] st by (simp add: oreltab_def hdr_pointer_o [OF st] statics_def rg)
  show "rel_entries base (oreltab s r) (unat (o_size F r div o_entsize F r)) s =
      Inr (s\<lparr>nreltab := nreltab s @ map (nrel_of F base) (o_relas F r)\<rparr>)"
    unfolding p o_count_def [symmetric]
    using rr by (intro rel_entries_table [OF ok s rr(1) _ r(5), of _ 0 "[]"]) (simp_all add: rg)
qed

lemma GenRelocTable_ok:
  assumes ok: "kernel_object F v" and s: "brel_syms_are F a (brel_syms F) s" and j: "i_rela_rodata (o_names F) = 0 \<longrightarrow> junk = 0"
  shows "GenRelocTable junk s = Inr (s\<lparr>nrelcount := of_nat (length (compact_table F)), nreltab := compact_table F\<rparr>)"
proof -
  let ?i = "o_names F"
  have h: "elf_header_ok F" "sections_ok F" using ok by (simp_all add: kernel_object_def)
  note d = names_distinct [OF h] names_nonzero [OF h(2)]
  note b = names_below [OF h(1), unfolded indices_below_def]
  note rd = rela_distinct [OF ok refl]
  have ro: "o_rela_region F (i_rela_text ?i) \<in> set (read_only F)" "o_rela_region F (i_rela_data ?i) \<in> set (read_only F)"
    "o_rela_region F (i_rela_rodata ?i) \<in> set (read_only F)"
    by (simp_all add: read_only_def Let_def)
  have sx: "ix s = ?i" "textsize s = text_size F" "rodatasize s = rodata_size F" using s by (simp_all add: brel_syms_are_def statics_def)
  have upd: "brel_syms_are F a (brel_syms F) (s\<lparr>nrelcount := c, nreltab := t\<rparr>)" for c t
    using s by (simp add: brel_syms_are_def statics_def)
  have ent: "entries (s\<lparr>nrelcount := c, nreltab := t\<rparr>) = entries s" "oreltab (s\<lparr>nrelcount := c, nreltab := t\<rparr>) = oreltab s"
    for c t by (simp_all add: fun_eq_iff entries_def oreltab_def hdr_def)
  have et: "entries s (i_rela_text ?i) = Some (o_size F (i_rela_text ?i) div o_entsize F (i_rela_text ?i))"
    and lt: "unat (o_size F (i_rela_text ?i) div o_entsize F (i_rela_text ?i)) = length (o_relas F (i_rela_text ?i))"
    and rt: "rel_entries base (oreltab s (i_rela_text ?i)) (length (o_relas F (i_rela_text ?i))) (s\<lparr>nrelcount := c, nreltab := t\<rparr>) =
      Inr (s\<lparr>nrelcount := c, nreltab := t @ map (nrel_of F base) (o_relas F (i_rela_text ?i))\<rparr>)" for base c t
    using section_entries [OF h s rd(4) _ _ _ ro(1)] section_entries(2) [OF h upd [of t c] rd(4) _ _ _ ro(1)] d b ent by simp_all
  have ed: "entries s (i_rela_data ?i) = Some (o_size F (i_rela_data ?i) div o_entsize F (i_rela_data ?i))"
    and ld: "unat (o_size F (i_rela_data ?i) div o_entsize F (i_rela_data ?i)) = length (o_relas F (i_rela_data ?i))"
    and rdt: "rel_entries base (oreltab s (i_rela_data ?i)) (length (o_relas F (i_rela_data ?i))) (s\<lparr>nrelcount := c, nreltab := t\<rparr>) =
      Inr (s\<lparr>nrelcount := c, nreltab := t @ map (nrel_of F base) (o_relas F (i_rela_data ?i))\<rparr>)" for base c t
    using section_entries [OF h s rd(5) _ _ _ ro(2)] section_entries(2) [OF h upd [of t c] rd(5) _ _ _ ro(2)] d b ent by simp_all
  obtain n where n: "(if 0 < i_rela_rodata ?i then entries s (i_rela_rodata ?i) else Some junk) = Some n"
      "unat n = length (o_relas F (i_rela_rodata ?i))"
    and rr: "\<And>base c t. unat n = 0 \<or> rel_entries base (oreltab s (i_rela_rodata ?i)) (unat n) (s\<lparr>nrelcount := c, nreltab := t\<rparr>) =
      Inr (s\<lparr>nrelcount := c, nreltab := t @ map (nrel_of F base) (o_relas F (i_rela_rodata ?i))\<rparr>)"
  proof (cases "i_rela_rodata ?i = 0")
    case True
    then show ?thesis using that [of 0] j by (simp add: o_relas_def)
  next
    case False
    let ?n = "o_size F (i_rela_rodata ?i) div o_entsize F (i_rela_rodata ?i)"
    show ?thesis
      using that [of ?n] False section_entries [OF h s rd(6) _ _ _ ro(3)] section_entries(2) [OF h upd rd(6) _ _ _ ro(3)] d b ent
      by simp
  qed
  have cnt: "o_size F (i_rela_text ?i) div o_entsize F (i_rela_text ?i) + n + o_size F (i_rela_data ?i) div o_entsize F (i_rela_data ?i)
      = of_nat (length (compact_table F))"
    using lt n(2) ld by (simp add: compact_table_def Let_def flip: lt n(2) ld)
  have n0: "0 < n \<longleftrightarrow> 0 < unat n" by (simp add: word_less_nat_alt)
  show ?thesis
    unfolding GenRelocTable_def Let_def sx et n(1) ed option.case fill_table_def cnt lt ld
    using rr n(2) by (auto simp: ent sx rt rdt n0 compact_table_def Let_def)
qed

end
