(* ===== verification/Boot_Compact.thy ===== *)
theory Boot_Compact
  imports Boot_Brel_Table
begin

text \<open>
  The compact format as \<open>rel\<close> reads it: a file of this form loads with its table applied to its one
  section; and applying the table \<open>elf2brel\<close> makes gives the linked image.
\<close>

section \<open>Applying a table\<close>

definition compact_apply :: "u32 \<Rightarrow> nrel \<Rightarrow> byte list \<Rightarrow> byte list" where
  "compact_apply v r img =
    put32 (unat (nr_offset r AND 0x7FFFFFFF))
      (if nr_offset r AND 0x80000000 = 0 then nr_value r + v else nr_value r) img"

definition nrel_ok :: "nat \<Rightarrow> nrel \<Rightarrow> bool" where
  "nrel_ok len r = (unat (nr_offset r AND 0x7FFFFFFF) + 4 \<le> len)"

lemma bytes32_inject: "bytes32 x = bytes32 y \<Longrightarrow> x = y"
proof -
  assume "bytes32 x = bytes32 y"
  then have "hi16 x = hi16 y" "lo16 x = lo16 y"
    by (auto simp: bytes32_def bytes16_def) (metis be16_hi8_lo8)+
  then show "x = y" by (metis cat32_halves)
qed

lemma load32_peek: "peek m p 4 = bytes32 x \<Longrightarrow> load32 m p = x"
proof -
  assume p: "peek m p 4 = bytes32 x"
  have "m (p + i) = bytes32 x ! i" if "i < 4" for i using p nth_peek [OF that, of m p] by simp
  from this [of 0] this [of 1] this [of 2] this [of 3] show ?thesis
    by (simp add: load32_def load16_def nth_bytes32 [unfolded numeral_3_eq_3 numeral_2_eq_2] numeral_3_eq_3 numeral_2_eq_2)
qed

lemma compact_loop_image:
  assumes "peek (mem s) p (8 * length tab) = concat (map nrel_bytes tab)" "load32 (mem s) (sh_addr (thdr (gbls s))) = v"
    "separate b len p (8 * length tab)" "separate b len (sh_addr (thdr (gbls s))) 4" "list_all (nrel_ok len) tab"
  defines "t \<equiv> compact_loop b p (length tab) s"
  shows "peek (mem t) b len = fold (compact_apply v) tab (peek (mem s) b len) \<and>
    gbls t = gbls s \<and> bip t = bip s \<and> complaints t = complaints s"
  using assms(1-5) unfolding t_def
proof (induction tab arbitrary: s p)
  case Nil
  then show ?case by simp
next
  case (Cons r tab)
  have sp: "peek (mem s) p (8 * length (r # tab)) = peek (mem s) p 4 @ peek (mem s) (p + 4) 4 @ peek (mem s) (p + 8) (8 * length tab)"
    using peek_append [of "mem s" p 4 "4 + 8 * length tab"] peek_append [of "mem s" "p + 4" 4 "8 * length tab"]
    by (simp add: add.assoc)
  have cc: "concat (map nrel_bytes (r # tab)) = bytes32 (nr_offset r) @ bytes32 (nr_value r) @ concat (map nrel_bytes tab)"
    by (simp add: nrel_bytes_def)
  have pk: "peek (mem s) p 4 = bytes32 (nr_offset r)" "peek (mem s) (p + 4) 4 = bytes32 (nr_value r)"
    "peek (mem s) (p + 8) (8 * length tab) = concat (map nrel_bytes tab)"
    using Cons.prems(1) unfolding sp cc by simp_all
  note ld = pk(1,2) [THEN load32_peek]
  let ?x = "if nr_offset r AND 0x80000000 = 0 then nr_value r + v else nr_value r"
  let ?q = "unat (nr_offset r AND 0x7FFFFFFF)"
  let ?u = "set32 (b + ?q) ?x s"
  have q: "?q + 4 \<le> len" using Cons.prems(5) by (simp add: nrel_ok_def)
  have step: "compact_loop b p (length (r # tab)) s = compact_loop b (p + 8) (length tab) ?u"
    by (simp add: compact_entry_def Let_def ld Cons.prems(2))
  have img: "peek (mem ?u) b len = compact_apply v r (peek (mem s) b len)"
    using peek_store32_in [OF q, of "mem s" b ?x] by (simp add: compact_apply_def)
  have sep: "separate (p + 8) (8 * length tab) (b + ?q) 4" "separate (sh_addr (thdr (gbls s))) 4 (b + ?q) 4"
    using Cons.prems(3,4) q by (auto simp: separate_def)
  have u: "peek (mem ?u) (p + 8) (8 * length tab) = concat (map nrel_bytes tab)"
    "load32 (mem ?u) (sh_addr (thdr (gbls ?u))) = v" "separate b len (p + 8) (8 * length tab)"
    using pk(3) sep Cons.prems(2,3) by (auto simp: store32_def peek_poke_separate load32_poke separate_def)
  have "separate b len (sh_addr (thdr (gbls ?u))) 4" "list_all (nrel_ok len) tab" using Cons.prems(4,5) by simp_all
  from Cons.IH [OF u this] show ?case unfolding step img by (simp only: fold.simps o_apply set_accessors simp_thms)
qed

section \<open>Pieces of a file\<close>

lemma peek_piece: "peek m b (length (A @ B @ C)) = A @ B @ C \<Longrightarrow> peek m (b + length A) (length B) = B"
proof -
  assume p: "peek m b (length (A @ B @ C)) = A @ B @ C"
  have "peek m b (length A + (length B + length C)) = peek m b (length A) @ peek m (b + length A) (length B) @
      peek m (b + length A + length B) (length C)"
    by (simp add: peek_append)
  then show ?thesis using p by (simp add: add.assoc)
qed

lemma load_piece32: "peek m q (length B) = B \<Longrightarrow> p + 4 \<le> length B \<Longrightarrow> load32 m (q + p) = load32 (file_mem B) p"
  using agree_load32 [of B q m "(0, length B)" p] loaded_agree [of B q m "(0, length B)"]
  by (simp add: loaded_at_def inside_def)

lemma load_piece16: "peek m q (length B) = B \<Longrightarrow> p + 2 \<le> length B \<Longrightarrow> load16 m (q + p) = load16 (file_mem B) p"
  using agree_load16 [of B q m "(0, length B)" p] loaded_agree [of B q m "(0, length B)"]
  by (simp add: loaded_at_def inside_def)

lemma file_mem_peek32: "p + 4 \<le> n \<Longrightarrow> load32 (file_mem (peek m q n)) p = load32 m (q + p)"
  using load_piece32 [of m q "peek m q n" p] by simp

lemma file_mem_peek16: "p + 2 \<le> n \<Longrightarrow> load16 (file_mem (peek m q n)) p = load16 m (q + p)"
  using load_piece16 [of m q "peek m q n" p] by simp

section \<open>Files in the compact format\<close>

definition compact_file :: "byte list \<Rightarrow> byte list \<Rightarrow> nrel list \<Rightarrow> bool" where
  "compact_file out img tab =
    (\<exists>E S H0 H1 H2 H3. out = E @ img @ S @ concat (map nrel_bytes tab) @ H0 @ H1 @ H2 @ H3 \<and>
       length E = Ehdr_size \<and> take SELFMAG E = ELFMAG \<and> load16 (file_mem E) (e_type 0) = ET_LOPROC \<and>
       unat (load32 (file_mem E) (e_shoff 0)) = Ehdr_size + length img + length S + 8 * length tab \<and>
       length H0 = Shdr_size \<and> length H1 = Shdr_size \<and> length H2 = Shdr_size \<and> length H3 = Shdr_size \<and>
       unat (load32 (file_mem H1) (sh_offset 0)) = Ehdr_size \<and>
       load32 (file_mem H1) (sh_size 0) = of_nat (length img) \<and>
       unat (load32 (file_mem H3) (sh_offset 0)) = Ehdr_size + length img + length S \<and>
       load32 (file_mem H3) (sh_size 0) = of_nat (8 * length tab) \<and>
       load32 (file_mem H3) (sh_entsize 0) = 8)"

lemma length_table [simp]: "length (concat (map nrel_bytes tab)) = 8 * length tab"
  by (induction tab) (simp_all add: nrel_bytes_def)

definition compact_segments :: "u32 \<Rightarrow> nat \<Rightarrow> boot_data \<Rightarrow> bool" where
  "compact_segments v len d = (bd_entry d = v \<and> bd_tvaddr d = v \<and> unat (bd_toffset d) = Ehdr_size \<and>
     unat (bd_tsize d) = len \<and> bd_rsize d = 0 \<and> bd_dsize d = 0)"

text \<open>
  A file in the compact format, loaded anywhere: \<open>rel\<close> returns 1 without a complaint, and the image is
  the one section with the table applied.
\<close>

lemma rel_compact_file:
  assumes f: "compact_file out img tab" and m: "peek m b (length out) = out"
    and t: "list_all (nrel_ok (length img)) tab" "8 * length tab < 2 ^ 32" "length img < 2 ^ 32"
  shows "\<exists>t. rel g b v m d = Some (1, t) \<and> complaints t = [] \<and> loaded_image t = fold (compact_apply v) tab img \<and>
    compact_segments v (length img) (bip t)"
proof -
  obtain E S H0 H1 H2 H3 where out: "out = E @ img @ S @ concat (map nrel_bytes tab) @ H0 @ H1 @ H2 @ H3"
    and E: "length E = Ehdr_size" "take SELFMAG E = ELFMAG" "load16 (file_mem E) (e_type 0) = ET_LOPROC"
      "unat (load32 (file_mem E) (e_shoff 0)) = Ehdr_size + length img + length S + 8 * length tab"
    and H: "length H0 = Shdr_size" "length H1 = Shdr_size" "length H2 = Shdr_size" "length H3 = Shdr_size"
    and H1: "unat (load32 (file_mem H1) (sh_offset 0)) = Ehdr_size" "load32 (file_mem H1) (sh_size 0) = of_nat (length img)"
    and H3: "unat (load32 (file_mem H3) (sh_offset 0)) = Ehdr_size + length img + length S"
      "load32 (file_mem H3) (sh_size 0) = of_nat (8 * length tab)" "load32 (file_mem H3) (sh_entsize 0) = 8"
    using f unfolding compact_file_def by blast
  let ?tab = "concat (map nrel_bytes tab)"
  let ?shoff = "Ehdr_size + length img + length S + 8 * length tab"
  note m = m [unfolded out]
  have pE: "peek m b (length E) = E" using peek_piece [of m b "[]" E "img @ S @ ?tab @ H0 @ H1 @ H2 @ H3"] m by simp
  have pI: "peek m (b + 52) (length img) = img"
    using peek_piece [of m b E img "S @ ?tab @ H0 @ H1 @ H2 @ H3"] m E(1) by simp
  have pT: "peek m (b + (52 + length img + length S)) (8 * length tab) = ?tab"
    using peek_piece [of m b "E @ img @ S" ?tab "H0 @ H1 @ H2 @ H3"] m E(1) by (simp add: add.assoc)
  have p1: "peek m (b + ?shoff + 40) (length H1) = H1"
    using peek_piece [of m b "E @ img @ S @ ?tab @ H0" H1 "H2 @ H3"] m E(1) H(1) by (simp add: algebra_simps)
  have p3: "peek m (b + ?shoff + 120) (length H3) = H3"
    using peek_piece [of m b "E @ img @ S @ ?tab @ H0 @ H1 @ H2" H3 "[]"] m E(1) H by (simp add: algebra_simps)
  have mag: "streqn (peek m b SELFMAG) (ELFMAG @ [0]) (int SELFMAG) = Some True"
  proof -
    have "peek m b SELFMAG = take SELFMAG (peek m b (length E))"
      using E(1) by (intro nth_equalityI) (simp_all add: SELFMAG_def)
    then show ?thesis using pE E(2) by (simp add: ELFMAG_def SELFMAG_def)
  qed
  have e: "load16 m (b + 16) = ET_LOPROC" "unat (load32 m (b + 32)) = ?shoff"
    using load_piece16 [OF pE, of 16] load_piece32 [OF pE, of 32] E by simp_all
  let ?sh = "b + ?shoff" and ?th = "b + ?shoff + 40"
  let ?m = "store32 m (?th + 12) v"
  have h1: "load32 m (?th + 16) = load32 (file_mem H1) 16" "load32 m (?th + 20) = load32 (file_mem H1) 20"
    using load_piece32 [OF p1, of 16] load_piece32 [OF p1, of 20] H by (simp_all add: algebra_simps)
  have h3: "load32 m (?sh + 120 + 16) = load32 (file_mem H3) 16" "load32 m (?sh + 120 + 20) = load32 (file_mem H3) 20"
    "load32 m (?sh + 120 + 36) = load32 (file_mem H3) 36"
    using load_piece32 [OF p3, of 16] load_piece32 [OF p3, of 20] load_piece32 [OF p3, of 36] H by (simp_all add: algebra_simps)
  have away: "load32 ?m (?th + 16) = load32 m (?th + 16)" "load32 ?m (?th + 20) = load32 m (?th + 20)"
    "load32 ?m (?sh + 120 + 16) = load32 m (?sh + 120 + 16)" "load32 ?m (?sh + 120 + 20) = load32 m (?sh + 120 + 20)"
    "load32 ?m (?sh + 120 + 36) = load32 m (?sh + 120 + 36)"
    by (simp_all add: store32_def load32_poke separate_def)
  let ?g = "g\<lparr>Ehdr := b, elfdata := b, Shdrs := ?sh, thdr := ?th\<rparr>"
  let ?d = "(clear_bip d)\<lparr>bd_entry := v, bd_tvaddr := v, bd_toffset := load32 m (?th + 16), bd_tsize := load32 m (?th + 20)\<rparr>"
  let ?s = "\<lparr>mem = ?m, gbls = ?g, bip = ?d, complaints = []\<rparr>"
  have cnt: "udiv (load32 ?m (?sh + 120 + 20)) (load32 ?m (?sh + 120 + 36)) = Some (of_nat (length tab))"
  proof -
    have "unat ((of_nat (8 * length tab) :: u32) div 8) = length tab"
      using t(2) unat_of_nat32 [of "8 * length tab"] by (simp add: unat_div del: of_nat_mult)
    also have "\<dots> = unat (of_nat (length tab) :: u32)" using t(2) by (intro unat_of_nat32 [symmetric]) simp
    finally have "(of_nat (8 * length tab) :: u32) div 8 = of_nat (length tab)" by (simp only: word_unat_eq_iff)
    then show ?thesis using H3(2,3) unfolding away h3 by (simp add: udiv_def)
  qed
  have un: "unat (of_nat (length tab) :: u32) = length tab" using t(2) by (intro unat_of_nat32) simp
  define u where "u = compact_loop (b + 52) (b + (52 + length img + length S)) (length tab) ?s"
  have pT': "peek ?m (b + (52 + length img + length S)) (8 * length tab) = ?tab"
    "peek ?m (b + 52) (length img) = img"
    using pT pI by (simp_all add: store32_def peek_poke_separate separate_def)
  have tbl: "peek (mem u) (b + 52) (length img) = fold (compact_apply v) tab img \<and> gbls u = ?g \<and> bip u = ?d \<and> complaints u = []"
    unfolding u_def using compact_loop_image [of ?s "b + (52 + length img + length S)" tab v "b + 52" "length img"] pT' t(1)
    by (simp add: separate_def)
  have "rel_compact v \<lparr>mem = m, gbls = g\<lparr>Ehdr := b, elfdata := b\<rparr>, bip = clear_bip d, complaints = []\<rparr> = Some u"
    using cnt un e(2) h1 H1(1) h3 H3(1) away
    by (simp add: algebra_simps rel_compact_def compactreloc_def Let_def u_def set32_def set_bip_def add.assoc)
  moreover have "loaded_image u = fold (compact_apply v) tab img \<and> compact_segments v (length img) (bip u)"
    using tbl h1 H1 t(3)
    by (simp add: loaded_image_def Let_def compact_segments_def clear_bip_def unat_of_nat32)
  ultimately show ?thesis
    using tbl mag e(1) by (simp add: rel_def Let_def ET_LOPROC_def ET_EXEC_def)
qed

section \<open>The table of a kernel\<close>

lemma low_31:
  assumes "unat (y :: u32) < 2 ^ 31"
  shows "y AND 0x7FFFFFFF = y" "y AND 0x80000000 = 0" "(y + 0x80000000) AND 0x7FFFFFFF = y" "(y + 0x80000000) AND 0x80000000 \<noteq> 0"
    "y OR 0x80000000 = y + 0x80000000"
proof -
  have m: "(0x7FFFFFFF :: u32) = mask 31" by (simp add: mask_eq_exp_minus_1)
  have "unat (take_bit 31 y) = take_bit 31 (unat y)" by (rule unsigned_take_bit_eq)
  also have "\<dots> = unat y" using assms by (simp only: take_bit_nat_eq_self_iff)
  finally have "take_bit 31 y = y" by (simp only: word_unat_eq_iff)
  then show a: "y AND 0x7FFFFFFF = y" unfolding m by (simp only: take_bit_eq_mask)
  have "y AND 0x80000000 = (y AND 0x7FFFFFFF) AND 0x80000000" unfolding a ..
  also have "\<dots> = y AND (0x7FFFFFFF AND 0x80000000)" by (rule and.assoc)
  also have "\<dots> = 0" by simp
  finally show z: "y AND 0x80000000 = 0" .
  show o: "y OR 0x80000000 = y + 0x80000000"
    using disjunctive_add_eq_or [OF z] by simp
  show "(y + 0x80000000) AND 0x7FFFFFFF = y" unfolding o [symmetric] bit.conj_disj_distrib2 using a by simp
  have "(y + 0x80000000) AND 0x80000000 = 0x80000000" unfolding o [symmetric] bit.conj_disj_distrib2 using z by simp
  then show "(y + 0x80000000) AND 0x80000000 \<noteq> 0" by simp
qed

lemma compact_apply_rela:
  assumes e: "rela_ok F (length X) e" and base: "length P = unat base" "unat base + length X < 2 ^ 31"
  shows "compact_apply v (nrel_of F base e) (P @ X @ Q) = P @ apply_rela F v e X @ Q"
    "length P + length X \<le> n \<Longrightarrow> nrel_ok n (nrel_of F base e)"
proof -
  obtain pl where pl: "symbol_place F (rela_sym e) = Some pl" and o: "unat (er_offset e) + 4 \<le> length X"
    using e by (auto simp: rela_ok_def)
  let ?y = "er_offset e + base"
  have y: "unat ?y = unat base + unat (er_offset e)" "unat ?y < 2 ^ 31" "unat (er_offset e) < 2 ^ 31"
    using o base(2) by (simp_all add: unat_word_ariths)
  note ly = low_31 [OF y(2)] and lo = low_31 [OF y(3)]
  have off: "unat (nr_offset (nrel_of F base e) AND 0x7FFFFFFF) = length P + unat (er_offset e)"
    using ly(1,3) y(1) base(1) by (cases pl) (simp_all add: nrel_of_def pl lo(5) ac_simps)
  have val: "(if nr_offset (nrel_of F base e) AND 0x80000000 = 0 then nr_value (nrel_of F base e) + v
      else nr_value (nrel_of F base e)) = rela_value F v e"
    using ly(2,4) by (cases pl) (simp_all add: nrel_of_def pl lo(5) rela_value_def ac_simps)
  show "compact_apply v (nrel_of F base e) (P @ X @ Q) = P @ apply_rela F v e X @ Q"
    unfolding compact_apply_def off val apply_rela_def put32_append2 put32_append1 [OF o] ..
  show "length P + length X \<le> n \<Longrightarrow> nrel_ok n (nrel_of F base e)"
    using off o by (simp add: nrel_ok_def)
qed

lemma length_apply_rela: "rela_ok F (length X) e \<Longrightarrow> length (apply_rela F v e X) = length X"
  by (simp add: apply_rela_def rela_ok_def)

lemma length_apply_relas: "list_all (rela_ok F (length X)) es \<Longrightarrow> length (fold (apply_rela F v) es X) = length X"
  by (induction es arbitrary: X) (simp_all add: length_apply_rela)

lemma fold_compact:
  assumes "list_all (rela_ok F (length X)) es" "length P = unat base" "unat base + length X < 2 ^ 31"
  shows "fold (compact_apply v) (map (nrel_of F base) es) (P @ X @ Q) = P @ fold (apply_rela F v) es X @ Q"
  using assms
proof (induction es arbitrary: X)
  case (Cons e es)
  have e: "rela_ok F (length X) e" and es: "list_all (rela_ok F (length X)) es" using Cons.prems(1) by simp_all
  show ?case
    using Cons.IH [of "apply_rela F v e X"] es Cons.prems(2,3)
    by (simp add: compact_apply_rela(1) [OF e Cons.prems(2,3)] length_apply_rela [OF e])
qed simp

lemma file_image_length:
  assumes "sections_ok F"
  shows "length (file_image F (i_text (o_names F))) = unat (text_size F)"
    "length (file_image F (i_rodata (o_names F))) = unat (rodata_size F)"
    "length (file_image F (i_data (o_names F))) = unat (data_size F)"
  using names_nonzero [OF assms]
  by (simp_all add: file_image_def o_content_def text_size_def rodata_size_def data_size_def)

lemma relas_ok:
  assumes ok: "kernel_object F v"
  defines "i \<equiv> o_names F"
  shows "list_all (rela_ok F (length (file_image F (i_text i)))) (o_relas F (i_rela_text i))"
    "list_all (rela_ok F (length (file_image F (i_rodata i)))) (o_relas F (i_rela_rodata i))"
    "list_all (rela_ok F (length (file_image F (i_data i)))) (o_relas F (i_rela_data i))"
proof -
  have h: "sections_ok F" using ok by (simp add: kernel_object_def)
  note rd = rela_distinct [OF ok i_def [THEN meta_eq_to_obj_eq]] and nz = names_nonzero [OF h, folded i_def]
  have len: "length (file_image F k) = snd (o_content F k)" for k by (simp add: file_image_def)
  show "list_all (rela_ok F (length (file_image F (i_text i)))) (o_relas F (i_rela_text i))"
    "list_all (rela_ok F (length (file_image F (i_data i)))) (o_relas F (i_rela_data i))"
    unfolding len using rela_section_relas(1) [OF rd(4)] rela_section_relas(1) [OF rd(5)] nz by simp_all
  show "list_all (rela_ok F (length (file_image F (i_rodata i)))) (o_relas F (i_rela_rodata i))"
  proof (cases "i_rela_rodata i = 0")
    case True
    then show ?thesis by (simp add: o_relas_def)
  next
    case False
    then show ?thesis unfolding len using rela_section_relas(1) [OF rd(6)] by simp
  qed
qed

definition combined :: "byte list \<Rightarrow> byte list" where
  "combined F = (let i = o_names F in file_image F (i_text i) @ file_image F (i_rodata i) @ file_image F (i_data i))"

lemma length_combined: "sections_ok F \<Longrightarrow> length (combined F) = image_size F"
  using file_image_length by (simp add: combined_def Let_def image_size_def)

lemma compact_table_image:
  assumes ok: "kernel_object F v"
  shows "fold (compact_apply v) (compact_table F) (combined F) = linked F v"
    "list_all (nrel_ok (length (combined F))) (compact_table F)"
proof -
  let ?i = "o_names F"
  let ?T = "file_image F (i_text ?i)" and ?R = "file_image F (i_rodata ?i)" and ?D = "file_image F (i_data ?i)"
  have h: "sections_ok F" "address_ok F v" using ok by (simp_all add: kernel_object_def)
  note len = file_image_length [OF h(1)] and r = relas_ok [OF ok]
  have sz: "unat (text_size F) + unat (rodata_size F) + unat (data_size F) < 2 ^ 31"
    using h(2) by (simp add: address_ok_def image_size_def)
  then have tr: "unat (text_size F + rodata_size F) = unat (text_size F) + unat (rodata_size F)"
    by (simp add: unat_word_ariths)
  let ?T' = "fold (apply_rela F v) (o_relas F (i_rela_text ?i)) ?T"
  let ?R' = "fold (apply_rela F v) (o_relas F (i_rela_rodata ?i)) ?R"
  have l': "length ?T' = unat (text_size F)" "length ?R' = unat (rodata_size F)"
    using length_apply_relas [OF r(1)] length_apply_relas [OF r(2)] len by simp_all
  have 1: "fold (compact_apply v) (map (nrel_of F 0) (o_relas F (i_rela_text ?i))) (?T @ ?R @ ?D) = ?T' @ ?R @ ?D"
    using fold_compact [OF r(1), of "[]" 0 v "?R @ ?D"] len sz by simp
  have 2: "fold (compact_apply v) (map (nrel_of F (text_size F)) (o_relas F (i_rela_rodata ?i))) (?T' @ ?R @ ?D) = ?T' @ ?R' @ ?D"
    using fold_compact [OF r(2), of ?T' "text_size F" v ?D] len l' sz by simp
  have 3: "fold (compact_apply v) (map (nrel_of F (text_size F + rodata_size F)) (o_relas F (i_rela_data ?i))) (?T' @ ?R' @ ?D) =
      ?T' @ ?R' @ fold (apply_rela F v) (o_relas F (i_rela_data ?i)) ?D"
    using fold_compact [OF r(3), of "?T' @ ?R'" "text_size F + rodata_size F" v "[]"] len l' sz tr by simp
  show "fold (compact_apply v) (compact_table F) (combined F) = linked F v"
    unfolding combined_def compact_table_def linked_def linked_section_image Let_def fold_append o_apply 1 2 3 ..
  have "nrel_ok (length (combined F)) (nrel_of F 0 e)" if "rela_ok F (length ?T) e" for e
    using that len sz by (intro compact_apply_rela(2) [where X = ?T and P = "[]"]) (simp_all add: combined_def Let_def)
  moreover have "nrel_ok (length (combined F)) (nrel_of F (text_size F) e)" if "rela_ok F (length ?R) e" for e
    using that len sz by (intro compact_apply_rela(2) [where X = ?R and P = ?T]) (simp_all add: combined_def Let_def)
  moreover have "nrel_ok (length (combined F)) (nrel_of F (text_size F + rodata_size F) e)" if "rela_ok F (length ?D) e" for e
    using that len sz tr by (intro compact_apply_rela(2) [where X = ?D and P = "?T @ ?R"]) (simp_all add: combined_def Let_def)
  ultimately show "list_all (nrel_ok (length (combined F))) (compact_table F)"
    using r by (auto simp: compact_table_def Let_def list_all_iff)
qed

end
