(* ===== verification/Boot_Kernels.thy ===== *)
theory Boot_Kernels
  imports Boot_Compact
begin

text \<open>
  The converter and the boot loader together: what \<open>elf2brel\<close> writes is a file in the compact format, and
  loading it gives the image that loading the original gives.
\<close>

section \<open>The file that is written\<close>

lemma load_store_hdr0:
  assumes "c' \<le> 36" "4 dvd c'" "c' \<noteq> 0"
  shows "load32 (store32 m (a + o_hdr F k) v) (a + o_hdr F j + c') = load32 m (a + o_hdr F j + c')"
  using load_store_hdr [of 0 c' m a F k v j] assms by simp

lemma bset_more [simp]:
  "Elfdata (bset32 q x s) = Elfdata s" "Elfdata (bset16 q h s) = Elfdata s"
  "Ehdrp (bset32 q x s) = Ehdrp s" "Ehdrp (bset16 q h s) = Ehdrp s"
  "Shdr (bset32 q x s) = Shdr s" "Shdr (bset16 q h s) = Shdr s"
  "nrelcount (bset32 q x s) = nrelcount s" "nrelcount (bset16 q h s) = nrelcount s"
  "stdout (bset32 q x s) = stdout s" "stdout (bset16 q h s) = stdout s"
  "hdr (bset32 q x s) k = hdr s k" "hdr (bset16 q h s) k = hdr s k"
  by (simp_all add: bset32_def bset16_def hdr_def)

lemma write_out_accessors [simp]:
  "bmem (write_out bs s) = bmem s" "Elfdata (write_out bs s) = Elfdata s" "Ehdrp (write_out bs s) = Ehdrp s"
  "Shdr (write_out bs s) = Shdr s" "ix (write_out bs s) = ix s" "textsize (write_out bs s) = textsize s"
  "rodatasize (write_out bs s) = rodatasize s" "datasize (write_out bs s) = datasize s"
  "nrelcount (write_out bs s) = nrelcount s" "nreltab (write_out bs s) = nreltab s"
  "stdout (write_out bs s) = stdout s @ bs" "hdr (write_out bs s) k = hdr s k"
  by (simp_all add: write_out_def hdr_def)

lemma write_headers_out:
  assumes s: "Shdr s = a + o_shoff F" "ix s = i"
    and d: "i_shstrtab i \<noteq> i_text i" "i_shstrtab i \<noteq> i_rela_text i" "i_rela_text i \<noteq> i_text i"
  shows "\<exists>H0 H1 H2 H3. stdout (write_headers s) = stdout s @ H0 @ H1 @ H2 @ H3 \<and>
    length H0 = Shdr_size \<and> length H1 = Shdr_size \<and> length H2 = Shdr_size \<and> length H3 = Shdr_size \<and>
    load32 (file_mem H1) (sh_offset 0) = of_nat Ehdr_size \<and>
    load32 (file_mem H1) (sh_size 0) = textsize s + rodatasize s + datasize s \<and>
    load32 (file_mem H3) (sh_offset 0) =
      of_nat Ehdr_size + (textsize s + rodatasize s + datasize s) + of_nat (length newshstrtab) \<and>
    load32 (file_mem H3) (sh_size 0) = nrelcount s * 8 \<and> load32 (file_mem H3) (sh_entsize 0) = 8"
proof -
  have h: "hdr s k = a + o_hdr F k" for k by (simp add: hdr_def s o_hdr_def)
  let ?t = "a + o_hdr F (i_text i)" and ?h = "a + o_hdr F (i_shstrtab i)" and ?r = "a + o_hdr F (i_rela_text i)"
  let ?len = "textsize s + rodatasize s + datasize s"
  define m1 where "m1 = store32 (store32 (store32 (bmem s) ?t 0) (?t + 16) 52) (?t + 20) ?len"
  have 1: "load32 m1 (?t + 16) = 52" "load32 m1 (?t + 20) = ?len"
    by (simp_all add: m1_def load_store_hdr load_store_hdr0)
  define m2 where "m2 = store32 (store32 (store32 (store32 m1 ?h SHSTRTABOFF) (?h + 16) 52) (?h + 16) (52 + ?len)) (?h + 20) 28"
  have 2: "load32 m2 (?h + 16) = 52 + ?len" "load32 m2 (?h + 20) = 28"
    by (simp_all add: m2_def load_store_hdr load_store_hdr0)
  define m3 where "m3 = store32 (store32 (store32 (store32 (store32 (store32 (store32 (store32 m2 ?r RELBOOTOFF) (?r + 4) SHT_LOUSER)
    (?r + 16) (52 + ?len)) (?r + 16) (52 + ?len + 28)) (?r + 24) 0) (?r + 28) 1) (?r + 20) (nrelcount s * 8)) (?r + 36) 8"
  have 3: "load32 m3 (?r + 16) = 52 + ?len + 28" "load32 m3 (?r + 20) = nrelcount s * 8" "load32 m3 (?r + 36) = 8"
    by (simp_all add: m3_def load_store_hdr load_store_hdr0)
  have n: "length newshstrtab = 28" by (simp add: newshstrtab_def text_name_def shstrtab_name_def)
  let ?H0 = "peek (bmem s) (a + o_shoff F) 40" and ?H1 = "peek m1 ?t 40" and ?H2 = "peek m2 ?h 40" and ?H3 = "peek m3 ?r 40"
  have "stdout (write_headers s) = stdout s @ ?H0 @ ?H1 @ ?H2 @ ?H3"
    using d by (simp add: write_headers_def Let_def s h load_store_hdr load_store_hdr0 m3_def m2_def m1_def n)
  moreover have "load32 (file_mem ?H1) 16 = 52" "load32 (file_mem ?H1) 20 = ?len" "load32 (file_mem ?H3) 16 = 52 + ?len + 28"
    "load32 (file_mem ?H3) 20 = nrelcount s * 8" "load32 (file_mem ?H3) 36 = 8"
    using 1 3 by (simp_all add: file_mem_peek32)
  ultimately show ?thesis
    by (intro exI [of _ ?H0] exI [of _ ?H1] exI [of _ ?H2] exI [of _ ?H3]) (simp add: n)
qed

lemma new_ehdr_fields [simp]:
  "Elfdata (new_ehdr s) = Elfdata s" "Ehdrp (new_ehdr s) = Ehdrp s" "Shdr (new_ehdr s) = Shdr s" "ix (new_ehdr s) = ix s"
  "textsize (new_ehdr s) = textsize s" "rodatasize (new_ehdr s) = rodatasize s" "datasize (new_ehdr s) = datasize s"
  "nrelcount (new_ehdr s) = nrelcount s" "nreltab (new_ehdr s) = nreltab s" "stdout (new_ehdr s) = stdout s"
  "hdr (new_ehdr s) k = hdr s k"
  by (simp_all add: new_ehdr_def Let_def)

lemma new_ehdr_memory:
  assumes "Ehdrp s = a"
  defines "m \<equiv> bmem (new_ehdr s)"
  shows "load16 m (e_type a) = ET_LOPROC"
    "load32 m (e_shoff a) = of_nat Ehdr_size + textsize s + rodatasize s + datasize s +
      (of_nat (length newshstrtab) + nrelcount s * 8)"
    "peek m a SELFMAG = peek (bmem s) a SELFMAG"
    "a + 52 \<le> p \<Longrightarrow> peek m p n = peek (bmem s) p n"
    "a + 52 \<le> p \<Longrightarrow> load32 m p = load32 (bmem s) p"
proof -
  have l16: "load16 (store16 M q h) p = load16 M p" "load16 (store32 M q x) p = load16 M p"
    if "separate p 2 q 4" for M q h x p
    using that by (auto simp: store16_def store32_def load16_poke separate_def)
  have l32: "load32 (store16 M q h) p = load32 M p" "load32 (store32 M q x) p = load32 M p"
    if "separate p 4 q 4" for M q h x p
    using that by (auto simp: store16_def store32_def load32_poke separate_def)
  have l32h: "load32 (store16 M q h) p = load32 M p" if "separate p 4 q 2" for M q h p
    using that by (simp add: store16_def load32_poke)
  have l16h: "load16 (store16 M q h) p = load16 M p" if "separate p 2 q 2" for M q h p
    using that by (simp add: store16_def load16_poke)
  have pk: "peek (store16 M q h) p n = peek M p n" if "separate p n q 2" for M q h p n
    using that by (simp add: store16_def peek_poke_separate)
  have pk': "peek (store32 M q x) p n = peek M p n" if "separate p n q 4" for M q x p n
    using that by (simp add: store32_def peek_poke_separate)
  show "load16 m (e_type a) = ET_LOPROC"
    by (simp add: m_def new_ehdr_def Let_def assms(1) l16 l16h separate_def)
  show "load32 m (e_shoff a) = of_nat Ehdr_size + textsize s + rodatasize s + datasize s +
      (of_nat (length newshstrtab) + nrelcount s * 8)"
    by (simp add: m_def new_ehdr_def Let_def assms(1) l32h separate_def)
  show "peek m a SELFMAG = peek (bmem s) a SELFMAG"
    by (simp add: m_def new_ehdr_def Let_def assms(1) pk pk' separate_def SELFMAG_def)
  show "a + 52 \<le> p \<Longrightarrow> peek m p n = peek (bmem s) p n"
    by (simp add: m_def new_ehdr_def Let_def assms(1) pk pk' separate_def)
  show "a + 52 \<le> p \<Longrightarrow> load32 m p = load32 (bmem s) p"
    by (simp add: m_def new_ehdr_def Let_def assms(1) l32 l32h separate_def)
qed

lemma content_peek:
  assumes "contents_agree F a m" "layout_ok F"
  shows "peek m (a + fst (text_region F)) (snd (text_region F)) = file_image F (i_text (o_names F))"
    "peek m (a + fst (rodata_region F)) (snd (rodata_region F)) = file_image F (i_rodata (o_names F))"
    "peek m (a + fst (data_region F)) (snd (data_region F)) = file_image F (i_data (o_names F))"
  using assms agree_peek [OF _ order_refl order_refl, of F a m] by (simp_all add: contents_agree_def file_image_def)

lemma behind_ehdr:
  assumes "layout_ok F" "elf_header_ok F"
  shows "52 \<le> o_hdr F k" "snd (text_region F) = 0 \<or> 52 \<le> fst (text_region F)"
    "snd (rodata_region F) = 0 \<or> 52 \<le> fst (rodata_region F)" "snd (data_region F) = 0 \<or> 52 \<le> fst (data_region F)"
proof -
  have e: "(0, 52) \<in> set (read_only F)" by (simp add: read_only_def Let_def)
  have d: "disjoint w (0, 52)" if "w \<in> set (written F)" for w
    using assms(1) that e by (auto simp: layout_ok_def list_all_iff)
  have "disjoint (header_region F) (0, 52)" by (rule d) (simp add: written_def Let_def)
  then show "52 \<le> o_hdr F k" using assms(2) by (auto simp: disjoint_def separate_def header_region_def o_hdr_def elf_header_ok_def)
  have b: "snd w = 0 \<or> 52 \<le> fst w" if "disjoint w (0, 52)" for w
    using that by (auto simp: disjoint_def separate_def)
  show "snd (text_region F) = 0 \<or> 52 \<le> fst (text_region F)" "snd (rodata_region F) = 0 \<or> 52 \<le> fst (rodata_region F)"
    "snd (data_region F) = 0 \<or> 52 \<le> fst (data_region F)"
    by (rule b [OF d], simp add: written_def Let_def)+
qed

lemma write_contents_out:
  assumes ok: "layout_ok F" "elf_header_ok F" "sections_ok F" and s: "brel_syms_are F a L s"
    and n: "unat (nrelcount s * 8) = 8 * length (nreltab s)"
  defines "u \<equiv> write_contents (new_ehdr s)"
  shows "stdout u = peek (bmem (new_ehdr s)) a Ehdr_size @ combined F @ newshstrtab @ concat (map nrel_bytes (nreltab s))"
    "bmem u = bmem (new_ehdr s)" "Shdr u = Shdr s" "ix u = ix s" "textsize u = textsize s" "rodatasize u = rodatasize s"
    "datasize u = datasize s" "nrelcount u = nrelcount s"
proof -
  let ?i = "o_names F" and ?m = "bmem (new_ehdr s)"
  have st: "statics F a s" and kp: "keeps F a (bmem s)" and ca: "contents_agree F a (bmem s)"
    using s by (simp_all add: brel_syms_are_def)
  have sx: "Ehdrp s = a" "Elfdata s = a" "ix s = ?i" "textsize s = text_size F" "rodatasize s = rodata_size F"
    "datasize s = data_size F" "stdout s = []" using st by (simp_all add: statics_def)
  note mem = new_ehdr_memory [OF sx(1)] and bh = behind_ehdr [OF ok(1,2)]
  note b = names_below [OF ok(2), unfolded indices_below_def] and nz = names_nonzero [OF ok(3)]
  have off: "unat (load32 ?m (sh_offset (hdr s k))) = o_off F k" if "k < o_shnum F" for k
  proof -
    have "load32 ?m (a + o_hdr F k + 16) = load32 (bmem s) (a + o_hdr F k + 16)"
      by (rule mem(5)) (use bh(1) [of k] in simp)
    then show ?thesis using keeps_field(5) [OF kp that] by (simp add: hdr_pointer_o [OF st])
  qed
  have pk: "peek ?m (a + fst w) (snd w) = peek (bmem s) (a + fst w) (snd w)" if "snd w = 0 \<or> 52 \<le> fst w" for w
    using that mem(4) [of "a + fst w" "snd w"] by auto
  note c = content_peek [OF ca ok(1)]
  have t: "peek ?m (a + o_off F (i_text ?i)) (unat (text_size F)) = file_image F (i_text ?i)"
    using pk [OF bh(2)] c(1) nz by (simp add: o_content_def text_size_def)
  have d: "peek ?m (a + o_off F (i_data ?i)) (unat (data_size F)) = file_image F (i_data ?i)"
    using pk [OF bh(4)] c(3) nz by (simp add: o_content_def data_size_def)
  have r: "(if 0 < rodata_size F then peek ?m (a + o_off F (i_rodata ?i)) (unat (rodata_size F)) else []) = file_image F (i_rodata ?i)"
  proof (cases "rodata_size F = 0")
    case True
    then have "length (file_image F (i_rodata ?i)) = 0" using file_image_length(2) [OF ok(3)] by simp
    then show ?thesis using True by simp
  next
    case False
    then have "i_rodata ?i \<noteq> 0" by (auto simp: rodata_size_def split: if_splits)
    then show ?thesis using pk [OF bh(3)] c(2) False by (simp add: o_content_def rodata_size_def word_gt_0)
  qed
  have rw: "(if P then write_out x y else y) = write_out (if P then x else []) y" for P x y
    by (simp add: write_out_def)
  show "stdout u = peek (bmem (new_ehdr s)) a Ehdr_size @ combined F @ newshstrtab @ concat (map nrel_bytes (nreltab s))"
    unfolding u_def write_contents_def Let_def rw
    using off b t d r n by (auto simp: sx combined_def Let_def split: if_splits)
  show "bmem u = bmem (new_ehdr s)" "Shdr u = Shdr s" "ix u = ix s" "textsize u = textsize s" "rodatasize u = rodatasize s"
    "datasize u = datasize s" "nrelcount u = nrelcount s"
    unfolding u_def write_contents_def Let_def rw by simp_all
qed

lemma WriteElfFile_compact:
  assumes ok: "kernel_object F v" and s: "brel_syms_are F a L s" and t: "nreltab s = compact_table F"
    and n: "nrelcount s = of_nat (length (compact_table F))"
  shows "compact_file (stdout (WriteElfFile s)) (combined F) (compact_table F)"
proof -
  have h: "layout_ok F" "elf_header_ok F" "sections_ok F" using ok by (simp_all add: kernel_object_def)
  have sz: "image_size F + 8 * length (compact_table F) + 80 < 2 ^ 31"
    using ok by (simp add: kernel_object_def address_ok_def rela_count_def compact_table_def Let_def)
  let ?n = "length (compact_table F)"
  have cnt: "nrelcount s * 8 = of_nat (8 * ?n)" by (simp add: n)
  have un: "unat (nrelcount s * 8) = 8 * length (nreltab s)"
    unfolding cnt t using sz by (intro unat_of_nat32) simp
  define u where "u = write_contents (new_ehdr s)"
  note w = write_contents_out [OF h s un, folded u_def]
  have st: "statics F a s" and kp: "keeps F a (bmem s)" using s by (simp_all add: brel_syms_are_def)
  have sx: "Ehdrp s = a" "Shdr s = a + o_shoff F" "ix s = o_names F" "textsize s + rodatasize s + datasize s = base_size F"
    using st by (simp_all add: statics_def base_size_def)
  note d = names_distinct(11-13) [OF h(2,3)]
  obtain H0 H1 H2 H3 where H: "stdout (write_headers u) = stdout u @ H0 @ H1 @ H2 @ H3"
    "length H0 = Shdr_size" "length H1 = Shdr_size" "length H2 = Shdr_size" "length H3 = Shdr_size"
    "load32 (file_mem H1) (sh_offset 0) = of_nat Ehdr_size" "load32 (file_mem H1) (sh_size 0) = base_size F"
    "load32 (file_mem H3) (sh_offset 0) = of_nat Ehdr_size + base_size F + of_nat (length newshstrtab)"
    "load32 (file_mem H3) (sh_size 0) = of_nat (8 * ?n)" "load32 (file_mem H3) (sh_entsize 0) = 8"
    using write_headers_out [of u a F "o_names F"] d w sx cnt by auto
  let ?E = "peek (bmem (new_ehdr s)) a 52"
  note e = new_ehdr_memory [OF sx(1)]
  have base: "base_size F = of_nat (length (combined F))"
  proof -
    have "unat (base_size F) = image_size F" using sz by (simp add: base_size_def image_size_def unat_word_ariths)
    also have "\<dots> = unat (of_nat (image_size F) :: u32)" using sz by (intro unat_of_nat32 [symmetric]) simp
    finally show ?thesis unfolding length_combined [OF h(3)] by (simp only: word_unat_eq_iff)
  qed
  have nl: "length newshstrtab = 28" by (simp add: newshstrtab_def text_name_def shstrtab_name_def)
  have len: "length (combined F) + 8 * ?n + 80 < 4294967296" using sz length_combined [OF h(3)] by simp
  have mag: "take SELFMAG ?E = ELFMAG"
  proof -
    have fl: "52 \<le> length F" using h(2) by (simp add: elf_header_ok_def)
    have "take SELFMAG ?E = peek (bmem (new_ehdr s)) a SELFMAG" by (intro nth_equalityI) (simp_all add: SELFMAG_def)
    also have "\<dots> = peek (bmem s) a SELFMAG" by (rule e(3))
    also have "\<dots> = peek (file_mem F) 0 SELFMAG"
      using agree_peek [of F a "bmem s" "(0, 52)" 0 SELFMAG] keeps_agree [OF kp, of "(0, 52)"]
      by (simp add: read_only_def Let_def SELFMAG_def)
    also have "\<dots> = take SELFMAG F"
      using fl by (intro nth_equalityI) (simp_all add: file_mem_def SELFMAG_def)
    finally show ?thesis using h(2) by (simp add: elf_header_ok_def)
  qed
  have ty: "load16 (file_mem ?E) 16 = ET_LOPROC" using e(1) by (simp add: file_mem_peek16)
  have "load32 (file_mem ?E) 32 = of_nat (52 + length (combined F) + 28 + 8 * ?n)"
    using e(2) sx(4) cnt by (simp add: file_mem_peek32 nl base add.assoc)
  then have so: "unat (load32 (file_mem ?E) 32) = 52 + length (combined F) + 28 + 8 * ?n"
    using len by (simp only: unat_of_nat32)
  have "of_nat Ehdr_size + base_size F + of_nat (length newshstrtab) = (of_nat (52 + length (combined F) + 28) :: u32)"
    by (simp add: nl base)
  then have to: "unat (load32 (file_mem H3) (sh_offset 0)) = 52 + length (combined F) + 28"
    using H(8) len by (simp only: unat_of_nat32)
  have out: "stdout (WriteElfFile s) = ?E @ combined F @ newshstrtab @ concat (map nrel_bytes (compact_table F)) @ H0 @ H1 @ H2 @ H3"
    using H(1) w(1) t by (simp add: WriteElfFile_def u_def)
  have e1: "load16 (file_mem ?E) (e_type 0) = ET_LOPROC"
    "unat (load32 (file_mem ?E) (e_shoff 0)) = Ehdr_size + length (combined F) + length newshstrtab + 8 * ?n"
    using ty so by (simp_all only: nl add_0)
  have h1: "unat (load32 (file_mem H1) (sh_offset 0)) = Ehdr_size"
    "load32 (file_mem H1) (sh_size 0) = of_nat (length (combined F))"
    "unat (load32 (file_mem H3) (sh_offset 0)) = Ehdr_size + length (combined F) + length newshstrtab"
    using to by (simp_all only: H(6,7) base nl) simp
  show ?thesis
    unfolding compact_file_def
    by (intro exI conjI, rule out, rule length_peek, rule mag) (fact e1 H h1)+
qed

section \<open>Both ways to load a kernel\<close>

lemma elf2brel_compact:
  assumes ok: "kernel_object F v"
    and h: "fstat_size h = Some (length F)" "malloc_result h \<noteq> 0" "stdin h = F"
    and j: "i_rela_rodata (o_names F) = 0 \<longrightarrow> junk = 0"
  shows "\<exists>out. elf2brel junk h = Inr out \<and> compact_file out (combined F) (compact_table F)"
proof -
  have k: "elf_header_ok F" "sections_ok F" "tables_ok F" "layout_ok F" using ok by (simp_all add: kernel_object_def)
  let ?a = "malloc_result h"
  obtain s where s: "ReadElfFile h = Inr s" "brel_syms_are F ?a (o_syms F) s" "bsssize s = bss_size F"
    using ReadElfFile_ok [OF k(1,2,4) h] by blast
  obtain t where t: "ProcessSymtab s = Inr t" "brel_syms_are F ?a (brel_syms F) t"
    using ProcessSymtab_ok [OF k(4,1,2,3) s(2,3)] by blast
  let ?u = "t\<lparr>nrelcount := of_nat (length (compact_table F)), nreltab := compact_table F\<rparr>"
  have u: "GenRelocTable junk t = Inr ?u" by (rule GenRelocTable_ok [OF ok t(2) j])
  have "brel_syms_are F ?a (brel_syms F) ?u" using t(2) by (simp add: brel_syms_are_def statics_def)
  then have "compact_file (stdout (WriteElfFile ?u)) (combined F) (compact_table F)"
    by (intro WriteElfFile_compact [OF ok]) simp_all
  moreover have "elf2brel junk h = Inr (stdout (WriteElfFile ?u))" by (simp add: elf2brel_def s(1) t(1) u)
  ultimately show ?thesis by blast
qed

text \<open>
  C6. The compact kernel is the kernel: for a kernel that \<open>kernel_object\<close> describes and that has a section \<open>.rela.rodata\<close>, \<open>elf2brel\<close>
  writes a file that, at every address and from anywhere in memory, \<open>rel\<close> loads to the same image and entry as
  the original file, in both cases without a complaint. The section matters: without it \<open>elf2brel\<close> uses \<open>nrodrel\<close> uninitialised, so
  that the same holds if what the stack held there (\<open>junk\<close>) happens to be 0; \<open>junk_counted\<close> shows what happens otherwise.
\<close>

theorem compact_kernel:
  assumes "kernel_object F w" "fstat_size h = Some (length F)" "malloc_result h \<noteq> 0" "stdin h = F"
    "i_rela_rodata (o_names F) = 0 \<longrightarrow> junk = 0"
  shows "\<exists>out. elf2brel junk h = Inr out \<and>
    (\<forall>v g a m d g' b m' d'. kernel_object F v \<and> peek m a (length F) = F \<and> peek m' b (length out) = out \<longrightarrow>
      (\<exists>t u. rel g a v m d = Some (1, t) \<and> rel g' b v m' d' = Some (1, u) \<and> complaints t = [] \<and> complaints u = [] \<and>
        loaded_image u = loaded_image t \<and> bd_entry (bip u) = bd_entry (bip t) \<and> bd_tvaddr (bip u) = bd_tvaddr (bip t)))"
proof -
  obtain out where out: "elf2brel junk h = Inr out" "compact_file out (combined F) (compact_table F)"
    using elf2brel_compact [OF assms] by blast
  have "\<exists>t u. rel g a v m d = Some (1, t) \<and> rel g' b v m' d' = Some (1, u) \<and> complaints t = [] \<and> complaints u = [] \<and>
      loaded_image u = loaded_image t \<and> bd_entry (bip u) = bd_entry (bip t) \<and> bd_tvaddr (bip u) = bd_tvaddr (bip t)"
    if v: "kernel_object F v" and m: "peek m a (length F) = F" "peek m' b (length out) = out" for v g a m d g' b m' d'
  proof -
    have sz: "image_size F + 8 * length (compact_table F) + 80 < 2 ^ 31" "sections_ok F"
      using v by (simp_all add: kernel_object_def address_ok_def rela_count_def compact_table_def Let_def)
    have l: "8 * length (compact_table F) < 2 ^ 32" "length (combined F) < 2 ^ 32"
      using sz length_combined [OF sz(2)] by simp_all
    obtain t where t: "rel g a v m d = Some (1, t)" "complaints t = []" "loaded_image t = linked F v" "segments F v (bip t)"
      using rel_links_kernel [OF v m(1)] by blast
    obtain u where u: "rel g' b v m' d' = Some (1, u)" "complaints u = []"
      "loaded_image u = fold (compact_apply v) (compact_table F) (combined F)" "compact_segments v (length (combined F)) (bip u)"
      using rel_compact_file [OF out(2) m(2) compact_table_image(2) [OF v] l] by blast
    show ?thesis
      using t u compact_table_image(1) [OF v] by (simp add: segments_def compact_segments_def Let_def)
  qed
  then show ?thesis using out(1) by blast
qed

section \<open>A kernel without \<open>.rela.rodata\<close>\<close>

lemma rel_entries_count: "rel_entries base p n s = Inr t \<Longrightarrow> nrelcount t = nrelcount s"
proof (induction base p n s rule: rel_entries.induct)
  case (2 base p n s)
  then show ?case by (cases "DoRelEntry p s") auto
qed simp

text \<open>
  The number of entries, and with it the size of the table in the file, includes the variable that is not
  initialised.
\<close>

theorem junk_counted:
  assumes "i_rela_rodata (ix s) = 0" "GenRelocTable junk s = Inr t"
    "entries s (i_rela_text (ix s)) = Some x" "entries s (i_rela_data (ix s)) = Some y"
  shows "nrelcount t = x + junk + y"
  using assms
  by (auto simp: GenRelocTable_def Let_def fill_table_def split: sum.splits if_splits dest!: rel_entries_count)

end
