(* ===== verification/Boot_Example.thy ===== *)
theory Boot_Example
  imports Boot_Kernels
begin

text \<open>
  A small kernel: text with three slots (against \<open>end\<close>, a common symbol and an absolute one), read-only
  data, data with a slot against itself, and the witnesses of the theorems about kernels on it.
\<close>

section \<open>Files given by long words\<close>

definition words_file :: "u32 list \<Rightarrow> byte list" where
  "words_file ws = concat (map bytes32 ws)"

lemma length_words_file [simp]: "length (words_file ws) = 4 * length ws"
  by (induction ws) (simp_all add: words_file_def)

lemma words_file_take: "k < length ws \<Longrightarrow> peek (file_mem (words_file ws)) (4 * k) 4 = bytes32 (ws ! k)"
proof -
  assume k: "k < length ws"
  have "words_file ws = words_file (take k ws @ ws ! k # drop (Suc k) ws)"
    by (rule arg_cong [OF id_take_nth_drop [OF k]])
  also have "\<dots> = words_file (take k ws) @ bytes32 (ws ! k) @ words_file (drop (Suc k) ws)"
    by (simp add: words_file_def)
  finally have "words_file ws = words_file (take k ws) @ bytes32 (ws ! k) @ words_file (drop (Suc k) ws)" .
  moreover have "length (words_file (take k ws)) = 4 * k" using k by simp
  ultimately show ?thesis
    by (intro nth_equalityI) (auto simp: file_mem_def nth_append)
qed

lemma load32_words:
  assumes "p mod 4 = 0" "p div 4 < length ws"
  shows "load32 (file_mem (words_file ws)) p = ws ! (p div 4)"
proof -
  have "4 * (p div 4) = p" using assms(1) by presburger
  then show ?thesis using load32_peek [OF words_file_take [OF assms(2)]] by simp
qed

lemma load16_words:
  assumes "p mod 2 = 0" "p div 4 < length ws"
  shows "load16 (file_mem (words_file ws)) p = (if p mod 4 = 0 then hi16 (ws ! (p div 4)) else lo16 (ws ! (p div 4)))"
proof -
  let ?m = "file_mem (words_file ws)" and ?k = "p div 4"
  have b: "?m (4 * ?k + i) = bytes32 (ws ! ?k) ! i" if "i < 4" for i
    using words_file_take [OF assms(2)] that by (metis nth_peek)
  have p: "p = 4 * ?k \<and> p mod 4 = 0 \<or> p = 4 * ?k + 2 \<and> p mod 4 \<noteq> 0" using assms(1) by presburger
  show ?thesis
    using p b [of 0] b [of 1] b [of 2] b [of 3]
    by (elim disjE conjE) (simp_all add: load16_def nth_bytes32 [unfolded numeral_3_eq_3 numeral_2_eq_2] numeral_3_eq_3 numeral_2_eq_2)
qed

section \<open>The kernel\<close>

definition kernel_words :: "u32 list" where
  "kernel_words =
   [0x7f454c46, 0x1020100, 0, 0, 0x10004, 1, 0, 0, 0x114, 0, 0x340000, 0x28, 0xa0007, 0x656e64,
    0x630000, 0x2e7265, 0x6c612e74, 0x65787400, 0x2e72656c, 0x612e6461, 0x7461002e, 0x726f6461,
    0x7461002e, 0x62737300, 0x2e73796d, 0x74616200, 0x2e737472, 0x74616200, 0x2e736873, 0x74727461,
    0x62000000, 0, 0x4e714e71, 0, 0x4e75, 7, 0, 0, 0x101, 0, 4, 0x301, 4, 8, 0x401, 1, 0, 0x201, 0,
    0, 0, 0, 0, 1, 0, 0, 0, 0, 0, 0, 3, 5, 4, 8, 0xfff2, 0, 0x1234, 0, 0xfff1, 0, 0, 0, 0, 0, 0, 0,
    0, 0, 0, 6, 1, 6, 0, 0x80, 0xc, 0, 0, 4, 0, 0x17, 1, 2, 0, 0x8c, 4, 0, 0, 4, 0, 0x11, 1, 3, 0,
    0x90, 4, 0, 0, 4, 0, 0x1f, 8, 3, 0, 0x114, 4, 0, 0, 4, 0, 0x24, 2, 0, 0, 0xc4, 0x50, 6, 1, 4,
    0x10, 0x2c, 3, 0, 0, 0x34, 8, 0, 0, 4, 0, 0x34, 3, 0, 0, 0x3c, 0x44, 0, 0, 4, 0, 1, 4, 0, 0,
    0x94, 0x24, 5, 1, 4, 0xc, 0xc, 4, 0, 0, 0xb8, 0xc, 5, 3, 4, 0xc]"

definition small_kernel :: "byte list" where
  "small_kernel = words_file kernel_words"

abbreviation (input) "kmem \<equiv> file_mem small_kernel"

lemma length_kernel_words: "length kernel_words = 169"
  by (simp add: kernel_words_def)

lemma kernel_load32:
  "p mod 4 = 0 \<Longrightarrow> p div 4 < 169 \<Longrightarrow> load32 kmem p = kernel_words ! (p div 4)"
  unfolding small_kernel_def by (rule load32_words) (simp_all add: length_kernel_words)

lemma kernel_load16:
  "p mod 2 = 0 \<Longrightarrow> p div 4 < 169 \<Longrightarrow>
   load16 kmem p = (if p mod 4 = 0 then hi16 (kernel_words ! (p div 4)) else lo16 (kernel_words ! (p div 4)))"
  unfolding small_kernel_def by (rule load16_words) (simp_all add: length_kernel_words)

lemma kernel_fields: "o_shoff small_kernel = 276" "o_shnum small_kernel = 10" "o_shstr small_kernel = 7"
  by (simp_all add: o_shoff_def o_shnum_def o_shstr_def kernel_load32 kernel_load16 kernel_words_def hi16_def lo16_def)

definition section_names :: "byte list" where
  "section_names =
    [0, 46, 114, 101, 108, 97, 46, 116, 101, 120, 116, 0, 46, 114, 101, 108, 97, 46, 100, 97, 116, 97,
    0, 46, 114, 111, 100, 97, 116, 97, 0, 46, 98, 115, 115, 0, 46, 115, 121, 109, 116, 97, 98, 0, 46,
    115, 116, 114, 116, 97, 98, 0, 46, 115, 104, 115, 116, 114, 116, 97, 98, 0, 0, 0, 0, 0, 0, 0]"

definition symbol_names :: "byte list" where
  "symbol_names = [0, 101, 110, 100, 0, 99, 0, 0]"

lemma peek_words: "k + n \<le> length ws \<Longrightarrow>
    peek (file_mem (words_file ws)) (4 * k) (4 * n) = concat (map bytes32 (take n (drop k ws)))"
proof (induction n arbitrary: k)
  case (Suc n)
  have "peek (file_mem (words_file ws)) (4 * k) (4 * Suc n) =
      peek (file_mem (words_file ws)) (4 * k) 4 @ peek (file_mem (words_file ws)) (4 * Suc k) (4 * n)"
    using peek_append [of "file_mem (words_file ws)" "4 * k" 4 "4 * n"] by (simp add: algebra_simps)
  then show ?case
    using Suc.IH [of "Suc k"] Suc.prems words_file_take [of k ws] by (simp add: drop_nth_Cons)
qed simp

lemma kernel_strings: "peek kmem 60 68 = section_names" "peek kmem 52 8 = symbol_names"
proof -
  note p = peek_words [of _ _ kernel_words, folded small_kernel_def, unfolded length_kernel_words]
  have "peek kmem 60 68 = concat (map bytes32 (take 17 (drop 15 kernel_words)))" using p [of 15 17] by simp
  also have "\<dots> = section_names"
    by (simp add: kernel_words_def section_names_def bytes32_def bytes16_def hi16_def lo16_def hi8_def lo8_def)
  finally show "peek kmem 60 68 = section_names" .
  have "peek kmem 52 8 = concat (map bytes32 (take 2 (drop 13 kernel_words)))" using p [of 13 2] by simp
  also have "\<dots> = symbol_names"
    by (simp add: kernel_words_def symbol_names_def bytes32_def bytes16_def hi16_def lo16_def hi8_def lo8_def)
  finally show "peek kmem 52 8 = symbol_names" .
qed

lemma kernel_name:
  assumes "60 \<le> p" "p + length lit + 1 \<le> 128" "c_string lit"
  shows "name_is kmem p lit = (take (length lit + 1) (drop (p - 60) section_names) = lit @ [0])"
proof -
  have "peek kmem p (length lit + 1) = take (length lit + 1) (drop (p - 60) (peek kmem 60 68))"
    using assms(1,2) by (intro nth_equalityI) auto
  then show ?thesis by (simp add: name_is_peek [OF assms(3)] kernel_strings)
qed

lemmas kernel_eval = o_hdr_def kernel_fields kernel_load32 kernel_load16 kernel_words_def hi16_def lo16_def

lemma kernel_sections: "o_names small_kernel = \<lparr>i_text = 1, i_rodata = 2, i_data = 3, i_bss = 4, i_symtab = 5,
    i_strtab = 6, i_shstrtab = 7, i_rela_text = 8, i_rela_data = 9, i_rela_rodata = 0\<rparr>"
proof -
  have off: "o_off small_kernel 7 = 60" by (simp add: o_off_def kernel_eval)
  have ks: "[1..<10] = [1, 2, 3, 4, 5, 6, 7, 8, 9 :: nat]" by (simp add: upt_rec)
  note lits = text_name_def rodata_name_def data_name_def bss_name_def symtab_name_def strtab_name_def rela_name_def
  have n: "name_section kmem 66 (Suc 0) i = i\<lparr>i_text := Suc 0\<rparr>" "name_section kmem 83 2 i = i\<lparr>i_rodata := 2\<rparr>"
    "name_section kmem 77 3 i = i\<lparr>i_data := 3\<rparr>" "name_section kmem 91 4 i = i\<lparr>i_bss := 4\<rparr>"
    "name_section kmem 96 5 i = i\<lparr>i_symtab := 5\<rparr>" "name_section kmem 104 6 i = i\<lparr>i_strtab := 6\<rparr>"
    "name_section kmem 112 7 i = i" "name_section kmem 61 8 i = i\<lparr>i_rela_text := 8\<rparr>"
    "name_section kmem 72 9 i = i\<lparr>i_rela_data := 9\<rparr>" for i
    by (simp_all add: name_section_def kernel_name c_string_def section_names_def lits)
  show ?thesis
    unfolding o_names_def find_sections_def kernel_fields off ks
    by (simp add: n kernel_load32 kernel_words_def init_indices_def)
qed

lemma kernel_header_ok: "elf_header_ok small_kernel"
proof -
  have st: "kmem 127 = 0"
    using nth_peek [of 67 68 kmem 60] by (simp add: kernel_strings section_names_def)
  have mg: "take SELFMAG small_kernel = ELFMAG"
    by (simp add: small_kernel_def words_file_def kernel_words_def SELFMAG_def ELFMAG_def bytes32_def bytes16_def hi16_def lo16_def hi8_def lo8_def)
  have ln: "length small_kernel = 676" by (simp add: small_kernel_def length_kernel_words)
  have str: "string_table small_kernel 7"
    using st by (simp add: string_table_def inside_def o_size_def o_off_def kernel_eval ln)
  have nm: "\<forall>k < 10. load32 kmem (o_hdr small_kernel k) < 68"
  proof -
    have "list_all (\<lambda>k. load32 kmem (o_hdr small_kernel k) < 68) [0..<10]"
      by (simp add: upt_rec [of _ "10"] kernel_eval)
    then show ?thesis by (simp add: list_all_iff)
  qed
  show ?thesis
    using mg str nm by (simp add: elf_header_ok_def ln kernel_eval ET_REL_def o_size_def)
qed

lemma all_sections: "list_all P [0..<10] \<Longrightarrow> \<forall>k < 10. P k"
  by (simp add: list_all_iff)

lemmas section_values = SHT_PROGBITS_def SHT_NOBITS_def SHT_SYMTAB_def SHT_RELA_def SHF_ALLOC_def SHF_EXECINSTR_def SHF_WRITE_def

lemma kernel_kinds: "map (\<lambda>k. kind_of kmem (o_hdr small_kernel k)) [0..<10] =
    [Other, Text, Rodata, Data, Bss, Symtab, Other, Other, Rela, Rela]"
  by (simp add: upt_rec [of _ "10"] kind_of_def Let_def kernel_eval section_values)

lemma kernel_kind: "k < 10 \<Longrightarrow> kind_of kmem (o_hdr small_kernel k) = [Other, Text, Rodata, Data, Bss, Symtab, Other, Other, Rela, Rela] ! k"
  unfolding kernel_kinds [symmetric] by simp

lemma kernel_sections_ok: "sections_ok small_kernel"
  unfolding sections_ok_def Let_def kernel_sections kernel_fields
proof (intro conjI all_sections)
  show "kind_of kmem (o_hdr small_kernel 7) = Other" by (simp add: kernel_kind)
qed (simp_all add: missing_section_def upt_rec [of _ "10"] kernel_kind)

lemma kernel_sizes: "o_off small_kernel 1 = 128" "o_off small_kernel 2 = 140" "o_off small_kernel 3 = 144"
  "o_off small_kernel 5 = 196" "o_off small_kernel 6 = 52" "o_off small_kernel 8 = 148" "o_off small_kernel 9 = 184"
  "o_size small_kernel 1 = 12" "o_size small_kernel 2 = 4" "o_size small_kernel 3 = 4" "o_size small_kernel 4 = 4"
  "o_size small_kernel 5 = 80" "o_size small_kernel 6 = 8" "o_size small_kernel 8 = 36" "o_size small_kernel 9 = 12"
  "o_entsize small_kernel 5 = 16" "o_entsize small_kernel 8 = 12" "o_entsize small_kernel 9 = 12"
  "o_count small_kernel 5 = 5" "o_count small_kernel 8 = 3" "o_count small_kernel 9 = 1"
  by (simp_all add: o_off_def o_size_def o_entsize_def o_count_def kernel_eval)

lemma kernel_syms: "o_syms small_kernel =
    [\<lparr>es_name = 0, es_value = 0, es_size = 0, es_shndx = 0\<rparr>, \<lparr>es_name = 1, es_value = 0, es_size = 0, es_shndx = 0\<rparr>,
     \<lparr>es_name = 0, es_value = 0, es_size = 0, es_shndx = 3\<rparr>, \<lparr>es_name = 5, es_value = 4, es_size = 8, es_shndx = SHN_COMMON\<rparr>,
     \<lparr>es_name = 0, es_value = 0x1234, es_size = 0, es_shndx = SHN_ABS\<rparr>]"
  by (simp add: o_syms_def Let_def kernel_sections kernel_sizes load_syms_def load_sym_def upt_rec [of _ "5"] kernel_eval
      SHN_COMMON_def SHN_ABS_def)

lemma kernel_relas:
  "o_relas small_kernel 8 = [\<lparr>er_offset = 0, er_info = 0x101, er_addend = 0\<rparr>, \<lparr>er_offset = 4, er_info = 0x301, er_addend = 4\<rparr>,
     \<lparr>er_offset = 8, er_info = 0x401, er_addend = 1\<rparr>]"
  "o_relas small_kernel 9 = [\<lparr>er_offset = 0, er_info = 0x201, er_addend = 0\<rparr>]"
  by (simp_all add: o_relas_def load_relas_def load_rela_def kernel_sizes upt_rec [of _ "3"] kernel_eval)

lemma kernel_special: "special_name kmem (o_strtab small_kernel) 1 = Some End" "special_name kmem (o_strtab small_kernel) 0 = None"
  "special_name kmem (o_strtab small_kernel) 5 = None"
proof -
  have all: "peek kmem 52 76 = symbol_names @ section_names"
    using peek_append [of kmem 52 8 68] by (simp add: kernel_strings)
  have n: "name_is kmem p lit = (take (length lit + 1) (drop (p - 52) (symbol_names @ section_names)) = lit @ [0])"
    if "52 \<le> p" "p + length lit + 1 \<le> 128" "c_string lit" for p lit
  proof -
    have "peek kmem p (length lit + 1) = take (length lit + 1) (drop (p - 52) (peek kmem 52 76))"
      using that(1,2) by (intro nth_equalityI) auto
    then show ?thesis by (simp only: name_is_peek [OF that(3)] all)
  qed
  show "special_name kmem (o_strtab small_kernel) 0 = None" by (simp add: special_name_def)
  have st: "o_strtab small_kernel = 52" by (simp add: o_strtab_def kernel_sections kernel_sizes)
  show "special_name kmem (o_strtab small_kernel) 1 = Some End" "special_name kmem (o_strtab small_kernel) 5 = None"
    by (simp_all add: special_name_def st n etext_name_def edata_name_def end_name_def symbol_names_def section_names_def c_string_def)
qed

lemma kernel_places: "symbol_place small_kernel 1 = Some (Relative 32)" "symbol_place small_kernel 2 = Some (Relative 16)"
  "symbol_place small_kernel 3 = Some (Relative 24)" "symbol_place small_kernel 4 = Some (Absolute 0x1234)"
  by (simp_all add: symbol_place_def section_place_def kernel_syms kernel_special kernel_sections Let_def image_end_def
      common_offset_def text_size_def rodata_size_def data_size_def bss_size_def kernel_sizes [simplified] align_up_def
      SHN_COMMON_def SHN_ABS_def)

lemma kernel_tables_ok: "tables_ok small_kernel"
proof -
  have nul: "kmem 59 = 0" using nth_peek [of 7 8 kmem 52] by (simp add: kernel_strings symbol_names_def)
  have ln: "length small_kernel = 676" by (simp add: small_kernel_def length_kernel_words)
  have str: "string_table small_kernel 6" using nul by (simp add: string_table_def inside_def kernel_sizes ln)
  have lk: "load32 kmem (sh_link (o_hdr small_kernel 5)) = 6" "load32 kmem (sh_link (o_hdr small_kernel 8)) = 5"
    "load32 kmem (sh_link (o_hdr small_kernel 9)) = 5" "load32 kmem (sh_info (o_hdr small_kernel 8)) = 1"
    "load32 kmem (sh_info (o_hdr small_kernel 9)) = 3"
    by (simp_all add: kernel_eval)
  have ty: "ELF32_R_TYPE 0x101 = R_68K_32" "ELF32_R_TYPE 0x301 = R_68K_32" "ELF32_R_TYPE 0x401 = R_68K_32" "ELF32_R_TYPE 0x201 = R_68K_32"
    by (simp_all add: ELF32_R_TYPE_def R_68K_32_def)
  have sy: "rela_sym \<lparr>er_offset = x, er_info = 0x101, er_addend = y\<rparr> = 1" "rela_sym \<lparr>er_offset = x, er_info = 0x301, er_addend = y\<rparr> = 3"
    "rela_sym \<lparr>er_offset = x, er_info = 0x401, er_addend = y\<rparr> = 4" "rela_sym \<lparr>er_offset = x, er_info = 0x201, er_addend = y\<rparr> = 2" for x y
    by (simp_all add: rela_sym_def ELF32_R_SYM_def)
  have r: "rela_section_ok small_kernel 8 1" "rela_section_ok small_kernel 9 3"
    by (simp_all add: rela_section_ok_def kernel_sizes [simplified] lk kernel_sections kernel_relas rela_ok_def ty sy
        kernel_syms kernel_places [simplified])
  show ?thesis
    using str r by (simp add: tables_ok_def Let_def kernel_sections kernel_sizes lk kernel_syms)
qed

lemma kernel_layout_ok: "layout_ok small_kernel"
proof -
  have ln: "length small_kernel = 676" by (simp add: small_kernel_def length_kernel_words)
  have w: "written small_kernel = [(276, 400), (196, 80), (128, 12), (140, 4), (144, 4)]"
    by (simp add: written_def Let_def header_region_def symbol_region_def o_content_def kernel_sections kernel_sizes [simplified] kernel_fields)
  have r: "read_only small_kernel = [(0, 52), (52, 8), (148, 36), (0, 0), (184, 12)]"
    by (simp add: read_only_def Let_def o_strtab_def o_rela_region_def kernel_sections kernel_sizes)
  show ?thesis by (simp add: layout_ok_def w r ln inside_def disjoint_def separate_def)
qed

lemma kernel_address_ok:
  assumes "v \<noteq> 0" "unat v + 20 < 2 ^ 32" "unat v mod 4 = 0"
  shows "address_ok small_kernel v"
proof -
  have i: "image_size small_kernel = 20"
    by (simp add: image_size_def text_size_def rodata_size_def data_size_def kernel_sections kernel_sizes [simplified])
  have c: "rela_count small_kernel = 4"
    by (simp add: rela_count_def Let_def kernel_sections kernel_relas o_relas_def [of _ 0])
  have "list_ex (\<lambda>k. (4 :: u32) = 2 ^ k \<and> unat v mod 2 ^ k = 0) [0..<32]"
    using assms(3) by (auto simp: list_ex_iff intro: bexI [of _ 2])
  then show ?thesis using assms(1,2) by (simp add: address_ok_def i c kernel_syms SHN_COMMON_def SHN_ABS_def)
qed

lemma small_kernel_object: "v \<noteq> 0 \<Longrightarrow> unat v + 20 < 2 ^ 32 \<Longrightarrow> unat v mod 4 = 0 \<Longrightarrow> kernel_object small_kernel v"
  by (simp add: kernel_object_def kernel_header_ok kernel_sections_ok kernel_tables_ok kernel_layout_ok kernel_address_ok)

section \<open>Witnesses\<close>

definition no_globals :: globals where
  "no_globals = \<lparr>elfdata = 0, Ehdr = 0, Shdrs = 0, Phdrs = 0, thdr = 0, rhdr = 0, dhdr = 0, bhdr = 0, symhdr = 0, end_addr = 0\<rparr>"

definition no_boot_data :: boot_data where
  "no_boot_data = \<lparr>bd_entry = 0, bd_tvaddr = 0, bd_toffset = 0, bd_tsize = 0, bd_rvaddr = 0, bd_roffset = 0, bd_rsize = 0,
     bd_dvaddr = 0, bd_doffset = 0, bd_dsize = 0\<rparr>"

definition loaded_memory :: "byte list \<Rightarrow> memory" where
  "loaded_memory F = poke (\<lambda>_. 0) 4096 F"

definition small_image :: "byte list" where
  "small_image = concat (map bytes32 [0x07800020, 0x0780001C, 0x1235, 7, 0x07800010])"

lemma small_kernel_loads: "kernel_object small_kernel 0x07800000"
  by (rule small_kernel_object) simp_all

lemma loaded_memory_peek: "peek (loaded_memory F) 4096 (length F) = F"
  by (simp add: loaded_memory_def peek_poke)

lemma small_linked: "linked small_kernel 0x07800000 = small_image"
proof -
  note p = peek_words [of _ _ kernel_words, folded small_kernel_def, unfolded length_kernel_words]
  have t: "peek kmem 128 12 = bytes32 0x4e714e71 @ bytes32 0 @ bytes32 0x4e75" "peek kmem 140 4 = bytes32 7" "peek kmem 144 4 = bytes32 0"
    using p [of 32 3] p [of 35 1] p [of 36 1] by (simp_all add: kernel_words_def)
  have l: "length (bytes32 x) = 4" for x by simp
  have put: "put32 0 x (bytes32 a @ r) = bytes32 x @ r" "put32 4 x (bytes32 a @ bytes32 b @ r) = bytes32 a @ bytes32 x @ r"
    "put32 8 x (bytes32 a @ bytes32 b @ bytes32 c) = bytes32 a @ bytes32 b @ bytes32 x" "put32 0 x (bytes32 a) = bytes32 x" for x a b c r
    by (simp_all add: put32_def)
  have sy: "rela_sym \<lparr>er_offset = x, er_info = 0x101, er_addend = y\<rparr> = 1" "rela_sym \<lparr>er_offset = x, er_info = 0x301, er_addend = y\<rparr> = 3"
    "rela_sym \<lparr>er_offset = x, er_info = 0x401, er_addend = y\<rparr> = 4" "rela_sym \<lparr>er_offset = x, er_info = 0x201, er_addend = y\<rparr> = 2" for x y
    by (simp_all add: rela_sym_def ELF32_R_SYM_def)
  have s: "linked_section small_kernel 0x07800000 1 8 = bytes32 0x07800020 @ bytes32 0x0780001C @ bytes32 0x1235"
    "linked_section small_kernel 0x07800000 2 0 = bytes32 7" "linked_section small_kernel 0x07800000 3 9 = bytes32 0x07800010"
    by (simp_all add: linked_section_def kernel_relas o_relas_def [of _ 0] o_content_def kernel_sizes [simplified] t apply_rela_def
        rela_value_def sy kernel_places [simplified] put)
  show ?thesis by (simp add: linked_def Let_def kernel_sections s [simplified] small_image_def)
qed

theorem rel_links_witness:
  "\<exists>t. rel no_globals 4096 0x07800000 (loaded_memory small_kernel) no_boot_data = Some (1, t) \<and> complaints t = [] \<and>
     loaded_image t = small_image"
  using rel_links [OF small_kernel_loads loaded_memory_peek, of no_globals no_boot_data] unfolding small_linked by blast

theorem compact_kernel_witness:
  "\<exists>out t u. elf2brel 0 \<lparr>fstat_size = Some 676, malloc_result = 65536, heap = \<lambda>_. 0, stdin = small_kernel\<rparr> = Inr out \<and>
     rel no_globals 4096 0x07800000 (loaded_memory small_kernel) no_boot_data = Some (1, t) \<and>
     rel no_globals 4096 0x07800000 (loaded_memory out) no_boot_data = Some (1, u) \<and> complaints u = [] \<and>
     loaded_image u = loaded_image t"
proof -
  let ?h = "\<lparr>fstat_size = Some 676, malloc_result = 65536, heap = \<lambda>_. 0, stdin = small_kernel\<rparr>"
  have ln: "length small_kernel = 676" by (simp add: small_kernel_def length_kernel_words)
  obtain out where out: "elf2brel 0 ?h = Inr out" and all: "\<And>v g a m d g' b m' d'. kernel_object small_kernel v \<and>
      peek m a (length small_kernel) = small_kernel \<and> peek m' b (length out) = out \<Longrightarrow>
      \<exists>t u. rel g a v m d = Some (1, t) \<and> rel g' b v m' d' = Some (1, u) \<and> complaints t = [] \<and> complaints u = [] \<and>
        loaded_image u = loaded_image t \<and> bd_entry (bip u) = bd_entry (bip t) \<and> bd_tvaddr (bip u) = bd_tvaddr (bip t)"
    using compact_kernel [OF small_kernel_loads, of ?h 0] ln by auto
  from all [of "0x07800000" "loaded_memory small_kernel" 4096 "loaded_memory out" 4096] small_kernel_loads loaded_memory_peek
  show ?thesis using out by blast
qed

end
