(* ===== verification/Spec2Isabelle.thy ===== *)
theory Spec2Isabelle
  imports Amix_Prelude Streams Hydra_Regs Hydra_State Hydra_Slots Hydra_Hw Hydra_Init Kernel_Support
    Hydra_Autoconf Hydra_Tx Hydra_Toss Hydra_Rx Hydra_Proto Hydra_Ioctl Hydra_Driver Hydra_System
    Framing Slip Slip_Link Slip_System Ramdisk Sd_Partition Sd_Cards Boot_Lib Lzw Lzw_Input Lzw_Spec Lzw_Correct
    Floppy_Mfm Floppy_Bits Floppy_Encode Floppy_Track Floppy_Ring Floppy_Read Floppy_Sound Floppy_Drive Floppy_Heads
    Floppy_Amiga Floppy_Cache Floppy_Store Floppy_Format Floppy_System Floppy_Raw
    Elf_Image Boot_Rel Boot_Brel Elf_Object Boot_Rel_Frame Boot_Rel_Link Boot_Rel_Syms Boot_Rel_Correct Boot_Rel_Final
    Boot_Brel_Syms Boot_Brel_Table Boot_Compact Boot_Kernels Boot_Example
begin

text \<open>
  A verification development for the AMIX (Amiga Unix System V Release 4) sources under
  \<open>src/usr/sys/amiga\<close>: device drivers of the kernel and parts of the boot program. This header is the
  map of the development; paths are relative to \<open>src/usr/sys/amiga\<close>.

  \<^bold>\<open>The program.\<close> The kernel drivers are of two kinds. The network drivers are STREAMS
  drivers: the kernel calls their open, close, put and service procedures with queues and messages, and
  they call back \<open>putnext\<close>, \<open>qreply\<close>, \<open>putq\<close>, \<open>allocb\<close>, \<open>canput\<close> and so on; the network side speaks DLPI. The disk drivers are
  block drivers: open, close and a strategy routine that gets a buffer header. Both find their
  boards through \<open>autocon\<close> in the boot information that \<open>config\<close> takes over. The boot program decompresses
  a kernel and relocates it, with its own small library.

  \<^bold>\<open>Conventions.\<close> Machine integers that can wrap are words of their width; a C \<open>int\<close> that cannot is an \<open>int\<close>
  or \<open>nat\<close>, one that may is cut back by \<open>s32\<close>. An error number is an \<open>errno option\<close>. A step that C leaves undefined (an access outside an
  array, a null pointer) is \<open>None\<close> or \<open>Fault\<close>, so that a theorem saying \<open>Some\<close> also says memory safety.
  Structures are records with the field names of the source, clashes aside. What a driver
  does to the world is a trace of events in its state (\<open>tr\<close>), in order: register reads and writes,
  delays, calls of kernel functions with their arguments. What the world answers is an environment \<open>E\<close>: functions
  from the trace so far to a register value, an allocation, room in a queue, the next message. A theorem about all \<open>E\<close>
  is a theorem about every chip and every kernel; where the chip or the kernel must
  behave, the assumption is a named predicate such as \<open>ring_mem\<close>, \<open>keeps_ram\<close>, \<open>fifo_env\<close> or \<open>rx_env\<close>.

  \<^bold>\<open>The shared part.\<close> \<open>Amix_Prelude\<close>: word types, big-endian packing, the search loop \<open>scan\<close> (\<open>for (; j < n; j++) if (p) break\<close>),
  and two locales. \<open>transition_system\<close> is a step relation with an inductive invariant; it is
  interpreted by the Hydra driver, the SLIP driver and the RAM disk. \<open>simulation\<close> is an operation that implements an
  abstract one for some choice the environment makes (for \<open>allocb\<close>, whether there is memory), carried over to sequences; it is interpreted by
  the DLPI provider of the Hydra driver. \<open>Streams\<close>: queues, message
  types, DLPI requests and replies, the environment, the trace and the views of it (\<open>freed\<close>, \<open>passed\<close>, \<open>queued\<close>).

  \<^bold>\<open>The Hydra Ethernet driver\<close> (\<open>driver/hydra/hydra.c\<close> and its headers), complete:
  \<open>Hydra_Regs\<close> the constants; \<open>Hydra_State\<close> the structures and static variables; \<open>Hydra_Slots\<close> facts
  about streams and boards; \<open>Hydra_Hw\<close> register and packet-memory access, with a locale of long-word access and
  the round trip and confinement of packet memory; \<open>Hydra_Init\<close> \<open>get_ethernet_address\<close>, \<open>hydra_reset\<close>, \<open>setup_ne2000\<close>,
  \<open>hydra_initialize\<close>; \<open>Hydra_Autoconf\<close> \<open>hydraautoconfig\<close>; \<open>Hydra_Tx\<close> \<open>hydraxmit\<close> and \<open>transmit_interrupt\<close>;
  \<open>Hydra_Toss\<close> \<open>toss_packet_up_stream\<close>; \<open>Hydra_Rx\<close> \<open>receive_interrupt\<close>, a round of its loop split into fetching a frame
  (\<open>rx_fetch\<close>) and delivering it, end to end from the ring in packet memory to the streams;
  \<open>Hydra_Proto\<close> \<open>hydraproto\<close> and the abstract DLPI provider it refines; \<open>Hydra_Ioctl\<close> \<open>hydraioctl\<close>; \<open>Hydra_Driver\<close>
  the entry points; \<open>Hydra_System\<close> the driver as a transition system with its invariant and the contracts of open, close, flush and interrupt.
  Bounds: the receive loop runs at most 256 rounds as in the code, the reset polls 100 times as in the code.

  \<^bold>\<open>The SLIP driver\<close> (\<open>driver/slip.c\<close>, \<open>slip.h\<close>), complete: \<open>Framing\<close> a locale of self-delimiting framings, fed byte by byte;
  \<open>Slip\<close> the driver; \<open>Slip_Link\<close> the framing as an instance of the locale and the two ends joined by a line; \<open>Slip_System\<close> the
  driver as a transition system and its memory safety.

  \<^bold>\<open>Disks.\<close> \<open>Ramdisk\<close>: \<open>driver/ram.c\<close>, with the memory of a process behind \<open>vtop\<close>. \<open>Sd_Partition\<close>: \<open>alien/sdpart.c\<close> and the
  macros of \<open>alien/sd.h\<close>, against a disk given by its blocks. \<open>Sd_Cards\<close>: \<open>alien/sd.c\<close>, on top of \<open>autocon\<close> of \<open>Kernel_Support\<close>.

  \<^bold>\<open>Boot.\<close> \<open>Kernel_Support\<close>: \<open>config\<close>, \<open>autocon\<close> and the memory sizing of \<open>kernel/support.c\<close>; the sizing loop ends since every
  round that goes on found a region. \<open>Boot_Lib\<close>: \<open>chksum\<close>, \<open>sumbytes\<close>, \<open>itoa\<close>, \<open>streq\<close>, \<open>streqn\<close>, \<open>strlen\<close>, \<open>strcpy\<close>, \<open>memset\<close>, \<open>bind\<close>.
  \<open>Lzw\<close>: \<open>boot/decompress.c\<close>; \<open>Lzw_Input\<close> its input, the measure of its loop and the bits of a code; \<open>Lzw_Spec\<close> the
  decoder on strings and the greedy compressor, and that they fit; \<open>Lzw_Correct\<close> that the tables and the stack implement the
  decoder. The main loop has fuel; \<open>lzw_terminates\<close> shows that the number of bits of the input is enough.

  \<^bold>\<open>Boot kernels.\<close> The kernel is a relocatable ELF file that \<open>boot/rel.c\<close> links in place at the address it is loaded to;
  \<open>boot/elf2brel.c\<close> turns it into a smaller file with one table of offsets, which \<open>rel\<close> loads too. \<open>Elf_Image\<close>: memory byte by byte,
  and the ELF structures by the offsets of their fields (System V ABI). \<open>Boot_Rel\<close>: \<open>rel.c\<close>, \<open>struct BootData\<close> and the image \<open>reltest.c\<close> writes;
  \<open>Boot_Brel\<close>: \<open>elf2brel.c\<close>. \<open>Elf_Object\<close> is the specification: \<open>kernel_object\<close>, the files and addresses it is about, and \<open>linked\<close>, the image.
  \<open>Boot_Rel_Frame\<close> what the phases of \<open>rel\<close> leave alone, \<open>Boot_Rel_Link\<close> finding and binding the sections, \<open>Boot_Rel_Syms\<close> the symbols,
  \<open>Boot_Rel_Correct\<close> the slots, \<open>Boot_Rel_Final\<close> that \<open>rel\<close> leaves the linked image (\<open>rel_links\<close>). \<open>Boot_Brel_Syms\<close> and \<open>Boot_Brel_Table\<close>
  what \<open>elf2brel\<close> does to the symbols and which table it makes; \<open>Boot_Compact\<close> how \<open>rel\<close> loads a compact file; \<open>Boot_Kernels\<close> that both files load
  alike at every address (\<open>compact_kernel\<close>). \<open>Boot_Example\<close> is a small kernel, with common, absolute and linker-defined symbols, that the theorems apply to.
  A division by zero is \<open>None\<close>; the contents of fresh or uninitialised storage (the heap, the automatic variables) are
  parameters, and the second \<open>malloc\<close> of \<open>elf2brel\<close>, whose result the code does not check, is taken to succeed.

  \<^bold>\<open>Floppy disks.\<close> \<open>Floppy_Mfm\<close>: the codec of \<open>floppy/flopf.c\<close>; \<open>Floppy_Bits\<close> chip memory as a stream of bits and the search tables;
  \<open>Floppy_Encode\<close>, \<open>Floppy_Track\<close> what a written track is; \<open>Floppy_Ring\<close> the track as a ring of bits without a second key; \<open>Floppy_Read\<close> reading it
  back from anywhere; \<open>Floppy_Sound\<close> what an accepted track contains, and legality of what is written. \<open>Floppy_Drive\<close>: \<open>floppy/floph.c\<close>;
  \<open>Floppy_Heads\<close> the drives as machines, and that the recorded tracks are where the heads are. \<open>Floppy_Amiga\<close>: \<open>fdgetaml\<close> and \<open>fdputaml\<close>
  on the drives, down to a disk. \<open>Floppy_Cache\<close>: the track buffer cache, requests and servant of \<open>floppy/flop.c\<close>; \<open>Floppy_Store\<close> a locale of
  formats, in which the cache is shown to keep the contents of disks; \<open>Floppy_Format\<close> requests that format tracks, among the others;
  \<open>Floppy_System\<close> the interpretation of the locale by the Amiga format, and the driver as
  an array of blocks; \<open>Floppy_Raw\<close> the raw device. The assumption about drives and disks is \<open>disk_env\<close>, met by \<open>model_env\<close>.

  \<^bold>\<open>What the properties say.\<close> Functional behaviour of the receive, transmit, delivery, ioctl, open and close paths and
  of the library routines; round trips (packet memory, SLIP line, RAM disk, decompression, \<open>itoa\<close>); invariants of reachable states;
  refinement of abstract specifications (open, DLPI, linking a kernel); confinement of memory, register and disk accesses; termination; and several
  theorems that pin down where the code falls short of its intent (an overflow in a range check, a trailer
  frame or a disk request that leaves its buffer, a queue that is never served, an uninitialised count).

  \<^bold>\<open>Not modelled.\<close> Sources outside the repository (the STREAMS head, \<open>kmem_alloc\<close>, \<open>vtop\<close>, the buffer
  cache, Exec and the graphics ROM) are parameters. Interrupt priorities (\<open>splstr\<close>, \<open>splx\<close>) are left out: a step of a
  driver is taken as a whole, which is what they ensure. The A2065 Ethernet driver, the serial and parallel drivers, the
  console, the MS-DOS floppy format, the SCSI host adapters, the tape and hard disk drivers, the kernel debugger and the stages of the
  boot program that read the disk (\<open>boot1.c\<close>, \<open>boot2.c\<close>, \<open>elf2boot.c\<close>, \<open>makeiblk.c\<close>) are not modelled; the 68000 assembly, the build tools and the generated tables are out of scope.
\<close>

end
